(* ===== verification/RH_Prelude.thy ===== *)
theory RH_Prelude
  imports Main "HOL-Library.Word"
begin

text \<open>
  Shared vocabulary of the development.

  \<^item> C++ failures as values: \<open>err\<close> has one constructor for every way a function of the memory
    system can stop (a failed \<open>assert\<close>, \<open>panic\<close>, \<open>fatal\<close>, a division by zero, an array access
    out of range) or not come back (a loop without end), and \<open>'a res\<close> is the result of code that may stop.
  \<^item> Unsigned machine arithmetic: \<open>uint32_t\<close> and \<open>uint64_t\<close> values are natural numbers, and the
    operations whose wrap-around the code can reach are written out
    (\<open>inc32\<close>, \<open>dec32\<close>, \<open>sub32\<close>, \<open>sub64\<close>).
  \<^item> Arrays: a C array is a function on its indices, and its accesses are guarded by \<open>rindex\<close>
    where the index comes from outside; a small table that loops scan is a list.
  \<^item> Loops \<open>for (i = 0; i < n; i++)\<close> are recursions over the index list \<open>[0..<n]\<close>.
\<close>

section \<open>Results\<close>

datatype err =
    Assert_Fail     \<comment> \<open>\<open>assert(b)\<close> with a false condition\<close>
  | Panic           \<comment> \<open>\<open>panic(...)\<close>\<close>
  | Fatal           \<comment> \<open>\<open>fatal(...)\<close>\<close>
  | Div_By_Zero
  | Out_Of_Bounds   \<comment> \<open>an array access outside the array\<close>
  | Null_Deref      \<comment> \<open>an access through a null pointer\<close>
  | No_Return       \<comment> \<open>a loop that does not end\<close>

type_synonym 'a res = "err + 'a"

definition rbind :: "'a res \<Rightarrow> ('a \<Rightarrow> 'b res) \<Rightarrow> 'b res" where
  "rbind m f = (case m of Inl e \<Rightarrow> Inl e | Inr x \<Rightarrow> f x)"

abbreviation rassert :: "bool \<Rightarrow> 'a res \<Rightarrow> 'a res" where
  "rassert b k \<equiv> (if b then k else Inl Assert_Fail)"

abbreviation rindex :: "bool \<Rightarrow> 'a res \<Rightarrow> 'a res" where
  "rindex b k \<equiv> (if b then k else Inl Out_Of_Bounds)"

abbreviation rnonzero :: "nat \<Rightarrow> 'a res \<Rightarrow> 'a res" where
  "rnonzero d k \<equiv> (if d = 0 then Inl Div_By_Zero else k)"

text \<open>The result of a loop that is an option (\<open>None\<close>: it does not end).\<close>

definition rloop :: "'a option \<Rightarrow> 'a res" where
  "rloop r = (case r of None \<Rightarrow> Inl No_Return | Some x \<Rightarrow> Inr x)"

section \<open>Unsigned arithmetic\<close>

abbreviation u32_size :: nat where "u32_size \<equiv> 2 ^ 32"
abbreviation u64_size :: nat where "u64_size \<equiv> 2 ^ 64"

definition inc32 :: "nat \<Rightarrow> nat" where
  "inc32 x = (x + 1) mod u32_size"

definition dec32 :: "nat \<Rightarrow> nat" where
  "dec32 x = (x + (u32_size - 1)) mod u32_size"

definition sub32 :: "nat \<Rightarrow> nat \<Rightarrow> nat" where
  "sub32 x y = (x + (u32_size - y mod u32_size)) mod u32_size"

definition sub64 :: "nat \<Rightarrow> nat \<Rightarrow> nat" where
  "sub64 x y = (x + (u64_size - y mod u64_size)) mod u64_size"

section \<open>Types the components share\<close>

type_synonym tick = nat       \<comment> \<open>\<open>Tick\<close>, picoseconds\<close>
type_synonym addr = nat       \<comment> \<open>\<open>Addr\<close>\<close>
type_synonym bank_ix = "nat \<times> nat \<times> nat"   \<comment> \<open>channel, rank, bank\<close>

section \<open>Library lemmas\<close>

named_theorems res_simps \<open>rewriting of results\<close>
named_theorems u_simps \<open>unsigned arithmetic without wrap-around\<close>

lemma rbind_simps [simp, res_simps]:
  "rbind (Inl e) f = Inl e"
  "rbind (Inr x) f = f x"
  by (simp_all add: rbind_def)

lemma rloop_simps [simp, res_simps]: "rloop None = Inl No_Return" "rloop (Some x) = Inr x"
  by (simp_all add: rloop_def)

lemma rbind_Inr_iff [res_simps]: "rbind m f = Inr y \<longleftrightarrow> (\<exists>x. m = Inr x \<and> f x = Inr y)"
  by (cases m) auto

lemma rbind_InrE:
  assumes "rbind m f = Inr y"
  obtains x where "m = Inr x" and "f x = Inr y"
  using assms by (auto simp: rbind_Inr_iff)

lemma rbind_cong [fundef_cong]:
  assumes "m = m'" and "\<And>x. m' = Inr x \<Longrightarrow> f x = f' x"
  shows "rbind m f = rbind m' f'"
  using assms by (cases m') auto

lemma inc32_noov [u_simps]: "x + 1 < u32_size \<Longrightarrow> inc32 x = x + 1"
  by (simp add: inc32_def)

lemma dec32_pos [u_simps]: "0 < x \<Longrightarrow> x < u32_size \<Longrightarrow> dec32 x = x - 1"
  by (cases x) (simp_all add: dec32_def)

lemma dec32_zero [u_simps]: "dec32 0 = u32_size - 1"
  by (simp add: dec32_def)

lemma sub32_le [u_simps]: "y \<le> x \<Longrightarrow> x < u32_size \<Longrightarrow> sub32 x y = x - y"
proof -
  assume le: "y \<le> x" and lt: "x < u32_size"
  have "x + (u32_size - y mod u32_size) = (x - y) + u32_size"
    using le lt by simp
  moreover have "x - y < u32_size" using lt by simp
  ultimately show ?thesis by (simp add: sub32_def)
qed

lemma sub64_le [u_simps]: "y \<le> x \<Longrightarrow> x < u64_size \<Longrightarrow> sub64 x y = x - y"
proof -
  assume le: "y \<le> x" and lt: "x < u64_size"
  have "x + (u64_size - y mod u64_size) = (x - y) + u64_size"
    using le lt by simp
  moreover have "x - y < u64_size" using lt by simp
  ultimately show ?thesis by (simp add: sub64_def)
qed

lemma sum_list_update_nat:
  fixes xs :: "nat list"
  assumes "i < length xs"
  shows "sum_list (xs[i := v]) + xs ! i = sum_list xs + v"
  using assms
proof (induction xs arbitrary: i)
  case (Cons x xs)
  then show ?case by (cases i) auto
qed simp

lemma sum_list_ge_const:
  fixes xs :: "nat list"
  assumes "\<And>x. x \<in> set xs \<Longrightarrow> k \<le> x"
  shows "length xs * k \<le> sum_list xs"
  using assms
proof (induction xs)
  case (Cons x xs)
  then have "k \<le> x" and "length xs * k \<le> sum_list xs" by auto
  then show ?case by simp
qed simp

lemma count_list_snoc [simp]: "count_list (xs @ [x]) y = count_list xs y + (if x = y then 1 else 0)"
  by (induction xs) auto

end
