(* ===== verification/Detector_Spec.thy ===== *)
theory Detector_Spec
  imports RH_Prelude
begin

text \<open>
  The interface \<open>class RH_Detector\<close> of \<open>mem/rowhammer_detector.hh\<close>: the virtual methods a
  mitigation calls, as a record of functions on the detector's state, and what a mitigation
  relies on, as a locale. \<open>d_inv d k\<close> says that \<open>d\<close> is consistent and has seen at most \<open>k\<close>
  accesses since its last reset; the number bounds the 32-bit counters.
\<close>

record 'd detector_ops =
  d_access :: "'d \<Rightarrow> addr \<Rightarrow> nat \<Rightarrow> nat \<Rightarrow> nat \<Rightarrow> bool \<Rightarrow> (bool \<times> 'd) res"
  d_reset :: "'d \<Rightarrow> 'd"

record detector_dims =
  dim_rows :: nat
  dim_banks :: nat
  dim_ranks :: nat
  dim_channels :: nat

definition in_dims :: "detector_dims \<Rightarrow> addr \<Rightarrow> nat \<Rightarrow> nat \<Rightarrow> nat \<Rightarrow> bool" where
  "in_dims ds row bank rank ch \<longleftrightarrow>
     row < dim_rows ds \<and> bank < dim_banks ds \<and> rank < dim_ranks ds \<and> ch < dim_channels ds"

text \<open>A sequence of accesses to any banks, with the accesses that were flagged.\<close>

fun det_run :: "'d detector_ops \<Rightarrow> 'd \<Rightarrow> (addr \<times> bank_ix) list \<Rightarrow> ((addr \<times> bank_ix) list \<times> 'd) res" where
  "det_run D d [] = Inr ([], d)"
| "det_run D d ((row, (ch, rank, bank)) # as) =
     rbind (d_access D d row bank rank ch False) (\<lambda>(agg, d1).
     rbind (det_run D d1 as) (\<lambda>(fl, d2).
       Inr ((if agg then [(row, (ch, rank, bank))] else []) @ fl, d2)))"

text \<open>The rows of one bank in a list of accesses.\<close>

definition bank_rows :: "bank_ix \<Rightarrow> (addr \<times> bank_ix) list \<Rightarrow> addr list" where
  "bank_rows ix h = map fst (filter (\<lambda>a. snd a = ix) h)"

locale rh_detector =
  fixes D :: "'d detector_ops"
    and dims :: "'d \<Rightarrow> detector_dims"
    and d_inv :: "'d \<Rightarrow> nat \<Rightarrow> bool"
  assumes functional_lookup:
      "d_inv d k \<Longrightarrow> in_dims (dims d) row bank rank ch \<Longrightarrow>
         \<exists>b. d_access D d row bank rank ch True = Inr (b, d)"
    and counted_access:
      "d_inv d k \<Longrightarrow> k + 1 < u32_size \<Longrightarrow> in_dims (dims d) row bank rank ch \<Longrightarrow>
         \<exists>b d'. d_access D d row bank rank ch False = Inr (b, d') \<and> d_inv d' (k + 1) \<and> dims d' = dims d"
    and reset_inv: "d_inv d k \<Longrightarrow> d_inv (d_reset D d) 0"
    and reset_dims: "dims (d_reset D d) = dims d"
begin

lemma lookup_same_state:
  assumes "d_inv d k" and "in_dims (dims d) row bank rank ch"
    and "d_access D d row bank rank ch True = Inr (b, d')"
  shows "d' = d"
  using functional_lookup[OF assms(1,2)] assms(3) by auto

end

text \<open>A detector that tracks at most \<open>cap\<close> rows of a bank: what a mitigation needs to find free rows.\<close>

locale bounded_detector = rh_detector D dims d_inv
  for D :: "'d detector_ops" and dims :: "'d \<Rightarrow> detector_dims" and d_inv :: "'d \<Rightarrow> nat \<Rightarrow> bool" +
  fixes cap :: "'d \<Rightarrow> nat"
  assumes tracked_bound:
      "d_inv d k \<Longrightarrow> card {row. in_dims (dims d) row bank rank ch \<and>
          d_access D d row bank rank ch True = Inr (True, d)} \<le> cap d"
    and counted_access_cap:
      "d_inv d k \<Longrightarrow> d_access D d row bank rank ch False = Inr (b, d') \<Longrightarrow> cap d' = cap d"
    and reset_cap: "cap (d_reset D d) = cap d"

end
