(* ===== verification/Misra_Gries.thy ===== *)
theory Misra_Gries
  imports Detector_Spec
begin

text \<open>
  The aggressor detector: \<open>class Misra_Gries\<close> of \<open>mem/rowhammer_detector.hh\<close> and
  \<open>mem/rowhammer_detector.cc\<close>, a Misra-Gries summary with a spill counter per bank.
  \<open>tracker_access\<close> is the body of \<open>Misra_Gries::access\<close> on the tracker it selects,
  \<open>mg_access\<close> and \<open>mg_reset\<close> are the virtual methods.
  The lemmas show that the tables stay consistent, that no \<open>assert\<close> of \<open>access\<close> can fail,
  that the counts over-approximate the accesses of every row, and that a row that is
  activated \<open>k * threshold\<close> times in a window is flagged at least \<open>k\<close> times.
\<close>

section \<open>State\<close>

record tracker_entry =
  te_valid :: bool
  te_addr :: addr
  te_count :: nat

record tracker =
  tr_entries :: "tracker_entry list"
  spill_counter :: nat
  uniq_rows :: "addr set"
  rowHasEntry :: "addr \<Rightarrow> nat"
  s_num_reset :: nat
  s_glob_spill_count :: nat
  s_num_access :: nat
  s_num_install :: nat
  s_aggressors :: nat

record misra_gries =
  trackers :: "bank_ix \<Rightarrow> tracker"
  mg_threshold :: nat
  mg_numEntries :: nat
  mg_numRows :: nat
  mg_numBanks :: nat
  mg_numRanks :: nat
  mg_numChannels :: nat
  s_numUniqRows :: nat

definition zero_entry :: tracker_entry where
  "zero_entry = \<lparr>te_valid = False, te_addr = 0, te_count = 0\<rparr>"

section \<open>Operations\<close>

text \<open>
  The constructor. \<open>calloc\<close> clears the two tables; \<open>new Tracker[n]\<close> leaves the other
  scalar members of a tracker uninitialised, so they are taken from \<open>junk\<close>.
\<close>

definition tracker_new :: "tracker \<Rightarrow> nat \<Rightarrow> tracker" where
  "tracker_new junk n =
     junk\<lparr>tr_entries := replicate n zero_entry, uniq_rows := {}, rowHasEntry := (\<lambda>_. 0)\<rparr>"

definition mg_new :: "(bank_ix \<Rightarrow> tracker) \<Rightarrow> nat \<Rightarrow> nat \<Rightarrow> nat \<Rightarrow> nat \<Rightarrow> nat \<Rightarrow> nat \<Rightarrow> misra_gries" where
  "mg_new junk numEntries threshold numRows numBanks numRanks numChannels =
     \<lparr>trackers = (\<lambda>ix. tracker_new (junk ix) numEntries),
      mg_threshold = threshold, mg_numEntries = numEntries, mg_numRows = numRows,
      mg_numBanks = numBanks, mg_numRanks = numRanks, mg_numChannels = numChannels,
      s_numUniqRows = 0\<rparr>"

definition mg_in_range :: "misra_gries \<Rightarrow> nat \<Rightarrow> nat \<Rightarrow> nat \<Rightarrow> bool" where
  "mg_in_range m bank rank ch \<longleftrightarrow>
     ch < mg_numChannels m \<and> rank < mg_numRanks m \<and> bank < mg_numBanks m"

definition tracker_reset :: "nat \<Rightarrow> nat \<Rightarrow> tracker \<Rightarrow> tracker" where
  "tracker_reset numEntries numRows t =
     t\<lparr>s_num_reset := s_num_reset t + 1,
       s_glob_spill_count := s_glob_spill_count t + spill_counter t,
       spill_counter := 0,
       tr_entries := replicate numEntries zero_entry,
       rowHasEntry := (\<lambda>r. if r < numRows then 0 else rowHasEntry t r)\<rparr>"

definition mg_reset :: "misra_gries \<Rightarrow> misra_gries" where
  "mg_reset m = m\<lparr>trackers := (\<lambda>(ch, rank, bank).
      if mg_in_range m bank rank ch
      then tracker_reset (mg_numEntries m) (mg_numRows m) (trackers m (ch, rank, bank))
      else trackers m (ch, rank, bank))\<rparr>"

text \<open>The test \<open>count % threshold == 0\<close> and the bookkeeping of unique aggressors.\<close>

definition mg_flag :: "nat \<Rightarrow> addr \<Rightarrow> nat \<Rightarrow> tracker \<Rightarrow> nat \<Rightarrow> bool \<times> tracker \<times> nat" where
  "mg_flag threshold row count t uniq =
     (if count mod threshold = 0
      then (True, t\<lparr>uniq_rows := insert row (uniq_rows t)\<rparr>,
            if row \<in> uniq_rows t then uniq else uniq + 1)
      else (False, t, uniq))"

text \<open>Count an access on entry \<open>k\<close>.\<close>

definition tracker_bump :: "nat \<Rightarrow> tracker \<Rightarrow> tracker" where
  "tracker_bump k t = t\<lparr>tr_entries := (tr_entries t)
     [k := (tr_entries t ! k)\<lparr>te_count := inc32 (te_count (tr_entries t ! k))\<rparr>]\<rparr>"

text \<open>The row has an entry: check it and, unless the lookup is functional, count the access.\<close>

definition tracker_hit :: "nat \<Rightarrow> tracker \<Rightarrow> nat \<Rightarrow> addr \<Rightarrow> bool \<Rightarrow> (bool \<times> tracker \<times> nat) res" where
  "tracker_hit threshold t uniq row isFuncLookup =
     (let entryID = rowHasEntry t row - 1 in
      rindex (entryID < length (tr_entries t))
        (let e = tr_entries t ! entryID in
         rassert (te_valid e \<and> te_addr e = row)
           (if isFuncLookup then Inr (False, t, uniq)
            else rnonzero threshold
                   (Inr (mg_flag threshold row (inc32 (te_count e)) (tracker_bump entryID t) uniq)))))"

text \<open>Replace entry \<open>ii\<close> by the accessed row.\<close>

definition tracker_install :: "addr \<Rightarrow> nat \<Rightarrow> tracker \<Rightarrow> tracker" where
  "tracker_install row ii t =
     (let e = tr_entries t ! ii;
          rhe = (if te_valid e then (rowHasEntry t)(te_addr e := 0) else rowHasEntry t)
      in t\<lparr>tr_entries := (tr_entries t)
              [ii := \<lparr>te_valid = True, te_addr = row, te_count = inc32 (te_count e)\<rparr>],
           s_num_install := s_num_install t + 1,
           rowHasEntry := rhe(row := ii + 1)\<rparr>)"

text \<open>
  The loop over the entries: the first entry whose count equals the spill counter is replaced.
  The result says whether an entry was found and whether the row is flagged.
\<close>

fun tracker_scan :: "nat \<Rightarrow> addr \<Rightarrow> tracker \<Rightarrow> nat \<Rightarrow> nat list \<Rightarrow> (bool \<times> bool \<times> tracker \<times> nat) res" where
  "tracker_scan threshold row t uniq [] = Inr (False, False, t, uniq)"
| "tracker_scan threshold row t uniq (ii # iis) =
     (let e = tr_entries t ! ii in
      if te_count e = spill_counter t then
        rnonzero threshold
          (Inr (True, mg_flag threshold row (inc32 (te_count e)) (tracker_install row ii t) uniq))
      else rassert (te_valid e) (tracker_scan threshold row t uniq iis))"

definition tracker_access ::
    "nat \<Rightarrow> nat \<Rightarrow> tracker \<Rightarrow> nat \<Rightarrow> addr \<Rightarrow> bool \<Rightarrow> (bool \<times> tracker \<times> nat) res" where
  "tracker_access threshold numEntries t uniq row isFuncLookup =
     (let t1 = (if isFuncLookup then t else t\<lparr>s_num_access := s_num_access t + 1\<rparr>) in
      rbind (if rowHasEntry t1 row \<noteq> 0
             then rbind (tracker_hit threshold t1 uniq row isFuncLookup) (\<lambda>r. Inr (True, r))
             else Inr (False, False, t1, uniq))
        (\<lambda>(entry_found, aggressor_detected, t2, uniq2).
      rbind (if \<not> entry_found \<and> \<not> isFuncLookup
             then rbind (tracker_scan threshold row t2 uniq2 [0..<numEntries])
                    (\<lambda>(f, a, t3, uniq3). Inr (f, a,
                        if f then t3 else t3\<lparr>spill_counter := inc32 (spill_counter t3)\<rparr>, uniq3))
             else Inr (entry_found, aggressor_detected, t2, uniq2))
        (\<lambda>(entry_found, aggressor_detected, t4, uniq4).
      let t5 = (if aggressor_detected \<and> \<not> isFuncLookup
                then t4\<lparr>s_aggressors := s_aggressors t4 + 1\<rparr> else t4)
      in Inr (if isFuncLookup then entry_found else aggressor_detected, t5, uniq4))))"

definition mg_access ::
    "misra_gries \<Rightarrow> addr \<Rightarrow> nat \<Rightarrow> nat \<Rightarrow> nat \<Rightarrow> bool \<Rightarrow> (bool \<times> misra_gries) res" where
  "mg_access m row bank rank ch isFuncLookup =
     rindex (mg_in_range m bank rank ch \<and> row < mg_numRows m)
       (rbind (tracker_access (mg_threshold m) (mg_numEntries m) (trackers m (ch, rank, bank))
                 (s_numUniqRows m) row isFuncLookup)
          (\<lambda>(r, t, uniq). Inr (r, m\<lparr>trackers := (trackers m)((ch, rank, bank) := t),
                                    s_numUniqRows := uniq\<rparr>)))"

text \<open>The virtual methods of the class.\<close>

definition mg_ops :: "misra_gries detector_ops" where
  "mg_ops = \<lparr>d_access = mg_access, d_reset = mg_reset\<rparr>"

text \<open>A sequence of accesses to any banks, with the accesses that were flagged.\<close>

abbreviation mg_run :: "misra_gries \<Rightarrow> (addr \<times> bank_ix) list \<Rightarrow> ((addr \<times> bank_ix) list \<times> misra_gries) res" where
  "mg_run \<equiv> det_run mg_ops"

section \<open>Invariants\<close>

text \<open>The two tables describe the same set of tracked rows.\<close>

definition tracker_wf :: "nat \<Rightarrow> nat \<Rightarrow> tracker \<Rightarrow> bool" where
  "tracker_wf n numRows t \<longleftrightarrow>
     length (tr_entries t) = n \<and>
     (\<forall>i<n. te_valid (tr_entries t ! i) \<longrightarrow>
        te_addr (tr_entries t ! i) < numRows \<and> rowHasEntry t (te_addr (tr_entries t ! i)) = i + 1) \<and>
     (\<forall>r<numRows. rowHasEntry t r \<noteq> 0 \<longrightarrow>
        rowHasEntry t r \<le> n \<and> te_valid (tr_entries t ! (rowHasEntry t r - 1)) \<and>
        te_addr (tr_entries t ! (rowHasEntry t r - 1)) = r) \<and>
     (\<forall>i<n. spill_counter t \<le> te_count (tr_entries t ! i)) \<and>
     (\<forall>i<n. \<not> te_valid (tr_entries t ! i) \<longrightarrow> te_count (tr_entries t ! i) = 0)"

text \<open>What the summary knows of a row: its entry's count, or the spill counter.\<close>

definition estimate :: "tracker \<Rightarrow> addr \<Rightarrow> nat" where
  "estimate t r = (if rowHasEntry t r \<noteq> 0 then te_count (tr_entries t ! (rowHasEntry t r - 1))
                   else spill_counter t)"

text \<open>The summary against the accesses \<open>hist\<close> of the current window.\<close>

definition tracker_sound :: "nat \<Rightarrow> nat \<Rightarrow> tracker \<Rightarrow> addr list \<Rightarrow> bool" where
  "tracker_sound n numRows t hist \<longleftrightarrow>
     tracker_wf n numRows t \<and>
     sum_list (map te_count (tr_entries t)) + spill_counter t = length hist \<and>
     (\<forall>r<numRows. count_list hist r \<le> estimate t r)"

text \<open>The rows flagged so far: a tracked row was flagged once per \<open>threshold\<close> counts.\<close>

definition flags_ok :: "nat \<Rightarrow> nat \<Rightarrow> tracker \<Rightarrow> addr list \<Rightarrow> bool" where
  "flags_ok T numRows t fl \<longleftrightarrow>
     (\<forall>r<numRows. count_list fl r = (if rowHasEntry t r \<noteq> 0 then estimate t r div T else 0))"

text \<open>The detector as a whole.\<close>

definition mg_ix :: "misra_gries \<Rightarrow> bank_ix set" where
  "mg_ix m = {(ch, rank, bank). mg_in_range m bank rank ch}"

definition mg_sound :: "misra_gries \<Rightarrow> (addr \<times> bank_ix) list \<Rightarrow> bool" where
  "mg_sound m h \<longleftrightarrow> (\<forall>ix\<in>mg_ix m.
     tracker_sound (mg_numEntries m) (mg_numRows m) (trackers m ix) (bank_rows ix h))"

definition mg_flags_ok :: "misra_gries \<Rightarrow> (addr \<times> bank_ix) list \<Rightarrow> bool" where
  "mg_flags_ok m fl \<longleftrightarrow> (\<forall>ix\<in>mg_ix m.
     flags_ok (mg_threshold m) (mg_numRows m) (trackers m ix) (bank_rows ix fl))"

definition mg_dims :: "misra_gries \<Rightarrow> detector_dims" where
  "mg_dims m = \<lparr>dim_rows = mg_numRows m, dim_banks = mg_numBanks m,
                dim_ranks = mg_numRanks m, dim_channels = mg_numChannels m\<rparr>"

definition mg_inv :: "misra_gries \<Rightarrow> nat \<Rightarrow> bool" where
  "mg_inv m k \<longleftrightarrow> 0 < mg_threshold m \<and> (\<exists>h. length h \<le> k \<and> mg_sound m h)"

section \<open>Single accesses\<close>

lemma tracker_sound_frame [simp]:
  "tracker_sound n nr (t\<lparr>s_num_access := a\<rparr>) h = tracker_sound n nr t h"
  "tracker_sound n nr (t\<lparr>s_aggressors := a\<rparr>) h = tracker_sound n nr t h"
  "tracker_sound n nr (t\<lparr>uniq_rows := q\<rparr>) h = tracker_sound n nr t h"
  by (simp_all add: tracker_sound_def tracker_wf_def estimate_def)

lemma flags_ok_frame [simp]:
  "flags_ok T nr (t\<lparr>s_num_access := a\<rparr>) h = flags_ok T nr t h"
  "flags_ok T nr (t\<lparr>s_aggressors := a\<rparr>) h = flags_ok T nr t h"
  "flags_ok T nr (t\<lparr>uniq_rows := q\<rparr>) h = flags_ok T nr t h"
  by (simp_all add: flags_ok_def estimate_def)

lemma tracker_wfD:
  assumes "tracker_wf n nr t"
  shows "length (tr_entries t) = n"
    and "\<And>i. i < n \<Longrightarrow> te_valid (tr_entries t ! i) \<Longrightarrow> te_addr (tr_entries t ! i) < nr"
    and "\<And>i. i < n \<Longrightarrow> te_valid (tr_entries t ! i) \<Longrightarrow> rowHasEntry t (te_addr (tr_entries t ! i)) = i + 1"
    and "\<And>r. r < nr \<Longrightarrow> rowHasEntry t r \<noteq> 0 \<Longrightarrow> rowHasEntry t r - 1 < n"
    and "\<And>r. r < nr \<Longrightarrow> rowHasEntry t r \<noteq> 0 \<Longrightarrow> te_valid (tr_entries t ! (rowHasEntry t r - 1))"
    and "\<And>r. r < nr \<Longrightarrow> rowHasEntry t r \<noteq> 0 \<Longrightarrow> te_addr (tr_entries t ! (rowHasEntry t r - 1)) = r"
    and "\<And>i. i < n \<Longrightarrow> spill_counter t \<le> te_count (tr_entries t ! i)"
    and "\<And>i. i < n \<Longrightarrow> \<not> te_valid (tr_entries t ! i) \<Longrightarrow> te_count (tr_entries t ! i) = 0"
  using assms by (fastforce simp: tracker_wf_def)+

lemma tracker_soundD:
  assumes "tracker_sound n nr t h"
  shows "tracker_wf n nr t" and "length (tr_entries t) = n"
    and "\<And>i. i < n \<Longrightarrow> spill_counter t \<le> te_count (tr_entries t ! i)"
    and "\<And>i. i < n \<Longrightarrow> \<not> te_valid (tr_entries t ! i) \<Longrightarrow> te_count (tr_entries t ! i) = 0"
  using assms by (simp_all add: tracker_sound_def tracker_wf_def)

lemma tracker_sound_spill_bound:
  assumes "tracker_sound n nr t h"
  shows "(n + 1) * spill_counter t \<le> length h"
proof -
  have "length (map te_count (tr_entries t)) * spill_counter t \<le> sum_list (map te_count (tr_entries t))"
    by (rule sum_list_ge_const)
      (use tracker_soundD[OF assms] in \<open>auto simp: in_set_conv_nth\<close>)
  then show ?thesis
    using assms by (simp add: tracker_sound_def tracker_wf_def)
qed

lemma tracker_sound_count_le:
  assumes "tracker_sound n nr t h" and "i < n"
  shows "te_count (tr_entries t ! i) \<le> length h"
proof -
  have "te_count (tr_entries t ! i) \<in> set (map te_count (tr_entries t))"
    using assms tracker_soundD(2)[OF assms(1)] by simp
  then have "te_count (tr_entries t ! i) \<le> sum_list (map te_count (tr_entries t))"
    by (rule member_le_sum_list) simp
  then show ?thesis using assms(1) by (simp add: tracker_sound_def)
qed

lemma tracker_access_functional:
  assumes "tracker_wf n nr t" and "r < nr"
  shows "tracker_access T n t u r True = Inr (rowHasEntry t r \<noteq> 0, t, u)"
  using assms by (auto simp: tracker_access_def tracker_hit_def tracker_wf_def Let_def)

lemma tracker_scan_eq:
  assumes "tracker_wf n nr t" and "\<forall>i\<in>set iis. i < n"
  shows "tracker_scan T row t u iis =
    (case find (\<lambda>i. te_count (tr_entries t ! i) = spill_counter t) iis of
       None \<Rightarrow> Inr (False, False, t, u)
     | Some i \<Rightarrow> rnonzero T (Inr (True, mg_flag T row (inc32 (spill_counter t)) (tracker_install row i t) u)))"
  using assms(2)
proof (induction iis)
  case (Cons i iis)
  have "te_valid (tr_entries t ! i)" if "te_count (tr_entries t ! i) \<noteq> spill_counter t"
    using that tracker_wfD(7,8)[OF assms(1), of i] Cons.prems by auto
  with Cons show ?case by (auto simp: Let_def)
qed simp

lemma tracker_bump_noov:
  assumes "te_count (tr_entries t ! k) + 1 < u32_size"
  shows "tracker_bump k t = t\<lparr>tr_entries := (tr_entries t)
     [k := (tr_entries t ! k)\<lparr>te_count := Suc (te_count (tr_entries t ! k))\<rparr>]\<rparr>"
  using assms by (simp add: tracker_bump_def u_simps)

lemma tracker_hit_sound:
  assumes snd: "tracker_sound n nr t h" and r: "r < nr" and k: "rowHasEntry t r = Suc k"
    and ov: "te_count (tr_entries t ! k) + 1 < u32_size"
  shows "tracker_sound n nr (tracker_bump k t) (h @ [r])"
    (is "tracker_sound n nr ?t' _")
proof -
  note bump = tracker_bump_noov[OF ov]
  note wf = tracker_wfD[OF tracker_soundD(1)[OF snd]]
  have kn: "k < n" and kr: "te_addr (tr_entries t ! k) = r" and kv: "te_valid (tr_entries t ! k)"
    using wf(4,5,6)[OF r] k by auto
  have "tracker_wf n nr ?t'"
    using tracker_soundD(1)[OF snd] kn kv
    by (auto simp: bump tracker_wf_def nth_list_update le_SucI)
  moreover have "sum_list (map te_count (tr_entries ?t')) = Suc (sum_list (map te_count (tr_entries t)))"
    using sum_list_update_nat[of k "map te_count (tr_entries t)" "Suc (te_count (tr_entries t ! k))"] kn wf(1)
    by (simp add: bump map_update)
  moreover have "count_list (h @ [r]) q \<le> estimate ?t' q" if q: "q < nr" for q
  proof -
    have "count_list h q \<le> estimate t q" using snd q by (simp add: tracker_sound_def)
    moreover have "rowHasEntry t q - 1 = k \<longleftrightarrow> q = r" if "rowHasEntry t q \<noteq> 0"
      using wf(6)[OF q that] kr k by auto
    ultimately show ?thesis using k kn wf(1) by (auto simp: bump estimate_def nth_list_update)
  qed
  ultimately show ?thesis using snd by (simp add: tracker_sound_def bump)
qed

lemma tracker_install_simps [simp]:
  "length (tr_entries (tracker_install r i t)) = length (tr_entries t)"
  "spill_counter (tracker_install r i t) = spill_counter t"
  by (simp_all add: tracker_install_def Let_def)

lemma tracker_install_nth:
  "j < length (tr_entries t) \<Longrightarrow> tr_entries (tracker_install r i t) ! j =
     (if j = i then \<lparr>te_valid = True, te_addr = r, te_count = inc32 (te_count (tr_entries t ! i))\<rparr>
      else tr_entries t ! j)"
  by (simp add: tracker_install_def Let_def nth_list_update)

lemma tracker_install_rhe:
  "rowHasEntry (tracker_install r i t) q =
     (if q = r then i + 1
      else if te_valid (tr_entries t ! i) \<and> te_addr (tr_entries t ! i) = q then 0
      else rowHasEntry t q)"
  by (simp add: tracker_install_def Let_def)

lemma tracker_install_sound:
  assumes snd: "tracker_sound n nr t h" and r: "r < nr" and un: "rowHasEntry t r = 0"
    and i: "i < n" and eq: "te_count (tr_entries t ! i) = spill_counter t"
    and ov: "length h + 1 < u32_size"
  shows "tracker_sound n nr (tracker_install r i t) (h @ [r])" (is "tracker_sound n nr ?t' _")
proof -
  note wf = tracker_wfD[OF tracker_soundD(1)[OF snd]]
  have inc: "inc32 (te_count (tr_entries t ! i)) = Suc (spill_counter t)"
    using tracker_sound_count_le[OF snd i] ov eq by (simp add: u_simps)
  have other: "rowHasEntry t q - 1 \<noteq> i" 
    if "q < nr" "rowHasEntry t q \<noteq> 0" "\<not> (te_valid (tr_entries t ! i) \<and> te_addr (tr_entries t ! i) = q)" for q
    using wf(5,6)[OF that(1,2)] that(3) by auto
  have "tracker_wf n nr ?t'"
    unfolding tracker_wf_def
  proof (intro conjI allI impI)
    fix q assume "q < nr" "rowHasEntry ?t' q \<noteq> 0"
    then show "rowHasEntry ?t' q \<le> n" "te_valid (tr_entries ?t' ! (rowHasEntry ?t' q - 1))"
        "te_addr (tr_entries ?t' ! (rowHasEntry ?t' q - 1)) = q"
      using wf(1) wf(4)[of q] wf(5)[of q] wf(6)[of q] i other[of q]
      by (auto simp: tracker_install_rhe tracker_install_nth split: if_splits)
  next
    fix j assume j: "j < n" "te_valid (tr_entries ?t' ! j)"
    then show "rowHasEntry ?t' (te_addr (tr_entries ?t' ! j)) = j + 1"
      using wf(1) wf(3)[of j] wf(3)[of i] i un
      by (auto simp: tracker_install_rhe tracker_install_nth)
  qed (use wf r i inc in \<open>auto simp: tracker_install_nth\<close>)
  moreover have "sum_list (map te_count (tr_entries ?t')) = Suc (sum_list (map te_count (tr_entries t)))"
    using sum_list_update_nat[of i "map te_count (tr_entries t)" "Suc (spill_counter t)"] i wf(1) eq inc
    by (simp add: tracker_install_def Let_def map_update)
  moreover have "count_list (h @ [r]) q \<le> estimate ?t' q" if q: "q < nr" for q
  proof -
    have le: "count_list h q \<le> estimate t q" using snd q by (simp add: tracker_sound_def)
    show ?thesis
    proof (cases "q = r")
      case True
      then show ?thesis using le un i wf(1) inc
        by (simp add: estimate_def tracker_install_rhe tracker_install_nth)
    next
      case False
      then show ?thesis using le i wf(1) wf(3)[OF i] wf(4)[OF q] other[OF q] eq
        by (auto simp: estimate_def tracker_install_rhe tracker_install_nth)
    qed
  qed
  ultimately show ?thesis using snd by (simp add: tracker_sound_def)
qed

lemma tracker_spill_sound:
  assumes snd: "tracker_sound n nr t h" and r: "r < nr" and un: "rowHasEntry t r = 0"
    and ne: "\<And>i. i < n \<Longrightarrow> te_count (tr_entries t ! i) \<noteq> spill_counter t"
  shows "tracker_sound n nr (t\<lparr>spill_counter := Suc (spill_counter t)\<rparr>) (h @ [r])" (is "tracker_sound n nr ?t' _")
proof -
  note wf = tracker_wfD[OF tracker_soundD(1)[OF snd]]
  have lt: "spill_counter t < te_count (tr_entries t ! i)" if "i < n" for i
    using wf(7)[OF that] ne[OF that] by simp
  have "tracker_wf n nr ?t'"
    using tracker_soundD(1)[OF snd] lt by (auto simp: tracker_wf_def Suc_le_eq)
  moreover have "count_list (h @ [r]) q \<le> estimate ?t' q" if "q < nr" for q
    using snd that un by (auto simp: tracker_sound_def estimate_def)
  ultimately show ?thesis using snd by (simp add: tracker_sound_def)
qed

lemma mg_flag_eq:
  "\<exists>q u'. mg_flag T row c t u = (c mod T = 0, t\<lparr>uniq_rows := q\<rparr>, u')"
proof (cases "c mod T = 0")
  case False
  then show ?thesis
    by (intro exI[of _ "uniq_rows t"] exI[of _ u]) (simp add: mg_flag_def)
qed (auto simp: mg_flag_def)

lemma div_step:
  "0 < (T::nat) \<Longrightarrow> Suc c div T = c div T + (if Suc c mod T = 0 then 1 else 0)"
  by (simp add: div_Suc)

lemma flags_hit:
  assumes wf: "tracker_wf n nr t" and r: "r < nr" and k: "rowHasEntry t r = Suc k" and T: "0 < T"
    and ov: "te_count (tr_entries t ! k) + 1 < u32_size" and fl: "flags_ok T nr t fl"
  shows "flags_ok T nr (tracker_bump k t)
    (fl @ (if Suc (te_count (tr_entries t ! k)) mod T = 0 then [r] else []))"
    (is "flags_ok T nr ?t' _")
  unfolding flags_ok_def
proof (intro allI impI)
  fix q assume q: "q < nr"
  note wf' = tracker_wfD[OF wf]
  have ql: "count_list fl q = (if rowHasEntry t q \<noteq> 0 then estimate t q div T else 0)"
    using fl q by (simp add: flags_ok_def)
  have "rowHasEntry t q - 1 = k \<longleftrightarrow> q = r" if "rowHasEntry t q \<noteq> 0"
    using wf'(6)[OF q that] wf'(6)[OF r] k by auto
  then show "count_list (fl @ (if Suc (te_count (tr_entries t ! k)) mod T = 0 then [r] else [])) q =
      (if rowHasEntry ?t' q \<noteq> 0 then estimate ?t' q div T else 0)"
    using ql k wf'(1) wf'(4)[OF r] T div_step[OF T, of "te_count (tr_entries t ! k)"]
    by (auto simp: tracker_bump_noov[OF ov] estimate_def nth_list_update)
qed

lemma flags_install:
  assumes snd: "tracker_sound n nr t h" and r: "r < nr" and un: "rowHasEntry t r = 0"
    and i: "i < n" and eq: "te_count (tr_entries t ! i) = spill_counter t"
    and ov: "length h + 1 < u32_size" and T: "spill_counter t < T" and fl: "flags_ok T nr t fl"
  shows "flags_ok T nr (tracker_install r i t)
    (fl @ (if Suc (spill_counter t) mod T = 0 then [r] else []))"
    (is "flags_ok T nr ?t' _")
  unfolding flags_ok_def
proof (intro allI impI)
  fix q assume q: "q < nr"
  note wf' = tracker_wfD[OF tracker_soundD(1)[OF snd]]
  have ql: "count_list fl q = (if rowHasEntry t q \<noteq> 0 then estimate t q div T else 0)"
    using fl q by (simp add: flags_ok_def)
  have inc: "inc32 (spill_counter t) = Suc (spill_counter t)"
    using tracker_sound_count_le[OF snd i] ov eq by (simp add: u_simps)
  have other: "rowHasEntry t q - 1 \<noteq> i"
    if "rowHasEntry t q \<noteq> 0" "\<not> (te_valid (tr_entries t ! i) \<and> te_addr (tr_entries t ! i) = q)"
    using wf'(5)[OF q that(1)] wf'(6)[OF q that(1)] that(2) by auto
  show "count_list (fl @ (if Suc (spill_counter t) mod T = 0 then [r] else [])) q =
      (if rowHasEntry ?t' q \<noteq> 0 then estimate ?t' q div T else 0)"
  proof (cases "q = r")
    case True
    then show ?thesis using ql un i wf'(1) inc eq T div_step[of T "spill_counter t"]
      by (simp add: estimate_def tracker_install_rhe tracker_install_nth)
  next
    case False
    then show ?thesis using ql i wf'(1) wf'(3)[OF i] wf'(4)[OF q] other eq T
      by (auto simp: estimate_def tracker_install_rhe tracker_install_nth)
  qed
qed

lemma tracker_access_hit_eq:
  assumes wf: "tracker_wf n nr t" and r: "r < nr" and k: "rowHasEntry t r = Suc k" and T: "0 < T"
    and ov: "te_count (tr_entries t ! k) + 1 < u32_size"
  shows "\<exists>q a b u'. tracker_access T n t u r False =
    Inr (Suc (te_count (tr_entries t ! k)) mod T = 0,
      (tracker_bump k t)\<lparr>s_num_access := b, uniq_rows := q, s_aggressors := a\<rparr>, u')"
proof -
  let ?t1 = "tracker_bump k (t\<lparr>s_num_access := s_num_access t + 1\<rparr>)"
  let ?c = "Suc (te_count (tr_entries t ! k))"
  obtain q u' where fl: "mg_flag T r ?c ?t1 u = (?c mod T = 0, ?t1\<lparr>uniq_rows := q\<rparr>, u')"
    using mg_flag_eq[of T r ?c ?t1 u] by blast
  have "tracker_access T n t u r False =
      Inr (?c mod T = 0, ?t1\<lparr>uniq_rows := q,
        s_aggressors := (if ?c mod T = 0 then s_aggressors ?t1 + 1 else s_aggressors ?t1)\<rparr>, u')"
    using tracker_wfD(1)[OF wf] tracker_wfD(4-6)[OF wf r] k T ov fl
    by (auto simp: tracker_access_def tracker_hit_def Let_def u_simps)
  moreover have eq: "?t1 = (tracker_bump k t)\<lparr>s_num_access := s_num_access t + 1\<rparr>"
    by (simp add: tracker_bump_def)
  ultimately show ?thesis unfolding eq by blast
qed

lemma tracker_access_install_eq:
  assumes wf: "tracker_wf n nr t" and un: "rowHasEntry t r = 0" and T: "0 < T"
    and i: "find (\<lambda>i. te_count (tr_entries t ! i) = spill_counter t) [0..<n] = Some i"
    and ov: "spill_counter t + 1 < u32_size"
  shows "\<exists>q a b u'. tracker_access T n t u r False =
    Inr (Suc (spill_counter t) mod T = 0,
      (tracker_install r i t)\<lparr>s_num_access := b, uniq_rows := q, s_aggressors := a\<rparr>, u')"
proof -
  let ?t0 = "t\<lparr>s_num_access := s_num_access t + 1\<rparr>"
  let ?t1 = "tracker_install r i ?t0"
  let ?c = "Suc (spill_counter t)"
  have wf0: "tracker_wf n nr ?t0" using wf by (simp add: tracker_wf_def)
  obtain q u' where fl: "mg_flag T r ?c ?t1 u = (?c mod T = 0, ?t1\<lparr>uniq_rows := q\<rparr>, u')"
    using mg_flag_eq[of T r ?c ?t1 u] by blast
  have "tracker_access T n t u r False =
      Inr (?c mod T = 0, ?t1\<lparr>uniq_rows := q,
        s_aggressors := (if ?c mod T = 0 then s_aggressors ?t1 + 1 else s_aggressors ?t1)\<rparr>, u')"
    using tracker_scan_eq[OF wf0, of "[0..<n]" T r u] un T ov fl i
    by (auto simp: tracker_access_def Let_def u_simps)
  moreover have eq: "?t1 = (tracker_install r i t)\<lparr>s_num_access := s_num_access t + 1\<rparr>"
    by (simp add: tracker_install_def Let_def)
  ultimately show ?thesis unfolding eq by blast
qed

lemma tracker_access_spill_eq:
  assumes wf: "tracker_wf n nr t" and un: "rowHasEntry t r = 0"
    and no: "find (\<lambda>i. te_count (tr_entries t ! i) = spill_counter t) [0..<n] = None"
    and ov: "spill_counter t + 1 < u32_size"
  shows "tracker_access T n t u r False =
    Inr (False, t\<lparr>spill_counter := Suc (spill_counter t)\<rparr>\<lparr>s_num_access := s_num_access t + 1\<rparr>, u)"
proof -
  have wf0: "tracker_wf n nr (t\<lparr>s_num_access := s_num_access t + 1\<rparr>)"
    using wf by (simp add: tracker_wf_def)
  show ?thesis
    using tracker_scan_eq[OF wf0, of "[0..<n]" T r u] un ov no
    by (auto simp: tracker_access_def Let_def u_simps)
qed

text \<open>One access: it returns, and the summary and the flags stay exact.\<close>

lemma tracker_access_step:
  assumes snd: "tracker_sound n nr t h" and r: "r < nr" and T: "0 < T" and ov: "length h + 1 < u32_size"
  obtains agg t' u' where "tracker_access T n t u r False = Inr (agg, t', u')"
    and "tracker_sound n nr t' (h @ [r])" and "spill_counter t \<le> spill_counter t'"
    and "\<And>fl. flags_ok T nr t fl \<Longrightarrow> spill_counter t' < T \<Longrightarrow>
           flags_ok T nr t' (fl @ (if agg then [r] else []))"
proof (cases "rowHasEntry t r")
  case (Suc k)
  note wf = tracker_soundD(1)[OF snd]
  have "k < n" using tracker_wfD(4)[OF wf r] Suc by simp
  then have ov': "te_count (tr_entries t ! k) + 1 < u32_size"
    using tracker_sound_count_le[OF snd, of k] ov by simp
  from tracker_access_hit_eq[OF wf r Suc T this, of u] obtain q a b u' where
    "tracker_access T n t u r False = Inr (Suc (te_count (tr_entries t ! k)) mod T = 0,
       (tracker_bump k t)\<lparr>s_num_access := b, uniq_rows := q, s_aggressors := a\<rparr>, u')" by blast
  then show ?thesis
  proof (rule that)
    show "spill_counter t \<le> spill_counter ((tracker_bump k t)\<lparr>s_num_access := b, uniq_rows := q, s_aggressors := a\<rparr>)"
      by (simp add: tracker_bump_def)
  qed (use tracker_hit_sound[OF snd r Suc ov'] flags_hit[OF wf r Suc T ov'] in simp_all)
next
  case 0
  note wf = tracker_soundD(1)[OF snd]
  have sp: "spill_counter t + 1 < u32_size"
    using tracker_sound_spill_bound[OF snd] ov by simp
  show ?thesis
  proof (cases "find (\<lambda>i. te_count (tr_entries t ! i) = spill_counter t) [0..<n]")
    case None
    then have ne: "te_count (tr_entries t ! i) \<noteq> spill_counter t" if "i < n" for i
      using that by (auto simp: find_None_iff)
    from tracker_access_spill_eq[OF wf 0 None sp, of T u] show ?thesis
    proof (rule that)
      fix fl assume "flags_ok T nr t fl"
      then show "flags_ok T nr (t\<lparr>spill_counter := Suc (spill_counter t)\<rparr>\<lparr>s_num_access := s_num_access t + 1\<rparr>)
          (fl @ (if False then [r] else []))"
        by (simp add: flags_ok_def estimate_def)
    qed (use tracker_spill_sound[OF snd r 0 ne] in simp_all)
  next
    case (Some i)
    then have i: "i < n" "te_count (tr_entries t ! i) = spill_counter t"
      by (auto simp: find_Some_iff)
    from tracker_access_install_eq[OF wf 0 T Some sp, of u] obtain q a b u' where
      "tracker_access T n t u r False =
        Inr (Suc (spill_counter t) mod T = 0,
          (tracker_install r i t)\<lparr>s_num_access := b, uniq_rows := q, s_aggressors := a\<rparr>, u')" by blast
    then show ?thesis
    proof (rule that)
      fix fl assume "flags_ok T nr t fl"
        and "spill_counter ((tracker_install r i t)\<lparr>s_num_access := b, uniq_rows := q, s_aggressors := a\<rparr>) < T"
      then show "flags_ok T nr ((tracker_install r i t)\<lparr>s_num_access := b, uniq_rows := q, s_aggressors := a\<rparr>)
          (fl @ (if Suc (spill_counter t) mod T = 0 then [r] else []))"
        using flags_install[OF snd r 0 i ov] by simp
    qed (use tracker_install_sound[OF snd r 0 i ov] in simp_all)
  qed
qed

section \<open>The detector\<close>

lemma bank_rows_simps [simp]:
  "bank_rows ix [] = []"
  "bank_rows ix (xs @ ys) = bank_rows ix xs @ bank_rows ix ys"
  "bank_rows ix ((r, jx) # h) = (if jx = ix then r # bank_rows ix h else bank_rows ix h)"
  by (simp_all add: bank_rows_def)

lemma length_bank_rows: "length (bank_rows ix h) \<le> length h"
  by (simp add: bank_rows_def)

lemma count_bank_rows: "count_list (bank_rows ix h) r = count_list h (r, ix)"
  by (induction h) (auto simp: bank_rows_def)

lemma tracker_reset_sound: "tracker_sound n nr (tracker_reset n nr t) []"
  by (simp add: tracker_sound_def tracker_wf_def tracker_reset_def estimate_def zero_entry_def
      sum_list_replicate map_replicate_const)

lemma tracker_reset_flags: "flags_ok T nr (tracker_reset n nr t) []"
  by (simp add: flags_ok_def tracker_reset_def)

lemma mg_reset_simps [simp]:
  "mg_threshold (mg_reset m) = mg_threshold m" "mg_numEntries (mg_reset m) = mg_numEntries m"
  "mg_numRows (mg_reset m) = mg_numRows m" "mg_ix (mg_reset m) = mg_ix m"
  "mg_dims (mg_reset m) = mg_dims m"
  by (simp_all add: mg_reset_def mg_ix_def mg_in_range_def mg_dims_def)

lemma mg_reset_sound: "mg_sound (mg_reset m) []"
  by (auto simp: mg_sound_def mg_ix_def mg_reset_def mg_in_range_def tracker_reset_sound)

lemma mg_reset_flags: "mg_flags_ok (mg_reset m) []"
  by (auto simp: mg_flags_ok_def mg_ix_def mg_reset_def mg_in_range_def tracker_reset_flags)

lemma mg_access_functional:
  assumes "mg_sound m h" and "mg_in_range m bank rank ch" and "row < mg_numRows m"
  shows "mg_access m row bank rank ch True = Inr (rowHasEntry (trackers m (ch, rank, bank)) row \<noteq> 0, m)"
proof -
  have "tracker_wf (mg_numEntries m) (mg_numRows m) (trackers m (ch, rank, bank))"
    using assms(1,2) tracker_soundD(1) by (force simp: mg_sound_def mg_ix_def)
  then show ?thesis
    using assms(2,3) by (simp add: mg_access_def tracker_access_functional)
qed

lemma mg_access_step:
  assumes snd: "mg_sound m h" and rng: "mg_in_range m bank rank ch" and row: "row < mg_numRows m"
    and T: "0 < mg_threshold m" and ov: "length h + 1 < u32_size"
  obtains agg m' where "mg_access m row bank rank ch False = Inr (agg, m')"
    and "mg_sound m' (h @ [(row, (ch, rank, bank))])"
    and "mg_dims m' = mg_dims m" and "mg_threshold m' = mg_threshold m"
    and "mg_numEntries m' = mg_numEntries m"
    and "\<And>fl. mg_flags_ok m fl \<Longrightarrow>
           (\<forall>ix\<in>mg_ix m. spill_counter (trackers m' ix) < mg_threshold m) \<Longrightarrow>
           mg_flags_ok m' (fl @ (if agg then [(row, (ch, rank, bank))] else []))"
proof -
  let ?ix = "(ch, rank, bank)"
  have ix: "?ix \<in> mg_ix m" using rng by (simp add: mg_ix_def)
  have tr: "tracker_sound (mg_numEntries m) (mg_numRows m) (trackers m ?ix) (bank_rows ?ix h)"
    using snd ix by (auto simp: mg_sound_def)
  have ov': "length (bank_rows ?ix h) + 1 < u32_size"
    using ov length_bank_rows[of ?ix h] by simp
  obtain agg t' u' where acc: "tracker_access (mg_threshold m) (mg_numEntries m) (trackers m ?ix)
        (s_numUniqRows m) row False = Inr (agg, t', u')"
    and t': "tracker_sound (mg_numEntries m) (mg_numRows m) t' (bank_rows ?ix h @ [row])"
    and fl: "\<And>fl. flags_ok (mg_threshold m) (mg_numRows m) (trackers m ?ix) fl \<Longrightarrow>
       spill_counter t' < mg_threshold m \<Longrightarrow>
       flags_ok (mg_threshold m) (mg_numRows m) t' (fl @ (if agg then [row] else []))"
    using tracker_access_step[OF tr row T ov'] by metis
  let ?m' = "m\<lparr>trackers := (trackers m)(?ix := t'), s_numUniqRows := u'\<rparr>"
  have ixs: "mg_ix ?m' = mg_ix m" by (simp add: mg_ix_def mg_in_range_def)
  show ?thesis
  proof (rule that)
    show "mg_access m row bank rank ch False = Inr (agg, ?m')"
      using rng row acc by (simp add: mg_access_def)
    show "mg_sound ?m' (h @ [(row, ?ix)])"
      using snd t' by (simp add: mg_sound_def ixs)
    fix fl assume "mg_flags_ok m fl" and "\<forall>ix\<in>mg_ix m. spill_counter (trackers ?m' ix) < mg_threshold m"
    then show "mg_flags_ok ?m' (fl @ (if agg then [(row, ?ix)] else []))"
      using fl[of "bank_rows ?ix fl"] ix by (auto simp: mg_flags_ok_def ixs)
  qed (simp_all add: mg_dims_def)
qed

lemma mg_dims_ix: "mg_dims m' = mg_dims m \<Longrightarrow> mg_ix m' = mg_ix m \<and> mg_numRows m' = mg_numRows m"
  by (simp add: mg_dims_def mg_ix_def mg_in_range_def)

lemma tracked_rows_bound:
  assumes "tracker_wf n nr t"
  shows "card {r. r < nr \<and> rowHasEntry t r \<noteq> 0} \<le> n"
proof -
  note wf = tracker_wfD[OF assms]
  have "inj_on (\<lambda>r. rowHasEntry t r - 1) {r. r < nr \<and> rowHasEntry t r \<noteq> 0}"
    using wf(6) by (intro inj_onI) (metis (mono_tags) mem_Collect_eq)
  moreover have "(\<lambda>r. rowHasEntry t r - 1) ` {r. r < nr \<and> rowHasEntry t r \<noteq> 0} \<subseteq> {..<n}"
    using wf(4) by auto
  ultimately show ?thesis using card_inj_on_le[of _ _ "{..<n}"] by fastforce
qed

lemma mg_access_numEntries:
  "mg_access m row bank rank ch f = Inr (b, m') \<Longrightarrow> mg_numEntries m' = mg_numEntries m"
  by (auto simp: mg_access_def rbind_Inr_iff split: if_splits)

interpretation mg: bounded_detector mg_ops mg_dims mg_inv mg_numEntries
proof
  fix d k bank rank ch
  assume inv: "mg_inv d k"
  then obtain h where h: "mg_sound d h" by (auto simp: mg_inv_def)
  show "card {row. in_dims (mg_dims d) row bank rank ch \<and>
          d_access mg_ops d row bank rank ch True = Inr (True, d)} \<le> mg_numEntries d"
  proof (cases "mg_in_range d bank rank ch")
    case True
    then have eq: "{row. in_dims (mg_dims d) row bank rank ch \<and>
          d_access mg_ops d row bank rank ch True = Inr (True, d)} =
        {r. r < mg_numRows d \<and> rowHasEntry (trackers d (ch, rank, bank)) r \<noteq> 0}"
      using mg_access_functional[OF h True]
      by (auto simp: in_dims_def mg_dims_def mg_in_range_def mg_ops_def)
    have "tracker_wf (mg_numEntries d) (mg_numRows d) (trackers d (ch, rank, bank))"
      using h True tracker_soundD(1) by (force simp: mg_sound_def mg_ix_def)
    then show ?thesis unfolding eq by (rule tracked_rows_bound)
  next
    case False
    then have "{row. in_dims (mg_dims d) row bank rank ch \<and>
          d_access mg_ops d row bank rank ch True = Inr (True, d)} = {}"
      by (auto simp: mg_ops_def mg_access_def)
    then show ?thesis by (simp only: card.empty)
  qed
next
  fix d k row bank rank ch and b and d' :: misra_gries
  assume "mg_inv d k" "d_access mg_ops d row bank rank ch False = Inr (b, d')"
  then show "mg_numEntries d' = mg_numEntries d" by (simp add: mg_ops_def mg_access_numEntries)
next
  fix d k row bank rank ch
  assume inv: "mg_inv d k" and rng: "in_dims (mg_dims d) row bank rank ch"
  then obtain h where h: "length h \<le> k" "mg_sound d h" and T: "0 < mg_threshold d"
    by (auto simp: mg_inv_def)
  have r: "mg_in_range d bank rank ch" "row < mg_numRows d"
    using rng by (simp_all add: in_dims_def mg_dims_def mg_in_range_def)
  show "\<exists>b. d_access mg_ops d row bank rank ch True = Inr (b, d)"
    using mg_access_functional[OF h(2) r] by (simp add: mg_ops_def)
  assume "k + 1 < u32_size"
  with h(1) have "length h + 1 < u32_size" by simp
  from mg_access_step[OF h(2) r T this] show
    "\<exists>b d'. d_access mg_ops d row bank rank ch False = Inr (b, d') \<and> mg_inv d' (k + 1) \<and> mg_dims d' = mg_dims d"
  proof cases
    case (1 agg m')
    then have "mg_inv d' (k + 1)" if "d' = m'" for d'
      using that h(1) T unfolding mg_inv_def
      by (intro conjI exI[of _ "h @ [(row, (ch, rank, bank))]"]) simp_all
    with 1 show ?thesis by (auto simp: mg_ops_def)
  qed
next
  fix d k assume "mg_inv d k"
  then show "mg_inv (d_reset mg_ops d) 0"
    using mg_reset_sound by (auto simp: mg_inv_def mg_ops_def)
qed (simp_all add: mg_ops_def)

section \<open>Windows of accesses\<close>

definition accs_in_range :: "misra_gries \<Rightarrow> (addr \<times> bank_ix) list \<Rightarrow> bool" where
  "accs_in_range m as \<longleftrightarrow> (\<forall>(r, ix)\<in>set as. r < mg_numRows m \<and> ix \<in> mg_ix m)"

definition window_fits :: "misra_gries \<Rightarrow> (addr \<times> bank_ix) list \<Rightarrow> bool" where
  "window_fits m as \<longleftrightarrow> (\<forall>ix\<in>mg_ix m. length (bank_rows ix as) < mg_threshold m * (mg_numEntries m + 1))"

lemma mg_sound_spill:
  assumes "mg_sound m h" and "window_fits m h" and "ix \<in> mg_ix m"
  shows "spill_counter (trackers m ix) < mg_threshold m"
proof -
  have "(mg_numEntries m + 1) * spill_counter (trackers m ix) \<le> length (bank_rows ix h)"
    using assms(1,3) by (intro tracker_sound_spill_bound[where nr = "mg_numRows m"]) (simp add: mg_sound_def)
  also have "\<dots> < (mg_numEntries m + 1) * mg_threshold m"
    using assms(2,3) by (simp add: window_fits_def mult.commute)
  finally show ?thesis using mult_less_cancel1 by blast
qed

lemma window_fits_prefix: "window_fits m (xs @ ys) \<Longrightarrow> window_fits m xs"
  by (force simp: window_fits_def)

lemma mg_run_sound:
  assumes "mg_sound m h" and "mg_flags_ok m fl0" and "0 < mg_threshold m"
    and "accs_in_range m as" and "window_fits m (h @ as)" and "length (h @ as) < u32_size"
  shows "\<exists>fl m'. mg_run m as = Inr (fl, m') \<and> mg_sound m' (h @ as) \<and> mg_flags_ok m' (fl0 @ fl) \<and>
    mg_dims m' = mg_dims m \<and> mg_threshold m' = mg_threshold m \<and> mg_numEntries m' = mg_numEntries m \<and>
    set fl \<subseteq> set as"
  using assms
proof (induction as arbitrary: m h fl0)
  case (Cons a as)
  obtain row ch rank bank where a: "a = (row, (ch, rank, bank))" by (cases a) auto
  have rng: "mg_in_range m bank rank ch" "row < mg_numRows m"
    using Cons.prems(4) by (auto simp: a accs_in_range_def mg_ix_def)
  have ov: "length h + 1 < u32_size" using Cons.prems(6) by simp
  obtain agg m' where acc: "mg_access m row bank rank ch False = Inr (agg, m')"
    and snd: "mg_sound m' (h @ [a])" and eqs: "mg_dims m' = mg_dims m"
      "mg_threshold m' = mg_threshold m" "mg_numEntries m' = mg_numEntries m"
    and fl: "mg_flags_ok m fl0 \<Longrightarrow> (\<forall>ix\<in>mg_ix m. spill_counter (trackers m' ix) < mg_threshold m) \<Longrightarrow>
           mg_flags_ok m' (fl0 @ (if agg then [a] else []))"
    using mg_access_step[OF Cons.prems(1) rng Cons.prems(3) ov] by (metis a)
  note ixs = mg_dims_ix[OF eqs(1)]
  have fits: "window_fits m' ((h @ [a]) @ as)"
    using Cons.prems(5) ixs eqs by (simp add: window_fits_def)
  have "\<forall>ix\<in>mg_ix m. spill_counter (trackers m' ix) < mg_threshold m"
    using mg_sound_spill[OF snd window_fits_prefix[OF fits]] ixs eqs by auto
  with fl Cons.prems(2) have fl': "mg_flags_ok m' (fl0 @ (if agg then [a] else []))" by blast
  have "accs_in_range m' as"
    using Cons.prems(4) ixs by (simp add: accs_in_range_def)
  from Cons.IH[OF snd fl' _ this fits] Cons.prems(3,6) eqs obtain fl m2 where
    "mg_run m' as = Inr (fl, m2)" "mg_sound m2 ((h @ [a]) @ as)"
    "mg_flags_ok m2 ((fl0 @ (if agg then [a] else [])) @ fl)"
    "mg_dims m2 = mg_dims m" "mg_threshold m2 = mg_threshold m" "mg_numEntries m2 = mg_numEntries m"
    "set fl \<subseteq> set as"
    by auto
  then show ?case using acc by (auto simp: a mg_ops_def)
qed simp

lemmas mg_window_run = mg_run_sound[OF mg_reset_sound mg_reset_flags]

lemma flags_cover:
  assumes "tracker_sound n nr t h" and "flags_ok T nr t fl" and "spill_counter t < T" and "r < nr"
  shows "count_list h r div T \<le> count_list fl r"
proof -
  have le: "count_list h r \<le> estimate t r" using assms(1,4) by (simp add: tracker_sound_def)
  show ?thesis
  proof (cases "rowHasEntry t r = 0")
    case True
    then have "count_list h r < T" using le assms(3) by (simp add: estimate_def)
    then show ?thesis by simp
  next
    case False
    then show ?thesis using le assms(2,4) by (simp add: flags_ok_def div_le_mono)
  qed
qed

lemma flags_budget:
  assumes snd: "tracker_sound n nr t h" and fl: "flags_ok T nr t fl" and rng: "set fl \<subseteq> {..<nr}"
  shows "length fl * T \<le> length h"
proof -
  note wf = tracker_wfD[OF tracker_soundD(1)[OF snd]]
  let ?R = "{r. r < nr \<and> rowHasEntry t r \<noteq> 0}"
  let ?slot = "\<lambda>r. rowHasEntry t r - 1"
  let ?q = "\<lambda>i. te_count (tr_entries t ! i) div T"
  have inj: "inj_on ?slot ?R" using wf(6) by (intro inj_onI) (metis (mono_tags) mem_Collect_eq)
  have "length fl = (\<Sum>r<nr. count_list fl r)"
    using sum_count_set[OF rng] by simp
  also have "\<dots> = (\<Sum>r<nr. if r \<in> ?R then ?q (?slot r) else 0)"
    using fl by (intro sum.cong) (auto simp: flags_ok_def estimate_def)
  also have "\<dots> = (\<Sum>r\<in>?R. ?q (?slot r))"
    by (simp add: sum.If_cases Int_def lessThan_def)
  also have "\<dots> = (\<Sum>i\<in>?slot ` ?R. ?q i)"
    using inj by (simp add: sum.reindex)
  also have "\<dots> \<le> (\<Sum>i<n. ?q i)"
    using wf(4) by (intro sum_mono2) auto
  finally have "length fl * T \<le> (\<Sum>i<n. ?q i * T)"
    by (simp add: sum_distrib_right[symmetric])
  also have "\<dots> \<le> (\<Sum>i<n. te_count (tr_entries t ! i))"
    by (intro sum_mono) (simp add: div_times_less_eq_dividend)
  also have "\<dots> = sum_list (map te_count (tr_entries t))"
    using wf(1) by (simp add: sum_list_sum_nth atLeast0LessThan)
  finally show ?thesis using snd by (simp add: tracker_sound_def)
qed

lemma mg_ops_simps [simp]: "d_access mg_ops = mg_access" "d_reset mg_ops = mg_reset"
  by (simp_all add: mg_ops_def)

lemma mg_window_result:
  assumes "0 < mg_threshold m" and "accs_in_range m as" and "window_fits m as"
    and "length as < u32_size"
  obtains fl m' where "mg_run (mg_reset m) as = Inr (fl, m')"
    and "\<And>ix. ix \<in> mg_ix m \<Longrightarrow>
      tracker_sound (mg_numEntries m) (mg_numRows m) (trackers m' ix) (bank_rows ix as) \<and>
      flags_ok (mg_threshold m) (mg_numRows m) (trackers m' ix) (bank_rows ix fl) \<and>
      spill_counter (trackers m' ix) < mg_threshold m \<and> set (bank_rows ix fl) \<subseteq> {..<mg_numRows m}"
proof -
  have "accs_in_range (mg_reset m) as" "window_fits (mg_reset m) ([] @ as)"
    using assms by (simp_all add: accs_in_range_def window_fits_def)
  from mg_window_run[OF _ this] assms obtain fl m' where
    run: "mg_run (mg_reset m) as = Inr (fl, m')" and snd: "mg_sound m' as" and fl: "mg_flags_ok m' fl"
    and eqs: "mg_dims m' = mg_dims m" "mg_threshold m' = mg_threshold m" "mg_numEntries m' = mg_numEntries m"
    and sub: "set fl \<subseteq> set as"
    by auto
  note ixs = mg_dims_ix[OF eqs(1)]
  have fits: "window_fits m' as" using assms(3) ixs eqs by (simp add: window_fits_def)
  show ?thesis
  proof (rule that[OF run], intro conjI)
    fix ix assume ix: "ix \<in> mg_ix m"
    show "spill_counter (trackers m' ix) < mg_threshold m"
      using mg_sound_spill[OF snd fits] ix ixs eqs by simp
    show "set (bank_rows ix fl) \<subseteq> {..<mg_numRows m}"
      using sub assms(2) by (fastforce simp: bank_rows_def accs_in_range_def)
  qed (use snd fl ixs eqs in \<open>auto simp: mg_sound_def mg_flags_ok_def\<close>)
qed

lemma mg_window_flags:
  assumes "0 < mg_threshold m" and "accs_in_range m as" and "window_fits m as"
    and "length as < u32_size"
  obtains fl m' where "mg_run (mg_reset m) as = Inr (fl, m')"
    and "\<And>b. b \<in> mg_ix m \<Longrightarrow> length (bank_rows b fl) \<le> length (bank_rows b as) div mg_threshold m"
    and "\<And>r b. r < mg_numRows m \<Longrightarrow> b \<in> mg_ix m \<Longrightarrow> mg_threshold m \<le> count_list as (r, b) \<Longrightarrow> (r, b) \<in> set fl"
proof -
  obtain fl m' where run: "mg_run (mg_reset m) as = Inr (fl, m')"
    and snd: "\<And>b. b \<in> mg_ix m \<Longrightarrow>
      tracker_sound (mg_numEntries m) (mg_numRows m) (trackers m' b) (bank_rows b as) \<and>
      flags_ok (mg_threshold m) (mg_numRows m) (trackers m' b) (bank_rows b fl) \<and>
      spill_counter (trackers m' b) < mg_threshold m \<and> set (bank_rows b fl) \<subseteq> {..<mg_numRows m}"
    using mg_window_result[OF assms] by metis
  show ?thesis
  proof (rule that[OF run])
    show "length (bank_rows b fl) \<le> length (bank_rows b as) div mg_threshold m" if "b \<in> mg_ix m" for b
      using flags_budget snd[OF that] assms(1) by (metis less_eq_div_iff_mult_less_eq)
    show "(r, b) \<in> set fl"
      if r: "r < mg_numRows m" "b \<in> mg_ix m" and c: "mg_threshold m \<le> count_list as (r, b)" for r b
    proof -
      have "count_list (bank_rows b as) r div mg_threshold m \<le> count_list (bank_rows b fl) r"
        using flags_cover snd[OF r(2)] r(1) by blast
      moreover have "0 < count_list as (r, b) div mg_threshold m"
        using c assms(1) by (simp add: div_greater_zero_iff)
      ultimately have "count_list fl (r, b) \<noteq> 0" by (simp add: count_bank_rows)
      then show ?thesis by (meson count_notin)
    qed
  qed
qed

text \<open>
  C1. No aggressor is missed: after a reset, in a window in which no bank sees
  \<open>threshold * (numEntries + 1)\<close> or more accesses, every access returns and a row that is
  accessed \<open>c\<close> times is flagged at least \<open>c div threshold\<close> times.
\<close>

theorem detector_flags_every_aggressor:
  assumes "0 < mg_threshold m" and "accs_in_range m as" and "window_fits m as"
    and "length as < u32_size"
  shows "\<exists>fl m'. mg_run (mg_reset m) as = Inr (fl, m') \<and>
    (\<forall>r ix. r < mg_numRows m \<longrightarrow> ix \<in> mg_ix m \<longrightarrow>
       count_list as (r, ix) div mg_threshold m \<le> count_list fl (r, ix))"
  using mg_window_result[OF assms] flags_cover by (metis count_bank_rows)

definition mg_example :: misra_gries where
  "mg_example = mg_new (\<lambda>_. \<lparr>tr_entries = [], spill_counter = 7, uniq_rows = {}, rowHasEntry = (\<lambda>_. 0),
     s_num_reset = 0, s_glob_spill_count = 0, s_num_access = 0, s_num_install = 0, s_aggressors = 0\<rparr>)
     2 3 8 4 1 1"

lemma mg_example_simps:
  "mg_threshold mg_example = 3" "mg_numEntries mg_example = 2" "mg_numRows mg_example = 8"
  "(ch, rank, bank) \<in> mg_ix mg_example \<longleftrightarrow> ch = 0 \<and> rank = 0 \<and> bank < 4"
  by (auto simp: mg_example_def mg_new_def mg_ix_def mg_in_range_def)

definition mg_example_window :: "(addr \<times> bank_ix) list" where
  "mg_example_window =
     [(5, (0, 0, 2)), (2, (0, 0, 2)), (5, (0, 0, 2)), (7, (0, 0, 3)), (5, (0, 0, 2)), (5, (0, 0, 2))]"

lemma mg_example_window_facts:
  "window_fits mg_example mg_example_window" "accs_in_range mg_example mg_example_window"
  "length mg_example_window = 6" "(0, 0, 2) \<in> mg_ix mg_example"
  "count_list mg_example_window (5, (0, 0, 2)) = 4"
  "length (bank_rows (0, 0, 2) mg_example_window) = 5"
  by (auto simp: window_fits_def accs_in_range_def mg_example_simps mg_example_window_def)

theorem detector_flags_every_aggressor_witness:
  "\<exists>fl m'. mg_run (mg_reset mg_example) mg_example_window = Inr (fl, m') \<and>
    1 \<le> count_list fl (5, (0, 0, 2))"
proof -
  obtain fl m' where "mg_run (mg_reset mg_example) mg_example_window = Inr (fl, m')"
    and all: "\<And>r ix. r < mg_numRows mg_example \<Longrightarrow> ix \<in> mg_ix mg_example \<Longrightarrow>
       count_list mg_example_window (r, ix) div mg_threshold mg_example \<le> count_list fl (r, ix)"
    using detector_flags_every_aggressor[of mg_example mg_example_window]
    by (auto simp: mg_example_window_facts mg_example_simps)
  then show ?thesis
    using all[of 5 "(0, 0, 2)"] by (simp add: mg_example_window_facts mg_example_simps)
qed

text \<open>
  Mitigation work is bounded: in such a window the detector flags at most
  \<open>accesses / threshold\<close> accesses of each bank.
\<close>

theorem detector_flag_budget:
  assumes "0 < mg_threshold m" and "accs_in_range m as" and "window_fits m as"
    and "length as < u32_size"
  shows "\<exists>fl m'. mg_run (mg_reset m) as = Inr (fl, m') \<and>
    (\<forall>ix\<in>mg_ix m. length (bank_rows ix fl) \<le> length (bank_rows ix as) div mg_threshold m)"
proof -
  obtain fl m' where run: "mg_run (mg_reset m) as = Inr (fl, m')"
    and ok: "\<And>ix. ix \<in> mg_ix m \<Longrightarrow>
      tracker_sound (mg_numEntries m) (mg_numRows m) (trackers m' ix) (bank_rows ix as) \<and>
      flags_ok (mg_threshold m) (mg_numRows m) (trackers m' ix) (bank_rows ix fl) \<and>
      spill_counter (trackers m' ix) < mg_threshold m \<and> set (bank_rows ix fl) \<subseteq> {..<mg_numRows m}"
    using mg_window_result[OF assms] by metis
  have "length (bank_rows ix fl) \<le> length (bank_rows ix as) div mg_threshold m" if "ix \<in> mg_ix m" for ix
    using flags_budget[of "mg_numEntries m" "mg_numRows m" "trackers m' ix" "bank_rows ix as"
        "mg_threshold m" "bank_rows ix fl"] ok[OF that] assms(1)
    by (simp add: less_eq_div_iff_mult_less_eq)
  with run show ?thesis by blast
qed

theorem detector_flag_budget_witness:
  "\<exists>fl m'. mg_run (mg_reset mg_example) mg_example_window = Inr (fl, m') \<and>
    length (bank_rows (0, 0, 2) fl) \<le> 1"
proof -
  obtain fl m' where "mg_run (mg_reset mg_example) mg_example_window = Inr (fl, m')"
    and all: "\<And>ix. ix \<in> mg_ix mg_example \<Longrightarrow>
       length (bank_rows ix fl) \<le> length (bank_rows ix mg_example_window) div mg_threshold mg_example"
    using detector_flag_budget[of mg_example mg_example_window]
    by (auto simp: mg_example_window_facts mg_example_simps)
  then show ?thesis
    using all[of "(0, 0, 2)"] by (simp add: mg_example_window_facts mg_example_simps)
qed

text \<open>
  Counts are upper bounds that cannot wrap: at the end of a window the count of a tracked row,
  or the spill counter of an untracked one, is at least the number of accesses of the row, at most
  the number of accesses of its bank, and the spill counter is at most that number divided by
  \<open>numEntries + 1\<close>.
\<close>

theorem detector_count_bounds:
  assumes "0 < mg_threshold m" and "accs_in_range m as" and "window_fits m as"
    and "length as < u32_size"
  shows "\<exists>fl m'. mg_run (mg_reset m) as = Inr (fl, m') \<and>
    (\<forall>r ix. r < mg_numRows m \<longrightarrow> ix \<in> mg_ix m \<longrightarrow>
       count_list as (r, ix) \<le> estimate (trackers m' ix) r \<and>
       estimate (trackers m' ix) r \<le> length (bank_rows ix as) \<and>
       spill_counter (trackers m' ix) \<le> length (bank_rows ix as) div (mg_numEntries m + 1))"
proof -
  obtain fl m' where run: "mg_run (mg_reset m) as = Inr (fl, m')"
    and ok: "\<And>ix. ix \<in> mg_ix m \<Longrightarrow>
      tracker_sound (mg_numEntries m) (mg_numRows m) (trackers m' ix) (bank_rows ix as)"
    using mg_window_result[OF assms] by metis
  have "count_list as (r, ix) \<le> estimate (trackers m' ix) r \<and>
       estimate (trackers m' ix) r \<le> length (bank_rows ix as) \<and>
       spill_counter (trackers m' ix) \<le> length (bank_rows ix as) div (mg_numEntries m + 1)"
    if "r < mg_numRows m" "ix \<in> mg_ix m" for r ix
    using tracker_sound_count_le[OF ok[OF that(2)]] tracker_sound_spill_bound[OF ok[OF that(2)]]
      tracker_wfD(4)[OF tracker_soundD(1)[OF ok[OF that(2)]] that(1)] ok[OF that(2)] that(1)
    by (auto simp: estimate_def tracker_sound_def count_bank_rows less_eq_div_iff_mult_less_eq
        mult.commute)
  with run show ?thesis by blast
qed

theorem detector_count_bounds_witness:
  "\<exists>fl m'. mg_run (mg_reset mg_example) mg_example_window = Inr (fl, m') \<and>
    4 \<le> estimate (trackers m' (0, 0, 2)) 5 \<and> spill_counter (trackers m' (0, 0, 2)) \<le> 1"
proof -
  obtain fl m' where "mg_run (mg_reset mg_example) mg_example_window = Inr (fl, m')"
    and all: "\<And>r ix. r < mg_numRows mg_example \<Longrightarrow> ix \<in> mg_ix mg_example \<Longrightarrow>
       count_list mg_example_window (r, ix) \<le> estimate (trackers m' ix) r \<and>
       spill_counter (trackers m' ix) \<le>
         length (bank_rows ix mg_example_window) div (mg_numEntries mg_example + 1)"
    using detector_count_bounds[of mg_example mg_example_window]
    by (auto simp: mg_example_window_facts mg_example_simps)
  then show ?thesis
    using all[of 5 "(0, 0, 2)"] by (simp add: mg_example_window_facts mg_example_simps)
qed

text \<open>
  A functional lookup reports whether the row has an entry and changes nothing.
\<close>

theorem detector_functional_lookup:
  assumes "mg_sound m h" and "mg_in_range m bank rank ch" and "row < mg_numRows m"
  shows "mg_access m row bank rank ch True =
    Inr (\<exists>i<mg_numEntries m. te_valid (tr_entries (trackers m (ch, rank, bank)) ! i) \<and>
           te_addr (tr_entries (trackers m (ch, rank, bank)) ! i) = row, m)"
proof -
  let ?t = "trackers m (ch, rank, bank)"
  have wf: "tracker_wf (mg_numEntries m) (mg_numRows m) ?t"
    using assms(1,2) tracker_soundD(1) by (force simp: mg_sound_def mg_ix_def)
  have "rowHasEntry ?t row \<noteq> 0 \<longleftrightarrow>
    (\<exists>i<mg_numEntries m. te_valid (tr_entries ?t ! i) \<and> te_addr (tr_entries ?t ! i) = row)"
    using tracker_wfD(3)[OF wf] tracker_wfD(4-6)[OF wf assms(3)] by force
  then show ?thesis using mg_access_functional[OF assms] by simp
qed

theorem detector_functional_lookup_witness:
  "mg_access (mg_reset mg_example) 6 2 0 0 True = Inr (False, mg_reset mg_example)"
  using detector_functional_lookup[OF mg_reset_sound, of mg_example 2 0 0 6]
  by (simp add: mg_in_range_def mg_example_def mg_new_def mg_reset_def tracker_reset_def zero_entry_def)

text \<open>
  C36. The constructor does not initialise \<open>spill_counter\<close>: if the storage of a tracker does not
  happen to hold zero there, the first counted access before a reset stops at \<open>assert(0)\<close>.
\<close>

theorem detector_uninitialised_spill_aborts:
  assumes "spill_counter (junk (ch, rank, bank)) \<noteq> 0" and "0 < n"
    and "ch < channels" and "rank < ranks" and "bank < banks" and "row < rows"
  shows "mg_access (mg_new junk n T rows banks ranks channels) row bank rank ch False = Inl Assert_Fail"
  using assms
  by (simp add: mg_access_def mg_new_def mg_in_range_def tracker_access_def tracker_new_def
      zero_entry_def Let_def upt_conv_Cons)

theorem detector_uninitialised_spill_aborts_witness:
  "mg_access mg_example 6 2 0 0 False = Inl Assert_Fail"
  unfolding mg_example_def by (rule detector_uninitialised_spill_aborts) simp_all

end
