(* ===== verification/RH_Mitigation.thy ===== *)
theory RH_Mitigation
  imports Detector_Spec
begin

text \<open>
  What the mitigations of \<open>mem/rowhammer_mitigation.hh\<close> share: the \<open>Decision\<close> they return, the
  members of the abstract class \<open>RH_Mitigation\<close> with its statistics, the clearing of a decision,
  and the access histogram that every \<open>reset\<close> collects.
  The members that only the row quarantine uses (filter, bit vector, cache) are in the theory
  of that class.
\<close>

section \<open>State\<close>

record decision =
  d_mitigate :: bool
  d_isActionSwap :: "bool list"
  d_validAddrs :: nat
  d_addrs :: "addr list"
  d_remappedAddr :: addr
  d_delay :: tick
  d_SRAM_delay :: tick
  d_MC_delay :: tick

record rh_stats =
  s_remapped_row_accessed :: nat
  s_clean_install :: nat
  s_only_unswap :: nat
  s_clean_reswap :: nat
  s_dirty_reswap :: nat
  s_num_resets :: nat
  s_num_accesses :: nat
  s_move_to_qr :: nat
  s_move_within_qr :: nat
  s_move_to_qr_remove :: nat
  s_move_within_qr_remove :: nat
  s_drain_qr :: nat
  s_btv_true_positives :: nat
  s_btv_false_positives :: nat
  s_btv_true_negatives :: nat
  s_cache_hit :: nat
  s_cache_partial_hit_orr_set :: nat
  s_cache_partial_hit_orr_unset :: nat
  s_cache_miss :: nat
  s_cache_miss_entry_inserts :: nat
  s_cache_miss_line_entry_inserts :: nat
  s_cache_clean_evicts :: nat
  s_cache_dirty_evicts :: nat
  s_btv_residency :: "nat \<Rightarrow> nat"
  s_numLogRowAccesses :: "nat \<Rightarrow> nat"
  s_numRowAccesses_RH :: nat
  s_QR_CumulativeOccupancy :: nat
  s_randRowGenerationFailed :: nat

record 'd rh_mitigation =
  numRows :: nat
  numBanks :: nat
  numRanks :: nat
  numChannels :: nat
  last_reset :: tick
  rh_thr :: nat                      \<comment> \<open>\<open>threshold\<close>\<close>
  detector :: 'd
  decision :: decision
  numAccessesToRow :: "nat \<Rightarrow> nat"
  moveDelay :: tick
  accDelay :: tick
  swapDelay :: tick
  virtualize_RIT :: bool
  SRAM_RQT_accDelay :: tick
  SRAM_QRT_accDelay :: tick
  SRAM_Cache_accDelay :: tick
  SRAM_CBF_accDelay :: tick
  SRAM_RIT_accDelay :: tick
  prev_drain_cache_miss_val :: nat
  drain_cache_miss_threshold :: nat
  rh_stats :: rh_stats

section \<open>Operations\<close>

text \<open>The length of a refresh window, and whether \<open>access\<close> must start a new one.\<close>

definition window_ticks :: tick where
  "window_ticks = 64000000000"

definition window_over :: "tick \<Rightarrow> ('d, 'e) rh_mitigation_scheme \<Rightarrow> bool" where
  "window_over currTick s \<longleftrightarrow> window_ticks \<le> sub64 currTick (last_reset s)"

definition cleared_decision :: decision where
  "cleared_decision = \<lparr>d_mitigate = False, d_isActionSwap = replicate 6 False, d_validAddrs = 0,
     d_addrs = replicate 6 0, d_remappedAddr = u64_size - 1, d_delay = 0, d_SRAM_delay = 0, d_MC_delay = 0\<rparr>"

definition resetDecision :: "('d, 'e) rh_mitigation_scheme \<Rightarrow> ('d, 'e) rh_mitigation_scheme" where
  "resetDecision s = s\<lparr>decision := cleared_decision\<rparr>"

text \<open>\<open>isActionSwap[validAddrs] = true; addrs[validAddrs] = a; validAddrs++\<close>\<close>

definition push_action :: "addr \<Rightarrow> decision \<Rightarrow> decision res" where
  "push_action a d =
     rindex (d_validAddrs d < length (d_addrs d) \<and> d_validAddrs d < length (d_isActionSwap d))
       (Inr (d\<lparr>d_isActionSwap := (d_isActionSwap d)[d_validAddrs d := True],
               d_addrs := (d_addrs d)[d_validAddrs d := a],
               d_validAddrs := d_validAddrs d + 1\<rparr>))"

text \<open>The decade of an access count: the loop over \<open>i\<close> with \<open>logval = 10 ^ i\<close>; \<open>k\<close> is the open bucket.\<close>

fun log_scan :: "nat \<Rightarrow> nat \<Rightarrow> nat \<Rightarrow> nat list \<Rightarrow> nat option" where
  "log_scan k n logval [] = None"
| "log_scan k n logval (i # iis) =
     (if logval \<le> n \<and> (n < 10 * logval \<or> i = k) then Some i
      else log_scan k n (10 * logval) iis)"

definition bump_log :: "nat \<Rightarrow> nat \<Rightarrow> rh_stats \<Rightarrow> rh_stats" where
  "bump_log k n st = (case log_scan k n 1 [0..<k + 1] of
      None \<Rightarrow> st
    | Some i \<Rightarrow> st\<lparr>s_numLogRowAccesses := (s_numLogRowAccesses st)(i := s_numLogRowAccesses st i + 1)\<rparr>)"

text \<open>The statistics of one row at the end of a window.\<close>

definition tally_row :: "nat \<Rightarrow> nat \<Rightarrow> rh_stats \<Rightarrow> rh_stats" where
  "tally_row threshold n st =
     (let st1 = (if threshold \<le> n then st\<lparr>s_numRowAccesses_RH := s_numRowAccesses_RH st + 1\<rparr> else st)
      in bump_log 3 n st1)"

definition numDRAMRows :: "('d, 'e) rh_mitigation_scheme \<Rightarrow> nat" where
  "numDRAMRows s = numRows s * numBanks s * numRanks s * numChannels s mod u32_size"

definition clear_row_counts :: "nat \<Rightarrow> (nat \<Rightarrow> nat) \<Rightarrow> nat \<Rightarrow> nat" where
  "clear_row_counts n counts = (\<lambda>r. if r < n then 0 else counts r)"

section \<open>Lemmas\<close>

lemma push_action_ok:
  assumes "d_validAddrs d < 6" and "length (d_addrs d) = 6" and "length (d_isActionSwap d) = 6"
  shows "\<exists>d'. push_action a d = Inr d' \<and> d_validAddrs d' = d_validAddrs d + 1 \<and>
    length (d_addrs d') = 6 \<and> length (d_isActionSwap d') = 6 \<and>
    d_addrs d' ! d_validAddrs d = a \<and> take (d_validAddrs d) (d_addrs d') = take (d_validAddrs d) (d_addrs d)"
  using assms by (simp add: push_action_def)

lemma log_scan_Some:
  assumes "logval = 10 ^ i" and "10 ^ i \<le> n" and "i \<le> k"
  shows "\<exists>j. log_scan k n logval [i..<k + 1] = Some j \<and> i \<le> j \<and> j \<le> k \<and> 10 ^ j \<le> n \<and>
    (n < 10 ^ (j + 1) \<or> j = k)"
  using assms
proof (induction "k - i" arbitrary: i logval)
  case 0
  then show ?case by (simp add: upt_conv_Cons)
next
  case (Suc d)
  show ?case
  proof (cases "n < 10 * logval")
    case True
    then show ?thesis using Suc.prems by (simp add: upt_conv_Cons del: upt_Suc)
  next
    case False
    then have "d = k - (i + 1)" "i < k" "10 ^ (i + 1) \<le> n" "10 * logval = 10 ^ (i + 1)"
      using Suc.hyps(2) Suc.prems by auto
    then obtain j where "log_scan k n (10 * logval) [i + 1..<k + 1] = Some j" "i + 1 \<le> j" "j \<le> k"
        "10 ^ j \<le> n" "n < 10 ^ (j + 1) \<or> j = k"
      using Suc.hyps(1)[of "i + 1" "10 * logval"] by (auto simp del: upt_Suc)
    moreover have "[i..<k + 1] = i # [i + 1..<k + 1]"
      using \<open>i < k\<close> by (subst upt_conv_Cons) auto
    ultimately show ?thesis
      using False \<open>i < k\<close> by (intro exI[of _ j]) (simp del: upt_Suc)
  qed
qed

text \<open>The bucket a count falls into: \<open>10 ^ i \<le> n < 10 ^ (i + 1)\<close>, the last bucket open above.\<close>

lemma log_scan_bucket:
  "0 < n \<Longrightarrow> \<exists>j. log_scan k n 1 [0..<k + 1] = Some j \<and> j \<le> k \<and> 10 ^ j \<le> n \<and> (n < 10 ^ (j + 1) \<or> j = k)"
  using log_scan_Some[of 1 0 n k] by simp

lemma resetDecision_simps [simp]:
  "decision (resetDecision s) = cleared_decision"
  "numRows (resetDecision s) = numRows s" "numBanks (resetDecision s) = numBanks s"
  "numRanks (resetDecision s) = numRanks s" "numChannels (resetDecision s) = numChannels s"
  "last_reset (resetDecision s) = last_reset s" "detector (resetDecision s) = detector s"
  by (simp_all add: resetDecision_def)

text \<open>Members with the value zero, for concrete instances.\<close>

definition zero_stats :: rh_stats where
  "zero_stats = \<lparr>s_remapped_row_accessed = 0, s_clean_install = 0, s_only_unswap = 0, s_clean_reswap = 0,
     s_dirty_reswap = 0, s_num_resets = 0, s_num_accesses = 0, s_move_to_qr = 0, s_move_within_qr = 0,
     s_move_to_qr_remove = 0, s_move_within_qr_remove = 0, s_drain_qr = 0, s_btv_true_positives = 0,
     s_btv_false_positives = 0, s_btv_true_negatives = 0, s_cache_hit = 0, s_cache_partial_hit_orr_set = 0,
     s_cache_partial_hit_orr_unset = 0, s_cache_miss = 0, s_cache_miss_entry_inserts = 0,
     s_cache_miss_line_entry_inserts = 0, s_cache_clean_evicts = 0, s_cache_dirty_evicts = 0,
     s_btv_residency = (\<lambda>_. 0), s_numLogRowAccesses = (\<lambda>_. 0), s_numRowAccesses_RH = 0,
     s_QR_CumulativeOccupancy = 0, s_randRowGenerationFailed = 0\<rparr>"

definition zero_scheme :: "'d \<Rightarrow> 'd rh_mitigation" where
  "zero_scheme d = \<lparr>numRows = 0, numBanks = 0, numRanks = 0, numChannels = 0, last_reset = 0, rh_thr = 0,
     detector = d, decision = cleared_decision, numAccessesToRow = (\<lambda>_. 0), moveDelay = 0, accDelay = 0,
     swapDelay = 0, virtualize_RIT = False, SRAM_RQT_accDelay = 0, SRAM_QRT_accDelay = 0,
     SRAM_Cache_accDelay = 0, SRAM_CBF_accDelay = 0, SRAM_RIT_accDelay = 0, prev_drain_cache_miss_val = 0,
     drain_cache_miss_threshold = 0, rh_stats = zero_stats\<rparr>"

end
