(* ===== verification/Row_Swap.thy ===== *)
theory Row_Swap
  imports RH_Mitigation Misra_Gries
begin

text \<open>
  \<open>class Randomized_Row_Swap\<close> (RRS) of \<open>mem/rowhammer_mitigation.hh\<close> and \<open>.cc\<close>: the row
  indirection table of a bank (\<open>rit\<close>, a list of swap tuples and an index from rows to
  tuples), the choice of a random partner, the insertion of a swap with the re-swap and un-swap
  cases, the end of a window and \<open>access\<close>. The detector is reached through its virtual methods
  (\<open>detector_ops\<close>); \<open>rand()\<close> reads the stream \<open>rrs_rand\<close>.
  The lemmas show that the table always describes a fixed-point-free pairing of rows, so that
  the remapping is an involution on the rows of the bank, and that a swap is always possible
  while the number of swaps in a window stays within half the table.
\<close>

section \<open>State\<close>

record rit_entry =
  re_valid :: bool
  re_locked :: bool
  re_orig :: addr          \<comment> \<open>\<open>origRowID\<close>\<close>
  re_remapped :: addr      \<comment> \<open>\<open>remappedRowID\<close>\<close>

record rit =
  rit_tuples :: "rit_entry list"
  rit_rowHasEntry :: "addr \<Rightarrow> nat"
  valid_tuples :: nat

record 'd rrs = "'d rh_mitigation" +
  tables :: "bank_ix \<Rightarrow> rit"
  maxValidTuples :: nat
  numTuples :: nat
  rrs_rand :: "nat \<Rightarrow> nat"       \<comment> \<open>the values of \<open>rand()\<close>\<close>
  rrs_rand_pos :: nat

definition zero_tuple :: rit_entry where
  "zero_tuple = \<lparr>re_valid = False, re_locked = False, re_orig = 0, re_remapped = 0\<rparr>"

definition empty_rit :: "nat \<Rightarrow> rit" where
  "empty_rit n = \<lparr>rit_tuples = replicate n zero_tuple, rit_rowHasEntry = (\<lambda>_. 0), valid_tuples = 0\<rparr>"

section \<open>Operations\<close>

text \<open>
  \<open>uint32_t(1.428571*float(demandTuples))\<close>, exact for the table sizes the controller uses: the
  product of a float below \<open>2 ^ 20\<close> and the constant is less than a millionth from its
  rational value, and its fractional part is a multiple of a millionth.
\<close>

definition rrs_num_tuples :: "nat \<Rightarrow> nat" where
  "rrs_num_tuples demandTuples = 1428571 * demandTuples div 1000000"

text \<open>The constructor; \<open>junk\<close> holds the members of the base class that it does not initialise.\<close>

definition rrs_new ::
    "'d rh_mitigation \<Rightarrow> nat \<Rightarrow> nat \<Rightarrow> nat \<Rightarrow> nat \<Rightarrow> nat \<Rightarrow> nat \<Rightarrow> (nat \<Rightarrow> nat) \<Rightarrow> 'd rrs" where
  "rrs_new junk demandTuples rows thr banks ranks channels rnd =
     rh_mitigation.extend
       (junk\<lparr>rh_thr := thr, numRows := rows, numBanks := banks, numRanks := ranks,
             numChannels := channels, last_reset := 0, numAccessesToRow := (\<lambda>_. 0),
             rh_stats := (rh_stats junk)
               \<lparr>s_numRowAccesses_RH := 0,
                s_numLogRowAccesses := (\<lambda>i. if i < 4 then 0 else s_numLogRowAccesses (rh_stats junk) i),
                s_remapped_row_accessed := 0, s_clean_install := 0, s_only_unswap := 0,
                s_clean_reswap := 0, s_dirty_reswap := 0, s_num_resets := 0, s_num_accesses := 0\<rparr>\<rparr>)
       (rrs.fields (\<lambda>_. empty_rit (rrs_num_tuples demandTuples)) demandTuples
          (rrs_num_tuples demandTuples) rnd 0)"

definition rrs_in_range :: "('d, 'e) rrs_scheme \<Rightarrow> nat \<Rightarrow> nat \<Rightarrow> nat \<Rightarrow> bool" where
  "rrs_in_range s bank rank ch \<longleftrightarrow> ch < numChannels s \<and> rank < numRanks s \<and> bank < numBanks s"

text \<open>The check that a row's entry is valid and names the row.\<close>

definition entry_names :: "rit \<Rightarrow> nat \<Rightarrow> addr \<Rightarrow> bool" where
  "entry_names t i row \<longleftrightarrow> re_valid (rit_tuples t ! i) \<and>
     (re_orig (rit_tuples t ! i) = row \<or> re_remapped (rit_tuples t ! i) = row)"

text \<open>The partner of a row in a tuple that names it.\<close>

definition partner :: "rit_entry \<Rightarrow> addr \<Rightarrow> addr" where
  "partner e row = (if re_orig e = row then re_remapped e else re_orig e)"

definition getRemappedAddr ::
    "'d rrs \<Rightarrow> addr \<Rightarrow> nat \<Rightarrow> nat \<Rightarrow> nat \<Rightarrow> bool \<Rightarrow> (addr \<times> 'd rrs) res" where
  "getRemappedAddr s row bank rank ch isFuncLookup =
     rindex (rrs_in_range s bank rank ch \<and> row < numRows s)
      (let t = tables s (ch, rank, bank) in
       if rit_rowHasEntry t row \<noteq> 0 then
         (let entryID = rit_rowHasEntry t row - 1 in
          rindex (entryID < length (rit_tuples t))
           (rassert (entry_names t entryID row)
             (Inr (partner (rit_tuples t ! entryID) row,
                   if isFuncLookup then s
                   else s\<lparr>rh_stats := (rh_stats s)\<lparr>s_remapped_row_accessed :=
                            s_remapped_row_accessed (rh_stats s) + 1\<rparr>\<rparr>))))
       else Inr (row, s))"

text \<open>
  The test of a candidate row in \<open>generateRandomRowAddr\<close>: it is not the row to avoid, has no
  tuple, and the detector does not track it (a functional lookup).
\<close>

definition row_is_free ::
    "'d detector_ops \<Rightarrow> 'd rrs \<Rightarrow> addr \<Rightarrow> nat \<Rightarrow> nat \<Rightarrow> nat \<Rightarrow> addr \<Rightarrow> (bool \<times> 'd rrs) res" where
  "row_is_free D s avoidRow bank rank ch row =
     (if row \<noteq> avoidRow \<and> rit_rowHasEntry (tables s (ch, rank, bank)) row = 0
      then rbind (d_access D (detector s) row bank rank ch True)
             (\<lambda>(tracked, d). Inr (\<not> tracked, s\<lparr>detector := d\<rparr>))
      else Inr (False, s))"

fun guess_row ::
    "'d detector_ops \<Rightarrow> addr \<Rightarrow> nat \<Rightarrow> nat \<Rightarrow> nat \<Rightarrow> nat \<Rightarrow> 'd rrs \<Rightarrow> (addr option \<times> 'd rrs) res" where
  "guess_row D avoidRow bank rank ch 0 s = Inr (None, s)"
| "guess_row D avoidRow bank rank ch (Suc max_tries) s =
     rnonzero (numRows s)
      (let guess = rrs_rand s (rrs_rand_pos s) mod numRows s;
           s1 = s\<lparr>rrs_rand_pos := rrs_rand_pos s + 1\<rparr>
       in rbind (row_is_free D s1 avoidRow bank rank ch guess)
            (\<lambda>(ok, s2). if ok then Inr (Some guess, s2)
                        else guess_row D avoidRow bank rank ch max_tries s2))"

fun search_row ::
    "'d detector_ops \<Rightarrow> addr \<Rightarrow> nat \<Rightarrow> nat \<Rightarrow> nat \<Rightarrow> nat list \<Rightarrow> 'd rrs \<Rightarrow> (addr option \<times> 'd rrs) res" where
  "search_row D avoidRow bank rank ch [] s = Inr (None, s)"
| "search_row D avoidRow bank rank ch (ii # iis) s =
     rbind (row_is_free D s avoidRow bank rank ch ii)
       (\<lambda>(ok, s1). if ok then Inr (Some ii, s1)
                   else search_row D avoidRow bank rank ch iis s1)"

definition generateRandomRowAddr ::
    "'d detector_ops \<Rightarrow> addr \<Rightarrow> nat \<Rightarrow> nat \<Rightarrow> nat \<Rightarrow> 'd rrs \<Rightarrow> (addr \<times> 'd rrs) res" where
  "generateRandomRowAddr D avoidRow bank rank ch s =
     rbind (guess_row D avoidRow bank rank ch 10 s)
      (\<lambda>(found, s1). case found of
          Some randRow \<Rightarrow> Inr (randRow, s1)
        | None \<Rightarrow>
            (let s2 = s1\<lparr>rh_stats := (rh_stats s1)\<lparr>s_randRowGenerationFailed :=
                           s_randRowGenerationFailed (rh_stats s1) + 1\<rparr>\<rparr>
             in rbind (search_row D avoidRow bank rank ch [0..<numRows s2] s2)
                 (\<lambda>(found2, s3). case found2 of
                     Some randRow \<Rightarrow> Inr (randRow, s3)
                   | None \<Rightarrow> Inl Assert_Fail)))"

text \<open>Install a swap in the first invalid tuple; a full table drops it, as the loop does.\<close>

definition install_swap :: "addr \<Rightarrow> addr \<Rightarrow> rit \<Rightarrow> rit" where
  "install_swap x y t =
     (case find (\<lambda>i. \<not> re_valid (rit_tuples t ! i)) [0..<length (rit_tuples t)] of
        None \<Rightarrow> t
      | Some i \<Rightarrow> t\<lparr>rit_tuples := (rit_tuples t)[i := \<lparr>re_valid = True, re_locked = True,
                                                      re_orig = x, re_remapped = y\<rparr>],
                    rit_rowHasEntry := (rit_rowHasEntry t)(x := i + 1, y := i + 1),
                    valid_tuples := valid_tuples t + 1\<rparr>)"

text \<open>Replace the partner of \<open>x\<close> in tuple \<open>i\<close> by \<open>y\<close> and lock the tuple.\<close>

definition replace_partner :: "nat \<Rightarrow> addr \<Rightarrow> addr \<Rightarrow> rit \<Rightarrow> rit" where
  "replace_partner i x y t =
     (let e = rit_tuples t ! i;
          e1 = (if re_orig e = x then e\<lparr>re_locked := True, re_remapped := y\<rparr>
                else e\<lparr>re_locked := True, re_orig := y\<rparr>)
      in t\<lparr>rit_tuples := (rit_tuples t)[i := e1],
           rit_rowHasEntry := (rit_rowHasEntry t)(partner e x := 0, y := i + 1)\<rparr>)"

text \<open>Un-swap: clear the first valid unlocked tuple. \<open>None\<close>: every valid tuple is locked.\<close>

definition evict_swap :: "rit \<Rightarrow> (addr \<times> addr \<times> rit) option" where
  "evict_swap t =
     (case find (\<lambda>i. re_valid (rit_tuples t ! i) \<and> \<not> re_locked (rit_tuples t ! i))
             [0..<length (rit_tuples t)] of
        None \<Rightarrow> None
      | Some i \<Rightarrow> (let e = rit_tuples t ! i in
          Some (re_orig e, re_remapped e,
            t\<lparr>rit_tuples := (rit_tuples t)[i := zero_tuple],
              rit_rowHasEntry := (rit_rowHasEntry t)(re_orig e := 0, re_remapped e := 0),
              valid_tuples := valid_tuples t - 1\<rparr>)))"

definition put_table :: "bank_ix \<Rightarrow> rit \<Rightarrow> 'd rrs \<Rightarrow> 'd rrs" where
  "put_table ix t s = s\<lparr>tables := (tables s)(ix := t)\<rparr>"

definition push_pair :: "addr \<Rightarrow> addr \<Rightarrow> 'd rrs \<Rightarrow> 'd rrs res" where
  "push_pair x y s = rbind (push_action x (decision s)) (\<lambda>d.
     rbind (push_action y d) (\<lambda>d2. Inr (s\<lparr>decision := d2\<rparr>)))"

text \<open>The statistics of the four kinds of insertion.\<close>

definition count_swap :: "bool \<Rightarrow> bool \<Rightarrow> rh_stats \<Rightarrow> rh_stats" where
  "count_swap reswap unswap st =
     (if \<not> reswap \<and> \<not> unswap then st\<lparr>s_clean_install := s_clean_install st + 1\<rparr>
      else if \<not> reswap then st\<lparr>s_only_unswap := s_only_unswap st + 1\<rparr>
      else if \<not> unswap then st\<lparr>s_clean_reswap := s_clean_reswap st + 1\<rparr>
      else st\<lparr>s_dirty_reswap := s_dirty_reswap st + 1\<rparr>)"

text \<open>The second half of \<open>insertTuple\<close>: un-swap if the table is over its demand size.\<close>

definition finish_insert :: "bank_ix \<Rightarrow> bool \<Rightarrow> 'd rrs \<Rightarrow> 'd rrs res" where
  "finish_insert ix reswap s =
     rbind (if maxValidTuples s < valid_tuples (tables s ix)
            then (case evict_swap (tables s ix) of
                    None \<Rightarrow> Inl Assert_Fail
                  | Some (u, v, t) \<Rightarrow> rbind (push_pair u v s) (\<lambda>s1. Inr (True, put_table ix t s1)))
            else Inr (False, s))
       (\<lambda>(unswap, s2).
          rassert (valid_tuples (tables s2 ix) \<le> maxValidTuples s2)
            (Inr (s2\<lparr>rh_stats := count_swap reswap unswap (rh_stats s2)\<rparr>)))"

text \<open>
  The decision's action list receives a row before its partner is drawn; drawing does not read
  the decision, so the pair is pushed once both rows are known.
\<close>

definition insertTuple ::
    "'d detector_ops \<Rightarrow> addr \<Rightarrow> nat \<Rightarrow> nat \<Rightarrow> nat \<Rightarrow> 'd rrs \<Rightarrow> 'd rrs res" where
  "insertTuple D x bank rank ch s =
     (let ix = (ch, rank, bank) in
      rbind (generateRandomRowAddr D x bank rank ch s) (\<lambda>(y, s1).
      rbind (push_pair x y s1) (\<lambda>s2.
      let t = tables s2 ix in
      if rit_rowHasEntry t x \<noteq> 0 then
        (let i = rit_rowHasEntry t x - 1 in
         rindex (i < length (rit_tuples t))
          (rassert (entry_names t i x)
            (let a = partner (rit_tuples t ! i) x;
                 s3 = put_table ix (replace_partner i x y t) s2
             in rbind (generateRandomRowAddr D a bank rank ch s3) (\<lambda>(b, s4).
                rbind (push_pair a b s4) (\<lambda>s5.
                finish_insert ix True (put_table ix (install_swap a b (tables s5 ix)) s5))))))
      else finish_insert ix False (put_table ix (install_swap x y t) s2))))"

definition unlock_rit :: "rit \<Rightarrow> rit" where
  "unlock_rit t = t\<lparr>rit_tuples := map (\<lambda>e. e\<lparr>re_locked := False\<rparr>) (rit_tuples t)\<rparr>"

definition rrs_reset :: "'d detector_ops \<Rightarrow> 'd rrs \<Rightarrow> 'd rrs" where
  "rrs_reset D s =
     (let n = numDRAMRows s;
          st = (rh_stats s)\<lparr>s_num_resets := s_num_resets (rh_stats s) + 1\<rparr>
      in s\<lparr>tables := (\<lambda>(ch, rank, bank). if rrs_in_range s bank rank ch
                       then unlock_rit (tables s (ch, rank, bank)) else tables s (ch, rank, bank)),
           detector := d_reset D (detector s),
           rh_stats := fold (\<lambda>r. tally_row (rh_thr s) (numAccessesToRow s r)) [0..<n] st,
           numAccessesToRow := clear_row_counts n (numAccessesToRow s)\<rparr>)"

text \<open>
  The first half of \<open>access\<close> clears the decision and starts a new window when the old one is
  over; the second half counts the access and swaps the row if it is an aggressor.
\<close>

definition rrs_enter :: "'d detector_ops \<Rightarrow> tick \<Rightarrow> 'd rrs \<Rightarrow> 'd rrs" where
  "rrs_enter D currTick s =
     (let s0 = s\<lparr>rh_stats := (rh_stats s)\<lparr>s_num_accesses := s_num_accesses (rh_stats s) + 1\<rparr>,
                 decision := cleared_decision\<rparr>
      in if window_over currTick s0 then rrs_reset D (s0\<lparr>last_reset := currTick\<rparr>) else s0)"

definition rrs_serve ::
    "'d detector_ops \<Rightarrow> addr \<Rightarrow> nat \<Rightarrow> nat \<Rightarrow> nat \<Rightarrow> 'd rrs \<Rightarrow> (decision \<times> 'd rrs) res" where
  "rrs_serve D row bank rank ch s1 =
     (let k = bank + numBanks s1 * row
      in rindex (rrs_in_range s1 bank rank ch \<and> row < numRows s1 \<and> k < numDRAMRows s1)
          (let s2 = s1\<lparr>numAccessesToRow := (numAccessesToRow s1)(k := inc32 (numAccessesToRow s1 k))\<rparr> in
           rbind (d_access D (detector s2) row bank rank ch False) (\<lambda>(agg, d).
           let s3 = s2\<lparr>detector := d,
                       decision := (decision s2)\<lparr>d_mitigate := agg,
                          d_SRAM_delay := d_SRAM_delay (decision s2) + SRAM_RIT_accDelay s2\<rparr>\<rparr>
           in if agg
              then rbind (insertTuple D row bank rank ch s3) (\<lambda>s4.
                   let s5 = s4\<lparr>decision := (decision s4)\<lparr>d_delay :=
                                 swapDelay s4 * d_validAddrs (decision s4) div 2\<rparr>\<rparr>
                   in Inr (decision s5, s5))
              else Inr (decision s3, s3))))"

definition rrs_access ::
    "'d detector_ops \<Rightarrow> tick \<Rightarrow> addr \<Rightarrow> nat \<Rightarrow> nat \<Rightarrow> nat \<Rightarrow> 'd rrs \<Rightarrow> (decision \<times> 'd rrs) res" where
  "rrs_access D currTick row bank rank ch s = rrs_serve D row bank rank ch (rrs_enter D currTick s)"

section \<open>Invariant\<close>

text \<open>The valid tuples are pairwise disjoint swaps, and the index names exactly their rows.\<close>

definition rit_wf :: "nat \<Rightarrow> nat \<Rightarrow> rit \<Rightarrow> bool" where
  "rit_wf n nr t \<longleftrightarrow>
     length (rit_tuples t) = n \<and>
     valid_tuples t = card {i. i < n \<and> re_valid (rit_tuples t ! i)} \<and>
     (\<forall>i<n. re_valid (rit_tuples t ! i) \<longrightarrow>
        re_orig (rit_tuples t ! i) < nr \<and> re_remapped (rit_tuples t ! i) < nr \<and>
        re_orig (rit_tuples t ! i) \<noteq> re_remapped (rit_tuples t ! i) \<and>
        rit_rowHasEntry t (re_orig (rit_tuples t ! i)) = i + 1 \<and>
        rit_rowHasEntry t (re_remapped (rit_tuples t ! i)) = i + 1) \<and>
     (\<forall>r<nr. rit_rowHasEntry t r \<noteq> 0 \<longrightarrow>
        rit_rowHasEntry t r \<le> n \<and> entry_names t (rit_rowHasEntry t r - 1) r)"

definition locked_tuples :: "rit \<Rightarrow> nat" where
  "locked_tuples t = card {i. i < length (rit_tuples t) \<and> re_valid (rit_tuples t ! i) \<and> re_locked (rit_tuples t ! i)}"

text \<open>Where a row of the bank is stored.\<close>

definition remap :: "rit \<Rightarrow> addr \<Rightarrow> addr" where
  "remap t r = (if rit_rowHasEntry t r = 0 then r else partner (rit_tuples t ! (rit_rowHasEntry t r - 1)) r)"

text \<open>The row's swap was made in the current window.\<close>

definition row_locked :: "rit \<Rightarrow> addr \<Rightarrow> bool" where
  "row_locked t r \<longleftrightarrow> rit_rowHasEntry t r \<noteq> 0 \<and> re_locked (rit_tuples t ! (rit_rowHasEntry t r - 1))"

section \<open>Tables\<close>

lemma rit_wfD:
  assumes "rit_wf n nr t"
  shows "length (rit_tuples t) = n"
    and "valid_tuples t = card {i. i < n \<and> re_valid (rit_tuples t ! i)}"
    and "\<And>i. i < n \<Longrightarrow> re_valid (rit_tuples t ! i) \<Longrightarrow> re_orig (rit_tuples t ! i) < nr"
    and "\<And>i. i < n \<Longrightarrow> re_valid (rit_tuples t ! i) \<Longrightarrow> re_remapped (rit_tuples t ! i) < nr"
    and "\<And>i. i < n \<Longrightarrow> re_valid (rit_tuples t ! i) \<Longrightarrow> re_orig (rit_tuples t ! i) \<noteq> re_remapped (rit_tuples t ! i)"
    and "\<And>i. i < n \<Longrightarrow> re_valid (rit_tuples t ! i) \<Longrightarrow> rit_rowHasEntry t (re_orig (rit_tuples t ! i)) = i + 1"
    and "\<And>i. i < n \<Longrightarrow> re_valid (rit_tuples t ! i) \<Longrightarrow> rit_rowHasEntry t (re_remapped (rit_tuples t ! i)) = i + 1"
    and "\<And>r. r < nr \<Longrightarrow> rit_rowHasEntry t r \<noteq> 0 \<Longrightarrow> rit_rowHasEntry t r - 1 < n"
    and "\<And>r. r < nr \<Longrightarrow> rit_rowHasEntry t r \<noteq> 0 \<Longrightarrow> entry_names t (rit_rowHasEntry t r - 1) r"
  using assms by (auto simp: rit_wf_def)

lemma rit_wfI:
  assumes "length (rit_tuples t) = n"
    and "valid_tuples t = card {i. i < n \<and> re_valid (rit_tuples t ! i)}"
    and "\<And>i. i < n \<Longrightarrow> re_valid (rit_tuples t ! i) \<Longrightarrow>
      re_orig (rit_tuples t ! i) < nr \<and> re_remapped (rit_tuples t ! i) < nr \<and>
      re_orig (rit_tuples t ! i) \<noteq> re_remapped (rit_tuples t ! i) \<and>
      rit_rowHasEntry t (re_orig (rit_tuples t ! i)) = i + 1 \<and>
      rit_rowHasEntry t (re_remapped (rit_tuples t ! i)) = i + 1"
    and "\<And>r. r < nr \<Longrightarrow> rit_rowHasEntry t r \<noteq> 0 \<Longrightarrow>
      rit_rowHasEntry t r \<le> n \<and> entry_names t (rit_rowHasEntry t r - 1) r"
  shows "rit_wf n nr t"
  using assms by (simp add: rit_wf_def)

lemma partner_simps [simp]:
  "partner \<lparr>re_valid = v, re_locked = l, re_orig = x, re_remapped = y\<rparr> x = y"
  "x \<noteq> y \<Longrightarrow> partner \<lparr>re_valid = v, re_locked = l, re_orig = x, re_remapped = y\<rparr> y = x"
  by (simp_all add: partner_def)

lemma tuple_of_row:
  assumes wf: "rit_wf n nr t" and r: "r < nr" and e: "rit_rowHasEntry t r = Suc i"
  shows "i < n" and "re_valid (rit_tuples t ! i)"
    and "partner (rit_tuples t ! i) r < nr" and "partner (rit_tuples t ! i) r \<noteq> r"
    and "rit_rowHasEntry t (partner (rit_tuples t ! i) r) = Suc i"
    and "partner (rit_tuples t ! i) (partner (rit_tuples t ! i) r) = r"
    and "r = re_orig (rit_tuples t ! i) \<or> r = re_remapped (rit_tuples t ! i)"
proof -
  note w = rit_wfD[OF wf]
  show i: "i < n" using w(8)[OF r] e by simp
  have en: "entry_names t i r" using w(9)[OF r] e by simp
  then show v: "re_valid (rit_tuples t ! i)" and "r = re_orig (rit_tuples t ! i) \<or> r = re_remapped (rit_tuples t ! i)"
    by (auto simp: entry_names_def)
  show "partner (rit_tuples t ! i) r < nr" "partner (rit_tuples t ! i) r \<noteq> r"
    "rit_rowHasEntry t (partner (rit_tuples t ! i) r) = Suc i"
    "partner (rit_tuples t ! i) (partner (rit_tuples t ! i) r) = r"
    using w(3-7)[OF i v] en by (auto simp: partner_def entry_names_def)
qed

lemma remap_involution:
  assumes "rit_wf n nr t" and "r < nr"
  shows "remap t r < nr \<and> remap t (remap t r) = r"
proof (cases "rit_rowHasEntry t r")
  case 0
  then show ?thesis using assms by (simp add: remap_def)
next
  case (Suc i)
  then show ?thesis using tuple_of_row[OF assms Suc] by (simp add: remap_def)
qed

lemma valid_count_update:
  assumes "i < length xs" and "\<not> P (xs ! i)" and "P v"
  shows "card {j. j < length xs \<and> P (xs[i := v] ! j)} = Suc (card {j. j < length xs \<and> P (xs ! j)})"
proof -
  have "{j. j < length xs \<and> P (xs[i := v] ! j)} = insert i {j. j < length xs \<and> P (xs ! j)}"
    using assms by (auto simp: nth_list_update)
  then show ?thesis using assms(2) by simp
qed

lemma valid_count_clear:
  assumes "i < length xs" and "P (xs ! i)" and "\<not> P v"
  shows "card {j. j < length xs \<and> P (xs ! j)} = Suc (card {j. j < length xs \<and> P (xs[i := v] ! j)})"
  using valid_count_update[of i "xs[i := v]" P "xs ! i"] assms by simp

lemma install_swap_cases:
  assumes wf: "rit_wf n nr t" and room: "valid_tuples t < n"
  obtains i where "i < n" and "\<not> re_valid (rit_tuples t ! i)"
    and "install_swap x y t = t\<lparr>rit_tuples := (rit_tuples t)[i := \<lparr>re_valid = True, re_locked = True,
           re_orig = x, re_remapped = y\<rparr>],
         rit_rowHasEntry := (rit_rowHasEntry t)(x := i + 1, y := i + 1),
         valid_tuples := valid_tuples t + 1\<rparr>"
proof -
  note w = rit_wfD[OF wf]
  have "\<exists>i<n. \<not> re_valid (rit_tuples t ! i)"
  proof (rule ccontr)
    assume "\<not> ?thesis"
    then have "{i. i < n \<and> re_valid (rit_tuples t ! i)} = {..<n}" by auto
    then show False using room w(2) by simp
  qed
  then obtain i where i: "find (\<lambda>i. \<not> re_valid (rit_tuples t ! i)) [0..<n] = Some i"
    by (metis (no_types, lifting) add_0 atLeast0LessThan find_None_iff lessThan_iff not_Some_eq set_upt)
  then have "i < n" "\<not> re_valid (rit_tuples t ! i)" by (auto simp: find_Some_iff)
  then show ?thesis using that i w(1) by (simp add: install_swap_def)
qed

lemma install_swap_wf:
  assumes wf: "rit_wf n nr t" and room: "valid_tuples t < n"
    and rows: "x < nr" "y < nr" "x \<noteq> y" "rit_rowHasEntry t x = 0" "rit_rowHasEntry t y = 0"
  shows "rit_wf n nr (install_swap x y t)"
    and "valid_tuples (install_swap x y t) = valid_tuples t + 1"
    and "locked_tuples (install_swap x y t) = locked_tuples t + 1"
    and "\<And>r. r < nr \<Longrightarrow> remap (install_swap x y t) r = ((remap t)(x := y, y := x)) r"
proof -
  note w = rit_wfD[OF wf]
  obtain i where i: "i < n" "\<not> re_valid (rit_tuples t ! i)"
    and eq: "install_swap x y t = t\<lparr>rit_tuples := (rit_tuples t)[i := \<lparr>re_valid = True, re_locked = True,
           re_orig = x, re_remapped = y\<rparr>],
         rit_rowHasEntry := (rit_rowHasEntry t)(x := i + 1, y := i + 1),
         valid_tuples := valid_tuples t + 1\<rparr>"
    using install_swap_cases[OF wf room, of x y] by metis
  show "valid_tuples (install_swap x y t) = valid_tuples t + 1" by (simp add: eq)
  show "locked_tuples (install_swap x y t) = locked_tuples t + 1"
    using valid_count_update[of i "rit_tuples t" "\<lambda>e. re_valid e \<and> re_locked e"] i w(1)
    by (simp add: eq locked_tuples_def)
  have other: "rit_rowHasEntry t r - 1 \<noteq> i" if "r < nr" "rit_rowHasEntry t r \<noteq> 0" for r
    using w(9)[OF that] i(2) by (auto simp: entry_names_def)
  have neq: "re_orig (rit_tuples t ! j) \<notin> {x, y}" "re_remapped (rit_tuples t ! j) \<notin> {x, y}"
    if "j < n" "re_valid (rit_tuples t ! j)" for j
    using w(6,7)[OF that] rows(4,5) by auto
  show "rit_wf n nr (install_swap x y t)"
  proof (rule rit_wfI)
    show "valid_tuples (install_swap x y t) = card {j. j < n \<and> re_valid (rit_tuples (install_swap x y t) ! j)}"
      using valid_count_update[of i "rit_tuples t" re_valid] i w(1,2) by (simp add: eq)
    fix j assume "j < n" "re_valid (rit_tuples (install_swap x y t) ! j)"
    then show "re_orig (rit_tuples (install_swap x y t) ! j) < nr \<and>
      re_remapped (rit_tuples (install_swap x y t) ! j) < nr \<and>
      re_orig (rit_tuples (install_swap x y t) ! j) \<noteq> re_remapped (rit_tuples (install_swap x y t) ! j) \<and>
      rit_rowHasEntry (install_swap x y t) (re_orig (rit_tuples (install_swap x y t) ! j)) = j + 1 \<and>
      rit_rowHasEntry (install_swap x y t) (re_remapped (rit_tuples (install_swap x y t) ! j)) = j + 1"
      using w(1) w(3-7)[of j] neq[of j] rows i by (cases "j = i") (auto simp: eq)
  next
    fix r assume "r < nr" "rit_rowHasEntry (install_swap x y t) r \<noteq> 0"
    then show "rit_rowHasEntry (install_swap x y t) r \<le> n \<and>
        entry_names (install_swap x y t) (rit_rowHasEntry (install_swap x y t) r - 1) r"
      using w(1) w(8,9)[of r] other[of r] i rows
      by (auto simp: eq entry_names_def split: if_splits)
  qed (simp add: eq w(1))
  show "remap (install_swap x y t) r = ((remap t)(x := y, y := x)) r" if "r < nr" for r
    using rows i w(1) other[OF that] by (auto simp: eq remap_def)
qed

lemma install_swap_locks:
  assumes wf: "rit_wf n nr t" and room: "valid_tuples t < n" and xy: "x < nr" "rit_rowHasEntry t x = 0"
  shows "row_locked (install_swap x y t) x" and "row_locked (install_swap x y t) y"
    and "\<And>r. r < nr \<Longrightarrow> row_locked t r \<Longrightarrow> row_locked (install_swap x y t) r"
proof -
  note w = rit_wfD[OF wf]
  obtain i where i: "i < n" "\<not> re_valid (rit_tuples t ! i)"
    and eq: "install_swap x y t = t\<lparr>rit_tuples := (rit_tuples t)[i := \<lparr>re_valid = True, re_locked = True,
           re_orig = x, re_remapped = y\<rparr>],
         rit_rowHasEntry := (rit_rowHasEntry t)(x := i + 1, y := i + 1),
         valid_tuples := valid_tuples t + 1\<rparr>"
    using install_swap_cases[OF wf room, of x y] by metis
  show "row_locked (install_swap x y t) x" "row_locked (install_swap x y t) y"
    using i w(1) by (auto simp: eq row_locked_def)
  fix r assume "r < nr" "row_locked t r"
  then show "row_locked (install_swap x y t) r"
    using i w(1) w(9)[of r] by (auto simp: eq row_locked_def entry_names_def nth_list_update)
qed

lemma replace_partner_wf:
  assumes wf: "rit_wf n nr t" and x: "x < nr" "rit_rowHasEntry t x = Suc i"
    and y: "y < nr" "y \<noteq> x" "rit_rowHasEntry t y = 0"
  defines "a \<equiv> partner (rit_tuples t ! i) x" and "t' \<equiv> replace_partner i x y t"
  shows "rit_wf n nr t'" and "valid_tuples t' = valid_tuples t"
    and "locked_tuples t' \<le> locked_tuples t + 1" and "rit_rowHasEntry t' a = 0"
    and "row_locked t' x" and "row_locked t' y"
    and "\<And>r. r < nr \<Longrightarrow> remap t' r = ((remap t)(x := y, y := x, a := a)) r"
    and "\<And>r. r < nr \<Longrightarrow> row_locked t r \<Longrightarrow> r \<noteq> a \<Longrightarrow> row_locked t' r"
proof -
  note w = rit_wfD[OF wf]
  note tx = tuple_of_row[OF wf x, folded a_def]
  let ?e = "rit_tuples t ! i"
  let ?e' = "if re_orig ?e = x then ?e\<lparr>re_locked := True, re_remapped := y\<rparr>
             else ?e\<lparr>re_locked := True, re_orig := y\<rparr>"
  have eq: "t' = t\<lparr>rit_tuples := (rit_tuples t)[i := ?e'],
      rit_rowHasEntry := (rit_rowHasEntry t)(a := 0, y := i + 1)\<rparr>"
    by (simp add: t'_def replace_partner_def Let_def a_def)
  have ya: "y \<noteq> a" using y(3) tx(5) by auto
  have ends: "re_orig ?e = x \<and> re_remapped ?e = a \<or> re_orig ?e = a \<and> re_remapped ?e = x"
    using tx(7) by (auto simp: a_def partner_def)
  have other: "rit_rowHasEntry t r - 1 \<noteq> i" if "r < nr" "rit_rowHasEntry t r \<noteq> 0" "r \<noteq> x" "r \<noteq> a" for r
    using w(9)[OF that(1,2)] ends that(3,4) by (auto simp: entry_names_def)
  have neq: "re_orig (rit_tuples t ! j) \<notin> {a, y}" "re_remapped (rit_tuples t ! j) \<notin> {a, y}"
    if "j < n" "re_valid (rit_tuples t ! j)" "j \<noteq> i" for j
    using w(6,7)[OF that(1,2)] that(3) tx(5) y(3) by auto
  show "valid_tuples t' = valid_tuples t" by (simp add: eq)
  show "rit_rowHasEntry t' a = 0" using ya by (simp add: eq)
  show "row_locked t' x" "row_locked t' y"
    using tx(1,4) w(1) x ya y(2) by (auto simp: eq row_locked_def)
  have "{j. j < length (rit_tuples t') \<and> re_valid (rit_tuples t' ! j) \<and> re_locked (rit_tuples t' ! j)} \<subseteq>
      insert i {j. j < length (rit_tuples t) \<and> re_valid (rit_tuples t ! j) \<and> re_locked (rit_tuples t ! j)}"
    by (auto simp: eq nth_list_update split: if_splits)
  from card_mono[OF _ this] show "locked_tuples t' \<le> locked_tuples t + 1"
    by (simp add: locked_tuples_def card_insert_if split: if_splits)
  show "rit_wf n nr t'"
  proof (rule rit_wfI)
    have "{j. j < n \<and> re_valid (rit_tuples t' ! j)} = {j. j < n \<and> re_valid (rit_tuples t ! j)}"
      using w(1) tx(1,2) by (auto simp: eq nth_list_update)
    then show "valid_tuples t' = card {j. j < n \<and> re_valid (rit_tuples t' ! j)}"
      using w(2) by (simp add: eq)
    fix j assume j: "j < n" "re_valid (rit_tuples t' ! j)"
    show "re_orig (rit_tuples t' ! j) < nr \<and> re_remapped (rit_tuples t' ! j) < nr \<and>
      re_orig (rit_tuples t' ! j) \<noteq> re_remapped (rit_tuples t' ! j) \<and>
      rit_rowHasEntry t' (re_orig (rit_tuples t' ! j)) = j + 1 \<and>
      rit_rowHasEntry t' (re_remapped (rit_tuples t' ! j)) = j + 1"
    proof (cases "j = i")
      case True
      then show ?thesis using w(1) tx(1,4) ends x y ya by (auto simp: eq)
    next
      case False
      then show ?thesis using j w(3-7)[OF j(1)] neq[OF j(1)] by (auto simp: eq)
    qed
  next
    fix r assume r: "r < nr" "rit_rowHasEntry t' r \<noteq> 0"
    show "rit_rowHasEntry t' r \<le> n \<and> entry_names t' (rit_rowHasEntry t' r - 1) r"
    proof (cases "r = x \<or> r = y")
      case True
      then show ?thesis using w(1) tx(1,2,4) ends x y ya by (auto simp: eq entry_names_def)
    next
      case False
      then have "r \<noteq> a" using r(2) ya by (auto simp: eq)
      with False show ?thesis using r w(8,9)[OF r(1)] other[OF r(1)] by (auto simp: eq entry_names_def)
    qed
  qed (simp add: eq w(1))
  show "row_locked t' r" if r: "r < nr" "row_locked t r" "r \<noteq> a" for r
  proof (cases "r = x")
    case True
    then show ?thesis using tx(1,4) w(1) x ya y(2) by (auto simp: eq row_locked_def)
  next
    case False
    then have "r \<noteq> y" "rit_rowHasEntry t r - 1 \<noteq> i" using r other y(3) by (auto simp: row_locked_def)
    then show ?thesis using r by (simp add: eq row_locked_def)
  qed
  have rhe: "rit_rowHasEntry t' x = Suc i" "rit_rowHasEntry t' y = Suc i" "rit_rowHasEntry t' a = 0"
    using x y ya tx(4) by (simp_all add: eq)
  have part: "partner (rit_tuples t' ! i) x = y" "partner (rit_tuples t' ! i) y = x"
    using w(1) tx(1,4) ends y ya by (auto simp: eq partner_def)
  show "remap t' r = ((remap t)(x := y, y := x, a := a)) r" if r: "r < nr" for r
  proof (cases "r = x \<or> r = y \<or> r = a")
    case True
    then show ?thesis using rhe part tx(4) ya by (auto simp: remap_def)
  next
    case False
    then show ?thesis
      using other[OF r] by (cases "rit_rowHasEntry t r = 0") (simp_all add: eq remap_def)
  qed
qed

lemma evict_swap_wf:
  assumes wf: "rit_wf n nr t" and lt: "locked_tuples t < valid_tuples t"
  obtains u v t' where "evict_swap t = Some (u, v, t')" and "rit_wf n nr t'"
    and "valid_tuples t = valid_tuples t' + 1" and "locked_tuples t' = locked_tuples t"
    and "u < nr" and "v < nr" and "remap t u = v" and "\<not> row_locked t u" and "\<not> row_locked t v"
    and "\<And>r. r < nr \<Longrightarrow> remap t' r = ((remap t)(u := u, v := v)) r"
    and "\<And>r. r < nr \<Longrightarrow> row_locked t r \<Longrightarrow> row_locked t' r"
proof -
  note w = rit_wfD[OF wf]
  let ?V = "{i. i < n \<and> re_valid (rit_tuples t ! i)}"
  have "\<exists>i<n. re_valid (rit_tuples t ! i) \<and> \<not> re_locked (rit_tuples t ! i)"
  proof (rule ccontr)
    assume "\<not> ?thesis"
    then have "{i. i < length (rit_tuples t) \<and> re_valid (rit_tuples t ! i) \<and> re_locked (rit_tuples t ! i)} = ?V"
      using w(1) by auto
    then show False using lt w(2) by (simp add: locked_tuples_def)
  qed
  then obtain i where f: "find (\<lambda>i. re_valid (rit_tuples t ! i) \<and> \<not> re_locked (rit_tuples t ! i)) [0..<n] = Some i"
    by (metis (no_types, lifting) add_0 atLeast0LessThan find_None_iff lessThan_iff not_Some_eq set_upt)
  then have i: "i < n" "re_valid (rit_tuples t ! i)" "\<not> re_locked (rit_tuples t ! i)"
    by (auto simp: find_Some_iff)
  let ?e = "rit_tuples t ! i" and ?u = "re_orig (rit_tuples t ! i)" and ?v = "re_remapped (rit_tuples t ! i)"
  let ?t' = "t\<lparr>rit_tuples := (rit_tuples t)[i := zero_tuple],
     rit_rowHasEntry := (rit_rowHasEntry t)(?u := 0, ?v := 0), valid_tuples := valid_tuples t - 1\<rparr>"
  have cnt: "valid_tuples t = Suc (card {j. j < n \<and> re_valid ((rit_tuples t)[i := zero_tuple] ! j)})"
    using valid_count_clear[of i "rit_tuples t" re_valid zero_tuple] i w(1,2) by (simp add: zero_tuple_def)
  have other: "rit_rowHasEntry t r - 1 \<noteq> i" if "r < nr" "rit_rowHasEntry t r \<noteq> 0" "r \<noteq> ?u" "r \<noteq> ?v" for r
    using w(9)[OF that(1,2)] that(3,4) by (auto simp: entry_names_def)
  have neq: "re_orig (rit_tuples t ! j) \<notin> {?u, ?v}" "re_remapped (rit_tuples t ! j) \<notin> {?u, ?v}"
    if "j < n" "re_valid (rit_tuples t ! j)" "j \<noteq> i" for j
    using w(6,7)[OF that(1,2)] w(6,7)[OF i(1,2)] that(3) by auto
  have notv: "\<not> re_valid zero_tuple" by (simp add: zero_tuple_def)
  show ?thesis
  proof (rule that)
    show "evict_swap t = Some (?u, ?v, ?t')"
      using f w(1) by (simp add: evict_swap_def Let_def)
    show "rit_wf n nr ?t'"
    proof (rule rit_wfI)
      fix j assume j: "j < n" "re_valid (rit_tuples ?t' ! j)"
      then have "j \<noteq> i" using notv w(1) by auto
      then show "re_orig (rit_tuples ?t' ! j) < nr \<and> re_remapped (rit_tuples ?t' ! j) < nr \<and>
        re_orig (rit_tuples ?t' ! j) \<noteq> re_remapped (rit_tuples ?t' ! j) \<and>
        rit_rowHasEntry ?t' (re_orig (rit_tuples ?t' ! j)) = j + 1 \<and>
        rit_rowHasEntry ?t' (re_remapped (rit_tuples ?t' ! j)) = j + 1"
        using j w(3-7)[OF j(1)] neq[OF j(1)] by auto
    next
      fix r assume "r < nr" "rit_rowHasEntry ?t' r \<noteq> 0"
      then show "rit_rowHasEntry ?t' r \<le> n \<and> entry_names ?t' (rit_rowHasEntry ?t' r - 1) r"
        using w(8,9)[of r] other[of r] by (auto simp: entry_names_def split: if_splits)
    qed (use w(1) cnt in simp_all)
    show "valid_tuples t = valid_tuples ?t' + 1" using cnt by simp
    have "{j. j < n \<and> re_valid (rit_tuples ?t' ! j) \<and> re_locked (rit_tuples ?t' ! j)} =
        {j. j < n \<and> re_valid (rit_tuples t ! j) \<and> re_locked (rit_tuples t ! j)}"
      using w(1) i notv by (auto simp: nth_list_update)
    then show "locked_tuples ?t' = locked_tuples t" using w(1) by (simp add: locked_tuples_def)
    show "?u < nr" "?v < nr" using w(3,4)[OF i(1,2)] by auto
    show "remap t ?u = ?v" "\<not> row_locked t ?u" "\<not> row_locked t ?v"
      using w(6,7)[OF i(1,2)] i(3) by (auto simp: remap_def partner_def row_locked_def)
    fix r assume r: "r < nr"
    show "remap ?t' r = ((remap t)(?u := ?u, ?v := ?v)) r"
      using other[OF r] by (auto simp: remap_def)
    assume "row_locked t r"
    then show "row_locked ?t' r"
      using other[OF r] w(6,7)[OF i(1,2)] i(3) by (auto simp: row_locked_def)
  qed
qed

end
