(* ===== verification/Row_Swap_Safe.thy ===== *)
theory Row_Swap_Safe
  imports Row_Swap
begin

text \<open>
  The row swap against its detector: a free partner row always exists, \<open>insertTuple\<close> returns and
  keeps the table consistent, and a refresh window in which the detector flags at most
  \<open>maxValidTuples div 2\<close> accesses of a bank never reaches one of the \<open>assert\<close>s of the class and
  leaves every aggressor at a new place. The lemmas are proved for every detector that satisfies
  \<open>bounded_detector\<close> and used for \<open>Misra_Gries\<close>.
\<close>

section \<open>Drawing a row\<close>

definition free_row :: "'d detector_ops \<Rightarrow> 'd rrs \<Rightarrow> addr \<Rightarrow> nat \<Rightarrow> nat \<Rightarrow> nat \<Rightarrow> addr \<Rightarrow> bool" where
  "free_row D s avoid bank rank ch row \<longleftrightarrow>
     row < numRows s \<and> row \<noteq> avoid \<and> rit_rowHasEntry (tables s (ch, rank, bank)) row = 0 \<and>
     d_access D (detector s) row bank rank ch True = Inr (False, detector s)"

definition only_draws :: "'d rrs \<Rightarrow> 'd rrs \<Rightarrow> bool" where
  "only_draws s s' \<longleftrightarrow> (\<exists>p st. s' = s\<lparr>rrs_rand_pos := p, rh_stats := st\<rparr>)"

definition rrs_dims :: "('d, 'e) rrs_scheme \<Rightarrow> detector_dims" where
  "rrs_dims s = \<lparr>dim_rows = numRows s, dim_banks = numBanks s, dim_ranks = numRanks s,
                 dim_channels = numChannels s\<rparr>"

lemma only_drawsI [simp, intro]:
  "only_draws s s"
  "only_draws s (s\<lparr>rrs_rand_pos := p\<rparr>)"
  "only_draws s (s\<lparr>rh_stats := st\<rparr>)"
proof -
  have "s = s\<lparr>rrs_rand_pos := rrs_rand_pos s, rh_stats := rh_stats s\<rparr>" by simp
  then show "only_draws s s" unfolding only_draws_def by blast
  have "s\<lparr>rrs_rand_pos := p\<rparr> = s\<lparr>rrs_rand_pos := p, rh_stats := rh_stats s\<rparr>" by simp
  then show "only_draws s (s\<lparr>rrs_rand_pos := p\<rparr>)" unfolding only_draws_def by blast
  have "s\<lparr>rh_stats := st\<rparr> = s\<lparr>rrs_rand_pos := rrs_rand_pos s, rh_stats := st\<rparr>" by simp
  then show "only_draws s (s\<lparr>rh_stats := st\<rparr>)" unfolding only_draws_def by blast
qed

lemma only_draws_trans: "only_draws s s1 \<Longrightarrow> only_draws s1 s2 \<Longrightarrow> only_draws s s2"
proof -
  assume "only_draws s s1" "only_draws s1 s2"
  then obtain p st p' st' where "s2 = s\<lparr>rrs_rand_pos := p, rh_stats := st\<rparr>\<lparr>rrs_rand_pos := p', rh_stats := st'\<rparr>"
    unfolding only_draws_def by blast
  then have "s2 = s\<lparr>rrs_rand_pos := p', rh_stats := st'\<rparr>" by simp
  then show "only_draws s s2" unfolding only_draws_def by blast
qed

lemma only_drawsD:
  assumes "only_draws s s'"
  shows "numRows s' = numRows s" "numBanks s' = numBanks s" "numRanks s' = numRanks s"
    "numChannels s' = numChannels s" "detector s' = detector s" "tables s' = tables s"
    "maxValidTuples s' = maxValidTuples s" "numTuples s' = numTuples s" "decision s' = decision s"
    "last_reset s' = last_reset s" "swapDelay s' = swapDelay s" "rrs_dims s' = rrs_dims s"
    "free_row D s' = free_row D s"
  using assms by (auto simp: only_draws_def rrs_dims_def free_row_def fun_eq_iff)

context rh_detector
begin

lemma row_is_free_ok:
  assumes "d_inv (detector s) k" and "dims (detector s) = rrs_dims s"
    and "in_dims (rrs_dims s) row bank rank ch"
  shows "row_is_free D s avoid bank rank ch row = Inr (free_row D s avoid bank rank ch row, s)"
proof -
  obtain b where "d_access D (detector s) row bank rank ch True = Inr (b, detector s)"
    using functional_lookup[OF assms(1)] assms(2,3) by metis
  then show ?thesis
    using assms(3) by (simp add: row_is_free_def free_row_def in_dims_def rrs_dims_def)
qed

lemma guess_row_ok:
  assumes "d_inv (detector s) k" and "dims (detector s) = rrs_dims s"
    and "rrs_in_range s bank rank ch" and "0 < numRows s"
  shows "\<exists>found s'. guess_row D avoid bank rank ch tries s = Inr (found, s') \<and> only_draws s s' \<and>
    (\<forall>r. found = Some r \<longrightarrow> free_row D s avoid bank rank ch r)"
  using assms
proof (induction tries arbitrary: s)
  case (Suc tries)
  let ?s1 = "s\<lparr>rrs_rand_pos := rrs_rand_pos s + 1\<rparr>"
  let ?g = "rrs_rand s (rrs_rand_pos s) mod numRows s"
  have d: "only_draws s ?s1" by simp
  note eq = only_drawsD[OF d]
  have "in_dims (rrs_dims ?s1) ?g bank rank ch"
    using Suc.prems by (simp add: in_dims_def rrs_dims_def rrs_in_range_def)
  then have "row_is_free D ?s1 avoid bank rank ch ?g = Inr (free_row D s avoid bank rank ch ?g, ?s1)"
    using row_is_free_ok[of ?s1 k] Suc.prems eq by simp
  moreover obtain found s' where "guess_row D avoid bank rank ch tries ?s1 = Inr (found, s')"
    "only_draws ?s1 s'" "\<forall>r. found = Some r \<longrightarrow> free_row D s avoid bank rank ch r"
    using Suc.IH[of ?s1] Suc.prems eq by (auto simp: rrs_in_range_def)
  ultimately show ?case
    using Suc.prems(4) d only_draws_trans[OF d] by (auto simp: Let_def)
qed simp

lemma search_row_ok:
  assumes "d_inv (detector s) k" and "dims (detector s) = rrs_dims s"
    and "rrs_in_range s bank rank ch" and "\<And>i. i \<in> set is \<Longrightarrow> i < numRows s"
  shows "search_row D avoid bank rank ch is s = Inr (find (free_row D s avoid bank rank ch) is, s)"
  using assms
proof (induction "is")
  case (Cons i "is")
  have "in_dims (rrs_dims s) i bank rank ch"
    using Cons.prems by (simp add: in_dims_def rrs_dims_def rrs_in_range_def)
  then show ?case using Cons by (simp add: row_is_free_ok[OF Cons.prems(1,2)])
qed simp

end

lemma occupied_rows:
  assumes "rit_wf n nr t"
  shows "card {r. r < nr \<and> rit_rowHasEntry t r \<noteq> 0} \<le> 2 * valid_tuples t"
proof -
  note w = rit_wfD[OF assms]
  let ?V = "{i. i < n \<and> re_valid (rit_tuples t ! i)}"
  let ?o = "\<lambda>i. re_orig (rit_tuples t ! i)" and ?m = "\<lambda>i. re_remapped (rit_tuples t ! i)"
  have "{r. r < nr \<and> rit_rowHasEntry t r \<noteq> 0} \<subseteq> ?o ` ?V \<union> ?m ` ?V"
  proof
    fix r assume "r \<in> {r. r < nr \<and> rit_rowHasEntry t r \<noteq> 0}"
    then have r: "r < nr" "rit_rowHasEntry t r = Suc (rit_rowHasEntry t r - 1)" by auto
    show "r \<in> ?o ` ?V \<union> ?m ` ?V"
      using tuple_of_row(1,2,7)[OF assms r] by auto
  qed
  then have "card {r. r < nr \<and> rit_rowHasEntry t r \<noteq> 0} \<le> card (?o ` ?V \<union> ?m ` ?V)"
    by (intro card_mono) auto
  also have "\<dots> \<le> card (?o ` ?V) + card (?m ` ?V)" by (rule card_Un_le)
  also have "\<dots> \<le> 2 * card ?V"
    using card_image_le[of ?V ?o] card_image_le[of ?V ?m] by simp
  finally show ?thesis using w(2) by simp
qed

context bounded_detector
begin

lemma free_row_exists:
  assumes inv: "d_inv (detector s) k" and dm: "dims (detector s) = rrs_dims s"
    and rng: "rrs_in_range s bank rank ch" and wf: "rit_wf n (numRows s) (tables s (ch, rank, bank))"
    and room: "2 * valid_tuples (tables s (ch, rank, bank)) + cap (detector s) + 1 < numRows s"
  shows "\<exists>r. free_row D s avoid bank rank ch r"
proof (rule ccontr)
  assume no: "\<nexists>r. free_row D s avoid bank rank ch r"
  let ?O = "{r. r < numRows s \<and> rit_rowHasEntry (tables s (ch, rank, bank)) r \<noteq> 0}"
  let ?T = "{r. in_dims (dims (detector s)) r bank rank ch \<and>
      d_access D (detector s) r bank rank ch True = Inr (True, detector s)}"
  have fin: "finite ?T"
    by (rule finite_subset[of _ "{..<numRows s}"]) (auto simp: dm in_dims_def rrs_dims_def)
  have "{..<numRows s} \<subseteq> ?O \<union> (?T \<union> {avoid})"
  proof
    fix r assume "r \<in> {..<numRows s}"
    then have r: "r < numRows s" and "in_dims (dims (detector s)) r bank rank ch"
      using rng by (auto simp: dm in_dims_def rrs_dims_def rrs_in_range_def)
    moreover obtain b where "d_access D (detector s) r bank rank ch True = Inr (b, detector s)"
      using functional_lookup[OF inv] \<open>in_dims _ _ _ _ _\<close> by metis
    ultimately show "r \<in> ?O \<union> (?T \<union> {avoid})"
      using no by (cases b) (auto simp: free_row_def)
  qed
  then have "numRows s \<le> card (?O \<union> (?T \<union> {avoid}))"
    using card_mono[of "?O \<union> (?T \<union> {avoid})" "{..<numRows s}"] fin by simp
  also have "\<dots> \<le> card ?O + (card ?T + 1)"
    using card_Un_le[of ?O "?T \<union> {avoid}"] card_Un_le[of ?T "{avoid}"] by simp
  finally show False
    using occupied_rows[OF wf] tracked_bound[OF inv, of bank rank ch] room by simp
qed

lemma generateRandomRowAddr_ok:
  assumes inv: "d_inv (detector s) k" and dm: "dims (detector s) = rrs_dims s"
    and rng: "rrs_in_range s bank rank ch" and wf: "rit_wf n (numRows s) (tables s (ch, rank, bank))"
    and room: "2 * valid_tuples (tables s (ch, rank, bank)) + cap (detector s) + 1 < numRows s"
  obtains y s' where "generateRandomRowAddr D avoid bank rank ch s = Inr (y, s')"
    and "only_draws s s'" and "free_row D s avoid bank rank ch y"
proof -
  obtain found s1 where g: "guess_row D avoid bank rank ch 10 s = Inr (found, s1)" "only_draws s s1"
    "\<forall>r. found = Some r \<longrightarrow> free_row D s avoid bank rank ch r"
    using guess_row_ok[OF inv dm rng] room by (metis not_less_zero gr_zeroI)
  show ?thesis
  proof (cases found)
    case (Some r)
    then show ?thesis using that g by (auto simp: generateRandomRowAddr_def)
  next
    case None
    let ?s2 = "s1\<lparr>rh_stats := (rh_stats s1)\<lparr>s_randRowGenerationFailed :=
                           s_randRowGenerationFailed (rh_stats s1) + 1\<rparr>\<rparr>"
    have d: "only_draws s ?s2" by (rule only_draws_trans[OF g(2)]) simp
    note eq = only_drawsD[OF d]
    have "search_row D avoid bank rank ch [0..<numRows ?s2] ?s2 =
        Inr (find (free_row D s avoid bank rank ch) [0..<numRows s], ?s2)"
      using search_row_ok[of ?s2 k bank rank ch "[0..<numRows ?s2]"] inv dm rng eq
      by (simp add: rrs_in_range_def)
    moreover obtain y where "find (free_row D s avoid bank rank ch) [0..<numRows s] = Some y"
        "free_row D s avoid bank rank ch y"
      using free_row_exists[OF assms, of avoid]
      by (cases "find (free_row D s avoid bank rank ch) [0..<numRows s]")
        (auto simp: find_None_iff find_Some_iff free_row_def)
    ultimately show ?thesis
      using that g(1) None d by (simp add: generateRandomRowAddr_def)
  qed
qed

end

section \<open>Inserting a swap\<close>

definition table_ok :: "'d rrs \<Rightarrow> bank_ix \<Rightarrow> bool" where
  "table_ok s ix \<longleftrightarrow> rit_wf (numTuples s) (numRows s) (tables s ix) \<and>
     valid_tuples (tables s ix) \<le> maxValidTuples s"

definition touches :: "bank_ix \<Rightarrow> 'd rrs \<Rightarrow> 'd rrs \<Rightarrow> bool" where
  "touches ix s s' \<longleftrightarrow> (\<exists>t d p st. s' = s\<lparr>tables := (tables s)(ix := t), decision := d,
     rrs_rand_pos := p, rh_stats := st\<rparr>)"

definition actions_ok :: "bool \<Rightarrow> nat \<Rightarrow> decision \<Rightarrow> bool" where
  "actions_ok m k d \<longleftrightarrow> d_mitigate d = m \<and> d_validAddrs d = k \<and> length (d_addrs d) = 6 \<and> length (d_isActionSwap d) = 6"

lemma touchesI:
  "s' = s\<lparr>tables := (tables s)(ix := t), decision := d, rrs_rand_pos := p, rh_stats := st\<rparr> \<Longrightarrow> touches ix s s'"
  unfolding touches_def by blast

lemma touches_steps [simp, intro]:
  "only_draws s s' \<Longrightarrow> touches ix s s'"
  "touches ix s (s\<lparr>decision := d\<rparr>)"
  "touches ix s (put_table ix t s)"
  "touches ix s (s\<lparr>rh_stats := st\<rparr>)"
proof -
  show "touches ix s s'" if "only_draws s s'"
  proof -
    obtain p st where "s' = s\<lparr>rrs_rand_pos := p, rh_stats := st\<rparr>"
      using \<open>only_draws s s'\<close> unfolding only_draws_def by blast
    then show ?thesis by (intro touchesI[where t = "tables s ix" and d = "decision s" and p = p and st = st]) simp
  qed
  show "touches ix s (s\<lparr>decision := d\<rparr>)"
    by (rule touchesI[where t = "tables s ix" and d = d and p = "rrs_rand_pos s" and st = "rh_stats s"]) simp
  show "touches ix s (put_table ix t s)"
    by (rule touchesI[where t = t and d = "decision s" and p = "rrs_rand_pos s" and st = "rh_stats s"]) (simp add: put_table_def)
  show "touches ix s (s\<lparr>rh_stats := st\<rparr>)"
    by (rule touchesI[where t = "tables s ix" and d = "decision s" and p = "rrs_rand_pos s" and st = st]) simp
qed

lemma touches_trans [trans]: "touches ix s s1 \<Longrightarrow> touches ix s1 s2 \<Longrightarrow> touches ix s s2"
proof -
  assume a: "touches ix s s1" "touches ix s1 s2"
  obtain t d p st where 1: "s1 = s\<lparr>tables := (tables s)(ix := t), decision := d, rrs_rand_pos := p, rh_stats := st\<rparr>"
    using a(1) unfolding touches_def by blast
  obtain t' d' p' st' where "s2 = s1\<lparr>tables := (tables s1)(ix := t'), decision := d', rrs_rand_pos := p', rh_stats := st'\<rparr>"
    using a(2) unfolding touches_def by blast
  then have "s2 = s\<lparr>tables := (tables s)(ix := t'), decision := d', rrs_rand_pos := p', rh_stats := st'\<rparr>"
    by (simp add: 1)
  then show "touches ix s s2" by (rule touchesI)
qed

lemma touchesD:
  assumes "touches ix s s'"
  shows "numRows s' = numRows s" "numBanks s' = numBanks s" "numRanks s' = numRanks s"
    "numChannels s' = numChannels s" "detector s' = detector s"
    "maxValidTuples s' = maxValidTuples s" "numTuples s' = numTuples s"
    "last_reset s' = last_reset s" "swapDelay s' = swapDelay s" "rrs_dims s' = rrs_dims s"
    "rrs_in_range s' = rrs_in_range s" "\<And>ix'. ix' \<noteq> ix \<Longrightarrow> tables s' ix' = tables s ix'"
  using assms by (auto simp: touches_def rrs_dims_def rrs_in_range_def fun_eq_iff)

lemma push_pair_ok:
  assumes "actions_ok m k (decision s)" and "k + 2 \<le> 6"
  obtains d where "push_pair x y s = Inr (s\<lparr>decision := d\<rparr>)" and "actions_ok m (k + 2) d"
    and "d_addrs d ! k = x" and "d_addrs d ! (k + 1) = y" and "take k (d_addrs d) = take k (d_addrs (decision s))"
  using assms that by (simp add: push_pair_def push_action_def actions_ok_def)

lemma put_table_simps [simp]:
  "tables (put_table ix t s) = (tables s)(ix := t)" "maxValidTuples (put_table ix t s) = maxValidTuples s"
  "numTuples (put_table ix t s) = numTuples s" "numRows (put_table ix t s) = numRows s"
  "decision (put_table ix t s) = decision s" "detector (put_table ix t s) = detector s"
  "rrs_dims (put_table ix t s) = rrs_dims s" "rrs_in_range (put_table ix t s) = rrs_in_range s"
  by (simp_all add: put_table_def rrs_dims_def rrs_in_range_def fun_eq_iff)

lemma finish_insert_ok:
  assumes wf: "rit_wf (numTuples s) (numRows s) (tables s ix)"
    and valid: "valid_tuples (tables s ix) \<le> maxValidTuples s + 1"
    and locked: "locked_tuples (tables s ix) \<le> maxValidTuples s"
    and acts: "actions_ok m k (decision s)" "k + 2 \<le> 6"
  obtains s' where "finish_insert ix reswap s = Inr s'" and "touches ix s s'" and "table_ok s' ix"
    and "locked_tuples (tables s' ix) = locked_tuples (tables s ix)"
    and "\<And>r. r < numRows s \<Longrightarrow> row_locked (tables s ix) r \<Longrightarrow>
           row_locked (tables s' ix) r \<and> remap (tables s' ix) r = remap (tables s ix) r"
    and "actions_ok m (if valid_tuples (tables s ix) \<le> maxValidTuples s then k else k + 2) (decision s')"
    and "take k (d_addrs (decision s')) = take k (d_addrs (decision s))"
proof (cases "valid_tuples (tables s ix) \<le> maxValidTuples s")
  case True
  show ?thesis
    by (rule that[of "s\<lparr>rh_stats := count_swap reswap False (rh_stats s)\<rparr>"])
      (use True assms in \<open>auto simp: finish_insert_def table_ok_def\<close>)
next
  case False
  then have lt: "locked_tuples (tables s ix) < valid_tuples (tables s ix)" using locked by simp
  obtain u v t' where ev: "evict_swap (tables s ix) = Some (u, v, t')"
    and wf': "rit_wf (numTuples s) (numRows s) t'"
    and cnt: "valid_tuples (tables s ix) = valid_tuples t' + 1" "locked_tuples t' = locked_tuples (tables s ix)"
    and "u < numRows s" "v < numRows s" "remap (tables s ix) u = v"
    and nl: "\<not> row_locked (tables s ix) u" "\<not> row_locked (tables s ix) v"
    and rm: "\<And>r. r < numRows s \<Longrightarrow> remap t' r = ((remap (tables s ix))(u := u, v := v)) r"
      "\<And>r. r < numRows s \<Longrightarrow> row_locked (tables s ix) r \<Longrightarrow> row_locked t' r"
    by (rule evict_swap_wf[OF wf lt], rule that)
  obtain d where pp: "push_pair u v s = Inr (s\<lparr>decision := d\<rparr>)" "actions_ok m (k + 2) d"
    "d_addrs d ! k = u" "d_addrs d ! (k + 1) = v" "take k (d_addrs d) = take k (d_addrs (decision s))"
    by (rule push_pair_ok[OF acts, of u v], rule that)
  let ?s2 = "put_table ix t' (s\<lparr>decision := d\<rparr>)"
  let ?s' = "?s2\<lparr>rh_stats := count_swap reswap True (rh_stats ?s2)\<rparr>"
  have t: "touches ix s ?s'" by (rule touches_trans[OF touches_trans[OF touches_steps(2) touches_steps(3)] touches_steps(4)])
  have tab: "tables ?s' ix = t'" "decision ?s' = d" "maxValidTuples ?s' = maxValidTuples s"
    "numTuples ?s' = numTuples s" "numRows ?s' = numRows s"
    by simp_all
  show ?thesis
  proof (rule that[OF _ t])
    show "finish_insert ix reswap s = Inr ?s'"
      using False ev pp(1) cnt(1) valid by (simp add: finish_insert_def)
    show "table_ok ?s' ix" using wf' cnt(1) valid unfolding table_ok_def tab by simp
    show "locked_tuples (tables ?s' ix) = locked_tuples (tables s ix)" unfolding tab by (rule cnt(2))
    show "row_locked (tables ?s' ix) r \<and> remap (tables ?s' ix) r = remap (tables s ix) r"
      if r: "r < numRows s" "row_locked (tables s ix) r" for r
    proof -
      have "r \<noteq> u" "r \<noteq> v" using nl r(2) by auto
      then show ?thesis unfolding tab using rm r by simp
    qed
    show "actions_ok m (if valid_tuples (tables s ix) \<le> maxValidTuples s then k else k + 2) (decision ?s')"
      unfolding tab using False pp(2) by simp
    show "take k (d_addrs (decision ?s')) = take k (d_addrs (decision s))"
      unfolding tab by (rule pp(5))
  qed
qed

definition rrs_ok :: "('d \<Rightarrow> detector_dims) \<Rightarrow> ('d \<Rightarrow> nat) \<Rightarrow> 'd rrs \<Rightarrow> bool" where
  "rrs_ok dims cap s \<longleftrightarrow> dims (detector s) = rrs_dims s \<and>
     maxValidTuples s < numTuples s \<and> 2 * maxValidTuples s + cap (detector s) + 1 < numRows s \<and>
     (\<forall>ch rank bank. rrs_in_range s bank rank ch \<longrightarrow> table_ok s (ch, rank, bank))"

definition inserted :: "addr \<Rightarrow> bank_ix \<Rightarrow> addr \<Rightarrow> 'd rrs \<Rightarrow> 'd rrs \<Rightarrow> bool" where
  "inserted x ix y s s' \<longleftrightarrow> touches ix s s' \<and> table_ok s' ix \<and>
     locked_tuples (tables s' ix) \<le> locked_tuples (tables s ix) + 2 \<and>
     remap (tables s' ix) x = y \<and> row_locked (tables s' ix) x \<and> row_locked (tables s' ix) y \<and>
     d_validAddrs (decision s') \<in> {2, 4, 6} \<and> d_addrs (decision s') ! 0 = x \<and> d_addrs (decision s') ! 1 = y \<and>
     d_mitigate (decision s') = d_mitigate (decision s) \<and>
     (\<forall>r<numRows s. row_locked (tables s ix) r \<longrightarrow> row_locked (tables s' ix) r)"

lemma take_nth_eq: "take k xs = take k ys \<Longrightarrow> i < k \<Longrightarrow> xs ! i = ys ! i"
  by (metis nth_take)

lemma finish_inserted:
  assumes t: "touches ix s0 s" and m: "d_mitigate (decision s0) = m" and wf: "rit_wf (numTuples s) (numRows s) (tables s ix)"
    and valid: "valid_tuples (tables s ix) \<le> maxValidTuples s + 1"
    and locked: "locked_tuples (tables s ix) \<le> locked_tuples (tables s0 ix) + 2"
      "locked_tuples (tables s0 ix) + 2 \<le> maxValidTuples s"
    and acts: "actions_ok m k (decision s)" "k = 2 \<or> k = 4"
      "d_addrs (decision s) ! 0 = x" "d_addrs (decision s) ! 1 = y"
    and xy: "x < numRows s" "y < numRows s" "row_locked (tables s ix) x" "row_locked (tables s ix) y"
      "remap (tables s ix) x = y"
    and keep: "\<And>r. r < numRows s \<Longrightarrow> row_locked (tables s0 ix) r \<Longrightarrow> row_locked (tables s ix) r"
  shows "\<exists>s'. finish_insert ix reswap s = Inr s' \<and> inserted x ix y s0 s'"
proof -
  have lk: "locked_tuples (tables s ix) \<le> maxValidTuples s" and k6: "k + 2 \<le> 6"
    using locked acts(2) by auto
  obtain s' where f: "finish_insert ix reswap s = Inr s'" and t': "touches ix s s'" and ok: "table_ok s' ix"
    and lk': "locked_tuples (tables s' ix) = locked_tuples (tables s ix)"
    and rm: "\<And>r. r < numRows s \<Longrightarrow> row_locked (tables s ix) r \<Longrightarrow>
           row_locked (tables s' ix) r \<and> remap (tables s' ix) r = remap (tables s ix) r"
    and av: "actions_ok m (if valid_tuples (tables s ix) \<le> maxValidTuples s then k else k + 2) (decision s')"
    and tk: "take k (d_addrs (decision s')) = take k (d_addrs (decision s))"
    by (rule finish_insert_ok[OF wf valid lk acts(1) k6, of reswap], rule that)
  have "d_addrs (decision s') ! 0 = x" "d_addrs (decision s') ! 1 = y"
    using take_nth_eq[OF tk] acts(2-4) by auto
  moreover have "d_validAddrs (decision s') \<in> {2, 4, 6}"
    using av acts(2) by (auto simp: actions_ok_def split: if_splits)
  moreover have "d_mitigate (decision s') = d_mitigate (decision s0)"
    using av m by (simp add: actions_ok_def)
  ultimately show ?thesis
    using f touches_trans[OF t t'] touchesD(1)[OF t] ok lk' locked(1) rm[OF xy(1,3)] rm[OF xy(2,4)] xy(5)
      keep rm
    by (simp add: inserted_def)
qed

context bounded_detector
begin

lemma insertTuple_ok:
  assumes inv: "d_inv (detector s) k" and ok: "rrs_ok dims cap s"
    and rng: "rrs_in_range s bank rank ch" and x: "x < numRows s"
    and acts: "actions_ok m 0 (decision s)"
    and lk: "locked_tuples (tables s (ch, rank, bank)) + 2 \<le> maxValidTuples s"
  shows "\<exists>y s'. insertTuple D x bank rank ch s = Inr s' \<and> inserted x (ch, rank, bank) y s s' \<and>
    free_row D s x bank rank ch y"
proof -
  let ?ix = "(ch, rank, bank)"
  let ?t = "tables s ?ix"
  have dm: "dims (detector s) = rrs_dims s" and mx: "maxValidTuples s < numTuples s"
    and room: "2 * maxValidTuples s + cap (detector s) + 1 < numRows s"
    and wf: "rit_wf (numTuples s) (numRows s) ?t" and vt: "valid_tuples ?t \<le> maxValidTuples s"
    using ok rng by (auto simp: rrs_ok_def table_ok_def)
  have mm: "d_mitigate (decision s) = m" using acts by (simp add: actions_ok_def)
  have room0: "2 * valid_tuples ?t + cap (detector s) + 1 < numRows s" using room vt by simp
  obtain y s1 where g: "generateRandomRowAddr D x bank rank ch s = Inr (y, s1)" "only_draws s s1"
    "free_row D s x bank rank ch y"
    by (rule generateRandomRowAddr_ok[OF inv dm rng wf room0], rule that)
  note e1 = only_drawsD[OF g(2)]
  have y: "y < numRows s" "y \<noteq> x" "rit_rowHasEntry ?t y = 0"
    using g(3) by (auto simp: free_row_def)
  obtain d where pp: "push_pair x y s1 = Inr (s1\<lparr>decision := d\<rparr>)" "actions_ok m (0 + 2) d"
    "d_addrs d ! 0 = x" "d_addrs d ! (0 + 1) = y" "take 0 (d_addrs d) = take 0 (d_addrs (decision s1))"
    by (rule push_pair_ok[of m 0 s1 x y], simp add: acts e1, simp, rule that)
  have a2: "actions_ok m 2 d" using pp(2) by (simp add: numeral_2_eq_2)
  let ?s2 = "s1\<lparr>decision := d\<rparr>"
  have t2: "touches ?ix s ?s2" by (rule touches_trans[OF touches_steps(1)[OF g(2)] touches_steps(2)])
  show ?thesis
  proof (cases "rit_rowHasEntry ?t x")
    case 0
    let ?s3 = "put_table ?ix (install_swap x y ?t) ?s2"
    have roomv: "valid_tuples ?t < numTuples s" using vt mx by simp
    note ins = install_swap_wf[OF wf roomv x y(1) y(2)[symmetric] 0 y(3)]
      install_swap_locks[OF wf roomv x 0]
    have "\<exists>s'. finish_insert ?ix False ?s3 = Inr s' \<and> inserted x ?ix y s s'"
      by (rule finish_inserted[where k = 2, OF touches_trans[OF t2 touches_steps(3)] mm])
        (use ins(1-7) x y a2 pp(3,4) lk vt e1 in simp_all)
    then show ?thesis
      using g pp(1) e1 0 by (auto simp: insertTuple_def Let_def)
  next
    case (Suc i)
    let ?a = "partner (rit_tuples ?t ! i) x"
    let ?t1 = "replace_partner i x y ?t"
    let ?s3 = "put_table ?ix ?t1 ?s2"
    note tx = tuple_of_row[OF wf x Suc]
    note rp = replace_partner_wf[OF wf x Suc y]
    have t3: "touches ?ix s ?s3" by (rule touches_trans[OF t2 touches_steps(3)])
    note e3 = touchesD[OF t3]
    have inv3: "d_inv (detector ?s3) k" and dm3: "dims (detector ?s3) = rrs_dims ?s3"
      and rng3: "rrs_in_range ?s3 bank rank ch"
      and wf3: "rit_wf (numTuples s) (numRows ?s3) (tables ?s3 (ch, rank, bank))"
      and room3: "2 * valid_tuples (tables ?s3 (ch, rank, bank)) + cap (detector ?s3) + 1 < numRows ?s3"
      using inv dm rng room0 rp(1,2) e1 e3 by simp_all
    obtain b s4 where g4: "generateRandomRowAddr D ?a bank rank ch ?s3 = Inr (b, s4)" "only_draws ?s3 s4"
      "free_row D ?s3 ?a bank rank ch b"
      by (rule generateRandomRowAddr_ok[OF inv3 dm3 rng3 wf3 room3], rule that)
    note e4 = only_drawsD[OF g4(2)]
    have b: "b < numRows s" "b \<noteq> ?a" "rit_rowHasEntry ?t1 b = 0"
      using g4(3) e1 by (auto simp: free_row_def)
    have d4: "decision s4 = d" using e4 by simp
    obtain d5 where p5: "push_pair ?a b s4 = Inr (s4\<lparr>decision := d5\<rparr>)" "actions_ok m (2 + 2) d5"
      "d_addrs d5 ! 2 = ?a" "d_addrs d5 ! (2 + 1) = b" "take 2 (d_addrs d5) = take 2 (d_addrs (decision s4))"
      by (rule push_pair_ok[of m 2 s4 ?a b], use a2 d4 in simp, simp, rule that)
    let ?s5 = "s4\<lparr>decision := d5\<rparr>"
    have tab5: "tables ?s5 ?ix = ?t1" using e4 by simp
    let ?s6 = "put_table ?ix (install_swap ?a b (tables ?s5 ?ix)) ?s5"
    have t6: "touches ?ix s ?s6"
      by (rule touches_trans[OF touches_trans[OF touches_trans[OF t3 touches_steps(1)[OF g4(2)]]
            touches_steps(2)] touches_steps(3)])
    note e6 = touchesD[OF t6]
    have roomv: "valid_tuples ?t1 < numTuples s" using vt mx rp(2) by simp
    note ins = install_swap_wf[OF rp(1) roomv tx(3) b(1) b(2)[symmetric] rp(4) b(3)]
      install_swap_locks[OF rp(1) roomv tx(3) rp(4)]
    have nz: "rit_rowHasEntry ?t1 x \<noteq> 0" using rp(5) by (simp add: row_locked_def)
    have xa: "x \<noteq> ?a" "x \<noteq> b" using nz rp(4) b(3) by auto
    have "remap (install_swap ?a b ?t1) x = y" using ins(4)[OF x] rp(7)[OF x] xa y(2) by simp
    moreover have "row_locked (install_swap ?a b ?t1) x" "row_locked (install_swap ?a b ?t1) y"
      using ins(7) rp(5,6) x y(1) by auto
    moreover have "row_locked (install_swap ?a b ?t1) r" if "r < numRows s" "row_locked ?t r" for r
      using ins(5,7) rp(8) that by (cases "r = ?a") auto
    moreover have "d_addrs d5 ! 0 = x" "d_addrs d5 ! 1 = y"
      using take_nth_eq[OF p5(5)] pp(3,4) d4 by auto
    moreover have tab6: "tables ?s6 ?ix = install_swap ?a b ?t1" "decision ?s6 = d5"
      using tab5 by simp_all
    ultimately have "\<exists>s'. finish_insert ?ix True ?s6 = Inr s' \<and> inserted x ?ix y s s'"
      by (intro finish_inserted[where k = 4, OF t6 mm], unfold tab6 e6)
        (use ins(1-3) rp(2,3) x y(1) p5(2) lk vt in simp_all)
    then show ?thesis
      using g pp(1) e1 Suc g4(1) p5(1) tx(1,2,7) rit_wfD(1)[OF wf]
      by (auto simp: insertTuple_def Let_def entry_names_def)
  qed
qed

end

section \<open>Accesses and windows\<close>

fun rrs_run :: "'d detector_ops \<Rightarrow> 'd rrs \<Rightarrow> (tick \<times> addr \<times> bank_ix) list \<Rightarrow> ((addr \<times> bank_ix) list \<times> 'd rrs) res" where
  "rrs_run D s [] = Inr ([], s)"
| "rrs_run D s ((t, row, (ch, rank, bank)) # as) =
     rbind (rrs_access D t row bank rank ch s) (\<lambda>(dec, s1).
     rbind (rrs_run D s1 as) (\<lambda>(fl, s2).
       Inr ((if d_mitigate dec then [(row, (ch, rank, bank))] else []) @ fl, s2)))"

definition rows_fit :: "('d, 'e) rh_mitigation_scheme \<Rightarrow> bool" where
  "rows_fit s \<longleftrightarrow> numRows s * numBanks s * numRanks s * numChannels s < u32_size"

lemma row_index_in_range:
  assumes "rows_fit s" and "ch < numChannels s" "rank < numRanks s" "bank < numBanks s" and "row < numRows s"
  shows "bank + numBanks s * row < numDRAMRows s"
proof -
  have "bank + numBanks s * row < numBanks s * (row + 1)" using assms(4) by simp
  also have "\<dots> \<le> numBanks s * numRows s" using assms(5) by (intro mult_le_mono2) simp
  also have "\<dots> \<le> (numRows s * numBanks s) * (numRanks s * numChannels s)"
    using assms(2,3) by (simp add: mult.commute)
  finally show ?thesis using assms(1) by (simp add: numDRAMRows_def rows_fit_def mult.assoc)
qed

lemma rrs_ok_cong:
  assumes "rrs_ok dims cap s" and "dims (detector s') = dims (detector s)" "cap (detector s') = cap (detector s)"
    "rrs_dims s' = rrs_dims s" "maxValidTuples s' = maxValidTuples s" "numTuples s' = numTuples s"
    and "\<And>ch rank bank. rrs_in_range s bank rank ch \<Longrightarrow> table_ok s' (ch, rank, bank)"
  shows "rrs_ok dims cap s'"
  using assms by (simp add: rrs_ok_def rrs_in_range_def rrs_dims_def)

lemma unlock_rit_simps:
  "length (rit_tuples (unlock_rit t)) = length (rit_tuples t)"
  "rit_rowHasEntry (unlock_rit t) = rit_rowHasEntry t" "valid_tuples (unlock_rit t) = valid_tuples t"
  "i < length (rit_tuples t) \<Longrightarrow> rit_tuples (unlock_rit t) ! i = (rit_tuples t ! i)\<lparr>re_locked := False\<rparr>"
  by (simp_all add: unlock_rit_def)

lemma unlock_rit_wf:
  assumes "rit_wf n nr t"
  shows "rit_wf n nr (unlock_rit t)" and "locked_tuples (unlock_rit t) = 0"
    and "\<And>r. r < nr \<Longrightarrow> remap (unlock_rit t) r = remap t r"
proof -
  note w = rit_wfD[OF assms] and u = unlock_rit_simps[where t = t]
  have u4: "rit_tuples (unlock_rit t) ! i = (rit_tuples t ! i)\<lparr>re_locked := False\<rparr>" if "i < n" for i
    using u(4) w(1) that by simp
  show "locked_tuples (unlock_rit t) = 0" by (simp add: locked_tuples_def u w(1) u4)
  have vs: "{i. i < n \<and> re_valid (rit_tuples (unlock_rit t) ! i)} = {i. i < n \<and> re_valid (rit_tuples t ! i)}"
    using u4 by auto
  show "rit_wf n nr (unlock_rit t)"
  proof (rule rit_wfI)
    show "valid_tuples (unlock_rit t) = card {i. i < n \<and> re_valid (rit_tuples (unlock_rit t) ! i)}"
      unfolding vs u(3) by (rule w(2))
    fix r assume "r < nr" "rit_rowHasEntry (unlock_rit t) r \<noteq> 0"
    then show "rit_rowHasEntry (unlock_rit t) r \<le> n \<and>
        entry_names (unlock_rit t) (rit_rowHasEntry (unlock_rit t) r - 1) r"
      using w(8,9)[of r] u4[of "rit_rowHasEntry t r - 1"] by (auto simp: entry_names_def u(2))
  qed (use w(3-7) in \<open>simp_all add: u(1,2) w(1) u4\<close>)
  show "remap (unlock_rit t) r = remap t r" if "r < nr" for r
    using w(8)[OF that] u4 by (simp add: remap_def u(2) partner_def)
qed

lemma rrs_reset_simps:
  "numRows (rrs_reset D s) = numRows s" "numBanks (rrs_reset D s) = numBanks s"
  "numRanks (rrs_reset D s) = numRanks s" "numChannels (rrs_reset D s) = numChannels s"
  "detector (rrs_reset D s) = d_reset D (detector s)" "maxValidTuples (rrs_reset D s) = maxValidTuples s"
  "numTuples (rrs_reset D s) = numTuples s" "last_reset (rrs_reset D s) = last_reset s"
  "decision (rrs_reset D s) = decision s" "rrs_dims (rrs_reset D s) = rrs_dims s"
  "rrs_in_range s bank rank ch \<Longrightarrow> tables (rrs_reset D s) (ch, rank, bank) = unlock_rit (tables s (ch, rank, bank))"
  "swapDelay (rrs_reset D s) = swapDelay s" "rows_fit (rrs_reset D s) = rows_fit s"
  by (simp_all add: rrs_reset_def Let_def rrs_dims_def rows_fit_def)

context bounded_detector
begin

lemma rrs_reset_ok:
  assumes "d_inv (detector s) k" and "rrs_ok dims cap s"
  shows "rrs_ok dims cap (rrs_reset D s)" and "d_inv (detector (rrs_reset D s)) 0"
    and "\<And>ch rank bank. rrs_in_range s bank rank ch \<Longrightarrow>
       locked_tuples (tables (rrs_reset D s) (ch, rank, bank)) = 0 \<and>
       (\<forall>r<numRows s. remap (tables (rrs_reset D s) (ch, rank, bank)) r = remap (tables s (ch, rank, bank)) r)"
proof -
  have wf: "rit_wf (numTuples s) (numRows s) (tables s (ch, rank, bank))"
    if "rrs_in_range s bank rank ch" for ch rank bank
    using assms(2) that by (auto simp: rrs_ok_def table_ok_def)
  show "rrs_ok dims cap (rrs_reset D s)"
    by (rule rrs_ok_cong[OF assms(2)])
      (use assms(2) wf unlock_rit_wf(1) in \<open>auto simp: rrs_reset_simps reset_dims reset_cap table_ok_def rrs_ok_def
          unlock_rit_simps(3)\<close>)
  show "d_inv (detector (rrs_reset D s)) 0" using reset_inv[OF assms(1)] by (simp add: rrs_reset_simps)
  show "locked_tuples (tables (rrs_reset D s) (ch, rank, bank)) = 0 \<and>
       (\<forall>r<numRows s. remap (tables (rrs_reset D s) (ch, rank, bank)) r = remap (tables s (ch, rank, bank)) r)"
    if "rrs_in_range s bank rank ch" for ch rank bank
    using unlock_rit_wf(2,3)[OF wf[OF that]] that by (simp add: rrs_reset_simps)
qed


lemma rrs_serve_ok:
  assumes inv: "d_inv (detector s) k" and ov: "k + 1 < u32_size" and ok: "rrs_ok dims cap s" and fit: "rows_fit s"
    and rng: "rrs_in_range s bank rank ch" and row: "row < numRows s"
    and dec: "decision s = cleared_decision"
    and acc: "d_access D (detector s) row bank rank ch False = Inr (agg, d)"
    and lk: "agg \<longrightarrow> locked_tuples (tables s (ch, rank, bank)) + 2 \<le> maxValidTuples s"
  shows "\<exists>dec s'. rrs_serve D row bank rank ch s = Inr (dec, s') \<and> d_mitigate dec = agg \<and>
     detector s' = d \<and> rrs_ok dims cap s' \<and> rows_fit s' \<and> rrs_dims s' = rrs_dims s \<and>
     last_reset s' = last_reset s \<and> maxValidTuples s' = maxValidTuples s \<and> d_inv d (k + 1) \<and>
     (\<forall>ix'. ix' \<noteq> (ch, rank, bank) \<or> \<not> agg \<longrightarrow> tables s' ix' = tables s ix') \<and>
     (if agg then locked_tuples (tables s' (ch, rank, bank)) \<le> locked_tuples (tables s (ch, rank, bank)) + 2 \<and>
         (\<forall>r<numRows s. row_locked (tables s (ch, rank, bank)) r \<or> r = row \<longrightarrow>
            row_locked (tables s' (ch, rank, bank)) r) \<and>
         remap (tables s' (ch, rank, bank)) row = d_addrs dec ! 1 \<and> d_addrs dec ! 1 \<noteq> row \<and>
         rit_rowHasEntry (tables s (ch, rank, bank)) (d_addrs dec ! 1) = 0 \<and>
         d_access D d (d_addrs dec ! 1) bank rank ch True = Inr (False, d) \<and>
         d_validAddrs dec \<in> {2, 4, 6} \<and> d_delay dec = swapDelay s * (d_validAddrs dec div 2)
      else d_validAddrs dec = 0 \<and> d_delay dec = 0)"
proof -
  let ?ix = "(ch, rank, bank)"
  let ?k = "bank + numBanks s * row"
  let ?s2 = "s\<lparr>numAccessesToRow := (numAccessesToRow s)(?k := inc32 (numAccessesToRow s ?k))\<rparr>"
  let ?s3 = "?s2\<lparr>detector := d, decision := (decision ?s2)\<lparr>d_mitigate := agg,
                          d_SRAM_delay := d_SRAM_delay (decision ?s2) + SRAM_RIT_accDelay ?s2\<rparr>\<rparr>"
  have dm: "dims (detector s) = rrs_dims s" using ok by (simp add: rrs_ok_def)
  have ind: "in_dims (dims (detector s)) row bank rank ch"
    using rng row by (simp add: dm in_dims_def rrs_dims_def rrs_in_range_def)
  have d: "d_inv d (k + 1)" "dims d = dims (detector s)" "cap d = cap (detector s)"
    using counted_access[OF inv ov ind] counted_access_cap[OF inv acc] acc by auto
  have ki: "?k < numDRAMRows s"
    using row_index_in_range[OF fit] rng row by (auto simp: rrs_in_range_def)
  have ok3: "rrs_ok dims cap ?s3"
    by (rule rrs_ok_cong[OF ok]) (use d ok in \<open>auto simp: rrs_dims_def rrs_ok_def table_ok_def\<close>)
  have run: "rrs_serve D row bank rank ch s =
      (if agg then rbind (insertTuple D row bank rank ch ?s3) (\<lambda>s4.
         let s5 = s4\<lparr>decision := (decision s4)\<lparr>d_delay :=
                                 swapDelay s4 * d_validAddrs (decision s4) div 2\<rparr>\<rparr>
                   in Inr (decision s5, s5))
       else Inr (decision ?s3, ?s3))"
    using rng row ki acc
    by (simp add: rrs_serve_def rrs_in_range_def numDRAMRows_def Let_def)
  show ?thesis
  proof (cases agg)
    case False
    then show ?thesis using run d ok3 fit
      by (simp add: dec cleared_decision_def rrs_dims_def rows_fit_def)
  next
    case True
    have "actions_ok True 0 (decision ?s3)" by (simp add: True actions_ok_def dec cleared_decision_def)
    then obtain y s4 where i: "insertTuple D row bank rank ch ?s3 = Inr s4"
        "inserted row ?ix y ?s3 s4" "free_row D ?s3 row bank rank ch y"
      using insertTuple_ok[of ?s3 "k + 1" bank rank ch row True] d ok3 rng row lk[rule_format, OF True]
      by (auto simp: rrs_in_range_def)
    have t4: "touches ?ix ?s3 s4" and av: "d_validAddrs (decision s4) \<in> {2, 4, 6}"
      using i(2) by (auto simp: inserted_def)
    note e4 = touchesD[OF t4]
    let ?s5 = "s4\<lparr>decision := (decision s4)\<lparr>d_delay := swapDelay s4 * d_validAddrs (decision s4) div 2\<rparr>\<rparr>"
    have ok5: "rrs_ok dims cap ?s5"
    proof (rule rrs_ok_cong[OF ok3])
      fix ch' rank' bank' assume "rrs_in_range ?s3 bank' rank' ch'"
      then show "table_ok ?s5 (ch', rank', bank')"
        using i(2) ok3 e4 by (cases "(ch', rank', bank') = ?ix") (auto simp: inserted_def table_ok_def rrs_ok_def)
    qed (use e4 in \<open>simp_all add: rrs_dims_def\<close>)
    have dl: "swapDelay s * d_validAddrs (decision s4) div 2 = swapDelay s * (d_validAddrs (decision s4) div 2)"
      using av by auto
    show ?thesis
      using run True i ok5 e4 d fit dl
      by (auto simp: inserted_def free_row_def rrs_dims_def rows_fit_def Let_def)
  qed
qed

end

lemma rrs_enter_in_window:
  assumes "\<not> window_over t s"
  shows "rrs_enter D t s = s\<lparr>rh_stats := (rh_stats s)\<lparr>s_num_accesses := s_num_accesses (rh_stats s) + 1\<rparr>,
                 decision := cleared_decision\<rparr>"
  using assms by (simp add: rrs_enter_def window_over_def)

lemma rrs_enter_new_window:
  assumes "window_over t s"
  shows "rrs_enter D t s = rrs_reset D (s\<lparr>rh_stats := (rh_stats s)\<lparr>s_num_accesses := s_num_accesses (rh_stats s) + 1\<rparr>,
                 decision := cleared_decision, last_reset := t\<rparr>)"
  using assms by (simp add: rrs_enter_def window_over_def)

lemma not_window_over:
  assumes "last_reset s \<le> t" and "t < last_reset s + window_ticks" and "t < u64_size"
  shows "\<not> window_over t s"
  using assms by (simp add: window_over_def sub64_le)

lemma window_overI:
  assumes "last_reset s + window_ticks \<le> t" and "t < u64_size"
  shows "window_over t s"
  using assms by (simp add: window_over_def sub64_le)

definition in_window :: "tick \<Rightarrow> (tick \<times> addr \<times> bank_ix) list \<Rightarrow> bool" where
  "in_window t0 as \<longleftrightarrow> (\<forall>(t, _)\<in>set as. t0 \<le> t \<and> t < t0 + window_ticks \<and> t < u64_size)"

definition rows_in_range :: "'d rrs \<Rightarrow> (addr \<times> bank_ix) list \<Rightarrow> bool" where
  "rows_in_range s as \<longleftrightarrow>
     (\<forall>(row, (ch, rank, bank))\<in>set as. rrs_in_range s bank rank ch \<and> row < numRows s)"

definition locks_fit :: "'d rrs \<Rightarrow> (addr \<times> bank_ix) list \<Rightarrow> bool" where
  "locks_fit s fl \<longleftrightarrow> (\<forall>ch rank bank. rrs_in_range s bank rank ch \<longrightarrow>
     locked_tuples (tables s (ch, rank, bank)) + 2 * length (bank_rows (ch, rank, bank) fl) \<le> maxValidTuples s)"

definition swapped_out :: "'d rrs \<Rightarrow> 'd rrs \<Rightarrow> (addr \<times> bank_ix) list \<Rightarrow> bool" where
  "swapped_out s s' fl \<longleftrightarrow> (\<forall>ix. \<forall>r<numRows s.
     row_locked (tables s ix) r \<or> (r, ix) \<in> set fl \<longrightarrow> row_locked (tables s' ix) r)"

lemma row_locked_moved:
  assumes "rit_wf n nr t" and "r < nr" and "row_locked t r"
  shows "remap t r \<noteq> r"
  using tuple_of_row(4)[OF assms(1,2), of "rit_rowHasEntry t r - 1"] assms(3)
  by (simp add: row_locked_def remap_def)

context bounded_detector
begin

lemma rrs_serve_step:
  assumes inv: "d_inv (detector s) k" and ov: "k + 1 < u32_size" and ok: "rrs_ok dims cap s" and fit: "rows_fit s"
    and rng: "rrs_in_range s bank rank ch" "row < numRows s"
    and dec: "decision s = cleared_decision"
    and acc: "d_access D (detector s) row bank rank ch False = Inr (agg, d)"
    and lk: "locks_fit s (now @ later)" and now: "now = (if agg then [(row, (ch, rank, bank))] else [])"
  shows "\<exists>dec s'. rrs_serve D row bank rank ch s = Inr (dec, s') \<and> d_mitigate dec = agg \<and>
     detector s' = d \<and> rrs_ok dims cap s' \<and> rows_fit s' \<and> rrs_dims s' = rrs_dims s \<and>
     last_reset s' = last_reset s \<and> d_inv d (k + 1) \<and> locks_fit s' later \<and> swapped_out s s' now"
proof -
  let ?ix = "(ch, rank, bank)"
  have "agg \<longrightarrow> locked_tuples (tables s ?ix) + 2 \<le> maxValidTuples s"
    using lk rng(1) unfolding locks_fit_def now by (force simp: bank_rows_def)
  from rrs_serve_ok[OF inv ov ok fit rng dec acc this] obtain dec s' where
    *: "rrs_serve D row bank rank ch s = Inr (dec, s')" "d_mitigate dec = agg"
     "detector s' = d" "rrs_ok dims cap s'" "rows_fit s'" "rrs_dims s' = rrs_dims s"
     "last_reset s' = last_reset s" "maxValidTuples s' = maxValidTuples s" "d_inv d (k + 1)"
    and oth: "\<forall>ix'. ix' \<noteq> ?ix \<or> \<not> agg \<longrightarrow> tables s' ix' = tables s ix'"
    and agg: "agg \<longrightarrow> locked_tuples (tables s' ?ix) \<le> locked_tuples (tables s ?ix) + 2 \<and>
         (\<forall>r<numRows s. row_locked (tables s ?ix) r \<or> r = row \<longrightarrow> row_locked (tables s' ?ix) r)"
    by - (elim exE conjE, rule that, assumption+, simp split: if_splits)
  have rr: "rrs_in_range s' = rrs_in_range s"
    using *(6) by (simp add: rrs_dims_def rrs_in_range_def fun_eq_iff)
  have "locks_fit s' later"
    unfolding locks_fit_def rr *(8)
  proof (intro allI impI)
    fix ch' rank' bank' assume "rrs_in_range s bank' rank' ch'"
    then have l: "locked_tuples (tables s (ch', rank', bank')) +
        2 * length (bank_rows (ch', rank', bank') (now @ later)) \<le> maxValidTuples s"
      using lk by (simp add: locks_fit_def)
    show "locked_tuples (tables s' (ch', rank', bank')) +
        2 * length (bank_rows (ch', rank', bank') later) \<le> maxValidTuples s"
    proof (cases "(ch', rank', bank') = ?ix \<and> agg")
      case True
      then show ?thesis using l agg by (simp add: now bank_rows_def)
    next
      case False
      then show ?thesis using l oth[rule_format, of "(ch', rank', bank')"] by (auto simp: bank_rows_def)
    qed
  qed
  moreover have "swapped_out s s' now"
    unfolding swapped_out_def
  proof (intro allI impI)
    fix ix r assume "r < numRows s" "row_locked (tables s ix) r \<or> (r, ix) \<in> set now"
    then show "row_locked (tables s' ix) r"
      using agg oth[rule_format, of ix] by (cases "ix = ?ix \<and> agg") (auto simp: now split: if_splits)
  qed
  ultimately show ?thesis using * by blast
qed

lemma rrs_run_entered:
  assumes "d_inv (detector e) k" and "k + length as + 1 < u32_size"
    and "rrs_ok dims cap e" and "rows_fit e" and "decision e = cleared_decision"
    and "e = rrs_enter D t s"
    and "rows_in_range e ((row, ix) # map snd as)" and "in_window (last_reset e) as"
    and "det_run D (detector e) ((row, ix) # map snd as) = Inr (fl, d')"
    and "locks_fit e fl"
  shows "\<exists>s'. rrs_run D s ((t, row, ix) # as) = Inr (fl, s') \<and> detector s' = d' \<and>
    rrs_ok dims cap s' \<and> rrs_dims s' = rrs_dims e \<and> swapped_out e s' fl"
  using assms
proof (induction as arbitrary: e k t s row ix fl)
  case Nil
  obtain ch rank bank where ix: "ix = (ch, rank, bank)" by (cases ix) auto
  obtain agg where acc: "d_access D (detector e) row bank rank ch False = Inr (agg, d')"
    and fl: "fl = (if agg then [(row, (ch, rank, bank))] else [])"
    using Nil.prems(9) by (auto simp: ix rbind_Inr_iff)
  have rng: "rrs_in_range e bank rank ch" "row < numRows e"
    using Nil.prems(7) by (auto simp: rows_in_range_def ix)
  have "k + 1 < u32_size" "locks_fit e (fl @ [])" using Nil.prems(2,10) by simp_all
  from rrs_serve_step[OF Nil.prems(1) this(1) Nil.prems(3,4) rng Nil.prems(5) acc this(2) fl]
  obtain dec s' where "rrs_serve D row bank rank ch e = Inr (dec, s')" "d_mitigate dec = agg"
    "detector s' = d'" "rrs_ok dims cap s'" "rrs_dims s' = rrs_dims e" "swapped_out e s' fl"
    by metis
  then show ?case
    using fl by (intro exI[of _ s']) (simp add: ix rrs_access_def Nil.prems(6)[symmetric])
next
  case (Cons a as)
  obtain t2 row2 ix2 where a: "a = (t2, row2, ix2)" by (cases a) auto
  obtain ch rank bank where ix: "ix = (ch, rank, bank)" by (cases ix) auto
  obtain agg d1 later where acc: "d_access D (detector e) row bank rank ch False = Inr (agg, d1)"
    and det: "det_run D d1 ((row2, ix2) # map snd as) = Inr (later, d')"
    and fl: "fl = (if agg then [(row, (ch, rank, bank))] else []) @ later"
    using Cons.prems(9) by (auto simp: ix a rbind_Inr_iff simp del: det_run.simps(2))
      (auto simp: rbind_Inr_iff)
  have rng: "rrs_in_range e bank rank ch" "row < numRows e"
    using Cons.prems(7) by (auto simp: rows_in_range_def ix)
  have "k + 1 < u32_size" using Cons.prems(2) by simp
  from rrs_serve_step[OF Cons.prems(1) this Cons.prems(3,4) rng Cons.prems(5) acc _ refl, of later]
  obtain dec s1 where s1: "rrs_serve D row bank rank ch e = Inr (dec, s1)" "d_mitigate dec = agg"
    "detector s1 = d1" "rrs_ok dims cap s1" "rows_fit s1" "rrs_dims s1 = rrs_dims e"
     "last_reset s1 = last_reset e" "d_inv d1 (k + 1)" "locks_fit s1 later"
    "swapped_out e s1 (if agg then [(row, (ch, rank, bank))] else [])"
    using Cons.prems(10) fl by metis
  let ?e1 = "rrs_enter D t2 s1"
  have "\<not> window_over t2 s1"
    using Cons.prems(8) by (intro not_window_over) (auto simp: in_window_def a s1(7))
  then have e1: "?e1 = s1\<lparr>rh_stats := (rh_stats s1)\<lparr>s_num_accesses := s_num_accesses (rh_stats s1) + 1\<rparr>,
                 decision := cleared_decision\<rparr>"
    by (rule rrs_enter_in_window)
  have ok1: "rrs_ok dims cap ?e1"
    by (rule rrs_ok_cong[OF s1(4)]) (use s1(4) in \<open>auto simp: e1 rrs_dims_def rrs_ok_def table_ok_def\<close>)
  have dm: "rrs_dims ?e1 = rrs_dims e" using s1(6) by (simp add: e1 rrs_dims_def)
  have rr: "rrs_in_range ?e1 = rrs_in_range e" "numRows ?e1 = numRows e"
    using dm by (simp_all add: rrs_dims_def rrs_in_range_def fun_eq_iff)
  have "\<exists>s'. rrs_run D s1 ((t2, row2, ix2) # as) = Inr (later, s') \<and> detector s' = d' \<and>
    rrs_ok dims cap s' \<and> rrs_dims s' = rrs_dims ?e1 \<and> swapped_out ?e1 s' later"
  proof (rule Cons.IH[OF _ _ ok1 _ _ refl])
    show "d_inv (detector ?e1) (k + 1)" "decision ?e1 = cleared_decision" "rows_fit ?e1"
      using s1(3,5,8) by (simp_all add: e1 rows_fit_def)
    show "k + 1 + length as + 1 < u32_size" using Cons.prems(2) by simp
    show "rows_in_range ?e1 ((row2, ix2) # map snd as)"
      using Cons.prems(7) by (simp add: rows_in_range_def rr a)
    show "in_window (last_reset ?e1) as" using Cons.prems(8) by (simp add: in_window_def e1 s1(7))
    show "det_run D (detector ?e1) ((row2, ix2) # map snd as) = Inr (later, d')"
      using det s1(3) by (simp add: e1)
    show "locks_fit ?e1 later" using s1(9) by (simp add: locks_fit_def e1 rrs_in_range_def)
  qed
  then obtain s' where s': "rrs_run D s1 ((t2, row2, ix2) # as) = Inr (later, s')" "detector s' = d'"
    "rrs_ok dims cap s'" "rrs_dims s' = rrs_dims e" "swapped_out ?e1 s' later"
    using dm by auto
  have "swapped_out e s' fl"
    using s1(10) s'(5) rr(2) by (auto simp: swapped_out_def fl e1)
  then show ?case
    using s' s1(1,2) by (intro exI[of _ s'])
      (simp add: ix a fl rrs_access_def Cons.prems(6)[symmetric])
qed

end

lemma rrs_dims_mg:
  assumes "rrs_ok mg_dims cap s"
  shows "rrs_in_range s bank rank ch \<longleftrightarrow> (ch, rank, bank) \<in> mg_ix (detector s)"
    and "numRows s = mg_numRows (detector s)"
  using assms by (auto simp: rrs_ok_def mg_dims_def rrs_dims_def mg_ix_def mg_in_range_def rrs_in_range_def)

lemma rows_in_range_mg:
  assumes "rrs_ok mg_dims cap s" and "rows_in_range s as"
  shows "accs_in_range (detector s) as"
  using assms(2) rrs_dims_mg[OF assms(1)] by (auto simp: rows_in_range_def accs_in_range_def)

lemma rrs_window_start:
  assumes inv: "mg_inv (detector s) k" and ok: "rrs_ok mg_dims mg_numEntries s"
    and t: "last_reset s + window_ticks \<le> t" "t < u64_size"
  defines "e \<equiv> rrs_enter mg_ops t s"
  shows "mg_inv (detector e) 0" and "rrs_ok mg_dims mg_numEntries e" and "detector e = mg_reset (detector s)"
    and "decision e = cleared_decision" and "last_reset e = t" and "rows_fit e = rows_fit s"
    and "rrs_dims e = rrs_dims s" and "maxValidTuples e = maxValidTuples s"
    and "\<And>ch rank bank. rrs_in_range s bank rank ch \<Longrightarrow> locked_tuples (tables e (ch, rank, bank)) = 0"
proof -
  let ?s1 = "s\<lparr>rh_stats := (rh_stats s)\<lparr>s_num_accesses := s_num_accesses (rh_stats s) + 1\<rparr>,
                 decision := cleared_decision, last_reset := t\<rparr>"
  have e: "e = rrs_reset mg_ops ?s1"
    unfolding e_def by (rule rrs_enter_new_window[OF window_overI[OF t]])
  have ok1: "rrs_ok mg_dims mg_numEntries ?s1" and inv1: "mg_inv (detector ?s1) k"
    using inv ok by (auto simp: rrs_ok_def rrs_dims_def table_ok_def rrs_in_range_def)
  note rs = mg.rrs_reset_ok[OF inv1 ok1, folded e]
  show "mg_inv (detector e) 0" "rrs_ok mg_dims mg_numEntries e" by (rule rs)+
  show "detector e = mg_reset (detector s)" "decision e = cleared_decision" "last_reset e = t"
    "rows_fit e = rows_fit s" "rrs_dims e = rrs_dims s" "maxValidTuples e = maxValidTuples s"
    by (simp_all add: e rrs_reset_simps rrs_dims_def rows_fit_def)
  show "locked_tuples (tables e (ch, rank, bank)) = 0" if "rrs_in_range s bank rank ch" for ch rank bank
    using rs(3)[of bank rank ch] that by (simp add: rrs_in_range_def)
qed

lemma locked_rows_moved:
  assumes "rrs_ok mg_dims cap s" and "b \<in> mg_ix (detector s)" and "r < numRows s" and "row_locked (tables s b) r"
  shows "remap (tables s b) r \<noteq> r"
proof -
  obtain ch rank bank where b: "b = (ch, rank, bank)" by (cases b) auto
  have "rit_wf (numTuples s) (numRows s) (tables s b)"
    using assms(1,2) rrs_dims_mg(1)[OF assms(1)] b by (auto simp: rrs_ok_def table_ok_def)
  then show ?thesis using row_locked_moved assms(3,4) by metis
qed

section \<open>Properties\<close>

lemma empty_rit_wf: "rit_wf n nr (empty_rit n)"
  by (simp add: rit_wf_def empty_rit_def zero_tuple_def)

lemma locked_empty [simp]: "locked_tuples (empty_rit n) = 0"
  by (simp add: locked_tuples_def empty_rit_def zero_tuple_def)

lemma evict_swap_None:
  assumes "rit_wf n nr t" and "locked_tuples t = valid_tuples t"
  shows "evict_swap t = None"
proof -
  note w = rit_wfD[OF assms(1)]
  let ?L = "{i. i < n \<and> re_valid (rit_tuples t ! i) \<and> re_locked (rit_tuples t ! i)}"
  let ?V = "{i. i < n \<and> re_valid (rit_tuples t ! i)}"
  have "?L = ?V"
    by (rule card_subset_eq) (use assms(2) w(1,2) in \<open>auto simp: locked_tuples_def\<close>)
  then have "find (\<lambda>i. re_valid (rit_tuples t ! i) \<and> \<not> re_locked (rit_tuples t ! i)) [0..<n] = None"
    by (auto simp: find_None_iff)
  then show ?thesis using w(1) by (simp add: evict_swap_def)
qed

lemma rrs_num_tuples_gt: "3 \<le> d \<Longrightarrow> d < rrs_num_tuples d"
  unfolding rrs_num_tuples_def by (simp add: less_eq_div_iff_mult_less_eq Suc_le_eq[symmetric])

text \<open>
  The constructor establishes the invariant: for at least three demand tuples the table has
  spare ways, and every bank starts with the identity mapping.
\<close>

theorem rrs_new_ok:
  assumes "3 \<le> demand" and "2 * demand + cap (detector junk) + 1 < rows"
    and "dims (detector junk) = \<lparr>dim_rows = rows, dim_banks = banks, dim_ranks = ranks, dim_channels = channels\<rparr>"
  shows "rrs_ok dims cap (rrs_new junk demand rows thr banks ranks channels rnd) \<and>
    (\<forall>ix r. remap (tables (rrs_new junk demand rows thr banks ranks channels rnd) ix) r = r)"
proof -
  let ?s = "rrs_new junk demand rows thr banks ranks channels rnd"
  have eq: "numRows ?s = rows" "numBanks ?s = banks" "numRanks ?s = ranks" "numChannels ?s = channels"
    "detector ?s = detector junk" "maxValidTuples ?s = demand" "numTuples ?s = rrs_num_tuples demand"
    "tables ?s = (\<lambda>_. empty_rit (rrs_num_tuples demand))"
    by (simp_all add: rrs_new_def rrs.defs rh_mitigation.defs)
  have "rrs_ok dims cap ?s"
    using assms rrs_num_tuples_gt[OF assms(1)]
    by (simp add: rrs_ok_def rrs_dims_def table_ok_def eq empty_rit_wf) (simp add: empty_rit_def)
  moreover have "remap (tables ?s ix) r = r" for ix r by (simp add: eq remap_def empty_rit_def)
  ultimately show ?thesis by blast
qed

definition rrs_example :: "misra_gries rrs" where
  "rrs_example = rrs_new (zero_scheme (mg_reset (mg_new (\<lambda>_. \<lparr>tr_entries = [], spill_counter = 7, uniq_rows = {},
     rowHasEntry = (\<lambda>_. 0), s_num_reset = 0, s_glob_spill_count = 0, s_num_access = 0, s_num_install = 0,
     s_aggressors = 0\<rparr>) 2 3 16 4 1 1))) 4 16 6 4 1 1 (\<lambda>n. 5 * n + 3)"

lemma rrs_example_simps:
  "numRows rrs_example = 16" "numBanks rrs_example = 4" "numRanks rrs_example = 1" "numChannels rrs_example = 1"
  "maxValidTuples rrs_example = 4" "numTuples rrs_example = 5" "last_reset rrs_example = 0"
  "mg_threshold (detector rrs_example) = 3" "mg_numEntries (detector rrs_example) = 2"
  "tables rrs_example ix = empty_rit 5" "decision rrs_example = cleared_decision"
  "rrs_in_range rrs_example bank rank ch \<longleftrightarrow> bank < 4 \<and> rank = 0 \<and> ch = 0"
  "(ch, rank, bank) \<in> mg_ix (detector rrs_example) \<longleftrightarrow> bank < 4 \<and> rank = 0 \<and> ch = 0"
  by (auto simp: rrs_example_def rrs_new_def rrs.defs rh_mitigation.defs zero_scheme_def mg_new_def
      rrs_num_tuples_def rrs_in_range_def mg_ix_def mg_in_range_def mg_reset_def)

lemma rrs_example_ok:
  "rrs_ok mg_dims mg_numEntries rrs_example" "mg_inv (detector rrs_example) 0" "rows_fit rrs_example"
proof -
  have "mg_dims (detector rrs_example) = rrs_dims rrs_example"
    by (simp add: rrs_dims_def rrs_example_simps)
      (simp add: mg_dims_def rrs_example_def rrs_new_def rrs.defs rh_mitigation.defs zero_scheme_def mg_new_def mg_reset_def)
  then show "rrs_ok mg_dims mg_numEntries rrs_example"
    by (simp add: rrs_ok_def rrs_example_simps table_ok_def empty_rit_wf) (simp add: empty_rit_def)
  obtain m where m: "detector rrs_example = mg_reset m"
    by (auto simp: rrs_example_def rrs_new_def rrs.defs rh_mitigation.defs zero_scheme_def)
  then show "mg_inv (detector rrs_example) 0"
    using mg_reset_sound[of m] rrs_example_simps(8) by (auto simp: mg_inv_def)
  show "rows_fit rrs_example" by (simp add: rows_fit_def rrs_example_simps)
qed


theorem rrs_new_ok_witness:
  "rrs_ok mg_dims mg_numEntries rrs_example \<and> remap (tables rrs_example (0, 0, 2)) 7 = 7"
  unfolding rrs_example_def
  using rrs_new_ok[of 4 mg_numEntries "zero_scheme (mg_reset (mg_new (\<lambda>_. \<lparr>tr_entries = [], spill_counter = 7,
     uniq_rows = {}, rowHasEntry = (\<lambda>_. 0), s_num_reset = 0, s_glob_spill_count = 0, s_num_access = 0,
     s_num_install = 0, s_aggressors = 0\<rparr>) 2 3 16 4 1 1))" 16 mg_dims 4 1 1 6 "\<lambda>n. 5 * n + 3"]
  by (simp add: zero_scheme_def mg_dims_def mg_new_def mg_reset_def)

text \<open>
  C32. Remapping is an involution on the rows of a bank: looking up a row returns a row of the bank
  without stopping, and looking up the result returns the row.
\<close>

theorem rrs_remap_involution:
  assumes "rrs_ok dims cap s" and "rrs_in_range s bank rank ch" and "row < numRows s"
  shows "\<exists>r'<numRows s. getRemappedAddr s row bank rank ch True = Inr (r', s) \<and>
    getRemappedAddr s r' bank rank ch True = Inr (row, s)"
proof -
  let ?t = "tables s (ch, rank, bank)"
  have wf: "rit_wf (numTuples s) (numRows s) ?t"
    using assms(1,2) by (auto simp: rrs_ok_def table_ok_def)
  have get: "getRemappedAddr s r bank rank ch True = Inr (remap ?t r, s)" if "r < numRows s" for r
    using rit_wfD(1,8,9)[OF wf] that assms(2) by (simp add: getRemappedAddr_def remap_def Let_def)
  show ?thesis
    using remap_involution[OF wf assms(3)] get by (intro exI[of _ "remap ?t row"]) (simp add: assms(3))
qed

theorem rrs_remap_involution_witness:
  "\<exists>r'<16. getRemappedAddr rrs_example 9 2 0 0 True = Inr (r', rrs_example) \<and>
    getRemappedAddr rrs_example r' 2 0 0 True = Inr (9, rrs_example)"
  using rrs_remap_involution[OF rrs_example_ok(1), of 2 0 0 9] by (simp add: rrs_example_simps)

text \<open>
  C31. While fewer than \<open>maxValidTuples - 1\<close> tuples are locked, \<open>insertTuple\<close> returns: it pairs the
  aggressor with a row that had no swap and that the detector does not track, keeps the table
  consistent (clean install, re-swap, un-swap and both), and records the moved rows in the decision.
\<close>

theorem rrs_insert_moves_row:
  assumes "mg_inv (detector s) k" and "rrs_ok mg_dims mg_numEntries s"
    and "rrs_in_range s bank rank ch" and "x < numRows s" and "decision s = cleared_decision"
    and "locked_tuples (tables s (ch, rank, bank)) + 2 \<le> maxValidTuples s"
  shows "\<exists>y s'. insertTuple mg_ops x bank rank ch s = Inr s' \<and>
    y < numRows s \<and> y \<noteq> x \<and> remap (tables s (ch, rank, bank)) y = y \<and>
    mg_access (detector s) y bank rank ch True = Inr (False, detector s) \<and>
    table_ok s' (ch, rank, bank) \<and> remap (tables s' (ch, rank, bank)) x = y \<and>
    remap (tables s' (ch, rank, bank)) y = x \<and> d_validAddrs (decision s') \<in> {2, 4, 6} \<and>
    d_addrs (decision s') ! 0 = x \<and> d_addrs (decision s') ! 1 = y"
proof -
  have acts: "actions_ok False 0 (decision s)" by (simp add: assms(5) actions_ok_def cleared_decision_def)
  obtain y s' where i: "insertTuple mg_ops x bank rank ch s = Inr s'"
    "inserted x (ch, rank, bank) y s s'" "free_row mg_ops s x bank rank ch y"
    using mg.insertTuple_ok[OF assms(1-4) acts assms(6)] by blast
  have wf': "rit_wf (numTuples s') (numRows s') (tables s' (ch, rank, bank))"
    and nr: "numRows s' = numRows s"
    using i(2) touchesD(1) by (auto simp: inserted_def table_ok_def)
  have "remap (tables s' (ch, rank, bank)) y = x"
    using remap_involution[OF wf', of x] assms(4) i(2) nr by (simp add: inserted_def)
  then show ?thesis using i by (auto simp: inserted_def free_row_def remap_def)
qed

theorem rrs_insert_moves_row_witness:
  "\<exists>y s'. insertTuple mg_ops 5 2 0 0 rrs_example = Inr s' \<and> y < 16 \<and> y \<noteq> 5 \<and>
    remap (tables s' (0, 0, 2)) 5 = y"
  using rrs_insert_moves_row[OF rrs_example_ok(2,1), of 2 0 0 5]
  by (auto simp: rrs_example_simps)

text \<open>
  The re-swap budget is a hard limit: when a bank already holds \<open>maxValidTuples\<close> swaps that
  were all made in this window, the next new aggressor stops the simulation at \<open>assert(ii < numTuples)\<close>.
\<close>

theorem rrs_overfull_aborts:
  assumes "mg_inv (detector s) k" and "rrs_ok mg_dims mg_numEntries s"
    and "rrs_in_range s bank rank ch" and "x < numRows s" and "decision s = cleared_decision"
    and "rit_rowHasEntry (tables s (ch, rank, bank)) x = 0"
    and "valid_tuples (tables s (ch, rank, bank)) = maxValidTuples s"
    and "locked_tuples (tables s (ch, rank, bank)) = maxValidTuples s"
  shows "insertTuple mg_ops x bank rank ch s = Inl Assert_Fail"
proof -
  let ?ix = "(ch, rank, bank)"
  let ?t = "tables s ?ix"
  have dm: "mg_dims (detector s) = rrs_dims s" and mx: "maxValidTuples s < numTuples s"
    and room: "2 * valid_tuples ?t + mg_numEntries (detector s) + 1 < numRows s"
    and wf: "rit_wf (numTuples s) (numRows s) ?t"
    using assms(2,3,7) by (auto simp: rrs_ok_def table_ok_def)
  obtain y s1 where g: "generateRandomRowAddr mg_ops x bank rank ch s = Inr (y, s1)" "only_draws s s1"
    "free_row mg_ops s x bank rank ch y"
    by (rule mg.generateRandomRowAddr_ok[OF assms(1) dm assms(3) wf room], rule that)
  note e1 = only_drawsD[OF g(2)]
  have y: "y < numRows s" "x \<noteq> y" "rit_rowHasEntry ?t y = 0" using g(3) by (auto simp: free_row_def)
  have acts: "actions_ok False 0 (decision s1)" by (simp add: e1 assms(5) actions_ok_def cleared_decision_def)
  obtain d where pp: "push_pair x y s1 = Inr (s1\<lparr>decision := d\<rparr>)"
    by (rule push_pair_ok[OF acts, of x y]) simp
  have vt: "valid_tuples ?t < numTuples s" using assms(7) mx by simp
  note ins = install_swap_wf[OF wf vt assms(4) y(1,2) assms(6) y(3)]
  have "evict_swap (install_swap x y ?t) = None"
    by (rule evict_swap_None[OF ins(1)]) (simp add: ins(2,3) assms(7,8))
  then have "finish_insert ?ix False (put_table ?ix (install_swap x y ?t) (s1\<lparr>decision := d\<rparr>)) = Inl Assert_Fail"
    using ins(2) e1 assms(7) by (simp add: finish_insert_def)
  then show ?thesis using g(1) pp e1 assms(6) by (simp add: insertTuple_def Let_def)
qed

theorem rrs_overfull_aborts_witness:
  "insertTuple mg_ops 5 2 0 0 (rrs_example\<lparr>maxValidTuples := 0\<rparr>) = Inl Assert_Fail"
proof (rule rrs_overfull_aborts)
  show "mg_inv (detector (rrs_example\<lparr>maxValidTuples := 0\<rparr>)) 0" using rrs_example_ok(2) by simp
  show "rrs_ok mg_dims mg_numEntries (rrs_example\<lparr>maxValidTuples := 0\<rparr>)"
    using rrs_example_ok(1)
    by (auto simp: rrs_ok_def rrs_dims_def rrs_example_simps table_ok_def empty_rit_wf rrs_in_range_def)
      (simp add: empty_rit_def)
qed (simp_all add: rrs_example_simps rrs_in_range_def, simp_all add: empty_rit_def)

text \<open>
  C2. A whole refresh window is safe: if no bank has more aggressor activations than half the
  demand size of its table, every access of the window returns, the tables stay consistent,
  and every row that reaches the detector's threshold ends the window at another place.
\<close>

theorem rrs_window_safe:
  assumes "mg_inv (detector s) k" and ok: "rrs_ok mg_dims mg_numEntries s" and fit: "rows_fit s"
    and t: "last_reset s + window_ticks \<le> t" "t < u64_size" and win: "in_window t as"
    and rng: "rows_in_range s ((row, ix) # map snd as)"
    and fits: "window_fits (detector s) ((row, ix) # map snd as)" and len: "length as + 1 < u32_size"
    and swaps: "\<forall>b\<in>mg_ix (detector s).
      2 * (length (bank_rows b ((row, ix) # map snd as)) div mg_threshold (detector s)) \<le> maxValidTuples s"
  shows "\<exists>fl s'. rrs_run mg_ops s ((t, row, ix) # as) = Inr (fl, s') \<and> rrs_ok mg_dims mg_numEntries s' \<and>
    (\<forall>r b. r < numRows s \<longrightarrow> b \<in> mg_ix (detector s) \<longrightarrow>
       mg_threshold (detector s) \<le> count_list ((row, ix) # map snd as) (r, b) \<longrightarrow>
       row_locked (tables s' b) r \<and> remap (tables s' b) r \<noteq> r)"
proof -
  let ?as = "(row, ix) # map snd as" and ?m = "detector s" and ?e = "rrs_enter mg_ops t s"
  note e = rrs_window_start[OF assms(1) ok t]
  have rr: "rrs_in_range ?e = rrs_in_range s" "numRows ?e = numRows s"
    using e(7) by (simp_all add: rrs_dims_def rrs_in_range_def fun_eq_iff)
  have T: "0 < mg_threshold ?m" and ln: "length ?as < u32_size" using assms(1) len by (simp_all add: mg_inv_def)
  obtain fl m' where run: "mg_run (mg_reset ?m) ?as = Inr (fl, m')"
    and budget: "\<And>b. b \<in> mg_ix ?m \<Longrightarrow> length (bank_rows b fl) \<le> length (bank_rows b ?as) div mg_threshold ?m"
    and flagged: "\<And>r b. r < mg_numRows ?m \<Longrightarrow> b \<in> mg_ix ?m \<Longrightarrow> mg_threshold ?m \<le> count_list ?as (r, b) \<Longrightarrow>
      (r, b) \<in> set fl"
    by (rule mg_window_flags[OF T rows_in_range_mg[OF ok rng] fits ln], rule that)
  have lf: "locks_fit ?e fl"
    unfolding locks_fit_def rr e(8)
  proof (intro allI impI)
    fix ch rank bank assume r: "rrs_in_range s bank rank ch"
    then have b: "(ch, rank, bank) \<in> mg_ix ?m" using rrs_dims_mg(1)[OF ok] by blast
    show "locked_tuples (tables ?e (ch, rank, bank)) + 2 * length (bank_rows (ch, rank, bank) fl)
        \<le> maxValidTuples s"
      using budget[OF b] swaps[rule_format, OF b] e(9)[OF r] by linarith
  qed
  have "rows_in_range ?e ?as" "in_window (last_reset ?e) as" "rows_fit ?e" "0 + length as + 1 < u32_size"
    "det_run mg_ops (detector ?e) ?as = Inr (fl, m')"
    using rng win fit len run e(3,5,6) by (simp_all add: rows_in_range_def rr)
  from mg.rrs_run_entered[OF e(1) this(4) e(2) this(3) e(4) refl this(1,2,5) lf]
  obtain s' where s': "rrs_run mg_ops s ((t, row, ix) # as) = Inr (fl, s')"
    "rrs_ok mg_dims mg_numEntries s'" "rrs_dims s' = rrs_dims ?e" "swapped_out ?e s' fl"
    by blast
  have md: "mg_dims (detector s') = mg_dims ?m" using s'(2,3) e(7) ok by (simp add: rrs_ok_def)
  have nr: "numRows s' = numRows s" using s'(3) e(7) by (simp add: rrs_dims_def)
  note d' = conjunct1[OF mg_dims_ix[OF md]] nr
  have "row_locked (tables s' b) r \<and> remap (tables s' b) r \<noteq> r"
    if r: "r < numRows s" "b \<in> mg_ix ?m" and c: "mg_threshold ?m \<le> count_list ?as (r, b)" for r b
  proof -
    have "(r, b) \<in> set fl" "r < numRows ?e"
      using flagged[OF _ r(2) c] r(1) rrs_dims_mg(2)[OF ok] rr(2) by simp_all
    then have "row_locked (tables s' b) r" using s'(4) unfolding swapped_out_def by blast
    then show ?thesis using locked_rows_moved[OF s'(2)] r d' by simp
  qed
  then show ?thesis using s'(1,2) by blast
qed

definition rrs_example_window :: "(tick \<times> addr \<times> bank_ix) list" where
  "rrs_example_window = [(64000000100, 2, (0, 0, 2)), (64000000200, 5, (0, 0, 2)), (64000000300, 7, (0, 0, 3)),
     (64000000400, 5, (0, 0, 2)), (64000000500, 5, (0, 0, 2))]"

theorem rrs_window_safe_witness:
  "\<exists>fl s'. rrs_run mg_ops rrs_example ((64000000000, 5, (0, 0, 2)) # rrs_example_window) = Inr (fl, s') \<and>
    remap (tables s' (0, 0, 2)) 5 \<noteq> 5"
proof -
  let ?as = "(5, (0, 0, 2)) # map snd rrs_example_window"
  have fits: "window_fits (detector rrs_example) ?as"
    by (auto simp: window_fits_def rrs_example_simps rrs_example_window_def bank_rows_def)
  have swaps: "\<forall>b\<in>mg_ix (detector rrs_example).
      2 * (length (bank_rows b ?as) div mg_threshold (detector rrs_example)) \<le> maxValidTuples rrs_example"
    by (auto simp: rrs_example_simps rrs_example_window_def bank_rows_def)
  have "last_reset rrs_example + window_ticks \<le> 64000000000" "in_window 64000000000 rrs_example_window"
    "rows_in_range rrs_example ?as" "length rrs_example_window + 1 < u32_size" "(64000000000::nat) < u64_size"
    by (simp_all add: rrs_example_simps window_ticks_def in_window_def rows_in_range_def rrs_example_window_def)
  from rrs_window_safe[OF rrs_example_ok(2,1,3) this(1,5,2,3) fits this(4) swaps]
  obtain fl s' where "rrs_run mg_ops rrs_example ((64000000000, 5, (0, 0, 2)) # rrs_example_window) = Inr (fl, s')"
    and all: "\<And>r b. r < 16 \<Longrightarrow> b \<in> mg_ix (detector rrs_example) \<Longrightarrow> 3 \<le> count_list ?as (r, b) \<Longrightarrow>
       remap (tables s' b) r \<noteq> r"
    by (auto simp: rrs_example_simps)
  moreover have "3 \<le> count_list ?as (5, (0, 0, 2))" by (simp add: rrs_example_window_def)
  ultimately show ?thesis using all[of 5 "(0, 0, 2)"] by (auto simp: rrs_example_simps)
qed

end
