(* ===== verification/Murmur_Hash.thy ===== *)
theory Murmur_Hash
  imports RH_Prelude
begin

unbundle bit_operations_syntax

text \<open>
  The hash of the counting Bloom filter: \<open>MurmurHash3_x64_128\<close> of
  \<open>mem/rowhammer_mitigation.cc\<close> with its helpers, on machine words, and \<open>RQhash\<close> of the four
  bytes of a row number. Blocks are read little-endian, as the hosts gem5 runs on do.
  The lemmas show that every mixing step is invertible, so that \<open>RQhash\<close> never maps two rows to
  the same pair of hash values.
\<close>

section \<open>The hash\<close>

definition rotl64 :: "64 word \<Rightarrow> nat \<Rightarrow> 64 word" where
  "rotl64 x r = push_bit r x OR drop_bit (64 - r) x"

definition fmix64 :: "64 word \<Rightarrow> 64 word" where
  "fmix64 k0 =
     (let k1 = k0 XOR drop_bit 33 k0;
          k2 = k1 * 0xff51afd7ed558ccd;
          k3 = k2 XOR drop_bit 33 k2;
          k4 = k3 * 0xc4ceb9fe1a85ec53
      in k4 XOR drop_bit 33 k4)"

definition murmur_c1 :: "64 word" where "murmur_c1 = 0x87c37b91114253d5"
definition murmur_c2 :: "64 word" where "murmur_c2 = 0x4cf5ad432745937f"

text \<open>The two mixing lines \<open>k *= a; k = ROTL64(k, r); k *= b\<close>.\<close>

definition murmur_scramble :: "64 word \<Rightarrow> nat \<Rightarrow> 64 word \<Rightarrow> 64 word \<Rightarrow> 64 word" where
  "murmur_scramble a r b k = rotl64 (k * a) r * b"

text \<open>XOR of the bytes \<open>lo, \<dots>, hi - 1\<close> into a word, the last byte first.\<close>

definition bytes_word :: "8 word list \<Rightarrow> nat \<Rightarrow> nat \<Rightarrow> 64 word" where
  "bytes_word bs lo hi = fold (\<lambda>j k. k XOR push_bit (8 * (j - lo)) (ucast (bs ! j))) (rev [lo..<hi]) 0"

definition getblock64 :: "8 word list \<Rightarrow> nat \<Rightarrow> 64 word" where
  "getblock64 bs i = bytes_word bs (8 * i) (8 * i + 8)"

definition murmur_block :: "8 word list \<Rightarrow> nat \<Rightarrow> 64 word \<times> 64 word \<Rightarrow> 64 word \<times> 64 word" where
  "murmur_block bs i h =
     (let h1 = fst h XOR murmur_scramble murmur_c1 31 murmur_c2 (getblock64 bs (i * 2));
          h1 = (rotl64 h1 27 + snd h) * 5 + 0x52dce729;
          h2 = snd h XOR murmur_scramble murmur_c2 33 murmur_c1 (getblock64 bs (i * 2 + 1));
          h2 = (rotl64 h2 31 + h1) * 5 + 0x38495ab5
      in (h1, h2))"

text \<open>The \<open>switch\<close> over the remaining bytes; its cases fall through.\<close>

definition murmur_tail :: "8 word list \<Rightarrow> nat \<Rightarrow> nat \<Rightarrow> 64 word \<times> 64 word \<Rightarrow> 64 word \<times> 64 word" where
  "murmur_tail bs start n h =
     (let h2 = (if 9 \<le> n then snd h XOR murmur_scramble murmur_c2 33 murmur_c1
                                  (bytes_word bs (start + 8) (start + n))
                else snd h);
          h1 = (if 1 \<le> n then fst h XOR murmur_scramble murmur_c1 31 murmur_c2
                                  (bytes_word bs start (start + min n 8))
                else fst h)
      in (h1, h2))"

definition murmur_final :: "nat \<Rightarrow> 64 word \<times> 64 word \<Rightarrow> 64 word \<times> 64 word" where
  "murmur_final len h =
     (let h1 = fst h XOR of_nat len; h2 = snd h XOR of_nat len;
          h1 = h1 + h2; h2 = h2 + h1;
          h1 = fmix64 h1; h2 = fmix64 h2;
          h1 = h1 + h2; h2 = h2 + h1
      in (h1, h2))"

definition murmurHash3_x64_128 :: "8 word list \<Rightarrow> 32 word \<Rightarrow> 64 word \<times> 64 word" where
  "murmurHash3_x64_128 bs seed =
     (let len = length bs; nblocks = len div 16;
          h = fold (murmur_block bs) [0..<nblocks] (ucast seed, ucast seed);
          h = murmur_tail bs (nblocks * 16) (len mod 16) h
      in murmur_final len h)"

definition row_bytes :: "32 word \<Rightarrow> 8 word list" where
  "row_bytes r = [ucast (r AND 0xff), ucast (drop_bit 8 r AND 0xff),
                  ucast (drop_bit 16 r AND 0xff), ucast (drop_bit 24 r AND 0xff)]"

definition rqHash :: "32 word \<Rightarrow> 64 word \<times> 64 word" where
  "rqHash r = murmurHash3_x64_128 (row_bytes r) 0xdeadbeef"

section \<open>Injectivity\<close>

lemma xor_shift_inj: "inj (\<lambda>x :: 64 word. x XOR drop_bit 33 x)"
proof (rule inj_on_inverseI)
  fix x :: "64 word"
  show "(x XOR drop_bit 33 x) XOR drop_bit 33 (x XOR drop_bit 33 x) = x"
    by (rule bit_word_eqI) (auto simp: bit_simps)
qed

lemma mult_odd_inj:
  fixes c d :: "'a :: len word"
  assumes "c * d = 1"
  shows "inj (\<lambda>x. x * c)"
  by (rule inj_on_inverseI[of _ "\<lambda>x. x * d"]) (simp add: mult.assoc assms)

lemma rotl64_inj: "r < 64 \<Longrightarrow> inj (\<lambda>x. rotl64 x r)"
proof (rule inj_on_inverseI)
  fix x :: "64 word"
  assume r: "r < 64"
  show "drop_bit r (rotl64 x r) OR push_bit (64 - r) (rotl64 x r) = x"
  proof (rule bit_word_eqI)
    fix n assume "n < LENGTH(64)"
    then show "bit (drop_bit r (rotl64 x r) OR push_bit (64 - r) (rotl64 x r)) n \<longleftrightarrow> bit x n"
      using r by (cases "n + r < 64") (auto simp: rotl64_def bit_simps)
  qed
qed

lemma fmix64_inj: "inj fmix64"
proof -
  have a: "inj (\<lambda>x. x * (0xff51afd7ed558ccd :: 64 word))"
    by (rule mult_odd_inj[of _ "0x4f74430c22a54005"]) simp
  have b: "inj (\<lambda>x. x * (0xc4ceb9fe1a85ec53 :: 64 word))"
    by (rule mult_odd_inj[of _ "0x9cb4b2f8129337db"]) simp
  have "fmix64 = (\<lambda>x. x XOR drop_bit 33 x) \<circ> (\<lambda>x. x * 0xc4ceb9fe1a85ec53) \<circ> (\<lambda>x. x XOR drop_bit 33 x) \<circ>
      (\<lambda>x. x * 0xff51afd7ed558ccd) \<circ> (\<lambda>x. x XOR drop_bit 33 x)"
    by (simp add: fmix64_def Let_def fun_eq_iff)
  then show ?thesis
    using inj_compose[OF inj_compose[OF inj_compose[OF inj_compose[OF xor_shift_inj b] xor_shift_inj] a] xor_shift_inj]
    by (simp only: o_assoc)
qed

lemma murmur_scramble_inj:
  assumes "r < 64" and "a * a' = 1" and "b * b' = 1"
  shows "inj (murmur_scramble a r b)"
proof -
  have "murmur_scramble a r b = (\<lambda>x. x * b) \<circ> (\<lambda>x. rotl64 x r) \<circ> (\<lambda>x. x * a)"
    by (simp add: murmur_scramble_def fun_eq_iff)
  then show ?thesis
    using inj_compose[OF inj_compose[OF mult_odd_inj[OF assms(3)] rotl64_inj[OF assms(1)]] mult_odd_inj[OF assms(2)]]
    by (simp only: o_assoc)
qed

lemma sum_pair_cancel:
  fixes a b :: "'a :: ab_group_add"
  assumes "a + b = a' + b'" and "b + (a + b) = b' + (a' + b')"
  shows "a = a' \<and> b = b'"
  using assms by (metis add_right_cancel)

lemma xor_cancel:
  fixes x y c :: "64 word"
  assumes "x XOR c = y XOR c"
  shows "x = y"
proof -
  have "x = (x XOR c) XOR c" by (simp add: xor.assoc)
  also have "\<dots> = (y XOR c) XOR c" by (simp only: assms)
  also have "\<dots> = y" by (simp add: xor.assoc)
  finally show ?thesis .
qed

lemma murmur_final_inj: "inj (murmur_final len)"
proof (rule injI)
  fix g h assume eq: "murmur_final len g = murmur_final len h"
  define s1 where "s1 = (\<lambda>h :: 64 word \<times> 64 word. (fst h XOR of_nat len) + (snd h XOR of_nat len))"
  define s2 where "s2 = (\<lambda>h. (snd h XOR of_nat len) + s1 h)"
  have s: "murmur_final len h = (fmix64 (s1 h) + fmix64 (s2 h),
      fmix64 (s2 h) + (fmix64 (s1 h) + fmix64 (s2 h)))" for h
    by (simp add: murmur_final_def Let_def s1_def s2_def)
  have "fmix64 (s1 g) = fmix64 (s1 h) \<and> fmix64 (s2 g) = fmix64 (s2 h)"
    by (rule sum_pair_cancel) (use eq[unfolded s prod.inject] in blast)+
  then have "s1 g = s1 h" "s2 g = s2 h" using fmix64_inj by (simp_all add: inj_eq)
  then have "fst g XOR of_nat len = fst h XOR of_nat len \<and> snd g XOR of_nat len = snd h XOR of_nat len"
    unfolding s2_def s1_def by (intro sum_pair_cancel)
  then show "g = h" by (auto simp: prod_eq_iff dest: xor_cancel)
qed

lemma bytes_word_row: "bytes_word (row_bytes r) 0 4 = ucast r"
proof -
  have u: "rev [0..<4] = [3, 2, 1, 0 :: nat]" by (simp add: upt_rec)
  have m: "0xff = (mask 8 :: 32 word)" by (simp add: mask_eq_exp_minus_1)
  have e: "bytes_word (row_bytes r) 0 4 =
      ((push_bit 24 (ucast (ucast (drop_bit 24 r AND mask 8) :: 8 word)) XOR
        push_bit 16 (ucast (ucast (drop_bit 16 r AND mask 8) :: 8 word))) XOR
      push_bit 8 (ucast (ucast (drop_bit 8 r AND mask 8) :: 8 word))) XOR ucast (ucast (r AND mask 8) :: 8 word)"
    unfolding bytes_word_def u m[symmetric] by (simp add: row_bytes_def)
  show ?thesis
    unfolding e
  proof (rule bit_word_eqI)
    fix n assume "n < LENGTH(64)"
    then consider "n < 8" | "8 \<le> n" "n < 16" | "16 \<le> n" "n < 24" | "24 \<le> n" "n < 32" | "32 \<le> n" "n < 64"
      by force
    then show "bit (((push_bit 24 (ucast (ucast (drop_bit 24 r AND mask 8) :: 8 word)) XOR
        push_bit 16 (ucast (ucast (drop_bit 16 r AND mask 8) :: 8 word))) XOR
      push_bit 8 (ucast (ucast (drop_bit 8 r AND mask 8) :: 8 word))) XOR ucast (ucast (r AND mask 8) :: 8 word) :: 64 word) n
      \<longleftrightarrow> bit (ucast r :: 64 word) n"
      by cases (auto simp: bit_simps dest: bit_imp_le_length)
  qed
qed

lemma rqHash_eq:
  "rqHash r = murmur_final 4 (ucast (0xdeadbeef :: 32 word) XOR murmur_scramble murmur_c1 31 murmur_c2 (ucast r),
     ucast (0xdeadbeef :: 32 word))"
proof -
  have "length (row_bytes r) = 4" by (simp add: row_bytes_def)
  then show ?thesis
    using bytes_word_row[of r] by (simp add: rqHash_def murmurHash3_x64_128_def murmur_tail_def)
qed

lemma ucast_32_64_inj: "inj (ucast :: 32 word \<Rightarrow> 64 word)"
proof (rule inj_on_inverseI)
  show "ucast (ucast x :: 64 word) = x" for x :: "32 word"
    by (rule bit_word_eqI) (auto simp: bit_simps)
qed

text \<open>
  The hash of the Bloom filter is injective on row numbers: two different 32-bit rows never get
  the same pair of 64-bit hash values, so collisions come only from the reduction to the table size.
\<close>

theorem rqHash_injective: "rqHash r = rqHash r' \<longleftrightarrow> r = r'"
proof
  assume "rqHash r = rqHash r'"
  then have "murmur_scramble murmur_c1 31 murmur_c2 (ucast r) = murmur_scramble murmur_c1 31 murmur_c2 (ucast r')"
    unfolding rqHash_eq inj_eq[OF murmur_final_inj] prod.inject xor.commute[of "ucast (0xdeadbeef :: 32 word)"]
    by (blast dest: xor_cancel)
  moreover have "inj (murmur_scramble murmur_c1 31 murmur_c2)"
    by (rule murmur_scramble_inj[of _ _ "0xa98409e882ce4d7d" _ "0xa81e14edd9de2c7f"])
      (simp_all add: murmur_c1_def murmur_c2_def)
  ultimately show "r = r'" using ucast_32_64_inj by (simp add: inj_eq)
qed simp

end
