(* ===== verification/Bloom_Filter.thy ===== *)
theory Bloom_Filter
  imports Murmur_Hash
begin

text \<open>
  \<open>class CountingBloomFilter\<close> of \<open>mem/rowhammer_mitigation.hh\<close> and \<open>.cc\<close>: \<open>add\<close>, \<open>query\<close> and
  \<open>del\<close> of a row over a table of 32-bit counters, at the positions \<open>nthHash\<close> derives from the two
  hash values of the row.
  The locale \<open>member_filter\<close> states what the quarantine needs of a filter (no false negatives
  under insertions and removals of members); it is interpreted here on the Bloom filter, and in
  the theory of the quarantine on its bit vector.
\<close>

section \<open>The class\<close>

record cbf =
  numHashes :: nat
  maxCount :: nat
  cbf_numEntries :: nat
  cbf_entries :: "nat \<Rightarrow> nat"
  s_truePositives :: nat
  s_falsePositives :: nat
  s_trueNegatives :: nat

text \<open>The constructor leaves the statistics to \<open>junk\<close>.\<close>

definition cbf_new :: "cbf \<Rightarrow> nat \<Rightarrow> nat \<Rightarrow> nat \<Rightarrow> cbf" where
  "cbf_new junk numEntries max_count hashes =
     junk\<lparr>numHashes := hashes, maxCount := max_count, cbf_numEntries := numEntries, cbf_entries := (\<lambda>_. 0)\<rparr>"

definition nthHash :: "nat \<Rightarrow> 64 word \<Rightarrow> 64 word \<Rightarrow> nat \<Rightarrow> nat res" where
  "nthHash n hashA hashB filterSize =
     rnonzero filterSize (Inr (unat (hashA + of_nat n * hashB) mod filterSize))"

fun cbf_add_loop :: "nat list \<Rightarrow> 64 word \<times> 64 word \<Rightarrow> cbf \<Rightarrow> cbf res" where
  "cbf_add_loop [] h f = Inr f"
| "cbf_add_loop (n # ns) h f =
     rbind (nthHash n (fst h) (snd h) (cbf_numEntries f)) (\<lambda>i.
       cbf_add_loop ns h (f\<lparr>cbf_entries := (cbf_entries f)(i := inc32 (cbf_entries f i))\<rparr>))"

definition cbf_add :: "cbf \<Rightarrow> nat \<Rightarrow> cbf res" where
  "cbf_add f rowAddr = cbf_add_loop [0..<numHashes f] (rqHash (of_nat rowAddr)) f"

fun cbf_query_loop :: "nat list \<Rightarrow> 64 word \<times> 64 word \<Rightarrow> cbf \<Rightarrow> bool res" where
  "cbf_query_loop [] h f = Inr True"
| "cbf_query_loop (n # ns) h f =
     rbind (nthHash n (fst h) (snd h) (cbf_numEntries f)) (\<lambda>i.
       if cbf_entries f i = 0 then Inr False else cbf_query_loop ns h f)"

definition cbf_query :: "cbf \<Rightarrow> nat \<Rightarrow> bool res" where
  "cbf_query f rowAddr = cbf_query_loop [0..<numHashes f] (rqHash (of_nat rowAddr)) f"

fun cbf_del_loop :: "nat list \<Rightarrow> 64 word \<times> 64 word \<Rightarrow> cbf \<Rightarrow> cbf res" where
  "cbf_del_loop [] h f = Inr f"
| "cbf_del_loop (n # ns) h f =
     rbind (nthHash n (fst h) (snd h) (cbf_numEntries f)) (\<lambda>i.
       cbf_del_loop ns h (if cbf_entries f i \<noteq> 0
         then f\<lparr>cbf_entries := (cbf_entries f)(i := dec32 (cbf_entries f i))\<rparr> else f))"

definition cbf_del :: "cbf \<Rightarrow> nat \<Rightarrow> cbf res" where
  "cbf_del f rowAddr = cbf_del_loop [0..<numHashes f] (rqHash (of_nat rowAddr)) f"

section \<open>The interface\<close>

text \<open>A sequence of insertions and removals, and the rows it leaves in the filter.\<close>

datatype filter_op = Add_Row nat | Del_Row nat

fun filter_run :: "('f \<Rightarrow> nat \<Rightarrow> 'f res) \<Rightarrow> ('f \<Rightarrow> nat \<Rightarrow> 'f res) \<Rightarrow> 'f \<Rightarrow> filter_op list \<Rightarrow> 'f res" where
  "filter_run add del f [] = Inr f"
| "filter_run add del f (Add_Row r # ops) = rbind (add f r) (\<lambda>f1. filter_run add del f1 ops)"
| "filter_run add del f (Del_Row r # ops) = rbind (del f r) (\<lambda>f1. filter_run add del f1 ops)"

fun ops_members :: "nat set \<Rightarrow> filter_op list \<Rightarrow> nat set" where
  "ops_members A [] = A"
| "ops_members A (Add_Row r # ops) = ops_members (insert r A) ops"
| "ops_members A (Del_Row r # ops) = ops_members (A - {r}) ops"

text \<open>Rows are added once, only members are removed, and at most \<open>k\<close> rows are in at a time.\<close>

fun ops_proper :: "nat \<Rightarrow> nat set \<Rightarrow> filter_op list \<Rightarrow> bool" where
  "ops_proper k A [] \<longleftrightarrow> True"
| "ops_proper k A (Add_Row r # ops) \<longleftrightarrow> r \<notin> A \<and> card A < k \<and> ops_proper k (insert r A) ops"
| "ops_proper k A (Del_Row r # ops) \<longleftrightarrow> r \<in> A \<and> ops_proper k (A - {r}) ops"

locale member_filter =
  fixes query :: "'f \<Rightarrow> nat \<Rightarrow> bool res"
    and add :: "'f \<Rightarrow> nat \<Rightarrow> 'f res"
    and del :: "'f \<Rightarrow> nat \<Rightarrow> 'f res"
    and rep :: "'f \<Rightarrow> nat set \<Rightarrow> bool"
    and room :: "'f \<Rightarrow> nat"
  assumes query_returns: "rep f A \<Longrightarrow> \<exists>b. query f r = Inr b"
    and query_member: "rep f A \<Longrightarrow> r \<in> A \<Longrightarrow> query f r = Inr True"
    and add_member: "rep f A \<Longrightarrow> r \<notin> A \<Longrightarrow> card A < room f \<Longrightarrow>
      \<exists>f'. add f r = Inr f' \<and> rep f' (insert r A) \<and> room f' = room f"
    and del_member: "rep f A \<Longrightarrow> r \<in> A \<Longrightarrow> \<exists>f'. del f r = Inr f' \<and> rep f' (A - {r}) \<and> room f' = room f"
begin

lemma no_false_negative: "rep f A \<Longrightarrow> query f r = Inr False \<Longrightarrow> r \<notin> A"
  using query_member by fastforce

lemma filter_run_rep:
  "rep f A \<Longrightarrow> ops_proper (room f) A ops \<Longrightarrow>
    \<exists>f'. filter_run add del f ops = Inr f' \<and> rep f' (ops_members A ops) \<and> room f' = room f"
proof (induction ops arbitrary: f A)
  case (Cons op ops)
  show ?case
  proof (cases op)
    case (Add_Row r)
    with Cons.prems obtain f1 where f1: "add f r = Inr f1" "rep f1 (insert r A)" "room f1 = room f"
      using add_member by fastforce
    then show ?thesis using Cons.IH[of f1 "insert r A"] Cons.prems(2) Add_Row by simp
  next
    case (Del_Row r)
    with Cons.prems obtain f1 where f1: "del f r = Inr f1" "rep f1 (A - {r})" "room f1 = room f"
      using del_member by fastforce
    then show ?thesis using Cons.IH[of f1 "A - {r}"] Cons.prems(2) Del_Row by simp
  qed
qed simp

end

section \<open>The Bloom filter represents a set of rows\<close>

text \<open>The positions a row counts at.\<close>

definition cbf_slot :: "nat \<Rightarrow> 64 word \<times> 64 word \<Rightarrow> nat \<Rightarrow> nat" where
  "cbf_slot sz h n = unat (fst h + of_nat n * snd h) mod sz"

definition cbf_slots :: "cbf \<Rightarrow> nat \<Rightarrow> nat list" where
  "cbf_slots f r = map (cbf_slot (cbf_numEntries f) (rqHash (of_nat r))) [0..<numHashes f]"

text \<open>Every counter is the number of positions of members that fall on it.\<close>

definition cbf_rep :: "cbf \<Rightarrow> nat set \<Rightarrow> bool" where
  "cbf_rep f A \<longleftrightarrow> 0 < cbf_numEntries f \<and> finite A \<and> numHashes f * card A < u32_size \<and>
     (\<forall>p. cbf_entries f p = (\<Sum>r\<in>A. count_list (cbf_slots f r) p))"

definition cbf_room :: "cbf \<Rightarrow> nat" where
  "cbf_room f = (u32_size - 1) div numHashes f"

lemma cbf_add_loop_eq:
  assumes "0 < cbf_numEntries f"
    and "\<And>p. cbf_entries f p + count_list (map (cbf_slot (cbf_numEntries f) h) ns) p < u32_size"
  shows "cbf_add_loop ns h f = Inr (f\<lparr>cbf_entries := (\<lambda>p. cbf_entries f p +
    count_list (map (cbf_slot (cbf_numEntries f) h) ns) p)\<rparr>)"
  using assms
proof (induction ns arbitrary: f)
  case (Cons n ns)
  let ?i = "cbf_slot (cbf_numEntries f) h n"
  let ?f = "f\<lparr>cbf_entries := (cbf_entries f)(?i := inc32 (cbf_entries f ?i))\<rparr>"
  have "cbf_entries f ?i + 1 < u32_size" using Cons.prems(2)[of ?i] by simp
  then have inc: "inc32 (cbf_entries f ?i) = cbf_entries f ?i + 1" by (rule inc32_noov)
  have e: "cbf_entries ?f p + count_list (map (cbf_slot (cbf_numEntries f) h) ns) p =
      cbf_entries f p + count_list (map (cbf_slot (cbf_numEntries f) h) (n # ns)) p" for p
    using inc by simp
  have "cbf_add_loop ns h ?f = Inr (?f\<lparr>cbf_entries := (\<lambda>p. cbf_entries ?f p +
    count_list (map (cbf_slot (cbf_numEntries ?f) h) ns) p)\<rparr>)"
    by (rule Cons.IH) (use Cons.prems e in \<open>simp_all del: fun_upd_apply\<close>)
  then show ?case
    using Cons.prems(1) e by (simp add: nthHash_def cbf_slot_def[symmetric] del: fun_upd_apply)
qed simp

lemma cbf_del_loop_eq:
  assumes "0 < cbf_numEntries f"
    and "\<And>p. count_list (map (cbf_slot (cbf_numEntries f) h) ns) p \<le> cbf_entries f p \<and> cbf_entries f p < u32_size"
  shows "cbf_del_loop ns h f = Inr (f\<lparr>cbf_entries := (\<lambda>p. cbf_entries f p -
    count_list (map (cbf_slot (cbf_numEntries f) h) ns) p)\<rparr>)"
  using assms
proof (induction ns arbitrary: f)
  case (Cons n ns)
  let ?i = "cbf_slot (cbf_numEntries f) h n"
  let ?f = "f\<lparr>cbf_entries := (cbf_entries f)(?i := dec32 (cbf_entries f ?i))\<rparr>"
  have pos: "0 < cbf_entries f ?i" "cbf_entries f ?i < u32_size" using Cons.prems(2)[of ?i] by simp_all
  then have dec: "dec32 (cbf_entries f ?i) = cbf_entries f ?i - 1" by (rule dec32_pos)
  have e: "cbf_entries ?f p - count_list (map (cbf_slot (cbf_numEntries f) h) ns) p =
      cbf_entries f p - count_list (map (cbf_slot (cbf_numEntries f) h) (n # ns)) p" for p
    using dec by simp
  have "count_list (map (cbf_slot (cbf_numEntries f) h) ns) p \<le> cbf_entries ?f p \<and> cbf_entries ?f p < u32_size" for p
    using Cons.prems(2)[of p] dec pos by auto
  then have "cbf_del_loop ns h ?f = Inr (?f\<lparr>cbf_entries := (\<lambda>p. cbf_entries ?f p -
    count_list (map (cbf_slot (cbf_numEntries ?f) h) ns) p)\<rparr>)"
    by (intro Cons.IH) (use Cons.prems in \<open>simp_all del: fun_upd_apply\<close>)
  then show ?case
    using Cons.prems(1) e pos by (simp add: nthHash_def cbf_slot_def[symmetric] del: fun_upd_apply)
qed simp

lemma cbf_query_loop_eq:
  "0 < cbf_numEntries f \<Longrightarrow>
    cbf_query_loop ns h f = Inr (\<forall>n\<in>set ns. cbf_entries f (cbf_slot (cbf_numEntries f) h n) \<noteq> 0)"
  by (induction ns) (auto simp: nthHash_def cbf_slot_def)

lemma cbf_slots_update [simp]: "cbf_slots (f\<lparr>cbf_entries := e\<rparr>) = cbf_slots f"
  by (simp add: cbf_slots_def fun_eq_iff)

lemma count_slots_le: "count_list (cbf_slots f r) p \<le> numHashes f"
  using count_le_length[of "cbf_slots f r" p] by (simp add: cbf_slots_def)

lemma cbf_entries_bound: "finite A \<Longrightarrow> (\<Sum>r\<in>A. count_list (cbf_slots f r) p) \<le> numHashes f * card A"
  using sum_bounded_above[of A "\<lambda>r. count_list (cbf_slots f r) p" "numHashes f"] count_slots_le
  by (simp add: mult.commute)

interpretation cbf: member_filter cbf_query cbf_add cbf_del cbf_rep cbf_room
proof
  fix f A r
  assume rep: "cbf_rep f A"
  then have n: "0 < cbf_numEntries f" and fin: "finite A" and b: "numHashes f * card A < u32_size"
    and e: "\<And>p. cbf_entries f p = (\<Sum>r\<in>A. count_list (cbf_slots f r) p)"
    by (auto simp: cbf_rep_def)
  have slots: "map (cbf_slot (cbf_numEntries f) (rqHash (word_of_nat r))) [0..<numHashes f] = cbf_slots f r"
    by (simp add: cbf_slots_def)
  show "\<exists>b. cbf_query f r = Inr b" by (simp add: cbf_query_def cbf_query_loop_eq[OF n])
  {
    assume r: "r \<in> A"
    have le: "count_list (cbf_slots f r) p \<le> cbf_entries f p" for p
      unfolding e by (rule member_le_sum) (use fin r in auto)
    have "cbf_entries f p \<noteq> 0" if "p \<in> set (cbf_slots f r)" for p
      using le[of p] that by (metis count_notin le_zero_eq count_list_0_iff)
    then show "cbf_query f r = Inr True"
      by (simp add: cbf_query_def cbf_query_loop_eq[OF n] cbf_slots_def)
    have lt: "cbf_entries f p < u32_size" for p
      unfolding e using cbf_entries_bound[OF fin, of f p] b by linarith
    let ?f = "f\<lparr>cbf_entries := (\<lambda>p. cbf_entries f p - count_list (cbf_slots f r) p)\<rparr>"
    have "cbf_del f r = Inr ?f"
      using cbf_del_loop_eq[OF n, of "rqHash (word_of_nat r)" "[0..<numHashes f]"] le lt
      unfolding cbf_del_def slots by blast
    moreover have "cbf_rep ?f (A - {r})"
      using n fin b e r by (auto simp: cbf_rep_def sum.remove[OF fin r] elim: le_less_trans[rotated])
    ultimately show "\<exists>f'. cbf_del f r = Inr f' \<and> cbf_rep f' (A - {r}) \<and> cbf_room f' = cbf_room f"
      by (auto simp: cbf_room_def)
  }
  assume r: "r \<notin> A" and room: "card A < cbf_room f"
  have b': "numHashes f * card (insert r A) < u32_size"
  proof -
    have "card A + 1 \<le> (u32_size - 1) div numHashes f" using room by (simp add: cbf_room_def)
    then have "(card A + 1) * numHashes f \<le> u32_size - 1"
      by (metis div_times_less_eq_dividend mult_le_mono1 order_trans)
    then show ?thesis using fin r by (simp add: mult.commute)
  qed
  have lt: "cbf_entries f p + count_list (cbf_slots f r) p < u32_size" for p
    using cbf_entries_bound[of "insert r A" f p] b' fin r e[of p] by simp
  let ?f = "f\<lparr>cbf_entries := (\<lambda>p. cbf_entries f p + count_list (cbf_slots f r) p)\<rparr>"
  have "cbf_add f r = Inr ?f"
    using cbf_add_loop_eq[OF n, of "rqHash (word_of_nat r)" "[0..<numHashes f]"] lt
    unfolding cbf_add_def slots by blast
  moreover have "cbf_rep ?f (insert r A)"
    using n fin b' e r by (simp add: cbf_rep_def)
  ultimately show "\<exists>f'. cbf_add f r = Inr f' \<and> cbf_rep f' (insert r A) \<and> cbf_room f' = cbf_room f"
    by (auto simp: cbf_room_def)
qed

section \<open>Properties\<close>

lemma cbf_new_rep: "0 < n \<Longrightarrow> cbf_rep (cbf_new junk n mc k) {}"
  by (simp add: cbf_rep_def cbf_new_def)

text \<open>
  C28. The counting Bloom filter has no false negatives: after any sequence of insertions and
  removals of members that keeps at most \<open>(2^32 - 1) div numHashes\<close> rows in it, every operation
  has returned and every row still in the filter is found.
\<close>

theorem cbf_no_false_negatives:
  assumes "0 < n" and "ops_proper ((u32_size - 1) div k) {} ops"
  shows "\<exists>f. filter_run cbf_add cbf_del (cbf_new junk n mc k) ops = Inr f \<and>
    (\<forall>r\<in>ops_members {} ops. cbf_query f r = Inr True)"
proof -
  have "cbf_room (cbf_new junk n mc k) = (u32_size - 1) div k" by (simp add: cbf_room_def cbf_new_def)
  then show ?thesis
    using cbf.filter_run_rep[OF cbf_new_rep[OF assms(1)]] assms(2) cbf.query_member by metis
qed

definition cbf_example :: cbf where
  "cbf_example = cbf_new \<lparr>numHashes = 0, maxCount = 0, cbf_numEntries = 0, cbf_entries = (\<lambda>_. 9),
      s_truePositives = 0, s_falsePositives = 0, s_trueNegatives = 0\<rparr> 16 3 2"

theorem cbf_no_false_negatives_witness:
  "\<exists>f. filter_run cbf_add cbf_del cbf_example [Add_Row 7, Add_Row 9, Del_Row 7] = Inr f \<and>
    cbf_query f 9 = Inr True"
proof -
  have p: "ops_proper ((u32_size - 1) div 2) {} [Add_Row 7, Add_Row 9, Del_Row 7]" by simp
  have m: "9 \<in> ops_members {} [Add_Row 7, Add_Row 9, Del_Row 7]" by simp
  show ?thesis
    using cbf_no_false_negatives[OF _ p, of 16] m unfolding cbf_example_def by (metis zero_less_numeral)
qed

end
