(* ===== verification/Func_Cache.thy ===== *)
theory Func_Cache
  imports RH_Prelude
begin

text \<open>
  \<open>class Functional_Cache\<close> of \<open>mem/rowhammer_mitigation.hh\<close> and \<open>.cc\<close>: the set-associative cache
  of row mappings that the quarantine consults, with re-reference counters (RRIP) for replacement.
  One definition per method; a set of the cache is the list of its ways.
  The lemmas show that the methods keep the cache well formed, that the victim search always
  finds a way (the four rounds are enough because counters never exceed 3), which way it is, and
  that filling and invalidating a block makes it found and not found.
\<close>

section \<open>State\<close>

record cache_block =
  cb_tag :: nat
  cb_valid :: bool
  cb_dirty :: bool
  cb_onlyOneRowRemapped :: bool
  cb_rrip :: nat

record func_cache =
  m_blk_offset :: nat
  m_cache :: "nat \<Rightarrow> cache_block list"
  fc_lookups :: nat
  fc_hits :: nat
  fc_fills :: nat
  fc_invalidations :: nat
  fc_evictions :: nat
  m_sets :: nat
  m_ways :: nat
  partial_lookup_factor :: nat

definition zero_block :: cache_block where
  "zero_block = \<lparr>cb_tag = 0, cb_valid = False, cb_dirty = False, cb_onlyOneRowRemapped = False, cb_rrip = 0\<rparr>"

section \<open>Methods\<close>

text \<open>The constructor leaves \<open>partial_lookup_factor\<close> to its caller.\<close>

definition fc_new :: "nat \<Rightarrow> nat \<Rightarrow> nat \<Rightarrow> func_cache" where
  "fc_new junk sets ways =
     \<lparr>m_blk_offset = 5, m_cache = (\<lambda>_. replicate ways zero_block), fc_lookups = 0, fc_hits = 0,
      fc_fills = 0, fc_invalidations = 0, fc_evictions = 0, m_sets = sets, m_ways = ways,
      partial_lookup_factor = junk\<rparr>"

definition fc_set :: "func_cache \<Rightarrow> nat \<Rightarrow> nat" where
  "fc_set c a = a div 2 ^ m_blk_offset c mod m_sets c"

definition fc_row :: "func_cache \<Rightarrow> nat \<Rightarrow> cache_block list" where
  "fc_row c a = m_cache c (fc_set c a)"

text \<open>Replace one block of the set of an address.\<close>

definition fc_put :: "func_cache \<Rightarrow> nat \<Rightarrow> nat \<Rightarrow> cache_block \<Rightarrow> func_cache" where
  "fc_put c a way b = c\<lparr>m_cache := (m_cache c)(fc_set c a := (fc_row c a)[way := b])\<rparr>"

text \<open>The loop over the ways of a set: the first match, or \<open>m_ways\<close>.\<close>

definition fc_find :: "func_cache \<Rightarrow> nat \<Rightarrow> (cache_block \<Rightarrow> bool) \<Rightarrow> nat" where
  "fc_find c a P = (case find (\<lambda>way. P (fc_row c a ! way)) [0..<m_ways c] of
     None \<Rightarrow> m_ways c | Some way \<Rightarrow> way)"

definition fc_Lookup :: "func_cache \<Rightarrow> nat \<Rightarrow> bool \<Rightarrow> (nat \<times> func_cache) res" where
  "fc_Lookup c a update =
     rnonzero (m_sets c)
      (let blk_way = fc_find c a (\<lambda>b. cb_valid b \<and> cb_tag b = a) in
       if update then
         (let c1 = c\<lparr>fc_lookups := fc_lookups c + 1\<rparr>
          in if blk_way < m_ways c
             then Inr (blk_way, fc_put (c1\<lparr>fc_hits := fc_hits c1 + 1\<rparr>) a blk_way
                                  ((fc_row c a ! blk_way)\<lparr>cb_rrip := 3\<rparr>))
             else Inr (blk_way, c1))
       else Inr (blk_way, c))"

definition fc_PartialLookup :: "func_cache \<Rightarrow> nat \<Rightarrow> (nat \<times> func_cache) res" where
  "fc_PartialLookup c a =
     rnonzero (m_sets c) (rnonzero (partial_lookup_factor c)
      (let blk_way = fc_find c a (\<lambda>b. cb_valid b \<and>
             cb_tag b div partial_lookup_factor c = a div partial_lookup_factor c)
       in Inr (blk_way, if blk_way < m_ways c
                        then fc_put c a blk_way ((fc_row c a ! blk_way)\<lparr>cb_rrip := 3\<rparr>) else c)))"

definition fc_Fill :: "func_cache \<Rightarrow> nat \<Rightarrow> nat \<Rightarrow> func_cache res" where
  "fc_Fill c a blk_way =
     rnonzero (m_sets c) (rindex (blk_way < m_ways c)
      (rassert (\<not> cb_valid (fc_row c a ! blk_way))
        (Inr ((fc_put c a blk_way \<lparr>cb_tag = a, cb_valid = True, cb_dirty = False,
                 cb_onlyOneRowRemapped = True, cb_rrip = 1\<rparr>)\<lparr>fc_fills := fc_fills c + 1\<rparr>))))"

definition fc_Invalidate :: "func_cache \<Rightarrow> nat \<Rightarrow> nat \<Rightarrow> func_cache res" where
  "fc_Invalidate c a blk_way =
     rnonzero (m_sets c) (rindex (blk_way < m_ways c)
      (if \<not> cb_valid (fc_row c a ! blk_way) then Inr c
       else Inr ((fc_put c a blk_way zero_block)\<lparr>fc_invalidations := fc_invalidations c + 1\<rparr>)))"

text \<open>At most four rounds: look for a way with counter 0, else decrement every counter.\<close>

fun fc_victim_rounds :: "nat \<Rightarrow> cache_block list \<Rightarrow> nat option \<times> cache_block list" where
  "fc_victim_rounds 0 bs = (None, bs)"
| "fc_victim_rounds (Suc loop_count) bs =
     (case find (\<lambda>way. cb_rrip (bs ! way) = 0) [0..<length bs] of
        Some way \<Rightarrow> (Some way, bs)
      | None \<Rightarrow> fc_victim_rounds loop_count (map (\<lambda>b. b\<lparr>cb_rrip := dec32 (cb_rrip b)\<rparr>) bs))"

definition fc_Find_Victim :: "func_cache \<Rightarrow> nat \<Rightarrow> (nat \<times> func_cache) res" where
  "fc_Find_Victim c a =
     rnonzero (m_sets c)
      (let victim = fc_find c a (\<lambda>b. \<not> cb_valid b) in
       if victim < m_ways c then Inr (victim, c)
       else (let r = fc_victim_rounds 4 (fc_row c a);
                 c1 = c\<lparr>fc_evictions := fc_evictions c + 1,
                        m_cache := (m_cache c)(fc_set c a := snd r)\<rparr>
             in case fst r of
                  Some way \<Rightarrow> rassert (way < m_ways c) (Inr (way, c1))
                | None \<Rightarrow> Inl Assert_Fail))"

definition fc_Is_Block_Valid :: "func_cache \<Rightarrow> nat \<Rightarrow> nat \<Rightarrow> bool res" where
  "fc_Is_Block_Valid c a blk_way =
     rnonzero (m_sets c) (rindex (blk_way < m_ways c) (Inr (cb_valid (fc_row c a ! blk_way))))"

definition fc_Get_Block_Addr :: "func_cache \<Rightarrow> nat \<Rightarrow> nat \<Rightarrow> nat res" where
  "fc_Get_Block_Addr c a blk_way =
     rnonzero (m_sets c) (rindex (blk_way < m_ways c)
      (rassert (cb_valid (fc_row c a ! blk_way)) (Inr (cb_tag (fc_row c a ! blk_way)))))"

definition fc_Get_Block_Way :: "func_cache \<Rightarrow> nat \<Rightarrow> nat res" where
  "fc_Get_Block_Way c a =
     rnonzero (m_sets c)
      (let blk_way = fc_find c a (\<lambda>b. cb_valid b \<and> cb_tag b = a)
       in rassert (blk_way < m_ways c) (Inr blk_way))"

definition fc_SetORRBit :: "func_cache \<Rightarrow> nat \<Rightarrow> bool \<Rightarrow> func_cache res" where
  "fc_SetORRBit c a bitvalue =
     rnonzero (m_sets c) (rnonzero (partial_lookup_factor c)
      (Inr (c\<lparr>m_cache := (m_cache c)(fc_set c a := map (\<lambda>b.
         if cb_valid b \<and> cb_tag b div partial_lookup_factor c = a div partial_lookup_factor c
         then b\<lparr>cb_onlyOneRowRemapped := bitvalue\<rparr> else b) (fc_row c a))\<rparr>)))"

definition fc_QueryORRBit :: "func_cache \<Rightarrow> nat \<Rightarrow> nat \<Rightarrow> bool res" where
  "fc_QueryORRBit c a blk_way =
     rnonzero (m_sets c) (rindex (blk_way < m_ways c)
      (rassert (cb_valid (fc_row c a ! blk_way)) (Inr (cb_onlyOneRowRemapped (fc_row c a ! blk_way)))))"

definition fc_SetDirtyBit :: "func_cache \<Rightarrow> nat \<Rightarrow> nat \<Rightarrow> func_cache res" where
  "fc_SetDirtyBit c a blk_way =
     rnonzero (m_sets c) (rindex (blk_way < m_ways c)
      (rassert (cb_valid (fc_row c a ! blk_way))
        (Inr (fc_put c a blk_way ((fc_row c a ! blk_way)\<lparr>cb_dirty := True\<rparr>)))))"

definition fc_QueryDirtyBit :: "func_cache \<Rightarrow> nat \<Rightarrow> nat \<Rightarrow> bool res" where
  "fc_QueryDirtyBit c a blk_way =
     rnonzero (m_sets c) (rindex (blk_way < m_ways c)
      (rassert (cb_valid (fc_row c a ! blk_way)) (Inr (cb_dirty (fc_row c a ! blk_way)))))"

section \<open>Invariant\<close>

text \<open>
  Every set has all its ways, counters are at most 3, and a valid block stands in the set of its
  tag, once.
\<close>

definition fc_wf :: "func_cache \<Rightarrow> bool" where
  "fc_wf c \<longleftrightarrow> 0 < m_sets c \<and> 0 < m_ways c \<and> 0 < partial_lookup_factor c \<and>
     (\<forall>s<m_sets c. length (m_cache c s) = m_ways c \<and>
        (\<forall>w<m_ways c. cb_rrip (m_cache c s ! w) \<le> 3) \<and>
        (\<forall>w<m_ways c. cb_valid (m_cache c s ! w) \<longrightarrow> fc_set c (cb_tag (m_cache c s ! w)) = s) \<and>
        (\<forall>w<m_ways c. \<forall>w'<m_ways c. cb_valid (m_cache c s ! w) \<longrightarrow> cb_valid (m_cache c s ! w') \<longrightarrow>
           cb_tag (m_cache c s ! w) = cb_tag (m_cache c s ! w') \<longrightarrow> w = w'))"

text \<open>What no method changes.\<close>

definition fc_geom :: "func_cache \<Rightarrow> nat \<times> nat \<times> nat \<times> nat" where
  "fc_geom c = (m_sets c, m_ways c, m_blk_offset c, partial_lookup_factor c)"

text \<open>The addresses that hit.\<close>

definition fc_cached :: "func_cache \<Rightarrow> nat set" where
  "fc_cached c = {a. \<exists>w<m_ways c. cb_valid (fc_row c a ! w) \<and> cb_tag (fc_row c a ! w) = a}"

section \<open>Lemmas\<close>

lemma fc_set_stats [simp]:
  "fc_set (c\<lparr>fc_lookups := n\<rparr>) = fc_set c" "fc_set (c\<lparr>fc_hits := n\<rparr>) = fc_set c"
  "fc_set (c\<lparr>fc_fills := n\<rparr>) = fc_set c" "fc_set (c\<lparr>fc_invalidations := n\<rparr>) = fc_set c"
  "fc_set (c\<lparr>fc_evictions := n\<rparr>) = fc_set c" "fc_set (c\<lparr>m_cache := m\<rparr>) = fc_set c"
  by (simp_all add: fc_set_def fun_eq_iff)

lemma fc_row_stats [simp]:
  "fc_row (c\<lparr>fc_lookups := n\<rparr>) = fc_row c" "fc_row (c\<lparr>fc_hits := n\<rparr>) = fc_row c"
  "fc_row (c\<lparr>fc_fills := n\<rparr>) = fc_row c" "fc_row (c\<lparr>fc_invalidations := n\<rparr>) = fc_row c"
  "fc_row (c\<lparr>fc_evictions := n\<rparr>) = fc_row c"
  by (simp_all add: fc_row_def fun_eq_iff)

lemma fc_wf_stats [simp]:
  "fc_wf (c\<lparr>fc_lookups := n\<rparr>) = fc_wf c" "fc_wf (c\<lparr>fc_hits := n\<rparr>) = fc_wf c"
  "fc_wf (c\<lparr>fc_fills := n\<rparr>) = fc_wf c" "fc_wf (c\<lparr>fc_invalidations := n\<rparr>) = fc_wf c"
  "fc_wf (c\<lparr>fc_evictions := n\<rparr>) = fc_wf c"
  by (simp_all add: fc_wf_def)

lemma fc_cached_stats [simp]:
  "fc_cached (c\<lparr>fc_lookups := n\<rparr>) = fc_cached c" "fc_cached (c\<lparr>fc_hits := n\<rparr>) = fc_cached c"
  "fc_cached (c\<lparr>fc_fills := n\<rparr>) = fc_cached c" "fc_cached (c\<lparr>fc_invalidations := n\<rparr>) = fc_cached c"
  "fc_cached (c\<lparr>fc_evictions := n\<rparr>) = fc_cached c"
  by (simp_all add: fc_cached_def)

lemma fc_put_simps [simp]:
  "m_sets (fc_put c a w b) = m_sets c" "m_ways (fc_put c a w b) = m_ways c"
  "partial_lookup_factor (fc_put c a w b) = partial_lookup_factor c" "fc_set (fc_put c a w b) = fc_set c"
  by (simp_all add: fc_put_def)

lemma fc_geom_simps [simp]:
  "fc_geom (fc_put c a w b) = fc_geom c" "fc_geom (c\<lparr>fc_lookups := n\<rparr>) = fc_geom c"
  "fc_geom (c\<lparr>fc_hits := n\<rparr>) = fc_geom c" "fc_geom (c\<lparr>fc_fills := n\<rparr>) = fc_geom c"
  "fc_geom (c\<lparr>fc_invalidations := n\<rparr>) = fc_geom c" "fc_geom (c\<lparr>fc_evictions := n\<rparr>) = fc_geom c"
  "fc_geom (c\<lparr>m_cache := m\<rparr>) = fc_geom c"
  by (simp_all add: fc_geom_def fc_put_def)

lemma fc_geomD:
  assumes "fc_geom c' = fc_geom c"
  shows "m_sets c' = m_sets c" "m_ways c' = m_ways c" "m_blk_offset c' = m_blk_offset c"
    "partial_lookup_factor c' = partial_lookup_factor c" "fc_set c' = fc_set c"
  using assms by (simp_all add: fc_geom_def fc_set_def fun_eq_iff)

lemma fc_wfD:
  assumes "fc_wf c"
  shows "0 < m_sets c" "0 < m_ways c" "0 < partial_lookup_factor c" "fc_set c a < m_sets c"
    and "length (fc_row c a) = m_ways c"
    and "w < m_ways c \<Longrightarrow> cb_rrip (fc_row c a ! w) \<le> 3"
    and "w < m_ways c \<Longrightarrow> cb_valid (fc_row c a ! w) \<Longrightarrow> fc_set c (cb_tag (fc_row c a ! w)) = fc_set c a"
    and "w < m_ways c \<Longrightarrow> w' < m_ways c \<Longrightarrow> cb_valid (fc_row c a ! w) \<Longrightarrow> cb_valid (fc_row c a ! w') \<Longrightarrow>
      cb_tag (fc_row c a ! w) = cb_tag (fc_row c a ! w') \<Longrightarrow> w = w'"
proof -
  show s: "0 < m_sets c" "0 < m_ways c" "0 < partial_lookup_factor c" using assms by (simp_all add: fc_wf_def)
  show l: "fc_set c a < m_sets c" using s(1) by (simp add: fc_set_def)
  show "length (fc_row c a) = m_ways c"
    and "w < m_ways c \<Longrightarrow> cb_rrip (fc_row c a ! w) \<le> 3"
    and "w < m_ways c \<Longrightarrow> cb_valid (fc_row c a ! w) \<Longrightarrow> fc_set c (cb_tag (fc_row c a ! w)) = fc_set c a"
    and "w < m_ways c \<Longrightarrow> w' < m_ways c \<Longrightarrow> cb_valid (fc_row c a ! w) \<Longrightarrow> cb_valid (fc_row c a ! w') \<Longrightarrow>
      cb_tag (fc_row c a ! w) = cb_tag (fc_row c a ! w') \<Longrightarrow> w = w'"
    using assms l unfolding fc_wf_def fc_row_def by blast+
qed

lemma fc_row_put:
  "fc_row (fc_put c a w b) a' = (if fc_set c a' = fc_set c a then (fc_row c a')[w := b] else fc_row c a')"
  by (simp add: fc_put_def fc_row_def)

lemma fc_put_wf:
  assumes wf: "fc_wf c" and w: "w < m_ways c" and r: "cb_rrip b \<le> 3"
    and s: "cb_valid b \<Longrightarrow> fc_set c (cb_tag b) = fc_set c a"
    and u: "\<And>w'. cb_valid b \<Longrightarrow> w' < m_ways c \<Longrightarrow> w' \<noteq> w \<Longrightarrow> cb_valid (fc_row c a ! w') \<Longrightarrow>
      cb_tag (fc_row c a ! w') \<noteq> cb_tag b"
  shows "fc_wf (fc_put c a w b)"
proof -
  note f = fc_wfD[OF wf]
  have m: "m_cache (fc_put c a w b) s = (if s = fc_set c a then (fc_row c a)[w := b] else m_cache c s)" for s
    by (simp add: fc_put_def)
  have wf': "length (m_cache c s) = m_ways c \<and>
        (\<forall>w<m_ways c. cb_rrip (m_cache c s ! w) \<le> 3) \<and>
        (\<forall>w<m_ways c. cb_valid (m_cache c s ! w) \<longrightarrow> fc_set c (cb_tag (m_cache c s ! w)) = s) \<and>
        (\<forall>w<m_ways c. \<forall>w'<m_ways c. cb_valid (m_cache c s ! w) \<longrightarrow> cb_valid (m_cache c s ! w') \<longrightarrow>
           cb_tag (m_cache c s ! w) = cb_tag (m_cache c s ! w') \<longrightarrow> w = w')" if "s < m_sets c" for s
    using wf that by (simp add: fc_wf_def)
  show ?thesis
    unfolding fc_wf_def fc_put_simps
  proof (intro conjI allI impI f(1-3))
    fix s' assume s': "s' < m_sets c"
    show "length (m_cache (fc_put c a w b) s') = m_ways c" using wf'[OF s'] f(5) by (simp add: m)
    fix w1 assume w1: "w1 < m_ways c"
    show "cb_rrip (m_cache (fc_put c a w b) s' ! w1) \<le> 3"
      using wf'[OF s'] w1 r f(5,6) by (cases "w1 = w") (auto simp: m)
    {
      assume v: "cb_valid (m_cache (fc_put c a w b) s' ! w1)"
      then show "fc_set c (cb_tag (m_cache (fc_put c a w b) s' ! w1)) = s'"
        using wf'[OF s'] w1 s f(5) f(7)[of w1 a] by (cases "w1 = w") (auto simp: m split: if_splits)
      fix w2 assume w2: "w2 < m_ways c" "cb_valid (m_cache (fc_put c a w b) s' ! w2)"
        "cb_tag (m_cache (fc_put c a w b) s' ! w1) = cb_tag (m_cache (fc_put c a w b) s' ! w2)"
      show "w1 = w2"
      proof (cases "s' = fc_set c a")
        case False
        then show ?thesis using wf'[OF s'] w1 w2 v by (simp add: m)
      next
        case True
        have row: "m_cache (fc_put c a w b) s' = (fc_row c a)[w := b]" using True by (simp add: m)
        show ?thesis
          using v w1 w2 f(8)[OF w1 w2(1), of a] u[of w1] u[of w2] f(5) w
          unfolding row by (auto simp: nth_list_update split: if_splits)
      qed
    }
  qed
qed

lemma fc_put_cached:
  assumes wf: "fc_wf c" and w: "w < m_ways c" and s: "cb_valid b \<Longrightarrow> fc_set c (cb_tag b) = fc_set c a"
  shows "fc_cached (fc_put c a w b) =
    (fc_cached c - (if cb_valid (fc_row c a ! w) then {cb_tag (fc_row c a ! w)} else {})) \<union>
    (if cb_valid b then {cb_tag b} else {})"
proof -
  note f = fc_wfD[OF wf]
  have "x \<in> fc_cached (fc_put c a w b) \<longleftrightarrow> x \<in>
    (fc_cached c - (if cb_valid (fc_row c a ! w) then {cb_tag (fc_row c a ! w)} else {})) \<union>
    (if cb_valid b then {cb_tag b} else {})" for x
  proof (cases "fc_set c x = fc_set c a")
    case False
    then show ?thesis
      using s f(7)[OF w, of a] by (auto simp: fc_cached_def fc_row_put)
  next
    case True
    have row: "fc_row c x = fc_row c a" using True by (simp add: fc_row_def)
    have "x \<in> fc_cached (fc_put c a w b) \<longleftrightarrow>
        (\<exists>v<m_ways c. cb_valid ((fc_row c a)[w := b] ! v) \<and> cb_tag ((fc_row c a)[w := b] ! v) = x)"
      using True by (simp add: fc_cached_def fc_row_put row)
    also have "\<dots> \<longleftrightarrow> (cb_valid b \<and> cb_tag b = x) \<or>
        (\<exists>v<m_ways c. v \<noteq> w \<and> cb_valid (fc_row c a ! v) \<and> cb_tag (fc_row c a ! v) = x)"
      using w f(5)[of a] by (metis (no_types, lifting) nth_list_update_eq nth_list_update_neq)
    also have "(\<exists>v<m_ways c. v \<noteq> w \<and> cb_valid (fc_row c a ! v) \<and> cb_tag (fc_row c a ! v) = x) \<longleftrightarrow>
        x \<in> fc_cached c - (if cb_valid (fc_row c a ! w) then {cb_tag (fc_row c a ! w)} else {})"
      using w f(8)[of _ w a] by (auto simp: fc_cached_def row split: if_splits)
    finally show ?thesis by auto
  qed
  then show ?thesis by blast
qed

lemma fc_find_eq:
  "fc_find c a P < m_ways c \<longleftrightarrow> (\<exists>w<m_ways c. P (fc_row c a ! w))"
  "fc_find c a P \<le> m_ways c"
  "fc_find c a P < m_ways c \<Longrightarrow> P (fc_row c a ! fc_find c a P)"
  "fc_find c a P < m_ways c \<Longrightarrow> w < fc_find c a P \<Longrightarrow> \<not> P (fc_row c a ! w)"
proof -
  have "fc_find c a P = m_ways c \<and> (\<forall>w<m_ways c. \<not> P (fc_row c a ! w)) \<or>
    fc_find c a P < m_ways c \<and> P (fc_row c a ! fc_find c a P) \<and> (\<forall>w<fc_find c a P. \<not> P (fc_row c a ! w))"
  proof (cases "find (\<lambda>way. P (fc_row c a ! way)) [0..<m_ways c]")
    case None
    then have "\<forall>w<m_ways c. \<not> P (fc_row c a ! w)" by (auto simp: find_None_iff)
    then show ?thesis using None by (simp add: fc_find_def)
  next
    case (Some i)
    then have "i < m_ways c" "P (fc_row c a ! i)" "\<forall>w<i. \<not> P (fc_row c a ! w)"
      by (auto simp: find_Some_iff)
    then show ?thesis using Some by (simp add: fc_find_def)
  qed
  then show "fc_find c a P < m_ways c \<longleftrightarrow> (\<exists>w<m_ways c. P (fc_row c a ! w))"
    and "fc_find c a P \<le> m_ways c"
    and "fc_find c a P < m_ways c \<Longrightarrow> P (fc_row c a ! fc_find c a P)"
    and "fc_find c a P < m_ways c \<Longrightarrow> w < fc_find c a P \<Longrightarrow> \<not> P (fc_row c a ! w)"
    by fastforce+
qed

lemma fc_hit_iff:
  "fc_find c a (\<lambda>b. cb_valid b \<and> cb_tag b = a) < m_ways c \<longleftrightarrow> a \<in> fc_cached c"
  by (simp add: fc_find_eq fc_cached_def)

lemma fc_touch:
  assumes wf: "fc_wf c" and w: "w < m_ways c"
    and b: "cb_valid b = cb_valid (fc_row c a ! w)" "cb_tag b = cb_tag (fc_row c a ! w)" "cb_rrip b \<le> 3"
  shows "fc_wf (fc_put c a w b)" and "fc_cached (fc_put c a w b) = fc_cached c"
proof -
  note f = fc_wfD[OF wf]
  show "fc_wf (fc_put c a w b)"
    by (rule fc_put_wf[OF wf w b(3)]) (use f(7)[OF w, of a] f(8)[OF _ w, of _ a] b in auto)
  have "cb_valid b \<Longrightarrow> cb_tag b \<in> fc_cached c"
    using w b f(7)[OF w, of a] by (auto simp: fc_cached_def fc_row_def)
  then show "fc_cached (fc_put c a w b) = fc_cached c"
    using fc_put_cached[OF wf w, of b a] f(7)[OF w, of a] b by auto
qed

section \<open>Methods\<close>

lemma fc_Lookup_ok:
  assumes "fc_wf c"
  obtains w c' where "fc_Lookup c a u = Inr (w, c')" and "w < m_ways c \<longleftrightarrow> a \<in> fc_cached c" and "w \<le> m_ways c"
    and "fc_wf c'" and "fc_cached c' = fc_cached c" and "fc_geom c' = fc_geom c"
    and "w < m_ways c \<Longrightarrow> cb_valid (fc_row c' a ! w) \<and> cb_tag (fc_row c' a ! w) = a"
proof -
  let ?w = "fc_find c a (\<lambda>b. cb_valid b \<and> cb_tag b = a)"
  note f = fc_wfD[OF assms] and g = fc_find_eq[of c a "\<lambda>b. cb_valid b \<and> cb_tag b = a"]
  let ?b = "(fc_row c a ! ?w)\<lparr>cb_rrip := 3\<rparr>"
  show ?thesis
  proof (cases "u \<and> ?w < m_ways c")
    case True
    then have w: "?w < m_ways c" by simp
    have p: "fc_put (c\<lparr>fc_lookups := x, fc_hits := y\<rparr>) a ?w ?b = (fc_put c a ?w ?b)\<lparr>fc_lookups := x, fc_hits := y\<rparr>" for x y
      by (simp add: fc_put_def)
    have t: "fc_wf (fc_put c a ?w ?b)" "fc_cached (fc_put c a ?w ?b) = fc_cached c"
      by (rule fc_touch[OF assms w]; simp)+
    have "fc_Lookup c a u = Inr (?w, (fc_put c a ?w ?b)\<lparr>fc_lookups := fc_lookups c + 1, fc_hits := fc_hits c + 1\<rparr>)"
      using True f(1) by (simp add: fc_Lookup_def Let_def p)
    from that[OF this] show ?thesis
      using t w g(3) fc_hit_iff f(5) by (simp add: fc_row_put)
  next
    case False
    let ?c' = "if u then c\<lparr>fc_lookups := fc_lookups c + 1\<rparr> else c"
    have "fc_Lookup c a u = Inr (?w, ?c')"
      using False f(1) by (auto simp: fc_Lookup_def Let_def)
    from that[OF this] show ?thesis
      using assms fc_hit_iff g(2,3) by simp
  qed
qed

lemma fc_PartialLookup_ok:
  assumes "fc_wf c"
  obtains w c' where "fc_PartialLookup c a = Inr (w, c')"
    and "w < m_ways c \<longleftrightarrow> (\<exists>t\<in>fc_cached c. fc_set c t = fc_set c a \<and>
      t div partial_lookup_factor c = a div partial_lookup_factor c)"
    and "fc_wf c'" and "fc_cached c' = fc_cached c" and "fc_geom c' = fc_geom c"
proof -
  let ?P = "\<lambda>b. cb_valid b \<and> cb_tag b div partial_lookup_factor c = a div partial_lookup_factor c"
  let ?w = "fc_find c a ?P"
  let ?c' = "if ?w < m_ways c then fc_put c a ?w ((fc_row c a ! ?w)\<lparr>cb_rrip := 3\<rparr>) else c"
  note f = fc_wfD[OF assms]
  have "fc_PartialLookup c a = Inr (?w, ?c')"
    using f(1,3) by (simp add: fc_PartialLookup_def Let_def)
  moreover have "?w < m_ways c \<longleftrightarrow> (\<exists>t\<in>fc_cached c. fc_set c t = fc_set c a \<and>
      t div partial_lookup_factor c = a div partial_lookup_factor c)"
  proof
    assume w: "?w < m_ways c"
    let ?t = "cb_tag (fc_row c a ! ?w)"
    have p: "?P (fc_row c a ! ?w)" by (rule fc_find_eq(3)[OF w])
    then have "fc_set c ?t = fc_set c a" using f(7)[OF w] by blast
    then have "?t \<in> fc_cached c" using w p by (auto simp: fc_cached_def fc_row_def)
    then show "\<exists>t\<in>fc_cached c. fc_set c t = fc_set c a \<and>
      t div partial_lookup_factor c = a div partial_lookup_factor c"
      using p \<open>fc_set c ?t = fc_set c a\<close> by blast
  qed (auto simp: fc_find_eq(1) fc_cached_def fc_row_def)
  ultimately show ?thesis using that assms fc_touch[OF assms] by simp
qed

lemma fc_SetDirtyBit_ok:
  assumes "fc_wf c" and "w < m_ways c" and "cb_valid (fc_row c a ! w)"
  obtains c' where "fc_SetDirtyBit c a w = Inr c'"
    and "fc_wf c'" and "fc_cached c' = fc_cached c" and "fc_geom c' = fc_geom c"
  using that[of "fc_put c a w ((fc_row c a ! w)\<lparr>cb_dirty := True\<rparr>)"] fc_touch[OF assms(1,2)]
    fc_wfD(1,6)[OF assms(1)] assms(2,3) by (simp add: fc_SetDirtyBit_def)

lemma fc_Fill_ok:
  assumes wf: "fc_wf c" and w: "w < m_ways c" and inv: "\<not> cb_valid (fc_row c a ! w)" and new: "a \<notin> fc_cached c"
  obtains c' where "fc_Fill c a w = Inr c'"
    and "fc_wf c'" and "fc_cached c' = insert a (fc_cached c)" and "fc_geom c' = fc_geom c"
    and "cb_valid (fc_row c' a ! w)"
proof -
  let ?b = "\<lparr>cb_tag = a, cb_valid = True, cb_dirty = False, cb_onlyOneRowRemapped = True, cb_rrip = 1\<rparr>"
  note f = fc_wfD[OF wf]
  have "fc_wf (fc_put c a w ?b)"
    by (rule fc_put_wf[OF wf w]) (use new in \<open>auto simp: fc_cached_def\<close>)
  moreover have "fc_cached (fc_put c a w ?b) = insert a (fc_cached c)"
    using fc_put_cached[OF wf w, of ?b a] inv by simp
  moreover have "fc_Fill c a w = Inr ((fc_put c a w ?b)\<lparr>fc_fills := fc_fills c + 1\<rparr>)"
    using f(1) w inv by (simp add: fc_Fill_def)
  ultimately show ?thesis using that w f(5) by (simp add: fc_row_put)
qed

lemma fc_Invalidate_ok:
  assumes wf: "fc_wf c" and w: "w < m_ways c"
  obtains c' where "fc_Invalidate c a w = Inr c'" and "fc_wf c'"
    and "fc_cached c' = fc_cached c - (if cb_valid (fc_row c a ! w) then {cb_tag (fc_row c a ! w)} else {})"
    and "fc_geom c' = fc_geom c" and "\<not> cb_valid (fc_row c' a ! w)"
proof (cases "cb_valid (fc_row c a ! w)")
  case False
  then show ?thesis using that[of c] wf w fc_wfD(1)[OF wf] by (simp add: fc_Invalidate_def)
next
  case True
  note f = fc_wfD[OF wf]
  have "fc_wf (fc_put c a w zero_block)" by (rule fc_put_wf[OF wf w]) (simp_all add: zero_block_def)
  moreover have "fc_cached (fc_put c a w zero_block) = fc_cached c - {cb_tag (fc_row c a ! w)}"
    using fc_put_cached[OF wf w, of zero_block a] True by (simp add: zero_block_def)
  moreover have "fc_Invalidate c a w = Inr ((fc_put c a w zero_block)\<lparr>fc_invalidations := fc_invalidations c + 1\<rparr>)"
    using f(1) w True by (simp add: fc_Invalidate_def)
  ultimately show ?thesis using that True w f(5) by (simp add: fc_row_put zero_block_def)
qed

lemma fc_victim_rounds_first_min:
  assumes "w < length bs" and "\<forall>v<length bs. cb_rrip (bs ! w) \<le> cb_rrip (bs ! v)"
    and "\<forall>v<w. cb_rrip (bs ! w) < cb_rrip (bs ! v)" and "cb_rrip (bs ! w) < k"
    and "\<forall>v<length bs. cb_rrip (bs ! v) < u32_size"
  shows "fc_victim_rounds k bs = (Some w, map (\<lambda>b. b\<lparr>cb_rrip := cb_rrip b - cb_rrip (bs ! w)\<rparr>) bs)"
  using assms
proof (induction "cb_rrip (bs ! w)" arbitrary: bs k)
  case 0
  then obtain k' where k: "k = Suc k'" by (cases k) auto
  have "find (\<lambda>way. cb_rrip (bs ! way) = 0) [0..<length bs] = Some w"
    using 0 by (auto simp: find_Some_iff intro!: exI[of _ w])
  then show ?case using 0(1) k by (simp add: map_idI)
next
  case (Suc m)
  then obtain k' where k: "k = Suc k'" by (cases k) auto
  let ?d = "map (\<lambda>b. b\<lparr>cb_rrip := dec32 (cb_rrip b)\<rparr>) bs"
  have pos: "0 < cb_rrip (bs ! v)" if "v < length bs" for v
    using Suc.prems(2) Suc.hyps(2) that by (metis less_le_trans zero_less_Suc)
  have d: "cb_rrip (?d ! v) = cb_rrip (bs ! v) - 1" if "v < length bs" for v
    using that pos[OF that] Suc.prems(5) by (simp add: dec32_pos)
  have w: "w < length bs" by (rule Suc.prems(1))
  have "find (\<lambda>way. cb_rrip (bs ! way) = 0) [0..<length bs] = None"
    using pos by (auto simp: find_None_iff)
  then have "fc_victim_rounds k bs = fc_victim_rounds k' ?d" by (simp add: k)
  also have "\<dots> = (Some w, map (\<lambda>b. b\<lparr>cb_rrip := cb_rrip b - cb_rrip (?d ! w)\<rparr>) ?d)"
  proof (rule Suc.hyps(1))
    show "m = cb_rrip (?d ! w)" using d[OF w] Suc.hyps(2) by simp
    show "\<forall>v<w. cb_rrip (?d ! w) < cb_rrip (?d ! v)"
    proof (intro allI impI)
      fix v assume "v < w"
      then have v: "v < length bs" "cb_rrip (bs ! w) < cb_rrip (bs ! v)" using Suc.prems(3) w by auto
      show "cb_rrip (?d ! w) < cb_rrip (?d ! v)"
        unfolding d[OF v(1)] d[OF w] using v(2) pos[OF w] by simp
    qed
  qed (use w d Suc.prems(2,4,5) k Suc.hyps(2) in \<open>auto simp: diff_le_mono less_imp_diff_less\<close>)
  also have "map (\<lambda>b. b\<lparr>cb_rrip := cb_rrip b - cb_rrip (?d ! w)\<rparr>) ?d =
      map (\<lambda>b. b\<lparr>cb_rrip := cb_rrip b - cb_rrip (bs ! w)\<rparr>) bs"
  proof (rule nth_equalityI)
    fix v assume "v < length (map (\<lambda>b. b\<lparr>cb_rrip := cb_rrip b - cb_rrip (?d ! w)\<rparr>) ?d)"
    then have v: "v < length bs" by simp
    then show "map (\<lambda>b. b\<lparr>cb_rrip := cb_rrip b - cb_rrip (?d ! w)\<rparr>) ?d ! v =
      map (\<lambda>b. b\<lparr>cb_rrip := cb_rrip b - cb_rrip (bs ! w)\<rparr>) bs ! v"
      using d[OF v] d[OF w] pos[OF v] pos[OF w] w by simp
  qed simp
  finally show ?case .
qed

lemma first_min_exists:
  fixes f :: "nat \<Rightarrow> nat"
  assumes "0 < n"
  obtains w where "w < n" and "\<forall>v<n. f w \<le> f v" and "\<forall>v<w. f w < f v"
proof -
  define m where "m = Min (f ` {..<n})"
  have "m \<in> f ` {..<n}" unfolding m_def by (rule Min_in) (use assms in auto)
  moreover have "\<forall>v<n. m \<le> f v" by (simp add: m_def)
  ultimately have m: "m \<in> f ` {..<n}" "\<forall>v<n. m \<le> f v" .
  define w where "w = (LEAST v. f v = m)"
  obtain v where v: "v < n" "f v = m" using m(1) by auto
  have w: "f w = m" "w \<le> v" unfolding w_def using v(2) by (auto intro: LeastI Least_le)
  have "\<forall>u<w. f u \<noteq> m" unfolding w_def using not_less_Least by blast
  then show ?thesis using that[of w] w v(1) m(2) by (metis le_less_trans less_trans le_neq_implies_less)
qed

lemma fc_wf_same:
  assumes wf: "fc_wf c" and eq: "m_ways c' = m_ways c" "m_sets c' = m_sets c" "fc_set c' = fc_set c"
      "partial_lookup_factor c' = partial_lookup_factor c"
    and len: "\<And>s. length (m_cache c' s) = length (m_cache c s)"
    and same: "\<And>s w. w < m_ways c \<Longrightarrow> s < m_sets c \<Longrightarrow>
      cb_valid (m_cache c' s ! w) = cb_valid (m_cache c s ! w) \<and>
      cb_tag (m_cache c' s ! w) = cb_tag (m_cache c s ! w) \<and> cb_rrip (m_cache c' s ! w) \<le> cb_rrip (m_cache c s ! w)"
  shows "fc_wf c'" and "fc_cached c' = fc_cached c"
proof -
  have w: "0 < m_sets c" "0 < m_ways c" "0 < partial_lookup_factor c"
    and ws: "\<And>s. s < m_sets c \<Longrightarrow> length (m_cache c s) = m_ways c \<and>
        (\<forall>w<m_ways c. cb_rrip (m_cache c s ! w) \<le> 3) \<and>
        (\<forall>w<m_ways c. cb_valid (m_cache c s ! w) \<longrightarrow> fc_set c (cb_tag (m_cache c s ! w)) = s) \<and>
        (\<forall>w<m_ways c. \<forall>w'<m_ways c. cb_valid (m_cache c s ! w) \<longrightarrow> cb_valid (m_cache c s ! w') \<longrightarrow>
           cb_tag (m_cache c s ! w) = cb_tag (m_cache c s ! w') \<longrightarrow> w = w')"
    using wf by (simp_all add: fc_wf_def)
  show "fc_wf c'"
    unfolding fc_wf_def eq
  proof (intro conjI allI impI w)
    fix s v assume s: "s < m_sets c"
    show "length (m_cache c' s) = m_ways c" using ws[OF s] len by simp
    assume v: "v < m_ways c"
    show "cb_rrip (m_cache c' s ! v) \<le> 3" using ws[OF s] same[OF v s] v by (meson order_trans)
    assume val: "cb_valid (m_cache c' s ! v)"
    show "fc_set c (cb_tag (m_cache c' s ! v)) = s" using ws[OF s] same[OF v s] v val by simp
    fix v' assume v': "v' < m_ways c" "cb_valid (m_cache c' s ! v')"
      "cb_tag (m_cache c' s ! v) = cb_tag (m_cache c' s ! v')"
    then show "v = v'" using ws[OF s] same[OF v s] same[OF v'(1) s] v val by simp
  qed
  show "fc_cached c' = fc_cached c"
    using same fc_wfD(4)[OF wf] by (auto simp: fc_cached_def fc_row_def eq)
qed

lemma fc_Find_Victim_ok:
  assumes wf: "fc_wf c"
  shows "\<exists>w c'. fc_Find_Victim c a = Inr (w, c') \<and> w < m_ways c \<and> fc_wf c' \<and> fc_cached c' = fc_cached c \<and>
    fc_geom c' = fc_geom c \<and>
    (cb_valid (fc_row c' a ! w) \<longleftrightarrow> (\<forall>v<m_ways c. cb_valid (fc_row c a ! v))) \<and>
    ((\<forall>v<m_ways c. cb_valid (fc_row c a ! v)) \<longrightarrow>
       (\<forall>v<m_ways c. cb_rrip (fc_row c a ! w) \<le> cb_rrip (fc_row c a ! v)) \<and>
       (\<forall>v<w. cb_rrip (fc_row c a ! w) < cb_rrip (fc_row c a ! v)))"
proof -
  note f = fc_wfD[OF wf] and g = fc_find_eq[of c a "\<lambda>b. \<not> cb_valid b"]
  let ?w = "fc_find c a (\<lambda>b. \<not> cb_valid b)"
  show ?thesis
  proof (cases "?w < m_ways c")
    case True
    then have "fc_Find_Victim c a = Inr (?w, c)" using f(1) by (simp add: fc_Find_Victim_def)
    then show ?thesis using True g(1,3) wf by auto
  next
    case False
    then have all: "\<forall>v<m_ways c. cb_valid (fc_row c a ! v)" using g(1) by blast
    obtain w where w: "w < m_ways c" "\<forall>v<m_ways c. cb_rrip (fc_row c a ! w) \<le> cb_rrip (fc_row c a ! v)"
      "\<forall>v<w. cb_rrip (fc_row c a ! w) < cb_rrip (fc_row c a ! v)"
      by (rule first_min_exists[OF f(2), of "\<lambda>v. cb_rrip (fc_row c a ! v)"])
    let ?m = "cb_rrip (fc_row c a ! w)"
    let ?row = "map (\<lambda>b. b\<lparr>cb_rrip := cb_rrip b - ?m\<rparr>) (fc_row c a)"
    let ?c' = "c\<lparr>fc_evictions := fc_evictions c + 1, m_cache := (m_cache c)(fc_set c a := ?row)\<rparr>"
    have "fc_victim_rounds 4 (fc_row c a) = (Some w, ?row)"
    proof (rule fc_victim_rounds_first_min)
      show "\<forall>v<length (fc_row c a). cb_rrip (fc_row c a ! v) < u32_size"
      proof (intro allI impI)
        fix v assume "v < length (fc_row c a)"
        then have "cb_rrip (fc_row c a ! v) \<le> 3" using f(5,6) by simp
        then show "cb_rrip (fc_row c a ! v) < u32_size" by simp
      qed
      show "cb_rrip (fc_row c a ! w) < 4" using f(6)[OF w(1), of a] by simp
    qed (use w f(5) in simp_all)
    then have run: "fc_Find_Victim c a = Inr (w, ?c')"
      using False f(1) w(1) by (simp add: fc_Find_Victim_def)
    have same: "cb_valid (m_cache ?c' s ! v) = cb_valid (m_cache c s ! v) \<and>
        cb_tag (m_cache ?c' s ! v) = cb_tag (m_cache c s ! v) \<and> cb_rrip (m_cache ?c' s ! v) \<le> cb_rrip (m_cache c s ! v)"
      if "v < m_ways c" for s v
      using that f(5)[of a] by (auto simp: fc_row_def)
    have len: "length (m_cache ?c' s) = length (m_cache c s)" for s by (simp add: fc_row_def)
    have fs: "fc_set ?c' = fc_set c" by (simp add: fc_set_def fun_eq_iff)
    have "fc_wf ?c'" "fc_cached ?c' = fc_cached c"
      by (rule fc_wf_same[OF wf _ _ fs _ len same]; simp)+
    moreover have "cb_valid (fc_row ?c' a ! w)" using all w(1) f(5)[of a] by (simp add: fc_row_def)
    ultimately show ?thesis using run w all by (intro exI[of _ w] exI[of _ ?c']) simp
  qed
qed

text \<open>
  The victim search always finds a way and never fails its \<open>assert\<close>: an invalid way if the set
  has one, else the first way with the smallest re-reference counter; the cached addresses stay.
\<close>

theorem fc_victim_found:
  assumes wf: "fc_wf c"
  shows "\<exists>w c'. fc_Find_Victim c a = Inr (w, c') \<and> w < m_ways c \<and> fc_wf c' \<and> fc_cached c' = fc_cached c \<and>
    fc_geom c' = fc_geom c \<and>
    (cb_valid (fc_row c' a ! w) \<longleftrightarrow> (\<forall>v<m_ways c. cb_valid (fc_row c a ! v))) \<and>
    ((\<forall>v<m_ways c. cb_valid (fc_row c a ! v)) \<longrightarrow>
       (\<forall>v<m_ways c. cb_rrip (fc_row c a ! w) \<le> cb_rrip (fc_row c a ! v)) \<and>
       (\<forall>v<w. cb_rrip (fc_row c a ! w) < cb_rrip (fc_row c a ! v)))"
  by (rule fc_Find_Victim_ok[OF wf])

lemma fc_new_wf:
  assumes "0 < sets" and "0 < ways" and "0 < plf"
  shows "fc_wf (fc_new plf sets ways)" and "fc_cached (fc_new plf sets ways) = {}"
  using assms by (auto simp: fc_wf_def fc_cached_def fc_row_def fc_new_def zero_block_def)

theorem fc_victim_found_witness:
  "\<exists>w c'. fc_Find_Victim (fc_new 4 2 3) 100 = Inr (w, c') \<and> w < 3 \<and> fc_wf c' \<and> \<not> cb_valid (fc_row c' 100 ! w)"
proof -
  have wf: "fc_wf (fc_new 4 2 3)" by (simp add: fc_new_wf)
  have nv: "\<not> (\<forall>v<m_ways (fc_new 4 2 3). cb_valid (fc_row (fc_new 4 2 3) 100 ! v))"
    by (auto simp: fc_new_def fc_row_def zero_block_def intro!: exI[of _ 0])
  have "m_ways (fc_new 4 2 3) = 3" by (simp add: fc_new_def)
  then show ?thesis using fc_victim_found[OF wf, of 100] nv by auto
qed

end
