(* ===== verification/Row_Quar.thy ===== *)
theory Row_Quar
  imports RH_Mitigation Misra_Gries Bloom_Filter Func_Cache
begin

text \<open>
  \<open>class Row_Quarantine\<close> (AQUA) of \<open>mem/rowhammer_mitigation.hh\<close> and \<open>.cc\<close>: the forward and
  reverse tables between rows and quarantine slots, the membership filter (a counting Bloom
  filter, or a bit vector of counters over groups of rows), the mapping cache, and the operations
  \<open>quarantineRow\<close>, \<open>removeRow\<close>, \<open>drainRow\<close>, \<open>addQCheckDelay\<close>, \<open>reset\<close> and \<open>access\<close>.
  The class has one table pair, for bank, rank and channel 0; the tables are members of the state.
  The lemmas show that the tables stay inverse to each other, that the filter has no false
  negatives and the cache holds quarantined rows only, and which rows an operation quarantines.
\<close>

section \<open>State\<close>

record qentry =
  qe_valid :: bool
  qe_value :: nat

text \<open>The first five members are declared in the base class, used by this class only.\<close>

record 'd rq = "'d rh_mitigation" +
  rq_filter :: "cbf option"
  rows_per_btv_bit :: nat
  bitvector :: "nat \<Rightarrow> nat"
  ORR_CBF :: "nat \<Rightarrow> nat"
  rq_cache :: "func_cache option"
  randRowID :: "nat \<Rightarrow> nat"
  row_To_QR_T :: "nat \<Rightarrow> qentry"
  QR_To_Row_T :: "nat \<Rightarrow> qentry"
  nextFreeQR_ID :: nat
  prevQRHead_ID :: nat
  QRTail_ID :: nat
  numQREntries :: nat

text \<open>The random relabelling of rows: \<open>rnd ii\<close> is the \<open>ii\<close>-th value of \<open>rand()\<close>.\<close>

definition rq_shuffle :: "nat \<Rightarrow> (nat \<Rightarrow> nat) \<Rightarrow> nat \<Rightarrow> nat" where
  "rq_shuffle n rnd = fold (\<lambda>ii f. f(ii := f (rnd ii mod n), rnd ii mod n := f ii)) [0..<n] id"

text \<open>
  The constructor; \<open>junk\<close> holds the members it does not initialise (the delays, the filter,
  the cache and \<open>rows_per_btv_bit\<close> are set by the controller afterwards).
\<close>

definition rq_new ::
    "'d rq \<Rightarrow> nat \<Rightarrow> nat \<Rightarrow> nat \<Rightarrow> nat \<Rightarrow> nat \<Rightarrow> nat \<Rightarrow> (nat \<Rightarrow> nat) \<Rightarrow> 'd rq" where
  "rq_new junk qrEntries rows thr banks ranks channels rnd =
     (let n = rows * banks * ranks * channels mod u32_size in
      junk\<lparr>numQREntries := qrEntries, rh_thr := thr, numRows := n, numBanks := 1, numRanks := 1,
           numChannels := 1, last_reset := 0,
           row_To_QR_T := (\<lambda>_. \<lparr>qe_valid = False, qe_value = 0\<rparr>),
           QR_To_Row_T := (\<lambda>_. \<lparr>qe_valid = False, qe_value = 0\<rparr>),
           nextFreeQR_ID := 0, prevQRHead_ID := 0, QRTail_ID := 0,
           randRowID := rq_shuffle n rnd,
           bitvector := (\<lambda>_. 0), numAccessesToRow := (\<lambda>_. 0), ORR_CBF := (\<lambda>_. 0),
           prev_drain_cache_miss_val := 0,
           rh_stats := (rh_stats junk)
             \<lparr>s_remapped_row_accessed := 0, s_move_to_qr := 0, s_move_within_qr := 0,
              s_move_to_qr_remove := 0, s_move_within_qr_remove := 0, s_drain_qr := 0,
              s_num_resets := 0, s_num_accesses := 0, s_btv_true_positives := 0,
              s_btv_false_positives := 0, s_btv_true_negatives := 0, s_cache_hit := 0,
              s_cache_partial_hit_orr_set := 0, s_cache_partial_hit_orr_unset := 0, s_cache_miss := 0,
              s_QR_CumulativeOccupancy := 0, s_numRowAccesses_RH := 0,
              s_numLogRowAccesses := (\<lambda>i. if i < 4 then 0 else s_numLogRowAccesses (rh_stats junk) i),
              s_btv_residency := (\<lambda>i. if i < 4 then 0 else s_btv_residency (rh_stats junk) i)\<rparr>\<rparr>)"

section \<open>Helpers\<close>

definition generateCBFID :: "'d rq \<Rightarrow> addr \<Rightarrow> nat \<Rightarrow> nat" where
  "generateCBFID s rowID bankID = (bankID + numBanks s * rowID) mod u32_size"

text \<open>The byte address decoded for the detector: \<open>(rowID, bankID)\<close>; it also counts the access.\<close>

definition decodeAddr :: "addr \<Rightarrow> 'd rq \<Rightarrow> (nat \<times> nat \<times> 'd rq) res" where
  "decodeAddr a s =
     (let rowAddr = a div 8192 mod u32_size in
      rindex (rowAddr < numRows s)
       (let s1 = s\<lparr>numAccessesToRow := (numAccessesToRow s)(rowAddr := inc32 (numAccessesToRow s rowAddr))\<rparr>;
            r = randRowID s1 rowAddr
        in rnonzero (numRows s1 div 16) (Inr (r div 16 mod (numRows s1 div 16), r mod 16, s1))))"

definition add_delay :: "tick \<Rightarrow> 'd rq \<Rightarrow> 'd rq" where
  "add_delay t s = s\<lparr>decision := (decision s)\<lparr>d_delay := d_delay (decision s) + t\<rparr>\<rparr>"

definition add_SRAM_delay :: "tick \<Rightarrow> 'd rq \<Rightarrow> 'd rq" where
  "add_SRAM_delay t s = s\<lparr>decision := (decision s)\<lparr>d_SRAM_delay := d_SRAM_delay (decision s) + t\<rparr>\<rparr>"

text \<open>The bit vector of a group size and counters.\<close>

definition btv_query :: "nat \<times> (nat \<Rightarrow> nat) \<Rightarrow> nat \<Rightarrow> bool res" where
  "btv_query b index = rnonzero (fst b) (Inr (snd b (index div fst b) \<noteq> 0))"

definition btv_add :: "nat \<times> (nat \<Rightarrow> nat) \<Rightarrow> nat \<Rightarrow> (nat \<times> (nat \<Rightarrow> nat)) res" where
  "btv_add b index = rnonzero (fst b)
     (Inr (fst b, (snd b)(index div fst b := inc32 (snd b (index div fst b)))))"

definition btv_del :: "nat \<times> (nat \<Rightarrow> nat) \<Rightarrow> nat \<Rightarrow> (nat \<times> (nat \<Rightarrow> nat)) res" where
  "btv_del b index = rnonzero (fst b) (rassert (snd b (index div fst b) \<noteq> 0)
     (Inr (fst b, (snd b)(index div fst b := dec32 (snd b (index div fst b))))))"

text \<open>\<open>(filter && filter->query(index)) || bitvector[index/rows_per_btv_bit]\<close>\<close>

definition maybe_quarantined :: "'d rq \<Rightarrow> nat \<Rightarrow> bool res" where
  "maybe_quarantined s index =
     rbind (case rq_filter s of None \<Rightarrow> Inr False | Some f \<Rightarrow> cbf_query f index)
       (\<lambda>b. if b then Inr True else btv_query (rows_per_btv_bit s, bitvector s) index)"

definition filter_insert :: "nat \<Rightarrow> 'd rq \<Rightarrow> 'd rq res" where
  "filter_insert index s =
     (case rq_filter s of
        Some f \<Rightarrow> rbind (cbf_add f index) (\<lambda>f1. Inr (s\<lparr>rq_filter := Some f1\<rparr>))
      | None \<Rightarrow> rbind (btv_add (rows_per_btv_bit s, bitvector s) index) (\<lambda>b.
                rbind (btv_add (rows_per_btv_bit s, ORR_CBF s) index) (\<lambda>orr.
                  Inr (s\<lparr>bitvector := snd b, ORR_CBF := snd orr\<rparr>))))"

definition filter_remove :: "nat \<Rightarrow> 'd rq \<Rightarrow> 'd rq res" where
  "filter_remove index s =
     (case rq_filter s of
        Some f \<Rightarrow> rbind (cbf_query f index) (\<lambda>b. rassert b
                   (rbind (cbf_del f index) (\<lambda>f1. Inr (s\<lparr>rq_filter := Some f1\<rparr>))))
      | None \<Rightarrow> rbind (btv_del (rows_per_btv_bit s, bitvector s) index) (\<lambda>b.
                  Inr (s\<lparr>bitvector := snd b\<rparr>)))"

definition count_evict :: "bool \<Rightarrow> 'd rq \<Rightarrow> 'd rq" where
  "count_evict isDirty s = s\<lparr>rh_stats :=
     (if isDirty then (rh_stats s)\<lparr>s_cache_dirty_evicts := s_cache_dirty_evicts (rh_stats s) + 1\<rparr>
      else (rh_stats s)\<lparr>s_cache_clean_evicts := s_cache_clean_evicts (rh_stats s) + 1\<rparr>)\<rparr>"

definition put_cache :: "func_cache \<Rightarrow> 'd rq \<Rightarrow> 'd rq" where
  "put_cache c s = s\<lparr>rq_cache := Some c\<rparr>"

text \<open>The results are whether the removed block was dirty, its address and the state.\<close>

definition removeRowFromCache :: "nat \<Rightarrow> func_cache \<Rightarrow> 'd rq \<Rightarrow> (bool \<times> addr \<times> 'd rq) res" where
  "removeRowFromCache index c s =
     rbind (fc_Lookup c index False) (\<lambda>(blk_way, c1).
       if blk_way < m_ways c1
       then rbind (fc_QueryDirtyBit c1 index blk_way) (\<lambda>isDirty.
            rbind (fc_Get_Block_Addr c1 index blk_way) (\<lambda>evicted.
            rbind (fc_Invalidate c1 index blk_way) (\<lambda>c2.
              Inr (isDirty, evicted, put_cache c2 (count_evict isDirty s)))))
       else Inr (False, 0, put_cache c1 s))"

definition insertRowInCache :: "nat \<Rightarrow> bool \<Rightarrow> func_cache \<Rightarrow> 'd rq \<Rightarrow> (bool \<times> addr \<times> 'd rq) res" where
  "insertRowInCache index setDirty c s =
     rbind (fc_Find_Victim c index) (\<lambda>(blk_way, c1).
     rbind (fc_Is_Block_Valid c1 index blk_way) (\<lambda>valid.
     rbind (if valid
            then rbind (fc_QueryDirtyBit c1 index blk_way) (\<lambda>isDirty.
                 rbind (fc_Get_Block_Addr c1 index blk_way) (\<lambda>evicted.
                   Inr (isDirty, evicted, count_evict isDirty s)))
            else Inr (False, 0, s)) (\<lambda>(isDirty, evicted, s1).
     rbind (fc_Invalidate c1 index blk_way) (\<lambda>c2.
     rbind (fc_Fill c2 index blk_way) (\<lambda>c3.
     rbind (if setDirty then fc_SetDirtyBit c3 index blk_way else Inr c3) (\<lambda>c4.
       Inr (isDirty, evicted, put_cache c4 s1)))))))"

section \<open>The check before an access\<close>

definition upd_stats :: "(rh_stats \<Rightarrow> rh_stats) \<Rightarrow> 'd rq \<Rightarrow> 'd rq" where
  "upd_stats f s = s\<lparr>rh_stats := f (rh_stats s)\<rparr>"

text \<open>The delay of reading the forward table.\<close>

definition table_delay :: "'d rq \<Rightarrow> 'd rq" where
  "table_delay s = (if virtualize_RIT s then add_delay (2 * accDelay s) s
                    else add_SRAM_delay (SRAM_RQT_accDelay s) s)"

text \<open>The first quarantined row of a group; the scan reads the forward table.\<close>

fun group_scan :: "'d rq \<Rightarrow> nat list \<Rightarrow> nat option res" where
  "group_scan s [] = Inr None"
| "group_scan s (i # iis) = rindex (i < numRows s)
     (if qe_valid (row_To_QR_T s i) then Inr (Some i) else group_scan s iis)"

text \<open>The row whose mapping is fetched: the row itself, or the first remapped row of its group.\<close>

definition pick_mapping :: "addr \<Rightarrow> nat \<Rightarrow> 'd rq \<Rightarrow> (nat \<times> 'd rq) res" where
  "pick_mapping rowID index s =
     (let rpb = rows_per_btv_bit s in
      if qe_valid (row_To_QR_T s rowID)
      then Inr (rowID, upd_stats (\<lambda>st. st\<lparr>s_cache_miss_entry_inserts := s_cache_miss_entry_inserts st + 1\<rparr>) s)
      else rnonzero rpb (rbind (group_scan s [rowID div rpb * rpb..<rowID div rpb * rpb + rpb]) (\<lambda>found.
             Inr (case found of None \<Rightarrow> numRows s | Some i \<Rightarrow> i,
                  if ORR_CBF s (index div rpb) = 1
                  then upd_stats (\<lambda>st. st\<lparr>s_cache_miss_line_entry_inserts :=
                         s_cache_miss_line_entry_inserts st + 1\<rparr>) s
                  else s))))"

text \<open>After a cache miss: read the table and put the mapping that was found in the cache.\<close>

definition fill_after_miss :: "addr \<Rightarrow> nat \<Rightarrow> func_cache \<Rightarrow> 'd rq \<Rightarrow> 'd rq res" where
  "fill_after_miss rowID index c s =
     rbind (pick_mapping rowID index (table_delay s)) (\<lambda>(inserted, s1).
       if inserted < numRows s1 \<and>
          (inserted = rowID \<or> ORR_CBF s1 (index div rows_per_btv_bit s1) = 1)
       then rbind (insertRowInCache (generateCBFID s1 inserted 0) False c s1) (\<lambda>(isDirty, evicted, s2).
              Inr (if virtualize_RIT s2 \<and> isDirty \<and> rowID div 32 \<noteq> evicted div 32
                   then add_delay (2 * accDelay s2) s2 else s2))
       else Inr s1)"

text \<open>The search of the cache: a hit, a hit on the group with a single remapped row, or a miss.\<close>

definition check_cache :: "addr \<Rightarrow> nat \<Rightarrow> func_cache \<Rightarrow> 'd rq \<Rightarrow> 'd rq res" where
  "check_cache rowID index c s =
     rbind (fc_Lookup c index True) (\<lambda>(way, c1).
       if way < m_ways c1
       then Inr (upd_stats (\<lambda>st. st\<lparr>s_cache_hit := s_cache_hit st + 1\<rparr>) (put_cache c1 s))
       else rbind (fc_PartialLookup c1 index) (\<lambda>(line_way, c2).
         let s1 = put_cache c2 s; orr = ORR_CBF s1 (index div rows_per_btv_bit s1) in
         if line_way < m_ways c2 then rnonzero (rows_per_btv_bit s1)
           (if orr = 1
            then Inr (upd_stats (\<lambda>st. st\<lparr>s_cache_partial_hit_orr_set := s_cache_partial_hit_orr_set st + 1\<rparr>) s1)
            else fill_after_miss rowID index c2
                   (upd_stats (\<lambda>st. st\<lparr>s_cache_partial_hit_orr_unset := s_cache_partial_hit_orr_unset st + 1\<rparr>) s1))
         else fill_after_miss rowID index c2
                (upd_stats (\<lambda>st. st\<lparr>s_cache_miss := s_cache_miss st + 1\<rparr>) s1)))"

text \<open>The statistics of a positive answer of the filter.\<close>

definition count_positive :: "bool \<Rightarrow> 'd rq \<Rightarrow> 'd rq" where
  "count_positive quarantined s =
     (case rq_filter s of
        Some f \<Rightarrow> s\<lparr>rq_filter := Some (if quarantined then f\<lparr>s_truePositives := s_truePositives f + 1\<rparr>
                                       else f\<lparr>s_falsePositives := s_falsePositives f + 1\<rparr>)\<rparr>
      | None \<Rightarrow> if quarantined
                then upd_stats (\<lambda>st. st\<lparr>s_btv_true_positives := s_btv_true_positives st + 1\<rparr>) s
                else upd_stats (\<lambda>st. st\<lparr>s_btv_false_positives := s_btv_false_positives st + 1\<rparr>) s)"

definition count_negative :: "'d rq \<Rightarrow> 'd rq" where
  "count_negative s =
     (case rq_filter s of
        Some f \<Rightarrow> s\<lparr>rq_filter := Some (f\<lparr>s_trueNegatives := s_trueNegatives f + 1\<rparr>)\<rparr>
      | None \<Rightarrow> upd_stats (\<lambda>st. st\<lparr>s_btv_true_negatives := s_btv_true_negatives st + 1\<rparr>) s)"

definition addQCheckDelay :: "addr \<Rightarrow> 'd rq \<Rightarrow> 'd rq res" where
  "addQCheckDelay rowID s0 =
     rindex (rowID < numRows s0)
      (let index = generateCBFID s0 rowID 0; s = add_SRAM_delay (SRAM_CBF_accDelay s0) s0 in
       rbind (maybe_quarantined s index) (\<lambda>b.
         if b then
           rbind (case rq_cache s of
                    Some c \<Rightarrow> check_cache rowID index c (add_SRAM_delay (SRAM_Cache_accDelay s) s)
                  | None \<Rightarrow> Inr (table_delay s))
             (\<lambda>s1. Inr (count_positive (qe_valid (row_To_QR_T s1 rowID)) s1))
         else rassert (\<not> qe_valid (row_To_QR_T (count_negative s) rowID)) (Inr (count_negative s))))"

section \<open>Moving rows\<close>

definition removeRow :: "nat \<Rightarrow> 'd rq \<Rightarrow> (bool \<times> 'd rq) res" where
  "removeRow QRT_id s0 =
     rindex (QRT_id < numQREntries s0)
      (let remove_rowID = qe_value (QR_To_Row_T s0 QRT_id);
           s = s0\<lparr>QR_To_Row_T := (QR_To_Row_T s0)(QRT_id := (QR_To_Row_T s0 QRT_id)\<lparr>qe_valid := False\<rparr>)\<rparr>
       in rindex (remove_rowID < numRows s) (rassert (qe_valid (row_To_QR_T s remove_rowID))
        (let s1 = s\<lparr>row_To_QR_T := (row_To_QR_T s)
                     (remove_rowID := (row_To_QR_T s remove_rowID)\<lparr>qe_valid := False\<rparr>)\<rparr>;
             index = generateCBFID s1 remove_rowID 0
         in rbind (filter_remove index s1) (\<lambda>s2.
            case rq_cache s2 of
              None \<Rightarrow> Inr (False, s2)
            | Some c \<Rightarrow> rbind (removeRowFromCache index c s2) (\<lambda>(isDirty, evicted, s3).
                rnonzero (rows_per_btv_bit s3)
                 (let g = index div rows_per_btv_bit s3
                  in Inr (isDirty, s3\<lparr>ORR_CBF := (ORR_CBF s3)(g := dec32 (ORR_CBF s3 g))\<rparr>)))))))"

definition virtual_delay :: "'d rq \<Rightarrow> 'd rq" where
  "virtual_delay s = (if virtualize_RIT s then add_delay (accDelay s) s else s)"

definition drainRow :: "'d rq \<Rightarrow> 'd rq res" where
  "drainRow s0 =
     rindex (QRTail_ID s0 < numQREntries s0)
      (let s = virtual_delay s0 in
       if QRTail_ID s \<noteq> prevQRHead_ID s \<and> qe_valid (QR_To_Row_T s (QRTail_ID s))
       then rbind (removeRow (QRTail_ID s) (upd_stats (\<lambda>st. st\<lparr>s_drain_qr := s_drain_qr st + 1\<rparr>) s))
              (\<lambda>(isCacheDirty, s1).
                 let s2 = virtual_delay (virtual_delay (add_delay (moveDelay s1) s1))
                 in Inr (s2\<lparr>QRTail_ID := (QRTail_ID s2 + 1) mod numQREntries s2\<rparr>))
       else Inr s)"

text \<open>The statistics of the four kinds of move.\<close>

definition count_move :: "bool \<Rightarrow> bool \<Rightarrow> rh_stats \<Rightarrow> rh_stats" where
  "count_move within rem st =
     (if \<not> within \<and> \<not> rem then st\<lparr>s_move_to_qr := s_move_to_qr st + 1\<rparr>
      else if \<not> rem then st\<lparr>s_move_within_qr := s_move_within_qr st + 1\<rparr>
      else if \<not> within then st\<lparr>s_move_to_qr_remove := s_move_to_qr_remove st + 1\<rparr>
      else st\<lparr>s_move_within_qr_remove := s_move_within_qr_remove st + 1\<rparr>)"

text \<open>Put the row's mapping in the cache, marked dirty, or charge the table update.\<close>

definition cache_mapping :: "nat \<Rightarrow> 'd rq \<Rightarrow> 'd rq res" where
  "cache_mapping index s =
     (case rq_cache s of
        None \<Rightarrow> Inr (virtual_delay s)
      | Some c \<Rightarrow> rbind (fc_Lookup c index False) (\<lambda>(blk_way, c1).
          if blk_way = m_ways c1
          then rbind (insertRowInCache index True c1 s) (\<lambda>(isDirty, evicted, s1).
                 Inr (if virtualize_RIT s1 \<and> isDirty then add_delay (2 * accDelay s1) s1 else s1))
          else rbind (fc_SetDirtyBit c1 index blk_way) (\<lambda>c2. Inr (put_cache c2 s))))"

text \<open>Evict the row that holds the head slot, if there is one.\<close>

definition evict_head :: "addr \<Rightarrow> bool \<Rightarrow> 'd rq \<Rightarrow> (bool \<times> 'd rq) res" where
  "evict_head rowID origRowQuaranteed s =
     (let qi = nextFreeQR_ID s in
      if qe_valid (QR_To_Row_T s qi) then
        (let remove_rowID = qe_value (QR_To_Row_T s qi) in
         rbind (removeRow qi s) (\<lambda>(isCacheDirty, s1).
           let s2 = add_delay (moveDelay s1) s1
           in Inr (True, if origRowQuaranteed \<and> rowID div 32 \<noteq> remove_rowID div 32
                         then virtual_delay s2 else s2)))
      else Inr (False, s))"

text \<open>Release the row's former slot.\<close>

definition release_slot :: "nat option \<Rightarrow> 'd rq \<Rightarrow> 'd rq res" where
  "release_slot orig_slot s =
     (case orig_slot of
        None \<Rightarrow> Inr s
      | Some qj \<Rightarrow>
          (let s2 = (if nextFreeQR_ID s div 16 \<noteq> qj div 16 then virtual_delay s else s) in
           rindex (qj < numQREntries s2) (rassert (qe_valid (QR_To_Row_T s2 qj))
             (Inr (s2\<lparr>QR_To_Row_T := (QR_To_Row_T s2)
                        (qj := (QR_To_Row_T s2 qj)\<lparr>qe_valid := False\<rparr>)\<rparr>)))))"

text \<open>Advance the head, pushing the tail in front of it when it has wrapped around.\<close>

definition advance_head :: "'d rq \<Rightarrow> 'd rq" where
  "advance_head s =
     (let s4 = (if nextFreeQR_ID s = QRTail_ID s \<and> nextFreeQR_ID s \<noteq> prevQRHead_ID s
                then s\<lparr>QRTail_ID := (QRTail_ID s + 1) mod numQREntries s\<rparr> else s)
      in s4\<lparr>nextFreeQR_ID := (nextFreeQR_ID s4 + 1) mod numQREntries s4\<rparr>)"

definition claim_head :: "addr \<Rightarrow> nat option \<Rightarrow> 'd rq \<Rightarrow> 'd rq res" where
  "claim_head rowID orig_slot s0 =
     (let s = virtual_delay (add_delay (moveDelay s0) s0);
          s1 = s\<lparr>QR_To_Row_T := (QR_To_Row_T s)(nextFreeQR_ID s := \<lparr>qe_valid = True, qe_value = rowID\<rparr>)\<rparr>
      in rbind (release_slot orig_slot s1) (\<lambda>s3. Inr (advance_head s3)))"

definition quarantineRow :: "addr \<Rightarrow> 'd rq \<Rightarrow> 'd rq res" where
  "quarantineRow rowID s =
     rindex (rowID < numRows s \<and> nextFreeQR_ID s < numQREntries s)
      (let index = generateCBFID s rowID 0;
           e = row_To_QR_T s rowID;
           orig_slot = (if qe_valid e then Some (qe_value e mod u32_size) else None)
       in rbind (if qe_valid e then Inr s else filter_insert index s) (\<lambda>s1.
          let s2 = s1\<lparr>row_To_QR_T := (row_To_QR_T s1)
                     (rowID := \<lparr>qe_valid = True, qe_value = nextFreeQR_ID s1\<rparr>)\<rparr>
          in rbind (cache_mapping index s2) (\<lambda>s3.
             rbind (evict_head rowID (qe_valid e) (virtual_delay s3)) (\<lambda>(rem, s4).
             rbind (claim_head rowID orig_slot s4) (\<lambda>s5.
               Inr (upd_stats (count_move (qe_valid e) rem) s5))))))"

section \<open>Windows and accesses\<close>

text \<open>The end of a window: the detector and the statistics; the tables stay.\<close>

definition rq_reset :: "'d detector_ops \<Rightarrow> 'd rq \<Rightarrow> 'd rq res" where
  "rq_reset D s =
     (let n = numDRAMRows s;
          occ = length (filter (\<lambda>l. qe_valid (QR_To_Row_T s l)) [0..<numQREntries s]);
          st = (rh_stats s)\<lparr>s_num_resets := s_num_resets (rh_stats s) + 1,
                 s_QR_CumulativeOccupancy := s_QR_CumulativeOccupancy (rh_stats s) + occ\<rparr>;
          tally = (\<lambda>r st. let st1 = tally_row (rh_thr s) (numAccessesToRow s r) st; k = min 3 (bitvector s r)
                     in if r < n div rows_per_btv_bit s
                        then st1\<lparr>s_btv_residency := (s_btv_residency st1)(k := s_btv_residency st1 k + 1)\<rparr>
                        else st1)
      in if n \<noteq> 0 \<and> rows_per_btv_bit s = 0 then Inl Div_By_Zero else
        Inr (s\<lparr>detector := d_reset D (detector s),
           prevQRHead_ID := nextFreeQR_ID s,
           rh_stats := fold tally [0..<n] st,
           numAccessesToRow := clear_row_counts n (numAccessesToRow s)\<rparr>))"

definition rq_enter :: "'d detector_ops \<Rightarrow> tick \<Rightarrow> 'd rq \<Rightarrow> 'd rq res" where
  "rq_enter D currTick s =
     (let s0 = s\<lparr>rh_stats := (rh_stats s)\<lparr>s_num_accesses := s_num_accesses (rh_stats s) + 1\<rparr>,
                 decision := cleared_decision\<rparr>
      in if window_over currTick s0 then rq_reset D (s0\<lparr>last_reset := currTick\<rparr>) else Inr s0)"

text \<open>Move an aggressor, or drain a row when the cache has missed often enough.\<close>

definition rq_mitigate :: "addr \<Rightarrow> bool \<Rightarrow> 'd rq \<Rightarrow> 'd rq res" where
  "rq_mitigate rowID agg s =
     (if agg then quarantineRow rowID s
      else (let st = rh_stats s; misses = s_cache_miss st + s_cache_partial_hit_orr_unset st in
            if drain_cache_miss_threshold s \<le> sub64 misses (prev_drain_cache_miss_val s)
            then drainRow (s\<lparr>prev_drain_cache_miss_val := misses\<rparr>)
            else Inr s))"

definition rq_access ::
    "'d detector_ops \<Rightarrow> tick \<Rightarrow> addr \<Rightarrow> 'd rq \<Rightarrow> (decision \<times> 'd rq) res" where
  "rq_access D currTick a s0 =
     rbind (rq_enter D currTick s0) (\<lambda>s.
      rindex (a div 8192 < numRows s)
       (rbind (addQCheckDelay (randRowID s (a div 8192)) s) (\<lambda>s1.
        rbind (decodeAddr a s1) (\<lambda>(rowID, bankID, s2).
        rbind (d_access D (detector s2) rowID bankID 0 0 False) (\<lambda>(agg, d).
        let s3 = s2\<lparr>detector := d, decision := (decision s2)\<lparr>d_mitigate := agg\<rparr>\<rparr> in
        rbind (rq_mitigate (randRowID s3 (a div 8192)) agg s3) (\<lambda>s4. Inr (decision s4, s4)))))))"

end
