(* ===== verification/Row_Quar_Inv.thy ===== *)
theory Row_Quar_Inv
  imports Row_Quar
begin

text \<open>
  The invariant of the quarantine of \<open>Row_Quar\<close> (the two tables are inverse to each other, the
  filter contains every quarantined row, the cache only quarantined rows), the bit vector as an
  instance of \<open>member_filter\<close>, and the lemmas of the filter, cache, table and check operations.
\<close>

section \<open>Invariant\<close>

text \<open>The rows of the quarantine.\<close>

definition quarantined :: "'d rq \<Rightarrow> nat set" where
  "quarantined s = {r. r < numRows s \<and> qe_valid (row_To_QR_T s r)}"

text \<open>The two tables are inverse to each other on their valid entries.\<close>

definition inverse_tables :: "nat \<Rightarrow> nat \<Rightarrow> (nat \<Rightarrow> qentry) \<Rightarrow> (nat \<Rightarrow> qentry) \<Rightarrow> bool" where
  "inverse_tables nr nq R Q \<longleftrightarrow>
     (\<forall>r<nr. qe_valid (R r) \<longrightarrow> qe_value (R r) < nq \<and> qe_valid (Q (qe_value (R r))) \<and> qe_value (Q (qe_value (R r))) = r) \<and>
     (\<forall>q<nq. qe_valid (Q q) \<longrightarrow> qe_value (Q q) < nr \<and> qe_valid (R (qe_value (Q q))) \<and> qe_value (R (qe_value (Q q))) = q)"

text \<open>The bit vector counts the members of every group.\<close>

definition btv_rep :: "nat \<times> (nat \<Rightarrow> nat) \<Rightarrow> nat set \<Rightarrow> bool" where
  "btv_rep b A \<longleftrightarrow> 0 < fst b \<and> finite A \<and> card A < u32_size \<and>
     (\<forall>g. snd b g = card {r \<in> A. r div fst b = g})"

definition btv_room :: "nat \<times> (nat \<Rightarrow> nat) \<Rightarrow> nat" where
  "btv_room b = u32_size - 1"

definition filter_ok :: "'d rq \<Rightarrow> nat set \<Rightarrow> bool" where
  "filter_ok s A \<longleftrightarrow> 0 < rows_per_btv_bit s \<and> (case rq_filter s of
      Some f \<Rightarrow> cbf_rep f A \<and> numQREntries s < cbf_room f
    | None \<Rightarrow> btv_rep (rows_per_btv_bit s, bitvector s) A \<and> numQREntries s < u32_size - 1)"

definition cache_ok :: "'d rq \<Rightarrow> nat set \<Rightarrow> bool" where
  "cache_ok s A \<longleftrightarrow> (case rq_cache s of None \<Rightarrow> True
    | Some c \<Rightarrow> fc_wf c \<and> fc_cached c \<subseteq> A \<and> m_blk_offset c = 5 \<and>
        partial_lookup_factor c = rows_per_btv_bit s \<and> rows_per_btv_bit s dvd 32 \<and>
        rows_per_btv_bit s dvd numRows s \<and> (rq_filter s = None \<longrightarrow> ORR_CBF s = bitvector s))"

definition rq_inv :: "'d rq \<Rightarrow> bool" where
  "rq_inv s \<longleftrightarrow> numBanks s = 1 \<and> numRows s < u32_size \<and>
     nextFreeQR_ID s < numQREntries s \<and> QRTail_ID s < numQREntries s \<and>
     inverse_tables (numRows s) (numQREntries s) (row_To_QR_T s) (QR_To_Row_T s) \<and>
     filter_ok s (quarantined s) \<and> cache_ok s (quarantined s)"

section \<open>The filter\<close>

lemma btv_group_le: "finite A \<Longrightarrow> card {r \<in> A. r div n = g} \<le> card A"
  by (rule card_mono) auto

interpretation btv: member_filter btv_query btv_add btv_del btv_rep btv_room
proof
  fix b A r
  assume rep: "btv_rep b A"
  then have n: "0 < fst b" and fin: "finite A" and c: "card A < u32_size"
    and e: "\<And>g. snd b g = card {r \<in> A. r div fst b = g}" by (auto simp: btv_rep_def)
  let ?g = "r div fst b"
  have lt: "snd b ?g < u32_size" using btv_group_le[OF fin, of "fst b" ?g] c e[of ?g] by linarith
  show "\<exists>x. btv_query b r = Inr x" using n by (simp add: btv_query_def)
  {
    assume r: "r \<in> A"
    have "{x \<in> A. x div fst b = ?g} \<noteq> {}" using r by blast
    then have pos: "0 < snd b ?g" using fin e[of ?g] by (simp add: card_gt_0_iff)
    then show "btv_query b r = Inr True" using n by (simp add: btv_query_def)
    let ?b = "(fst b, (snd b)(?g := snd b ?g - 1))"
    have "{x \<in> A - {r}. x div fst b = g} = {x \<in> A. x div fst b = g} - (if g = ?g then {r} else {})" for g
      by auto
    then have cnt: "card {x \<in> A - {r}. x div fst b = g} = ((snd b)(?g := snd b ?g - 1)) g" for g
      using e r fin by (simp add: card_Diff_singleton)
    have "btv_rep ?b (A - {r})"
      using n fin c cnt card_Diff1_le[of A r] by (simp add: btv_rep_def)
    then show "\<exists>b'. btv_del b r = Inr b' \<and> btv_rep b' (A - {r}) \<and> btv_room b' = btv_room b"
      using n pos lt by (simp add: btv_del_def btv_room_def dec32_pos)
  }
  assume r: "r \<notin> A" and room: "card A < btv_room b"
  let ?b = "(fst b, (snd b)(?g := snd b ?g + 1))"
  have "{x \<in> insert r A. x div fst b = g} = (if g = ?g then insert r {x \<in> A. x div fst b = g} else {x \<in> A. x div fst b = g})" for g
    by auto
  then have cnt: "card {x \<in> insert r A. x div fst b = g} = ((snd b)(?g := snd b ?g + 1)) g" for g
    using e r fin by simp
  have "btv_rep ?b (insert r A)"
    using n fin room r cnt by (simp add: btv_rep_def btv_room_def)
  moreover have "snd b ?g + 1 < u32_size"
    using btv_group_le[OF fin, of "fst b" ?g] room e[of ?g] by (simp add: btv_room_def)
  ultimately show "\<exists>b'. btv_add b r = Inr b' \<and> btv_rep b' (insert r A) \<and> btv_room b' = btv_room b"
    using n by (simp add: btv_add_def btv_room_def inc32_noov)
qed

lemma maybe_quarantined_ok:
  assumes "filter_ok s A"
  obtains b where "maybe_quarantined s r = Inr b" and "r \<in> A \<Longrightarrow> b"
proof (cases "rq_filter s")
  case None
  then have rep: "btv_rep (rows_per_btv_bit s, bitvector s) A" using assms by (simp add: filter_ok_def)
  obtain b where "btv_query (rows_per_btv_bit s, bitvector s) r = Inr b" using btv.query_returns[OF rep] by blast
  then show ?thesis using that btv.query_member[OF rep, of r] None by (cases b) (auto simp: maybe_quarantined_def)
next
  case (Some f)
  then have rep: "cbf_rep f A" and n: "0 < rows_per_btv_bit s" using assms by (simp_all add: filter_ok_def)
  obtain b where b: "cbf_query f r = Inr b" using cbf.query_returns[OF rep] by blast
  show ?thesis
    using that Some b n cbf.query_member[OF rep, of r] by (cases b) (auto simp: maybe_quarantined_def btv_query_def)
qed

text \<open>Frames: nothing but the filter's members changes.\<close>

lemma filter_insert_ok:
  assumes ok: "filter_ok s A" and r: "r \<notin> A" and c: "card A \<le> numQREntries s"
  obtains f b orr where "filter_insert r s = Inr (s\<lparr>rq_filter := f, bitvector := b, ORR_CBF := orr\<rparr>)"
    and "filter_ok (s\<lparr>rq_filter := f, bitvector := b, ORR_CBF := orr\<rparr>) (insert r A)"
    and "f = None \<longleftrightarrow> rq_filter s = None"
    and "rq_filter s = None \<Longrightarrow> ORR_CBF s = bitvector s \<Longrightarrow> orr = b"
proof (cases "rq_filter s")
  case (Some f)
  then have rep: "cbf_rep f A" and room: "card A < cbf_room f" and n: "0 < rows_per_btv_bit s"
    using ok c by (auto simp: filter_ok_def)
  obtain f1 where f1: "cbf_add f r = Inr f1" "cbf_rep f1 (insert r A)" "cbf_room f1 = cbf_room f"
    using cbf.add_member[OF rep r room] by blast
  have "filter_insert r s = Inr (s\<lparr>rq_filter := Some f1, bitvector := bitvector s, ORR_CBF := ORR_CBF s\<rparr>)"
    using Some f1 by (simp add: filter_insert_def)
  then show ?thesis by (rule that) (use Some f1 ok in \<open>simp_all add: filter_ok_def\<close>)
next
  case None
  let ?n = "rows_per_btv_bit s"
  have rep: "btv_rep (?n, bitvector s) A" and room: "card A < btv_room (?n, bitvector s)" and n: "0 < ?n"
    using ok c None by (auto simp: filter_ok_def btv_room_def)
  let ?b = "(bitvector s)(r div ?n := inc32 (bitvector s (r div ?n)))"
  let ?o = "(ORR_CBF s)(r div ?n := inc32 (ORR_CBF s (r div ?n)))"
  have b: "btv_add (?n, bitvector s) r = Inr (?n, ?b)" and o: "btv_add (?n, ORR_CBF s) r = Inr (?n, ?o)"
    using n by (simp_all add: btv_add_def)
  have "btv_rep (?n, ?b) (insert r A)" using btv.add_member[OF rep r room] b by auto
  moreover have "filter_insert r s = Inr (s\<lparr>rq_filter := None, bitvector := ?b, ORR_CBF := ?o\<rparr>)"
    using None b o by (simp add: filter_insert_def)
  ultimately show ?thesis using that None ok by (simp add: filter_ok_def)
qed

lemma filter_remove_ok:
  assumes ok: "filter_ok s A" and r: "r \<in> A"
  obtains f b where "filter_remove r s = Inr (s\<lparr>rq_filter := f, bitvector := b\<rparr>)"
    and "filter_ok (s\<lparr>rq_filter := f, bitvector := b\<rparr>) (A - {r})"
    and "f = None \<longleftrightarrow> rq_filter s = None"
    and "rq_filter s = None \<Longrightarrow> b = (bitvector s)(r div rows_per_btv_bit s := dec32 (bitvector s (r div rows_per_btv_bit s)))"
proof (cases "rq_filter s")
  case (Some f)
  then have rep: "cbf_rep f A" using ok by (simp add: filter_ok_def)
  obtain f1 where f1: "cbf_del f r = Inr f1" "cbf_rep f1 (A - {r})" "cbf_room f1 = cbf_room f"
    using cbf.del_member[OF rep r] by blast
  have "filter_remove r s = Inr (s\<lparr>rq_filter := Some f1, bitvector := bitvector s\<rparr>)"
    using Some f1 cbf.query_member[OF rep r] by (simp add: filter_remove_def)
  then show ?thesis by (rule that) (use Some f1 ok in \<open>simp_all add: filter_ok_def\<close>)
next
  case None
  let ?n = "rows_per_btv_bit s"
  have rep: "btv_rep (?n, bitvector s) A" and n: "0 < ?n" using ok None by (auto simp: filter_ok_def)
  let ?b = "(bitvector s)(r div ?n := dec32 (bitvector s (r div ?n)))"
  obtain b' where "btv_del (?n, bitvector s) r = Inr b'" "btv_rep b' (A - {r})" using btv.del_member[OF rep r] by blast
  moreover from this have "b' = (?n, ?b)" by (auto simp: btv_del_def split: if_splits)
  ultimately have "filter_remove r s = Inr (s\<lparr>rq_filter := None, bitvector := ?b\<rparr>)" "btv_rep (?n, ?b) (A - {r})"
    using None by (simp_all add: filter_remove_def)
  then show ?thesis using that None ok by (simp add: filter_ok_def)
qed

section \<open>The cache\<close>

lemma insertRowInCache_ok:
  assumes wf: "fc_wf c" and new: "a \<notin> fc_cached c"
  obtains d ev c' st where "insertRowInCache a dirty c s = Inr (d, ev, put_cache c' (s\<lparr>rh_stats := st\<rparr>))"
    and "fc_wf c'" and "fc_cached c' \<subseteq> insert a (fc_cached c)" and "fc_geom c' = fc_geom c"
proof -
  obtain w c1 where v: "fc_Find_Victim c a = Inr (w, c1)" "w < m_ways c" "fc_wf c1" "fc_cached c1 = fc_cached c"
    "fc_geom c1 = fc_geom c"
    using fc_Find_Victim_ok[OF wf, of a] by blast
  note g1 = fc_geomD[OF v(5)]
  have w1: "w < m_ways c1" using v(2) g1 by simp
  let ?b = "fc_row c1 a ! w"
  obtain d ev st where e: "(if cb_valid ?b
            then rbind (fc_QueryDirtyBit c1 a w) (\<lambda>isDirty. rbind (fc_Get_Block_Addr c1 a w) (\<lambda>evicted.
                   Inr (isDirty, evicted, count_evict isDirty s)))
            else Inr (False, 0, s)) = Inr (d, ev, s\<lparr>rh_stats := st\<rparr>)"
  proof (cases "cb_valid ?b")
    case True
    then show ?thesis
      using that w1 fc_wfD(1)[OF v(3)] by (simp add: fc_QueryDirtyBit_def fc_Get_Block_Addr_def count_evict_def)
  next
    case False
    then show ?thesis using that[of False 0 "rh_stats s"] by simp
  qed
  obtain c2 where c2: "fc_Invalidate c1 a w = Inr c2" "fc_wf c2"
    "fc_cached c2 = fc_cached c1 - (if cb_valid ?b then {cb_tag ?b} else {})" "fc_geom c2 = fc_geom c1"
    "\<not> cb_valid (fc_row c2 a ! w)"
    by (rule fc_Invalidate_ok[OF v(3) w1, of a], rule that)
  have w2: "w < m_ways c2" and new2: "a \<notin> fc_cached c2"
    using w1 fc_geomD[OF c2(4)] c2(3) v(4) new by auto
  obtain c3 where c3: "fc_Fill c2 a w = Inr c3" "fc_wf c3" "fc_cached c3 = insert a (fc_cached c2)"
    "fc_geom c3 = fc_geom c2" "cb_valid (fc_row c3 a ! w)"
    by (rule fc_Fill_ok[OF c2(2) w2 c2(5) new2], rule that)
  have w3: "w < m_ways c3" using w2 fc_geomD[OF c3(4)] by simp
  obtain c4 where c4: "(if dirty then fc_SetDirtyBit c3 a w else Inr c3) = Inr c4" "fc_wf c4"
    "fc_cached c4 = fc_cached c3" "fc_geom c4 = fc_geom c3"
    using fc_SetDirtyBit_ok[OF c3(2) w3 c3(5)] c3(2) by (metis (full_types))
  have "fc_Is_Block_Valid c1 a w = Inr (cb_valid ?b)"
    using fc_wfD(1)[OF v(3)] w1 by (simp add: fc_Is_Block_Valid_def)
  then have "insertRowInCache a dirty c s = Inr (d, ev, put_cache c4 (s\<lparr>rh_stats := st\<rparr>))"
    using v(1) e c2(1) c3(1) c4(1) by (simp add: insertRowInCache_def)
  then show ?thesis
    by (rule that) (use c2 c3 c4 v in auto)
qed

lemma removeRowFromCache_ok:
  assumes wf: "fc_wf c"
  obtains d ev c' st where "removeRowFromCache a c s = Inr (d, ev, put_cache c' (s\<lparr>rh_stats := st\<rparr>))"
    and "fc_wf c'" and "fc_cached c' = fc_cached c - {a}" and "fc_geom c' = fc_geom c"
proof -
  obtain w c1 where l: "fc_Lookup c a False = Inr (w, c1)" "w < m_ways c \<longleftrightarrow> a \<in> fc_cached c" "w \<le> m_ways c"
    "fc_wf c1" "fc_cached c1 = fc_cached c" "fc_geom c1 = fc_geom c"
    "w < m_ways c \<Longrightarrow> cb_valid (fc_row c1 a ! w) \<and> cb_tag (fc_row c1 a ! w) = a"
    by (rule fc_Lookup_ok[OF wf, of a False], rule that)
  note g1 = fc_geomD[OF l(6)]
  show ?thesis
  proof (cases "w < m_ways c")
    case False
    have "s = s\<lparr>rh_stats := rh_stats s\<rparr>" by simp
    then have "removeRowFromCache a c s = Inr (False, 0, put_cache c1 (s\<lparr>rh_stats := rh_stats s\<rparr>))"
      using l(1) False g1 by (simp add: removeRowFromCache_def)
    then show ?thesis by (rule that) (use l False in auto)
  next
    case True
    then have w1: "w < m_ways c1" and v: "cb_valid (fc_row c1 a ! w)" "cb_tag (fc_row c1 a ! w) = a"
      using g1 l(7) by auto
    obtain c2 where c2: "fc_Invalidate c1 a w = Inr c2" "fc_wf c2"
      "fc_cached c2 = fc_cached c1 - (if cb_valid (fc_row c1 a ! w) then {cb_tag (fc_row c1 a ! w)} else {})"
      "fc_geom c2 = fc_geom c1" "\<not> cb_valid (fc_row c2 a ! w)"
      by (rule fc_Invalidate_ok[OF l(4) w1, of a], rule that)
    obtain st where st: "count_evict (cb_dirty (fc_row c1 a ! w)) s = s\<lparr>rh_stats := st\<rparr>"
      by (simp add: count_evict_def)
    have "removeRowFromCache a c s = Inr (cb_dirty (fc_row c1 a ! w), a, put_cache c2 (s\<lparr>rh_stats := st\<rparr>))"
      using l(1) w1 v c2(1) st fc_wfD(1)[OF l(4)]
      by (simp add: removeRowFromCache_def fc_QueryDirtyBit_def fc_Get_Block_Addr_def)
    then show ?thesis by (rule that) (use c2 l v in auto)
  qed
qed

section \<open>The tables\<close>

lemma inverse_tablesD:
  assumes "inverse_tables nr nq R Q"
  shows "\<And>r. r < nr \<Longrightarrow> qe_valid (R r) \<Longrightarrow> qe_value (R r) < nq"
    and "\<And>r. r < nr \<Longrightarrow> qe_valid (R r) \<Longrightarrow> qe_valid (Q (qe_value (R r)))"
    and "\<And>r. r < nr \<Longrightarrow> qe_valid (R r) \<Longrightarrow> qe_value (Q (qe_value (R r))) = r"
    and "\<And>q. q < nq \<Longrightarrow> qe_valid (Q q) \<Longrightarrow> qe_value (Q q) < nr"
    and "\<And>q. q < nq \<Longrightarrow> qe_valid (Q q) \<Longrightarrow> qe_valid (R (qe_value (Q q)))"
    and "\<And>q. q < nq \<Longrightarrow> qe_valid (Q q) \<Longrightarrow> qe_value (R (qe_value (Q q))) = q"
  using assms by (auto simp: inverse_tables_def)

lemma inverse_tables_card:
  assumes "inverse_tables nr nq R Q"
  shows "card {r. r < nr \<and> qe_valid (R r)} \<le> nq"
proof -
  note t = inverse_tablesD[OF assms]
  have "card {r. r < nr \<and> qe_valid (R r)} \<le> card {..<nq}"
    by (rule card_inj_on_le[of "\<lambda>r. qe_value (R r)"]) (use t in \<open>auto intro!: inj_onI\<close>, metis)
  then show ?thesis by simp
qed

definition drop_entry :: "nat \<Rightarrow> (nat \<Rightarrow> qentry) \<Rightarrow> nat \<Rightarrow> qentry" where
  "drop_entry k T = T(k := (T k)\<lparr>qe_valid := False\<rparr>)"

lemma drop_entry_simps [simp]:
  "qe_valid (drop_entry k T r) \<longleftrightarrow> qe_valid (T r) \<and> r \<noteq> k" "qe_value (drop_entry k T r) = qe_value (T r)"
  by (auto simp: drop_entry_def)

text \<open>Remove the row of slot \<open>q\<close>.\<close>

lemma inverse_tables_remove:
  assumes t: "inverse_tables nr nq R Q" and q: "q < nq" "qe_valid (Q q)"
  shows "inverse_tables nr nq (drop_entry (qe_value (Q q)) R) (drop_entry q Q)"
  using t q unfolding inverse_tables_def by (auto simp: fun_eq_iff) metis+

text \<open>Move row \<open>a\<close> to a free slot \<open>i\<close>, releasing the slot it had.\<close>

lemma inverse_tables_move:
  assumes t: "inverse_tables nr nq R Q" and a: "a < nr" and i: "i < nq" "\<not> qe_valid (Q i)"
  shows "inverse_tables nr nq (R(a := \<lparr>qe_valid = True, qe_value = i\<rparr>))
    (if qe_valid (R a) then drop_entry (qe_value (R a)) (Q(i := \<lparr>qe_valid = True, qe_value = a\<rparr>))
     else Q(i := \<lparr>qe_valid = True, qe_value = a\<rparr>))"
proof -
  note d = inverse_tablesD[OF t]
  have ne: "qe_value (R r) \<noteq> i" if "r < nr" "qe_valid (R r)" for r using d(2)[OF that] i(2) by metis
  have qa: "qe_value (Q q) = a \<longleftrightarrow> qe_valid (R a) \<and> q = qe_value (R a)" if "q < nq" "qe_valid (Q q)" for q
    using d(5,6)[OF that] d(3)[OF a] by metis
  have inj: "r = a" if "r < nr" "qe_valid (R r)" "qe_valid (R a)" "qe_value (R r) = qe_value (R a)" for r
    using d(3)[OF that(1,2)] d(3)[OF a that(3)] that(4) by metis
  show ?thesis
    unfolding inverse_tables_def
  proof (intro conjI allI impI)
    fix r assume r: "r < nr" "qe_valid ((R(a := \<lparr>qe_valid = True, qe_value = i\<rparr>)) r)"
    let ?v = "qe_value ((R(a := \<lparr>qe_valid = True, qe_value = i\<rparr>)) r)"
    let ?Q = "if qe_valid (R a) then drop_entry (qe_value (R a)) (Q(i := \<lparr>qe_valid = True, qe_value = a\<rparr>))
     else Q(i := \<lparr>qe_valid = True, qe_value = a\<rparr>)"
    show "?v < nq" using r d(1) i(1) by (cases "r = a") auto
    show "qe_valid (?Q ?v)" using r ne[of r] ne[OF a] d(2)[of r] inj[of r] by (cases "r = a") auto
    show "qe_value (?Q ?v) = r" using r ne[of r] d(3)[of r] by (cases "r = a") auto
  next
    fix q assume q: "q < nq" "qe_valid ((if qe_valid (R a) then drop_entry (qe_value (R a)) (Q(i := \<lparr>qe_valid = True, qe_value = a\<rparr>))
     else Q(i := \<lparr>qe_valid = True, qe_value = a\<rparr>)) q)"
    let ?v = "qe_value ((if qe_valid (R a) then drop_entry (qe_value (R a)) (Q(i := \<lparr>qe_valid = True, qe_value = a\<rparr>))
     else Q(i := \<lparr>qe_valid = True, qe_value = a\<rparr>)) q)"
    show "?v < nr" using q a d(4)[of q] by (cases "q = i") (auto split: if_splits)
    show "qe_valid ((R(a := \<lparr>qe_valid = True, qe_value = i\<rparr>)) ?v)"
      using q d(5)[of q] by (cases "q = i") (auto split: if_splits)
    show "qe_value ((R(a := \<lparr>qe_valid = True, qe_value = i\<rparr>)) ?v) = q"
      using q d(6)[of q] qa[of q] by (cases "q = i") (auto split: if_splits)
  qed
qed

section \<open>Frames\<close>

text \<open>Only the decision, the statistics and the filter's and cache's members may change.\<close>

definition rq_aux :: "'d rq \<Rightarrow> 'd rq \<Rightarrow> bool" where
  "rq_aux s s' \<longleftrightarrow> (\<exists>d st c f b orr. s' = s\<lparr>decision := d, rh_stats := st, rq_cache := c, rq_filter := f,
     bitvector := b, ORR_CBF := orr\<rparr>)"

lemma rq_auxI:
  "s' = s\<lparr>decision := d, rh_stats := st, rq_cache := c, rq_filter := f, bitvector := b, ORR_CBF := orr\<rparr> \<Longrightarrow>
   rq_aux s s'"
  unfolding rq_aux_def by blast

lemma rq_aux_trans:
  assumes "rq_aux s s1" and "rq_aux s1 s2"
  shows "rq_aux s s2"
proof -
  obtain d st c f b orr where 1: "s1 = s\<lparr>decision := d, rh_stats := st, rq_cache := c, rq_filter := f,
     bitvector := b, ORR_CBF := orr\<rparr>" using assms(1) unfolding rq_aux_def by blast
  obtain d' st' c' f' b' orr' where "s2 = s1\<lparr>decision := d', rh_stats := st', rq_cache := c', rq_filter := f',
     bitvector := b', ORR_CBF := orr'\<rparr>" using assms(2) unfolding rq_aux_def by blast
  then have "s2 = s\<lparr>decision := d', rh_stats := st', rq_cache := c', rq_filter := f',
     bitvector := b', ORR_CBF := orr'\<rparr>" by (simp add: 1)
  then show ?thesis by (rule rq_auxI)
qed

lemma rq_aux_steps [simp, intro]:
  "rq_aux s s" "rq_aux s (s\<lparr>decision := d\<rparr>)" "rq_aux s (s\<lparr>rh_stats := st\<rparr>)" "rq_aux s (s\<lparr>rq_cache := c\<rparr>)"
  "rq_aux s (s\<lparr>rq_filter := f\<rparr>)" "rq_aux s (s\<lparr>bitvector := b\<rparr>)" "rq_aux s (s\<lparr>ORR_CBF := orr\<rparr>)"
proof -
  show "rq_aux s s" by (rule rq_auxI[where d = "decision s" and st = "rh_stats s" and c = "rq_cache s" and f = "rq_filter s" and b = "bitvector s" and orr = "ORR_CBF s"]) simp
  show "rq_aux s (s\<lparr>decision := d\<rparr>)" by (rule rq_auxI[where d = d and st = "rh_stats s" and c = "rq_cache s" and f = "rq_filter s" and b = "bitvector s" and orr = "ORR_CBF s"]) simp
  show "rq_aux s (s\<lparr>rh_stats := st\<rparr>)" by (rule rq_auxI[where d = "decision s" and st = st and c = "rq_cache s" and f = "rq_filter s" and b = "bitvector s" and orr = "ORR_CBF s"]) simp
  show "rq_aux s (s\<lparr>rq_cache := c\<rparr>)" by (rule rq_auxI[where d = "decision s" and st = "rh_stats s" and c = c and f = "rq_filter s" and b = "bitvector s" and orr = "ORR_CBF s"]) simp
  show "rq_aux s (s\<lparr>rq_filter := f\<rparr>)" by (rule rq_auxI[where d = "decision s" and st = "rh_stats s" and c = "rq_cache s" and f = f and b = "bitvector s" and orr = "ORR_CBF s"]) simp
  show "rq_aux s (s\<lparr>bitvector := b\<rparr>)" by (rule rq_auxI[where d = "decision s" and st = "rh_stats s" and c = "rq_cache s" and f = "rq_filter s" and b = b and orr = "ORR_CBF s"]) simp
  show "rq_aux s (s\<lparr>ORR_CBF := orr\<rparr>)" by (rule rq_auxI[where d = "decision s" and st = "rh_stats s" and c = "rq_cache s" and f = "rq_filter s" and b = "bitvector s" and orr = orr]) simp
qed

lemma rq_aux_more [simp, intro]:
  "rq_aux s (add_delay t s)" "rq_aux s (add_SRAM_delay t s)" "rq_aux s (put_cache c s)" "rq_aux s (upd_stats h s)"
  "rq_aux s (table_delay s)" "rq_aux s (virtual_delay s)" "rq_aux s (count_positive q s)" "rq_aux s (count_negative s)"
  by (simp_all add: add_delay_def add_SRAM_delay_def put_cache_def upd_stats_def table_delay_def virtual_delay_def
      count_positive_def count_negative_def split: option.split)

lemma rq_aux_upd:
  assumes "rq_aux s s'"
  shows "rq_aux (s\<lparr>QR_To_Row_T := Q\<rparr>) (s'\<lparr>QR_To_Row_T := Q\<rparr>)"
    and "rq_aux (s\<lparr>row_To_QR_T := R\<rparr>) (s'\<lparr>row_To_QR_T := R\<rparr>)"
    and "rq_aux (s\<lparr>nextFreeQR_ID := n\<rparr>) (s'\<lparr>nextFreeQR_ID := n\<rparr>)"
    and "rq_aux (s\<lparr>QRTail_ID := n\<rparr>) (s'\<lparr>QRTail_ID := n\<rparr>)"
proof -
  obtain d st c f b orr where s': "s' = s\<lparr>decision := d, rh_stats := st, rq_cache := c, rq_filter := f,
     bitvector := b, ORR_CBF := orr\<rparr>" using assms unfolding rq_aux_def by blast
  note I = rq_auxI[where d = d and st = st and c = c and f = f and b = b and orr = orr]
  show "rq_aux (s\<lparr>QR_To_Row_T := Q\<rparr>) (s'\<lparr>QR_To_Row_T := Q\<rparr>)"
    and "rq_aux (s\<lparr>row_To_QR_T := R\<rparr>) (s'\<lparr>row_To_QR_T := R\<rparr>)"
    and "rq_aux (s\<lparr>nextFreeQR_ID := n\<rparr>) (s'\<lparr>nextFreeQR_ID := n\<rparr>)"
    and "rq_aux (s\<lparr>QRTail_ID := n\<rparr>) (s'\<lparr>QRTail_ID := n\<rparr>)"
    by (rule I, simp add: s')+
qed

lemma rq_auxD:
  assumes "rq_aux s s'"
  shows "numRows s' = numRows s" "numBanks s' = numBanks s" "numRanks s' = numRanks s" "numChannels s' = numChannels s"
    "row_To_QR_T s' = row_To_QR_T s" "QR_To_Row_T s' = QR_To_Row_T s" "nextFreeQR_ID s' = nextFreeQR_ID s"
    "QRTail_ID s' = QRTail_ID s" "prevQRHead_ID s' = prevQRHead_ID s" "numQREntries s' = numQREntries s"
    "rows_per_btv_bit s' = rows_per_btv_bit s" "randRowID s' = randRowID s" "detector s' = detector s"
    "virtualize_RIT s' = virtualize_RIT s" "numAccessesToRow s' = numAccessesToRow s" "last_reset s' = last_reset s"
    "generateCBFID s' = generateCBFID s" "quarantined s' = quarantined s"
  using assms by (auto simp: rq_aux_def generateCBFID_def quarantined_def fun_eq_iff)

lemma filter_ok_frame [simp]:
  "filter_ok (s\<lparr>decision := d\<rparr>) A = filter_ok s A" "filter_ok (s\<lparr>rh_stats := st\<rparr>) A = filter_ok s A"
  "filter_ok (s\<lparr>rq_cache := c\<rparr>) A = filter_ok s A" "filter_ok (s\<lparr>ORR_CBF := orr\<rparr>) A = filter_ok s A"
  "filter_ok (s\<lparr>row_To_QR_T := R\<rparr>) A = filter_ok s A" "filter_ok (s\<lparr>QR_To_Row_T := Q\<rparr>) A = filter_ok s A"
  "filter_ok (s\<lparr>nextFreeQR_ID := n\<rparr>) A = filter_ok s A" "filter_ok (s\<lparr>QRTail_ID := n\<rparr>) A = filter_ok s A"
  "filter_ok (s\<lparr>prevQRHead_ID := n\<rparr>) A = filter_ok s A" "filter_ok (s\<lparr>detector := dt\<rparr>) A = filter_ok s A"
  "filter_ok (s\<lparr>last_reset := t\<rparr>) A = filter_ok s A" "filter_ok (s\<lparr>numAccessesToRow := na\<rparr>) A = filter_ok s A"
  "filter_ok (s\<lparr>prev_drain_cache_miss_val := m\<rparr>) A = filter_ok s A"
  by (simp_all add: filter_ok_def cong: option.case_cong)

lemma cache_ok_frame [simp]:
  "cache_ok (s\<lparr>decision := d\<rparr>) A = cache_ok s A" "cache_ok (s\<lparr>rh_stats := st\<rparr>) A = cache_ok s A"
  "cache_ok (s\<lparr>row_To_QR_T := R\<rparr>) A = cache_ok s A" "cache_ok (s\<lparr>QR_To_Row_T := Q\<rparr>) A = cache_ok s A"
  "cache_ok (s\<lparr>nextFreeQR_ID := n\<rparr>) A = cache_ok s A" "cache_ok (s\<lparr>QRTail_ID := n\<rparr>) A = cache_ok s A"
  "cache_ok (s\<lparr>prevQRHead_ID := n\<rparr>) A = cache_ok s A" "cache_ok (s\<lparr>detector := dt\<rparr>) A = cache_ok s A"
  "cache_ok (s\<lparr>last_reset := t\<rparr>) A = cache_ok s A" "cache_ok (s\<lparr>numAccessesToRow := na\<rparr>) A = cache_ok s A"
  "cache_ok (s\<lparr>prev_drain_cache_miss_val := m\<rparr>) A = cache_ok s A"
  by (simp_all add: cache_ok_def cong: option.case_cong)

lemma delay_frame [simp]:
  "filter_ok (add_delay t s) A = filter_ok s A" "filter_ok (add_SRAM_delay t s) A = filter_ok s A"
  "filter_ok (upd_stats h s) A = filter_ok s A" "filter_ok (virtual_delay s) A = filter_ok s A"
  "filter_ok (table_delay s) A = filter_ok s A" "filter_ok (put_cache c s) A = filter_ok s A"
  "cache_ok (add_delay t s) A = cache_ok s A" "cache_ok (add_SRAM_delay t s) A = cache_ok s A"
  "cache_ok (upd_stats h s) A = cache_ok s A" "cache_ok (virtual_delay s) A = cache_ok s A"
  "cache_ok (table_delay s) A = cache_ok s A"
  by (simp_all add: add_delay_def add_SRAM_delay_def put_cache_def upd_stats_def table_delay_def virtual_delay_def)

lemma delay_cache [simp]:
  "rq_cache (add_delay t s) = rq_cache s" "rq_cache (add_SRAM_delay t s) = rq_cache s"
  "rq_cache (upd_stats h s) = rq_cache s" "rq_cache (virtual_delay s) = rq_cache s"
  "rq_cache (table_delay s) = rq_cache s" "rq_cache (put_cache c s) = Some c"
  by (simp_all add: add_delay_def add_SRAM_delay_def put_cache_def upd_stats_def table_delay_def virtual_delay_def)

definition keeps_filter :: "'d rq \<Rightarrow> 'd rq \<Rightarrow> bool" where
  "keeps_filter s s' \<longleftrightarrow> rq_aux s s' \<and> rq_filter s' = rq_filter s \<and> bitvector s' = bitvector s \<and> ORR_CBF s' = ORR_CBF s"

lemma keeps_filterD:
  assumes "keeps_filter s s'"
  shows "rq_aux s s'" "rq_filter s' = rq_filter s" "bitvector s' = bitvector s" "ORR_CBF s' = ORR_CBF s"
    "filter_ok s' A = filter_ok s A"
proof -
  show a: "rq_aux s s'" "rq_filter s' = rq_filter s" "bitvector s' = bitvector s" "ORR_CBF s' = ORR_CBF s"
    using assms by (simp_all add: keeps_filter_def)
  show "filter_ok s' A = filter_ok s A"
    using a rq_auxD[OF a(1)] by (simp add: filter_ok_def cong: option.case_cong)
qed

lemma keeps_filter_trans: "keeps_filter s s1 \<Longrightarrow> keeps_filter s1 s2 \<Longrightarrow> keeps_filter s s2"
  by (auto simp: keeps_filter_def intro: rq_aux_trans)

lemma keeps_filter_steps [simp, intro]:
  "keeps_filter s s" "keeps_filter s (add_delay t s)" "keeps_filter s (add_SRAM_delay t s)"
  "keeps_filter s (put_cache c s)" "keeps_filter s (upd_stats h s)" "keeps_filter s (table_delay s)"
  "keeps_filter s (virtual_delay s)" "keeps_filter s (s\<lparr>rh_stats := st\<rparr>)" "keeps_filter s (s\<lparr>decision := d\<rparr>)"
  "keeps_filter s (put_cache c (s\<lparr>rh_stats := st\<rparr>))"
  using rq_aux_trans[OF rq_aux_steps(3) rq_aux_more(3)]
  by (simp_all add: keeps_filter_def,
      simp_all add: add_delay_def add_SRAM_delay_def put_cache_def upd_stats_def table_delay_def virtual_delay_def)

lemma generateCBFID_id: "numBanks s = 1 \<Longrightarrow> numRows s < u32_size \<Longrightarrow> r < numRows s \<Longrightarrow> generateCBFID s r 0 = r"
  by (simp add: generateCBFID_def)

lemma cache_okD:
  assumes "cache_ok s A" and "rq_cache s = Some c"
  shows "fc_wf c" "fc_cached c \<subseteq> A" "m_blk_offset c = 5" "partial_lookup_factor c = rows_per_btv_bit s"
    "rows_per_btv_bit s dvd 32" "rows_per_btv_bit s dvd numRows s" "rq_filter s = None \<Longrightarrow> ORR_CBF s = bitvector s"
  using assms by (auto simp: cache_ok_def)

lemma cache_ok_put:
  assumes ok: "cache_ok s A" and c: "rq_cache s = Some c" and s': "keeps_filter s s'" "rq_cache s' = Some c'"
    and c': "fc_wf c'" "fc_cached c' \<subseteq> B" "fc_geom c' = fc_geom c"
  shows "cache_ok s' B"
  using cache_okD[OF ok c] s' c' fc_geomD[OF c'(3)] rq_auxD[of s s'] by (auto simp: cache_ok_def keeps_filter_def)

lemma cache_ok_mono: "cache_ok s A \<Longrightarrow> A \<subseteq> B \<Longrightarrow> cache_ok s B"
  by (auto simp: cache_ok_def split: option.splits)

lemma cache_mapping_ok:
  assumes ok: "cache_ok s A" and a: "a \<in> A"
  obtains s' where "cache_mapping a s = Inr s'" and "keeps_filter s s'" and "cache_ok s' A"
proof (cases "rq_cache s")
  case None
  then show ?thesis using that ok by (simp add: cache_mapping_def)
next
  case (Some c)
  note c = cache_okD[OF ok Some]
  obtain w c1 where l: "fc_Lookup c a False = Inr (w, c1)" "w < m_ways c \<longleftrightarrow> a \<in> fc_cached c" "w \<le> m_ways c"
    "fc_wf c1" "fc_cached c1 = fc_cached c" "fc_geom c1 = fc_geom c"
    "w < m_ways c \<Longrightarrow> cb_valid (fc_row c1 a ! w) \<and> cb_tag (fc_row c1 a ! w) = a"
    by (rule fc_Lookup_ok[OF c(1), of a False], rule that)
  note g1 = fc_geomD[OF l(6)]
  show ?thesis
  proof (cases "w = m_ways c1")
    case True
    then have new: "a \<notin> fc_cached c1" using l(2,5) g1 by auto
    obtain d ev c' st where i: "insertRowInCache a True c1 s = Inr (d, ev, put_cache c' (s\<lparr>rh_stats := st\<rparr>))"
      "fc_wf c'" "fc_cached c' \<subseteq> insert a (fc_cached c1)" "fc_geom c' = fc_geom c1"
      by (rule insertRowInCache_ok[OF l(4) new, of True s], rule that)
    let ?s1 = "put_cache c' (s\<lparr>rh_stats := st\<rparr>)"
    let ?s2 = "if virtualize_RIT ?s1 \<and> d then add_delay (2 * accDelay ?s1) ?s1 else ?s1"
    have k: "keeps_filter s ?s2"
      using keeps_filter_trans[OF keeps_filter_steps(10) keeps_filter_steps(2)] keeps_filter_steps(10) by auto
    have rc: "rq_cache ?s2 = Some c'" by simp
    have "fc_cached c' \<subseteq> A" "fc_geom c' = fc_geom c" using i l a c(2) by auto
    then have "cache_ok ?s2 A" by (rule cache_ok_put[OF ok Some k rc i(2)])
    moreover have "cache_mapping a s = Inr ?s2"
      using Some l(1) True i(1) by (simp add: cache_mapping_def)
    ultimately show ?thesis using that k by blast
  next
    case False
    then have w: "w < m_ways c1" "cb_valid (fc_row c1 a ! w)" using l(3,7) g1 by auto
    obtain c2 where c2: "fc_SetDirtyBit c1 a w = Inr c2" "fc_wf c2" "fc_cached c2 = fc_cached c1" "fc_geom c2 = fc_geom c1"
      by (rule fc_SetDirtyBit_ok[OF l(4) w], rule that)
    have rc: "rq_cache (put_cache c2 s) = Some c2" by simp
    have "fc_cached c2 \<subseteq> A" "fc_geom c2 = fc_geom c" using c2 l c(2) by auto
    then have "cache_ok (put_cache c2 s) A" by (rule cache_ok_put[OF ok Some keeps_filter_steps(4) rc c2(2)])
    moreover have "cache_mapping a s = Inr (put_cache c2 s)"
      using Some l(1) False c2(1) by (simp add: cache_mapping_def)
    ultimately show ?thesis using that by blast
  qed
qed

lemma removeRow_ok:
  assumes geo: "numBanks s = 1" "numRows s < u32_size"
    and q: "q < numQREntries s" and B: "qe_value (QR_To_Row_T s q) = B" "B < numRows s" "qe_valid (row_To_QR_T s B)" "B \<in> A"
    and f: "filter_ok s A" and c: "cache_ok s A"
  obtains d s' where "removeRow q s = Inr (d, s')"
    and "rq_aux (s\<lparr>QR_To_Row_T := drop_entry q (QR_To_Row_T s), row_To_QR_T := drop_entry B (row_To_QR_T s)\<rparr>) s'"
    and "filter_ok s' (A - {B})" and "cache_ok s' (A - {B})"
proof -
  let ?s1 = "s\<lparr>QR_To_Row_T := drop_entry q (QR_To_Row_T s), row_To_QR_T := drop_entry B (row_To_QR_T s)\<rparr>"
  have id: "generateCBFID ?s1 B 0 = B" using generateCBFID_id geo B(2) by (simp add: generateCBFID_def)
  have f1: "filter_ok ?s1 A" using f by simp
  obtain f' b where fr: "filter_remove B ?s1 = Inr (?s1\<lparr>rq_filter := f', bitvector := b\<rparr>)"
    "filter_ok (?s1\<lparr>rq_filter := f', bitvector := b\<rparr>) (A - {B})" "f' = None \<longleftrightarrow> rq_filter ?s1 = None"
    "rq_filter ?s1 = None \<Longrightarrow> b = (bitvector ?s1)(B div rows_per_btv_bit ?s1 := dec32 (bitvector ?s1 (B div rows_per_btv_bit ?s1)))"
    by (rule filter_remove_ok[OF f1 B(4)], rule that)
  let ?s2 = "?s1\<lparr>rq_filter := f', bitvector := b\<rparr>"
  have rpb: "0 < rows_per_btv_bit s" using f by (simp add: filter_ok_def)
  have a2: "rq_aux ?s1 ?s2" by (rule rq_aux_trans[OF rq_aux_steps(5) rq_aux_steps(6)])
  show ?thesis
  proof (cases "rq_cache s")
    case None
    then have "cache_ok ?s2 (A - {B})" by (simp add: cache_ok_def)
    moreover have "removeRow q s = Inr (False, ?s2)"
      using q B fr(1) id None by (simp add: removeRow_def drop_entry_def Let_def)
    ultimately show ?thesis using that fr(2) a2 by blast
  next
    case (Some ch)
    note ch = cache_okD[OF c Some]
    obtain d ev c' st where r: "removeRowFromCache B ch ?s2 = Inr (d, ev, put_cache c' (?s2\<lparr>rh_stats := st\<rparr>))"
      "fc_wf c'" "fc_cached c' = fc_cached ch - {B}" "fc_geom c' = fc_geom ch"
      by (rule removeRowFromCache_ok[OF ch(1), of B ?s2], rule that)
    let ?s3 = "put_cache c' (?s2\<lparr>rh_stats := st\<rparr>)"
    let ?g = "B div rows_per_btv_bit s"
    let ?s4 = "?s3\<lparr>ORR_CBF := (ORR_CBF s)(?g := dec32 (ORR_CBF s ?g))\<rparr>"
    have "removeRow q s = Inr (d, ?s4)"
      using q B fr(1) id Some r(1) rpb by (simp add: removeRow_def drop_entry_def Let_def put_cache_def)
    moreover have "rq_aux ?s1 ?s4"
      by (rule rq_aux_trans[OF rq_aux_trans[OF rq_aux_trans[OF a2 rq_aux_steps(3)] rq_aux_more(3)] rq_aux_steps(7)])
    moreover have "filter_ok ?s4 (A - {B})" using fr(2) by (simp add: put_cache_def)
    moreover have "cache_ok ?s4 (A - {B})"
      using ch r(2,3) fc_geomD[OF r(4)] fr(3,4) by (auto simp: cache_ok_def put_cache_def)
    ultimately show ?thesis using that by blast
  qed
qed

lemma find_SomeD: "find P xs = Some x \<Longrightarrow> x \<in> set xs \<and> P x"
  by (induction xs) (auto split: if_splits)

lemma group_scan_ok:
  "(\<And>i. i \<in> set is \<Longrightarrow> i < numRows s) \<Longrightarrow>
    group_scan s is = Inr (find (\<lambda>i. qe_valid (row_To_QR_T s i)) is)"
  by (induction "is") auto

lemma group_rows:
  fixes rpb n row i :: nat
  assumes "0 < rpb" and "rpb dvd n" and "row < n" and "row div rpb * rpb \<le> i" and "i < row div rpb * rpb + rpb"
  shows "i < n" and "i div rpb = row div rpb"
proof -
  show g: "i div rpb = row div rpb"
    using assms(1,4,5) by (intro div_nat_eqI) (simp_all add: mult.commute)
  obtain k where k: "n = k * rpb" using assms(2) by (metis dvd_def mult.commute)
  have "row div rpb < k" using assms(1,3) k by (simp add: less_mult_imp_div_less)
  then have "(row div rpb + 1) * rpb \<le> k * rpb" by (intro mult_le_mono1) simp
  then show "i < n" using assms(5) k by simp
qed

lemma fc_set_group:
  assumes "m_blk_offset c = 5" and "rpb dvd 32" and "i div rpb = r div rpb"
  shows "fc_set c i = fc_set c r"
proof -
  obtain k where k: "32 = rpb * k" using assms(2) by (auto simp: dvd_def)
  have "i div 32 = r div 32" unfolding k div_mult2_eq by (simp add: assms(3))
  then show ?thesis using assms(1) by (simp add: fc_set_def)
qed

lemma fill_after_miss_ok:
  assumes ok: "cache_ok s (quarantined s)" and c: "rq_cache s = Some c" and rpb: "0 < rows_per_btv_bit s"
    and geo: "numBanks s = 1" "numRows s < u32_size" and row: "row < numRows s" and miss: "row \<notin> fc_cached c"
    and line: "ORR_CBF s (row div rows_per_btv_bit s) = 1 \<Longrightarrow>
      \<forall>t\<in>fc_cached c. fc_set c t = fc_set c row \<longrightarrow> t div rows_per_btv_bit s \<noteq> row div rows_per_btv_bit s"
  obtains s' where "fill_after_miss row row c s = Inr s'" and "keeps_filter s s'" and "cache_ok s' (quarantined s)"
proof -
  note ck = cache_okD[OF ok c]
  let ?s = "table_delay s" and ?n = "rows_per_btv_bit s"
  have k0: "keeps_filter s ?s" by (rule keeps_filter_steps(6))
  note e0 = rq_auxD[OF keeps_filterD(1)[OF k0]]
  let ?is = "[row div ?n * ?n..<row div ?n * ?n + ?n]"
  have scan: "group_scan ?s ?is = Inr (find (\<lambda>i. qe_valid (row_To_QR_T s i)) ?is)"
    using group_scan_ok[of ?is ?s] group_rows(1)[OF rpb ck(6) row] e0 by simp
  define ins where "ins = (if qe_valid (row_To_QR_T s row) then row
     else case find (\<lambda>i. qe_valid (row_To_QR_T s i)) ?is of None \<Rightarrow> numRows s | Some i \<Rightarrow> i)"
  obtain h where pick: "pick_mapping row row ?s = Inr (ins, upd_stats h ?s)"
  proof (cases "qe_valid (row_To_QR_T s row)")
    case True
    then show ?thesis using that e0 by (simp add: ins_def pick_mapping_def)
  next
    case False
    have u: "upd_stats id ?s = ?s" by (simp add: upd_stats_def)
    show ?thesis
    proof (cases "ORR_CBF ?s (row div ?n) = 1")
      case True
      show ?thesis
        by (rule that[of "\<lambda>st. st\<lparr>s_cache_miss_line_entry_inserts := s_cache_miss_line_entry_inserts st + 1\<rparr>"])
          (use True False e0 scan rpb in \<open>simp add: ins_def pick_mapping_def split: option.split\<close>)
    next
      case orr: False
      show ?thesis
        by (rule that[of id]) (use orr False e0 scan rpb u in \<open>simp add: ins_def pick_mapping_def split: option.split\<close>)
    qed
  qed
  let ?s1 = "upd_stats h ?s"
  have k1: "keeps_filter s ?s1" by (rule keeps_filter_trans[OF k0 keeps_filter_steps(5)])
  note e1 = rq_auxD[OF keeps_filterD(1)[OF k1]] and o1 = keeps_filterD(4)[OF k1]
  have run: "fill_after_miss row row c s = (if ins < numRows ?s1 \<and> (ins = row \<or> ORR_CBF ?s1 (row div ?n) = 1)
           then rbind (insertRowInCache (generateCBFID ?s1 ins 0) False c ?s1) (\<lambda>(isDirty, evicted, s2).
                  Inr (if virtualize_RIT s2 \<and> isDirty \<and> row div 32 \<noteq> evicted div 32
                       then add_delay (2 * accDelay s2) s2 else s2))
           else Inr ?s1)"
    using pick e1 by (simp add: fill_after_miss_def)
  have c1: "rq_cache ?s1 = Some c" using c by simp
  show ?thesis
  proof (cases "ins < numRows s \<and> (ins = row \<or> ORR_CBF s (row div ?n) = 1)")
    case False
    then have "\<not> (ins < numRows ?s1 \<and> (ins = row \<or> ORR_CBF ?s1 (row div ?n) = 1))" unfolding e1(1) o1 .
    then have "fill_after_miss row row c s = Inr ?s1" unfolding run by (rule if_not_P)
    then show ?thesis using that k1 ok by simp
  next
    case True
    have q: "ins \<in> quarantined s"
    proof (cases "qe_valid (row_To_QR_T s row)")
      case False
      then obtain i where i: "find (\<lambda>i. qe_valid (row_To_QR_T s i)) ?is = Some i" "ins = i"
        using True by (cases "find (\<lambda>i. qe_valid (row_To_QR_T s i)) ?is") (auto simp: ins_def)
      have "qe_valid (row_To_QR_T s i)" using find_SomeD[OF i(1)] by (rule conjunct2)
      then show ?thesis using True i(2) by (simp add: quarantined_def)
    qed (use row in \<open>simp add: ins_def quarantined_def\<close>)
    have new: "ins \<notin> fc_cached c"
    proof (cases "ins = row")
      case False
      then have nv: "\<not> qe_valid (row_To_QR_T s row)" by (auto simp: ins_def)
      then obtain i where i: "find (\<lambda>i. qe_valid (row_To_QR_T s i)) ?is = Some i" "ins = i"
        using True by (cases "find (\<lambda>i. qe_valid (row_To_QR_T s i)) ?is") (auto simp: ins_def)
      have "i \<in> set ?is" using find_SomeD[OF i(1)] by (rule conjunct1)
      then have g: "i div ?n = row div ?n" using group_rows(2)[OF rpb ck(6) row, of i] by simp
      then have "fc_set c i = fc_set c row" by (rule fc_set_group[OF ck(3,5)])
      moreover have "ORR_CBF s (row div ?n) = 1" using True False by simp
      ultimately show ?thesis using line g i(2) by auto
    qed (use miss in simp)
    have id: "generateCBFID ?s1 ins 0 = ins" using generateCBFID_id[of ?s1 ins] geo True e1 by simp
    obtain dd ev c' st where ins: "insertRowInCache ins False c ?s1 = Inr (dd, ev, put_cache c' (?s1\<lparr>rh_stats := st\<rparr>))"
      "fc_wf c'" "fc_cached c' \<subseteq> insert ins (fc_cached c)" "fc_geom c' = fc_geom c"
      by (rule insertRowInCache_ok[OF ck(1) new, of False ?s1], rule that)
    let ?s2 = "put_cache c' (?s1\<lparr>rh_stats := st\<rparr>)"
    let ?s3 = "if virtualize_RIT ?s2 \<and> dd \<and> row div 32 \<noteq> ev div 32 then add_delay (2 * accDelay ?s2) ?s2 else ?s2"
    have k2: "keeps_filter s ?s2" by (rule keeps_filter_trans[OF k1 keeps_filter_steps(10)])
    have k3: "keeps_filter s ?s3" using k2 keeps_filter_trans[OF k2 keeps_filter_steps(2)] by simp
    have rc: "rq_cache ?s3 = Some c'" by simp
    have "fc_cached c' \<subseteq> quarantined s" using ins(3) ck(2) q by blast
    then have "cache_ok ?s3 (quarantined s)" by (rule cache_ok_put[OF ok c k3 rc ins(2) _ ins(4)])
    moreover have "fill_after_miss row row c s = Inr ?s3"
      unfolding run using True e1 o1 id ins(1) by simp
    ultimately show ?thesis using that k3 by blast
  qed
qed

lemma check_cache_ok:
  assumes ok: "cache_ok s (quarantined s)" and c: "rq_cache s = Some c" and rpb: "0 < rows_per_btv_bit s"
    and geo: "numBanks s = 1" "numRows s < u32_size" and row: "row < numRows s"
  obtains s' where "check_cache row row c s = Inr s'" and "keeps_filter s s'" and "cache_ok s' (quarantined s)"
proof -
  note ck = cache_okD[OF ok c]
  let ?n = "rows_per_btv_bit s"
  obtain w c1 where l: "fc_Lookup c row True = Inr (w, c1)" "w < m_ways c \<longleftrightarrow> row \<in> fc_cached c" "w \<le> m_ways c"
    "fc_wf c1" "fc_cached c1 = fc_cached c" "fc_geom c1 = fc_geom c"
    "w < m_ways c \<Longrightarrow> cb_valid (fc_row c1 row ! w) \<and> cb_tag (fc_row c1 row ! w) = row"
    by (rule fc_Lookup_ok[OF ck(1), of row True], rule that)
  note g1 = fc_geomD[OF l(6)]
  show ?thesis
  proof (cases "w < m_ways c")
    case True
    let ?s' = "upd_stats (\<lambda>st. st\<lparr>s_cache_hit := s_cache_hit st + 1\<rparr>) (put_cache c1 s)"
    have k: "keeps_filter s ?s'" by (rule keeps_filter_trans[OF keeps_filter_steps(4) keeps_filter_steps(5)])
    have rc: "rq_cache ?s' = Some c1" by simp
    have "fc_cached c1 \<subseteq> quarantined s" using l(5) ck(2) by simp
    from cache_ok_put[OF ok c k rc l(4) this l(6)] show ?thesis
      using that l(1) True g1 k by (simp add: check_cache_def)
  next
    case False
    obtain w2 c2 where p: "fc_PartialLookup c1 row = Inr (w2, c2)"
      "w2 < m_ways c1 \<longleftrightarrow> (\<exists>t\<in>fc_cached c1. fc_set c1 t = fc_set c1 row \<and>
        t div partial_lookup_factor c1 = row div partial_lookup_factor c1)"
      "fc_wf c2" "fc_cached c2 = fc_cached c1" "fc_geom c2 = fc_geom c1"
      by (rule fc_PartialLookup_ok[OF l(4), of row], rule that)
    note g2 = fc_geomD[OF p(5)]
    have line: "w2 < m_ways c2 \<longleftrightarrow> (\<exists>t\<in>fc_cached c. fc_set c t = fc_set c row \<and> t div ?n = row div ?n)"
      using p(2) g1 g2 l(5) ck(4) by simp
    let ?s1 = "put_cache c2 s"
    have k1: "keeps_filter s ?s1" by (rule keeps_filter_steps(4))
    have rc1: "rq_cache ?s1 = Some c2" by simp
    have sub: "fc_cached c2 \<subseteq> quarantined s" and gm: "fc_geom c2 = fc_geom c" using p l ck(2) by simp_all
    have ok1: "cache_ok ?s1 (quarantined s)" by (rule cache_ok_put[OF ok c k1 rc1 p(3) sub gm])
    have n1: "rows_per_btv_bit ?s1 = ?n" "ORR_CBF ?s1 = ORR_CBF s" using rq_auxD(11) keeps_filterD(1,4)[OF k1] by auto
    have fill: "\<exists>s'. fill_after_miss row row c2 (upd_stats h ?s1) = Inr s' \<and> keeps_filter s s' \<and> cache_ok s' (quarantined s)"
      if "ORR_CBF s (row div ?n) = 1 \<Longrightarrow> \<not> w2 < m_ways c2" for h
    proof -
      let ?s2 = "upd_stats h ?s1"
      have k2: "keeps_filter s ?s2" by (rule keeps_filter_trans[OF k1 keeps_filter_steps(5)])
      note e2 = rq_auxD[OF keeps_filterD(1)[OF k2]] and o2 = keeps_filterD(4)[OF k2]
      obtain s' where "fill_after_miss row row c2 ?s2 = Inr s'" "keeps_filter ?s2 s'" "cache_ok s' (quarantined ?s2)"
      proof (rule fill_after_miss_ok[of ?s2 c2 row])
        show "cache_ok ?s2 (quarantined ?s2)" using ok1 e2(18) by simp
        show "row \<notin> fc_cached c2" using False l(2,5) p(4) by simp
        show "\<forall>t\<in>fc_cached c2. fc_set c2 t = fc_set c2 row \<longrightarrow> t div rows_per_btv_bit ?s2 \<noteq> row div rows_per_btv_bit ?s2"
          if "ORR_CBF ?s2 (row div rows_per_btv_bit ?s2) = 1"
          using that \<open>ORR_CBF s (row div ?n) = 1 \<Longrightarrow> \<not> w2 < m_ways c2\<close> line o2 e2(11) p(4) l(5) g1 g2 by simp
      qed (use e2 rpb geo row in simp_all)
      then show ?thesis using keeps_filter_trans[OF k2] e2(18) by auto
    qed
    have run: "check_cache row row c s =
         (if w2 < m_ways c2 then rnonzero ?n
           (if ORR_CBF s (row div ?n) = 1
            then Inr (upd_stats (\<lambda>st. st\<lparr>s_cache_partial_hit_orr_set := s_cache_partial_hit_orr_set st + 1\<rparr>) ?s1)
            else fill_after_miss row row c2
                   (upd_stats (\<lambda>st. st\<lparr>s_cache_partial_hit_orr_unset := s_cache_partial_hit_orr_unset st + 1\<rparr>) ?s1))
         else fill_after_miss row row c2
                (upd_stats (\<lambda>st. st\<lparr>s_cache_miss := s_cache_miss st + 1\<rparr>) ?s1))"
      using l(1) False g1 p(1) n1 by (simp add: check_cache_def)
    show ?thesis
    proof (cases "w2 < m_ways c2 \<and> ORR_CBF s (row div ?n) = 1")
      case True
      let ?s2 = "upd_stats (\<lambda>st. st\<lparr>s_cache_partial_hit_orr_set := s_cache_partial_hit_orr_set st + 1\<rparr>) ?s1"
      have "check_cache row row c s = Inr ?s2" unfolding run using True rpb by simp
      moreover have "keeps_filter s ?s2" by (rule keeps_filter_trans[OF k1 keeps_filter_steps(5)])
      ultimately show ?thesis using that ok1 by simp
    next
      case False
      then show ?thesis using fill that rpb unfolding run by (cases "w2 < m_ways c2") (simp_all, metis+)
    qed
  qed
qed

lemma addQCheckDelay_ok:
  assumes inv: "rq_inv s" and row: "row < numRows s"
  obtains s' where "addQCheckDelay row s = Inr s'" and "rq_inv s'" and "rq_aux s s'"
proof -
  have geo: "numBanks s = 1" "numRows s < u32_size" and f: "filter_ok s (quarantined s)" and c: "cache_ok s (quarantined s)"
    using inv by (simp_all add: rq_inv_def)
  have rpb: "0 < rows_per_btv_bit s" using f by (simp add: filter_ok_def)
  have id: "generateCBFID s row 0 = row" by (rule generateCBFID_id[OF geo row])
  let ?s = "add_SRAM_delay (SRAM_CBF_accDelay s) s"
  have k0: "keeps_filter s ?s" by (rule keeps_filter_steps(3))
  note e0 = rq_auxD[OF keeps_filterD(1)[OF k0]]
  have f0: "filter_ok ?s (quarantined s)" using f by simp
  obtain b where b: "maybe_quarantined ?s row = Inr b" "row \<in> quarantined s \<Longrightarrow> b"
    by (rule maybe_quarantined_ok[OF f0, of row], rule that)
  have fin: "rq_inv s'" if "rq_aux s s'" "filter_ok s' (quarantined s)" "cache_ok s' (quarantined s)" for s'
    using that inv rq_auxD[OF that(1)] by (simp add: rq_inv_def)
  show ?thesis
  proof (cases b)
    case False
    let ?s' = "count_negative ?s"
    have a: "rq_aux s ?s'" by (rule rq_aux_trans[OF keeps_filterD(1)[OF k0] rq_aux_more(8)])
    have "\<not> qe_valid (row_To_QR_T s row)" using b(2) False row by (auto simp: quarantined_def)
    then have "addQCheckDelay row s = Inr ?s'"
      using row id b(1) False rq_auxD(5)[OF a] by (simp add: addQCheckDelay_def Let_def)
    moreover have "filter_ok ?s' (quarantined s)" "cache_ok ?s' (quarantined s)"
      using f0 c by (auto simp: count_negative_def filter_ok_def cache_ok_def cbf_rep_def cbf_room_def cbf_slots_def
          upd_stats_def add_SRAM_delay_def split: option.splits)
    ultimately show ?thesis using that fin[OF a] a by blast
  next
    case True
    obtain s1 where s1: "(case rq_cache ?s of
                    Some c \<Rightarrow> check_cache row row c (add_SRAM_delay (SRAM_Cache_accDelay ?s) ?s)
                  | None \<Rightarrow> Inr (table_delay ?s)) = Inr s1" "keeps_filter s s1" "cache_ok s1 (quarantined s)"
    proof (cases "rq_cache s")
      case None
      then show ?thesis using that[of "table_delay ?s"] c keeps_filter_trans[OF k0 keeps_filter_steps(6)] by simp
    next
      case (Some ch)
      let ?s0 = "add_SRAM_delay (SRAM_Cache_accDelay ?s) ?s"
      have k1: "keeps_filter s ?s0" by (rule keeps_filter_trans[OF k0 keeps_filter_steps(3)])
      note e1 = rq_auxD[OF keeps_filterD(1)[OF k1]]
      obtain s' where s': "check_cache row row ch ?s0 = Inr s'" "keeps_filter ?s0 s'" "cache_ok s' (quarantined ?s0)"
        by (rule check_cache_ok[of ?s0 ch row]) (use c Some e1 rpb geo row in simp_all)
      then show ?thesis using that Some keeps_filter_trans[OF k1] e1(18) by simp
    qed
    let ?s' = "count_positive (qe_valid (row_To_QR_T s1 row)) s1"
    have a: "rq_aux s ?s'" by (rule rq_aux_trans[OF keeps_filterD(1)[OF s1(2)] rq_aux_more(7)])
    have "addQCheckDelay row s = Inr ?s'"
      using row id b(1) True s1(1) by (simp add: addQCheckDelay_def Let_def)
    moreover have "filter_ok s1 (quarantined s)" using keeps_filterD(5)[OF s1(2)] f by simp
    then have "filter_ok ?s' (quarantined s)" "cache_ok ?s' (quarantined s)"
      using s1(3) by (auto simp: count_positive_def filter_ok_def cache_ok_def cbf_rep_def cbf_room_def cbf_slots_def
          upd_stats_def split: option.splits)
    ultimately show ?thesis using that fin[OF a] a by blast
  qed
qed

end
