(* ===== verification/Row_Quar_Safe.thy ===== *)
theory Row_Quar_Safe
  imports Row_Quar_Inv
begin

text \<open>
  What the quarantine of \<open>Row_Quar\<close> promises: moves, drains, resets and whole accesses keep the
  invariant of \<open>Row_Quar_Inv\<close>, and the set of rows in quarantine changes as stated.
\<close>

lemma filter_ok_slots:
  assumes "filter_ok s A"
  shows "numQREntries s < u32_size"
proof (cases "rq_filter s")
  case (Some f)
  then have "numQREntries s < (u32_size - 1) div numHashes f" using assms by (simp add: filter_ok_def cbf_room_def)
  also have "\<dots> \<le> u32_size - 1" by (rule div_le_dividend)
  finally show ?thesis by simp
qed (use assms in \<open>simp add: filter_ok_def\<close>)

lemma evict_head_ok:
  assumes geo: "numBanks s = 1" "numRows s < u32_size"
    and i: "nextFreeQR_ID s = i" "i < numQREntries s" and B: "qe_value (QR_To_Row_T s i) = B"
    and v: "qe_valid (QR_To_Row_T s i) \<Longrightarrow> B < numRows s \<and> qe_valid (row_To_QR_T s B) \<and> B \<in> S"
    and f: "filter_ok s S" and c: "cache_ok s S"
  obtains rem s' where "evict_head row had s = Inr (rem, s')"
    and "rq_aux (s\<lparr>row_To_QR_T := if qe_valid (QR_To_Row_T s i) then drop_entry B (row_To_QR_T s) else row_To_QR_T s,
           QR_To_Row_T := if qe_valid (QR_To_Row_T s i) then drop_entry i (QR_To_Row_T s) else QR_To_Row_T s\<rparr>) s'"
    and "filter_ok s' (if qe_valid (QR_To_Row_T s i) then S - {B} else S)"
    and "cache_ok s' (if qe_valid (QR_To_Row_T s i) then S - {B} else S)"
proof (cases "qe_valid (QR_To_Row_T s i)")
  case False
  then have "s = s\<lparr>row_To_QR_T := if qe_valid (QR_To_Row_T s i) then drop_entry B (row_To_QR_T s) else row_To_QR_T s,
           QR_To_Row_T := if qe_valid (QR_To_Row_T s i) then drop_entry i (QR_To_Row_T s) else QR_To_Row_T s\<rparr>" by simp
  then have "rq_aux (s\<lparr>row_To_QR_T := if qe_valid (QR_To_Row_T s i) then drop_entry B (row_To_QR_T s) else row_To_QR_T s,
           QR_To_Row_T := if qe_valid (QR_To_Row_T s i) then drop_entry i (QR_To_Row_T s) else QR_To_Row_T s\<rparr>) s" by simp
  then show ?thesis using that[of False s] False i f c by (simp add: evict_head_def)
next
  case True
  note v = v[OF True]
  let ?s1 = "s\<lparr>QR_To_Row_T := drop_entry i (QR_To_Row_T s), row_To_QR_T := drop_entry B (row_To_QR_T s)\<rparr>"
  obtain d s' where r: "removeRow i s = Inr (d, s')" "rq_aux ?s1 s'" "filter_ok s' (S - {B})" "cache_ok s' (S - {B})"
    by (rule removeRow_ok[OF geo i(2) B _ _ _ f c], use v in blast, use v in blast, use v in blast, rule that)
  let ?s2 = "add_delay (moveDelay s') s'"
  let ?s3 = "if had \<and> row div 32 \<noteq> B div 32 then virtual_delay ?s2 else ?s2"
  have "evict_head row had s = Inr (True, ?s3)" using True i B r(1) by (simp add: evict_head_def Let_def)
  moreover have "rq_aux ?s1 ?s3"
    using rq_aux_trans[OF r(2) rq_aux_more(1)] rq_aux_trans[OF rq_aux_trans[OF r(2) rq_aux_more(1)] rq_aux_more(6)] by auto
  moreover have "?s1 = s\<lparr>row_To_QR_T := drop_entry B (row_To_QR_T s), QR_To_Row_T := drop_entry i (QR_To_Row_T s)\<rparr>"
    by simp
  ultimately show ?thesis using that True r(3,4) by simp
qed

text \<open>The reverse table after row \<open>row\<close> has taken slot \<open>i\<close> and left \<open>orig\<close>.\<close>

definition moved_slots :: "nat \<Rightarrow> nat option \<Rightarrow> nat \<Rightarrow> (nat \<Rightarrow> qentry) \<Rightarrow> nat \<Rightarrow> qentry" where
  "moved_slots row orig i Q = (case orig of None \<Rightarrow> Q(i := \<lparr>qe_valid = True, qe_value = row\<rparr>)
     | Some j \<Rightarrow> drop_entry j (Q(i := \<lparr>qe_valid = True, qe_value = row\<rparr>)))"

lemma claim_head_ok:
  assumes i: "nextFreeQR_ID s = i" "i < numQREntries s" "QRTail_ID s < numQREntries s"
    and j: "\<And>j. orig = Some j \<Longrightarrow> j < numQREntries s \<and> (j = i \<or> qe_valid (QR_To_Row_T s j))"
    and f: "filter_ok s S" and c: "cache_ok s S"
  obtains s' t where "claim_head row orig s = Inr s'"
    and "rq_aux (s\<lparr>QR_To_Row_T := moved_slots row orig i (QR_To_Row_T s), QRTail_ID := t,
           nextFreeQR_ID := (i + 1) mod numQREntries s\<rparr>) s'"
    and "t < numQREntries s" and "filter_ok s' S" and "cache_ok s' S"
proof -
  let ?Q1 = "(QR_To_Row_T s)(i := \<lparr>qe_valid = True, qe_value = row\<rparr>)"
  let ?Q = "moved_slots row orig i (QR_To_Row_T s)"
  let ?s0 = "virtual_delay (add_delay (moveDelay s) s)"
  have a0: "rq_aux s ?s0" by (rule rq_aux_trans[OF rq_aux_more(1) rq_aux_more(6)])
  note e0 = rq_auxD[OF a0]
  let ?s1 = "?s0\<lparr>QR_To_Row_T := ?Q1\<rparr>"
  have a1: "rq_aux (s\<lparr>QR_To_Row_T := ?Q1\<rparr>) ?s1" by (rule rq_aux_upd(1)[OF a0])
  obtain s3 where s3: "release_slot orig ?s1 = Inr s3" "rq_aux (s\<lparr>QR_To_Row_T := ?Q\<rparr>) s3" "filter_ok s3 S" "cache_ok s3 S"
  proof (cases orig)
    case None
    then show ?thesis using that a1 f c by (simp add: release_slot_def moved_slots_def)
  next
    case (Some j')
    let ?s2 = "if nextFreeQR_ID ?s1 div 16 \<noteq> j' div 16 then virtual_delay ?s1 else ?s1"
    have "rq_aux (s\<lparr>QR_To_Row_T := ?Q1\<rparr>) ?s2" using a1 rq_aux_trans[OF a1 rq_aux_more(6)] by simp
    from rq_aux_upd(1)[OF this, of ?Q] have a2: "rq_aux (s\<lparr>QR_To_Row_T := ?Q\<rparr>) (?s2\<lparr>QR_To_Row_T := ?Q\<rparr>)" by simp
    have "release_slot orig ?s1 = Inr (?s2\<lparr>QR_To_Row_T := ?Q\<rparr>)"
      using Some j[OF Some] e0 by (auto simp: release_slot_def Let_def moved_slots_def drop_entry_def virtual_delay_def add_delay_def)
    then show ?thesis by (rule that) (use a2 f c in simp_all)
  qed
  note e3 = rq_auxD[OF s3(2), simplified]
  let ?t = "if i = QRTail_ID s \<and> i \<noteq> prevQRHead_ID s then (QRTail_ID s + 1) mod numQREntries s else QRTail_ID s"
  let ?n = "(i + 1) mod numQREntries s"
  have adv: "advance_head s3 = s3\<lparr>QRTail_ID := ?t, nextFreeQR_ID := ?n\<rparr>"
  proof -
    have "s3 = s3\<lparr>QRTail_ID := QRTail_ID s\<rparr>" by (simp add: e3(8)[symmetric])
    then show ?thesis using i e3 by (simp add: advance_head_def)
  qed
  show ?thesis
  proof (rule that)
    show "claim_head row orig s = Inr (s3\<lparr>QRTail_ID := ?t, nextFreeQR_ID := ?n\<rparr>)"
      using s3(1) i e0 adv by (simp add: claim_head_def Let_def)
    show "rq_aux (s\<lparr>QR_To_Row_T := ?Q, QRTail_ID := ?t, nextFreeQR_ID := ?n\<rparr>) (s3\<lparr>QRTail_ID := ?t, nextFreeQR_ID := ?n\<rparr>)"
      by (rule rq_aux_upd(3)[OF rq_aux_upd(4)[OF s3(2)]])
    show "?t < numQREntries s" using i by auto
    show "filter_ok (s3\<lparr>QRTail_ID := ?t, nextFreeQR_ID := ?n\<rparr>) S" "cache_ok (s3\<lparr>QRTail_ID := ?t, nextFreeQR_ID := ?n\<rparr>) S"
      using s3(3,4) by simp_all
  qed
qed

definition at_head :: "'d rq \<Rightarrow> nat \<Rightarrow> bool" where
  "at_head s row \<longleftrightarrow> qe_valid (row_To_QR_T s row) \<and> qe_value (row_To_QR_T s row) = nextFreeQR_ID s"

text \<open>The rows in quarantine after \<open>row\<close> is moved: the row at the head slot leaves.\<close>

definition after_move :: "'d rq \<Rightarrow> nat \<Rightarrow> nat set" where
  "after_move s row = (if at_head s row then quarantined s - {row}
     else insert row (quarantined s - (if qe_valid (QR_To_Row_T s (nextFreeQR_ID s))
                                       then {qe_value (QR_To_Row_T s (nextFreeQR_ID s))} else {})))"

text \<open>The tables after a move, as functions.\<close>

lemma moved_tables:
  assumes t: "inverse_tables nr nq R Q" and row: "row < nr" and i: "i < nq"
    and Q': "Q' = moved_slots row (if qe_valid (R row) then Some (qe_value (R row)) else None) i
           (if qe_valid (Q i) then drop_entry i Q else Q)"
    and R': "R' = (if qe_valid (Q i) then drop_entry (qe_value (Q i)) (R(row := \<lparr>qe_valid = True, qe_value = i\<rparr>))
                else R(row := \<lparr>qe_valid = True, qe_value = i\<rparr>))"
  shows "inverse_tables nr nq R' Q'"
    and "r < nr \<Longrightarrow> qe_valid (R' r) \<longleftrightarrow> (if qe_valid (R row) \<and> qe_value (R row) = i then qe_valid (R r) \<and> r \<noteq> row
      else r = row \<or> qe_valid (R r) \<and> \<not> (qe_valid (Q i) \<and> r = qe_value (Q i)))"
proof -
  note d = inverse_tablesD[OF t]
  have "inverse_tables nr nq R' Q' \<and> (r < nr \<longrightarrow> qe_valid (R' r) \<longleftrightarrow> (if qe_valid (R row) \<and> qe_value (R row) = i
      then qe_valid (R r) \<and> r \<noteq> row
      else r = row \<or> qe_valid (R r) \<and> \<not> (qe_valid (Q i) \<and> r = qe_value (Q i))))"
  proof (cases "qe_valid (R row) \<and> qe_value (R row) = i")
    case True
    then have v: "qe_valid (Q i)" "qe_value (Q i) = row" using d(2,3)[OF row] by auto
    have "R row = \<lparr>qe_valid = True, qe_value = i\<rparr>" using True by (cases "R row") auto
    then have "R' = drop_entry row R" using v by (simp add: R' fun_upd_idem)
    moreover have "Q' = drop_entry i Q" using True v by (cases "Q i") (simp add: Q' moved_slots_def drop_entry_def)
    ultimately show ?thesis using inverse_tables_remove[OF t i v(1)] v(2) True by simp
  next
    case False
    let ?R0 = "if qe_valid (Q i) then drop_entry (qe_value (Q i)) R else R"
    let ?Q0 = "if qe_valid (Q i) then drop_entry i Q else Q"
    have t0: "inverse_tables nr nq ?R0 ?Q0" using t inverse_tables_remove[OF t i] by auto
    have ne: "qe_value (Q i) \<noteq> row" if "qe_valid (Q i)" using d(5,6)[OF i that] False by auto
    have same: "?R0 row = R row" using ne by (auto simp: drop_entry_def)
    have "R' = ?R0(row := \<lparr>qe_valid = True, qe_value = i\<rparr>)" using ne by (auto simp: R' drop_entry_def)
    moreover have "Q' = (if qe_valid (?R0 row) then drop_entry (qe_value (?R0 row)) (?Q0(i := \<lparr>qe_valid = True, qe_value = row\<rparr>))
       else ?Q0(i := \<lparr>qe_valid = True, qe_value = row\<rparr>))"
      unfolding same by (simp add: Q' moved_slots_def)
    ultimately have "inverse_tables nr nq R' Q'"
      using inverse_tables_move[OF t0 row i] by simp
    then show ?thesis using False ne by (auto simp: R')
  qed
  then show "inverse_tables nr nq R' Q'"
    and "r < nr \<Longrightarrow> qe_valid (R' r) \<longleftrightarrow> (if qe_valid (R row) \<and> qe_value (R row) = i then qe_valid (R r) \<and> r \<noteq> row
      else r = row \<or> qe_valid (R r) \<and> \<not> (qe_valid (Q i) \<and> r = qe_value (Q i)))"
    by blast+
qed

lemma enter_filter_ok:
  assumes inv: "rq_inv s" and row: "row < numRows s"
  obtains s1 where "(if qe_valid (row_To_QR_T s row) then Inr s else filter_insert row s) = Inr s1" and "rq_aux s s1"
    and "filter_ok s1 (insert row (quarantined s))" and "cache_ok s1 (insert row (quarantined s))"
proof (cases "qe_valid (row_To_QR_T s row)")
  case True
  then have "insert row (quarantined s) = quarantined s" using row by (auto simp: quarantined_def)
  then show ?thesis using that True inv by (simp add: rq_inv_def)
next
  case False
  have f: "filter_ok s (quarantined s)" and new: "row \<notin> quarantined s" and c: "card (quarantined s) \<le> numQREntries s"
    using inv False inverse_tables_card by (auto simp: rq_inv_def quarantined_def)
  obtain f' b orr where i: "filter_insert row s = Inr (s\<lparr>rq_filter := f', bitvector := b, ORR_CBF := orr\<rparr>)"
    "filter_ok (s\<lparr>rq_filter := f', bitvector := b, ORR_CBF := orr\<rparr>) (insert row (quarantined s))"
    "f' = None \<longleftrightarrow> rq_filter s = None" "rq_filter s = None \<Longrightarrow> ORR_CBF s = bitvector s \<Longrightarrow> orr = b"
    by (rule filter_insert_ok[OF f new c], rule that)
  let ?s1 = "s\<lparr>rq_filter := f', bitvector := b, ORR_CBF := orr\<rparr>"
  have "rq_aux s ?s1"
    by (rule rq_aux_trans[OF rq_aux_trans[OF rq_aux_steps(5) rq_aux_steps(6)] rq_aux_steps(7)])
  moreover have "cache_ok ?s1 (insert row (quarantined s))"
    using inv i(3,4) by (auto simp: rq_inv_def cache_ok_def split: option.splits)
  ultimately show ?thesis using that i(1,2) False by simp
qed

lemma enter_tables_ok:
  assumes inv: "rq_inv s" and row: "row < numRows s"
  defines "R2 \<equiv> (row_To_QR_T s)(row := \<lparr>qe_valid = True, qe_value = nextFreeQR_ID s\<rparr>)"
  obtains s1 s3 where "(if qe_valid (row_To_QR_T s row) then Inr s else filter_insert row s) = Inr s1"
    and "row_To_QR_T s1 = row_To_QR_T s" and "nextFreeQR_ID s1 = nextFreeQR_ID s"
    and "cache_mapping row (s1\<lparr>row_To_QR_T := R2\<rparr>) = Inr s3" and "rq_aux (s\<lparr>row_To_QR_T := R2\<rparr>) (virtual_delay s3)"
    and "filter_ok (virtual_delay s3) (insert row (quarantined s))"
    and "cache_ok (virtual_delay s3) (insert row (quarantined s))"
proof -
  let ?S = "insert row (quarantined s)"
  obtain s1 where s1: "(if qe_valid (row_To_QR_T s row) then Inr s else filter_insert row s) = Inr s1" "rq_aux s s1"
    "filter_ok s1 ?S" "cache_ok s1 ?S"
    by (rule enter_filter_ok[OF inv row], rule that)
  note e1 = rq_auxD[OF s1(2)]
  let ?s2 = "s1\<lparr>row_To_QR_T := R2\<rparr>"
  have c2: "cache_ok ?s2 ?S" using s1(4) by simp
  obtain s3 where s3: "cache_mapping row ?s2 = Inr s3" "keeps_filter ?s2 s3" "cache_ok s3 ?S"
    by (rule cache_mapping_ok[OF c2 insertI1], rule that)
  have a2: "rq_aux (s\<lparr>row_To_QR_T := R2\<rparr>) ?s2" by (rule rq_aux_upd(2)[OF s1(2)])
  have "rq_aux (s\<lparr>row_To_QR_T := R2\<rparr>) (virtual_delay s3)"
    by (rule rq_aux_trans[OF rq_aux_trans[OF a2 keeps_filterD(1)[OF s3(2)]] rq_aux_more(6)])
  moreover have "filter_ok (virtual_delay s3) ?S" using s1(3) keeps_filterD(5)[OF s3(2)] by simp
  ultimately show ?thesis using that s1(1) s3(1,3) e1 by simp
qed

text \<open>The forward table after a move.\<close>

definition moved_to :: "'d rq \<Rightarrow> nat \<Rightarrow> nat \<Rightarrow> qentry" where
  "moved_to s row = (let R2 = (row_To_QR_T s)(row := \<lparr>qe_valid = True, qe_value = nextFreeQR_ID s\<rparr>) in
     if qe_valid (QR_To_Row_T s (nextFreeQR_ID s)) then drop_entry (qe_value (QR_To_Row_T s (nextFreeQR_ID s))) R2
     else R2)"

lemma leave_head_ok:
  assumes t: "inverse_tables (numRows s) (numQREntries s) (row_To_QR_T s) (QR_To_Row_T s)"
    and geo: "numBanks s = 1" "numRows s < u32_size" and i: "nextFreeQR_ID s < numQREntries s"
    and row: "row < numRows s"
    and a3: "rq_aux (s\<lparr>row_To_QR_T := (row_To_QR_T s)(row := \<lparr>qe_valid = True, qe_value = nextFreeQR_ID s\<rparr>)\<rparr>) s3"
    and f3: "filter_ok s3 (insert row (quarantined s))" and c3: "cache_ok s3 (insert row (quarantined s))"
  defines "Q4 \<equiv> (if qe_valid (QR_To_Row_T s (nextFreeQR_ID s)) then drop_entry (nextFreeQR_ID s) (QR_To_Row_T s)
                  else QR_To_Row_T s)"
  obtains rem s4 where "evict_head row had s3 = Inr (rem, s4)"
    and "rq_aux (s\<lparr>row_To_QR_T := moved_to s row, QR_To_Row_T := Q4\<rparr>) s4"
    and "filter_ok s4 (after_move s row)" and "cache_ok s4 (after_move s row)"
proof -
  let ?R = "row_To_QR_T s" and ?Q = "QR_To_Row_T s" and ?i = "nextFreeQR_ID s" and ?S = "insert row (quarantined s)"
  let ?R2 = "?R(row := \<lparr>qe_valid = True, qe_value = ?i\<rparr>)" and ?B = "qe_value (?Q ?i)" and ?v = "qe_valid (?Q ?i)"
  note e3 = rq_auxD[OF a3, simplified] and d = inverse_tablesD[OF t]
  have B3: "qe_value (QR_To_Row_T s3 ?i) = ?B" by (simp add: e3)
  have v3: "qe_valid (QR_To_Row_T s3 ?i) \<Longrightarrow> ?B < numRows s3 \<and> qe_valid (row_To_QR_T s3 ?B) \<and> ?B \<in> ?S"
    using d(4,5)[OF i] by (auto simp: e3 quarantined_def)
  have geo3: "numBanks s3 = 1" "numRows s3 < u32_size" "nextFreeQR_ID s3 = ?i" "?i < numQREntries s3"
    using geo i by (simp_all add: e3)
  obtain rem s4 where s4: "evict_head row had s3 = Inr (rem, s4)"
    "rq_aux (s3\<lparr>row_To_QR_T := if qe_valid (QR_To_Row_T s3 ?i) then drop_entry ?B (row_To_QR_T s3) else row_To_QR_T s3,
       QR_To_Row_T := if qe_valid (QR_To_Row_T s3 ?i) then drop_entry ?i (QR_To_Row_T s3) else QR_To_Row_T s3\<rparr>) s4"
    "filter_ok s4 (if qe_valid (QR_To_Row_T s3 ?i) then ?S - {?B} else ?S)"
    "cache_ok s4 (if qe_valid (QR_To_Row_T s3 ?i) then ?S - {?B} else ?S)"
    by (rule evict_head_ok[OF geo3 B3 v3 f3 c3, where row = row and had = had], assumption, rule that)
  have "(if ?v then ?S - {?B} else ?S) = after_move s row"
    using d(2,3)[OF row] d(5,6)[OF i] by (auto simp: after_move_def at_head_def)
  then have fc: "filter_ok s4 (after_move s row)" "cache_ok s4 (after_move s row)" using s4(3,4) by (simp_all add: e3)
  have "moved_to s row = (if ?v then drop_entry ?B ?R2 else ?R2)" by (simp add: moved_to_def Let_def)
  then have "rq_aux (s3\<lparr>row_To_QR_T := moved_to s row, QR_To_Row_T := Q4\<rparr>) s4"
    using s4(2) unfolding Q4_def e3(5,6) by simp
  moreover have "rq_aux (s\<lparr>row_To_QR_T := ?R2, row_To_QR_T := moved_to s row, QR_To_Row_T := Q4\<rparr>)
      (s3\<lparr>row_To_QR_T := moved_to s row, QR_To_Row_T := Q4\<rparr>)"
    by (rule rq_aux_upd(1)[OF rq_aux_upd(2)[OF a3]])
  ultimately have "rq_aux (s\<lparr>row_To_QR_T := moved_to s row, QR_To_Row_T := Q4\<rparr>) s4" using rq_aux_trans by simp
  then show ?thesis by (rule that[OF s4(1) _ fc])
qed

lemma quarantineRow_ok:
  assumes inv: "rq_inv s" and row: "row < numRows s"
  obtains s' where "quarantineRow row s = Inr s'" and "rq_inv s'" and "quarantined s' = after_move s row"
    and "detector s' = detector s" and "numRows s' = numRows s" and "randRowID s' = randRowID s"
    and "nextFreeQR_ID s' = (nextFreeQR_ID s + 1) mod numQREntries s"
    and "last_reset s' = last_reset s" and "numQREntries s' = numQREntries s"
    and "row_To_QR_T s' = moved_to s row" and "prevQRHead_ID s' = prevQRHead_ID s"
proof -
  let ?R = "row_To_QR_T s" and ?Q = "QR_To_Row_T s" and ?i = "nextFreeQR_ID s"
  have geo: "numBanks s = 1" "numRows s < u32_size" and i: "?i < numQREntries s" and tail: "QRTail_ID s < numQREntries s"
    and t: "inverse_tables (numRows s) (numQREntries s) ?R ?Q" and f: "filter_ok s (quarantined s)"
    using inv by (simp_all add: rq_inv_def)
  note d = inverse_tablesD[OF t]
  have id: "generateCBFID s row 0 = row" by (rule generateCBFID_id[OF geo row])
  obtain s1 s3 where s1: "(if qe_valid (?R row) then Inr s else filter_insert row s) = Inr s1"
    "row_To_QR_T s1 = ?R" "nextFreeQR_ID s1 = ?i"
    and s3: "cache_mapping row (s1\<lparr>row_To_QR_T := ?R(row := \<lparr>qe_valid = True, qe_value = ?i\<rparr>)\<rparr>) = Inr s3"
    "rq_aux (s\<lparr>row_To_QR_T := ?R(row := \<lparr>qe_valid = True, qe_value = ?i\<rparr>)\<rparr>) (virtual_delay s3)"
    "filter_ok (virtual_delay s3) (insert row (quarantined s))"
    "cache_ok (virtual_delay s3) (insert row (quarantined s))"
    by (rule enter_tables_ok[OF inv row], rule that)
  define Q4 where "Q4 = (if qe_valid (?Q ?i) then drop_entry ?i ?Q else ?Q)"
  obtain rem s4 where s4: "evict_head row (qe_valid (?R row)) (virtual_delay s3) = Inr (rem, s4)"
    "rq_aux (s\<lparr>row_To_QR_T := moved_to s row, QR_To_Row_T := Q4\<rparr>) s4"
    "filter_ok s4 (after_move s row)" "cache_ok s4 (after_move s row)"
    by (rule leave_head_ok[OF t geo i row s3(2-4), folded Q4_def], rule that)
  note e4 = rq_auxD[OF s4(2), simplified]
  let ?orig = "if qe_valid (?R row) then Some (qe_value (?R row)) else None"
  have i4: "nextFreeQR_ID s4 = ?i" "?i < numQREntries s4" "QRTail_ID s4 < numQREntries s4" using i tail by (simp_all add: e4)
  have j4: "j < numQREntries s4 \<and> (j = ?i \<or> qe_valid (QR_To_Row_T s4 j))" if "?orig = Some j" for j
    using that d(1,2)[OF row] by (auto simp: e4 Q4_def split: if_splits)
  obtain s5 t5 where s5: "claim_head row ?orig s4 = Inr s5"
    "rq_aux (s4\<lparr>QR_To_Row_T := moved_slots row ?orig ?i (QR_To_Row_T s4), QRTail_ID := t5,
           nextFreeQR_ID := (?i + 1) mod numQREntries s4\<rparr>) s5"
    "t5 < numQREntries s4" "filter_ok s5 (after_move s row)" "cache_ok s5 (after_move s row)"
    by (rule claim_head_ok[OF i4 j4 s4(3,4), where row = row], assumption, rule that)
  note e5 = rq_auxD[OF s5(2), simplified]
  let ?s' = "upd_stats (count_move (qe_valid (?R row)) rem) s5"
  note mt = moved_tables[OF t row i, of "moved_slots row ?orig ?i Q4" "moved_to s row"]
  have it: "inverse_tables (numRows s) (numQREntries s) (moved_to s row) (moved_slots row ?orig ?i Q4)"
    by (rule mt(1)) (simp_all add: Q4_def moved_to_def Let_def)
  have v: "qe_valid (moved_to s row r) \<longleftrightarrow> (if qe_valid (?R row) \<and> qe_value (?R row) = ?i
      then qe_valid (?R r) \<and> r \<noteq> row
      else r = row \<or> qe_valid (?R r) \<and> \<not> (qe_valid (?Q ?i) \<and> r = qe_value (?Q ?i)))" if "r < numRows s" for r
    by (rule mt(2)[OF _ _ that]) (simp_all add: Q4_def moved_to_def Let_def)
  have q: "quarantined ?s' = after_move s row"
    using v row d(3)[OF row] by (auto simp: quarantined_def after_move_def at_head_def upd_stats_def e5 e4)
  have "rq_inv ?s'"
    using geo i s5 it q by (simp add: rq_inv_def) (simp add: upd_stats_def e5 e4)
  moreover have "quarantineRow row s = Inr ?s'"
  proof -
    have "qe_value (?R row) mod u32_size = qe_value (?R row)" if "qe_valid (?R row)"
      using d(1)[OF row that] filter_ok_slots[OF f] by simp
    then have "(if qe_valid (?R row) then Some (qe_value (?R row) mod u32_size) else None) = ?orig" by auto
    then show ?thesis
      using row i id s1 s3(1) s4(1) s5(1) by (simp add: quarantineRow_def Let_def)
  qed
  ultimately show ?thesis
    using that q e5 e4 by (simp add: upd_stats_def)
qed

lemma quarantined_frame [simp]:
  "quarantined (s\<lparr>decision := d\<rparr>) = quarantined s" "quarantined (s\<lparr>rh_stats := st\<rparr>) = quarantined s"
  "quarantined (s\<lparr>detector := dt\<rparr>) = quarantined s" "quarantined (s\<lparr>last_reset := t\<rparr>) = quarantined s"
  "quarantined (s\<lparr>numAccessesToRow := na\<rparr>) = quarantined s" "quarantined (s\<lparr>prevQRHead_ID := n\<rparr>) = quarantined s"
  "quarantined (s\<lparr>prev_drain_cache_miss_val := m\<rparr>) = quarantined s" "quarantined (s\<lparr>QRTail_ID := n\<rparr>) = quarantined s"
  by (simp_all add: quarantined_def)

lemma rq_inv_frame [simp]:
  "rq_inv (s\<lparr>decision := d\<rparr>) = rq_inv s" "rq_inv (s\<lparr>rh_stats := st\<rparr>) = rq_inv s"
  "rq_inv (s\<lparr>detector := dt\<rparr>) = rq_inv s" "rq_inv (s\<lparr>last_reset := t\<rparr>) = rq_inv s"
  "rq_inv (s\<lparr>numAccessesToRow := na\<rparr>) = rq_inv s" "rq_inv (s\<lparr>prevQRHead_ID := n\<rparr>) = rq_inv s"
  "rq_inv (s\<lparr>prev_drain_cache_miss_val := m\<rparr>) = rq_inv s"
  by (simp_all add: rq_inv_def)

lemma rq_inv_aux:
  assumes "rq_inv s" and "rq_aux s s'" and "filter_ok s' (quarantined s)" and "cache_ok s' (quarantined s)"
  shows "rq_inv s'"
  using assms rq_auxD[OF assms(2)] by (simp add: rq_inv_def)

text \<open>The members that the relation between rows and slots consists of.\<close>

definition same_tables :: "'d rq \<Rightarrow> 'd rq \<Rightarrow> bool" where
  "same_tables s s' \<longleftrightarrow> numRows s' = numRows s \<and> numQREntries s' = numQREntries s \<and> randRowID s' = randRowID s \<and>
     row_To_QR_T s' = row_To_QR_T s \<and> QR_To_Row_T s' = QR_To_Row_T s \<and> nextFreeQR_ID s' = nextFreeQR_ID s \<and>
     QRTail_ID s' = QRTail_ID s"

definition tail_row :: "'d rq \<Rightarrow> nat" where
  "tail_row s = qe_value (QR_To_Row_T s (QRTail_ID s))"

lemma same_tables_refl [simp]: "same_tables s s"
  by (simp add: same_tables_def)

lemma same_tables_trans [trans]: "same_tables s s1 \<Longrightarrow> same_tables s1 s2 \<Longrightarrow> same_tables s s2"
  by (simp add: same_tables_def)

lemma rq_aux_same_tables: "rq_aux s s' \<Longrightarrow> same_tables s s'"
  by (simp add: same_tables_def rq_auxD)

lemma same_tablesD:
  assumes "same_tables s s'"
  shows "quarantined s' = quarantined s" "after_move s' row = after_move s row" "tail_row s' = tail_row s"
    "numRows s' = numRows s" "randRowID s' = randRowID s"
  using assms by (simp_all add: same_tables_def quarantined_def after_move_def at_head_def tail_row_def)

definition can_drain :: "'d rq \<Rightarrow> bool" where
  "can_drain s \<longleftrightarrow> QRTail_ID s \<noteq> prevQRHead_ID s \<and> qe_valid (QR_To_Row_T s (QRTail_ID s))"

lemma drainRow_ok:
  assumes inv: "rq_inv s"
  obtains s' where "drainRow s = Inr s'" and "rq_inv s'"
    and "quarantined s' = (if can_drain s then quarantined s - {tail_row s} else quarantined s)"
    and "QRTail_ID s' = (if can_drain s then (QRTail_ID s + 1) mod numQREntries s else QRTail_ID s)"
    and "detector s' = detector s" and "numRows s' = numRows s" and "randRowID s' = randRowID s"
    and "last_reset s' = last_reset s"
proof -
  let ?q = "QRTail_ID s" and ?B = "tail_row s"
  let ?s0 = "virtual_delay s"
  have geo: "numBanks s = 1" "numRows s < u32_size" and tail: "?q < numQREntries s" and hd: "nextFreeQR_ID s < numQREntries s"
    and t: "inverse_tables (numRows s) (numQREntries s) (row_To_QR_T s) (QR_To_Row_T s)"
    and f: "filter_ok s (quarantined s)" and c: "cache_ok s (quarantined s)"
    using inv by (simp_all add: rq_inv_def)
  have a0: "rq_aux s ?s0" by (rule rq_aux_more(6))
  note e0 = rq_auxD[OF a0]
  show ?thesis
  proof (cases "can_drain s")
    case False
    have "drainRow s = Inr ?s0" using False tail e0 by (auto simp: drainRow_def Let_def can_drain_def)
    moreover have "rq_inv ?s0" by (rule rq_inv_aux[OF inv a0]) (use f c in simp_all)
    ultimately show ?thesis using that e0 False by simp
  next
    case True
    then have drain: "?q \<noteq> prevQRHead_ID s" "qe_valid (QR_To_Row_T s ?q)" by (simp_all add: can_drain_def)
    note d = inverse_tablesD[OF t]
    define s1 where "s1 = upd_stats (\<lambda>st. st\<lparr>s_drain_qr := s_drain_qr st + 1\<rparr>) ?s0"
    have a1: "rq_aux s s1" unfolding s1_def by (rule rq_aux_trans[OF a0 rq_aux_more(4)])
    note e1 = rq_auxD[OF a1]
    have B: "?B < numRows s" "qe_valid (row_To_QR_T s ?B)" "?B \<in> quarantined s"
      using d(4,5)[OF tail] drain by (auto simp: quarantined_def tail_row_def)
    have B1: "qe_value (QR_To_Row_T s1 ?q) = ?B" "?B < numRows s1" "qe_valid (row_To_QR_T s1 ?B)"
      and g1: "numBanks s1 = 1" "numRows s1 < u32_size" "?q < numQREntries s1"
      using B geo tail e1 by (simp_all add: tail_row_def)
    have f1: "filter_ok s1 (quarantined s)" and c1: "cache_ok s1 (quarantined s)"
      unfolding s1_def using f c by simp_all
    obtain dd s2 where r: "removeRow ?q s1 = Inr (dd, s2)"
      "rq_aux (s1\<lparr>QR_To_Row_T := drop_entry ?q (QR_To_Row_T s1), row_To_QR_T := drop_entry ?B (row_To_QR_T s1)\<rparr>) s2"
      "filter_ok s2 (quarantined s - {?B})" "cache_ok s2 (quarantined s - {?B})"
      by (rule removeRow_ok[OF g1 B1 B(3) f1 c1], rule that)
    let ?s3 = "virtual_delay (virtual_delay (add_delay (moveDelay s2) s2))"
    have a3: "rq_aux s2 ?s3" by (rule rq_aux_trans[OF rq_aux_trans[OF rq_aux_more(1) rq_aux_more(6)] rq_aux_more(6)])
    note e3 = rq_auxD[OF rq_aux_trans[OF r(2) a3], simplified, unfolded e1]
    let ?s4 = "?s3\<lparr>QRTail_ID := (QRTail_ID ?s3 + 1) mod numQREntries ?s3\<rparr>"
    have q: "quarantined ?s4 = quarantined s - {?B}"
      by (auto simp: quarantined_def e3)
    have "rq_inv ?s4"
      using inverse_tables_remove[OF t tail] drain geo hd r(3,4) q tail
      by (simp add: rq_inv_def e3 tail_row_def)
    moreover have "drainRow s = Inr ?s4"
      using drain tail e0 r(1) unfolding s1_def by (simp add: drainRow_def Let_def)
    ultimately show ?thesis using that q e3 True by simp
  qed
qed

lemma rq_reset_ok:
  assumes inv: "rq_inv s"
  obtains s' where "rq_reset D s = Inr s'" and "rq_inv s'" and "same_tables s s'"
    and "detector s' = d_reset D (detector s)" and "last_reset s' = last_reset s"
proof -
  have "0 < rows_per_btv_bit s" using inv by (auto simp: rq_inv_def filter_ok_def)
  then show ?thesis using that inv by (simp add: rq_reset_def Let_def same_tables_def)
qed

text \<open>What an access needs of the state besides the invariant.\<close>

definition rq_ready :: "('d \<Rightarrow> detector_dims) \<Rightarrow> 'd rq \<Rightarrow> bool" where
  "rq_ready dims s \<longleftrightarrow> rq_inv s \<and> 16 dvd numRows s \<and> 0 < numRows s \<and>
     numRows s div 16 \<le> dim_rows (dims (detector s)) \<and> 16 \<le> dim_banks (dims (detector s)) \<and>
     0 < dim_ranks (dims (detector s)) \<and> 0 < dim_channels (dims (detector s)) \<and>
     (\<forall>i<numRows s. randRowID s i < numRows s)"

lemma rq_ready_move:
  assumes "rq_ready dims s" and "rq_inv s'" and "numRows s' = numRows s" and "randRowID s' = randRowID s"
    and "dims (detector s') = dims (detector s)"
  shows "rq_ready dims s'"
  using assms by (simp add: rq_ready_def)

lemma decodeAddr_ok:
  assumes a: "a div 8192 < numRows s" and n: "numRows s < u32_size" "16 dvd numRows s"
    and r: "randRowID s (a div 8192) < numRows s"
  shows "decodeAddr a s = Inr (randRowID s (a div 8192) div 16, randRowID s (a div 8192) mod 16,
    s\<lparr>numAccessesToRow := (numAccessesToRow s)(a div 8192 := inc32 (numAccessesToRow s (a div 8192)))\<rparr>)"
proof -
  have "a div 8192 < u32_size" using a n(1) by (rule less_trans)
  then have m: "a div 8192 mod u32_size = a div 8192" by simp
  obtain k where k: "numRows s = 16 * k" using n(2) by (auto simp: dvd_def)
  then have "k \<noteq> 0" "randRowID s (a div 8192) div 16 < k" using r by auto
  then show ?thesis unfolding decodeAddr_def m Let_def using a k by simp
qed

context rh_detector
begin

lemma rq_enter_ok:
  assumes ready: "rq_ready dims s" and inv: "d_inv (detector s) k"
  obtains e where "rq_enter D t s = Inr e" and "rq_ready dims e" and "same_tables s e"
    and "d_inv (detector e) (if window_over t s then 0 else k)"
    and "detector e = (if window_over t s then d_reset D (detector s) else detector s)"
    and "last_reset e = (if window_over t s then t else last_reset s)"
proof -
  define s0 where "s0 = s\<lparr>rh_stats := (rh_stats s)\<lparr>s_num_accesses := s_num_accesses (rh_stats s) + 1\<rparr>,
                 decision := cleared_decision\<rparr>"
  have w: "window_over t s0 = window_over t s" and st: "same_tables s s0" and d: "detector s0 = detector s"
    and l: "last_reset s0 = last_reset s"
    by (simp_all add: s0_def window_over_def same_tables_def)
  have r: "rq_ready dims s0" using ready by (simp add: rq_ready_def s0_def)
  show ?thesis
  proof (cases "window_over t s")
    case False
    then have "rq_enter D t s = Inr s0" using w by (simp add: rq_enter_def Let_def s0_def)
    then show ?thesis using that[of s0] False r st d l inv by simp
  next
    case True
    define s1 where "s1 = s0\<lparr>last_reset := t\<rparr>"
    have "rq_inv s1" using r by (simp add: rq_ready_def s1_def)
    then obtain e where e: "rq_reset D s1 = Inr e" "rq_inv e" "same_tables s1 e"
      "detector e = d_reset D (detector s1)" "last_reset e = last_reset s1"
      by (rule rq_reset_ok)
    have s1: "same_tables s s1" "detector s1 = detector s" "last_reset s1 = t"
      using st d by (simp_all add: s1_def same_tables_def)
    have se: "same_tables s e" by (rule same_tables_trans[OF s1(1) e(3)])
    have "rq_enter D t s = Inr e" using True w e(1) by (simp add: rq_enter_def Let_def s1_def s0_def)
    moreover have "rq_ready dims e"
      by (rule rq_ready_move[OF ready e(2) same_tablesD(4,5)[OF se]]) (simp add: e(4) s1 reset_dims)
    ultimately show ?thesis using that True se e(4,5) s1 reset_inv[OF inv] by simp
  qed
qed

lemma rq_mitigate_ok:
  assumes ready: "rq_ready dims s" and row: "row < numRows s"
  obtains s' where "rq_mitigate row agg s = Inr s'" and "rq_ready dims s'" and "detector s' = detector s"
    and "last_reset s' = last_reset s"
    and "if agg then quarantined s' = after_move s row
         else quarantined s' = quarantined s \<or> quarantined s' = quarantined s - {tail_row s}"
    and "numRows s' = numRows s"
proof -
  have inv: "rq_inv s" using ready by (simp add: rq_ready_def)
  note * = rq_ready_move[OF ready]
  show ?thesis
  proof (cases agg)
    case True
    obtain s' where s': "quarantineRow row s = Inr s'" "rq_inv s'" "quarantined s' = after_move s row"
      "detector s' = detector s" "numRows s' = numRows s" "randRowID s' = randRowID s" "last_reset s' = last_reset s"
      by (rule quarantineRow_ok[OF inv row], rule that)
    then show ?thesis using that[of s'] *[of s'] True by (simp add: rq_mitigate_def)
  next
    case False
    define s0 where "s0 = s\<lparr>prev_drain_cache_miss_val :=
      s_cache_miss (rh_stats s) + s_cache_partial_hit_orr_unset (rh_stats s)\<rparr>"
    have i0: "rq_inv s0" and st: "same_tables s s0" and k: "detector s0 = detector s" "last_reset s0 = last_reset s"
      using inv by (simp_all add: s0_def same_tables_def)
    obtain s' where s': "drainRow s0 = Inr s'" "rq_inv s'"
      "quarantined s' = (if can_drain s0 then quarantined s0 - {tail_row s0} else quarantined s0)"
      "detector s' = detector s0" "numRows s' = numRows s0" "randRowID s' = randRowID s0" "last_reset s' = last_reset s0"
      by (rule drainRow_ok[OF i0], rule that)
    have r': "rq_ready dims s'"
      by (rule *) (use s' k same_tablesD[OF st] in simp_all)
    have run: "rq_mitigate row agg s = (if drain_cache_miss_threshold s \<le>
        sub64 (s_cache_miss (rh_stats s) + s_cache_partial_hit_orr_unset (rh_stats s)) (prev_drain_cache_miss_val s)
        then drainRow s0 else Inr s)"
      using False by (simp add: rq_mitigate_def Let_def s0_def)
    have q': "quarantined s' = quarantined s \<or> quarantined s' = quarantined s - {tail_row s}"
      using s'(3) same_tablesD[OF st] by (cases "can_drain s0") simp_all
    show ?thesis
    proof (cases "drain_cache_miss_threshold s \<le>
        sub64 (s_cache_miss (rh_stats s) + s_cache_partial_hit_orr_unset (rh_stats s)) (prev_drain_cache_miss_val s)")
      case True
      then show ?thesis using that[of s'] run r' s'(1,4,5,7) k q' False same_tablesD[OF st] by simp
    next
      case False
      then show ?thesis using that[of s] run ready \<open>\<not> agg\<close> by simp
    qed
  qed
qed

lemma rq_access_ok:
  assumes ready: "rq_ready dims s" and inv: "d_inv (detector s) k" and ov: "k + 1 < u32_size"
    and a: "a div 8192 < numRows s"
  defines "row \<equiv> randRowID s (a div 8192)"
  obtains dec s' agg where "rq_access D t a s = Inr (dec, s')" and "rq_ready dims s'"
    and "d_access D (if window_over t s then d_reset D (detector s) else detector s) (row div 16) (row mod 16) 0 0 False =
      Inr (agg, detector s')"
    and "d_inv (detector s') (if window_over t s then 1 else k + 1)"
    and "last_reset s' = (if window_over t s then t else last_reset s)"
    and "if agg then quarantined s' = after_move s row
     else quarantined s' = quarantined s \<or> quarantined s' = quarantined s - {tail_row s}"
    and "numRows s' = numRows s"
proof -
  let ?i = "a div 8192"
  obtain e where e: "rq_enter D t s = Inr e" "rq_ready dims e" "same_tables s e"
    "d_inv (detector e) (if window_over t s then 0 else k)"
    "detector e = (if window_over t s then d_reset D (detector s) else detector s)"
    "last_reset e = (if window_over t s then t else last_reset s)"
    by (rule rq_enter_ok[OF ready inv], rule that)
  have row: "row < numRows s" using ready a by (simp add: rq_ready_def row_def)
  have rowe: "row < numRows e" "randRowID e ?i = row" "rq_inv e"
    using row e(2) same_tablesD[OF e(3)] by (simp_all add: row_def rq_ready_def)
  obtain s1 where s1: "addQCheckDelay row e = Inr s1" "rq_inv s1" "rq_aux e s1"
    by (rule addQCheckDelay_ok[OF rowe(3,1)], rule that)
  note e1 = rq_auxD[OF s1(3)]
  have st1: "same_tables s s1" by (rule same_tables_trans[OF e(3) rq_aux_same_tables[OF s1(3)]])
  have n: "numRows s1 = numRows s" "numRows s < u32_size" "16 dvd numRows s" "randRowID s1 ?i = row"
    using ready same_tablesD(4,5)[OF st1] by (simp_all add: rq_ready_def rq_inv_def row_def)
  define s2 where "s2 = s1\<lparr>numAccessesToRow := (numAccessesToRow s1)(?i := inc32 (numAccessesToRow s1 ?i))\<rparr>"
  have dec: "decodeAddr a s1 = Inr (row div 16, row mod 16, s2)"
    using decodeAddr_ok[of a s1] a row n by (simp add: s2_def)
  have d2: "detector s2 = detector e" using e1 by (simp add: s2_def)
  have dims: "in_dims (dims (detector e)) (row div 16) (row mod 16) 0 0"
    using e(2) rowe(1) by (auto simp: rq_ready_def in_dims_def less_mult_imp_div_less elim!: dvdE)
  obtain agg d where d: "d_access D (detector e) (row div 16) (row mod 16) 0 0 False = Inr (agg, d)"
    "d_inv d (if window_over t s then 1 else k + 1)" "dims d = dims (detector e)"
    using counted_access[OF e(4) _ dims] ov by (cases "window_over t s") auto
  define s3 where "s3 = s2\<lparr>detector := d, decision := (decision s2)\<lparr>d_mitigate := agg\<rparr>\<rparr>"
  have st3: "same_tables s s3"
    by (rule same_tables_trans[OF st1]) (simp add: s3_def s2_def same_tables_def)
  have r3: "rq_ready dims s3"
    by (rule rq_ready_move[OF e(2)]) (use s1(2) d(3) e1 in \<open>simp_all add: s3_def s2_def\<close>)
  have row3: "row < numRows s3" "randRowID s3 ?i = row" and l3: "last_reset s3 = last_reset e" "detector s3 = d"
    using row same_tablesD(4,5)[OF st3] e1 by (simp_all add: row_def s3_def s2_def)
  obtain s4 where s4: "rq_mitigate row agg s3 = Inr s4" "rq_ready dims s4" "detector s4 = detector s3"
    "last_reset s4 = last_reset s3"
    "if agg then quarantined s4 = after_move s3 row
     else quarantined s4 = quarantined s3 \<or> quarantined s4 = quarantined s3 - {tail_row s3}"
    "numRows s4 = numRows s3"
    by (rule rq_mitigate_ok[OF r3 row3(1)], rule that)
  have run: "rq_access D t a s = Inr (decision s4, s4)"
    unfolding rq_access_def e(1)
    using a same_tablesD(4)[OF e(3)] rowe(2) s1(1) dec d(1) d2 row3(2) s4(1)
    by (simp add: s3_def Let_def)
  show ?thesis
    by (rule that[OF run s4(2)]) (use d(1,2) e(5,6) l3 s4(3-6) same_tablesD[OF st3] in \<open>simp_all cong: if_cong\<close>)
qed

end

section \<open>The relabelling of rows\<close>

lemma swap_bij:
  assumes f: "bij_betw f {..<n} {..<n::nat}" and i: "i < n" and j: "j < n"
  shows "bij_betw (f(i := f j, j := f i)) {..<n} {..<n}"
proof -
  define w where "w x = (if x = i then j else if x = j then i else x)" for x
  have "bij_betw w {..<n} {..<n}"
    using i j by (intro bij_betw_byWitness[where f' = w]) (auto simp: w_def)
  moreover have "f(i := f j, j := f i) = f \<circ> w" by (auto simp: fun_eq_iff w_def)
  ultimately show ?thesis using bij_betw_trans[of w _ _ f] f by simp
qed

lemma rq_shuffle_bij: "bij_betw (rq_shuffle n rnd) {..<n} {..<n}"
proof -
  let ?step = "\<lambda>ii f. f(ii := f (rnd ii mod n), rnd ii mod n := f ii)"
  have "bij_betw (fold ?step xs f) {..<n} {..<n}"
    if "set xs \<subseteq> {..<n}" and "bij_betw f {..<n} {..<n}" for xs and f :: "nat \<Rightarrow> nat"
    using that
  proof (induction xs arbitrary: f)
    case (Cons i xs)
    have "i < n" "rnd i mod n < n" using Cons.prems(1) by (auto intro: mod_less_divisor)
    then have "bij_betw (?step i f) {..<n} {..<n}" using swap_bij[OF Cons.prems(2)] by blast
    then show ?case using Cons.IH[of "?step i f"] Cons.prems(1) by (simp del: fun_upd_apply)
  qed simp
  then show ?thesis unfolding rq_shuffle_def by (simp add: subset_eq)
qed

lemma rq_shuffle_less: "i < n \<Longrightarrow> rq_shuffle n rnd i < n"
  using bij_betw_apply[OF rq_shuffle_bij, of i n rnd] by simp

section \<open>Properties\<close>

lemma empty_filter:
  "quarantined (rq_new junk q rows thr banks ranks channels rnd) = {}"
  by (simp add: quarantined_def rq_new_def Let_def)

text \<open>
  The constructor, with a bit vector as filter and an empty cache, establishes the invariant
  that every access keeps.
\<close>

theorem rq_new_ok:
  assumes "0 < q" and "q < u32_size - 1" and n: "n = rows * banks * ranks * channels" "16 dvd n" "0 < n" "n < u32_size"
    and g: "0 < rows_per_btv_bit junk" "rows_per_btv_bit junk dvd 32" "rows_per_btv_bit junk dvd n"
    and "rq_filter junk = None" and "rq_cache junk = Some (fc_new (rows_per_btv_bit junk) sets ways)" "0 < sets" "0 < ways"
    and d: "n div 16 \<le> dim_rows (dims (detector junk))" "16 \<le> dim_banks (dims (detector junk))"
      "0 < dim_ranks (dims (detector junk))" "0 < dim_channels (dims (detector junk))"
  shows "rq_ready dims (rq_new junk q rows thr banks ranks channels rnd)"
proof -
  let ?s = "rq_new junk q rows thr banks ranks channels rnd"
  have nr: "numRows ?s = n" using n(1,4) by (simp add: rq_new_def Let_def)
  have e: "quarantined ?s = {}" by (rule empty_filter)
  have f: "filter_ok ?s {}"
    using assms(2,10) g(1) by (simp add: filter_ok_def btv_rep_def rq_new_def Let_def)
  have c: "cache_ok ?s {}"
    unfolding cache_ok_def using assms(10-13) g fc_new_wf[of sets ways "rows_per_btv_bit junk"] nr
    by (simp add: rq_new_def Let_def fc_new_def)
  have t: "inverse_tables n q (row_To_QR_T ?s) (QR_To_Row_T ?s)"
    by (simp add: inverse_tables_def rq_new_def Let_def)
  have r: "\<forall>i<n. randRowID ?s i < n" using rq_shuffle_less n(1,4) by (simp add: rq_new_def Let_def)
  have "rq_inv ?s"
    unfolding rq_inv_def e nr using f c t n assms(1) by (simp add: rq_new_def Let_def)
  then show ?thesis
    unfolding rq_ready_def nr using n r d by (simp add: rq_new_def Let_def)
qed

definition rq_blank :: "misra_gries rq" where
  "rq_blank = rh_mitigation.extend (zero_scheme (mg_reset (mg_new (\<lambda>_. \<lparr>tr_entries = [], spill_counter = 7,
     uniq_rows = {}, rowHasEntry = (\<lambda>_. 0), s_num_reset = 0, s_glob_spill_count = 0, s_num_access = 0,
     s_num_install = 0, s_aggressors = 0\<rparr>) 2 3 2 16 1 1)))
     (rq.fields None 8 (\<lambda>_. 0) (\<lambda>_. 0) (Some (fc_new 8 2 2)) id (\<lambda>_. \<lparr>qe_valid = False, qe_value = 0\<rparr>)
        (\<lambda>_. \<lparr>qe_valid = False, qe_value = 0\<rparr>) 0 0 0 0)"

definition rq_demo :: "nat \<Rightarrow> misra_gries rq" where
  "rq_demo q = rq_new rq_blank q 2 3 16 1 1 (\<lambda>ii. 7 * ii + 3)"

lemma rq_blank_simps:
  "rows_per_btv_bit rq_blank = 8" "rq_filter rq_blank = None" "rq_cache rq_blank = Some (fc_new 8 2 2)"
  "mg_dims (detector rq_blank) = \<lparr>dim_rows = 2, dim_banks = 16, dim_ranks = 1, dim_channels = 1\<rparr>"
  "mg_threshold (detector rq_blank) = 3"
  by (simp_all add: rq_blank_def rq.defs rh_mitigation.defs zero_scheme_def mg_dims_def mg_new_def mg_reset_def)

lemma rq_blank_detector: "\<exists>m. detector rq_blank = mg_reset m"
  by (auto simp: rq_blank_def rq.defs rh_mitigation.defs zero_scheme_def)

theorem rq_new_ok_witness:
  "rq_ready mg_dims (rq_new rq_blank 4 2 3 16 1 1 (\<lambda>ii. 7 * ii + 3))"
  by (rule rq_new_ok[where n = 32 and sets = 2 and ways = 2]) (simp_all add: rq_blank_simps)

lemma rq_demo_simps:
  "numRows (rq_demo q) = 32" "numQREntries (rq_demo q) = q" "nextFreeQR_ID (rq_demo q) = 0"
  "prevQRHead_ID (rq_demo q) = 0" "QRTail_ID (rq_demo q) = 0" "numBanks (rq_demo q) = 1"
  "rows_per_btv_bit (rq_demo q) = 8" "rq_filter (rq_demo q) = None" "rq_cache (rq_demo q) = Some (fc_new 8 2 2)"
  "row_To_QR_T (rq_demo q) r = \<lparr>qe_valid = False, qe_value = 0\<rparr>"
  "QR_To_Row_T (rq_demo q) r = \<lparr>qe_valid = False, qe_value = 0\<rparr>"
  "detector (rq_demo q) = detector rq_blank" "last_reset (rq_demo q) = 0"
  "bitvector (rq_demo q) = (\<lambda>_. 0)" "ORR_CBF (rq_demo q) = (\<lambda>_. 0)"
  "quarantined (rq_demo q) = {}" "randRowID (rq_demo q) = rq_shuffle 32 (\<lambda>ii. 7 * ii + 3)"
  by (simp_all add: rq_demo_def rq_new_def Let_def rq_blank_simps quarantined_def)

lemma rq_demo_ok:
  assumes "0 < q" and "q < 100"
  shows "rq_inv (rq_demo q)" and "rq_ready mg_dims (rq_demo q)" and "mg_inv (detector (rq_demo q)) 0"
proof -
  obtain m where m: "detector rq_blank = mg_reset m" using rq_blank_detector by blast
  then have t: "0 < mg_threshold m" using rq_blank_simps(5) by simp
  show inv: "rq_inv (rq_demo q)"
    using assms by (auto simp: rq_inv_def rq_demo_simps filter_ok_def btv_rep_def cache_ok_def fc_new_wf
        inverse_tables_def) (simp_all add: fc_new_def)
  show "rq_ready mg_dims (rq_demo q)"
    using inv by (simp add: rq_ready_def rq_demo_simps rq_blank_simps rq_shuffle_less)
  show "mg_inv (detector (rq_demo q)) 0"
    using mg_reset_sound[of m] t by (auto simp: rq_demo_simps m mg_inv_def)
qed





text \<open>
  When the head has come round to the slot that the row itself holds, quarantining the row
  releases it: the row is outside the quarantine after the move.
\<close>

theorem rq_head_hit_releases:
  assumes "rq_inv s" and "row < numRows s" and "at_head s row"
  shows "\<exists>s'. quarantineRow row s = Inr s' \<and> rq_inv s' \<and> row \<in> quarantined s \<and>
    quarantined s' = quarantined s - {row}"
  by (rule quarantineRow_ok[OF assms(1,2)], intro exI conjI, assumption+)
    (use assms in \<open>auto simp: after_move_def quarantined_def at_head_def\<close>)

theorem rq_head_hit_releases_witness:
  "\<exists>(s :: misra_gries rq) s'. rq_inv s \<and> at_head s 5 \<and> quarantineRow 5 s = Inr s' \<and> quarantined s' = {}"
proof -
  have d: "rq_inv (rq_demo 1)" "5 < numRows (rq_demo 1)" using rq_demo_ok(1) by (simp_all add: rq_demo_simps)
  obtain s :: "misra_gries rq" where s: "rq_inv s" "quarantined s = after_move (rq_demo 1) 5" "numRows s = numRows (rq_demo 1)"
    "row_To_QR_T s = moved_to (rq_demo 1) 5" "nextFreeQR_ID s = (nextFreeQR_ID (rq_demo 1) + 1) mod numQREntries (rq_demo 1)"
    by (rule quarantineRow_ok[OF d], rule that, assumption+)
  have h: "at_head s 5" and q: "quarantined s = {5}"
    using s by (simp_all add: at_head_def after_move_def moved_to_def rq_demo_simps Let_def)
  then show ?thesis using rq_head_hit_releases[OF s(1) _ h] s(1,3) by (auto simp: rq_demo_simps)
qed


text \<open>
  Draining releases the row of the tail slot and advances the tail, except when the slot is
  empty or belongs to the running window; then the quarantine is unchanged. It always returns.
\<close>

theorem rq_drain_releases_tail:
  assumes "rq_inv s"
  shows "\<exists>s'. drainRow s = Inr s' \<and> rq_inv s' \<and>
    (if QRTail_ID s \<noteq> prevQRHead_ID s \<and> qe_valid (QR_To_Row_T s (QRTail_ID s))
     then quarantined s' = quarantined s - {qe_value (QR_To_Row_T s (QRTail_ID s))} \<and>
       QRTail_ID s' = (QRTail_ID s + 1) mod numQREntries s
     else quarantined s' = quarantined s \<and> QRTail_ID s' = QRTail_ID s)"
  by (rule drainRow_ok[OF assms], intro exI conjI, assumption+) (auto simp: can_drain_def tail_row_def)

theorem rq_drain_releases_tail_witness:
  "\<exists>s'. drainRow (rq_demo 4) = Inr s' \<and> quarantined s' = {}"
  using rq_drain_releases_tail[OF rq_demo_ok(1), of 4] by (auto simp: rq_demo_simps)

text \<open>
  The check before an access never stops and never changes the quarantine, and a row that is
  filtered out is not in quarantine and pays no table access.
\<close>

theorem rq_check_sound:
  assumes "rq_inv s" and "row < numRows s"
  shows "\<exists>s'. addQCheckDelay row s = Inr s' \<and> rq_inv s' \<and> row_To_QR_T s' = row_To_QR_T s \<and>
    QR_To_Row_T s' = QR_To_Row_T s \<and>
    (maybe_quarantined s row = Inr False \<longrightarrow>
       row \<notin> quarantined s \<and> d_delay (decision s') = d_delay (decision s))"
proof -
  have f: "filter_ok s (quarantined s)" and geo: "numBanks s = 1" "numRows s < u32_size"
    using assms(1) by (simp_all add: rq_inv_def)
  obtain s' where s': "addQCheckDelay row s = Inr s'" "rq_inv s'" "rq_aux s s'"
    by (rule addQCheckDelay_ok[OF assms], rule that)
  obtain b where b: "maybe_quarantined s row = Inr b" "row \<in> quarantined s \<Longrightarrow> b"
    by (rule maybe_quarantined_ok[OF f, of row], rule that)
  have d: "d_delay (decision s') = d_delay (decision s)" if "maybe_quarantined s row = Inr False"
  proof -
    have "rows_per_btv_bit (add_SRAM_delay t s) = rows_per_btv_bit s" "bitvector (add_SRAM_delay t s) = bitvector s"
      "rq_filter (add_SRAM_delay t s) = rq_filter s" for t
      by (simp_all add: add_SRAM_delay_def)
    then have q: "maybe_quarantined (add_SRAM_delay (SRAM_CBF_accDelay s) s) row = Inr False"
      using that unfolding maybe_quarantined_def by presburger
    have "s' = count_negative (add_SRAM_delay (SRAM_CBF_accDelay s) s)"
      using s'(1) q assms(2) generateCBFID_id[OF geo assms(2)]
      by (simp add: addQCheckDelay_def Let_def split: if_splits)
    then show ?thesis
      by (simp add: count_negative_def add_SRAM_delay_def upd_stats_def split: option.split)
  qed
  show ?thesis using s' rq_auxD[OF s'(3)] b d by auto
qed

theorem rq_check_sound_witness:
  "\<exists>s'. addQCheckDelay 9 (rq_demo 4) = Inr s' \<and> d_delay (decision s') = d_delay (decision (rq_demo 4))"
proof -
  have "maybe_quarantined (rq_demo 4) 9 = Inr False"
    by (simp add: maybe_quarantined_def btv_query_def rq_demo_simps)
  then show ?thesis using rq_check_sound[OF rq_demo_ok(1), of 4 9] by (auto simp: rq_demo_simps)
qed

text \<open>
  The shortcut of the mapping cache is sound: when the lookup of a row misses, another row of its
  group is cached and the group's counter is one, the row is not in quarantine.
\<close>

theorem rq_partial_hit_sound:
  assumes inv: "rq_inv s" and "row < numRows s" and "rq_filter s = None" and c: "rq_cache s = Some c"
    and miss: "fc_Lookup c row True = Inr (w, c1)" "\<not> w < m_ways c1"
    and hit: "fc_PartialLookup c1 row = Inr (lw, c2)" "lw < m_ways c2"
    and one: "ORR_CBF s (row div rows_per_btv_bit s) = 1"
  shows "row \<notin> quarantined s"
proof
  assume q: "row \<in> quarantined s"
  have f: "filter_ok s (quarantined s)" and ck: "cache_ok s (quarantined s)" using inv by (simp_all add: rq_inv_def)
  note k = cache_okD[OF ck c]
  obtain w' c1' where l: "fc_Lookup c row True = Inr (w', c1')" "w' < m_ways c \<longleftrightarrow> row \<in> fc_cached c"
    "fc_wf c1'" "fc_cached c1' = fc_cached c" "fc_geom c1' = fc_geom c"
    by (rule fc_Lookup_ok[OF k(1), of row True], rule that)
  obtain l' c2' where p: "fc_PartialLookup c1' row = Inr (l', c2')"
    "l' < m_ways c1' \<longleftrightarrow> (\<exists>t\<in>fc_cached c1'. fc_set c1' t = fc_set c1' row \<and>
      t div partial_lookup_factor c1' = row div partial_lookup_factor c1')"
    "fc_geom c2' = fc_geom c1'"
    by (rule fc_PartialLookup_ok[OF l(3), of row], rule that)
  have eq: "w' = w" "c1' = c1" "l' = lw" "c2' = c2" using miss(1) hit(1) l(1) p(1) by auto
  note g = fc_geomD[OF l(5)] fc_geomD[OF p(3)]
  have "row \<notin> fc_cached c" using l(2) miss(2) g eq by simp
  moreover obtain t where "t \<in> fc_cached c" "t div rows_per_btv_bit s = row div rows_per_btv_bit s"
    using p(2) hit(2) g l(4) k(4) eq by auto
  ultimately have t: "t \<in> quarantined s" "t \<noteq> row" "t div rows_per_btv_bit s = row div rows_per_btv_bit s"
    using k(2) by auto
  let ?G = "{r \<in> quarantined s. r div rows_per_btv_bit s = row div rows_per_btv_bit s}"
  have "card ?G = 1" using f k(7) assms(3) one by (simp add: filter_ok_def btv_rep_def)
  moreover have "{t, row} \<subseteq> ?G" using t q by auto
  ultimately show False using t(2) by (elim card_1_singletonE) (auto simp only: insert_subset singleton_iff)
qed

definition rq_one :: "func_cache \<Rightarrow> misra_gries rq" where
  "rq_one c = (rq_demo 4)\<lparr>row_To_QR_T := (\<lambda>r. \<lparr>qe_valid = r = 8, qe_value = 0\<rparr>),
     QR_To_Row_T := (\<lambda>q. \<lparr>qe_valid = q = 0, qe_value = 8\<rparr>), bitvector := (\<lambda>_. 0)(1 := 1), ORR_CBF := (\<lambda>_. 0)(1 := 1),
     rq_cache := Some c\<rparr>"

lemma rq_one_ok:
  assumes "fc_wf c" and "fc_cached c = {8}" and "fc_geom c = fc_geom (fc_new 8 2 2)"
  shows "rq_inv (rq_one c)"
proof -
  have q: "quarantined (rq_one c) = {8}" by (auto simp: quarantined_def rq_one_def rq_demo_simps)
  have "{r \<in> {8::nat}. r div 8 = g} = (if g = 1 then {8} else {})" for g by auto
  then have "btv_rep (8, (\<lambda>_. 0)(1 := 1)) {8}" by (simp add: btv_rep_def)
  moreover have "inverse_tables 32 4 (row_To_QR_T (rq_one c)) (QR_To_Row_T (rq_one c))"
    by (auto simp: inverse_tables_def rq_one_def)
  moreover have "m_blk_offset c = 5" "partial_lookup_factor c = 8"
    using fc_geomD[OF assms(3)] by (simp_all add: fc_new_def)
  ultimately show ?thesis
    using assms(1,2) unfolding rq_inv_def q filter_ok_def cache_ok_def
    by (simp add: rq_one_def rq_demo_simps)
qed

lemma fc_new_blank: "m_ways (fc_new plf sets 2) = 2" "\<not> cb_valid (fc_row (fc_new plf sets 2) a ! 0)"
  by (simp_all add: fc_new_def fc_row_def zero_block_def)

theorem rq_partial_hit_sound_witness:
  "\<exists>c w c1 lw c2. rq_inv (rq_one c) \<and> fc_Lookup c 9 True = Inr (w, c1) \<and> fc_PartialLookup c1 9 = Inr (lw, c2) \<and>
    lw < m_ways c2 \<and> 9 \<notin> quarantined (rq_one c)"
proof -
  have n: "fc_wf (fc_new 8 2 2)" "fc_cached (fc_new 8 2 2) = {}" by (simp_all add: fc_new_wf)
  obtain c where c: "fc_wf c" "fc_cached c = {8}" "fc_geom c = fc_geom (fc_new 8 2 2)"
  proof (rule fc_Fill_ok[OF n(1), of 0 8])
    show "0 < m_ways (fc_new 8 2 2)" "\<not> cb_valid (fc_row (fc_new 8 2 2) 8 ! 0)" "8 \<notin> fc_cached (fc_new 8 2 2)"
      by (simp_all add: fc_new_blank n(2))
  qed (use that n(2) in simp)
  have g: "m_ways c = 2" "m_sets c = 2" "m_blk_offset c = 5" "partial_lookup_factor c = 8"
    using fc_geomD[OF c(3)] by (simp_all add: fc_new_def)
  obtain w c1 where l: "fc_Lookup c 9 True = Inr (w, c1)" "w < m_ways c \<longleftrightarrow> 9 \<in> fc_cached c"
    "fc_wf c1" "fc_cached c1 = fc_cached c" "fc_geom c1 = fc_geom c"
    by (rule fc_Lookup_ok[OF c(1), of 9 True], rule that)
  obtain lw c2 where p: "fc_PartialLookup c1 9 = Inr (lw, c2)"
    "lw < m_ways c1 \<longleftrightarrow> (\<exists>t\<in>fc_cached c1. fc_set c1 t = fc_set c1 9 \<and>
      t div partial_lookup_factor c1 = 9 div partial_lookup_factor c1)"
    "fc_geom c2 = fc_geom c1"
    by (rule fc_PartialLookup_ok[OF l(3), of 9], rule that)
  note g1 = fc_geomD[OF l(5)] fc_geomD[OF p(3)]
  have hit: "lw < m_ways c2" and miss: "\<not> w < m_ways c1"
    using p(2) l(2,4) c(2) g g1 by (simp_all add: fc_set_def)
  have "9 \<notin> quarantined (rq_one c)"
    by (rule rq_partial_hit_sound[OF rq_one_ok[OF c] _ _ _ l(1) miss p(1) hit])
      (simp_all add: rq_one_def rq_demo_simps)
  then show ?thesis using rq_one_ok[OF c] l(1) p(1) hit by blast
qed

text \<open>
  The relabelling is a permutation of the rows, so two addresses are decoded to the same row
  and bank for the detector only if they lie in the same row of memory.
\<close>

theorem rq_decode_injective:
  assumes "randRowID s = rq_shuffle (numRows s) rnd" and "numRows s < u32_size" and "16 dvd numRows s"
    and "a div 8192 < numRows s" and "a' div 8192 < numRows s"
    and "decodeAddr a s = Inr (r, b, s1)" and "decodeAddr a' s = Inr (r, b, s2)"
  shows "a div 8192 = a' div 8192 \<and> b < 16 \<and> r < numRows s div 16"
proof -
  let ?f = "randRowID s"
  have d: "decodeAddr x s = Inr (?f (x div 8192) div 16, ?f (x div 8192) mod 16,
      s\<lparr>numAccessesToRow := (numAccessesToRow s)(x div 8192 := inc32 (numAccessesToRow s (x div 8192)))\<rparr>)"
    if "x div 8192 < numRows s" for x
    using decodeAddr_ok[OF that assms(2,3)] rq_shuffle_less that assms(1) by simp
  have e: "?f (a div 8192) div 16 = r" "?f (a div 8192) mod 16 = b" "?f (a' div 8192) div 16 = r" "?f (a' div 8192) mod 16 = b"
    using d[OF assms(4)] d[OF assms(5)] assms(6,7) by simp_all
  then have "?f (a div 8192) = ?f (a' div 8192)" by (metis div_mult_mod_eq)
  then have "a div 8192 = a' div 8192"
    using rq_shuffle_bij[of "numRows s" rnd] assms(1,4,5) by (auto simp: bij_betw_def inj_on_def)
  moreover have "b < 16" using e(2) by auto
  moreover have "?f (a div 8192) < numRows s" using rq_shuffle_less assms(1,4) by simp
  then have "r < numRows s div 16" using e(1) assms(3) by (auto elim!: dvdE)
  ultimately show ?thesis by simp
qed

theorem rq_decode_injective_witness:
  "\<exists>r b s1 s2. decodeAddr 8192 (rq_demo 4) = Inr (r, b, s1) \<and> decodeAddr 9000 (rq_demo 4) = Inr (r, b, s2) \<and> b < 16"
proof -
  let ?r = "randRowID (rq_demo 4) 1"
  have l: "?r < 32" by (simp add: rq_demo_simps rq_shuffle_less)
  obtain s1 s2 where d: "decodeAddr 8192 (rq_demo 4) = Inr (?r div 16, ?r mod 16, s1)"
    "decodeAddr 9000 (rq_demo 4) = Inr (?r div 16, ?r mod 16, s2)"
    using decodeAddr_ok[of 8192 "rq_demo 4"] decodeAddr_ok[of 9000 "rq_demo 4"] l
    by (simp add: rq_demo_simps(1))
  have "?r mod 16 < 16"
    using rq_decode_injective[OF _ _ _ _ _ d, of "\<lambda>ii. 7 * ii + 3"] by (simp add: rq_demo_simps)
  then show ?thesis using d by blast
qed

end
