(* ===== verification/Block_Hammer.thy ===== *)
theory Block_Hammer
  imports RH_Mitigation
begin

text \<open>
  \<open>class BlockHammer\<close> of \<open>mem/rowhammer_mitigation.hh\<close> and \<open>.cc\<close>: rows are counted, and the
  accesses to a row that reached the black-list threshold are delayed so that the activations that
  are left fill the rest of the refresh window.  The lemmas show that a row whose accesses respect
  the delays never comes within one activation of the threshold, and what happens when they do not.
\<close>

section \<open>Model\<close>

record 'd bh = "'d rh_mitigation" +
  BlackListThreshold :: tick

text \<open>The constructor; \<open>junk\<close> holds the members that it does not initialise.\<close>

definition bh_new :: "'d bh \<Rightarrow> nat \<Rightarrow> nat \<Rightarrow> nat \<Rightarrow> nat \<Rightarrow> nat \<Rightarrow> nat \<Rightarrow> 'd bh" where
  "bh_new junk thr rows bl banks ranks channels =
     junk\<lparr>rh_thr := thr, BlackListThreshold := bl, numRows := rows, numBanks := banks, numRanks := ranks,
          numChannels := channels, last_reset := 0, numAccessesToRow := (\<lambda>_. 0),
          rh_stats := (rh_stats junk)
            \<lparr>s_numRowAccesses_RH := 0,
             s_numLogRowAccesses := (\<lambda>i. if i < 4 then 0 else s_numLogRowAccesses (rh_stats junk) i)\<rparr>\<rparr>"

definition bh_index :: "'d bh \<Rightarrow> addr \<Rightarrow> nat \<Rightarrow> nat" where
  "bh_index s row bank = (bank + numBanks s * row) mod u32_size"

text \<open>The activations a row has left before the threshold, as the code computes them in 32 bits.\<close>

definition acts_remaining :: "nat \<Rightarrow> nat \<Rightarrow> nat" where
  "acts_remaining thr n = (if sub32 n 1 < thr then sub32 (sub32 thr n) 1 else 1)"

text \<open>The delay of an access at \<open>currTick\<close> that brings the count of its row to \<open>n\<close>.\<close>

definition bh_throttle :: "tick \<Rightarrow> nat \<Rightarrow> 'd bh \<Rightarrow> 'd bh res" where
  "bh_throttle currTick n s =
     (if BlackListThreshold s \<le> n
      then rnonzero (acts_remaining (rh_thr s) n)
             (Inr (s\<lparr>decision := (decision s)
               \<lparr>d_MC_delay := sub64 (window_ticks + last_reset s) currTick div acts_remaining (rh_thr s) n,
                d_mitigate := True\<rparr>\<rparr>))
      else Inr s)"

text \<open>The statistics of one row at the end of a window: three decades and the black-listed rows.\<close>

definition bh_tally :: "nat \<Rightarrow> tick \<Rightarrow> nat \<Rightarrow> rh_stats \<Rightarrow> rh_stats" where
  "bh_tally thr bl n st =
     (let st1 = (if thr \<le> n then st\<lparr>s_numRowAccesses_RH := s_numRowAccesses_RH st + 1\<rparr> else st);
          st2 = (if bl \<le> n
                 then st1\<lparr>s_numLogRowAccesses := (s_numLogRowAccesses st1)(3 := s_numLogRowAccesses st1 3 + 1)\<rparr>
                 else st1)
      in bump_log 2 n st2)"

definition bh_reset :: "'d bh \<Rightarrow> 'd bh" where
  "bh_reset s =
     (let n = numDRAMRows s; st = (rh_stats s)\<lparr>s_num_resets := s_num_resets (rh_stats s) + 1\<rparr>
      in s\<lparr>rh_stats := fold (\<lambda>r. bh_tally (rh_thr s) (BlackListThreshold s) (numAccessesToRow s r)) [0..<n] st,
           numAccessesToRow := clear_row_counts n (numAccessesToRow s)\<rparr>)"

definition bh_enter :: "tick \<Rightarrow> 'd bh \<Rightarrow> 'd bh" where
  "bh_enter currTick s =
     (let s0 = s\<lparr>rh_stats := (rh_stats s)\<lparr>s_num_accesses := s_num_accesses (rh_stats s) + 1\<rparr>,
                 decision := cleared_decision\<rparr>
      in if window_over currTick s0 then bh_reset (s0\<lparr>last_reset := currTick\<rparr>) else s0)"

definition bh_access :: "tick \<Rightarrow> addr \<Rightarrow> nat \<Rightarrow> 'd bh \<Rightarrow> (decision \<times> 'd bh) res" where
  "bh_access currTick rowID bankID s =
     (let s1 = bh_enter currTick s; r = bh_index s1 rowID bankID; n = inc32 (numAccessesToRow s1 r) in
      rindex (r < numDRAMRows s1)
       (rbind (bh_throttle currTick n (s1\<lparr>numAccessesToRow := (numAccessesToRow s1)(r := n)\<rparr>)) (\<lambda>s2.
        let d = (decision s2)\<lparr>d_SRAM_delay := d_SRAM_delay (decision s2) + SRAM_CBF_accDelay s2\<rparr>
        in Inr (d, s2\<lparr>decision := d\<rparr>))))"

text \<open>A sequence of accesses, with the delays they are given.\<close>

fun bh_run :: "'d bh \<Rightarrow> (tick \<times> addr \<times> nat) list \<Rightarrow> (tick list \<times> 'd bh) res" where
  "bh_run s [] = Inr ([], s)"
| "bh_run s ((t, row, bank) # as) =
     rbind (bh_access t row bank s) (\<lambda>(d, s1). rbind (bh_run s1 as) (\<lambda>(ds, s2). Inr (d_MC_delay d # ds, s2)))"

text \<open>
  The accesses come in order of time, and none comes before its row is released: \<open>rel\<close> gives the
  end of the delay of the last access to a row.
\<close>

fun bh_paced :: "'d bh \<Rightarrow> (nat \<Rightarrow> tick) \<Rightarrow> tick \<Rightarrow> (tick \<times> addr \<times> nat) list \<Rightarrow> bool" where
  "bh_paced s rel now [] \<longleftrightarrow> True"
| "bh_paced s rel now ((t, row, bank) # as) \<longleftrightarrow>
     now \<le> t \<and> t + window_ticks < u64_size \<and> row < numRows s \<and> bank < numBanks s \<and> rel (bh_index s row bank) \<le> t \<and>
     (case bh_access t row bank s of
        Inl _ \<Rightarrow> True
      | Inr (d, s1) \<Rightarrow> bh_paced s1 (rel(bh_index s row bank := t + d_MC_delay d)) t as)"

section \<open>Lemmas\<close>

text \<open>The geometry and the thresholds.\<close>

definition bh_geom :: "'d bh \<Rightarrow> nat \<times> nat \<times> nat \<times> nat \<times> nat \<times> nat" where
  "bh_geom s = (numRows s, numBanks s, numRanks s, numChannels s, rh_thr s, BlackListThreshold s)"

definition bh_sized :: "'d bh \<Rightarrow> bool" where
  "bh_sized s \<longleftrightarrow> 0 < numRanks s \<and> 0 < numChannels s \<and>
     numRows s * numBanks s * numRanks s * numChannels s < u32_size \<and>
     BlackListThreshold s + 2 \<le> rh_thr s \<and> 3 \<le> rh_thr s \<and> rh_thr s < u32_size"

lemma bh_geom_cong:
  assumes "bh_geom s' = bh_geom s"
  shows "bh_sized s' = bh_sized s" "numDRAMRows s' = numDRAMRows s" "bh_index s' = bh_index s" "rh_thr s' = rh_thr s"
    "BlackListThreshold s' = BlackListThreshold s" "numRows s' = numRows s" "numBanks s' = numBanks s"
  using assms by (auto simp: bh_geom_def bh_sized_def numDRAMRows_def bh_index_def fun_eq_iff)

lemma bh_index_less:
  assumes "bh_sized s" and "row < numRows s" and "bank < numBanks s"
  shows "bh_index s row bank < numDRAMRows s" and "bh_index s row bank = bank + numBanks s * row"
proof -
  have le: "numRows s * numBanks s * 1 * 1 \<le> numRows s * numBanks s * numRanks s * numChannels s"
    using assms(1) by (intro mult_mono) (auto simp: bh_sized_def)
  have "bank + numBanks s * row < numBanks s * (row + 1)" using assms(3) by simp
  also have "\<dots> \<le> numBanks s * numRows s" using assms(2) by (intro mult_le_mono2) simp
  finally have *: "bank + numBanks s * row < numRows s * numBanks s" by (simp add: mult.commute)
  then have "bank + numBanks s * row < numRows s * numBanks s * numRanks s * numChannels s" using le by linarith
  moreover have "numDRAMRows s = numRows s * numBanks s * numRanks s * numChannels s"
    "numRows s * numBanks s * numRanks s * numChannels s < u32_size"
    using assms(1) by (simp_all add: bh_sized_def numDRAMRows_def)
  ultimately have "bank + numBanks s * row < u32_size" "bank + numBanks s * row < numDRAMRows s"
    by (metis less_trans, metis)
  then show "bh_index s row bank < numDRAMRows s" "bh_index s row bank = bank + numBanks s * row"
    by (simp_all add: bh_index_def)
qed

lemma bh_reset_simps [simp]:
  "bh_geom (bh_reset s) = bh_geom s" "last_reset (bh_reset s) = last_reset s" "decision (bh_reset s) = decision s"
  "numAccessesToRow (bh_reset s) = clear_row_counts (numDRAMRows s) (numAccessesToRow s)"
  "SRAM_CBF_accDelay (bh_reset s) = SRAM_CBF_accDelay s"
  by (simp_all add: bh_reset_def Let_def bh_geom_def)

lemma bh_enter_simps:
  "bh_geom (bh_enter t s) = bh_geom s" "decision (bh_enter t s) = cleared_decision"
  "last_reset (bh_enter t s) = (if window_over t s then t else last_reset s)"
  "numAccessesToRow (bh_enter t s) =
     (if window_over t s then clear_row_counts (numDRAMRows s) (numAccessesToRow s) else numAccessesToRow s)"
  "SRAM_CBF_accDelay (bh_enter t s) = SRAM_CBF_accDelay s"
  by (simp_all add: bh_enter_def Let_def window_over_def bh_geom_def[of "_\<lparr>decision := _\<rparr>"]
      bh_geom_def[of "_\<lparr>last_reset := _\<rparr>"] numDRAMRows_def) (simp_all add: bh_geom_def)

lemma acts_remaining_eq:
  assumes "0 < n" and "n < u32_size" and "thr < u32_size"
  shows "n + 1 \<le> thr \<Longrightarrow> acts_remaining thr n = thr - n - 1"
    and "n = thr \<Longrightarrow> acts_remaining thr n = u32_size - 1" and "thr < n \<Longrightarrow> acts_remaining thr n = 1"
proof -
  have m: "sub32 n 1 = n - 1" using assms by (simp add: sub32_le)
  show "acts_remaining thr n = thr - n - 1" if "n + 1 \<le> thr"
    using that assms by (simp add: acts_remaining_def m sub32_le)
  show "acts_remaining thr n = u32_size - 1" if "n = thr"
    using that assms by (simp add: acts_remaining_def m sub32_le) (simp add: sub32_def)
  show "acts_remaining thr n = 1" if "thr < n"
    unfolding acts_remaining_def m using that by auto
qed


text \<open>
  A paced state: no row is within one activation of the threshold, and a row that has only two
  activations left is held until the window is over.
\<close>

definition bh_held :: "'d bh \<Rightarrow> (nat \<Rightarrow> tick) \<Rightarrow> bool" where
  "bh_held s rel \<longleftrightarrow> (\<forall>r<numDRAMRows s. numAccessesToRow s r + 2 \<le> rh_thr s \<and>
     (numAccessesToRow s r + 2 = rh_thr s \<longrightarrow> last_reset s + window_ticks \<le> rel r))"

lemma bh_throttle_ok:
  assumes "bh_sized s" and "0 < n" and "n + 2 \<le> rh_thr s" and "last_reset s \<le> t" "t < last_reset s + window_ticks"
    and "t + window_ticks < u64_size" and "d_MC_delay (decision s) = 0"
  obtains d where "bh_throttle t n s = Inr (s\<lparr>decision := d\<rparr>)" and "d_SRAM_delay d = d_SRAM_delay (decision s)"
    and "d_MC_delay d = (if n < BlackListThreshold s then 0
      else (last_reset s + window_ticks - t) div (rh_thr s - n - 1))"
proof -
  have lt: "rh_thr s < u32_size" "n < u32_size" using assms(1,3) by (auto simp: bh_sized_def)
  have a: "acts_remaining (rh_thr s) n = rh_thr s - n - 1"
    by (rule acts_remaining_eq(1)) (use assms(2,3) lt in simp_all)
  have w: "sub64 (window_ticks + last_reset s) t = last_reset s + window_ticks - t"
    using assms(4-6) by (subst sub64_le) (auto simp: add.commute)
  show ?thesis
  proof (cases "n < BlackListThreshold s")
    case True
    then show ?thesis using that[of "decision s"] assms(7) by (simp add: bh_throttle_def)
  next
    case False
    then show ?thesis
      using that[of "(decision s)\<lparr>d_MC_delay := (last_reset s + window_ticks - t) div (rh_thr s - n - 1),
        d_mitigate := True\<rparr>"] assms(3) by (simp add: bh_throttle_def a w)
  qed
qed

lemma bh_access_paced:
  assumes sized: "bh_sized s" and held: "bh_held s rel" and t: "last_reset s \<le> t" "t + window_ticks < u64_size"
    and r: "row < numRows s" "bank < numBanks s" "rel (bh_index s row bank) \<le> t"
  defines "i \<equiv> bh_index s row bank"
  defines "n \<equiv> (if window_over t s then 1 else numAccessesToRow s i + 1)"
    and "l \<equiv> (if window_over t s then t else last_reset s)"
  obtains d s' where "bh_access t row bank s = Inr (d, s')" and "bh_geom s' = bh_geom s" and "last_reset s' = l"
    and "d_MC_delay d = (if n < BlackListThreshold s then 0 else (l + window_ticks - t) div (rh_thr s - n - 1))"
    and "numAccessesToRow s' i = n" and "bh_held s' (rel(i := t + d_MC_delay d))"
proof -
  define e where "e = bh_enter t s"
  note g = bh_geom_cong[OF bh_enter_simps(1)[of t s], folded e_def]
  note e = bh_enter_simps[of t s, folded e_def]
  have i: "i < numDRAMRows s" unfolding i_def by (rule bh_index_less(1)[OF sized r(1,2)])
  have w: "window_over t s \<longleftrightarrow> last_reset s + window_ticks \<le> t"
    using t by (auto simp: window_over_def sub64_le)
  have room: "numAccessesToRow e i + 3 \<le> rh_thr s"
  proof (cases "window_over t s")
    case True
    then show ?thesis using sized i by (simp add: e(4) clear_row_counts_def bh_sized_def)
  next
    case False
    then have "numAccessesToRow s i + 2 \<noteq> rh_thr s" using held i r(3) w by (auto simp: bh_held_def i_def)
    then show ?thesis using held i False by (fastforce simp: bh_held_def e(4))
  qed
  have n: "inc32 (numAccessesToRow e i) = n" "0 < n" "n + 2 \<le> rh_thr s"
    using room sized i by (auto simp: n_def e(4) clear_row_counts_def bh_sized_def inc32_noov)
  define f where "f = e\<lparr>numAccessesToRow := (numAccessesToRow e)(i := n)\<rparr>"
  have fg: "bh_geom f = bh_geom s" using e(1) by (simp add: f_def bh_geom_def)
  note fc = bh_geom_cong[OF fg]
  have fl: "last_reset f = l" "decision f = cleared_decision" by (simp_all add: f_def e l_def)
  have "l \<le> t" "t < l + window_ticks" using w t by (auto simp: l_def window_ticks_def)
  then obtain d where d: "bh_throttle t n f = Inr (f\<lparr>decision := d\<rparr>)" "d_SRAM_delay d = d_SRAM_delay (decision f)"
    "d_MC_delay d = (if n < BlackListThreshold f then 0
      else (last_reset f + window_ticks - t) div (rh_thr f - n - 1))"
    by (rule bh_throttle_ok[of f n t, unfolded fc fl(1), OF sized n(2,3) _ _ t(2)])
      (simp_all add: fl fc cleared_decision_def)
  define d' where "d' = d\<lparr>d_SRAM_delay := d_SRAM_delay d + SRAM_CBF_accDelay f\<rparr>"
  let ?s' = "f\<lparr>decision := d'\<rparr>"
  have run: "bh_access t row bank s = Inr (d', ?s')"
    using i n(1) d(1) unfolding bh_access_def Let_def e_def[symmetric] g i_def[symmetric]
    by (simp add: f_def[symmetric] d'_def)
  have d': "d_MC_delay d' = (if n < BlackListThreshold s then 0 else (l + window_ticks - t) div (rh_thr s - n - 1))"
    using d(3) by (simp add: d'_def fc fl)
  have gs: "bh_geom ?s' = bh_geom s" using fg by (simp add: bh_geom_def)
  have "bh_held ?s' (rel(i := t + d_MC_delay d'))"
    unfolding bh_held_def bh_geom_cong[OF gs]
  proof (intro allI impI)
    fix k assume k: "k < numDRAMRows s"
    show "numAccessesToRow ?s' k + 2 \<le> rh_thr s \<and> (numAccessesToRow ?s' k + 2 = rh_thr s \<longrightarrow>
        last_reset ?s' + window_ticks \<le> (rel(i := t + d_MC_delay d')) k)"
    proof (cases "k = i")
      case True
      have "d_MC_delay d' = l + window_ticks - t" if "n + 2 = rh_thr s"
      proof -
        have "\<not> n < BlackListThreshold s" "rh_thr s - n - 1 = 1" using that sized by (auto simp: bh_sized_def)
        then show ?thesis using d' by simp
      qed
      then show ?thesis using True n(3) \<open>t < l + window_ticks\<close> fl by (simp add: f_def)
    next
      case False
      then show ?thesis
        using held k sized by (auto simp: f_def e bh_held_def clear_row_counts_def bh_sized_def)
    qed
  qed
  then show ?thesis using that[OF run gs _ d'] fl by (simp add: f_def)
qed

lemma bh_paced_run:
  assumes "bh_sized s" and "bh_held s rel" and "last_reset s \<le> now" and "bh_paced s rel now as"
  shows "\<exists>ds s' rel'. bh_run s as = Inr (ds, s') \<and> bh_geom s' = bh_geom s \<and> bh_held s' rel'"
  using assms
proof (induction as arbitrary: s rel now)
  case Nil
  then show ?case by auto
next
  case (Cons a as)
  obtain t row bank where a: "a = (t, row, bank)" by (cases a)
  let ?i = "bh_index s row bank"
  have p: "now \<le> t" "t + window_ticks < u64_size" "row < numRows s" "bank < numBanks s" "rel ?i \<le> t"
    using Cons.prems(4) by (simp_all add: a)
  have t: "last_reset s \<le> t" using p(1) Cons.prems(3) by simp
  obtain d s1 where s1: "bh_access t row bank s = Inr (d, s1)" "bh_geom s1 = bh_geom s"
    "last_reset s1 = (if window_over t s then t else last_reset s)" "bh_held s1 (rel(?i := t + d_MC_delay d))"
    by (rule bh_access_paced[OF Cons.prems(1,2) t p(2-5)], rule that)
  have "bh_sized s1" using Cons.prems(1) bh_geom_cong(1)[OF s1(2)] by simp
  moreover have "bh_paced s1 (rel(?i := t + d_MC_delay d)) t as" using Cons.prems(4) s1(1) by (simp add: a)
  moreover have "last_reset s1 \<le> t" using s1(3) t by simp
  ultimately obtain ds s' rel' where "bh_run s1 as = Inr (ds, s')" "bh_geom s' = bh_geom s1" "bh_held s' rel'"
    using Cons.IH[of s1 "rel(?i := t + d_MC_delay d)" t] s1(4) by blast
  then show ?case using s1(1,2) by (auto simp: a)
qed


section \<open>Properties\<close>

text \<open>
  C4. Throttling keeps every row below the threshold: if the accesses to a row wait for the delays
  they are given, no access stops and no row ever comes within one activation of the threshold.
\<close>

theorem blockhammer_throttles:
  assumes "bh_sized s" and "\<forall>r<numDRAMRows s. numAccessesToRow s r = 0" and "last_reset s \<le> now"
    and "bh_paced s (\<lambda>_. 0) now as"
  shows "\<exists>ds s'. bh_run s as = Inr (ds, s') \<and> length ds = length as \<and>
    (\<forall>r<numDRAMRows s. numAccessesToRow s' r + 2 \<le> rh_thr s)"
proof -
  have "bh_held s (\<lambda>_. 0)" using assms(1,2) by (auto simp: bh_held_def bh_sized_def)
  then obtain ds s' rel' where r: "bh_run s as = Inr (ds, s')" "bh_geom s' = bh_geom s" "bh_held s' rel'"
    using bh_paced_run[OF assms(1) _ assms(3,4)] by blast
  have "length ds = length as" if "bh_run u as = Inr (ds, u')" for u u' ds
    using that by (induction as arbitrary: u ds) (auto simp: rbind_Inr_iff)
  then show ?thesis using r bh_geom_cong[OF r(2)] by (auto simp: bh_held_def)
qed

definition bh_demo :: "nat \<Rightarrow> unit bh" where
  "bh_demo count = (bh_new (rh_mitigation.extend (zero_scheme ()) \<lparr>BlackListThreshold = 0\<rparr>) 4 8 2 2 1 1)
     \<lparr>numAccessesToRow := (\<lambda>r. if r = 11 then count else 0)\<rparr>"

lemma bh_demo_simps:
  "bh_geom (bh_demo count) = (8, 2, 1, 1, 4, 2)" "last_reset (bh_demo count) = 0"
  "numAccessesToRow (bh_demo count) r = (if r = 11 then count else 0)" "SRAM_CBF_accDelay (bh_demo count) = 0"
  "bh_index (bh_demo count) 5 (Suc 0) = 11" "numDRAMRows (bh_demo count) = 16" "rh_thr (bh_demo count) = 4"
  "numRows (bh_demo count) = 8" "numBanks (bh_demo count) = 2" "BlackListThreshold (bh_demo count) = 2"
  by (simp_all add: bh_demo_def bh_new_def rh_mitigation.defs zero_scheme_def bh_geom_def bh_index_def numDRAMRows_def)

lemma bh_demo_sized: "bh_sized (bh_demo count)"
  using bh_demo_simps(1)[of count] by (simp add: bh_sized_def bh_geom_def)

theorem blockhammer_throttles_witness:
  "\<exists>ds s'. bh_run (bh_demo 0) [(100, 5, 1)] = Inr (ds, s') \<and> numAccessesToRow s' 11 + 2 \<le> 4"
proof -
  have "bh_paced (bh_demo 0) (\<lambda>_. 0) 100 [(100, 5, 1)]"
    by (simp add: bh_demo_simps window_ticks_def split: sum.split)
  then show ?thesis
    using blockhammer_throttles[OF bh_demo_sized, of 0 100 "[(100, 5, 1)]"] by (auto simp: bh_demo_simps)
qed

text \<open>
  The delay of a black-listed row spreads the activations it has left over the rest of the
  window: an access inside the window that brings the count of its row to \<open>n\<close> counts it, and is
  delayed by the remaining time divided by \<open>threshold - n - 1\<close>.
\<close>

theorem blockhammer_delay:
  assumes "bh_sized s" and "row < numRows s" and "bank < numBanks s"
    and "last_reset s \<le> t" and "t < last_reset s + window_ticks" and "t + window_ticks < u64_size"
    and "numAccessesToRow s (bh_index s row bank) + 3 \<le> rh_thr s"
  shows "\<exists>d s'. bh_access t row bank s = Inr (d, s') \<and>
    numAccessesToRow s' = (numAccessesToRow s)(bh_index s row bank := numAccessesToRow s (bh_index s row bank) + 1) \<and>
    d_MC_delay d = (if numAccessesToRow s (bh_index s row bank) + 1 < BlackListThreshold s then 0
      else (last_reset s + window_ticks - t) div (rh_thr s - numAccessesToRow s (bh_index s row bank) - 2))"
proof -
  let ?i = "bh_index s row bank"
  define e where "e = bh_enter t s"
  have w: "\<not> window_over t s" using assms(4,5,6) by (simp add: window_over_def sub64_le)
  note g = bh_geom_cong[OF bh_enter_simps(1)[of t s], folded e_def]
  note e = bh_enter_simps[of t s, folded e_def]
  have i: "?i < numDRAMRows s" by (rule bh_index_less(1)[OF assms(1-3)])
  have n: "inc32 (numAccessesToRow s ?i) = numAccessesToRow s ?i + 1"
    using assms(1,7) by (intro inc32_noov) (simp add: bh_sized_def)
  define f where "f = e\<lparr>numAccessesToRow := (numAccessesToRow s)(?i := Suc (numAccessesToRow s ?i))\<rparr>"
  have fg: "bh_geom f = bh_geom s" using e(1) by (simp add: f_def bh_geom_def)
  note fc = bh_geom_cong[OF fg]
  have fl: "last_reset f = last_reset s" "decision f = cleared_decision" using w by (simp_all add: f_def e)
  obtain d where d: "bh_throttle t (numAccessesToRow s ?i + 1) f = Inr (f\<lparr>decision := d\<rparr>)"
    "d_MC_delay d = (if numAccessesToRow s ?i + 1 < BlackListThreshold f then 0
      else (last_reset f + window_ticks - t) div (rh_thr f - (numAccessesToRow s ?i + 1) - 1))"
    by (rule bh_throttle_ok[of f "numAccessesToRow s ?i + 1" t, unfolded fc fl(1), OF assms(1) _ _ assms(4-6)])
      (use assms(7) in \<open>simp_all add: fl fc cleared_decision_def\<close>)
  have "bh_access t row bank s = Inr (d\<lparr>d_SRAM_delay := d_SRAM_delay d + SRAM_CBF_accDelay f\<rparr>,
      f\<lparr>decision := d\<lparr>d_SRAM_delay := d_SRAM_delay d + SRAM_CBF_accDelay f\<rparr>\<rparr>)"
    using i n d(1) w unfolding bh_access_def Let_def e_def[symmetric] g by (simp add: e(4) f_def[symmetric])
  then show ?thesis using d(2) w by (simp add: fc fl) (simp add: f_def e(4))
qed

theorem blockhammer_delay_witness:
  "\<exists>d s'. bh_access 100 5 1 (bh_demo 1) = Inr (d, s') \<and> d_MC_delay d = 63999999900"
  using blockhammer_delay[OF bh_demo_sized, of 5 1 1 100] by (auto simp: bh_demo_simps window_ticks_def)

text \<open>
  C37. Off by one: when the count of a row reaches \<open>threshold - 1\<close> no activation is left, and the
  division by \<open>ACTs_Remaining\<close> stops the simulation.
\<close>

theorem blockhammer_divides_by_zero:
  assumes "bh_sized s" and "row < numRows s" and "bank < numBanks s"
    and "last_reset s \<le> t" and "t < last_reset s + window_ticks" and "t < u64_size"
    and "numAccessesToRow s (bh_index s row bank) + 2 = rh_thr s"
  shows "bh_access t row bank s = Inl Div_By_Zero"
proof -
  let ?i = "bh_index s row bank"
  define e where "e = bh_enter t s"
  have w: "\<not> window_over t s" using assms(4,5,6) by (simp add: window_over_def sub64_le)
  note g = bh_geom_cong[OF bh_enter_simps(1)[of t s], folded e_def]
  note e = bh_enter_simps[of t s, folded e_def]
  have i: "?i < numDRAMRows s" by (rule bh_index_less(1)[OF assms(1-3)])
  have n: "inc32 (numAccessesToRow s ?i) = numAccessesToRow s ?i + 1"
    using assms(1,7) by (intro inc32_noov) (simp add: bh_sized_def)
  have "acts_remaining (rh_thr s) (numAccessesToRow s ?i + 1) = 0"
    using assms(1,7) by (subst acts_remaining_eq(1)) (auto simp: bh_sized_def)
  then show ?thesis
    using i n w g e assms(1,7) unfolding bh_access_def Let_def e_def[symmetric]
    by (simp add: bh_throttle_def bh_sized_def)
qed

theorem blockhammer_divides_by_zero_witness: "bh_access 100 5 1 (bh_demo 2) = Inl Div_By_Zero"
  by (rule blockhammer_divides_by_zero[OF bh_demo_sized]) (simp_all add: bh_demo_simps window_ticks_def)

text \<open>
  At the threshold itself the 32-bit subtraction wraps around: the access that brings a row to
  \<open>threshold\<close> activations is delayed by at most 14 ticks, so the row is no longer throttled.
\<close>

theorem blockhammer_wraps_at_threshold:
  assumes "bh_sized s" and "row < numRows s" and "bank < numBanks s"
    and "last_reset s \<le> t" and "t < last_reset s + window_ticks" and "t + window_ticks < u64_size"
    and "numAccessesToRow s (bh_index s row bank) + 1 = rh_thr s"
  shows "\<exists>d s'. bh_access t row bank s = Inr (d, s') \<and> d_MC_delay d \<le> 14 \<and>
    numAccessesToRow s' (bh_index s row bank) = rh_thr s"
proof -
  let ?i = "bh_index s row bank"
  define e where "e = bh_enter t s"
  have w: "\<not> window_over t s" using assms(4,5,6) by (simp add: window_over_def sub64_le)
  note g = bh_geom_cong[OF bh_enter_simps(1)[of t s], folded e_def]
  note e = bh_enter_simps[of t s, folded e_def]
  have i: "?i < numDRAMRows s" by (rule bh_index_less(1)[OF assms(1-3)])
  have n: "inc32 (numAccessesToRow s ?i) = rh_thr s"
    using assms(1,7) by (subst inc32_noov) (auto simp: bh_sized_def)
  have a: "acts_remaining (rh_thr s) (rh_thr s) = u32_size - 1"
    using assms(1) by (intro acts_remaining_eq(2)) (auto simp: bh_sized_def)
  have m: "sub64 (window_ticks + last_reset s) t = last_reset s + window_ticks - t"
    using assms(4-6) by (subst sub64_le) (auto simp: add.commute)
  have "last_reset s + window_ticks - t \<le> window_ticks" using assms(4) by simp
  then have "(last_reset s + window_ticks - t) div (u32_size - 1) \<le> window_ticks div (u32_size - 1)"
    by (rule div_le_mono)
  also have "\<dots> = 14" by (simp add: window_ticks_def)
  finally have dl: "sub64 (window_ticks + last_reset s) t div acts_remaining (rh_thr s) (rh_thr s) \<le> 14"
    unfolding m a .
  have nz: "acts_remaining (rh_thr s) (rh_thr s) \<noteq> 0" by (simp add: a)
  have bl: "BlackListThreshold s \<le> rh_thr s" using assms(1) by (simp add: bh_sized_def)
  have "bh_geom (e\<lparr>numAccessesToRow := f\<rparr>) = bh_geom s" for f using e(1) by (simp add: bh_geom_def)
  note fc = bh_geom_cong[OF this]
  show ?thesis
    using i n w g e dl nz bl unfolding bh_access_def Let_def e_def[symmetric]
    by (simp add: bh_throttle_def)
qed

theorem blockhammer_wraps_at_threshold_witness:
  "\<exists>d s'. bh_access 100 5 1 (bh_demo 3) = Inr (d, s') \<and> d_MC_delay d \<le> 14"
  using blockhammer_wraps_at_threshold[OF bh_demo_sized, of 5 3 1 100] by (auto simp: bh_demo_simps window_ticks_def)

end
