(* ===== verification/Cmd_Bus.thy ===== *)
theory Cmd_Bus
  imports RH_Prelude "HOL-Library.Multiset"
begin

text \<open>
  The command bus of \<open>mem/mem_ctrl.cc\<close>: \<open>burstTicks\<close> is the multiset of the burst windows in which
  commands were issued, \<open>verifySingleCmd\<close> and \<open>verifyMultiCmd\<close> find the windows with room for one
  command or for two commands and reserve them, \<open>pruneBurstTick\<close> forgets old windows.
  The lemmas show that the searches end, that a window never holds more commands than the limit,
  that the window found is the first with room, and how far two commands are apart.
  Ticks are natural numbers: the code compares and adds ticks far below \<open>MaxTick\<close>.
\<close>

section \<open>Model\<close>

definition pruneBurstTick :: "tick \<Rightarrow> tick multiset \<Rightarrow> tick multiset" where
  "pruneBurstTick curTick bt = filter_mset (\<lambda>t. \<not> t < curTick) bt"

definition getBurstWindow :: "tick \<Rightarrow> tick \<Rightarrow> tick res" where
  "getBurstWindow w cmd_tick = rnonzero w (Inr (cmd_tick - cmd_tick mod w))"

text \<open>The loop of \<open>verifySingleCmd\<close>.\<close>

partial_function (option) single_slot ::
    "tick \<Rightarrow> tick multiset \<Rightarrow> nat \<Rightarrow> tick \<Rightarrow> tick \<Rightarrow> (tick \<times> tick) option" where
  "single_slot w bt max_cmds burst_tick cmd_at =
     (if max_cmds \<le> count bt burst_tick then single_slot w bt max_cmds (burst_tick + w) (burst_tick + w)
      else Some (burst_tick, cmd_at))"

definition verifySingleCmd :: "tick \<Rightarrow> tick \<Rightarrow> nat \<Rightarrow> tick multiset \<Rightarrow> (tick \<times> tick multiset) res" where
  "verifySingleCmd w cmd_tick max_cmds bt =
     rbind (getBurstWindow w cmd_tick) (\<lambda>b.
     rbind (rloop (single_slot w bt max_cmds b cmd_tick)) (\<lambda>(burst_tick, cmd_at).
       Inr (cmd_at, add_mset burst_tick bt)))"

text \<open>The first loop of \<open>verifyMultiCmd\<close>: the offset of the earliest window for the first command.\<close>

partial_function (option) split_offset :: "tick \<Rightarrow> tick \<Rightarrow> tick \<Rightarrow> tick \<Rightarrow> tick option" where
  "split_offset w max_split first_cmd_offset burst_offset =
     (if first_cmd_offset + burst_offset < max_split
      then split_offset w max_split first_cmd_offset (burst_offset + w)
      else Some burst_offset)"

text \<open>The second loop: the windows of the two commands and the tick of the second.\<close>

partial_function (option) multi_slot ::
    "tick \<Rightarrow> tick multiset \<Rightarrow> nat \<Rightarrow> tick \<Rightarrow> tick \<Rightarrow> tick \<Rightarrow> tick \<Rightarrow> (tick \<times> tick \<times> tick) option" where
  "multi_slot w bt max_cmds max_split burst_tick first_cmd_tick cmd_at =
     (let same_burst = (burst_tick = first_cmd_tick);
          first_cmd_count = count bt first_cmd_tick;
          second_cmd_count = (if same_burst then first_cmd_count + 1 else count bt burst_tick);
          first_can_issue = first_cmd_count < max_cmds;
          second_can_issue = second_cmd_count < max_cmds;
          burst_tick' = (if second_can_issue then burst_tick else burst_tick + w);
          cmd_at' = (if second_can_issue then cmd_at else burst_tick');
          gap_violated = (\<not> same_burst \<and> max_split < burst_tick' - first_cmd_tick);
          first_cmd_tick' = (if \<not> first_can_issue \<or> \<not> second_can_issue \<and> gap_violated
                             then first_cmd_tick + w else first_cmd_tick)
      in if first_can_issue \<and> second_can_issue then Some (burst_tick', first_cmd_tick', cmd_at')
         else multi_slot w bt max_cmds max_split burst_tick' first_cmd_tick' cmd_at')"

definition verifyMultiCmd :: "tick \<Rightarrow> tick \<Rightarrow> nat \<Rightarrow> tick \<Rightarrow> tick multiset \<Rightarrow> (tick \<times> tick multiset) res" where
  "verifyMultiCmd w cmd_tick max_cmds max_split bt =
     rbind (getBurstWindow w cmd_tick) (\<lambda>b.
     rbind (rloop (split_offset w max_split (cmd_tick mod w) 0)) (\<lambda>burst_offset.
     rbind (rloop (multi_slot w bt max_cmds max_split b (b - min burst_offset b) cmd_tick))
       (\<lambda>(burst_tick, first_cmd_tick, cmd_at).
         Inr (cmd_at, add_mset first_cmd_tick (add_mset burst_tick bt)))))"

section \<open>Lemmas\<close>

lemma getBurstWindow_simps:
  assumes "0 < w"
  shows "getBurstWindow w t = Inr (t - t mod w)" "w dvd t - t mod w" "t - t mod w \<le> t" "t < t - t mod w + w"
proof -
  have m: "t mod w < w" "t mod w \<le> t" using assms by simp_all
  show "getBurstWindow w t = Inr (t - t mod w)" using assms by (simp add: getBurstWindow_def)
  show "w dvd t - t mod w" by (rule dvd_minus_mod)
  show "t - t mod w \<le> t" "t < t - t mod w + w" using m by simp_all
qed

text \<open>A tick after which no command has been issued.\<close>

definition bus_end :: "tick multiset \<Rightarrow> tick" where
  "bus_end bt = Suc (Max (insert 0 (set_mset bt)))"

lemma count_pos_end: "0 < count bt t \<Longrightarrow> t < bus_end bt"
proof -
  assume "0 < count bt t"
  then have "t \<in> insert 0 (set_mset bt)" by simp
  then have "t \<le> Max (insert 0 (set_mset bt))" by (intro Max_ge) simp_all
  then show "t < bus_end bt" unfolding bus_end_def by (rule le_imp_less_Suc)
qed

lemma single_slot_ok:
  assumes "0 < w" and "0 < m"
  shows "\<exists>k. single_slot w bt m b c = Some (b + k * w, if k = 0 then c else b + k * w) \<and>
    count bt (b + k * w) < m \<and> (\<forall>j<k. m \<le> count bt (b + j * w))"
  using assms
proof (induction "bus_end bt - b" arbitrary: b c rule: less_induct)
  case less
  show ?case
  proof (cases "m \<le> count bt b")
    case False
    then show ?thesis by (intro exI[of _ 0]) (simp add: single_slot.simps)
  next
    case True
    have "0 < count bt b" using True less.prems by linarith
    then have "b < bus_end bt" by (rule count_pos_end)
    then have "bus_end bt - (b + w) < bus_end bt - b" using less.prems by simp
    then obtain k where k: "single_slot w bt m (b + w) (b + w) =
        Some (b + w + k * w, if k = 0 then b + w else b + w + k * w)"
      "count bt (b + w + k * w) < m" "\<forall>j<k. m \<le> count bt (b + w + j * w)"
      using less.hyps[of "b + w" "b + w"] less.prems by blast
    have "m \<le> count bt (b + j * w)" if "j < Suc k" for j
      using k(3) True that by (cases j) (simp_all add: add.assoc)
    then show ?thesis
      using k True by (intro exI[of _ "Suc k"]) (simp add: single_slot.simps[of w bt m b] add.assoc)
  qed
qed

lemma split_offset_ok:
  assumes "0 < w"
  shows "\<exists>k. split_offset w m f b = Some (b + k * w) \<and> m \<le> f + b + k * w \<and> (0 < k \<longrightarrow> f + b + k * w < m + w)"
  using assms
proof (induction "m - (f + b)" arbitrary: b rule: less_induct)
  case less
  show ?case
  proof (cases "f + b < m")
    case False
    then show ?thesis by (intro exI[of _ 0]) (simp add: split_offset.simps)
  next
    case True
    then have "m - (f + (b + w)) < m - (f + b)" using less.prems by simp
    then obtain k where "split_offset w m f (b + w) = Some (b + w + k * w)" "m \<le> f + (b + w) + k * w"
      "0 < k \<longrightarrow> f + (b + w) + k * w < m + w"
      using less.hyps[of "b + w"] less.prems by blast
    then show ?thesis
      using True by (intro exI[of _ "Suc k"]) (cases k; simp add: split_offset.simps[of w m f b])
  qed
qed


lemma multi_slot_ok:
  assumes "0 < w" and "0 < m" and "f \<le> b" and "w dvd b" and "w dvd f" and "b \<le> f + split + w"
  shows "\<exists>b' f' c'. multi_slot w bt m split b f c = Some (b', f', c') \<and> f' \<le> b' \<and> b \<le> b' \<and> f \<le> f' \<and>
    b' \<le> f' + split + w \<and> count bt f' < m \<and> (if b' = f' then count bt f' + 1 < m else count bt b' < m) \<and>
    c' = (if b' = b then c else b') \<and> w dvd b' \<and> w dvd f'"
  using assms
proof (induction "2 * (bus_end bt - b) + 2 * (bus_end bt - f) + (if b = f then 1 else 0)"
    arbitrary: b f c rule: less_induct)
  case less
  let ?fi = "count bt f < m" and ?se = "(if b = f then count bt f + 1 else count bt b) < m"
  let ?b = "if ?se then b else b + w" and ?c = "if ?se then c else b + w"
  let ?gap = "b \<noteq> f \<and> split < ?b - f"
  let ?f = "if \<not> ?fi \<or> \<not> ?se \<and> ?gap then f + w else f"
  have step: "multi_slot w bt m split b f c =
      (if ?fi \<and> ?se then Some (?b, ?f, ?c) else multi_slot w bt m split ?b ?f ?c)"
    by (subst multi_slot.simps) (auto simp: Let_def)
  show ?case
  proof (cases "?fi \<and> ?se")
    case True
    then show ?thesis using less.prems step by (auto split: if_splits)
  next
    case False
    have far: "f + w \<le> b" if "f \<noteq> b"
      using that less.prems(3-5) by (metis dvd_add_right_iff dvd_imp_le le_add_diff_inverse le_neq_implies_less
        add_le_cancel_left zero_less_diff)
    have fend: "f < bus_end bt" if "\<not> ?fi" using that less.prems(2) by (intro count_pos_end) linarith
    have bend: "b < bus_end bt" if "\<not> ?se" "b \<noteq> f"
      by (rule count_pos_end) (use that less.prems(2) in \<open>simp only: if_False; linarith\<close>)
    have inv: "?f \<le> ?b" "w dvd ?b" "w dvd ?f" "?b \<le> ?f + split + w"
      using less.prems(3-6) far False by (auto split: if_splits)
    have "2 * (bus_end bt - ?b) + 2 * (bus_end bt - ?f) + (if ?b = ?f then 1 else 0)
        < 2 * (bus_end bt - b) + 2 * (bus_end bt - f) + (if b = f then 1 else (0::nat))"
      using less.prems(1,3) far False fend bend by (auto split: if_splits)
    from less.hyps[OF this less.prems(1,2) inv(1,2,3,4), of ?c] obtain b' f' c' where
      r: "multi_slot w bt m split ?b ?f ?c = Some (b', f', c')" "f' \<le> b'" "?b \<le> b'" "?f \<le> f'"
        "b' \<le> f' + split + w" "count bt f' < m" "if b' = f' then count bt f' + 1 < m else count bt b' < m"
        "c' = (if b' = ?b then ?c else b')" "w dvd b'" "w dvd f'"
      by blast
    have "c' = (if b' = b then c else b')" "b \<le> b'" "f \<le> f'"
      using r(3,4,8) less.prems(1) by (auto split: if_splits)
    moreover have "multi_slot w bt m split b f c = Some (b', f', c')" using step r(1) False by simp
    ultimately show ?thesis using r by blast
  qed
qed

lemma single_slot_limit: "single_slot w bt m b c = Some r \<Longrightarrow> 0 < m"
  by (rule single_slot.raw_induct[of "\<lambda>w bt m b c r. 0 < m"]) (auto split: if_splits)

text \<open>Both searches end with a tick that is not before the requested one.\<close>

lemma verifySingle_total:
  assumes "0 < w" and "0 < m"
  shows "\<exists>cmd_at bt'. verifySingleCmd w t m bt = Inr (cmd_at, bt') \<and> t \<le> cmd_at"
proof -
  define b0 where "b0 = t - t mod w"
  note b = getBurstWindow_simps[OF assms(1), of t, folded b0_def]
  obtain k where k: "single_slot w bt m b0 t = Some (b0 + k * w, if k = 0 then t else b0 + k * w)"
    using single_slot_ok[OF assms, of bt b0 t] by blast
  have "t \<le> b0 + k * w" if "k \<noteq> 0"
  proof -
    have "w \<le> k * w" using that by simp
    then show ?thesis using b(4) by linarith
  qed
  then show ?thesis using k b(1) by (simp add: verifySingleCmd_def)
qed

lemma verifyMulti_total:
  assumes "0 < w" and "0 < m"
  shows "\<exists>cmd_at bt'. verifyMultiCmd w t m split bt = Inr (cmd_at, bt') \<and> t \<le> cmd_at"
proof -
  define b0 where "b0 = t - t mod w"
  note b = getBurstWindow_simps[OF assms(1), of t, folded b0_def]
  obtain k where k: "split_offset w split (t mod w) 0 = Some (k * w)"
    "0 < k \<longrightarrow> t mod w + k * w < split + w"
    using split_offset_ok[OF assms(1), of split "t mod w" 0] by auto
  let ?f = "b0 - min (k * w) b0"
  have "w dvd ?f" by (rule dvd_diff_nat[OF b(2)]) (use b(2) in \<open>simp add: min_def\<close>)
  moreover have "b0 \<le> ?f + split + w" using k(2) by (cases "k = 0") (auto simp: min_def)
  ultimately obtain b' f' c' where r: "multi_slot w bt m split b0 ?f t = Some (b', f', c')"
    "b0 \<le> b'" "c' = (if b' = b0 then t else b')" "w dvd b'"
    using multi_slot_ok[OF assms _ b(2), of ?f split bt t] by (auto simp del: split_paired_Ex)
  have "b0 + w \<le> b'" if "b' \<noteq> b0"
  proof -
    have "w \<le> b' - b0" using r(2,4) b(2) that by (intro dvd_imp_le dvd_diff_nat) simp_all
    then show ?thesis using r(2) that by linarith
  qed
  then have "t \<le> c'" using r(3) b(4) by (cases "b' = b0") simp_all
  then show ?thesis using r(1) b(1) k(1) by (simp add: verifyMultiCmd_def)
qed

lemma verifySingle_ge:
  assumes "verifySingleCmd w t m bt = Inr (cmd_at, bt')"
  shows "t \<le> cmd_at"
proof -
  have "0 < w" using assms by (cases "w = 0") (simp_all add: verifySingleCmd_def getBurstWindow_def)
  moreover have "0 < m"
  proof (rule ccontr)
    assume "\<not> 0 < m"
    then have "single_slot w bt m b c = None" for b c
      using single_slot_limit[of w bt m b c] by (cases "single_slot w bt m b c") auto
    then show False using assms \<open>0 < w\<close> by (simp add: verifySingleCmd_def getBurstWindow_def)
  qed
  ultimately show ?thesis using verifySingle_total[of w m t bt] assms by auto
qed

lemma multi_slot_limit: "multi_slot w bt m split b f c = Some r \<Longrightarrow> 0 < m"
  by (rule multi_slot.raw_induct[of "\<lambda>w bt m split b f c r. 0 < m"]) (auto simp: Let_def split: if_splits)

lemma verifyMulti_ge:
  assumes "verifyMultiCmd w t m split bt = Inr (cmd_at, bt')"
  shows "t \<le> cmd_at"
proof -
  have w: "0 < w" using assms by (cases "w = 0") (simp_all add: verifyMultiCmd_def getBurstWindow_def)
  moreover have "0 < m"
  proof (rule ccontr)
    assume "\<not> 0 < m"
    then have "multi_slot w bt m split b f c = None" for b f c
      using multi_slot_limit[of w bt m split b f c] by (cases "multi_slot w bt m split b f c") auto
    then show False using assms w
      by (cases "split_offset w split (t mod w) 0") (simp_all add: verifyMultiCmd_def getBurstWindow_def)
  qed
  ultimately show ?thesis using verifyMulti_total[of w m t split bt] assms by auto
qed

section \<open>Properties\<close>

text \<open>
  C35. Reserving one command ends, never issues before the requested tick, never puts more than the
  limit in a window, and takes the first window with room.
\<close>

theorem bus_single_cmd:
  assumes "0 < w" and "0 < m" and "\<forall>x. count bt x \<le> m"
  shows "\<exists>cmd_at bt'. verifySingleCmd w t m bt = Inr (cmd_at, bt') \<and> t \<le> cmd_at \<and>
    bt' = add_mset (cmd_at - cmd_at mod w) bt \<and> (\<forall>x. count bt' x \<le> m) \<and>
    (\<forall>x. w dvd x \<longrightarrow> t - t mod w \<le> x \<longrightarrow> x < cmd_at - cmd_at mod w \<longrightarrow> count bt x = m)"
proof -
  define b0 where "b0 = t - t mod w"
  note b = getBurstWindow_simps[OF assms(1), of t, folded b0_def]
  obtain k where k: "single_slot w bt m b0 t = Some (b0 + k * w, if k = 0 then t else b0 + k * w)"
    "count bt (b0 + k * w) < m" "\<forall>j<k. m \<le> count bt (b0 + j * w)"
    using single_slot_ok[OF assms(1,2), of bt b0 t] by blast
  let ?c = "if k = 0 then t else b0 + k * w"
  have run: "verifySingleCmd w t m bt = Inr (?c, add_mset (b0 + k * w) bt)"
    using k(1) b(1) by (simp add: verifySingleCmd_def)
  have d: "w dvd b0 + k * w" by (rule dvd_add[OF b(2) dvd_triv_right])
  then have win: "?c - ?c mod w = b0 + k * w" using b0_def by (cases "k = 0") simp_all
  have "t < b0 + k * w" if "0 < k"
  proof -
    have "w \<le> k * w" using that by simp
    then show ?thesis using b(4) by linarith
  qed
  then have "t \<le> ?c" by (cases "k = 0") simp_all
  moreover have "count bt x = m" if x: "w dvd x" "b0 \<le> x" "x < b0 + k * w" for x
  proof -
    obtain j where j: "x = b0 + j * w" using x(1,2) b(2)
      by (metis dvd_diff_nat dvdE le_add_diff_inverse mult.commute)
    then have "j < k" using x(3) assms(1) by simp
    then show ?thesis using k(3) assms(3) j le_antisym by blast
  qed
  moreover have "count (add_mset (b0 + k * w) bt) x \<le> m" for x
    using k(2) assms(3) by (auto simp: Suc_le_eq)
  ultimately show ?thesis
    unfolding b0_def[symmetric] using run win by (intro exI[of _ ?c] exI[of _ "add_mset (b0 + k * w) bt"]) simp
qed

theorem bus_single_cmd_witness:
  "\<exists>cmd_at bt'. verifySingleCmd 10 13 2 {#10, 10, 20#} = Inr (cmd_at, bt') \<and> 13 \<le> cmd_at"
proof -
  have "\<forall>x. count {#10, 10, 20::nat#} x \<le> 2" by simp
  from bus_single_cmd[OF _ _ this, of 10 13] show ?thesis by fastforce
qed

text \<open>
  Reserving the two commands of one activation ends: the second is not issued before the
  requested tick, both windows have room, the first is not after the second and at most the
  allowed split and one window before it.
\<close>

theorem bus_multi_cmd:
  assumes "0 < w" and "0 < m" and "\<forall>x. count bt x \<le> m"
  shows "\<exists>cmd_at f. verifyMultiCmd w t m split bt =
      Inr (cmd_at, add_mset f (add_mset (cmd_at - cmd_at mod w) bt)) \<and> t \<le> cmd_at \<and> w dvd f \<and>
    f \<le> cmd_at - cmd_at mod w \<and> cmd_at - cmd_at mod w \<le> f + split + w \<and>
    (\<forall>x. count (add_mset f (add_mset (cmd_at - cmd_at mod w) bt)) x \<le> m)"
proof -
  define b0 where "b0 = t - t mod w"
  note b = getBurstWindow_simps[OF assms(1), of t, folded b0_def]
  obtain k where k: "split_offset w split (t mod w) 0 = Some (k * w)"
    "0 < k \<longrightarrow> t mod w + k * w < split + w"
    using split_offset_ok[OF assms(1), of split "t mod w" 0] by auto
  let ?f = "b0 - min (k * w) b0"
  have "w dvd ?f" by (rule dvd_diff_nat[OF b(2)]) (use b(2) in \<open>simp add: min_def\<close>)
  moreover have "b0 \<le> ?f + split + w" using k(2) by (cases "k = 0") (auto simp: min_def)
  ultimately obtain b' f' c' where r: "multi_slot w bt m split b0 ?f t = Some (b', f', c')" "f' \<le> b'" "b0 \<le> b'"
    "b' \<le> f' + split + w" "count bt f' < m" "if b' = f' then count bt f' + 1 < m else count bt b' < m"
    "c' = (if b' = b0 then t else b')" "w dvd b'" "w dvd f'"
    using multi_slot_ok[OF assms(1,2) _ b(2), of ?f split bt t] by (auto simp del: split_paired_Ex)
  have run: "verifyMultiCmd w t m split bt = Inr (c', add_mset f' (add_mset b' bt))"
    using r(1) b(1) k(1) by (simp add: verifyMultiCmd_def)
  have win: "c' - c' mod w = b'" using r(7,8) b0_def by auto
  have "t \<le> c'"
  proof (cases "b' = b0")
    case False
    then have "w \<le> b' - b0" using r(3,8) b(2) by (intro dvd_imp_le dvd_diff_nat) simp_all
    then have "b0 + w \<le> b'" using r(3) by linarith
    then show ?thesis using False r(7) b(4) by simp
  qed (simp add: r(7))
  moreover have "count (add_mset f' (add_mset b' bt)) x \<le> m" for x
    using r(5,6) assms(3) by (auto simp: Suc_le_eq split: if_splits)
  ultimately show ?thesis using run win r by (intro exI[of _ c'] exI[of _ f']) simp
qed

theorem bus_multi_cmd_witness:
  "\<exists>cmd_at f. verifyMultiCmd 10 13 2 8 {#10, 10, 20#} = Inr (cmd_at, add_mset f (add_mset (cmd_at - cmd_at mod 10) {#10, 10, 20#})) \<and>
    13 \<le> cmd_at"
proof -
  have "\<forall>x. count {#10, 10, 20::nat#} x \<le> 2" by simp
  from bus_multi_cmd[OF _ _ this, of 10 13 8] show ?thesis by fastforce
qed

text \<open>
  Pruning forgets the window that is still running: when the current tick is inside a window,
  the commands issued in it are dropped, and a further command is accepted at once however many
  there were.
\<close>

theorem bus_prune_forgets_window:
  assumes "0 < w" and "0 < m" and "\<not> w dvd cur"
  shows "verifySingleCmd w cur m (pruneBurstTick cur bt) =
    Inr (cur, add_mset (cur - cur mod w) (pruneBurstTick cur bt))"
proof -
  have "0 < cur mod w" using assms(3) by (simp add: mod_greater_zero_iff_not_dvd)
  then have "cur - cur mod w < cur" using assms(3) by (cases "cur = 0") simp_all
  then have "count (pruneBurstTick cur bt) (cur - cur mod w) = 0" by (simp add: pruneBurstTick_def)
  then show ?thesis
    using assms getBurstWindow_simps(1)[OF assms(1)] by (simp add: verifySingleCmd_def single_slot.simps)
qed

theorem bus_prune_forgets_window_witness:
  "verifySingleCmd 10 15 2 (pruneBurstTick 15 {#10, 10#}) = Inr (15, add_mset 10 (pruneBurstTick 15 {#10, 10#}))"
  using bus_prune_forgets_window[of 10 2 15 "{#10, 10#}"] by simp

text \<open>With a limit of no commands per window the search never ends.\<close>

theorem bus_no_commands_hangs:
  assumes "0 < w"
  shows "verifySingleCmd w t 0 bt = Inl No_Return"
proof -
  have "single_slot w bt 0 b c = None" for b c
    using single_slot_limit[of w bt 0 b c] by (cases "single_slot w bt 0 b c") auto
  then show ?thesis using getBurstWindow_simps(1)[OF assms] by (simp add: verifySingleCmd_def)
qed

theorem bus_no_commands_hangs_witness: "verifySingleCmd 10 13 0 {#} = Inl No_Return"
  by (rule bus_no_commands_hangs) simp

end
