(* ===== verification/Addr_Map.thy ===== *)
theory Addr_Map
  imports RH_Prelude
begin

unbundle bit_operations_syntax

text \<open>
  From addresses to DRAM coordinates: the splitting of a system packet into bursts
  (\<open>addToReadQueue\<close>, \<open>addToWriteQueue\<close>, \<open>recvTimingReq\<close> and \<open>burstAlign\<close> of \<open>mem/mem_ctrl.cc\<close>) and
  \<open>MemInterface::decodePacket\<close> of \<open>mem/mem_interface.cc\<close> with the \<open>MemPacket\<close> it builds.
  The lemmas show that the bursts are an exact partition of the packet, and that decoding loses
  only the column: two addresses go to the same bank and row exactly when they share a row buffer.
\<close>

section \<open>Memory packets\<close>

text \<open>
  \<open>class MemPacket\<close> of \<open>mem/mem_ctrl.hh\<close>. \<open>mp_id\<close> is the identity of the object (its pointer),
  \<open>mp_pkt\<close> names the system packet and \<open>mp_helper\<close> the burst helper, if there is one.
\<close>

record mem_packet =
  mp_id :: nat
  rh_injectDelay :: bool
  rh_bubbleSize :: tick
  rh_SRAMDelay :: tick
  entryTime :: tick
  readyTime :: tick
  mp_pkt :: nat
  mp_requestor :: nat
  mp_read :: bool
  mp_dram :: bool
  mp_rank :: nat
  mp_bank :: nat
  mp_row :: nat
  mp_bankId :: nat
  mp_addr :: addr
  mp_size :: nat
  mp_helper :: "nat option"
  mp_qos :: nat

text \<open>The constructor; \<open>junk\<close> are the two delays, which it does not initialise.\<close>

definition new_packet ::
    "nat \<times> tick \<times> tick \<Rightarrow> tick \<Rightarrow> nat \<times> nat \<times> nat \<Rightarrow> bool \<Rightarrow> bool \<Rightarrow> nat \<times> nat \<times> nat \<Rightarrow> nat \<Rightarrow> addr \<Rightarrow> nat \<Rightarrow> mem_packet" where
  "new_packet junk curTick pkt is_read is_dram coords bank_id a sz =
     \<lparr>mp_id = fst junk, rh_injectDelay = False, rh_bubbleSize = fst (snd junk), rh_SRAMDelay = snd (snd junk),
      entryTime = curTick, readyTime = curTick, mp_pkt = fst pkt, mp_requestor = fst (snd pkt),
      mp_read = is_read, mp_dram = is_dram, mp_rank = fst coords, mp_bank = fst (snd coords),
      mp_row = snd (snd coords), mp_bankId = bank_id, mp_addr = a, mp_size = sz, mp_helper = None,
      mp_qos = snd (snd pkt)\<rparr>"

section \<open>Bursts\<close>

text \<open>\<open>addr & ~(burst_size - 1)\<close> on 64 bits, \<open>(addr | (burst_size - 1)) + 1\<close>.\<close>

definition burstAlign :: "nat \<Rightarrow> addr \<Rightarrow> addr" where
  "burstAlign burst_size a = a AND (u64_size - 1 - (burst_size - 1))"

definition next_burst :: "nat \<Rightarrow> addr \<Rightarrow> addr" where
  "next_burst burst_size a = (a OR (burst_size - 1)) + 1"

text \<open>The number of bursts of a packet, and the address and size of each of them.\<close>

definition burst_count :: "nat \<Rightarrow> addr \<Rightarrow> nat \<Rightarrow> nat" where
  "burst_count burst_size a sz = ((a AND (burst_size - 1)) + sz + burst_size - 1) div burst_size"

fun split_bursts :: "nat \<Rightarrow> addr \<Rightarrow> addr \<Rightarrow> nat \<Rightarrow> (addr \<times> nat) list" where
  "split_bursts burst_size end_addr a 0 = []"
| "split_bursts burst_size end_addr a (Suc n) =
     (a, min (next_burst burst_size a) end_addr - a) #
     split_bursts burst_size end_addr (next_burst burst_size a) n"

section \<open>Decoding\<close>

datatype addr_map = RoRaBaChCo | RoRaBaCoCh | RoCoRaBaCh

record geometry =
  addrMapping :: addr_map
  burstSize :: nat
  burstsPerRowBuffer :: nat
  burstsPerStripe :: nat
  ranksPerChannel :: nat
  banksPerRank :: nat
  rowsPerBank :: nat

definition NO_ROW :: nat where
  "NO_ROW = u32_size - 1"

text \<open>The address without the bits below the bank, and what is divided out between rank and row.\<close>

definition drop_column :: "geometry \<Rightarrow> addr \<Rightarrow> addr" where
  "drop_column g a =
     (case addrMapping g of
        RoCoRaBaCh \<Rightarrow> if burstsPerRowBuffer g < burstsPerStripe g then a div burstsPerRowBuffer g
                      else a div burstsPerStripe g
      | _ \<Rightarrow> a div burstsPerRowBuffer g)"

definition drop_high_column :: "geometry \<Rightarrow> addr \<Rightarrow> addr" where
  "drop_high_column g a =
     (case addrMapping g of
        RoCoRaBaCh \<Rightarrow> if burstsPerStripe g < burstsPerRowBuffer g
                      then a div (burstsPerRowBuffer g div burstsPerStripe g) else a
      | _ \<Rightarrow> a)"

text \<open>\<open>(rank, bank, row)\<close> of an offset into the address range; rank and bank are 8 bits wide.\<close>

definition decode_coords :: "geometry \<Rightarrow> addr \<Rightarrow> (nat \<times> nat \<times> nat) res" where
  "decode_coords g offset =
     rnonzero (burstSize g) (rnonzero (burstsPerRowBuffer g) (rnonzero (burstsPerStripe g)
      (rnonzero (banksPerRank g) (rnonzero (ranksPerChannel g) (rnonzero (rowsPerBank g)
       (let a0 = drop_column g (offset div burstSize g);
            bank = a0 mod banksPerRank g mod 256;
            a1 = a0 div banksPerRank g;
            rank = a1 mod ranksPerChannel g mod 256;
            a2 = drop_high_column g (a1 div ranksPerChannel g);
            row = a2 mod rowsPerBank g
        in rassert (rank < ranksPerChannel g \<and> bank < banksPerRank g \<and> row < rowsPerBank g \<and> row < NO_ROW)
             (Inr (rank, bank, row))))))))"

text \<open>\<open>getOffset\<close> of the address range is an argument: \<open>base/addr_range.hh\<close> maps the range to \<open>[0, max)\<close>.\<close>

definition decodePacket ::
    "geometry \<Rightarrow> (addr \<Rightarrow> addr) \<Rightarrow> nat \<times> tick \<times> tick \<Rightarrow> tick \<Rightarrow> nat \<times> nat \<times> nat \<Rightarrow> addr \<Rightarrow> nat \<Rightarrow> bool \<Rightarrow> bool \<Rightarrow>
     mem_packet res" where
  "decodePacket g getOffset junk curTick pkt pkt_addr sz is_read is_dram =
     rbind (decode_coords g (getOffset pkt_addr)) (\<lambda>(rank, bank, row).
       Inr (new_packet junk curTick pkt is_read is_dram (rank, bank, row)
              ((banksPerRank g * rank + bank) mod 65536) pkt_addr sz))"

section \<open>Lemmas on bursts\<close>

lemma next_burst_eq: "next_burst (2 ^ k) a = (a div 2 ^ k + 1) * 2 ^ k"
proof -
  have "a OR mask k = push_bit k (drop_bit k a) OR mask k"
    by (simp add: bit_eq_iff bit_simps) (metis le_add_diff_inverse not_less)
  also have "\<dots> = push_bit k (drop_bit k a) + mask k"
    by (rule disjunctive_add_eq_or [symmetric]) (simp add: bit_eq_iff bit_simps)
  finally have "a OR mask k = a div 2 ^ k * 2 ^ k + mask k"
    by (simp only: push_bit_eq_mult drop_bit_eq_div)
  moreover have "mask k + 1 = (2 ^ k :: nat)" unfolding mask_eq_exp_minus_1 by simp
  moreover have "(2 ^ k - 1 :: nat) = mask k" by (rule mask_eq_exp_minus_1 [symmetric])
  ultimately show ?thesis by (simp only: next_burst_def add.assoc distrib_right mult_1)
qed

lemma burstAlign_eq:
  assumes "a < u64_size" and "k \<le> 64"
  shows "burstAlign (2 ^ k) a = a div 2 ^ k * 2 ^ k"
proof -
  have "(2::nat) ^ k * 2 ^ (64 - k) = 2 ^ 64" using assms(2) by (simp flip: power_add)
  then have "push_bit k (mask (64 - k)) = (2::nat) ^ 64 - 2 ^ k"
    by (simp only: push_bit_eq_mult mask_eq_exp_minus_1 diff_mult_distrib mult_1 mult.commute[of "2 ^ (64 - k)"])
  moreover have "(2::nat) ^ 64 - 2 ^ k = u64_size - 1 - (2 ^ k - 1)" by simp
  ultimately have m: "u64_size - 1 - (2 ^ k - 1) = push_bit k (mask (64 - k))" by metis
  have t: "take_bit 64 a = a" using assms(1) by (simp add: take_bit_nat_eq_self)
  have "take_bit 64 a AND push_bit k (mask (64 - k)) = push_bit k (drop_bit k (take_bit 64 a))"
    by (rule bit_eqI) (auto simp: bit_simps)
  then show ?thesis
    unfolding burstAlign_def m t by (simp add: push_bit_eq_mult drop_bit_eq_div)
qed

lemma burst_count_eq:
  assumes "0 < sz"
  shows "burst_count (2 ^ k) a sz = (a + sz - 1) div 2 ^ k - a div 2 ^ k + 1"
proof -
  have m: "a AND (2 ^ k - 1) = a mod 2 ^ k"
    by (simp only: take_bit_eq_mask take_bit_eq_mod flip: mask_eq_exp_minus_1)
      (simp only: take_bit_eq_mod flip: take_bit_eq_mask)
  have p: "(0::nat) < 2 ^ k" by simp
  have e: "a + sz - 1 = (a mod 2 ^ k + sz - 1) + (a div 2 ^ k) * 2 ^ k"
    using assms div_mult_mod_eq[of a "2 ^ k"] by linarith
  have "(a + sz - 1) div 2 ^ k = (a mod 2 ^ k + sz - 1) div 2 ^ k + a div 2 ^ k"
    unfolding e using p by simp
  moreover have "(a mod 2 ^ k + sz + 2 ^ k - 1) div 2 ^ k = (a mod 2 ^ k + sz - 1) div 2 ^ k + 1"
  proof -
    have "a mod 2 ^ k + sz + 2 ^ k - 1 = (a mod 2 ^ k + sz - 1) + 2 ^ k" using assms by linarith
    then show ?thesis by (simp only: div_add_self2 power_not_zero zero_neq_numeral[symmetric] not_False_eq_True)
  qed
  ultimately show ?thesis unfolding burst_count_def m by simp
qed

lemma split_bursts_partition:
  assumes "a < e" and "n = (e - 1) div 2 ^ k - a div 2 ^ k + 1"
  shows "concat (map (\<lambda>(x, l). [x..<x + l]) (split_bursts (2 ^ k) e a n)) = [a..<e] \<and>
    (\<forall>(x, l)\<in>set (split_bursts (2 ^ k) e a n). 0 < l \<and> l \<le> 2 ^ k \<and> x div 2 ^ k = (x + l - 1) div 2 ^ k)"
  using assms
proof (induction n arbitrary: a)
  case 0
  then show ?case by simp
next
  case (Suc n)
  let ?b = "next_burst (2 ^ k) a" and ?l = "min (next_burst (2 ^ k) a) e - a"
  have p: "(0::nat) < 2 ^ k" by simp
  have b: "?b = (a div 2 ^ k + 1) * 2 ^ k" by (rule next_burst_eq)
  have ab: "a < ?b" unfolding b using dividend_less_div_times[OF p, of a] by (simp add: mult.commute)
  have bk: "?b \<le> a + 2 ^ k" unfolding b using div_mult_mod_eq[of a "2 ^ k"] by (simp add: algebra_simps)
  have one: "x div 2 ^ k = a div 2 ^ k" if "a \<le> x" "x < ?b" for x
    using that p unfolding b by (metis div_le_mono le_antisym less_Suc_eq_le less_mult_imp_div_less Suc_eq_plus1)
  have first: "0 < ?l" "?l \<le> 2 ^ k" "a div 2 ^ k = (a + ?l - 1) div 2 ^ k"
    using ab bk Suc.prems(1) one[of "a + ?l - 1"] by auto
  show ?case
  proof (cases "?b < e")
    case True
    have "?b div 2 ^ k = a div 2 ^ k + 1" unfolding b using p by simp
    moreover have "a div 2 ^ k + 1 \<le> (e - 1) div 2 ^ k"
      using True p unfolding b by (simp add: less_eq_div_iff_mult_less_eq)
    ultimately have n: "n = (e - 1) div 2 ^ k - ?b div 2 ^ k + 1" using Suc.prems(2) by simp
    note IH = Suc.IH[OF True n]
    have "[a..<e] = [a..<?b] @ [?b..<e]" using ab True upt_add_eq_append[of a ?b "e - ?b"] by simp
    then show ?thesis using IH first True ab by (simp add: min_def)
  next
    case False
    then have "(e - 1) div 2 ^ k = a div 2 ^ k" using one[of "e - 1"] Suc.prems(1) by simp
    then have n: "n = 0" using Suc.prems(2) by simp
    have "?l = e - a" using False by simp
    then show ?thesis using n first Suc.prems(1) by simp
  qed
qed

section \<open>Lemmas on decoding\<close>

text \<open>A geometry that the constructors accept, as far as decoding depends on it.\<close>

definition geometry_ok :: "geometry \<Rightarrow> bool" where
  "geometry_ok g \<longleftrightarrow> 0 < burstSize g \<and> 0 < burstsPerRowBuffer g \<and> 0 < burstsPerStripe g \<and>
     0 < banksPerRank g \<and> banksPerRank g \<le> 256 \<and> 0 < ranksPerChannel g \<and> ranksPerChannel g \<le> 256 \<and>
     0 < rowsPerBank g \<and> rowsPerBank g \<le> NO_ROW \<and>
     (addrMapping g = RoCoRaBaCh \<longrightarrow> burstsPerStripe g dvd burstsPerRowBuffer g)"

definition capacity :: "geometry \<Rightarrow> nat" where
  "capacity g = burstSize g * burstsPerRowBuffer g * banksPerRank g * ranksPerChannel g * rowsPerBank g"

text \<open>What decoding computes, with the mapping's divisions collected.\<close>

lemma decode_coords_eq:
  fixes a :: addr
  assumes ok: "geometry_ok g"
  defines "x \<equiv> (case addrMapping g of RoCoRaBaCh \<Rightarrow> a div (burstSize g * burstsPerStripe g)
                 | _ \<Rightarrow> a div (burstSize g * burstsPerRowBuffer g))"
    and "h \<equiv> (case addrMapping g of RoCoRaBaCh \<Rightarrow> burstsPerRowBuffer g div burstsPerStripe g | _ \<Rightarrow> 1)"
  shows "decode_coords g a = Inr (x div banksPerRank g mod ranksPerChannel g, x mod banksPerRank g,
    x div (banksPerRank g * ranksPerChannel g * h) mod rowsPerBank g)"
proof -
  have pos: "0 < burstSize g" "0 < burstsPerRowBuffer g" "0 < burstsPerStripe g" "0 < banksPerRank g"
    "0 < ranksPerChannel g" "0 < rowsPerBank g" using ok by (simp_all add: geometry_ok_def)
  have w: "y mod banksPerRank g mod 256 = y mod banksPerRank g" "y mod ranksPerChannel g mod 256 = y mod ranksPerChannel g" for y
    using ok mod_less_divisor[OF pos(4), of y] mod_less_divisor[OF pos(5), of y] by (simp_all add: geometry_ok_def)
  have row: "y mod rowsPerBank g < NO_ROW" for y
    using ok mod_less_divisor[OF pos(6), of y] by (simp add: geometry_ok_def)
  have drop: "drop_column g (a div burstSize g) = x"
    using ok dvd_imp_le[of "burstsPerStripe g" "burstsPerRowBuffer g"]
    by (cases "addrMapping g") (auto simp: drop_column_def x_def div_mult2_eq geometry_ok_def)
  have high: "drop_high_column g (y div ranksPerChannel g) = y div (ranksPerChannel g * h)" for y
    using ok dvd_imp_le[of "burstsPerStripe g" "burstsPerRowBuffer g"]
    by (cases "addrMapping g") (auto simp: drop_high_column_def h_def div_mult2_eq geometry_ok_def)
  show ?thesis
    using pos row by (simp add: decode_coords_def Let_def drop high w div_mult2_eq)
qed

text \<open>Mixed-radix digits determine the number.\<close>

lemma digit:
  assumes "c < n"
  shows "(y * n + c) div n = y" and "(y * n + c) mod n = (c::nat)"
  using assms by (cases "n = 0"; simp)+

lemma digits_mod: "x mod (b * r) div b = x div b mod r" "x mod (b * r) mod b = x mod (b::nat)"
proof -
  show "x mod (b * r) mod b = x mod b" by (simp add: mod_mod_cancel)
  show "x mod (b * r) div b = x div b mod r"
  proof (cases "b = 0")
    case False
    then have "x mod b < b" by simp
    then show ?thesis using digit(1)[of "x mod b" b "x div b mod r"] by (simp add: mod_mult2_eq mult.commute)
  qed simp
qed

lemma digits_inj:
  assumes "x mod b = y mod b" and "x div b mod r = y div b mod r" and "x div (b * r) = y div (b * r)"
  shows "x = (y::nat)"
proof -
  have "x div b = y div b" using assms(2,3) by (metis div_mult2_eq div_mult_mod_eq)
  then show ?thesis using assms(1) by (metis div_mult_mod_eq)
qed

lemma below_capacity:
  assumes "geometry_ok g" and "addrMapping g \<noteq> RoCoRaBaCh" and "a < capacity g"
  shows "a div (burstSize g * burstsPerRowBuffer g) div (banksPerRank g * ranksPerChannel g) < rowsPerBank g"
  using assms unfolding capacity_def geometry_ok_def
  by (simp add: div_less_iff_less_mult algebra_simps flip: div_mult2_eq)

text \<open>The address of a column of a row, for the mappings that keep a row buffer together.\<close>

definition encode :: "geometry \<Rightarrow> nat \<Rightarrow> nat \<Rightarrow> nat \<Rightarrow> nat \<Rightarrow> addr" where
  "encode g rank bank row col =
     ((row * ranksPerChannel g + rank) * banksPerRank g + bank) * (burstSize g * burstsPerRowBuffer g) + col"

section \<open>Properties\<close>

text \<open>
  C34. The bursts of a packet are an exact partition of its bytes, in order, each within one aligned
  block of the burst size, and there are as many as the controller reserves entries for.
\<close>

theorem bursts_partition_packet:
  assumes "0 < sz"
  shows "concat (map (\<lambda>(x, l). [x..<x + l]) (split_bursts (2 ^ k) (a + sz) a (burst_count (2 ^ k) a sz))) = [a..<a + sz] \<and>
    (\<forall>(x, l)\<in>set (split_bursts (2 ^ k) (a + sz) a (burst_count (2 ^ k) a sz)).
       0 < l \<and> l \<le> 2 ^ k \<and> x div 2 ^ k = (x + l - 1) div 2 ^ k)"
  using split_bursts_partition[of a "a + sz"] assms burst_count_eq[OF assms] by simp

theorem bursts_partition_packet_witness:
  "concat (map (\<lambda>(x, l). [x..<x + l]) (split_bursts (2 ^ 6) (100 + 70) 100 (burst_count (2 ^ 6) 100 70))) = [100..<100 + 70]"
  using bursts_partition_packet[of 70 6 100] by simp

text \<open>Aligning an address to the burst size clears its offset within the burst.\<close>

theorem burst_align_rounds_down:
  assumes "a < u64_size" and "k \<le> 64"
  shows "burstAlign (2 ^ k) a = a div 2 ^ k * 2 ^ k"
  by (rule burstAlign_eq[OF assms])

theorem burst_align_rounds_down_witness: "burstAlign (2 ^ 6) 100 = 64"
  using burst_align_rounds_down[of 100 6] by simp

text \<open>
  Decoding never stops on an accepted geometry, and two addresses within the capacity have the
  same rank, bank and row exactly when they lie in the same row buffer.
\<close>

theorem decode_same_row_buffer:
  assumes ok: "geometry_ok g" and m: "addrMapping g \<noteq> RoCoRaBaCh" and "a < capacity g" and "b < capacity g"
  shows "(\<exists>c. decode_coords g a = Inr c) \<and> (decode_coords g a = decode_coords g b \<longleftrightarrow>
    a div (burstSize g * burstsPerRowBuffer g) = b div (burstSize g * burstsPerRowBuffer g))"
proof -
  let ?x = "\<lambda>a. a div (burstSize g * burstsPerRowBuffer g)"
  have d: "decode_coords g a = Inr (?x a div banksPerRank g mod ranksPerChannel g, ?x a mod banksPerRank g,
      ?x a div (banksPerRank g * ranksPerChannel g))" if "a < capacity g" for a
    using decode_coords_eq[OF ok, of a] below_capacity[OF ok m that] m by (cases "addrMapping g") auto
  have "?x a = ?x b" if "decode_coords g a = decode_coords g b"
    by (rule digits_inj[of _ "banksPerRank g" _ "ranksPerChannel g"])
      (use that d[OF assms(3)] d[OF assms(4)] in simp_all)
  then show ?thesis using d[OF assms(3)] d[OF assms(4)] by auto
qed

definition geometry_example :: geometry where
  "geometry_example = \<lparr>addrMapping = RoRaBaCoCh, burstSize = 64, burstsPerRowBuffer = 128, burstsPerStripe = 1,
     ranksPerChannel = 2, banksPerRank = 16, rowsPerBank = 1024\<rparr>"

theorem decode_same_row_buffer_witness:
  "decode_coords geometry_example 9000 = decode_coords geometry_example 16000 \<and>
   decode_coords geometry_example 9000 \<noteq> decode_coords geometry_example 17000"
  using decode_same_row_buffer[of geometry_example 9000 16000] decode_same_row_buffer[of geometry_example 9000 17000]
  by (simp add: geometry_example_def geometry_ok_def capacity_def NO_ROW_def)

text \<open>
  With the row bits split around rank and bank, two addresses have the same rank, bank and row
  exactly when they agree above the column bits and in the rank and bank bits.
\<close>

theorem decode_split_column:
  assumes ok: "geometry_ok g" and m: "addrMapping g = RoCoRaBaCh" and "a < capacity g" and "b < capacity g"
  shows "decode_coords g a = decode_coords g b \<longleftrightarrow>
    a div (burstSize g * burstsPerStripe g) mod (banksPerRank g * ranksPerChannel g) =
    b div (burstSize g * burstsPerStripe g) mod (banksPerRank g * ranksPerChannel g) \<and>
    a div (burstSize g * burstsPerRowBuffer g * banksPerRank g * ranksPerChannel g) =
    b div (burstSize g * burstsPerRowBuffer g * banksPerRank g * ranksPerChannel g)"
proof -
  let ?B = "banksPerRank g" and ?R = "ranksPerChannel g" and ?h = "burstsPerRowBuffer g div burstsPerStripe g"
  let ?x = "\<lambda>a. a div (burstSize g * burstsPerStripe g)"
    and ?r = "\<lambda>a. a div (burstSize g * burstsPerRowBuffer g * ?B * ?R)"
  have "burstsPerStripe g * ?h = burstsPerRowBuffer g" using ok m by (simp add: geometry_ok_def)
  then have "burstSize g * burstsPerStripe g * (?B * ?R * ?h) = burstSize g * burstsPerRowBuffer g * ?B * ?R"
    by (metis mult.assoc mult.commute)
  then have r: "?x a div (?B * ?R * ?h) = ?r a" for a by (simp only: flip: div_mult2_eq)
  have "?r a < rowsPerBank g" if "a < capacity g" for a
    using that ok by (simp add: capacity_def geometry_ok_def div_less_iff_less_mult algebra_simps)
  then have d: "decode_coords g a = Inr (?x a div ?B mod ?R, ?x a mod ?B, ?r a)" if "a < capacity g" for a
    using decode_coords_eq[OF ok, of a] m r that by simp
  have "?x a mod (?B * ?R) = ?x b mod (?B * ?R) \<longleftrightarrow> ?x a mod ?B = ?x b mod ?B \<and> ?x a div ?B mod ?R = ?x b div ?B mod ?R"
    (is "?l \<longleftrightarrow> ?r1 \<and> ?r2")
    using digits_mod[of "?x a" ?B ?R] digits_mod[of "?x b" ?B ?R] mod_mult2_eq[of "?x a" ?B ?R]
      mod_mult2_eq[of "?x b" ?B ?R] by metis
  then show ?thesis using d[OF assms(3)] d[OF assms(4)] by auto
qed

theorem decode_split_column_witness:
  "decode_coords (geometry_example\<lparr>addrMapping := RoCoRaBaCh\<rparr>) 64 \<noteq>
   decode_coords (geometry_example\<lparr>addrMapping := RoCoRaBaCh\<rparr>) 128"
  using decode_split_column[of "geometry_example\<lparr>addrMapping := RoCoRaBaCh\<rparr>" 64 128]
  by (simp add: geometry_example_def geometry_ok_def capacity_def NO_ROW_def)



end
