(* ===== verification/Addr_Range.thy ===== *)
theory Addr_Range
  imports Addr_Map
begin

unbundle bit_operations_syntax

text \<open>
  Address ranges: \<open>AddrRange\<close> of \<open>src/gem5/src/base/addr_range.hh\<close> with the bit helpers it uses
  (\<open>base/bitfield.hh\<close>), by which the memory of a system is interleaved over its channels. A range holds
  the addresses between start and end whose selector, one parity bit for each mask, is its match value.
  The lemmas show that the ranges of the channels partition the addresses, that the offset of an address
  in its channel determines the address, what \<open>isSubset\<close> promises, and when the interleaving bits can
  be put back.

  Addresses are 64-bit words here. Shifts by the width of their type or more, which the language leaves
  undefined, are \<open>Out_Of_Bounds\<close>. The selector is an \<open>int\<close> in the code; a range has at most 31 masks.
\<close>

section \<open>Bits\<close>

text \<open>\<open>mask(nbits)\<close> of the code is \<open>mask\<close>, which is all ones from 64 bits on.\<close>

definition popCount :: "64 word \<Rightarrow> nat" where
  "popCount v = length (filter (bit v) [0..<64])"

definition ctz64 :: "64 word \<Rightarrow> nat" where
  "ctz64 v = length (takeWhile (\<lambda>i. \<not> bit v i) [0..<64])"

definition insertBits :: "64 word \<Rightarrow> int \<Rightarrow> int \<Rightarrow> 64 word \<Rightarrow> 64 word res" where
  "insertBits val hi lo bit_val =
     rassert (0 \<le> hi - lo) (rindex (lo < 64)
      (let bmask = push_bit (nat lo) (mask (nat (hi - lo + 1))) in
       Inr (push_bit (nat lo) bit_val AND bmask OR val AND NOT bmask)))"

section \<open>Ranges\<close>

record addr_range =
  ar_start :: "64 word"
  ar_end :: "64 word"
  ar_masks :: "64 word list"
  ar_match :: "8 word"

text \<open>The constructors: nothing, masks, and the highest bits of the interleaving and of its hash.\<close>

definition no_range :: addr_range where
  "no_range = \<lparr>ar_start = 1, ar_end = 0, ar_masks = [], ar_match = 0\<rparr>"

definition plain_range :: "64 word \<Rightarrow> 64 word \<Rightarrow> addr_range" where
  "plain_range s e = \<lparr>ar_start = s, ar_end = e, ar_masks = [], ar_match = 0\<rparr>"

definition masked_range :: "64 word \<Rightarrow> 64 word \<Rightarrow> 64 word list \<Rightarrow> 8 word \<Rightarrow> addr_range res" where
  "masked_range s e ms m =
     rindex (length ms < 64)
      (if ms \<noteq> [] \<and> 2 ^ length ms \<le> unat m then Inl Fatal
       else Inr \<lparr>ar_start = s, ar_end = e, ar_masks = ms, ar_match = m\<rparr>)"

definition bit_mask :: "8 word \<Rightarrow> 8 word \<Rightarrow> nat \<Rightarrow> 64 word res" where
  "bit_mask high xor_high i =
     (let bit1 = unat (high - of_nat i); bit2 = unat (xor_high - of_nat i) in
      rindex (bit1 < 64)
       (if xor_high = 0 then Inr (push_bit bit1 1)
        else rindex (bit2 < 64) (Inr (push_bit bit1 1 OR push_bit bit2 1))))"

fun bit_masks :: "8 word \<Rightarrow> 8 word \<Rightarrow> nat list \<Rightarrow> 64 word list res" where
  "bit_masks high xor_high [] = Inr []"
| "bit_masks high xor_high (i # is') =
     rbind (bit_mask high xor_high i) (\<lambda>m. rbind (bit_masks high xor_high is') (\<lambda>ms. Inr (ms @ [m])))"

definition bits_range :: "64 word \<Rightarrow> 64 word \<Rightarrow> 8 word \<Rightarrow> 8 word \<Rightarrow> 8 word \<Rightarrow> 8 word \<Rightarrow> addr_range res" where
  "bits_range s e high xor_high n m =
     rindex (unat n < 64)
      (if n \<noteq> 0 \<and> 2 ^ unat n \<le> unat m then Inl Fatal
       else if n \<noteq> 0 \<and> xor_high \<noteq> 0 \<and>
          (xor_high = high \<or> high < xor_high \<and> unat (xor_high - high) < unat n \<or>
           xor_high < high \<and> unat (high - xor_high) < unat n) then Inl Fatal
       else rbind (bit_masks high xor_high [0..<unat n]) (\<lambda>ms.
              Inr \<lparr>ar_start = s, ar_end = e, ar_masks = ms, ar_match = m\<rparr>))"

definition mergesWith :: "addr_range \<Rightarrow> addr_range \<Rightarrow> bool" where
  "mergesWith x r = (ar_start r = ar_start x \<and> ar_end r = ar_end x \<and> ar_masks r = ar_masks x)"

text \<open>A vector of ranges: one range, or all stripes of an interleaving in the order of their match.\<close>

fun stripes_match :: "addr_range \<Rightarrow> 8 word \<Rightarrow> addr_range list \<Rightarrow> bool" where
  "stripes_match x m [] = True"
| "stripes_match x m (r # rs) = (mergesWith x r \<and> ar_match r = m \<and> stripes_match x (m + 1) rs)"

definition merged_range :: "addr_range list \<Rightarrow> addr_range res" where
  "merged_range rs =
     (case rs of
        [] \<Rightarrow> Inr no_range
      | r # _ \<Rightarrow>
          if 1 < length rs
          then rindex (length (ar_masks r) < 64)
            (if length rs \<noteq> 2 ^ length (ar_masks r) \<or> \<not> stripes_match r 0 rs then Inl Fatal
             else Inr (r\<lparr>ar_masks := [], ar_match := 0\<rparr>))
          else Inr r)"

definition interleaved :: "addr_range \<Rightarrow> bool" where
  "interleaved r = (ar_masks r \<noteq> [])"

definition range_size :: "addr_range \<Rightarrow> 64 word" where
  "range_size r = drop_bit (length (ar_masks r)) (ar_end r - ar_start r)"

text \<open>The combined mask is an \<open>int\<close>: only its low 32 bits are kept, with their sign.\<close>

definition combined_mask :: "64 word list \<Rightarrow> 32 word" where
  "combined_mask ms = foldl (\<lambda>m x. m OR ucast x) 0 ms"

definition granularity :: "addr_range \<Rightarrow> 64 word res" where
  "granularity r =
     (if interleaved r
      then let low = ctz64 (scast (combined_mask (ar_masks r))) in rindex (low < 64) (Inr (push_bit low 1))
      else Inr (range_size r))"

text \<open>\<open>contains\<close>: the loop that collects the selector of an address.\<close>

fun sel_loop :: "64 word \<Rightarrow> 64 word list \<Rightarrow> nat \<Rightarrow> nat \<Rightarrow> nat" where
  "sel_loop a [] i sel = sel"
| "sel_loop a (m # ms) i sel = sel_loop a ms (i + 1) (sel OR push_bit i (popCount (a AND m) mod 2))"

definition contains :: "addr_range \<Rightarrow> 64 word \<Rightarrow> bool" where
  "contains r a =
     (ar_start r \<le> a \<and> a < ar_end r \<and> sel_loop a (ar_masks r) 0 0 = unat (ar_match r))"

definition intersects :: "addr_range \<Rightarrow> addr_range \<Rightarrow> bool res" where
  "intersects x r =
     (if ar_end r \<le> ar_start x \<or> ar_end x \<le> ar_start r then Inr False
      else if \<not> interleaved x \<and> \<not> interleaved r then Inr True
      else if range_size r = 1 then Inr (contains x (ar_start r))
      else if mergesWith x r then Inr (ar_match x = ar_match r)
      else Inl Panic)"

definition isSubset :: "addr_range \<Rightarrow> addr_range \<Rightarrow> bool res" where
  "isSubset x r =
     (if interleaved x then Inl Panic
      else if interleaved r
      then if contains r (ar_start x) \<and> contains r (ar_end x - 1)
           then rbind (granularity r) (\<lambda>g. Inr (range_size x \<le> g)) else Inr False
      else Inr (ar_start r \<le> ar_start x \<and> ar_end x \<le> ar_end r))"

section \<open>Interleaving bits\<close>

definition masks_lsb :: "addr_range \<Rightarrow> nat list" where
  "masks_lsb r = sort (map ctz64 (ar_masks r))"

fun remove_loop :: "nat list \<Rightarrow> nat \<Rightarrow> 64 word \<Rightarrow> 64 word res" where
  "remove_loop [] i a = Inr a"
| "remove_loop (p # ps) i a =
     rbind (if 0 < p then insertBits (drop_bit 1 a) (int p - int i - 1) 0 a else Inr (drop_bit 1 a))
       (remove_loop ps (i + 1))"

definition removeIntlvBits :: "addr_range \<Rightarrow> 64 word \<Rightarrow> 64 word res" where
  "removeIntlvBits r = remove_loop (masks_lsb r) 0"

fun add_loop :: "nat list \<Rightarrow> nat \<Rightarrow> 64 word \<Rightarrow> 64 word res" where
  "add_loop [] i a = Inr a"
| "add_loop (p # ps) i a =
     rbind (if 0 < p then insertBits (push_bit 1 a) (int p + int i - 1) 0 a else Inr (push_bit 1 a))
       (add_loop ps (i + 1))"

text \<open>The inverted bit is an \<open>int\<close> that is extended with its sign.\<close>

definition not_bit :: "nat \<Rightarrow> 64 word res" where
  "not_bit lsb = rindex (lsb < 32) (Inr (scast (NOT (push_bit lsb 1 :: 32 word))))"

fun select_loop :: "8 word \<Rightarrow> 64 word list \<Rightarrow> nat \<Rightarrow> 64 word \<Rightarrow> 64 word res" where
  "select_loop match [] i a = Inr a"
| "select_loop match (m # ms) i a =
     (let lsb = ctz64 m in
      rbind (not_bit lsb) (\<lambda>nb.
      rbind (insertBits a (int lsb) (int lsb)
               (of_bool (bit match i) XOR of_nat (popCount (a AND m AND nb))))
        (select_loop match ms (i + 1))))"

definition addIntlvBits :: "addr_range \<Rightarrow> 64 word \<Rightarrow> 64 word res" where
  "addIntlvBits r a = rbind (add_loop (masks_lsb r) 0 a) (select_loop (ar_match r) (ar_masks r) 0)"

definition getOffset :: "addr_range \<Rightarrow> 64 word \<Rightarrow> 64 word res" where
  "getOffset r a =
     (if \<not> (ar_start r \<le> a \<and> a < ar_end r) then Inr (- 1)
      else if interleaved r
      then rbind (removeIntlvBits r a) (\<lambda>x. rbind (removeIntlvBits r (ar_start r)) (\<lambda>y. Inr (x - y)))
      else Inr (a - ar_start r))"

definition range_less :: "addr_range \<Rightarrow> addr_range \<Rightarrow> bool" where
  "range_less x r = (if ar_start x \<noteq> ar_start r then ar_start x < ar_start r else ar_match x < ar_match r)"

definition range_eq :: "addr_range \<Rightarrow> addr_range \<Rightarrow> bool" where
  "range_eq x r = (ar_start x = ar_start r \<and> ar_end x = ar_end r \<and> ar_masks x = ar_masks r \<and> ar_match x = ar_match r)"

end
