(* ===== verification/Addr_Range_Safe.thy ===== *)
theory Addr_Range_Safe
  imports Addr_Range
begin

unbundle bit_operations_syntax

text \<open>
  The properties of address ranges: parity and lowest bits of words, the selector of an address, removing
  and inserting bits, and what the operations promise about the set of addresses of a range.
\<close>

section \<open>Counting and finding bits\<close>

lemma popCount_card: "popCount v = card {j. j < 64 \<and> bit v j}"
  unfolding popCount_def by (subst length_filter_conv_card) (intro arg_cong[of _ _ card], auto)

lemma popCount_split: "l < 64 \<Longrightarrow> popCount v = card {j. j < 64 \<and> j \<noteq> l \<and> bit v j} + of_bool (bit v l)"
proof -
  assume l: "l < 64"
  have "{j. j < 64 \<and> bit v j} = (if bit v l then insert l {j. j < 64 \<and> j \<noteq> l \<and> bit v j} else {j. j < 64 \<and> j \<noteq> l \<and> bit v j})"
    using l by auto
  then show ?thesis unfolding popCount_card by (auto simp: card_insert_if)
qed

text \<open>Words that agree except in one bit have the same parity exactly when they agree there too.\<close>

lemma parity_decides:
  assumes "l < 64" and "\<And>j. j < 64 \<Longrightarrow> j \<noteq> l \<Longrightarrow> bit x j \<longleftrightarrow> bit y j"
  shows "(odd (popCount x) \<longleftrightarrow> odd (popCount y)) \<longleftrightarrow> (bit x l \<longleftrightarrow> bit y l)"
proof -
  have "{j. j < 64 \<and> j \<noteq> l \<and> bit x j} = {j. j < 64 \<and> j \<noteq> l \<and> bit y j}" using assms(2) by blast
  then show ?thesis using popCount_split[OF assms(1), of x] popCount_split[OF assms(1), of y] by (auto split: if_splits)
qed

lemma ctz64_bit:
  assumes "v \<noteq> 0"
  shows "bit v (ctz64 v)" "ctz64 v < 64" "j < ctz64 v \<Longrightarrow> \<not> bit v j"
proof -
  have ex: "\<exists>j < 64. bit v j"
  proof (rule ccontr)
    assume "\<not> (\<exists>j < 64. bit v j)"
    then have "v = 0" by (intro bit_eqI) (auto dest: bit_imp_le_length)
    then show False using assms by simp
  qed
  have lt: "length (takeWhile (\<lambda>i. \<not> bit v i) [0..<64]) < length [0..<64::nat]"
  proof (rule ccontr)
    assume "\<not> length (takeWhile (\<lambda>i. \<not> bit v i) [0..<64]) < length [0..<64::nat]"
    then have "takeWhile (\<lambda>i. \<not> bit v i) [0..<64] = [0..<64]"
      using length_takeWhile_le[of "\<lambda>i. \<not> bit v i" "[0..<64]"] takeWhile_eq_take[of "\<lambda>i. \<not> bit v i" "[0..<64]"] by simp
    then have "\<forall>i \<in> set [0..<64]. \<not> bit v i" by (simp only: takeWhile_eq_all_conv)
    then show False using ex by auto
  qed
  then show c: "ctz64 v < 64" by (simp add: ctz64_def)
  show "bit v (ctz64 v)" using nth_length_takeWhile[OF lt] c by (simp add: ctz64_def)
  show "\<not> bit v j" if "j < ctz64 v"
  proof -
    have "takeWhile (\<lambda>i. \<not> bit v i) [0..<64] ! j \<in> set (takeWhile (\<lambda>i. \<not> bit v i) [0..<64])"
      using that by (simp add: ctz64_def)
    moreover have "takeWhile (\<lambda>i. \<not> bit v i) [0..<64] ! j = j"
      using that c takeWhile_nth[of j "\<lambda>i. \<not> bit v i" "[0..<64]"] by (simp add: ctz64_def)
    ultimately show ?thesis by (auto dest: set_takeWhileD)
  qed
qed

lemma ctz64_eq:
  assumes "bit v k" and "take_bit k v = 0"
  shows "ctz64 v = k"
proof -
  have nz: "v \<noteq> 0" using assms(1) by auto
  have "\<not> bit v j" if "j < k" for j
    using arg_cong[OF assms(2), of "\<lambda>w. bit w j"] that by (simp add: bit_take_bit_iff)
  then show ?thesis using ctz64_bit[OF nz] assms(1) by (metis linorder_neqE_nat)
qed
lemma popCount_0 [simp]: "popCount 0 = 0"
  by (simp add: popCount_def)

section \<open>The selector\<close>

lemma sel_loop_bit:
  "bit (sel_loop a ms i sel) j \<longleftrightarrow> bit sel j \<or> i \<le> j \<and> j < i + length ms \<and> odd (popCount (a AND ms ! (j - i)))"
proof (induction ms arbitrary: i sel)
  case (Cons m ms)
  have p: "bit (push_bit i (popCount (a AND m) mod 2)) j \<longleftrightarrow> j = i \<and> odd (popCount (a AND m))"
    by (cases "odd (popCount (a AND m))") (auto simp: bit_simps odd_iff_mod_2_eq_one)
  have "bit (sel_loop a (m # ms) i sel) j \<longleftrightarrow> bit sel j \<or> j = i \<and> odd (popCount (a AND m)) \<or>
      i + 1 \<le> j \<and> j < i + 1 + length ms \<and> odd (popCount (a AND ms ! (j - (i + 1))))"
    by (simp add: Cons.IH bit_or_iff p)
  also have "\<dots> \<longleftrightarrow> bit sel j \<or> i \<le> j \<and> j < i + length (m # ms) \<and> odd (popCount (a AND (m # ms) ! (j - i)))"
    by (cases "j = i") (auto simp: nth_Cons' Suc_diff_Suc)
  finally show ?case .
qed auto

definition selector :: "64 word list \<Rightarrow> 64 word \<Rightarrow> nat" where
  "selector ms a = sel_loop a ms 0 0"

lemma selector_bit: "bit (selector ms a) j \<longleftrightarrow> j < length ms \<and> odd (popCount (a AND ms ! j))"
  by (simp add: selector_def sel_loop_bit)

lemma selector_less: "selector ms a < 2 ^ length ms"
proof -
  have "take_bit (length ms) (selector ms a) = selector ms a"
    by (rule bit_eqI) (auto simp: bit_take_bit_iff selector_bit)
  then show ?thesis by (metis take_bit_nat_less_exp)
qed

lemma contains_selector:
  "contains r a \<longleftrightarrow> ar_start r \<le> a \<and> a < ar_end r \<and> selector (ar_masks r) a = unat (ar_match r)"
  by (simp add: contains_def selector_def)

section \<open>Removing bits\<close>

definition squeeze :: "nat \<Rightarrow> 64 word \<Rightarrow> 64 word" where
  "squeeze k a = a AND mask k OR drop_bit 1 a AND NOT (mask k)"

fun squeezes :: "nat list \<Rightarrow> nat \<Rightarrow> 64 word \<Rightarrow> 64 word" where
  "squeezes [] i a = a"
| "squeezes (p # ps) i a = squeezes ps (i + 1) (squeeze (p - i) a)"

lemma squeeze_bit: "bit (squeeze k a) j \<longleftrightarrow> bit a (if j < k then j else j + 1)"
proof (cases "j < 64")
  case True
  then show ?thesis by (auto simp: squeeze_def bit_simps)
next
  case False
  then have "\<not> bit a j" "\<not> bit a (j + 1)" "\<not> bit (squeeze k a) j" by (auto dest: bit_imp_le_length)
  then show ?thesis by simp
qed

definition removable :: "nat list \<Rightarrow> nat \<Rightarrow> bool" where
  "removable ps i \<longleftrightarrow> sorted_wrt (<) ps \<and> (\<forall>p \<in> set ps. i < p \<or> i = 0 \<and> p = 0 \<and> 1 \<notin> set ps)"

lemma removable_Cons: "removable (p # ps) i \<Longrightarrow> removable ps (i + 1) \<and> i \<le> p \<and> (i < p \<or> i = 0 \<and> p = 0)"
proof -
  assume r: "removable (p # ps) i"
  have s: "sorted_wrt (<) ps" "\<forall>q \<in> set ps. p < q" using r by (simp_all add: removable_def)
  have p: "i < p \<or> i = 0 \<and> p = 0 \<and> 1 \<notin> set ps" using r by (auto simp: removable_def)
  have "i + 1 < q" if "q \<in> set ps" for q
  proof (cases "i < p")
    case True
    then show ?thesis using s(2) that by force
  next
    case False
    then have "i = 0" "p = 0" "1 \<notin> set ps" using p by auto
    moreover have "p < q" "q \<noteq> 1" using s(2) that calculation(3) by auto
    ultimately show ?thesis by simp
  qed
  then show ?thesis using s(1) p by (auto simp: removable_def)
qed

lemma insert_low: "0 < k \<Longrightarrow> insertBits (drop_bit 1 a) (int k - 1) 0 a = Inr (squeeze k a)"
  by (simp add: insertBits_def squeeze_def Let_def)

lemma remove_loop_ok: "removable ps i \<Longrightarrow> remove_loop ps i a = Inr (squeezes ps i a)"
proof (induction ps arbitrary: i a)
  case (Cons p ps)
  note c = removable_Cons[OF Cons.prems]
  show ?case
  proof (cases "0 < p")
    case True
    then have "i < p" using c by auto
    then show ?thesis using Cons.IH[of "i + 1"] c True insert_low[of "p - i" a] by (simp add: of_nat_diff)
  next
    case False
    then have i: "i = 0" using c by auto
    show ?thesis using Cons.IH[of 1] c False unfolding i by (simp add: squeeze_def)
  qed
qed simp

lemma squeezes_agree:
  assumes "sorted_wrt (<) ps" and "\<forall>p \<in> set ps. i \<le> p" and "squeezes ps i a = squeezes ps i b"
    and "\<forall>p \<in> set ps. j \<noteq> p - i"
  shows "bit a j \<longleftrightarrow> bit b j"
  using assms
proof (induction ps arbitrary: i a b j)
  case (Cons p ps)
  have q: "\<forall>q \<in> set ps. p < q" using Cons.prems(1) by simp
  have ip: "i \<le> p" using Cons.prems(2) by simp
  have j: "j \<noteq> p - i" "\<forall>q \<in> set ps. j \<noteq> q - i" using Cons.prems(4) by simp_all
  let ?j = "if j < p - i then j else j - 1"
  have ne: "?j \<noteq> q - (i + 1)" if "q \<in> set ps" for q
  proof (cases "j < p - i")
    case True
    then show ?thesis using q that by force
  next
    case False
    moreover have "j \<noteq> q - i" "p < q" using j(2) q that by blast+
    ultimately show ?thesis using j(1) ip by auto
  qed
  have "bit (squeeze (p - i) a) ?j \<longleftrightarrow> bit (squeeze (p - i) b) ?j"
  proof (rule Cons.IH[of "i + 1"])
    show "sorted_wrt (<) ps" using Cons.prems(1) by simp
    show "\<forall>q \<in> set ps. i + 1 \<le> q" using q ip by fastforce
    show "squeezes ps (i + 1) (squeeze (p - i) a) = squeezes ps (i + 1) (squeeze (p - i) b)" using Cons.prems(3) by simp
    show "\<forall>q \<in> set ps. ?j \<noteq> q - (i + 1)" using ne by blast
  qed
  moreover have "bit (squeeze (p - i) x) ?j \<longleftrightarrow> bit x j" for x using j(1) by (auto simp: squeeze_bit)
  ultimately show ?case by simp
qed simp

section \<open>Offsets stay below the size\<close>

definition squeeze_nat :: "nat \<Rightarrow> nat \<Rightarrow> nat" where
  "squeeze_nat k n = n div 2 ^ (k + 1) * 2 ^ k + n mod 2 ^ k"

lemma unat_squeeze: "unat (squeeze k a) = squeeze_nat k (unat a)"
proof -
  have "squeeze_nat k (unat a) = push_bit k (drop_bit (k + 1) (unat a)) + take_bit k (unat a)"
    by (simp add: squeeze_nat_def push_bit_eq_mult drop_bit_eq_div take_bit_eq_mod)
  also have "\<dots> = push_bit k (drop_bit (k + 1) (unat a)) OR take_bit k (unat a)"
    by (rule disjunctive_add_eq_or, rule bit_eqI) (auto simp: bit_simps)
  also have "\<dots> = unat (squeeze k a)"
    by (rule bit_eqI) (auto simp: bit_simps bit_unsigned_iff squeeze_bit not_le algebra_simps)
  finally show ?thesis by simp
qed

lemma pos_mod_bound_nat: "r mod 2 ^ k < (2 ^ k :: nat)"
  by simp

lemma squeeze_nat_aligned:
  assumes "k < K"
  shows "squeeze_nat k (q * 2 ^ K + r) = q * 2 ^ (K - 1) + squeeze_nat k r"
    and "r < 2 ^ K \<Longrightarrow> squeeze_nat k r < 2 ^ (K - 1)"
proof -
  have K: "(2::nat) ^ K = 2 ^ (K - 1 - k) * 2 ^ (k + 1)" "(2::nat) ^ (K - 1) = 2 ^ (K - 1 - k) * 2 ^ k" "(2::nat) ^ K = 2 ^ (K - k) * 2 ^ k"
    using assms by (simp_all only: flip: power_add) (simp_all add: Suc_diff_Suc)
  have "(q * 2 ^ K + r) div 2 ^ (k + 1) = q * 2 ^ (K - 1 - k) + r div 2 ^ (k + 1)"
    unfolding K(1) mult.assoc[symmetric] by simp
  moreover have "(q * 2 ^ K + r) mod 2 ^ k = r mod 2 ^ k"
    unfolding K(3) mult.assoc[symmetric] by simp
  ultimately show "squeeze_nat k (q * 2 ^ K + r) = q * 2 ^ (K - 1) + squeeze_nat k r"
    unfolding squeeze_nat_def K(2) by (simp add: algebra_simps)
  show "squeeze_nat k r < 2 ^ (K - 1)" if "r < 2 ^ K"
  proof -
    have "r div 2 ^ (k + 1) < 2 ^ (K - 1 - k)" using that unfolding K(1) by (simp add: less_mult_imp_div_less)
    then have "r div 2 ^ (k + 1) * 2 ^ k + 2 ^ k \<le> 2 ^ (K - 1 - k) * 2 ^ k"
      by (metis Suc_leI add.commute mult_Suc mult_le_mono1)
    then show ?thesis unfolding squeeze_nat_def K(2) using pos_mod_bound_nat[of r k] by linarith
  qed
qed

lemma squeezes_aligned:
  assumes "sorted_wrt (<) ps" and "\<forall>p \<in> set ps. i \<le> p \<and> p < i + K" and "length ps \<le> K"
  shows "\<exists>x. (\<forall>a. unat a = q * 2 ^ K + r \<longrightarrow> unat (squeezes ps i a) = q * 2 ^ (K - length ps) + x) \<and>
    (r < 2 ^ K \<longrightarrow> x < 2 ^ (K - length ps)) \<and> (r = 0 \<longrightarrow> x = 0)"
  using assms
proof (induction ps arbitrary: i K r)
  case (Cons p ps)
  let ?k = "p - i" and ?K = "K - 1"
  have k: "?k < K" using Cons.prems(2) by force
  have a: "sorted_wrt (<) ps" "length ps \<le> ?K" using Cons.prems by simp_all
  have b: "\<forall>p' \<in> set ps. i + 1 \<le> p' \<and> p' < i + 1 + ?K"
  proof
    fix p' assume p': "p' \<in> set ps"
    then have "p < p'" "p' < i + K" "i \<le> p" using Cons.prems(1,2) by simp_all
    then show "i + 1 \<le> p' \<and> p' < i + 1 + ?K" using k by linarith
  qed
  obtain x where "(\<forall>a. unat a = q * 2 ^ ?K + squeeze_nat ?k r \<longrightarrow> unat (squeezes ps (i + 1) a) = q * 2 ^ (?K - length ps) + x) \<and>
      (squeeze_nat ?k r < 2 ^ ?K \<longrightarrow> x < 2 ^ (?K - length ps)) \<and> (squeeze_nat ?k r = 0 \<longrightarrow> x = 0)"
    by (rule exE[OF Cons.IH[OF a(1) b a(2), of "squeeze_nat ?k r"]])
  note x = conjunct1[OF this] conjunct2[OF this, THEN conjunct1, rule_format] conjunct2[OF this, THEN conjunct2, rule_format]
  have "unat (squeezes (p # ps) i a) = q * 2 ^ (K - length (p # ps)) + x" if "unat a = q * 2 ^ K + r" for a
    using x(1) squeeze_nat_aligned(1)[OF k, of q r] that by (simp add: unat_squeeze)
  moreover have "x < 2 ^ (K - length (p # ps))" if "r < 2 ^ K" using x(2) squeeze_nat_aligned(2)[OF k that] by simp
  moreover have "x = 0" if "r = 0" using x(3) that by (simp add: squeeze_nat_def)
  ultimately show ?case by blast
qed auto

section \<open>Interleavings\<close>

text \<open>Each mask decides by its lowest bit, which no other mask has; bits 0 and 1 are not both removed.\<close>

definition apart_masks :: "64 word list \<Rightarrow> bool" where
  "apart_masks ms \<longleftrightarrow> (\<forall>m \<in> set ms. m \<noteq> 0) \<and>
     (\<forall>i < length ms. \<forall>j < length ms. i \<noteq> j \<longrightarrow> \<not> bit (ms ! j) (ctz64 (ms ! i))) \<and>
     \<not> (0 \<in> ctz64 ` set ms \<and> 1 \<in> ctz64 ` set ms)"

lemma apart_lsbs:
  assumes "apart_masks (ar_masks r)"
  shows "removable (masks_lsb r) 0" "sorted_wrt (<) (masks_lsb r)" "distinct (map ctz64 (ar_masks r))"
    "length (masks_lsb r) = length (ar_masks r)" "set (masks_lsb r) = ctz64 ` set (ar_masks r)"
    "\<forall>p \<in> set (masks_lsb r). p < 64"
proof -
  let ?ms = "ar_masks r"
  have nz: "\<forall>m \<in> set ?ms. m \<noteq> 0" and ap: "\<forall>i < length ?ms. \<forall>j < length ?ms. i \<noteq> j \<longrightarrow> \<not> bit (?ms ! j) (ctz64 (?ms ! i))"
    and no: "\<not> (0 \<in> ctz64 ` set ?ms \<and> 1 \<in> ctz64 ` set ?ms)"
    using assms by (simp_all add: apart_masks_def)
  show d: "distinct (map ctz64 ?ms)"
  proof (clarsimp simp: distinct_conv_nth)
    fix i j assume i: "i < length ?ms" "j < length ?ms" "i \<noteq> j" "ctz64 (?ms ! i) = ctz64 (?ms ! j)"
    have "bit (?ms ! j) (ctz64 (?ms ! j))" using ctz64_bit(1) nz i(2) by simp
    then show False using ap i by metis
  qed
  show s: "set (masks_lsb r) = ctz64 ` set ?ms" "length (masks_lsb r) = length ?ms" by (simp_all add: masks_lsb_def)
  have "sorted (masks_lsb r)" "distinct (masks_lsb r)" using d by (simp_all add: masks_lsb_def)
  then show w: "sorted_wrt (<) (masks_lsb r)" by (simp add: strict_sorted_iff)
  show "removable (masks_lsb r) 0" using w no s by (auto simp: removable_def)
  show "\<forall>p \<in> set (masks_lsb r). p < 64" using s(1) nz ctz64_bit(2) by auto
qed

lemma getOffset_ok:
  assumes "apart_masks (ar_masks r)" and "contains r a"
  shows "getOffset r a = Inr (squeezes (masks_lsb r) 0 a - squeezes (masks_lsb r) 0 (ar_start r))"
proof -
  have "ar_start r \<le> a" "a < ar_end r" using assms(2) by (simp_all add: contains_def)
  then show ?thesis using remove_loop_ok[OF apart_lsbs(1)[OF assms(1)]]
    by (auto simp: getOffset_def removeIntlvBits_def interleaved_def masks_lsb_def)
qed

text \<open>Two addresses of a range that agree on the bits that stay are equal: the selector decides the others.\<close>

lemma selected_eq:
  assumes "apart_masks ms" and "selector ms a = selector ms b"
    and "\<And>j. j \<notin> ctz64 ` set ms \<Longrightarrow> bit a j \<longleftrightarrow> bit b j"
  shows "a = b"
proof (rule bit_eqI)
  fix l assume "possible_bit TYPE(64 word) l"
  then have l: "l < 64" by simp
  show "bit a l \<longleftrightarrow> bit b l"
  proof (cases "l \<in> ctz64 ` set ms")
    case True
    then obtain i where i: "i < length ms" "l = ctz64 (ms ! i)" by (auto simp: in_set_conv_nth)
    have nz: "ms ! i \<noteq> 0" using assms(1) i(1) by (simp add: apart_masks_def)
    have agree: "bit (a AND ms ! i) j \<longleftrightarrow> bit (b AND ms ! i) j" if "j < 64" "j \<noteq> l" for j
    proof (cases "j \<in> ctz64 ` set ms")
      case True
      then obtain i' where "i' < length ms" "j = ctz64 (ms ! i')" by (auto simp: in_set_conv_nth)
      moreover then have "i' \<noteq> i" using that(2) i(2) by auto
      ultimately have "\<not> bit (ms ! i) j" using assms(1) i(1) by (auto simp: apart_masks_def)
      then show ?thesis by (simp add: bit_and_iff)
    qed (use assms(3) in \<open>auto simp: bit_and_iff\<close>)
    have "odd (popCount (a AND ms ! i)) \<longleftrightarrow> odd (popCount (b AND ms ! i))"
      using arg_cong[OF assms(2), of "\<lambda>s. bit s i"] i(1) by (simp add: selector_bit)
    then have "bit (a AND ms ! i) l \<longleftrightarrow> bit (b AND ms ! i) l" using parity_decides[OF l agree] by blast
    then show ?thesis using ctz64_bit(1)[OF nz] i(2) by (simp add: bit_and_iff)
  qed (use assms(3) in blast)
qed

lemma offset_injective:
  assumes "apart_masks (ar_masks r)" and "contains r a" and "contains r b" and "getOffset r a = getOffset r b"
  shows "a = b"
proof (rule selected_eq[OF assms(1)])
  show "selector (ar_masks r) a = selector (ar_masks r) b" using assms(2,3) by (simp add: contains_selector)
  have "squeezes (masks_lsb r) 0 a = squeezes (masks_lsb r) 0 b"
    using assms(4) unfolding getOffset_ok[OF assms(1,2)] getOffset_ok[OF assms(1,3)] by simp
  then show "bit a j \<longleftrightarrow> bit b j" if "j \<notin> ctz64 ` set (ar_masks r)" for j
    using squeezes_agree[OF apart_lsbs(2)[OF assms(1)], of 0 a b j] apart_lsbs(5)[OF assms(1)] that by auto
qed

lemma offset_bound:
  assumes "apart_masks (ar_masks r)" and "contains r a" and "\<forall>m \<in> set (ar_masks r). ctz64 m < K"
    and "2 ^ K dvd unat (ar_start r)" and "2 ^ K dvd unat (ar_end r)"
  shows "\<exists>x. getOffset r a = Inr x \<and> x < range_size r"
proof -
  let ?L = "masks_lsb r" and ?n = "length (ar_masks r)"
  have in_r: "ar_start r \<le> a" "a < ar_end r" using assms(2) by (simp_all add: contains_def)
  have L: "\<forall>p \<in> set ?L. 0 \<le> p \<and> p < 0 + K" using apart_lsbs(5)[OF assms(1)] assms(3) by auto
  have "card (set ?L) \<le> card {..<K}" by (rule card_mono) (use L in auto)
  then have n: "length ?L \<le> K"
    using distinct_card[OF apart_lsbs(3)[OF assms(1)]] apart_lsbs(4,5)[OF assms(1)] by simp
  obtain qs qe where q: "unat (ar_start r) = qs * 2 ^ K" "unat (ar_end r) = qe * 2 ^ K"
    using assms(4,5) by (metis dvd_div_mult_self)
  define qa ra where "qa = unat a div 2 ^ K" and "ra = unat a mod 2 ^ K"
  have a: "unat a = qa * 2 ^ K + ra" "ra < 2 ^ K" unfolding qa_def ra_def by (simp_all only: div_mult_mod_eq) simp
  obtain x where x: "unat (squeezes ?L 0 a) = qa * 2 ^ (K - length ?L) + x" "x < 2 ^ (K - length ?L)"
    using squeezes_aligned[OF apart_lsbs(2)[OF assms(1)] L n, of qa ra] a by blast
  have s: "unat (squeezes ?L 0 (ar_start r)) = qs * 2 ^ (K - length ?L)"
    using squeezes_aligned[OF apart_lsbs(2)[OF assms(1)] L n, of qs 0] q(1) by auto
  have qa1: "qs \<le> qa" using in_r(1) q(1) by (simp add: qa_def word_le_nat_alt) (metis div_le_mono nonzero_mult_div_cancel_right power_not_zero zero_neq_numeral)
  have qa2: "qa < qe" using in_r(2) q(2) unfolding qa_def word_less_nat_alt by (simp add: less_mult_imp_div_less)
  have le: "squeezes ?L 0 (ar_start r) \<le> squeezes ?L 0 a"
    unfolding word_le_nat_alt s x(1) using qa1 by (simp add: trans_le_add1)
  have off: "unat (squeezes ?L 0 a - squeezes ?L 0 (ar_start r)) = (qa - qs) * 2 ^ (K - length ?L) + x"
    unfolding unat_sub[OF le] s x(1) using qa1 by (simp add: diff_mult_distrib)
  have "ar_start r \<le> ar_end r" using in_r by simp
  from unat_sub[OF this] have "unat (range_size r) = (qe - qs) * 2 ^ K div 2 ^ ?n"
    unfolding range_size_def unat_drop_bit_eq by (simp only: drop_bit_eq_div q diff_mult_distrib)
  also have "\<dots> = (qe - qs) * 2 ^ (K - length ?L)"
  proof -
    have "(2::nat) ^ K = 2 ^ (K - length ?L) * 2 ^ ?n" using n apart_lsbs(4)[OF assms(1)] by (simp flip: power_add)
    then show ?thesis by (simp add: mult.assoc[symmetric])
  qed
  finally have size: "unat (range_size r) = (qe - qs) * 2 ^ (K - length ?L)" .
  have "(qa - qs) * 2 ^ (K - length ?L) + x < (qa - qs + 1) * 2 ^ (K - length ?L)" using x(2) by (simp add: algebra_simps)
  also have "\<dots> \<le> (qe - qs) * 2 ^ (K - length ?L)" using qa1 qa2 by (intro mult_right_mono) simp_all
  finally have "squeezes ?L 0 a - squeezes ?L 0 (ar_start r) < range_size r"
    unfolding word_less_nat_alt off size .
  then show ?thesis using getOffset_ok[OF assms(1,2)] by blast
qed

section \<open>Putting bits back\<close>

definition expand :: "nat \<Rightarrow> 64 word \<Rightarrow> 64 word" where
  "expand k a = a AND mask k OR push_bit 1 a AND NOT (mask k)"

lemma expand_bit: "bit (expand k a) j \<longleftrightarrow> (if j < k then bit a j else 0 < j \<and> j < 64 \<and> bit a (j - 1))"
proof (cases "j < 64")
  case True
  have "bit (push_bit 1 a) j \<longleftrightarrow> 1 \<le> j \<and> bit a (j - 1)" using True unfolding bit_push_bit_iff by simp
  then show ?thesis using True by (auto simp: expand_def bit_and_iff bit_or_iff bit_not_iff bit_mask_iff simp del: push_bit_Suc One_nat_def push_bit_of_Suc_0)
next
  case False
  then have "\<not> bit a j" "\<not> bit (expand k a) j" by (auto dest: bit_imp_le_length)
  then show ?thesis using False by simp
qed

lemma insert_gap: "0 < k \<Longrightarrow> insertBits (push_bit 1 a) (int k - 1) 0 a = Inr (expand k a)"
  by (simp add: insertBits_def expand_def Let_def)

lemma add_loop_two:
  assumes "p < q"
  shows "add_loop [p, q] 0 a = Inr (expand (q + 1) (expand p a))"
  using assms insert_gap[of p a] insert_gap[of "q + 1" "expand p a"]
  by (cases "p = 0") (simp_all add: expand_def)

lemma add_loop_one: "add_loop [p] 0 a = Inr (expand p a)"
  using insert_gap[of p a] by (cases "p = 0") (simp_all add: expand_def)

lemma expand_squeeze_two:
  assumes "p < q" and "j < 64" and "j \<noteq> p" and "j \<noteq> q"
  shows "bit (expand (q + 1) (expand p (squeeze (q - 1) (squeeze p x)))) j \<longleftrightarrow> bit x j"
proof -
  consider "j < p" | "p < j" "j < q" | "q < j" using assms by linarith
  then show ?thesis
  proof cases
    case 1
    then have "j < q - 1" using assms(1) by linarith
    with 1 show ?thesis using assms by (simp add: expand_bit squeeze_bit)
  next
    case 2
    then have "j - 1 < q - 1" "\<not> j - 1 < p" "\<not> j < p" "j < q + 1" "Suc (j - 1) = j" "0 < j" by linarith+
    then show ?thesis using assms(2) by (simp add: expand_bit squeeze_bit)
  next
    case 3
    then have "\<not> j < q + 1" "\<not> j - 1 < p" "\<not> j - 1 - 1 < q - 1" "\<not> j - 1 < p" "Suc (j - 1 - 1) = j - 1" "Suc (j - 1) = j"
      "0 < j" "0 < j - 1" "j - 1 < 64" "j - 1 < q + 1 \<longleftrightarrow> j = q + 1" using assms(1,2) by linarith+
    then show ?thesis using assms(2) by (simp add: expand_bit squeeze_bit)
  qed
qed

lemma expand_squeeze_one: "j < 64 \<Longrightarrow> j \<noteq> p \<Longrightarrow> bit (expand p (squeeze p x)) j \<longleftrightarrow> bit x j"
  by (cases "j < p") (auto simp: expand_bit squeeze_bit)

lemma not_bit_ok: "l < 31 \<Longrightarrow> not_bit l = Inr (NOT (push_bit l 1))"
proof -
  assume l: "l < 31"
  have "(scast (NOT (push_bit l 1 :: 32 word)) :: 64 word) = NOT (push_bit l 1)"
    by (rule bit_eqI) (use l in \<open>auto simp: bit_simps min_def\<close>)
  then show ?thesis using l by (simp add: not_bit_def)
qed

lemma insert_one: "l < 64 \<Longrightarrow> \<exists>y. insertBits a (int l) (int l) v = Inr y \<and> (\<forall>j < 64. bit y j \<longleftrightarrow> (if j = l then bit v 0 else bit a j))"
  by (auto simp: insertBits_def Let_def bit_simps)

lemma apart_tl:
  assumes "apart_masks (m # ms)"
  shows "apart_masks ms"
proof -
  have *: "\<forall>i < length (m # ms). \<forall>j < length (m # ms). i \<noteq> j \<longrightarrow> \<not> bit ((m # ms) ! j) (ctz64 ((m # ms) ! i))"
    using assms unfolding apart_masks_def by blast
  have "\<not> bit (ms ! j) (ctz64 (ms ! i))" if "i < length ms" "j < length ms" "i \<noteq> j" for i j
    using *[rule_format, of "Suc i" "Suc j"] that by simp
  moreover have "\<not> (0 \<in> ctz64 ` set ms \<and> 1 \<in> ctz64 ` set ms)" using assms by (auto simp: apart_masks_def)
  ultimately show ?thesis using assms by (simp add: apart_masks_def)
qed

lemma select_loop_ok:
  assumes "apart_masks ms" and "\<forall>m \<in> set ms. ctz64 m < 31"
    and "\<forall>j < length ms. odd (popCount (x AND ms ! j)) \<longleftrightarrow> bit match (i + j)"
    and "\<And>j. j < 64 \<Longrightarrow> j \<notin> ctz64 ` set ms \<Longrightarrow> bit a j \<longleftrightarrow> bit x j"
  shows "select_loop match ms i a = Inr x"
  using assms
proof (induction ms arbitrary: i a)
  case Nil
  have "a = x" by (rule bit_eqI) (use Nil.prems(4) in auto)
  then show ?case by simp
next
  case (Cons m ms)
  define l where "l = ctz64 m"
  have nz: "m \<noteq> 0" and l: "l < 31" using Cons.prems(1,2) by (simp_all add: apart_masks_def l_def)
  have ap: "\<not> bit m (ctz64 m')" "\<not> bit m' l" if m': "m' \<in> set ms" for m'
  proof -
    obtain k where k: "k < length ms" "m' = ms ! k" using m' by (metis in_set_conv_nth)
    have "\<forall>i < length (m # ms). \<forall>j < length (m # ms). i \<noteq> j \<longrightarrow> \<not> bit ((m # ms) ! j) (ctz64 ((m # ms) ! i))"
      using Cons.prems(1) unfolding apart_masks_def by blast
    note all = this[rule_format]
    show "\<not> bit m (ctz64 m')" using all[of "Suc k" 0] k by simp
    show "\<not> bit m' l" using all[of 0 "Suc k"] k by (simp add: l_def)
  qed
  define pc where "pc = popCount (a AND m AND NOT (push_bit l 1))"
  obtain y where y: "insertBits a (int l) (int l) (of_bool (bit match i) XOR of_nat pc) = Inr y"
    "\<forall>j < 64. bit y j \<longleftrightarrow> (if j = l then bit (of_bool (bit match i) XOR of_nat pc :: 64 word) 0 else bit a j)"
    using insert_one[of l a "of_bool (bit match i) XOR of_nat pc"] l by fastforce
  have b0: "bit (of_bool (bit match i) XOR of_nat pc :: 64 word) 0 \<longleftrightarrow> (bit match i \<longleftrightarrow> even pc)"
    unfolding bit_xor_iff by (cases "bit match i") (simp_all add: bit_0)
  have "{j. j < 64 \<and> bit (a AND m AND NOT (push_bit l 1)) j} = {j. j < 64 \<and> j \<noteq> l \<and> bit (x AND m) j}"
    using Cons.prems(4) ap(1) by (auto simp: bit_simps l_def)
  then have "popCount (x AND m) = pc + of_bool (bit (x AND m) l)"
    using popCount_split[of l "x AND m"] l by (simp add: pc_def popCount_card)
  moreover have "bit m l" using ctz64_bit(1)[OF nz] by (simp add: l_def)
  ultimately have "popCount (x AND m) = pc + of_bool (bit x l)" by (simp add: bit_and_iff)
  moreover have "odd (popCount (x AND m)) \<longleftrightarrow> bit match i" using Cons.prems(3)[rule_format, of 0] by simp
  ultimately have bl: "bit y l \<longleftrightarrow> bit x l" using y(2) b0 l by auto
  have "select_loop match ms (i + 1) y = Inr x"
  proof (rule Cons.IH)
    show "apart_masks ms" by (rule apart_tl[OF Cons.prems(1)])
    show "\<forall>m \<in> set ms. ctz64 m < 31" using Cons.prems(2) by simp
    show "\<forall>j < length ms. odd (popCount (x AND ms ! j)) \<longleftrightarrow> bit match (i + 1 + j)"
    proof (intro allI impI)
      fix j assume "j < length ms"
      then show "odd (popCount (x AND ms ! j)) \<longleftrightarrow> bit match (i + 1 + j)" using Cons.prems(3)[rule_format, of "Suc j"] by simp
    qed
    show "bit y j \<longleftrightarrow> bit x j" if "j < 64" "j \<notin> ctz64 ` set ms" for j
      using that bl y(2) Cons.prems(4)[of j] by (cases "j = l") (auto simp: l_def)
  qed
  then show ?case using not_bit_ok[OF l] y(1) by (simp add: l_def[symmetric] pc_def Let_def)
qed

lemma remove_add:
  assumes "apart_masks (ar_masks r)" and "\<forall>m \<in> set (ar_masks r). ctz64 m < 31" and "length (ar_masks r) \<le> 2"
    and "contains r a"
  shows "rbind (removeIntlvBits r a) (addIntlvBits r) = Inr a"
proof -
  let ?L = "masks_lsb r" and ?ms = "ar_masks r"
  note lsb = apart_lsbs[OF assms(1)]
  obtain b where b: "add_loop ?L 0 (squeezes ?L 0 a) = Inr b" "\<forall>j < 64. j \<notin> set ?L \<longrightarrow> (bit b j \<longleftrightarrow> bit a j)"
  proof (cases ?L)
    case Nil
    then show ?thesis by (intro that[of a]) simp_all
  next
    case (Cons p ps)
    show ?thesis
    proof (cases ps)
      case Nil
      then show ?thesis using Cons expand_squeeze_one[of _ p a] by (intro that[of "expand p (squeeze p a)"]) (auto simp: add_loop_one simp del: add_loop.simps)
    next
      case (Cons q qs)
      then have L: "?L = [p, q]" using \<open>?L = p # ps\<close> assms(3) lsb(4) by (cases qs) simp_all
      then have "p < q" using lsb(2) by simp
      then show ?thesis using L expand_squeeze_two[of p q _ a]
        by (intro that[of "expand (q + 1) (expand p (squeeze (q - 1) (squeeze p a)))"]) (auto simp: add_loop_two simp del: add_loop.simps)
    qed
  qed
  have "select_loop (ar_match r) ?ms 0 b = Inr a"
  proof (rule select_loop_ok[OF assms(1,2)])
    show "\<forall>j < length ?ms. odd (popCount (a AND ?ms ! j)) \<longleftrightarrow> bit (ar_match r) (0 + j)"
    proof (intro allI impI)
      fix j assume j: "j < length ?ms"
      have "bit (selector ?ms a) j \<longleftrightarrow> bit (unat (ar_match r)) j" using assms(4) by (simp add: contains_selector)
      then show "odd (popCount (a AND ?ms ! j)) \<longleftrightarrow> bit (ar_match r) (0 + j)"
        using j assms(3) by (simp add: selector_bit bit_unsigned_iff)
    qed
    show "bit b j \<longleftrightarrow> bit a j" if "j < 64" "j \<notin> ctz64 ` set ?ms" for j using b(2) that lsb(5) by auto
  qed
  then show ?thesis using b(1) remove_loop_ok[OF lsb(1), of a] by (simp add: removeIntlvBits_def addIntlvBits_def)
qed

section \<open>Subsets and merging\<close>

lemma selector_cong: "(\<And>m. m \<in> set ms \<Longrightarrow> a AND m = b AND m) \<Longrightarrow> selector ms a = selector ms b"
proof (rule bit_eqI)
  fix j assume "\<And>m. m \<in> set ms \<Longrightarrow> a AND m = b AND m"
  then show "bit (selector ms a) j \<longleftrightarrow> bit (selector ms b) j" unfolding selector_bit by (metis nth_mem)
qed

lemma combined_mask_bit: "j < 32 \<Longrightarrow> bit (foldl (\<lambda>m x. m OR ucast x) (c :: 32 word) ms) j \<longleftrightarrow> bit c j \<or> (\<exists>m \<in> set ms. bit m j)"
  by (induction ms arbitrary: c) (auto simp: bit_simps)

text \<open>Below the granularity no mask has a bit, so addresses of one granule have the same selector.\<close>

lemma ctz64_zero: "ctz64 0 = 64"
proof -
  have "takeWhile (\<lambda>i. \<not> bit (0 :: 64 word) i) [0..<64] = [0..<64]" by (rule takeWhile_eq_all_conv[THEN iffD2]) simp
  then show ?thesis unfolding ctz64_def by (simp only: length_upt)
qed

lemma granule_selector:
  assumes "granularity r = Inr g" and "interleaved r"
  obtains k where "g = push_bit k 1" "k < 64" "\<And>a b. drop_bit k a = drop_bit k b \<Longrightarrow> selector (ar_masks r) a = selector (ar_masks r) b"
proof -
  let ?c = "scast (combined_mask (ar_masks r)) :: 64 word"
  define k where "k = ctz64 ?c"
  have k: "k < 64" "g = push_bit k 1" using assms by (simp_all add: granularity_def Let_def k_def split: if_splits)
  have "?c \<noteq> 0"
  proof
    assume "?c = 0"
    then have "ctz64 ?c = 64" by (simp add: ctz64_zero)
    then show False using k(1) by (simp add: k_def)
  qed
  then have c: "bit ?c k" "\<And>j. j < k \<Longrightarrow> \<not> bit ?c j" using ctz64_bit unfolding k_def by blast+
  have sbit: "bit ?c j \<longleftrightarrow> bit (combined_mask (ar_masks r)) (min 31 j)" if "j < 64" for j
    using that by (simp add: bit_simps)
  have k32: "k < 32"
  proof (rule ccontr)
    assume "\<not> k < 32"
    then have "bit (combined_mask (ar_masks r)) 31" using c(1) sbit[OF k(1)] by simp
    then have "bit ?c 31" using sbit[of 31] by simp
    then show False using c(2)[of 31] \<open>\<not> k < 32\<close> by simp
  qed
  have no: "\<not> bit m j" if "m \<in> set (ar_masks r)" "j < k" for m j
  proof
    assume "bit m j"
    then have "bit (combined_mask (ar_masks r)) j" using that k32 unfolding combined_mask_def by (subst combined_mask_bit) auto
    then show False using c(2)[OF that(2)] sbit[of j] k32 that(2) by simp
  qed
  have "selector (ar_masks r) a = selector (ar_masks r) b" if d: "drop_bit k a = drop_bit k b" for a b
  proof (rule selector_cong, rule bit_eqI)
    fix m j assume m: "m \<in> set (ar_masks r)"
    show "bit (a AND m) j \<longleftrightarrow> bit (b AND m) j"
    proof (cases "j < k")
      case False
      then show ?thesis using arg_cong[OF d, of "\<lambda>x. bit x (j - k)"] by (simp add: bit_simps)
    qed (use no[OF m] in \<open>simp add: bit_and_iff\<close>)
  qed
  then show thesis using that k by blast
qed

lemma unat_p2: "k < 64 \<Longrightarrow> unat ((2 :: 64 word) ^ k) = 2 ^ k"
  using unat_of_nat[where 'a = 64, of "2 ^ k"] power_strict_increasing[of k 64 "2::nat"] by simp

definition range_ok :: "addr_range \<Rightarrow> bool" where
  "range_ok r \<longleftrightarrow> unat (ar_match r) < 2 ^ length (ar_masks r)"

lemma one_of_two_blocks:
  fixes a s l :: nat
  assumes "s \<le> a" and "a \<le> l" and "l + 1 - s \<le> 2 ^ k"
  shows "a div 2 ^ k = s div 2 ^ k \<or> a div 2 ^ k = l div 2 ^ k"
proof -
  have "s div 2 ^ k \<le> a div 2 ^ k" "a div 2 ^ k \<le> l div 2 ^ k" using assms by (simp_all add: div_le_mono)
  moreover have "l div 2 ^ k \<le> s div 2 ^ k + 1"
  proof -
    have "l \<le> s + 2 ^ k" using assms by linarith
    then have "l div 2 ^ k \<le> (s + 2 ^ k) div 2 ^ k" by (rule div_le_mono)
    also have "(s + 2 ^ k) div 2 ^ k = s div 2 ^ k + 1" by (rule div_add_self2) simp
    finally show ?thesis .
  qed
  ultimately show ?thesis by linarith
qed

lemma isSubset_sound:
  assumes "isSubset x r = Inr True" and "contains x a" and "range_ok r"
  shows "contains r a"
proof -
  have nx: "\<not> interleaved x" using assms(1) by (auto simp: isSubset_def)
  have a: "ar_start x \<le> a" "a < ar_end x" using assms(2) by (simp_all add: contains_def)
  show ?thesis
  proof (cases "interleaved r")
    case False
    then show ?thesis using assms nx a by (auto simp: isSubset_def contains_def interleaved_def range_ok_def dest: order_trans order_less_le_trans)
  next
    case True
    then have c: "contains r (ar_start x)" "contains r (ar_end x - 1)" using assms(1) nx by (auto simp: isSubset_def split: if_splits)
    obtain g where g: "granularity r = Inr g" "range_size x \<le> g"
      using assms(1) nx True c by (auto simp: isSubset_def rbind_Inr_iff)
    obtain k where k: "g = push_bit k 1" "k < 64" "\<And>a b. drop_bit k a = drop_bit k b \<Longrightarrow> selector (ar_masks r) a = selector (ar_masks r) b"
      by (rule granule_selector[OF g(1) True], rule that)
    have e0: "ar_end x \<noteq> 0" using a(2) by auto
    have l: "unat (ar_end x - 1) = unat (ar_end x) - 1" using e0 by (simp add: unat_minus_one)
    have an: "unat (ar_start x) \<le> unat a" "unat a \<le> unat (ar_end x - 1)" "unat a < unat (ar_end x)"
      using a unfolding l by (simp_all add: word_le_nat_alt word_less_nat_alt)
    have "unat g = 2 ^ k" using k(1,2) by (simp add: unat_p2)
    moreover have "unat (range_size x) = unat (ar_end x) - unat (ar_start x)"
      using nx a unat_sub[of "ar_start x" "ar_end x"] by (simp add: range_size_def interleaved_def)
    ultimately have "unat (ar_end x - 1) + 1 - unat (ar_start x) \<le> 2 ^ k"
      using g(2) an l unfolding word_le_nat_alt by simp
    then have "unat a div 2 ^ k = unat (ar_start x) div 2 ^ k \<or> unat a div 2 ^ k = unat (ar_end x - 1) div 2 ^ k"
      by (rule one_of_two_blocks[OF an(1,2)])
    then have "drop_bit k a = drop_bit k (ar_start x) \<or> drop_bit k a = drop_bit k (ar_end x - 1)"
      unfolding word_unat_eq_iff unat_drop_bit_eq by (simp only: drop_bit_eq_div)
    then have "selector (ar_masks r) a = unat (ar_match r)" using k(3)[of a "ar_start x"] k(3)[of a "ar_end x - 1"] c by (auto simp: contains_selector)
    moreover have "ar_start r \<le> a" using c(1) a(1) by (auto simp: contains_def)
    moreover have "a < ar_end r"
    proof -
      have "a \<le> ar_end x - 1" using an(2) by (simp add: word_le_nat_alt)
      then show ?thesis using c(2) by (auto simp: contains_def)
    qed
    ultimately show ?thesis by (simp add: contains_selector)
  qed
qed

lemma stripes_matches:
  "stripes_match x m rs \<Longrightarrow> k < length rs \<Longrightarrow> mergesWith x (rs ! k) \<and> ar_match (rs ! k) = m + of_nat k"
proof (induction rs arbitrary: m k)
  case (Cons r rs)
  then show ?case by (cases k) (auto simp: ac_simps)
qed simp

lemma merged_covers:
  assumes "merged_range rs = Inr x" and "length rs \<le> 256" and "1 < length rs"
  shows "contains x a \<longleftrightarrow> (\<exists>r \<in> set rs. contains r a)"
proof -
  obtain r rs' where rs: "rs = r # rs'" using assms(3) by (cases rs) auto
  have m: "length rs = 2 ^ length (ar_masks r)" "stripes_match r 0 rs" "x = r\<lparr>ar_masks := [], ar_match := 0\<rparr>"
    using assms(1,3) by (auto simp: merged_range_def rs split: if_splits)
  have each: "contains (rs ! k) a \<longleftrightarrow> ar_start r \<le> a \<and> a < ar_end r \<and> selector (ar_masks r) a = k" if "k < length rs" for k
  proof -
    have "k < 256" using that assms(2) by simp
    then show ?thesis using stripes_matches[OF m(2) that] by (simp add: contains_selector mergesWith_def unat_of_nat)
  qed
  have "contains x a \<longleftrightarrow> ar_start r \<le> a \<and> a < ar_end r" by (simp add: contains_def m(3))
  also have "\<dots> \<longleftrightarrow> (\<exists>k < length rs. contains (rs ! k) a)"
    using each selector_less[of "ar_masks r" a] m(1) by auto
  finally show ?thesis by (metis in_set_conv_nth)
qed

section \<open>Properties\<close>

text \<open>
  C25. The channels of an interleaving partition memory: every address of the range is in exactly one of
  the \<open>2 ^ n\<close> channels, and within a channel different addresses have different offsets, all
  below the size of the channel. (The masks have different lowest bits below \<open>K\<close>, at which the range is
  aligned.)
\<close>

theorem channels_partition_memory:
  assumes "apart_masks ms" and "length ms \<le> 8" and "\<forall>m \<in> set ms. ctz64 m < K"
    and "2 ^ K dvd unat s" and "2 ^ K dvd unat e"
  shows "(\<forall>a. s \<le> a \<and> a < e \<longrightarrow>
      (\<exists>!m. m < 2 ^ length ms \<and> contains \<lparr>ar_start = s, ar_end = e, ar_masks = ms, ar_match = of_nat m\<rparr> a)) \<and>
    (\<forall>m. let r = \<lparr>ar_start = s, ar_end = e, ar_masks = ms, ar_match = m\<rparr> in
      inj_on (getOffset r) {a. contains r a} \<and>
      (\<forall>a. contains r a \<longrightarrow> (\<exists>x. getOffset r a = Inr x \<and> x < range_size r)))"
proof (intro conjI allI impI)
  fix a assume a: "s \<le> a \<and> a < e"
  have u: "unat (of_nat m :: 8 word) = m" if "m < 2 ^ length ms" for m
  proof -
    have "(2::nat) ^ length ms \<le> 2 ^ 8" using assms(2) by (intro power_increasing) simp_all
    then have "m < 256" using that by simp
    then show ?thesis by (simp add: unat_of_nat)
  qed
  have "m < 2 ^ length ms \<and> contains \<lparr>ar_start = s, ar_end = e, ar_masks = ms, ar_match = of_nat m\<rparr> a \<longleftrightarrow>
      m = selector ms a" for m
    using a u[of m] selector_less[of ms a] by (auto simp: contains_selector)
  then show "\<exists>!m. m < 2 ^ length ms \<and> contains \<lparr>ar_start = s, ar_end = e, ar_masks = ms, ar_match = of_nat m\<rparr> a"
    by simp
next
  fix m
  show "let r = \<lparr>ar_start = s, ar_end = e, ar_masks = ms, ar_match = m\<rparr> in
      inj_on (getOffset r) {a. contains r a} \<and>
      (\<forall>a. contains r a \<longrightarrow> (\<exists>x. getOffset r a = Inr x \<and> x < range_size r))"
    using offset_injective[of "\<lparr>ar_start = s, ar_end = e, ar_masks = ms, ar_match = m\<rparr>"]
      offset_bound[of "\<lparr>ar_start = s, ar_end = e, ar_masks = ms, ar_match = m\<rparr>" _ K] assms
    by (auto simp: Let_def inj_on_def)
qed

lemma demo_lsbs: "ctz64 0x1040 = 6" "ctz64 0x80 = 7"
  by (rule ctz64_eq; simp)+

lemma three_lsbs: "ctz64 0x40 = 6" "ctz64 0x80 = 7" "ctz64 0x100 = 8"
  by (rule ctz64_eq; simp)+

lemma demo_masks: "apart_masks [0x1040, 0x80]"
proof -
  have "\<not> bit (0x1040 :: 64 word) 7" "\<not> bit (0x80 :: 64 word) 6" by simp_all
  then show ?thesis by (auto simp: apart_masks_def demo_lsbs less_Suc_eq nth_Cons')
qed

theorem channels_partition_memory_witness:
  "(\<exists>!m. m < 4 \<and> contains \<lparr>ar_start = 0, ar_end = 0x10000, ar_masks = [0x1040, 0x80], ar_match = of_nat m\<rparr> 0x1234) \<and>
   inj_on (getOffset \<lparr>ar_start = 0, ar_end = 0x10000, ar_masks = [0x1040, 0x80], ar_match = 3\<rparr>)
     {a. contains \<lparr>ar_start = 0, ar_end = 0x10000, ar_masks = [0x1040, 0x80], ar_match = 3\<rparr> a}"
proof -
  have h: "length [0x1040 :: 64 word, 0x80] \<le> 8" "\<forall>m \<in> set [0x1040, 0x80]. ctz64 m < 8"
    "2 ^ 8 dvd unat (0 :: 64 word)" "2 ^ 8 dvd unat (0x10000 :: 64 word)" by (simp_all add: demo_lsbs)
  note p = channels_partition_memory[OF demo_masks h]
  have "\<exists>!m. m < 2 ^ length [0x1040 :: 64 word, 0x80] \<and>
      contains \<lparr>ar_start = 0, ar_end = 0x10000, ar_masks = [0x1040, 0x80], ar_match = of_nat m\<rparr> 0x1234"
    by (rule p[THEN conjunct1, rule_format]) simp
  then show ?thesis using p[THEN conjunct2] by (simp add: Let_def)
qed

text \<open>
  What \<open>isSubset\<close> promises: if it answers yes, the other range contains every address of this
  one, even when the other range is interleaved with a hash over several bits, because this one fits in
  two neighbouring granules whose ends it contains.
\<close>

theorem range_subset_sound:
  assumes "isSubset x r = Inr True" and "range_ok r"
  shows "{a. contains x a} \<subseteq> {a. contains r a}"
  using isSubset_sound[OF assms(1) _ assms(2)] by blast

theorem range_subset_sound_witness:
  "contains \<lparr>ar_start = 0, ar_end = 0x10000, ar_masks = [0x1040, 0x80], ar_match = 1\<rparr> 0x75"
proof -
  have "isSubset (plain_range 0x70 0x78) \<lparr>ar_start = 0, ar_end = 0x10000, ar_masks = [0x1040, 0x80], ar_match = 1\<rparr> = Inr True"
    by code_simp
  moreover have "range_ok \<lparr>ar_start = 0, ar_end = 0x10000, ar_masks = [0x1040, 0x80], ar_match = 1\<rparr>" by (simp add: range_ok_def)
  moreover have "contains (plain_range 0x70 0x78) 0x75" by code_simp
  ultimately show ?thesis using range_subset_sound by blast
qed



text \<open>
  With three neighbouring interleaving bits (eight channels) they cannot: the loop that makes the gaps
  keeps one bit too many for each gap after the second, so addresses are not recovered and two
  channel addresses are mapped to the wrong place.
\<close>

theorem three_bits_not_restored:
  "let r = \<lparr>ar_start = 0, ar_end = 0x100000, ar_masks = [0x40, 0x80, 0x100], ar_match = 0\<rparr> in
     contains r 0x200 \<and> contains r 0x400 \<and>
     rbind (removeIntlvBits r 0x200) (addIntlvBits r) = Inr 0 \<and>
     rbind (removeIntlvBits r 0x400) (addIntlvBits r) = Inr 0x600"
  by (simp add: contains_def removeIntlvBits_def addIntlvBits_def masks_lsb_def three_lsbs insertBits_def not_bit_ok Let_def
      mask_eq_exp_minus_1)

text \<open>
  Merging all stripes of an interleaving gives the range of their union.
\<close>

theorem merged_range_covers:
  assumes "merged_range rs = Inr x" and "1 < length rs" and "length rs \<le> 256"
  shows "{a. contains x a} = (\<Union>r \<in> set rs. {a. contains r a})"
  using merged_covers[OF assms(1,3,2)] by auto

theorem merged_range_covers_witness:
  "let r = \<lambda>m. \<lparr>ar_start = 0, ar_end = 0x10000, ar_masks = [0x1040], ar_match = m\<rparr> in
     {a. contains (plain_range 0 0x10000) a} = {a. contains (r 0) a} \<union> {a. contains (r 1) a}"
proof -
  have "merged_range [\<lparr>ar_start = 0, ar_end = 0x10000, ar_masks = [0x1040], ar_match = 0\<rparr>,
      \<lparr>ar_start = 0, ar_end = 0x10000, ar_masks = [0x1040], ar_match = 1\<rparr>] = Inr (plain_range 0 0x10000)"
    by code_simp
  from merged_range_covers[OF this] show ?thesis by simp
qed

end
