(* ===== verification/Event_Queue_Safe.thy ===== *)
theory Event_Queue_Safe
  imports Event_Queue
begin

text \<open>
  The event queue implements its list of bins: \<open>holds q bs\<close> says that the pointers of \<open>q\<close> are the bins
  \<open>bs\<close>, ordered by tick and priority, that exactly their events and those waiting in the list of the other
  threads are scheduled, and that none is in the past. Insertion is \<open>put\<close> on the bins and removal is
  \<open>take_out\<close>, whatever stale pointers the events that are not on top of their bin keep. On this rest the
  order in which events run and the return of every loop.
\<close>

section \<open>The list of bins\<close>

fun in_bin :: "(nat \<Rightarrow> event) \<Rightarrow> nat option \<Rightarrow> nat list \<Rightarrow> bool" where
  "in_bin st p [] \<longleftrightarrow> p = None"
| "in_bin st p (x # xs) \<longleftrightarrow> p = Some x \<and> in_bin st (nextInBin (st x)) xs"

fun bins :: "(nat \<Rightarrow> event) \<Rightarrow> nat option \<Rightarrow> nat list list \<Rightarrow> bool" where
  "bins st p [] \<longleftrightarrow> p = None"
| "bins st p (b # bs) \<longleftrightarrow> b \<noteq> [] \<and> in_bin st p b \<and> bins st (nextBin (st (hd b))) bs"

definition same_key :: "(nat \<Rightarrow> ev_key) \<Rightarrow> nat list \<Rightarrow> bool" where
  "same_key K b \<longleftrightarrow> (\<forall>x \<in> set b. K x = K (hd b))"

lemma same_key_simps: "same_key K [e]" "same_key K b \<Longrightarrow> K e = K (hd b) \<Longrightarrow> same_key K (e # b)"
  by (simp_all add: same_key_def)

lemma same_keyD: "same_key K b \<Longrightarrow> x \<in> set b \<Longrightarrow> K x = K (hd b)"
  unfolding same_key_def by blast

lemma same_key_sub: "same_key K b \<Longrightarrow> set c \<subseteq> set b \<Longrightarrow> c \<noteq> [] \<Longrightarrow> same_key K c \<and> K (hd c) = K (hd b)"
  unfolding same_key_def by (metis hd_in_set subset_iff)

definition keyed :: "(nat \<Rightarrow> ev_key) \<Rightarrow> nat list list \<Rightarrow> bool" where
  "keyed K bs \<longleftrightarrow> distinct (concat bs) \<and> (\<forall>b \<in> set bs. b \<noteq> [] \<and> same_key K b) \<and>
     sorted_wrt (\<lambda>b c. K (hd b) < K (hd c)) bs"

text \<open>What insertion and removal do to the bins.\<close>

fun put :: "(nat \<Rightarrow> ev_key) \<Rightarrow> nat \<Rightarrow> nat list list \<Rightarrow> nat list list" where
  "put K e [] = [[e]]"
| "put K e (b # bs) =
     (if K e < K (hd b) then [e] # b # bs else if K e = K (hd b) then (e # b) # bs else b # put K e bs)"

definition take_out :: "nat \<Rightarrow> nat list list \<Rightarrow> nat list list" where
  "take_out e bs = filter (\<lambda>b. b \<noteq> []) (map (removeAll e) bs)"

lemma put_set: "set (concat (put K e bs)) = insert e (set (concat bs))"
  by (induction K e bs rule: put.induct) auto

lemma put_later: "K (hd b) < K e \<Longrightarrow> put K e (b # bs) = b # put K e bs"
  by auto

lemma put_hd: "x \<in> hd ` set (put K e bs) \<Longrightarrow> x = e \<or> x \<in> hd ` set bs"
  by (induction K e bs rule: put.induct) (auto split: if_splits)

lemma keyed_Cons:
  "keyed K (b # bs) \<longleftrightarrow> b \<noteq> [] \<and> distinct b \<and> same_key K b \<and> set b \<inter> set (concat bs) = {} \<and>
     (\<forall>c \<in> set bs. K (hd b) < K (hd c)) \<and> keyed K bs"
  unfolding keyed_def by (simp del: set_concat) blast

lemma put_keyed:
  assumes "keyed K bs" and "e \<notin> set (concat bs)"
  shows "keyed K (put K e bs)"
  using assms
proof (induction bs)
  case (Cons b bs)
  have c: "b \<noteq> []" "distinct b" "same_key K b" "set b \<inter> set (concat bs) = {}"
    "\<forall>c \<in> set bs. K (hd b) < K (hd c)" "keyed K bs" using Cons.prems(1) unfolding keyed_Cons by blast+
  have e: "e \<notin> set b" "e \<notin> set (concat bs)" using Cons.prems(2) by simp_all
  consider "K e < K (hd b)" | "K e = K (hd b)" | "K (hd b) < K e" by (rule linorder_cases)
  then show ?case
  proof cases
    case 1
    then have "\<forall>c \<in> set bs. K e < K (hd c)" using c(5) by force
    then show ?thesis using 1 c e by (simp add: keyed_Cons same_key_simps)
  next
    case 2
    then show ?thesis using c e by (simp add: keyed_Cons same_key_simps)
  next
    case 3
    have "K (hd b) < K (hd c)" if "c \<in> set (put K e bs)" for c
    proof -
      have "hd c = e \<or> hd c \<in> hd ` set bs" using put_hd[of "hd c" K e bs] that by blast
      then show ?thesis using 3 c(5) by auto
    qed
    moreover have "set b \<inter> set (concat (put K e bs)) = {}" using c(4) e(1) unfolding put_set by blast
    ultimately show ?thesis unfolding put_later[OF 3] keyed_Cons using c Cons.IH[OF c(6) e(2)] by blast
  qed
qed (simp add: keyed_def same_key_simps)

lemma take_out_simps:
  "take_out e [] = []"
  "take_out e (b # bs) = (if removeAll e b = [] then take_out e bs else removeAll e b # take_out e bs)"
  by (simp_all add: take_out_def)

lemma take_out_set: "set (concat (take_out e bs)) = set (concat bs) - {e}"
proof (induction bs)
  case (Cons b bs)
  have "set (concat (take_out e (b # bs))) = set (removeAll e b) \<union> set (concat (take_out e bs))"
    by (cases "removeAll e b = []") (simp_all only: take_out_simps if_True if_False concat.simps set_append list.set Un_empty_left simp_thms)
  also have "set (removeAll e b) = set b - {e}" by simp
  also have "set (concat (take_out e bs)) = set (concat bs) - {e}" by (rule Cons.IH)
  finally show ?case by auto
qed (simp add: take_out_simps)

lemma take_out_none: "e \<notin> set (concat bs) \<Longrightarrow> \<forall>b \<in> set bs. b \<noteq> [] \<Longrightarrow> take_out e bs = bs"
  by (induction bs) (auto simp: take_out_simps removeAll_id)

lemma keyed_hd: "keyed K bs \<Longrightarrow> b \<in> set bs \<Longrightarrow> x \<in> set b \<Longrightarrow> K x = K (hd b)"
  unfolding keyed_def by (blast intro: same_keyD)

lemma keyed_sub: "keyed K bs \<Longrightarrow> b \<in> set bs \<Longrightarrow> c \<noteq> [] \<Longrightarrow> set c \<subseteq> set b \<Longrightarrow> K (hd c) = K (hd b)"
  unfolding keyed_def using same_key_sub by blast

lemma take_out_keyed:
  assumes "keyed K bs"
  shows "keyed K (take_out e bs)"
  using assms
proof (induction bs)
  case (Cons b bs)
  have c: "b \<noteq> []" "distinct b" "same_key K b" "set b \<inter> set (concat bs) = {}"
    "\<forall>c \<in> set bs. K (hd b) < K (hd c)" "keyed K bs" using Cons.prems(1) unfolding keyed_Cons by blast+
  show ?case
  proof (cases "removeAll e b = []")
    case True
    then show ?thesis using Cons.IH[OF c(6)] by (simp add: take_out_simps)
  next
    case False
    have h: "same_key K (removeAll e b)" "K (hd (removeAll e b)) = K (hd b)"
      using same_key_sub[OF c(3) _ False] by auto
    have l1: "K (hd (removeAll e b)) < K (hd x)" if x: "x \<in> set (take_out e bs)" for x
    proof -
      obtain d where d: "d \<in> set bs" "x = removeAll e d" "x \<noteq> []" using x by (auto simp: take_out_def)
      then have "K (hd x) = K (hd d)" by (intro keyed_sub[OF c(6)]) auto
      then show ?thesis using c(5) d(1) h(2) by simp
    qed
    have l2: "set (removeAll e b) \<inter> set (concat (take_out e bs)) = {}" using c(4) unfolding take_out_set by auto
    have eq: "take_out e (b # bs) = removeAll e b # take_out e bs" using False by (simp add: take_out_simps)
    show ?thesis unfolding eq keyed_Cons
      by (intro conjI ballI False distinct_removeAll c(2) h(1) l2 Cons.IH[OF c(6)] l1)
  qed
qed (simp add: take_out_simps)

section \<open>Links\<close>

definition relinked :: "nat set \<Rightarrow> (nat \<Rightarrow> event) \<Rightarrow> (nat \<Rightarrow> event) \<Rightarrow> bool" where
  "relinked S st st' \<longleftrightarrow> (\<forall>x. \<exists>a b. st' x = (st x)\<lparr>nextBin := a, nextInBin := b\<rparr>) \<and> (\<forall>x. x \<notin> S \<longrightarrow> st' x = st x)"

lemma relinked_keep:
  assumes "relinked S st st'"
  shows "ev_key (st' x) = ev_key (st x)" "ev_scheduled (st' x) = ev_scheduled (st x)" "ev_squashed (st' x) = ev_squashed (st x)"
    "ev_managed (st' x) = ev_managed (st x)" "ev_exit (st' x) = ev_exit (st x)"
proof -
  obtain a b where "st' x = (st x)\<lparr>nextBin := a, nextInBin := b\<rparr>" using assms unfolding relinked_def by blast
  then show "ev_key (st' x) = ev_key (st x)" "ev_scheduled (st' x) = ev_scheduled (st x)" "ev_squashed (st' x) = ev_squashed (st x)"
    "ev_managed (st' x) = ev_managed (st x)" "ev_exit (st' x) = ev_exit (st x)" by simp_all
qed

lemma relinked_refl [simp]: "relinked S st st"
  unfolding relinked_def by (metis event.surjective event.update_convs(1,2))

lemma relinked_upd:
  assumes "relinked S st st'" and "x \<in> S" and "f (st' x) = (st' x)\<lparr>nextBin := a, nextInBin := b\<rparr>"
  shows "relinked S st (st'(x := f (st' x)))"
proof -
  have "\<exists>a b. (st'(x := f (st' x))) y = (st y)\<lparr>nextBin := a, nextInBin := b\<rparr>" for y
  proof -
    obtain a' b' where "st' y = (st y)\<lparr>nextBin := a', nextInBin := b'\<rparr>" using assms(1) unfolding relinked_def by blast
    then show ?thesis using assms(3) by (cases "y = x") (auto intro: exI)
  qed
  then show ?thesis using assms(1,2) by (auto simp: relinked_def)
qed

lemma in_bin_cong: "(\<And>x. x \<in> set b \<Longrightarrow> nextInBin (st' x) = nextInBin (st x)) \<Longrightarrow> in_bin st' p b = in_bin st p b"
  by (induction b arbitrary: p) auto

lemma bins_cong:
  "(\<And>x. x \<in> set (concat bs) \<Longrightarrow> nextInBin (st' x) = nextInBin (st x)) \<Longrightarrow>
   (\<And>b. b \<in> set bs \<Longrightarrow> b \<noteq> [] \<Longrightarrow> nextBin (st' (hd b)) = nextBin (st (hd b))) \<Longrightarrow> bins st' p bs = bins st p bs"
proof (induction bs arbitrary: p)
  case (Cons b bs)
  then show ?case using in_bin_cong[of b st' st p] by (cases "b = []") auto
qed simp

lemma bins_frame: "relinked S st st' \<Longrightarrow> S \<inter> set (concat bs) = {} \<Longrightarrow> bins st' p bs = bins st p bs"
proof (rule bins_cong)
  assume r: "relinked S st st'" and d: "S \<inter> set (concat bs) = {}"
  show "nextInBin (st' x) = nextInBin (st x)" if "x \<in> set (concat bs)" for x using r d that unfolding relinked_def by (metis disjoint_iff)
  show "nextBin (st' (hd b)) = nextBin (st (hd b))" if "b \<in> set bs" "b \<noteq> []" for b
  proof -
    have "hd b \<in> set (concat bs)" using that hd_in_set[OF that(2)] by (simp only: set_concat) blast
    then show ?thesis using r d unfolding relinked_def by (metis disjoint_iff)
  qed
qed

lemma in_bin_hd: "in_bin st p b \<Longrightarrow> b \<noteq> [] \<Longrightarrow> p = Some (hd b)"
  by (cases b) auto

lemma bins_hd: "bins st p (b # bs) \<Longrightarrow> p = Some (hd b)"
  using in_bin_hd by auto

section \<open>Insertion\<close>

lemma insertBefore_simps [simp]:
  "eq_head (insertBefore e cur q) = eq_head q" "eq_curTick (insertBefore e cur q) = eq_curTick q"
  "eq_async (insertBefore e cur q) = eq_async q" "eq_deleted (insertBefore e cur q) = eq_deleted q"
  by (simp_all add: insertBefore_def split: option.split)

lemma insertBefore_store: "\<exists>a b. eq_store (insertBefore e cur q) = (eq_store q)(e := (eq_store q e)\<lparr>nextBin := a, nextInBin := b\<rparr>)"
proof (cases cur)
  case None
  then show ?thesis by (auto simp: insertBefore_def)
next
  case (Some c)
  then show ?thesis by (cases "key_of q e < key_of q c") (auto simp: insertBefore_def)
qed

lemma insertBefore_nextInBin: "x \<noteq> e \<Longrightarrow> nextInBin (eq_store (insertBefore e cur q) x) = nextInBin (eq_store q x)"
  using insertBefore_store[of e cur q] by auto

lemma insertBefore_relinked: "e \<in> S \<Longrightarrow> relinked S (eq_store q) (eq_store (insertBefore e cur q))"
proof -
  assume e: "e \<in> S"
  obtain a b where "eq_store (insertBefore e cur q) = (eq_store q)(e := (eq_store q e)\<lparr>nextBin := a, nextInBin := b\<rparr>)"
    using insertBefore_store by blast
  then show ?thesis
    using relinked_upd[OF relinked_refl[of S "eq_store q"] e, where f = "\<lambda>x. x\<lparr>nextBin := a, nextInBin := b\<rparr>" and a = a and b = b] by simp
qed

lemma relinked_nextBin: "relinked S st st' \<Longrightarrow> x \<in> S \<Longrightarrow> relinked S st (st'(x := (st' x)\<lparr>nextBin := a\<rparr>))"
  using relinked_upd[of S st st' x "\<lambda>y. y\<lparr>nextBin := a\<rparr>", where a = a and b = "nextInBin (st' x)"]
  by (cases "st' x") simp

lemma relinked_nextInBin: "relinked S st st' \<Longrightarrow> x \<in> S \<Longrightarrow> relinked S st (st'(x := (st' x)\<lparr>nextInBin := a\<rparr>))"
  using relinked_upd[of S st st' x "\<lambda>y. y\<lparr>nextInBin := a\<rparr>", where a = "nextBin (st' x)" and b = a]
  by (cases "st' x") simp

lemma relinked_mono: "relinked S st st' \<Longrightarrow> S \<subseteq> T \<Longrightarrow> relinked T st st'"
  unfolding relinked_def by blast

text \<open>The event goes in front of the bins from \<open>cur\<close> on, or on top of the first.\<close>

lemma insertBefore_bins:
  assumes "bins (eq_store q) cur bs" and "keyed (key_of q) bs" and "e \<notin> set (concat bs)"
    and "\<forall>b \<in> set bs. key_of q e \<le> key_of q (hd b)"
  shows "bins (eq_store (insertBefore e cur q)) (Some e) (put (key_of q) e bs)"
proof -
  let ?st = "eq_store q" and ?st' = "eq_store (insertBefore e cur q)"
  have fr: "bins ?st' p cs = bins ?st p cs" if "e \<notin> set (concat cs)" for p cs
    by (rule bins_frame[OF insertBefore_relinked[of e "{e}" q cur]]) (use that in auto)
  show ?thesis
  proof (cases bs)
    case Nil
    then show ?thesis using assms(1) by (simp add: insertBefore_def)
  next
    case (Cons b cs)
    have b: "b \<noteq> []" "in_bin ?st cur b" "bins ?st (nextBin (?st (hd b))) cs" "cur = Some (hd b)"
      using assms(1) bins_hd[of ?st cur b cs] Cons by auto
    have en: "e \<notin> set (concat cs)" "e \<notin> set b" "e \<noteq> hd b" using assms(3) Cons b(1) by auto
    show ?thesis
    proof (cases "key_of q e < key_of q (hd b)")
      case True
      then have p: "put (key_of q) e bs = [e] # bs" using Cons by simp
      have "bins ?st' cur bs" using fr[OF assms(3)] assms(1) by simp
      moreover have "nextBin (?st' e) = cur" "nextInBin (?st' e) = None" using True b(4) by (simp_all add: insertBefore_def)
      ultimately show ?thesis unfolding p by simp
    next
      case False
      moreover have "key_of q e \<le> key_of q (hd b)" using assms(4) Cons by simp
      ultimately have k: "key_of q e = key_of q (hd b)" by order
      then have p: "put (key_of q) e bs = (e # b) # cs" using Cons by simp
      have "in_bin ?st' cur b" using in_bin_cong[of b ?st' ?st cur] insertBefore_nextInBin[of _ e cur q] b(2) en(2) by metis
      moreover have "nextBin (?st' e) = nextBin (?st (hd b))" "nextInBin (?st' e) = cur"
        using False b(4) by (simp_all add: insertBefore_def)
      moreover have "bins ?st' (nextBin (?st (hd b))) cs" using fr[OF en(1)] b(3) by blast
      ultimately show ?thesis unfolding p by (simp only: bins.simps in_bin.simps list.sel list.distinct simp_thms)
    qed
  qed
qed

definition put_after :: "nat \<Rightarrow> nat \<Rightarrow> nat option \<Rightarrow> eventq \<Rightarrow> eventq" where
  "put_after prev e cur q = upd_event prev (\<lambda>x. x\<lparr>nextBin := Some e\<rparr>) (insertBefore e cur q)"

lemma put_after_relinked: "e \<in> S \<Longrightarrow> prev \<in> S \<Longrightarrow> relinked S (eq_store q) (eq_store (put_after prev e cur q))"
  unfolding put_after_def using relinked_nextBin[OF insertBefore_relinked] by simp

lemma put_after_nextInBin: "x \<noteq> e \<Longrightarrow> nextInBin (eq_store (put_after prev e cur q) x) = nextInBin (eq_store q x)"
  using insertBefore_store[of e cur q] by (auto simp: put_after_def)

lemma find_put:
  assumes "bins (eq_store q) (Some (hd b)) (b # bs)" and "keyed (key_of q) (b # bs)" and "e \<notin> set (concat (b # bs))"
    and "key_of q (hd b) < key_of q e"
  shows "\<exists>prev cur. find_bin q (key_of q e) (hd b) (nextBin (eq_store q (hd b))) = Some (prev, cur) \<and>
    prev \<in> hd ` set (b # bs) \<and>
    bins (eq_store (put_after prev e cur q)) (Some (hd b)) (put (key_of q) e (b # bs))"
  using assms
proof (induction bs arbitrary: b)
  case Nil
  let ?q' = "put_after (hd b) e None q"
  have b: "b \<noteq> []" "in_bin (eq_store q) (Some (hd b)) b" "nextBin (eq_store q (hd b)) = None" "hd b \<noteq> e" "e \<notin> set b"
    using Nil.prems(1,3) by auto
  have "in_bin (eq_store ?q') (Some (hd b)) b"
    using in_bin_cong[of b "eq_store ?q'" "eq_store q"] put_after_nextInBin[of _ e "hd b" None q] b(2,5) by metis
  moreover have "nextBin (eq_store ?q' (hd b)) = Some e" "nextBin (eq_store ?q' e) = None" "nextInBin (eq_store ?q' e) = None"
    using b(4) by (auto simp: put_after_def insertBefore_def)
  ultimately have "bins (eq_store ?q') (Some (hd b)) (put (key_of q) e [b])"
    unfolding put_later[OF Nil.prems(4)] using b(1) by simp
  moreover have "find_bin q (key_of q e) (hd b) (nextBin (eq_store q (hd b))) = Some (hd b, None)"
    unfolding b(3) by (subst find_bin.simps) simp
  ultimately show ?case by force
next
  case (Cons c cs)
  let ?st = "eq_store q" and ?K = "key_of q"
  have b: "b \<noteq> []" "in_bin ?st (Some (hd b)) b" "bins ?st (nextBin (?st (hd b))) (c # cs)" using Cons.prems(1) by auto
  have nb: "nextBin (?st (hd b)) = Some (hd c)" by (rule bins_hd[OF b(3)])
  have kb: "keyed ?K (c # cs)" "set b \<inter> set (concat (c # cs)) = {}" using Cons.prems(2) unfolding keyed_Cons by blast+
  have en: "e \<notin> set (concat (c # cs))" "e \<notin> set b" using Cons.prems(3) by auto
  have hb: "hd b \<noteq> e" using en(2) b(1) by auto
  have fin: "bins (eq_store (put_after prev e cur q)) (Some (hd b)) (put ?K e (b # c # cs))"
    if "bins (eq_store (put_after prev e cur q)) p (put ?K e (c # cs))" "nextBin (eq_store (put_after prev e cur q) (hd b)) = p"
    for prev cur p
  proof -
    have "in_bin (eq_store (put_after prev e cur q)) (Some (hd b)) b"
      using in_bin_cong[of b "eq_store (put_after prev e cur q)" ?st] put_after_nextInBin[of _ e prev cur q] b(2) en(2) by metis
    then show ?thesis unfolding put_later[OF Cons.prems(4)] using b(1) that by simp
  qed
  show ?case
  proof (cases "?K (hd c) < ?K e")
    case True
    have pr: "bins ?st (Some (hd c)) (c # cs)" using b(3) nb by simp
    obtain prev cur where IH: "find_bin q (?K e) (hd c) (nextBin (?st (hd c))) = Some (prev, cur)" "prev \<in> hd ` set (c # cs)"
      "bins (eq_store (put_after prev e cur q)) (Some (hd c)) (put ?K e (c # cs))"
      using Cons.IH[OF pr kb(1) en(1) True] by blast
    have "prev \<in> set (concat (c # cs))"
    proof -
      obtain d where d: "d \<in> set (c # cs)" "prev = hd d" using IH(2) by blast
      then have "d \<noteq> []" using kb(1) unfolding keyed_def by blast
      then have "hd d \<in> set d" by (rule hd_in_set)
      then show ?thesis using d by (simp only: set_concat) blast
    qed
    then have "prev \<noteq> hd b" using kb(2) b(1) hd_in_set by blast
    then have "nextBin (eq_store (put_after prev e cur q) (hd b)) = Some (hd c)"
      using nb hb insertBefore_store[of e cur q] by (auto simp: put_after_def)
    from fin[OF IH(3) this] have "bins (eq_store (put_after prev e cur q)) (Some (hd b)) (put ?K e (b # c # cs))" .
    moreover have "find_bin q (?K e) (hd b) (nextBin (?st (hd b))) = Some (prev, cur)"
      unfolding nb by (subst find_bin.simps) (simp add: True IH(1))
    ultimately show ?thesis using IH(2) by auto
  next
    case False
    let ?q' = "put_after (hd b) e (Some (hd c)) q"
    have ge: "\<forall>d \<in> set (c # cs). ?K e \<le> ?K (hd d)"
    proof
      fix d assume "d \<in> set (c # cs)"
      then have "?K (hd c) \<le> ?K (hd d)" using kb(1) unfolding keyed_Cons by auto
      then show "?K e \<le> ?K (hd d)" using False by order
    qed
    have "bins (eq_store (insertBefore e (Some (hd c)) q)) (Some e) (put ?K e (c # cs))"
      by (rule insertBefore_bins[OF _ kb(1) en(1) ge]) (use b(3) nb in simp)
    moreover have "hd b \<notin> set (concat (put ?K e (c # cs)))"
      using kb(2) hb hd_in_set[OF b(1)] unfolding put_set by blast
    then have "bins (eq_store ?q') (Some e) (put ?K e (c # cs)) = bins (eq_store (insertBefore e (Some (hd c)) q)) (Some e) (put ?K e (c # cs))"
      by (intro bins_frame[of "{hd b}"]) (simp_all add: put_after_def relinked_nextBin)
    moreover have "nextBin (eq_store ?q' (hd b)) = Some e" by (simp add: put_after_def)
    ultimately have "bins (eq_store ?q') (Some (hd b)) (put ?K e (b # c # cs))" using fin by blast
    moreover have "find_bin q (?K e) (hd b) (nextBin (?st (hd b))) = Some (hd b, Some (hd c))"
      unfolding nb by (subst find_bin.simps) (simp add: False)
    ultimately show ?thesis by auto
  qed
qed

lemma eq_insert_ok:
  assumes "bins (eq_store q) (eq_head q) bs" and "keyed (key_of q) bs" and "e \<notin> set (concat bs)"
  obtains st' h where "eq_insert e q = Inr (q\<lparr>eq_store := st', eq_head := h\<rparr>)" "bins st' h (put (key_of q) e bs)"
    "relinked (insert e (set (concat bs))) (eq_store q) st'"
proof (cases bs)
  case Nil
  let ?q' = "(insertBefore e None q)\<lparr>eq_head := Some e\<rparr>"
  have h: "eq_head q = None" using assms(1) Nil by simp
  have run: "eq_insert e q = Inr (q\<lparr>eq_store := eq_store ?q', eq_head := Some e\<rparr>)"
    by (simp add: eq_insert_def h insertBefore_def)
  show thesis
  proof (rule that[OF run])
    show "bins (eq_store ?q') (Some e) (put (key_of q) e bs)"
      using insertBefore_bins[of q None "[]" e] Nil by (simp add: keyed_def)
    show "relinked (insert e (set (concat bs))) (eq_store q) (eq_store ?q')" using insertBefore_relinked[of e _ q None] by simp
  qed
next
  case (Cons b cs)
  have h: "eq_head q = Some (hd b)" using bins_hd[of "eq_store q" "eq_head q" b cs] assms(1) Cons by simp
  have b: "b \<noteq> []" using assms(1) Cons by simp
  have eta: "\<And>x c. (insertBefore e c q)\<lparr>eq_head := x\<rparr> = q\<lparr>eq_store := eq_store (insertBefore e c q), eq_head := x\<rparr>"
    by (simp add: insertBefore_def split: option.split)
  show thesis
  proof (cases "key_of q e \<le> key_of q (hd b)")
    case True
    have run: "eq_insert e q = Inr (q\<lparr>eq_store := eq_store (insertBefore e (Some (hd b)) q), eq_head := Some e\<rparr>)"
      by (simp add: eq_insert_def h True eta)
    have ge: "\<forall>d \<in> set bs. key_of q e \<le> key_of q (hd d)"
    proof
      fix d assume "d \<in> set bs"
      then have "key_of q (hd b) \<le> key_of q (hd d)" using assms(2) unfolding Cons keyed_Cons by auto
      then show "key_of q e \<le> key_of q (hd d)" using True by order
    qed
    show thesis
    proof (rule that[OF run])
      show "bins (eq_store (insertBefore e (Some (hd b)) q)) (Some e) (put (key_of q) e bs)"
        by (rule insertBefore_bins[OF _ assms(2,3) ge]) (use assms(1) h in simp)
    qed (simp add: insertBefore_relinked)
  next
    case False
    then have lt: "key_of q (hd b) < key_of q e" by simp
    obtain prev cur where f: "find_bin q (key_of q e) (hd b) (nextBin (eq_store q (hd b))) = Some (prev, cur)"
      "prev \<in> hd ` set bs" "bins (eq_store (put_after prev e cur q)) (Some (hd b)) (put (key_of q) e bs)"
      using find_put[of q b cs e] assms h lt Cons by auto
    have prev: "prev \<in> insert e (set (concat bs))"
    proof -
      obtain d where d: "d \<in> set bs" "prev = hd d" using f(2) by blast
      then have "d \<noteq> []" using assms(2) unfolding keyed_def by blast
      then have "hd d \<in> set d" by (rule hd_in_set)
      then show ?thesis using d by (simp only: set_concat) blast
    qed
    have run: "eq_insert e q = Inr (q\<lparr>eq_store := eq_store (put_after prev e cur q), eq_head := Some (hd b)\<rparr>)"
      using h False by (simp add: eq_insert_def f(1) put_after_def insertBefore_def split: option.split)
    show thesis
      by (rule that[OF run f(3)]) (use prev put_after_relinked in auto)
  qed
qed

section \<open>Removal\<close>

lemma find_item_ok:
  "in_bin (eq_store q) (nextInBin (eq_store q c)) xs \<Longrightarrow> e \<in> set xs \<Longrightarrow>
   \<exists>us prev vs. find_item q e c (nextInBin (eq_store q c)) = Some (Inr prev) \<and> c # xs = us @ prev # e # vs"
proof (induction xs arbitrary: c)
  case (Cons x xs)
  have n: "nextInBin (eq_store q c) = Some x" "in_bin (eq_store q) (nextInBin (eq_store q x)) xs" using Cons.prems(1) by simp_all
  show ?case
  proof (cases "x = e")
    case True
    have "find_item q e c (Some x) = Some (Inr c)" by (subst find_item.simps) (simp add: True)
    then show ?thesis using n(1) True by (intro exI[of _ "[]"] exI[of _ c] exI[of _ xs]) simp
  next
    case False
    then have "e \<in> set xs" using Cons.prems(2) by simp
    then obtain us prev vs where IH: "find_item q e x (nextInBin (eq_store q x)) = Some (Inr prev)" "x # xs = us @ prev # e # vs"
      using Cons.IH[OF n(2)] by blast
    have "find_item q e c (Some x) = Some (Inr prev)" by (subst find_item.simps) (simp add: False IH(1))
    then show ?thesis using n(1) IH(2) by (intro exI[of _ "c # us"] exI[of _ prev] exI[of _ vs]) simp
  qed
qed simp

lemma in_bin_unlink:
  "in_bin st p (us @ prev # e # vs) \<Longrightarrow> distinct (us @ prev # e # vs) \<Longrightarrow>
   in_bin (st(prev := (st prev)\<lparr>nextInBin := nextInBin (st e)\<rparr>)) p (us @ prev # vs)"
proof (induction us arbitrary: p)
  case Nil
  let ?st' = "st(prev := (st prev)\<lparr>nextInBin := nextInBin (st e)\<rparr>)"
  have "in_bin ?st' (nextInBin (st e)) vs = in_bin st (nextInBin (st e)) vs"
    by (rule in_bin_cong) (use Nil.prems(2) in auto)
  then show ?case using Nil.prems(1) by (simp add: fun_upd_def)
qed auto

lemma removeItem_ok:
  assumes "bins (eq_store q) (Some (hd b)) (b # bs)" and "distinct (concat (b # bs))" and "e \<in> set b"
  obtains p st' where "removeItem e (hd b) q = Inr (p, q\<lparr>eq_store := st'\<rparr>)" "bins st' p (take_out e (b # bs))"
    "relinked (set b) (eq_store q) st'"
proof -
  let ?st = "eq_store q"
  obtain t xs where b: "b = t # xs" using assms(1) by (cases b) auto
  have lk: "in_bin ?st (nextInBin (?st t)) xs" "bins ?st (nextBin (?st t)) bs" using assms(1) b by simp_all
  have ne: "\<forall>c \<in> set bs. c \<noteq> []"
  proof -
    have "bins ?st p cs \<Longrightarrow> \<forall>c \<in> set cs. c \<noteq> []" for p cs by (induction cs arbitrary: p) auto
    then show ?thesis using lk(2) by blast
  qed
  have d: "distinct (t # xs)" "(insert t (set xs)) \<inter> set (concat bs) = {}" "distinct (concat bs)" using assms(2) b by auto
  have out: "take_out e bs = bs" by (rule take_out_none) (use d(2) assms(3) b ne in auto)
  show thesis
  proof (cases "e = t")
    case True
    have rm: "removeAll e b = xs" using True b d(1) by simp
    show thesis
    proof (cases xs)
      case Nil
      then have "nextInBin (?st t) = None" using lk(1) by simp
      then have "removeItem e (hd b) q = Inr (nextBin (?st t), q\<lparr>eq_store := ?st\<rparr>)"
        using True b by (simp add: removeItem_def)
      then show thesis by (rule that) (use lk(2) rm Nil out in \<open>simp_all add: take_out_simps\<close>)
    next
      case (Cons n ys)
      have n: "nextInBin (?st t) = Some n" "in_bin ?st (Some n) xs" using lk(1) Cons by simp_all
      let ?st' = "?st(n := (?st n)\<lparr>nextBin := nextBin (?st t)\<rparr>)"
      have run: "removeItem e (hd b) q = Inr (Some n, q\<lparr>eq_store := ?st'\<rparr>)"
        using True b n(1) by (simp add: removeItem_def)
      have rl: "relinked {n} ?st ?st'" using relinked_nextBin[OF relinked_refl, of n "{n}"] by simp
      have "in_bin ?st' (Some n) xs" using in_bin_cong[of xs ?st' ?st] n(2) by simp
      moreover have "n \<notin> set (concat bs)" using d(2) Cons by auto
      then have "bins ?st' (nextBin (?st t)) bs" using bins_frame[OF rl, of bs] lk(2) by simp
      ultimately have bb: "bins ?st' (Some n) (xs # bs)" using Cons by simp
      have tk: "take_out e (b # bs) = xs # bs" using rm Cons out by (simp add: take_out_simps)
      have rs: "relinked (set b) ?st ?st'" by (rule relinked_mono[OF rl]) (use Cons b in simp)
      show thesis by (rule that[OF run _ rs]) (simp only: tk bb)
    qed
  next
    case False
    then have ex: "e \<in> set xs" using assms(3) b by simp
    obtain us prev vs where f: "find_item q e t (nextInBin (?st t)) = Some (Inr prev)" "t # xs = us @ prev # e # vs"
      using find_item_ok[OF lk(1) ex] by blast
    let ?st' = "?st(prev := (?st prev)\<lparr>nextInBin := nextInBin (?st e)\<rparr>)"
    have run: "removeItem e (hd b) q = Inr (Some t, q\<lparr>eq_store := ?st'\<rparr>)"
      using False b f(1) by (simp add: removeItem_def)
    have pb: "prev \<in> set b" using b f(2) by simp
    have rl: "relinked {prev} ?st ?st'" using relinked_nextInBin[OF relinked_refl, of prev "{prev}"] by simp
    have "in_bin ?st (Some t) (t # xs)" using assms(1) b by simp
    then have "in_bin ?st (Some t) (us @ prev # e # vs)" by (simp only: f(2))
    then have ib: "in_bin ?st' (Some t) (us @ prev # vs)" using in_bin_unlink d(1) unfolding f(2) by blast
    have rm: "removeAll e b = us @ prev # vs" using d(1) unfolding b f(2) by (auto simp: removeAll_id)
    have h: "hd (us @ prev # vs) = t" using f(2) by (cases us) auto
    have nb: "nextBin (?st' t) = nextBin (?st t)" by simp
    have "prev \<notin> set (concat bs)" using d(2) pb b by auto
    then have "bins ?st' (nextBin (?st t)) bs" using bins_frame[OF rl, of bs] lk(2) by simp
    then have bb: "bins ?st' (Some t) ((us @ prev # vs) # bs)" using ib h nb by simp
    have tk: "take_out e (b # bs) = (us @ prev # vs) # bs" using rm out by (simp add: take_out_simps)
    have rs: "relinked (set b) ?st ?st'" by (rule relinked_mono[OF rl]) (use pb in simp)
    show thesis by (rule that[OF run _ rs]) (simp only: tk bb)
  qed
qed

lemma find_take:
  assumes "bins (eq_store q) (Some (hd b)) (b # bs)" and "keyed (key_of q) (b # bs)" and "e \<in> set (concat (b # bs))"
    and "key_of q (hd b) < key_of q e"
  shows "\<exists>prev c p st'. find_bin q (key_of q e) (hd b) (nextBin (eq_store q (hd b))) = Some (prev, Some c) \<and>
    key_of q c = key_of q e \<and> prev \<in> set (concat (b # bs)) \<and>
    removeItem e c q = Inr (p, q\<lparr>eq_store := st'\<rparr>) \<and> relinked (set (concat (b # bs))) (eq_store q) st' \<and>
    bins (st'(prev := (st' prev)\<lparr>nextBin := p\<rparr>)) (Some (hd b)) (take_out e (b # bs))"
  using assms
proof (induction bs arbitrary: b)
  case Nil
  have "same_key (key_of q) b" using Nil.prems(2) by (simp add: keyed_Cons)
  then have "key_of q e = key_of q (hd b)" using Nil.prems(3) by (intro same_keyD) simp_all
  then show ?case using Nil.prems(4) by simp
next
  case (Cons c cs)
  let ?st = "eq_store q" and ?K = "key_of q"
  have b: "b \<noteq> []" "in_bin ?st (Some (hd b)) b" "bins ?st (nextBin (?st (hd b))) (c # cs)" using Cons.prems(1) by auto
  have nb: "nextBin (?st (hd b)) = Some (hd c)" by (rule bins_hd[OF b(3)])
  have bc: "bins ?st (Some (hd c)) (c # cs)" using b(3) nb by simp
  have kb: "keyed ?K (c # cs)" "set b \<inter> set (concat (c # cs)) = {}" "same_key ?K b" "distinct b"
    using Cons.prems(2) unfolding keyed_Cons by blast+
  have eb: "e \<notin> set b" using same_keyD[OF kb(3)] Cons.prems(4) by fastforce
  then have en: "e \<in> set (concat (c # cs))" using Cons.prems(3) by simp
  have tk: "take_out e (b # c # cs) = b # take_out e (c # cs)" using b(1) eb by (simp add: take_out_def removeAll_id)
  have fin: "bins st'' (Some (hd b)) (take_out e (b # c # cs))"
    if "relinked S ?st st'" "S \<subseteq> set (concat (c # cs))" "st'' = st'(prev := (st' prev)\<lparr>nextBin := p\<rparr>)"
      "bins st'' r (take_out e (c # cs))" "nextBin (st'' (hd b)) = r" for S st' st'' prev p r
  proof -
    have "nextInBin (st'' x) = nextInBin (?st x)" if "x \<in> set b" for x
    proof -
      have "x \<notin> S" using \<open>x \<in> set b\<close> kb(2) \<open>S \<subseteq> _\<close> by blast
      then have "st' x = ?st x" using \<open>relinked S ?st st'\<close> unfolding relinked_def by blast
      moreover have "nextInBin (st'' x) = nextInBin (st' x)" using \<open>st'' = _\<close> by simp
      ultimately show ?thesis by simp
    qed
    then have "in_bin st'' (Some (hd b)) b" using in_bin_cong[of b st'' ?st] b(2) by blast
    then show ?thesis unfolding tk using b(1) \<open>bins st'' r _\<close> \<open>nextBin (st'' (hd b)) = r\<close> by simp
  qed
  show ?case
  proof (cases "?K (hd c) < ?K e")
    case True
    obtain prev d p st' where IH: "find_bin q (?K e) (hd c) (nextBin (?st (hd c))) = Some (prev, Some d)"
      "?K d = ?K e" "prev \<in> set (concat (c # cs))" "removeItem e d q = Inr (p, q\<lparr>eq_store := st'\<rparr>)"
      "relinked (set (concat (c # cs))) ?st st'"
      "bins (st'(prev := (st' prev)\<lparr>nextBin := p\<rparr>)) (Some (hd c)) (take_out e (c # cs))"
      using Cons.IH[OF bc kb(1) en True] by blast
    have hb: "hd b \<noteq> prev" "hd b \<notin> set (concat (c # cs))" using IH(3) kb(2) hd_in_set[OF b(1)] by blast+
    have "nextBin ((st'(prev := (st' prev)\<lparr>nextBin := p\<rparr>)) (hd b)) = Some (hd c)"
      using IH(5) hb nb unfolding relinked_def by simp
    from fin[OF IH(5) subset_refl refl IH(6) this]
    have r: "bins (st'(prev := (st' prev)\<lparr>nextBin := p\<rparr>)) (Some (hd b)) (take_out e (b # c # cs))" .
    have f: "find_bin q (?K e) (hd b) (nextBin (?st (hd b))) = Some (prev, Some d)"
      unfolding nb by (subst find_bin.simps) (simp add: True IH(1))
    have rl: "relinked (set (concat (b # c # cs))) ?st st'" by (rule relinked_mono[OF IH(5)]) auto
    have pr: "prev \<in> set (concat (b # c # cs))" using IH(3) by simp
    show ?thesis using f IH(2) pr IH(4) rl r by blast
  next
    case False
    have "e \<in> set c"
    proof (rule ccontr)
      assume "e \<notin> set c"
      then obtain d where d: "d \<in> set cs" "e \<in> set d" using en by auto
      have "?K (hd c) < ?K (hd d)" using kb(1) d(1) unfolding keyed_Cons by blast
      moreover have "?K e = ?K (hd d)" by (rule keyed_hd[OF kb(1)]) (use d in simp_all)
      ultimately show False using False by simp
    qed
    have "distinct (concat (c # cs))" using kb(1) unfolding keyed_def by blast
    then obtain p st' where R: "removeItem e (hd c) q = Inr (p, q\<lparr>eq_store := st'\<rparr>)" "bins st' p (take_out e (c # cs))"
      "relinked (set c) ?st st'" by (rule removeItem_ok[OF bc _ \<open>e \<in> set c\<close>])
    let ?st'' = "st'(hd b := (st' (hd b))\<lparr>nextBin := p\<rparr>)"
    have "hd b \<notin> set (concat (take_out e (c # cs)))" using kb(2) hd_in_set[OF b(1)] unfolding take_out_set by blast
    then have bs': "bins ?st'' p (take_out e (c # cs))"
      using R(2) bins_frame[of "{hd b}" st' ?st'' "take_out e (c # cs)" p] relinked_nextBin[OF relinked_refl, of "hd b" "{hd b}" st' p] by simp
    have sub: "set c \<subseteq> set (concat (c # cs))" by simp
    have r: "bins ?st'' (Some (hd b)) (take_out e (b # c # cs))" by (rule fin[OF R(3) sub refl bs']) simp
    have f: "find_bin q (?K e) (hd b) (nextBin (?st (hd b))) = Some (hd b, Some (hd c))"
      unfolding nb by (subst find_bin.simps) (simp add: False)
    have k: "?K (hd c) = ?K e" using keyed_hd[OF kb(1), of c e] \<open>e \<in> set c\<close> by simp
    have rl: "relinked (set (concat (b # c # cs))) ?st st'" by (rule relinked_mono[OF R(3)]) auto
    have pr: "hd b \<in> set (concat (b # c # cs))" using hd_in_set[OF b(1)] by simp
    show ?thesis using f k pr R(1) rl r by blast
  qed
qed

lemma eq_remove_ok:
  assumes "bins (eq_store q) (eq_head q) bs" and "keyed (key_of q) bs" and "e \<in> set (concat bs)"
  obtains st' h where "eq_remove e q = Inr (q\<lparr>eq_store := st', eq_head := h\<rparr>)" "bins st' h (take_out e bs)"
    "relinked (set (concat bs)) (eq_store q) st'"
proof -
  let ?st = "eq_store q" and ?K = "key_of q"
  obtain b cs where bs: "bs = b # cs" using assms(3) by (cases bs) auto
  have h: "eq_head q = Some (hd b)" using bins_hd[of ?st "eq_head q" b cs] assms(1) bs by simp
  have bb: "bins ?st (Some (hd b)) (b # cs)" using assms(1) h bs by simp
  have b: "b \<noteq> []" using bb by simp
  show thesis
  proof (cases "?K (hd b) = ?K e")
    case True
    have "e \<in> set b"
    proof (rule ccontr)
      assume "e \<notin> set b"
      then obtain d where d: "d \<in> set cs" "e \<in> set d" using assms(3) bs by auto
      have "?K (hd b) < ?K (hd d)" using assms(2) d(1) unfolding bs keyed_Cons by blast
      moreover have "?K e = ?K (hd d)" by (rule keyed_hd[OF assms(2)]) (use d bs in simp_all)
      ultimately show False using True by simp
    qed
    have "distinct (concat (b # cs))" using assms(2) unfolding bs keyed_def by blast
    then obtain p st' where R: "removeItem e (hd b) q = Inr (p, q\<lparr>eq_store := st'\<rparr>)" "bins st' p (take_out e (b # cs))"
      "relinked (set b) ?st st'" by (rule removeItem_ok[OF bb _ \<open>e \<in> set b\<close>])
    have run: "eq_remove e q = Inr (q\<lparr>eq_store := st', eq_head := p\<rparr>)" by (simp add: eq_remove_def h True R(1))
    have rl: "relinked (set (concat bs)) ?st st'" by (rule relinked_mono[OF R(3)]) (simp add: bs)
    show thesis by (rule that[OF run _ rl]) (use R(2) bs in simp)
  next
    case False
    have "e \<in> set (concat (b # cs))" using assms(3) bs by simp
    have lt: "?K (hd b) < ?K e"
    proof -
      obtain d where d: "d \<in> set bs" "e \<in> set d" using assms(3) by auto
      have "?K e = ?K (hd d)" by (rule keyed_hd[OF assms(2) d])
      moreover have "d = b \<or> ?K (hd b) < ?K (hd d)" using assms(2) d(1) unfolding bs keyed_Cons by auto
      ultimately show ?thesis using False by auto
    qed
    obtain prev c p st' where f: "find_bin q (?K e) (hd b) (nextBin (?st (hd b))) = Some (prev, Some c)"
      "?K c = ?K e" "prev \<in> set (concat bs)" "removeItem e c q = Inr (p, q\<lparr>eq_store := st'\<rparr>)"
      "relinked (set (concat bs)) ?st st'"
      "bins (st'(prev := (st' prev)\<lparr>nextBin := p\<rparr>)) (Some (hd b)) (take_out e bs)"
      using find_take[OF bb _ \<open>e \<in> set (concat (b # cs))\<close> lt] assms(2) unfolding bs by blast
    have run: "eq_remove e q = Inr (q\<lparr>eq_store := st'(prev := (st' prev)\<lparr>nextBin := p\<rparr>), eq_head := Some (hd b)\<rparr>)"
      using h False f(1,2,4) by (simp add: eq_remove_def)
    show thesis by (rule that[OF run f(6) relinked_nextBin[OF f(5,3)]])
  qed
qed

section \<open>The queue and its bins\<close>

text \<open>
  The pointers of the queue are the bins \<open>bs\<close>, exactly the events in them or waiting in the list of the
  other threads are scheduled, and no event of the queue is in the past.
\<close>

definition holds :: "eventq \<Rightarrow> nat list list \<Rightarrow> bool" where
  "holds q bs \<longleftrightarrow> bins (eq_store q) (eq_head q) bs \<and> keyed (key_of q) bs \<and>
     (\<forall>e. ev_scheduled (eq_store q e) \<longleftrightarrow> e \<in> set (concat bs) \<union> set (eq_async q)) \<and>
     set (concat bs) \<inter> set (eq_async q) = {} \<and> distinct (eq_async q) \<and>
     (\<forall>e \<in> set (concat bs). eq_curTick q \<le> key_when (key_of q e))"

lemma holdsD:
  assumes "holds q bs"
  shows "bins (eq_store q) (eq_head q) bs" "keyed (key_of q) bs"
    "ev_scheduled (eq_store q e) \<longleftrightarrow> e \<in> set (concat bs) \<union> set (eq_async q)"
    "set (concat bs) \<inter> set (eq_async q) = {}" "distinct (eq_async q)"
    "e \<in> set (concat bs) \<Longrightarrow> eq_curTick q \<le> key_when (key_of q e)"
  using assms unfolding holds_def by blast+

lemma holdsI:
  assumes "bins (eq_store q) (eq_head q) bs" and "keyed (key_of q) bs"
    and "\<And>e. ev_scheduled (eq_store q e) \<longleftrightarrow> e \<in> set (concat bs) \<union> set (eq_async q)"
    and "set (concat bs) \<inter> set (eq_async q) = {}" and "distinct (eq_async q)"
    and "\<And>e. e \<in> set (concat bs) \<Longrightarrow> eq_curTick q \<le> key_when (key_of q e)"
  shows "holds q bs"
  using assms unfolding holds_def by blast

lemma keyed_cong:
  assumes "\<And>x. x \<in> set (concat bs) \<Longrightarrow> K' x = K x"
  shows "keyed K' bs = keyed K bs"
  using assms
proof (induction bs)
  case (Cons b bs)
  have IH: "keyed K' bs = keyed K bs" using Cons by simp
  have b: "K' x = K x" if "x \<in> set b" for x using Cons.prems that by simp
  have h: "K' (hd b) = K (hd b)" if "b \<noteq> []" using b[OF hd_in_set[OF that]] .
  have s: "same_key K' b = same_key K b" if "b \<noteq> []" unfolding same_key_def using b h[OF that] by simp
  have c: "K' (hd c) = K (hd c)" if "c \<in> set bs" "c \<noteq> []" for c
  proof -
    have "hd c \<in> set (concat (b # bs))" using that(1) hd_in_set[OF that(2)] by auto
    then show ?thesis by (rule Cons.prems)
  qed
  have ne: "keyed K bs \<Longrightarrow> c \<in> set bs \<Longrightarrow> c \<noteq> []" for c unfolding keyed_def by blast
  show ?case
  proof (cases "b = [] \<or> \<not> keyed K bs")
    case True
    then show ?thesis unfolding keyed_Cons IH by blast
  next
    case False
    then have "(\<forall>c \<in> set bs. K' (hd b) < K' (hd c)) \<longleftrightarrow> (\<forall>c \<in> set bs. K (hd b) < K (hd c))"
      using h c ne by (metis (no_types))
    then show ?thesis using False s unfolding keyed_Cons IH by blast
  qed
qed (simp add: keyed_def)

lemma key_when_mono: "k \<le> k' \<Longrightarrow> key_when k \<le> key_when k'"
  by (auto simp: less_eq_ev_key_def)

lemma upd_flags_bins:
  assumes "\<And>x. nextBin (f x) = nextBin x" and "\<And>x. nextInBin (f x) = nextInBin x"
  shows "bins (st(e := f (st e))) p bs = bins st p bs"
  by (rule bins_cong) (auto simp: assms)

lemma eq_insert_holds:
  assumes "bins (eq_store q) (eq_head q) bs" and "keyed (key_of q) bs"
    and "\<forall>x \<in> set (concat bs). eq_curTick q \<le> key_when (key_of q x)"
    and "e \<notin> set (concat bs)" and "eq_curTick q \<le> t"
  defines "K \<equiv> (key_of q)(e := Key t (key_priority (key_of q e)))"
  obtains st' h where
    "eq_insert e (upd_event e (\<lambda>x. x\<lparr>ev_key := Key t (key_priority (ev_key x))\<rparr>) q) = Inr (q\<lparr>eq_store := st', eq_head := h\<rparr>)"
    "bins st' h (put K e bs)" "(\<lambda>x. ev_key (st' x)) = K" "\<And>x. ev_scheduled (st' x) = ev_scheduled (eq_store q x)"
    "\<And>x. ev_squashed (st' x) = ev_squashed (eq_store q x)" "keyed K (put K e bs)"
    "\<And>x. x \<in> set (concat (put K e bs)) \<Longrightarrow> eq_curTick q \<le> key_when (K x)"
proof -
  let ?q1 = "upd_event e (\<lambda>x. x\<lparr>ev_key := Key t (key_priority (ev_key x))\<rparr>) q"
  have K: "key_of ?q1 = K" by (auto simp: K_def)
  have b: "bins (eq_store ?q1) (eq_head ?q1) bs" using assms(1) upd_flags_bins[of "\<lambda>x. x\<lparr>ev_key := Key t (key_priority (ev_key x))\<rparr>"] by simp
  have "keyed K bs = keyed (key_of q) bs" by (rule keyed_cong) (use assms(4) in \<open>auto simp: K_def\<close>)
  then have kd: "keyed K bs" using assms(2) by simp
  have kd1: "keyed (key_of ?q1) bs" unfolding K by (rule kd)
  obtain st' h where R: "eq_insert e ?q1 = Inr (?q1\<lparr>eq_store := st', eq_head := h\<rparr>)" "bins st' h (put (key_of ?q1) e bs)"
    "relinked (insert e (set (concat bs))) (eq_store ?q1) st'"
    by (rule eq_insert_ok[OF b kd1 assms(4)])
  note keep = relinked_keep[OF R(3)]
  have tm: "eq_curTick q \<le> key_when (K x)" if "x \<in> set (concat (put K e bs))" for x
  proof (cases "x = e")
    case True
    then show ?thesis using assms(5) by (simp add: K_def)
  next
    case False
    then have "x \<in> set (concat bs)" using that unfolding put_set by blast
    then show ?thesis using bspec[OF assms(3), of x] False by (simp add: K_def)
  qed
  have kk: "(\<lambda>x. ev_key (st' x)) = K" by (rule ext) (use keep(1) fun_cong[OF K] in simp)
  have sc: "ev_scheduled (st' x) = ev_scheduled (eq_store q x)" "ev_squashed (st' x) = ev_squashed (eq_store q x)" for x
    using keep(2,3)[of x] by (auto split: if_splits)
  have run: "eq_insert e ?q1 = Inr (q\<lparr>eq_store := st', eq_head := h\<rparr>)" using R(1) by simp
  have pb: "bins st' h (put K e bs)" using R(2) unfolding K .
  show thesis by (rule that[OF run pb kk sc(1) sc(2) put_keyed[OF kd assms(4)] tm])
qed

lemma schedule_holds:
  assumes "holds q bs" and "\<not> ev_scheduled (eq_store q e)" and "eq_curTick q \<le> t"
  defines "K \<equiv> (key_of q)(e := Key t (key_priority (key_of q e)))"
  shows "\<exists>q'. eq_schedule False e t q = Inr q' \<and> key_of q' = K \<and> holds q' (put K e bs) \<and>
    eq_curTick q' = eq_curTick q \<and> eq_async q' = eq_async q"
proof -
  have en: "e \<notin> set (concat bs)" "e \<notin> set (eq_async q)" using holdsD(3)[OF assms(1), of e] assms(2) by blast+
  have tm: "\<forall>x \<in> set (concat bs). eq_curTick q \<le> key_when (key_of q x)" using holdsD(6)[OF assms(1)] by blast
  obtain st' h where R: "eq_insert e (upd_event e (\<lambda>x. x\<lparr>ev_key := Key t (key_priority (ev_key x))\<rparr>) q) = Inr (q\<lparr>eq_store := st', eq_head := h\<rparr>)"
    "bins st' h (put K e bs)" "(\<lambda>x. ev_key (st' x)) = K" "\<And>x. ev_scheduled (st' x) = ev_scheduled (eq_store q x)"
    "keyed K (put K e bs)" "\<And>x. x \<in> set (concat (put K e bs)) \<Longrightarrow> eq_curTick q \<le> key_when (K x)"
    by (rule eq_insert_holds[OF holdsD(1,2)[OF assms(1)] tm en(1) assms(3), folded K_def], rule that)
  let ?q' = "upd_event e (\<lambda>x. x\<lparr>ev_scheduled := True\<rparr>) (q\<lparr>eq_store := st', eq_head := h\<rparr>)"
  have run: "eq_schedule False e t q = Inr ?q'" using R(1) assms(2,3) by (simp add: eq_schedule_def Let_def)
  have K: "key_of ?q' = K" using R(3) by (auto simp: fun_eq_iff)
  have "holds ?q' (put K e bs)"
  proof (rule holdsI)
    show "bins (eq_store ?q') (eq_head ?q') (put K e bs)"
      using R(2) upd_flags_bins[of "\<lambda>x. x\<lparr>ev_scheduled := True\<rparr>" st' e h] by simp
    show "keyed (key_of ?q') (put K e bs)" unfolding K by (rule R(5))
    show "ev_scheduled (eq_store ?q' x) \<longleftrightarrow> x \<in> set (concat (put K e bs)) \<union> set (eq_async ?q')" for x
      using R(4)[of x] holdsD(3)[OF assms(1), of x] unfolding put_set by auto
    show "set (concat (put K e bs)) \<inter> set (eq_async ?q') = {}" using holdsD(4)[OF assms(1)] en(2) unfolding put_set by simp
    show "distinct (eq_async ?q')" using holdsD(5)[OF assms(1)] by simp
    show "eq_curTick ?q' \<le> key_when (key_of ?q' x)" if "x \<in> set (concat (put K e bs))" for x
      using R(6)[OF that] fun_cong[OF R(3), of x] by (cases "x = e") simp_all
  qed
  then show ?thesis using run K by (intro exI[of _ ?q'] conjI) simp_all
qed

lemma eq_remove_holds:
  assumes "holds q bs" and "e \<in> set (concat bs)"
  obtains st' h where "eq_remove e q = Inr (q\<lparr>eq_store := st', eq_head := h\<rparr>)" "bins st' h (take_out e bs)"
    "(\<lambda>x. ev_key (st' x)) = key_of q" "\<And>x. ev_scheduled (st' x) = ev_scheduled (eq_store q x)" "keyed (key_of q) (take_out e bs)"
proof -
  obtain st' h where R: "eq_remove e q = Inr (q\<lparr>eq_store := st', eq_head := h\<rparr>)" "bins st' h (take_out e bs)"
    "relinked (set (concat bs)) (eq_store q) st'"
    by (rule eq_remove_ok[OF holdsD(1,2)[OF assms(1)] assms(2)])
  show thesis
    by (rule that[OF R(1,2) _ relinked_keep(2)[OF R(3)] take_out_keyed[OF holdsD(2)[OF assms(1)]]])
      (use relinked_keep(1)[OF R(3)] in auto)
qed

lemma holds_unlinked:
  assumes "holds q bs" and "e \<in> set (concat bs)" and "bins st' h (take_out e bs)" and "(\<lambda>x. ev_key (st' x)) = key_of q"
    and "\<And>x. ev_scheduled (st' x) \<longleftrightarrow> ev_scheduled (eq_store q x) \<and> x \<noteq> e"
    and "q' = q\<lparr>eq_store := st', eq_head := h, eq_deleted := d\<rparr>"
  shows "holds q' (take_out e bs)"
proof (rule holdsI)
  have K: "key_of q' = key_of q" using assms(4,6) by simp
  show "bins (eq_store q') (eq_head q') (take_out e bs)" using assms(3,6) by simp
  show "keyed (key_of q') (take_out e bs)" unfolding K by (rule take_out_keyed[OF holdsD(2)[OF assms(1)]])
  have "e \<notin> set (eq_async q)" using holdsD(4)[OF assms(1)] assms(2) by blast
  then show "ev_scheduled (eq_store q' x) \<longleftrightarrow> x \<in> set (concat (take_out e bs)) \<union> set (eq_async q')" for x
    using assms(5)[of x] holdsD(3)[OF assms(1), of x] assms(6) unfolding take_out_set by auto
  show "set (concat (take_out e bs)) \<inter> set (eq_async q') = {}" using holdsD(4)[OF assms(1)] assms(6) unfolding take_out_set by auto
  show "distinct (eq_async q')" using holdsD(5)[OF assms(1)] assms(6) by simp
  show "eq_curTick q' \<le> key_when (key_of q' x)" if "x \<in> set (concat (take_out e bs))" for x
    using holdsD(6)[OF assms(1), of x] that assms(6) fun_cong[OF assms(4), of x] unfolding take_out_set by simp
qed

lemma deschedule_holds:
  assumes "holds q bs" and "e \<in> set (concat bs)"
  shows "\<exists>q'. eq_deschedule e q = Inr q' \<and> key_of q' = key_of q \<and> holds q' (take_out e bs) \<and>
    eq_curTick q' = eq_curTick q \<and> eq_async q' = eq_async q"
proof -
  obtain st' h where R: "eq_remove e q = Inr (q\<lparr>eq_store := st', eq_head := h\<rparr>)" "bins st' h (take_out e bs)"
    "(\<lambda>x. ev_key (st' x)) = key_of q" "\<And>x. ev_scheduled (st' x) = ev_scheduled (eq_store q x)"
    "keyed (key_of q) (take_out e bs)" by (rule eq_remove_holds[OF assms], rule that)
  let ?f = "\<lambda>x. x\<lparr>ev_squashed := False, ev_scheduled := False\<rparr> :: event"
  let ?st = "st'(e := ?f (st' e))"
  define q' where "q' = release e (upd_event e ?f (q\<lparr>eq_store := st', eq_head := h\<rparr>))"
  obtain d where q': "q' = q\<lparr>eq_store := ?st, eq_head := h, eq_deleted := d\<rparr>"
    by (rule that[of "if ev_managed (st' e) then insert e (eq_deleted q) else eq_deleted q"])
      (cases q, simp add: q'_def release_def)
  have "ev_scheduled (eq_store q e)" using holdsD(3)[OF assms(1), of e] assms(2) by blast
  then have run: "eq_deschedule e q = Inr q'" using R(1) by (simp add: eq_deschedule_def q'_def)
  have K: "(\<lambda>x. ev_key (?st x)) = key_of q" using R(3) by (auto simp: fun_eq_iff)
  have "bins ?st h (take_out e bs)" using R(2) upd_flags_bins[of ?f st' e h] by simp
  moreover have "ev_scheduled (?st x) \<longleftrightarrow> ev_scheduled (eq_store q x) \<and> x \<noteq> e" for x using R(4)[of x] by simp
  ultimately have "holds q' (take_out e bs)" by (rule holds_unlinked[OF assms _ K _ q'])
  moreover have "key_of q' = key_of q" using K by (simp add: q')
  moreover have "eq_curTick q' = eq_curTick q" "eq_async q' = eq_async q" by (simp_all add: q')
  ultimately show ?thesis using run by blast
qed

lemma reschedule_holds:
  assumes "holds q bs" and "e \<in> set (concat bs) \<or> always \<and> \<not> ev_scheduled (eq_store q e)" and "eq_curTick q \<le> t"
  defines "K \<equiv> (key_of q)(e := Key t (key_priority (key_of q e)))"
  shows "\<exists>q'. eq_reschedule e t always q = Inr q' \<and> key_of q' = K \<and> holds q' (put K e (take_out e bs)) \<and>
    eq_curTick q' = eq_curTick q \<and> eq_async q' = eq_async q"
proof -
  have en: "e \<notin> set (eq_async q)" using assms(2) holdsD(3)[OF assms(1), of e] holdsD(4)[OF assms(1)] by blast
  have sch: "ev_scheduled (eq_store q e) \<longleftrightarrow> e \<in> set (concat bs)" using holdsD(3)[OF assms(1), of e] en by blast
  obtain st1 h1 where R1: "(if ev_scheduled (eq_store q e) then eq_remove e q else Inr q) = Inr (q\<lparr>eq_store := st1, eq_head := h1\<rparr>)"
    "bins st1 h1 (take_out e bs)" "(\<lambda>x. ev_key (st1 x)) = key_of q" "\<And>x. ev_scheduled (st1 x) = ev_scheduled (eq_store q x)"
    "keyed (key_of q) (take_out e bs)"
  proof (cases "e \<in> set (concat bs)")
    case True
    obtain st' h where R: "eq_remove e q = Inr (q\<lparr>eq_store := st', eq_head := h\<rparr>)" "bins st' h (take_out e bs)"
      "(\<lambda>x. ev_key (st' x)) = key_of q" "\<And>x. ev_scheduled (st' x) = ev_scheduled (eq_store q x)" "keyed (key_of q) (take_out e bs)"
      by (rule eq_remove_holds[OF assms(1) True], rule that)
    show thesis by (rule that[OF _ R(2-5)]) (use R(1) sch True in simp)
  next
    case False
    have "\<forall>b \<in> set bs. b \<noteq> []" using holdsD(2)[OF assms(1)] unfolding keyed_def by blast
    then have "take_out e bs = bs" using take_out_none[OF False] by blast
    then show thesis using that[of "eq_head q" "eq_store q"] holdsD(1,2)[OF assms(1)] sch False by simp
  qed
  define q1 where "q1 = q\<lparr>eq_store := st1, eq_head := h1\<rparr>"
  have q1: "bins (eq_store q1) (eq_head q1) (take_out e bs)" "keyed (key_of q1) (take_out e bs)" "key_of q1 = key_of q"
    "eq_curTick q1 = eq_curTick q" "eq_async q1 = eq_async q" "\<And>x. ev_scheduled (eq_store q1 x) = ev_scheduled (eq_store q x)"
    using R1(2-5) by (simp_all add: q1_def)
  have kx: "key_of q1 x = key_of q x" for x using fun_cong[OF q1(3), of x] .
  have out: "e \<notin> set (concat (take_out e bs))" unfolding take_out_set by simp
  have tm: "\<forall>x \<in> set (concat (take_out e bs)). eq_curTick q1 \<le> key_when (key_of q1 x)"
    using holdsD(6)[OF assms(1)] unfolding take_out_set q1(4) kx by blast
  have t1: "eq_curTick q1 \<le> t" using assms(3) q1(4) by simp
  have K1: "(key_of q1)(e := Key t (key_priority (key_of q1 e))) = K" by (rule ext) (simp add: K_def kx)
  obtain st' h where R: "eq_insert e (upd_event e (\<lambda>x. x\<lparr>ev_key := Key t (key_priority (ev_key x))\<rparr>) q1) = Inr (q1\<lparr>eq_store := st', eq_head := h\<rparr>)"
    "bins st' h (put K e (take_out e bs))" "(\<lambda>x. ev_key (st' x)) = K" "\<And>x. ev_scheduled (st' x) = ev_scheduled (eq_store q1 x)"
    "keyed K (put K e (take_out e bs))" "\<And>x. x \<in> set (concat (put K e (take_out e bs))) \<Longrightarrow> eq_curTick q1 \<le> key_when (K x)"
    by (rule eq_insert_holds[OF q1(1,2) tm out t1, unfolded K1], rule that)
  let ?f = "\<lambda>x. x\<lparr>ev_squashed := False, ev_scheduled := True\<rparr> :: event"
  let ?q' = "upd_event e ?f (q1\<lparr>eq_store := st', eq_head := h\<rparr>)"
  have run: "eq_reschedule e t always q = Inr ?q'"
    using R1(1) R(1) assms(2,3) sch unfolding q1_def[symmetric] by (auto simp: eq_reschedule_def)
  have kx': "key_of ?q' x = K x" for x using fun_cong[OF R(3), of x] by (cases "x = e") simp_all
  have "holds ?q' (put K e (take_out e bs))"
  proof (rule holdsI)
    show "bins (eq_store ?q') (eq_head ?q') (put K e (take_out e bs))"
      using R(2) upd_flags_bins[of ?f st' e h] by simp
    show "keyed (key_of ?q') (put K e (take_out e bs))" using R(5) kx' by presburger
    show "ev_scheduled (eq_store ?q' x) \<longleftrightarrow> x \<in> set (concat (put K e (take_out e bs))) \<union> set (eq_async ?q')" for x
      using R(4)[of x] q1(5) q1(6)[of x] holdsD(3)[OF assms(1), of x] unfolding put_set take_out_set by auto
    show "set (concat (put K e (take_out e bs))) \<inter> set (eq_async ?q') = {}"
      using holdsD(4)[OF assms(1)] en q1(5) unfolding put_set take_out_set by auto
    show "distinct (eq_async ?q')" using holdsD(5)[OF assms(1)] q1(5) by simp
    show "eq_curTick ?q' \<le> key_when (key_of ?q' x)" if "x \<in> set (concat (put K e (take_out e bs)))" for x
      using R(6)[OF that] kx'[of x] by simp
  qed
  moreover have "key_of ?q' = K" by (rule ext) (rule kx')
  ultimately show ?thesis using run q1(4,5) by (intro exI[of _ ?q'] conjI) simp_all
qed

section \<open>Running events\<close>

lemma holds_release: "holds (release e q) bs = holds q bs"
  by (simp add: holds_def release_def)

lemma release_simps [simp]:
  "eq_curTick (release e q) = eq_curTick q" "eq_async (release e q) = eq_async q" "eq_store (release e q) = eq_store q"
  by (simp_all add: release_def)

lemma holds_squash:
  assumes "holds q bs"
  shows "holds (upd_event e (\<lambda>x. x\<lparr>ev_squashed := False\<rparr>) q) bs"
proof -
  have "key_of (upd_event e (\<lambda>x. x\<lparr>ev_squashed := False\<rparr>) q) = key_of q" by auto
  then show ?thesis using assms upd_flags_bins[of "\<lambda>x. x\<lparr>ev_squashed := False\<rparr>" "eq_store q" e "eq_head q" bs]
    unfolding holds_def by (auto simp: fun_eq_iff)
qed

lemma holds_least: "holds q (b # bs) \<Longrightarrow> x \<in> set (concat (b # bs)) \<Longrightarrow> key_of q (hd b) \<le> key_of q x"
proof -
  assume h: "holds q (b # bs)" and x: "x \<in> set (concat (b # bs))"
  note kd = holdsD(2)[OF h]
  obtain d where d: "d \<in> set (b # bs)" "x \<in> set d" using x by auto
  have "key_of q x = key_of q (hd d)" by (rule keyed_hd[OF kd d])
  moreover have "d = b \<or> key_of q (hd b) < key_of q (hd d)" using kd d(1) unfolding keyed_Cons by auto
  ultimately show ?thesis by auto
qed

lemma pop_head_holds:
  assumes "holds q (b # bs)"
  defines "h \<equiv> hd b" and "q1 \<equiv> (pop_head (hd b) q)\<lparr>eq_curTick := key_when (key_of q (hd b))\<rparr>"
  shows "eq_head q = Some h" "holds (pop_head h q) (take_out h (b # bs))" "holds q1 (take_out h (b # bs))"
    "key_of (pop_head h q) = key_of q" "\<And>x. ev_squashed (eq_store (pop_head h q) x) = ev_squashed (eq_store q x)"
    "eq_async (pop_head h q) = eq_async q" "eq_curTick (pop_head h q) = eq_curTick q" "\<not> ev_scheduled (eq_store (pop_head h q) h)"
proof -
  let ?st = "eq_store q"
  note H = holdsD[OF assms(1)]
  show hd: "eq_head q = Some h" unfolding h_def by (rule bins_hd[OF H(1)])
  obtain xs where b: "b = h # xs" using H(1) unfolding h_def by (cases b) auto
  have hx: "h \<in> set (concat (b # bs))" using b by simp
  have kd: "distinct (h # xs)" "h \<notin> set (concat bs)" "set xs \<inter> set (concat bs) = {}" "keyed (key_of q) bs"
    using H(2) b unfolding keyed_Cons by auto
  have lk: "in_bin ?st (nextInBin (?st h)) xs" "bins ?st (nextBin (?st h)) bs" using H(1) b by simp_all
  have out: "take_out h bs = bs"
  proof (rule take_out_none[OF kd(2)])
    show "\<forall>b \<in> set bs. b \<noteq> []" using kd(4) unfolding keyed_def by blast
  qed
  let ?f = "\<lambda>x. x\<lparr>ev_scheduled := False\<rparr> :: event"
  obtain st' p where P: "pop_head h q = q\<lparr>eq_store := st', eq_head := p\<rparr>" "bins st' p (take_out h (b # bs))"
    "\<And>x. ev_key (st' x) = ev_key (?st x)" "\<And>x. ev_scheduled (st' x) \<longleftrightarrow> ev_scheduled (?st x) \<and> x \<noteq> h"
    "\<And>x. ev_squashed (st' x) = ev_squashed (?st x)"
  proof (cases xs)
    case Nil
    let ?st' = "?st(h := ?f (?st h))"
    have n: "nextInBin (?st h) = None" using lk(1) Nil by simp
    have run: "pop_head h q = q\<lparr>eq_store := ?st', eq_head := nextBin (?st h)\<rparr>" by (simp add: pop_head_def n)
    have "bins ?st' (nextBin (?st h)) (take_out h (b # bs))"
      using lk(2) out b Nil upd_flags_bins[of ?f ?st h] by (simp add: take_out_simps)
    then show thesis by (rule that[OF run]) auto
  next
    case (Cons n ys)
    have n: "nextInBin (?st h) = Some n" "n \<noteq> h" "n \<notin> set (concat bs)" using lk(1) Cons kd by auto
    let ?st1 = "?st(h := ?f (?st h))"
    let ?st' = "?st1(n := (?st1 n)\<lparr>nextBin := nextBin (?st h)\<rparr>)"
    have run: "pop_head h q = q\<lparr>eq_store := ?st', eq_head := Some n\<rparr>"
      using n by (simp add: pop_head_def Let_def)
    have rl: "relinked {n} ?st1 ?st'" using relinked_nextBin[OF relinked_refl, of n "{n}" ?st1] by simp
    have i1: "in_bin ?st' (Some n) xs"
    proof -
      have "in_bin ?st' (Some n) xs = in_bin ?st (Some n) xs" by (rule in_bin_cong) auto
      then show ?thesis using lk(1) n(1) by simp
    qed
    have "bins ?st' (nextBin (?st h)) bs = bins ?st1 (nextBin (?st h)) bs" by (rule bins_frame[OF rl]) (use n(3) in simp)
    then have i2: "bins ?st' (nextBin (?st h)) bs" using lk(2) upd_flags_bins[of ?f ?st h] by simp
    have tk: "take_out h (b # bs) = xs # bs" using b kd(1) out Cons by (simp add: take_out_simps)
    have "bins ?st' (Some n) (take_out h (b # bs))" unfolding tk using i1 i2 Cons by simp
    then show thesis by (rule that[OF run]) (use n(2) in auto)
  qed
  have K: "(\<lambda>x. ev_key (st' x)) = key_of q" using P(3) by auto
  have ho: "holds (pop_head h q) (take_out h (b # bs))"
    by (rule holds_unlinked[OF assms(1) hx P(2) K P(4), of _ "eq_deleted q"]) (simp add: P(1))
  then show "holds (pop_head h q) (take_out h (b # bs))" .
  show "key_of (pop_head h q) = key_of q" using P(1,3) by simp
  show "ev_squashed (eq_store (pop_head h q) x) = ev_squashed (eq_store q x)" for x using P(1,5) by simp
  show "eq_async (pop_head h q) = eq_async q" "eq_curTick (pop_head h q) = eq_curTick q" by (simp_all add: P(1))
  show "\<not> ev_scheduled (eq_store (pop_head h q) h)" using P(1,4) by simp
  have q1: "q1 = (pop_head h q)\<lparr>eq_curTick := key_when (key_of q h)\<rparr>" by (simp add: q1_def h_def)
  show "holds q1 (take_out h (b # bs))"
  proof (rule holdsI)
    show "eq_curTick q1 \<le> key_when (key_of q1 x)" if "x \<in> set (concat (take_out h (b # bs)))" for x
    proof -
      have "x \<in> set (concat (b # bs))" using that unfolding take_out_set by blast
      then have "key_of q h \<le> key_of q x" using holds_least[OF assms(1)] unfolding h_def by blast
      then show ?thesis using key_when_mono P(1,3) by (simp add: q1)
    qed
  qed (use holdsD[OF ho] in \<open>simp_all add: q1\<close>)
qed

text \<open>
  A handler that is sound up to tick \<open>t\<close> returns, keeps the queue a queue and does not set the clock; it
  is patient if it does not add events at or before \<open>t\<close>.
\<close>

definition due :: "tick \<Rightarrow> eventq \<Rightarrow> nat set" where
  "due t q = {x. ev_scheduled (eq_store q x) \<and> x \<notin> set (eq_async q) \<and> key_when (key_of q x) \<le> t}"

definition sound_process :: "tick \<Rightarrow> (nat \<Rightarrow> eventq \<Rightarrow> eventq res) \<Rightarrow> bool" where
  "sound_process t process \<longleftrightarrow> (\<forall>e q bs. holds q bs \<longrightarrow> \<not> ev_scheduled (eq_store q e) \<longrightarrow> eq_curTick q \<le> t \<longrightarrow>
     (\<exists>q' bs'. process e q = Inr q' \<and> holds q' bs' \<and> eq_curTick q' = eq_curTick q))"

definition patient :: "tick \<Rightarrow> (nat \<Rightarrow> eventq \<Rightarrow> eventq res) \<Rightarrow> bool" where
  "patient t process \<longleftrightarrow> (\<forall>e q bs q'. holds q bs \<longrightarrow> \<not> ev_scheduled (eq_store q e) \<longrightarrow> eq_curTick q \<le> t \<longrightarrow>
     process e q = Inr q' \<longrightarrow> due t q' \<subseteq> due t q)"

lemma due_holds: "holds q bs \<Longrightarrow> due t q = {x \<in> set (concat bs). key_when (key_of q x) \<le> t}"
  using holdsD(3,4)[of q bs] unfolding due_def by blast

lemma serviceOne_ok:
  assumes "holds q (b # bs)" and "sound_process t process" and "key_when (key_of q (hd b)) \<le> t"
  obtains r q' bs' where "serviceOne process q = Inr (r, q')" "holds q' bs'"
    "eq_curTick q' = (if ev_squashed (eq_store q (hd b)) then eq_curTick q else key_when (key_of q (hd b)))"
    "ev_squashed (eq_store q (hd b)) \<Longrightarrow> r = None \<and> bs' = take_out (hd b) (b # bs)"
    "patient t process \<Longrightarrow> due t q' \<subseteq> due t q - {hd b}"
proof -
  let ?h = "hd b" and ?q1 = "pop_head (hd b) q"
  note P = pop_head_holds[OF assms(1)]
  have kx: "key_of ?q1 x = key_of q x" for x using fun_cong[OF P(4)] .
  have due1: "due t ?q1 = due t q - {?h}"
    unfolding due_holds[OF P(2)] due_holds[OF assms(1)] take_out_set kx by auto
  have run: "serviceOne process q =
     (if \<not> ev_squashed (eq_store ?q1 ?h)
          then rbind (process ?h (?q1\<lparr>eq_curTick := key_when (key_of ?q1 ?h)\<rparr>)) (\<lambda>q2.
               if ev_exit (eq_store q2 ?h) then Inr (Some ?h, q2) else Inr (None, release ?h q2))
          else Inr (None, release ?h (upd_event ?h (\<lambda>x. x\<lparr>ev_squashed := False\<rparr>) ?q1)))"
    by (simp add: serviceOne_def P(1) Let_def)
  have kh: "key_of ?q1 ?h = key_of q ?h" using fun_cong[OF P(4)] .
  show thesis
  proof (cases "ev_squashed (eq_store q ?h)")
    case True
    let ?q' = "release ?h (upd_event ?h (\<lambda>x. x\<lparr>ev_squashed := False\<rparr>) ?q1)"
    have "holds ?q' (take_out ?h (b # bs))" unfolding holds_release by (rule holds_squash[OF P(2)])
    moreover have "due t ?q' = due t ?q1" by (auto simp: due_def)
    ultimately show thesis using run True P(5,7) due1 by (intro that[of None ?q' "take_out ?h (b # bs)"]) simp_all
  next
    case False
    let ?q2 = "?q1\<lparr>eq_curTick := key_when (key_of q ?h)\<rparr>"
    have pre: "holds ?q2 (take_out ?h (b # bs))" "\<not> ev_scheduled (eq_store ?q2 ?h)" "eq_curTick ?q2 \<le> t"
      using P(3,8) assms(3) by simp_all
    obtain q3 bs' where S: "process ?h ?q2 = Inr q3" "holds q3 bs'" "eq_curTick q3 = eq_curTick ?q2"
      using assms(2) pre unfolding sound_process_def by blast
    have d: "due t q3 \<subseteq> due t q - {?h}" if "patient t process"
    proof -
      have "due t q3 \<subseteq> due t ?q2" using that pre S(1) unfolding patient_def by blast
      moreover have "due t ?q2 = due t ?q1" by (simp add: due_def)
      ultimately show ?thesis using due1 by simp
    qed
    define q' where "q' = (if ev_exit (eq_store q3 ?h) then q3 else release ?h q3)"
    have "serviceOne process q = Inr (if ev_exit (eq_store q3 ?h) then Some ?h else None, q')"
      using run False P(5) S(1) kh by (simp add: q'_def)
    moreover have "holds q' bs'" "eq_curTick q' = eq_curTick q3" using S(2) by (simp_all add: q'_def holds_release)
    moreover have "due t q' = due t q3" by (simp add: q'_def due_def)
    ultimately show thesis using False S(3) d
      by (intro that[of "if ev_exit (eq_store q3 ?h) then Some ?h else None" q' bs']) simp_all
  qed
qed

lemma service_loop_ok:
  assumes "holds q bs" and "sound_process t process" and "patient t process" and "eq_curTick q \<le> t"
  shows "\<exists>q' bs'. service_loop process t q = Some (Inr q') \<and> holds q' bs' \<and> eq_curTick q' \<le> t \<and> due t q' = {}"
  using assms(1,4)
proof (induction "card (due t q)" arbitrary: q bs rule: less_induct)
  case less
  show ?case
  proof (cases bs)
    case Nil
    then have "eq_head q = None" using holdsD(1)[OF less.prems(1)] by simp
    moreover have "due t q = {}" unfolding due_holds[OF less.prems(1)] Nil by simp
    ultimately show ?thesis using less.prems by (subst service_loop.simps) auto
  next
    case (Cons b cs)
    have H: "holds q (b # cs)" using less.prems(1) Cons by simp
    have h: "eq_head q = Some (hd b)" by (rule bins_hd[OF holdsD(1)[OF H]])
    show ?thesis
    proof (cases "t < key_when (key_of q (hd b))")
      case True
      have "t < key_when (key_of q x)" if "x \<in> set (concat (b # cs))" for x
        using key_when_mono[OF holds_least[OF H that]] True by simp
      then have "due t q = {}" unfolding due_holds[OF H] by fastforce
      then show ?thesis using less.prems h True by (subst service_loop.simps) auto
    next
      case False
      then have le: "key_when (key_of q (hd b)) \<le> t" by simp
      obtain r q' bs' where S: "serviceOne process q = Inr (r, q')" "holds q' bs'"
        "eq_curTick q' = (if ev_squashed (eq_store q (hd b)) then eq_curTick q else key_when (key_of q (hd b)))"
        "due t q' \<subseteq> due t q - {hd b}"
        by (rule serviceOne_ok[OF H assms(2) le]) (use that assms(3) in blast)
      have "hd b \<in> due t q" unfolding due_holds[OF H] using le holdsD(1)[OF H] by (cases b) auto
      moreover have fin: "finite (due t q)" unfolding due_holds[OF H] by simp
      ultimately have "card (due t q') < card (due t q)" using S(4) by (intro psubset_card_mono) blast+
      moreover have "eq_curTick q' \<le> t" using S(3) le less.prems(2) by simp
      ultimately obtain q'' bs'' where "service_loop process t q' = Some (Inr q'')" "holds q'' bs''" "eq_curTick q'' \<le> t" "due t q'' = {}"
        using less.hyps[OF _ S(2)] by blast
      moreover have "service_loop process t q = service_loop process t q'"
        by (subst service_loop.simps) (simp add: h False S(1))
      ultimately show ?thesis by metis
    qed
  qed
qed

section \<open>Events of other threads and the destructor\<close>

lemma insert_all_holds:
  assumes "holds q bs" and "\<forall>e \<in> set (eq_async q). eq_curTick q \<le> key_when (key_of q e)"
  shows "\<exists>q'. insert_all (eq_async q) q = Inr q' \<and> holds q' (fold (put (key_of q)) (eq_async q) bs) \<and>
    key_of q' = key_of q \<and> eq_async q' = [] \<and> eq_curTick q' = eq_curTick q"
proof -
  have "\<exists>q'. insert_all es q = Inr q' \<and> holds q' (fold (put (key_of q)) es bs) \<and>
    key_of q' = key_of q \<and> eq_async q' = [] \<and> eq_curTick q' = eq_curTick q"
    if "holds q bs" "\<forall>e \<in> set (eq_async q). eq_curTick q \<le> key_when (key_of q e)" "es = eq_async q" for es
    using that
  proof (induction es arbitrary: q bs)
    case Nil
    then show ?case by simp
  next
    case (Cons e es)
    note H = holdsD[OF Cons.prems(1)]
    let ?q0 = "q\<lparr>eq_async := es\<rparr>"
    have a: "eq_async q = e # es" using Cons.prems(3) by simp
    have en: "e \<notin> set (concat bs)" "e \<notin> set es" using H(4,5) a by auto
    have b: "bins (eq_store ?q0) (eq_head ?q0) bs" "keyed (key_of ?q0) bs" using H(1,2) by simp_all
    obtain st' h where R: "eq_insert e ?q0 = Inr (?q0\<lparr>eq_store := st', eq_head := h\<rparr>)" "bins st' h (put (key_of ?q0) e bs)"
      "relinked (insert e (set (concat bs))) (eq_store ?q0) st'"
      by (rule eq_insert_ok[OF b en(1)])
    let ?q1 = "?q0\<lparr>eq_store := st', eq_head := h\<rparr>"
    have K: "key_of ?q1 = key_of q" by (rule ext) (use relinked_keep(1)[OF R(3)] in simp)
    have tm: "eq_curTick q \<le> key_when (key_of q x)" if "x \<in> set (concat (put (key_of q) e bs))" for x
      using that H(6)[of x] bspec[OF Cons.prems(2), of e] a unfolding put_set by auto
    have "holds ?q1 (put (key_of q) e bs)"
    proof (rule holdsI)
      show "bins (eq_store ?q1) (eq_head ?q1) (put (key_of q) e bs)" using R(2) by simp
      show "keyed (key_of ?q1) (put (key_of q) e bs)" unfolding K by (rule put_keyed[OF H(2) en(1)])
      show "ev_scheduled (eq_store ?q1 x) \<longleftrightarrow> x \<in> set (concat (put (key_of q) e bs)) \<union> set (eq_async ?q1)" for x
        using relinked_keep(2)[OF R(3), of x] H(3)[of x] a unfolding put_set by auto
      show "set (concat (put (key_of q) e bs)) \<inter> set (eq_async ?q1) = {}" using H(4) a en(2) unfolding put_set by auto
      show "distinct (eq_async ?q1)" using H(5) a by simp
      show "eq_curTick ?q1 \<le> key_when (key_of ?q1 x)" if "x \<in> set (concat (put (key_of q) e bs))" for x
        using tm[OF that] fun_cong[OF K, of x] by simp
    qed
    moreover have "\<forall>x \<in> set (eq_async ?q1). eq_curTick ?q1 \<le> key_when (key_of ?q1 x)"
    proof
      fix x assume x: "x \<in> set (eq_async ?q1)"
      show "eq_curTick ?q1 \<le> key_when (key_of ?q1 x)" using bspec[OF Cons.prems(2), of x] x a fun_cong[OF K, of x] by simp
    qed
    moreover have "es = eq_async ?q1" by simp
    ultimately have "\<exists>q'. insert_all es ?q1 = Inr q' \<and> holds q' (fold (put (key_of ?q1)) es (put (key_of q) e bs)) \<and>
      key_of q' = key_of ?q1 \<and> eq_async q' = [] \<and> eq_curTick q' = eq_curTick ?q1" by (rule Cons.IH)
    then show ?case using R(1) unfolding K by simp
  qed
  from this[OF assms refl] show ?thesis .
qed

lemma destroy_ok:
  assumes "holds q bs"
  shows "\<exists>q'. destroy_eventq q = Some (Inr q') \<and> holds q' [] \<and> eq_async q' = eq_async q"
  using assms
proof (induction "card (set (concat bs))" arbitrary: q bs rule: less_induct)
  case less
  show ?case
  proof (cases bs)
    case Nil
    then show ?thesis using less.prems holdsD(1)[OF less.prems] by (subst destroy_eventq.simps) simp
  next
    case (Cons b cs)
    have H: "holds q (b # cs)" using less.prems Cons by simp
    have h: "eq_head q = Some (hd b)" by (rule bins_hd[OF holdsD(1)[OF H]])
    have "b \<noteq> []" using holdsD(1)[OF H] by simp
    then have m: "hd b \<in> set (concat bs)" unfolding Cons by simp
    obtain q1 where q1: "eq_deschedule (hd b) q = Inr q1" "holds q1 (take_out (hd b) bs)" "eq_async q1 = eq_async q"
      using deschedule_holds[OF less.prems m] by blast
    have "card (set (concat (take_out (hd b) bs))) < card (set (concat bs))"
      unfolding take_out_set using m by (intro psubset_card_mono) (auto simp del: set_concat)
    then obtain q' where "destroy_eventq q1 = Some (Inr q')" "holds q' []" "eq_async q' = eq_async q1"
      using less.hyps[OF _ q1(2)] by blast
    then show ?thesis using h q1 by (subst destroy_eventq.simps) simp
  qed
qed

section \<open>Properties\<close>

text \<open>
  C24. The pointer structure implements the list of bins: on a queue that holds the bins \<open>bs\<close>, scheduling an
  event that is not scheduled, descheduling and rescheduling one of the queue return (no loop runs forever,
  no event is missed, no stale pointer is followed), and the queue then holds the bins with the event put on
  top of the bin of its tick and priority, taken out, or both. The events of other threads are put in one
  after the other.
\<close>

theorem event_queue_refines:
  assumes "holds q bs"
  defines "K \<equiv> \<lambda>e t. (key_of q)(e := Key t (key_priority (key_of q e)))"
  shows "(\<forall>e t. \<not> ev_scheduled (eq_store q e) \<and> eq_curTick q \<le> t \<longrightarrow>
       (\<exists>q'. eq_schedule False e t q = Inr q' \<and> key_of q' = K e t \<and> holds q' (put (K e t) e bs))) \<and>
    (\<forall>e \<in> set (concat bs). \<exists>q'. eq_deschedule e q = Inr q' \<and> key_of q' = key_of q \<and> holds q' (take_out e bs)) \<and>
    (\<forall>e t. e \<in> set (concat bs) \<and> eq_curTick q \<le> t \<longrightarrow>
       (\<exists>q'. eq_reschedule e t False q = Inr q' \<and> key_of q' = K e t \<and> holds q' (put (K e t) e (take_out e bs)))) \<and>
    ((\<forall>e \<in> set (eq_async q). eq_curTick q \<le> key_when (key_of q e)) \<longrightarrow>
       (\<exists>q'. handleAsyncInsertions q = Inr q' \<and> eq_async q' = [] \<and> holds q' (fold (put (key_of q)) (eq_async q) bs)))"
proof (intro conjI allI ballI impI)
  show "\<exists>q'. eq_schedule False e t q = Inr q' \<and> key_of q' = K e t \<and> holds q' (put (K e t) e bs)"
    if "\<not> ev_scheduled (eq_store q e) \<and> eq_curTick q \<le> t" for e t
    using schedule_holds[OF assms(1), of e t] that unfolding K_def by blast
  show "\<exists>q'. eq_deschedule e q = Inr q' \<and> key_of q' = key_of q \<and> holds q' (take_out e bs)" if "e \<in> set (concat bs)" for e
    using deschedule_holds[OF assms(1) that] by blast
  show "\<exists>q'. eq_reschedule e t False q = Inr q' \<and> key_of q' = K e t \<and> holds q' (put (K e t) e (take_out e bs))"
    if "e \<in> set (concat bs) \<and> eq_curTick q \<le> t" for e t
    using reschedule_holds[OF assms(1), of e False t] that unfolding K_def by blast
  show "\<exists>q'. handleAsyncInsertions q = Inr q' \<and> eq_async q' = [] \<and> holds q' (fold (put (key_of q)) (eq_async q) bs)"
    if "\<forall>e \<in> set (eq_async q). eq_curTick q \<le> key_when (key_of q e)"
    using insert_all_holds[OF assms(1) that] unfolding handleAsyncInsertions_def by blast
qed

definition demo_events :: "nat \<Rightarrow> event" where
  "demo_events e = \<lparr>nextBin = None, nextInBin = None, ev_key = Key 0 (if e = 1 then -1 else 0), ev_scheduled = False,
     ev_squashed = False, ev_managed = False, ev_exit = False\<rparr>"

lemma demo_holds: "holds (new_eventq demo_events) []"
  by (simp add: holds_def new_eventq_def demo_events_def keyed_def)

theorem event_queue_refines_witness:
  "\<exists>q1 q2. eq_schedule False 0 20 (new_eventq demo_events) = Inr q1 \<and> eq_schedule False 1 20 q1 = Inr q2 \<and>
     holds q2 [[1], [0]]"
proof -
  let ?q = "new_eventq demo_events"
  note p = event_queue_refines[OF demo_holds, THEN conjunct1, rule_format, of 0 20]
  obtain q1 where q1: "eq_schedule False 0 20 ?q = Inr q1" "key_of q1 = (key_of ?q)(0 := Key 20 0)" "holds q1 [[0]]"
    using p by (auto simp: new_eventq_def demo_events_def)
  have k: "key_of q1 1 = Key 0 (- 1)" "key_of q1 0 = Key 20 0"
    using fun_cong[OF q1(2), of 1] fun_cong[OF q1(2), of 0] by (simp_all add: new_eventq_def demo_events_def)
  have c: "eq_curTick q1 \<le> 20" using holdsD(6)[OF q1(3), of 0] k(2) by simp
  have a: "eq_async q1 = []" using q1(1) by (auto simp: Let_def eq_schedule_def new_eventq_def demo_events_def eq_insert_def)
  have s: "\<not> ev_scheduled (eq_store q1 1)" using holdsD(3)[OF q1(3), of 1] a by simp
  obtain q2 where "eq_schedule False 1 20 q1 = Inr q2"
    "holds q2 (put ((key_of q1)(1 := Key 20 (key_priority (key_of q1 1)))) 1 [[0]])"
    using event_queue_refines[OF q1(3), THEN conjunct1, rule_format, of 1 20] c s by auto
  moreover have "put ((key_of q1)(1 := Key 20 (key_priority (key_of q1 1)))) 1 [[0]] = [[1], [0]]"
    using k by (simp add: less_ev_key_def)
  ultimately show ?thesis using q1(1) by auto
qed


text \<open>A handler that puts its event back at tick 1000.\<close>

definition put_back :: "nat \<Rightarrow> eventq \<Rightarrow> eventq res" where
  "put_back e q = eq_reschedule e 1000 True q"

lemma put_back_runs:
  assumes "holds q bs" and "\<not> ev_scheduled (eq_store q e)" and "eq_curTick q \<le> 1000"
  obtains q' bs' where "put_back e q = Inr q'" "holds q' bs'" "eq_curTick q' = eq_curTick q" "eq_async q' = eq_async q"
    "key_of q' = (key_of q)(e := Key 1000 (key_priority (key_of q e)))" "set (concat bs') = insert e (set (concat bs))"
proof -
  obtain q' where "put_back e q = Inr q'" "key_of q' = (key_of q)(e := Key 1000 (key_priority (key_of q e)))"
    "holds q' (put ((key_of q)(e := Key 1000 (key_priority (key_of q e)))) e (take_out e bs))"
    "eq_curTick q' = eq_curTick q" "eq_async q' = eq_async q"
    using reschedule_holds[OF assms(1) _ assms(3), of e True] assms(2) unfolding put_back_def by blast
  moreover have "set (concat (put ((key_of q)(e := Key 1000 (key_priority (key_of q e)))) e (take_out e bs))) = insert e (set (concat bs))"
    unfolding put_set take_out_set by simp
  ultimately show thesis using that by blast
qed

lemma put_back_sound: "sound_process 100 put_back" "patient 100 put_back"
proof -
  show "sound_process 100 put_back"
    unfolding sound_process_def
  proof (intro allI impI)
    fix e q bs assume a: "holds q bs" "\<not> ev_scheduled (eq_store q e)" "eq_curTick q \<le> 100"
    have c: "eq_curTick q \<le> 1000" using a(3) by simp
    show "\<exists>q' bs'. put_back e q = Inr q' \<and> holds q' bs' \<and> eq_curTick q' = eq_curTick q"
      by (rule put_back_runs[OF a(1,2) c]) blast
  qed
  show "patient 100 put_back"
    unfolding patient_def
  proof (intro allI impI)
    fix e q bs q' assume a: "holds q bs" "\<not> ev_scheduled (eq_store q e)" "eq_curTick q \<le> 100" "put_back e q = Inr q'"
    have c: "eq_curTick q \<le> 1000" using a(3) by simp
    obtain bs' where b: "holds q' bs'" "key_of q' = (key_of q)(e := Key 1000 (key_priority (key_of q e)))"
      "set (concat bs') = insert e (set (concat bs))"
      using put_back_runs[OF a(1,2) c] a(4) by (metis sum.inject(2))
    show "due 100 q' \<subseteq> due 100 q"
    proof
      fix x assume x: "x \<in> due 100 q'"
      have k: "key_of q' x = (if x = e then Key 1000 (key_priority (key_of q e)) else key_of q x)"
        using fun_cong[OF b(2), of x] by simp
      then have "x \<noteq> e" using x unfolding due_holds[OF b(1)] by auto
      then show "x \<in> due 100 q" using x k unfolding due_holds[OF b(1)] due_holds[OF a(1)] b(3) by simp
    qed
  qed
qed


text \<open>
  \<open>serviceEvents\<close> returns when the handlers do not add events at or before its tick; then the queue has
  no event left up to that tick, and the clock stands there.
\<close>

theorem service_events_returns:
  assumes "holds q bs" and "sound_process t process" and "patient t process" and "eq_curTick q \<le> t"
  shows "\<exists>q' bs'. serviceEvents process t q = Inr q' \<and> holds q' bs' \<and> eq_curTick q' = t \<and>
    (\<forall>x \<in> set (concat bs'). t < key_when (key_of q' x))"
proof -
  obtain q' bs' where L: "service_loop process t q = Some (Inr q')" "holds q' bs'" "due t q' = {}"
    using service_loop_ok[OF assms] by blast
  have late: "t < key_when (key_of q' x)" if "x \<in> set (concat bs')" for x
    using L(3) that unfolding due_holds[OF L(2)] by (auto simp: not_le[symmetric])
  have "holds (q'\<lparr>eq_curTick := t\<rparr>) bs'"
    by (rule holdsI) (use holdsD[OF L(2)] late in \<open>auto simp: less_imp_le\<close>)
  moreover have "serviceEvents process t q = Inr (q'\<lparr>eq_curTick := t\<rparr>)" by (simp add: serviceEvents_def L(1))
  ultimately show ?thesis using late by (intro exI[of _ "q'\<lparr>eq_curTick := t\<rparr>"] exI[of _ bs']) simp
qed

theorem service_events_returns_witness:
  "\<exists>q1 q2. eq_schedule False 0 20 (new_eventq demo_events) = Inr q1 \<and>
     serviceEvents put_back 100 q1 = Inr q2 \<and> eq_curTick q2 = 100"
proof -
  let ?q = "new_eventq demo_events"
  obtain q1 where q1: "eq_schedule False 0 20 ?q = Inr q1" "holds q1 [[0]]" "eq_curTick q1 = 0"
    using schedule_holds[OF demo_holds, of 0 20] by (auto simp: new_eventq_def demo_events_def)
  show ?thesis using service_events_returns[OF q1(2) put_back_sound] q1(1,3) by auto
qed

end
