(* ===== verification/Dram_Rank.thy ===== *)
theory Dram_Rank
  imports Cmd_Bus Addr_Map
begin

text \<open>
  The state of a DRAM interface (\<open>mem/mem_interface.hh\<close>, \<open>mem/mem_interface.cc\<close>): its timing parameters,
  the banks, commands and ranks with their events, the constructors and their checks, and the operations
  of a rank that enter and leave the low-power states (\<open>schedulePowerEvent\<close>, \<open>powerDownSleep\<close>,
  \<open>scheduleWakeUpEvent\<close>, \<open>flushCmdList\<close>).

  An event is the tick it is scheduled at, if it is scheduled; \<open>schedule\<close>, \<open>reschedule\<close> and \<open>deschedule\<close>
  are those of \<open>sim/eventq.hh\<close>, with their assertions. \<open>now\<close> is \<open>curTick()\<close>. Ticks are natural numbers
  (sums of ticks stay far below \<open>2^64\<close>); a difference that the code takes without a test is \<open>sub_tick\<close>,
  the 64-bit difference of two ticks below \<open>2^64\<close>.
\<close>

section \<open>Events\<close>

definition schedule :: "tick \<Rightarrow> tick \<Rightarrow> tick option \<Rightarrow> tick option res" where
  "schedule now t ev = rassert (now \<le> t) (rassert (ev = None) (Inr (Some t)))"

definition deschedule :: "tick option \<Rightarrow> tick option res" where
  "deschedule ev = rassert (ev \<noteq> None) (Inr None)"

definition reschedule :: "tick \<Rightarrow> tick \<Rightarrow> tick option \<Rightarrow> tick option res" where
  "reschedule now t ev = rassert (now \<le> t) (rassert (ev \<noteq> None) (Inr (Some t)))"

definition sub_tick :: "tick \<Rightarrow> tick \<Rightarrow> tick" where
  "sub_tick a b = (if b \<le> a then a - b else u64_size - (b - a))"

section \<open>Arithmetic of \<open>base/intmath.hh\<close>\<close>

definition isPowerOf2 :: "nat \<Rightarrow> bool" where
  "isPowerOf2 n = (n \<noteq> 0 \<and> and n (n - 1) = 0)"

text \<open>One halving step of the binary search: if a bit of \<open>m\<close> is set, count \<open>k\<close> and shift by \<open>k\<close>.\<close>

definition log2_step :: "nat \<Rightarrow> nat \<Rightarrow> nat \<times> nat \<Rightarrow> nat \<times> nat" where
  "log2_step m k yx = (case yx of (y, ux) \<Rightarrow> if and ux m \<noteq> 0 then (y + k, drop_bit k ux) else (y, ux))"

definition floorLog2 :: "nat \<Rightarrow> nat res" where
  "floorLog2 x = rassert (0 < x)
     (Inr (fst (log2_step 0x2 1 (log2_step 0xc 2 (log2_step 0xf0 4 (log2_step 0xff00 8
       (log2_step 0xffff0000 16 (log2_step 0xffffffff00000000 32 (0, x)))))))))"

definition ceilLog2 :: "nat \<Rightarrow> nat res" where
  "ceilLog2 n = rassert (0 < n) (if n = 1 then Inr 0 else rbind (floorLog2 (n - 1)) (\<lambda>y. Inr (y + 1)))"

definition divCeil :: "nat \<Rightarrow> nat \<Rightarrow> nat res" where
  "divCeil a b = rnonzero b (Inr ((a + b - 1) div b))"

section \<open>Parameters\<close>

datatype page_manage = open_page | open_adaptive | close_page | close_adaptive

text \<open>
  The parameters of \<open>MemInterface\<close> and \<open>DRAMInterface\<close> beside the geometry of the address map;
  \<open>maxCommandsPerWindow\<close> is set by \<open>setCtrl\<close>.
\<close>

record mem_cfg = geometry +
  maxCommandsPerWindow :: nat
  deviceSize :: nat
  devicesPerRank :: nat
  rowBufferSize :: nat
  tCK :: tick
  tCS :: tick
  tBURST :: tick
  tRTW :: tick
  tWTR :: tick
  readBufferSize :: nat
  writeBufferSize :: nat

record dram_cfg = mem_cfg +
  tWTR_L :: tick
  bankGroupsPerRank :: nat
  tCL :: tick
  tBURST_MIN :: tick
  tBURST_MAX :: tick
  tCCD_L_WR :: tick
  tCCD_L :: tick
  tRCD :: tick
  tRP :: tick
  tRAS :: tick
  tWR :: tick
  tRTP :: tick
  tRFC :: tick
  tREFI :: tick
  tRRD :: tick
  tRRD_L :: tick
  tPPD :: tick
  tAAD :: tick
  tXAW :: tick
  tXP :: tick
  tXS :: tick
  dataClockSync :: bool
  twoCycleActivate :: bool
  activationLimit :: nat
  pageMgmt :: page_manage
  maxAccessesPerRow :: nat
  enableDRAMPowerdown :: bool

text \<open>
  The constructor of \<open>MemInterface\<close>: the sizes of bursts and row buffers, from the organisation of the
  devices; \<open>interleaving\<close> is the granularity of the address range, if it is interleaved.
\<close>

record mem_params =
  addr_mapping :: addr_map
  burst_length :: nat
  device_bus_width :: nat
  device_size :: nat
  device_rowbuffer_size :: nat
  devices_per_rank :: nat
  ranks_per_channel :: nat
  banks_per_rank :: nat
  p_tCK :: tick
  p_tCS :: tick
  p_tBURST :: tick
  p_tRTW :: tick
  p_tWTR :: tick
  read_buffer_size :: nat
  write_buffer_size :: nat

definition new_mem_cfg :: "mem_params \<Rightarrow> nat option \<Rightarrow> mem_cfg res" where
  "new_mem_cfg p interleaving =
     (let bs = devices_per_rank p * burst_length p * device_bus_width p mod u32_size div 8;
          rb = devices_per_rank p * device_rowbuffer_size p mod u32_size
      in rnonzero bs (Inr
       \<lparr>addrMapping = addr_mapping p, burstSize = bs, burstsPerRowBuffer = rb div bs,
        burstsPerStripe = (case interleaving of Some gran \<Rightarrow> gran div bs | None \<Rightarrow> 1),
        ranksPerChannel = ranks_per_channel p, banksPerRank = banks_per_rank p, rowsPerBank = 0,
        maxCommandsPerWindow = 0, deviceSize = device_size p, devicesPerRank = devices_per_rank p,
        rowBufferSize = rb, tCK = p_tCK p, tCS = p_tCS p, tBURST = p_tBURST p, tRTW = p_tRTW p,
        tWTR = p_tWTR p, readBufferSize = read_buffer_size p, writeBufferSize = write_buffer_size p\<rparr>))"

text \<open>The members the constructor computes, and the delays of \<open>mem_interface.hh\<close>.\<close>

definition bankGroupArch :: "dram_cfg \<Rightarrow> bool" where
  "bankGroupArch c = (0 < bankGroupsPerRank c)"

definition clkResyncDelay :: "dram_cfg \<Rightarrow> tick" where
  "clkResyncDelay c = tCL c + tBURST_MAX c"

definition burstInterleave :: "dram_cfg \<Rightarrow> bool" where
  "burstInterleave c = (tBURST c \<noteq> tBURST_MIN c)"

definition wrToRdDlySameBG :: "dram_cfg \<Rightarrow> tick" where
  "wrToRdDlySameBG c = tCL c + tBURST_MAX c + tWTR_L c"

definition rdToWrDlySameBG :: "dram_cfg \<Rightarrow> tick" where
  "rdToWrDlySameBG c = tRTW c + tBURST_MAX c"

definition readToWriteDelay :: "'a mem_cfg_scheme \<Rightarrow> tick" where
  "readToWriteDelay c = tBURST c + tRTW c"

definition writeToReadDelay :: "dram_cfg \<Rightarrow> tick" where
  "writeToReadDelay c = tBURST c + tWTR c + tCL c"

definition rankToRankDelay :: "'a mem_cfg_scheme \<Rightarrow> tick" where
  "rankToRankDelay c = tBURST c + tCS c"

definition minReadToWriteDataGap :: "'a mem_cfg_scheme \<Rightarrow> tick" where
  "minReadToWriteDataGap c = min (tRTW c) (tCS c)"

definition minWriteToReadDataGap :: "'a mem_cfg_scheme \<Rightarrow> tick" where
  "minWriteToReadDataGap c = min (tWTR c) (tCS c)"

definition commandOffset :: "dram_cfg \<Rightarrow> tick" where
  "commandOffset c = tRP c + tRCD c"

definition accessLatency :: "dram_cfg \<Rightarrow> tick" where
  "accessLatency c = tRP c + tRCD c + tCL c"

definition setCtrl :: "nat \<Rightarrow> 'a mem_cfg_scheme \<Rightarrow> 'a mem_cfg_scheme res" where
  "setCtrl command_window c =
     rnonzero (tCK c) (Inr (c\<lparr>maxCommandsPerWindow := command_window div tCK c\<rparr>))"

text \<open>
  An instance: \<open>DDR4_2400_8x8\<close> of \<open>mem/DRAMInterface.py\<close> (ticks are picoseconds), two ranks, 16 GB, a
  command window of 10 ns and channels interleaved at the row buffer.
\<close>

definition ddr4_2400 :: dram_cfg where
  "ddr4_2400 =
     \<lparr>addrMapping = RoRaBaChCo, burstSize = 64, burstsPerRowBuffer = 128, burstsPerStripe = 128,
      ranksPerChannel = 2, banksPerRank = 16, rowsPerBank = 65536, maxCommandsPerWindow = 12,
      deviceSize = 1073741824, devicesPerRank = 8, rowBufferSize = 8192,
      tCK = 833, tCS = 1666, tBURST = 3332, tRTW = 1666, tWTR = 5000,
      readBufferSize = 64, writeBufferSize = 128, tWTR_L = 5000,
      bankGroupsPerRank = 4, tCL = 14160, tBURST_MIN = 3332, tBURST_MAX = 3332, tCCD_L_WR = 5000,
      tCCD_L = 5000, tRCD = 14160, tRP = 14160, tRAS = 32000, tWR = 15000, tRTP = 7500, tRFC = 350000,
      tREFI = 7800000, tRRD = 3332, tRRD_L = 4900, tPPD = 0, tAAD = 833, tXAW = 21000, tXP = 6000,
      tXS = 340000, dataClockSync = False, twoCycleActivate = False, activationLimit = 4,
      pageMgmt = open_adaptive, maxAccessesPerRow = 16, enableDRAMPowerdown = False\<rparr>"

section \<open>Banks, commands and ranks\<close>

record dram_bank =
  openRow :: nat
  bk_bank :: nat
  bankgr :: nat
  rdAllowedAt :: tick
  wrAllowedAt :: tick
  preAllowedAt :: tick
  actAllowedAt :: tick
  rowAccesses :: nat
  bytesAccessed :: nat

definition new_bank :: dram_bank where
  "new_bank = \<lparr>openRow = NO_ROW, bk_bank = 0, bankgr = 0, rdAllowedAt = 0, wrAllowedAt = 0,
     preAllowedAt = 0, actAllowedAt = 0, rowAccesses = 0, bytesAccessed = 0\<rparr>"

text \<open>The command codes of the DRAMPower library (\<open>ext/drampower/src/MemCommand.h\<close>).\<close>

datatype mem_command = ACT | RD | WR | PRE | REF | REFB | END | RDA | WRA | PREA |
  PDN_F_PRE | PDN_S_PRE | PDN_F_ACT | PDN_S_ACT | PUP_PRE | PUP_ACT | SREN | SREX | NOP | UNINITIALIZED

record command =
  cmd_type :: mem_command
  cmd_bank :: nat
  timeStamp :: tick

definition new_command :: "mem_command \<Rightarrow> nat \<Rightarrow> tick \<Rightarrow> command" where
  "new_command t b time_stamp = \<lparr>cmd_type = t, cmd_bank = b mod 256, timeStamp = time_stamp\<rparr>"

datatype power_state = PWR_IDLE | PWR_REF | PWR_SREF | PWR_PRE_PDN | PWR_ACT | PWR_ACT_PDN

datatype refresh_state = REF_IDLE | REF_DRAIN | REF_PD_EXIT | REF_SREF_EXIT | REF_PRE | REF_START | REF_RUN

text \<open>
  \<open>class Rank\<close>. The counters that the code samples into statistics are the last four fields:
  \<open>bytesPerActivate\<close> (of \<open>DRAMStats\<close>, here the samples of this rank in order), the time per power state,
  the idle time, and the commands handed to the DRAMPower library with their cycles.
\<close>

record dram_rank =
  pwrStateTrans :: power_state
  pwrStatePostRefresh :: power_state
  pwrStateTick :: tick
  refreshDueAt :: tick
  pwrState :: power_state
  refreshState :: refresh_state
  inLowPowerState :: bool
  rk_rank :: nat
  readEntries :: nat
  writeEntries :: nat
  outstandingEvents :: nat
  wakeUpAllowedAt :: tick
  cmdList :: "command list"
  banks :: "dram_bank list"
  numBanksActive :: nat
  actTicks :: "tick list"
  lastBurstTick :: tick
  writeDoneEvent :: "tick option"
  activateEvent :: "tick option"
  prechargeEvent :: "tick option"
  refreshEvent :: "tick option"
  powerEvent :: "tick option"
  wakeUpEvent :: "tick option"
  bytesPerActivate :: "nat list"
  pwrStateTime :: "power_state \<Rightarrow> nat"
  totalIdleTime :: nat
  powerCmds :: "(mem_command \<times> nat \<times> nat) list"

text \<open>\<open>uint8_t\<close> counters.\<close>

definition inc8 :: "nat \<Rightarrow> nat" where
  "inc8 x = (x + 1) mod 256"

definition dec8 :: "nat \<Rightarrow> nat" where
  "dec8 x = (x + 255) mod 256"

definition init_bank :: "dram_cfg \<Rightarrow> nat \<Rightarrow> dram_bank" where
  "init_bank c b = new_bank\<lparr>bk_bank := b mod 256,
     bankgr := (if 0 < bankGroupsPerRank c then b mod bankGroupsPerRank c else b) mod 256\<rparr>"

definition new_rank :: "dram_cfg \<Rightarrow> nat \<Rightarrow> dram_rank" where
  "new_rank c r =
     \<lparr>pwrStateTrans = PWR_IDLE, pwrStatePostRefresh = PWR_IDLE, pwrStateTick = 0, refreshDueAt = 0,
      pwrState = PWR_IDLE, refreshState = REF_IDLE, inLowPowerState = False, rk_rank = r mod 256,
      readEntries = 0, writeEntries = 0, outstandingEvents = 0, wakeUpAllowedAt = 0, cmdList = [],
      banks = map (init_bank c) [0..<banksPerRank c], numBanksActive = 0,
      actTicks = replicate (activationLimit c) 0, lastBurstTick = 0,
      writeDoneEvent = None, activateEvent = None, prechargeEvent = None, refreshEvent = None,
      powerEvent = None, wakeUpEvent = None,
      bytesPerActivate = [], pwrStateTime = (\<lambda>_. 0), totalIdleTime = 0, powerCmds = []\<rparr>"

definition inRefIdleState :: "dram_rank \<Rightarrow> bool" where
  "inRefIdleState r = (refreshState r = REF_IDLE)"

definition inPwrIdleState :: "dram_rank \<Rightarrow> bool" where
  "inPwrIdleState r = (pwrState r = PWR_IDLE)"

text \<open>Updates of one bank (\<open>banks[i]\<close>, which \<open>bank_ref\<close> aliases) and of all banks.\<close>

definition upd_bank :: "nat \<Rightarrow> (dram_bank \<Rightarrow> dram_bank) \<Rightarrow> dram_rank \<Rightarrow> dram_rank" where
  "upd_bank i f r = r\<lparr>banks := (banks r)[i := f (banks r ! i)]\<rparr>"

definition map_banks :: "(dram_bank \<Rightarrow> dram_bank) \<Rightarrow> dram_rank \<Rightarrow> dram_rank" where
  "map_banks f r = r\<lparr>banks := map f (banks r)\<rparr>"

definition push_cmd :: "mem_command \<Rightarrow> nat \<Rightarrow> tick \<Rightarrow> dram_rank \<Rightarrow> dram_rank" where
  "push_cmd t b at r = r\<lparr>cmdList := cmdList r @ [new_command t b at]\<rparr>"

section \<open>Sleeping and waking up\<close>

text \<open>What a rank asks the controller (\<open>mem/mem_ctrl.hh\<close>): bus directions, events, drain state.\<close>

datatype bus_state = READ | WRITE

datatype drain_state = Running | Draining | Drained | Resuming

record ctrl_view =
  busState :: bus_state
  busStateNext :: bus_state
  nextReqEvent :: "tick option"
  respondEvent :: "tick option"
  drainState :: drain_state

definition inReadBusState :: "'a ctrl_view_scheme \<Rightarrow> bool \<Rightarrow> bool" where
  "inReadBusState v next_state = ((if next_state then busStateNext v else busState v) = READ)"

definition inWriteBusState :: "'a ctrl_view_scheme \<Rightarrow> bool \<Rightarrow> bool" where
  "inWriteBusState v next_state = ((if next_state then busStateNext v else busState v) = WRITE)"

definition requestEventScheduled :: "'a ctrl_view_scheme \<Rightarrow> bool" where
  "requestEventScheduled v = (nextReqEvent v \<noteq> None)"

definition respondEventScheduled :: "'a ctrl_view_scheme \<Rightarrow> bool" where
  "respondEventScheduled v = (respondEvent v \<noteq> None)"

definition restartScheduler :: "tick \<Rightarrow> tick \<Rightarrow> 'a ctrl_view_scheme \<Rightarrow> 'a ctrl_view_scheme res" where
  "restartScheduler now t v = rbind (schedule now t (nextReqEvent v)) (\<lambda>ev. Inr (v\<lparr>nextReqEvent := ev\<rparr>))"

definition isQueueEmpty :: "'a ctrl_view_scheme \<Rightarrow> dram_rank \<Rightarrow> bool" where
  "isQueueEmpty v r = (inReadBusState v True \<and> readEntries r = 0 \<or> inWriteBusState v True \<and> writeEntries r = 0)"

definition schedulePowerEvent :: "tick \<Rightarrow> power_state \<Rightarrow> tick \<Rightarrow> dram_rank \<Rightarrow> dram_rank res" where
  "schedulePowerEvent now pwr_state t r =
     rassert (now \<le> t)
      (if powerEvent r = None
       then rbind (schedule now t (powerEvent r)) (\<lambda>ev.
              Inr (r\<lparr>pwrStateTrans := pwr_state, powerEvent := ev\<rparr>))
       else Inl Panic)"

text \<open>The transition and the DRAMPower command of each kind of sleep.\<close>

definition powerDownSleep :: "dram_cfg \<Rightarrow> tick \<Rightarrow> power_state \<Rightarrow> tick \<Rightarrow> dram_rank \<Rightarrow> dram_rank res" where
  "powerDownSleep c now pwr_state t r =
     rbind
      (case pwr_state of
         PWR_ACT_PDN \<Rightarrow> rbind (schedulePowerEvent now PWR_ACT_PDN t r) (\<lambda>r1. Inr (push_cmd PDN_F_ACT 0 t r1))
       | PWR_PRE_PDN \<Rightarrow> rbind (schedulePowerEvent now PWR_PRE_PDN t r) (\<lambda>r1. Inr (push_cmd PDN_F_PRE 0 t r1))
       | PWR_REF \<Rightarrow> rbind (schedulePowerEvent now PWR_PRE_PDN t r) (\<lambda>r1. Inr (push_cmd PDN_F_PRE 0 t r1))
       | PWR_SREF \<Rightarrow> rassert (pwrStatePostRefresh r = PWR_PRE_PDN)
           (rbind (schedulePowerEvent now PWR_SREF t r) (\<lambda>r1. Inr (push_cmd SREN 0 t r1)))
       | _ \<Rightarrow> Inr r)
      (\<lambda>r1. Inr (r1\<lparr>wakeUpAllowedAt := t + tCK c, inLowPowerState := True\<rparr>))"

definition wake_bank :: "tick \<Rightarrow> dram_bank \<Rightarrow> dram_bank" where
  "wake_bank t b = b\<lparr>wrAllowedAt := max t (wrAllowedAt b), rdAllowedAt := max t (rdAllowedAt b),
     preAllowedAt := max t (preAllowedAt b), actAllowedAt := max t (actAllowedAt b)\<rparr>"

definition wake_cmd :: "tick \<Rightarrow> dram_rank \<Rightarrow> dram_rank" where
  "wake_cmd t r =
     (case pwrStateTrans r of
        PWR_ACT_PDN \<Rightarrow> push_cmd PUP_ACT 0 t r
      | PWR_PRE_PDN \<Rightarrow> push_cmd PUP_PRE 0 t r
      | PWR_SREF \<Rightarrow> push_cmd SREX 0 t r
      | _ \<Rightarrow> r)"

definition scheduleWakeUpEvent :: "tick \<Rightarrow> tick \<Rightarrow> dram_rank \<Rightarrow> dram_rank res" where
  "scheduleWakeUpEvent now exit_delay r =
     (let wake_up_tick = max now (wakeUpAllowedAt r);
          r1 = r\<lparr>pwrStatePostRefresh := (if refreshState r = REF_PD_EXIT then pwrState r else PWR_IDLE)\<rparr>
      in rbind (schedule now wake_up_tick (wakeUpEvent r1)) (\<lambda>ev.
           Inr (wake_cmd wake_up_tick
             ((map_banks (wake_bank (wake_up_tick + exit_delay)) (r1\<lparr>wakeUpEvent := ev\<rparr>))
                \<lparr>inLowPowerState := False\<rparr>))))"

text \<open>
  \<open>flushCmdList\<close> hands the commands up to \<open>curTick()\<close> to the DRAMPower library, in the order of their
  time stamps (\<open>std::sort\<close> leaves the order of equal stamps open; here they keep their order).
\<close>

fun power_cycles :: "nat \<Rightarrow> nat \<Rightarrow> command list \<Rightarrow> (mem_command \<times> nat \<times> nat) list res" where
  "power_cycles ck off [] = Inr []"
| "power_cycles ck off (cmd # cs) =
     rbind (divCeil (timeStamp cmd) ck) (\<lambda>cyc.
     rbind (power_cycles ck off cs) (\<lambda>l. Inr ((cmd_type cmd, cmd_bank cmd, sub_tick cyc off) # l)))"

definition flushCmdList :: "dram_cfg \<Rightarrow> nat \<Rightarrow> tick \<Rightarrow> dram_rank \<Rightarrow> dram_rank res" where
  "flushCmdList c timeStampOffset now r =
     (let cs = sort_key timeStamp (cmdList r) in
      rbind (power_cycles (tCK c) timeStampOffset (takeWhile (\<lambda>cmd. timeStamp cmd \<le> now) cs)) (\<lambda>l.
        Inr (r\<lparr>powerCmds := powerCmds r @ l, cmdList := dropWhile (\<lambda>cmd. timeStamp cmd \<le> now) cs\<rparr>)))"

definition checkDrainDone :: "tick \<Rightarrow> dram_rank \<Rightarrow> dram_rank res" where
  "checkDrainDone now r =
     (if refreshState r = REF_DRAIN
      then rbind (schedule now now (refreshEvent r)) (\<lambda>ev.
             Inr (r\<lparr>refreshState := REF_PD_EXIT, refreshEvent := ev\<rparr>))
      else Inr r)"

definition rank_startup :: "tick \<Rightarrow> tick \<Rightarrow> dram_rank \<Rightarrow> dram_rank res" where
  "rank_startup now ref_tick r =
     rassert (now < ref_tick)
      (rbind (schedule now ref_tick (refreshEvent r)) (\<lambda>ev.
        Inr (r\<lparr>pwrStateTick := now, refreshEvent := ev\<rparr>)))"

end
