(* ===== verification/Dram_Bank.thy ===== *)
theory Dram_Bank
  imports Dram_Rank
begin

text \<open>
  Row commands of a DRAM rank: \<open>activateBank\<close> and \<open>prechargeBank\<close> of \<open>mem/mem_interface.cc\<close>.
  The lemmas show the invariant of a rank (the count of open banks, the order and the spacing of the
  remembered activations, the earliest next activation of every bank), that both operations keep it,
  that no assertion fails and the \<open>tXAW\<close> panic is never reached when a bank is used no earlier than it
  allows, and that any \<open>activationLimit + 1\<close> activations of a rank span at least \<open>tXAW\<close>.
\<close>

section \<open>Activation\<close>

definition act_slot :: "dram_cfg \<Rightarrow> tick \<Rightarrow> tick \<Rightarrow> tick multiset \<Rightarrow> (tick \<times> tick multiset) res" where
  "act_slot c w act_tick bt =
     (if twoCycleActivate c then verifyMultiCmd w act_tick (maxCommandsPerWindow c) (tAAD c) bt
      else verifySingleCmd w act_tick (maxCommandsPerWindow c) bt)"

definition open_row :: "nat \<Rightarrow> dram_bank \<Rightarrow> dram_bank" where
  "open_row row b = b\<lparr>openRow := row, bytesAccessed := 0, rowAccesses := 0\<rparr>"

definition act_bank :: "dram_cfg \<Rightarrow> tick \<Rightarrow> dram_bank \<Rightarrow> dram_bank" where
  "act_bank c act_at b = b\<lparr>preAllowedAt := act_at + tRAS c,
     rdAllowedAt := max (act_at + tRCD c) (rdAllowedAt b),
     wrAllowedAt := max (act_at + tRCD c) (wrAllowedAt b)\<rparr>"

definition enforce_tRRD :: "dram_cfg \<Rightarrow> tick \<Rightarrow> nat \<Rightarrow> dram_bank \<Rightarrow> dram_bank" where
  "enforce_tRRD c act_at grp b =
     b\<lparr>actAllowedAt := max (act_at + (if bankGroupArch c \<and> grp = bankgr b then tRRD_L c else tRRD c))
       (actAllowedAt b)\<rparr>"

text \<open>\<open>actTicks.back() && (act_at - actTicks.back()) < tXAW\<close>\<close>

definition xaw_close :: "dram_cfg \<Rightarrow> tick \<Rightarrow> tick list \<Rightarrow> bool" where
  "xaw_close c act_at ticks = (last ticks \<noteq> 0 \<and> sub_tick act_at (last ticks) < tXAW c)"

definition delay_act :: "tick \<Rightarrow> dram_bank \<Rightarrow> dram_bank" where
  "delay_act t b = b\<lparr>actAllowedAt := max t (actAllowedAt b)\<rparr>"

definition enforce_tXAW :: "dram_cfg \<Rightarrow> tick \<Rightarrow> dram_rank \<Rightarrow> dram_rank res" where
  "enforce_tXAW c act_at r =
     (if actTicks r = [] then Inr r
      else if xaw_close c act_at (actTicks r) then Inl Panic
      else let ticks = act_at # butlast (actTicks r); r1 = r\<lparr>actTicks := ticks\<rparr>
           in Inr (if xaw_close c act_at ticks then map_banks (delay_act (last ticks + tXAW c)) r1 else r1))"

definition act_event :: "tick \<Rightarrow> tick \<Rightarrow> tick option \<Rightarrow> tick option res" where
  "act_event now act_at ev =
     (case ev of None \<Rightarrow> schedule now act_at ev
      | Some t \<Rightarrow> if act_at < t then reschedule now act_at ev else Inr ev)"

text \<open>The state after the row is open and \<open>tRRD\<close> is enforced.\<close>

definition act_open :: "dram_cfg \<Rightarrow> nat \<Rightarrow> tick \<Rightarrow> nat \<Rightarrow> dram_rank \<Rightarrow> dram_rank" where
  "act_open c bi act_at row r =
     (let r1 = (upd_bank bi (open_row row) r)\<lparr>numBanksActive := inc32 (numBanksActive r)\<rparr>;
          b = banks r1 ! bi;
          r2 = upd_bank bi (act_bank c act_at) (push_cmd ACT (bk_bank b) act_at r1)
      in map_banks (enforce_tRRD c act_at (bankgr b)) r2)"

definition activateBank ::
    "dram_cfg \<Rightarrow> tick \<Rightarrow> tick \<Rightarrow> nat \<Rightarrow> tick \<Rightarrow> nat \<Rightarrow> dram_rank \<times> tick multiset \<Rightarrow>
     (dram_rank \<times> tick multiset) res" where
  "activateBank c w now bi act_tick row rb =
     (case rb of (r, bt) \<Rightarrow>
      rassert (length (actTicks r) = activationLimit c)
      (rbind (act_slot c w act_tick bt) (\<lambda>(act_at, bt').
        rassert (openRow (banks r ! bi) = NO_ROW)
        (rassert (inc32 (numBanksActive r) \<le> banksPerRank c)
        (rbind (enforce_tXAW c act_at (act_open c bi act_at row r)) (\<lambda>r1.
         rbind (act_event now act_at (activateEvent r1)) (\<lambda>ev.
           Inr (r1\<lparr>activateEvent := ev\<rparr>, bt'))))))))"

section \<open>Precharge\<close>

text \<open>The tick of the precharge: that of the automatic one, or the next free command slot.\<close>

definition pre_slot ::
    "dram_cfg \<Rightarrow> tick \<Rightarrow> nat \<Rightarrow> tick \<Rightarrow> bool \<Rightarrow> dram_rank \<times> tick multiset \<Rightarrow>
     (tick \<times> dram_rank \<times> tick multiset) res" where
  "pre_slot c w bi pre_tick auto_or_preall rb =
     (case rb of (r, bt) \<Rightarrow>
      if auto_or_preall then Inr (pre_tick, upd_bank bi (\<lambda>b. b\<lparr>preAllowedAt := pre_tick\<rparr>) r, bt)
      else rbind (verifySingleCmd w pre_tick (maxCommandsPerWindow c) bt) (\<lambda>(pre_at, bt').
        Inr (pre_at, map_banks (\<lambda>b. b\<lparr>preAllowedAt := max (pre_at + tPPD c) (preAllowedAt b)\<rparr>) r, bt')))"

definition pre_event :: "tick \<Rightarrow> tick \<Rightarrow> dram_rank \<Rightarrow> dram_rank res" where
  "pre_event now pre_done_at r =
     (case prechargeEvent r of
        None \<Rightarrow> rbind (schedule now pre_done_at (prechargeEvent r)) (\<lambda>ev.
          Inr (r\<lparr>prechargeEvent := ev, outstandingEvents := inc8 (outstandingEvents r)\<rparr>))
      | Some t \<Rightarrow> if t < pre_done_at
          then rbind (reschedule now pre_done_at (prechargeEvent r)) (\<lambda>ev. Inr (r\<lparr>prechargeEvent := ev\<rparr>))
          else Inr r)"

definition close_row :: "nat \<Rightarrow> dram_rank \<Rightarrow> dram_rank" where
  "close_row bi r =
     (upd_bank bi (\<lambda>b. b\<lparr>openRow := NO_ROW\<rparr>) r)
       \<lparr>bytesPerActivate := bytesPerActivate r @ [bytesAccessed (banks r ! bi)]\<rparr>"

definition prechargeBank ::
    "dram_cfg \<Rightarrow> tick \<Rightarrow> tick \<Rightarrow> nat \<Rightarrow> tick \<Rightarrow> bool \<Rightarrow> bool \<Rightarrow> dram_rank \<times> tick multiset \<Rightarrow>
     (dram_rank \<times> tick multiset) res" where
  "prechargeBank c w now bi pre_tick auto_or_preall trace rb =
     (case rb of (r, bt) \<Rightarrow>
      rassert (openRow (banks r ! bi) \<noteq> NO_ROW)
      (rbind (pre_slot c w bi pre_tick auto_or_preall (close_row bi r, bt)) (\<lambda>(pre_at, r1, bt').
        let pre_done_at = pre_at + tRP c;
            r2 = upd_bank bi (delay_act pre_done_at) r1
        in rassert (numBanksActive r2 \<noteq> 0)
            (let r3 = r2\<lparr>numBanksActive := dec32 (numBanksActive r2)\<rparr>;
                 r4 = (if trace then push_cmd PRE (bk_bank (banks r3 ! bi)) pre_at r3 else r3)
             in rbind (pre_event now pre_done_at r4) (\<lambda>r5. Inr (r5, bt'))))))"

section \<open>The invariant of a rank\<close>

definition open_banks :: "dram_rank \<Rightarrow> nat" where
  "open_banks r = length (filter (\<lambda>b. openRow b \<noteq> NO_ROW) (banks r))"

text \<open>No bank may be activated before \<open>tRRD\<close> after the newest and \<open>tXAW\<close> after the oldest activation.\<close>

definition bank_after :: "dram_cfg \<Rightarrow> tick list \<Rightarrow> dram_bank \<Rightarrow> bool" where
  "bank_after c ticks b \<longleftrightarrow> (ticks \<noteq> [] \<longrightarrow>
     (hd ticks \<noteq> 0 \<longrightarrow> hd ticks + tRRD c \<le> actAllowedAt b) \<and>
     (last ticks \<noteq> 0 \<longrightarrow> last ticks + tXAW c \<le> actAllowedAt b))"

definition rank_ok :: "dram_cfg \<Rightarrow> dram_rank \<Rightarrow> bool" where
  "rank_ok c r \<longleftrightarrow> length (banks r) = banksPerRank c \<and> numBanksActive r = open_banks r \<and>
     length (actTicks r) = activationLimit c \<and> sorted_wrt (\<ge>) (actTicks r) \<and>
     (\<forall>b \<in> set (banks r). bank_after c (actTicks r) b)"

definition cfg_ok :: "dram_cfg \<Rightarrow> bool" where
  "cfg_ok c \<longleftrightarrow> 0 < maxCommandsPerWindow c \<and> banksPerRank c < u32_size - 1 \<and>
     (bankGroupArch c \<longrightarrow> tRRD c \<le> tRRD_L c)"

lemma act_slot_total:
  assumes "0 < w" and "0 < maxCommandsPerWindow c"
  shows "\<exists>act_at bt'. act_slot c w t bt = Inr (act_at, bt') \<and> t \<le> act_at"
  using verifySingle_total[OF assms] verifyMulti_total[OF assms] by (simp add: act_slot_def)

lemma act_slot_ge: "act_slot c w t bt = Inr (act_at, bt') \<Longrightarrow> t \<le> act_at"
  by (auto simp: act_slot_def split: if_splits dest: verifySingle_ge verifyMulti_ge)

lemma length_filter_update:
  assumes "i < length xs"
  shows "length (filter P (xs[i := y])) + (if P (xs ! i) then 1 else 0) =
    length (filter P xs) + (if P y then 1 else 0)"
  using assms
proof (induction xs arbitrary: i)
  case (Cons x xs)
  then show ?case by (cases i) auto
qed simp

lemma filter_length_lt: "i < length xs \<Longrightarrow> \<not> P (xs ! i) \<Longrightarrow> length (filter P xs) < length xs"
  using length_filter_less nth_mem by metis

lemma bank_upd_simps [simp]:
  "banks (upd_bank i f r) = (banks r)[i := f (banks r ! i)]"
  "banks (map_banks f r) = map f (banks r)"
  "actTicks (upd_bank i f r) = actTicks r" "actTicks (map_banks f r) = actTicks r"
  "numBanksActive (upd_bank i f r) = numBanksActive r" "numBanksActive (map_banks f r) = numBanksActive r"
  "activateEvent (upd_bank i f r) = activateEvent r" "activateEvent (map_banks f r) = activateEvent r"
  "prechargeEvent (upd_bank i f r) = prechargeEvent r" "prechargeEvent (map_banks f r) = prechargeEvent r"
  "cmdList (upd_bank i f r) = cmdList r" "cmdList (map_banks f r) = cmdList r"
  "outstandingEvents (upd_bank i f r) = outstandingEvents r"
  "outstandingEvents (map_banks f r) = outstandingEvents r"
  by (simp_all add: upd_bank_def map_banks_def)

lemma push_cmd_simps [simp]:
  "banks (push_cmd t b at r) = banks r" "actTicks (push_cmd t b at r) = actTicks r"
  "numBanksActive (push_cmd t b at r) = numBanksActive r"
  "cmdList (push_cmd t b at r) = cmdList r @ [new_command t b at]"
  "activateEvent (push_cmd t b at r) = activateEvent r"
  "prechargeEvent (push_cmd t b at r) = prechargeEvent r"
  "outstandingEvents (push_cmd t b at r) = outstandingEvents r"
  by (simp_all add: push_cmd_def)

text \<open>What row commands leave alone: the power and refresh state, and the column timing up to delays.\<close>

definition same_mode :: "dram_rank \<Rightarrow> dram_rank \<Rightarrow> bool" where
  "same_mode r r' \<longleftrightarrow> refreshState r' = refreshState r \<and> inLowPowerState r' = inLowPowerState r \<and>
     pwrState r' = pwrState r \<and> wakeUpEvent r' = wakeUpEvent r \<and> refreshEvent r' = refreshEvent r \<and>
     powerEvent r' = powerEvent r"

definition col_le :: "dram_rank \<Rightarrow> dram_rank \<Rightarrow> bool" where
  "col_le r r' \<longleftrightarrow> list_all2 (\<lambda>b b'. rdAllowedAt b \<le> rdAllowedAt b' \<and> wrAllowedAt b \<le> wrAllowedAt b') (banks r) (banks r')"

lemma col_le_nth:
  "col_le r r' \<longleftrightarrow> length (banks r') = length (banks r) \<and>
    (\<forall>i < length (banks r). rdAllowedAt (banks r ! i) \<le> rdAllowedAt (banks r' ! i) \<and>
       wrAllowedAt (banks r ! i) \<le> wrAllowedAt (banks r' ! i))"
  by (auto simp: col_le_def list_all2_conv_all_nth)

lemma mode_refl [simp]: "same_mode r r" "col_le r r"
  by (simp_all add: same_mode_def col_le_nth)

lemma mode_trans: "same_mode r r' \<Longrightarrow> same_mode r' r'' \<Longrightarrow> same_mode r r''"
  by (simp add: same_mode_def)

lemma col_le_trans: "col_le r r' \<Longrightarrow> col_le r' r'' \<Longrightarrow> col_le r r''"
  unfolding col_le_nth by (metis order_trans)

lemma mode_upd [simp]:
  "same_mode r (upd_bank i f r') = same_mode r r'" "same_mode r (map_banks f r') = same_mode r r'"
  "same_mode r (push_cmd t b at r') = same_mode r r'"
  by (simp_all add: same_mode_def upd_bank_def map_banks_def push_cmd_def)

lemma col_le_map_banks:
  assumes "\<And>b. rdAllowedAt b \<le> rdAllowedAt (f b)" and "\<And>b. wrAllowedAt b \<le> wrAllowedAt (f b)"
  shows "col_le r (map_banks f r)"
  by (simp add: col_le_nth assms)

lemma nth_upd: "j < length xs \<Longrightarrow> xs[i := x] ! j = (if j = i then x else xs ! j)"
  by simp

lemma col_le_upd_bank:
  assumes "\<And>b. rdAllowedAt b \<le> rdAllowedAt (f b)" and "\<And>b. wrAllowedAt b \<le> wrAllowedAt (f b)"
  shows "col_le r (upd_bank i f r)"
  using assms by (auto simp: col_le_nth nth_upd)

lemma row_kept [simp]:
  "openRow (act_bank c t b) = openRow b" "openRow (enforce_tRRD c t g b) = openRow b"
  "openRow (delay_act t b) = openRow b" "openRow (open_row row b) = row"
  "bankgr (act_bank c t b) = bankgr b" "bankgr (open_row row b) = bankgr b"
  "bk_bank (open_row row b) = bk_bank b"
  "actAllowedAt (delay_act t b) = max t (actAllowedAt b)" "actAllowedAt (act_bank c t b) = actAllowedAt b"
  "actAllowedAt (open_row row b) = actAllowedAt b"
  "rdAllowedAt (open_row row b) = rdAllowedAt b" "wrAllowedAt (open_row row b) = wrAllowedAt b"
  "rdAllowedAt (delay_act t b) = rdAllowedAt b" "wrAllowedAt (delay_act t b) = wrAllowedAt b"
  "rdAllowedAt (enforce_tRRD c t g b) = rdAllowedAt b" "wrAllowedAt (enforce_tRRD c t g b) = wrAllowedAt b"
  "rdAllowedAt (act_bank c t b) = max (t + tRCD c) (rdAllowedAt b)"
  "wrAllowedAt (act_bank c t b) = max (t + tRCD c) (wrAllowedAt b)"
  by (simp_all add: act_bank_def enforce_tRRD_def delay_act_def open_row_def)

lemma delay_act_0 [simp]: "delay_act 0 = (\<lambda>b. b)" "map_banks (\<lambda>b. b) r = r"
  by (simp_all add: delay_act_def map_banks_def fun_eq_iff)

lemma open_banks_cong:
  assumes "map openRow (banks r) = map openRow (banks r')"
  shows "open_banks r = open_banks r'"
proof -
  have "open_banks x = length (filter (\<lambda>n. n \<noteq> NO_ROW) (map openRow (banks x)))" for x
    by (simp add: open_banks_def filter_map comp_def)
  note e = this
  show ?thesis unfolding e[of r] e[of r'] using assms by (simp only:)
qed

lemma bank_after_mono:
  "bank_after c ticks b \<Longrightarrow> actAllowedAt b \<le> actAllowedAt b' \<Longrightarrow> bank_after c ticks b'"
  unfolding bank_after_def by (blast intro: order_trans)

text \<open>The remembered activations after one more.\<close>

definition act_shift :: "tick \<Rightarrow> tick list \<Rightarrow> tick list" where
  "act_shift t ticks = (if ticks = [] then [] else t # butlast ticks)"

lemma last_act_shift:
  assumes "sorted_wrt (\<ge>) ticks" and "ticks \<noteq> []" and "hd ticks \<le> t"
  shows "last (act_shift t ticks) \<le> t"
proof (cases "butlast ticks = []")
  case False
  have "last (butlast ticks) \<in> set ticks" using False by (meson in_set_butlastD last_in_set)
  moreover have "x \<le> hd ticks" if "x \<in> set ticks" for x
    using assms(1,2) that by (cases ticks) auto
  ultimately show ?thesis using assms False by (fastforce simp: act_shift_def)
qed (simp add: act_shift_def assms)

lemma sorted_act_shift:
  assumes "sorted_wrt (\<ge>) ticks" and "ticks \<noteq> [] \<Longrightarrow> hd ticks \<le> t"
  shows "sorted_wrt (\<ge>) (act_shift t ticks)"
proof (cases "ticks = []")
  case False
  have "x \<le> t" if "x \<in> set (butlast ticks)" for x
    using assms False in_set_butlastD[OF that] by (cases ticks) auto
  moreover have "sorted_wrt (\<ge>) (butlast ticks)"
    using assms(1) by (simp add: butlast_conv_take)
  ultimately show ?thesis using False by (simp add: act_shift_def)
qed (simp add: act_shift_def)

lemma enforce_tXAW_ok:
  assumes srt: "sorted_wrt (\<ge>) (actTicks r)"
    and rrd: "\<forall>b \<in> set (banks r). act_at + tRRD c \<le> actAllowedAt b"
    and old: "actTicks r \<noteq> [] \<Longrightarrow>
      hd (actTicks r) \<le> act_at \<and> (last (actTicks r) \<noteq> 0 \<longrightarrow> last (actTicks r) + tXAW c \<le> act_at)"
  shows "\<exists>d. enforce_tXAW c act_at r =
      Inr (map_banks (delay_act d) (r\<lparr>actTicks := act_shift act_at (actTicks r)\<rparr>)) \<and>
    (\<forall>b \<in> set (banks r). bank_after c (act_shift act_at (actTicks r)) (delay_act d b))"
proof (cases "actTicks r = []")
  case True
  then have "enforce_tXAW c act_at r = Inr r" by (simp add: enforce_tXAW_def)
  moreover have "r\<lparr>actTicks := []\<rparr> = r" using True by simp
  ultimately show ?thesis using True by (intro exI[of _ 0]) (simp add: act_shift_def bank_after_def)
next
  case False
  define ts where "ts = act_at # butlast (actTicks r)"
  have ts: "act_shift act_at (actTicks r) = ts" using False by (simp add: act_shift_def ts_def)
  have le: "last ts \<le> act_at" using last_act_shift[OF srt False, of act_at] old[OF False] unfolding ts by blast
  have far: "\<not> xaw_close c act_at (actTicks r)"
    using old[OF False] by (auto simp: xaw_close_def sub_tick_def split: if_splits)
  define d where "d = (if xaw_close c act_at ts then last ts + tXAW c else 0)"
  have "enforce_tXAW c act_at r = Inr (map_banks (delay_act d) (r\<lparr>actTicks := ts\<rparr>))"
    using False far by (simp add: enforce_tXAW_def ts_def[symmetric] Let_def d_def)
  moreover have "bank_after c ts (delay_act d b)" if "b \<in> set (banks r)" for b
  proof -
    have "act_at + tRRD c \<le> actAllowedAt b" using rrd that by blast
    moreover have "last ts + tXAW c \<le> max d (actAllowedAt b)" if "last ts \<noteq> 0"
      using that le calculation unfolding d_def xaw_close_def sub_tick_def by (auto simp: max_def)
    moreover have "hd ts = act_at" by (simp add: ts_def)
    ultimately show ?thesis by (simp add: bank_after_def le_max_iff_disj)
  qed
  ultimately show ?thesis using ts by blast
qed

text \<open>A bank without an open row, used no earlier than it allows.\<close>

lemma activate_lemma:
  assumes cfg: "cfg_ok c" and w: "0 < w" and ok: "rank_ok c r" and bi: "bi < length (banks r)"
    and closed: "openRow (banks r ! bi) = NO_ROW" and row: "row \<noteq> NO_ROW"
    and at: "actAllowedAt (banks r ! bi) \<le> act_tick" "now \<le> act_tick"
  obtains r' act_at bt' d ev where
    "r' = (map_banks (delay_act d) ((act_open c bi act_at row r)
              \<lparr>actTicks := act_shift act_at (actTicks r)\<rparr>))\<lparr>activateEvent := Some ev\<rparr>"
    "activateBank c w now bi act_tick row (r, bt) = Inr (r', bt')" "rank_ok c r'"
    "act_tick \<le> act_at" "ev \<le> act_at"
    "actTicks r = [] \<or> (hd (actTicks r) = 0 \<or> hd (actTicks r) + tRRD c \<le> act_at) \<and>
       (last (actTicks r) = 0 \<or> last (actTicks r) + tXAW c \<le> act_at)"
proof -
  obtain act_at bt' where slot: "act_slot c w act_tick bt = Inr (act_at, bt')" "act_tick \<le> act_at"
    using act_slot_total[OF w] cfg unfolding cfg_ok_def by blast
  let ?g = "bankgr (banks r ! bi)"
  let ?bs = "(banks r)[bi := act_bank c act_at (open_row row (banks r ! bi))]"
  define r2 where "r2 = act_open c bi act_at row r"
  have bs: "banks r2 = map (enforce_tRRD c act_at ?g) ?bs"
    using bi by (simp add: r2_def act_open_def Let_def)
  have ticks: "actTicks r2 = actTicks r" by (simp add: r2_def act_open_def Let_def)
  have num: "numBanksActive r2 = inc32 (numBanksActive r)" by (simp add: r2_def act_open_def Let_def)
  have ev2: "activateEvent r2 = activateEvent r" by (simp add: r2_def act_open_def Let_def)
  have cnt: "open_banks r < banksPerRank c"
    using filter_length_lt[OF bi, of "\<lambda>b. openRow b \<noteq> NO_ROW"] closed ok
    by (simp add: open_banks_def rank_ok_def)
  have inc: "inc32 (numBanksActive r) = open_banks r + 1"
    using ok cnt cfg by (simp add: rank_ok_def cfg_ok_def inc32_noov)
  have open2: "open_banks r2 = open_banks r + 1"
  proof -
    have "map openRow (banks r2) = (map openRow (banks r))[bi := row]"
      unfolding bs by (simp add: map_update comp_def)
    then have "map openRow (banks r2) = map openRow (banks (upd_bank bi (open_row row) r))"
      by (simp add: map_update)
    then have "open_banks r2 = open_banks (upd_bank bi (open_row row) r)" by (rule open_banks_cong)
    then show ?thesis
      using length_filter_update[OF bi, of "\<lambda>b. openRow b \<noteq> NO_ROW" "open_row row (banks r ! bi)"] closed row
      by (simp add: open_banks_def)
  qed
  have own: "bank_after c (actTicks r) (banks r ! bi)" using ok bi by (auto simp: rank_ok_def)
  have old: "hd (actTicks r) \<noteq> 0 \<longrightarrow> hd (actTicks r) + tRRD c \<le> act_at"
    "last (actTicks r) \<noteq> 0 \<longrightarrow> last (actTicks r) + tXAW c \<le> act_at" if "actTicks r \<noteq> []"
    using own that at(1) slot(2) by (auto simp: bank_after_def)
  have "\<forall>b \<in> set (banks r2). act_at + tRRD c \<le> actAllowedAt b"
    using cfg unfolding bs by (auto simp: enforce_tRRD_def cfg_ok_def le_max_iff_disj)
  from enforce_tXAW_ok[of r2 act_at c, OF _ this] ok old obtain d where
    xaw: "enforce_tXAW c act_at r2 = Inr (map_banks (delay_act d) (r2\<lparr>actTicks := act_shift act_at (actTicks r)\<rparr>))"
    and after: "\<forall>b \<in> set (banks r2). bank_after c (act_shift act_at (actTicks r)) (delay_act d b)"
    unfolding ticks rank_ok_def by (metis add_leE zero_le)
  obtain ev where ev: "act_event now act_at (activateEvent r) = Inr (Some ev)" "ev \<le> act_at"
    using slot(2) at(2) by (cases "activateEvent r"; cases "act_at < the (activateEvent r)")
      (simp_all add: act_event_def schedule_def reschedule_def)
  define r3 where "r3 = (map_banks (delay_act d) (r2\<lparr>actTicks := act_shift act_at (actTicks r)\<rparr>))
    \<lparr>activateEvent := Some ev\<rparr>"
  have run: "activateBank c w now bi act_tick row (r, bt) = Inr (r3, bt')"
    using ok slot(1) closed inc cnt xaw ev(1)
    by (simp add: activateBank_def rank_ok_def r2_def[symmetric] r3_def ev2)
  have "sorted_wrt (\<ge>) (act_shift act_at (actTicks r))"
    using sorted_act_shift[of "actTicks r" act_at] ok old unfolding rank_ok_def by (metis add_leE zero_le)
  moreover have "length (act_shift act_at (actTicks r)) = length (actTicks r)"
    by (cases "actTicks r") (simp_all add: act_shift_def)
  moreover have "open_banks r3 = open_banks r2"
    by (rule open_banks_cong) (simp add: r3_def)
  ultimately have "rank_ok c r3"
    using ok after bs num inc open2 unfolding rank_ok_def by (simp add: r3_def)
  then show thesis using that[OF r3_def[unfolded r2_def] run _ slot(2) ev(2)] old by blast
qed

text \<open>Closing an open row: the three updates, whatever the kind of precharge.\<close>

definition pre_done :: "dram_cfg \<Rightarrow> nat \<Rightarrow> tick \<Rightarrow> (dram_rank \<Rightarrow> dram_rank) \<Rightarrow> dram_rank \<Rightarrow> dram_rank" where
  "pre_done c bi pre_at g r =
     (upd_bank bi (delay_act (pre_at + tRP c)) (g (close_row bi r)))
       \<lparr>numBanksActive := dec32 (numBanksActive r)\<rparr>"

lemma close_row_simps [simp]:
  "banks (close_row bi r) = (banks r)[bi := (banks r ! bi)\<lparr>openRow := NO_ROW\<rparr>]"
  "actTicks (close_row bi r) = actTicks r" "numBanksActive (close_row bi r) = numBanksActive r"
  "activateEvent (close_row bi r) = activateEvent r" "cmdList (close_row bi r) = cmdList r"
  "prechargeEvent (close_row bi r) = prechargeEvent r"
  "outstandingEvents (close_row bi r) = outstandingEvents r"
  by (simp_all add: close_row_def)

lemma rank_ok_frame:
  assumes "rank_ok c r" and "numBanksActive r' = numBanksActive r" and "actTicks r' = actTicks r"
    and "map openRow (banks r') = map openRow (banks r)"
    and "\<And>i. i < length (banks r) \<Longrightarrow> actAllowedAt (banks r ! i) \<le> actAllowedAt (banks r' ! i)"
  shows "rank_ok c r'"
proof -
  have l: "length (banks r') = length (banks r)" using assms(4) by (metis length_map)
  have "bank_after c (actTicks r) (banks r' ! i)" if "i < length (banks r')" for i
    using bank_after_mono[of c "actTicks r" "banks r ! i" "banks r' ! i"] assms(1,5) that l
    by (simp add: rank_ok_def)
  then have "\<forall>b \<in> set (banks r'). bank_after c (actTicks r') b"
    unfolding assms(3) by (metis in_set_conv_nth)
  moreover have "open_banks r' = open_banks r" by (rule open_banks_cong[OF assms(4)])
  ultimately show ?thesis using assms(1-3) l by (simp add: rank_ok_def)
qed

lemma rank_ok_map_banks:
  assumes "rank_ok c r" and "\<And>b. openRow (f b) = openRow b" and "\<And>b. actAllowedAt b \<le> actAllowedAt (f b)"
  shows "rank_ok c (map_banks f r)"
  by (rule rank_ok_frame[OF assms(1)]) (simp_all add: assms comp_def)

lemma rank_ok_upd_bank:
  assumes "rank_ok c r" and "\<And>b. openRow (f b) = openRow b" and "\<And>b. actAllowedAt b \<le> actAllowedAt (f b)"
  shows "rank_ok c (upd_bank i f r)"
proof (rule rank_ok_frame[OF assms(1)])
  show "map openRow (banks (upd_bank i f r)) = map openRow (banks r)"
    by (metis assms(2) bank_upd_simps(1) list_update_id map_update)
  show "actAllowedAt (banks r ! j) \<le> actAllowedAt (banks (upd_bank i f r) ! j)" if "j < length (banks r)" for j
    using that assms(3) by (cases "i = j") simp_all
qed simp_all

lemma precharge_core:
  assumes cfg: "cfg_ok c" and ok: "rank_ok c r" and bi: "bi < length (banks r)"
    and opn: "openRow (banks r ! bi) \<noteq> NO_ROW"
    and g: "g = map_banks f \<or> g = upd_bank bi f"
    and f: "\<And>b. openRow (f b) = openRow b" "\<And>b. actAllowedAt b \<le> actAllowedAt (f b)"
  shows "rank_ok c (pre_done c bi pre_at g r)" "0 < numBanksActive r"
    "dec32 (numBanksActive r) + 1 = numBanksActive r"
    "openRow (banks (pre_done c bi pre_at g r) ! bi) = NO_ROW"
    "pre_at + tRP c \<le> actAllowedAt (banks (pre_done c bi pre_at g r) ! bi)"
proof -
  have len: "length (banks r) = banksPerRank c" using ok by (simp add: rank_ok_def)
  have cl: "open_banks (close_row bi r) + 1 = open_banks r"
    using length_filter_update[OF bi, of "\<lambda>b. openRow b \<noteq> NO_ROW" "(banks r ! bi)\<lparr>openRow := NO_ROW\<rparr>"] opn
    by (simp add: open_banks_def)
  have le: "open_banks r < u32_size"
    using cfg len length_filter_le[of "\<lambda>b. openRow b \<noteq> NO_ROW" "banks r"]
    by (simp add: open_banks_def cfg_ok_def)
  then have dec: "dec32 (numBanksActive r) + 1 = numBanksActive r"
    using ok cl by (simp add: rank_ok_def dec32_pos)
  define r1 where "r1 = (close_row bi r)\<lparr>numBanksActive := dec32 (numBanksActive r)\<rparr>"
  have "open_banks r1 = open_banks (close_row bi r)" by (rule open_banks_cong) (simp add: r1_def)
  then have "numBanksActive r1 = open_banks r1" using dec cl ok by (simp add: r1_def rank_ok_def)
  moreover have "bank_after c (actTicks r1) (banks r1 ! i)" if "i < length (banks r1)" for i
  proof (rule bank_after_mono)
    show "bank_after c (actTicks r1) (banks r ! i)" using ok that by (simp add: r1_def rank_ok_def)
    show "actAllowedAt (banks r ! i) \<le> actAllowedAt (banks r1 ! i)"
      using that by (cases "i = bi") (simp_all add: r1_def)
  qed
  then have "\<forall>b \<in> set (banks r1). bank_after c (actTicks r1) b" by (metis in_set_conv_nth)
  ultimately have "rank_ok c r1" using ok by (simp add: rank_ok_def r1_def)
  then have "rank_ok c (g r1)" using g rank_ok_map_banks[OF _ f] rank_ok_upd_bank[OF _ f] by metis
  moreover have "pre_done c bi pre_at g r = upd_bank bi (delay_act (pre_at + tRP c)) (g r1)"
    using g by (auto simp add: pre_done_def r1_def upd_bank_def map_banks_def)
  ultimately show "rank_ok c (pre_done c bi pre_at g r)"
    using rank_ok_upd_bank by simp
  show "0 < numBanksActive r" using dec by simp
  show "dec32 (numBanksActive r) + 1 = numBanksActive r" by (rule dec)
  show "openRow (banks (pre_done c bi pre_at g r) ! bi) = NO_ROW"
    using bi f(1) g by (auto simp add: pre_done_def)
  show "pre_at + tRP c \<le> actAllowedAt (banks (pre_done c bi pre_at g r) ! bi)"
    using bi g by (auto simp add: pre_done_def)
qed

lemma rank_ok_extra:
  "rank_ok c r \<Longrightarrow> rank_ok c (r\<lparr>prechargeEvent := ev, outstandingEvents := n\<rparr>)"
  "rank_ok c r \<Longrightarrow> rank_ok c (r\<lparr>prechargeEvent := ev\<rparr>)"
  "rank_ok c r \<Longrightarrow> rank_ok c (push_cmd t b at r)"
  by (erule rank_ok_frame; simp)+

lemma pre_event_ok:
  assumes "now \<le> t"
  obtains r' where "pre_event now t r = Inr r'" "banks r' = banks r" "actTicks r' = actTicks r"
    "numBanksActive r' = numBanksActive r" "cmdList r' = cmdList r" "prechargeEvent r' \<noteq> None"
    "t \<le> the (prechargeEvent r')" "same_mode r r'"
proof (cases "prechargeEvent r")
  case None
  then show thesis
    using that[of "r\<lparr>prechargeEvent := Some t, outstandingEvents := inc8 (outstandingEvents r)\<rparr>"] assms
    by (simp add: pre_event_def schedule_def same_mode_def)
next
  case (Some x)
  show thesis
  proof (cases "x < t")
    case True
    then show thesis using that[of "r\<lparr>prechargeEvent := Some t\<rparr>"] Some assms
      by (simp add: pre_event_def reschedule_def same_mode_def)
  next
    case False
    then show thesis using that[of r] Some by (simp add: pre_event_def)
  qed
qed

lemma precharge_lemma:
  assumes cfg: "cfg_ok c" and w: "0 < w" and ok: "rank_ok c r" and bi: "bi < length (banks r)"
    and opn: "openRow (banks r ! bi) \<noteq> NO_ROW" and at: "now \<le> pre_tick"
  obtains r' bt' pre_at g f where
    "prechargeBank c w now bi pre_tick auto_or_preall trace (r, bt) = Inr (r', bt')"
    "rank_ok c r'" "pre_tick \<le> pre_at" "banks r' = banks (pre_done c bi pre_at g r)"
    "g = map_banks f \<or> g = upd_bank bi f" "\<forall>b. openRow (f b) = openRow b"
    "\<forall>b. actAllowedAt (f b) = actAllowedAt b"
    "actTicks r' = actTicks r"
    "cmdList r' = cmdList r @ (if trace then [new_command PRE (bk_bank (banks r' ! bi)) pre_at] else [])"
    "numBanksActive r' + 1 = numBanksActive r"
    "pre_at + tRP c \<le> the (prechargeEvent r')" "prechargeEvent r' \<noteq> None"
    "same_mode r r'" "col_le r r'"
proof -
  obtain pre_at bt' g f where slot: "pre_slot c w bi pre_tick auto_or_preall (close_row bi r, bt) =
      Inr (pre_at, g (close_row bi r), bt')" "pre_tick \<le> pre_at" and g: "g = map_banks f \<or> g = upd_bank bi f"
    and f: "\<And>b. openRow (f b) = openRow b" "\<And>b. actAllowedAt (f b) = actAllowedAt b"
      "\<And>b. rdAllowedAt (f b) = rdAllowedAt b" "\<And>b. wrAllowedAt (f b) = wrAllowedAt b"
  proof (cases auto_or_preall)
    case True
    then show thesis by (intro that[of pre_tick "upd_bank bi (\<lambda>b. b\<lparr>preAllowedAt := pre_tick\<rparr>)"
          bt "\<lambda>b. b\<lparr>preAllowedAt := pre_tick\<rparr>"]) (simp_all add: pre_slot_def)
  next
    case False
    obtain p bt' where v: "verifySingleCmd w pre_tick (maxCommandsPerWindow c) bt = Inr (p, bt')" "pre_tick \<le> p"
      using verifySingle_total[OF w, of "maxCommandsPerWindow c"] cfg unfolding cfg_ok_def by blast
    show thesis by (intro that[of p "map_banks (\<lambda>b. b\<lparr>preAllowedAt := max (p + tPPD c) (preAllowedAt b)\<rparr>)"
          bt' "\<lambda>b. b\<lparr>preAllowedAt := max (p + tPPD c) (preAllowedAt b)\<rparr>"]) (simp_all add: pre_slot_def False v)
  qed
  have gs: "numBanksActive (g x) = numBanksActive x" "actTicks (g x) = actTicks x" "cmdList (g x) = cmdList x" for x
    using g by auto
  have f2: "actAllowedAt b \<le> actAllowedAt (f b)" for b by (simp add: f(2))
  note core = precharge_core[OF cfg ok bi opn g f(1) f2]
  define r3 where "r3 = pre_done c bi pre_at g r"
  define r4 where "r4 = (if trace then push_cmd PRE (bk_bank (banks r3 ! bi)) pre_at r3 else r3)"
  have s3: "actTicks r3 = actTicks r" "cmdList r3 = cmdList r" "numBanksActive r3 = dec32 (numBanksActive r)"
    by (simp_all add: r3_def pre_done_def gs)
  have "now \<le> pre_at + tRP c" using at slot(2) by simp
  then obtain r5 where r5: "pre_event now (pre_at + tRP c) r4 = Inr r5" "banks r5 = banks r4"
    "actTicks r5 = actTicks r4" "numBanksActive r5 = numBanksActive r4" "cmdList r5 = cmdList r4"
    "prechargeEvent r5 \<noteq> None" "pre_at + tRP c \<le> the (prechargeEvent r5)"
    "same_mode r4 r5" by (rule pre_event_ok)
  have run: "prechargeBank c w now bi pre_tick auto_or_preall trace (r, bt) = Inr (r5, bt')"
  proof -
    define x where "x = upd_bank bi (delay_act (pre_at + tRP c)) (g (close_row bi r))"
    have x: "r3 = x\<lparr>numBanksActive := dec32 (numBanksActive r)\<rparr>" by (simp add: r3_def pre_done_def x_def)
    have n: "numBanksActive x = numBanksActive r" by (simp add: x_def gs)
    show ?thesis
      using opn slot(1) core(2) r5(1)
      by (cases trace) (simp_all add: prechargeBank_def Let_def x_def[symmetric] n gs r4_def x)
  qed
  have "rank_ok c r3" unfolding r3_def by (rule core(1))
  then have "rank_ok c r4" by (simp add: r4_def rank_ok_extra)
  then have ok5: "rank_ok c r5" by (rule rank_ok_frame) (simp_all add: r5)
  have b4: "banks r4 = banks r3" "actTicks r4 = actTicks r3" "numBanksActive r4 = numBanksActive r3"
    "cmdList r4 = cmdList r3 @ (if trace then [new_command PRE (bk_bank (banks r3 ! bi)) pre_at] else [])"
    by (simp_all add: r4_def)
  show thesis
  proof (rule that[OF run ok5 slot(2) _ g])
    show "\<forall>b. openRow (f b) = openRow b" "\<forall>b. actAllowedAt (f b) = actAllowedAt b" using f by simp_all
    show "banks r5 = banks (pre_done c bi pre_at g r)" by (simp add: r5 b4 r3_def)
    show "actTicks r5 = actTicks r" by (simp add: r5 b4 s3)
    show "cmdList r5 = cmdList r @ (if trace then [new_command PRE (bk_bank (banks r5 ! bi)) pre_at] else [])"
      by (simp add: r5 b4 s3)
    show "numBanksActive r5 + 1 = numBanksActive r" using core(3) by (simp add: r5 b4 s3)
    show "pre_at + tRP c \<le> the (prechargeEvent r5)" "prechargeEvent r5 \<noteq> None" using r5 by simp_all
    have m0: "same_mode r (close_row bi r)" by (simp add: close_row_def same_mode_def upd_bank_def)
    have "same_mode r (g (close_row bi r))" using g m0 by auto
    then have "same_mode r r4" by (simp add: r4_def r3_def pre_done_def same_mode_def upd_bank_def push_cmd_def)
    then show "same_mode r r5" using r5(8) mode_trans by blast
    have b: "banks r5 = banks (upd_bank bi (delay_act (pre_at + tRP c)) (g (close_row bi r)))"
      by (simp add: r5 b4 r3_def pre_done_def)
    have "col_le r (close_row bi r)"
      by (auto simp add: col_le_nth nth_upd)
    moreover have "col_le (close_row bi r) (g (close_row bi r))"
      using g col_le_map_banks[of f] col_le_upd_bank[of f] f(3,4) by auto
    moreover have "col_le (g (close_row bi r)) (upd_bank bi (delay_act (pre_at + tRP c)) (g (close_row bi r)))"
      by (rule col_le_upd_bank) simp_all
    ultimately have "col_le r (upd_bank bi (delay_act (pre_at + tRP c)) (g (close_row bi r)))"
      using col_le_trans by blast
    then show "col_le r r5" unfolding col_le_def b .
  qed
qed

lemma act_open_simps:
  assumes "bi < length (banks r)"
  shows "banks (act_open c bi act_at row r) =
      map (enforce_tRRD c act_at (bankgr (banks r ! bi)))
        ((banks r)[bi := act_bank c act_at (open_row row (banks r ! bi))])"
    "cmdList (act_open c bi act_at row r) = cmdList r @ [new_command ACT (bk_bank (banks r ! bi)) act_at]"
    "numBanksActive (act_open c bi act_at row r) = inc32 (numBanksActive r)"
    "same_mode r (act_open c bi act_at row r)" "col_le r (act_open c bi act_at row r)"
  using assms by (simp_all add: act_open_def Let_def)
    (auto simp add: same_mode_def col_le_nth nth_list_update upd_bank_def map_banks_def)

section \<open>Properties\<close>

lemma new_rank_ok: "rank_ok c (new_rank c k)"
proof -
  have "openRow (init_bank c b) = NO_ROW" for b by (simp add: init_bank_def new_bank_def)
  moreover have "hd (replicate n (0::nat)) = 0 \<and> last (replicate n (0::nat)) = 0" if "n \<noteq> 0" for n
    using that by (cases n) (simp_all add: last_replicate)
  ultimately show ?thesis
    by (auto simp: rank_ok_def new_rank_def open_banks_def bank_after_def sorted_wrt_iff_nth_less)
qed

text \<open>
  Activating a closed bank no earlier than it allows always succeeds, so neither the assertions on
  the open row and on the number of open banks fail nor the \<open>tXAW\<close> panic is reached. The activation is not before
  the requested tick, keeps \<open>tRRD\<close> from the newest and \<open>tXAW\<close> from the oldest of the last
  \<open>activationLimit\<close> activations, opens exactly that row, records one ACT command, and keeps the
  invariant of the rank.
\<close>

theorem activate_respects_windows:
  assumes "cfg_ok c" and "0 < w" and "rank_ok c r" and "bi < length (banks r)"
    and "openRow (banks r ! bi) = NO_ROW" and "row \<noteq> NO_ROW"
    and "actAllowedAt (banks r ! bi) \<le> act_tick" and "now \<le> act_tick"
  shows "\<exists>r' bt' act_at. activateBank c w now bi act_tick row (r, bt) = Inr (r', bt') \<and> rank_ok c r' \<and>
    act_tick \<le> act_at \<and> map openRow (banks r') = (map openRow (banks r))[bi := row] \<and>
    cmdList r' = cmdList r @ [new_command ACT (bk_bank (banks r ! bi)) act_at] \<and>
    actTicks r' = act_shift act_at (actTicks r) \<and>
    (actTicks r = [] \<or> (hd (actTicks r) = 0 \<or> hd (actTicks r) + tRRD c \<le> act_at) \<and>
      (last (actTicks r) = 0 \<or> last (actTicks r) + tXAW c \<le> act_at))"
proof -
  obtain r' act_at bt' d ev where r: "r' = (map_banks (delay_act d) ((act_open c bi act_at row r)
              \<lparr>actTicks := act_shift act_at (actTicks r)\<rparr>))\<lparr>activateEvent := Some ev\<rparr>"
    "activateBank c w now bi act_tick row (r, bt) = Inr (r', bt')" "rank_ok c r'" "act_tick \<le> act_at" "ev \<le> act_at"
    "actTicks r = [] \<or> (hd (actTicks r) = 0 \<or> hd (actTicks r) + tRRD c \<le> act_at) \<and>
       (last (actTicks r) = 0 \<or> last (actTicks r) + tXAW c \<le> act_at)"
    by (rule activate_lemma[OF assms, of bt], rule that)
  have "map openRow (banks r') = (map openRow (banks r))[bi := row]"
    using assms(4) by (simp add: r(1) act_open_simps comp_def map_update)
  moreover have "cmdList r' = cmdList r @ [new_command ACT (bk_bank (banks r ! bi)) act_at]"
    using assms(4) by (simp add: r(1) act_open_simps)
  moreover have "actTicks r' = act_shift act_at (actTicks r)" by (simp add: r(1))
  ultimately show ?thesis using r(2-) by blast
qed

theorem activate_respects_windows_witness:
  "\<exists>r' bt'. activateBank ddr4_2400 10000 0 3 100 7 (new_rank ddr4_2400 0, {#}) = Inr (r', bt') \<and>
     rank_ok ddr4_2400 r'"
proof -
  let ?r = "new_rank ddr4_2400 0"
  have l: "3 < length (banks ?r)" by (simp add: new_rank_def ddr4_2400_def)
  have b: "banks ?r ! 3 = init_bank ddr4_2400 3" by (simp add: new_rank_def ddr4_2400_def)
  have "cfg_ok ddr4_2400" by (simp add: cfg_ok_def ddr4_2400_def bankGroupArch_def)
  moreover have "openRow (banks ?r ! 3) = NO_ROW" unfolding b by (simp add: init_bank_def new_bank_def)
  moreover have "actAllowedAt (banks ?r ! 3) \<le> 100" unfolding b by (simp add: init_bank_def new_bank_def)
  ultimately show ?thesis
    using activate_respects_windows[of ddr4_2400 10000 ?r 3 7 100 0 "{#}"] l new_rank_ok
    by (auto simp: NO_ROW_def)
qed

text \<open>
  Precharging an open bank at or after the current tick always succeeds, so the assertions on the
  open row and on the number of open banks hold. It closes that bank only, which may not be activated
  before \<open>tRP\<close> after the precharge, counts one open bank less, leaves the remembered activations alone,
  has an event pending at or after its completion, and keeps the invariant of the rank.
\<close>

theorem precharge_closes_bank:
  assumes "cfg_ok c" and "0 < w" and "rank_ok c r" and "bi < length (banks r)"
    and "openRow (banks r ! bi) \<noteq> NO_ROW" and "now \<le> pre_tick"
  shows "\<exists>r' bt' pre_at. prechargeBank c w now bi pre_tick auto_or_preall trace (r, bt) = Inr (r', bt') \<and>
    rank_ok c r' \<and> pre_tick \<le> pre_at \<and> map openRow (banks r') = (map openRow (banks r))[bi := NO_ROW] \<and>
    numBanksActive r' + 1 = numBanksActive r \<and> actTicks r' = actTicks r \<and>
    pre_at + tRP c \<le> actAllowedAt (banks r' ! bi) \<and>
    (\<exists>t. prechargeEvent r' = Some t \<and> pre_at + tRP c \<le> t)"
proof -
  obtain r' bt' pre_at g f where r:
    "prechargeBank c w now bi pre_tick auto_or_preall trace (r, bt) = Inr (r', bt')"
    "rank_ok c r'" "pre_tick \<le> pre_at" "banks r' = banks (pre_done c bi pre_at g r)"
    "g = map_banks f \<or> g = upd_bank bi f" "\<forall>b. openRow (f b) = openRow b"
    "\<forall>b. actAllowedAt (f b) = actAllowedAt b" "actTicks r' = actTicks r"
    "cmdList r' = cmdList r @ (if trace then [new_command PRE (bk_bank (banks r' ! bi)) pre_at] else [])"
    "numBanksActive r' + 1 = numBanksActive r"
    "pre_at + tRP c \<le> the (prechargeEvent r')" "prechargeEvent r' \<noteq> None" "same_mode r r'" "col_le r r'"
    by (rule precharge_lemma[OF assms, of auto_or_preall trace bt], rule that)
  have g: "map openRow (banks (g x)) = map openRow (banks x) \<and> length (banks (g x)) = length (banks x)" for x
    using r(5,6) by (auto simp: comp_def map_update)
       (metis list_update_id map_update)
  have "map openRow (banks r') = map openRow (banks (g (close_row bi r)))"
    unfolding r(4) pre_done_def by (simp add: map_update) (metis list_update_id map_update)
  also have "\<dots> = (map openRow (banks r))[bi := NO_ROW]" using g by (simp add: map_update)
  finally have "map openRow (banks r') = (map openRow (banks r))[bi := NO_ROW]" .
  moreover have "pre_at + tRP c \<le> actAllowedAt (banks r' ! bi)"
    using g[of "close_row bi r"] assms(4) unfolding r(4) pre_done_def by simp
  ultimately show ?thesis using r by (cases "prechargeEvent r'") auto
qed

lemma ddr4_ok: "cfg_ok ddr4_2400"
  by (simp add: cfg_ok_def ddr4_2400_def bankGroupArch_def)

text \<open>A rank with row 7 of bank 0 open.\<close>

lemma one_open_rank:
  obtains r where "rank_ok ddr4_2400 r" "length (banks r) = 16" "openRow (banks r ! 0) = 7"
proof -
  let ?r = "new_rank ddr4_2400 0"
  have l: "length (banks ?r) = 16" by (simp add: new_rank_def ddr4_2400_def)
  have b: "banks ?r ! 0 = init_bank ddr4_2400 0" by (simp add: new_rank_def ddr4_2400_def)
  have h: "0 < length (banks ?r)" "openRow (banks ?r ! 0) = NO_ROW" "(7::nat) \<noteq> NO_ROW"
    "actAllowedAt (banks ?r ! 0) \<le> 100" "(0::nat) \<le> 100" "(0::nat) < 10000"
    by (simp_all only: b l) (simp_all add: init_bank_def new_bank_def NO_ROW_def)
  obtain r' act_at bt' d ev where r: "r' = (map_banks (delay_act d) ((act_open ddr4_2400 0 act_at 7 ?r)
              \<lparr>actTicks := act_shift act_at (actTicks ?r)\<rparr>))\<lparr>activateEvent := Some ev\<rparr>"
    "activateBank ddr4_2400 10000 0 0 100 7 (?r, {#}) = Inr (r', bt')" "rank_ok ddr4_2400 r'" "100 \<le> act_at"
    by (rule activate_lemma[OF ddr4_ok h(6) new_rank_ok h(1-5), of "{#}"], rule that)
  have "length (banks r') = 16" "openRow (banks r' ! 0) = 7"
    using l by (simp_all add: r(1) act_open_simps)
  then show thesis using that r(3) by blast
qed

theorem precharge_closes_bank_witness:
  "\<exists>r r' bt'. prechargeBank ddr4_2400 10000 0 0 50000 False True (r, {#}) = Inr (r', bt') \<and>
     numBanksActive r' + 1 = numBanksActive r"
proof -
  obtain r where r: "rank_ok ddr4_2400 r" "length (banks r) = 16" "openRow (banks r ! 0) = 7"
    by (rule one_open_rank)
  then have "0 < length (banks r)" "openRow (banks r ! 0) \<noteq> NO_ROW" by (simp_all add: NO_ROW_def)
  from precharge_closes_bank[OF ddr4_ok _ r(1) this, of 10000 0 50000 False True "{#}"]
  show ?thesis by auto
qed

end
