(* ===== verification/Dram_Burst.thy ===== *)
theory Dram_Burst
  imports Dram_Bank
begin

text \<open>
  A column access of the DRAM interface: \<open>doBurstAccess\<close> and \<open>addRankToRankDelay\<close> of
  \<open>mem/mem_interface.cc\<close>, with the row commands it needs, the bus and interleaving constraints, the
  timing it leaves in every bank, the page policy, and the counters and events it updates.
  The lemmas show that an access never fails on a rank that keeps its invariant, and that any
  sequence of accesses respects the activation windows of each rank and keeps data bursts apart.
\<close>

section \<open>Model\<close>

text \<open>\<open>class DRAMInterface\<close>: the ranks, the rank of the last access, and the counters of \<open>DRAMStats\<close>.\<close>

record dram =
  ranks :: "dram_rank list"
  activeRank :: nat
  timeStampOffset :: nat
  readBursts :: nat
  writeBursts :: nat
  perBankRdBursts :: "nat \<Rightarrow> nat"
  perBankWrBursts :: "nat \<Rightarrow> nat"
  totQLat :: nat
  totBusLat :: nat
  totMemAccLat :: nat
  readRowHits :: nat
  writeRowHits :: nat
  bytesRead :: nat
  bytesWritten :: nat

definition wake_for_burst :: "dram_cfg \<Rightarrow> tick \<Rightarrow> dram_rank \<Rightarrow> dram_rank res" where
  "wake_for_burst c now r =
     (if inLowPowerState r then rassert (pwrState r \<noteq> PWR_SREF) (scheduleWakeUpEvent now (tXP c) r)
      else Inr r)"

text \<open>Open the row of the packet, closing another one first; the flag tells a row hit.\<close>

definition prepare_row ::
    "dram_cfg \<Rightarrow> tick \<Rightarrow> tick \<Rightarrow> nat \<Rightarrow> nat \<Rightarrow> dram_rank \<times> tick multiset \<Rightarrow>
     (dram_rank \<times> tick multiset \<times> bool) res" where
  "prepare_row c w now bi row rb =
     (case rb of (r, bt) \<Rightarrow>
      let b = banks r ! bi
      in if openRow b = row then Inr (r, bt, True)
         else rbind (if openRow b \<noteq> NO_ROW
                     then prechargeBank c w now bi (max (preAllowedAt b) now) False True (r, bt)
                     else Inr (r, bt)) (\<lambda>(r1, bt1).
              rbind (activateBank c w now bi (max (actAllowedAt (banks r1 ! bi)) now) row (r1, bt1))
                (\<lambda>(r2, bt2). Inr (r2, bt2, False))))"

definition col_allowed :: "bool \<Rightarrow> dram_bank \<Rightarrow> tick" where
  "col_allowed is_read b = (if is_read then rdAllowedAt b else wrAllowedAt b)"

definition burst_earliest :: "dram_cfg \<Rightarrow> tick \<Rightarrow> mem_packet \<Rightarrow> tick \<Rightarrow> tick \<Rightarrow> tick" where
  "burst_earliest c now pkt col_allowed_at next_burst_at =
     (if rh_injectDelay pkt \<and> rh_bubbleSize pkt = 90000
      then max (max col_allowed_at (sub_tick (sub_tick next_burst_at (tCL c)) (tBURST c))) now
      else max (max col_allowed_at next_burst_at) now)"

definition burst_slot ::
    "dram_cfg \<Rightarrow> tick \<Rightarrow> tick \<Rightarrow> tick \<Rightarrow> tick multiset \<Rightarrow> (tick \<times> tick multiset) res" where
  "burst_slot c w last_burst cmd_at bt =
     (if dataClockSync c \<and> clkResyncDelay c < sub_tick cmd_at last_burst
      then verifyMultiCmd w cmd_at (maxCommandsPerWindow c) (tCK c) bt
      else verifySingleCmd w cmd_at (maxCommandsPerWindow c) bt)"

text \<open>The tick of the command after interleaving, and the gap to the next burst.\<close>

definition interleave :: "dram_cfg \<Rightarrow> tick \<Rightarrow> tick \<Rightarrow> tick \<times> tick" where
  "interleave c last_burst cmd_at =
     (if burstInterleave c
      then if cmd_at = last_burst + tBURST_MIN c then (cmd_at, tBURST c)
           else if cmd_at < last_burst + tBURST c then (last_burst + tBURST c, tBURST_MIN c)
           else (cmd_at, tBURST_MIN c)
      else (cmd_at, tBURST_MIN c))"

text \<open>The delays from this command to the next read and the next write of a bank.\<close>

definition burst_delays :: "dram_cfg \<Rightarrow> bool \<Rightarrow> tick \<Rightarrow> bool \<Rightarrow> bool \<Rightarrow> tick \<times> tick" where
  "burst_delays c is_read burst_gap same_rank same_group =
     (if same_rank
      then if bankGroupArch c \<and> same_group
           then (if is_read then tCCD_L c else max (tCCD_L c) (wrToRdDlySameBG c),
                 if is_read then max (tCCD_L c) (rdToWrDlySameBG c) else tCCD_L_WR c)
           else (if is_read then burst_gap else writeToReadDelay c,
                 if is_read then readToWriteDelay c else burst_gap)
      else (rankToRankDelay c, rankToRankDelay c))"

definition col_delay :: "tick \<Rightarrow> tick \<Rightarrow> dram_bank \<Rightarrow> dram_bank" where
  "col_delay rd wr b = b\<lparr>rdAllowedAt := max rd (rdAllowedAt b), wrAllowedAt := max wr (wrAllowedAt b)\<rparr>"

definition burst_bank :: "dram_cfg \<Rightarrow> bool \<Rightarrow> tick \<Rightarrow> tick \<Rightarrow> nat \<Rightarrow> bool \<Rightarrow> dram_bank \<Rightarrow> dram_bank" where
  "burst_bank c is_read cmd_at burst_gap grp same_rank b =
     (case burst_delays c is_read burst_gap same_rank (grp = bankgr b) of
        (dly_to_rd_cmd, dly_to_wr_cmd) \<Rightarrow> col_delay (cmd_at + dly_to_rd_cmd) (cmd_at + dly_to_wr_cmd) b)"

definition burst_ranks ::
    "dram_cfg \<Rightarrow> bool \<Rightarrow> tick \<Rightarrow> tick \<Rightarrow> nat \<Rightarrow> nat \<Rightarrow> dram_rank list \<Rightarrow> dram_rank list" where
  "burst_ranks c is_read cmd_at burst_gap j grp rs =
     map (\<lambda>i. map_banks (burst_bank c is_read cmd_at burst_gap grp (i = j)) (rs ! i)) [0..<length rs]"

text \<open>The page policy: other queued packets to the same row, and to another row of the bank.\<close>

fun scan_queue :: "mem_packet \<Rightarrow> mem_packet list \<Rightarrow> bool \<times> bool \<Rightarrow> bool \<times> bool" where
  "scan_queue pkt [] s = s"
| "scan_queue pkt (p # q) (got_more_hits, got_bank_conflict) =
     (if got_more_hits then (got_more_hits, got_bank_conflict)
      else scan_queue pkt q
        (if mp_id pkt \<noteq> mp_id p
         then let same_rank_bank = (mp_rank pkt = mp_rank p \<and> mp_bank pkt = mp_bank p);
                  same_row = (mp_row pkt = mp_row p)
              in (got_more_hits \<or> same_rank_bank \<and> same_row, got_bank_conflict \<or> same_rank_bank \<and> \<not> same_row)
         else (got_more_hits, got_bank_conflict)))"

fun scan_queues :: "mem_packet \<Rightarrow> mem_packet list list \<Rightarrow> bool \<times> bool \<Rightarrow> bool \<times> bool" where
  "scan_queues pkt [] s = s"
| "scan_queues pkt (q # qs) s =
     (let s' = scan_queue pkt q s in if fst s' then s' else scan_queues pkt qs s')"

definition auto_precharge :: "dram_cfg \<Rightarrow> mem_packet \<Rightarrow> mem_packet list list \<Rightarrow> dram_bank \<Rightarrow> bool" where
  "auto_precharge c pkt queue b =
     (if pageMgmt c = close_page \<or> rowAccesses b = maxAccessesPerRow c then True
      else if pageMgmt c = open_adaptive \<or> pageMgmt c = close_adaptive
      then case scan_queues pkt queue (False, False) of (got_more_hits, got_bank_conflict) \<Rightarrow>
             \<not> got_more_hits \<and> (got_bank_conflict \<or> pageMgmt c = close_adaptive)
      else False)"

text \<open>The accessed bank after the command, and the automatic precharge.\<close>

definition used_bank :: "dram_cfg \<Rightarrow> mem_packet \<Rightarrow> tick \<Rightarrow> dram_bank \<Rightarrow> dram_bank" where
  "used_bank c pkt cmd_at b =
     b\<lparr>preAllowedAt := max (preAllowedAt b) (if mp_read pkt then cmd_at + tRTP c else readyTime pkt + tWR c),
       bytesAccessed := (bytesAccessed b + burstSize c) mod u32_size,
       rowAccesses := inc32 (rowAccesses b)\<rparr>"

definition burst_close ::
    "dram_cfg \<Rightarrow> tick \<Rightarrow> tick \<Rightarrow> mem_packet \<Rightarrow> tick \<Rightarrow> mem_packet list list \<Rightarrow> dram_rank \<times> tick multiset \<Rightarrow>
     (dram_rank \<times> tick multiset) res" where
  "burst_close c w now pkt cmd_at queue rb =
     (case rb of (r, bt) \<Rightarrow>
      let bi = mp_bank pkt;
          r1 = upd_bank bi (used_bank c pkt cmd_at) r;
          r2 = push_cmd (if mp_read pkt then RD else WR) bi cmd_at r1
      in if auto_precharge c pkt queue (banks r1 ! bi)
         then prechargeBank c w now bi (max now (preAllowedAt (banks r2 ! bi))) True True (r2, bt)
         else Inr (r2, bt))"

text \<open>Counters and the event of the end of a write.\<close>

definition burst_events :: "tick \<Rightarrow> mem_packet \<Rightarrow> dram_rank \<Rightarrow> dram_rank res" where
  "burst_events now pkt r =
     (if mp_read pkt then Inr (r\<lparr>outstandingEvents := inc8 (outstandingEvents r)\<rparr>)
      else rbind
        (case writeDoneEvent r of
           None \<Rightarrow> rbind (schedule now (readyTime pkt) (writeDoneEvent r)) (\<lambda>ev.
             Inr (r\<lparr>writeDoneEvent := ev, outstandingEvents := inc8 (outstandingEvents r)\<rparr>))
         | Some t \<Rightarrow> if t < readyTime pkt
             then rbind (reschedule now (readyTime pkt) (writeDoneEvent r)) (\<lambda>ev. Inr (r\<lparr>writeDoneEvent := ev\<rparr>))
             else Inr r)
        (\<lambda>r1. Inr (r1\<lparr>writeEntries := dec32 (writeEntries r1)\<rparr>)))"

definition burst_stats :: "dram_cfg \<Rightarrow> mem_packet \<Rightarrow> tick \<Rightarrow> bool \<Rightarrow> dram \<Rightarrow> dram" where
  "burst_stats c pkt cmd_at row_hit d =
     (if mp_read pkt
      then d\<lparr>readBursts := readBursts d + 1, readRowHits := readRowHits d + of_bool row_hit,
             bytesRead := bytesRead d + burstSize c,
             perBankRdBursts := (perBankRdBursts d)(mp_bankId pkt := perBankRdBursts d (mp_bankId pkt) + 1),
             totMemAccLat := totMemAccLat d + sub_tick (readyTime pkt) (entryTime pkt),
             totQLat := totQLat d + sub_tick cmd_at (entryTime pkt), totBusLat := totBusLat d + tBURST c\<rparr>
      else d\<lparr>writeBursts := writeBursts d + 1, writeRowHits := writeRowHits d + of_bool row_hit,
             bytesWritten := bytesWritten d + burstSize c,
             perBankWrBursts := (perBankWrBursts d)(mp_bankId pkt := perBankWrBursts d (mp_bankId pkt) + 1)\<rparr>)"

text \<open>The bus part of the access: the command tick, the gap, the packet and the ranks after it.\<close>

definition burst_issue ::
    "dram_cfg \<Rightarrow> tick \<Rightarrow> tick \<Rightarrow> mem_packet \<Rightarrow> tick \<Rightarrow> dram \<Rightarrow> dram_rank \<times> tick multiset \<Rightarrow>
     (tick \<times> tick \<times> mem_packet \<times> dram \<times> tick multiset) res" where
  "burst_issue c w now pkt next_burst_at d rb =
     (case rb of (r, bt) \<Rightarrow>
      let b = banks r ! mp_bank pkt
      in rbind (burst_slot c w (lastBurstTick r)
           (burst_earliest c now pkt (col_allowed (mp_read pkt) b) next_burst_at) bt) (\<lambda>(slot, bt').
         case interleave c (lastBurstTick r) slot of (cmd_at, burst_gap) \<Rightarrow>
         let pkt' = pkt\<lparr>readyTime := cmd_at + tCL c + tBURST c\<rparr>;
             rs = (ranks d)[mp_rank pkt := r\<lparr>lastBurstTick := cmd_at\<rparr>]
         in Inr (cmd_at, burst_gap, pkt',
              d\<lparr>ranks := burst_ranks c (mp_read pkt) cmd_at burst_gap (mp_rank pkt) (bankgr b) rs,
                activeRank := mp_rank pkt\<rparr>, bt')))"

definition doBurstAccess ::
    "dram_cfg \<Rightarrow> tick \<Rightarrow> tick \<Rightarrow> mem_packet \<Rightarrow> tick \<Rightarrow> mem_packet list list \<Rightarrow> dram \<times> tick multiset \<Rightarrow>
     ((tick \<times> tick) \<times> mem_packet \<times> dram \<times> tick multiset) res" where
  "doBurstAccess c w now pkt next_burst_at queue db =
     (case db of (d, bt) \<Rightarrow>
      let j = mp_rank pkt in
      rindex (j < length (ranks d))
      (rassert (inRefIdleState (ranks d ! j))
      (rbind (wake_for_burst c now (ranks d ! j)) (\<lambda>r1.
       rindex (mp_bank pkt < length (banks r1))
       (rbind (prepare_row c w now (mp_bank pkt) (mp_row pkt) (r1, bt)) (\<lambda>(r2, bt2, row_hit).
        rbind (burst_issue c w now pkt next_burst_at d (r2, bt2)) (\<lambda>(cmd_at, burst_gap, pkt', d1, bt3).
        rbind (burst_close c w now pkt' cmd_at queue (ranks d1 ! j, bt3)) (\<lambda>(r4, bt4).
        rbind (burst_events now pkt' r4) (\<lambda>r5.
          Inr ((cmd_at, cmd_at + burst_gap), pkt',
               burst_stats c pkt' cmd_at row_hit (d1\<lparr>ranks := (ranks d1)[j := r5]\<rparr>), bt4))))))))))"

definition addRankToRankDelay :: "dram_cfg \<Rightarrow> tick \<Rightarrow> dram \<Rightarrow> dram" where
  "addRankToRankDelay c cmd_at d =
     d\<lparr>ranks := map (map_banks (col_delay (cmd_at + rankToRankDelay c) (cmd_at + rankToRankDelay c))) (ranks d)\<rparr>"

section \<open>The history of activations\<close>

definition acts :: "dram_rank \<Rightarrow> tick list" where
  "acts r = map timeStamp (filter (\<lambda>cmd. cmd_type cmd = ACT) (cmdList r))"

text \<open>
  The remembered ticks are the last activations of the rank; they are \<open>tRRD\<close> apart, and any
  \<open>activationLimit + 1\<close> of them span \<open>tXAW\<close> (the code reads tick 0 as no activation).
\<close>

definition act_hist :: "dram_cfg \<Rightarrow> dram_rank \<Rightarrow> bool" where
  "act_hist c r \<longleftrightarrow>
     actTicks r = take (activationLimit c) (rev (acts r) @ replicate (activationLimit c) 0) \<and>
     (\<forall>i. i + 1 < length (acts r) \<longrightarrow> acts r ! i = 0 \<or> acts r ! i + tRRD c \<le> acts r ! (i + 1)) \<and>
     (\<forall>i. i + activationLimit c < length (acts r) \<longrightarrow>
        acts r ! i = 0 \<or> acts r ! i + tXAW c \<le> acts r ! (i + activationLimit c))"

lemma acts_push [simp]:
  "acts (upd_bank i f r) = acts r" "acts (map_banks f r) = acts r"
  "acts (push_cmd t b at r) = acts r @ (if t = ACT then [at] else [])"
  by (simp_all add: acts_def new_command_def)

lemma hist_hd:
  assumes "act_hist c r" and "0 < activationLimit c" and "acts r \<noteq> []"
  shows "actTicks r \<noteq> []" "hd (actTicks r) = acts r ! (length (acts r) - 1)"
proof -
  have "actTicks r = take (activationLimit c) (rev (acts r) @ replicate (activationLimit c) 0)"
    using assms(1) by (simp add: act_hist_def)
  moreover have "rev (acts r) \<noteq> []" using assms(3) by simp
  ultimately show "actTicks r \<noteq> []" "hd (actTicks r) = acts r ! (length (acts r) - 1)"
    using assms(2,3) by (auto simp: hd_append hd_rev last_conv_nth hd_take)
qed

lemma hist_last:
  assumes "act_hist c r" and "0 < activationLimit c" and "activationLimit c \<le> length (acts r)"
  shows "last (actTicks r) = acts r ! (length (acts r) - activationLimit c)"
proof -
  have "actTicks r = take (activationLimit c) (rev (acts r))"
    using assms by (simp add: act_hist_def)
  moreover have "take (activationLimit c) (rev (acts r)) \<noteq> []" using assms(2,3) by auto
  ultimately show ?thesis
    using assms(2,3) by (simp add: last_conv_nth rev_nth min_def)
qed

lemma act_hist_step:
  assumes h: "act_hist c r" and L: "0 < activationLimit c"
    and t: "actTicks r' = act_shift at (actTicks r)" "acts r' = acts r @ [at]"
    and far: "actTicks r = [] \<or> (hd (actTicks r) = 0 \<or> hd (actTicks r) + tRRD c \<le> at) \<and>
       (last (actTicks r) = 0 \<or> last (actTicks r) + tXAW c \<le> at)"
  shows "act_hist c r'"
proof -
  let ?L = "activationLimit c" and ?n = "length (acts r)"
  have eq: "actTicks r = take ?L (rev (acts r) @ replicate ?L 0)" using h by (simp add: act_hist_def)
  have ne: "actTicks r \<noteq> []" using L by (simp add: eq)
  have "butlast (take ?L xs) = take (?L - 1) xs" if "?L \<le> length xs" for xs :: "tick list"
    using that by (simp add: butlast_take)
  from this[of "rev (acts r) @ replicate ?L 0"]
  have "butlast (actTicks r) = take (?L - 1) (rev (acts r) @ replicate ?L 0)" unfolding eq by simp
  then have "actTicks r' = at # take (?L - 1) (rev (acts r) @ replicate ?L 0)"
    using ne by (simp add: t(1) act_shift_def)
  then have "actTicks r' = take ?L (rev (acts r') @ replicate ?L 0)"
    using L by (cases ?L) (simp_all add: t(2))
  moreover have "acts r' ! i = 0 \<or> acts r' ! i + tRRD c \<le> acts r' ! (i + 1)" if i: "i + 1 < length (acts r')" for i
  proof (cases "i + 1 < ?n")
    case True
    then show ?thesis using h by (simp add: act_hist_def t(2) nth_append)
  next
    case False
    then have "i = ?n - 1" "acts r \<noteq> []" using i by (auto simp: t(2))
    then show ?thesis using hist_hd[OF h L] far ne by (auto simp: t(2) nth_append)
  qed
  moreover have "acts r' ! i = 0 \<or> acts r' ! i + tXAW c \<le> acts r' ! (i + ?L)" if i: "i + ?L < length (acts r')" for i
  proof (cases "i + ?L < ?n")
    case True
    then show ?thesis using h by (simp add: act_hist_def t(2) nth_append)
  next
    case False
    then have "i = ?n - ?L" "?L \<le> ?n" using i by (auto simp: t(2))
    then show ?thesis using hist_last[OF h L] far ne L by (auto simp: t(2) nth_append)
  qed
  ultimately show ?thesis by (simp add: act_hist_def)
qed

lemma act_hist_frame:
  "act_hist c r \<Longrightarrow> actTicks r' = actTicks r \<Longrightarrow> acts r' = acts r \<Longrightarrow> act_hist c r'"
  by (simp add: act_hist_def)

text \<open>A rank that can take an access: its invariants, no refresh, and a wake-up only when possible.\<close>

definition good_rank :: "dram_cfg \<Rightarrow> dram_rank \<Rightarrow> bool" where
  "good_rank c r \<longleftrightarrow> rank_ok c r \<and> act_hist c r \<and> refreshState r = REF_IDLE \<and>
     (inLowPowerState r \<longrightarrow> pwrState r \<noteq> PWR_SREF \<and> wakeUpEvent r = None)"

lemma good_rank_frame:
  assumes "good_rank c r" and "rank_ok c r'" and "actTicks r' = actTicks r" and "acts r' = acts r" and "same_mode r r'"
  shows "good_rank c r'"
  using assms act_hist_frame[of c r r'] by (simp add: good_rank_def same_mode_def)

definition burst_cfg :: "dram_cfg \<Rightarrow> bool" where
  "burst_cfg c \<longleftrightarrow> cfg_ok c \<and> 0 < activationLimit c \<and> tBURST_MIN c \<le> tBURST c \<and>
     (bankGroupArch c \<longrightarrow> tBURST c \<le> tCCD_L c \<and> tBURST c \<le> tCCD_L_WR c)"

section \<open>The parts of an access\<close>

lemma cmd_acts [simp]: "acts (r\<lparr>banks := x\<rparr>) = acts r" "acts (r\<lparr>lastBurstTick := t\<rparr>) = acts r"
  by (simp_all add: acts_def)

lemma wake_for_burst_ok:
  assumes "good_rank c r"
  obtains r' where "wake_for_burst c now r = Inr r'" "good_rank c r'" "col_le r r'"
proof (cases "inLowPowerState r")
  case False
  then show thesis using that[of r] assms by (simp add: wake_for_burst_def)
next
  case True
  let ?t = "max now (wakeUpAllowedAt r)"
  have g: "pwrState r \<noteq> PWR_SREF" "wakeUpEvent r = None" "refreshState r = REF_IDLE"
    using assms True by (simp_all add: good_rank_def)
  define r1 where "r1 = map_banks (wake_bank (?t + tXP c)) (r\<lparr>pwrStatePostRefresh := PWR_IDLE, wakeUpEvent := Some ?t\<rparr>)"
  define r' where "r' = wake_cmd ?t (r1\<lparr>inLowPowerState := False\<rparr>)"
  have run: "wake_for_burst c now r = Inr r'"
    using True g by (simp add: wake_for_burst_def scheduleWakeUpEvent_def schedule_def r'_def r1_def Let_def)
  have b: "banks r' = map (wake_bank (?t + tXP c)) (banks r)" "actTicks r' = actTicks r"
    "numBanksActive r' = numBanksActive r" "inLowPowerState r' = False" "refreshState r' = refreshState r"
    by (simp_all add: r'_def r1_def wake_cmd_def push_cmd_def map_banks_def split: power_state.split)
  have a: "acts r' = acts r"
    by (simp add: r'_def r1_def wake_cmd_def push_cmd_def map_banks_def acts_def new_command_def split: power_state.split)
  have "rank_ok c r'"
    by (rule rank_ok_frame[of c r]) (use assms b in \<open>simp_all add: good_rank_def wake_bank_def comp_def\<close>)
  then have "good_rank c r'"
    using act_hist_frame[of c r r'] assms a b g by (simp add: good_rank_def)
  moreover have "col_le r r'" by (simp add: col_le_nth b wake_bank_def)
  ultimately show thesis using that run by blast
qed

lemma activate_good:
  assumes cfg: "burst_cfg c" and w: "0 < w" and good: "good_rank c r" and bi: "bi < length (banks r)"
    and closed: "openRow (banks r ! bi) = NO_ROW" and row: "row \<noteq> NO_ROW"
  obtains r' bt' where
    "activateBank c w now bi (max (actAllowedAt (banks r ! bi)) now) row (r, bt) = Inr (r', bt')"
    "good_rank c r'" "col_le r r'" "openRow (banks r' ! bi) = row"
proof -
  have cfg': "cfg_ok c" and L: "0 < activationLimit c" using cfg by (simp_all add: burst_cfg_def)
  have ok: "rank_ok c r" using good by (simp add: good_rank_def)
  have at: "actAllowedAt (banks r ! bi) \<le> max (actAllowedAt (banks r ! bi)) now"
    "now \<le> max (actAllowedAt (banks r ! bi)) now" by simp_all
  obtain r' act_at bt' d ev where r: "r' = (map_banks (delay_act d) ((act_open c bi act_at row r)
              \<lparr>actTicks := act_shift act_at (actTicks r)\<rparr>))\<lparr>activateEvent := Some ev\<rparr>"
    "activateBank c w now bi (max (actAllowedAt (banks r ! bi)) now) row (r, bt) = Inr (r', bt')"
    "rank_ok c r'" "max (actAllowedAt (banks r ! bi)) now \<le> act_at" "ev \<le> act_at"
    "actTicks r = [] \<or> (hd (actTicks r) = 0 \<or> hd (actTicks r) + tRRD c \<le> act_at) \<and>
       (last (actTicks r) = 0 \<or> last (actTicks r) + tXAW c \<le> act_at)"
    by (rule activate_lemma[OF cfg' w ok bi closed row at, of bt], rule that)
  have "acts r' = acts r @ [act_at]"
    using bi by (simp add: r(1) acts_def map_banks_def act_open_simps new_command_def)
  moreover have "actTicks r' = act_shift act_at (actTicks r)" by (simp add: r(1))
  ultimately have "act_hist c r'"
    using act_hist_step[OF _ L _ _ r(6), of r'] good by (simp add: good_rank_def)
  moreover have "same_mode r r'"
    using act_open_simps(4)[OF bi, of c act_at row] by (simp add: r(1) same_mode_def map_banks_def)
  ultimately have "good_rank c r'" using good r(3) by (simp add: good_rank_def same_mode_def)
  moreover have "col_le r r'"
    using act_open_simps(5)[OF bi, of c act_at row] by (simp add: r(1) col_le_nth)
  moreover have "openRow (banks r' ! bi) = row" using bi by (simp add: r(1) act_open_simps)
  ultimately show thesis using that r(2) by blast
qed

lemma precharge_good:
  assumes cfg: "burst_cfg c" and w: "0 < w" and good: "good_rank c r" and bi: "bi < length (banks r)"
    and opn: "openRow (banks r ! bi) \<noteq> NO_ROW" and at: "now \<le> pre_tick"
  obtains r' bt' where "prechargeBank c w now bi pre_tick auto trace (r, bt) = Inr (r', bt')"
    "good_rank c r'" "col_le r r'" "openRow (banks r' ! bi) = NO_ROW" "numBanksActive r' + 1 = numBanksActive r"
    "prechargeEvent r' \<noteq> None"
proof -
  have cfg': "cfg_ok c" using cfg by (simp add: burst_cfg_def)
  have ok: "rank_ok c r" using good by (simp add: good_rank_def)
  obtain r' bt' pre_at g f where r:
    "prechargeBank c w now bi pre_tick auto trace (r, bt) = Inr (r', bt')"
    "rank_ok c r'" "pre_tick \<le> pre_at" "banks r' = banks (pre_done c bi pre_at g r)"
    "g = map_banks f \<or> g = upd_bank bi f" "\<forall>b. openRow (f b) = openRow b"
    "\<forall>b. actAllowedAt (f b) = actAllowedAt b" "actTicks r' = actTicks r"
    "cmdList r' = cmdList r @ (if trace then [new_command PRE (bk_bank (banks r' ! bi)) pre_at] else [])"
    "numBanksActive r' + 1 = numBanksActive r"
    "pre_at + tRP c \<le> the (prechargeEvent r')" "prechargeEvent r' \<noteq> None" "same_mode r r'" "col_le r r'"
    by (rule precharge_lemma[OF cfg' w ok bi opn at, of auto trace bt], rule that)
  have a: "acts r' = acts r" by (simp add: acts_def r(9) new_command_def)
  have "good_rank c r'" by (rule good_rank_frame[OF good r(2) r(8) a r(13)])
  moreover have "openRow (banks r' ! bi) = NO_ROW"
    using bi r(5,6) by (auto simp: r(4) pre_done_def)
  ultimately show thesis using that r by blast
qed

lemma prepare_row_ok:
  assumes cfg: "burst_cfg c" and w: "0 < w" and good: "good_rank c r" and bi: "bi < length (banks r)"
    and row: "row \<noteq> NO_ROW"
  obtains r' bt' where "prepare_row c w now bi row (r, bt) = Inr (r', bt', openRow (banks r ! bi) = row)"
    "good_rank c r'" "col_le r r'" "openRow (banks r' ! bi) = row"
proof (cases "openRow (banks r ! bi) = row")
  case True
  then show thesis using that[of r bt] good by (simp add: prepare_row_def)
next
  case False
  obtain r1 bt1 where r1: "(if openRow (banks r ! bi) \<noteq> NO_ROW
      then prechargeBank c w now bi (max (preAllowedAt (banks r ! bi)) now) False True (r, bt) else Inr (r, bt)) =
      Inr (r1, bt1)" "good_rank c r1" "col_le r r1" "openRow (banks r1 ! bi) = NO_ROW"
  proof (cases "openRow (banks r ! bi) = NO_ROW")
    case True
    then show thesis using that[of r bt] good by simp
  next
    case False
    have "now \<le> max (preAllowedAt (banks r ! bi)) now" by simp
    from precharge_good[OF cfg w good bi False this, of False True bt]
    obtain r1 bt1 where "prechargeBank c w now bi (max (preAllowedAt (banks r ! bi)) now) False True (r, bt) = Inr (r1, bt1)"
      "good_rank c r1" "col_le r r1" "openRow (banks r1 ! bi) = NO_ROW" by metis
    then show thesis using that False by simp
  qed
  have "length (banks r1) = length (banks r)" using r1(3) by (simp add: col_le_nth)
  then have bi1: "bi < length (banks r1)" using bi by simp
  obtain r2 bt2 where r2: "activateBank c w now bi (max (actAllowedAt (banks r1 ! bi)) now) row (r1, bt1) = Inr (r2, bt2)"
    "good_rank c r2" "col_le r1 r2" "openRow (banks r2 ! bi) = row"
    by (rule activate_good[OF cfg w r1(2) bi1 r1(4) row, of now bt1], rule that)
  have "prepare_row c w now bi row (r, bt) = Inr (r2, bt2, False)"
    unfolding prepare_row_def prod.case Let_def r1(1) by (simp add: False r2(1))
  then show thesis using that[of r2 bt2] r2 col_le_trans[OF r1(3)] False by simp
qed

lemma col_delay_simps [simp]:
  "openRow (col_delay rd wr b) = openRow b" "actAllowedAt (col_delay rd wr b) = actAllowedAt b"
  "rdAllowedAt (col_delay rd wr b) = max rd (rdAllowedAt b)" "wrAllowedAt (col_delay rd wr b) = max wr (wrAllowedAt b)"
  "openRow (used_bank c pkt t b) = openRow b" "actAllowedAt (used_bank c pkt t b) = actAllowedAt b"
  "rdAllowedAt (used_bank c pkt t b) = rdAllowedAt b" "wrAllowedAt (used_bank c pkt t b) = wrAllowedAt b"
  by (simp_all add: col_delay_def used_bank_def)

lemma burst_delays_min:
  assumes "burst_cfg c" and "tBURST_MIN c \<le> gap"
  shows "tBURST_MIN c \<le> fst (burst_delays c rd gap sr sg)" "tBURST_MIN c \<le> snd (burst_delays c rd gap sr sg)"
  using assms by (auto simp: burst_cfg_def burst_delays_def writeToReadDelay_def readToWriteDelay_def
      rankToRankDelay_def le_max_iff_disj)

lemma burst_bank_simps:
  assumes "burst_cfg c" and "tBURST_MIN c \<le> gap"
  shows "openRow (burst_bank c rd t gap g sr b) = openRow b" "actAllowedAt (burst_bank c rd t gap g sr b) = actAllowedAt b"
    "rdAllowedAt b \<le> rdAllowedAt (burst_bank c rd t gap g sr b)"
    "wrAllowedAt b \<le> wrAllowedAt (burst_bank c rd t gap g sr b)"
    "t + tBURST_MIN c \<le> rdAllowedAt (burst_bank c rd t gap g sr b)"
    "t + tBURST_MIN c \<le> wrAllowedAt (burst_bank c rd t gap g sr b)"
  using burst_delays_min[OF assms, of rd sr "g = bankgr b"]
  by (auto simp: burst_bank_def le_max_iff_disj split: prod.split)

lemma good_rank_map_banks:
  assumes "good_rank c r" and "\<And>b. openRow (f b) = openRow b" and "\<And>b. actAllowedAt (f b) = actAllowedAt b"
  shows "good_rank c (map_banks f r)"
proof (rule good_rank_frame[OF assms(1)])
  show "rank_ok c (map_banks f r)"
    using assms by (intro rank_ok_map_banks) (simp_all add: good_rank_def)
qed simp_all

lemma good_rank_used:
  assumes "good_rank c r" and "t \<noteq> ACT"
  shows "good_rank c (push_cmd t bi at (upd_bank bi (used_bank c pkt cmd_at) r))"
proof (rule good_rank_frame[OF assms(1)])
  show "rank_ok c (push_cmd t bi at (upd_bank bi (used_bank c pkt cmd_at) r))"
    using assms by (intro rank_ok_extra rank_ok_upd_bank) (simp_all add: good_rank_def)
qed (use assms in simp_all)

lemma good_rank_tick: "good_rank c r \<Longrightarrow> good_rank c (r\<lparr>lastBurstTick := t\<rparr>)"
proof (rule good_rank_frame[of c r])
  assume "good_rank c r"
  then have "rank_ok c r" by (simp add: good_rank_def)
  then show "rank_ok c (r\<lparr>lastBurstTick := t\<rparr>)" by (rule rank_ok_frame) simp_all
qed (simp_all add: same_mode_def)

text \<open>Column timing over all ranks.\<close>

definition col_ready :: "dram_rank list \<Rightarrow> tick \<Rightarrow> bool" where
  "col_ready rs t \<longleftrightarrow> (\<forall>r \<in> set rs. \<forall>b \<in> set (banks r). t \<le> rdAllowedAt b \<and> t \<le> wrAllowedAt b)"

definition dram_good :: "dram_cfg \<Rightarrow> dram_rank list \<Rightarrow> bool" where
  "dram_good c rs \<longleftrightarrow> length rs = ranksPerChannel c \<and> (\<forall>r \<in> set rs. good_rank c r)"

lemma col_ready_mono:
  assumes "col_ready rs t" and "list_all2 col_le rs rs'"
  shows "col_ready rs' t"
proof -
  have "t \<le> rdAllowedAt b \<and> t \<le> wrAllowedAt b" if h: "r' \<in> set rs'" "b \<in> set (banks r')" for r' b
  proof -
    obtain k where k: "k < length rs'" "r' = rs' ! k" using h(1) unfolding in_set_conv_nth by blast
    then have le: "col_le (rs ! k) r'" "k < length rs" using assms(2) by (auto simp: list_all2_conv_all_nth)
    obtain i where i: "i < length (banks r')" "b = banks r' ! i" using h(2) unfolding in_set_conv_nth by blast
    have "banks (rs ! k) ! i \<in> set (banks (rs ! k))" "rs ! k \<in> set rs" using le i by (simp_all add: col_le_nth)
    then have "t \<le> rdAllowedAt (banks (rs ! k) ! i)" "t \<le> wrAllowedAt (banks (rs ! k) ! i)"
      using assms(1) unfolding col_ready_def by blast+
    moreover have "rdAllowedAt (banks (rs ! k) ! i) \<le> rdAllowedAt b" "wrAllowedAt (banks (rs ! k) ! i) \<le> wrAllowedAt b"
      using le(1) i by (simp_all add: col_le_nth)
    ultimately show ?thesis by simp
  qed
  then show ?thesis by (simp add: col_ready_def)
qed

lemma list_all2_update1:
  "j < length rs \<Longrightarrow> col_le (rs ! j) r \<Longrightarrow> list_all2 col_le rs (rs[j := r])"
  by (auto simp: list_all2_conv_all_nth nth_upd)

lemma list_all2_col_trans: "list_all2 col_le rs rs' \<Longrightarrow> list_all2 col_le rs' rs'' \<Longrightarrow> list_all2 col_le rs rs''"
  by (rule list_all2_trans[of col_le col_le col_le]) (auto intro: col_le_trans)

lemma dram_good_update: "dram_good c rs \<Longrightarrow> good_rank c r \<Longrightarrow> dram_good c (rs[j := r])"
  by (auto simp: dram_good_def dest: set_update_subset_insert[THEN subsetD])

lemma burst_ranks_ok:
  assumes "burst_cfg c" and "tBURST_MIN c \<le> gap" and "dram_good c rs"
  shows "dram_good c (burst_ranks c rd t gap j g rs)" "list_all2 col_le rs (burst_ranks c rd t gap j g rs)"
    "col_ready (burst_ranks c rd t gap j g rs) (t + tBURST_MIN c)" "length (burst_ranks c rd t gap j g rs) = length rs"
    "\<And>k. k < length rs \<Longrightarrow> map openRow (banks (burst_ranks c rd t gap j g rs ! k)) = map openRow (banks (rs ! k))"
proof -
  note b = burst_bank_simps[OF assms(1,2)]
  have "good_rank c (map_banks (burst_bank c rd t gap g (i = j)) (rs ! i))" if "i < length rs" for i
    using assms(3) that by (intro good_rank_map_banks) (simp_all add: dram_good_def b)
  then show "dram_good c (burst_ranks c rd t gap j g rs)"
    using assms(3) by (auto simp: dram_good_def burst_ranks_def)
  show "list_all2 col_le rs (burst_ranks c rd t gap j g rs)"
    by (simp add: list_all2_conv_all_nth burst_ranks_def col_le_map_banks b)
  show "col_ready (burst_ranks c rd t gap j g rs) (t + tBURST_MIN c)"
    by (auto simp: col_ready_def burst_ranks_def b)
  show "length (burst_ranks c rd t gap j g rs) = length rs" by (simp add: burst_ranks_def)
  show "map openRow (banks (burst_ranks c rd t gap j g rs ! k)) = map openRow (banks (rs ! k))" if "k < length rs" for k
    using that by (simp add: burst_ranks_def b comp_def)
qed

lemma interleave_ok:
  assumes "tBURST_MIN c \<le> tBURST c" and "interleave c last_burst t = (cmd_at, gap)"
  shows "t \<le> cmd_at" "tBURST_MIN c \<le> gap"
  using assms by (auto simp: interleave_def split: if_splits)

lemma burst_slot_total:
  assumes "burst_cfg c" and "0 < w"
  obtains t bt' where "burst_slot c w lb cmd_at bt = Inr (t, bt')" "cmd_at \<le> t"
proof -
  have "0 < maxCommandsPerWindow c" using assms(1) by (simp add: burst_cfg_def cfg_ok_def)
  note h = verifySingle_total[OF assms(2) this] verifyMulti_total[OF assms(2) this]
  show thesis
  proof (cases "dataClockSync c \<and> clkResyncDelay c < sub_tick cmd_at lb")
    case True
    obtain t bt' where "verifyMultiCmd w cmd_at (maxCommandsPerWindow c) (tCK c) bt = Inr (t, bt')" "cmd_at \<le> t"
      using h(2) by blast
    then show thesis using that True by (simp add: burst_slot_def)
  next
    case False
    obtain t bt' where "verifySingleCmd w cmd_at (maxCommandsPerWindow c) bt = Inr (t, bt')" "cmd_at \<le> t"
      using h(1) by blast
    then show thesis using that False by (auto simp: burst_slot_def)
  qed
qed

lemma burst_issue_ok:
  assumes cfg: "burst_cfg c" and w: "0 < w" and good: "dram_good c ((ranks d)[mp_rank pkt := r])"
    and j: "mp_rank pkt < length (ranks d)"
  obtains cmd_at gap pkt' d' bt' where
    "burst_issue c w now pkt next_at d (r, bt) = Inr (cmd_at, gap, pkt', d', bt')"
    "pkt' = pkt\<lparr>readyTime := cmd_at + tCL c + tBURST c\<rparr>"
    "burst_earliest c now pkt (col_allowed (mp_read pkt) (banks r ! mp_bank pkt)) next_at \<le> cmd_at"
    "tBURST_MIN c \<le> gap" "dram_good c (ranks d')" "list_all2 col_le ((ranks d)[mp_rank pkt := r]) (ranks d')"
    "col_ready (ranks d') (cmd_at + tBURST_MIN c)" "activeRank d' = mp_rank pkt"
    "map openRow (banks (ranks d' ! mp_rank pkt)) = map openRow (banks r)"
proof -
  let ?e = "burst_earliest c now pkt (col_allowed (mp_read pkt) (banks r ! mp_bank pkt)) next_at"
  obtain t bt' where t: "burst_slot c w (lastBurstTick r) ?e bt = Inr (t, bt')" "?e \<le> t"
    by (rule burst_slot_total[OF cfg w, of "lastBurstTick r" ?e bt])
  obtain cmd_at gap where i: "interleave c (lastBurstTick r) t = (cmd_at, gap)" by (cases "interleave c (lastBurstTick r) t")
  have mn: "tBURST_MIN c \<le> tBURST c" using cfg by (simp add: burst_cfg_def)
  note io = interleave_ok[OF mn i]
  define rs where "rs = (ranks d)[mp_rank pkt := r\<lparr>lastBurstTick := cmd_at\<rparr>]"
  have gr: "good_rank c r"
    using good j by (simp add: dram_good_def set_update_memI)
  have rs2: "rs = ((ranks d)[mp_rank pkt := r])[mp_rank pkt := r\<lparr>lastBurstTick := cmd_at\<rparr>]" by (simp add: rs_def)
  have grs: "dram_good c rs" unfolding rs2 by (rule dram_good_update[OF good good_rank_tick[OF gr]])
  define d' where "d' = d\<lparr>ranks := burst_ranks c (mp_read pkt) cmd_at gap (mp_rank pkt)
      (bankgr (banks r ! mp_bank pkt)) rs, activeRank := mp_rank pkt\<rparr>"
  note br = burst_ranks_ok[OF cfg io(2) grs]
  have run: "burst_issue c w now pkt next_at d (r, bt) =
      Inr (cmd_at, gap, pkt\<lparr>readyTime := cmd_at + tCL c + tBURST c\<rparr>, d', bt')"
    using t(1) i by (simp add: burst_issue_def Let_def d'_def rs_def)
  have "col_le r (r\<lparr>lastBurstTick := cmd_at\<rparr>)" by (simp add: col_le_nth)
  then have "list_all2 col_le ((ranks d)[mp_rank pkt := r]) rs"
    using j list_all2_update1[of "mp_rank pkt" "(ranks d)[mp_rank pkt := r]"] by (simp add: rs_def)
  then have le: "list_all2 col_le ((ranks d)[mp_rank pkt := r]) (ranks d')"
    using list_all2_col_trans[OF _ br(2)] by (simp add: d'_def)
  show thesis
    by (rule that[OF run refl _ io(2) _ le])
      (use t(2) io(1) br j in \<open>simp_all add: d'_def rs_def\<close>)
qed

lemma burst_close_ok:
  assumes cfg: "burst_cfg c" and w: "0 < w" and good: "good_rank c r" and bi: "mp_bank pkt < length (banks r)"
    and opn: "openRow (banks r ! mp_bank pkt) \<noteq> NO_ROW"
  obtains r' bt' where "burst_close c w now pkt cmd_at queue (r, bt) = Inr (r', bt')" "good_rank c r'" "col_le r r'"
proof -
  let ?bi = "mp_bank pkt" and ?cmd = "if mp_read pkt then RD else WR"
  define r1 where "r1 = upd_bank ?bi (used_bank c pkt cmd_at) r"
  define r2 where "r2 = push_cmd ?cmd ?bi cmd_at r1"
  have g2: "good_rank c r2" unfolding r2_def r1_def by (rule good_rank_used[OF good]) simp
  have le2: "col_le r r2"
    using col_le_upd_bank[of "used_bank c pkt cmd_at" r ?bi] by (simp add: r2_def r1_def col_le_nth)
  show thesis
  proof (cases "auto_precharge c pkt queue (banks r1 ! ?bi)")
    case False
    then show thesis using that[of r2 bt] g2 le2 by (simp add: burst_close_def Let_def r2_def r1_def)
  next
    case True
    have bi2: "?bi < length (banks r2)" "openRow (banks r2 ! ?bi) \<noteq> NO_ROW"
      using bi opn by (simp_all add: r2_def r1_def)
    have "now \<le> max now (preAllowedAt (banks r2 ! ?bi))" by simp
    from precharge_good[OF cfg w g2 bi2 this, of True True bt]
    obtain r' bt' where r': "prechargeBank c w now ?bi (max now (preAllowedAt (banks r2 ! ?bi))) True True (r2, bt) = Inr (r', bt')"
      "good_rank c r'" "col_le r2 r'" by metis
    have "burst_close c w now pkt cmd_at queue (r, bt) = Inr (r', bt')"
      unfolding burst_close_def prod.case Let_def r1_def[symmetric] r2_def[symmetric] using True r'(1) by simp
    then show thesis using that r' col_le_trans[OF le2] by blast
  qed
qed

lemma burst_events_ok:
  assumes "good_rank c r" and "now \<le> readyTime pkt"
  obtains r' where "burst_events now pkt r = Inr r'" "good_rank c r'" "col_le r r'"
proof -
  have fr: "good_rank c (r\<lparr>writeDoneEvent := x, outstandingEvents := n, writeEntries := m\<rparr>)"
    "col_le r (r\<lparr>writeDoneEvent := x, outstandingEvents := n, writeEntries := m\<rparr>)" for x n m
    using good_rank_frame[OF assms(1), of "r\<lparr>writeDoneEvent := x, outstandingEvents := n, writeEntries := m\<rparr>"]
      rank_ok_frame[of c r "r\<lparr>writeDoneEvent := x, outstandingEvents := n, writeEntries := m\<rparr>"] assms(1)
    by (simp_all add: good_rank_def same_mode_def acts_def col_le_nth)
  obtain n x m where "burst_events now pkt r = Inr (r\<lparr>writeDoneEvent := x, outstandingEvents := n, writeEntries := m\<rparr>)"
  proof (cases "mp_read pkt")
    case True
    then show thesis using that[of "writeEntries r" "inc8 (outstandingEvents r)" "writeDoneEvent r"]
      by (simp add: burst_events_def)
  next
    case False
    show thesis
    proof (cases "writeDoneEvent r")
      case None
      then show thesis using False assms(2) that[of "dec32 (writeEntries r)" "inc8 (outstandingEvents r)" "Some (readyTime pkt)"]
        by (simp add: burst_events_def schedule_def)
    next
      case (Some t)
      then show thesis using False assms(2) that[of "dec32 (writeEntries r)" "outstandingEvents r"
            "Some (if t < readyTime pkt then readyTime pkt else t)"]
        by (cases "t < readyTime pkt") (simp_all add: burst_events_def reschedule_def)
    qed
  qed
  then show thesis using that fr by blast
qed

section \<open>The whole access\<close>

text \<open>A packet the interface can serve.\<close>

definition packet_ok :: "dram_cfg \<Rightarrow> mem_packet \<Rightarrow> bool" where
  "packet_ok c pkt \<longleftrightarrow> mp_rank pkt < ranksPerChannel c \<and> mp_bank pkt < banksPerRank c \<and> mp_row pkt \<noteq> NO_ROW"

lemma burst_earliest_ge:
  "now \<le> burst_earliest c now pkt col n" "col \<le> burst_earliest c now pkt col n"
  "\<not> (rh_injectDelay pkt \<and> rh_bubbleSize pkt = 90000) \<Longrightarrow> n \<le> burst_earliest c now pkt col n"
  by (auto simp: burst_earliest_def)

lemma burst_stats_ranks [simp]: "ranks (burst_stats c pkt t h d) = ranks d" "activeRank (burst_stats c pkt t h d) = activeRank d"
  by (simp_all add: burst_stats_def)

lemma doBurstAccess_ok:
  assumes cfg: "burst_cfg c" and w: "0 < w" and good: "dram_good c (ranks d)" and p: "packet_ok c pkt"
  obtains cmd_at gap pkt' d' bt' where
    "doBurstAccess c w now pkt next_at queue (d, bt) = Inr ((cmd_at, cmd_at + gap), pkt', d', bt')"
    "dram_good c (ranks d')" "now \<le> cmd_at" "tBURST_MIN c \<le> gap"
    "pkt' = pkt\<lparr>readyTime := cmd_at + tCL c + tBURST c\<rparr>"
    "rh_injectDelay pkt \<and> rh_bubbleSize pkt = 90000 \<or> next_at \<le> cmd_at"
    "\<forall>t. col_ready (ranks d) t \<longrightarrow> t \<le> cmd_at" "col_ready (ranks d') (cmd_at + tBURST_MIN c)"
    "activeRank d' = mp_rank pkt"
proof -
  let ?j = "mp_rank pkt" and ?bi = "mp_bank pkt"
  have j: "?j < length (ranks d)" and g0: "good_rank c (ranks d ! ?j)"
    using good p by (simp_all add: dram_good_def packet_ok_def)
  have len: "length (banks r) = banksPerRank c" if "good_rank c r" for r
    using that by (simp add: good_rank_def rank_ok_def)
  have bi: "?bi < length (banks r)" if "good_rank c r" for r using p len[OF that] by (simp add: packet_ok_def)
  have row: "mp_row pkt \<noteq> NO_ROW" using p by (simp add: packet_ok_def)
  obtain r1 where r1: "wake_for_burst c now (ranks d ! ?j) = Inr r1" "good_rank c r1" "col_le (ranks d ! ?j) r1"
    by (rule wake_for_burst_ok[OF g0, of now])
  obtain r2 bt2 where r2: "prepare_row c w now ?bi (mp_row pkt) (r1, bt) =
      Inr (r2, bt2, openRow (banks r1 ! ?bi) = mp_row pkt)" "good_rank c r2" "col_le r1 r2" "openRow (banks r2 ! ?bi) = mp_row pkt"
    by (rule prepare_row_ok[OF cfg w r1(2) bi[OF r1(2)] row, of now bt])
  let ?rs = "(ranks d)[?j := r2]"
  have le1: "list_all2 col_le (ranks d) ?rs" using list_all2_update1[OF j] col_le_trans r1(3) r2(3) by blast
  have g1: "dram_good c ?rs" by (rule dram_good_update[OF good r2(2)])
  obtain cmd_at gap pkt' d1 bt3 where iss: "burst_issue c w now pkt next_at d (r2, bt2) = Inr (cmd_at, gap, pkt', d1, bt3)"
    "pkt' = pkt\<lparr>readyTime := cmd_at + tCL c + tBURST c\<rparr>"
    "burst_earliest c now pkt (col_allowed (mp_read pkt) (banks r2 ! ?bi)) next_at \<le> cmd_at"
    "tBURST_MIN c \<le> gap" "dram_good c (ranks d1)" "list_all2 col_le ?rs (ranks d1)"
    "col_ready (ranks d1) (cmd_at + tBURST_MIN c)" "activeRank d1 = ?j"
    "map openRow (banks (ranks d1 ! ?j)) = map openRow (banks r2)"
    by (rule burst_issue_ok[OF cfg w g1 j, of now next_at bt2], rule that)
  have j1: "?j < length (ranks d1)" using iss(6) j by (auto dest: list_all2_lengthD)
  have g3: "good_rank c (ranks d1 ! ?j)" using iss(5) j1 by (simp add: dram_good_def)
  have b3: "mp_bank pkt' < length (banks (ranks d1 ! ?j))" using bi[OF g3] by (simp add: iss(2))
  have "openRow (banks (ranks d1 ! ?j) ! ?bi) = openRow (banks r2 ! ?bi)"
    using iss(9) bi[OF g3] bi[OF r2(2)] by (metis nth_map)
  then have o3: "openRow (banks (ranks d1 ! ?j) ! mp_bank pkt') \<noteq> NO_ROW" using row r2(4) by (simp add: iss(2))
  obtain r4 bt4 where r4: "burst_close c w now pkt' cmd_at queue (ranks d1 ! ?j, bt3) = Inr (r4, bt4)" "good_rank c r4"
    "col_le (ranks d1 ! ?j) r4"
    by (rule burst_close_ok[OF cfg w g3 b3 o3, of now cmd_at queue bt3])
  have now: "now \<le> cmd_at" by (rule order_trans[OF burst_earliest_ge(1) iss(3)])
  then have "now \<le> readyTime pkt'" by (simp add: iss(2))
  then obtain r5 where r5: "burst_events now pkt' r4 = Inr r5" "good_rank c r5" "col_le r4 r5"
    by (rule burst_events_ok[OF r4(2)])
  define d' where "d' = burst_stats c pkt' cmd_at (openRow (banks r1 ! ?bi) = mp_row pkt) (d1\<lparr>ranks := (ranks d1)[?j := r5]\<rparr>)"
  have run: "doBurstAccess c w now pkt next_at queue (d, bt) = Inr ((cmd_at, cmd_at + gap), pkt', d', bt4)"
    using j g0 r1(1) bi[OF r1(2)] r2(1) iss(1) r4(1) r5(1)
    unfolding doBurstAccess_def prod.case Let_def by (simp add: inRefIdleState_def good_rank_def d'_def)
  have "col_le (ranks d1 ! ?j) r5" using r4(3) r5(3) col_le_trans by blast
  from list_all2_update1[OF j1 this] have le2: "list_all2 col_le (ranks d1) (ranks d')" by (simp add: d'_def)
  have "t \<le> cmd_at" if "col_ready (ranks d) t" for t
  proof -
    have "col_ready ?rs t" by (rule col_ready_mono[OF that le1])
    moreover have "banks r2 ! ?bi \<in> set (banks r2)" "r2 \<in> set ?rs" using bi[OF r2(2)] j by (simp_all add: set_update_memI)
    ultimately have "t \<le> col_allowed (mp_read pkt) (banks r2 ! ?bi)" by (auto simp: col_ready_def col_allowed_def)
    then show ?thesis by (rule order_trans[OF _ order_trans[OF burst_earliest_ge(2) iss(3)]])
  qed
  moreover have "col_ready (ranks d') (cmd_at + tBURST_MIN c)" by (rule col_ready_mono[OF iss(7) le2])
  moreover have "dram_good c (ranks d')" using dram_good_update[OF iss(5) r5(2)] by (simp add: d'_def)
  moreover have "rh_injectDelay pkt \<and> rh_bubbleSize pkt = 90000 \<or> next_at \<le> cmd_at"
    using order_trans[OF burst_earliest_ge(3) iss(3)] by blast
  moreover have "activeRank d' = ?j" using iss(8) by (simp add: d'_def)
  ultimately show thesis using that[OF run _ now iss(4) iss(2)] by blast
qed

text \<open>A sequence of accesses, each with the burst slot the one before returned.\<close>

fun burst_run ::
    "dram_cfg \<Rightarrow> tick \<Rightarrow> (tick \<times> mem_packet \<times> mem_packet list list) list \<Rightarrow> tick \<Rightarrow> dram \<times> tick multiset \<Rightarrow>
     (tick list \<times> dram \<times> tick multiset) res" where
  "burst_run c w [] next_at db = Inr ([], db)"
| "burst_run c w ((now, pkt, queue) # xs) next_at db =
     rbind (doBurstAccess c w now pkt next_at queue db) (\<lambda>((cmd_at, next_at'), pkt', db').
     rbind (burst_run c w xs next_at' db') (\<lambda>(cmds, db''). Inr (cmd_at # cmds, db'')))"

lemma burst_run_ok:
  assumes "burst_cfg c" and "0 < w" and "dram_good c (ranks d)" and "\<forall>(now, pkt, queue) \<in> set xs. packet_ok c pkt"
  shows "\<exists>cmds d' bt'. burst_run c w xs next_at (d, bt) = Inr (cmds, d', bt') \<and> dram_good c (ranks d') \<and>
    list_all2 (\<lambda>x t. fst x \<le> t) xs cmds \<and> (\<forall>t. col_ready (ranks d) t \<longrightarrow> cmds = [] \<or> t \<le> hd cmds) \<and>
    (\<forall>i. i + 1 < length cmds \<longrightarrow> cmds ! i + tBURST_MIN c \<le> cmds ! (i + 1))"
  using assms(3,4)
proof (induction xs arbitrary: next_at d bt)
  case Nil
  then show ?case by simp
next
  case (Cons x xs)
  obtain now pkt queue where x: "x = (now, pkt, queue)" by (cases x)
  have p: "packet_ok c pkt" using Cons.prems(2) x by simp
  obtain cmd_at gap pkt' d1 bt1 where a: "doBurstAccess c w now pkt next_at queue (d, bt) = Inr ((cmd_at, cmd_at + gap), pkt', d1, bt1)"
    "dram_good c (ranks d1)" "now \<le> cmd_at" "tBURST_MIN c \<le> gap"
    "pkt' = pkt\<lparr>readyTime := cmd_at + tCL c + tBURST c\<rparr>"
    "rh_injectDelay pkt \<and> rh_bubbleSize pkt = 90000 \<or> next_at \<le> cmd_at"
    "\<forall>t. col_ready (ranks d) t \<longrightarrow> t \<le> cmd_at" "col_ready (ranks d1) (cmd_at + tBURST_MIN c)" "activeRank d1 = mp_rank pkt"
    by (rule doBurstAccess_ok[OF assms(1,2) Cons.prems(1) p, of now next_at queue bt], rule that)
  obtain cmds d' bt' where r: "burst_run c w xs (cmd_at + gap) (d1, bt1) = Inr (cmds, d', bt')" "dram_good c (ranks d')"
    "list_all2 (\<lambda>x t. fst x \<le> t) xs cmds" "\<forall>t. col_ready (ranks d1) t \<longrightarrow> cmds = [] \<or> t \<le> hd cmds"
    "\<forall>i. i + 1 < length cmds \<longrightarrow> cmds ! i + tBURST_MIN c \<le> cmds ! (i + 1)"
    using Cons.IH[OF a(2), of "cmd_at + gap" bt1] Cons.prems(2) by auto
  have first: "cmds \<noteq> [] \<longrightarrow> cmd_at + tBURST_MIN c \<le> hd cmds" using r(4) a(8) by blast
  have "(cmd_at # cmds) ! i + tBURST_MIN c \<le> (cmd_at # cmds) ! (i + 1)" if "i + 1 < length (cmd_at # cmds)" for i
    using that first r(5) by (cases i) (auto simp: hd_conv_nth)
  moreover have "burst_run c w (x # xs) next_at (d, bt) = Inr (cmd_at # cmds, d', bt')" by (simp add: x a(1) r(1))
  ultimately show ?case using r(2,3) a(3,7) x by (intro exI[of _ "cmd_at # cmds"] exI[of _ d'] exI[of _ bt']) simp
qed

text \<open>The ranks as the constructor makes them.\<close>

lemma new_rank_good: "good_rank c (new_rank c k)"
  using new_rank_ok[of c k] by (simp add: good_rank_def act_hist_def acts_def new_rank_def)

lemma new_ranks_good: "dram_good c (map (new_rank c) [0..<ranksPerChannel c])"
  by (auto simp: dram_good_def new_rank_good)

definition new_dram :: "dram_rank list \<Rightarrow> dram" where
  "new_dram rs = \<lparr>ranks = rs, activeRank = 0, timeStampOffset = 0, readBursts = 0, writeBursts = 0,
     perBankRdBursts = (\<lambda>_. 0), perBankWrBursts = (\<lambda>_. 0), totQLat = 0, totBusLat = 0, totMemAccLat = 0,
     readRowHits = 0, writeRowHits = 0, bytesRead = 0, bytesWritten = 0\<rparr>"

section \<open>The page policy\<close>

definition wants_row :: "mem_packet \<Rightarrow> bool \<Rightarrow> mem_packet \<Rightarrow> bool" where
  "wants_row pkt same p \<longleftrightarrow> mp_id pkt \<noteq> mp_id p \<and> mp_rank pkt = mp_rank p \<and> mp_bank pkt = mp_bank p \<and>
     ((mp_row pkt = mp_row p) = same)"

lemma scan_queue_hit [simp]: "scan_queue pkt q (True, f) = (True, f)"
  by (cases q) simp_all

lemma scan_queue_step:
  "scan_queue pkt (p # q) (False, f) = scan_queue pkt q (wants_row pkt True p, f \<or> wants_row pkt False p)"
  by (auto simp: wants_row_def Let_def)

lemma scan_queue_spec:
  "fst (scan_queue pkt q (False, f)) \<longleftrightarrow> (\<exists>p \<in> set q. wants_row pkt True p)"
  "\<not> fst (scan_queue pkt q (False, f)) \<Longrightarrow>
     snd (scan_queue pkt q (False, f)) \<longleftrightarrow> f \<or> (\<exists>p \<in> set q. wants_row pkt False p)"
proof (induction q arbitrary: f)
  case (Cons p q)
  { case 1 show ?case using Cons.IH(1) by (cases "wants_row pkt True p") (simp_all add: scan_queue_step del: scan_queue.simps(2)) }
  { case 2 then show ?case using Cons.IH(2)
      by (cases "wants_row pkt True p") (simp_all add: scan_queue_step disj_assoc del: scan_queue.simps(2)) }
qed simp_all

lemma scan_queues_spec:
  "(fst (scan_queues pkt qs (False, f)) \<longleftrightarrow> (\<exists>p \<in> set (concat qs). wants_row pkt True p)) \<and>
   (\<not> fst (scan_queues pkt qs (False, f)) \<longrightarrow>
     (snd (scan_queues pkt qs (False, f)) \<longleftrightarrow> f \<or> (\<exists>p \<in> set (concat qs). wants_row pkt False p)))"
proof (induction qs arbitrary: f)
  case (Cons q qs)
  obtain h' f' where s: "scan_queue pkt q (False, f) = (h', f')" by fastforce
  have q: "h' \<longleftrightarrow> (\<exists>p \<in> set q. wants_row pkt True p)"
    "\<not> h' \<Longrightarrow> f' \<longleftrightarrow> f \<or> (\<exists>p \<in> set q. wants_row pkt False p)"
    using scan_queue_spec[of pkt q f] unfolding s by simp_all
  have step: "scan_queues pkt (q # qs) (False, f) = (if h' then (True, f') else scan_queues pkt qs (False, f'))"
    by (cases h') (simp_all add: s Let_def)
  show ?case unfolding step using Cons.IH[of f'] q by (cases h') (simp_all add: disj_assoc bex_Un)
qed simp

section \<open>Properties\<close>

text \<open>
  C5. An access to a rank that is not refreshing never fails: no assertion, panic or array bound of the
  whole path (wake-up, precharge, activate, bus slot, automatic precharge, events) is violated. The
  command is not before the current tick, nor before any column bound of the interface, nor before the
  end of the previous burst unless the packet carries the 90 ns bubble; the packet is ready \<open>tCL + tBURST\<close>
  after the command; afterwards every bank of every rank waits at least \<open>tBURST_MIN\<close>, and all
  invariants hold again.
\<close>

theorem burst_access_safe:
  assumes "burst_cfg c" and "0 < w" and "dram_good c (ranks d)" and "packet_ok c pkt"
  shows "\<exists>cmd_at gap d' bt'. doBurstAccess c w now pkt next_at queue (d, bt) =
      Inr ((cmd_at, cmd_at + gap), pkt\<lparr>readyTime := cmd_at + tCL c + tBURST c\<rparr>, d', bt') \<and>
    dram_good c (ranks d') \<and> now \<le> cmd_at \<and> tBURST_MIN c \<le> gap \<and> activeRank d' = mp_rank pkt \<and>
    (rh_injectDelay pkt \<and> rh_bubbleSize pkt = 90000 \<or> next_at \<le> cmd_at) \<and>
    (\<forall>t. col_ready (ranks d) t \<longrightarrow> t \<le> cmd_at) \<and> col_ready (ranks d') (cmd_at + tBURST_MIN c)"
proof -
  obtain cmd_at gap pkt' d1 bt1 where a: "doBurstAccess c w now pkt next_at queue (d, bt) = Inr ((cmd_at, cmd_at + gap), pkt', d1, bt1)"
    "dram_good c (ranks d1)" "now \<le> cmd_at" "tBURST_MIN c \<le> gap"
    "pkt' = pkt\<lparr>readyTime := cmd_at + tCL c + tBURST c\<rparr>"
    "rh_injectDelay pkt \<and> rh_bubbleSize pkt = 90000 \<or> next_at \<le> cmd_at"
    "\<forall>t. col_ready (ranks d) t \<longrightarrow> t \<le> cmd_at" "col_ready (ranks d1) (cmd_at + tBURST_MIN c)" "activeRank d1 = mp_rank pkt"
    by (rule doBurstAccess_ok[OF assms, of now next_at queue bt], rule that)
  then show ?thesis by (intro exI[of _ cmd_at] exI[of _ gap] exI[of _ d1] exI[of _ bt1]) simp
qed

definition ddr4_packet :: "nat \<Rightarrow> bool \<Rightarrow> mem_packet" where
  "ddr4_packet k rd = new_packet (k, 0, 0) 0 (k, 0, 0) rd True (0, k mod 16, k) (k mod 16) (64 * k) 64"

lemma ddr4_burst: "burst_cfg ddr4_2400"
  by (simp add: burst_cfg_def ddr4_ok) (simp add: ddr4_2400_def)

lemma ddr4_packet_ok: "k < 65536 \<Longrightarrow> packet_ok ddr4_2400 (ddr4_packet k rd)"
  by (simp add: packet_ok_def ddr4_packet_def new_packet_def ddr4_2400_def NO_ROW_def)

definition ddr4_dram :: dram where
  "ddr4_dram = new_dram (map (new_rank ddr4_2400) [0..<ranksPerChannel ddr4_2400])"

lemma ddr4_dram_good: "dram_good ddr4_2400 (ranks ddr4_dram)"
  by (simp add: ddr4_dram_def new_dram_def new_ranks_good)

theorem burst_access_safe_witness:
  "\<exists>cmd_at gap pkt' d' bt'. doBurstAccess ddr4_2400 10000 500 (ddr4_packet 5 True) 600 [] (ddr4_dram, {#}) =
     Inr ((cmd_at, cmd_at + gap), pkt', d', bt') \<and> 600 \<le> cmd_at"
proof -
  have "(0::nat) < 10000" "(5::nat) < 65536" by simp_all
  from burst_access_safe[OF ddr4_burst this(1) ddr4_dram_good ddr4_packet_ok[OF this(2)], of 500 True 600 "[]" "{#}"]
  show ?thesis by (auto simp: ddr4_packet_def new_packet_def)
qed

text \<open>
  C6. Data bursts never overlap: in any sequence of accesses from the initial state, to any ranks, reads
  and writes mixed and with or without the 90 ns bubble of the row-hammer defence (whose access may start
  before the end of the previous burst), all accesses succeed and consecutive commands are at
  least \<open>tBURST_MIN\<close> apart.
\<close>

theorem data_bursts_apart:
  assumes "burst_cfg c" and "0 < w" and "\<forall>(now, pkt, queue) \<in> set xs. packet_ok c pkt"
  shows "\<exists>cmds db. burst_run c w xs next_at (new_dram (map (new_rank c) [0..<ranksPerChannel c]), bt) = Inr (cmds, db) \<and>
    list_all2 (\<lambda>x t. fst x \<le> t) xs cmds \<and>
    (\<forall>i. i + 1 < length cmds \<longrightarrow> cmds ! i + tBURST_MIN c \<le> cmds ! (i + 1))"
proof -
  have "dram_good c (ranks (new_dram (map (new_rank c) [0..<ranksPerChannel c])))"
    by (simp add: new_dram_def new_ranks_good)
  from burst_run_ok[OF assms(1,2) this assms(3), of next_at bt] show ?thesis by blast
qed

theorem data_bursts_apart_witness:
  "\<exists>cmds db. burst_run ddr4_2400 10000 [(0, ddr4_packet 5 True, []), (0, ddr4_packet 21 False, [])] 0
     (new_dram (map (new_rank ddr4_2400) [0..<ranksPerChannel ddr4_2400]), {#}) = Inr (cmds, db) \<and>
     cmds ! 0 + 3332 \<le> cmds ! 1"
proof -
  let ?xs = "[(0::nat, ddr4_packet 5 True, [] :: mem_packet list list), (0, ddr4_packet 21 False, [])]"
  have ok: "\<forall>(now, pkt, queue) \<in> set ?xs. packet_ok ddr4_2400 pkt" by (simp add: ddr4_packet_ok)
  obtain cmds db where r: "burst_run ddr4_2400 10000 ?xs 0
      (new_dram (map (new_rank ddr4_2400) [0..<ranksPerChannel ddr4_2400]), {#}) = Inr (cmds, db)"
    "list_all2 (\<lambda>x t. fst x \<le> t) ?xs cmds"
    "\<forall>i. i + 1 < length cmds \<longrightarrow> cmds ! i + tBURST_MIN ddr4_2400 \<le> cmds ! (i + 1)"
    using data_bursts_apart[OF ddr4_burst _ ok, of 10000 0 "{#}"] by auto
  have "length cmds = 2" using list_all2_lengthD[OF r(2)] by simp
  then have "cmds ! 0 + tBURST_MIN ddr4_2400 \<le> cmds ! 1" using r(3) by (metis add_0 one_less_numeral_iff semiring_norm(76))
  then show ?thesis using r(1) by (auto simp: ddr4_2400_def)
qed

text \<open>
  C7. Activation windows (\<open>tRRD\<close> and \<open>tXAW\<close>): after any sequence of accesses from the initial state, in
  every rank consecutive ACT commands are at least \<open>tRRD\<close> apart and any \<open>activationLimit + 1\<close>
  of them span at least \<open>tXAW\<close> (an activation at tick 0 is the one the code does not remember).
\<close>

theorem activation_windows:
  assumes "burst_cfg c" and "0 < w" and "\<forall>(now, pkt, queue) \<in> set xs. packet_ok c pkt"
    and "burst_run c w xs next_at (new_dram (map (new_rank c) [0..<ranksPerChannel c]), bt) = Inr (cmds, d', bt')"
    and "k < ranksPerChannel c"
  shows "let as = acts (ranks d' ! k) in
    (\<forall>i. i + 1 < length as \<longrightarrow> as ! i = 0 \<or> as ! i + tRRD c \<le> as ! (i + 1)) \<and>
    (\<forall>i. i + activationLimit c < length as \<longrightarrow> as ! i = 0 \<or> as ! i + tXAW c \<le> as ! (i + activationLimit c))"
proof -
  have "dram_good c (ranks (new_dram (map (new_rank c) [0..<ranksPerChannel c])))"
    by (simp add: new_dram_def new_ranks_good)
  from burst_run_ok[OF assms(1,2) this assms(3), of next_at bt] have "dram_good c (ranks d')"
    using assms(4) by auto
  then have "act_hist c (ranks d' ! k)" using assms(5) by (simp add: dram_good_def good_rank_def)
  then show ?thesis by (simp add: act_hist_def Let_def)
qed

theorem activation_windows_witness:
  "\<exists>cmds d' bt'. burst_run ddr4_2400 10000 [(0, ddr4_packet 5 True, []), (0, ddr4_packet 21 False, [])] 0
     (new_dram (map (new_rank ddr4_2400) [0..<ranksPerChannel ddr4_2400]), {#}) = Inr (cmds, d', bt') \<and>
     (\<forall>i. i + 1 < length (acts (ranks d' ! 0)) \<longrightarrow>
        acts (ranks d' ! 0) ! i = 0 \<or> acts (ranks d' ! 0) ! i + 3332 \<le> acts (ranks d' ! 0) ! (i + 1))"
proof -
  let ?xs = "[(0::nat, ddr4_packet 5 True, [] :: mem_packet list list), (0, ddr4_packet 21 False, [])]"
  let ?d = "new_dram (map (new_rank ddr4_2400) [0..<ranksPerChannel ddr4_2400])"
  have ok: "\<forall>(now, pkt, queue) \<in> set ?xs. packet_ok ddr4_2400 pkt" by (simp add: ddr4_packet_ok)
  have w: "(0::nat) < 10000" by simp
  have "dram_good ddr4_2400 (ranks ?d)" by (simp add: new_dram_def new_ranks_good)
  from burst_run_ok[OF ddr4_burst w this ok, of 0 "{#}"] obtain cmds d' bt' where
    r: "burst_run ddr4_2400 10000 ?xs 0 (?d, {#}) = Inr (cmds, d', bt')" by blast
  have "(0::nat) < ranksPerChannel ddr4_2400" by (simp add: ddr4_2400_def)
  from activation_windows[OF ddr4_burst w ok r this] have
    "\<forall>i. i + 1 < length (acts (ranks d' ! 0)) \<longrightarrow> acts (ranks d' ! 0) ! i = 0 \<or>
       acts (ranks d' ! 0) ! i + tRRD ddr4_2400 \<le> acts (ranks d' ! 0) ! (i + 1)"
    unfolding Let_def by blast
  moreover have "tRRD ddr4_2400 = 3332" by (simp add: ddr4_2400_def)
  ultimately show ?thesis using r by metis
qed

text \<open>
  The page policy: with \<open>close_page\<close>, or when the row has reached its limit of accesses, the row is always closed after
  the access; with \<open>open_page\<close> it stays open; otherwise it stays open exactly while another queued packet
  wants this row, or, with \<open>open_adaptive\<close>, no other queued packet wants another row of the bank.
\<close>

theorem page_policy:
  "auto_precharge c pkt queue b \<longleftrightarrow>
     rowAccesses b = maxAccessesPerRow c \<or> pageMgmt c = close_page \<or>
     (pageMgmt c = close_adaptive \<or> pageMgmt c = open_adaptive \<and> (\<exists>p \<in> set (concat queue). wants_row pkt False p)) \<and>
     \<not> (\<exists>p \<in> set (concat queue). wants_row pkt True p)"
proof -
  obtain h f where s: "scan_queues pkt queue (False, False) = (h, f)" by fastforce
  have "h \<longleftrightarrow> (\<exists>p \<in> set (concat queue). wants_row pkt True p)"
    "\<not> h \<Longrightarrow> f \<longleftrightarrow> (\<exists>p \<in> set (concat queue). wants_row pkt False p)"
    using scan_queues_spec[of pkt queue False] unfolding s by simp_all
  then show ?thesis unfolding auto_precharge_def s prod.case
    by (cases "pageMgmt c") auto
qed

end
