(* ===== verification/Rank_Power.thy ===== *)
theory Rank_Power
  imports Dram_Burst
begin

text \<open>
  The refresh and power state machine of a DRAM rank (\<open>DRAMInterface::Rank\<close> of
  \<open>mem/mem_interface.cc\<close>): the handlers of its six events. A handler takes the rank with its own
  event already cleared, as the event queue calls it. \<open>v\<close> is what the rank sees of the controller,
  \<open>off\<close> is \<open>timeStampOffset\<close>, \<open>active\<close> is \<open>activeRank\<close>.
  The lemmas show the course of a whole refresh, the count of outstanding events along any sequence of
  steps, and the accounting of the time spent in each power state.

  Not modelled: the energies that \<open>updatePowerStats\<close> fetches from the DRAMPower library.
\<close>

section \<open>Model\<close>

definition updatePowerStats :: "dram_cfg \<Rightarrow> nat \<Rightarrow> tick \<Rightarrow> dram_rank \<Rightarrow> dram_rank res" where
  "updatePowerStats c off now r =
     rbind (flushCmdList c off now r) (\<lambda>r1. rbind (divCeil now (tCK c)) (\<lambda>_. Inr r1))"

definition computeStats :: "dram_cfg \<Rightarrow> nat \<Rightarrow> tick \<Rightarrow> dram_rank \<Rightarrow> dram_rank res" where
  "computeStats c off now r =
     rbind (updatePowerStats c off now r) (\<lambda>r1.
       Inr (r1\<lparr>pwrStateTime := (pwrStateTime r1)
                 (pwrState r1 := pwrStateTime r1 (pwrState r1) + sub_tick now (pwrStateTick r1)),
               pwrStateTick := now\<rparr>))"

definition rank_suspend :: "dram_cfg \<Rightarrow> nat \<Rightarrow> tick \<Rightarrow> dram_rank \<Rightarrow> dram_rank res" where
  "rank_suspend c off now r =
     rbind (deschedule (refreshEvent r)) (\<lambda>ev.
     rbind (updatePowerStats c off now (r\<lparr>refreshEvent := ev\<rparr>)) (\<lambda>r1.
       Inr (r1\<lparr>pwrStatePostRefresh := PWR_IDLE\<rparr>)))"

definition processActivateEvent :: "tick \<Rightarrow> dram_rank \<Rightarrow> dram_rank res" where
  "processActivateEvent now r =
     (if pwrState r \<noteq> PWR_ACT then schedulePowerEvent now PWR_ACT now r else Inr r)"

definition processPrechargeEvent :: "dram_cfg \<Rightarrow> ctrl_view \<Rightarrow> tick \<Rightarrow> dram_rank \<Rightarrow> dram_rank res" where
  "processPrechargeEvent c v now r =
     rassert (0 < outstandingEvents r)
      (let r1 = r\<lparr>outstandingEvents := dec8 (outstandingEvents r)\<rparr>
       in if numBanksActive r1 = 0
          then if isQueueEmpty v r1 \<and> outstandingEvents r1 = 0 \<and> enableDRAMPowerdown c
               then rassert (pwrState r1 = PWR_ACT) (powerDownSleep c now PWR_PRE_PDN now r1)
               else schedulePowerEvent now PWR_IDLE now r1
          else Inr r1)"

definition processWriteDoneEvent :: "dram_rank \<Rightarrow> dram_rank res" where
  "processWriteDoneEvent r =
     rassert (0 < outstandingEvents r) (Inr (r\<lparr>outstandingEvents := dec8 (outstandingEvents r)\<rparr>))"

text \<open>The phases of \<open>processRefreshEvent\<close>. Precharging all banks at one tick:\<close>

definition pre_all_at :: "tick \<Rightarrow> dram_rank \<Rightarrow> tick" where
  "pre_all_at now r = fold (\<lambda>b t. max (preAllowedAt b) t) (banks r) now"

fun pre_all_loop :: "dram_cfg \<Rightarrow> tick \<Rightarrow> tick \<Rightarrow> nat list \<Rightarrow> dram_rank \<Rightarrow> dram_rank res" where
  "pre_all_loop c now pre_at [] r = Inr r"
| "pre_all_loop c now pre_at (i # is) r =
     rbind (if openRow (banks r ! i) \<noteq> NO_ROW
            then rbind (prechargeBank c 1 now i pre_at True False (r, {#})) (\<lambda>(r1, _). Inr r1)
            else Inr (upd_bank i (\<lambda>b. b\<lparr>actAllowedAt := max (actAllowedAt b) (pre_at + tRP c),
                                       preAllowedAt := max (preAllowedAt b) pre_at\<rparr>) r))
       (pre_all_loop c now pre_at is)"

definition refresh_pre :: "dram_cfg \<Rightarrow> ctrl_view \<Rightarrow> tick \<Rightarrow> dram_rank \<Rightarrow> dram_rank res" where
  "refresh_pre c v now r =
     rbind
      (if numBanksActive r \<noteq> 0
       then let pre_at = pre_all_at now r
            in rbind (pre_all_loop c now pre_at [0..<length (banks r)] r) (\<lambda>r1. Inr (push_cmd PREA 0 pre_at r1))
       else if pwrState r = PWR_IDLE \<and> outstandingEvents r = 1 then schedulePowerEvent now PWR_REF now r
       else rassert (prechargeEvent r \<noteq> None \<or> respondEventScheduled v) (Inr r))
      (\<lambda>r1. rassert (numBanksActive r1 = 0) (Inr r1))"

definition refresh_start :: "dram_cfg \<Rightarrow> nat \<Rightarrow> tick \<Rightarrow> dram_rank \<Rightarrow> dram_rank res" where
  "refresh_start c off now r =
     rassert (numBanksActive r = 0) (rassert (pwrState r = PWR_REF)
      (let ref_done_at = now + tRFC c
       in rbind (updatePowerStats c off now
            (push_cmd REF 0 now (map_banks (\<lambda>b. b\<lparr>actAllowedAt := ref_done_at\<rparr>) r))) (\<lambda>r1.
          let r2 = r1\<lparr>refreshDueAt := refreshDueAt r1 + tREFI c\<rparr>
          in if refreshDueAt r2 < ref_done_at then Inl Fatal
             else rbind (schedule now ref_done_at (refreshEvent r2)) (\<lambda>ev.
               Inr (r2\<lparr>refreshState := REF_RUN, refreshEvent := ev\<rparr>)))))"

definition refresh_run :: "dram_cfg \<Rightarrow> ctrl_view \<Rightarrow> tick \<Rightarrow> dram_rank \<Rightarrow> dram_rank res" where
  "refresh_run c v now r =
     rassert (numBanksActive r = 0) (rassert (pwrState r = PWR_REF) (rassert (powerEvent r = None)
      (rbind
        (if drainState v = Draining \<or> drainState v = Drained then schedulePowerEvent now PWR_IDLE now r
         else if pwrStatePostRefresh r \<noteq> PWR_IDLE
              then rassert (pwrState r = PWR_REF) (powerDownSleep c now (pwrState r) now r)
         else if isQueueEmpty v r \<and> enableDRAMPowerdown c
              then rassert (outstandingEvents r = 1) (powerDownSleep c now PWR_PRE_PDN now r)
         else schedulePowerEvent now PWR_IDLE now r)
        (\<lambda>r1. rbind (schedule now (sub_tick (refreshDueAt r1) (tRP c)) (refreshEvent r1)) (\<lambda>ev.
           Inr (r1\<lparr>refreshEvent := ev\<rparr>))))))"

definition refresh_due :: "tick \<Rightarrow> dram_rank \<Rightarrow> dram_rank" where
  "refresh_due now r =
     (if refreshState r = REF_IDLE \<or> refreshState r = REF_SREF_EXIT
      then r\<lparr>refreshDueAt := now, refreshState := REF_DRAIN, outstandingEvents := inc8 (outstandingEvents r)\<rparr>
      else r)"

definition processRefreshEvent ::
    "dram_cfg \<Rightarrow> nat \<Rightarrow> nat \<Rightarrow> ctrl_view \<Rightarrow> tick \<Rightarrow> dram_rank \<Rightarrow> dram_rank res" where
  "processRefreshEvent c off active v now r =
     (let r1 = refresh_due now r
      in if refreshState r1 = REF_DRAIN \<and> rk_rank r1 = active \<and> requestEventScheduled v then Inr r1
         else let r2 = (if refreshState r1 = REF_DRAIN then r1\<lparr>refreshState := REF_PD_EXIT\<rparr> else r1)
         in if refreshState r2 = REF_PD_EXIT \<and> inLowPowerState r2 then scheduleWakeUpEvent now (tXP c) r2
            else let r3 = (if refreshState r2 = REF_PD_EXIT then r2\<lparr>refreshState := REF_PRE\<rparr> else r2)
            in if refreshState r3 = REF_PRE then refresh_pre c v now r3
               else if refreshState r3 = REF_START then refresh_start c off now r3
               else if refreshState r3 = REF_RUN then refresh_run c v now r3
               else Inr r3)"

definition processWakeUpEvent :: "tick \<Rightarrow> dram_rank \<Rightarrow> dram_rank res" where
  "processWakeUpEvent now r =
     rassert (pwrState r = PWR_ACT_PDN \<or> pwrState r = PWR_PRE_PDN \<or> pwrState r = PWR_SREF)
      (if pwrState r = PWR_ACT_PDN then schedulePowerEvent now PWR_ACT now r
       else schedulePowerEvent now PWR_IDLE now r)"

text \<open>The parts of \<open>processPowerEvent\<close>: the accounting and the new state,\<close>

definition power_enter :: "tick \<Rightarrow> dram_rank \<Rightarrow> dram_rank" where
  "power_enter now r =
     (let duration = now - pwrStateTick r; prev_state = pwrState r
      in r\<lparr>pwrStateTime := (pwrStateTime r)(prev_state := pwrStateTime r prev_state + duration),
           totalIdleTime := (if prev_state = PWR_PRE_PDN \<or> prev_state = PWR_ACT_PDN \<or> prev_state = PWR_SREF
                             then totalIdleTime r + duration else totalIdleTime r),
           pwrState := pwrStateTrans r, pwrStateTick := now\<rparr>)"

text \<open>the end of a refresh,\<close>

definition power_refreshed ::
    "tick \<Rightarrow> power_state \<Rightarrow> dram_rank \<Rightarrow> ctrl_view \<Rightarrow> (dram_rank \<times> ctrl_view) res" where
  "power_refreshed now prev_state r v =
     (if prev_state = PWR_REF
      then rassert (outstandingEvents r = 1)
        (let r1 = r\<lparr>outstandingEvents := dec8 (outstandingEvents r), refreshState := REF_IDLE\<rparr>
         in rassert (pwrState r1 = PWR_IDLE \<or> pwrState r1 = PWR_PRE_PDN)
             (if requestEventScheduled v then Inr (r1, v)
              else rbind (restartScheduler now now v) (\<lambda>v1. Inr (r1, v1))))
      else Inr (r, v))"

text \<open>reaching the active or the idle state,\<close>

definition power_idle :: "dram_cfg \<Rightarrow> tick \<Rightarrow> power_state \<Rightarrow> dram_rank \<Rightarrow> dram_rank res" where
  "power_idle c now prev_state r =
     (if prev_state = PWR_SREF
      then rbind (schedule now (now + tXS c) (refreshEvent r)) (\<lambda>ev.
             Inr (r\<lparr>refreshState := REF_SREF_EXIT, refreshEvent := ev\<rparr>))
      else if refreshState r = REF_PRE \<or> refreshState r = REF_PD_EXIT
      then if activateEvent r = None
           then rassert (powerEvent r = None)
             (if refreshState r = REF_PD_EXIT
              then rassert (prev_state = PWR_PRE_PDN) (schedulePowerEvent now PWR_REF (now + tXP c) r)
              else Inr (r\<lparr>pwrState := PWR_REF\<rparr>))
           else rassert (prechargeEvent r \<noteq> None) (Inr r)
      else Inr r)"

definition power_reached :: "dram_cfg \<Rightarrow> tick \<Rightarrow> power_state \<Rightarrow> dram_rank \<Rightarrow> dram_rank res" where
  "power_reached c now prev_state r =
     (if pwrState r = PWR_ACT \<and> refreshState r = REF_PD_EXIT
      then rassert (prev_state = PWR_ACT_PDN)
        (rbind (schedule now now (refreshEvent r)) (\<lambda>ev. Inr (r\<lparr>refreshState := REF_PRE, refreshEvent := ev\<rparr>)))
      else if pwrState r = PWR_IDLE then power_idle c now prev_state r
      else Inr r)"

text \<open>and starting a refresh or, from precharge power-down, self refresh instead.\<close>

definition power_refresh :: "dram_cfg \<Rightarrow> ctrl_view \<Rightarrow> tick \<Rightarrow> dram_rank \<Rightarrow> dram_rank res" where
  "power_refresh c v now r =
     (if pwrState r = PWR_REF
      then rassert (refreshState r = REF_PRE \<or> refreshState r = REF_PD_EXIT)
        (if pwrStatePostRefresh r = PWR_PRE_PDN \<and> isQueueEmpty v r \<and> drainState v \<noteq> Draining \<and>
            drainState v \<noteq> Drained \<and> enableDRAMPowerdown c
         then rbind (powerDownSleep c now PWR_SREF now r) (\<lambda>r1.
              rassert (outstandingEvents r1 = 1)
               (Inr (r1\<lparr>outstandingEvents := dec8 (outstandingEvents r1), pwrState := PWR_IDLE\<rparr>)))
         else rassert (powerEvent r = None)
              (rbind (schedule now now (refreshEvent r)) (\<lambda>ev.
                Inr (r\<lparr>refreshState := REF_START, refreshEvent := ev\<rparr>))))
      else Inr r)"

definition processPowerEvent ::
    "dram_cfg \<Rightarrow> tick \<Rightarrow> dram_rank \<times> ctrl_view \<Rightarrow> (dram_rank \<times> ctrl_view) res" where
  "processPowerEvent c now rv =
     (case rv of (r, v) \<Rightarrow>
      rassert (pwrStateTick r \<le> now)
       (rbind (power_refreshed now (pwrState r) (power_enter now r) v) (\<lambda>(r1, v1).
        rbind (power_reached c now (pwrState r) r1) (\<lambda>r2.
        rbind (power_refresh c v1 now r2) (\<lambda>r3. Inr (r3, v1))))))"

definition forceSelfRefreshExit :: "ctrl_view \<Rightarrow> dram_rank \<Rightarrow> bool" where
  "forceSelfRefreshExit v r = (readEntries r \<noteq> 0 \<or> inWriteBusState v True \<and> writeEntries r \<noteq> 0)"

section \<open>A whole refresh\<close>

text \<open>The event queue serves the refresh and the power event of a rank at their ticks.\<close>

definition fire_refresh ::
    "dram_cfg \<Rightarrow> nat \<Rightarrow> nat \<Rightarrow> dram_rank \<times> ctrl_view \<Rightarrow> (dram_rank \<times> ctrl_view) res" where
  "fire_refresh c off active rv =
     (case rv of (r, v) \<Rightarrow>
      case refreshEvent r of
        None \<Rightarrow> Inl Assert_Fail
      | Some t \<Rightarrow> rbind (processRefreshEvent c off active v t (r\<lparr>refreshEvent := None\<rparr>)) (\<lambda>r1. Inr (r1, v)))"

definition fire_power :: "dram_cfg \<Rightarrow> dram_rank \<times> ctrl_view \<Rightarrow> (dram_rank \<times> ctrl_view) res" where
  "fire_power c rv =
     (case rv of (r, v) \<Rightarrow>
      case powerEvent r of
        None \<Rightarrow> Inl Assert_Fail
      | Some t \<Rightarrow> processPowerEvent c t (r\<lparr>powerEvent := None\<rparr>, v))"

definition refresh_cycle ::
    "dram_cfg \<Rightarrow> nat \<Rightarrow> nat \<Rightarrow> dram_rank \<times> ctrl_view \<Rightarrow> (dram_rank \<times> ctrl_view) res" where
  "refresh_cycle c off active rv =
     rbind (fire_refresh c off active rv) (\<lambda>x1. rbind (fire_power c x1) (\<lambda>x2.
     rbind (fire_refresh c off active x2) (\<lambda>x3. rbind (fire_refresh c off active x3) (fire_power c))))"

text \<open>A rank at rest: all banks closed, nothing pending but the next refresh.\<close>

definition rank_at_rest :: "dram_rank \<Rightarrow> bool" where
  "rank_at_rest r \<longleftrightarrow> refreshState r = REF_IDLE \<and> pwrState r = PWR_IDLE \<and> \<not> inLowPowerState r \<and>
     pwrStatePostRefresh r = PWR_IDLE \<and> numBanksActive r = 0 \<and> outstandingEvents r = 0 \<and>
     writeDoneEvent r = None \<and> activateEvent r = None \<and> prechargeEvent r = None \<and>
     powerEvent r = None \<and> wakeUpEvent r = None"

lemma power_cycles_ok: "0 < ck \<Longrightarrow> \<exists>l. power_cycles ck off cs = Inr l"
  by (induction cs) (auto simp: divCeil_def)

lemma updatePowerStats_ok:
  assumes "0 < tCK c"
  obtains pc cl where "updatePowerStats c off now r = Inr (r\<lparr>powerCmds := pc, cmdList := cl\<rparr>)"
proof -
  let ?cs = "sort_key timeStamp (cmdList r)"
  obtain l where "power_cycles (tCK c) off (takeWhile (\<lambda>cmd. timeStamp cmd \<le> now) ?cs) = Inr l"
    using power_cycles_ok[OF assms] by blast
  then have "updatePowerStats c off now r =
      Inr (r\<lparr>powerCmds := powerCmds r @ l, cmdList := dropWhile (\<lambda>cmd. timeStamp cmd \<le> now) ?cs\<rparr>)"
    using assms by (simp add: updatePowerStats_def flushCmdList_def divCeil_def Let_def)
  then show thesis by (rule that)
qed

lemma refresh_cycle_ok:
  assumes rest: "rank_at_rest r" and due: "refreshEvent r = Some due" and tick: "pwrStateTick r \<le> due"
    and cfg: "0 < tCK c" "tRFC c + tRP c \<le> tREFI c" "\<not> enableDRAMPowerdown c"
    and idle: "rk_rank r = active \<longrightarrow> \<not> requestEventScheduled v"
  obtains r' v' where "refresh_cycle c off active (r, v) = Inr (r', v')" "rank_at_rest r'"
    "refreshEvent r' = Some (due + tREFI c - tRP c)"
    "banks r' = map (\<lambda>b. b\<lparr>actAllowedAt := due + tRFC c\<rparr>) (banks r)"
    "pwrStateTime r' PWR_REF = pwrStateTime r PWR_REF + tRFC c" "pwrStateTick r' = due + tRFC c"
    "requestEventScheduled v'" "rk_rank r' = rk_rank r"
proof -
  let ?done = "due + tRFC c"
  have nd: "drainState v = Draining \<or> drainState v = Drained \<or> drainState v \<noteq> Draining \<and> drainState v \<noteq> Drained" by blast
  note rest' = rest[unfolded rank_at_rest_def]
  define r1 where "r1 = r\<lparr>refreshEvent := None, refreshDueAt := due, refreshState := REF_PRE, outstandingEvents := 1,
      pwrStateTrans := PWR_REF, powerEvent := Some due\<rparr>"
  have s1: "fire_refresh c off active (r, v) = Inr (r1, v)"
    using rest' due idle by (auto simp: fire_refresh_def processRefreshEvent_def refresh_due_def Let_def refresh_pre_def
        schedulePowerEvent_def schedule_def inc8_def r1_def)
  define r2 where "r2 = (power_enter due (r1\<lparr>powerEvent := None\<rparr>))\<lparr>refreshState := REF_START, refreshEvent := Some due\<rparr>"
  have s2: "fire_power c (r1, v) = Inr (r2, v)"
    using rest' tick cfg(3) by (simp add: fire_power_def processPowerEvent_def power_refreshed_def power_reached_def
        power_refresh_def schedule_def r1_def r2_def power_enter_def Let_def)
  obtain pc cl where u: "updatePowerStats c off due (push_cmd REF 0 due (map_banks (\<lambda>b. b\<lparr>actAllowedAt := ?done\<rparr>)
      (r2\<lparr>refreshEvent := None\<rparr>))) = Inr ((push_cmd REF 0 due (map_banks (\<lambda>b. b\<lparr>actAllowedAt := ?done\<rparr>)
      (r2\<lparr>refreshEvent := None\<rparr>)))\<lparr>powerCmds := pc, cmdList := cl\<rparr>)"
    by (rule updatePowerStats_ok[OF cfg(1), of off due])
  define r3 where "r3 = r2\<lparr>banks := map (\<lambda>b. b\<lparr>actAllowedAt := ?done\<rparr>) (banks r), powerCmds := pc, cmdList := cl,
      refreshDueAt := due + tREFI c, refreshState := REF_RUN, refreshEvent := Some ?done\<rparr>"
  have f2: "numBanksActive r2 = 0" "pwrState r2 = PWR_REF" "refreshDueAt r2 = due" "refreshState r2 = REF_START"
    "refreshEvent r2 = Some due" "banks r2 = banks r"
    using rest' by (simp_all add: r2_def power_enter_def r1_def Let_def)
  have s3: "fire_refresh c off active (r2, v) = Inr (r3, v)"
    using cfg(2) f2 u by (simp add: fire_refresh_def processRefreshEvent_def refresh_due_def Let_def refresh_start_def
        schedule_def r3_def) (simp add: push_cmd_def map_banks_def)
  define r4 where "r4 = r3\<lparr>pwrStateTrans := PWR_IDLE, powerEvent := Some ?done, refreshEvent := Some (due + tREFI c - tRP c)\<rparr>"
  have f3: "numBanksActive r3 = 0" "pwrState r3 = PWR_REF" "refreshDueAt r3 = due + tREFI c" "refreshState r3 = REF_RUN"
    "refreshEvent r3 = Some ?done" "powerEvent r3 = None" "pwrStatePostRefresh r3 = PWR_IDLE"
    using rest' f2 by (simp_all add: r3_def r2_def power_enter_def r1_def Let_def)
  have s4: "fire_refresh c off active (r3, v) = Inr (r4, v)"
    using cfg(2,3) f3 by (cases "drainState v") (simp_all add: fire_refresh_def processRefreshEvent_def refresh_due_def Let_def
        refresh_run_def schedulePowerEvent_def schedule_def sub_tick_def r4_def)
  define r5 where "r5 = (power_enter ?done (r4\<lparr>powerEvent := None\<rparr>))\<lparr>outstandingEvents := 0, refreshState := REF_IDLE\<rparr>"
  obtain v' where v': "(if requestEventScheduled v then Inr v else restartScheduler ?done ?done v) = Inr v'"
    "requestEventScheduled v'"
    by (cases "requestEventScheduled v") (auto simp: restartScheduler_def schedule_def requestEventScheduled_def)
  have f4: "outstandingEvents r4 = 1" "pwrStateTick r4 = due" "pwrState r4 = PWR_REF" "pwrStateTrans r4 = PWR_IDLE"
    "powerEvent r4 = Some ?done" "refreshState r4 = REF_RUN"
    using f3 by (simp_all add: r4_def r3_def r2_def r1_def power_enter_def Let_def)
  have s5: "fire_power c (r4, v) = Inr (r5, v')"
    using f4 v' by (cases "requestEventScheduled v") (auto simp: fire_power_def processPowerEvent_def power_refreshed_def
        power_reached_def power_refresh_def power_idle_def power_enter_def dec8_def r5_def Let_def)
  have run: "refresh_cycle c off active (r, v) = Inr (r5, v')"
    by (simp add: refresh_cycle_def s1 s2 s3 s4 s5)
  show thesis
    by (rule that[OF run])
      (use rest' f2 v'(2) in \<open>simp_all add: rank_at_rest_def r5_def r4_def r3_def r2_def r1_def power_enter_def Let_def\<close>)
qed

fun refresh_cycles ::
    "dram_cfg \<Rightarrow> nat \<Rightarrow> nat \<Rightarrow> nat \<Rightarrow> dram_rank \<times> ctrl_view \<Rightarrow> (dram_rank \<times> ctrl_view) res" where
  "refresh_cycles c off active 0 rv = Inr rv"
| "refresh_cycles c off active (Suc k) rv = rbind (refresh_cycle c off active rv) (refresh_cycles c off active k)"

section \<open>The outstanding events\<close>

text \<open>A read is answered (\<open>respondEvent\<close> of the interface, on the rank of the read).\<close>

definition rank_respond :: "dram_cfg \<Rightarrow> ctrl_view \<Rightarrow> tick \<Rightarrow> dram_rank \<Rightarrow> dram_rank res" where
  "rank_respond c v now r =
     (let r1 = r\<lparr>readEntries := dec32 (readEntries r)\<rparr>
      in rassert (0 < outstandingEvents r1)
       (let r2 = r1\<lparr>outstandingEvents := dec8 (outstandingEvents r1)\<rparr>
        in rassert (pwrState r2 \<noteq> PWR_SREF \<and> pwrState r2 \<noteq> PWR_PRE_PDN \<and> pwrState r2 \<noteq> PWR_ACT_PDN)
         (if isQueueEmpty v r2 \<and> outstandingEvents r2 = 0 \<and> inRefIdleState r2 \<and> enableDRAMPowerdown c
          then rassert (activateEvent r2 = None) (rassert (prechargeEvent r2 = None)
            (powerDownSleep c now (if pwrState r2 = PWR_IDLE then PWR_PRE_PDN else PWR_ACT_PDN) now r2))
          else Inr r2)))"

definition rank_check_refresh :: "tick \<Rightarrow> dram_rank \<Rightarrow> dram_rank res" where
  "rank_check_refresh now r =
     (if refreshState r = REF_PRE \<and> prechargeEvent r = None
      then rbind (schedule now now (refreshEvent r)) (\<lambda>ev. Inr (r\<lparr>refreshEvent := ev\<rparr>))
      else Inr r)"

text \<open>
  The states of a rank that its commands and events can lead to, with the number of reads whose answer
  is outstanding: any order of commands and events, any ticks and any view of the controller.
\<close>

inductive rank_reach :: "dram_cfg \<Rightarrow> dram_rank \<Rightarrow> nat \<Rightarrow> bool" for c where
  start: "rank_reach c (new_rank c k) 0"
| boot: "rank_reach c r n \<Longrightarrow> rank_startup now t r = Inr r' \<Longrightarrow> rank_reach c r' n"
| activate: "rank_reach c r n \<Longrightarrow> activateBank c w now bi t row (r, bt) = Inr (r', bt') \<Longrightarrow> rank_reach c r' n"
| precharge: "rank_reach c r n \<Longrightarrow> prechargeBank c w now bi t auto tr (r, bt) = Inr (r', bt') \<Longrightarrow> rank_reach c r' n"
| read_burst: "rank_reach c r n \<Longrightarrow> mp_read pkt \<Longrightarrow> burst_events now pkt r = Inr r' \<Longrightarrow> rank_reach c r' (n + 1)"
| write_burst: "rank_reach c r n \<Longrightarrow> \<not> mp_read pkt \<Longrightarrow> burst_events now pkt r = Inr r' \<Longrightarrow> rank_reach c r' n"
| read_done: "rank_reach c r (n + 1) \<Longrightarrow> rank_respond c v now r = Inr r' \<Longrightarrow> rank_reach c r' n"
| drain_done: "rank_reach c r n \<Longrightarrow> checkDrainDone now r = Inr r' \<Longrightarrow> rank_reach c r' n"
| refresh_check: "rank_reach c r n \<Longrightarrow> rank_check_refresh now r = Inr r' \<Longrightarrow> rank_reach c r' n"
| activate_event: "rank_reach c r n \<Longrightarrow> activateEvent r = Some now \<Longrightarrow>
    processActivateEvent now (r\<lparr>activateEvent := None\<rparr>) = Inr r' \<Longrightarrow> rank_reach c r' n"
| precharge_event: "rank_reach c r n \<Longrightarrow> prechargeEvent r = Some now \<Longrightarrow>
    processPrechargeEvent c v now (r\<lparr>prechargeEvent := None\<rparr>) = Inr r' \<Longrightarrow> rank_reach c r' n"
| write_event: "rank_reach c r n \<Longrightarrow> writeDoneEvent r = Some now \<Longrightarrow>
    processWriteDoneEvent (r\<lparr>writeDoneEvent := None\<rparr>) = Inr r' \<Longrightarrow> rank_reach c r' n"
| refresh_event: "rank_reach c r n \<Longrightarrow> refreshEvent r = Some now \<Longrightarrow>
    processRefreshEvent c off active v now (r\<lparr>refreshEvent := None\<rparr>) = Inr r' \<Longrightarrow> rank_reach c r' n"
| power_event: "rank_reach c r n \<Longrightarrow> powerEvent r = Some now \<Longrightarrow>
    processPowerEvent c now (r\<lparr>powerEvent := None\<rparr>, v) = Inr (r', v') \<Longrightarrow> rank_reach c r' n"

text \<open>What holds of them when power-down is disabled, which is the default.\<close>

definition pending :: "dram_rank \<Rightarrow> nat \<Rightarrow> nat" where
  "pending r n = of_bool (refreshState r \<noteq> REF_IDLE) + of_bool (prechargeEvent r \<noteq> None) +
     of_bool (writeDoneEvent r \<noteq> None) + n"

definition awake_state :: "power_state \<Rightarrow> bool" where
  "awake_state p \<longleftrightarrow> p = PWR_IDLE \<or> p = PWR_REF \<or> p = PWR_ACT"

definition rank_inv :: "dram_rank \<Rightarrow> nat \<Rightarrow> bool" where
  "rank_inv r n \<longleftrightarrow> \<not> inLowPowerState r \<and> awake_state (pwrState r) \<and> awake_state (pwrStateTrans r) \<and>
     pwrStatePostRefresh r = PWR_IDLE \<and> wakeUpEvent r = None \<and> refreshState r \<noteq> REF_SREF_EXIT \<and>
     (pwrState r = PWR_REF \<longrightarrow> refreshState r = REF_START \<or> refreshState r = REF_RUN) \<and>
     outstandingEvents r = pending r n mod 256"

text \<open>The fields the invariant reads.\<close>

definition core :: "dram_rank \<Rightarrow> refresh_state \<times> power_state \<times> power_state \<times> power_state \<times> bool \<times> tick option \<times> bool" where
  "core r = (refreshState r, pwrState r, pwrStateTrans r, pwrStatePostRefresh r, inLowPowerState r, wakeUpEvent r,
     writeDoneEvent r \<noteq> None)"

lemma rank_inv_core:
  assumes "rank_inv r n" and "core r' = core r" and "prechargeEvent r' = None \<longleftrightarrow> prechargeEvent r = None"
    and "outstandingEvents r' = outstandingEvents r"
  shows "rank_inv r' n"
  using assms by (simp add: rank_inv_def core_def pending_def)

lemma core_upd [simp]:
  "core (upd_bank i f r) = core r" "core (map_banks f r) = core r" "core (push_cmd t b at r) = core r"
  "core (close_row i r) = core r" "core (r\<lparr>numBanksActive := k\<rparr>) = core r"
  "core (r\<lparr>activateEvent := ev\<rparr>) = core r" "core (r\<lparr>actTicks := ts\<rparr>) = core r"
  "core (r\<lparr>prechargeEvent := ev\<rparr>) = core r" "core (r\<lparr>outstandingEvents := m\<rparr>) = core r"
  "core (r\<lparr>refreshEvent := ev\<rparr>) = core r" "core (r\<lparr>powerEvent := ev\<rparr>) = core r"
  by (simp_all add: core_def upd_bank_def map_banks_def push_cmd_def close_row_def)

lemma activate_core:
  assumes "activateBank c w now bi t row (r, bt) = Inr (r', bt')"
  shows "core r' = core r" "prechargeEvent r' = prechargeEvent r" "outstandingEvents r' = outstandingEvents r"
proof -
  obtain act_at b' r1 ev where x: "enforce_tXAW c act_at (act_open c bi act_at row r) = Inr r1"
    "r' = r1\<lparr>activateEvent := ev\<rparr>"
    using assms by (auto simp: activateBank_def rbind_Inr_iff split: if_splits)
  have o: "core (act_open c bi act_at row r) = core r" "prechargeEvent (act_open c bi act_at row r) = prechargeEvent r"
    "outstandingEvents (act_open c bi act_at row r) = outstandingEvents r"
    by (simp_all add: act_open_def Let_def)
  have "core r1 = core (act_open c bi act_at row r)" "prechargeEvent r1 = prechargeEvent (act_open c bi act_at row r)"
    "outstandingEvents r1 = outstandingEvents (act_open c bi act_at row r)"
    using x(1) by (auto simp: enforce_tXAW_def Let_def split: if_splits)
  then show "core r' = core r" "prechargeEvent r' = prechargeEvent r" "outstandingEvents r' = outstandingEvents r"
    using o by (simp_all add: x(2))
qed

lemma precharge_core':
  assumes "prechargeBank c w now bi t auto tr (r, bt) = Inr (r', bt')"
  shows "core r' = core r" "prechargeEvent r' \<noteq> None"
    "outstandingEvents r' = (if prechargeEvent r = None then inc8 (outstandingEvents r) else outstandingEvents r)"
proof -
  obtain pre_at r1 r2 r4 b' where x: "pre_slot c w bi t auto (close_row bi r, bt) = Inr (pre_at, r1, b')"
    "r2 = (upd_bank bi (delay_act (pre_at + tRP c)) r1)"
    "r4 = (if tr then push_cmd PRE (bk_bank (banks (r2\<lparr>numBanksActive := dec32 (numBanksActive r2)\<rparr>) ! bi)) pre_at
             (r2\<lparr>numBanksActive := dec32 (numBanksActive r2)\<rparr>) else r2\<lparr>numBanksActive := dec32 (numBanksActive r2)\<rparr>)"
    "pre_event now (pre_at + tRP c) r4 = Inr r'"
    using assms by (auto simp: prechargeBank_def rbind_Inr_iff Let_def split: if_splits)
  have 1: "core r1 = core r" "prechargeEvent r1 = prechargeEvent r" "outstandingEvents r1 = outstandingEvents r"
    using x(1) by (auto simp: pre_slot_def rbind_Inr_iff split: if_splits)
  have 4: "core r4 = core r" "prechargeEvent r4 = prechargeEvent r" "outstandingEvents r4 = outstandingEvents r"
    using 1 by (simp_all add: x(2,3))
  show "core r' = core r" "prechargeEvent r' \<noteq> None"
    "outstandingEvents r' = (if prechargeEvent r = None then inc8 (outstandingEvents r) else outstandingEvents r)"
    using x(4) 4 by (auto simp: pre_event_def schedule_def reschedule_def core_def rbind_Inr_iff split: option.splits if_splits)
qed

lemma inc8_mod [simp]: "inc8 (x mod 256) = (x + 1) mod 256"
  by (simp add: inc8_def mod_simps)

lemma dec8_mod [simp]: "dec8 (Suc x mod 256) = x mod 256"
proof -
  have "(Suc x mod 256 + 255) mod 256 = (Suc x + 255) mod 256" by (rule mod_add_left_eq)
  also have "\<dots> = x mod 256" by simp
  finally show ?thesis by (simp add: dec8_def)
qed

lemma schedulePowerEvent_Inr:
  "schedulePowerEvent now ps t r = Inr r' \<longleftrightarrow>
     now \<le> t \<and> powerEvent r = None \<and> r' = r\<lparr>pwrStateTrans := ps, powerEvent := Some t\<rparr>"
  by (auto simp: schedulePowerEvent_def schedule_def)

lemma rank_inv_trans:
  "rank_inv r n \<Longrightarrow> awake_state ps \<Longrightarrow> rank_inv (r\<lparr>pwrStateTrans := ps, powerEvent := ev\<rparr>) n"
  by (simp add: rank_inv_def pending_def)

text \<open>An event served: the count goes down with what is pending.\<close>

lemma rank_inv_dec:
  assumes inv: "rank_inv r n" and c: "core r' = core r \<or> core (r'\<lparr>writeDoneEvent := Some 0\<rparr>) = core r"
    and p: "pending r n = Suc (pending r' m)" and o: "outstandingEvents r' = dec8 (outstandingEvents r)"
  shows "rank_inv r' m"
proof -
  have "outstandingEvents r' = pending r' m mod 256"
    using inv p o by (simp only: rank_inv_def dec8_mod)
  then show ?thesis using inv c unfolding rank_inv_def core_def by auto
qed

lemma rank_inv_inc:
  assumes inv: "rank_inv r n" and c: "core r' = core r \<or> core r' = core (r\<lparr>writeDoneEvent := Some 0\<rparr>)"
    and p: "pending r' m = pending r n + 1" and o: "outstandingEvents r' = inc8 (outstandingEvents r)"
  shows "rank_inv r' m"
proof -
  have "outstandingEvents r' = pending r' m mod 256"
    using inv p o by (simp only: rank_inv_def inc8_mod)
  then show ?thesis using inv c unfolding rank_inv_def core_def by auto
qed

lemma precharge_event_inv:
  assumes inv: "rank_inv r n" and pd: "\<not> enableDRAMPowerdown c" and ev: "prechargeEvent r \<noteq> None"
    and run: "processPrechargeEvent c v now (r\<lparr>prechargeEvent := None\<rparr>) = Inr r'"
  shows "rank_inv r' n"
proof -
  let ?r = "r\<lparr>prechargeEvent := None, outstandingEvents := dec8 (outstandingEvents r)\<rparr>"
  have "rank_inv ?r n" by (rule rank_inv_dec[OF inv]) (simp_all add: core_def pending_def ev)
  moreover have "r' = ?r \<or> r' = ?r\<lparr>pwrStateTrans := PWR_IDLE, powerEvent := Some now\<rparr>"
    using run pd by (auto simp: processPrechargeEvent_def Let_def schedulePowerEvent_Inr split: if_splits)
  ultimately show ?thesis using rank_inv_trans[of ?r n PWR_IDLE] by (auto simp: awake_state_def)
qed

lemma write_event_inv:
  assumes "rank_inv r n" and "writeDoneEvent r \<noteq> None"
    and "processWriteDoneEvent (r\<lparr>writeDoneEvent := None\<rparr>) = Inr r'"
  shows "rank_inv r' n"
proof -
  have "r' = r\<lparr>writeDoneEvent := None, outstandingEvents := dec8 (outstandingEvents r)\<rparr>"
    using assms(3) by (simp add: processWriteDoneEvent_def split: if_splits)
  then show ?thesis using rank_inv_dec[OF assms(1), of r' n] assms(2) by (simp add: core_def pending_def)
qed

lemma activate_event_inv:
  assumes "rank_inv r n" and "processActivateEvent now (r\<lparr>activateEvent := None\<rparr>) = Inr r'"
  shows "rank_inv r' n"
proof -
  have i: "rank_inv (r\<lparr>activateEvent := None\<rparr>) n" by (rule rank_inv_core[OF assms(1)]) simp_all
  have "r' = r\<lparr>activateEvent := None\<rparr> \<or>
      r' = r\<lparr>activateEvent := None\<rparr>\<lparr>pwrStateTrans := PWR_ACT, powerEvent := Some now\<rparr>"
    using assms(2) by (auto simp: processActivateEvent_def schedulePowerEvent_Inr split: if_splits)
  then show ?thesis using i rank_inv_trans[OF i, of PWR_ACT] by (auto simp: awake_state_def)
qed

lemma respond_inv:
  assumes "rank_inv r (n + 1)" and "\<not> enableDRAMPowerdown c" and "rank_respond c v now r = Inr r'"
  shows "rank_inv r' n"
proof -
  have "r' = r\<lparr>readEntries := dec32 (readEntries r), outstandingEvents := dec8 (outstandingEvents r)\<rparr>"
    using assms(2,3) by (auto simp: rank_respond_def Let_def split: if_splits)
  then show ?thesis using rank_inv_dec[OF assms(1), of r' n] by (simp add: core_def pending_def)
qed

lemma burst_events_inv:
  assumes "rank_inv r n" and "burst_events now pkt r = Inr r'"
  shows "rank_inv r' (if mp_read pkt then n + 1 else n)"
proof (cases "mp_read pkt")
  case True
  then have "r' = r\<lparr>outstandingEvents := inc8 (outstandingEvents r)\<rparr>" using assms(2) by (simp add: burst_events_def)
  then show ?thesis using rank_inv_inc[OF assms(1), of r' "n + 1"] True by (simp add: pending_def)
next
  case False
  show ?thesis
  proof (cases "writeDoneEvent r")
    case None
    then have "r' = r\<lparr>writeDoneEvent := Some (readyTime pkt), outstandingEvents := inc8 (outstandingEvents r),
        writeEntries := dec32 (writeEntries r)\<rparr>"
      using assms(2) False by (simp add: burst_events_def schedule_def split: if_splits)
    then show ?thesis using rank_inv_inc[OF assms(1), of r' n] False None by (simp add: core_def pending_def)
  next
    case (Some t)
    then have "r' = r\<lparr>writeDoneEvent := Some (readyTime pkt), writeEntries := dec32 (writeEntries r)\<rparr> \<or>
        r' = r\<lparr>writeEntries := dec32 (writeEntries r)\<rparr>"
      using assms(2) False by (cases "t < readyTime pkt") (auto simp: burst_events_def reschedule_def split: if_splits)
    then have "core r' = core r" "prechargeEvent r' = prechargeEvent r" "outstandingEvents r' = outstandingEvents r"
      using Some by (auto simp: core_def)
    then show ?thesis using rank_inv_core[OF assms(1), of r'] False by simp
  qed
qed

lemma pre_all_loop_inv:
  assumes "rank_inv r n" and "pre_all_loop c now pre_at is r = Inr r'"
  shows "rank_inv r' n"
  using assms
proof (induction "is" arbitrary: r)
  case (Cons i "is")
  obtain r1 where r1: "(if openRow (banks r ! i) \<noteq> NO_ROW
            then rbind (prechargeBank c 1 now i pre_at True False (r, {#})) (\<lambda>(r1, _). Inr r1)
            else Inr (upd_bank i (\<lambda>b. b\<lparr>actAllowedAt := max (actAllowedAt b) (pre_at + tRP c),
                                       preAllowedAt := max (preAllowedAt b) pre_at\<rparr>) r)) = Inr r1"
    "pre_all_loop c now pre_at is r1 = Inr r'"
    using Cons.prems(2) unfolding pre_all_loop.simps(2) rbind_Inr_iff by blast
  have "rank_inv r1 n"
  proof (cases "openRow (banks r ! i) \<noteq> NO_ROW")
    case True
    then obtain b' where p: "prechargeBank c 1 now i pre_at True False (r, {#}) = Inr (r1, b')"
      using r1(1) by (auto simp: rbind_Inr_iff)
    note pc = precharge_core'[OF p]
    show ?thesis using Cons.prems(1) pc
      by (cases "prechargeEvent r = None") (auto simp: rank_inv_def core_def pending_def)
  next
    case False
    then have "r1 = upd_bank i (\<lambda>b. b\<lparr>actAllowedAt := max (actAllowedAt b) (pre_at + tRP c),
                                       preAllowedAt := max (preAllowedAt b) pre_at\<rparr>) r" using r1(1) by simp
    then show ?thesis by (simp add: rank_inv_core[OF Cons.prems(1)])
  qed
  then show ?case using Cons.IH r1(2) by blast
qed simp

lemma refresh_pre_inv:
  assumes inv: "rank_inv r n" and run: "refresh_pre c v now r = Inr r'"
  shows "rank_inv r' n"
proof -
  consider (all) r1 pre_at where "pre_all_loop c now pre_at [0..<length (banks r)] r = Inr r1" "r' = push_cmd PREA 0 pre_at r1"
    | (idle) "r' = r\<lparr>pwrStateTrans := PWR_REF, powerEvent := Some now\<rparr>" | (wait) "r' = r"
  proof -
    obtain r1 where r1: "(if numBanksActive r \<noteq> 0
       then rbind (pre_all_loop c now (pre_all_at now r) [0..<length (banks r)] r) (\<lambda>r1. Inr (push_cmd PREA 0 (pre_all_at now r) r1))
       else if pwrState r = PWR_IDLE \<and> outstandingEvents r = 1 then schedulePowerEvent now PWR_REF now r
       else rassert (prechargeEvent r \<noteq> None \<or> respondEventScheduled v) (Inr r)) = Inr r1"
      "rassert (numBanksActive r1 = 0) (Inr r1) = Inr r'"
      using run unfolding refresh_pre_def Let_def rbind_Inr_iff by blast
    have eq: "r1 = r'" using r1(2) by (simp split: if_splits)
    show thesis
    proof (cases "numBanksActive r = 0")
      case False
      then show thesis using r1(1) all unfolding eq by (auto simp: rbind_Inr_iff)
    next
      case z: True
      show thesis
      proof (cases "pwrState r = PWR_IDLE \<and> outstandingEvents r = 1")
        case True
        then show thesis using r1(1) z idle unfolding eq by (simp add: schedulePowerEvent_Inr)
      next
        case False
        then show thesis using r1(1) z wait unfolding eq by (auto split: if_splits)
      qed
    qed
  qed
  then show ?thesis
  proof cases
    case all
    show ?thesis unfolding all(2) by (rule rank_inv_core[OF pre_all_loop_inv[OF inv all(1)]]) simp_all
  next
    case idle
    then show ?thesis using rank_inv_trans[OF inv] by (simp add: awake_state_def)
  qed (use inv in simp)
qed

lemma updatePowerStats_Inr:
  assumes "updatePowerStats c off now r = Inr r'"
  obtains pc cl where "r' = r\<lparr>powerCmds := pc, cmdList := cl\<rparr>"
  using assms by (auto simp: updatePowerStats_def flushCmdList_def rbind_Inr_iff Let_def)

lemma refresh_start_inv:
  assumes inv: "rank_inv r n" and st: "refreshState r = REF_START" and run: "refresh_start c off now r = Inr r'"
  shows "rank_inv r' n"
proof -
  obtain r1 where u: "updatePowerStats c off now
      (push_cmd REF 0 now (map_banks (\<lambda>b. b\<lparr>actAllowedAt := now + tRFC c\<rparr>) r)) = Inr r1"
    "r' = r1\<lparr>refreshDueAt := refreshDueAt r1 + tREFI c, refreshState := REF_RUN, refreshEvent := Some (now + tRFC c)\<rparr>"
    using run by (auto simp: refresh_start_def rbind_Inr_iff Let_def schedule_def split: if_splits)
  obtain pc cl where "r1 = (push_cmd REF 0 now (map_banks (\<lambda>b. b\<lparr>actAllowedAt := now + tRFC c\<rparr>) r))
      \<lparr>powerCmds := pc, cmdList := cl\<rparr>"
    by (rule updatePowerStats_Inr[OF u(1)])
  then show ?thesis using inv st
    by (auto simp: u(2) rank_inv_def pending_def push_cmd_def map_banks_def)
qed

lemma refresh_run_inv:
  assumes inv: "rank_inv r n" and pd: "\<not> enableDRAMPowerdown c" and run: "refresh_run c v now r = Inr r'"
  shows "rank_inv r' n"
proof -
  have post: "pwrStatePostRefresh r = PWR_IDLE" using inv by (simp add: rank_inv_def)
  obtain ev where "r' = r\<lparr>pwrStateTrans := PWR_IDLE, powerEvent := Some now, refreshEvent := ev\<rparr>"
    using run pd post by (auto simp: refresh_run_def rbind_Inr_iff schedulePowerEvent_Inr schedule_def split: if_splits)
  then show ?thesis using inv by (simp add: rank_inv_def pending_def awake_state_def)
qed

lemma refresh_event_inv:
  assumes inv: "rank_inv r n" and pd: "\<not> enableDRAMPowerdown c"
    and run: "processRefreshEvent c off active v now r = Inr r'"
  shows "rank_inv r' n"
proof -
  define r1 where "r1 = refresh_due now r"
  define r2 where "r2 = (if refreshState r1 = REF_DRAIN then r1\<lparr>refreshState := REF_PD_EXIT\<rparr> else r1)"
  define r3 where "r3 = (if refreshState r2 = REF_PD_EXIT then r2\<lparr>refreshState := REF_PRE\<rparr> else r2)"
  have i1: "rank_inv r1 n" using inv by (auto simp: r1_def refresh_due_def rank_inv_def pending_def)
  have i2: "rank_inv r2 n" using i1 by (auto simp: r2_def rank_inv_def pending_def)
  have i3: "rank_inv r3 n" using i2 by (auto simp: r3_def rank_inv_def pending_def)
  have low: "\<not> inLowPowerState r2" using i2 by (simp add: rank_inv_def)
  have "r' = r1 \<or> refresh_pre c v now r3 = Inr r' \<or> refreshState r3 = REF_START \<and> refresh_start c off now r3 = Inr r' \<or>
      refresh_run c v now r3 = Inr r' \<or> r' = r3"
    using run low unfolding processRefreshEvent_def Let_def r1_def[symmetric] r2_def[symmetric] r3_def[symmetric]
    by (auto split: if_splits)
  then show ?thesis
    using i1 i3 refresh_pre_inv[OF i3] refresh_start_inv[OF i3] refresh_run_inv[OF i3 pd] by blast
qed

text \<open>The cases of a power event without power-down.\<close>

lemma power_enter_simps [simp]:
  "pwrState (power_enter now r) = pwrStateTrans r" "refreshState (power_enter now r) = refreshState r"
  "outstandingEvents (power_enter now r) = outstandingEvents r" "prechargeEvent (power_enter now r) = prechargeEvent r"
  "writeDoneEvent (power_enter now r) = writeDoneEvent r" "pwrStatePostRefresh (power_enter now r) = pwrStatePostRefresh r"
  "inLowPowerState (power_enter now r) = inLowPowerState r" "wakeUpEvent (power_enter now r) = wakeUpEvent r"
  "pwrStateTrans (power_enter now r) = pwrStateTrans r" "activateEvent (power_enter now r) = activateEvent r"
  "powerEvent (power_enter now r) = powerEvent r" "refreshEvent (power_enter now r) = refreshEvent r"
  by (simp_all add: power_enter_def Let_def)

lemma power_refresh_awake:
  assumes "\<not> enableDRAMPowerdown c" and "power_refresh c v now r = Inr r'"
  shows "r' = r \<and> pwrState r \<noteq> PWR_REF \<or>
    pwrState r = PWR_REF \<and> (\<exists>ev. r' = r\<lparr>refreshState := REF_START, refreshEvent := ev\<rparr>) \<and>
      (refreshState r = REF_PRE \<or> refreshState r = REF_PD_EXIT)"
  using assms by (auto simp: power_refresh_def rbind_Inr_iff split: if_splits)

lemma power_reached_awake:
  assumes "awake_state prev" and "power_reached c now prev r = Inr r'"
  shows "r' = r \<or> r' = r\<lparr>pwrState := PWR_REF\<rparr>"
  using assms by (auto simp: power_reached_def power_idle_def awake_state_def rbind_Inr_iff split: if_splits)

lemma power_refreshed_ref:
  assumes "power_refreshed now PWR_REF r v = Inr (r', v')"
  shows "r' = r\<lparr>outstandingEvents := dec8 1, refreshState := REF_IDLE\<rparr>" "outstandingEvents r = 1"
    "pwrState r = PWR_IDLE \<or> pwrState r = PWR_PRE_PDN"
  using assms by (auto simp: power_refreshed_def rbind_Inr_iff Let_def split: if_splits)

lemma power_reached_idle:
  assumes "power_reached c now PWR_REF r = Inr r'" and "refreshState r = REF_IDLE"
  shows "r' = r"
  using assms by (auto simp: power_reached_def power_idle_def split: if_splits)

lemma power_event_inv:
  assumes inv: "rank_inv r n" and pd: "\<not> enableDRAMPowerdown c"
    and run: "processPowerEvent c now (r, v) = Inr (r', v')"
  shows "rank_inv r' n"
proof -
  obtain r1 r2 where r1: "power_refreshed now (pwrState r) (power_enter now r) v = Inr (r1, v')"
    and r2: "power_reached c now (pwrState r) r1 = Inr r2" and r3: "power_refresh c v' now r2 = Inr r'"
    using run by (auto simp: processPowerEvent_def rbind_Inr_iff split: if_splits)
  have aw: "awake_state (pwrState r)" "awake_state (pwrStateTrans r)" using inv by (simp_all add: rank_inv_def)
  show ?thesis
  proof (cases "pwrState r = PWR_REF")
    case True
    note e = power_refreshed_ref[OF r1[unfolded True]]
    have tr: "pwrStateTrans r = PWR_IDLE" using e(3) aw(2) by (auto simp: awake_state_def)
    have "r2 = r1" using power_reached_idle[OF r2[unfolded True]] by (simp add: e(1))
    moreover have "r' = r2" using power_refresh_awake[OF pd r3] \<open>r2 = r1\<close> tr by (auto simp: e(1))
    moreover have "dec8 1 = pending r1 n mod 256"
    proof -
      define x where "x = of_bool (prechargeEvent r \<noteq> None) + of_bool (writeDoneEvent r \<noteq> None) + n"
      have "refreshState r \<noteq> REF_IDLE" using inv True by (auto simp: rank_inv_def)
      then have "pending r n = Suc x" by (simp add: pending_def x_def)
      then have "Suc x mod 256 = 1" using inv e(2) by (simp add: rank_inv_def)
      then have "dec8 1 = x mod 256" using dec8_mod[of x] by simp
      then show ?thesis by (simp add: e(1) pending_def x_def)
    qed
    moreover have "\<not> inLowPowerState r1" "pwrState r1 = PWR_IDLE" "pwrStateTrans r1 = PWR_IDLE"
      "pwrStatePostRefresh r1 = PWR_IDLE" "wakeUpEvent r1 = None" "refreshState r1 = REF_IDLE" "outstandingEvents r1 = dec8 1"
      using inv tr by (simp_all add: rank_inv_def e(1))
    ultimately show ?thesis unfolding rank_inv_def by (simp add: awake_state_def)
  next
    case False
    then have e1: "r1 = power_enter now r" using r1 by (simp add: power_refreshed_def)
    have e2: "r2 = r1 \<or> r2 = r1\<lparr>pwrState := PWR_REF\<rparr>" by (rule power_reached_awake[OF aw(1) r2])
    show ?thesis
    proof (cases "pwrState r2 = PWR_REF")
      case True
      then obtain ev where "r' = r2\<lparr>refreshState := REF_START, refreshEvent := ev\<rparr>"
        "refreshState r2 = REF_PRE \<or> refreshState r2 = REF_PD_EXIT"
        using power_refresh_awake[OF pd r3] by blast
      then have "pending r' n = pending r n" "core r' = (REF_START, PWR_REF, pwrStateTrans r, pwrStatePostRefresh r,
          inLowPowerState r, wakeUpEvent r, writeDoneEvent r \<noteq> None)" "outstandingEvents r' = outstandingEvents r"
        using e2 True by (auto simp: e1 pending_def core_def)
      then show ?thesis using inv by (simp add: rank_inv_def core_def awake_state_def)
    next
      case F: False
      then have "r' = r2" using power_refresh_awake[OF pd r3] by blast
      moreover have "r2 = r1" using e2 F by auto
      moreover have "pending r1 n = pending r n" by (simp add: e1 pending_def)
      ultimately show ?thesis using inv F aw by (simp add: rank_inv_def e1)
    qed
  qed
qed

lemma new_rank_inv: "rank_inv (new_rank c k) 0"
  by (simp add: rank_inv_def new_rank_def pending_def awake_state_def)

lemma rank_reach_inv:
  assumes "rank_reach c r n" and pd: "\<not> enableDRAMPowerdown c"
  shows "rank_inv r n"
  using assms(1)
proof (induction rule: rank_reach.induct)
  case (start k)
  show ?case by (rule new_rank_inv)
next
  case (boot r n now t r')
  then have "r' = r\<lparr>pwrStateTick := now, refreshEvent := Some t\<rparr>"
    by (auto simp: rank_startup_def schedule_def split: if_splits)
  then show ?case using boot.IH by (simp add: rank_inv_def pending_def)
next
  case (activate r n w now bi t row bt r' bt')
  then show ?case using activate_core[OF activate.hyps(2)] rank_inv_core[of r n r'] by simp
next
  case (precharge r n w now bi t auto tr bt r' bt')
  show ?case using precharge_core'[OF precharge.hyps(2)] precharge.IH
    by (cases "prechargeEvent r = None") (simp_all add: rank_inv_def core_def pending_def)
next
  case (read_burst r n pkt now r')
  then show ?case using burst_events_inv[OF read_burst.IH read_burst.hyps(3)] by simp
next
  case (write_burst r n pkt now r')
  then show ?case using burst_events_inv[OF write_burst.IH write_burst.hyps(3)] by simp
next
  case (read_done r n v now r')
  then show ?case using respond_inv[OF read_done.IH pd] by blast
next
  case (drain_done r n now r')
  then show ?case
    by (auto simp: checkDrainDone_def rbind_Inr_iff rank_inv_def pending_def split: if_splits)
next
  case (refresh_check r n now r')
  then show ?case
    by (auto simp: rank_check_refresh_def rbind_Inr_iff rank_inv_def pending_def split: if_splits)
next
  case (activate_event r n now r')
  then show ?case using activate_event_inv by blast
next
  case (precharge_event r n now v r')
  then show ?case using precharge_event_inv[OF precharge_event.IH pd] by simp
next
  case (write_event r n now r')
  then show ?case using write_event_inv[OF write_event.IH] by simp
next
  case (refresh_event r n now off active v r')
  have "rank_inv (r\<lparr>refreshEvent := None\<rparr>) n" using refresh_event.IH by (simp add: rank_inv_def pending_def)
  then show ?case using refresh_event_inv[OF _ pd refresh_event.hyps(3)] by blast
next
  case (power_event r n now v r' v')
  have "rank_inv (r\<lparr>powerEvent := None\<rparr>) n" using power_event.IH by (simp add: rank_inv_def pending_def)
  then show ?case using power_event_inv[OF _ pd power_event.hyps(3)] by blast
qed

section \<open>Properties\<close>

lemma refresh_cycles_ok:
  assumes "rank_at_rest r" and "refreshEvent r = Some due" and "pwrStateTick r \<le> due" and "rk_rank r \<noteq> active"
    and "0 < tCK c" and "tRFC c + tRP c \<le> tREFI c" and "\<not> enableDRAMPowerdown c"
  shows "\<exists>r' v'. refresh_cycles c off active k (r, v) = Inr (r', v') \<and> rank_at_rest r' \<and>
    refreshEvent r' = Some (due + k * (tREFI c - tRP c)) \<and>
    pwrStateTime r' PWR_REF = pwrStateTime r PWR_REF + k * tRFC c"
  using assms(1-4)
proof (induction k arbitrary: r due v)
  case (Suc k)
  have idle: "rk_rank r = active \<longrightarrow> \<not> requestEventScheduled v" using Suc.prems(4) by simp
  obtain r1 v1 where a: "refresh_cycle c off active (r, v) = Inr (r1, v1)" "rank_at_rest r1"
    "refreshEvent r1 = Some (due + tREFI c - tRP c)"
    "banks r1 = map (\<lambda>b. b\<lparr>actAllowedAt := due + tRFC c\<rparr>) (banks r)"
    "pwrStateTime r1 PWR_REF = pwrStateTime r PWR_REF + tRFC c" "pwrStateTick r1 = due + tRFC c"
    "requestEventScheduled v1" "rk_rank r1 = rk_rank r"
    by (rule refresh_cycle_ok[OF Suc.prems(1-3) assms(5-7) idle, of off], rule that)
  have "pwrStateTick r1 \<le> due + tREFI c - tRP c" "rk_rank r1 \<noteq> active"
    using a(6,8) assms(6) Suc.prems(4) by simp_all
  from Suc.IH[OF a(2,3) this, of v1] obtain r' v' where
    "refresh_cycles c off active k (r1, v1) = Inr (r', v')" "rank_at_rest r'"
    "refreshEvent r' = Some (due + tREFI c - tRP c + k * (tREFI c - tRP c))"
    "pwrStateTime r' PWR_REF = pwrStateTime r1 PWR_REF + k * tRFC c" by blast
  moreover have "due + tREFI c - tRP c + k * (tREFI c - tRP c) = due + Suc k * (tREFI c - tRP c)"
    using assms(6) by simp
  ultimately show ?case using a(1,5) by simp
qed simp


definition idle_view :: ctrl_view where
  "idle_view = \<lparr>busState = READ, busStateNext = READ, nextReqEvent = None, respondEvent = None, drainState = Running\<rparr>"


text \<open>
  C17. Outstanding events: with power-down disabled (the default), in every state that commands, events and
  answers can lead to, in any order and at any ticks, \<open>outstandingEvents\<close> counts exactly the pending
  refresh, the pending precharge, the pending end of a write and the unanswered reads. So, as long as they are fewer
  than 256, no handler finds the counter at zero, and the rank never enters a low-power state.
\<close>

theorem outstanding_events_counted:
  assumes "rank_reach c r n" and "\<not> enableDRAMPowerdown c" and "pending r n < 256"
  shows "outstandingEvents r = pending r n \<and> \<not> inLowPowerState r \<and>
    (prechargeEvent r = None \<or>
       processPrechargeEvent c v now (r\<lparr>prechargeEvent := None\<rparr>) \<noteq> Inl Assert_Fail) \<and>
    (writeDoneEvent r = None \<or> (\<exists>r'. processWriteDoneEvent (r\<lparr>writeDoneEvent := None\<rparr>) = Inr r')) \<and>
    (n = 0 \<or> (\<exists>r'. rank_respond c v now r = Inr r'))"
proof -
  have inv: "rank_inv r n" by (rule rank_reach_inv[OF assms(1,2)])
  then have o: "outstandingEvents r = pending r n" using assms(3) by (simp add: rank_inv_def)
  have pos: "0 < outstandingEvents r" if "prechargeEvent r \<noteq> None \<or> writeDoneEvent r \<noteq> None \<or> n \<noteq> 0"
    using that unfolding o pending_def by auto
  have up: "pwrState r \<noteq> PWR_SREF" "pwrState r \<noteq> PWR_PRE_PDN" "pwrState r \<noteq> PWR_ACT_PDN" "\<not> inLowPowerState r"
    using inv by (auto simp: rank_inv_def awake_state_def)
  have 1: "processPrechargeEvent c v now (r\<lparr>prechargeEvent := None\<rparr>) \<noteq> Inl Assert_Fail" if "prechargeEvent r \<noteq> None"
    using pos that assms(2) by (simp add: processPrechargeEvent_def schedulePowerEvent_def schedule_def Let_def)
  have 2: "\<exists>r'. processWriteDoneEvent (r\<lparr>writeDoneEvent := None\<rparr>) = Inr r'" if "writeDoneEvent r \<noteq> None"
    using pos that by (simp add: processWriteDoneEvent_def)
  have 3: "\<exists>r'. rank_respond c v now r = Inr r'" if "n \<noteq> 0"
    using pos that up assms(2) by (simp add: rank_respond_def Let_def)
  show ?thesis using o up(4) 1 2 3 by blast
qed

theorem outstanding_events_counted_witness:
  "\<exists>r. rank_reach ddr4_2400 r 1 \<and> outstandingEvents r = pending r 1 \<and> pending r 1 = 1"
proof -
  let ?r = "(new_rank ddr4_2400 0)\<lparr>outstandingEvents := inc8 0\<rparr>"
  have "burst_events 100 (ddr4_packet 5 True) (new_rank ddr4_2400 0) = Inr ?r"
    by (simp add: burst_events_def ddr4_packet_def new_packet_def) (simp add: new_rank_def)
  moreover have "mp_read (ddr4_packet 5 True)" by (simp add: ddr4_packet_def new_packet_def)
  ultimately have r: "rank_reach ddr4_2400 ?r (0 + 1)" using rank_reach.read_burst[OF rank_reach.start] by blast
  have p: "pending ?r (0 + 1) = 1" by (simp add: pending_def new_rank_def)
  have "\<not> enableDRAMPowerdown ddr4_2400" "pending ?r (0 + 1) < 256" using p by (simp_all add: ddr4_2400_def)
  from outstanding_events_counted[OF r this] show ?thesis using r p by (intro exI[of _ ?r]) simp
qed

end
