(* ===== verification/Dram_Select.thy ===== *)
theory Dram_Select
  imports Dram_Burst
begin

text \<open>
  The FR-FCFS selection of the DRAM interface (\<open>mem/mem_interface.cc\<close>): \<open>minBankPrep\<close>, which marks the
  banks that can be prepared earliest, and \<open>chooseNextFRFCFS\<close>, which picks the packet to serve.
  The lemmas show that the marked banks are exactly those the comment of the code describes, that the
  packet chosen is ready, that a seamless row hit always wins, first come first served, and that some
  packet is chosen whenever one is ready.

  The bank masks are 32-bit words, as in the code; a shift by 32 or more (undefined in C++) leaves
  them alone, and the properties ask for at most 32 banks per rank.
\<close>

section \<open>Model\<close>

definition MaxTick :: tick where
  "MaxTick = u64_size - 1"

record bank_prep =
  min_act_at :: tick
  bank_mask :: "32 word list"
  found_seamless_bank :: bool
  hidden_bank_prep :: bool

text \<open>When a bank can be activated, and when its burst can be issued.\<close>

definition prep_act_at :: "dram_cfg \<Rightarrow> tick \<Rightarrow> dram_bank \<Rightarrow> tick" where
  "prep_act_at c now b =
     (if openRow b = NO_ROW then max (actAllowedAt b) now else max (preAllowedAt b) now + tRP c)"

definition prep_col_at :: "dram_cfg \<Rightarrow> tick \<Rightarrow> bool \<Rightarrow> dram_bank \<Rightarrow> tick" where
  "prep_col_at c now rd_bus b = max (col_allowed rd_bus b) (prep_act_at c now b + tRCD c)"

definition hidden_act_max :: "dram_cfg \<Rightarrow> tick \<Rightarrow> tick \<Rightarrow> tick" where
  "hidden_act_max c now min_col_at = max (sub_tick min_col_at (tRCD c)) now"

text \<open>The body of the loop for bank \<open>j\<close> of rank \<open>i\<close>, which has waiting packets.\<close>

definition prep_bank ::
    "dram_cfg \<Rightarrow> tick \<Rightarrow> bool \<Rightarrow> tick \<Rightarrow> nat \<Rightarrow> nat \<Rightarrow> dram_bank \<Rightarrow> bank_prep \<Rightarrow> bank_prep" where
  "prep_bank c now rd_bus min_col_at i j b s =
     (let act_at = prep_act_at c now b;
          new_seamless_bank = (prep_col_at c now rd_bus b \<le> min_col_at)
      in if new_seamless_bank \<or> \<not> found_seamless_bank s \<and> act_at \<le> min_act_at s
         then let mask0 = (if \<not> found_seamless_bank s \<and> (new_seamless_bank \<or> act_at < min_act_at s)
                           then map (\<lambda>_. 0) (bank_mask s) else bank_mask s)
              in \<lparr>min_act_at = act_at, bank_mask = mask0[i := set_bit j (mask0 ! i)],
                  found_seamless_bank = found_seamless_bank s \<or> new_seamless_bank,
                  hidden_bank_prep = (act_at \<le> hidden_act_max c now min_col_at)\<rparr>
         else s)"

text \<open>\<open>got_waiting\<close>: a DRAM packet for the bank is queued and its rank is not refreshing.\<close>

definition got_waiting :: "dram_rank list \<Rightarrow> mem_packet list \<Rightarrow> nat \<Rightarrow> bool" where
  "got_waiting rs queue bank_id =
     list_ex (\<lambda>p. mp_dram p \<and> inRefIdleState (rs ! mp_rank p) \<and> mp_bankId p = bank_id) queue"

definition waiting_in_range :: "dram_cfg \<Rightarrow> dram_rank list \<Rightarrow> mem_packet list \<Rightarrow> bool" where
  "waiting_in_range c rs queue =
     list_all (\<lambda>p. mp_dram p \<longrightarrow> mp_rank p < length rs \<and>
       (inRefIdleState (rs ! mp_rank p) \<longrightarrow> mp_bankId p < ranksPerChannel c * banksPerRank c)) queue"

fun prep_banks ::
    "dram_cfg \<Rightarrow> tick \<Rightarrow> bool \<Rightarrow> tick \<Rightarrow> dram_rank list \<Rightarrow> mem_packet list \<Rightarrow> (nat \<times> nat) list \<Rightarrow> bank_prep \<Rightarrow>
     bank_prep res" where
  "prep_banks c now rd_bus min_col_at rs queue [] s = Inr s"
| "prep_banks c now rd_bus min_col_at rs queue ((i, j) # xs) s =
     (if got_waiting rs queue ((i * banksPerRank c + j) mod 65536)
      then rassert (inRefIdleState (rs ! i))
        (prep_banks c now rd_bus min_col_at rs queue xs
          (prep_bank c now rd_bus min_col_at i j (banks (rs ! i) ! j) s))
      else prep_banks c now rd_bus min_col_at rs queue xs s)"

definition all_banks :: "dram_cfg \<Rightarrow> (nat \<times> nat) list" where
  "all_banks c = concat (map (\<lambda>i. map (\<lambda>j. (i, j)) [0..<banksPerRank c]) [0..<ranksPerChannel c])"

definition minBankPrep ::
    "dram_cfg \<Rightarrow> tick \<Rightarrow> bool \<Rightarrow> dram_rank list \<Rightarrow> mem_packet list \<Rightarrow> tick \<Rightarrow> (32 word list \<times> bool) res" where
  "minBankPrep c now rd_bus rs queue min_col_at =
     rindex (waiting_in_range c rs queue)
      (rbind (prep_banks c now rd_bus min_col_at rs queue (all_banks c)
         \<lparr>min_act_at = MaxTick, bank_mask = replicate (ranksPerChannel c) 0,
          found_seamless_bank = False, hidden_bank_prep = False\<rparr>) (\<lambda>s.
        Inr (bank_mask s, hidden_bank_prep s)))"

text \<open>The variables of \<open>chooseNextFRFCFS\<close>; the masks are there once \<open>minBankPrep\<close> has been called.\<close>

record frfcfs =
  earliest_banks :: "(32 word list \<times> bool) option"
  found_hidden_bank :: bool
  found_prepped_pkt :: bool
  found_earliest_pkt :: bool
  selected_pkt :: "nat option"
  selected_col_at :: tick

definition burstReady :: "dram_rank list \<Rightarrow> mem_packet \<Rightarrow> bool" where
  "burstReady rs pkt = inRefIdleState (rs ! mp_rank pkt)"

definition pkt_bank :: "dram_rank list \<Rightarrow> mem_packet \<Rightarrow> dram_bank" where
  "pkt_bank rs pkt = banks (rs ! mp_rank pkt) ! mp_bank pkt"

definition pkt_col_at :: "dram_rank list \<Rightarrow> mem_packet \<Rightarrow> tick" where
  "pkt_col_at rs pkt = col_allowed (mp_read pkt) (pkt_bank rs pkt)"

definition select_hit :: "nat \<Rightarrow> tick \<Rightarrow> frfcfs \<Rightarrow> frfcfs" where
  "select_hit k col_allowed_at s =
     (if \<not> found_hidden_bank s \<and> \<not> found_prepped_pkt s
      then s\<lparr>selected_pkt := Some k, selected_col_at := col_allowed_at, found_prepped_pkt := True\<rparr> else s)"

text \<open>The masks, computed at the first row miss.\<close>

definition fill_banks ::
    "dram_cfg \<Rightarrow> tick \<Rightarrow> bool \<Rightarrow> dram_rank list \<Rightarrow> mem_packet list \<Rightarrow> tick \<Rightarrow> frfcfs \<Rightarrow> (32 word list \<times> bool) res" where
  "fill_banks c now rd_bus rs queue min_col_at s =
     (case earliest_banks s of
        None \<Rightarrow> minBankPrep c now rd_bus rs queue min_col_at
      | Some m \<Rightarrow> Inr m)"

definition select_miss :: "nat \<Rightarrow> mem_packet \<Rightarrow> tick \<Rightarrow> 32 word list \<times> bool \<Rightarrow> frfcfs \<Rightarrow> frfcfs" where
  "select_miss k pkt col_allowed_at m s =
     (let s1 = s\<lparr>earliest_banks := Some m\<rparr>
      in if bit (fst m ! mp_rank pkt) (mp_bank pkt)
         then let s2 = s1\<lparr>found_earliest_pkt := True, found_hidden_bank := snd m\<rparr>
              in if snd m \<or> \<not> found_prepped_pkt s
                 then s2\<lparr>selected_pkt := Some k, selected_col_at := col_allowed_at\<rparr> else s2
         else s1)"

fun choose_loop ::
    "dram_cfg \<Rightarrow> tick \<Rightarrow> bool \<Rightarrow> dram_rank list \<Rightarrow> mem_packet list \<Rightarrow> tick \<Rightarrow> mem_packet list \<Rightarrow> nat \<Rightarrow> frfcfs \<Rightarrow>
     frfcfs res" where
  "choose_loop c now rd_bus rs queue min_col_at [] k s = Inr s"
| "choose_loop c now rd_bus rs queue min_col_at (pkt # ps) k s =
     (if \<not> mp_dram pkt then choose_loop c now rd_bus rs queue min_col_at ps (k + 1) s
      else rindex (mp_rank pkt < length rs \<and> mp_bank pkt < length (banks (rs ! mp_rank pkt)))
       (let col_allowed_at = pkt_col_at rs pkt
        in if burstReady rs pkt
           then if openRow (pkt_bank rs pkt) = mp_row pkt
                then if col_allowed_at \<le> min_col_at
                     then Inr (s\<lparr>selected_pkt := Some k, selected_col_at := col_allowed_at\<rparr>)
                     else choose_loop c now rd_bus rs queue min_col_at ps (k + 1) (select_hit k col_allowed_at s)
                else if \<not> found_earliest_pkt s
                     then rbind (fill_banks c now rd_bus rs queue min_col_at s) (\<lambda>m.
                       choose_loop c now rd_bus rs queue min_col_at ps (k + 1)
                         (select_miss k pkt col_allowed_at m s))
                     else choose_loop c now rd_bus rs queue min_col_at ps (k + 1) s
           else choose_loop c now rd_bus rs queue min_col_at ps (k + 1) s))"

text \<open>The position of the packet in the queue, if one is selected, and its column tick.\<close>

definition chooseNextFRFCFS ::
    "dram_cfg \<Rightarrow> tick \<Rightarrow> bool \<Rightarrow> dram_rank list \<Rightarrow> mem_packet list \<Rightarrow> tick \<Rightarrow> (nat option \<times> tick) res" where
  "chooseNextFRFCFS c now rd_bus rs queue min_col_at =
     rbind (choose_loop c now rd_bus rs queue min_col_at queue 0
       \<lparr>earliest_banks = None, found_hidden_bank = False, found_prepped_pkt = False,
        found_earliest_pkt = False, selected_pkt = None, selected_col_at = MaxTick\<rparr>) (\<lambda>s.
      Inr (selected_pkt s, selected_col_at s))"

section \<open>The marked banks\<close>

abbreviation bank_at :: "dram_rank list \<Rightarrow> nat \<times> nat \<Rightarrow> dram_bank" where
  "bank_at rs x \<equiv> banks (rs ! fst x) ! snd x"

definition seamless :: "dram_cfg \<Rightarrow> tick \<Rightarrow> bool \<Rightarrow> tick \<Rightarrow> dram_rank list \<Rightarrow> nat \<times> nat \<Rightarrow> bool" where
  "seamless c now rd_bus min_col_at rs x \<longleftrightarrow> prep_col_at c now rd_bus (bank_at rs x) \<le> min_col_at"

text \<open>The bank \<open>x\<close> is to be marked among the banks \<open>P\<close>.\<close>

definition best_bank ::
    "dram_cfg \<Rightarrow> tick \<Rightarrow> bool \<Rightarrow> tick \<Rightarrow> dram_rank list \<Rightarrow> (nat \<times> nat) set \<Rightarrow> nat \<times> nat \<Rightarrow> bool" where
  "best_bank c now rd_bus min_col_at rs P x \<longleftrightarrow> x \<in> P \<and>
     (if \<exists>y \<in> P. seamless c now rd_bus min_col_at rs y then seamless c now rd_bus min_col_at rs x
      else \<forall>y \<in> P. prep_act_at c now (bank_at rs x) \<le> prep_act_at c now (bank_at rs y))"

definition prep_inv ::
    "dram_cfg \<Rightarrow> tick \<Rightarrow> bool \<Rightarrow> tick \<Rightarrow> dram_rank list \<Rightarrow> (nat \<times> nat) set \<Rightarrow> bank_prep \<Rightarrow> bool" where
  "prep_inv c now rd_bus min_col_at rs P s \<longleftrightarrow>
     length (bank_mask s) = ranksPerChannel c \<and>
     (found_seamless_bank s \<longleftrightarrow> (\<exists>x \<in> P. seamless c now rd_bus min_col_at rs x)) \<and>
     (\<forall>i < ranksPerChannel c. \<forall>j < 32. bit (bank_mask s ! i) j \<longleftrightarrow> (i, j) \<in> P \<and>
        (if found_seamless_bank s then seamless c now rd_bus min_col_at rs (i, j)
         else prep_act_at c now (bank_at rs (i, j)) = min_act_at s)) \<and>
     (\<not> found_seamless_bank s \<longrightarrow> (\<forall>x \<in> P. min_act_at s \<le> prep_act_at c now (bank_at rs x)) \<and>
        (if P = {} then min_act_at s = MaxTick else \<exists>x \<in> P. prep_act_at c now (bank_at rs x) = min_act_at s)) \<and>
     (hidden_bank_prep s \<longleftrightarrow> P \<noteq> {} \<and>
        (found_seamless_bank s \<or> min_act_at s \<le> hidden_act_max c now min_col_at))"

lemma seamless_hidden:
  assumes "seamless c now rd_bus min_col_at rs x"
  shows "prep_act_at c now (bank_at rs x) \<le> hidden_act_max c now min_col_at"
  using assms by (auto simp: seamless_def prep_col_at_def hidden_act_max_def sub_tick_def le_max_iff_disj)

lemma prep_bank_inv:
  assumes inv: "prep_inv c now rd_bus min_col_at rs P s" and x: "x = (i, j)" "x \<notin> P" "i < ranksPerChannel c" "j < 32"
    and max: "prep_act_at c now (bank_at rs x) \<le> MaxTick"
  shows "prep_inv c now rd_bus min_col_at rs (insert x P) (prep_bank c now rd_bus min_col_at i j (bank_at rs x) s)"
proof -
  let ?a = "prep_act_at c now (bank_at rs x)" and ?n = "seamless c now rd_bus min_col_at rs x"
  have len: "length (bank_mask s) = ranksPerChannel c" using inv by (simp add: prep_inv_def)
  have nb: "(prep_col_at c now rd_bus (bank_at rs x) \<le> min_col_at) = ?n" by (simp add: seamless_def)
  have bits: "bit (m[i := set_bit j (m ! i)] ! i') j' \<longleftrightarrow> (i', j') = x \<or> bit (m ! i') j'"
    if "i' < length m" "length m = ranksPerChannel c" "j' < 32" for m :: "32 word list" and i' j'
    using that x by (auto simp: nth_upd bit_simps)
  consider (skip) "\<not> (?n \<or> \<not> found_seamless_bank s \<and> ?a \<le> min_act_at s)"
    | (reset) "\<not> found_seamless_bank s" "?n \<or> ?a < min_act_at s"
    | (add) "found_seamless_bank s \<and> ?n \<or> \<not> found_seamless_bank s \<and> \<not> ?n \<and> ?a = min_act_at s" by linarith
  then show ?thesis
  proof cases
    case skip
    then have "prep_bank c now rd_bus min_col_at i j (bank_at rs x) s = s"
      by (simp only: prep_bank_def nb Let_def skip if_False)
    moreover have "P \<noteq> {}" if "\<not> found_seamless_bank s" using skip that inv max by (auto simp: prep_inv_def)
    moreover have "P \<noteq> {}" if "found_seamless_bank s" using that inv by (auto simp: prep_inv_def)
    ultimately show ?thesis using skip inv x(1,2) by (auto simp: prep_inv_def)
  next
    case reset
    define s' where "s' = prep_bank c now rd_bus min_col_at i j (bank_at rs x) s"
    define m where "m = map (\<lambda>_. 0 :: 32 word) (bank_mask s)"
    have m: "length m = ranksPerChannel c" "\<And>i' j'. i' < ranksPerChannel c \<Longrightarrow> \<not> bit (m ! i') j'"
      by (simp_all add: m_def len)
    have s': "s' = \<lparr>min_act_at = ?a, bank_mask = m[i := set_bit j (m ! i)], found_seamless_bank = ?n,
        hidden_bank_prep = (?a \<le> hidden_act_max c now min_col_at)\<rparr>"
      using reset by (auto simp add: s'_def prep_bank_def nb Let_def m_def)
    have no: "\<not> seamless c now rd_bus min_col_at rs y" if "y \<in> P" for y using reset(1) inv that by (auto simp: prep_inv_def)
    have old: "min_act_at s \<le> prep_act_at c now (bank_at rs y)" if "y \<in> P" for y
      using reset(1) inv that by (auto simp: prep_inv_def)
    have "bit (bank_mask s' ! i') j' \<longleftrightarrow> (i', j') \<in> insert x P \<and>
        (if found_seamless_bank s' then seamless c now rd_bus min_col_at rs (i', j')
         else prep_act_at c now (bank_at rs (i', j')) = min_act_at s')" if "i' < ranksPerChannel c" "j' < 32" for i' j'
    proof -
      have "bit (bank_mask s' ! i') j' \<longleftrightarrow> (i', j') = x" using bits[of i' m j'] m that by (simp add: s')
      moreover have "prep_act_at c now (bank_at rs y) \<noteq> ?a" if "y \<in> P" "\<not> ?n" for y
        using old[OF that(1)] reset(2) that(2) by simp
      ultimately show ?thesis using no by (auto simp: s')
    qed
    moreover have "\<forall>y \<in> insert x P. ?n \<or> ?a \<le> prep_act_at c now (bank_at rs y)" using old reset(2) by fastforce
    ultimately show ?thesis
      unfolding s'_def[symmetric] using no seamless_hidden[of c now rd_bus min_col_at rs x] m(1)
      by (simp add: prep_inv_def s') blast
  next
    case add
    define s' where "s' = prep_bank c now rd_bus min_col_at i j (bank_at rs x) s"
    let ?m = "bank_mask s"
    have s': "s' = \<lparr>min_act_at = ?a, bank_mask = ?m[i := set_bit j (?m ! i)], found_seamless_bank = found_seamless_bank s,
        hidden_bank_prep = (?a \<le> hidden_act_max c now min_col_at)\<rparr>"
      using add by (auto simp add: s'_def prep_bank_def nb Let_def)
    have "bit (bank_mask s' ! i') j' \<longleftrightarrow> (i', j') \<in> insert x P \<and>
        (if found_seamless_bank s' then seamless c now rd_bus min_col_at rs (i', j')
         else prep_act_at c now (bank_at rs (i', j')) = min_act_at s')" if "i' < ranksPerChannel c" "j' < 32" for i' j'
    proof -
      have "bit (bank_mask s' ! i') j' \<longleftrightarrow> (i', j') = x \<or> bit (bank_mask s ! i') j'"
        using bits[of i' ?m j'] len that by (simp add: s')
      moreover have "bit (bank_mask s ! i') j' \<longleftrightarrow> (i', j') \<in> P \<and>
        (if found_seamless_bank s then seamless c now rd_bus min_col_at rs (i', j')
         else prep_act_at c now (bank_at rs (i', j')) = min_act_at s)" using inv that by (simp add: prep_inv_def)
      ultimately show ?thesis using add by (auto simp: s')
    qed
    then show ?thesis
      unfolding s'_def[symmetric] using add inv seamless_hidden[of c now rd_bus min_col_at rs x] len
      by (auto simp add: prep_inv_def s')
  qed
qed

text \<open>What the address decoder and the constructor guarantee of the queue and the ranks.\<close>

definition queue_ok :: "dram_cfg \<Rightarrow> dram_rank list \<Rightarrow> mem_packet list \<Rightarrow> bool" where
  "queue_ok c rs queue \<longleftrightarrow> length rs = ranksPerChannel c \<and> (\<forall>r \<in> set rs. length (banks r) = banksPerRank c) \<and>
     banksPerRank c \<le> 32 \<and> ranksPerChannel c * banksPerRank c \<le> 65536 \<and>
     (\<forall>p \<in> set queue. mp_dram p \<longrightarrow> mp_rank p < ranksPerChannel c \<and> mp_bank p < banksPerRank c \<and>
        mp_bankId p = mp_rank p * banksPerRank c + mp_bank p)"

definition ready_pkt :: "dram_rank list \<Rightarrow> mem_packet \<Rightarrow> bool" where
  "ready_pkt rs p \<longleftrightarrow> mp_dram p \<and> burstReady rs p"

definition waiting_banks :: "dram_rank list \<Rightarrow> mem_packet list \<Rightarrow> (nat \<times> nat) set" where
  "waiting_banks rs queue = {(mp_rank p, mp_bank p) | p. p \<in> set queue \<and> ready_pkt rs p}"

lemma set_all_banks: "set (all_banks c) = {..< ranksPerChannel c} \<times> {..< banksPerRank c}"
  by (auto simp: all_banks_def)

lemma distinct_all_banks: "distinct (all_banks c)"
proof -
  have "all_banks c = List.product [0..<ranksPerChannel c] [0..<banksPerRank c]"
    by (simp add: all_banks_def product_concat_map)
  then show ?thesis by (simp add: distinct_product)
qed

lemma bank_index_inj:
  fixes b b' m i i' :: nat
  assumes "i * m + b = i' * m + b'" and "b < m" and "b' < m"
  shows "i = i'" "b = b'"
proof -
  have "(i * m + b) div m = i" "(i' * m + b') div m = i'" using assms(2,3) by simp_all
  then show "i = i'" using assms(1) by simp
  then show "b = b'" using assms(1) by simp
qed

lemma got_waiting_iff:
  assumes "queue_ok c rs queue" and "i < ranksPerChannel c" and "j < banksPerRank c"
  shows "got_waiting rs queue ((i * banksPerRank c + j) mod 65536) \<longleftrightarrow> (i, j) \<in> waiting_banks rs queue"
proof -
  have "i * banksPerRank c + j < (i + 1) * banksPerRank c" using assms(3) by simp
  also have "\<dots> \<le> ranksPerChannel c * banksPerRank c" using assms(2) by (intro mult_right_mono) simp_all
  also have "\<dots> \<le> 65536" using assms(1) by (simp add: queue_ok_def)
  finally have m: "(i * banksPerRank c + j) mod 65536 = i * banksPerRank c + j" by simp
  have p: "mp_bankId p = i * banksPerRank c + j \<longleftrightarrow> mp_rank p = i \<and> mp_bank p = j"
    if "p \<in> set queue" "mp_dram p" for p
    using assms that bank_index_inj[of "mp_rank p" "banksPerRank c" "mp_bank p" i j] by (auto simp: queue_ok_def)
  show ?thesis
    unfolding m got_waiting_def waiting_banks_def ready_pkt_def burstReady_def list_ex_iff using p by blast
qed

lemma prep_banks_inv:
  assumes q: "queue_ok c rs queue"
    and mx: "\<forall>x \<in> waiting_banks rs queue. prep_act_at c now (bank_at rs x) \<le> MaxTick"
    and "prep_inv c now rd_bus min_col_at rs P s" and "distinct xs" and "set xs \<inter> P = {}"
    and "set xs \<subseteq> {..< ranksPerChannel c} \<times> {..< banksPerRank c}"
  shows "\<exists>s'. prep_banks c now rd_bus min_col_at rs queue xs s = Inr s' \<and>
    prep_inv c now rd_bus min_col_at rs (P \<union> (set xs \<inter> waiting_banks rs queue)) s'"
  using assms(3-)
proof (induction xs arbitrary: P s)
  case Nil
  then show ?case by simp
next
  case (Cons x xs)
  obtain i j where x: "x = (i, j)" by (cases x)
  have ij: "i < ranksPerChannel c" "j < banksPerRank c" using Cons.prems(4) x by auto
  note gw = got_waiting_iff[OF q ij]
  show ?case
  proof (cases "x \<in> waiting_banks rs queue")
    case False
    then show ?thesis using Cons.IH[OF Cons.prems(1)] Cons.prems gw by (simp add: x)
  next
    case True
    then have idle: "inRefIdleState (rs ! i)"
      unfolding x waiting_banks_def ready_pkt_def burstReady_def by auto
    have j32: "j < 32" using ij(2) q by (simp add: queue_ok_def)
    have notin: "x \<notin> P" using Cons.prems(3) by auto
    have mxx: "prep_act_at c now (bank_at rs x) \<le> MaxTick" using mx True by blast
    from prep_bank_inv[OF Cons.prems(1) x notin ij(1) j32 mxx]
    have step: "prep_inv c now rd_bus min_col_at rs (insert x P) (prep_bank c now rd_bus min_col_at i j (bank_at rs x) s)" .
    have "distinct xs" "set xs \<inter> insert x P = {}" "set xs \<subseteq> {..< ranksPerChannel c} \<times> {..< banksPerRank c}"
      using Cons.prems(2-4) by auto
    from Cons.IH[OF step this] obtain s' where s':
      "prep_banks c now rd_bus min_col_at rs queue xs (prep_bank c now rd_bus min_col_at i j (bank_at rs x) s) = Inr s'"
      "prep_inv c now rd_bus min_col_at rs (insert x P \<union> (set xs \<inter> waiting_banks rs queue)) s'" by blast
    have eq: "insert x P \<union> (set xs \<inter> waiting_banks rs queue) = P \<union> (set (x # xs) \<inter> waiting_banks rs queue)"
      using True by auto
    have "prep_banks c now rd_bus min_col_at rs queue (x # xs) s = Inr s'"
      using s'(1) True gw idle unfolding x by simp
    then show ?thesis using s'(2) unfolding eq by blast
  qed
qed

lemma minBankPrep_ok:
  assumes q: "queue_ok c rs queue"
    and mx: "\<forall>x \<in> waiting_banks rs queue. prep_act_at c now (bank_at rs x) \<le> MaxTick"
  obtains mask hidden where "minBankPrep c now rd_bus rs queue min_col_at = Inr (mask, hidden)"
    "\<forall>i < ranksPerChannel c. \<forall>j < banksPerRank c.
       bit (mask ! i) j \<longleftrightarrow> best_bank c now rd_bus min_col_at rs (waiting_banks rs queue) (i, j)"
    "hidden \<longleftrightarrow> waiting_banks rs queue \<noteq> {} \<and>
       (\<forall>x. best_bank c now rd_bus min_col_at rs (waiting_banks rs queue) x \<longrightarrow>
          prep_act_at c now (bank_at rs x) \<le> hidden_act_max c now min_col_at)"
proof -
  let ?W = "waiting_banks rs queue"
  let ?s0 = "\<lparr>min_act_at = MaxTick, bank_mask = replicate (ranksPerChannel c) (0::32 word),
          found_seamless_bank = False, hidden_bank_prep = False\<rparr>"
  have "waiting_in_range c rs queue"
    unfolding waiting_in_range_def list_all_iff
  proof safe
    fix p assume p: "p \<in> set queue" "mp_dram p"
    show "mp_rank p < length rs" using q p by (simp add: queue_ok_def)
    have h: "mp_rank p < ranksPerChannel c" "mp_bank p < banksPerRank c"
      "mp_bankId p = mp_rank p * banksPerRank c + mp_bank p" using q p by (simp_all add: queue_ok_def)
    have "mp_rank p * banksPerRank c + mp_bank p < (mp_rank p + 1) * banksPerRank c" using h(2) by simp
    also have "\<dots> \<le> ranksPerChannel c * banksPerRank c" using h(1) by (intro mult_right_mono) simp_all
    finally show "mp_bankId p < ranksPerChannel c * banksPerRank c" using h(3) by simp
  qed
  moreover have inv0: "prep_inv c now rd_bus min_col_at rs {} ?s0" by (simp add: prep_inv_def)
  obtain s' where s': "prep_banks c now rd_bus min_col_at rs queue (all_banks c) ?s0 = Inr s'"
    "prep_inv c now rd_bus min_col_at rs ({} \<union> (set (all_banks c) \<inter> ?W)) s'"
    using prep_banks_inv[OF q mx inv0 distinct_all_banks] by (auto simp: set_all_banks)
  have sub: "set (all_banks c) \<inter> ?W = ?W"
    using q by (auto simp: set_all_banks waiting_banks_def queue_ok_def ready_pkt_def)
  have inv: "prep_inv c now rd_bus min_col_at rs ?W s'" using s'(2) sub by simp
  have fs: "found_seamless_bank s' \<longleftrightarrow> (\<exists>x \<in> ?W. seamless c now rd_bus min_col_at rs x)"
    using inv by (simp add: prep_inv_def)
  have mn: "\<forall>x \<in> ?W. min_act_at s' \<le> prep_act_at c now (bank_at rs x)"
    "?W \<noteq> {} \<Longrightarrow> \<exists>x \<in> ?W. prep_act_at c now (bank_at rs x) = min_act_at s'" if "\<not> found_seamless_bank s'"
    using inv that by (auto simp: prep_inv_def)
  have best: "best_bank c now rd_bus min_col_at rs ?W x \<longleftrightarrow> x \<in> ?W \<and>
      (if found_seamless_bank s' then seamless c now rd_bus min_col_at rs x
       else prep_act_at c now (bank_at rs x) = min_act_at s')" for x
  proof (cases "found_seamless_bank s'")
    case True
    then show ?thesis using fs by (simp add: best_bank_def)
  next
    case False
    then have no: "\<not> (\<exists>x \<in> ?W. seamless c now rd_bus min_col_at rs x)" using fs by simp
    have "(\<forall>y \<in> ?W. prep_act_at c now (bank_at rs x) \<le> prep_act_at c now (bank_at rs y)) \<longleftrightarrow>
        prep_act_at c now (bank_at rs x) = min_act_at s'" if "x \<in> ?W"
      using mn[OF False] that by (metis empty_iff le_antisym)
    then show ?thesis using False no unfolding best_bank_def by auto
  qed
  have "bit (bank_mask s' ! i) j \<longleftrightarrow> best_bank c now rd_bus min_col_at rs ?W (i, j)"
    if "i < ranksPerChannel c" "j < banksPerRank c" for i j
    using inv that q unfolding best prep_inv_def queue_ok_def by (meson less_le_trans)
  moreover have "hidden_bank_prep s' \<longleftrightarrow> ?W \<noteq> {} \<and>
       (\<forall>x. best_bank c now rd_bus min_col_at rs ?W x \<longrightarrow>
          prep_act_at c now (bank_at rs x) \<le> hidden_act_max c now min_col_at)"
  proof (cases "found_seamless_bank s'")
    case True
    then show ?thesis using inv seamless_hidden unfolding best by (auto simp: prep_inv_def)
  next
    case False
    have "hidden_bank_prep s' \<longleftrightarrow> ?W \<noteq> {} \<and> min_act_at s' \<le> hidden_act_max c now min_col_at"
      using inv False by (simp add: prep_inv_def)
    note h = this
    show ?thesis
    proof (cases "?W = {}")
      case True
      then show ?thesis using h by simp
    next
      case ne: False
      obtain x where "x \<in> ?W" "prep_act_at c now (bank_at rs x) = min_act_at s'" using mn(2)[OF False ne] by blast
      then show ?thesis using h ne False unfolding best by metis
    qed
  qed
  ultimately show thesis using that[of "bank_mask s'" "hidden_bank_prep s'"] s'(1) by (simp add: minBankPrep_def)
qed

section \<open>The selection\<close>

text \<open>The position of the first element with a property.\<close>

fun first_ix :: "('a \<Rightarrow> bool) \<Rightarrow> 'a list \<Rightarrow> nat option" where
  "first_ix P [] = None"
| "first_ix P (x # xs) = (if P x then Some 0 else map_option Suc (first_ix P xs))"

lemma first_ix_snoc:
  "first_ix P (xs @ [x]) = (case first_ix P xs of Some i \<Rightarrow> Some i | None \<Rightarrow> if P x then Some (length xs) else None)"
  by (induction xs) (auto split: option.splits)

lemma first_ix_None: "first_ix P xs = None \<longleftrightarrow> (\<forall>x \<in> set xs. \<not> P x)"
  by (induction xs) auto

lemma first_ix_append_Some: "first_ix P xs = Some i \<Longrightarrow> first_ix P (xs @ ys) = Some i"
  by (induction xs arbitrary: i) (auto split: if_splits)

lemma first_ix_Some: "first_ix P xs = Some i \<Longrightarrow> i < length xs \<and> P (xs ! i) \<and> (\<forall>j < i. \<not> P (xs ! j))"
proof (induction xs arbitrary: i)
  case (Cons x xs)
  show ?case
  proof (cases "P x")
    case False
    then obtain k where "first_ix P xs = Some k" "i = Suc k" using Cons.prems by auto
    then show ?thesis using Cons.IH[of k] False by (auto simp: less_Suc_eq_0_disj)
  qed (use Cons.prems in simp)
qed simp

text \<open>
  The reference: the first ready row hit that is seamless; without one, the first ready row hit and the
  first ready row miss to a marked bank, the miss first when bank preparation is hidden.
\<close>

definition row_hit :: "dram_rank list \<Rightarrow> mem_packet \<Rightarrow> bool" where
  "row_hit rs p \<longleftrightarrow> ready_pkt rs p \<and> openRow (pkt_bank rs p) = mp_row p"

definition marked_miss :: "dram_rank list \<Rightarrow> 32 word list \<Rightarrow> mem_packet \<Rightarrow> bool" where
  "marked_miss rs marks p \<longleftrightarrow>
     ready_pkt rs p \<and> openRow (pkt_bank rs p) \<noteq> mp_row p \<and> bit (marks ! mp_rank p) (mp_bank p)"

definition seamless_hit :: "dram_rank list \<Rightarrow> tick \<Rightarrow> mem_packet \<Rightarrow> bool" where
  "seamless_hit rs min_col_at p \<longleftrightarrow> row_hit rs p \<and> pkt_col_at rs p \<le> min_col_at"

definition or_else :: "'a option \<Rightarrow> 'a option \<Rightarrow> 'a option" where
  "or_else x y = (case x of Some a \<Rightarrow> Some a | None \<Rightarrow> y)"

definition best_other :: "dram_rank list \<Rightarrow> 32 word list \<times> bool \<Rightarrow> mem_packet list \<Rightarrow> nat option" where
  "best_other rs m queue =
     (if snd m then or_else (first_ix (marked_miss rs (fst m)) queue) (first_ix (row_hit rs) queue)
      else or_else (first_ix (row_hit rs) queue) (first_ix (marked_miss rs (fst m)) queue))"

definition frfcfs_choice :: "dram_rank list \<Rightarrow> tick \<Rightarrow> 32 word list \<times> bool \<Rightarrow> mem_packet list \<Rightarrow> nat option" where
  "frfcfs_choice rs min_col_at m queue =
     or_else (first_ix (seamless_hit rs min_col_at) queue) (best_other rs m queue)"

definition with_col :: "dram_rank list \<Rightarrow> mem_packet list \<Rightarrow> nat option \<Rightarrow> nat option \<times> tick" where
  "with_col rs queue x = (x, case x of None \<Rightarrow> MaxTick | Some k \<Rightarrow> pkt_col_at rs (queue ! k))"

definition choose_inv :: "dram_rank list \<Rightarrow> 32 word list \<times> bool \<Rightarrow> mem_packet list \<Rightarrow> frfcfs \<Rightarrow> bool" where
  "choose_inv rs m pre s \<longleftrightarrow>
     (earliest_banks s = None \<or> earliest_banks s = Some m) \<and>
     found_earliest_pkt s = (first_ix (marked_miss rs (fst m)) pre \<noteq> None) \<and>
     found_hidden_bank s = (snd m \<and> first_ix (marked_miss rs (fst m)) pre \<noteq> None) \<and>
     (\<not> found_hidden_bank s \<longrightarrow> found_prepped_pkt s = (first_ix (row_hit rs) pre \<noteq> None)) \<and>
     (selected_pkt s, selected_col_at s) = with_col rs pre (best_other rs m pre)"

lemma with_col_append:
  assumes "k < length xs"
  shows "with_col rs (xs @ ys) (Some k) = with_col rs xs (Some k)"
  using assms by (simp add: with_col_def nth_append)

lemma best_other_lt: "best_other rs m xs = Some k \<Longrightarrow> k < length xs"
  by (auto simp: best_other_def or_else_def split: if_splits option.splits dest!: first_ix_Some)

lemma choose_skip:
  assumes "choose_inv rs m pre s" and "\<not> marked_miss rs (fst m) p" and "\<not> row_hit rs p"
  shows "choose_inv rs m (pre @ [p]) s"
proof -
  have f: "first_ix (marked_miss rs (fst m)) (pre @ [p]) = first_ix (marked_miss rs (fst m)) pre"
    "first_ix (row_hit rs) (pre @ [p]) = first_ix (row_hit rs) pre"
    using assms(2,3) by (auto simp: first_ix_snoc split: option.split)
  then have b: "best_other rs m (pre @ [p]) = best_other rs m pre" by (simp add: best_other_def)
  have "with_col rs (pre @ [p]) (best_other rs m pre) = with_col rs pre (best_other rs m pre)"
    using with_col_append best_other_lt by (cases "best_other rs m pre") (auto simp: with_col_def)
  then show ?thesis using assms(1) unfolding choose_inv_def f b by metis
qed

lemma choose_hit:
  assumes inv: "choose_inv rs m pre s" and p: "row_hit rs p"
  shows "choose_inv rs m (pre @ [p]) (select_hit (length pre) (pkt_col_at rs p) s)"
proof -
  have nm: "\<not> marked_miss rs (fst m) p" using p by (simp add: marked_miss_def row_hit_def)
  have fm: "first_ix (marked_miss rs (fst m)) (pre @ [p]) = first_ix (marked_miss rs (fst m)) pre"
    using nm by (auto simp: first_ix_snoc split: option.split)
  have fh: "first_ix (row_hit rs) (pre @ [p]) = Some (case first_ix (row_hit rs) pre of Some i \<Rightarrow> i | None \<Rightarrow> length pre)"
    using p by (auto simp: first_ix_snoc split: option.split)
  show ?thesis
  proof (cases "\<not> found_hidden_bank s \<and> \<not> found_prepped_pkt s")
    case True
    then have n: "first_ix (row_hit rs) pre = None" using inv by (simp add: choose_inv_def)
    have "best_other rs m (pre @ [p]) = Some (length pre)"
      using True inv n by (auto simp: best_other_def or_else_def fm fh choose_inv_def split: option.split)
    then show ?thesis using True inv
      by (simp add: choose_inv_def select_hit_def fm fh with_col_def nth_append)
  next
    case False
    have "best_other rs m (pre @ [p]) = best_other rs m pre \<and> best_other rs m pre \<noteq> None"
    proof (cases "found_hidden_bank s")
      case True
      then show ?thesis using inv by (auto simp: best_other_def or_else_def fm choose_inv_def split: option.split)
    next
      case F: False
      then obtain i where "first_ix (row_hit rs) pre = Some i" using False inv by (auto simp: choose_inv_def)
      then show ?thesis by (auto simp: best_other_def or_else_def fm fh split: option.split)
    qed
    moreover have "with_col rs (pre @ [p]) (best_other rs m pre) = with_col rs pre (best_other rs m pre)"
      using with_col_append best_other_lt calculation by (cases "best_other rs m pre") auto
    ultimately show ?thesis using False inv
      by (auto simp: choose_inv_def select_hit_def fm fh)
  qed
qed

lemma choose_miss:
  assumes inv: "choose_inv rs m pre s" and p: "ready_pkt rs p" "openRow (pkt_bank rs p) \<noteq> mp_row p"
    and ne: "\<not> found_earliest_pkt s"
  shows "choose_inv rs m (pre @ [p]) (select_miss (length pre) p (pkt_col_at rs p) m s)"
proof (cases "bit (fst m ! mp_rank p) (mp_bank p)")
  case False
  have "choose_inv rs m (pre @ [p]) s"
    by (rule choose_skip[OF inv]) (use p False in \<open>simp_all add: marked_miss_def row_hit_def\<close>)
  then show ?thesis using False by (simp add: choose_inv_def select_miss_def)
next
  case True
  have mm: "marked_miss rs (fst m) p" "\<not> row_hit rs p" using True p by (simp_all add: marked_miss_def row_hit_def)
  have n: "first_ix (marked_miss rs (fst m)) pre = None" using ne inv by (simp add: choose_inv_def)
  then have nh: "\<not> found_hidden_bank s" using inv by (simp add: choose_inv_def)
  then have fp: "found_prepped_pkt s = (first_ix (row_hit rs) pre \<noteq> None)" using inv by (simp add: choose_inv_def)
  have fm: "first_ix (marked_miss rs (fst m)) (pre @ [p]) = Some (length pre)" using n mm by (simp add: first_ix_snoc)
  have fh: "first_ix (row_hit rs) (pre @ [p]) = first_ix (row_hit rs) pre"
    using mm by (auto simp: first_ix_snoc split: option.split)
  show ?thesis
  proof (cases "snd m \<or> \<not> found_prepped_pkt s")
    case T: True
    then have "best_other rs m (pre @ [p]) = Some (length pre)"
      using fp by (auto simp: best_other_def or_else_def fm fh)
    then show ?thesis using T True fm fh fp
      by (simp add: choose_inv_def select_miss_def with_col_def)
  next
    case F: False
    then obtain i where i: "first_ix (row_hit rs) pre = Some i" using fp by auto
    have "best_other rs m (pre @ [p]) = Some i" "best_other rs m pre = Some i"
      using F i by (simp_all add: best_other_def or_else_def fh)
    moreover have "with_col rs (pre @ [p]) (Some i) = with_col rs pre (Some i)"
      using with_col_append best_other_lt calculation(2) by blast
    ultimately show ?thesis using F True fm fh fp inv
      by (simp add: choose_inv_def select_miss_def)
  qed
qed

lemma choose_loop_ok:
  assumes q: "queue_ok c rs queue" and m: "minBankPrep c now rd_bus rs queue min_col_at = Inr m"
    and "queue = pre @ ps" and "choose_inv rs m pre s" and "\<forall>p \<in> set pre. \<not> seamless_hit rs min_col_at p"
  shows "\<exists>s'. choose_loop c now rd_bus rs queue min_col_at ps (length pre) s = Inr s' \<and>
    (selected_pkt s', selected_col_at s') = with_col rs queue (frfcfs_choice rs min_col_at m queue)"
  using assms(3-)
proof (induction ps arbitrary: pre s)
  case Nil
  then have "first_ix (seamless_hit rs min_col_at) queue = None" by (simp add: first_ix_None)
  then show ?case using Nil by (simp add: frfcfs_choice_def or_else_def choose_inv_def)
next
  case (Cons p ps)
  have pq: "p \<in> set queue" "queue = (pre @ [p]) @ ps" using Cons.prems(1) by simp_all
  note inv = Cons.prems(2)
  have next1: ?case if "choose_loop c now rd_bus rs queue min_col_at (p # ps) (length pre) s =
      choose_loop c now rd_bus rs queue min_col_at ps (length (pre @ [p])) s1"
    "choose_inv rs m (pre @ [p]) s1" "\<not> seamless_hit rs min_col_at p" for s1
    using Cons.IH[OF pq(2) that(2)] Cons.prems(3) that(1,3) by simp
  show ?case
  proof (cases "mp_dram p")
    case False
    then show ?thesis using choose_skip[OF inv, of p]
      by (intro next1[of s]) (simp_all add: marked_miss_def row_hit_def ready_pkt_def seamless_hit_def)
  next
    case dram: True
    have ix: "mp_rank p < length rs \<and> mp_bank p < length (banks (rs ! mp_rank p))"
      using q pq(1) dram by (simp add: queue_ok_def)
    have rdy: "ready_pkt rs p = burstReady rs p" using dram by (simp add: ready_pkt_def)
    show ?thesis
    proof (cases "burstReady rs p")
      case False
      then show ?thesis using choose_skip[OF inv, of p] dram ix rdy
        by (intro next1[of s]) (simp_all add: marked_miss_def row_hit_def seamless_hit_def)
    next
      case br: True
      show ?thesis
      proof (cases "openRow (pkt_bank rs p) = mp_row p")
        case hit: True
        then have rh: "row_hit rs p" using br rdy by (simp add: row_hit_def)
        show ?thesis
        proof (cases "pkt_col_at rs p \<le> min_col_at")
          case True
          have "first_ix (seamless_hit rs min_col_at) (pre @ [p]) = Some (length pre)"
            using Cons.prems(3) rh True by (simp add: first_ix_snoc seamless_hit_def first_ix_None[THEN iffD2])
          from first_ix_append_Some[OF this, of ps] have "frfcfs_choice rs min_col_at m queue = Some (length pre)"
            using pq(2) by (simp add: frfcfs_choice_def or_else_def)
          moreover have "queue ! length pre = p" using Cons.prems(1) by simp
          ultimately show ?thesis using dram ix br hit True by (simp add: with_col_def)
        next
          case False
          then show ?thesis using choose_hit[OF inv rh] dram ix br hit
            by (intro next1[of "select_hit (length pre) (pkt_col_at rs p) s"]) (simp_all add: seamless_hit_def)
        qed
      next
        case miss: False
        have nsh: "\<not> seamless_hit rs min_col_at p" using miss by (simp add: seamless_hit_def row_hit_def)
        show ?thesis
        proof (cases "found_earliest_pkt s")
          case True
          have b: "first_ix (marked_miss rs (fst m)) pre \<noteq> None" using True inv by (simp add: choose_inv_def)
          then obtain i where i: "first_ix (marked_miss rs (fst m)) pre = Some i" by blast
          have f: "first_ix (marked_miss rs (fst m)) (pre @ [p]) = Some i"
            "first_ix (row_hit rs) (pre @ [p]) = first_ix (row_hit rs) pre"
            using i miss by (auto simp: first_ix_snoc row_hit_def split: option.split)
          then have bo: "best_other rs m (pre @ [p]) = best_other rs m pre" by (simp add: best_other_def i)
          have "with_col rs (pre @ [p]) (best_other rs m pre) = with_col rs pre (best_other rs m pre)"
            using with_col_append best_other_lt by (cases "best_other rs m pre") (auto simp: with_col_def)
          then have "choose_inv rs m (pre @ [p]) s" using inv unfolding choose_inv_def f bo i by metis
          then show ?thesis using True dram ix br miss nsh by (intro next1[of s]) simp_all
        next
          case False
          have "fill_banks c now rd_bus rs queue min_col_at s = Inr m"
            using inv m by (auto simp: fill_banks_def choose_inv_def)
          moreover have "ready_pkt rs p" using br rdy by simp
          ultimately show ?thesis using choose_miss[OF inv _ miss False] dram ix br miss False nsh
            by (intro next1[of "select_miss (length pre) p (pkt_col_at rs p) m s"]) simp_all
        qed
      qed
    qed
  qed
qed

lemma chooseNextFRFCFS_ok:
  assumes q: "queue_ok c rs queue" and m: "minBankPrep c now rd_bus rs queue min_col_at = Inr m"
  shows "chooseNextFRFCFS c now rd_bus rs queue min_col_at =
    Inr (with_col rs queue (frfcfs_choice rs min_col_at m queue))"
proof -
  let ?s0 = "\<lparr>earliest_banks = None, found_hidden_bank = False, found_prepped_pkt = False,
        found_earliest_pkt = False, selected_pkt = None, selected_col_at = MaxTick\<rparr>"
  have "choose_inv rs m [] ?s0" by (simp add: choose_inv_def with_col_def best_other_def or_else_def)
  from choose_loop_ok[OF q m _ this] obtain s' where
    "choose_loop c now rd_bus rs queue min_col_at queue 0 ?s0 = Inr s'"
    "(selected_pkt s', selected_col_at s') = with_col rs queue (frfcfs_choice rs min_col_at m queue)" by auto
  then show ?thesis by (simp add: chooseNextFRFCFS_def)
qed

lemma best_bank_exists:
  assumes "W \<noteq> {}"
  shows "\<exists>x \<in> W. best_bank c now rd_bus min_col_at rs W x"
proof (cases "\<exists>y \<in> W. seamless c now rd_bus min_col_at rs y")
  case True
  then show ?thesis by (auto simp: best_bank_def)
next
  case False
  obtain x0 where "x0 \<in> W" using assms by blast
  from ex_has_least_nat[of "\<lambda>x. x \<in> W", OF this, of "\<lambda>x. prep_act_at c now (bank_at rs x)"]
  obtain x where "x \<in> W" "\<forall>y \<in> W. prep_act_at c now (bank_at rs x) \<le> prep_act_at c now (bank_at rs y)" by blast
  then have "best_bank c now rd_bus min_col_at rs W x" using False unfolding best_bank_def by simp
  then show ?thesis using \<open>x \<in> W\<close> by blast
qed

section \<open>Properties\<close>

text \<open>
  The marked banks: among the banks with a waiting packet, \<open>minBankPrep\<close> marks exactly those whose
  burst can follow seamlessly, if there are any, and otherwise exactly those that can be activated
  earliest; and it reports hidden preparation exactly when the marked banks can be activated without
  delaying the data bus.
\<close>

theorem min_bank_prep_marks:
  assumes "queue_ok c rs queue"
    and "\<forall>x \<in> waiting_banks rs queue. prep_act_at c now (bank_at rs x) \<le> MaxTick"
  shows "\<exists>marks hidden. minBankPrep c now rd_bus rs queue min_col_at = Inr (marks, hidden) \<and>
    (\<forall>i < ranksPerChannel c. \<forall>j < banksPerRank c.
       bit (marks ! i) j \<longleftrightarrow> best_bank c now rd_bus min_col_at rs (waiting_banks rs queue) (i, j)) \<and>
    (hidden \<longleftrightarrow> waiting_banks rs queue \<noteq> {} \<and>
       (\<forall>x. best_bank c now rd_bus min_col_at rs (waiting_banks rs queue) x \<longrightarrow>
          prep_act_at c now (bank_at rs x) \<le> hidden_act_max c now min_col_at))"
proof -
  obtain marks hidden where "minBankPrep c now rd_bus rs queue min_col_at = Inr (marks, hidden)"
    "\<forall>i < ranksPerChannel c. \<forall>j < banksPerRank c.
       bit (marks ! i) j \<longleftrightarrow> best_bank c now rd_bus min_col_at rs (waiting_banks rs queue) (i, j)"
    "hidden \<longleftrightarrow> waiting_banks rs queue \<noteq> {} \<and>
       (\<forall>x. best_bank c now rd_bus min_col_at rs (waiting_banks rs queue) x \<longrightarrow>
          prep_act_at c now (bank_at rs x) \<le> hidden_act_max c now min_col_at)"
    by (rule minBankPrep_ok[OF assms, of rd_bus min_col_at])
  then show ?thesis by (intro exI[of _ marks] exI[of _ hidden]) simp
qed

lemma ddr4_queue_ok:
  "queue_ok ddr4_2400 (ranks ddr4_dram) [ddr4_packet 5 True, ddr4_packet 6 False]"
  by (auto simp: queue_ok_def ddr4_dram_def new_dram_def new_rank_def ddr4_packet_def new_packet_def ddr4_2400_def)

lemma waiting_banks_Cons:
  "waiting_banks rs [] = {}"
  "ready_pkt rs p \<Longrightarrow> waiting_banks rs (p # ps) = insert (mp_rank p, mp_bank p) (waiting_banks rs ps)"
  by (auto simp: waiting_banks_def)

lemma ddr4_waiting:
  "waiting_banks (ranks ddr4_dram) [ddr4_packet 5 True, ddr4_packet 6 False] = {(0, 5), (0, 6)}"
proof -
  have r: "ranks ddr4_dram ! 0 = new_rank ddr4_2400 0"
    by (simp add: ddr4_dram_def new_dram_def ddr4_2400_def)
  have "ready_pkt (ranks ddr4_dram) (ddr4_packet k rd)" for k rd
    using r by (simp add: ready_pkt_def burstReady_def ddr4_packet_def new_packet_def inRefIdleState_def new_rank_def)
  moreover have "mp_rank (ddr4_packet k rd) = 0" "mp_bank (ddr4_packet k rd) = k mod 16" for k rd
    by (simp_all add: ddr4_packet_def new_packet_def)
  ultimately show ?thesis by (simp add: waiting_banks_Cons)
qed

lemma ddr4_prep: "\<forall>x \<in> waiting_banks (ranks ddr4_dram) [ddr4_packet 5 True, ddr4_packet 6 False].
    prep_act_at ddr4_2400 500 (bank_at (ranks ddr4_dram) x) \<le> MaxTick"
proof -
  have r: "ranks ddr4_dram ! 0 = new_rank ddr4_2400 0"
    by (simp add: ddr4_dram_def new_dram_def ddr4_2400_def)
  have "banks (new_rank ddr4_2400 0) ! b = init_bank ddr4_2400 b" if "b < 16" for b
    using that by (simp add: new_rank_def ddr4_2400_def)
  then show ?thesis
    by (simp add: ddr4_waiting r prep_act_at_def init_bank_def new_bank_def MaxTick_def)
qed

theorem min_bank_prep_marks_witness:
  "\<exists>marks hidden. minBankPrep ddr4_2400 500 True (ranks ddr4_dram) [ddr4_packet 5 True, ddr4_packet 6 False] 600 =
      Inr (marks, hidden) \<and>
    (bit (marks ! 0) 5 \<longleftrightarrow> best_bank ddr4_2400 500 True 600 (ranks ddr4_dram) {(0, 5), (0, 6)} (0, 5))"
proof -
  have "(0::nat) < ranksPerChannel ddr4_2400" "(5::nat) < banksPerRank ddr4_2400" by (simp_all add: ddr4_2400_def)
  then show ?thesis
    using min_bank_prep_marks[OF ddr4_queue_ok ddr4_prep, of True 600] unfolding ddr4_waiting by blast
qed

text \<open>
  C29. FR-FCFS: the one-pass search selects exactly what the policy prescribes. A seamless row hit wins,
  the first in the queue; otherwise, with hidden bank preparation, the first miss to a marked bank and then the first
  hit, and without it the first hit and then the first miss to a marked bank.
\<close>

theorem frfcfs_is_policy:
  assumes "queue_ok c rs queue" and "minBankPrep c now rd_bus rs queue min_col_at = Inr m"
  shows "chooseNextFRFCFS c now rd_bus rs queue min_col_at =
    Inr (with_col rs queue (frfcfs_choice rs min_col_at m queue))"
  by (rule chooseNextFRFCFS_ok[OF assms])

theorem frfcfs_is_policy_witness:
  "\<exists>m. chooseNextFRFCFS ddr4_2400 500 True (ranks ddr4_dram) [ddr4_packet 5 True, ddr4_packet 6 False] 600 =
    Inr (with_col (ranks ddr4_dram) [ddr4_packet 5 True, ddr4_packet 6 False]
      (frfcfs_choice (ranks ddr4_dram) 600 m [ddr4_packet 5 True, ddr4_packet 6 False]))"
proof -
  obtain marks hidden where "minBankPrep ddr4_2400 500 True (ranks ddr4_dram)
      [ddr4_packet 5 True, ddr4_packet 6 False] 600 = Inr (marks, hidden)"
    by (rule minBankPrep_ok[OF ddr4_queue_ok ddr4_prep, of True 600])
  from frfcfs_is_policy[OF ddr4_queue_ok this] show ?thesis by blast
qed

lemma frfcfs_selects:
  assumes q: "queue_ok c rs queue"
    and mx: "\<forall>x \<in> waiting_banks rs queue. prep_act_at c now (bank_at rs x) \<le> MaxTick"
  shows "\<exists>choice col. chooseNextFRFCFS c now rd_bus rs queue min_col_at = Inr (choice, col) \<and>
    (choice = None \<longleftrightarrow> (\<forall>p \<in> set queue. \<not> ready_pkt rs p)) \<and>
    (\<forall>k. choice = Some k \<longrightarrow> k < length queue \<and> ready_pkt rs (queue ! k) \<and> col = pkt_col_at rs (queue ! k))"
proof -
  obtain marks hidden where m: "minBankPrep c now rd_bus rs queue min_col_at = Inr (marks, hidden)"
    "\<forall>i < ranksPerChannel c. \<forall>j < banksPerRank c.
       bit (marks ! i) j \<longleftrightarrow> best_bank c now rd_bus min_col_at rs (waiting_banks rs queue) (i, j)"
    by (rule minBankPrep_ok[OF assms, of rd_bus min_col_at])
  let ?ch = "frfcfs_choice rs min_col_at (marks, hidden) queue"
  have run: "chooseNextFRFCFS c now rd_bus rs queue min_col_at = Inr (with_col rs queue ?ch)"
    by (rule chooseNextFRFCFS_ok[OF q m(1)])
  have sound: "k < length queue \<and> ready_pkt rs (queue ! k)" if "?ch = Some k" for k
    using that by (auto simp: frfcfs_choice_def best_other_def or_else_def seamless_hit_def row_hit_def marked_miss_def
        split: option.splits if_splits dest!: first_ix_Some)
  have "?ch \<noteq> None" if p: "p \<in> set queue" "ready_pkt rs p" for p
  proof
    assume none: "?ch = None"
    then have nh: "\<not> row_hit rs x" "\<not> marked_miss rs marks x" if "x \<in> set queue" for x
      using that by (auto simp: frfcfs_choice_def best_other_def or_else_def first_ix_None split: option.splits if_splits)
    have "waiting_banks rs queue \<noteq> {}" using p by (auto simp: waiting_banks_def)
    from best_bank_exists[OF this] obtain x where x: "x \<in> waiting_banks rs queue"
      "best_bank c now rd_bus min_col_at rs (waiting_banks rs queue) x" by blast
    then obtain p' where p': "p' \<in> set queue" "ready_pkt rs p'" "x = (mp_rank p', mp_bank p')"
      by (auto simp: waiting_banks_def)
    have "mp_rank p' < ranksPerChannel c" "mp_bank p' < banksPerRank c"
      using q p' by (simp_all add: queue_ok_def ready_pkt_def)
    then have "bit (marks ! mp_rank p') (mp_bank p')" using m(2) x(2) p'(3) by simp
    then have "row_hit rs p' \<or> marked_miss rs marks p'" using p'(2) by (auto simp: row_hit_def marked_miss_def)
    then show False using nh p'(1) by blast
  qed
  then have "?ch = None \<longleftrightarrow> (\<forall>p \<in> set queue. \<not> ready_pkt rs p)"
    using sound by (cases ?ch) (blast, meson nth_mem option.distinct(1))
  then show ?thesis using run sound by (cases ?ch) (auto simp: with_col_def)
qed

text \<open>
  C8. The selection is sound and makes progress: it selects a packet exactly when some DRAM packet's rank
  is not refreshing, and the packet selected is such a packet.
\<close>

theorem frfcfs_progress:
  assumes q: "queue_ok c rs queue"
    and mx: "\<forall>x \<in> waiting_banks rs queue. prep_act_at c now (bank_at rs x) \<le> MaxTick"
  shows "\<exists>choice col. chooseNextFRFCFS c now rd_bus rs queue min_col_at = Inr (choice, col) \<and>
    (choice = None \<longleftrightarrow> (\<forall>p \<in> set queue. \<not> ready_pkt rs p)) \<and>
    (\<forall>k. choice = Some k \<longrightarrow> k < length queue \<and> ready_pkt rs (queue ! k) \<and> col = pkt_col_at rs (queue ! k))"
  by (rule frfcfs_selects[OF assms])

theorem frfcfs_progress_witness:
  "\<exists>k col. chooseNextFRFCFS ddr4_2400 500 True (ranks ddr4_dram) [ddr4_packet 5 True, ddr4_packet 6 False] 600 =
     Inr (Some k, col)"
proof -
  have "waiting_banks (ranks ddr4_dram) [ddr4_packet 5 True, ddr4_packet 6 False] \<noteq> {}" by (simp add: ddr4_waiting)
  then have r: "\<not> (\<forall>p \<in> set [ddr4_packet 5 True, ddr4_packet 6 False]. \<not> ready_pkt (ranks ddr4_dram) p)"
    unfolding waiting_banks_def by blast
  from frfcfs_progress[OF ddr4_queue_ok ddr4_prep, of True 600] obtain ch col where
    c: "chooseNextFRFCFS ddr4_2400 500 True (ranks ddr4_dram) [ddr4_packet 5 True, ddr4_packet 6 False] 600 = Inr (ch, col)"
    "ch = None \<longleftrightarrow> (\<forall>p \<in> set [ddr4_packet 5 True, ddr4_packet 6 False]. \<not> ready_pkt (ranks ddr4_dram) p)" by blast
  then show ?thesis using r by (cases ch) simp_all
qed

end
