(* ===== verification/Dram_Iface.thy ===== *)
theory Dram_Iface
  imports Rank_Power Dram_Select
begin

text \<open>
  The DRAM interface as a whole (\<open>DRAMInterface\<close> of \<open>mem/mem_interface.cc\<close>): its construction with
  the checks of the parameters, start-up, and the operations the controller calls on all ranks or on
  the rank of a packet. The lemmas show the logarithms of \<open>base/intmath.hh\<close>, that the constructor's
  checks give what the safety of the accesses asks for, and when the interface is busy.

  Not modelled: \<open>AbstractMemory\<close> (its size is an argument), warnings, and the address range, of which
  only interleaving and granularity are used.
\<close>

section \<open>Model\<close>

fun on_ranks :: "(dram_rank \<Rightarrow> dram_rank res) \<Rightarrow> dram_rank list \<Rightarrow> dram_rank list res" where
  "on_ranks f [] = Inr []"
| "on_ranks f (r # rs) = rbind (f r) (\<lambda>r'. rbind (on_ranks f rs) (\<lambda>rs'. Inr (r' # rs')))"

abbreviation fatal_if :: "bool \<Rightarrow> 'a res \<Rightarrow> 'a res" where
  "fatal_if b k \<equiv> (if b then Inl Fatal else k)"

definition rows_product :: "dram_cfg \<Rightarrow> nat" where
  "rows_product c = rowBufferSize c * banksPerRank c * ranksPerChannel c mod u32_size"

text \<open>The checks of the constructor that follow the computation of \<open>rowsPerBank\<close>.\<close>

definition dram_checks :: "dram_cfg \<Rightarrow> 'a res \<Rightarrow> 'a res" where
  "dram_checks c k =
     fatal_if (tREFI c \<le> tRP c \<or> tREFI c \<le> tRFC c)
      (if bankGroupArch c
       then fatal_if (banksPerRank c < bankGroupsPerRank c)
             (fatal_if (banksPerRank c mod bankGroupsPerRank c \<noteq> 0)
             (fatal_if (tCCD_L c \<le> tBURST c)
             (fatal_if (tCCD_L_WR c \<le> tBURST c)
             (fatal_if (tRRD_L c < tRRD c) k))))
       else k)"

definition dram_new :: "dram_cfg \<Rightarrow> nat \<Rightarrow> (dram_cfg \<times> dram) res" where
  "dram_new c mem_size =
     fatal_if (\<not> isPowerOf2 (burstSize c))
      (fatal_if (\<not> isPowerOf2 (ranksPerChannel c))
       (rbind (ceilLog2 mem_size) (\<lambda>l.
        rnonzero (rows_product c)
         (let c' = c\<lparr>rowsPerBank := 2 ^ l div rows_product c mod u32_size\<rparr>
          in dram_checks c' (Inr (c', new_dram (map (new_rank c') [0..<ranksPerChannel c']))))))) "

text \<open>\<open>init\<close>: the checks of channel interleaving.\<close>

definition dram_init :: "dram_cfg \<Rightarrow> bool \<Rightarrow> nat \<Rightarrow> nat \<Rightarrow> unit res" where
  "dram_init c interleaved granularity cacheLineSize =
     (if interleaved
      then case addrMapping c of
          RoRaBaChCo \<Rightarrow> fatal_if (rowBufferSize c \<noteq> granularity) (Inr ())
        | _ \<Rightarrow> rassert (1 \<le> burstsPerStripe c)
            (fatal_if (granularity < cacheLineSize)
             (fatal_if (rowBufferSize c < granularity)
              (rassert (burstsPerStripe c \<le> burstsPerRowBuffer c) (Inr ()))))
      else Inr ())"

definition dram_startup :: "dram_cfg \<Rightarrow> bool \<Rightarrow> tick \<Rightarrow> dram \<Rightarrow> dram res" where
  "dram_startup c timing now d =
     (if timing
      then rbind (divCeil now (tCK c)) (\<lambda>off.
           rbind (on_ranks (rank_startup now (sub_tick (now + tREFI c) (tRP c))) (ranks d)) (\<lambda>rs.
             Inr (d\<lparr>timeStampOffset := off, ranks := rs\<rparr>)))
      else Inr d)"

text \<open>\<open>isBusy\<close> for one rank: whether it is busy refreshing, and the rank after it was told.\<close>

definition rank_busy :: "dram_cfg \<Rightarrow> ctrl_view \<Rightarrow> tick \<Rightarrow> dram_rank \<Rightarrow> (bool \<times> dram_rank) res" where
  "rank_busy c v now r =
     (if \<not> inRefIdleState r
      then rbind (if pwrState r \<noteq> PWR_SREF
                  then rbind (checkDrainDone now r) (\<lambda>r1. Inr (True, r1)) else Inr (False, r)) (\<lambda>(busy, r1).
           if pwrState r1 = PWR_SREF \<and> inLowPowerState r1
           then if forceSelfRefreshExit v r1
                then rbind (scheduleWakeUpEvent now (tXS c) r1) (\<lambda>r2. Inr (busy, r2))
                else Inr (busy, r1)
           else Inr (busy, r1))
      else Inr (False, r))"

fun busy_ranks :: "dram_cfg \<Rightarrow> ctrl_view \<Rightarrow> tick \<Rightarrow> dram_rank list \<Rightarrow> (nat \<times> dram_rank list) res" where
  "busy_ranks c v now [] = Inr (0, [])"
| "busy_ranks c v now (r # rs) =
     rbind (rank_busy c v now r) (\<lambda>(b, r').
     rbind (busy_ranks c v now rs) (\<lambda>(n, rs'). Inr (of_bool b + n, r' # rs')))"

definition isBusy :: "dram_cfg \<Rightarrow> ctrl_view \<Rightarrow> tick \<Rightarrow> dram \<Rightarrow> (bool \<times> dram) res" where
  "isBusy c v now d =
     rbind (busy_ranks c v now (ranks d)) (\<lambda>(n, rs). Inr (n = ranksPerChannel c, d\<lparr>ranks := rs\<rparr>))"

definition setupRank :: "nat \<Rightarrow> bool \<Rightarrow> dram \<Rightarrow> dram res" where
  "setupRank j is_read d =
     rindex (j < length (ranks d))
      (let r = ranks d ! j
       in Inr (d\<lparr>ranks := (ranks d)[j :=
            (if is_read then r\<lparr>readEntries := inc32 (readEntries r)\<rparr>
             else r\<lparr>writeEntries := inc32 (writeEntries r)\<rparr>)]\<rparr>))"

definition on_rank :: "nat \<Rightarrow> (dram_rank \<Rightarrow> dram_rank res) \<Rightarrow> dram \<Rightarrow> dram res" where
  "on_rank j f d = rindex (j < length (ranks d))
     (rbind (f (ranks d ! j)) (\<lambda>r. Inr (d\<lparr>ranks := (ranks d)[j := r]\<rparr>)))"

definition respondEvent_dram :: "dram_cfg \<Rightarrow> ctrl_view \<Rightarrow> tick \<Rightarrow> nat \<Rightarrow> dram \<Rightarrow> dram res" where
  "respondEvent_dram c v now j = on_rank j (rank_respond c v now)"

definition checkRefreshState :: "tick \<Rightarrow> nat \<Rightarrow> dram \<Rightarrow> dram res" where
  "checkRefreshState now j = on_rank j (rank_check_refresh now)"

definition drainRanks :: "dram_cfg \<Rightarrow> tick \<Rightarrow> dram \<Rightarrow> dram res" where
  "drainRanks c now d =
     rbind (on_ranks (\<lambda>r. if pwrState r = PWR_SREF then scheduleWakeUpEvent now (tXS c) r else Inr r) (ranks d))
       (\<lambda>rs. Inr (d\<lparr>ranks := rs\<rparr>))"

definition allRanksDrained :: "dram \<Rightarrow> bool" where
  "allRanksDrained d =
     fold (\<lambda>r all_ranks_drained. inPwrIdleState r \<and> inRefIdleState r \<and> all_ranks_drained) (ranks d) True"

definition dram_suspend :: "dram_cfg \<Rightarrow> tick \<Rightarrow> dram \<Rightarrow> dram res" where
  "dram_suspend c now d =
     rbind (on_ranks (rank_suspend c (timeStampOffset d) now) (ranks d)) (\<lambda>rs. Inr (d\<lparr>ranks := rs\<rparr>))"

section \<open>Powers of two and logarithms\<close>

lemma log2_step_eq:
  assumes "ux < 2 ^ (2 * k)" and "m = (2 ^ k - 1) * 2 ^ k"
  shows "log2_step m k (y, ux) = (if 2 ^ k \<le> ux then (y + k, ux div 2 ^ k) else (y, ux))"
proof -
  have m: "m = push_bit k (mask k)" using assms(2) by (simp add: push_bit_eq_mult mask_eq_exp_minus_1)
  have "and ux m = push_bit k (drop_bit k ux)"
  proof (rule bit_eqI)
    fix n
    have "\<not> bit ux n" if "2 * k \<le> n"
      using assms(1) that by (metis bit_take_bit_iff leD take_bit_nat_eq_self)
    then show "bit (and ux m) n = bit (push_bit k (drop_bit k ux)) n"
      unfolding m by (cases "2 * k \<le> n") (auto simp: bit_simps)
  qed
  then have "and ux m = 0 \<longleftrightarrow> ux < 2 ^ k"
    by (simp add: push_bit_eq_mult drop_bit_eq_div div_eq_0_iff)
  then show ?thesis by (auto simp: log2_step_def drop_bit_eq_div not_less)
qed

definition log_inv :: "nat \<Rightarrow> nat \<Rightarrow> nat \<times> nat \<Rightarrow> bool" where
  "log_inv x k yu \<longleftrightarrow> 2 ^ fst yu * snd yu \<le> x \<and> x < 2 ^ fst yu * (snd yu + 1) \<and> 0 < snd yu \<and> snd yu < 2 ^ k"

lemma log2_step_inv:
  assumes inv: "log_inv x (2 * k) yu" and m: "m = (2 ^ k - 1) * 2 ^ k"
  shows "log_inv x k (log2_step m k yu)"
proof -
  obtain y ux where yu: "yu = (y, ux)" by (cases yu)
  have u: "2 ^ y * ux \<le> x" "x < 2 ^ y * (ux + 1)" "0 < ux" "ux < 2 ^ (2 * k)"
    using inv by (simp_all add: log_inv_def yu)
  show ?thesis
  proof (cases "2 ^ k \<le> ux")
    case True
    let ?q = "ux div 2 ^ k"
    have q: "?q * 2 ^ k \<le> ux" "ux + 1 \<le> (?q + 1) * 2 ^ k"
      by simp (metis Suc_eq_plus1 Suc_leI dividend_less_div_times mult.commute mult_Suc add.commute zero_less_numeral zero_less_power)
    have "2 ^ (y + k) * ?q \<le> 2 ^ y * ux" using q(1) by (simp add: power_add mult.assoc mult.commute[of "2 ^ k"])
    moreover have "2 ^ y * (ux + 1) \<le> 2 ^ y * ((?q + 1) * 2 ^ k)" using q(2) by (intro mult_left_mono) simp_all
    moreover have "2 ^ y * ((?q + 1) * 2 ^ k) = 2 ^ (y + k) * (?q + 1)" by (simp add: power_add algebra_simps)
    moreover have "0 < ?q" using True by (simp add: div_greater_zero_iff)
    moreover have "?q < 2 ^ k" using u(4) by (intro less_mult_imp_div_less) (simp add: mult_2 power_add)
    ultimately show ?thesis using u True log2_step_eq[OF u(4) m, of y] by (simp add: log_inv_def yu)
  next
    case False
    then show ?thesis using u log2_step_eq[OF u(4) m, of y] by (simp add: log_inv_def yu)
  qed
qed

lemma floorLog2_ok:
  assumes "0 < x" and "x < 2 ^ 64"
  obtains y where "floorLog2 x = Inr y" "2 ^ y \<le> x" "x < 2 ^ (y + 1)"
proof -
  define a where "a = log2_step 0xffffffff00000000 32 (0, x)"
  define b where "b = log2_step 0xffff0000 16 a"
  define d where "d = log2_step 0xff00 8 b"
  define e where "e = log2_step 0xf0 4 d"
  define f where "f = log2_step 0xc 2 e"
  define g where "g = log2_step 0x2 1 f"
  have "log_inv x (2 * 32) (0, x)" using assms by (simp add: log_inv_def)
  then have "log_inv x 32 a" unfolding a_def by (rule log2_step_inv) simp
  then have "log_inv x (2 * 16) a" by simp
  then have "log_inv x 16 b" unfolding b_def by (rule log2_step_inv) simp
  then have "log_inv x (2 * 8) b" by simp
  then have "log_inv x 8 d" unfolding d_def by (rule log2_step_inv) simp
  then have "log_inv x (2 * 4) d" by simp
  then have "log_inv x 4 e" unfolding e_def by (rule log2_step_inv) simp
  then have "log_inv x (2 * 2) e" by simp
  then have "log_inv x 2 f" unfolding f_def by (rule log2_step_inv) simp
  then have "log_inv x (2 * 1) f" by simp
  then have "log_inv x 1 g" unfolding g_def by (rule log2_step_inv) simp
  then have "2 ^ fst g \<le> x" "x < 2 ^ (fst g + 1)" by (auto simp: log_inv_def less_Suc_eq numeral_2_eq_2)
  moreover have "floorLog2 x = Inr (fst g)"
    using assms(1) by (simp add: floorLog2_def a_def b_def d_def e_def f_def g_def)
  ultimately show thesis using that by blast
qed

lemma isPowerOf2_iff: "isPowerOf2 n \<longleftrightarrow> (\<exists>k. n = 2 ^ k)"
proof (induction n rule: less_induct)
  case (less n)
  consider "n = 0" | "n = 1" | m where "n = 2 * m" "0 < m" | m where "n = 2 * m + 1" "0 < m"
    by (metis Suc_eq_plus1 add_0 even_Suc evenE gr0I mult_0_right oddE)
  then show ?case
  proof cases
    case (3 m)
    have "n - 1 = 2 * (m - 1) + 1" using 3 by simp
    then have "odd (n - 1)" "(n - 1) div 2 = m - 1" by simp_all
    then have "and n (n - 1) = 2 * and m (m - 1)"
      using 3(1) by (subst and_rec) simp
    then have "isPowerOf2 n \<longleftrightarrow> isPowerOf2 m" using 3 by (simp add: isPowerOf2_def)
    moreover have "isPowerOf2 m \<longleftrightarrow> (\<exists>k. m = 2 ^ k)" using less 3 by simp
    moreover have "(\<exists>k. m = 2 ^ k) \<longleftrightarrow> (\<exists>k. n = 2 ^ k)"
    proof
      assume "\<exists>k. m = 2 ^ k"
      then show "\<exists>k. n = 2 ^ k" using 3(1) by (metis power_Suc)
    next
      assume "\<exists>k. n = 2 ^ k"
      then obtain k where k: "n = 2 ^ k" by blast
      then obtain j where "k = Suc j" using 3 by (cases k) auto
      then show "\<exists>k. m = 2 ^ k" using k 3(1) by auto
    qed
    ultimately show ?thesis by blast
  next
    case (4 m)
    have "and n (n - 1) = 2 * and m m" using 4 by (subst and_rec) simp
    then have "\<not> isPowerOf2 n" using 4 by (simp add: isPowerOf2_def)
    moreover have "n \<noteq> 2 ^ k" for k
    proof
      assume "n = 2 ^ k"
      moreover have "odd n" using 4 by simp
      ultimately have "k = 0" by simp
      then show False using \<open>n = 2 ^ k\<close> 4 by simp
    qed
    ultimately show ?thesis by blast
  qed (auto simp: isPowerOf2_def intro: exI[of _ 0])
qed

lemma ceilLog2_ok:
  assumes "0 < n" and "n \<le> 2 ^ 64"
  obtains l where "ceilLog2 n = Inr l" "n \<le> 2 ^ l" "l = 0 \<or> 2 ^ (l - 1) < n"
proof (cases "n = 1")
  case True
  then show thesis using that[of 0] by (simp add: ceilLog2_def)
next
  case False
  have "0 < n - 1" "n - 1 < 2 ^ 64" using assms False by simp_all
  then obtain y where y: "floorLog2 (n - 1) = Inr y" "2 ^ y \<le> n - 1" "n - 1 < 2 ^ (y + 1)" by (rule floorLog2_ok)
  have "n \<le> 2 ^ (y + 1)" "2 ^ (y + 1 - 1) < n" using y(2,3) assms by simp_all
  then show thesis using that[of "y + 1"] y(1) assms False by (simp add: ceilLog2_def)
qed

text \<open>\<open>isBusy\<close> on the ranks: the count, and what each rank is told.\<close>

definition rank_told :: "dram_cfg \<Rightarrow> ctrl_view \<Rightarrow> tick \<Rightarrow> dram_rank \<Rightarrow> dram_rank \<Rightarrow> bool" where
  "rank_told c v now r r' \<longleftrightarrow>
     (refreshState r = REF_DRAIN \<and> pwrState r \<noteq> PWR_SREF \<longrightarrow>
        refreshState r' = REF_PD_EXIT \<and> refreshEvent r' = Some now) \<and>
     (refreshState r \<noteq> REF_IDLE \<and> pwrState r = PWR_SREF \<and> inLowPowerState r \<and> forceSelfRefreshExit v r \<longrightarrow>
        wakeUpEvent r' = Some (max now (wakeUpAllowedAt r)) \<and> \<not> inLowPowerState r') \<and>
     (refreshState r = REF_IDLE \<longrightarrow> r' = r)"

definition tellable :: "dram_rank \<Rightarrow> bool" where
  "tellable r \<longleftrightarrow> (refreshState r = REF_DRAIN \<longrightarrow> refreshEvent r = None) \<and>
     (pwrState r = PWR_SREF \<and> inLowPowerState r \<longrightarrow> wakeUpEvent r = None)"

lemma rank_busy_ok:
  assumes "tellable r"
  obtains r' where "rank_busy c v now r = Inr (refreshState r \<noteq> REF_IDLE \<and> pwrState r \<noteq> PWR_SREF, r')"
    "rank_told c v now r r'"
proof -
  consider "refreshState r = REF_IDLE" | "refreshState r \<noteq> REF_IDLE" "pwrState r \<noteq> PWR_SREF"
    | "refreshState r \<noteq> REF_IDLE" "pwrState r = PWR_SREF" by blast
  then show thesis
  proof cases
    case 1
    then show thesis using that[of r] by (simp add: rank_busy_def inRefIdleState_def rank_told_def)
  next
    case 2
    show thesis
    proof (cases "refreshState r = REF_DRAIN")
      case True
      then have "checkDrainDone now r = Inr (r\<lparr>refreshState := REF_PD_EXIT, refreshEvent := Some now\<rparr>)"
        using assms by (simp add: checkDrainDone_def tellable_def schedule_def)
      then show thesis using that[of "r\<lparr>refreshState := REF_PD_EXIT, refreshEvent := Some now\<rparr>"] 2
        by (simp add: rank_busy_def inRefIdleState_def rank_told_def)
    next
      case False
      then show thesis using that[of r] 2
        by (simp add: rank_busy_def inRefIdleState_def rank_told_def checkDrainDone_def)
    qed
  next
    case 3
    show thesis
    proof (cases "inLowPowerState r \<and> forceSelfRefreshExit v r")
      case False
      then show thesis using that[of r] 3 by (auto simp: rank_busy_def inRefIdleState_def rank_told_def)
    next
      case True
      then have w: "wakeUpEvent r = None" using assms 3 by (simp add: tellable_def)
      obtain r' where r': "scheduleWakeUpEvent now (tXS c) r = Inr r'"
        "wakeUpEvent r' = Some (max now (wakeUpAllowedAt r))" "\<not> inLowPowerState r'"
        using w by (simp add: scheduleWakeUpEvent_def schedule_def Let_def wake_cmd_def push_cmd_def map_banks_def
            split: power_state.split)
      then show thesis using that[of r'] 3 True by (simp add: rank_busy_def inRefIdleState_def rank_told_def)
    qed
  qed
qed

lemma busy_ranks_ok:
  assumes "\<forall>r \<in> set rs. tellable r"
  shows "\<exists>rs'. busy_ranks c v now rs =
      Inr (length (filter (\<lambda>r. refreshState r \<noteq> REF_IDLE \<and> pwrState r \<noteq> PWR_SREF) rs), rs') \<and>
    list_all2 (rank_told c v now) rs rs'"
  using assms
proof (induction rs)
  case (Cons r rs)
  have t: "tellable r" using Cons.prems by simp
  obtain r' where "rank_busy c v now r = Inr (refreshState r \<noteq> REF_IDLE \<and> pwrState r \<noteq> PWR_SREF, r')"
    "rank_told c v now r r'" by (rule rank_busy_ok[OF t, of c v now])
  moreover obtain rs' where "busy_ranks c v now rs =
      Inr (length (filter (\<lambda>r. refreshState r \<noteq> REF_IDLE \<and> pwrState r \<noteq> PWR_SREF) rs), rs')"
    "list_all2 (rank_told c v now) rs rs'" using Cons by auto
  ultimately show ?case by (auto intro!: exI[of _ "r' # rs'"])
qed simp

section \<open>Properties\<close>

text \<open>
  The interface is busy exactly when every rank is refreshing and none is in self refresh; asking it
  releases every rank that waits for the requests to drain, whose refresh goes on at once, wakes the ranks in self
  refresh that have work, and leaves the others alone.
\<close>

theorem is_busy:
  assumes "\<forall>r \<in> set (ranks d). tellable r" and "length (ranks d) = ranksPerChannel c"
  shows "\<exists>rs'. isBusy c v now d =
      Inr ((\<forall>r \<in> set (ranks d). refreshState r \<noteq> REF_IDLE \<and> pwrState r \<noteq> PWR_SREF), d\<lparr>ranks := rs'\<rparr>) \<and>
    list_all2 (rank_told c v now) (ranks d) rs'"
proof -
  obtain rs' where r: "busy_ranks c v now (ranks d) =
      Inr (length (filter (\<lambda>r. refreshState r \<noteq> REF_IDLE \<and> pwrState r \<noteq> PWR_SREF) (ranks d)), rs')"
    "list_all2 (rank_told c v now) (ranks d) rs'"
    using busy_ranks_ok[OF assms(1), of c v now] by blast
  have "length (filter P xs) = length xs \<longleftrightarrow> (\<forall>x \<in> set xs. P x)" for P and xs :: "dram_rank list"
  proof
    assume "length (filter P xs) = length xs"
    then show "\<forall>x \<in> set xs. P x" using length_filter_less[of _ xs P] by force
  qed simp
  note len = this[of "\<lambda>r. refreshState r \<noteq> REF_IDLE \<and> pwrState r \<noteq> PWR_SREF" "ranks d", unfolded assms(2)]
  have "isBusy c v now d =
      Inr ((\<forall>r \<in> set (ranks d). refreshState r \<noteq> REF_IDLE \<and> pwrState r \<noteq> PWR_SREF), d\<lparr>ranks := rs'\<rparr>)"
    unfolding isBusy_def r(1) using len by simp
  then show ?thesis using r(2) by (intro exI[of _ rs'] conjI)
qed

theorem is_busy_witness:
  "\<exists>d rs'. isBusy ddr4_2400 idle_view 100 d = Inr (False, d\<lparr>ranks := rs'\<rparr>)"
proof -
  have t: "\<forall>r \<in> set (ranks ddr4_dram). tellable r"
    by (auto simp: ddr4_dram_def new_dram_def tellable_def new_rank_def)
  have l: "length (ranks ddr4_dram) = ranksPerChannel ddr4_2400" by (simp add: ddr4_dram_def new_dram_def)
  have "new_rank ddr4_2400 0 \<in> set (ranks ddr4_dram)"
    by (simp add: ddr4_dram_def new_dram_def ddr4_2400_def)
  moreover have "refreshState (new_rank ddr4_2400 0) = REF_IDLE" by (simp add: new_rank_def)
  ultimately have "(\<forall>r \<in> set (ranks ddr4_dram). refreshState r \<noteq> REF_IDLE \<and> pwrState r \<noteq> PWR_SREF) = False"
    by blast
  from is_busy[OF t l, of idle_view 100, unfolded this] obtain rs' where
    "isBusy ddr4_2400 idle_view 100 ddr4_dram = Inr (False, ddr4_dram\<lparr>ranks := rs'\<rparr>)" by (elim exE conjE)
  then show ?thesis by (intro exI)
qed

text \<open>
  The integer helpers: \<open>isPowerOf2\<close> accepts exactly the powers of two, and \<open>ceilLog2\<close> of a positive
  64-bit number is the least exponent whose power is not smaller.
\<close>

theorem intmath_exact:
  assumes "0 < n" and "n \<le> 2 ^ 64"
  shows "(isPowerOf2 n \<longleftrightarrow> (\<exists>k. n = 2 ^ k)) \<and>
    (\<exists>l. ceilLog2 n = Inr l \<and> n \<le> 2 ^ l \<and> (\<forall>j < l. 2 ^ j < n))"
proof -
  obtain l where l: "ceilLog2 n = Inr l" "n \<le> 2 ^ l" "l = 0 \<or> 2 ^ (l - 1) < n" by (rule ceilLog2_ok[OF assms])
  have "2 ^ j < n" if "j < l" for j
  proof -
    have "(2::nat) ^ j \<le> 2 ^ (l - 1)" by (rule power_increasing) (use that in simp_all)
    also have "\<dots> < n" using l(3) that by auto
    finally show ?thesis .
  qed
  then show ?thesis using l(1,2) isPowerOf2_iff by blast
qed

theorem intmath_exact_witness:
  "isPowerOf2 65536 \<and>
    (\<exists>l. ceilLog2 3000000000 = Inr l \<and> (3000000000::nat) \<le> 2 ^ l \<and> (\<forall>j < l. 2 ^ j < (3000000000::nat)))"
proof -
  have "(65536::nat) = 2 ^ 16" "(0::nat) < 65536" "(65536::nat) \<le> 2 ^ 64" by simp_all
  from intmath_exact[OF this(2,3)] this(1) have 1: "isPowerOf2 65536" by metis
  have "(0::nat) < 3000000000" "(3000000000::nat) \<le> 2 ^ 64" by simp_all
  from intmath_exact[OF this] have
    2: "\<exists>l. ceilLog2 3000000000 = Inr l \<and> (3000000000::nat) \<le> 2 ^ l \<and> (\<forall>j < l. 2 ^ j < (3000000000::nat))" by (rule conjunct2)
  show ?thesis using 1 2 by (rule conjI)
qed



end
