(* ===== verification/Qos_Ctrl.thy ===== *)
theory Qos_Ctrl
  imports Dram_Rank
begin

text \<open>
  The quality-of-service part of the memory controller: \<open>QoS::MemCtrl\<close> of \<open>mem/qos/mem_ctrl.{hh,cc}\<close>, from
  which the controller is derived, and its policies (\<open>policy_fixed_prio.cc\<close>, \<open>policy_pf.cc\<close>,
  \<open>turnaround_policy_ideal.cc\<close>, \<open>q_policy.cc\<close>). It counts the queued packets per requestor and priority,
  moves packets between the priority queues, and chooses the direction of the bus.
  This theory holds the definitions; \<open>Qos_Safe\<close> proves their properties.

  Latencies are in ticks (the code divides them by the ticks of a second), the samples of a
  distribution are the list of its samples, and the scores of the proportional-fair policy are values of
  a linear order whose update (floating-point in the code) is part of the policy.
\<close>

section \<open>Model\<close>

datatype 'd qos_policy =
    Fixed_Priority "nat \<Rightarrow> nat option" nat
  | Prop_Fair "'d \<Rightarrow> nat \<Rightarrow> 'd" "(nat \<times> 'd) list"

text \<open>\<open>policy\<close> is null or one of the two; \<open>turnPolicy\<close> tells whether there is a turnaround policy.\<close>

record 'd qos = ctrl_view +
  policy :: "'d qos_policy option"
  turnPolicy :: bool
  numPriorities :: nat
  qosPriorityEscalation :: bool
  qosSyncroScheduler :: bool
  requestors :: "nat list"
  packetPriorities :: "nat \<Rightarrow> nat list"
  requestTimes :: "nat \<Rightarrow> addr \<Rightarrow> tick list"
  serviceTick :: "tick list"
  readQueueSizes :: "nat list"
  writeQueueSizes :: "nat list"
  totalReadQueueSize :: nat
  totalWriteQueueSize :: nat
  avgPriority :: "nat \<Rightarrow> nat list"
  avgPriorityDistance :: "nat \<Rightarrow> nat list"
  priorityMinLatency :: "int list"
  priorityMaxLatency :: "int list"
  numReadWriteTurnArounds :: nat
  numWriteReadTurnArounds :: nat
  numStayReadState :: nat
  numStayWriteState :: nat

text \<open>The constructor: no requestors are known, and the queues of all priorities are empty.\<close>

definition new_qos :: "'d qos_policy option \<Rightarrow> bool \<Rightarrow> bool \<Rightarrow> bool \<Rightarrow> nat \<Rightarrow> 'd qos" where
  "new_qos p turn escalation syncro n =
     \<lparr>busState = READ, busStateNext = READ, nextReqEvent = None, respondEvent = None, drainState = Running,
      policy = p, turnPolicy = turn, numPriorities = n, qosPriorityEscalation = escalation,
      qosSyncroScheduler = syncro, requestors = [], packetPriorities = (\<lambda>_. []), requestTimes = (\<lambda>_ _. []),
      serviceTick = replicate n 0, readQueueSizes = replicate n 0, writeQueueSizes = replicate n 0,
      totalReadQueueSize = 0, totalWriteQueueSize = 0, avgPriority = (\<lambda>_. []), avgPriorityDistance = (\<lambda>_. []),
      priorityMinLatency = replicate n 0, priorityMaxLatency = replicate n 0, numReadWriteTurnArounds = 0,
      numWriteReadTurnArounds = 0, numStayReadState = 0, numStayWriteState = 0\<rparr>"

definition hasRequestor :: "nat \<Rightarrow> ('d, 'a) qos_scheme \<Rightarrow> bool" where
  "hasRequestor rid s = (rid \<in> set (requestors s))"

definition addRequestor :: "nat \<Rightarrow> ('d, 'a) qos_scheme \<Rightarrow> ('d, 'a) qos_scheme" where
  "addRequestor rid s =
     (if hasRequestor rid s then s
      else s\<lparr>requestors := requestors s @ [rid],
             packetPriorities := (packetPriorities s)(rid := replicate (numPriorities s) 0)\<rparr>)"

subsection \<open>Logging\<close>

definition bump_at :: "nat \<Rightarrow> (nat \<Rightarrow> nat) \<Rightarrow> nat list \<Rightarrow> nat list" where
  "bump_at i f xs = xs[i := f (xs ! i)]"

definition count_request :: "bus_state \<Rightarrow> nat \<Rightarrow> nat \<Rightarrow> ('d, 'a) qos_scheme \<Rightarrow> ('d, 'a) qos_scheme" where
  "count_request dir q entries s =
     (case dir of
        READ \<Rightarrow> s\<lparr>readQueueSizes := bump_at q (\<lambda>n. n + entries) (readQueueSizes s),
                  totalReadQueueSize := totalReadQueueSize s + entries\<rparr>
      | WRITE \<Rightarrow> s\<lparr>writeQueueSizes := bump_at q (\<lambda>n. n + entries) (writeQueueSizes s),
                   totalWriteQueueSize := totalWriteQueueSize s + entries\<rparr>)"

text \<open>The samples of the priority distance; \<open>distance\<close> is 8 bits wide.\<close>

definition priority_distances :: "nat \<Rightarrow> nat list \<Rightarrow> nat list" where
  "priority_distances q prios =
     filter (\<lambda>d. 0 < d)
       (map (\<lambda>i. (if q \<le> i then i - q else q - i) * prios ! i mod 256) [0..<length prios])"

definition logRequest ::
    "tick \<Rightarrow> bus_state \<Rightarrow> nat \<Rightarrow> nat \<Rightarrow> addr \<Rightarrow> nat \<Rightarrow> ('d, 'a) qos_scheme \<Rightarrow> ('d, 'a) qos_scheme res" where
  "logRequest now dir rid q a entries s =
     (let s1 = addRequestor rid s
      in rindex (q < length (readQueueSizes s1) \<and> q < length (writeQueueSizes s1) \<and>
                 q < length (packetPriorities s1 rid))
       (let s2 = count_request dir q entries s1;
            prios = bump_at q (\<lambda>n. n + entries) (packetPriorities s2 rid)
        in Inr (s2\<lparr>packetPriorities := (packetPriorities s2)(rid := prios),
                   requestTimes := (requestTimes s2)(rid := (requestTimes s2 rid)
                     (a := requestTimes s2 rid a @ replicate entries now)),
                   avgPriority := (avgPriority s2)(rid := avgPriority s2 rid @ [q]),
                   avgPriorityDistance := (avgPriorityDistance s2)
                     (rid := avgPriorityDistance s2 rid @ priority_distances q prios)\<rparr>)))"

definition count_response :: "bus_state \<Rightarrow> nat \<Rightarrow> nat \<Rightarrow> ('d, 'a) qos_scheme \<Rightarrow> ('d, 'a) qos_scheme" where
  "count_response dir q entries s =
     (case dir of
        READ \<Rightarrow> s\<lparr>readQueueSizes := bump_at q (\<lambda>n. sub64 n entries) (readQueueSizes s),
                  totalReadQueueSize := sub64 (totalReadQueueSize s) entries\<rparr>
      | WRITE \<Rightarrow> s\<lparr>writeQueueSizes := bump_at q (\<lambda>n. sub64 n entries) (writeQueueSizes s),
                   totalWriteQueueSize := sub64 (totalWriteQueueSize s) entries\<rparr>)"

definition sample_latency :: "nat \<Rightarrow> int \<Rightarrow> ('d, 'a) qos_scheme \<Rightarrow> ('d, 'a) qos_scheme" where
  "sample_latency q l s =
     (if 0 < l
      then s\<lparr>priorityMaxLatency := (priorityMaxLatency s)[q := max l (priorityMaxLatency s ! q)],
             priorityMinLatency := (priorityMinLatency s)
               [q := (if l < priorityMinLatency s ! q \<or> priorityMinLatency s ! q = 0 then l
                      else priorityMinLatency s ! q)]\<rparr>
      else s)"

fun respond_entries ::
    "nat \<Rightarrow> tick \<Rightarrow> nat \<Rightarrow> nat \<Rightarrow> addr \<Rightarrow> nat \<Rightarrow> ('d, 'a) qos_scheme \<Rightarrow> ('d, 'a) qos_scheme res" where
  "respond_entries 0 now rid q a delay s = Inr s"
| "respond_entries (Suc n) now rid q a delay s =
     (case requestTimes s rid a of
        [] \<Rightarrow> Inl Panic
      | t # ts \<Rightarrow> respond_entries n now rid q a delay
          (sample_latency q (int now + int delay - int t)
            (s\<lparr>requestTimes := (requestTimes s)(rid := (requestTimes s rid)(a := ts))\<rparr>)))"

definition logResponse ::
    "tick \<Rightarrow> bus_state \<Rightarrow> nat \<Rightarrow> nat \<Rightarrow> addr \<Rightarrow> nat \<Rightarrow> nat \<Rightarrow> ('d, 'a) qos_scheme \<Rightarrow> ('d, 'a) qos_scheme res" where
  "logResponse now dir rid q a entries delay s =
     (if \<not> hasRequestor rid s then Inl Panic
      else rindex (q < length (readQueueSizes s) \<and> q < length (writeQueueSizes s) \<and>
                   q < length (packetPriorities s rid))
       (let s1 = count_response dir q entries s
        in if packetPriorities s1 rid ! q = 0 then Inl Panic
           else respond_entries entries now rid q a delay
             (s1\<lparr>packetPriorities := (packetPriorities s1)
                  (rid := bump_at q (\<lambda>n. sub64 n entries) (packetPriorities s1 rid))\<rparr>)))"

subsection \<open>Scheduling\<close>

text \<open>
  The proportional-fair policy sorts the history by falling score (equal scores keep their order
  here, \<open>std::sort\<close> leaves it open); the priority is the position of the requestor.
\<close>

definition prop_fair_schedule ::
    "('d::linorder \<Rightarrow> nat \<Rightarrow> 'd) \<Rightarrow> nat \<Rightarrow> nat \<Rightarrow> (nat \<times> 'd) list \<Rightarrow> nat \<times> (nat \<times> 'd) list" where
  "prop_fair_schedule upd pkt_id pkt_size history =
     (let h = rev (sort_key snd (rev history))
      in (fold (\<lambda>(i, m) pr. if fst m = pkt_id then i mod 256 else pr) (enumerate 0 h) 0,
          map (\<lambda>(curr_id, score). (curr_id, upd score (if curr_id = pkt_id then pkt_size else 0))) h))"

definition policy_schedule :: "nat \<Rightarrow> nat \<Rightarrow> 'd::linorder qos_policy \<Rightarrow> nat \<times> 'd qos_policy" where
  "policy_schedule rid data p =
     (case p of
        Fixed_Priority m dflt \<Rightarrow> (case m rid of Some prio \<Rightarrow> prio | None \<Rightarrow> dflt, p)
      | Prop_Fair upd history \<Rightarrow>
          (case prop_fair_schedule upd rid data history of (prio, h) \<Rightarrow> (prio, Prop_Fair upd h)))"

text \<open>The two functions \<open>schedule\<close>: without a policy, 0, or the priority the packet has.\<close>

definition qos_schedule :: "nat \<Rightarrow> nat \<Rightarrow> nat \<Rightarrow> ('d::linorder, 'a) qos_scheme \<Rightarrow> nat \<times> ('d, 'a) qos_scheme" where
  "qos_schedule default_prio rid data s =
     (case policy s of
        None \<Rightarrow> (default_prio, s)
      | Some p \<Rightarrow> (case policy_schedule rid data p of (prio, p') \<Rightarrow> (prio, s\<lparr>policy := Some p'\<rparr>)))"

subsection \<open>Escalation\<close>

definition move_entries ::
    "bool \<Rightarrow> nat \<Rightarrow> nat \<Rightarrow> nat \<Rightarrow> nat \<Rightarrow> ('d, 'a) qos_scheme \<Rightarrow> ('d, 'a) qos_scheme res" where
  "move_entries is_read rid cur tgt n s =
     (if is_read
      then if readQueueSizes s ! cur < n then Inl Panic
           else Inr (s\<lparr>readQueueSizes := bump_at tgt (\<lambda>m. m + n) (bump_at cur (\<lambda>m. m - n) (readQueueSizes s))\<rparr>)
      else if writeQueueSizes s ! cur < n then Inl Panic
           else Inr (s\<lparr>writeQueueSizes := bump_at tgt (\<lambda>m. m + n) (bump_at cur (\<lambda>m. m - n) (writeQueueSizes s))\<rparr>))"

text \<open>The loop of \<open>escalateQueues\<close>: the packets that stay before the iterator, those moved, those after it.\<close>

fun escalate_loop ::
    "nat \<Rightarrow> nat \<Rightarrow> nat \<Rightarrow> nat \<Rightarrow> mem_packet list \<Rightarrow> mem_packet list \<times> mem_packet list \<times> ('d, 'a) qos_scheme \<Rightarrow>
     (mem_packet list \<times> mem_packet list \<times> ('d, 'a) qos_scheme) res" where
  "escalate_loop entry_size rid cur tgt [] (kept, moved, s) = Inr (kept, moved, s)"
| "escalate_loop entry_size rid cur tgt (pkt # rest) (kept, moved, s) =
     (if packetPriorities s rid ! cur = 0 then Inr (kept @ pkt # rest, moved, s)
      else if mp_requestor pkt = rid
      then rbind (divCeil (mp_size pkt) entry_size) (\<lambda>n.
           rindex (tgt < length (packetPriorities s rid) \<and> tgt < length (readQueueSizes s) \<and>
                   tgt < length (writeQueueSizes s))
           (rbind (move_entries (mp_read pkt) rid cur tgt n s) (\<lambda>s1.
            if packetPriorities s1 rid ! cur < n then Inl Panic
            else escalate_loop entry_size rid cur tgt rest
              (kept, moved @ [pkt\<lparr>mp_qos := tgt\<rparr>],
               s1\<lparr>packetPriorities := (packetPriorities s1)(rid :=
                    bump_at tgt (\<lambda>m. m + n) (bump_at cur (\<lambda>m. m - n) (packetPriorities s1 rid)))\<rparr>))))
      else escalate_loop entry_size rid cur tgt rest (kept @ [pkt], moved, s))"

definition escalateQueues ::
    "nat \<Rightarrow> nat \<Rightarrow> nat \<Rightarrow> nat \<Rightarrow> mem_packet list list \<times> ('d, 'a) qos_scheme \<Rightarrow>
     (mem_packet list list \<times> ('d, 'a) qos_scheme) res" where
  "escalateQueues entry_size rid cur tgt qs =
     rbind (escalate_loop entry_size rid cur tgt (fst qs ! cur) ([], [], snd qs)) (\<lambda>(kept, moved, s).
       Inr ((fst qs)[cur := kept, tgt := fst qs ! tgt @ moved], s))"

definition escalate_both ::
    "nat \<Rightarrow> nat \<Rightarrow> nat \<Rightarrow> nat \<Rightarrow> mem_packet list list \<times> mem_packet list list \<times> ('d, 'a) qos_scheme \<Rightarrow>
     (mem_packet list list \<times> mem_packet list list \<times> ('d, 'a) qos_scheme) res" where
  "escalate_both entry_size rid cur tgt x =
     (case x of (rq, wq, s) \<Rightarrow>
      rbind (escalateQueues entry_size rid cur tgt (rq, s)) (\<lambda>(rq', s1).
      rbind (escalateQueues entry_size rid cur tgt (wq, s1)) (\<lambda>(wq', s2). Inr (rq', wq', s2))))"

partial_function (option) escalate_while ::
    "nat \<Rightarrow> nat \<Rightarrow> nat \<Rightarrow> nat \<Rightarrow> mem_packet list list \<times> mem_packet list list \<times> ('d, 'a) qos_scheme \<Rightarrow>
     (mem_packet list list \<times> mem_packet list list \<times> ('d, 'a) qos_scheme) res option" where
  "escalate_while entry_size rid cur tgt x =
     (if 0 < packetPriorities (snd (snd x)) rid ! cur
      then case escalate_both entry_size rid cur tgt x of
          Inl e \<Rightarrow> Some (Inl e)
        | Inr y \<Rightarrow> escalate_while entry_size rid cur tgt y
      else Some (Inr x))"

fun escalate_prios ::
    "nat \<Rightarrow> nat \<Rightarrow> nat \<Rightarrow> nat list \<Rightarrow> mem_packet list list \<times> mem_packet list list \<times> ('d, 'a) qos_scheme \<Rightarrow>
     (mem_packet list list \<times> mem_packet list list \<times> ('d, 'a) qos_scheme) res" where
  "escalate_prios entry_size rid tgt [] x = Inr x"
| "escalate_prios entry_size rid tgt (cur # cs) x =
     (if cur = tgt then escalate_prios entry_size rid tgt cs x
      else rbind (case escalate_while entry_size rid cur tgt x of None \<Rightarrow> Inl No_Return | Some r \<Rightarrow> r)
             (escalate_prios entry_size rid tgt cs))"

definition escalate ::
    "nat \<Rightarrow> nat \<Rightarrow> nat \<Rightarrow> mem_packet list list \<times> mem_packet list list \<times> ('d, 'a) qos_scheme \<Rightarrow>
     (mem_packet list list \<times> mem_packet list list \<times> ('d, 'a) qos_scheme) res" where
  "escalate entry_size rid tgt x =
     (case x of (rq, wq, s) \<Rightarrow>
      escalate_prios entry_size rid tgt [0..<numPriorities s] (rq, wq, addRequestor rid s))"

text \<open>\<open>qosSchedule\<close>; the other requestors are visited in the order in which they are kept.\<close>

fun syncro_loop ::
    "nat \<Rightarrow> nat \<Rightarrow> nat list \<Rightarrow> mem_packet list list \<times> mem_packet list list \<times> ('d::linorder, 'a) qos_scheme \<Rightarrow>
     (mem_packet list list \<times> mem_packet list list \<times> ('d, 'a) qos_scheme) res" where
  "syncro_loop entry_size rid [] x = Inr x"
| "syncro_loop entry_size rid (r # rs) (rq, wq, s) =
     (if r = rid then syncro_loop entry_size rid rs (rq, wq, s)
      else case qos_schedule 0 r 0 s of (prio, s1) \<Rightarrow>
        rbind (if qosPriorityEscalation s1 then escalate entry_size r prio (rq, wq, s1) else Inr (rq, wq, s1))
          (syncro_loop entry_size rid rs))"

definition qosSchedule ::
    "nat \<Rightarrow> tick \<Rightarrow> nat \<Rightarrow> nat \<Rightarrow> nat \<Rightarrow> mem_packet list list \<times> mem_packet list list \<times> ('d::linorder, 'a) qos_scheme \<Rightarrow>
     (nat \<times> mem_packet list list \<times> mem_packet list list \<times> ('d, 'a) qos_scheme) res" where
  "qosSchedule entry_size now rid pkt_size pkt_prio x =
     (case x of (rq, wq, s) \<Rightarrow>
      case qos_schedule pkt_prio rid pkt_size s of (prio, s1) \<Rightarrow>
      rassert (prio < numPriorities s1)
       (rbind (if qosSyncroScheduler s1 then syncro_loop entry_size rid (requestors s1) (rq, wq, s1)
               else Inr (rq, wq, s1)) (\<lambda>(rq1, wq1, s2).
        rbind (if qosPriorityEscalation s2 then escalate entry_size rid prio (rq1, wq1, s2)
               else Inr (rq1, wq1, s2)) (\<lambda>(rq2, wq2, s3).
          Inr (prio, rq2, wq2, s3\<lparr>serviceTick := (serviceTick s3)[prio := now]\<rparr>)))))"

subsection \<open>The direction of the bus\<close>

definition flip_bus :: "bus_state \<Rightarrow> bus_state" where
  "flip_bus b = (case b of READ \<Rightarrow> WRITE | WRITE \<Rightarrow> READ)"

fun turnaround_loop :: "('d, 'a) qos_scheme \<Rightarrow> nat list \<Rightarrow> bus_state" where
  "turnaround_loop s [] = busState s"
| "turnaround_loop s (q # qs) =
     (if readQueueSizes s ! q = 0 \<and> writeQueueSizes s ! q = 0 then turnaround_loop s qs
      else if readQueueSizes s ! q = 0 then WRITE
      else if writeQueueSizes s ! q = 0 then READ
      else flip_bus (busState s))"

definition selectBusState :: "('d, 'a) qos_scheme \<Rightarrow> bus_state" where
  "selectBusState s = turnaround_loop s (map (\<lambda>i. numPriorities s - i - 1) [0..<numPriorities s])"

definition selectNextBusState :: "('d, 'a) qos_scheme \<Rightarrow> bus_state" where
  "selectNextBusState s =
     (if turnPolicy s then selectBusState s
      else if totalReadQueueSize s = 0 \<and> busState s = READ \<or> totalWriteQueueSize s = 0 \<and> busState s = WRITE
      then flip_bus (busState s) else busState s)"

definition recordTurnaroundStats :: "('d, 'a) qos_scheme \<Rightarrow> ('d, 'a) qos_scheme" where
  "recordTurnaroundStats s =
     (if busStateNext s \<noteq> busState s
      then case busState s of
          READ \<Rightarrow> s\<lparr>numWriteReadTurnArounds := numWriteReadTurnArounds s + 1\<rparr>
        | WRITE \<Rightarrow> s\<lparr>numReadWriteTurnArounds := numReadWriteTurnArounds s + 1\<rparr>
      else case busState s of
          READ \<Rightarrow> s\<lparr>numStayReadState := numStayReadState s + 1\<rparr>
        | WRITE \<Rightarrow> s\<lparr>numStayWriteState := numStayWriteState s + 1\<rparr>)"

subsection \<open>The least-recently-granted queue policy\<close>

text \<open>
  \<open>LrgQueuePolicy::selectPacket\<close> on the requestors of the queued packets (\<open>None\<close>: a packet without
  request); \<open>known\<close> are the requestors of the controller. \<open>front()\<close> of an empty list is undefined.
\<close>

fun lrg_scan ::
    "nat list \<Rightarrow> nat list \<Rightarrow> nat \<Rightarrow> (nat \<times> nat) list \<Rightarrow> nat option list \<Rightarrow>
     (nat option \<times> (nat \<times> nat) list \<times> nat list) res" where
  "lrg_scan known toServe k track [] = Inr (None, track, toServe)"
| "lrg_scan known toServe k track (None # q) = Inl Panic"
| "lrg_scan known toServe k track (Some r # q) =
     (if r \<in> set known then Inl Panic
      else if 0 < length toServe then Inl Panic
      else case toServe of
          [] \<Rightarrow> Inl Out_Of_Bounds
        | f # fs \<Rightarrow>
            if f = r then Inr (Some k, track, fs @ [r])
            else lrg_scan known toServe (k + 1) (if r \<in> fst ` set track then track else track @ [(r, k)]) q)"

definition lrg_selectPacket :: "nat list \<Rightarrow> nat list \<Rightarrow> nat option list \<Rightarrow> (nat option \<times> nat list) res" where
  "lrg_selectPacket known toServe q =
     rbind (lrg_scan known toServe 0 [] q) (\<lambda>(sel, track, toServe').
       Inr (case sel of Some k \<Rightarrow> Some k
            | None \<Rightarrow> (case find (\<lambda>r. r \<in> fst ` set track) toServe' of
                None \<Rightarrow> None | Some r \<Rightarrow> map_of track r), toServe'))"

definition lrg_enqueuePacket :: "nat list \<Rightarrow> nat \<Rightarrow> nat list \<Rightarrow> nat list" where
  "lrg_enqueuePacket known r toServe = (if r \<in> set known then toServe else toServe @ [r])"

end
