(* ===== verification/Qos_Safe.thy ===== *)
theory Qos_Safe
  imports Qos_Ctrl "HOL-Library.Multiset"
begin

text \<open>
  The properties of the quality-of-service part of the controller. The lemmas show that the counts stay
  those of the queues when a packet is queued, removed or escalated, that escalation ends and moves
  exactly the packets of the requestor, that a scheduling decision of a fitting policy never fails, and
  that the turnaround policy serves the highest priority with work.
\<close>

section \<open>The counts of the queues\<close>

definition of_req :: "nat \<Rightarrow> mem_packet list \<Rightarrow> nat" where
  "of_req r q = length (filter (\<lambda>k. mp_requestor k = r) q)"

definition of_addr :: "nat \<Rightarrow> addr \<Rightarrow> mem_packet list list \<Rightarrow> nat" where
  "of_addr r a qs = sum_list (map (\<lambda>q. length (filter (\<lambda>k. mp_requestor k = r \<and> mp_addr k = a) q)) qs)"

definition qos_lens :: "mem_packet list list \<Rightarrow> mem_packet list list \<Rightarrow> ('d, 'a) qos_scheme \<Rightarrow> bool" where
  "qos_lens rq wq s \<longleftrightarrow> length rq = numPriorities s \<and> length wq = numPriorities s \<and>
     length (serviceTick s) = numPriorities s \<and>
     (\<forall>r \<in> set (requestors s). length (packetPriorities s r) = numPriorities s)"

definition pkts_ok :: "nat \<Rightarrow> bool \<Rightarrow> ('d, 'a) qos_scheme \<Rightarrow> mem_packet list list \<Rightarrow> bool" where
  "pkts_ok bs rd s qs \<longleftrightarrow> (\<forall>p < length qs. \<forall>k \<in> set (qs ! p). mp_read k = rd \<and> mp_qos k = p \<and>
     0 < mp_size k \<and> mp_size k \<le> bs \<and> mp_requestor k \<in> set (requestors s))"

text \<open>
  What the controller knows of its queues is right: the sizes, the packets per requestor and
  priority, and one request time per queued packet.
\<close>

definition qos_inv :: "nat \<Rightarrow> mem_packet list list \<Rightarrow> mem_packet list list \<Rightarrow> ('d, 'a) qos_scheme \<Rightarrow> bool" where
  "qos_inv bs rq wq s \<longleftrightarrow> qos_lens rq wq s \<and> pkts_ok bs True s rq \<and> pkts_ok bs False s wq \<and>
     readQueueSizes s = map length rq \<and> writeQueueSizes s = map length wq \<and>
     totalReadQueueSize s = sum_list (map length rq) \<and> totalWriteQueueSize s = sum_list (map length wq) \<and>
     (\<forall>r \<in> set (requestors s). \<forall>p < numPriorities s.
        packetPriorities s r ! p = of_req r (rq ! p) + of_req r (wq ! p)) \<and>
     (\<forall>r a. length (requestTimes s r a) = of_addr r a rq + of_addr r a wq)"

lemma bump_at_simps [simp]:
  "length (bump_at i f xs) = length xs"
  "j < length xs \<Longrightarrow> bump_at i f xs ! j = (if i = j then f (xs ! j) else xs ! j)"
  by (simp_all add: bump_at_def nth_list_update)

lemma sum_list_map_update:
  fixes f :: "'a \<Rightarrow> 'b::comm_monoid_add"
  assumes "i < length xs"
  shows "sum_list (map f (xs[i := x])) + f (xs ! i) = sum_list (map f xs) + f x"
  using assms
proof (induction xs arbitrary: i)
  case (Cons y ys)
  then show ?case by (cases i) (auto simp: ac_simps)
qed simp

section \<open>Escalation\<close>

definition shift_to :: "nat \<Rightarrow> nat \<Rightarrow> nat \<Rightarrow> nat list \<Rightarrow> nat list" where
  "shift_to cur tgt n xs = bump_at tgt (\<lambda>m. m + n) (bump_at cur (\<lambda>m. m - n) xs)"

lemma shift_to_len [simp]: "length (shift_to cur tgt n xs) = length xs"
  by (simp add: shift_to_def)

lemma shift_to_nth [simp]:
  "p < length xs \<Longrightarrow> cur \<noteq> tgt \<Longrightarrow> shift_to cur tgt n xs ! p =
     (if p = tgt then xs ! p + n else if p = cur then xs ! p - n else xs ! p)"
  by (simp add: shift_to_def)

lemma shift_to_0 [simp]: "shift_to cur tgt 0 xs = xs"
  by (simp add: shift_to_def bump_at_def)

lemma shift_to_add [simp]: "cur \<noteq> tgt \<Longrightarrow> shift_to cur tgt n (shift_to cur tgt m xs) = shift_to cur tgt (m + n) xs"
  by (rule nth_equalityI) simp_all

text \<open>The state after \<open>n\<close> packets of requestor \<open>r\<close> have moved.\<close>

definition shifted :: "bool \<Rightarrow> nat \<Rightarrow> nat \<Rightarrow> nat \<Rightarrow> nat \<Rightarrow> ('d, 'a) qos_scheme \<Rightarrow> ('d, 'a) qos_scheme" where
  "shifted rd r cur tgt n s =
     (if rd then s\<lparr>readQueueSizes := shift_to cur tgt n (readQueueSizes s),
                  packetPriorities := (packetPriorities s)(r := shift_to cur tgt n (packetPriorities s r))\<rparr>
      else s\<lparr>writeQueueSizes := shift_to cur tgt n (writeQueueSizes s),
             packetPriorities := (packetPriorities s)(r := shift_to cur tgt n (packetPriorities s r))\<rparr>)"

lemma shifted_0 [simp]: "shifted rd r cur tgt 0 s = s"
  by (simp add: shifted_def)

lemma shifted_add: "cur \<noteq> tgt \<Longrightarrow> shifted rd r cur tgt m (shifted rd r cur tgt n s) = shifted rd r cur tgt (n + m) s"
  by (simp add: shifted_def)

lemma one_entry: "0 < sz \<Longrightarrow> sz \<le> bs \<Longrightarrow> divCeil sz bs = Inr 1"
proof -
  assume "0 < sz" "sz \<le> bs"
  then have "(sz + bs - 1) div bs = 1" by (intro div_nat_eqI) simp_all
  then show ?thesis using \<open>0 < sz\<close> \<open>sz \<le> bs\<close> by (simp add: divCeil_def)
qed

abbreviation own :: "nat \<Rightarrow> mem_packet list \<Rightarrow> mem_packet list" where
  "own r \<equiv> filter (\<lambda>k. mp_requestor k = r)"

abbreviation others :: "nat \<Rightarrow> mem_packet list \<Rightarrow> mem_packet list" where
  "others r \<equiv> filter (\<lambda>k. mp_requestor k \<noteq> r)"

abbreviation reprio :: "nat \<Rightarrow> mem_packet list \<Rightarrow> mem_packet list" where
  "reprio tgt \<equiv> map (\<lambda>k. k\<lparr>mp_qos := tgt\<rparr>)"

lemma escalate_loop_ok:
  assumes "\<forall>k \<in> set q. mp_read k = rd \<and> 0 < mp_size k \<and> mp_size k \<le> bs" and "cur \<noteq> tgt"
    and "cur < length (packetPriorities s r)" "tgt < length (packetPriorities s r)"
    and "length (packetPriorities s r) = length (readQueueSizes s)"
    and "length (packetPriorities s r) = length (writeQueueSizes s)"
    and "of_req r q \<le> packetPriorities s r ! cur"
    and "of_req r q \<le> (if rd then readQueueSizes s else writeQueueSizes s) ! cur"
  shows "escalate_loop bs r cur tgt q (kept, moved, s) =
    Inr (kept @ others r q, moved @ reprio tgt (own r q), shifted rd r cur tgt (of_req r q) s)"
  using assms
proof (induction q arbitrary: kept moved s)
  case Nil
  then show ?case by (simp add: of_req_def)
next
  case (Cons k q)
  show ?case
  proof (cases "packetPriorities s r ! cur = 0")
    case True
    then have "of_req r (k # q) = 0" using Cons.prems(7) by simp
    then have "own r (k # q) = []" "of_req r (k # q) = 0" by (simp_all add: of_req_def)
    moreover from this(1) have "others r (k # q) = k # q" unfolding filter_empty_conv by (intro filter_True) auto
    ultimately show ?thesis using True by simp
  next
    case more: False
    show ?thesis
    proof (cases "mp_requestor k = r")
      case False
      then have "of_req r (k # q) = of_req r q" by (simp add: of_req_def)
      then show ?thesis using Cons.IH[of s "kept @ [k]" moved] Cons.prems more False by simp
    next
      case True
      have n: "of_req r (k # q) = Suc (of_req r q)" using True by (simp add: of_req_def)
      have d: "divCeil (mp_size k) bs = Inr 1" using Cons.prems(1) by (simp add: one_entry)
      let ?s = "shifted rd r cur tgt 1 s"
      have "escalate_loop bs r cur tgt q (kept, moved @ [k\<lparr>mp_qos := tgt\<rparr>], ?s) =
          Inr (kept @ others r q, moved @ [k\<lparr>mp_qos := tgt\<rparr>] @ reprio tgt (own r q), shifted rd r cur tgt (of_req r q) ?s)"
      proof (subst Cons.IH)
        show "of_req r q \<le> packetPriorities ?s r ! cur" using Cons.prems n by (simp add: shifted_def)
        show "of_req r q \<le> (if rd then readQueueSizes ?s else writeQueueSizes ?s) ! cur"
          using Cons.prems n by (cases rd) (simp_all add: shifted_def)
      qed (use Cons.prems in \<open>simp_all add: shifted_def\<close>)
      moreover have "escalate_loop bs r cur tgt (k # q) (kept, moved, s) =
          escalate_loop bs r cur tgt q (kept, moved @ [k\<lparr>mp_qos := tgt\<rparr>], ?s)"
        using Cons.prems more True d n
        by (cases rd) (simp_all add: move_entries_def shifted_def shift_to_def)
      ultimately show ?thesis using True n Cons.prems(2) by (simp add: shifted_add)
    qed
  qed
qed

text \<open>One queue after the packets of \<open>r\<close> in priority \<open>cur\<close> have moved.\<close>

definition esc_step :: "nat \<Rightarrow> nat \<Rightarrow> nat \<Rightarrow> mem_packet list list \<Rightarrow> mem_packet list list" where
  "esc_step r tgt cur qs = qs[cur := others r (qs ! cur), tgt := qs ! tgt @ reprio tgt (own r (qs ! cur))]"

lemma esc_step_nth:
  assumes "cur < length qs" and "tgt < length qs" and "cur \<noteq> tgt" and "p < length qs"
  shows "esc_step r tgt cur qs ! p =
    (if p = tgt then qs ! tgt @ reprio tgt (own r (qs ! cur)) else if p = cur then others r (qs ! cur) else qs ! p)"
  using assms by (simp add: esc_step_def nth_list_update)

lemma esc_step_len [simp]: "length (esc_step r tgt cur qs) = length qs"
  by (simp add: esc_step_def)

lemma esc_step_sum:
  fixes f :: "mem_packet list \<Rightarrow> nat"
  assumes "cur < length qs" and "tgt < length qs" and "cur \<noteq> tgt"
    and app: "\<And>x y. f (x @ y) = f x + f y" and part: "\<And>q. f (others r q) + f (reprio tgt (own r q)) = f q"
  shows "sum_list (map f (esc_step r tgt cur qs)) = sum_list (map f qs)"
proof -
  let ?a = "others r (qs ! cur)" and ?b = "reprio tgt (own r (qs ! cur))"
  have "sum_list (map f (qs[cur := ?a, tgt := qs ! tgt @ ?b])) + f (qs ! tgt) =
      sum_list (map f (qs[cur := ?a])) + f (qs ! tgt @ ?b)"
    using sum_list_map_update[of tgt "qs[cur := ?a]" f] assms(1-3) by simp
  moreover have "sum_list (map f (qs[cur := ?a])) + f (qs ! cur) = sum_list (map f qs) + f ?a"
    by (rule sum_list_map_update[OF assms(1)])
  moreover have "f ?a + f ?b = f (qs ! cur)" by (rule part)
  ultimately show ?thesis by (simp add: esc_step_def app)
qed

lemma esc_step_addr:
  assumes "cur < length qs" and "tgt < length qs" and "cur \<noteq> tgt"
  shows "of_addr r' a (esc_step r tgt cur qs) = of_addr r' a qs"
  unfolding of_addr_def
proof (rule esc_step_sum[OF assms])
  show "length (filter (\<lambda>k. mp_requestor k = r' \<and> mp_addr k = a) (others r q)) +
      length (filter (\<lambda>k. mp_requestor k = r' \<and> mp_addr k = a) (reprio tgt (own r q))) =
      length (filter (\<lambda>k. mp_requestor k = r' \<and> mp_addr k = a) q)" for q
    by (induction q) auto
qed simp

lemma esc_step_length:
  assumes "cur < length qs" and "tgt < length qs" and "cur \<noteq> tgt"
  shows "sum_list (map length (esc_step r tgt cur qs)) = sum_list (map length qs)"
    "map length (esc_step r tgt cur qs) = shift_to cur tgt (of_req r (qs ! cur)) (map length qs)"
proof -
  have part: "length (others r q) + length (own r q) = length q" for q by (induction q) auto
  show "sum_list (map length (esc_step r tgt cur qs)) = sum_list (map length qs)"
    by (rule esc_step_sum[OF assms]) (simp_all add: part)
  have c: "length (others r (qs ! cur)) = length (qs ! cur) - of_req r (qs ! cur)"
    using part[of "qs ! cur"] by (simp add: of_req_def)
  show "map length (esc_step r tgt cur qs) = shift_to cur tgt (of_req r (qs ! cur)) (map length qs)"
  proof (intro nth_equalityI)
    fix p assume "p < length (map length (esc_step r tgt cur qs))"
    then have p: "p < length qs" by simp
    show "map length (esc_step r tgt cur qs) ! p = shift_to cur tgt (of_req r (qs ! cur)) (map length qs) ! p"
      using c assms p by (simp add: esc_step_nth[OF assms p] of_req_def[of r "qs ! cur"])
  qed simp
qed

lemma of_req_simps [simp]:
  "of_req r [] = 0" "of_req r (k # q) = (if mp_requestor k = r then Suc (of_req r q) else of_req r q)"
  by (simp_all add: of_req_def)

lemma of_req_append [simp]: "of_req r (x @ y) = of_req r x + of_req r y"
  by (simp add: of_req_def)

lemma of_req_others [simp]: "of_req r' (others r q) = (if r' = r then 0 else of_req r' q)"
  by (induction q) (auto split: if_splits)

lemma of_req_own [simp]: "of_req r' (reprio tgt (own r q)) = (if r' = r then of_req r q else 0)"
  by (induction q) (auto split: if_splits)

text \<open>One priority after another.\<close>

lemma esc_step_pkts:
  assumes "pkts_ok bs rd s qs" and "cur < length qs" and "tgt < length qs" and "cur \<noteq> tgt"
  shows "pkts_ok bs rd s (esc_step r tgt cur qs)"
  unfolding pkts_ok_def
proof (intro allI impI ballI)
  fix p k assume "p < length (esc_step r tgt cur qs)" and k: "k \<in> set (esc_step r tgt cur qs ! p)"
  then have p: "p < length qs" by simp
  consider k' where "p = tgt" "k = k'\<lparr>mp_qos := tgt\<rparr>" "k' \<in> set (qs ! cur)" | "k \<in> set (qs ! p)"
    using k by (auto simp: esc_step_nth[OF assms(2-4) p] split: if_splits)
  then show "mp_read k = rd \<and> mp_qos k = p \<and> 0 < mp_size k \<and> mp_size k \<le> bs \<and> mp_requestor k \<in> set (requestors s)"
    using assms(1,2) p by cases (auto simp: pkts_ok_def)
qed

definition esc_state :: "nat \<Rightarrow> nat \<Rightarrow> nat \<Rightarrow> mem_packet list list \<Rightarrow> mem_packet list list \<Rightarrow> ('d, 'a) qos_scheme \<Rightarrow>
    ('d, 'a) qos_scheme" where
  "esc_state r tgt cur rq wq s =
     shifted False r cur tgt (of_req r (wq ! cur)) (shifted True r cur tgt (of_req r (rq ! cur)) s)"

lemma qos_invD:
  assumes "qos_inv bs rq wq s"
  shows "length rq = numPriorities s" "length wq = numPriorities s" "length (serviceTick s) = numPriorities s"
    "r \<in> set (requestors s) \<Longrightarrow> length (packetPriorities s r) = numPriorities s"
    "pkts_ok bs True s rq" "pkts_ok bs False s wq"
    "readQueueSizes s = map length rq" "writeQueueSizes s = map length wq"
    "totalReadQueueSize s = sum_list (map length rq)" "totalWriteQueueSize s = sum_list (map length wq)"
    "r \<in> set (requestors s) \<Longrightarrow> p < numPriorities s \<Longrightarrow>
       packetPriorities s r ! p = of_req r (rq ! p) + of_req r (wq ! p)"
    "length (requestTimes s r a) = of_addr r a rq + of_addr r a wq"
  using assms by (simp_all add: qos_inv_def qos_lens_def)

lemma of_req_le: "of_req r q \<le> length q"
  by (induction q) simp_all

lemma esc_queue_ok:
  assumes "pkts_ok bs rd s0 qs" and "cur < length qs" and "tgt < length qs" and "cur \<noteq> tgt"
    and "length (packetPriorities s r) = length qs" "length (readQueueSizes s) = length qs"
    "length (writeQueueSizes s) = length qs" "of_req r (qs ! cur) \<le> packetPriorities s r ! cur"
    "(if rd then readQueueSizes s else writeQueueSizes s) ! cur = length (qs ! cur)"
  shows "escalateQueues bs r cur tgt (qs, s) = Inr (esc_step r tgt cur qs, shifted rd r cur tgt (of_req r (qs ! cur)) s)"
proof -
  have q: "\<forall>k \<in> set (qs ! cur). mp_read k = rd \<and> 0 < mp_size k \<and> mp_size k \<le> bs"
    using assms(1,2) by (simp add: pkts_ok_def)
  have "escalate_loop bs r cur tgt (qs ! cur) ([], [], s) =
      Inr ([] @ others r (qs ! cur), [] @ reprio tgt (own r (qs ! cur)), shifted rd r cur tgt (of_req r (qs ! cur)) s)"
    by (rule escalate_loop_ok[OF q assms(4)]) (use assms(2,3,5-9) of_req_le[of r "qs ! cur"] in simp_all)
  then show ?thesis by (simp add: escalateQueues_def esc_step_def)
qed

lemma esc_both_ok:
  assumes inv: "qos_inv bs rq wq s" and c: "cur < numPriorities s" "tgt < numPriorities s" "cur \<noteq> tgt"
    and r: "r \<in> set (requestors s)"
  shows "escalate_both bs r cur tgt (rq, wq, s) =
      Inr (esc_step r tgt cur rq, esc_step r tgt cur wq, esc_state r tgt cur rq wq s)"
proof -
  note i = qos_invD[OF inv]
  let ?s1 = "shifted True r cur tgt (of_req r (rq ! cur)) s"
  have e1: "escalateQueues bs r cur tgt (rq, s) = Inr (esc_step r tgt cur rq, ?s1)"
    by (rule esc_queue_ok[OF i(5)]) (use c r in \<open>simp_all add: i\<close>)
  have "escalateQueues bs r cur tgt (wq, ?s1) = Inr (esc_step r tgt cur wq, shifted False r cur tgt (of_req r (wq ! cur)) ?s1)"
    by (rule esc_queue_ok[OF i(6)]) (use c r in \<open>simp_all add: i shifted_def\<close>)
  then show ?thesis using e1 by (simp add: escalate_both_def esc_state_def)
qed

lemma esc_state_simps:
  assumes "qos_inv bs rq wq s" and "cur < numPriorities s" "tgt < numPriorities s" "cur \<noteq> tgt"
  shows "requestors (esc_state r tgt cur rq wq s) = requestors s"
    "numPriorities (esc_state r tgt cur rq wq s) = numPriorities s"
    "requestTimes (esc_state r tgt cur rq wq s) = requestTimes s"
    "serviceTick (esc_state r tgt cur rq wq s) = serviceTick s"
    "totalReadQueueSize (esc_state r tgt cur rq wq s) = totalReadQueueSize s"
    "totalWriteQueueSize (esc_state r tgt cur rq wq s) = totalWriteQueueSize s"
    "readQueueSizes (esc_state r tgt cur rq wq s) = map length (esc_step r tgt cur rq)"
    "writeQueueSizes (esc_state r tgt cur rq wq s) = map length (esc_step r tgt cur wq)"
    "packetPriorities (esc_state r tgt cur rq wq s) = (packetPriorities s)
       (r := shift_to cur tgt (of_req r (rq ! cur) + of_req r (wq ! cur)) (packetPriorities s r))"
  using assms(2-4) by (simp_all add: esc_state_def shifted_def esc_step_length(2) qos_invD[OF assms(1)])

lemma esc_inv:
  assumes inv: "qos_inv bs rq wq s" and c: "cur < numPriorities s" "tgt < numPriorities s" "cur \<noteq> tgt"
    and r: "r \<in> set (requestors s)"
  shows "qos_inv bs (esc_step r tgt cur rq) (esc_step r tgt cur wq) (esc_state r tgt cur rq wq s)"
proof -
  note i = qos_invD[OF inv] and st = esc_state_simps[OF inv c, of r]
  have len: "cur < length rq" "tgt < length rq" "cur < length wq" "tgt < length wq" using c by (simp_all add: i)
  let ?s = "esc_state r tgt cur rq wq s" and ?rq = "esc_step r tgt cur rq" and ?wq = "esc_step r tgt cur wq"
  have pk: "pkts_ok bs True ?s ?rq" "pkts_ok bs False ?s ?wq"
    using esc_step_pkts[OF i(5) len(1,2) c(3)] esc_step_pkts[OF i(6) len(3,4) c(3)] by (simp_all add: pkts_ok_def st(1))
  have "packetPriorities ?s r' ! p = of_req r' (?rq ! p) + of_req r' (?wq ! p)"
    if r': "r' \<in> set (requestors s)" and p: "p < numPriorities s" for r' p
  proof -
    have pl: "p < length rq" "p < length wq" using p by (simp_all add: i)
    show ?thesis
    proof (cases "r' = r")
      case True
      then show ?thesis using p c r by (simp add: st(9) i(4,11) esc_step_nth[OF len(1,2) c(3) pl(1)] esc_step_nth[OF len(3,4) c(3) pl(2)])
    next
      case False
      then show ?thesis using p r' by (simp add: st(9) i(11) esc_step_nth[OF len(1,2) c(3) pl(1)] esc_step_nth[OF len(3,4) c(3) pl(2)])
    qed
  qed
  moreover have "qos_lens ?rq ?wq ?s" by (simp add: qos_lens_def st i)
  ultimately show ?thesis
    using pk by (simp add: qos_inv_def st i(9,10,12) esc_step_length(1)[OF len(1,2) c(3)]
        esc_step_length(1)[OF len(3,4) c(3)] esc_step_addr[OF len(1,2) c(3)] esc_step_addr[OF len(3,4) c(3)])
qed

text \<open>What escalation changes of the state.\<close>

definition same_but_counts :: "('d, 'a) qos_scheme \<Rightarrow> ('d, 'a) qos_scheme \<Rightarrow> bool" where
  "same_but_counts s s' \<longleftrightarrow>
     (\<exists>a b f. s' = s\<lparr>packetPriorities := f, readQueueSizes := a, writeQueueSizes := b\<rparr>)"

lemma same_but_counts_refl [simp, intro]: "same_but_counts s s"
  unfolding same_but_counts_def
  by (rule exI[of _ "readQueueSizes s"], rule exI[of _ "writeQueueSizes s"], rule exI[of _ "packetPriorities s"]) simp

lemma same_but_counts_trans: "same_but_counts s s' \<Longrightarrow> same_but_counts s' s'' \<Longrightarrow> same_but_counts s s''"
  unfolding same_but_counts_def by (elim exE, simp only:, intro exI) simp

lemma same_but_countsD:
  assumes "same_but_counts s s'"
  shows "numPriorities s' = numPriorities s" "requestors s' = requestors s" "policy s' = policy s"
    "qosPriorityEscalation s' = qosPriorityEscalation s" "qosSyncroScheduler s' = qosSyncroScheduler s"
    "totalReadQueueSize s' = totalReadQueueSize s" "totalWriteQueueSize s' = totalWriteQueueSize s"
    "more s' = more s" "ctrl_view.truncate s' = ctrl_view.truncate s"
  using assms by (auto simp: same_but_counts_def ctrl_view.defs)

lemma esc_state_same: "same_but_counts s (esc_state r tgt cur rq wq s)"
  unfolding same_but_counts_def esc_state_def shifted_def
  by (rule exI[of _ "shift_to cur tgt (of_req r (rq ! cur)) (readQueueSizes s)"],
      rule exI[of _ "shift_to cur tgt (of_req r (wq ! cur)) (writeQueueSizes s)"],
      rule exI[of _ "(packetPriorities s)(r := shift_to cur tgt (of_req r (wq ! cur))
         (shift_to cur tgt (of_req r (rq ! cur)) (packetPriorities s r)))"]) simp

lemma esc_step_nothing:
  assumes "of_req r (qs ! cur) = 0"
  shows "esc_step r tgt cur qs = qs"
proof -
  have "own r (qs ! cur) = []" using assms by (simp add: of_req_def)
  moreover from this have "others r (qs ! cur) = qs ! cur" unfolding filter_empty_conv by (intro filter_True) auto
  ultimately show ?thesis by (simp add: esc_step_def)
qed

lemma escalate_while_ok:
  assumes inv: "qos_inv bs rq wq s" and c: "cur < numPriorities s" "tgt < numPriorities s" "cur \<noteq> tgt"
    and r: "r \<in> set (requestors s)"
  shows "escalate_while bs r cur tgt (rq, wq, s) =
    Some (Inr (esc_step r tgt cur rq, esc_step r tgt cur wq, esc_state r tgt cur rq wq s))"
proof (cases "packetPriorities s r ! cur = 0")
  case True
  then have "of_req r (rq ! cur) = 0" "of_req r (wq ! cur) = 0" using qos_invD(11)[OF inv r c(1)] by simp_all
  then show ?thesis using True by (subst escalate_while.simps) (simp add: esc_step_nothing esc_state_def)
next
  case False
  have "packetPriorities (esc_state r tgt cur rq wq s) r ! cur = 0"
    using c r by (simp add: esc_state_simps[OF inv c] qos_invD(4,11)[OF inv])
  then have "escalate_while bs r cur tgt (esc_step r tgt cur rq, esc_step r tgt cur wq, esc_state r tgt cur rq wq s) =
      Some (Inr (esc_step r tgt cur rq, esc_step r tgt cur wq, esc_state r tgt cur rq wq s))"
    by (subst escalate_while.simps) simp
  then show ?thesis using False by (subst escalate_while.simps) (simp add: esc_both_ok[OF inv c r])
qed

definition esc_all :: "nat \<Rightarrow> nat \<Rightarrow> nat list \<Rightarrow> mem_packet list list \<Rightarrow> mem_packet list list" where
  "esc_all r tgt cs qs = fold (\<lambda>cur q. if cur = tgt then q else esc_step r tgt cur q) cs qs"

lemma esc_all_simps [simp]:
  "esc_all r tgt [] qs = qs"
  "esc_all r tgt (c # cs) qs = esc_all r tgt cs (if c = tgt then qs else esc_step r tgt c qs)"
  by (simp_all add: esc_all_def)

lemma escalate_prios_ok:
  assumes "qos_inv bs rq wq s" and "\<forall>c \<in> set cs. c < numPriorities s" and "tgt < numPriorities s"
    and "r \<in> set (requestors s)"
  shows "\<exists>s'. escalate_prios bs r tgt cs (rq, wq, s) = Inr (esc_all r tgt cs rq, esc_all r tgt cs wq, s') \<and>
    qos_inv bs (esc_all r tgt cs rq) (esc_all r tgt cs wq) s' \<and> same_but_counts s s'"
  using assms
proof (induction cs arbitrary: rq wq s)
  case Nil
  then show ?case by auto
next
  case (Cons c cs)
  show ?case
  proof (cases "c = tgt")
    case True
    then show ?thesis using Cons by simp
  next
    case False
    have c: "c < numPriorities s" "tgt < numPriorities s" "c \<noteq> tgt" using Cons.prems False by simp_all
    let ?s = "esc_state r tgt c rq wq s"
    have w: "escalate_while bs r c tgt (rq, wq, s) = Some (Inr (esc_step r tgt c rq, esc_step r tgt c wq, ?s))"
      by (rule escalate_while_ok[OF Cons.prems(1) c Cons.prems(4)])
    have s: "same_but_counts s ?s" by (rule esc_state_same)
    obtain s' where "escalate_prios bs r tgt cs (esc_step r tgt c rq, esc_step r tgt c wq, ?s) =
        Inr (esc_all r tgt cs (esc_step r tgt c rq), esc_all r tgt cs (esc_step r tgt c wq), s')"
      "qos_inv bs (esc_all r tgt cs (esc_step r tgt c rq)) (esc_all r tgt cs (esc_step r tgt c wq)) s'"
      "same_but_counts ?s s'"
      using Cons.IH[OF esc_inv[OF Cons.prems(1) c Cons.prems(4)]] Cons.prems same_but_countsD[OF s] by auto
    then show ?thesis using False w same_but_counts_trans[OF s] by auto
  qed
qed

text \<open>The queues after a whole escalation: what is moved keeps its order.\<close>

definition escalated :: "nat \<Rightarrow> nat \<Rightarrow> mem_packet list list \<Rightarrow> mem_packet list list" where
  "escalated r tgt qs = map (\<lambda>p. if p = tgt
     then qs ! tgt @ reprio tgt (concat (map (\<lambda>c. own r (qs ! c)) (filter (\<lambda>c. c \<noteq> tgt) [0..<length qs])))
     else others r (qs ! p)) [0..<length qs]"

lemma esc_all_nth:
  assumes "distinct cs" and "\<forall>c \<in> set cs. c < length qs" and "tgt < length qs" and "p < length qs"
  shows "length (esc_all r tgt cs qs) = length qs"
    "esc_all r tgt cs qs ! p = (if p = tgt
       then qs ! tgt @ reprio tgt (concat (map (\<lambda>c. own r (qs ! c)) (filter (\<lambda>c. c \<noteq> tgt) cs)))
       else if p \<in> set cs then others r (qs ! p) else qs ! p)"
  using assms
proof (induction cs arbitrary: qs)
  case Nil
  { case 1 then show ?case by simp next case 2 then show ?case by simp }
next
  case (Cons c cs)
  {
    case 1
    then show ?case using Cons.IH(1) by simp
  next
    case 2
    show ?case
    proof (cases "c = tgt")
      case True
      then show ?thesis using 2 Cons.IH(2)[of qs] by simp
    next
      case False
      have n: "\<And>q. q < length qs \<Longrightarrow> esc_step r tgt c qs ! q = (if q = tgt then qs ! tgt @ reprio tgt (own r (qs ! c))
          else if q = c then others r (qs ! c) else qs ! q)"
        using 2 False by (intro esc_step_nth) simp_all
      have "map (\<lambda>c'. own r (esc_step r tgt c qs ! c')) (filter (\<lambda>c'. c' \<noteq> tgt) cs) =
          map (\<lambda>c'. own r (qs ! c')) (filter (\<lambda>c'. c' \<noteq> tgt) cs)"
        using 2(1,2) by (intro map_cong refl) (auto simp: n)
      note m = arg_cong[OF this, of concat]
      show ?thesis
      proof (cases "p = tgt")
        case True
        then show ?thesis using 2 False m Cons.IH(2)[of "esc_step r tgt c qs"] by (simp add: n)
      next
        case no: False
        then show ?thesis using 2 False Cons.IH(2)[of "esc_step r tgt c qs"] by (auto simp: n)
      qed
    qed
  }
qed

lemma esc_all_escalated: "tgt < length qs \<Longrightarrow> esc_all r tgt [0..<length qs] qs = escalated r tgt qs"
  by (rule nth_equalityI) (simp_all add: esc_all_nth escalated_def)

lemma add_requestor_inv:
  assumes "qos_inv bs rq wq s" and "r \<notin> set (requestors s)"
  shows "qos_inv bs rq wq (s\<lparr>requestors := requestors s @ [r],
    packetPriorities := (packetPriorities s)(r := replicate (numPriorities s) 0)\<rparr>)" (is "qos_inv bs rq wq ?s")
proof -
  note i = qos_invD[OF assms(1)]
  have none: "of_req r (qs ! p) = 0" if "pkts_ok bs rd s qs" "p < length qs" for qs rd p
    using that assms(2) by (auto simp: pkts_ok_def of_req_def filter_empty_conv)
  have "pkts_ok bs True ?s rq" "pkts_ok bs False ?s wq" using i(5,6) by (auto simp: pkts_ok_def)
  moreover have "packetPriorities ?s r' ! p = of_req r' (rq ! p) + of_req r' (wq ! p)"
    if "r' \<in> set (requestors ?s)" "p < numPriorities s" for r' p
    using that none[OF i(5)] none[OF i(6)] by (cases "r' = r") (simp_all add: i)
  moreover have "qos_lens rq wq ?s" by (simp add: qos_lens_def i)
  ultimately show ?thesis by (simp add: qos_inv_def i)
qed

lemma addRequestor_inv: "qos_inv bs rq wq s \<Longrightarrow> qos_inv bs rq wq (addRequestor r s)"
  by (simp add: addRequestor_def hasRequestor_def add_requestor_inv)

lemma escalate_ok:
  assumes inv: "qos_inv bs rq wq s" and t: "tgt < numPriorities s"
  obtains s' where "escalate bs r tgt (rq, wq, s) = Inr (escalated r tgt rq, escalated r tgt wq, s')"
    and "qos_inv bs (escalated r tgt rq) (escalated r tgt wq) s'" and "same_but_counts (addRequestor r s) s'"
proof -
  let ?s = "addRequestor r s"
  have a: "qos_inv bs rq wq ?s" by (rule addRequestor_inv[OF inv])
  have n: "numPriorities ?s = numPriorities s" "r \<in> set (requestors ?s)"
    by (simp_all add: addRequestor_def hasRequestor_def)
  have len: "length rq = numPriorities s" "length wq = numPriorities s" by (simp_all add: qos_invD[OF inv])
  obtain s' where s': "escalate_prios bs r tgt [0..<numPriorities s] (rq, wq, ?s) =
      Inr (esc_all r tgt [0..<numPriorities s] rq, esc_all r tgt [0..<numPriorities s] wq, s')"
    "qos_inv bs (esc_all r tgt [0..<numPriorities s] rq) (esc_all r tgt [0..<numPriorities s] wq) s'"
    "same_but_counts ?s s'"
    using escalate_prios_ok[OF a, of "[0..<numPriorities s]" tgt r] n t by auto
  have "esc_all r tgt [0..<numPriorities s] rq = escalated r tgt rq" "esc_all r tgt [0..<numPriorities s] wq = escalated r tgt wq"
    using esc_all_escalated[of tgt rq r] esc_all_escalated[of tgt wq r] t len by simp_all
  then show thesis using s' by (intro that[of s']) (simp_all add: escalate_def)
qed

section \<open>Queueing and removing a packet\<close>

definition push_pkt :: "mem_packet \<Rightarrow> mem_packet list list \<Rightarrow> mem_packet list list" where
  "push_pkt k qs = qs[mp_qos k := qs ! mp_qos k @ [k]]"

definition drop_at :: "nat \<Rightarrow> 'a list \<Rightarrow> 'a list" where
  "drop_at i xs = take i xs @ drop (Suc i) xs"

lemma push_pkt_len [simp]: "length (push_pkt k qs) = length qs"
  by (simp add: push_pkt_def)

lemma push_pkt_nth:
  "p < length qs \<Longrightarrow> push_pkt k qs ! p = (if p = mp_qos k then qs ! p @ [k] else qs ! p)"
  by (simp add: push_pkt_def nth_list_update)

lemma push_pkt_sum:
  fixes f :: "mem_packet list \<Rightarrow> nat"
  assumes "mp_qos k < length qs" and "\<And>x. f (x @ [k]) = f x + g"
  shows "sum_list (map f (push_pkt k qs)) = sum_list (map f qs) + g"
  using sum_list_map_update[OF assms(1), of f "qs ! mp_qos k @ [k]"] by (simp add: push_pkt_def assms(2))

lemma drop_at_sum:
  fixes f :: "'a list \<Rightarrow> nat"
  assumes "p < length qs" and "i < length (qs ! p)" and "\<And>x y. f (x @ y) = f x + f y"
  shows "sum_list (map f (qs[p := drop_at i (qs ! p)])) + f [qs ! p ! i] = sum_list (map f qs)"
proof -
  have "qs ! p = take i (qs ! p) @ [qs ! p ! i] @ drop (Suc i) (qs ! p)"
    using id_take_nth_drop[OF assms(2)] by simp
  then have "f (qs ! p) = f (take i (qs ! p)) + (f [qs ! p ! i] + f (drop (Suc i) (qs ! p)))"
    by (metis assms(3))
  then have "f (qs ! p) = f (drop_at i (qs ! p)) + f [qs ! p ! i]"
    by (simp add: drop_at_def assms(3))
  then show ?thesis using sum_list_map_update[OF assms(1), of f "drop_at i (qs ! p)"] by simp
qed

lemma drop_at_of_req:
  assumes "i < length q"
  shows "of_req r (drop_at i q) + (if mp_requestor (q ! i) = r then 1 else 0) = of_req r q"
proof -
  have "of_req r q = of_req r (take i q @ [q ! i] @ drop (Suc i) q)" using id_take_nth_drop[OF assms] by simp
  then show ?thesis by (simp add: drop_at_def split: if_splits)
qed

lemma drop_at_set: "set (drop_at i q) \<subseteq> set q"
  by (auto simp: drop_at_def dest: in_set_takeD in_set_dropD)

lemma drop_at_length: "i < length q \<Longrightarrow> length (drop_at i q) = length q - 1"
  by (simp add: drop_at_def)

text \<open>Everything but the counts and samples of the log.\<close>

definition same_but_log :: "('d, 'a) qos_scheme \<Rightarrow> ('d, 'a) qos_scheme \<Rightarrow> bool" where
  "same_but_log s s' \<longleftrightarrow> numPriorities s' = numPriorities s \<and> policy s' = policy s \<and>
     turnPolicy s' = turnPolicy s \<and> qosPriorityEscalation s' = qosPriorityEscalation s \<and>
     qosSyncroScheduler s' = qosSyncroScheduler s \<and> ctrl_view.truncate s' = ctrl_view.truncate s \<and>
     qos.more s' = qos.more s"

lemma same_but_log_trans: "same_but_log s s' \<Longrightarrow> same_but_log s' s'' \<Longrightarrow> same_but_log s s''"
  by (simp add: same_but_log_def)

lemma push_pkt_addr:
  "mp_qos k < length qs \<Longrightarrow> of_addr r a (push_pkt k qs) =
     of_addr r a qs + (if mp_requestor k = r \<and> mp_addr k = a then 1 else 0)"
  unfolding of_addr_def by (rule push_pkt_sum) simp_all

lemma logRequest_known:
  assumes inv: "qos_inv bs rq wq s" and k: "mp_qos k < numPriorities s" "0 < mp_size k" "mp_size k \<le> bs"
    and r: "mp_requestor k \<in> set (requestors s)"
  shows "\<exists>s'. logRequest now (if mp_read k then READ else WRITE) (mp_requestor k) (mp_qos k) (mp_addr k) 1 s = Inr s' \<and>
    qos_inv bs (if mp_read k then push_pkt k rq else rq) (if mp_read k then wq else push_pkt k wq) s' \<and>
    same_but_log s s'"
proof -
  note i = qos_invD[OF inv]
  let ?r = "mp_requestor k" and ?q = "mp_qos k" and ?a = "mp_addr k"
  define rq' where "rq' = (if mp_read k then push_pkt k rq else rq)"
  define wq' where "wq' = (if mp_read k then wq else push_pkt k wq)"
  have add: "addRequestor ?r s = s" using r by (simp add: addRequestor_def hasRequestor_def)
  obtain s' where s': "logRequest now (if mp_read k then READ else WRITE) ?r ?q ?a 1 s = Inr s'"
    "numPriorities s' = numPriorities s" "requestors s' = requestors s" "serviceTick s' = serviceTick s"
    "readQueueSizes s' = (if mp_read k then bump_at ?q Suc (readQueueSizes s) else readQueueSizes s)"
    "writeQueueSizes s' = (if mp_read k then writeQueueSizes s else bump_at ?q Suc (writeQueueSizes s))"
    "totalReadQueueSize s' = totalReadQueueSize s + (if mp_read k then 1 else 0)"
    "totalWriteQueueSize s' = totalWriteQueueSize s + (if mp_read k then 0 else 1)"
    "packetPriorities s' = (packetPriorities s)(?r := bump_at ?q Suc (packetPriorities s ?r))"
    "requestTimes s' = (requestTimes s)(?r := (requestTimes s ?r)(?a := requestTimes s ?r ?a @ [now]))"
    "same_but_log s s'"
    using i(1,2) i(4)[OF r] k(1) by (cases "mp_read k")
      (auto simp: logRequest_def add Let_def i(7,8) count_request_def same_but_log_def ctrl_view.defs)
  have len: "length rq' = numPriorities s" "length wq' = numPriorities s" by (simp_all add: rq'_def wq'_def i)
  have q: "?q < length rq" "?q < length wq" using k(1) by (simp_all add: i)
  have ok: "pkts_ok bs True s' rq'" "pkts_ok bs False s' wq'"
    using i(5,6) k r by (auto simp: pkts_ok_def rq'_def wq'_def push_pkt_nth s'(3))
  have bump: "map length (push_pkt k qs) = bump_at ?q Suc (map length qs)" if "?q < length qs" for qs
    using that by (intro nth_equalityI) (simp_all add: push_pkt_nth)
  have sz: "readQueueSizes s' = map length rq'" "writeQueueSizes s' = map length wq'"
    by (simp_all add: s'(5,6) i(7,8) rq'_def wq'_def bump q)
  have tot: "totalReadQueueSize s' = sum_list (map length rq')" "totalWriteQueueSize s' = sum_list (map length wq')"
    using push_pkt_sum[OF q(1), of length 1] push_pkt_sum[OF q(2), of length 1]
    by (simp_all add: s'(7,8) i(9,10) rq'_def wq'_def)
  have "packetPriorities s' r ! p = of_req r (rq' ! p) + of_req r (wq' ! p)"
    if "r \<in> set (requestors s')" "p < numPriorities s'" for r p
    using that i(1,2,4,11) r k(1) by (cases "mp_read k") (simp_all add: s'(2,3,9) rq'_def wq'_def push_pkt_nth)
  moreover have "length (requestTimes s' r a) = of_addr r a rq' + of_addr r a wq'" for r a
    by (simp add: s'(10) i(12) rq'_def wq'_def push_pkt_addr[OF q(1)] push_pkt_addr[OF q(2)])
  moreover have "qos_lens rq' wq' s'" by (simp add: qos_lens_def s'(2-4,9) len i(3,4))
  ultimately have "qos_inv bs rq' wq' s'" using ok sz tot by (simp add: qos_inv_def)
  then show ?thesis using s'(1,11) unfolding rq'_def wq'_def by blast
qed

lemma logRequest_addRequestor: "logRequest now dir r q a n (addRequestor r s) = logRequest now dir r q a n s"
  by (simp add: logRequest_def addRequestor_def hasRequestor_def)

lemma logRequest_ok:
  assumes inv: "qos_inv bs rq wq s" and k: "mp_qos k < numPriorities s" "0 < mp_size k" "mp_size k \<le> bs"
  obtains s' where
    "logRequest now (if mp_read k then READ else WRITE) (mp_requestor k) (mp_qos k) (mp_addr k) 1 s = Inr s'"
    "qos_inv bs (if mp_read k then push_pkt k rq else rq) (if mp_read k then wq else push_pkt k wq) s'"
    "same_but_log s s'"
proof -
  let ?s = "addRequestor (mp_requestor k) s"
  have r: "mp_requestor k \<in> set (requestors ?s)" "numPriorities ?s = numPriorities s" "same_but_log s ?s"
    by (simp_all add: addRequestor_def hasRequestor_def same_but_log_def ctrl_view.defs)
  show thesis
    using logRequest_known[OF addRequestor_inv[OF inv] _ k(2,3) r(1), of now] k(1) r(2) that
      same_but_log_trans[OF r(3)] by (auto simp: logRequest_addRequestor)
qed

lemma respond_one:
  assumes "requestTimes s r a \<noteq> []"
  obtains s' where "respond_entries 1 now r q a delay s = Inr s'" "requestors s' = requestors s"
    "serviceTick s' = serviceTick s" "readQueueSizes s' = readQueueSizes s" "writeQueueSizes s' = writeQueueSizes s"
    "totalReadQueueSize s' = totalReadQueueSize s" "totalWriteQueueSize s' = totalWriteQueueSize s"
    "packetPriorities s' = packetPriorities s"
    "requestTimes s' = (requestTimes s)(r := (requestTimes s r)(a := tl (requestTimes s r a)))" "same_but_log s s'"
proof -
  obtain t ts where t: "requestTimes s r a = t # ts" using assms by (cases "requestTimes s r a") auto
  show thesis
    by (rule that[of "sample_latency q (int now + int delay - int t)
          (s\<lparr>requestTimes := (requestTimes s)(r := (requestTimes s r)(a := ts))\<rparr>)"])
      (simp_all add: t sample_latency_def same_but_log_def ctrl_view.defs)
qed

definition drop_pkt :: "nat \<Rightarrow> nat \<Rightarrow> mem_packet list list \<Rightarrow> mem_packet list list" where
  "drop_pkt p i qs = qs[p := drop_at i (qs ! p)]"

lemma drop_pkt_len [simp]: "length (drop_pkt p i qs) = length qs"
  by (simp add: drop_pkt_def)

lemma drop_pkt_nth: "j < length qs \<Longrightarrow> drop_pkt p i qs ! j = (if j = p then drop_at i (qs ! p) else qs ! j)"
  by (simp add: drop_pkt_def nth_list_update)

lemma drop_pkt_addr:
  assumes "p < length qs" and "i < length (qs ! p)"
  shows "of_addr r a (drop_pkt p i qs) + (if mp_requestor (qs ! p ! i) = r \<and> mp_addr (qs ! p ! i) = a then 1 else 0) =
    of_addr r a qs"
  using drop_at_sum[OF assms, of "\<lambda>q. length (filter (\<lambda>x. mp_requestor x = r \<and> mp_addr x = a) q)"]
  by (cases "mp_requestor (qs ! p ! i) = r \<and> mp_addr (qs ! p ! i) = a") (simp_all add: of_addr_def drop_pkt_def)

lemma bump_sub64: "0 < xs ! p \<Longrightarrow> xs ! p < u64_size \<Longrightarrow> bump_at p (\<lambda>n. sub64 n 1) xs = bump_at p (\<lambda>n. n - 1) xs"
  by (simp add: bump_at_def sub64_le Suc_le_eq)

lemma sub64_one: "0 < x \<Longrightarrow> x < u64_size \<Longrightarrow> sub64 x 1 = x - 1"
  by (simp add: sub64_le Suc_le_eq)

lemma logResponse_ok:
  assumes inv: "qos_inv bs rq wq s" and p: "p < numPriorities s"
    and i: "i < length ((if rd then rq else wq) ! p)" and k: "k = (if rd then rq else wq) ! p ! i"
    and small: "totalReadQueueSize s + totalWriteQueueSize s < u64_size"
  obtains s' where
    "logResponse now (if rd then READ else WRITE) (mp_requestor k) p (mp_addr k) 1 delay s = Inr s'"
    "qos_inv bs (if rd then drop_pkt p i rq else rq) (if rd then wq else drop_pkt p i wq) s'"
    "same_but_log s s'"
proof -
  note I = qos_invD[OF inv]
  let ?r = "mp_requestor k" and ?a = "mp_addr k"
  define rq' where "rq' = (if rd then drop_pkt p i rq else rq)"
  define wq' where "wq' = (if rd then wq else drop_pkt p i wq)"
  have pl: "p < length rq" "p < length wq" using p by (simp_all add: I)
  have mem: "k \<in> set ((if rd then rq else wq) ! p)" using i k by simp
  have r: "?r \<in> set (requestors s)" using mem I(5,6) pl by (cases rd) (auto simp: pkts_ok_def)
  have pos: "0 < packetPriorities s ?r ! p"
  proof -
    have "0 < of_req ?r ((if rd then rq else wq) ! p)" using mem by (auto simp: of_req_def filter_empty_conv)
    then show ?thesis using I(11)[OF r p] by (cases rd) simp_all
  qed
  have sumle: "length (qs ! p) \<le> sum_list (map length qs)" if "p < length qs" for qs :: "mem_packet list list"
    using that by (intro member_le_sum_list) simp_all
  have cnt: "0 < (if rd then readQueueSizes s else writeQueueSizes s) ! p" using i pl by (cases rd) (auto simp: I(7,8))
  have tot: "0 < (if rd then totalReadQueueSize s else totalWriteQueueSize s)"
    using i pl sumle[of rq] sumle[of wq] by (cases rd) (auto simp: I(9,10))
  have sz64: "length (rq ! p) < u64_size" "length (wq ! p) < u64_size"
    using sumle[OF pl(1)] sumle[OF pl(2)] small by (simp_all add: I(9,10))
  have times: "requestTimes s ?r ?a \<noteq> []"
  proof -
    have "0 < of_addr ?r ?a (if rd then rq else wq)"
      using drop_pkt_addr[OF pl(1), of i ?r ?a] drop_pkt_addr[OF pl(2), of i ?r ?a] i k by (cases rd) simp_all
    then have "0 < length (requestTimes s ?r ?a)" unfolding I(12) by (cases rd) simp_all
    then show ?thesis by simp
  qed
  define s1 where "s1 = count_response (if rd then READ else WRITE) p 1 s"
  define s2 where "s2 = s1\<lparr>packetPriorities := (packetPriorities s1)(?r := bump_at p (\<lambda>n. sub64 n 1) (packetPriorities s1 ?r))\<rparr>"
  have pk64: "packetPriorities s ?r ! p < u64_size"
    using I(11)[OF r p] of_req_le[of ?r "rq ! p"] of_req_le[of ?r "wq ! p"] sumle[OF pl(1)] sumle[OF pl(2)] small
    by (simp add: I(9,10))
  have tot64: "totalReadQueueSize s < u64_size" "totalWriteQueueSize s < u64_size" using small by simp_all
  have f: "numPriorities s2 = numPriorities s" "requestors s2 = requestors s" "serviceTick s2 = serviceTick s"
    "readQueueSizes s2 = (if rd then bump_at p (\<lambda>n. n - 1) (readQueueSizes s) else readQueueSizes s)"
    "writeQueueSizes s2 = (if rd then writeQueueSizes s else bump_at p (\<lambda>n. n - 1) (writeQueueSizes s))"
    "totalReadQueueSize s2 = totalReadQueueSize s - (if rd then 1 else 0)"
    "totalWriteQueueSize s2 = totalWriteQueueSize s - (if rd then 0 else 1)"
    "packetPriorities s2 = (packetPriorities s)(?r := bump_at p (\<lambda>n. n - 1) (packetPriorities s ?r))"
    "requestTimes s2 = requestTimes s" "same_but_log s s2"
  proof -
    have b: "packetPriorities s1 = packetPriorities s" "bump_at p (\<lambda>n. sub64 n 1) (packetPriorities s ?r) =
        bump_at p (\<lambda>n. n - 1) (packetPriorities s ?r)"
      by (cases rd; simp add: s1_def count_response_def) (rule bump_sub64[OF pos pk64])
    have rb: "bump_at p (\<lambda>n. sub64 n 1) (readQueueSizes s) = bump_at p (\<lambda>n. n - 1) (readQueueSizes s)"
      "sub64 (totalReadQueueSize s) 1 = totalReadQueueSize s - 1" if rd
      using that cnt tot tot64 pl sz64 by (intro bump_sub64 sub64_one; simp add: I(7))+
    have wb: "bump_at p (\<lambda>n. sub64 n 1) (writeQueueSizes s) = bump_at p (\<lambda>n. n - 1) (writeQueueSizes s)"
      "sub64 (totalWriteQueueSize s) 1 = totalWriteQueueSize s - 1" if "\<not> rd"
      using that cnt tot tot64 pl sz64 by (intro bump_sub64 sub64_one; simp add: I(8))+
    show "numPriorities s2 = numPriorities s" "requestors s2 = requestors s" "serviceTick s2 = serviceTick s"
      "requestTimes s2 = requestTimes s" "same_but_log s s2"
      by (cases rd; simp add: s2_def s1_def count_response_def same_but_log_def ctrl_view.defs)+
    show "packetPriorities s2 = (packetPriorities s)(?r := bump_at p (\<lambda>n. n - 1) (packetPriorities s ?r))"
      by (simp add: s2_def b(1) b(2)[unfolded One_nat_def])
    show "readQueueSizes s2 = (if rd then bump_at p (\<lambda>n. n - 1) (readQueueSizes s) else readQueueSizes s)"
      "totalReadQueueSize s2 = totalReadQueueSize s - (if rd then 1 else 0)"
      using rb[unfolded One_nat_def] by (cases rd; simp add: s2_def s1_def count_response_def)+
    show "writeQueueSizes s2 = (if rd then writeQueueSizes s else bump_at p (\<lambda>n. n - 1) (writeQueueSizes s))"
      "totalWriteQueueSize s2 = totalWriteQueueSize s - (if rd then 0 else 1)"
      using wb[unfolded One_nat_def] by (cases rd; simp add: s2_def s1_def count_response_def)+
  qed
  obtain s' where s': "respond_entries 1 now ?r p ?a delay s2 = Inr s'" "requestors s' = requestors s2"
    "serviceTick s' = serviceTick s2" "readQueueSizes s' = readQueueSizes s2" "writeQueueSizes s' = writeQueueSizes s2"
    "totalReadQueueSize s' = totalReadQueueSize s2" "totalWriteQueueSize s' = totalWriteQueueSize s2"
    "packetPriorities s' = packetPriorities s2"
    "requestTimes s' = (requestTimes s2)(?r := (requestTimes s2 ?r)(?a := tl (requestTimes s2 ?r ?a)))" "same_but_log s2 s'"
    by (rule respond_one[of s2 ?r ?a now p delay]) (use times f(9) in simp_all)
  have run: "logResponse now (if rd then READ else WRITE) ?r p ?a 1 delay s = Inr s'"
  proof -
    have g: "hasRequestor ?r s" "packetPriorities s1 ?r ! p \<noteq> 0"
      "p < length (readQueueSizes s) \<and> p < length (writeQueueSizes s) \<and> p < length (packetPriorities s ?r)"
      using r p pos I(1,2) I(4)[OF r] by (cases rd; simp add: s1_def count_response_def hasRequestor_def I(7,8))+
    show ?thesis
      unfolding logResponse_def Let_def s1_def[symmetric] s2_def[symmetric] using g s'(1)
      by (simp only: if_True if_False not_True_eq_False simp_thms)
  qed
  have n': "numPriorities s' = numPriorities s" using s'(10) f(1) by (simp add: same_but_log_def)
  have len: "length rq' = numPriorities s" "length wq' = numPriorities s" by (simp_all add: rq'_def wq'_def I)
  have ok: "pkts_ok bs True s' rq'" "pkts_ok bs False s' wq'"
    using I(5,6) drop_at_set[of i "rq ! p"] drop_at_set[of i "wq ! p"]
    by (auto simp: pkts_ok_def rq'_def wq'_def drop_pkt_nth s'(2) f(2) split: if_splits)
  have bump: "map length (drop_pkt p i qs) = bump_at p (\<lambda>n. n - 1) (map length qs)" if "p < length qs" "i < length (qs ! p)" for qs
    using that by (intro nth_equalityI) (auto simp: drop_pkt_nth drop_at_length)
  have sz: "readQueueSizes s' = map length rq'" "writeQueueSizes s' = map length wq'"
    using i pl bump by (cases rd; simp add: s'(4,5) f(4,5) I(7,8) rq'_def wq'_def)+
  have suml: "sum_list (map length (drop_pkt p i qs)) = sum_list (map length qs) - 1"
    if "p < length qs" "i < length (qs ! p)" for qs :: "mem_packet list list"
    using drop_at_sum[OF that, of length] by (simp add: drop_pkt_def)
  have tot': "totalReadQueueSize s' = sum_list (map length rq')" "totalWriteQueueSize s' = sum_list (map length wq')"
    using i pl suml by (cases rd; simp add: s'(6,7) f(6,7) I(9,10) rq'_def wq'_def)+
  have "packetPriorities s' r' ! j = of_req r' (rq' ! j) + of_req r' (wq' ! j)"
    if r': "r' \<in> set (requestors s')" and j: "j < numPriorities s'" for r' j
  proof -
    have "of_req r' (drop_at i (rq ! p)) + (if ?r = r' then 1 else 0) = of_req r' (rq ! p)" if rd
      using drop_at_of_req[of i "rq ! p" r'] i k that by simp
    moreover have "of_req r' (drop_at i (wq ! p)) + (if ?r = r' then 1 else 0) = of_req r' (wq ! p)" if "\<not> rd"
      using drop_at_of_req[of i "wq ! p" r'] i k that by simp
    moreover have "packetPriorities s r' ! j = of_req r' (rq ! j) + of_req r' (wq ! j)"
      "length (packetPriorities s r') = numPriorities s"
      using r' j I(4,11) by (simp_all add: s'(2) f(2) n')
    ultimately show ?thesis using j pl I(1,2)
      by (cases rd; cases "j = p"; cases "?r = r'") (simp_all add: s'(8) f(8) rq'_def wq'_def drop_pkt_nth n')
  qed
  moreover have "length (requestTimes s' r' a) = of_addr r' a rq' + of_addr r' a wq'" for r' a
  proof -
    have "length (requestTimes s' r' a) + (if ?r = r' \<and> ?a = a then 1 else 0) = length (requestTimes s r' a)"
      using times by (auto simp: s'(9) f(9))
    then show ?thesis
      using drop_pkt_addr[OF pl(1), of i r' a] drop_pkt_addr[OF pl(2), of i r' a] i k I(12)[of r' a]
      by (cases rd) (simp_all add: rq'_def wq'_def)
  qed
  moreover have "qos_lens rq' wq' s'" using I(3,4) by (simp add: qos_lens_def s'(2,3,8) f(2,3,8) n' len)
  ultimately have "qos_inv bs rq' wq' s'" using ok sz tot' by (simp add: qos_inv_def)
  moreover have "same_but_log s s'" by (rule same_but_log_trans[OF f(10) s'(10)])
  ultimately show thesis using run unfolding rq'_def wq'_def by (intro that)
qed

section \<open>Scheduling with the policies\<close>

text \<open>A policy that answers with a priority of the controller.\<close>

definition policy_fits :: "nat \<Rightarrow> 'd qos_policy \<Rightarrow> bool" where
  "policy_fits n p \<longleftrightarrow>
     (case p of
        Fixed_Priority m dflt \<Rightarrow> dflt < n \<and> (\<forall>r q. m r = Some q \<longrightarrow> q < n)
      | Prop_Fair upd history \<Rightarrow> 0 < n \<and> length history \<le> n \<and> n \<le> 256)"

definition sched_ok :: "('d, 'a) qos_scheme \<Rightarrow> bool" where
  "sched_ok s \<longleftrightarrow> 0 < numPriorities s \<and> (case policy s of None \<Rightarrow> True | Some p \<Rightarrow> policy_fits (numPriorities s) p)"

lemma prop_fair_prio:
  assumes "prop_fair_schedule upd r sz h = (prio, h')"
  shows "length h' = length h" "prio = 0 \<or> prio < length h"
proof -
  let ?h = "rev (sort_key snd (rev h))"
  have h': "length h' = length h" and prio: "prio = fold (\<lambda>(i, m) pr. if fst m = r then i mod 256 else pr) (enumerate 0 ?h) 0"
    using assms by (auto simp: prop_fair_schedule_def Let_def)
  have "fold (\<lambda>(i, m) pr. if fst m = r then i mod 256 else pr) (enumerate k l) a = a \<or>
      fold (\<lambda>(i, m) pr. if fst m = r then i mod 256 else pr) (enumerate k l) a < k + length l" for k a and l :: "(nat \<times> 'a) list"
  proof (induction l arbitrary: k a)
    case (Cons x l)
    have "k mod 256 < k + length (x # l)" using mod_less_eq_dividend[of k 256] by simp
    then show ?case using Cons[of "Suc k" "k mod 256"] Cons[of "Suc k" a] by auto
  qed simp
  from this[of 0 ?h 0] show "length h' = length h" "prio = 0 \<or> prio < length h" using h' prio by simp_all
qed

lemma policy_schedule_fits:
  assumes "policy_schedule r sz p = (prio, p')" and "policy_fits n p"
  shows "policy_fits n p'" "prio < n"
proof -
  show "policy_fits n p'" "prio < n"
  proof (atomize (full), cases p)
    case (Fixed_Priority m dflt)
    then show "policy_fits n p' \<and> prio < n"
      using assms by (cases "m r") (auto simp: policy_schedule_def policy_fits_def)
  next
    case (Prop_Fair upd h)
    then obtain h' where "prop_fair_schedule upd r sz h = (prio, h')" "p' = Prop_Fair upd h'"
      using assms(1) by (auto simp: policy_schedule_def split: prod.splits)
    then show "policy_fits n p' \<and> prio < n"
      using assms(2) prop_fair_prio[of upd r sz h prio h'] Prop_Fair by (auto simp: policy_fits_def)
  qed
qed

lemma qos_schedule_ok:
  assumes "sched_ok s" and "policy s = None \<longrightarrow> d < numPriorities s"
  obtains prio p' where "qos_schedule d r sz s = (prio, s\<lparr>policy := p'\<rparr>)" "prio < numPriorities s" "sched_ok (s\<lparr>policy := p'\<rparr>)"
    "p' = None \<longleftrightarrow> policy s = None"
proof (cases "policy s")
  case None
  have "s\<lparr>policy := policy s\<rparr> = s" by simp
  then have e: "s\<lparr>policy := None\<rparr> = s" unfolding None .
  show thesis
  proof (rule that[of d None])
    show "qos_schedule d r sz s = (d, s\<lparr>policy := None\<rparr>)" unfolding e by (simp add: qos_schedule_def None)
    show "sched_ok (s\<lparr>policy := None\<rparr>)" unfolding e by (rule assms(1))
  qed (use assms None in simp_all)
next
  case (Some p)
  obtain prio p' where p': "policy_schedule r sz p = (prio, p')" by (cases "policy_schedule r sz p")
  have "policy_fits (numPriorities s) p" using assms(1) Some by (simp add: sched_ok_def)
  from policy_schedule_fits[OF p' this] show thesis
    using that[of prio "Some p'"] assms(1) Some p' by (simp add: qos_schedule_def sched_ok_def)
qed

lemma qos_inv_cong:
  assumes "qos_inv bs rq wq s" and "numPriorities s' = numPriorities s" "requestors s' = requestors s"
    "packetPriorities s' = packetPriorities s" "requestTimes s' = requestTimes s"
    "length (serviceTick s') = length (serviceTick s)"
    "readQueueSizes s' = readQueueSizes s" "writeQueueSizes s' = writeQueueSizes s"
    "totalReadQueueSize s' = totalReadQueueSize s" "totalWriteQueueSize s' = totalWriteQueueSize s"
  shows "qos_inv bs rq wq s'"
  using assms by (simp add: qos_inv_def qos_lens_def pkts_ok_def)

text \<open>The queues hold the same packets, up to their priority.\<close>

definition requeued :: "mem_packet list list \<Rightarrow> mem_packet list list \<Rightarrow> bool" where
  "requeued qs qs' \<longleftrightarrow> mset (map (\<lambda>k. k\<lparr>mp_qos := 0\<rparr>) (concat qs')) = mset (map (\<lambda>k. k\<lparr>mp_qos := 0\<rparr>) (concat qs))"

lemma requeued_refl [simp, intro]: "requeued qs qs"
  by (simp add: requeued_def)

lemma requeued_trans: "requeued qs qs' \<Longrightarrow> requeued qs' qs'' \<Longrightarrow> requeued qs qs''"
  by (simp add: requeued_def)

lemma mset_concat_update:
  assumes "i < length qs"
  shows "mset (concat (qs[i := x])) + mset (qs ! i) = mset (concat qs) + mset x"
  using sum_list_map_update[OF assms, of mset x] by (simp add: mset_concat)

lemma moved_parts:
  fixes X :: "'b multiset"
  assumes "X + c = Z + u" and "Y + t = X + (t + w)" and "u + w = c"
  shows "Y = Z"
proof -
  have "Y + (t + c) = (Y + t) + c" by (simp add: ac_simps)
  also have "\<dots> = (X + c) + (t + w)" by (simp only: assms(2) ac_simps)
  also have "\<dots> = Z + (u + w) + t" by (simp only: assms(1) ac_simps)
  also have "\<dots> = Z + (t + c)" by (simp only: assms(3) ac_simps)
  finally show ?thesis by simp
qed

lemma requeued_step:
  assumes "cur < length qs" and "tgt < length qs" and "cur \<noteq> tgt"
  shows "requeued qs (esc_step r tgt cur qs)"
proof -
  let ?z = "\<lambda>k. k\<lparr>mp_qos := 0\<rparr>" and ?Z = "map (map (\<lambda>k. k\<lparr>mp_qos := 0\<rparr>))"
  have c: "map ?z (concat qs) = concat (?Z qs)" for qs by (simp add: map_concat)
  have z: "map ?z (reprio tgt q) = map ?z q" for q by simp
  have "mset (map ?z (others r q)) + mset (map ?z (own r q)) = mset (map ?z q)" for q
    by (induction q) simp_all
  then have part: "mset (map ?z (others r (qs ! cur))) + mset (map ?z (own r (qs ! cur))) = mset (map ?z (qs ! cur))" .
  let ?q1 = "(?Z qs)[cur := map ?z (others r (qs ! cur))]"
  have 1: "mset (concat ?q1) + mset (map ?z (qs ! cur)) = mset (concat (?Z qs)) + mset (map ?z (others r (qs ! cur)))"
    using mset_concat_update[of cur "?Z qs" "map ?z (others r (qs ! cur))"] assms(1) by simp
  have 2: "mset (concat (?q1[tgt := map ?z (qs ! tgt) @ map ?z (own r (qs ! cur))])) + mset (map ?z (qs ! tgt)) =
      mset (concat ?q1) + mset (map ?z (qs ! tgt) @ map ?z (own r (qs ! cur)))"
    using mset_concat_update[of tgt ?q1 "map ?z (qs ! tgt) @ map ?z (own r (qs ! cur))"] assms by simp
  have 3: "?Z (esc_step r tgt cur qs) = ?q1[tgt := map ?z (qs ! tgt) @ map ?z (own r (qs ! cur))]"
    by (simp add: esc_step_def map_update comp_def)
  have "mset (concat (?Z (esc_step r tgt cur qs))) = mset (concat (?Z qs))"
    unfolding 3 by (rule moved_parts[OF 1 2[unfolded mset_append] part])
  then show ?thesis by (simp add: requeued_def c)
qed

lemma requeued_escalated: "tgt < length qs \<Longrightarrow> requeued qs (escalated r tgt qs)"
proof -
  assume t: "tgt < length qs"
  have "(\<forall>c \<in> set cs. c < length q) \<Longrightarrow> tgt < length q \<Longrightarrow> requeued q (esc_all r tgt cs q)" for cs q
  proof (induction cs arbitrary: q)
    case (Cons c cs)
    then show ?case using requeued_trans[OF requeued_step[of c q tgt r]] by auto
  qed simp
  then show ?thesis using esc_all_escalated[OF t, of r] t by (metis atLeastLessThan_iff set_upt)
qed

text \<open>What a scheduling decision leaves alone.\<close>

definition qos_env :: "('d, 'a) qos_scheme \<Rightarrow> ('d, 'a) qos_scheme \<Rightarrow> bool" where
  "qos_env s s' \<longleftrightarrow> numPriorities s' = numPriorities s \<and> totalReadQueueSize s' = totalReadQueueSize s \<and>
     totalWriteQueueSize s' = totalWriteQueueSize s \<and> turnPolicy s' = turnPolicy s \<and>
     qosPriorityEscalation s' = qosPriorityEscalation s \<and> qosSyncroScheduler s' = qosSyncroScheduler s \<and>
     ctrl_view.truncate s' = ctrl_view.truncate s \<and> qos.more s' = qos.more s \<and>
     (policy s' = None \<longleftrightarrow> policy s = None) \<and> (sched_ok s \<longrightarrow> sched_ok s')"

lemma qos_env_refl [simp, intro]: "qos_env s s"
  by (simp add: qos_env_def)

lemma qos_env_trans: "qos_env s s' \<Longrightarrow> qos_env s' s'' \<Longrightarrow> qos_env s s''"
  by (simp add: qos_env_def)

lemma qos_env_add: "qos_env s (addRequestor r s)"
  by (cases "hasRequestor r s") (auto simp: qos_env_def addRequestor_def sched_ok_def ctrl_view.defs split: option.splits)

lemma qos_env_counts: "same_but_counts (addRequestor r s) s' \<Longrightarrow> qos_env s s'"
  by (rule qos_env_trans[OF qos_env_add]) (auto simp: same_but_counts_def qos_env_def sched_ok_def ctrl_view.defs split: option.splits)

lemma escalate_env:
  assumes inv: "qos_inv bs rq wq s" and t: "tgt < numPriorities s"
  obtains rq' wq' s' where "escalate bs r tgt (rq, wq, s) = Inr (rq', wq', s')" "qos_inv bs rq' wq' s'"
    "requeued rq rq'" "requeued wq wq'" "qos_env s s'"
proof -
  obtain s' where s': "escalate bs r tgt (rq, wq, s) = Inr (escalated r tgt rq, escalated r tgt wq, s')"
    "qos_inv bs (escalated r tgt rq) (escalated r tgt wq) s'" "same_but_counts (addRequestor r s) s'"
    by (rule escalate_ok[OF inv t])
  have "tgt < length rq" "tgt < length wq" using t by (simp_all add: qos_invD[OF inv])
  then show thesis by (intro that[OF s'(1,2)] requeued_escalated qos_env_counts[OF s'(3)])
qed

lemma maybe_escalate:
  assumes inv: "qos_inv bs rq wq s" and t: "tgt < numPriorities s"
  obtains rq' wq' s' where
    "(if qosPriorityEscalation s then escalate bs r tgt (rq, wq, s) else Inr (rq, wq, s)) = Inr (rq', wq', s')"
    "qos_inv bs rq' wq' s'" "requeued rq rq'" "requeued wq wq'" "qos_env s s'"
proof (cases "qosPriorityEscalation s")
  case True
  obtain rq' wq' s' where "escalate bs r tgt (rq, wq, s) = Inr (rq', wq', s')" "qos_inv bs rq' wq' s'"
    "requeued rq rq'" "requeued wq wq'" "qos_env s s'"
    by (rule escalate_env[OF assms, of r], rule that)
  then show thesis using that True by simp
next
  case False
  then show thesis using that[of rq wq s] inv by simp
qed

lemma qos_schedule_env:
  assumes "qos_inv bs rq wq s" and "sched_ok s" and "policy s = None \<longrightarrow> d < numPriorities s"
  obtains prio s' where "qos_schedule d r sz s = (prio, s')" "prio < numPriorities s'" "qos_env s s'"
    "qos_inv bs rq wq s'" "requestors s' = requestors s"
proof -
  obtain prio p' where p: "qos_schedule d r sz s = (prio, s\<lparr>policy := p'\<rparr>)" "prio < numPriorities s"
    "sched_ok (s\<lparr>policy := p'\<rparr>)" "p' = None \<longleftrightarrow> policy s = None"
    by (rule qos_schedule_ok[OF assms(2,3), of r sz], rule that)
  have "qos_env s (s\<lparr>policy := p'\<rparr>)" using p(3,4) by (simp add: qos_env_def ctrl_view.defs)
  moreover have "qos_inv bs rq wq (s\<lparr>policy := p'\<rparr>)" by (rule qos_inv_cong[OF assms(1)]) simp_all
  ultimately show thesis using p(1,2) by (intro that[of prio "s\<lparr>policy := p'\<rparr>"]) simp_all
qed

lemma syncro_loop_ok:
  assumes "qos_inv bs rq wq s" and "sched_ok s"
  obtains rq' wq' s' where "syncro_loop bs r rs (rq, wq, s) = Inr (rq', wq', s')" "qos_inv bs rq' wq' s'"
    "requeued rq rq'" "requeued wq wq'" "qos_env s s'"
  using assms
proof (induction rs arbitrary: rq wq s thesis)
  case Nil
  then show ?case by simp
next
  case (Cons r' rs)
  show ?case
  proof (cases "r' = r")
    case True
    show ?thesis
      by (rule Cons.IH[OF _ Cons.prems(2,3)], rule Cons.prems(1)) (simp_all add: True)
  next
    case False
    have z: "0 < numPriorities s" using Cons.prems(3) by (simp add: sched_ok_def)
    obtain prio s1 where s1: "qos_schedule 0 r' 0 s = (prio, s1)" "prio < numPriorities s1" "qos_env s s1"
      "qos_inv bs rq wq s1"
      by (rule qos_schedule_env[OF Cons.prems(2,3) impI[OF z], of r' 0], rule that)
    obtain rq1 wq1 s2 where s2:
      "(if qosPriorityEscalation s1 then escalate bs r' prio (rq, wq, s1) else Inr (rq, wq, s1)) = Inr (rq1, wq1, s2)"
      "qos_inv bs rq1 wq1 s2" "requeued rq rq1" "requeued wq wq1" "qos_env s1 s2"
      by (rule maybe_escalate[OF s1(4,2), of r'], rule that)
    have env: "qos_env s s2" by (rule qos_env_trans[OF s1(3) s2(5)])
    then have "sched_ok s2" using Cons.prems(3) by (simp add: qos_env_def)
    then obtain rq' wq' s' where "syncro_loop bs r rs (rq1, wq1, s2) = Inr (rq', wq', s')" "qos_inv bs rq' wq' s'"
      "requeued rq1 rq'" "requeued wq1 wq'" "qos_env s2 s'"
      using Cons.IH[OF _ s2(2)] by blast
    then show ?thesis
      using s1(1) s2(1) False requeued_trans[OF s2(3)] requeued_trans[OF s2(4)] qos_env_trans[OF env]
      by (intro Cons.prems(1)[of rq' wq' s']) simp_all
  qed
qed

lemma qosSchedule_ok:
  assumes inv: "qos_inv bs rq wq s" and sch: "sched_ok s" and d: "policy s = None \<longrightarrow> d < numPriorities s"
  obtains prio rq' wq' s' where "qosSchedule bs now r sz d (rq, wq, s) = Inr (prio, rq', wq', s')"
    "prio < numPriorities s" "qos_inv bs rq' wq' s'" "requeued rq rq'" "requeued wq wq'" "qos_env s s'"
proof -
  obtain prio s1 where s1: "qos_schedule d r sz s = (prio, s1)" "prio < numPriorities s1" "qos_env s s1" "qos_inv bs rq wq s1"
    by (rule qos_schedule_env[OF assms, of r sz], rule that)
  have sch1: "sched_ok s1" using s1(3) sch by (simp add: qos_env_def)
  obtain rq1 wq1 s2 where s2: "(if qosSyncroScheduler s1 then syncro_loop bs r (requestors s1) (rq, wq, s1)
      else Inr (rq, wq, s1)) = Inr (rq1, wq1, s2)"
    "qos_inv bs rq1 wq1 s2" "requeued rq rq1" "requeued wq wq1" "qos_env s1 s2"
  proof (cases "qosSyncroScheduler s1")
    case True
    obtain rq' wq' s' where "syncro_loop bs r (requestors s1) (rq, wq, s1) = Inr (rq', wq', s')" "qos_inv bs rq' wq' s'"
      "requeued rq rq'" "requeued wq wq'" "qos_env s1 s'"
      by (rule syncro_loop_ok[OF s1(4) sch1, of r "requestors s1"], rule that)
    then show ?thesis using that True by simp
  next
    case False
    then show ?thesis using that[of rq wq s1] s1(4) by simp
  qed
  have n: "prio < numPriorities s2" using s1(2) s2(5) by (simp add: qos_env_def)
  obtain rq' wq' s3 where s3: "(if qosPriorityEscalation s2 then escalate bs r prio (rq1, wq1, s2)
      else Inr (rq1, wq1, s2)) = Inr (rq', wq', s3)"
    "qos_inv bs rq' wq' s3" "requeued rq1 rq'" "requeued wq1 wq'" "qos_env s2 s3"
    by (rule maybe_escalate[OF s2(2) n, of r], rule that)
  let ?s = "s3\<lparr>serviceTick := (serviceTick s3)[prio := now]\<rparr>"
  have "qos_inv bs rq' wq' ?s" by (rule qos_inv_cong[OF s3(2)]) simp_all
  moreover have "qos_env s3 ?s" by (simp add: qos_env_def sched_ok_def ctrl_view.defs split: option.splits)
  moreover have env: "qos_env s s3" by (rule qos_env_trans[OF s1(3) qos_env_trans[OF s2(5) s3(5)]])
  moreover have "qosSchedule bs now r sz d (rq, wq, s) = Inr (prio, rq', wq', ?s)"
    using s1(1,2) s2(1) s3(1) by (simp add: qosSchedule_def)
  moreover have "prio < numPriorities s" using s1(2,3) by (simp add: qos_env_def)
  ultimately show thesis
    using requeued_trans[OF s2(3) s3(3)] requeued_trans[OF s2(4) s3(4)] qos_env_trans[OF env] by (intro that)
qed

section \<open>Properties\<close>

text \<open>
  C19. Escalating a requestor ends, and its packets of every other priority are appended to the queues of
  the target priority in the order of the priorities and of each queue, while the packets of the other
  requestors stay where they are; the counts are again those of the queues.
\<close>

theorem escalation_moves:
  assumes "qos_inv bs rq wq s" and "tgt < numPriorities s"
  shows "\<exists>s'. escalate bs r tgt (rq, wq, s) = Inr (escalated r tgt rq, escalated r tgt wq, s') \<and>
    qos_inv bs (escalated r tgt rq) (escalated r tgt wq) s' \<and> requeued rq (escalated r tgt rq) \<and>
    requeued wq (escalated r tgt wq)"
proof -
  obtain s' where "escalate bs r tgt (rq, wq, s) = Inr (escalated r tgt rq, escalated r tgt wq, s')"
    "qos_inv bs (escalated r tgt rq) (escalated r tgt wq) s'"
    by (rule escalate_ok[OF assms])
  moreover have "tgt < length rq" "tgt < length wq" using assms(2) by (simp_all add: qos_invD[OF assms(1)])
  ultimately show ?thesis using requeued_escalated by blast
qed

text \<open>A controller with two priorities and an empty queue at each.\<close>

definition qos_start :: "'d qos_policy option \<Rightarrow> bool \<Rightarrow> bool \<Rightarrow> nat \<Rightarrow> 'd qos" where
  "qos_start p escalation syncro n = new_qos p False escalation syncro n"

lemma new_qos_inv: "qos_inv bs (replicate n []) (replicate n []) (new_qos p turn e sy n)"
  by (simp add: qos_inv_def qos_lens_def pkts_ok_def new_qos_def of_addr_def sum_list_replicate)

lemma qos_start_inv: "qos_inv bs (replicate n []) (replicate n []) (qos_start p e sy n)"
  by (simp add: qos_start_def new_qos_inv)

definition a_read :: "nat \<Rightarrow> nat \<Rightarrow> mem_packet" where
  "a_read r q = new_packet (0, 0, 0) 0 (0, r, q) True True (0, 0, 0) 0 (64 * r) 64"

theorem escalation_moves_witness:
  "\<exists>s s' q'. logRequest 5 READ 7 0 448 1 (qos_start (None :: nat qos_policy option) True False 2) = Inr s \<and>
     escalate 64 7 1 ([[a_read 7 0], []], [[], []], s) = Inr ([[], [a_read 7 1]], q', s')"
proof -
  have k: "mp_qos (a_read 7 0) < numPriorities (qos_start (None :: nat qos_policy option) True False 2)"
    "0 < mp_size (a_read 7 0)" "mp_size (a_read 7 0) \<le> 64"
    by (simp_all add: a_read_def new_packet_def qos_start_def new_qos_def)
  obtain s where s: "logRequest 5 READ 7 0 448 1 (qos_start (None :: nat qos_policy option) True False 2) = Inr s"
    "qos_inv 64 [[a_read 7 0], []] [[], []] s" "numPriorities s = 2"
  proof -
    obtain s where "logRequest 5 READ 7 0 448 1 (qos_start (None :: nat qos_policy option) True False 2) = Inr s"
      "qos_inv 64 (push_pkt (a_read 7 0) (replicate 2 [])) (replicate 2 []) s"
      "same_but_log (qos_start (None :: nat qos_policy option) True False 2) s"
      using logRequest_ok[OF qos_start_inv k, where now = 5 and thesis = thesis] by (simp add: a_read_def new_packet_def)
    then show thesis
      by (intro that[of s]) (simp_all add: push_pkt_def same_but_log_def qos_start_def new_qos_def numeral_2_eq_2 a_read_def new_packet_def)
  qed
  have t: "1 < numPriorities s" using s(3) by simp
  obtain s' where "escalate 64 7 1 ([[a_read 7 0], []], [[], []], s) =
      Inr (escalated 7 1 [[a_read 7 0], []], escalated 7 1 [[], []], s')"
    using escalation_moves[OF s(2) t, of 7] by blast
  moreover have "escalated 7 1 [[a_read 7 0], []] = [[], [a_read 7 1]]"
    by (simp add: escalated_def a_read_def new_packet_def upt_rec)
  ultimately show ?thesis using s(1) by auto
qed

text \<open>
  The ideal turnaround policy serves the highest priority that has packets: the direction it selects
  has a packet of that priority, and it turns the bus whenever both directions have one.
\<close>

theorem turnaround_serves_top:
  assumes "p < numPriorities s" and "readQueueSizes s ! p \<noteq> 0 \<or> writeQueueSizes s ! p \<noteq> 0"
    and "\<forall>j. p < j \<and> j < numPriorities s \<longrightarrow> readQueueSizes s ! j = 0 \<and> writeQueueSizes s ! j = 0"
  shows "(selectBusState s = READ \<longrightarrow> readQueueSizes s ! p \<noteq> 0) \<and>
    (selectBusState s = WRITE \<longrightarrow> writeQueueSizes s ! p \<noteq> 0) \<and>
    (readQueueSizes s ! p \<noteq> 0 \<and> writeQueueSizes s ! p \<noteq> 0 \<longrightarrow> selectBusState s \<noteq> busState s)"
proof -
  have l: "map (\<lambda>i. numPriorities s - i - 1) [0..<numPriorities s] =
      map (\<lambda>i. numPriorities s - i - 1) [0..<numPriorities s - p - 1] @ p # map (\<lambda>i. numPriorities s - i - 1) [numPriorities s - p..<numPriorities s]"
  proof -
    have "[0..<numPriorities s] = [0..<numPriorities s - p - 1] @ [numPriorities s - p - 1..<numPriorities s]"
      using upt_add_eq_append[of 0 "numPriorities s - p - 1" "p + 1"] assms(1) by simp
    also have "[numPriorities s - p - 1..<numPriorities s] = (numPriorities s - p - 1) # [numPriorities s - p..<numPriorities s]"
      using assms(1) by (simp add: upt_conv_Cons Suc_diff_Suc)
    finally show ?thesis using assms(1) by simp
  qed
  have skip: "(\<forall>j \<in> set qs. readQueueSizes s ! j = 0 \<and> writeQueueSizes s ! j = 0) \<Longrightarrow>
      turnaround_loop s (qs @ rest) = turnaround_loop s rest" for qs rest
    by (induction qs) simp_all
  have "selectBusState s = turnaround_loop s (p # map (\<lambda>i. numPriorities s - i - 1) [numPriorities s - p..<numPriorities s])"
    unfolding selectBusState_def l by (rule skip) (use assms(3) in auto)
  then show ?thesis using assms(2) by (cases "busState s") (auto simp: flip_bus_def)
qed

theorem turnaround_serves_top_witness:
  "selectBusState ((qos_start (None :: nat qos_policy option) False False 2)
     \<lparr>readQueueSizes := [1, 0], writeQueueSizes := [1, 0]\<rparr>) \<noteq> READ"
  using turnaround_serves_top[of 0 "(qos_start (None :: nat qos_policy option) False False 2)
     \<lparr>readQueueSizes := [1, 0], writeQueueSizes := [1, 0]\<rparr>"]
  by (simp add: qos_start_def new_qos_def nth_Cons')

text \<open>
  The least-recently-granted policy stops at the first packet it looks at, whatever the controller
  knows and whatever is to be served: its two checks are the wrong way round.
\<close>

theorem lrg_never_selects:
  "\<exists>e. lrg_selectPacket known toServe (pkt # q) = Inl e"
proof (cases pkt)
  case (Some r)
  then show ?thesis by (cases toServe) (auto simp: lrg_selectPacket_def)
qed (simp add: lrg_selectPacket_def)

end
