(* ===== verification/Nvm_Iface.thy ===== *)
theory Nvm_Iface
  imports Dram_Select
begin

text \<open>
  The interface to non-volatile memory (\<open>NVMInterface\<close> of \<open>mem/mem_interface.{hh,cc}\<close>): reads are issued to
  the device first and transferred once their data is ready, writes are buffered until the device has
  taken them. \<open>v\<close> is what the interface sees of the controller.
  The lemmas show that the interface counts its pending reads exactly and within the limit, that its two
  events stand at the earliest tick of their queues, and that the choice of a packet is a ready one.

  Not modelled: \<open>AbstractMemory\<close>; the histograms are the lists of their samples.
\<close>

section \<open>Model\<close>

record nvm_cfg = mem_cfg +
  maxPendingWrites :: nat
  maxPendingReads :: nat
  twoCycleRdWr :: bool
  tREAD :: tick
  tWRITE :: tick
  tSEND :: tick

text \<open>A rank is the list of its banks.\<close>

record nvm =
  nv_ranks :: "dram_bank list list"
  writeRespQueue :: "tick list"
  readReadyQueue :: "tick list"
  writeRespondEvent :: "tick option"
  readReadyEvent :: "tick option"
  nextReadAt :: tick
  numPendingReads :: nat
  numReadDataReady :: nat
  numReadsToIssue :: nat
  numWritesQueued :: nat
  nv_readBursts :: nat
  nv_writeBursts :: nat
  nv_perBankRdBursts :: "nat \<Rightarrow> nat"
  nv_perBankWrBursts :: "nat \<Rightarrow> nat"
  nv_totQLat :: nat
  nv_totBusLat :: nat
  nv_totMemAccLat :: nat
  nv_bytesRead :: nat
  nv_bytesWritten :: nat
  pendingReads :: "nat list"
  pendingWrites :: "nat list"
  bytesPerBank :: "nat list"

definition inc16 :: "nat \<Rightarrow> nat" where
  "inc16 x = (x + 1) mod 65536"

definition dec16 :: "nat \<Rightarrow> nat" where
  "dec16 x = (x + 65535) mod 65536"

text \<open>Banks of NVM have no group of their own: the group is the bank.\<close>

definition nvm_rank :: "nvm_cfg \<Rightarrow> dram_bank list" where
  "nvm_rank c = map (\<lambda>b. new_bank\<lparr>bk_bank := b mod 256, bankgr := b mod 256\<rparr>) [0..<banksPerRank c]"

definition new_nvm :: "dram_bank list list \<Rightarrow> nvm" where
  "new_nvm rs = \<lparr>nv_ranks = rs, writeRespQueue = [], readReadyQueue = [], writeRespondEvent = None,
     readReadyEvent = None, nextReadAt = 0, numPendingReads = 0, numReadDataReady = 0, numReadsToIssue = 0,
     numWritesQueued = 0, nv_readBursts = 0, nv_writeBursts = 0, nv_perBankRdBursts = (\<lambda>_. 0),
     nv_perBankWrBursts = (\<lambda>_. 0), nv_totQLat = 0, nv_totBusLat = 0, nv_totMemAccLat = 0, nv_bytesRead = 0,
     nv_bytesWritten = 0, pendingReads = [], pendingWrites = [], bytesPerBank = []\<rparr>"

text \<open>The constructor; \<open>mem_size\<close> is the size of the memory behind the interface.\<close>

definition nvm_new :: "nvm_cfg \<Rightarrow> nat \<Rightarrow> (nvm_cfg \<times> nvm) res" where
  "nvm_new c mem_size =
     (if \<not> isPowerOf2 (burstSize c) then Inl Fatal
      else if \<not> isPowerOf2 (ranksPerChannel c) then Inl Fatal
      else rbind (ceilLog2 mem_size) (\<lambda>l.
        let d = rowBufferSize c * banksPerRank c * ranksPerChannel c mod u32_size
        in rnonzero d (Inr (c\<lparr>rowsPerBank := 2 ^ l div d mod u32_size\<rparr>,
             new_nvm (replicate (ranksPerChannel c) (nvm_rank c))))))"

definition nvm_setupRank :: "bool \<Rightarrow> nvm \<Rightarrow> nvm" where
  "nvm_setupRank is_read d =
     (if is_read then d\<lparr>numReadsToIssue := inc16 (numReadsToIssue d)\<rparr>
      else d\<lparr>numWritesQueued := inc32 (numWritesQueued d)\<rparr>)"

text \<open>The virtual functions of \<open>MemInterface\<close> and the tests of \<open>mem_interface.hh\<close>.\<close>

definition nvm_writeToReadDelay :: "nvm_cfg \<Rightarrow> tick" where
  "nvm_writeToReadDelay c = tBURST c + tWTR c"

definition nvm_commandOffset :: "nvm_cfg \<Rightarrow> tick" where
  "nvm_commandOffset c = tBURST c"

definition nvm_accessLatency :: "nvm_cfg \<Rightarrow> tick" where
  "nvm_accessLatency c = tREAD c + tSEND c"

definition writeRespQueueEmpty :: "nvm \<Rightarrow> bool" where
  "writeRespQueueEmpty d = (writeRespQueue d = [])"

definition writeRespQueueFull :: "nvm_cfg \<Rightarrow> nvm \<Rightarrow> bool" where
  "writeRespQueueFull c d = (length (writeRespQueue d) = maxPendingWrites c)"

definition readsWaitingToIssue :: "nvm_cfg \<Rightarrow> nvm \<Rightarrow> bool" where
  "readsWaitingToIssue c d = (numReadsToIssue d \<noteq> 0 \<and> numPendingReads d < maxPendingReads c)"

definition nvm_burstReady :: "nvm_cfg \<Rightarrow> 'a ctrl_view_scheme \<Rightarrow> tick \<Rightarrow> nvm \<Rightarrow> mem_packet \<Rightarrow> bool" where
  "nvm_burstReady c v now d pkt =
     (mp_read pkt \<and> inReadBusState v True \<and> readyTime pkt \<le> now \<and> 0 < numReadDataReady d \<or>
      \<not> mp_read pkt \<and> \<not> inReadBusState v True \<and> \<not> writeRespQueueFull c d)"

definition nvm_isBusy :: "nvm_cfg \<Rightarrow> 'a ctrl_view_scheme \<Rightarrow> bool \<Rightarrow> bool \<Rightarrow> nvm \<Rightarrow> bool" where
  "nvm_isBusy c v read_queue_empty all_writes_nvm d =
     (if inReadBusState v True then numReadDataReady d = 0 \<and> \<not> read_queue_empty
      else writeRespQueueFull c d \<and> read_queue_empty \<and> all_writes_nvm)"

definition nvm_bank :: "nvm \<Rightarrow> mem_packet \<Rightarrow> dram_bank" where
  "nvm_bank d pkt = nv_ranks d ! mp_rank pkt ! mp_bank pkt"

definition nvm_in_range :: "nvm \<Rightarrow> mem_packet \<Rightarrow> bool" where
  "nvm_in_range d pkt \<longleftrightarrow> mp_rank pkt < length (nv_ranks d) \<and> mp_bank pkt < length (nv_ranks d ! mp_rank pkt)"

definition upd_nvm_bank :: "mem_packet \<Rightarrow> dram_bank \<Rightarrow> nvm \<Rightarrow> nvm" where
  "upd_nvm_bank pkt b d =
     d\<lparr>nv_ranks := (nv_ranks d)[mp_rank pkt := (nv_ranks d ! mp_rank pkt)[mp_bank pkt := b]]\<rparr>"

subsection \<open>Choosing a packet\<close>

text \<open>The loop: \<open>found\<close> is the prepared packet found so far, with its column tick.\<close>

fun nvm_choose_loop ::
    "nvm_cfg \<Rightarrow> 'a ctrl_view_scheme \<Rightarrow> tick \<Rightarrow> tick \<Rightarrow> nvm \<Rightarrow> mem_packet list \<Rightarrow> nat \<Rightarrow> nat option \<times> tick \<Rightarrow>
     (nat option \<times> tick) res" where
  "nvm_choose_loop c v now min_col_at d [] k found = Inr found"
| "nvm_choose_loop c v now min_col_at d (pkt # q) k found =
     (if mp_dram pkt then nvm_choose_loop c v now min_col_at d q (k + 1) found
      else rindex (nvm_in_range d pkt)
       (let col_allowed_at = col_allowed (mp_read pkt) (nvm_bank d pkt)
        in if nvm_burstReady c v now d pkt
           then if col_allowed_at \<le> min_col_at then Inr (Some k, col_allowed_at)
                else nvm_choose_loop c v now min_col_at d q (k + 1)
                       (if fst found = None then (Some k, col_allowed_at) else found)
           else nvm_choose_loop c v now min_col_at d q (k + 1) found))"

definition nvm_chooseNextFRFCFS ::
    "nvm_cfg \<Rightarrow> 'a ctrl_view_scheme \<Rightarrow> tick \<Rightarrow> nvm \<Rightarrow> mem_packet list \<Rightarrow> tick \<Rightarrow> (nat option \<times> tick) res" where
  "nvm_chooseNextFRFCFS c v now d queue min_col_at = nvm_choose_loop c v now min_col_at d queue 0 (None, MaxTick)"

subsection \<open>Issuing a read\<close>

text \<open>\<open>cmd_slot\<close>: a command of one or two cycles.\<close>

definition nvm_cmd :: "nvm_cfg \<Rightarrow> tick \<Rightarrow> bool \<Rightarrow> tick \<Rightarrow> tick multiset \<Rightarrow> (tick \<times> tick multiset) res" where
  "nvm_cmd c w two_cycle cmd_at bt =
     (if two_cycle then verifyMultiCmd w cmd_at (maxCommandsPerWindow c) (tCK c) bt
      else verifySingleCmd w cmd_at (maxCommandsPerWindow c) bt)"

text \<open>The bank of a read that is issued at \<open>cmd_at\<close>, and the bytes of the row buffer it replaces.\<close>

definition read_bank :: "nvm_cfg \<Rightarrow> tick \<Rightarrow> mem_packet \<Rightarrow> dram_bank \<Rightarrow> dram_bank \<times> nat list" where
  "read_bank c cmd_at pkt b =
     (let b1 = b\<lparr>bytesAccessed := (bytesAccessed b + burstSize c) mod u32_size\<rparr>
      in if openRow b1 \<noteq> mp_row pkt
         then (b1\<lparr>openRow := mp_row pkt, bytesAccessed := 0, actAllowedAt := max cmd_at (actAllowedAt b1) + tREAD c\<rparr>,
               [bytesAccessed b1])
         else (b1, []))"

text \<open>The read-ready event, when data will be ready at \<open>t\<close>.\<close>

definition ready_event :: "tick \<Rightarrow> tick \<Rightarrow> nvm \<Rightarrow> nvm res" where
  "ready_event now t d =
     rbind (if readReadyQueue d = [] then schedule now t (readReadyEvent d)
            else case readReadyEvent d of
                None \<Rightarrow> Inl Assert_Fail
              | Some e \<Rightarrow> if t < e then reschedule now t (readReadyEvent d) else Inr (readReadyEvent d)) (\<lambda>ev.
       Inr (d\<lparr>readReadyEvent := ev, readReadyQueue := readReadyQueue d @ [t]\<rparr>))"

definition issue_read ::
    "nvm_cfg \<Rightarrow> tick \<Rightarrow> tick \<Rightarrow> tick \<Rightarrow> mem_packet \<Rightarrow> nvm \<times> tick multiset \<Rightarrow> (mem_packet \<times> nvm \<times> tick multiset) res" where
  "issue_read c w now cmd_at pkt db =
     (case db of (d, bt) \<Rightarrow>
      let d1 = d\<lparr>numPendingReads := inc16 (numPendingReads d)\<rparr>
      in rindex (nvm_in_range d pkt)
         (rassert (numPendingReads d1 \<le> maxPendingReads c)
          (rbind (nvm_cmd c w (twoCycleRdWr c) cmd_at bt) (\<lambda>(cmd_at, bt').
           case read_bank c cmd_at pkt (nvm_bank d1 pkt) of (b, sample) \<Rightarrow>
           let d2 = (upd_nvm_bank pkt b d1)\<lparr>nextReadAt := cmd_at + tCK c, bytesPerBank := bytesPerBank d1 @ sample\<rparr>;
               t = max cmd_at (actAllowedAt b)
           in rbind (ready_event now t d2) (\<lambda>d3. Inr (pkt\<lparr>readyTime := t\<rparr>, d3, bt'))))))"

text \<open>\<open>chooseRead\<close> issues the first read of the queue that has not been issued yet.\<close>

fun choose_read_loop ::
    "nvm_cfg \<Rightarrow> tick \<Rightarrow> tick \<Rightarrow> tick \<Rightarrow> mem_packet list \<Rightarrow> nvm \<times> tick multiset \<Rightarrow>
     (mem_packet list \<times> nvm \<times> tick multiset) res" where
  "choose_read_loop c w now cmd_at [] db = Inr ([], fst db, snd db)"
| "choose_read_loop c w now cmd_at (pkt # q) db =
     (if readyTime pkt = MaxTick \<and> \<not> mp_dram pkt \<and> mp_read pkt
      then rbind (issue_read c w now cmd_at pkt db) (\<lambda>(pkt', d, bt). Inr (pkt' # q, d, bt))
      else rbind (choose_read_loop c w now cmd_at q db) (\<lambda>(q', d, bt). Inr (pkt # q', d, bt)))"

definition chooseRead ::
    "nvm_cfg \<Rightarrow> tick \<Rightarrow> tick \<Rightarrow> mem_packet list \<Rightarrow> nvm \<times> tick multiset \<Rightarrow>
     (mem_packet list \<times> nvm \<times> tick multiset) res" where
  "chooseRead c w now queue db =
     (case db of (d, bt) \<Rightarrow>
      rassert (queue \<noteq> []) (rassert (0 < numReadsToIssue d)
       (choose_read_loop c w now (max now (nextReadAt d)) queue
         (d\<lparr>numReadsToIssue := dec16 (numReadsToIssue d)\<rparr>, bt))))"

subsection \<open>Data ready\<close>

text \<open>The scan for the earliest and the second earliest tick: position of the earliest, next tick.\<close>

definition scan_ready :: "tick list \<Rightarrow> nat \<times> tick" where
  "scan_ready q = fold (\<lambda>i (ready_it, next_ready_at).
     if q ! i < q ! ready_it then (i, q ! ready_it)
     else if q ! i < next_ready_at \<and> i \<noteq> ready_it then (ready_it, q ! i)
     else (ready_it, next_ready_at)) [0..<length q] (0, MaxTick)"

definition processReadReadyEvent :: "tick \<Rightarrow> nvm \<times> ctrl_view \<Rightarrow> (nvm \<times> ctrl_view) res" where
  "processReadReadyEvent now dv =
     (case dv of (d, v) \<Rightarrow>
      case scan_ready (readReadyQueue d) of (ready_it, next_ready_at) \<Rightarrow>
      rindex (ready_it < length (readReadyQueue d))
       (rassert (readReadyQueue d ! ready_it = now)
        (let q = take ready_it (readReadyQueue d) @ drop (Suc ready_it) (readReadyQueue d);
             d1 = d\<lparr>numReadDataReady := inc16 (numReadDataReady d), readReadyQueue := q\<rparr>
         in rbind (if q \<noteq> [] then rassert (now \<le> hd q) (schedule now next_ready_at (readReadyEvent d1))
                   else Inr (readReadyEvent d1)) (\<lambda>ev.
            rbind (if requestEventScheduled v then Inr v else restartScheduler now now v) (\<lambda>v'.
              Inr (d1\<lparr>readReadyEvent := ev\<rparr>, v'))))))"

subsection \<open>Bursts\<close>

definition nvm_ranks_delay :: "nvm_cfg \<Rightarrow> mem_packet \<Rightarrow> tick \<Rightarrow> dram_bank list list \<Rightarrow> dram_bank list list" where
  "nvm_ranks_delay c pkt cmd_at rs =
     map (\<lambda>n. let rd = (if mp_rank pkt \<noteq> n then rankToRankDelay c
                        else if mp_read pkt then tBURST c else nvm_writeToReadDelay c);
                  wr = (if mp_rank pkt \<noteq> n then rankToRankDelay c
                        else if mp_read pkt then readToWriteDelay c else tBURST c)
              in map (col_delay (cmd_at + rd) (cmd_at + wr)) (rs ! n)) [0..<length rs]"

text \<open>The bank of a write whose data arrive at \<open>t\<close>.\<close>

definition write_bank :: "nvm_cfg \<Rightarrow> tick \<Rightarrow> mem_packet \<Rightarrow> dram_bank \<Rightarrow> dram_bank \<times> nat list" where
  "write_bank c t pkt b =
     (let b1 = b\<lparr>bytesAccessed := (bytesAccessed b + burstSize c) mod u32_size\<rparr>;
          (b2, sample) = (if bk_bank b1 = mp_bank pkt \<and> openRow b1 \<noteq> mp_row pkt
                          then (b1\<lparr>openRow := mp_row pkt, bytesAccessed := 0\<rparr>, [bytesAccessed b1]) else (b1, []))
      in (b2\<lparr>actAllowedAt := max t (actAllowedAt b2) + tWRITE c\<rparr>, sample))"

text \<open>The write joins the response queue, which is kept sorted; the event stands at its head.\<close>

definition queue_write :: "nvm_cfg \<Rightarrow> tick \<Rightarrow> tick \<Rightarrow> nvm \<Rightarrow> nvm res" where
  "queue_write c now t d =
     rassert (\<not> writeRespQueueFull c d)
      (rbind (if writeRespQueueEmpty d then schedule now t (writeRespondEvent d)
              else rassert (writeRespondEvent d \<noteq> None) (Inr (writeRespondEvent d))) (\<lambda>ev.
       let d1 = d\<lparr>writeRespondEvent := ev, writeRespQueue := sort (writeRespQueue d @ [t])\<rparr>
       in if t < the ev then rbind (reschedule now t ev) (\<lambda>ev'. Inr (d1\<lparr>writeRespondEvent := ev'\<rparr>))
          else Inr d1))"

definition nvm_stats :: "nvm_cfg \<Rightarrow> mem_packet \<Rightarrow> tick \<Rightarrow> nvm \<Rightarrow> nvm" where
  "nvm_stats c pkt cmd_at d =
     (if mp_read pkt
      then d\<lparr>nv_readBursts := nv_readBursts d + 1, nv_bytesRead := nv_bytesRead d + burstSize c,
             nv_perBankRdBursts := (nv_perBankRdBursts d)(mp_bankId pkt := nv_perBankRdBursts d (mp_bankId pkt) + 1),
             pendingReads := pendingReads d @ [numPendingReads d],
             nv_totMemAccLat := nv_totMemAccLat d + sub_tick (readyTime pkt) (entryTime pkt),
             nv_totBusLat := nv_totBusLat d + tBURST c,
             nv_totQLat := nv_totQLat d + sub_tick cmd_at (entryTime pkt)\<rparr>
      else d\<lparr>nv_writeBursts := nv_writeBursts d + 1, nv_bytesWritten := nv_bytesWritten d + burstSize c,
             nv_perBankWrBursts := (nv_perBankWrBursts d)(mp_bankId pkt := nv_perBankWrBursts d (mp_bankId pkt) + 1)\<rparr>)"

text \<open>The counters and queues of the access, after the bus has been reserved.\<close>

definition nvm_finish :: "nvm_cfg \<Rightarrow> tick \<Rightarrow> mem_packet \<Rightarrow> nvm \<Rightarrow> nvm res" where
  "nvm_finish c now pkt d =
     (if mp_read pkt
      then rassert (numPendingReads d \<noteq> 0) (rassert (numReadDataReady d \<noteq> 0)
        (Inr (d\<lparr>numPendingReads := dec16 (numPendingReads d), numReadDataReady := dec16 (numReadDataReady d)\<rparr>)))
      else rassert (0 < numWritesQueued d)
        (let d1 = d\<lparr>numWritesQueued := dec32 (numWritesQueued d)\<rparr>
         in case write_bank c (readyTime pkt) pkt (nvm_bank d1 pkt) of (b, sample) \<Rightarrow>
            queue_write c now (actAllowedAt b) ((upd_nvm_bank pkt b d1)\<lparr>bytesPerBank := bytesPerBank d1 @ sample\<rparr>)))"

definition nvm_doBurstAccess ::
    "nvm_cfg \<Rightarrow> tick \<Rightarrow> tick \<Rightarrow> mem_packet \<Rightarrow> tick \<Rightarrow> nvm \<times> tick multiset \<Rightarrow>
     ((tick \<times> tick) \<times> mem_packet \<times> nvm \<times> tick multiset) res" where
  "nvm_doBurstAccess c w now pkt next_burst_at db =
     (case db of (d, bt) \<Rightarrow>
      rindex (nvm_in_range d pkt)
       (let earliest = max (max (col_allowed (mp_read pkt) (nvm_bank d pkt)) now) next_burst_at
        in rbind (nvm_cmd c w (\<not> mp_read pkt \<and> twoCycleRdWr c) earliest bt) (\<lambda>(cmd_at, bt').
           let pkt' = pkt\<lparr>readyTime := cmd_at + tSEND c + tBURST c\<rparr>;
               d1 = d\<lparr>nv_ranks := nvm_ranks_delay c pkt cmd_at (nv_ranks d)\<rparr>
           in rbind (nvm_finish c now pkt' d1) (\<lambda>d2.
              Inr ((cmd_at, cmd_at + tBURST c), pkt', nvm_stats c pkt' cmd_at d2, bt')))))"

definition processWriteRespondEvent :: "tick \<Rightarrow> nvm \<times> ctrl_view \<Rightarrow> (nvm \<times> ctrl_view) res" where
  "processWriteRespondEvent now dv =
     (case dv of (d, v) \<Rightarrow>
      case writeRespQueue d of
        [] \<Rightarrow> Inl Out_Of_Bounds
      | _ # q \<Rightarrow>
          let d1 = d\<lparr>pendingWrites := pendingWrites d @ [length (writeRespQueue d)], writeRespQueue := q\<rparr>
          in rbind (if q \<noteq> [] then rassert (now \<le> hd q) (schedule now (hd q) (writeRespondEvent d1))
                    else Inr (writeRespondEvent d1)) (\<lambda>ev.
             rbind (if requestEventScheduled v then Inr v else restartScheduler now now v) (\<lambda>v'.
               Inr (d1\<lparr>writeRespondEvent := ev\<rparr>, v'))))"

definition nvm_addRankToRankDelay :: "nvm_cfg \<Rightarrow> tick \<Rightarrow> nvm \<Rightarrow> nvm" where
  "nvm_addRankToRankDelay c cmd_at d =
     d\<lparr>nv_ranks := map (map (col_delay (cmd_at + rankToRankDelay c) (cmd_at + rankToRankDelay c))) (nv_ranks d)\<rparr>"

section \<open>The scan for the earliest tick\<close>

definition scan_step :: "tick list \<Rightarrow> nat \<Rightarrow> nat \<times> tick \<Rightarrow> nat \<times> tick" where
  "scan_step q i s = (case s of (ready_it, next_ready_at) \<Rightarrow>
     if q ! i < q ! ready_it then (i, q ! ready_it)
     else if q ! i < next_ready_at \<and> i \<noteq> ready_it then (ready_it, q ! i)
     else (ready_it, next_ready_at))"

lemma scan_ready_eq: "scan_ready q = fold (scan_step q) [0..<length q] (0, MaxTick)"
  unfolding scan_ready_def scan_step_def by (intro fold_cong) auto

lemma scan_prefix:
  assumes "fold (scan_step q) [0..<Suc m] (0, MaxTick) = (r, n)" and "\<forall>t \<in> set q. t < MaxTick" and "Suc m \<le> length q"
  shows "r < Suc m \<and> (\<forall>j < Suc m. q ! r \<le> q ! j) \<and> (\<forall>j < Suc m. j \<noteq> r \<longrightarrow> n \<le> q ! j) \<and>
    (n = MaxTick \<and> m = 0 \<or> (\<exists>j < Suc m. j \<noteq> r \<and> n = q ! j))"
  using assms
proof (induction m arbitrary: r n)
  case 0
  then show ?case by (auto simp: scan_step_def)
next
  case (Suc m)
  obtain r0 n0 where p: "fold (scan_step q) [0..<Suc m] (0, MaxTick) = (r0, n0)" by fastforce
  have step: "scan_step q (Suc m) (r0, n0) = (r, n)" using Suc.prems(1) p by simp
  have i: "r0 < Suc m" "\<forall>j < Suc m. q ! r0 \<le> q ! j" "\<forall>j < Suc m. j \<noteq> r0 \<longrightarrow> n0 \<le> q ! j"
    "n0 = MaxTick \<and> m = 0 \<or> (\<exists>j < Suc m. j \<noteq> r0 \<and> n0 = q ! j)"
    using Suc.IH[OF p] Suc.prems(2,3) by simp_all
  have lt: "q ! Suc m < MaxTick" using Suc.prems(2,3) by simp
  consider (new) "q ! Suc m < q ! r0" "r = Suc m" "n = q ! r0"
    | (second) "\<not> q ! Suc m < q ! r0" "q ! Suc m < n0" "r = r0" "n = q ! Suc m"
    | (other) "\<not> q ! Suc m < q ! r0" "n0 \<le> q ! Suc m" "r = r0" "n = n0"
    using step i(1) by (auto simp: scan_step_def split: if_splits)
  then show ?case
  proof cases
    case new
    have le: "q ! Suc m \<le> q ! j" if "j < Suc m" for j
      using new(1) i(2) that by (meson le_trans less_imp_le)
    then show ?thesis using new i(1,2) by (auto simp: less_Suc_eq_le le_Suc_eq)
  next
    case second
    have le: "q ! Suc m \<le> q ! j" if "j < Suc m" "j \<noteq> r0" for j
      using second(2) i(3) that by (meson le_trans less_imp_le)
    then have "\<forall>j < Suc (Suc m). j \<noteq> r \<longrightarrow> n \<le> q ! j" unfolding second(3,4) by (metis less_SucE order_refl)
    moreover have "\<forall>j < Suc (Suc m). q ! r \<le> q ! j"
      unfolding second(3) using i(2) second(1) by (metis less_SucE not_less)
    moreover have "Suc m \<noteq> r" using second(3) i(1) by simp
    ultimately show ?thesis using second(3,4) i(1) by (intro conjI) (auto intro: exI[of _ "Suc m"])
  next
    case other
    then show ?thesis using i lt by (auto simp: less_Suc_eq)
  qed
qed

lemma scan_ready_min:
  assumes "q \<noteq> []" and "\<forall>t \<in> set q. t < MaxTick"
  obtains r n where "scan_ready q = (r, n)" "r < length q" "q ! r = Min (set q)"
    "take r q @ drop (Suc r) q \<noteq> [] \<longrightarrow> n = Min (set (take r q @ drop (Suc r) q))"
proof -
  obtain m where m: "length q = Suc m" using assms(1) by (cases q) auto
  obtain r n where rn: "scan_ready q = (r, n)" by fastforce
  then have s: "r < length q" "\<forall>j < length q. q ! r \<le> q ! j" "\<forall>j < length q. j \<noteq> r \<longrightarrow> n \<le> q ! j"
    "n = MaxTick \<and> m = 0 \<or> (\<exists>j < length q. j \<noteq> r \<and> n = q ! j)"
    using scan_prefix[of q m r n] assms(2) m by (simp_all add: scan_ready_eq)
  have "q ! r = Min (set q)" using s(1,2) by (intro Min_eqI[symmetric]) (auto simp: in_set_conv_nth)
  moreover have "n = Min (set (take r q @ drop (Suc r) q))" if ne: "take r q @ drop (Suc r) q \<noteq> []"
  proof -
    have st: "set (take r q @ drop (Suc r) q) = {q ! j |j. j < length q \<and> j \<noteq> r}"
    proof (intro equalityI subsetI)
      fix x assume "x \<in> set (take r q @ drop (Suc r) q)"
      then consider j where "j < r" "x = q ! j" | j where "Suc r + j < length q" "x = q ! (Suc r + j)"
        using s(1) by (auto simp: in_set_conv_nth) (metis add_Suc less_diff_conv add.commute)
      then show "x \<in> {q ! j |j. j < length q \<and> j \<noteq> r}"
      proof cases
        case (1 j) then show ?thesis using s(1) by (intro CollectI exI[of _ j]) simp
      next
        case (2 j) then show ?thesis by (intro CollectI exI[of _ "Suc r + j"]) simp
      qed
    next
      fix x assume "x \<in> {q ! j |j. j < length q \<and> j \<noteq> r}"
      then obtain j where j: "x = q ! j" "j < length q" "j \<noteq> r" by blast
      show "x \<in> set (take r q @ drop (Suc r) q)"
      proof (cases "j < r")
        case True
        then have "take r q ! j = x" "j < length (take r q)" using j s(1) by simp_all
        then show ?thesis by (metis UnI1 nth_mem set_append)
      next
        case False
        then have "drop (Suc r) q ! (j - Suc r) = x" "j - Suc r < length (drop (Suc r) q)" using j by simp_all
        then show ?thesis by (metis UnI2 nth_mem set_append)
      qed
    qed
    have "set (take r q @ drop (Suc r) q) \<noteq> {}" unfolding set_empty by (rule ne)
    then obtain j where "j < length q" "j \<noteq> r" unfolding st by blast
    then have "m \<noteq> 0" using s(1) m by auto
    then have "\<exists>j < length q. j \<noteq> r \<and> n = q ! j" using s(4) by simp
    then show ?thesis unfolding st using s(3) by (intro Min_eqI[symmetric]) auto
  qed
  ultimately show thesis using rn s(1) by (intro that[of r n]) simp_all
qed

section \<open>The pending reads and writes\<close>

text \<open>
  A read that has been issued waits for its data or has it ready; the events stand at the earliest ticks;
  the writes on their way are sorted and within the limit.
\<close>

definition event_at_min :: "tick option \<Rightarrow> tick list \<Rightarrow> bool" where
  "event_at_min ev q \<longleftrightarrow> ev = (if q = [] then None else Some (Min (set q)))"

definition nvm_ok :: "nvm_cfg \<Rightarrow> nvm \<Rightarrow> bool" where
  "nvm_ok c d \<longleftrightarrow> numPendingReads d = length (readReadyQueue d) + numReadDataReady d \<and>
     numPendingReads d \<le> maxPendingReads c \<and> event_at_min (readReadyEvent d) (readReadyQueue d) \<and>
     sorted (writeRespQueue d) \<and> event_at_min (writeRespondEvent d) (writeRespQueue d) \<and>
     length (writeRespQueue d) \<le> maxPendingWrites c"

lemma sorted_hd_Min: "sorted q \<Longrightarrow> q \<noteq> [] \<Longrightarrow> Min (set q) = hd q"
  by (cases q) (auto intro: Min_eqI)

lemma Min_snoc: "q \<noteq> [] \<Longrightarrow> Min (set (q @ [t])) = min (Min (set q)) t"
  by (simp add: min.commute)

lemma ready_event_ok:
  assumes "event_at_min (readReadyEvent d) (readReadyQueue d)" and "now \<le> t"
  shows "ready_event now t d = Inr (d\<lparr>readReadyEvent := Some (Min (set (readReadyQueue d @ [t]))),
    readReadyQueue := readReadyQueue d @ [t]\<rparr>)"
proof (cases "readReadyQueue d = []")
  case True
  then show ?thesis using assms by (simp add: ready_event_def event_at_min_def schedule_def)
next
  case False
  define m where "m = Min (set (readReadyQueue d))"
  have e: "readReadyEvent d = Some m" and n: "Min (set (readReadyQueue d @ [t])) = min m t"
    using assms(1) False Min_snoc[OF False, of t] by (simp_all add: event_at_min_def m_def)
  show ?thesis unfolding n using False e assms(2) by (auto simp: ready_event_def reschedule_def min_def)
qed

lemma nvm_cmd_ok:
  assumes "0 < w" and "0 < maxCommandsPerWindow c"
  obtains cmd_at bt' where "nvm_cmd c w two t bt = Inr (cmd_at, bt')" "t \<le> cmd_at"
  using verifySingle_total[OF assms, of t bt] verifyMulti_total[OF assms, of t "tCK c" bt]
  by (cases two) (auto simp: nvm_cmd_def)

lemma nvm_cmd_ge: "nvm_cmd c w two t bt = Inr (cmd_at, bt') \<Longrightarrow> t \<le> cmd_at"
  by (auto simp: nvm_cmd_def dest: verifySingle_ge verifyMulti_ge split: if_splits)

lemma upd_nvm_bank_ok [simp]: "nvm_ok c (upd_nvm_bank pkt b d) = nvm_ok c d"
  by (simp add: nvm_ok_def upd_nvm_bank_def)

lemma inc16_noov: "x + 1 < 65536 \<Longrightarrow> inc16 x = x + 1"
  by (simp add: inc16_def)

lemma dec16_pos: "0 < x \<Longrightarrow> x < 65536 \<Longrightarrow> dec16 x = x - 1"
  by (cases x) (simp_all add: dec16_def)

lemma issue_read_ok:
  assumes ok: "nvm_ok c d" and lim: "maxPendingReads c < 65535"
    and run: "issue_read c w now cmd_at pkt (d, bt) = Inr (pkt', d', bt')" and now: "now \<le> cmd_at"
  shows "nvm_ok c d'"
proof -
  let ?d1 = "d\<lparr>numPendingReads := inc16 (numPendingReads d)\<rparr>"
  obtain cmd bt1 where cmd: "nvm_cmd c w (twoCycleRdWr c) cmd_at bt = Inr (cmd, bt1)"
    and r: "nvm_in_range d pkt" "inc16 (numPendingReads d) \<le> maxPendingReads c"
    using run by (auto simp: issue_read_def Let_def rbind_Inr_iff split: if_splits)
  obtain b sm where b: "read_bank c cmd pkt (nvm_bank ?d1 pkt) = (b, sm)" by fastforce
  let ?t = "max cmd (actAllowedAt b)"
  let ?d2 = "(upd_nvm_bank pkt b ?d1)\<lparr>nextReadAt := cmd + tCK c, bytesPerBank := bytesPerBank ?d1 @ sm\<rparr>"
  have e: "ready_event now ?t ?d2 = Inr d'"
    using run cmd r b by (auto simp: issue_read_def Let_def rbind_Inr_iff split: if_splits)
  have t: "now \<le> ?t" using nvm_cmd_ge[OF cmd] now by simp
  have ev: "event_at_min (readReadyEvent ?d2) (readReadyQueue ?d2)" using ok by (simp add: nvm_ok_def upd_nvm_bank_def)
  have "numPendingReads d \<noteq> 65535" using r(2) ok lim by (auto simp: nvm_ok_def)
  then have "inc16 (numPendingReads d) = numPendingReads d + 1" using ok lim by (intro inc16_noov) (auto simp: nvm_ok_def)
  then show ?thesis
    using ready_event_ok[OF ev t] e ok r(2) by (auto simp: nvm_ok_def upd_nvm_bank_def event_at_min_def)
qed

lemma choose_read_loop_ok:
  assumes "nvm_ok c d" and "maxPendingReads c < 65535" and "now \<le> cmd_at"
    and "choose_read_loop c w now cmd_at q (d, bt) = Inr (q', d', bt')"
  shows "nvm_ok c d'"
  using assms(4)
proof (induction q arbitrary: q')
  case Nil
  then show ?case using assms(1) by simp
next
  case (Cons pkt q)
  show ?case
  proof (cases "readyTime pkt = MaxTick \<and> \<not> mp_dram pkt \<and> mp_read pkt")
    case True
    then obtain pkt' where "issue_read c w now cmd_at pkt (d, bt) = Inr (pkt', d', bt')"
      using Cons.prems by (auto simp: rbind_Inr_iff)
    then show ?thesis by (rule issue_read_ok[OF assms(1,2) _ assms(3)])
  next
    case False
    have "choose_read_loop c w now cmd_at (pkt # q) (d, bt) =
        rbind (choose_read_loop c w now cmd_at q (d, bt)) (\<lambda>(q', d, bt). Inr (pkt # q', d, bt))"
      using False by auto
    then obtain q1 where "choose_read_loop c w now cmd_at q (d, bt) = Inr (q1, d', bt')"
      using Cons.prems by (auto simp: rbind_Inr_iff)
    then show ?thesis by (rule Cons.IH)
  qed
qed

lemma chooseRead_ok:
  assumes "nvm_ok c d" and "maxPendingReads c < 65535" and "chooseRead c w now queue (d, bt) = Inr (q', d', bt')"
  shows "nvm_ok c d'"
proof -
  have ok: "nvm_ok c (d\<lparr>numReadsToIssue := dec16 (numReadsToIssue d)\<rparr>)" using assms(1) by (simp add: nvm_ok_def)
  have "choose_read_loop c w now (max now (nextReadAt d)) queue
      (d\<lparr>numReadsToIssue := dec16 (numReadsToIssue d)\<rparr>, bt) = Inr (q', d', bt')"
    using assms(3) by (auto simp: chooseRead_def split: if_splits)
  from choose_read_loop_ok[OF ok assms(2) _ this] show ?thesis by simp
qed

text \<open>The two handlers: at the tick of their event they succeed.\<close>

definition restarted :: "tick \<Rightarrow> ctrl_view \<Rightarrow> ctrl_view" where
  "restarted now v = (if requestEventScheduled v then v else v\<lparr>nextReqEvent := Some now\<rparr>)"

lemma restart_ok:
  "(if requestEventScheduled v then Inr v else restartScheduler now now v) = Inr (restarted now v)"
  "requestEventScheduled (restarted now v)"
  by (auto simp: restartScheduler_def requestEventScheduled_def schedule_def restarted_def)

lemma read_ready_ok:
  assumes ok: "nvm_ok c d" and lim: "maxPendingReads c < 65535" and ev: "readReadyEvent d = Some now"
    and small: "\<forall>t \<in> set (readReadyQueue d). t < MaxTick"
  obtains d' v' where "processReadReadyEvent now (d\<lparr>readReadyEvent := None\<rparr>, v) = Inr (d', v')" "nvm_ok c d'"
    "numReadDataReady d' = numReadDataReady d + 1" "requestEventScheduled v'" "writeRespQueue d' = writeRespQueue d"
    "mset (readReadyQueue d') + {#now#} = mset (readReadyQueue d)"
proof -
  let ?q = "readReadyQueue d"
  have q: "?q \<noteq> []" "now = Min (set ?q)" using ok ev by (auto simp: nvm_ok_def event_at_min_def split: if_splits)
  obtain r n where rn: "scan_ready ?q = (r, n)" "r < length ?q" "?q ! r = Min (set ?q)"
    "take r ?q @ drop (Suc r) ?q \<noteq> [] \<longrightarrow> n = Min (set (take r ?q @ drop (Suc r) ?q))"
    by (rule scan_ready_min[OF q(1) small])
  let ?q' = "take r ?q @ drop (Suc r) ?q"
  have ms: "mset ?q' + {#now#} = mset ?q"
    using id_take_nth_drop[OF rn(2)] rn(3) q(2) by (metis add.assoc add_mset_add_single mset.simps(2) mset_append union_commute union_mset_add_mset_right)
  then have len: "length ?q' + 1 = length ?q" by (metis size_mset size_single size_union)
  have sub: "set ?q' \<subseteq> set ?q" by (auto dest: in_set_takeD in_set_dropD)
  then have ge: "\<forall>t \<in> set ?q'. now \<le> t" using q(2) by auto
  let ?ev = "if ?q' = [] then None else Some (Min (set ?q'))"
  let ?d' = "d\<lparr>numReadDataReady := numReadDataReady d + 1, readReadyQueue := ?q', readReadyEvent := ?ev\<rparr>"
  have "numReadDataReady d + 1 < 65536" using ok lim len by (auto simp: nvm_ok_def)
  then have i: "inc16 (numReadDataReady d) = numReadDataReady d + 1" by (rule inc16_noov)
  have m: "?q ! r = now" using rn(3) q(2) by simp
  have "processReadReadyEvent now (d\<lparr>readReadyEvent := None\<rparr>, v) = Inr (?d', restarted now v)"
  proof (cases "?q' = []")
    case True
    then show ?thesis using rn(1,2) m i by (simp add: processReadReadyEvent_def Let_def restart_ok del: append_is_Nil_conv)
  next
    case False
    have n: "n = Min (set ?q')" using rn(4) False by blast
    then have "n \<in> set ?q'" using False by (metis Min_in List.finite_set set_empty)
    then have "now \<le> n" "now \<le> hd ?q'" using ge hd_in_set[OF False] by blast+
    note n this
    then show ?thesis using rn(1,2) m i False n
      by (simp add: processReadReadyEvent_def Let_def restart_ok schedule_def del: append_is_Nil_conv set_append)
  qed
  moreover have "nvm_ok c ?d'" using ok len by (auto simp: nvm_ok_def event_at_min_def)
  ultimately show thesis using ms restart_ok(2) by (intro that[of ?d' "restarted now v"]) simp_all
qed

lemma write_respond_ok:
  assumes ok: "nvm_ok c d" and ev: "writeRespondEvent d = Some now"
  obtains d' v' where "processWriteRespondEvent now (d\<lparr>writeRespondEvent := None\<rparr>, v) = Inr (d', v')" "nvm_ok c d'"
    "writeRespQueue d = now # writeRespQueue d'" "requestEventScheduled v'"
proof -
  have "writeRespQueue d \<noteq> []" using ok ev by (auto simp: nvm_ok_def event_at_min_def split: if_splits)
  then obtain t q where q: "writeRespQueue d = t # q" by (cases "writeRespQueue d") auto
  have s: "sorted (t # q)" using ok q by (simp add: nvm_ok_def)
  have t: "t = now" using ok ev sorted_hd_Min[OF s] q by (simp add: nvm_ok_def event_at_min_def)
  let ?d' = "d\<lparr>pendingWrites := pendingWrites d @ [length (writeRespQueue d)], writeRespQueue := q,
    writeRespondEvent := (if q = [] then None else Some (hd q))\<rparr>"
  have "processWriteRespondEvent now (d\<lparr>writeRespondEvent := None\<rparr>, v) = Inr (?d', restarted now v)"
  proof (cases q)
    case Nil
    then show ?thesis using q by (simp add: processWriteRespondEvent_def Let_def restart_ok)
  next
    case (Cons u q1)
    then have "now \<le> u" using s t by simp
    then show ?thesis using q Cons by (simp add: processWriteRespondEvent_def Let_def schedule_def restart_ok)
  qed
  moreover have "nvm_ok c ?d'" using ok s q sorted_hd_Min[of q] by (auto simp: nvm_ok_def event_at_min_def)
  ultimately show thesis using q t restart_ok(2) by (intro that[of ?d' "restarted now v"]) simp_all
qed

lemma write_bank_simps: "fst (write_bank c t pkt b) = b' \<Longrightarrow> t \<le> actAllowedAt b'"
  by (auto simp: write_bank_def Let_def split: prod.splits if_splits)

lemma queue_write_ok:
  assumes ok: "nvm_ok c d" and now: "now \<le> t" and room: "length (writeRespQueue d) < maxPendingWrites c"
  obtains d' where "queue_write c now t d = Inr d'" "nvm_ok c d'" "writeRespQueue d' = sort (writeRespQueue d @ [t])"
    "numWritesQueued d' = numWritesQueued d"
proof -
  let ?q = "writeRespQueue d"
  have full: "\<not> writeRespQueueFull c d" using room by (simp add: writeRespQueueFull_def)
  let ?d1 = "\<lambda>ev. d\<lparr>writeRespondEvent := Some ev, writeRespQueue := sort (?q @ [t])\<rparr>"
  have "length (sort (?q @ [t])) = length ?q + 1" by simp
  then have ne: "sort (?q @ [t]) \<noteq> []" by (metis Suc_eq_plus1 list.size(3) nat.distinct(1))
  then have ok': "nvm_ok c (?d1 (Min (set (?q @ [t]))))"
    using ok room by (simp add: nvm_ok_def event_at_min_def)
  show thesis
  proof (cases "?q = []")
    case True
    then have "queue_write c now t d = Inr (?d1 t)"
      using ok now full by (simp add: queue_write_def writeRespQueueEmpty_def nvm_ok_def event_at_min_def schedule_def Let_def)
    then show ?thesis using ok' True by (intro that[of "?d1 t"]) simp_all
  next
    case False
    define m where "m = Min (set ?q)"
    have e: "writeRespondEvent d = Some m" and n: "Min (set (?q @ [t])) = min m t"
      using ok False Min_snoc[OF False, of t] by (simp_all add: nvm_ok_def event_at_min_def m_def)
    have "queue_write c now t d = Inr (?d1 (min m t))"
      using now full False e
      by (auto simp: queue_write_def writeRespQueueEmpty_def reschedule_def Let_def min_def)
    then show ?thesis using ok'[unfolded n] by (intro that[of "?d1 (min m t)"]) simp_all
  qed
qed

lemma nvm_finish_ok:
  assumes ok: "nvm_ok c d" and lim: "maxPendingReads c < 65535" and now: "now \<le> readyTime pkt"
    and run: "nvm_finish c now pkt d = Inr d'"
  shows "nvm_ok c d'"
proof (cases "mp_read pkt")
  case True
  then have pos: "numPendingReads d \<noteq> 0" "numReadDataReady d \<noteq> 0"
    and d': "d' = d\<lparr>numPendingReads := dec16 (numPendingReads d), numReadDataReady := dec16 (numReadDataReady d)\<rparr>"
    using run by (auto simp: nvm_finish_def split: if_splits)
  have "dec16 (numPendingReads d) = numPendingReads d - 1" "dec16 (numReadDataReady d) = numReadDataReady d - 1"
    using pos ok lim dec16_pos[of "numPendingReads d"] dec16_pos[of "numReadDataReady d"] by (auto simp: nvm_ok_def)
  then show ?thesis using ok pos by (auto simp: d' nvm_ok_def)
next
  case False
  let ?d1 = "d\<lparr>numWritesQueued := dec32 (numWritesQueued d)\<rparr>"
  obtain b sm where b: "write_bank c (readyTime pkt) pkt (nvm_bank ?d1 pkt) = (b, sm)" by fastforce
  let ?d2 = "(upd_nvm_bank pkt b ?d1)\<lparr>bytesPerBank := bytesPerBank ?d1 @ sm\<rparr>"
  have q: "queue_write c now (actAllowedAt b) ?d2 = Inr d'"
    using run False b by (auto simp: nvm_finish_def Let_def split: if_splits)
  have ok2: "nvm_ok c ?d2" using ok by (simp add: nvm_ok_def upd_nvm_bank_def)
  have "readyTime pkt \<le> actAllowedAt b" using write_bank_simps[of c "readyTime pkt" pkt "nvm_bank ?d1 pkt" b] b by simp
  then have t: "now \<le> actAllowedAt b" using now by simp
  have "\<not> writeRespQueueFull c ?d2" using q by (auto simp: queue_write_def split: if_splits)
  then have "length (writeRespQueue ?d2) < maxPendingWrites c" using ok2 by (auto simp: writeRespQueueFull_def nvm_ok_def)
  from queue_write_ok[OF ok2 t this] q show ?thesis by auto
qed

lemma nvm_burst_ok:
  assumes ok: "nvm_ok c d" and lim: "maxPendingReads c < 65535"
    and run: "nvm_doBurstAccess c w now pkt next_at (d, bt) = Inr (cb, pkt', d', bt')"
  shows "nvm_ok c d'" "now \<le> fst cb" "next_at \<le> fst cb" "snd cb = fst cb + tBURST c"
    "pkt' = pkt\<lparr>readyTime := fst cb + tSEND c + tBURST c\<rparr>"
proof -
  let ?e = "max (max (col_allowed (mp_read pkt) (nvm_bank d pkt)) now) next_at"
  obtain cmd bt1 d2 where cmd: "nvm_cmd c w (\<not> mp_read pkt \<and> twoCycleRdWr c) ?e bt = Inr (cmd, bt1)"
    and f: "nvm_finish c now (pkt\<lparr>readyTime := cmd + tSEND c + tBURST c\<rparr>)
      (d\<lparr>nv_ranks := nvm_ranks_delay c pkt cmd (nv_ranks d)\<rparr>) = Inr d2"
    and r: "cb = (cmd, cmd + tBURST c)" "pkt' = pkt\<lparr>readyTime := cmd + tSEND c + tBURST c\<rparr>" "d' = nvm_stats c pkt' cmd d2"
    using run by (auto simp: nvm_doBurstAccess_def Let_def rbind_Inr_iff split: if_splits)
  have ge: "?e \<le> cmd" by (rule nvm_cmd_ge[OF cmd])
  have "nvm_ok c (d\<lparr>nv_ranks := nvm_ranks_delay c pkt cmd (nv_ranks d)\<rparr>)" using ok by (simp add: nvm_ok_def)
  from nvm_finish_ok[OF this lim _ f] ge have "nvm_ok c d2" by simp
  then show "nvm_ok c d'" by (simp add: r(3) nvm_stats_def nvm_ok_def)
  show "now \<le> fst cb" "next_at \<le> fst cb" "snd cb = fst cb + tBURST c" "pkt' = pkt\<lparr>readyTime := fst cb + tSEND c + tBURST c\<rparr>"
    using ge by (simp_all add: r)
qed

text \<open>The states that the operations and events of the interface lead to.\<close>

inductive nvm_reach :: "nvm_cfg \<Rightarrow> nvm \<Rightarrow> bool" for c where
  start: "nvm_reach c (new_nvm rs)"
| add_entry: "nvm_reach c d \<Longrightarrow> nvm_reach c (nvm_setupRank rd d)"
| issue: "nvm_reach c d \<Longrightarrow> chooseRead c w now queue (d, bt) = Inr (q', d', bt') \<Longrightarrow> nvm_reach c d'"
| data: "nvm_reach c d \<Longrightarrow> readReadyEvent d = Some now \<Longrightarrow> \<forall>t \<in> set (readReadyQueue d). t < MaxTick \<Longrightarrow>
    processReadReadyEvent now (d\<lparr>readReadyEvent := None\<rparr>, v) = Inr (d', v') \<Longrightarrow> nvm_reach c d'"
| burst: "nvm_reach c d \<Longrightarrow> nvm_doBurstAccess c w now pkt next_at (d, bt) = Inr (cb, pkt', d', bt') \<Longrightarrow> nvm_reach c d'"
| written: "nvm_reach c d \<Longrightarrow> writeRespondEvent d = Some now \<Longrightarrow>
    processWriteRespondEvent now (d\<lparr>writeRespondEvent := None\<rparr>, v) = Inr (d', v') \<Longrightarrow> nvm_reach c d'"
| switch: "nvm_reach c d \<Longrightarrow> nvm_reach c (nvm_addRankToRankDelay c cmd_at d)"

lemma nvm_reach_ok: "nvm_reach c d \<Longrightarrow> maxPendingReads c < 65535 \<Longrightarrow> nvm_ok c d"
proof (induction rule: nvm_reach.induct)
  case (start rs)
  then show ?case by (simp add: nvm_ok_def new_nvm_def event_at_min_def)
next
  case (add_entry d rd)
  then show ?case by (simp add: nvm_ok_def nvm_setupRank_def)
next
  case (issue d w now queue bt q' d' bt')
  then show ?case using chooseRead_ok by blast
next
  case (data d now v d' v')
  obtain d1 v1 where "processReadReadyEvent now (d\<lparr>readReadyEvent := None\<rparr>, v) = Inr (d1, v1)" "nvm_ok c d1"
    by (rule read_ready_ok[OF data.IH[OF data.prems] data.prems data.hyps(2,3), of v], rule that)
  then show ?case using data.hyps(4) by simp
next
  case (burst d w now pkt next_at bt cb pkt' d' bt')
  then show ?case using nvm_burst_ok(1) by blast
next
  case (written d now v d' v')
  obtain d1 v1 where "processWriteRespondEvent now (d\<lparr>writeRespondEvent := None\<rparr>, v) = Inr (d1, v1)" "nvm_ok c d1"
    by (rule write_respond_ok[OF written.IH[OF written.prems] written.hyps(2), of v], rule that)
  then show ?case using written.hyps(3) by simp
next
  case (switch d cmd_at)
  then show ?case by (simp add: nvm_ok_def nvm_addRankToRankDelay_def)
qed

section \<open>The choice of a packet\<close>

definition nvm_ready :: "nvm_cfg \<Rightarrow> 'a ctrl_view_scheme \<Rightarrow> tick \<Rightarrow> nvm \<Rightarrow> mem_packet \<Rightarrow> bool" where
  "nvm_ready c v now d pkt \<longleftrightarrow> \<not> mp_dram pkt \<and> nvm_burstReady c v now d pkt"

definition nvm_col :: "nvm \<Rightarrow> mem_packet \<Rightarrow> tick" where
  "nvm_col d pkt = col_allowed (mp_read pkt) (nvm_bank d pkt)"

text \<open>The reference: the first ready packet without delay on the bus, else the first ready packet.\<close>

definition nvm_choice :: "nvm_cfg \<Rightarrow> 'a ctrl_view_scheme \<Rightarrow> tick \<Rightarrow> nvm \<Rightarrow> mem_packet list \<Rightarrow> tick \<Rightarrow> nat option" where
  "nvm_choice c v now d queue min_col_at =
     or_else (first_ix (\<lambda>p. nvm_ready c v now d p \<and> nvm_col d p \<le> min_col_at) queue)
       (first_ix (nvm_ready c v now d) queue)"

definition nvm_with_col :: "nvm \<Rightarrow> mem_packet list \<Rightarrow> nat option \<Rightarrow> nat option \<times> tick" where
  "nvm_with_col d queue x = (x, case x of None \<Rightarrow> MaxTick | Some k \<Rightarrow> nvm_col d (queue ! k))"

lemma nvm_choose_loop_eq:
  assumes "\<forall>p \<in> set q. \<not> mp_dram p \<longrightarrow> nvm_in_range d p"
  shows "nvm_choose_loop c v now m d q k found = Inr
    (case first_ix (\<lambda>p. nvm_ready c v now d p \<and> nvm_col d p \<le> m) q of
       Some i \<Rightarrow> (Some (k + i), nvm_col d (q ! i))
     | None \<Rightarrow> if fst found \<noteq> None then found
         else case first_ix (nvm_ready c v now d) q of Some i \<Rightarrow> (Some (k + i), nvm_col d (q ! i)) | None \<Rightarrow> found)"
  using assms
proof (induction q arbitrary: k found)
  case (Cons p q)
  then show ?case
    by (auto simp: nvm_ready_def nvm_col_def Let_def split: option.splits)
qed simp

lemma nvm_choose_eq:
  assumes "\<forall>p \<in> set queue. \<not> mp_dram p \<longrightarrow> nvm_in_range d p"
  shows "nvm_chooseNextFRFCFS c v now d queue m = Inr (nvm_with_col d queue (nvm_choice c v now d queue m))"
  unfolding nvm_chooseNextFRFCFS_def nvm_choose_loop_eq[OF assms]
  by (auto simp: nvm_choice_def nvm_with_col_def or_else_def split: option.splits)

section \<open>Properties\<close>

text \<open>
  C20. In every reachable state of the NVM interface the pending reads are exactly those whose data is
  awaited or ready, and within the limit; the writes on their way are sorted and within theirs; both
  events stand at the earliest tick of their queues, and the handlers succeed at those ticks. (The limit
  of reads must leave room in the 16-bit counter.)
\<close>

theorem nvm_pending_counted:
  assumes "nvm_reach c d" and "maxPendingReads c < 65535"
  shows "nvm_ok c d \<and>
    (\<forall>now v. readReadyEvent d = Some now \<longrightarrow> (\<forall>t \<in> set (readReadyQueue d). t < MaxTick) \<longrightarrow>
       (\<exists>d' v'. processReadReadyEvent now (d\<lparr>readReadyEvent := None\<rparr>, v) = Inr (d', v') \<and>
          numReadDataReady d' = numReadDataReady d + 1)) \<and>
    (\<forall>now v. writeRespondEvent d = Some now \<longrightarrow>
       (\<exists>d' v'. processWriteRespondEvent now (d\<lparr>writeRespondEvent := None\<rparr>, v) = Inr (d', v') \<and>
          writeRespQueue d = now # writeRespQueue d'))"
proof -
  have ok: "nvm_ok c d" by (rule nvm_reach_ok[OF assms])
  show ?thesis
    using ok read_ready_ok[OF ok assms(2)] write_respond_ok[OF ok] by (metis (no_types, lifting))
qed

text \<open>An instance: one rank of four banks.\<close>

definition nvm_2400 :: nvm_cfg where
  "nvm_2400 =
     \<lparr>addrMapping = RoRaBaChCo, burstSize = 64, burstsPerRowBuffer = 4, burstsPerStripe = 1,
      ranksPerChannel = 1, banksPerRank = 4, rowsPerBank = 65536, maxCommandsPerWindow = 12,
      deviceSize = 536870912, devicesPerRank = 1, rowBufferSize = 256, tCK = 833, tCS = 1666, tBURST = 3332,
      tRTW = 1666, tWTR = 5000, readBufferSize = 64, writeBufferSize = 128, maxPendingWrites = 128,
      maxPendingReads = 64, twoCycleRdWr = False, tREAD = 150000, tWRITE = 500000, tSEND = 14160\<rparr>"

definition nvm_read :: mem_packet where
  "nvm_read = (new_packet (0, 0, 0) 0 (0, 0, 0) True False (0, 0, 5) 0 0 64)\<lparr>readyTime := MaxTick\<rparr>"

theorem nvm_pending_counted_witness:
  "\<exists>q d bt. chooseRead nvm_2400 10000 0 [nvm_read] (nvm_setupRank True (new_nvm [nvm_rank nvm_2400]), {#}) = Inr (q, d, bt) \<and>
     numPendingReads d = 1 \<and> nvm_ok nvm_2400 d"
proof -
  let ?d = "nvm_setupRank True (new_nvm [nvm_rank nvm_2400])"
  have e: "verifySingleCmd 10000 0 12 {#} = Inr (0, {#0#})"
    by (simp add: verifySingleCmd_def getBurstWindow_def single_slot.simps)
  have run: "\<exists>q d bt. chooseRead nvm_2400 10000 0 [nvm_read] (?d, {#}) = Inr (q, d, bt) \<and> numPendingReads d = 1"
    by (simp add: chooseRead_def issue_read_def nvm_cmd_def e nvm_setupRank_def new_nvm_def nvm_read_def
        new_packet_def nvm_2400_def nvm_in_range_def nvm_rank_def inc16_def dec16_def read_bank_def nvm_bank_def
        upd_nvm_bank_def ready_event_def schedule_def new_bank_def NO_ROW_def Let_def)
  then obtain q d bt where r: "chooseRead nvm_2400 10000 0 [nvm_read] (?d, {#}) = Inr (q, d, bt)" "numPendingReads d = 1" by blast
  have "nvm_reach nvm_2400 d" by (rule nvm_reach.issue[OF nvm_reach.add_entry[OF nvm_reach.start] r(1)])
  moreover have "maxPendingReads nvm_2400 < 65535" by (simp add: nvm_2400_def)
  ultimately have "nvm_ok nvm_2400 d" by (rule nvm_pending_counted[THEN conjunct1])
  then show ?thesis using r by blast
qed

end
