(* ===== verification/RH_Config.thy ===== *)
theory RH_Config
  imports Row_Swap_Safe Row_Quar Block_Hammer Dram_Rank
begin

text \<open>
  The Rowhammer defense as the memory controller uses it (\<open>mem/mem_ctrl.cc\<close>): its construction from the
  parameters, the call of the virtual method \<open>access\<close>, what a decision does to a memory packet, and
  the copy of its statistics.
  The lemmas show that the tables of the row swap are sized for the activations a bank can have in one
  refresh window.

  \<open>rh_junk\<close> holds what the constructors of the defenses do not initialise, and the values of \<open>rand()\<close>.
\<close>

section \<open>Model\<close>

datatype defense =
    RRS "misra_gries rrs"
  | RQ "misra_gries rq"
  | BH "misra_gries bh"

record rh_params =
  rh_mitigation :: string
  rh_actual_threshold :: nat
  rh_rq_qr_size :: nat
  rh_rrs_swap_delay :: tick
  rh_rit_acc_delay :: tick
  rh_rq_virtualize_rit :: bool
  rh_rq_rows_per_btv_bit :: nat
  rh_rq_cache_sets :: nat
  rh_rq_drain_threshold :: nat
  rh_bh_black_list_threshold :: nat

record rh_junk =
  junk_rrs :: "misra_gries rh_mitigation"
  junk_rq :: "misra_gries rq"
  junk_bh :: "misra_gries bh"
  junk_tracker :: "bank_ix \<Rightarrow> tracker"
  junk_factor :: nat
  junk_rand :: "nat \<Rightarrow> nat"

text \<open>\<open>delay_ps_cacti\<close>, indexed by the size of an SRAM table; an access outside it is undefined.\<close>

definition delay_ps_cacti :: "nat list" where
  "delay_ps_cacti = [136, 167, 227, 316, 431, 628]"

definition cacti_delay :: "nat \<Rightarrow> tick res" where
  "cacti_delay i = rindex (i < length delay_ps_cacti) (Inr (delay_ps_cacti ! i))"

abbreviation on_dram :: "dram_cfg option \<Rightarrow> (dram_cfg \<Rightarrow> 'a res) \<Rightarrow> 'a res" where
  "on_dram c k \<equiv> (case c of None \<Rightarrow> Inl Null_Deref | Some d \<Rightarrow> k d)"

text \<open>
  Each mitigation with its detector. A row swap is sized by the activations of a window: 1.36 million per
  bank are \<open>1360000 / threshold\<close> rows that reach the threshold.
\<close>

definition new_rrs :: "rh_params \<Rightarrow> rh_junk \<Rightarrow> dram_cfg option \<Rightarrow> defense res" where
  "new_rrs p j dram =
     (let rh_threshold = rh_actual_threshold p div 6 in
      rnonzero rh_threshold
       (let rh_mg_entries = 1360000 div rh_threshold; rh_rrs_tuples = 2 * rh_mg_entries in
        on_dram dram (\<lambda>c.
          Inr (RRS ((rrs_new (junk_rrs j) rh_rrs_tuples (rowsPerBank c) rh_threshold (banksPerRank c)
                       (ranksPerChannel c) 1 (junk_rand j))
            \<lparr>swapDelay := rh_rrs_swap_delay p, virtualize_RIT := False, SRAM_RIT_accDelay := rh_rit_acc_delay p,
             detector := mg_new (junk_tracker j) rh_mg_entries rh_threshold (rowsPerBank c) (banksPerRank c)
               (ranksPerChannel c) 1\<rparr>)))))"

definition new_rq :: "rh_params \<Rightarrow> rh_junk \<Rightarrow> dram_cfg option \<Rightarrow> defense res" where
  "new_rq p j dram =
     (let rh_threshold = rh_actual_threshold p div 2 in
      rnonzero rh_threshold
       (let rh_mg_entries = 1360000 div rh_threshold in
        on_dram dram (\<lambda>c.
          rbind (cacti_delay (rh_rq_cache_sets p div 256)) (\<lambda>cache_delay.
          rnonzero (rh_rq_rows_per_btv_bit p)
           (rbind (if 32 div rh_rq_rows_per_btv_bit p = 0 then Inl Out_Of_Bounds
                   else rbind (floorLog2 (32 div rh_rq_rows_per_btv_bit p)) cacti_delay) (\<lambda>cbf_delay.
            let s = (rq_new (junk_rq j) (rh_rq_qr_size p) (rowsPerBank c) rh_threshold (banksPerRank c)
                       (ranksPerChannel c) 1 (junk_rand j))
                     \<lparr>rq_filter := None,
                      rq_cache := Some ((fc_new (junk_factor j) (rh_rq_cache_sets p) 16)
                        \<lparr>partial_lookup_factor := rh_rq_rows_per_btv_bit p\<rparr>),
                      moveDelay := rh_rrs_swap_delay p div 2, accDelay := 45000,
                      rows_per_btv_bit := rh_rq_rows_per_btv_bit p,
                      drain_cache_miss_threshold := rh_rq_drain_threshold p,
                      SRAM_Cache_accDelay := cache_delay, SRAM_CBF_accDelay := cbf_delay,
                      virtualize_RIT := rh_rq_virtualize_rit p\<rparr>;
                s1 = (if \<not> rh_rq_virtualize_rit p
                      then s\<lparr>SRAM_RQT_accDelay := rh_rit_acc_delay p, SRAM_QRT_accDelay := 0,
                             SRAM_Cache_accDelay := 0, SRAM_CBF_accDelay := 0\<rparr>
                      else s)
            in Inr (RQ (s1\<lparr>detector := mg_new (junk_tracker j) rh_mg_entries rh_threshold (rowsPerBank c)
                 (banksPerRank c) (ranksPerChannel c) 1\<rparr>))))))))"

definition new_bh :: "rh_params \<Rightarrow> rh_junk \<Rightarrow> dram_cfg option \<Rightarrow> defense res" where
  "new_bh p j dram =
     (let rh_threshold = rh_actual_threshold p div 2;
          black_list_threshold = rh_threshold * rh_bh_black_list_threshold p mod u32_size div 100
      in on_dram dram (\<lambda>c.
          Inr (BH ((bh_new (junk_bh j) rh_threshold (rowsPerBank c) black_list_threshold (banksPerRank c)
                      (ranksPerChannel c) 1)
            \<lparr>SRAM_CBF_accDelay := rh_rit_acc_delay p\<rparr>))))"

text \<open>Any name but the two of the other defenses gives BlockHammer.\<close>

definition new_defense :: "rh_params \<Rightarrow> rh_junk \<Rightarrow> dram_cfg option \<Rightarrow> defense res" where
  "new_defense p j dram =
     (if rh_mitigation p = ''RRS'' then new_rrs p j dram
      else if rh_mitigation p = ''RQ'' then new_rq p j dram
      else new_bh p j dram)"

text \<open>The virtual method, and the call of the controller for a packet that enters a queue.\<close>

definition rh_access :: "tick \<Rightarrow> addr \<Rightarrow> nat \<Rightarrow> nat \<Rightarrow> nat \<Rightarrow> defense \<Rightarrow> (decision \<times> defense) res" where
  "rh_access now rowID bankID rankID chID d =
     (case d of
        RRS s \<Rightarrow> rbind (rrs_access mg_ops now rowID bankID rankID chID s) (\<lambda>(dec, s'). Inr (dec, RRS s'))
      | RQ s \<Rightarrow> rbind (rq_access mg_ops now rowID s) (\<lambda>(dec, s'). Inr (dec, RQ s'))
      | BH s \<Rightarrow> rbind (bh_access now rowID bankID s) (\<lambda>(dec, s'). Inr (dec, BH s')))"

definition rh_decide :: "string \<Rightarrow> tick \<Rightarrow> mem_packet \<Rightarrow> defense \<Rightarrow> (decision \<times> defense) res" where
  "rh_decide mitigation now pkt d =
     (if mitigation = ''RRS'' \<or> mitigation = ''BH''
      then rh_access now (mp_row pkt) (mp_bank pkt) (mp_rank pkt) 0 d
      else rh_access now (mp_addr pkt) 0 0 0 d)"

definition defend :: "bool \<Rightarrow> string \<Rightarrow> tick \<Rightarrow> mem_packet \<times> defense option \<Rightarrow> (mem_packet \<times> defense option) res" where
  "defend enabled mitigation now pd =
     (case pd of (pkt, rh_defense) \<Rightarrow>
      if \<not> enabled then Inr (pkt, rh_defense)
      else case rh_defense of
          None \<Rightarrow> Inl Null_Deref
        | Some d \<Rightarrow> rbind (rh_decide mitigation now pkt d) (\<lambda>(dec, d').
            Inr (pkt\<lparr>rh_injectDelay := True, rh_bubbleSize := d_delay dec,
                     rh_SRAMDelay := d_SRAM_delay dec + d_MC_delay dec\<rparr>, Some d')))"

text \<open>The bubble before a burst: a delay of 7.8 us or more counts for 7 us.\<close>

definition rh_bubble :: "bool \<Rightarrow> mem_packet \<Rightarrow> tick" where
  "rh_bubble enabled pkt =
     (if enabled \<and> rh_injectDelay pkt \<and> 0 < rh_bubbleSize pkt
      then if 7800 * 1000 \<le> rh_bubbleSize pkt then 7000 * 1000 else rh_bubbleSize pkt
      else 0)"

definition defense_stats :: "defense \<Rightarrow> rh_stats" where
  "defense_stats d = (case d of RRS s \<Rightarrow> rh_stats s | RQ s \<Rightarrow> rh_stats s | BH s \<Rightarrow> rh_stats s)"

subsection \<open>The statistics of the controller\<close>

record rh_copy =
  rh_rrs_remapped_row_accessed :: nat
  rh_rrs_clean_install :: nat
  rh_rrs_only_unswap :: nat
  rh_rrs_clean_reswap :: nat
  rh_rrs_dirty_reswap :: nat
  rh_rrs_num_resets :: nat
  rh_rrs_num_accesses :: nat
  rh_rrs_rand_row_gen_failed :: nat
  rh_move_to_qr :: nat
  rh_move_within_qr :: nat
  rh_move_to_qr_remove :: nat
  rh_move_within_qr_remove :: nat
  rh_drain_qr :: nat
  rh_num_access_to_row :: "nat list"   \<comment> \<open>\<open>rh_num_access_to_row_1, _10, _100, _1000\<close>\<close>
  rh_num_access_over_rh :: nat
  rh_btv_occupancy :: "nat list"       \<comment> \<open>\<open>rh_btv_occupancy_0\<close> to \<open>_3\<close>\<close>
  rh_cbf_true_pos :: nat
  rh_cbf_false_pos :: nat
  rh_cbf_true_neg :: nat
  rh_btv_true_pos :: nat
  rh_btv_false_pos :: nat
  rh_btv_true_neg :: nat
  rh_cache_hit :: nat
  rh_cache_partial_hit_orr_set :: nat
  rh_cache_partial_hit_orr_unset :: nat
  rh_cache_miss :: nat
  rh_cache_miss_entry_inserts :: nat
  rh_cache_miss_line_entry_inserts :: nat
  rh_cache_clean_evicts :: nat
  rh_cache_dirty_evicts :: nat
  rh_rq_occupancy :: nat

definition copy_common :: "nat \<Rightarrow> rh_stats \<Rightarrow> rh_copy \<Rightarrow> rh_copy" where
  "copy_common eff_resets st out =
     out\<lparr>rh_rrs_remapped_row_accessed := s_remapped_row_accessed st, rh_rrs_clean_install := s_clean_install st,
         rh_rrs_only_unswap := s_only_unswap st, rh_rrs_clean_reswap := s_clean_reswap st,
         rh_rrs_dirty_reswap := s_dirty_reswap st, rh_rrs_num_resets := s_num_resets st,
         rh_rrs_num_accesses := s_num_accesses st, rh_rrs_rand_row_gen_failed := s_randRowGenerationFailed st,
         rh_move_to_qr := s_move_to_qr st, rh_move_within_qr := s_move_within_qr st,
         rh_move_to_qr_remove := s_move_to_qr_remove st, rh_move_within_qr_remove := s_move_within_qr_remove st,
         rh_drain_qr := s_drain_qr st,
         rh_num_access_to_row := map (\<lambda>i. s_numLogRowAccesses st i div eff_resets) [0..<4],
         rh_num_access_over_rh := s_numRowAccesses_RH st div eff_resets,
         rh_btv_occupancy := map (\<lambda>i. s_btv_residency st i div eff_resets) [0..<4]\<rparr>"

definition copy_filter :: "defense \<Rightarrow> rh_copy \<Rightarrow> rh_copy" where
  "copy_filter d out =
     (case (case d of RQ s \<Rightarrow> rq_filter s | _ \<Rightarrow> None) of
        Some f \<Rightarrow> out\<lparr>rh_cbf_true_pos := s_truePositives f, rh_cbf_false_pos := s_falsePositives f,
                     rh_cbf_true_neg := s_trueNegatives f\<rparr>
      | None \<Rightarrow> out\<lparr>rh_btv_true_pos := s_btv_true_positives (defense_stats d),
                    rh_btv_false_pos := s_btv_false_positives (defense_stats d),
                    rh_btv_true_neg := s_btv_true_negatives (defense_stats d)\<rparr>)"

definition copy_rh_stats :: "string \<Rightarrow> defense \<Rightarrow> rh_copy \<Rightarrow> rh_copy" where
  "copy_rh_stats mitigation d out =
     (let st = defense_stats d;
          eff_resets = (if s_num_resets st = 0 then 1 else s_num_resets st);
          out1 = copy_common eff_resets st out
      in if mitigation = ''RQ''
         then (copy_filter d out1)
           \<lparr>rh_cache_hit := s_cache_hit st, rh_cache_partial_hit_orr_set := s_cache_partial_hit_orr_set st,
            rh_cache_partial_hit_orr_unset := s_cache_partial_hit_orr_unset st, rh_cache_miss := s_cache_miss st,
            rh_cache_miss_entry_inserts := s_cache_miss_entry_inserts st,
            rh_cache_miss_line_entry_inserts := s_cache_miss_line_entry_inserts st,
            rh_cache_clean_evicts := s_cache_clean_evicts st, rh_cache_dirty_evicts := s_cache_dirty_evicts st,
            rh_rq_occupancy := s_QR_CumulativeOccupancy st div eff_resets\<rparr>
         else out1)"

section \<open>Sizes\<close>

lemma rrs_new_detector:
  "rrs_new (junk\<lparr>detector := m\<rparr>) demand rows thr nb nr nc rnd =
     (rrs_new junk demand rows thr nb nr nc rnd)\<lparr>detector := m\<rparr>"
  by (simp add: rrs_new_def rrs.defs rh_mitigation.defs cong: if_cong)

lemma rrs_ok_frame [simp]:
  "rrs_ok dims cap (s\<lparr>swapDelay := a, virtualize_RIT := b, SRAM_RIT_accDelay := c\<rparr>) = rrs_ok dims cap s"
  by (simp add: rrs_ok_def rrs_dims_def table_ok_def rrs_in_range_def)

lemma budget_fits:
  fixes n N T :: nat
  assumes "n \<le> N" and "0 < T"
  shows "n < T * (N div T + 1)" and "n div T \<le> N div T"
proof -
  have "N < T * (N div T + 1)" using dividend_less_times_div[OF assms(2), of N] by (simp only: distrib_left mult_1_right add.commute)
  then show "n < T * (N div T + 1)" by (rule le_less_trans[OF assms(1)])
  show "n div T \<le> N div T" using assms(1) by (rule div_le_mono)
qed

text \<open>
  C27. A row swap built by the controller is sized for a refresh window of 1.36 million activations per
  bank: it starts as a consistent identity mapping, and any window within that budget fits the counters
  of the detector and swaps at most as many rows as the table may hold locked.
\<close>

theorem rrs_sized_for_window:
  assumes "rh_mitigation p = ''RRS''" and "6 \<le> rh_actual_threshold p" and "rh_actual_threshold p div 6 \<le> 680000"
    and "5 * (1360000 div (rh_actual_threshold p div 6)) + 1 < rowsPerBank c"
  shows "\<exists>s. new_defense p j (Some c) = Inr (RRS s) \<and> rrs_ok mg_dims mg_numEntries s \<and>
    (\<forall>ix r. remap (tables s ix) r = r) \<and>
    (\<forall>as. (\<forall>ix \<in> mg_ix (detector s). length (bank_rows ix as) \<le> 1360000) \<longrightarrow>
       window_fits (detector s) as \<and>
       (\<forall>ix \<in> mg_ix (detector s). 2 * (length (bank_rows ix as) div mg_threshold (detector s)) \<le> maxValidTuples s))"
proof -
  define T where "T = rh_actual_threshold p div 6"
  define N where "N = (1360000::nat) div T"
  define m where "m = mg_new (junk_tracker j) N T (rowsPerBank c) (banksPerRank c) (ranksPerChannel c) 1"
  define s0 where "s0 = rrs_new ((junk_rrs j)\<lparr>detector := m\<rparr>) (2 * N) (rowsPerBank c) T (banksPerRank c)
    (ranksPerChannel c) 1 (junk_rand j)"
  define s where "s = s0\<lparr>swapDelay := rh_rrs_swap_delay p, virtualize_RIT := False, SRAM_RIT_accDelay := rh_rit_acc_delay p\<rparr>"
  have T: "0 < T" "T \<le> 680000" using assms(2,3) by (simp_all add: T_def)
  have N: "2 \<le> N" using div_le_mono2[OF T, of 1360000] by (simp add: N_def)
  have big: "5 * N + 1 < rowsPerBank c" using assms(4) by (simp add: N_def T_def)
  have md: "mg_dims m = \<lparr>dim_rows = rowsPerBank c, dim_banks = banksPerRank c, dim_ranks = ranksPerChannel c, dim_channels = 1\<rparr>"
    "mg_numEntries m = N" "mg_threshold m = T"
    by (simp_all add: m_def mg_new_def mg_dims_def)
  have ok0: "rrs_ok mg_dims mg_numEntries s0 \<and> (\<forall>ix r. remap (tables s0 ix) r = r)"
    unfolding s0_def using big N by (intro rrs_new_ok) (simp_all add: md)
  have sel: "detector s = m" "maxValidTuples s = 2 * N" "tables s = tables s0"
    by (simp_all add: s_def s0_def rrs_new_def rrs.defs rh_mitigation.defs)
  have "new_defense p j (Some c) = Inr (RRS s)"
    using assms(1) T(1)
    by (simp add: new_defense_def new_rrs_def Let_def flip: T_def)
      (simp add: s_def s0_def rrs_new_detector m_def N_def)
  moreover have "rrs_ok mg_dims mg_numEntries s" using ok0 by (simp add: s_def)
  moreover have "window_fits m as \<and> (\<forall>ix \<in> mg_ix m. 2 * (length (bank_rows ix as) div T) \<le> 2 * N)"
    if b: "\<forall>ix \<in> mg_ix m. length (bank_rows ix as) \<le> 1360000" for as
    using budget_fits[OF _ T(1), of _ 1360000] b by (simp add: window_fits_def md N_def)
  ultimately show ?thesis using ok0 by (intro exI[of _ s]) (simp add: sel md)
qed

definition rh_default :: rh_params where
  "rh_default = \<lparr>rh_mitigation = ''RRS'', rh_actual_threshold = 1000, rh_rq_qr_size = 23053,
     rh_rrs_swap_delay = 2740000, rh_rit_acc_delay = 1250, rh_rq_virtualize_rit = True,
     rh_rq_rows_per_btv_bit = 16, rh_rq_cache_sets = 256, rh_rq_drain_threshold = 1048576,
     rh_bh_black_list_threshold = 50\<rparr>"

text \<open>The default threshold of 1000 on a device with 65536 rows per bank.\<close>

theorem rrs_sized_for_window_witness:
  "\<forall>j. \<exists>s. new_defense rh_default j (Some ddr4_2400) = Inr (RRS s) \<and> rrs_ok mg_dims mg_numEntries s"
proof
  fix j
  have "rh_mitigation rh_default = ''RRS''" "6 \<le> rh_actual_threshold rh_default"
    "rh_actual_threshold rh_default div 6 \<le> 680000"
    "5 * (1360000 div (rh_actual_threshold rh_default div 6)) + 1 < rowsPerBank ddr4_2400"
    by (simp_all add: rh_default_def ddr4_2400_def)
  from rrs_sized_for_window[OF this, of j]
  show "\<exists>s. new_defense rh_default j (Some ddr4_2400) = Inr (RRS s) \<and> rrs_ok mg_dims mg_numEntries s" by blast
qed

end
