(* ===== verification/Abstract_Mem.thy ===== *)
theory Abstract_Mem
  imports RH_Prelude
begin

text \<open>
  Packets and the memory behind an interface: the commands of \<open>mem/packet.{hh,cc}\<close> with their attributes,
  and \<open>AbstractMemory\<close> of \<open>mem/abstract_mem.{hh,cc}\<close>, whose \<open>access\<close> reads and writes the bytes of the
  memory, tracks load-locked addresses and turns a request into its response.
  The lemmas show that the list of locked addresses implements a reservation per context.

  A byte of memory is looked up by its address (\<open>toHostAddr\<close> subtracts the start of the range), the range
  is the argument \<open>am_subset\<close>; a memory without backing store has no bytes. The cache monitors cleared by
  \<open>globalClearExclusive\<close> are recorded in \<open>am_cleared\<close>.
\<close>

section \<open>Commands\<close>

datatype cmd_attr = IsRead | IsWrite | IsUpgrade | IsInvalidate | IsClean | NeedsWritable | IsRequest
  | IsResponse | NeedsResponse | IsEviction | IsSWPrefetch | IsHWPrefetch | IsLlsc | HasData | IsError
  | IsPrint | IsFlush | FromCache

datatype (plugins only: size) mem_cmd = InvalidCmd | ReadReq | ReadResp | ReadRespWithInvalidate | WriteReq | WriteResp |
    WriteCompleteResp | WritebackDirty | WritebackClean | WriteClean | CleanEvict | SoftPFReq | SoftPFExReq |
    HardPFReq | SoftPFResp | HardPFResp | WriteLineReq | UpgradeReq | SCUpgradeReq | UpgradeResp |
    SCUpgradeFailReq | UpgradeFailResp | ReadExReq | ReadExResp | ReadCleanReq | ReadSharedReq |
    LoadLockedReq | StoreCondReq | StoreCondFailReq | StoreCondResp | SwapReq | SwapResp | MemFenceReq |
    MemSyncReq | MemSyncResp | MemFenceResp | CleanSharedReq | CleanSharedResp | CleanInvalidReq |
    CleanInvalidResp | InvalidDestError | BadAddressError | FunctionalReadError | FunctionalWriteError |
    PrintReq | FlushReq | InvalidateReq | InvalidateResp | HTMReq | HTMReqResp | HTMAbort

primrec commandInfo :: "mem_cmd \<Rightarrow> cmd_attr list \<times> mem_cmd" where
  "commandInfo InvalidCmd = ([], InvalidCmd)"
  | "commandInfo ReadReq = ([IsRead, IsRequest, NeedsResponse], ReadResp)"
  | "commandInfo ReadResp = ([IsRead, IsResponse, HasData], InvalidCmd)"
  | "commandInfo ReadRespWithInvalidate = ([IsRead, IsResponse, HasData, IsInvalidate], InvalidCmd)"
  | "commandInfo WriteReq = ([IsWrite, NeedsWritable, IsRequest, NeedsResponse, HasData], WriteResp)"
  | "commandInfo WriteResp = ([IsWrite, IsResponse], InvalidCmd)"
  | "commandInfo WriteCompleteResp = ([IsWrite, IsResponse], InvalidCmd)"
  | "commandInfo WritebackDirty = ([IsWrite, IsRequest, IsEviction, HasData, FromCache], InvalidCmd)"
  | "commandInfo WritebackClean = ([IsWrite, IsRequest, IsEviction, HasData, FromCache], InvalidCmd)"
  | "commandInfo WriteClean = ([IsWrite, IsRequest, HasData, FromCache], InvalidCmd)"
  | "commandInfo CleanEvict = ([IsRequest, IsEviction, FromCache], InvalidCmd)"
  | "commandInfo SoftPFReq = ([IsRead, IsRequest, IsSWPrefetch, NeedsResponse], SoftPFResp)"
  | "commandInfo SoftPFExReq = ([IsRead, NeedsWritable, IsInvalidate, IsRequest, IsSWPrefetch, NeedsResponse], SoftPFResp)"
  | "commandInfo HardPFReq = ([IsRead, IsRequest, IsHWPrefetch, NeedsResponse, FromCache], HardPFResp)"
  | "commandInfo SoftPFResp = ([IsRead, IsResponse, IsSWPrefetch, HasData], InvalidCmd)"
  | "commandInfo HardPFResp = ([IsRead, IsResponse, IsHWPrefetch, HasData], InvalidCmd)"
  | "commandInfo WriteLineReq = ([IsWrite, NeedsWritable, IsRequest, NeedsResponse, HasData], WriteResp)"
  | "commandInfo UpgradeReq = ([IsInvalidate, NeedsWritable, IsUpgrade, IsRequest, NeedsResponse, FromCache], UpgradeResp)"
  | "commandInfo SCUpgradeReq = ([IsInvalidate, NeedsWritable, IsUpgrade, IsLlsc, IsRequest, NeedsResponse, FromCache], UpgradeResp)"
  | "commandInfo UpgradeResp = ([IsUpgrade, IsResponse], InvalidCmd)"
  | "commandInfo SCUpgradeFailReq = ([IsRead, NeedsWritable, IsInvalidate, IsLlsc, IsRequest, NeedsResponse, FromCache], UpgradeFailResp)"
  | "commandInfo UpgradeFailResp = ([IsRead, IsResponse, HasData], InvalidCmd)"
  | "commandInfo ReadExReq = ([IsRead, NeedsWritable, IsInvalidate, IsRequest, NeedsResponse, FromCache], ReadExResp)"
  | "commandInfo ReadExResp = ([IsRead, IsResponse, HasData], InvalidCmd)"
  | "commandInfo ReadCleanReq = ([IsRead, IsRequest, NeedsResponse, FromCache], ReadResp)"
  | "commandInfo ReadSharedReq = ([IsRead, IsRequest, NeedsResponse, FromCache], ReadResp)"
  | "commandInfo LoadLockedReq = ([IsRead, IsLlsc, IsRequest, NeedsResponse], ReadResp)"
  | "commandInfo StoreCondReq = ([IsWrite, NeedsWritable, IsLlsc, IsRequest, NeedsResponse, HasData], StoreCondResp)"
  | "commandInfo StoreCondFailReq = ([IsWrite, NeedsWritable, IsLlsc, IsRequest, NeedsResponse, HasData], StoreCondResp)"
  | "commandInfo StoreCondResp = ([IsWrite, IsLlsc, IsResponse], InvalidCmd)"
  | "commandInfo SwapReq = ([IsRead, IsWrite, NeedsWritable, IsRequest, HasData, NeedsResponse], SwapResp)"
  | "commandInfo SwapResp = ([IsRead, IsWrite, IsResponse, HasData], InvalidCmd)"
  | "commandInfo MemFenceReq = ([IsRequest, NeedsResponse], MemFenceResp)"
  | "commandInfo MemSyncReq = ([IsRequest, NeedsResponse], MemSyncResp)"
  | "commandInfo MemSyncResp = ([IsResponse], InvalidCmd)"
  | "commandInfo MemFenceResp = ([IsResponse], InvalidCmd)"
  | "commandInfo CleanSharedReq = ([IsRequest, IsClean, NeedsResponse, FromCache], CleanSharedResp)"
  | "commandInfo CleanSharedResp = ([IsResponse, IsClean], InvalidCmd)"
  | "commandInfo CleanInvalidReq = ([IsRequest, IsInvalidate, IsClean, NeedsResponse, FromCache], CleanInvalidResp)"
  | "commandInfo CleanInvalidResp = ([IsResponse, IsInvalidate, IsClean], InvalidCmd)"
  | "commandInfo InvalidDestError = ([IsResponse, IsError], InvalidCmd)"
  | "commandInfo BadAddressError = ([IsResponse, IsError], InvalidCmd)"
  | "commandInfo FunctionalReadError = ([IsRead, IsResponse, IsError], InvalidCmd)"
  | "commandInfo FunctionalWriteError = ([IsWrite, IsResponse, IsError], InvalidCmd)"
  | "commandInfo PrintReq = ([IsRequest, IsPrint], InvalidCmd)"
  | "commandInfo FlushReq = ([IsRequest, IsFlush, NeedsWritable], InvalidCmd)"
  | "commandInfo InvalidateReq = ([IsInvalidate, IsRequest, NeedsWritable, NeedsResponse, FromCache], InvalidateResp)"
  | "commandInfo InvalidateResp = ([IsInvalidate, IsResponse], InvalidCmd)"
  | "commandInfo HTMReq = ([IsRead, IsRequest, NeedsResponse], HTMReqResp)"
  | "commandInfo HTMReqResp = ([IsRead, IsResponse], InvalidCmd)"
  | "commandInfo HTMAbort = ([IsRead, IsRequest], InvalidCmd)"

definition testCmdAttrib :: "cmd_attr \<Rightarrow> mem_cmd \<Rightarrow> bool" where
  "testCmdAttrib a c = (a \<in> set (fst (commandInfo c)))"

section \<open>Packets\<close>

text \<open>
  A packet with what the memory reads of its request. \<open>pk_data\<close> is its payload of \<open>pk_size\<close> bytes; an
  atomic operation is its effect on those bytes.
\<close>

record packet =
  pk_cmd :: mem_cmd
  pk_requestor :: nat
  pk_qos :: nat
  pk_addr :: addr
  pk_size :: nat
  pk_data :: "nat list"
  cacheResponding :: bool
  headerDelay :: tick
  payloadDelay :: tick
  rq_paddr :: addr
  rq_contextId :: "nat option"
  rq_extraData :: "nat option"
  rq_condSwap :: bool
  rq_atomicOp :: "(nat list \<Rightarrow> nat list) option"
  rq_instFetch :: bool
  rq_byteEnable :: "bool list"

abbreviation isRead :: "packet \<Rightarrow> bool" where "isRead pkt \<equiv> testCmdAttrib IsRead (pk_cmd pkt)"
abbreviation isWrite :: "packet \<Rightarrow> bool" where "isWrite pkt \<equiv> testCmdAttrib IsWrite (pk_cmd pkt)"
abbreviation isLLSC :: "packet \<Rightarrow> bool" where "isLLSC pkt \<equiv> testCmdAttrib IsLlsc (pk_cmd pkt)"
abbreviation isRequest :: "packet \<Rightarrow> bool" where "isRequest pkt \<equiv> testCmdAttrib IsRequest (pk_cmd pkt)"
abbreviation isResponse :: "packet \<Rightarrow> bool" where "isResponse pkt \<equiv> testCmdAttrib IsResponse (pk_cmd pkt)"
abbreviation needsResponse :: "packet \<Rightarrow> bool" where "needsResponse pkt \<equiv> testCmdAttrib NeedsResponse (pk_cmd pkt)"
abbreviation hasData :: "packet \<Rightarrow> bool" where "hasData pkt \<equiv> testCmdAttrib HasData (pk_cmd pkt)"

definition makeResponse :: "packet \<Rightarrow> packet res" where
  "makeResponse pkt = rassert (needsResponse pkt) (rassert (isRequest pkt)
     (Inr (pkt\<lparr>pk_cmd := snd (commandInfo (pk_cmd pkt))\<rparr>)))"

text \<open>\<open>writeData\<close>: the bytes that replace \<open>old\<close>; a masked write keeps the bytes that are not enabled.\<close>

definition isMaskedWrite :: "packet \<Rightarrow> bool" where
  "isMaskedWrite pkt = (pk_cmd pkt = WriteReq \<and> False \<in> set (rq_byteEnable pkt))"

definition writeData :: "packet \<Rightarrow> nat list \<Rightarrow> nat list res" where
  "writeData pkt old =
     (if \<not> isMaskedWrite pkt then Inr (pk_data pkt)
      else rassert (length (rq_byteEnable pkt) = pk_size pkt)
        (Inr (map (\<lambda>i. if rq_byteEnable pkt ! i then pk_data pkt ! i else old ! i) [0..<pk_size pkt])))"

section \<open>Memory\<close>

record abstract_mem =
  am_subset :: "addr \<Rightarrow> nat \<Rightarrow> bool"
  am_data :: "(addr \<Rightarrow> nat) option"
  lockedAddrList :: "(addr \<times> nat) list"
  am_cleared :: "nat list"
  am_numReads :: "nat \<Rightarrow> nat"
  am_numWrites :: "nat \<Rightarrow> nat"
  am_numOther :: "nat \<Rightarrow> nat"
  am_bytesRead :: "nat \<Rightarrow> nat"
  am_bytesInstRead :: "nat \<Rightarrow> nat"
  am_bytesWritten :: "nat \<Rightarrow> nat"

text \<open>\<open>LockedAddr::mask\<close>: addresses are locked in lines of 16 bytes.\<close>

definition lock_line :: "addr \<Rightarrow> addr" where
  "lock_line a = a div 16 * 16"

text \<open>\<open>matchesContext\<close> fails an assertion for a request without context.\<close>

definition matchesContext :: "nat option \<Rightarrow> nat \<Rightarrow> bool res" where
  "matchesContext ctx owner = (case ctx of None \<Rightarrow> Inl Assert_Fail | Some x \<Rightarrow> Inr (owner = x))"

fun relock :: "nat option \<Rightarrow> addr \<Rightarrow> (addr \<times> nat) list \<Rightarrow> (addr \<times> nat) list option res" where
  "relock ctx a [] = Inr None"
| "relock ctx a ((b, owner) # l) =
     rbind (matchesContext ctx owner) (\<lambda>m.
       if m then Inr (Some ((a, owner) # l))
       else rbind (relock ctx a l) (\<lambda>r. Inr (map_option ((#) (b, owner)) r)))"

definition trackLoadLocked :: "packet \<Rightarrow> (addr \<times> nat) list \<Rightarrow> (addr \<times> nat) list res" where
  "trackLoadLocked pkt l =
     rbind (relock (rq_contextId pkt) (lock_line (rq_paddr pkt)) l) (\<lambda>r.
       case r of
         Some l' \<Rightarrow> Inr l'
       | None \<Rightarrow> (case rq_contextId pkt of
           None \<Rightarrow> Inl Assert_Fail | Some x \<Rightarrow> Inr ((lock_line (rq_paddr pkt), x) # l)))"

fun find_lock :: "nat option \<Rightarrow> addr \<Rightarrow> (addr \<times> nat) list \<Rightarrow> bool res" where
  "find_lock ctx a [] = Inr False"
| "find_lock ctx a ((b, owner) # l) =
     (if b = a then rbind (matchesContext ctx owner) (\<lambda>m. if m then Inr True else find_lock ctx a l)
      else find_lock ctx a l)"

text \<open>
  \<open>checkLockedAddrList\<close> on a nonempty list and \<open>writeOK\<close>: whether the write is done, the extra data it
  leaves, the list, and the contexts other than the requestor's that lose their reservation.
\<close>

definition checkLockedAddrList ::
    "packet \<Rightarrow> (addr \<times> nat) list \<Rightarrow> (bool \<times> nat option \<times> (addr \<times> nat) list \<times> nat list) res" where
  "checkLockedAddrList pkt l =
     (let paddr = lock_line (rq_paddr pkt) in
      rbind (if isLLSC pkt then find_lock (rq_contextId pkt) paddr l else Inr True) (\<lambda>allowStore.
        Inr (allowStore,
             if isLLSC pkt then Some (of_bool allowStore) else rq_extraData pkt,
             if allowStore then filter (\<lambda>(a, c). a \<noteq> paddr) l else l,
             if allowStore then filter (\<lambda>c. rq_contextId pkt \<noteq> Some c) (map snd (filter (\<lambda>(a, c). a = paddr) l))
             else [])))"

definition writeOK ::
    "packet \<Rightarrow> (addr \<times> nat) list \<Rightarrow> (bool \<times> nat option \<times> (addr \<times> nat) list \<times> nat list) res" where
  "writeOK pkt l =
     (if l = [] then Inr (\<not> isLLSC pkt, if isLLSC pkt then Some 0 else rq_extraData pkt, [], [])
      else checkLockedAddrList pkt l)"

definition mem_bytes :: "(addr \<Rightarrow> nat) \<Rightarrow> addr \<Rightarrow> nat \<Rightarrow> nat list" where
  "mem_bytes d a n = map (\<lambda>i. d (a + i)) [0..<n]"

definition put_bytes :: "addr \<Rightarrow> nat list \<Rightarrow> (addr \<Rightarrow> nat) \<Rightarrow> addr \<Rightarrow> nat" where
  "put_bytes a bs d = (\<lambda>x. if a \<le> x \<and> x < a + length bs then bs ! (x - a) else d x)"

abbreviation count_at :: "nat \<Rightarrow> nat \<Rightarrow> (nat \<Rightarrow> nat) \<Rightarrow> nat \<Rightarrow> nat" where
  "count_at i n f \<equiv> f(i := f i + n)"

text \<open>The bytes of an integer on the host, lowest byte first.\<close>

definition le_bytes :: "nat \<Rightarrow> nat \<Rightarrow> nat list" where
  "le_bytes n v = map (\<lambda>i. v div 256 ^ i mod 256) [0..<n]"

definition access_swap :: "packet \<Rightarrow> abstract_mem \<Rightarrow> (packet \<times> abstract_mem) res" where
  "access_swap pkt m =
     (case rq_atomicOp pkt of
        Some f \<Rightarrow>
          (case am_data m of
             None \<Rightarrow> Inr (pkt, m)
           | Some d \<Rightarrow>
               let old = mem_bytes d (pk_addr pkt) (pk_size pkt)
               in Inr (pkt\<lparr>pk_data := old\<rparr>, m\<lparr>am_data := Some (put_bytes (pk_addr pkt) (f old) d)\<rparr>))
      | None \<Rightarrow>
          (case am_data m of
             None \<Rightarrow> Inl Panic
           | Some d \<Rightarrow>
               let old = mem_bytes d (pk_addr pkt) (pk_size pkt) in
               rbind (if rq_condSwap pkt
                      then if pk_size pkt = 8 \<or> pk_size pkt = 4
                           then case rq_extraData pkt of
                               None \<Rightarrow> Inl Assert_Fail
                             | Some v \<Rightarrow> Inr (le_bytes (pk_size pkt) v = old)
                           else Inl Panic
                      else Inr True) (\<lambda>overwrite_mem.
               rassert (\<not> rq_instFetch pkt)
                (Inr (pkt\<lparr>pk_data := old\<rparr>,
                      m\<lparr>am_data := Some (if overwrite_mem then put_bytes (pk_addr pkt) (pk_data pkt) d else d),
                        am_numOther := count_at (pk_requestor pkt) 1 (am_numOther m)\<rparr>)))))"

definition access_read :: "packet \<Rightarrow> abstract_mem \<Rightarrow> (packet \<times> abstract_mem) res" where
  "access_read pkt m =
     rassert (\<not> isWrite pkt)
      (rbind (if isLLSC pkt
              then rassert (\<not> testCmdAttrib FromCache (pk_cmd pkt)) (trackLoadLocked pkt (lockedAddrList m))
              else Inr (lockedAddrList m)) (\<lambda>l.
       Inr (case am_data m of None \<Rightarrow> pkt | Some d \<Rightarrow> pkt\<lparr>pk_data := mem_bytes d (pk_addr pkt) (pk_size pkt)\<rparr>,
            m\<lparr>lockedAddrList := l,
              am_numReads := count_at (pk_requestor pkt) 1 (am_numReads m),
              am_bytesRead := count_at (pk_requestor pkt) (pk_size pkt) (am_bytesRead m),
              am_bytesInstRead := (if rq_instFetch pkt
                then count_at (pk_requestor pkt) (pk_size pkt) (am_bytesInstRead m) else am_bytesInstRead m)\<rparr>)))"

definition access_write :: "packet \<Rightarrow> abstract_mem \<Rightarrow> (packet \<times> abstract_mem) res" where
  "access_write pkt m =
     rbind (writeOK pkt (lockedAddrList m)) (\<lambda>(ok, extra, l, cleared).
      let pkt1 = pkt\<lparr>rq_extraData := extra\<rparr>;
          m1 = m\<lparr>lockedAddrList := l, am_cleared := am_cleared m @ cleared\<rparr>
      in if ok
         then rbind (case am_data m of
                  None \<Rightarrow> Inr None
                | Some d \<Rightarrow> rbind (writeData pkt (mem_bytes d (pk_addr pkt) (pk_size pkt))) (\<lambda>bs.
                    Inr (Some (put_bytes (pk_addr pkt) bs d)))) (\<lambda>data.
              rassert (\<not> rq_instFetch pkt)
               (Inr (pkt1, m1\<lparr>am_data := data,
                  am_numWrites := count_at (pk_requestor pkt) 1 (am_numWrites m),
                  am_bytesWritten := count_at (pk_requestor pkt) (pk_size pkt) (am_bytesWritten m)\<rparr>)))
         else Inr (pkt1, m1))"

definition access :: "packet \<Rightarrow> abstract_mem \<Rightarrow> (packet \<times> abstract_mem) res" where
  "access pkt m =
     (if cacheResponding pkt then Inr (pkt, m)
      else if pk_cmd pkt = CleanEvict \<or> pk_cmd pkt = WritebackClean then Inr (pkt, m)
      else rassert (am_subset m (pk_addr pkt) (pk_size pkt))
       (rbind (if pk_cmd pkt = SwapReq then access_swap pkt m
               else if isRead pkt then access_read pkt m
               else if testCmdAttrib IsInvalidate (pk_cmd pkt) \<or> testCmdAttrib IsClean (pk_cmd pkt)
               then rassert (\<not> isWrite pkt) (Inr (pkt, m))
               else if isWrite pkt then access_write pkt m
               else Inl Panic) (\<lambda>(pkt', m').
        if needsResponse pkt' then rbind (makeResponse pkt') (\<lambda>pkt''. Inr (pkt'', m')) else Inr (pkt', m'))))"

definition functionalAccess :: "packet \<Rightarrow> abstract_mem \<Rightarrow> (packet \<times> abstract_mem) res" where
  "functionalAccess pkt m =
     rassert (am_subset m (pk_addr pkt) (pk_size pkt))
      (if isRead pkt
       then rbind (makeResponse (case am_data m of None \<Rightarrow> pkt
              | Some d \<Rightarrow> pkt\<lparr>pk_data := mem_bytes d (pk_addr pkt) (pk_size pkt)\<rparr>)) (\<lambda>pkt'. Inr (pkt', m))
       else if isWrite pkt
       then rbind (case am_data m of
                None \<Rightarrow> Inr None
              | Some d \<Rightarrow> rbind (writeData pkt (mem_bytes d (pk_addr pkt) (pk_size pkt))) (\<lambda>bs.
                  Inr (Some (put_bytes (pk_addr pkt) bs d)))) (\<lambda>data.
            rbind (makeResponse pkt) (\<lambda>pkt'. Inr (pkt', m\<lparr>am_data := data\<rparr>)))
       else if testCmdAttrib IsPrint (pk_cmd pkt) then Inr (pkt, m)
       else Inl Panic)"

section \<open>Reservations\<close>

text \<open>
  The abstract view: every context has at most one reserved line. A load-locked access reserves its line;
  a store releases the line for every context, and a conditional store is done only under a reservation.
\<close>

definition reservations :: "(addr \<times> nat) list \<Rightarrow> nat \<Rightarrow> addr option" where
  "reservations l = map_of (map (\<lambda>(a, c). (c, a)) l)"

definition locks_ok :: "(addr \<times> nat) list \<Rightarrow> bool" where
  "locks_ok l \<longleftrightarrow> distinct (map snd l)"

definition release :: "addr \<Rightarrow> (nat \<Rightarrow> addr option) \<Rightarrow> nat \<Rightarrow> addr option" where
  "release a R = (\<lambda>c. if R c = Some a then None else R c)"

definition reserve_step :: "packet \<Rightarrow> (nat \<Rightarrow> addr option) \<Rightarrow> bool \<times> (nat \<Rightarrow> addr option)" where
  "reserve_step pkt R =
     (let a = lock_line (rq_paddr pkt); x = the (rq_contextId pkt) in
      if cacheResponding pkt \<or> pk_cmd pkt \<in> {CleanEvict, WritebackClean, SwapReq} then (True, R)
      else if isRead pkt then (True, if isLLSC pkt then R(x \<mapsto> a) else R)
      else if testCmdAttrib IsInvalidate (pk_cmd pkt) \<or> testCmdAttrib IsClean (pk_cmd pkt) then (True, R)
      else if isLLSC pkt \<and> R x \<noteq> Some a then (False, R)
      else (True, release a R))"

fun access_run :: "packet list \<Rightarrow> abstract_mem \<Rightarrow> (packet list \<times> abstract_mem) res" where
  "access_run [] m = Inr ([], m)"
| "access_run (pkt # pkts) m =
     rbind (access pkt m) (\<lambda>(pkt', m1). rbind (access_run pkts m1) (\<lambda>(pkts', m2). Inr (pkt' # pkts', m2)))"

fun reserve_run :: "packet list \<Rightarrow> (nat \<Rightarrow> addr option) \<Rightarrow> bool list \<times> (nat \<Rightarrow> addr option)" where
  "reserve_run [] R = ([], R)"
| "reserve_run (pkt # pkts) R =
     (case reserve_step pkt R of (b, R1) \<Rightarrow> case reserve_run pkts R1 of (bs, R2) \<Rightarrow> (b # bs, R2))"

lemma reservations_Nil [simp]: "reservations [] = Map.empty"
  by (simp add: reservations_def)

lemma reservations_Cons [simp]: "reservations ((a, c) # l) = (reservations l)(c \<mapsto> a)"
  by (simp add: reservations_def)

lemma locks_ok_Cons [simp]: "locks_ok ((a, c) # l) \<longleftrightarrow> c \<notin> snd ` set l \<and> locks_ok l"
  by (simp add: locks_ok_def)

lemma reservations_notin: "c \<notin> snd ` set l \<Longrightarrow> reservations l c = None"
  by (induction l) auto

lemma relock_ok:
  assumes "locks_ok l"
  shows "(x \<notin> snd ` set l \<and> relock (Some x) a l = Inr None) \<or>
    (\<exists>l'. relock (Some x) a l = Inr (Some l') \<and> snd ` set l' = snd ` set l \<and> locks_ok l' \<and>
       reservations l' = (reservations l)(x \<mapsto> a))"
  using assms
proof (induction l)
  case (Cons p l)
  obtain b c where p: "p = (b, c)" by (cases p)
  show ?case
  proof (cases "c = x")
    case True
    then show ?thesis using Cons.prems by (auto simp: p matchesContext_def)
  next
    case False
    then show ?thesis
      using Cons.IH Cons.prems by (auto simp: p matchesContext_def fun_eq_iff)
  qed
qed simp

lemma trackLoadLocked_ok:
  assumes "locks_ok l" and "rq_contextId pkt = Some x"
  shows "\<exists>l'. trackLoadLocked pkt l = Inr l' \<and> locks_ok l' \<and>
    reservations l' = (reservations l)(x \<mapsto> lock_line (rq_paddr pkt))"
  using relock_ok[OF assms(1), of x "lock_line (rq_paddr pkt)"] assms
  by (auto simp: trackLoadLocked_def)

lemma find_lock_ok:
  assumes "locks_ok l"
  shows "find_lock (Some x) a l = Inr (reservations l x = Some a)"
  using assms
proof (induction l)
  case (Cons p l)
  then show ?case by (cases p) (auto simp: matchesContext_def reservations_notin)
qed simp

lemma filter_locks:
  "reservations (filter (\<lambda>(b, c). b \<noteq> a) l) = release a (reservations l) \<and> locks_ok (filter (\<lambda>(b, c). b \<noteq> a) l)"
  if "locks_ok l"
  using that
proof (induction l)
  case (Cons p l)
  then show ?case by (cases p) (auto simp: release_def reservations_notin)
qed (auto simp: release_def locks_ok_def)

lemma writeOK_ok:
  assumes "locks_ok l" and "isLLSC pkt \<longrightarrow> rq_contextId pkt = Some x"
  obtains extra l' cleared where
    "writeOK pkt l = Inr (\<not> isLLSC pkt \<or> reservations l x = Some (lock_line (rq_paddr pkt)), extra, l', cleared)"
    "locks_ok l'" "isLLSC pkt \<longrightarrow> extra = Some (of_bool (reservations l x = Some (lock_line (rq_paddr pkt))))"
    "reservations l' = (if \<not> isLLSC pkt \<or> reservations l x = Some (lock_line (rq_paddr pkt))
       then release (lock_line (rq_paddr pkt)) (reservations l) else reservations l)"
proof (cases "l = []")
  case True
  then show thesis by (intro that[of "if isLLSC pkt then Some 0 else rq_extraData pkt" "[]" "[]"])
      (auto simp: writeOK_def release_def locks_ok_def)
next
  case False
  let ?a = "lock_line (rq_paddr pkt)"
  let ?ok = "\<not> isLLSC pkt \<or> reservations l x = Some ?a"
  have "(if isLLSC pkt then find_lock (rq_contextId pkt) ?a l else Inr True) = Inr ?ok"
    using assms by (simp add: find_lock_ok)
  then have run: "writeOK pkt l = Inr (?ok, if isLLSC pkt then Some (of_bool ?ok) else rq_extraData pkt,
      if ?ok then filter (\<lambda>(b, c). b \<noteq> ?a) l else l,
      if ?ok then filter (\<lambda>c. rq_contextId pkt \<noteq> Some c) (map snd (filter (\<lambda>(a, c). a = ?a) l)) else [])"
    using False unfolding writeOK_def checkLockedAddrList_def Let_def by simp
  show thesis using filter_locks[OF assms(1), of ?a] assms(1)
    by (intro that[OF run]) auto
qed

text \<open>One access: its packet, the outcome of a conditional store, the reservations.\<close>

lemma access_step:
  assumes "locks_ok (lockedAddrList m)" and "isLLSC pkt \<longrightarrow> rq_contextId pkt \<noteq> None"
    and run: "access pkt m = Inr (pkt', m')" and step: "reserve_step pkt (reservations (lockedAddrList m)) = (b, R)"
  shows "locks_ok (lockedAddrList m') \<and> reservations (lockedAddrList m') = R \<and>
    (pk_cmd pkt = StoreCondReq \<and> \<not> cacheResponding pkt \<longrightarrow> rq_extraData pkt' = Some (of_bool b)) \<and>
    (\<not> b \<longrightarrow> am_data m' = am_data m)"
proof -
  obtain x where x: "isLLSC pkt \<longrightarrow> rq_contextId pkt = Some x" using assms(2) by auto
  consider (skip) "cacheResponding pkt \<or> pk_cmd pkt \<in> {CleanEvict, WritebackClean}"
    | (swap) "\<not> cacheResponding pkt" "pk_cmd pkt = SwapReq"
    | (body) "\<not> cacheResponding pkt" "pk_cmd pkt \<notin> {CleanEvict, WritebackClean, SwapReq}" by auto
  then show ?thesis
  proof cases
    case skip
    then have "access pkt m = Inr (pkt, m)" by (auto simp: access_def)
    then have "pkt' = pkt" "m' = m" using run by simp_all
    moreover have "b" "R = reservations (lockedAddrList m)" using skip step by (auto simp: reserve_step_def)
    ultimately show ?thesis using assms(1) skip by auto
  next
    case swap
    then show ?thesis using assms
      by (auto simp: access_def reserve_step_def access_swap_def rbind_Inr_iff makeResponse_def Let_def
          split: if_splits option.splits)
  next
    case body
    obtain p1 m1 where inner: "(if isRead pkt then access_read pkt m
         else if testCmdAttrib IsInvalidate (pk_cmd pkt) \<or> testCmdAttrib IsClean (pk_cmd pkt)
         then rassert (\<not> isWrite pkt) (Inr (pkt, m))
         else if isWrite pkt then access_write pkt m else Inl Panic) = Inr (p1, m1)"
      and res: "m' = m1" "rq_extraData pkt' = rq_extraData p1"
      using run body by (auto simp: access_def rbind_Inr_iff makeResponse_def split: if_splits)
    show ?thesis
    proof (cases "isRead pkt")
      case True
      have sc: "pk_cmd pkt \<noteq> StoreCondReq" using True by (auto simp: testCmdAttrib_def)
      obtain l where l: "(if isLLSC pkt then trackLoadLocked pkt (lockedAddrList m) else Inr (lockedAddrList m)) = Inr l"
        "lockedAddrList m1 = l"
        using inner True by (auto simp: access_read_def rbind_Inr_iff split: if_splits)
      have b: "b" "R = (if isLLSC pkt then (reservations (lockedAddrList m))(x \<mapsto> lock_line (rq_paddr pkt))
          else reservations (lockedAddrList m))"
        using step body True x by (auto simp: reserve_step_def Let_def)
      show ?thesis using l b sc res trackLoadLocked_ok[OF assms(1), of pkt x] x assms(1)
        by (cases "isLLSC pkt") auto
    next
      case rd: False
      show ?thesis
      proof (cases "testCmdAttrib IsInvalidate (pk_cmd pkt) \<or> testCmdAttrib IsClean (pk_cmd pkt)")
        case True
        then have "m1 = m" "pk_cmd pkt \<noteq> StoreCondReq" using inner rd by (auto simp: testCmdAttrib_def split: if_splits)
        moreover have "b" "R = reservations (lockedAddrList m)" using step body rd True by (auto simp: reserve_step_def Let_def)
        ultimately show ?thesis using assms(1) res by simp
      next
        case False
        obtain extra l' cleared where w: "writeOK pkt (lockedAddrList m) =
            Inr (\<not> isLLSC pkt \<or> reservations (lockedAddrList m) x = Some (lock_line (rq_paddr pkt)), extra, l', cleared)"
          "locks_ok l'" "isLLSC pkt \<longrightarrow> extra = Some (of_bool (reservations (lockedAddrList m) x = Some (lock_line (rq_paddr pkt))))"
          "reservations l' = (if \<not> isLLSC pkt \<or> reservations (lockedAddrList m) x = Some (lock_line (rq_paddr pkt))
             then release (lock_line (rq_paddr pkt)) (reservations (lockedAddrList m)) else reservations (lockedAddrList m))"
          by (rule writeOK_ok[OF assms(1) x])
        have "access_write pkt m = Inr (p1, m1)" using inner rd False by (auto split: if_splits)
        then have a: "lockedAddrList m1 = l'" "rq_extraData p1 = extra"
          "\<not> (\<not> isLLSC pkt \<or> reservations (lockedAddrList m) x = Some (lock_line (rq_paddr pkt))) \<longrightarrow> am_data m1 = am_data m"
          by (auto simp: access_write_def w(1) Let_def rbind_Inr_iff split: if_splits)
        have s: "b = (\<not> isLLSC pkt \<or> reservations (lockedAddrList m) x = Some (lock_line (rq_paddr pkt)))"
          "R = (if \<not> isLLSC pkt \<or> reservations (lockedAddrList m) x = Some (lock_line (rq_paddr pkt))
             then release (lock_line (rq_paddr pkt)) (reservations (lockedAddrList m)) else reservations (lockedAddrList m))"
          using step body rd False x by (auto simp: reserve_step_def Let_def split: if_splits)
        have "isLLSC pkt" if "pk_cmd pkt = StoreCondReq" using that by (simp add: testCmdAttrib_def)
        then show ?thesis using a s w res by simp
      qed
    qed
  qed
qed

lemma access_run_ok:
  assumes "locks_ok (lockedAddrList m)" and "\<forall>pkt \<in> set pkts. isLLSC pkt \<longrightarrow> rq_contextId pkt \<noteq> None"
    and "access_run pkts m = Inr (pkts', m')"
    and "reserve_run pkts (reservations (lockedAddrList m)) = (bs, R)"
  shows "length pkts' = length pkts \<and> length bs = length pkts \<and> locks_ok (lockedAddrList m') \<and>
    reservations (lockedAddrList m') = R \<and>
    (\<forall>i < length pkts. pk_cmd (pkts ! i) = StoreCondReq \<and> \<not> cacheResponding (pkts ! i) \<longrightarrow>
       rq_extraData (pkts' ! i) = Some (of_bool (bs ! i)))"
  using assms
proof (induction pkts arbitrary: m pkts' bs)
  case (Cons pkt pkts)
  obtain p1 m1 ps m2 where r: "access pkt m = Inr (p1, m1)" "access_run pkts m1 = Inr (ps, m')" "pkts' = p1 # ps"
    using Cons.prems(3) by (auto simp: rbind_Inr_iff)
  obtain b R1 bs1 where s: "reserve_step pkt (reservations (lockedAddrList m)) = (b, R1)"
    "reserve_run pkts R1 = (bs1, R)" "bs = b # bs1"
    using Cons.prems(4) by (auto split: prod.splits)
  have one: "locks_ok (lockedAddrList m1) \<and> reservations (lockedAddrList m1) = R1 \<and>
      (pk_cmd pkt = StoreCondReq \<and> \<not> cacheResponding pkt \<longrightarrow> rq_extraData p1 = Some (of_bool b)) \<and>
      (\<not> b \<longrightarrow> am_data m1 = am_data m)"
    using access_step[OF Cons.prems(1) _ r(1) s(1)] Cons.prems(2) by simp
  have rest: "length ps = length pkts \<and> length bs1 = length pkts \<and> locks_ok (lockedAddrList m') \<and>
    reservations (lockedAddrList m') = R \<and>
    (\<forall>i < length pkts. pk_cmd (pkts ! i) = StoreCondReq \<and> \<not> cacheResponding (pkts ! i) \<longrightarrow>
       rq_extraData (ps ! i) = Some (of_bool (bs1 ! i)))"
    using Cons.IH[of m1 ps bs1] one Cons.prems(2) r(2) s(2) by simp
  show ?case using one rest r(3) s(3) by (auto simp: nth_Cons split: nat.split)
qed simp

section \<open>Properties\<close>

text \<open>
  C21. The list of locked addresses implements one reservation per context: along any accesses from an
  empty list a conditional store succeeds exactly when the abstract machine of reservations says so, and
  the list stands for the reservations at the end. (Swaps and atomic operations release no reservation.)
\<close>

theorem locked_list_refines:
  assumes "lockedAddrList m = []" and "\<forall>pkt \<in> set pkts. isLLSC pkt \<longrightarrow> rq_contextId pkt \<noteq> None"
    and "access_run pkts m = Inr (pkts', m')"
  shows "reservations (lockedAddrList m') = snd (reserve_run pkts Map.empty) \<and>
    (\<forall>i < length pkts. pk_cmd (pkts ! i) = StoreCondReq \<and> \<not> cacheResponding (pkts ! i) \<longrightarrow>
       rq_extraData (pkts' ! i) = Some (of_bool (fst (reserve_run pkts Map.empty) ! i)))"
proof -
  obtain bs R where s: "reserve_run pkts Map.empty = (bs, R)" by (cases "reserve_run pkts Map.empty")
  have "locks_ok (lockedAddrList m)" using assms(1) by (simp add: locks_ok_def)
  then show ?thesis using access_run_ok[of m pkts pkts' m' bs R] assms s by simp
qed

definition plain_packet :: "mem_cmd \<Rightarrow> nat \<Rightarrow> addr \<Rightarrow> nat list \<Rightarrow> packet" where
  "plain_packet c ctx a bs = \<lparr>pk_cmd = c, pk_requestor = ctx, pk_qos = 0, pk_addr = a, pk_size = length bs,
     pk_data = bs, cacheResponding = False, headerDelay = 0, payloadDelay = 0, rq_paddr = a,
     rq_contextId = Some ctx, rq_extraData = None, rq_condSwap = False, rq_atomicOp = None,
     rq_instFetch = False, rq_byteEnable = []\<rparr>"

definition plain_mem :: "nat \<Rightarrow> abstract_mem" where
  "plain_mem n = \<lparr>am_subset = (\<lambda>a sz. a + sz \<le> n), am_data = Some (\<lambda>_. 0), lockedAddrList = [], am_cleared = [],
     am_numReads = (\<lambda>_. 0), am_numWrites = (\<lambda>_. 0), am_numOther = (\<lambda>_. 0), am_bytesRead = (\<lambda>_. 0),
     am_bytesInstRead = (\<lambda>_. 0), am_bytesWritten = (\<lambda>_. 0)\<rparr>"

text \<open>Two contexts reserve a line; the first store conditional succeeds, the second fails; a swap releases nothing.\<close>

theorem locked_list_refines_witness:
  "\<exists>pkts' m'. access_run [plain_packet LoadLockedReq 1 32 [0], plain_packet LoadLockedReq 2 33 [0],
      plain_packet SwapReq 3 34 [7], plain_packet StoreCondReq 1 35 [8], plain_packet StoreCondReq 2 36 [9]]
      (plain_mem 64) = Inr (pkts', m') \<and> rq_extraData (pkts' ! 3) = Some 1 \<and> rq_extraData (pkts' ! 4) = Some 0"
proof -
  let ?ps = "[plain_packet LoadLockedReq 1 32 [0], plain_packet LoadLockedReq 2 33 [0],
      plain_packet SwapReq 3 34 [7], plain_packet StoreCondReq 1 35 [8], plain_packet StoreCondReq 2 36 [9]]"
  obtain ps' m' where r: "access_run ?ps (plain_mem 64) = Inr (ps', m')"
    by (simp add: access_def access_read_def access_write_def access_swap_def writeOK_def checkLockedAddrList_def
        trackLoadLocked_def matchesContext_def lock_line_def plain_packet_def plain_mem_def testCmdAttrib_def
        makeResponse_def writeData_def isMaskedWrite_def mem_bytes_def Let_def)
  have "lockedAddrList (plain_mem 64) = []" "\<forall>pkt \<in> set ?ps. isLLSC pkt \<longrightarrow> rq_contextId pkt \<noteq> None"
    by (simp_all add: plain_mem_def plain_packet_def)
  from locked_list_refines[OF this r]
  have "\<forall>i < length ?ps. pk_cmd (?ps ! i) = StoreCondReq \<and> \<not> cacheResponding (?ps ! i) \<longrightarrow>
      rq_extraData (ps' ! i) = Some (of_bool (fst (reserve_run ?ps Map.empty) ! i))" by simp
  then have "rq_extraData (ps' ! 3) = Some (of_bool (fst (reserve_run ?ps Map.empty) ! 3))"
    "rq_extraData (ps' ! 4) = Some (of_bool (fst (reserve_run ?ps Map.empty) ! 4))"
    by (simp_all add: plain_packet_def All_less_Suc numeral_nat)
  moreover have "fst (reserve_run ?ps Map.empty) ! 3 = True" "fst (reserve_run ?ps Map.empty) ! 4 = False"
    by (simp_all add: reserve_step_def plain_packet_def testCmdAttrib_def lock_line_def release_def Let_def)
  ultimately show ?thesis using r by simp
qed

end
