(* ===== verification/Mem_Ctrl.thy ===== *)
theory Mem_Ctrl
  imports Qos_Safe RH_Config Abstract_Mem Dram_Iface Nvm_Iface
begin

text \<open>
  The memory controller (\<open>MemCtrl\<close> of \<open>mem/mem_ctrl.{hh,cc}\<close>), which ties the components together: it accepts
  packets of the system, splits them into bursts, asks the Rowhammer defense, queues the bursts, schedules
  them on the interfaces, and answers.
  This theory holds the definitions.

  A system packet is named by a number, which stands for the pointer; \<open>sysPackets\<close> holds the packets.
  What goes out through the port is recorded: \<open>responsesSent\<close> (packet and tick of \<open>schedTimingResp\<close>) and
  \<open>retriesSent\<close> (\<open>sendRetryReq\<close>). The handler of an event is given the state in which its event is no longer
  scheduled. An interface that is not there is \<open>None\<close> in the configuration, and its state is not used.
\<close>

section \<open>Configuration and state\<close>

datatype mem_sched = Fcfs | Frfcfs

record media =
  cc_dram :: "dram_cfg option"
  cc_nvm :: "nvm_cfg option"
  dram_contains :: "addr \<Rightarrow> bool"
  nvm_contains :: "addr \<Rightarrow> bool"
  dram_getOffset :: "addr \<Rightarrow> addr"
  nvm_getOffset :: "addr \<Rightarrow> addr"

record ctrl_cfg = media +
  ctrlReadBufferSize :: nat
  ctrlWriteBufferSize :: nat
  writeHighThreshold :: nat
  writeLowThreshold :: nat
  minWritesPerSwitch :: nat
  memSchedPolicy :: mem_sched
  frontendLatency :: tick
  backendLatency :: tick
  commandWindow :: tick
  rh_defense_enable :: bool
  ctrl_mitigation :: string

record ctrl_stats =
  st_readReqs :: nat
  st_writeReqs :: nat
  st_readBursts :: nat
  st_writeBursts :: nat
  st_servicedByWrQ :: nat
  st_mergedWrBursts :: nat
  st_avgRdQLen :: "nat list"
  st_avgWrQLen :: "nat list"
  st_numRdRetry :: nat
  st_numWrRetry :: nat
  st_readPktSize :: "nat \<Rightarrow> nat"
  st_writePktSize :: "nat \<Rightarrow> nat"
  st_rdQLenPdf :: "nat \<Rightarrow> nat"
  st_wrQLenPdf :: "nat \<Rightarrow> nat"
  st_rdPerTurnAround :: "nat list"
  st_wrPerTurnAround :: "nat list"
  st_bytesReadWrQ :: nat
  st_bytesReadSys :: nat
  st_bytesWrittenSys :: nat
  st_totGap :: nat
  st_requestorReadBytes :: "nat \<Rightarrow> nat"
  st_requestorWriteBytes :: "nat \<Rightarrow> nat"
  st_requestorReadAccesses :: "nat \<Rightarrow> nat"
  st_requestorWriteAccesses :: "nat \<Rightarrow> nat"
  st_requestorReadTotalLat :: "nat \<Rightarrow> nat"
  st_requestorWriteTotalLat :: "nat \<Rightarrow> nat"
  st_rh :: rh_copy

text \<open>
  \<open>helpers\<close> holds the burst helpers (\<open>burstCount\<close>, \<open>burstsServiced\<close>); \<open>junkDelays\<close> are the uninitialised
  delays of new memory packets, \<open>nextPacket\<close> and \<open>nextHelper\<close> the next free pointers.
\<close>

record 'd mem_ctrl = "'d qos" +
  isTimingMode :: bool
  retryRdReq :: bool
  retryWrReq :: bool
  readQueue :: "mem_packet list list"
  writeQueue :: "mem_packet list list"
  isInWriteQueue :: "addr set"
  respQueue :: "mem_packet list"
  burstTicks :: "tick multiset"
  rh_defense :: "defense option"
  dram_st :: dram
  nvm_st :: nvm
  dram_mem :: abstract_mem
  nvm_mem :: abstract_mem
  writesThisTime :: nat
  readsThisTime :: nat
  nextBurstAt :: tick
  prevArrival :: tick
  nextReqTime :: tick
  helpers :: "nat \<Rightarrow> (nat \<times> nat) option"
  nextHelper :: nat
  nextPacket :: nat
  junkDelays :: "nat \<Rightarrow> tick \<times> tick"
  sysPackets :: "nat \<Rightarrow> packet"
  responsesSent :: "(nat \<times> tick) list"
  retriesSent :: nat
  stats :: ctrl_stats

abbreviation upd_ctrl_stats :: "(ctrl_stats \<Rightarrow> ctrl_stats) \<Rightarrow> 'd mem_ctrl \<Rightarrow> 'd mem_ctrl" where
  "upd_ctrl_stats f s \<equiv> s\<lparr>stats := f (stats s)\<rparr>"

text \<open>The address ranges: which interface a packet belongs to.\<close>

definition in_dram :: "ctrl_cfg \<Rightarrow> addr \<Rightarrow> bool" where
  "in_dram c a = (cc_dram c \<noteq> None \<and> dram_contains c a)"

definition in_nvm :: "ctrl_cfg \<Rightarrow> addr \<Rightarrow> bool" where
  "in_nvm c a = (cc_nvm c \<noteq> None \<and> nvm_contains c a)"

abbreviation deref :: "'a option \<Rightarrow> ('a \<Rightarrow> 'b res) \<Rightarrow> 'b res" where
  "deref x k \<equiv> (case x of None \<Rightarrow> Inl Null_Deref | Some v \<Rightarrow> k v)"

definition burst_bytes :: "ctrl_cfg \<Rightarrow> bool \<Rightarrow> nat res" where
  "burst_bytes c is_dram =
     (if is_dram then deref (cc_dram c) (\<lambda>d. Inr (burstSize d)) else deref (cc_nvm c) (\<lambda>d. Inr (burstSize d)))"

section \<open>Construction\<close>

text \<open>The parameters of the controller; the buffer sizes are those of its interfaces.\<close>

record 'd ctrl_params =
  write_high_thresh_perc :: nat
  write_low_thresh_perc :: nat
  min_writes_per_switch :: nat
  mem_sched_policy :: mem_sched
  static_frontend_latency :: tick
  static_backend_latency :: tick
  command_window :: tick
  rh_defense_param :: bool
  rh_config :: rh_params
  qos_policy_param :: "'d qos_policy option"
  qos_turnaround_policy :: bool
  qos_priorities :: nat
  qos_priority_escalation :: bool
  qos_syncro_scheduler :: bool

definition zero_ctrl_stats :: "rh_copy \<Rightarrow> ctrl_stats" where
  "zero_ctrl_stats rh =
     \<lparr>st_readReqs = 0, st_writeReqs = 0, st_readBursts = 0, st_writeBursts = 0, st_servicedByWrQ = 0,
      st_mergedWrBursts = 0, st_avgRdQLen = [], st_avgWrQLen = [], st_numRdRetry = 0, st_numWrRetry = 0,
      st_readPktSize = (\<lambda>_. 0), st_writePktSize = (\<lambda>_. 0), st_rdQLenPdf = (\<lambda>_. 0), st_wrQLenPdf = (\<lambda>_. 0),
      st_rdPerTurnAround = [], st_wrPerTurnAround = [], st_bytesReadWrQ = 0, st_bytesReadSys = 0,
      st_bytesWrittenSys = 0, st_totGap = 0, st_requestorReadBytes = (\<lambda>_. 0), st_requestorWriteBytes = (\<lambda>_. 0),
      st_requestorReadAccesses = (\<lambda>_. 0), st_requestorWriteAccesses = (\<lambda>_. 0),
      st_requestorReadTotalLat = (\<lambda>_. 0), st_requestorWriteTotalLat = (\<lambda>_. 0), st_rh = rh\<rparr>"

text \<open>\<open>setCtrl\<close>: the commands that fit in a window.\<close>

definition setCtrl :: "tick \<Rightarrow> 'a mem_cfg_scheme \<Rightarrow> 'a mem_cfg_scheme res" where
  "setCtrl window d = rnonzero (tCK d) (Inr (d\<lparr>maxCommandsPerWindow := window mod u32_size div tCK d mod u32_size\<rparr>))"

definition set_both :: "tick \<Rightarrow> media \<Rightarrow> media res" where
  "set_both window m =
     rbind (case cc_dram m of None \<Rightarrow> Inr None | Some d \<Rightarrow> rbind (setCtrl window d) (\<lambda>d'. Inr (Some d'))) (\<lambda>d.
     rbind (case cc_nvm m of None \<Rightarrow> Inr None | Some e \<Rightarrow> rbind (setCtrl window e) (\<lambda>e'. Inr (Some e'))) (\<lambda>e.
       Inr (m\<lparr>cc_dram := d, cc_nvm := e\<rparr>)))"

definition buffer_bytes :: "(dram_cfg \<Rightarrow> nat) \<Rightarrow> (nvm_cfg \<Rightarrow> nat) \<Rightarrow> media \<Rightarrow> nat" where
  "buffer_bytes f g m = (case cc_dram m of Some d \<Rightarrow> f d | None \<Rightarrow> 0) + (case cc_nvm m of Some e \<Rightarrow> g e | None \<Rightarrow> 0)"

text \<open>
  The constructor. \<open>dr\<close>, \<open>nv\<close>, \<open>dm\<close> and \<open>nm\<close> are the states of the interfaces and their memories, \<open>junk\<close>
  the uninitialised delays of memory packets. The last statement prints the organisation of the DRAM.
\<close>

definition new_ctrl ::
    "'d ctrl_params \<Rightarrow> rh_junk \<Rightarrow> (nat \<Rightarrow> tick \<times> tick) \<Rightarrow> rh_copy \<Rightarrow> (nat \<Rightarrow> packet) \<Rightarrow> media \<Rightarrow>
     dram \<times> nvm \<times> abstract_mem \<times> abstract_mem \<Rightarrow> (ctrl_cfg \<times> 'd mem_ctrl) res" where
  "new_ctrl p j junk rh pkts m0 x =
     rbind (set_both (command_window p) m0) (\<lambda>m.
      fatal_if (cc_dram m = None \<and> cc_nvm m = None)
      (fatal_if (write_high_thresh_perc p \<le> write_low_thresh_perc p)
      (rbind (if rh_defense_param p
              then rbind (new_defense (rh_config p) j (cc_dram m)) (\<lambda>d. Inr (Some d)) else Inr None) (\<lambda>def.
       deref (cc_dram m) (\<lambda>_.
       let wb = buffer_bytes writeBufferSize writeBufferSize m mod u32_size
       in Inr (media.extend m (ctrl_cfg.fields (buffer_bytes readBufferSize readBufferSize m mod u32_size) wb
                 (wb * write_high_thresh_perc p mod u32_size div 100) (wb * write_low_thresh_perc p mod u32_size div 100)
                 (min_writes_per_switch p) (mem_sched_policy p) (static_frontend_latency p) (static_backend_latency p)
                 (command_window p) (rh_defense_param p) (rh_mitigation (rh_config p))),
               qos.extend (new_qos (qos_policy_param p) (qos_turnaround_policy p) (qos_priority_escalation p)
                   (qos_syncro_scheduler p) (qos_priorities p))
                 (case x of (dr, nv, dm, nm) \<Rightarrow>
                    mem_ctrl.fields False False False (replicate (qos_priorities p) []) (replicate (qos_priorities p) [])
                      {} [] {#} def dr nv dm nm 0 0 0 0 0 (\<lambda>_. None) 0 0 junk pkts [] 0 (zero_ctrl_stats rh))))))))"

section \<open>Answers\<close>

definition accessAndRespond :: "ctrl_cfg \<Rightarrow> tick \<Rightarrow> nat \<Rightarrow> tick \<Rightarrow> 'd mem_ctrl \<Rightarrow> 'd mem_ctrl res" where
  "accessAndRespond c now n static_latency s =
     (let pkt = sysPackets s n in
      rbind (if in_dram c (pk_addr pkt)
             then rbind (access pkt (dram_mem s)) (\<lambda>(p, m). Inr (p, s\<lparr>dram_mem := m\<rparr>))
             else if in_nvm c (pk_addr pkt)
             then rbind (access pkt (nvm_mem s)) (\<lambda>(p, m). Inr (p, s\<lparr>nvm_mem := m\<rparr>))
             else Inl Panic) (\<lambda>(p, s1).
      if needsResponse pkt
      then rassert (isResponse p)
        (let response_time = now + static_latency + headerDelay p + payloadDelay p
         in Inr (s1\<lparr>sysPackets := (sysPackets s1)(n := p\<lparr>headerDelay := 0, payloadDelay := 0\<rparr>),
                    responsesSent := responsesSent s1 @ [(n, response_time)]\<rparr>))
      else Inr (s1\<lparr>sysPackets := (sysPackets s1)(n := p)\<rparr>)))"

definition recvAtomic :: "ctrl_cfg \<Rightarrow> packet \<Rightarrow> 'd mem_ctrl \<Rightarrow> (tick \<times> packet \<times> 'd mem_ctrl) res" where
  "recvAtomic c pkt s =
     (if cacheResponding pkt then Inl Panic
      else if in_dram c (pk_addr pkt)
      then rbind (access pkt (dram_mem s)) (\<lambda>(p, m).
        Inr (if hasData p then accessLatency (the (cc_dram c)) else 0, p, s\<lparr>dram_mem := m\<rparr>))
      else if in_nvm c (pk_addr pkt)
      then rbind (access pkt (nvm_mem s)) (\<lambda>(p, m).
        Inr (if hasData p then nvm_accessLatency (the (cc_nvm c)) else 0, p, s\<lparr>nvm_mem := m\<rparr>))
      else Inl Panic)"

definition recvFunctional :: "ctrl_cfg \<Rightarrow> packet \<Rightarrow> 'd mem_ctrl \<Rightarrow> (packet \<times> 'd mem_ctrl) res" where
  "recvFunctional c pkt s =
     (if in_dram c (pk_addr pkt)
      then rbind (functionalAccess pkt (dram_mem s)) (\<lambda>(p, m). Inr (p, s\<lparr>dram_mem := m\<rparr>))
      else if in_nvm c (pk_addr pkt)
      then rbind (functionalAccess pkt (nvm_mem s)) (\<lambda>(p, m). Inr (p, s\<lparr>nvm_mem := m\<rparr>))
      else Inl Panic)"

section \<open>Arrival of a packet\<close>

definition readQueueFull :: "ctrl_cfg \<Rightarrow> nat \<Rightarrow> 'd mem_ctrl \<Rightarrow> bool" where
  "readQueueFull c needed s = (ctrlReadBufferSize c < totalReadQueueSize s + length (respQueue s) + needed)"

definition writeQueueFull :: "ctrl_cfg \<Rightarrow> nat \<Rightarrow> 'd mem_ctrl \<Rightarrow> bool" where
  "writeQueueFull c needed s = (ctrlWriteBufferSize c < totalWriteQueueSize s + needed)"

text \<open>The decoded memory packet of a burst, after the defense has seen it and its rank has been told.\<close>

definition make_packet ::
    "ctrl_cfg \<Rightarrow> tick \<Rightarrow> bool \<Rightarrow> bool \<Rightarrow> nat \<Rightarrow> packet \<Rightarrow> addr \<Rightarrow> nat \<Rightarrow> 'd mem_ctrl \<Rightarrow> (mem_packet \<times> 'd mem_ctrl) res" where
  "make_packet c now is_dram is_read n pkt a sz s =
     (let junk = (nextPacket s, junkDelays s (nextPacket s));
          s0 = s\<lparr>nextPacket := nextPacket s + 1\<rparr>
      in if is_dram
         then deref (cc_dram c) (\<lambda>d.
           rbind (decodePacket (geometry.truncate d) (dram_getOffset c) junk now (n, pk_requestor pkt, pk_qos pkt)
                    a sz is_read True) (\<lambda>mp.
           rbind (defend (rh_defense_enable c) (ctrl_mitigation c) now (mp, rh_defense s0)) (\<lambda>(mp1, def).
           rbind (setupRank (mp_rank mp1) is_read (dram_st s0)) (\<lambda>dr.
             Inr (mp1, s0\<lparr>rh_defense := def, dram_st := dr\<rparr>)))))
         else deref (cc_nvm c) (\<lambda>d.
           rbind (decodePacket (geometry.truncate d) (nvm_getOffset c) junk now (n, pk_requestor pkt, pk_qos pkt)
                    a sz is_read False) (\<lambda>mp.
             Inr (if is_read then mp\<lparr>readyTime := MaxTick\<rparr> else mp,
                  s0\<lparr>nvm_st := nvm_setupRank is_read (nvm_st s0)\<rparr>))))"

text \<open>
  The search of the write queue: the number of priorities with a write that covers the burst (the inner
  loop is left at the first, the outer is not).
\<close>

definition covers :: "addr \<Rightarrow> nat \<Rightarrow> mem_packet \<Rightarrow> bool" where
  "covers a sz p = (mp_addr p \<le> a \<and> a + sz \<le> mp_addr p + mp_size p)"

definition wrq_hits :: "nat \<Rightarrow> addr \<Rightarrow> nat \<Rightarrow> 'd mem_ctrl \<Rightarrow> nat" where
  "wrq_hits bs a sz s =
     (if burstAlign bs a \<in> isInWriteQueue s
      then length (filter (\<lambda>q. \<exists>p \<in> set q. covers a sz p) (writeQueue s)) else 0)"

definition push_read :: "ctrl_cfg \<Rightarrow> tick \<Rightarrow> packet \<Rightarrow> mem_packet \<Rightarrow> 'd mem_ctrl \<Rightarrow> 'd mem_ctrl res" where
  "push_read c now pkt mp s =
     rassert (\<not> readQueueFull c 1 s)
      (let k = totalReadQueueSize s + length (respQueue s);
           s1 = upd_ctrl_stats (\<lambda>st. st\<lparr>st_rdQLenPdf := count_at k 1 (st_rdQLenPdf st)\<rparr>) s
       in rindex (mp_qos mp < length (readQueue s1))
        (rbind (logRequest now READ (pk_requestor pkt) (pk_qos pkt) (mp_addr mp) 1
                 (s1\<lparr>readQueue := push_pkt mp (readQueue s1)\<rparr>)) (\<lambda>s2.
          Inr (upd_ctrl_stats (\<lambda>st. st\<lparr>st_avgRdQLen := st_avgRdQLen st @
                 [totalReadQueueSize s2 + length (respQueue s2)]\<rparr>) s2))))"

text \<open>One burst of a read; \<open>serviced\<close> are the bursts found in the write queue, \<open>bh\<close> the burst helper.\<close>

definition add_read_burst ::
    "ctrl_cfg \<Rightarrow> tick \<Rightarrow> bool \<Rightarrow> nat \<Rightarrow> packet \<Rightarrow> nat \<Rightarrow> nat \<Rightarrow> addr \<Rightarrow> nat \<times> nat option \<times> 'd mem_ctrl \<Rightarrow>
     (nat \<times> nat option \<times> 'd mem_ctrl) res" where
  "add_read_burst c now is_dram n pkt bs pkt_count a x =
     (case x of (serviced, bh, s) \<Rightarrow>
      let sz = min (next_burst bs a) (pk_addr pkt + pk_size pkt) - a in
      rbind (ceilLog2 sz) (\<lambda>l.
      let hits = wrq_hits bs a sz s;
          s1 = upd_ctrl_stats (\<lambda>st. st\<lparr>st_readPktSize := count_at l 1 (st_readPktSize st),
                 st_readBursts := st_readBursts st + 1,
                 st_requestorReadAccesses := count_at (pk_requestor pkt) 1 (st_requestorReadAccesses st),
                 st_servicedByWrQ := st_servicedByWrQ st + hits,
                 st_bytesReadWrQ := st_bytesReadWrQ st + hits * bs\<rparr>) s
      in if 0 < hits then Inr (serviced + hits, bh, s1)
         else
          let (bh', s2) = (if 1 < pkt_count \<and> bh = None
             then (Some (nextHelper s1), s1\<lparr>helpers := (helpers s1)(nextHelper s1 \<mapsto> (pkt_count, 0)),
                     nextHelper := nextHelper s1 + 1\<rparr>)
             else (bh, s1))
          in rbind (make_packet c now is_dram True n pkt a sz s2) (\<lambda>(mp, s3).
             rbind (push_read c now pkt (mp\<lparr>mp_helper := bh'\<rparr>) s3) (\<lambda>s4. Inr (serviced, bh', s4)))))"

fun add_read_bursts ::
    "ctrl_cfg \<Rightarrow> tick \<Rightarrow> bool \<Rightarrow> nat \<Rightarrow> packet \<Rightarrow> nat \<Rightarrow> nat \<Rightarrow> nat \<Rightarrow> addr \<Rightarrow> nat \<times> nat option \<times> 'd mem_ctrl \<Rightarrow>
     (nat \<times> nat option \<times> 'd mem_ctrl) res" where
  "add_read_bursts c now is_dram n pkt bs pkt_count 0 a x = Inr x"
| "add_read_bursts c now is_dram n pkt bs pkt_count (Suc k) a x =
     rbind (add_read_burst c now is_dram n pkt bs pkt_count a x)
       (add_read_bursts c now is_dram n pkt bs pkt_count k (next_burst bs a))"

definition kick_request :: "tick \<Rightarrow> 'd mem_ctrl \<Rightarrow> 'd mem_ctrl res" where
  "kick_request now s =
     (if nextReqEvent s = None
      then rbind (schedule now now (nextReqEvent s)) (\<lambda>ev. Inr (s\<lparr>nextReqEvent := ev\<rparr>)) else Inr s)"

definition addToReadQueue :: "ctrl_cfg \<Rightarrow> tick \<Rightarrow> nat \<Rightarrow> nat \<Rightarrow> bool \<Rightarrow> 'd mem_ctrl \<Rightarrow> 'd mem_ctrl res" where
  "addToReadQueue c now n pkt_count is_dram s =
     (let pkt = sysPackets s n in
      rassert (\<not> isWrite pkt) (rassert (pkt_count \<noteq> 0)
       (rbind (burst_bytes c is_dram) (\<lambda>bs.
        rbind (add_read_bursts c now is_dram n pkt bs pkt_count pkt_count (pk_addr pkt) (0, None, s))
         (\<lambda>(serviced, bh, s1).
          if serviced = pkt_count then accessAndRespond c now n (frontendLatency c) s1
          else kick_request now (case bh of None \<Rightarrow> s1
            | Some h \<Rightarrow> s1\<lparr>helpers := (helpers s1)(h := map_option (\<lambda>(cnt, _). (cnt, serviced)) (helpers s1 h))\<rparr>))))))"

definition push_write :: "ctrl_cfg \<Rightarrow> tick \<Rightarrow> packet \<Rightarrow> nat \<Rightarrow> addr \<Rightarrow> mem_packet \<Rightarrow> 'd mem_ctrl \<Rightarrow> 'd mem_ctrl res" where
  "push_write c now pkt bs a mp s =
     rassert (totalWriteQueueSize s < ctrlWriteBufferSize c)
      (let s1 = upd_ctrl_stats (\<lambda>st. st\<lparr>st_wrQLenPdf := count_at (totalWriteQueueSize s) 1 (st_wrQLenPdf st)\<rparr>) s
       in rindex (mp_qos mp < length (writeQueue s1))
        (rbind (logRequest now WRITE (pk_requestor pkt) (pk_qos pkt) (mp_addr mp) 1
                 (s1\<lparr>writeQueue := push_pkt mp (writeQueue s1),
                     isInWriteQueue := insert (burstAlign bs a) (isInWriteQueue s1)\<rparr>)) (\<lambda>s2.
         rassert (totalWriteQueueSize s2 = card (isInWriteQueue s2))
          (Inr (upd_ctrl_stats (\<lambda>st. st\<lparr>st_avgWrQLen := st_avgWrQLen st @ [totalWriteQueueSize s2]\<rparr>) s2)))))"

definition add_write_burst ::
    "ctrl_cfg \<Rightarrow> tick \<Rightarrow> bool \<Rightarrow> nat \<Rightarrow> packet \<Rightarrow> nat \<Rightarrow> addr \<Rightarrow> 'd mem_ctrl \<Rightarrow> 'd mem_ctrl res" where
  "add_write_burst c now is_dram n pkt bs a s =
     (let sz = min (next_burst bs a) (pk_addr pkt + pk_size pkt) - a in
      rbind (ceilLog2 sz) (\<lambda>l.
      let s1 = upd_ctrl_stats (\<lambda>st. st\<lparr>st_writePktSize := count_at l 1 (st_writePktSize st),
                 st_writeBursts := st_writeBursts st + 1,
                 st_requestorWriteAccesses := count_at (pk_requestor pkt) 1 (st_requestorWriteAccesses st)\<rparr>) s
      in if burstAlign bs a \<in> isInWriteQueue s
         then Inr (upd_ctrl_stats (\<lambda>st. st\<lparr>st_mergedWrBursts := st_mergedWrBursts st + 1\<rparr>) s1)
         else rbind (make_packet c now is_dram False n pkt a sz s1) (\<lambda>(mp, s2). push_write c now pkt bs a mp s2)))"

fun add_write_bursts ::
    "ctrl_cfg \<Rightarrow> tick \<Rightarrow> bool \<Rightarrow> nat \<Rightarrow> packet \<Rightarrow> nat \<Rightarrow> nat \<Rightarrow> addr \<Rightarrow> 'd mem_ctrl \<Rightarrow> 'd mem_ctrl res" where
  "add_write_bursts c now is_dram n pkt bs 0 a s = Inr s"
| "add_write_bursts c now is_dram n pkt bs (Suc k) a s =
     rbind (add_write_burst c now is_dram n pkt bs a s)
       (add_write_bursts c now is_dram n pkt bs k (next_burst bs a))"

definition addToWriteQueue :: "ctrl_cfg \<Rightarrow> tick \<Rightarrow> nat \<Rightarrow> nat \<Rightarrow> bool \<Rightarrow> 'd mem_ctrl \<Rightarrow> 'd mem_ctrl res" where
  "addToWriteQueue c now n pkt_count is_dram s =
     (let pkt = sysPackets s n in
      rassert (isWrite pkt)
       (rbind (burst_bytes c is_dram) (\<lambda>bs.
        rbind (add_write_bursts c now is_dram n pkt bs pkt_count (pk_addr pkt) s) (\<lambda>s1.
        rbind (accessAndRespond c now n (frontendLatency c) s1) (kick_request now)))))"

text \<open>\<open>recvTimingReq\<close>: whether the packet, called \<open>n\<close> from now on, is accepted.\<close>

definition accept_packet :: "ctrl_cfg \<Rightarrow> tick \<Rightarrow> nat \<Rightarrow> nat \<Rightarrow> bool \<Rightarrow> 'd mem_ctrl \<Rightarrow> (bool \<times> 'd mem_ctrl) res" where
  "accept_packet c now n pkt_count is_dram s =
     (let pkt = sysPackets s n; sz = pk_size pkt in
      if isWrite pkt
      then rassert (sz \<noteq> 0)
        (if writeQueueFull c pkt_count s
         then Inr (False, upd_ctrl_stats (\<lambda>st. st\<lparr>st_numWrRetry := st_numWrRetry st + 1\<rparr>) (s\<lparr>retryWrReq := True\<rparr>))
         else rbind (addToWriteQueue c now n pkt_count is_dram s) (\<lambda>s1.
           Inr (True, upd_ctrl_stats (\<lambda>st. st\<lparr>st_writeReqs := st_writeReqs st + 1,
             st_bytesWrittenSys := st_bytesWrittenSys st + sz\<rparr>) s1)))
      else rassert (isRead pkt) (rassert (sz \<noteq> 0)
        (if readQueueFull c pkt_count s
         then Inr (False, upd_ctrl_stats (\<lambda>st. st\<lparr>st_numRdRetry := st_numRdRetry st + 1\<rparr>) (s\<lparr>retryRdReq := True\<rparr>))
         else rbind (addToReadQueue c now n pkt_count is_dram s) (\<lambda>s1.
           Inr (True, upd_ctrl_stats (\<lambda>st. st\<lparr>st_readReqs := st_readReqs st + 1,
             st_bytesReadSys := st_bytesReadSys st + sz\<rparr>) s1)))))"

definition note_arrival :: "tick \<Rightarrow> 'd mem_ctrl \<Rightarrow> 'd mem_ctrl" where
  "note_arrival now s =
     (if prevArrival s \<noteq> 0
      then upd_ctrl_stats (\<lambda>st. st\<lparr>st_totGap := st_totGap st + sub_tick now (prevArrival s)\<rparr>) s
      else s)\<lparr>prevArrival := now\<rparr>"

definition recvTimingReq :: "ctrl_cfg \<Rightarrow> tick \<Rightarrow> nat \<Rightarrow> packet \<Rightarrow> ('d::linorder) mem_ctrl \<Rightarrow> (bool \<times> 'd mem_ctrl) res" where
  "recvTimingReq c now n pkt s =
     (if cacheResponding pkt then Inl Panic
      else if \<not> (isRead pkt \<or> isWrite pkt) then Inl Panic
      else let s0 = note_arrival now s in
      if \<not> in_dram c (pk_addr pkt) \<and> \<not> in_nvm c (pk_addr pkt) then Inl Panic
      else let is_dram = in_dram c (pk_addr pkt) in
      rbind (burst_bytes c is_dram) (\<lambda>bs.
      rnonzero bs
       (let pkt_count = burst_count bs (pk_addr pkt) (pk_size pkt) in
        rbind (qosSchedule bs now (pk_requestor pkt) (pk_size pkt) (pk_qos pkt) (readQueue s0, writeQueue s0, s0))
         (\<lambda>(prio, rq, wq, s1).
          accept_packet c now n pkt_count is_dram
            (s1\<lparr>readQueue := rq, writeQueue := wq,
                sysPackets := (sysPackets s1)(n := pkt\<lparr>pk_qos := prio\<rparr>)\<rparr>)))))"

section \<open>Draining\<close>

definition allIntfDrained :: "ctrl_cfg \<Rightarrow> 'd mem_ctrl \<Rightarrow> bool" where
  "allIntfDrained c s =
     ((cc_dram c = None \<or> allRanksDrained (dram_st s)) \<and> (cc_nvm c = None \<or> writeRespQueueEmpty (nvm_st s)))"

definition signalDrainDone :: "'d mem_ctrl \<Rightarrow> 'd mem_ctrl" where
  "signalDrainDone s = (if drainState s = Draining then s\<lparr>drainState := Drained\<rparr> else s)"

definition drain :: "ctrl_cfg \<Rightarrow> tick \<Rightarrow> 'd mem_ctrl \<Rightarrow> (drain_state \<times> 'd mem_ctrl) res" where
  "drain c now s =
     (if \<not> (totalWriteQueueSize s = 0 \<and> totalReadQueueSize s = 0 \<and> respQueue s = [] \<and> allIntfDrained c s)
      then rbind (if totalWriteQueueSize s = 0 then kick_request now s else Inr s) (\<lambda>s1.
           rbind (case cc_dram c of
                    None \<Rightarrow> Inr s1
                  | Some d \<Rightarrow> rbind (drainRanks d now (dram_st s1)) (\<lambda>dr. Inr (s1\<lparr>dram_st := dr\<rparr>))) (\<lambda>s2.
           Inr (Draining, s2)))
      else Inr (Drained, s))"

text \<open>\<open>Drainable::dmDrain\<close>, which calls it.\<close>

definition dmDrain :: "ctrl_cfg \<Rightarrow> tick \<Rightarrow> 'd mem_ctrl \<Rightarrow> 'd mem_ctrl res" where
  "dmDrain c now s =
     rbind (drain c now (s\<lparr>drainState := Draining\<rparr>)) (\<lambda>(d, s1). Inr (s1\<lparr>drainState := d\<rparr>))"

definition startup :: "ctrl_cfg \<Rightarrow> bool \<Rightarrow> tick \<Rightarrow> 'd mem_ctrl \<Rightarrow> 'd mem_ctrl res" where
  "startup c timing now s =
     (if timing
      then rbind (case cc_dram c of
               Some d \<Rightarrow> Inr (commandOffset d)
             | None \<Rightarrow> deref (cc_nvm c) (\<lambda>d. Inr (nvm_commandOffset d))) (\<lambda>off.
           Inr (s\<lparr>isTimingMode := timing, nextBurstAt := now + off\<rparr>))
      else Inr (s\<lparr>isTimingMode := timing\<rparr>))"

definition drainResume :: "ctrl_cfg \<Rightarrow> bool \<Rightarrow> tick \<Rightarrow> 'd mem_ctrl \<Rightarrow> 'd mem_ctrl res" where
  "drainResume c timing now s =
     rbind (if \<not> isTimingMode s \<and> timing
            then rbind (startup c timing now s) (\<lambda>s1.
                 deref (cc_dram c) (\<lambda>d.
                 rbind (dram_startup d timing now (dram_st s1)) (\<lambda>dr. Inr (s1\<lparr>dram_st := dr\<rparr>))))
            else if isTimingMode s \<and> \<not> timing
            then (case cc_dram c of
                    None \<Rightarrow> Inr s
                  | Some d \<Rightarrow> rbind (dram_suspend d now (dram_st s)) (\<lambda>dr. Inr (s\<lparr>dram_st := dr\<rparr>)))
            else Inr s) (\<lambda>s1.
       Inr (s1\<lparr>isTimingMode := timing\<rparr>))"

section \<open>Responses\<close>

text \<open>
  \<open>processRespondEvent\<close>. The packet is deleted before its interface and rank are read a second time; the
  model uses the values it had.
\<close>

definition respond_latency :: "ctrl_cfg \<Rightarrow> mem_packet \<Rightarrow> 'd mem_ctrl \<Rightarrow> tick" where
  "respond_latency c mp s =
     (if rh_defense_enable c \<and> isRequest (sysPackets s (mp_pkt mp))
      then rh_SRAMDelay mp + frontendLatency c + backendLatency c else frontendLatency c + backendLatency c)"

definition respond_packet :: "ctrl_cfg \<Rightarrow> tick \<Rightarrow> mem_packet \<Rightarrow> 'd mem_ctrl \<Rightarrow> 'd mem_ctrl res" where
  "respond_packet c now mp s =
     (case mp_helper mp of
        None \<Rightarrow> accessAndRespond c now (mp_pkt mp) (respond_latency c mp s) s
      | Some h \<Rightarrow>
          (case helpers s h of
             None \<Rightarrow> Inl Out_Of_Bounds
           | Some (cnt, serviced) \<Rightarrow>
               let s1 = s\<lparr>helpers := (helpers s)(h \<mapsto> (cnt, serviced + 1))\<rparr>
               in if serviced + 1 = cnt
                  then rbind (accessAndRespond c now (mp_pkt mp) (respond_latency c mp s1) s1) (\<lambda>s2.
                       Inr (s2\<lparr>helpers := (helpers s2)(h := None)\<rparr>))
                  else Inr s1))"

definition after_response :: "ctrl_cfg \<Rightarrow> tick \<Rightarrow> mem_packet \<Rightarrow> 'd mem_ctrl \<Rightarrow> 'd mem_ctrl res" where
  "after_response c now mp s =
     (case respQueue s of
        q # _ \<Rightarrow> rassert (now \<le> readyTime q)
          (rbind (schedule now (readyTime q) (respondEvent s)) (\<lambda>ev. Inr (s\<lparr>respondEvent := ev\<rparr>)))
      | [] \<Rightarrow>
          if drainState s = Draining \<and> totalWriteQueueSize s = 0 \<and> totalReadQueueSize s = 0 \<and> allIntfDrained c s
          then Inr (signalDrainDone s)
          else if mp_dram mp
          then rbind (checkRefreshState now (mp_rank mp) (dram_st s)) (\<lambda>dr. Inr (s\<lparr>dram_st := dr\<rparr>))
          else Inr s)"

definition processRespondEvent :: "ctrl_cfg \<Rightarrow> tick \<Rightarrow> 'd mem_ctrl \<Rightarrow> 'd mem_ctrl res" where
  "processRespondEvent c now s =
     (case respQueue s of
        [] \<Rightarrow> Inl Out_Of_Bounds
      | mp # q \<Rightarrow>
          rbind (if mp_dram mp
                 then deref (cc_dram c) (\<lambda>d.
                   rbind (respondEvent_dram d (ctrl_view.truncate s) now (mp_rank mp) (dram_st s)) (\<lambda>dr.
                     Inr (s\<lparr>dram_st := dr\<rparr>)))
                 else Inr s) (\<lambda>s1.
          rbind (respond_packet c now mp s1) (\<lambda>s2.
          rbind (after_response c now mp (s2\<lparr>respQueue := q\<rparr>)) (\<lambda>s3.
            Inr (if retryRdReq s3 then s3\<lparr>retryRdReq := False, retriesSent := retriesSent s3 + 1\<rparr> else s3)))))"

section \<open>Choosing the next burst\<close>

definition packetReady :: "ctrl_cfg \<Rightarrow> tick \<Rightarrow> mem_packet \<Rightarrow> 'd mem_ctrl \<Rightarrow> bool res" where
  "packetReady c now mp s =
     (if mp_dram mp
      then deref (cc_dram c) (\<lambda>_. rindex (mp_rank mp < length (ranks (dram_st s)))
             (Inr (burstReady (ranks (dram_st s)) mp)))
      else deref (cc_nvm c) (\<lambda>d. Inr (nvm_burstReady d (ctrl_view.truncate s) now (nvm_st s) mp)))"

fun first_ready :: "ctrl_cfg \<Rightarrow> tick \<Rightarrow> 'd mem_ctrl \<Rightarrow> mem_packet list \<Rightarrow> nat \<Rightarrow> nat option res" where
  "first_ready c now s [] i = Inr None"
| "first_ready c now s (mp # q) i =
     rbind (packetReady c now mp s) (\<lambda>b. if b then Inr (Some i) else first_ready c now s q (i + 1))"

definition choose_frfcfs :: "ctrl_cfg \<Rightarrow> tick \<Rightarrow> mem_packet list \<Rightarrow> tick \<Rightarrow> 'd mem_ctrl \<Rightarrow> nat option res" where
  "choose_frfcfs c now queue extra_col_delay s =
     (let min_col_at = max (nextBurstAt s + extra_col_delay) now;
          v = ctrl_view.truncate s;
          choose_dram = (\<lambda>d. chooseNextFRFCFS d now (inReadBusState v False) (ranks (dram_st s)) queue min_col_at);
          choose_nvm = (\<lambda>d. nvm_chooseNextFRFCFS d v now (nvm_st s) queue min_col_at)
      in case (cc_dram c, cc_nvm c) of
          (Some d, Some e) \<Rightarrow>
            rbind (choose_dram d) (\<lambda>(selected, col_allowed_at).
            rbind (choose_nvm e) (\<lambda>(nvm_pkt, nvm_col_at).
              Inr (if nvm_col_at < col_allowed_at then nvm_pkt else selected)))
        | (Some d, None) \<Rightarrow> rbind (choose_dram d) (\<lambda>(selected, _). Inr selected)
        | (None, Some e) \<Rightarrow> rbind (choose_nvm e) (\<lambda>(selected, _). Inr selected)
        | (None, None) \<Rightarrow> Inr None)"

definition chooseNext :: "ctrl_cfg \<Rightarrow> tick \<Rightarrow> mem_packet list \<Rightarrow> tick \<Rightarrow> 'd mem_ctrl \<Rightarrow> nat option res" where
  "chooseNext c now queue extra_col_delay s =
     (case queue of
        [] \<Rightarrow> Inr None
      | [mp] \<Rightarrow> rbind (packetReady c now mp s) (\<lambda>b. Inr (if b then Some 0 else None))
      | _ \<Rightarrow> (case memSchedPolicy c of
            Fcfs \<Rightarrow> first_ready c now s queue 0
          | Frfcfs \<Rightarrow> choose_frfcfs c now queue extra_col_delay s))"

text \<open>The loop over the priorities, the highest first.\<close>

fun choose_prio ::
    "ctrl_cfg \<Rightarrow> tick \<Rightarrow> mem_packet list list \<Rightarrow> tick \<Rightarrow> 'd mem_ctrl \<Rightarrow> nat list \<Rightarrow> (nat \<times> nat) option res" where
  "choose_prio c now qs delay s [] = Inr None"
| "choose_prio c now qs delay s (p # ps) =
     rbind (chooseNext c now (qs ! p) delay s) (\<lambda>r.
       case r of Some i \<Rightarrow> Inr (Some (p, i)) | None \<Rightarrow> choose_prio c now qs delay s ps)"

definition ctrl_gap :: "(dram_cfg \<Rightarrow> tick) \<Rightarrow> (nvm_cfg \<Rightarrow> tick) \<Rightarrow> ctrl_cfg \<Rightarrow> tick" where
  "ctrl_gap f g c = min (case cc_dram c of Some d \<Rightarrow> f d | None \<Rightarrow> MaxTick) (case cc_nvm c of Some e \<Rightarrow> g e | None \<Rightarrow> MaxTick)"

section \<open>Issuing a burst\<close>

definition burst_dram :: "ctrl_cfg \<Rightarrow> tick \<Rightarrow> mem_packet \<Rightarrow> 'd mem_ctrl \<Rightarrow> (mem_packet \<times> 'd mem_ctrl) res" where
  "burst_dram c now mp s =
     deref (cc_dram c) (\<lambda>d.
     let next_at = nextBurstAt s + rh_bubble (rh_defense_enable c) mp in
     rbind (if rh_defense_enable c
            then deref (rh_defense s) (\<lambda>def. Inr (if s_num_accesses (defense_stats def) mod 100 = 0
                   then upd_ctrl_stats (\<lambda>st. st\<lparr>st_rh := copy_rh_stats (ctrl_mitigation c) def (st_rh st)\<rparr>) s
                   else s))
            else Inr s) (\<lambda>s1.
     rbind (doBurstAccess d (commandWindow c) now mp next_at
              (if mp_read mp then readQueue s1 else writeQueue s1) (dram_st s1, burstTicks s1))
       (\<lambda>((cmd_at, next), mp', dr, bt).
        Inr (mp', s1\<lparr>nextBurstAt := next, dram_st := dr, burstTicks := bt,
               nvm_st := (case cc_nvm c of None \<Rightarrow> nvm_st s1 | Some e \<Rightarrow> nvm_addRankToRankDelay e cmd_at (nvm_st s1))\<rparr>))))"

definition burst_nvm :: "ctrl_cfg \<Rightarrow> tick \<Rightarrow> mem_packet \<Rightarrow> 'd mem_ctrl \<Rightarrow> (mem_packet \<times> 'd mem_ctrl) res" where
  "burst_nvm c now mp s =
     deref (cc_nvm c) (\<lambda>e.
     rbind (nvm_doBurstAccess e (commandWindow c) now mp (nextBurstAt s) (nvm_st s, burstTicks s))
       (\<lambda>((cmd_at, next), mp', nv, bt).
        Inr (mp', s\<lparr>nextBurstAt := next, nvm_st := nv, burstTicks := bt,
               dram_st := (case cc_dram c of None \<Rightarrow> dram_st s | Some d \<Rightarrow> addRankToRankDelay d cmd_at (dram_st s))\<rparr>)))"

definition count_burst :: "mem_packet \<Rightarrow> 'd mem_ctrl \<Rightarrow> 'd mem_ctrl" where
  "count_burst mp s =
     (let r = mp_requestor mp; lat = sub_tick (readyTime mp) (entryTime mp) in
      if mp_read mp
      then upd_ctrl_stats (\<lambda>st. st\<lparr>st_requestorReadTotalLat := count_at r lat (st_requestorReadTotalLat st),
             st_requestorReadBytes := count_at r (mp_size mp) (st_requestorReadBytes st)\<rparr>)
           (s\<lparr>readsThisTime := inc32 (readsThisTime s)\<rparr>)
      else upd_ctrl_stats (\<lambda>st. st\<lparr>st_requestorWriteBytes := count_at r (mp_size mp) (st_requestorWriteBytes st),
             st_requestorWriteTotalLat := count_at r lat (st_requestorWriteTotalLat st)\<rparr>)
           (s\<lparr>writesThisTime := inc32 (writesThisTime s)\<rparr>))"

definition ctrl_burst :: "ctrl_cfg \<Rightarrow> tick \<Rightarrow> mem_packet \<Rightarrow> 'd mem_ctrl \<Rightarrow> (mem_packet \<times> 'd mem_ctrl) res" where
  "ctrl_burst c now mp s =
     (let s0 = s\<lparr>burstTicks := pruneBurstTick now (burstTicks s)\<rparr> in
      rbind (if mp_dram mp then burst_dram c now mp s0 else burst_nvm c now mp s0) (\<lambda>(mp', s1).
      rbind (case cc_dram c of
               Some d \<Rightarrow> Inr (commandOffset d)
             | None \<Rightarrow> deref (cc_nvm c) (\<lambda>e. Inr (nvm_commandOffset e))) (\<lambda>off.
        Inr (mp', count_burst mp' (s1\<lparr>nextReqTime := sub_tick (nextBurstAt s1) off\<rparr>)))))"

section \<open>The request event\<close>

definition turn_bus :: "'d mem_ctrl \<Rightarrow> bool \<times> 'd mem_ctrl" where
  "turn_bus s =
     (let s0 = (if turnPolicy s then s\<lparr>busStateNext := selectNextBusState s\<rparr> else s);
          switched = (busState s0 \<noteq> busStateNext s0);
          s1 = recordTurnaroundStats s0;
          s2 = (if switched
                then if busState s1 = READ
                     then upd_ctrl_stats (\<lambda>st. st\<lparr>st_rdPerTurnAround := st_rdPerTurnAround st @ [readsThisTime s1]\<rparr>)
                            (s1\<lparr>readsThisTime := 0\<rparr>)
                     else upd_ctrl_stats (\<lambda>st. st\<lparr>st_wrPerTurnAround := st_wrPerTurnAround st @ [writesThisTime s1]\<rparr>)
                            (s1\<lparr>writesThisTime := 0\<rparr>)
                else s1)
      in (switched, s2\<lparr>busState := busStateNext s2\<rparr>))"

fun issue_reads :: "ctrl_cfg \<Rightarrow> nvm_cfg \<Rightarrow> tick \<Rightarrow> nat list \<Rightarrow> 'd mem_ctrl \<Rightarrow> 'd mem_ctrl res" where
  "issue_reads c e now [] s = Inr s"
| "issue_reads c e now (p # ps) s =
     rbind (if readsWaitingToIssue e (nvm_st s)
            then rbind (chooseRead e (commandWindow c) now (readQueue s ! p) (nvm_st s, burstTicks s)) (\<lambda>(q, nv, bt).
                 Inr (s\<lparr>readQueue := (readQueue s)[p := q], nvm_st := nv, burstTicks := bt\<rparr>))
            else Inr s) (issue_reads c e now ps)"

abbreviation prios_down :: "mem_packet list list \<Rightarrow> nat list" where
  "prios_down qs \<equiv> rev [0..<length qs]"

definition all_writes_nvm :: "ctrl_cfg \<Rightarrow> 'd mem_ctrl \<Rightarrow> bool" where
  "all_writes_nvm c s = (cc_nvm c \<noteq> None \<and> numWritesQueued (nvm_st s) = totalWriteQueueSize s)"

definition ctrl_busy :: "ctrl_cfg \<Rightarrow> tick \<Rightarrow> 'd mem_ctrl \<Rightarrow> (bool \<times> 'd mem_ctrl) res" where
  "ctrl_busy c now s =
     rbind (case cc_dram c of
              None \<Rightarrow> Inr (True, s)
            | Some d \<Rightarrow> rbind (isBusy d (ctrl_view.truncate s) now (dram_st s)) (\<lambda>(b, dr). Inr (b, s\<lparr>dram_st := dr\<rparr>)))
       (\<lambda>(dram_busy, s1).
        let nvm_busy = (case cc_nvm c of
              None \<Rightarrow> True
            | Some e \<Rightarrow> nvm_isBusy e (ctrl_view.truncate s1) (totalReadQueueSize s1 = 0) (all_writes_nvm c s1) (nvm_st s1))
        in Inr (dram_busy \<and> nvm_busy, s1))"

definition size_ok :: "ctrl_cfg \<Rightarrow> mem_packet \<Rightarrow> bool res" where
  "size_ok c mp = rbind (burst_bytes c (mp_dram mp)) (\<lambda>bs. Inr (mp_size mp \<le> bs))"

definition nvm_writes_full :: "ctrl_cfg \<Rightarrow> 'd mem_ctrl \<Rightarrow> bool" where
  "nvm_writes_full c s = (case cc_nvm c of None \<Rightarrow> False | Some e \<Rightarrow> writeRespQueueFull e (nvm_st s))"

text \<open>A read that has been issued waits for its response.\<close>

definition queue_response :: "tick \<Rightarrow> mem_packet \<Rightarrow> 'd mem_ctrl \<Rightarrow> 'd mem_ctrl res" where
  "queue_response now mp s =
     rbind (if respQueue s = [] then schedule now (readyTime mp) (respondEvent s)
            else rassert (readyTime (last (respQueue s)) \<le> readyTime mp)
              (rassert (respondEvent s \<noteq> None) (Inr (respondEvent s)))) (\<lambda>ev.
       Inr (s\<lparr>respondEvent := ev, respQueue := respQueue s @ [mp]\<rparr>))"

definition serve_read :: "ctrl_cfg \<Rightarrow> tick \<Rightarrow> bool \<Rightarrow> nat \<Rightarrow> nat \<Rightarrow> 'd mem_ctrl \<Rightarrow> (bool \<times> 'd mem_ctrl) res" where
  "serve_read c now all_nvm p i s =
     rbind (ctrl_burst c now (readQueue s ! p ! i) s) (\<lambda>(mp, s1).
     rbind (size_ok c mp) (\<lambda>ok.
     rassert ok (rassert (now \<le> readyTime mp)
     (rbind (logResponse now READ (mp_requestor mp) (mp_qos mp) (mp_addr mp) 1
               (sub_tick (readyTime mp) (entryTime mp)) s1) (\<lambda>s2.
      rbind (queue_response now mp s2) (\<lambda>s3.
      rindex (mp_qos mp = p)
       (Inr (writeHighThreshold c < totalWriteQueueSize s3 \<and> \<not> (all_nvm \<and> nvm_writes_full c s3),
             s3\<lparr>readQueue := drop_pkt p i (readQueue s3)\<rparr>)))))))) "

definition serve_write :: "ctrl_cfg \<Rightarrow> tick \<Rightarrow> nat \<Rightarrow> nat \<Rightarrow> 'd mem_ctrl \<Rightarrow> 'd mem_ctrl res" where
  "serve_write c now p i s =
     rbind (size_ok c (writeQueue s ! p ! i)) (\<lambda>ok.
     rassert ok
     (rbind (ctrl_burst c now (writeQueue s ! p ! i) s) (\<lambda>(mp, s1).
      rbind (burst_bytes c (mp_dram mp)) (\<lambda>bs.
      rbind (logResponse now WRITE (mp_requestor mp) (mp_qos mp) (mp_addr mp) 1
               (sub_tick (readyTime mp) (entryTime mp))
               (s1\<lparr>isInWriteQueue := isInWriteQueue s1 - {burstAlign bs (mp_addr mp)}\<rparr>)) (\<lambda>s2.
      rindex (mp_qos mp = p) (Inr (s2\<lparr>writeQueue := drop_pkt p i (writeQueue s2)\<rparr>)))))))"

text \<open>The two branches; the flag tells whether the handler goes on to schedule its next event.\<close>

definition read_branch :: "ctrl_cfg \<Rightarrow> tick \<Rightarrow> bool \<Rightarrow> bool \<Rightarrow> 'd mem_ctrl \<Rightarrow> (bool \<times> 'd mem_ctrl) res" where
  "read_branch c now switched all_nvm s =
     (if totalReadQueueSize s = 0
      then if totalWriteQueueSize s \<noteq> 0 \<and> (drainState s = Draining \<or> writeLowThreshold c < totalWriteQueueSize s)
           then Inr (True, s\<lparr>busStateNext := WRITE\<rparr>)
           else Inr (False, if drainState s = Draining \<and> respQueue s = [] \<and> allIntfDrained c s
                            then signalDrainDone s else s)
      else rbind (choose_prio c now (readQueue s)
                    (if switched then ctrl_gap minWriteToReadDataGap minWriteToReadDataGap c else 0) s
                    (prios_down (readQueue s))) (\<lambda>found.
           case found of
             None \<Rightarrow> Inr (False, s)
           | Some (p, i) \<Rightarrow> rbind (serve_read c now all_nvm p i s) (\<lambda>(switch_to_writes, s1).
               Inr (True, if switch_to_writes then s1\<lparr>busStateNext := WRITE\<rparr> else s1))))"

definition write_branch :: "ctrl_cfg \<Rightarrow> tick \<Rightarrow> bool \<Rightarrow> bool \<Rightarrow> 'd mem_ctrl \<Rightarrow> (bool \<times> 'd mem_ctrl) res" where
  "write_branch c now switched all_nvm s =
     rbind (choose_prio c now (writeQueue s)
              (if switched then ctrl_gap minReadToWriteDataGap minReadToWriteDataGap c else 0) s
              (prios_down (writeQueue s))) (\<lambda>found.
       case found of
         None \<Rightarrow> Inr (False, s)
       | Some (p, i) \<Rightarrow> rbind (serve_write c now p i s) (\<lambda>s1.
           let below_threshold = totalWriteQueueSize s1 + minWritesPerSwitch c < writeLowThreshold c
           in Inr (True,
                if totalWriteQueueSize s1 = 0 \<or>
                   (below_threshold \<and> drainState s1 \<noteq> Draining) \<or>
                   (totalReadQueueSize s1 \<noteq> 0 \<and> minWritesPerSwitch c \<le> writesThisTime s1) \<or>
                   (totalReadQueueSize s1 \<noteq> 0 \<and> nvm_writes_full c s1 \<and> all_nvm)
                then s1\<lparr>busStateNext := READ\<rparr> else s1)))"

definition next_event :: "ctrl_cfg \<Rightarrow> tick \<Rightarrow> 'd mem_ctrl \<Rightarrow> 'd mem_ctrl res" where
  "next_event c now s =
     rbind (if nextReqEvent s = None
            then rbind (schedule now (max (nextReqTime s) now) (nextReqEvent s)) (\<lambda>ev. Inr (s\<lparr>nextReqEvent := ev\<rparr>))
            else Inr s) (\<lambda>s1.
       Inr (if retryWrReq s1 \<and> totalWriteQueueSize s1 < ctrlWriteBufferSize c
            then s1\<lparr>retryWrReq := False, retriesSent := retriesSent s1 + 1\<rparr> else s1))"

definition processNextReqEvent :: "ctrl_cfg \<Rightarrow> tick \<Rightarrow> 'd mem_ctrl \<Rightarrow> 'd mem_ctrl res" where
  "processNextReqEvent c now s =
     (case turn_bus s of (switched, s1) \<Rightarrow>
      rbind (case cc_nvm c of
               None \<Rightarrow> Inr s1
             | Some e \<Rightarrow> issue_reads c e now (prios_down (readQueue s1)) s1) (\<lambda>s2.
      rbind (ctrl_busy c now s2) (\<lambda>(busy, s3).
      if busy then Inr s3
      else rbind (if busState s3 = READ then read_branch c now switched (all_writes_nvm c s3) s3
                  else write_branch c now switched (all_writes_nvm c s3) s3) (\<lambda>(go_on, s4).
           if go_on then next_event c now s4 else Inr s4))))"

end
