(* ===== verification/Mem_Ctrl_Queue.thy ===== *)
theory Mem_Ctrl_Queue
  imports Mem_Ctrl
begin

text \<open>
  The arrival of packets at the memory controller (\<open>recvTimingReq\<close>, \<open>addToReadQueue\<close> and
  \<open>addToWriteQueue\<close> of \<open>mem/mem_ctrl.cc\<close>): the invariant \<open>ctrl_inv\<close> of its queues, and what every
  operation on the way of a packet does to them. \<open>recv_ok\<close> sums it up; the properties follow in
  \<open>Mem_Ctrl_Accept\<close>.

  The hypotheses: both interfaces have the same burst size (\<open>ctrl_geom\<close>), the packet is a plain read or
  write in the range of its memory (\<open>mem_serves\<close>), and the defense answers for its bursts (\<open>serves\<close>).
\<close>

section \<open>What an arrival relies on\<close>

text \<open>Both interfaces that are there have bursts of \<open>2 ^ k\<close> bytes and a geometry that the constructors accept.\<close>

definition ctrl_geom :: "ctrl_cfg \<Rightarrow> nat \<Rightarrow> bool" where
  "ctrl_geom c k \<longleftrightarrow> k \<le> 32 \<and> (cc_dram c \<noteq> None \<or> cc_nvm c \<noteq> None) \<and>
     (\<forall>d. cc_dram c = Some d \<longrightarrow> burstSize d = 2 ^ k \<and> geometry_ok (geometry.truncate d)) \<and>
     (\<forall>d. cc_nvm c = Some d \<longrightarrow> burstSize d = 2 ^ k \<and> geometry_ok (geometry.truncate d))"

text \<open>A request that the memory can serve: a plain read or write.\<close>

definition plain_request :: "packet \<Rightarrow> bool" where
  "plain_request pkt \<longleftrightarrow> pk_cmd pkt \<in> {ReadReq, ReadCleanReq, ReadSharedReq, ReadExReq, WriteReq, WritebackDirty} \<and>
     \<not> cacheResponding pkt \<and> 0 < pk_size pkt \<and> pk_addr pkt + pk_size pkt \<le> u64_size \<and>
     length (pk_data pkt) = pk_size pkt \<and> rq_byteEnable pkt = [] \<and> (isWrite pkt \<longrightarrow> \<not> rq_instFetch pkt)"

lemma plain_request_kind:
  assumes "plain_request pkt"
  shows "isRead pkt \<or> isWrite pkt" "isRead pkt \<longleftrightarrow> \<not> isWrite pkt" "isRead pkt \<Longrightarrow> needsResponse pkt"
  using assms by (auto simp: plain_request_def testCmdAttrib_def)

lemma writeOK_plain:
  assumes "\<not> isLLSC pkt"
  shows "\<exists>l' cleared. writeOK pkt l = Inr (True, rq_extraData pkt, l', cleared)"
  using assms by (auto simp: writeOK_def checkLockedAddrList_def Let_def)

lemma plain_request_facts:
  assumes "plain_request pkt"
  shows "\<not> isLLSC pkt" "pk_cmd pkt \<noteq> SwapReq" "pk_cmd pkt \<noteq> CleanEvict" "pk_cmd pkt \<noteq> WritebackClean"
    "\<not> testCmdAttrib IsInvalidate (pk_cmd pkt) \<or> isRead pkt" "\<not> testCmdAttrib IsClean (pk_cmd pkt)"
    "isRequest pkt" "needsResponse pkt \<Longrightarrow> testCmdAttrib IsResponse (snd (commandInfo (pk_cmd pkt)))"
  using assms by (auto simp: plain_request_def testCmdAttrib_def)

lemma respond_plain:
  assumes "plain_request pkt" and "pk_cmd p = pk_cmd pkt"
  shows "\<exists>p'. (if needsResponse p then rbind (makeResponse p) (\<lambda>p'. Inr (p', m)) else Inr (p, m)) = Inr (p', m) \<and>
    (needsResponse pkt \<longrightarrow> isResponse p')"
  using plain_request_facts(7,8)[OF assms(1)] by (simp add: makeResponse_def assms(2))

lemma access_read_plain:
  assumes "plain_request pkt" and "isRead pkt"
  shows "\<exists>p m'. access_read pkt m = Inr (p, m') \<and> pk_cmd p = pk_cmd pkt \<and> am_subset m' = am_subset m"
  using plain_request_facts(1)[OF assms(1)] plain_request_kind(2)[OF assms(1)] assms(2)
  by (simp add: access_read_def split: option.splits)

lemma access_write_plain:
  assumes "plain_request pkt" and "isWrite pkt"
  shows "\<exists>p m'. access_write pkt m = Inr (p, m') \<and> pk_cmd p = pk_cmd pkt \<and> am_subset m' = am_subset m"
proof -
  obtain l' cl where w: "writeOK pkt (lockedAddrList m) = Inr (True, rq_extraData pkt, l', cl)"
    using writeOK_plain[OF plain_request_facts(1)[OF assms(1)]] by blast
  have d: "writeData pkt (mem_bytes x (pk_addr pkt) (pk_size pkt)) = Inr (pk_data pkt)" for x
    using assms(1) by (simp add: plain_request_def writeData_def isMaskedWrite_def)
  have "\<not> rq_instFetch pkt" using assms by (simp add: plain_request_def)
  then show ?thesis by (simp add: access_write_def w d Let_def split: option.splits)
qed

lemma access_plain:
  assumes p: "plain_request pkt" and a: "am_subset m (pk_addr pkt) (pk_size pkt)"
  obtains p' m' where "access pkt m = Inr (p', m')" "am_subset m' = am_subset m"
    "needsResponse pkt \<longrightarrow> isResponse p'"
proof -
  note f = plain_request_facts[OF p]
  have "\<exists>p1 m1. (if isRead pkt then access_read pkt m
      else if testCmdAttrib IsInvalidate (pk_cmd pkt) \<or> testCmdAttrib IsClean (pk_cmd pkt)
      then rassert (\<not> isWrite pkt) (Inr (pkt, m))
      else if isWrite pkt then access_write pkt m else Inl Panic) = Inr (p1, m1) \<and>
      pk_cmd p1 = pk_cmd pkt \<and> am_subset m1 = am_subset m"
    using access_read_plain[OF p, of m] access_write_plain[OF p, of m] plain_request_kind(2)[OF p] f(5,6)
    by (cases "isRead pkt") simp_all
  then obtain p1 m1 where b: "(if isRead pkt then access_read pkt m
      else if testCmdAttrib IsInvalidate (pk_cmd pkt) \<or> testCmdAttrib IsClean (pk_cmd pkt)
      then rassert (\<not> isWrite pkt) (Inr (pkt, m))
      else if isWrite pkt then access_write pkt m else Inl Panic) = Inr (p1, m1)"
      "pk_cmd p1 = pk_cmd pkt" "am_subset m1 = am_subset m" by blast
  obtain p' where r: "(if needsResponse p1 then rbind (makeResponse p1) (\<lambda>p'. Inr (p', m1)) else Inr (p1, m1)) = Inr (p', m1)"
    "needsResponse pkt \<longrightarrow> isResponse p'"
    using respond_plain[OF p b(2), of m1] by blast
  have c: "\<not> cacheResponding pkt" using p by (simp add: plain_request_def)
  have "access pkt m = Inr (p', m1)" unfolding access_def using a c f(2-4) by (simp only: b(1) rbind_simps prod.case r(1) if_False if_True simp_thms)
  then show thesis by (rule that[OF _ b(3) r(2)])
qed

section \<open>The state of the queues\<close>

text \<open>The fields of the controller beyond those of its base class.\<close>

lemma more_eqD:
  fixes s s' :: "'d mem_ctrl"
  assumes "qos.more s' = qos.more s"
  shows "isTimingMode s' = isTimingMode s" "retryRdReq s' = retryRdReq s" "retryWrReq s' = retryWrReq s"
    "readQueue s' = readQueue s" "writeQueue s' = writeQueue s"
    "isInWriteQueue s' = isInWriteQueue s" "respQueue s' = respQueue s" "burstTicks s' = burstTicks s"
    "rh_defense s' = rh_defense s" "dram_st s' = dram_st s" "nvm_st s' = nvm_st s" "dram_mem s' = dram_mem s"
    "nvm_mem s' = nvm_mem s" "writesThisTime s' = writesThisTime s" "readsThisTime s' = readsThisTime s"
    "nextBurstAt s' = nextBurstAt s" "nextReqTime s' = nextReqTime s"
    "helpers s' = helpers s" "nextHelper s' = nextHelper s" "nextPacket s' = nextPacket s"
    "junkDelays s' = junkDelays s" "sysPackets s' = sysPackets s" "responsesSent s' = responsesSent s"
    "retriesSent s' = retriesSent s" "stats s' = stats s"
  using assms by (cases s; cases s'; simp)+

lemma view_eqD:
  fixes s s' :: "('d, 'a) qos_scheme"
  assumes "ctrl_view.truncate s' = ctrl_view.truncate s"
  shows "busState s' = busState s" "busStateNext s' = busStateNext s" "nextReqEvent s' = nextReqEvent s"
    "respondEvent s' = respondEvent s" "drainState s' = drainState s"
  using assms by (simp_all add: ctrl_view.defs)

text \<open>
  The part of the controller that the rest of the simulator sees: what is answered, the packets, and the
  range of the memories; and the parts of its base class that no step changes.
\<close>

type_synonym ctrl_env = "(nat \<times> tick) list \<times> (nat \<Rightarrow> packet) \<times> (addr \<Rightarrow> nat \<Rightarrow> bool) \<times> (addr \<Rightarrow> nat \<Rightarrow> bool)"

definition outside :: "'d mem_ctrl \<Rightarrow> ctrl_env" where
  "outside s = (responsesSent s, sysPackets s, am_subset (dram_mem s), am_subset (nvm_mem s))"

definition sched_kept :: "'d mem_ctrl \<Rightarrow> 'd mem_ctrl \<Rightarrow> bool" where
  "sched_kept s s' \<longleftrightarrow> numPriorities s' = numPriorities s \<and> (policy s' = None \<longleftrightarrow> policy s = None) \<and>
     (sched_ok s \<longrightarrow> sched_ok s')"

lemma sched_kept_trans: "sched_kept s s' \<Longrightarrow> sched_kept s' s'' \<Longrightarrow> sched_kept s s''"
  by (simp add: sched_kept_def)

lemma sched_kept_cong:
  "numPriorities s' = numPriorities s \<Longrightarrow> policy s' = policy s \<Longrightarrow> sched_kept s s'"
  by (auto simp: sched_kept_def sched_ok_def split: option.splits)

text \<open>
  The write queue: one packet per burst, each inside its burst, and the set of bursts is that of the queue.
  \<open>extent\<close> is what the search of the queue depends on.
\<close>

definition extent :: "mem_packet \<Rightarrow> addr \<times> nat" where
  "extent p = (mp_addr p, mp_size p)"

definition extents :: "mem_packet list list \<Rightarrow> (addr \<times> nat) multiset" where
  "extents qs = image_mset extent (mset (concat qs))"

definition in_burst :: "nat \<Rightarrow> addr \<times> nat \<Rightarrow> bool" where
  "in_burst k e \<longleftrightarrow> 0 < snd e \<and> fst e + snd e \<le> u64_size \<and> fst e div 2 ^ k = (fst e + snd e - 1) div 2 ^ k"

definition writes_ok :: "nat \<Rightarrow> addr set \<Rightarrow> (addr \<times> nat) multiset \<Rightarrow> bool" where
  "writes_ok k B W \<longleftrightarrow> (\<forall>e \<in># W. in_burst k e) \<and> B = (\<lambda>e. burstAlign (2 ^ k) (fst e)) ` set_mset W \<and>
     card B = size W"

text \<open>A packet has an interface, and its place is one of it.\<close>

definition placed :: "ctrl_cfg \<Rightarrow> mem_packet \<Rightarrow> bool" where
  "placed c p \<longleftrightarrow>
     (if mp_dram p
      then \<exists>d. cc_dram c = Some d \<and> mp_rank p < ranksPerChannel d \<and> mp_bank p < banksPerRank d \<and> mp_row p < rowsPerBank d \<and>
             mp_bankId p = (banksPerRank d * mp_rank p + mp_bank p) mod 65536
      else cc_nvm c \<noteq> None)"

definition all_placed :: "ctrl_cfg \<Rightarrow> mem_packet list list \<Rightarrow> bool" where
  "all_placed c qs \<longleftrightarrow> (\<forall>p \<in> set (concat qs). placed c p)"

definition ctrl_inv :: "ctrl_cfg \<Rightarrow> nat \<Rightarrow> 'd mem_ctrl \<Rightarrow> bool" where
  "ctrl_inv c k s \<longleftrightarrow> qos_inv (2 ^ k) (readQueue s) (writeQueue s) s \<and> sched_ok s \<and>
     writes_ok k (isInWriteQueue s) (extents (writeQueue s)) \<and>
     totalReadQueueSize s + length (respQueue s) \<le> ctrlReadBufferSize c \<and>
     totalWriteQueueSize s \<le> ctrlWriteBufferSize c \<and>
     all_placed c (readQueue s) \<and> all_placed c (writeQueue s)"

lemma requeued_image:
  assumes "requeued qs qs'" and "\<And>k q. f (k\<lparr>mp_qos := q\<rparr>) = f k"
  shows "image_mset f (mset (concat qs')) = image_mset f (mset (concat qs))"
proof -
  have "image_mset f (image_mset (\<lambda>k. k\<lparr>mp_qos := 0\<rparr>) M) = image_mset f M" for M
    by (simp add: multiset.map_comp comp_def assms(2))
  moreover have "image_mset (\<lambda>k. k\<lparr>mp_qos := 0\<rparr>) (mset (concat qs')) = image_mset (\<lambda>k. k\<lparr>mp_qos := 0\<rparr>) (mset (concat qs))"
    using assms(1) by (simp add: requeued_def)
  ultimately show ?thesis by metis
qed

lemma requeued_placed:
  assumes "requeued qs qs'" and "all_placed c qs"
  shows "all_placed c qs'"
proof -
  have "set (map (\<lambda>k. k\<lparr>mp_qos := 0\<rparr>) (concat qs')) = set (map (\<lambda>k. k\<lparr>mp_qos := 0\<rparr>) (concat qs))"
    using assms(1) unfolding requeued_def by (metis set_mset_mset)
  then have eq: "(\<lambda>k. k\<lparr>mp_qos := 0\<rparr>) ` set (concat qs') = (\<lambda>k. k\<lparr>mp_qos := 0\<rparr>) ` set (concat qs)"
    by (simp only: set_map)
  have pl: "placed c (k\<lparr>mp_qos := 0\<rparr>) = placed c k" for k by (simp add: placed_def)
  show ?thesis
    unfolding all_placed_def
  proof
    fix p assume "p \<in> set (concat qs')"
    then have "p\<lparr>mp_qos := 0\<rparr> \<in> (\<lambda>k. k\<lparr>mp_qos := 0\<rparr>) ` set (concat qs)" unfolding eq[symmetric] by blast
    then obtain q where "q \<in> set (concat qs)" "p\<lparr>mp_qos := 0\<rparr> = q\<lparr>mp_qos := 0\<rparr>" by blast
    then show "placed c p" using assms(2) pl[of p] pl[of q] unfolding all_placed_def by metis
  qed
qed

lemma all_placed_push: "mp_qos p < length qs \<Longrightarrow> all_placed c qs \<Longrightarrow> placed c p \<Longrightarrow> all_placed c (push_pkt p qs)"
  using set_update_subset_insert[of qs "mp_qos p" "qs ! mp_qos p @ [p]"] nth_mem[of "mp_qos p" qs]
  unfolding all_placed_def push_pkt_def by fastforce

lemma requeued_extents: "requeued qs qs' \<Longrightarrow> extents qs' = extents qs"
  unfolding extents_def by (rule requeued_image) (simp_all add: extent_def)

lemma push_pkt_image: "mp_qos p < length qs \<Longrightarrow> image_mset f (mset (concat (push_pkt p qs))) =
    add_mset (f p) (image_mset f (mset (concat qs)))"
  using mset_concat_update[of "mp_qos p" qs "qs ! mp_qos p @ [p]"] by (simp add: push_pkt_def)

lemma extents_push: "mp_qos p < length qs \<Longrightarrow> extents (push_pkt p qs) = add_mset (extent p) (extents qs)"
  unfolding extents_def by (rule push_pkt_image)

lemma qos_inv_total: "qos_inv bs rq wq s \<Longrightarrow> totalWriteQueueSize s = size (extents wq)"
  by (simp add: qos_invD(10) extents_def length_concat)

text \<open>A write burst that is not in the queue yet keeps the write queue in order.\<close>

lemma writes_okD:
  assumes "writes_ok k B W"
  shows "e \<in># W \<Longrightarrow> in_burst k e" "b \<in> B \<longleftrightarrow> (\<exists>e \<in># W. b = burstAlign (2 ^ k) (fst e))" "card B = size W" "finite B"
    "B = (\<lambda>e. burstAlign (2 ^ k) (fst e)) ` set_mset W"
  using assms by (auto simp: writes_ok_def)

lemma writes_ok_insert:
  assumes w: "writes_ok k B W" and "in_burst k e" and "burstAlign (2 ^ k) (fst e) \<notin> B"
  shows "writes_ok k (insert (burstAlign (2 ^ k) (fst e)) B) (add_mset e W)"
proof -
  have "card (insert (burstAlign (2 ^ k) (fst e)) B) = size (add_mset e W)"
    using assms(3) writes_okD(3,4)[OF w] by simp
  moreover have "insert (burstAlign (2 ^ k) (fst e)) B = (\<lambda>e. burstAlign (2 ^ k) (fst e)) ` set_mset (add_mset e W)"
    using writes_okD(5)[OF w] by simp
  moreover have "\<forall>x \<in># add_mset e W. in_burst k x" using assms(2) writes_okD(1)[OF w] by simp
  ultimately show ?thesis unfolding writes_ok_def by blast
qed

lemma writes_ok_unique:
  assumes w: "writes_ok k B W" and e: "e \<in># W" "e' \<in># W" "burstAlign (2 ^ k) (fst e) = burstAlign (2 ^ k) (fst e')"
  shows "e = e' \<and> count W e = 1"
proof -
  let ?f = "\<lambda>e. burstAlign (2 ^ k) (fst e)"
  have B: "B = ?f ` set_mset W" "card B = size W" by (rule writes_okD(5)[OF w], rule writes_okD(3)[OF w])
  have "card B \<le> card (set_mset W)" unfolding B(1) by (rule card_image_le) simp
  moreover have cw: "card (set_mset W) \<le> size W"
    using size_multiset_overloaded_eq[of W] sum_mono[of "set_mset W" "\<lambda>_. 1" "count W"] by simp
  ultimately have "card (set_mset W) = size W" "card (?f ` set_mset W) = card (set_mset W)"
    using B by simp_all
  then have "inj_on ?f (set_mset W)" "card (set_mset W) = size W" by (simp_all add: eq_card_imp_inj_on)
  moreover have "count W e = 1" if "card (set_mset W) = size W"
  proof (rule ccontr)
    assume "count W e \<noteq> 1"
    moreover have "0 < count W e" using e(1) by (simp only: count_greater_zero_iff)
    ultimately have "1 < count W e" by linarith
    then have "sum (\<lambda>_. 1) (set_mset W) < sum (count W) (set_mset W)"
      using e(1) by (intro sum_strict_mono_ex1) auto
    then show False using that by (simp add: size_multiset_overloaded_eq)
  qed
  ultimately show ?thesis using e by (blast dest: inj_onD)
qed

text \<open>The search of the write queue finds exactly the bursts that a queued write covers.\<close>

definition covered :: "(addr \<times> nat) multiset \<Rightarrow> addr \<times> nat \<Rightarrow> bool" where
  "covered W x \<longleftrightarrow> (\<exists>e \<in># W. fst e \<le> fst x \<and> fst x + snd x \<le> fst e + snd e)"

lemma in_burst_align:
  assumes "in_burst k e" and "in_burst k x" and "k \<le> 32" and "fst e \<le> fst x" and "fst x + snd x \<le> fst e + snd e"
  shows "burstAlign (2 ^ k) (fst x) = burstAlign (2 ^ k) (fst e)"
proof -
  have "fst x \<le> fst e + snd e - 1" using assms(2,5) unfolding in_burst_def by linarith
  then have "fst e div 2 ^ k \<le> fst x div 2 ^ k" "fst x div 2 ^ k \<le> (fst e + snd e - 1) div 2 ^ k"
    using assms(4) by (simp_all add: div_le_mono)
  then have "fst x div 2 ^ k = fst e div 2 ^ k" using assms(1) by (simp add: in_burst_def)
  moreover have "fst x < u64_size" "fst e < u64_size" using assms(1,2) by (auto simp: in_burst_def)
  ultimately show ?thesis using assms(3) by (simp add: burstAlign_eq)
qed

lemma extents_Cons: "extents (q # qs) = image_mset extent (mset q) + extents qs"
  by (simp add: extents_def)

lemma hits_le:
  "length (filter (\<lambda>q. \<exists>p \<in> set q. covers a sz p) qs) \<le> size (filter_mset (\<lambda>e. fst e \<le> a \<and> a + sz \<le> fst e + snd e) (extents qs))"
proof (induction qs)
  case (Cons q qs)
  let ?M = "filter_mset (\<lambda>e. fst e \<le> a \<and> a + sz \<le> fst e + snd e) (image_mset extent (mset q))"
  have "1 \<le> size ?M" if "\<exists>p \<in> set q. covers a sz p"
  proof -
    obtain p where "p \<in> set q" "covers a sz p" using \<open>\<exists>p \<in> set q. covers a sz p\<close> by blast
    then have "extent p \<in># ?M" by (simp add: covers_def extent_def)
    then have "?M \<noteq> {#}" by (metis empty_iff set_mset_empty)
    then show ?thesis unfolding nonempty_has_size by linarith
  qed
  then show ?case using Cons by (cases "\<exists>p \<in> set q. covers a sz p") (simp_all add: extents_Cons)
qed simp

lemma hits_pos: "0 < length (filter (\<lambda>q. \<exists>p \<in> set q. covers a sz p) qs) \<longleftrightarrow> covered (extents qs) (a, sz)"
  by (auto simp: covered_def extents_def covers_def extent_def filter_empty_conv)

lemma filter_one:
  assumes "\<And>e e'. e \<in># M \<Longrightarrow> e' \<in># M \<Longrightarrow> e = e' \<and> count M e = 1"
  shows "size M \<le> 1"
proof (cases "M = {#}")
  case False
  then obtain e where e: "e \<in># M" by auto
  then have "set_mset M = {e}" using assms by blast
  then have "size M = count M e" by (simp add: size_multiset_overloaded_eq)
  then show ?thesis using assms[OF e e] by simp
qed simp

lemma wrq_hits_eq:
  assumes w: "writes_ok k (isInWriteQueue s) (extents (writeQueue s))" and x: "in_burst k (a, sz)" and k: "k \<le> 32"
  shows "wrq_hits (2 ^ k) a sz s = of_bool (covered (extents (writeQueue s)) (a, sz))"
proof -
  let ?W = "extents (writeQueue s)" and ?C = "\<lambda>e. fst e \<le> a \<and> a + sz \<le> fst e + snd e"
  let ?n = "length (filter (\<lambda>q. \<exists>p \<in> set q. covers a sz p) (writeQueue s))"
  have al: "burstAlign (2 ^ k) a = burstAlign (2 ^ k) (fst e)" if "e \<in># ?W" "?C e" for e
    using in_burst_align[OF _ x k, of e] w that by (simp add: writes_ok_def)
  have "size (filter_mset ?C ?W) \<le> 1"
  proof (rule filter_one)
    fix e e' assume e: "e \<in># filter_mset ?C ?W" "e' \<in># filter_mset ?C ?W"
    then have "burstAlign (2 ^ k) (fst e) = burstAlign (2 ^ k) (fst e')" using al[of e] al[of e'] by simp
    moreover have "e \<in># ?W" "e' \<in># ?W" using e by simp_all
    ultimately have "e = e'" "count ?W e = 1" using writes_ok_unique[OF w] by blast+
    then show "e = e' \<and> count (filter_mset ?C ?W) e = 1" using e by simp
  qed
  then have "?n \<le> 1" using hits_le[of a sz "writeQueue s"] by linarith
  then have n: "?n = of_bool (covered ?W (a, sz))" using hits_pos[of a sz "writeQueue s"] by (cases ?n) auto
  have "burstAlign (2 ^ k) a \<in> isInWriteQueue s" if cov: "covered ?W (a, sz)"
  proof -
    obtain e where "e \<in># ?W" "?C e" using cov unfolding covered_def fst_conv snd_conv by blast
    then show ?thesis using al[of e] writes_okD(2)[OF w, of "burstAlign (2 ^ k) a"] by blast
  qed
  then show ?thesis using n by (auto simp: wrq_hits_def)
qed

section \<open>One burst\<close>

text \<open>The defense answers the next \<open>n\<close> calls for bursts in the range of the DRAM that decode to a place of it.\<close>

fun serves :: "ctrl_cfg \<Rightarrow> tick \<Rightarrow> nat \<Rightarrow> defense option \<Rightarrow> bool" where
  "serves c now 0 def \<longleftrightarrow> True"
| "serves c now (Suc n) def \<longleftrightarrow>
     (\<forall>d mp. cc_dram c = Some d \<and> mp_rank mp < ranksPerChannel d \<and> mp_bank mp < banksPerRank d \<and>
        mp_row mp < rowsPerBank d \<and> in_dram c (mp_addr mp) \<longrightarrow>
        (\<exists>mp' def'. defend (rh_defense_enable c) (ctrl_mitigation c) now (mp, def) = Inr (mp', def') \<and>
           serves c now n def'))"

lemma serves_disabled: "\<not> rh_defense_enable c \<Longrightarrow> serves c now n def"
  by (induction n arbitrary: def) (auto simp: defend_def)

lemma serves_Suc: "serves c now (Suc n) def \<Longrightarrow> serves c now n def"
proof (induction n arbitrary: def)
  case (Suc n)
  then show ?case by (subst serves.simps(2)) (meson serves.simps(2))
qed simp

lemma serves_le: "serves c now n def \<Longrightarrow> m \<le> n \<Longrightarrow> serves c now m def"
  by (induction n arbitrary: m) (auto simp: le_Suc_eq simp del: serves.simps(2) dest: serves_Suc)

text \<open>What a burst leaves alone.\<close>

definition settled :: "dram \<Rightarrow> dram_rank list" where
  "settled d = map (\<lambda>r. r\<lparr>readEntries := 0, writeEntries := 0\<rparr>) (ranks d)"

lemma settled_length: "settled d = settled d' \<Longrightarrow> length (ranks d) = length (ranks d')"
  unfolding settled_def by (rule map_eq_imp_length_eq)

definition rest :: "'d mem_ctrl \<Rightarrow> mem_packet list \<times> tick option \<times> tick option \<times> drain_state \<times> bool \<times> bool \<times>
    dram_rank list \<times> bus_state \<times> bool \<times> bool" where
  "rest s = (respQueue s, nextReqEvent s, respondEvent s, drainState s, retryRdReq s, retryWrReq s, settled (dram_st s),
     busStateNext s, turnPolicy s, rh_defense s = None)"

definition kept :: "'d mem_ctrl \<Rightarrow> 'd mem_ctrl \<Rightarrow> bool" where
  "kept s s' \<longleftrightarrow> sched_kept s s' \<and> outside s' = outside s \<and> rest s' = rest s"

lemma kept_refl [simp, intro]: "kept s s"
  by (simp add: kept_def sched_kept_def)

lemma kept_trans [trans]: "kept s s' \<Longrightarrow> kept s' s'' \<Longrightarrow> kept s s''"
  by (auto simp: kept_def intro: sched_kept_trans)

lemma keptD:
  assumes "kept s s'"
  shows "numPriorities s' = numPriorities s" "policy s' = None \<longleftrightarrow> policy s = None" "sched_ok s \<Longrightarrow> sched_ok s'"
    "responsesSent s' = responsesSent s" "sysPackets s' = sysPackets s"
    "am_subset (dram_mem s') = am_subset (dram_mem s)" "am_subset (nvm_mem s') = am_subset (nvm_mem s)"
    "respQueue s' = respQueue s" "nextReqEvent s' = nextReqEvent s" "respondEvent s' = respondEvent s"
    "drainState s' = drainState s" "retryRdReq s' = retryRdReq s" "retryWrReq s' = retryWrReq s"
    "length (ranks (dram_st s')) = length (ranks (dram_st s))" "settled (dram_st s') = settled (dram_st s)"
    "busStateNext s' = busStateNext s" "turnPolicy s' = turnPolicy s" "rh_defense s' = None \<longleftrightarrow> rh_defense s = None"
  using assms settled_length[of "dram_st s'" "dram_st s"] by (simp_all add: kept_def sched_kept_def outside_def rest_def)

lemma kept_log: "same_but_log s s' \<Longrightarrow> kept s s'"
  using more_eqD[of s' s] view_eqD[of s' s]
  by (auto simp: kept_def same_but_log_def outside_def rest_def intro: sched_kept_cong)

lemma kept_stats [simp]: "kept s (s\<lparr>stats := x\<rparr>)"
  by (simp add: kept_def outside_def rest_def sched_kept_cong)

text \<open>A memory packet of a burst.\<close>

definition burst_pkt :: "nat \<Rightarrow> packet \<Rightarrow> bool \<Rightarrow> bool \<Rightarrow> addr \<Rightarrow> nat \<Rightarrow> mem_packet \<Rightarrow> bool" where
  "burst_pkt n pkt is_dram is_read a sz mp \<longleftrightarrow> mp_pkt mp = n \<and> mp_requestor mp = pk_requestor pkt \<and>
     mp_qos mp = pk_qos pkt \<and> mp_read mp = is_read \<and> mp_dram mp = is_dram \<and> extent mp = (a, sz)"

lemma decode_ok:
  assumes "geometry_ok g"
  obtains rank bank row where "decode_coords g a = Inr (rank, bank, row)" "rank < ranksPerChannel g"
    "bank < banksPerRank g" "row < rowsPerBank g"
  using decode_coords_eq[OF assms, of a] assms by (simp add: geometry_ok_def)

definition has_iface :: "ctrl_cfg \<Rightarrow> bool \<Rightarrow> bool" where
  "has_iface c is_dram \<longleftrightarrow> (if is_dram then cc_dram c \<noteq> None else cc_nvm c \<noteq> None)"

definition ranks_there :: "ctrl_cfg \<Rightarrow> nat \<Rightarrow> bool" where
  "ranks_there c n \<longleftrightarrow> (\<forall>d. cc_dram c = Some d \<longrightarrow> n = ranksPerChannel d)"

lemma defend_keeps:
  assumes "defend en m now (mp, def) = Inr (mp', def')"
  shows "mp_pkt mp' = mp_pkt mp" "mp_requestor mp' = mp_requestor mp" "mp_qos mp' = mp_qos mp" "mp_read mp' = mp_read mp"
    "mp_dram mp' = mp_dram mp" "extent mp' = extent mp" "mp_rank mp' = mp_rank mp" "mp_helper mp' = mp_helper mp"
    "placed c mp' = placed c mp" "def' = None \<longleftrightarrow> def = None"
  using assms by (auto simp: defend_def extent_def placed_def rbind_Inr_iff split: if_splits option.splits)

lemma make_packet_ok:
  assumes g: "ctrl_geom c k" and i: "has_iface c is_dram" and r: "ranks_there c (length (ranks (dram_st s)))"
    and d: "serves c now (Suc m) (rh_defense s)" and ra: "is_dram \<longrightarrow> in_dram c a"
  obtains mp x def dr nv where "make_packet c now is_dram is_read n pkt a sz s =
      Inr (mp, s\<lparr>nextPacket := x, rh_defense := def, dram_st := dr, nvm_st := nv\<rparr>)"
    "burst_pkt n pkt is_dram is_read a sz mp" "serves c now m def" "settled dr = settled (dram_st s)"
    "placed c mp" "def = None \<longleftrightarrow> rh_defense s = None"
proof (cases is_dram)
  case True
  obtain cfg where cfg: "cc_dram c = Some cfg" using i True by (auto simp: has_iface_def)
  have gm: "geometry_ok (geometry.truncate cfg)" using g cfg by (simp add: ctrl_geom_def)
  obtain rank bank row where dec: "decode_coords (geometry.truncate cfg) (dram_getOffset c a) = Inr (rank, bank, row)"
    "rank < ranksPerChannel cfg" "bank < banksPerRank cfg" "row < rowsPerBank cfg"
    by (rule decode_ok[OF gm, of "dram_getOffset c a"]) (simp add: geometry.defs)
  let ?mp = "new_packet (nextPacket s, junkDelays s (nextPacket s)) now (n, pk_requestor pkt, pk_qos pkt) is_read True
      (rank, bank, row) ((banksPerRank (geometry.truncate cfg) * rank + bank) mod 65536) a sz"
  have "mp_rank ?mp = rank" "mp_bank ?mp = bank" "mp_row ?mp = row" "in_dram c (mp_addr ?mp)"
    using ra True by (simp_all add: new_packet_def)
  then obtain mp def where df: "defend (rh_defense_enable c) (ctrl_mitigation c) now (?mp, rh_defense s) = Inr (mp, def)"
    "serves c now m def" using d cfg dec(2-4) unfolding serves.simps(2) by metis
  note kp = defend_keeps[OF df(1)]
  have rk: "mp_rank mp = rank" "rank < length (ranks (dram_st s))"
    using kp(7) r cfg dec(2) by (simp_all add: new_packet_def ranks_there_def)
  obtain dr where dr: "setupRank rank is_read (dram_st s) = Inr dr" "settled dr = settled (dram_st s)"
  proof -
    let ?r = "ranks (dram_st s) ! rank"
    define r' where "r' = (if is_read then ?r\<lparr>readEntries := inc32 (readEntries ?r)\<rparr> else ?r\<lparr>writeEntries := inc32 (writeEntries ?r)\<rparr>)"
    have "settled ((dram_st s)\<lparr>ranks := (ranks (dram_st s))[rank := r']\<rparr>) = settled (dram_st s)"
      using rk(2) by (simp add: settled_def r'_def map_update list_update_same_conv)
    then show thesis using rk(2) that by (simp add: setupRank_def Let_def r'_def)
  qed
  show thesis
  proof (rule that[of mp "nvm_st s" dr def "nextPacket s + 1"])
    show "make_packet c now is_dram is_read n pkt a sz s =
        Inr (mp, s\<lparr>nextPacket := nextPacket s + 1, rh_defense := def, dram_st := dr, nvm_st := nvm_st s\<rparr>)"
      using True by (simp add: make_packet_def cfg decodePacket_def dec(1) df(1) rk(1) dr(1) Let_def)
    show "burst_pkt n pkt is_dram is_read a sz mp"
      using kp True by (simp add: burst_pkt_def new_packet_def extent_def)
    show "placed c mp" using kp(9)[of c] cfg dec True by (simp add: placed_def new_packet_def geometry.defs)
    show "def = None \<longleftrightarrow> rh_defense s = None" by (rule kp(10))
  qed (use df dr in simp_all)
next
  case False
  obtain cfg where cfg: "cc_nvm c = Some cfg" using i False by (auto simp: has_iface_def)
  have gm: "geometry_ok (geometry.truncate cfg)" using g cfg by (simp add: ctrl_geom_def)
  obtain rank bank row where dec: "decode_coords (geometry.truncate cfg) (nvm_getOffset c a) = Inr (rank, bank, row)"
    by (rule decode_ok[OF gm, of "nvm_getOffset c a"])
  let ?mp = "new_packet (nextPacket s, junkDelays s (nextPacket s)) now (n, pk_requestor pkt, pk_qos pkt) is_read False
      (rank, bank, row) ((banksPerRank (geometry.truncate cfg) * rank + bank) mod 65536) a sz"
  show thesis
  proof (rule that[of "if is_read then ?mp\<lparr>readyTime := MaxTick\<rparr> else ?mp"
        "nvm_setupRank is_read (nvm_st s)" "dram_st s" "rh_defense s" "nextPacket s + 1"])
    show "make_packet c now is_dram is_read n pkt a sz s = Inr (if is_read then ?mp\<lparr>readyTime := MaxTick\<rparr> else ?mp,
        s\<lparr>nextPacket := nextPacket s + 1, rh_defense := rh_defense s, dram_st := dram_st s,
          nvm_st := nvm_setupRank is_read (nvm_st s)\<rparr>)"
      using False by (simp add: make_packet_def cfg decodePacket_def dec(1) Let_def)
    show "burst_pkt n pkt is_dram is_read a sz (if is_read then ?mp\<lparr>readyTime := MaxTick\<rparr> else ?mp)"
      using False by (simp add: burst_pkt_def new_packet_def extent_def)
    show "serves c now m (rh_defense s)" by (rule serves_Suc[OF d])
    show "placed c (if is_read then ?mp\<lparr>readyTime := MaxTick\<rparr> else ?mp)" using cfg by (simp add: placed_def new_packet_def)
  qed simp_all
qed

section \<open>Queueing reads\<close>

text \<open>What a queue holds: the system packet, the helper, and the extent of each burst.\<close>

definition contents :: "mem_packet list list \<Rightarrow> (nat \<times> nat option \<times> addr \<times> nat) multiset" where
  "contents qs = image_mset (\<lambda>p. (mp_pkt p, mp_helper p, extent p)) (mset (concat qs))"

lemma contents_push: "mp_qos p < length qs \<Longrightarrow>
    contents (push_pkt p qs) = add_mset (mp_pkt p, mp_helper p, extent p) (contents qs)"
  unfolding contents_def by (rule push_pkt_image)

lemma requeued_contents: "requeued qs qs' \<Longrightarrow> contents qs' = contents qs"
  unfolding contents_def by (rule requeued_image) (simp_all add: extent_def)

lemma ctrl_invD:
  assumes "ctrl_inv c k s"
  shows "qos_inv (2 ^ k) (readQueue s) (writeQueue s) s" "sched_ok s"
    "writes_ok k (isInWriteQueue s) (extents (writeQueue s))"
    "totalReadQueueSize s + length (respQueue s) \<le> ctrlReadBufferSize c" "totalWriteQueueSize s \<le> ctrlWriteBufferSize c"
    "length (readQueue s) = numPriorities s" "length (writeQueue s) = numPriorities s"
    "totalReadQueueSize s = size (contents (readQueue s))" "totalWriteQueueSize s = size (extents (writeQueue s))"
    "all_placed c (readQueue s)" "all_placed c (writeQueue s)"
proof -
  show q: "qos_inv (2 ^ k) (readQueue s) (writeQueue s) s" using assms by (simp add: ctrl_inv_def)
  show "length (readQueue s) = numPriorities s" "length (writeQueue s) = numPriorities s"
    "totalReadQueueSize s = size (contents (readQueue s))"
    "totalWriteQueueSize s = size (extents (writeQueue s))"
    using qos_invD(1,2,9)[OF q] qos_inv_total[OF q] by (simp_all add: contents_def length_concat)
qed (use assms in \<open>simp_all add: ctrl_inv_def\<close>)

lemma qos_inv_stats: "qos_inv bs rq wq s \<Longrightarrow> qos_inv bs rq wq (upd_ctrl_stats f s)"
  by (rule qos_inv_cong) simp_all

lemma in_burst_size:
  assumes "in_burst k (a, sz)" shows "0 < sz" "sz \<le> 2 ^ k"
proof -
  have "a div 2 ^ k = (a + sz - 1) div 2 ^ k" "0 < sz" using assms by (simp_all add: in_burst_def)
  then have "a + sz - 1 < (a div 2 ^ k) * 2 ^ k + 2 ^ k"
    using dividend_less_div_times[of "2 ^ k" "a + sz - 1"] by (simp add: mult.commute)
  moreover have "a div 2 ^ k * 2 ^ k \<le> a" by simp
  ultimately show "sz \<le> 2 ^ k" by linarith
qed (use assms in \<open>simp add: in_burst_def\<close>)

lemma push_read_ok:
  assumes inv: "ctrl_inv c k s" and b: "burst_pkt n pkt is_dram True a sz mp" and pl: "placed c mp" and x: "in_burst k (a, sz)"
    and q: "pk_qos pkt < numPriorities s" and room: "totalReadQueueSize s + length (respQueue s) < ctrlReadBufferSize c"
  obtains s' where "push_read c now pkt mp s = Inr s'" "ctrl_inv c k s'" "kept s s'"
    "contents (readQueue s') = add_mset (n, mp_helper mp, a, sz) (contents (readQueue s))"
    "writeQueue s' = writeQueue s" "isInWriteQueue s' = isInWriteQueue s" "helpers s' = helpers s"
    "nextHelper s' = nextHelper s" "rh_defense s' = rh_defense s"
proof -
  note I = ctrl_invD[OF inv]
  have mp: "mp_pkt mp = n" "mp_requestor mp = pk_requestor pkt" "mp_qos mp = pk_qos pkt" "mp_read mp" "extent mp = (a, sz)"
    "mp_size mp = sz" using b by (simp_all add: burst_pkt_def extent_def)
  let ?f = "\<lambda>st. st\<lparr>st_rdQLenPdf := count_at (totalReadQueueSize s + length (respQueue s)) 1 (st_rdQLenPdf st)\<rparr>"
  let ?s1 = "upd_ctrl_stats ?f s"
  let ?s = "?s1\<lparr>readQueue := push_pkt mp (readQueue ?s1)\<rparr>"
  have inv1: "qos_inv (2 ^ k) (readQueue s) (writeQueue s) ?s" by (rule qos_inv_cong[OF I(1)]) simp_all
  obtain s2 where s2: "logRequest now READ (mp_requestor mp) (mp_qos mp) (mp_addr mp) 1 ?s = Inr s2"
    "qos_inv (2 ^ k) (push_pkt mp (readQueue s)) (writeQueue s) s2" "same_but_log ?s s2"
    using logRequest_ok[OF inv1, of mp now] q mp in_burst_size[OF x] by auto
  let ?g = "\<lambda>st. st\<lparr>st_avgRdQLen := st_avgRdQLen st @ [totalReadQueueSize s2 + length (respQueue s2)]\<rparr>"
  let ?s' = "upd_ctrl_stats ?g s2"
  have more: "qos.more s2 = qos.more ?s" using s2(3) by (simp add: same_but_log_def)
  note m = more_eqD[OF more]
  have np: "numPriorities s2 = numPriorities s" using s2(3) by (simp add: same_but_log_def)
  have ql: "mp_qos mp < length (readQueue s)" using q mp I(6) by simp
  have run: "push_read c now pkt mp s = Inr ?s'"
    using room s2(1) ql mp by (simp add: push_read_def readQueueFull_def Let_def)
  have c': "contents (readQueue ?s') = add_mset (n, mp_helper mp, a, sz) (contents (readQueue s))"
    using m(4) contents_push[OF ql] mp by simp
  have tot: "totalReadQueueSize s2 = Suc (totalReadQueueSize s)"
  proof -
    have "totalReadQueueSize s2 = size (contents (push_pkt mp (readQueue s)))"
      using qos_invD(9)[OF s2(2)] by (simp add: contents_def length_concat)
    then show ?thesis using contents_push[OF ql] I(8) by simp
  qed
  have totw: "totalWriteQueueSize s2 = totalWriteQueueSize s"
    using qos_invD(10)[OF s2(2)] qos_invD(10)[OF I(1)] by simp
  have kp: "kept s ?s'"
  proof -
    have "kept s ?s" by (simp add: kept_def outside_def rest_def sched_kept_cong)
    also have "kept ?s s2" by (rule kept_log[OF s2(3)])
    also have "kept s2 ?s'" by simp
    finally show ?thesis .
  qed
  have "qos_inv (2 ^ k) (readQueue ?s') (writeQueue ?s') ?s'"
    using qos_inv_stats[OF s2(2), of ?g] m(4,5) by simp
  then have inv': "ctrl_inv c k ?s'"
    using I(2,3,5,11) all_placed_push[OF ql I(10) pl] keptD(3)[OF kp] m(4,5,6,7) tot totw room by (simp add: ctrl_inv_def)
  show thesis using m by (intro that[OF run inv' kp c']) simp_all
qed

text \<open>The helper of the bursts that are queued, and the table of helpers after it.\<close>

definition helper_of :: "nat \<Rightarrow> nat option \<Rightarrow> nat \<Rightarrow> nat option" where
  "helper_of cnt bh fresh = (if 1 < cnt \<and> bh = None then Some fresh else bh)"

definition with_helper :: "nat \<Rightarrow> nat option \<Rightarrow> bool \<Rightarrow> (nat \<Rightarrow> (nat \<times> nat) option) \<times> nat \<Rightarrow>
    (nat \<Rightarrow> (nat \<times> nat) option) \<times> nat" where
  "with_helper cnt bh queued x =
     (if 1 < cnt \<and> bh = None \<and> queued then ((fst x)(snd x \<mapsto> (cnt, 0)), snd x + 1) else x)"

text \<open>The relation between the states before and after bursts of a read were looked at.\<close>

definition read_added :: "ctrl_cfg \<Rightarrow> nat \<Rightarrow> tick \<Rightarrow> nat \<Rightarrow> nat \<Rightarrow> nat \<Rightarrow> nat option \<Rightarrow> (addr \<times> nat) list \<Rightarrow>
    'd mem_ctrl \<Rightarrow> 'd mem_ctrl \<Rightarrow> bool" where
  "read_added c k now m n cnt bh missed s s' \<longleftrightarrow> ctrl_inv c k s' \<and> kept s s' \<and> serves c now m (rh_defense s') \<and>
     contents (readQueue s') = contents (readQueue s) + mset (map (Pair n \<circ> Pair (helper_of cnt bh (nextHelper s))) missed) \<and>
     writeQueue s' = writeQueue s \<and> isInWriteQueue s' = isInWriteQueue s \<and>
     (helpers s', nextHelper s') = with_helper cnt bh (missed \<noteq> []) (helpers s, nextHelper s)"

lemma kept_update:
  "kept s (s\<lparr>helpers := h, nextHelper := i\<rparr>)"
  "settled dr = settled (dram_st s) \<Longrightarrow> def = None \<longleftrightarrow> rh_defense s = None \<Longrightarrow>
     kept s (s\<lparr>nextPacket := x, rh_defense := def, dram_st := dr, nvm_st := nv\<rparr>)"
  by (simp_all add: kept_def outside_def rest_def sched_kept_cong)

lemma ctrl_inv_cong:
  assumes "ctrl_inv c k s" "qos_inv (2 ^ k) (readQueue s) (writeQueue s) s \<Longrightarrow> qos_inv (2 ^ k) (readQueue s') (writeQueue s') s'"
    "sched_ok s \<Longrightarrow> sched_ok s'" "isInWriteQueue s' = isInWriteQueue s" "extents (writeQueue s') = extents (writeQueue s)"
    "totalReadQueueSize s' = totalReadQueueSize s" "totalWriteQueueSize s' = totalWriteQueueSize s"
    "respQueue s' = respQueue s" "all_placed c (readQueue s) \<Longrightarrow> all_placed c (readQueue s')"
    "all_placed c (writeQueue s) \<Longrightarrow> all_placed c (writeQueue s')"
  shows "ctrl_inv c k s'"
  using assms by (simp add: ctrl_inv_def)

lemma ctrl_inv_update:
  "ctrl_inv c k s \<Longrightarrow> ctrl_inv c k (s\<lparr>helpers := h, nextHelper := i\<rparr>)"
  "ctrl_inv c k s \<Longrightarrow> ctrl_inv c k (s\<lparr>nextPacket := x, rh_defense := def, dram_st := dr, nvm_st := nv\<rparr>)"
  "ctrl_inv c k s \<Longrightarrow> ctrl_inv c k (s\<lparr>stats := st\<rparr>)"
  by (erule ctrl_inv_cong; auto intro: qos_inv_cong simp: sched_ok_def split: option.splits)+

lemma grow_helpers:
  "(if 1 < cnt \<and> bh = None
    then (Some (nextHelper s), s\<lparr>helpers := (helpers s)(nextHelper s \<mapsto> (cnt, 0)), nextHelper := nextHelper s + 1\<rparr>)
    else (bh, s)) =
   (helper_of cnt bh (nextHelper s),
    s\<lparr>helpers := fst (with_helper cnt bh True (helpers s, nextHelper s)),
      nextHelper := snd (with_helper cnt bh True (helpers s, nextHelper s))\<rparr>)"
  by (cases s) (simp add: helper_of_def with_helper_def)

lemma add_read_burst_ok:
  assumes g: "ctrl_geom c k" and i: "has_iface c is_dram" and r: "ranks_there c (length (ranks (dram_st s)))"
    and inv: "ctrl_inv c k s" and d: "serves c now (Suc m) (rh_defense s)"
    and e: "min (next_burst (2 ^ k) a) (pk_addr pkt + pk_size pkt) - a = sz" and x: "in_burst k (a, sz)" and ra: "is_dram \<longrightarrow> in_dram c a"
    and q: "pk_qos pkt < numPriorities s" and room: "totalReadQueueSize s + length (respQueue s) < ctrlReadBufferSize c"
  defines "miss \<equiv> (if covered (extents (writeQueue s)) (a, sz) then [] else [(a, sz)])"
  obtains s' where
    "add_read_burst c now is_dram n pkt (2 ^ k) cnt a (sv, bh, s) =
       Inr (sv + 1 - length miss, if miss = [] then bh else helper_of cnt bh (nextHelper s), s')"
    "read_added c k now m n cnt bh miss s s'"
proof -
  obtain l where l: "ceilLog2 sz = Inr l" 
    using x in_burst_size(1)[OF x] by (auto simp: in_burst_def intro: ceilLog2_ok[of sz])
  note I = ctrl_invD[OF inv]
  define h where "h = wrq_hits (2 ^ k) a sz s"
  have h: "h = of_bool (covered (extents (writeQueue s)) (a, sz))"
    unfolding h_def by (rule wrq_hits_eq[OF I(3) x]) (use g in \<open>simp add: ctrl_geom_def\<close>)
  let ?f = "\<lambda>st. st\<lparr>st_readPktSize := count_at l 1 (st_readPktSize st),
                 st_readBursts := st_readBursts st + 1,
                 st_requestorReadAccesses := count_at (pk_requestor pkt) 1 (st_requestorReadAccesses st),
                 st_servicedByWrQ := st_servicedByWrQ st + h,
                 st_bytesReadWrQ := st_bytesReadWrQ st + h * 2 ^ k\<rparr>"
  define s1 where "s1 = upd_ctrl_stats ?f s"
  have f1: "helpers s1 = helpers s" "nextHelper s1 = nextHelper s" "readQueue s1 = readQueue s" "respQueue s1 = respQueue s"
    "writeQueue s1 = writeQueue s" "isInWriteQueue s1 = isInWriteQueue s" "rh_defense s1 = rh_defense s"
    "dram_st s1 = dram_st s" "totalReadQueueSize s1 = totalReadQueueSize s" "numPriorities s1 = numPriorities s"
    by (simp_all add: s1_def)
  have inv1: "ctrl_inv c k s1" and k1: "kept s s1" unfolding s1_def by (rule ctrl_inv_update(3)[OF inv], rule kept_stats)
  show thesis
  proof (cases "covered (extents (writeQueue s)) (a, sz)")
    case True
    have "add_read_burst c now is_dram n pkt (2 ^ k) cnt a (sv, bh, s) = Inr (sv + 1, bh, s1)"
      using True h unfolding s1_def by (simp add: add_read_burst_def Let_def e l flip: h_def)
    moreover have "read_added c k now m n cnt bh [] s s1"
      using inv1 k1 f1 serves_Suc[OF d] by (simp add: read_added_def with_helper_def)
    ultimately show thesis using that[of s1] True by (simp add: miss_def)
  next
    case False
    define bh' where "bh' = helper_of cnt bh (nextHelper s)"
    define hs where "hs = with_helper cnt bh True (helpers s, nextHelper s)"
    define s2 where "s2 = s1\<lparr>helpers := fst hs, nextHelper := snd hs\<rparr>"
    have inv2: "ctrl_inv c k s2" and k2: "kept s s2"
      unfolding s2_def by (rule ctrl_inv_update(1)[OF inv1], rule kept_trans[OF k1 kept_update(1)])
    have f2: "helpers s2 = fst hs" "nextHelper s2 = snd hs" "readQueue s2 = readQueue s" "respQueue s2 = respQueue s"
      "writeQueue s2 = writeQueue s" "isInWriteQueue s2 = isInWriteQueue s" "rh_defense s2 = rh_defense s"
      "dram_st s2 = dram_st s" "totalReadQueueSize s2 = totalReadQueueSize s" "numPriorities s2 = numPriorities s"
      by (simp_all add: s2_def f1)
    have d2: "serves c now (Suc m) (rh_defense s2)" and r2: "ranks_there c (length (ranks (dram_st s2)))"
      using d r by (simp_all add: f2)
    obtain mp y def dr nv where mk: "make_packet c now is_dram True n pkt a sz s2 =
        Inr (mp, s2\<lparr>nextPacket := y, rh_defense := def, dram_st := dr, nvm_st := nv\<rparr>)"
      "burst_pkt n pkt is_dram True a sz mp" "serves c now m def" "settled dr = settled (dram_st s2)"
      "placed c mp" "def = None \<longleftrightarrow> rh_defense s2 = None"
      by (rule make_packet_ok[OF g i r2 d2 ra, of True n pkt sz], rule that)
    define s3 where "s3 = s2\<lparr>nextPacket := y, rh_defense := def, dram_st := dr, nvm_st := nv\<rparr>"
    have inv3: "ctrl_inv c k s3" and k3: "kept s s3"
      unfolding s3_def by (rule ctrl_inv_update(2)[OF inv2], rule kept_trans[OF k2 kept_update(2)[OF mk(4,6)]])
    have f3: "helpers s3 = fst hs" "nextHelper s3 = snd hs" "readQueue s3 = readQueue s" "respQueue s3 = respQueue s"
      "writeQueue s3 = writeQueue s" "isInWriteQueue s3 = isInWriteQueue s" "rh_defense s3 = def"
      "totalReadQueueSize s3 = totalReadQueueSize s" "numPriorities s3 = numPriorities s"
      by (simp_all add: s3_def f2)
    have b: "burst_pkt n pkt is_dram True a sz (mp\<lparr>mp_helper := bh'\<rparr>)" "placed c (mp\<lparr>mp_helper := bh'\<rparr>)"
      using mk(2,5) by (simp_all add: burst_pkt_def extent_def placed_def)
    obtain s' where s': "push_read c now pkt (mp\<lparr>mp_helper := bh'\<rparr>) s3 = Inr s'" "ctrl_inv c k s'" "kept s3 s'"
      "contents (readQueue s') = add_mset (n, bh', a, sz) (contents (readQueue s3))"
      "writeQueue s' = writeQueue s3" "isInWriteQueue s' = isInWriteQueue s3" "helpers s' = helpers s3"
      "nextHelper s' = nextHelper s3" "rh_defense s' = rh_defense s3"
      using push_read_ok[OF inv3 b(1,2) x, of now] q room by (auto simp: f3)
    have "add_read_burst c now is_dram n pkt (2 ^ k) cnt a (sv, bh, s) =
      (if 0 < h then Inr (sv + h, bh, s1)
       else let (bh', s2) = (if 1 < cnt \<and> bh = None
             then (Some (nextHelper s1), s1\<lparr>helpers := (helpers s1)(nextHelper s1 \<mapsto> (cnt, 0)), nextHelper := nextHelper s1 + 1\<rparr>)
             else (bh, s1))
          in rbind (make_packet c now is_dram True n pkt a sz s2) (\<lambda>(mp, s3).
             rbind (push_read c now pkt (mp\<lparr>mp_helper := bh'\<rparr>) s3) (\<lambda>s4. Inr (sv, bh', s4))))"
      unfolding add_read_burst_def prod.case Let_def e l rbind_simps h_def s1_def by (rule refl)
    also have "\<dots> = Inr (sv, bh', s')"
      unfolding grow_helpers unfolding f1(1,2) hs_def[symmetric] bh'_def[symmetric] s2_def[symmetric] Let_def prod.case mk(1) rbind_simps
        s3_def[symmetric] s'(1)
      using False h by simp
    finally have "add_read_burst c now is_dram n pkt (2 ^ k) cnt a (sv, bh, s) = Inr (sv, bh', s')" .
    moreover have "read_added c k now m n cnt bh [(a, sz)] s s'"
      using s' mk(3) kept_trans[OF k3 s'(3)] f3 by (simp add: read_added_def bh'_def hs_def)
    ultimately show thesis using that[of s'] False by (simp add: miss_def bh'_def)
  qed
qed

lemma read_added_trans:
  assumes 1: "read_added c k now m1 n cnt bh miss1 s s1"
    and 2: "read_added c k now m n cnt (if miss1 = [] then bh else helper_of cnt bh (nextHelper s)) miss2 s1 s2"
  shows "read_added c k now m n cnt bh (miss1 @ miss2) s s2"
proof -
  note a = 1[unfolded read_added_def] and b = 2[unfolded read_added_def]
  define bh1 where "bh1 = (if miss1 = [] then bh else helper_of cnt bh (nextHelper s))"
  have w1: "helpers s1 = fst (with_helper cnt bh (miss1 \<noteq> []) (helpers s, nextHelper s))"
    "nextHelper s1 = snd (with_helper cnt bh (miss1 \<noteq> []) (helpers s, nextHelper s))"
    using a by (metis fst_conv, metis snd_conv)
  have h: "helper_of cnt bh1 (nextHelper s1) = helper_of cnt bh (nextHelper s)"
    unfolding bh1_def w1 by (auto simp: helper_of_def with_helper_def)
  have w: "with_helper cnt bh1 (miss2 \<noteq> []) (helpers s1, nextHelper s1) =
      with_helper cnt bh (miss1 @ miss2 \<noteq> []) (helpers s, nextHelper s)"
    unfolding bh1_def w1 by (auto simp: helper_of_def with_helper_def)
  have "kept s s2" by (rule kept_trans) (use a b in blast)+
  then show ?thesis using a b h w unfolding bh1_def[symmetric] read_added_def by simp
qed

lemma add_read_bursts_ok:
  assumes g: "ctrl_geom c k" and i: "has_iface c is_dram"
    and "ranks_there c (length (ranks (dram_st s)))"
    and "ctrl_inv c k s" and "serves c now (j + m) (rh_defense s)" and "pk_qos pkt < numPriorities s"
    and "totalReadQueueSize s + length (respQueue s) + j \<le> ctrlReadBufferSize c"
    and "\<forall>x \<in> set (split_bursts (2 ^ k) (pk_addr pkt + pk_size pkt) a j). in_burst k x \<and> (is_dram \<longrightarrow> in_dram c (fst x))"
  defines "miss \<equiv> filter (\<lambda>x. \<not> covered (extents (writeQueue s)) x) (split_bursts (2 ^ k) (pk_addr pkt + pk_size pkt) a j)"
  shows "\<exists>s'. add_read_bursts c now is_dram n pkt (2 ^ k) cnt j a (sv, bh, s) =
       Inr (sv + j - length miss, if miss = [] then bh else helper_of cnt bh (nextHelper s), s') \<and>
    read_added c k now m n cnt bh miss s s'"
  using assms(3-8) unfolding miss_def
proof (induction j arbitrary: a sv bh s)
  case 0
  then show ?case by (simp add: read_added_def with_helper_def)
next
  case (Suc j)
  let ?e = "pk_addr pkt + pk_size pkt" and ?b = "next_burst (2 ^ k) a"
  let ?sz = "min ?b ?e - a" and ?C = "\<lambda>x. \<not> covered (extents (writeQueue s)) x"
  define miss1 where "miss1 = (if covered (extents (writeQueue s)) (a, ?sz) then [] else [(a, ?sz)])"
  have x: "in_burst k (a, ?sz)" and ra: "is_dram \<longrightarrow> in_dram c a" using Suc.prems(6) by simp_all
  obtain s1 where s1: "add_read_burst c now is_dram n pkt (2 ^ k) cnt a (sv, bh, s) =
       Inr (sv + 1 - length miss1, if miss1 = [] then bh else helper_of cnt bh (nextHelper s), s1)"
    "read_added c k now (j + m) n cnt bh miss1 s s1"
    using add_read_burst_ok[OF g i Suc.prems(1,2) _ refl x ra Suc.prems(4), of now "j + m" n cnt sv bh] Suc.prems(3,5)
    unfolding miss1_def by auto
  note a1 = s1(2)[unfolded read_added_def]
  have kp: "kept s s1" using a1 by blast
  note kd = keptD[OF kp]
  define miss2 where "miss2 = filter ?C (split_bursts (2 ^ k) ?e ?b j)"
  define bh1 where "bh1 = (if miss1 = [] then bh else helper_of cnt bh (nextHelper s))"
  have "totalReadQueueSize s1 = totalReadQueueSize s + length miss1"
    using a1 ctrl_invD(8)[OF Suc.prems(2)] ctrl_invD(8)[of c k s1] by simp
  moreover have l1: "length miss1 \<le> 1" by (simp add: miss1_def)
  ultimately have room: "totalReadQueueSize s1 + length (respQueue s1) + j \<le> ctrlReadBufferSize c"
    using Suc.prems(5) kd(8) by simp
  have W: "extents (writeQueue s1) = extents (writeQueue s)" using a1 by simp
  obtain s2 where s2: "add_read_bursts c now is_dram n pkt (2 ^ k) cnt j ?b (sv + 1 - length miss1, bh1, s1) =
       Inr (sv + 1 - length miss1 + j - length miss2, if miss2 = [] then bh1 else helper_of cnt bh1 (nextHelper s1), s2)"
    "read_added c k now m n cnt bh1 miss2 s1 s2"
    using Suc.IH[of s1 ?b "sv + 1 - length miss1" bh1] Suc.prems(1,4,6) a1 kd(1,14) room W
    unfolding miss2_def by auto
  have sp: "filter ?C (split_bursts (2 ^ k) ?e a (Suc j)) = miss1 @ miss2" by (simp add: miss1_def miss2_def)
  have "read_added c k now m n cnt bh (miss1 @ miss2) s s2"
    by (rule read_added_trans[OF s1(2) s2(2)[unfolded bh1_def]])
  moreover have "(if miss2 = [] then bh1 else helper_of cnt bh1 (nextHelper s1)) =
      (if miss1 @ miss2 = [] then bh else helper_of cnt bh (nextHelper s))"
    using a1 by (auto simp: bh1_def helper_of_def with_helper_def split: if_splits)
  moreover have "sv + 1 - length miss1 + j - length miss2 = sv + Suc j - length (miss1 @ miss2)" using l1 by simp
  ultimately show ?case unfolding sp add_read_bursts.simps(2) s1(1) rbind_simps bh1_def[symmetric] s2(1) by simp
qed

section \<open>Queueing writes\<close>

definition write_added :: "ctrl_cfg \<Rightarrow> nat \<Rightarrow> tick \<Rightarrow> nat \<Rightarrow> (addr \<times> nat) list \<Rightarrow> 'd mem_ctrl \<Rightarrow> 'd mem_ctrl \<Rightarrow> bool" where
  "write_added c k now m bursts s s' \<longleftrightarrow> ctrl_inv c k s' \<and> kept s s' \<and> serves c now m (rh_defense s') \<and>
     readQueue s' = readQueue s \<and> helpers s' = helpers s \<and> nextHelper s' = nextHelper s \<and>
     isInWriteQueue s' = isInWriteQueue s \<union> (\<lambda>e. burstAlign (2 ^ k) (fst e)) ` set bursts \<and>
     extents (writeQueue s) \<subseteq># extents (writeQueue s') \<and>
     set_mset (extents (writeQueue s')) \<subseteq> set_mset (extents (writeQueue s)) \<union> set bursts"

lemma push_write_ok:
  assumes inv: "ctrl_inv c k s" and b: "burst_pkt n pkt is_dram False a sz mp" and pl: "placed c mp" and x: "in_burst k (a, sz)"
    and q: "pk_qos pkt < numPriorities s" and room: "totalWriteQueueSize s < ctrlWriteBufferSize c"
    and new: "burstAlign (2 ^ k) a \<notin> isInWriteQueue s"
  obtains s' where "push_write c now pkt (2 ^ k) a mp s = Inr s'" "ctrl_inv c k s'" "kept s s'"
    "extents (writeQueue s') = add_mset (a, sz) (extents (writeQueue s))"
    "isInWriteQueue s' = insert (burstAlign (2 ^ k) a) (isInWriteQueue s)"
    "readQueue s' = readQueue s" "helpers s' = helpers s" "nextHelper s' = nextHelper s" "rh_defense s' = rh_defense s"
proof -
  note I = ctrl_invD[OF inv]
  have mp: "mp_pkt mp = n" "mp_requestor mp = pk_requestor pkt" "mp_qos mp = pk_qos pkt" "\<not> mp_read mp" "extent mp = (a, sz)"
    "mp_size mp = sz" using b by (simp_all add: burst_pkt_def extent_def)
  let ?B = "insert (burstAlign (2 ^ k) a) (isInWriteQueue s)"
  define s1 where "s1 = upd_ctrl_stats (\<lambda>st. st\<lparr>st_wrQLenPdf := count_at (totalWriteQueueSize s) 1 (st_wrQLenPdf st)\<rparr>) s"
  define s2 where "s2 = s1\<lparr>writeQueue := push_pkt mp (writeQueue s1), isInWriteQueue := insert (burstAlign (2 ^ k) a) (isInWriteQueue s1)\<rparr>"
  have f: "writeQueue s2 = push_pkt mp (writeQueue s)" "isInWriteQueue s2 = ?B" "readQueue s2 = readQueue s"
    "helpers s2 = helpers s" "nextHelper s2 = nextHelper s" "rh_defense s2 = rh_defense s" "respQueue s2 = respQueue s"
    "numPriorities s2 = numPriorities s" by (simp_all add: s2_def s1_def)
  have inv2: "qos_inv (2 ^ k) (readQueue s) (writeQueue s) s2"
    by (rule qos_inv_cong[OF I(1)]) (simp_all add: s2_def s1_def)
  obtain s3 where s3: "logRequest now WRITE (mp_requestor mp) (mp_qos mp) (mp_addr mp) 1 s2 = Inr s3"
    "qos_inv (2 ^ k) (readQueue s) (push_pkt mp (writeQueue s)) s3" "same_but_log s2 s3"
    using logRequest_ok[OF inv2, of mp now] q mp in_burst_size[OF x] f(8) by auto
  define s4 where "s4 = upd_ctrl_stats (\<lambda>st. st\<lparr>st_avgWrQLen := st_avgWrQLen st @ [totalWriteQueueSize s3]\<rparr>) s3"
  have "qos.more s3 = qos.more s2" using s3(3) by (simp add: same_but_log_def)
  note m = more_eqD[OF this]
  have ql: "mp_qos mp < length (writeQueue s)" using q mp I(7) by simp
  have x': "extents (push_pkt mp (writeQueue s)) = add_mset (a, sz) (extents (writeQueue s))"
    by (simp add: extents_push[OF ql] mp)
  have w: "writes_ok k ?B (add_mset (a, sz) (extents (writeQueue s)))"
    using writes_ok_insert[OF I(3) x] new by simp
  have tot: "totalWriteQueueSize s3 = Suc (totalWriteQueueSize s)"
    using qos_inv_total[OF s3(2)] x' I(9) by simp
  have totr: "totalReadQueueSize s3 = totalReadQueueSize s" using qos_invD(9)[OF s3(2)] qos_invD(9)[OF I(1)] by simp
  have "card ?B = totalWriteQueueSize s3" using writes_okD(3)[OF w] tot I(9) by simp
  then have run: "push_write c now pkt (2 ^ k) a mp s = Inr s4"
    using room s3(1) ql mp m(6) f(2) unfolding push_write_def Let_def s1_def[symmetric] s2_def[symmetric] s4_def
    by (simp add: s1_def s2_def)
  have kp: "kept s s4"
  proof -
    have "kept s s2" by (simp add: s2_def s1_def kept_def outside_def rest_def sched_kept_cong)
    also have "kept s2 s3" by (rule kept_log[OF s3(3)])
    also have "kept s3 s4" by (simp add: s4_def)
    finally show ?thesis .
  qed
  have g: "writeQueue s4 = push_pkt mp (writeQueue s)" "isInWriteQueue s4 = ?B" "readQueue s4 = readQueue s"
    "helpers s4 = helpers s" "nextHelper s4 = nextHelper s" "rh_defense s4 = rh_defense s" "respQueue s4 = respQueue s"
    "totalReadQueueSize s4 = totalReadQueueSize s" "totalWriteQueueSize s4 = Suc (totalWriteQueueSize s)"
    by (simp_all add: s4_def m f tot totr)
  have "qos_inv (2 ^ k) (readQueue s4) (writeQueue s4) s4"
    unfolding g(1,3) by (rule qos_inv_cong[OF s3(2)]) (simp_all add: s4_def)
  then have "ctrl_inv c k s4" using I(2,4,10) all_placed_push[OF ql I(11) pl] keptD(3)[OF kp] w room g x' by (simp add: ctrl_inv_def)
  then show thesis using kp run g x' by (intro that[of s4]) simp_all
qed

lemma add_write_burst_ok:
  assumes g: "ctrl_geom c k" and i: "has_iface c is_dram" and r: "ranks_there c (length (ranks (dram_st s)))"
    and inv: "ctrl_inv c k s" and d: "serves c now (Suc m) (rh_defense s)"
    and e: "min (next_burst (2 ^ k) a) (pk_addr pkt + pk_size pkt) - a = sz" and x: "in_burst k (a, sz)" and ra: "is_dram \<longrightarrow> in_dram c a"
    and q: "pk_qos pkt < numPriorities s" and room: "totalWriteQueueSize s < ctrlWriteBufferSize c"
  obtains s' where "add_write_burst c now is_dram n pkt (2 ^ k) a s = Inr s'" "write_added c k now m [(a, sz)] s s'"
proof -
  obtain l where l: "ceilLog2 sz = Inr l"
    using x in_burst_size(1)[OF x] by (auto simp: in_burst_def intro: ceilLog2_ok[of sz])
  define s1 where "s1 = upd_ctrl_stats (\<lambda>st. st\<lparr>st_writePktSize := count_at l 1 (st_writePktSize st),
                 st_writeBursts := st_writeBursts st + 1,
                 st_requestorWriteAccesses := count_at (pk_requestor pkt) 1 (st_requestorWriteAccesses st)\<rparr>) s"
  have f1: "helpers s1 = helpers s" "nextHelper s1 = nextHelper s" "readQueue s1 = readQueue s" "writeQueue s1 = writeQueue s"
    "isInWriteQueue s1 = isInWriteQueue s" "rh_defense s1 = rh_defense s" "dram_st s1 = dram_st s"
    "totalWriteQueueSize s1 = totalWriteQueueSize s" "numPriorities s1 = numPriorities s"
    by (simp_all add: s1_def)
  have inv1: "ctrl_inv c k s1" and k1: "kept s s1" unfolding s1_def by (rule ctrl_inv_update(3)[OF inv], rule kept_stats)
  have run: "add_write_burst c now is_dram n pkt (2 ^ k) a s =
      (if burstAlign (2 ^ k) a \<in> isInWriteQueue s
       then Inr (upd_ctrl_stats (\<lambda>st. st\<lparr>st_mergedWrBursts := st_mergedWrBursts st + 1\<rparr>) s1)
       else rbind (make_packet c now is_dram False n pkt a sz s1) (\<lambda>(mp, s2). push_write c now pkt (2 ^ k) a mp s2))"
    unfolding add_write_burst_def Let_def e l rbind_simps s1_def by (rule refl)
  show thesis
  proof (cases "burstAlign (2 ^ k) a \<in> isInWriteQueue s")
    case True
    let ?s = "upd_ctrl_stats (\<lambda>st. st\<lparr>st_mergedWrBursts := st_mergedWrBursts st + 1\<rparr>) s1"
    have inv2: "ctrl_inv c k ?s" and k2: "kept s ?s"
      by (rule ctrl_inv_update(3)[OF inv1], rule kept_trans[OF k1 kept_stats])
    have "write_added c k now m [(a, sz)] s ?s"
      unfolding write_added_def using inv2 k2 serves_Suc[OF d] True by (auto simp add: f1)
    then show thesis using that[of ?s] run True by simp
  next
    case False
    have d2: "serves c now (Suc m) (rh_defense s1)" and r2: "ranks_there c (length (ranks (dram_st s1)))"
      using d r by (simp_all add: f1)
    obtain mp y def dr nv where mk: "make_packet c now is_dram False n pkt a sz s1 =
        Inr (mp, s1\<lparr>nextPacket := y, rh_defense := def, dram_st := dr, nvm_st := nv\<rparr>)"
      "burst_pkt n pkt is_dram False a sz mp" "serves c now m def" "settled dr = settled (dram_st s1)"
      "placed c mp" "def = None \<longleftrightarrow> rh_defense s1 = None"
      by (rule make_packet_ok[OF g i r2 d2 ra, of False n pkt sz], rule that)
    define s3 where "s3 = s1\<lparr>nextPacket := y, rh_defense := def, dram_st := dr, nvm_st := nv\<rparr>"
    have inv3: "ctrl_inv c k s3" and k3: "kept s s3"
      unfolding s3_def by (rule ctrl_inv_update(2)[OF inv1], rule kept_trans[OF k1 kept_update(2)[OF mk(4,6)]])
    have f3: "helpers s3 = helpers s" "nextHelper s3 = nextHelper s" "readQueue s3 = readQueue s" "writeQueue s3 = writeQueue s"
      "isInWriteQueue s3 = isInWriteQueue s" "rh_defense s3 = def" "totalWriteQueueSize s3 = totalWriteQueueSize s"
      "numPriorities s3 = numPriorities s" by (simp_all add: s3_def f1)
    obtain s' where s': "push_write c now pkt (2 ^ k) a mp s3 = Inr s'" "ctrl_inv c k s'" "kept s3 s'"
      "extents (writeQueue s') = add_mset (a, sz) (extents (writeQueue s3))"
      "isInWriteQueue s' = insert (burstAlign (2 ^ k) a) (isInWriteQueue s3)"
      "readQueue s' = readQueue s3" "helpers s' = helpers s3" "nextHelper s' = nextHelper s3" "rh_defense s' = rh_defense s3"
      using push_write_ok[OF inv3 mk(2,5) x, of now] q room False by (auto simp: f3)
    have "write_added c k now m [(a, sz)] s s'"
      unfolding write_added_def using s' mk(3) kept_trans[OF k3 s'(3)] by (auto simp: f3)
    then show thesis using that[of s'] run False mk(1) s'(1) by (simp add: s3_def)
  qed
qed

lemma add_write_bursts_ok:
  assumes g: "ctrl_geom c k" and i: "has_iface c is_dram"
    and "ranks_there c (length (ranks (dram_st s)))"
    and "ctrl_inv c k s" and "serves c now (j + m) (rh_defense s)" and "pk_qos pkt < numPriorities s"
    and "totalWriteQueueSize s + j \<le> ctrlWriteBufferSize c"
    and "\<forall>x \<in> set (split_bursts (2 ^ k) (pk_addr pkt + pk_size pkt) a j). in_burst k x \<and> (is_dram \<longrightarrow> in_dram c (fst x))"
  shows "\<exists>s'. add_write_bursts c now is_dram n pkt (2 ^ k) j a s = Inr s' \<and>
    write_added c k now m (split_bursts (2 ^ k) (pk_addr pkt + pk_size pkt) a j) s s'"
  using assms(3-8)
proof (induction j arbitrary: a s)
  case 0
  then show ?case by (simp add: write_added_def)
next
  case (Suc j)
  let ?e = "pk_addr pkt + pk_size pkt" and ?b = "next_burst (2 ^ k) a"
  let ?sz = "min ?b ?e - a"
  have x: "in_burst k (a, ?sz)" and ra: "is_dram \<longrightarrow> in_dram c a" using Suc.prems(6) by simp_all
  obtain s1 where s1: "add_write_burst c now is_dram n pkt (2 ^ k) a s = Inr s1"
    "write_added c k now (j + m) [(a, ?sz)] s s1"
    using add_write_burst_ok[OF g i Suc.prems(1,2) _ refl x ra Suc.prems(4), of now "j + m" n] Suc.prems(3,5) by auto
  note a1 = s1(2)[unfolded write_added_def]
  have kp: "kept s s1" using a1 by blast
  note kd = keptD[OF kp]
  have "size (extents (writeQueue s1)) \<le> size (extents (writeQueue s)) + 1"
  proof -
    have "card (isInWriteQueue s1) \<le> card (isInWriteQueue s) + 1"
      using a1 card_insert_le_m1 by (simp add: card_insert_if writes_okD(4)[OF ctrl_invD(3)[OF Suc.prems(2)]])
    then show ?thesis using writes_okD(3)[OF ctrl_invD(3)[OF Suc.prems(2)]] writes_okD(3)[OF ctrl_invD(3), of c k s1] a1 by simp
  qed
  then have room: "totalWriteQueueSize s1 + j \<le> ctrlWriteBufferSize c"
    using Suc.prems(2,5) a1 ctrl_invD(9)[of c k s1] ctrl_invD(9)[of c k s] by simp
  obtain s2 where s2: "add_write_bursts c now is_dram n pkt (2 ^ k) j ?b s1 = Inr s2"
    "write_added c k now m (split_bursts (2 ^ k) ?e ?b j) s1 s2"
    using Suc.IH[of s1 ?b] Suc.prems(1,4,6) a1 kd(1,14) room by auto
  note a2 = s2(2)[unfolded write_added_def]
  have "kept s s2" by (rule kept_trans[OF kp]) (use a2 in blast)
  moreover have "extents (writeQueue s) \<subseteq># extents (writeQueue s2)" using a1 a2 by (blast intro: subset_mset.order_trans)
  moreover have "set_mset (extents (writeQueue s2)) \<subseteq> set_mset (extents (writeQueue s)) \<union> set (split_bursts (2 ^ k) ?e a (Suc j))"
    using a1 a2 by auto
  moreover have "isInWriteQueue s2 = isInWriteQueue s \<union> (\<lambda>e. burstAlign (2 ^ k) (fst e)) ` set (split_bursts (2 ^ k) ?e a (Suc j))"
    using a1 a2 by auto
  ultimately have "write_added c k now m (split_bursts (2 ^ k) ?e a (Suc j)) s s2"
    using a1 a2 unfolding write_added_def by simp
  then show ?case using s1(1) s2(1) by simp
qed

section \<open>Accepting a packet\<close>

text \<open>The memory of the interface that a packet belongs to has its bytes.\<close>

definition mem_serves :: "ctrl_cfg \<Rightarrow> packet \<Rightarrow> 'd mem_ctrl \<Rightarrow> bool" where
  "mem_serves c pkt s \<longleftrightarrow> plain_request pkt \<and>
     (if in_dram c (pk_addr pkt)
      then am_subset (dram_mem s) (pk_addr pkt) (pk_size pkt) \<and> (\<forall>x < pk_size pkt. in_dram c (pk_addr pkt + x))
      else in_nvm c (pk_addr pkt) \<and> am_subset (nvm_mem s) (pk_addr pkt) (pk_size pkt))"

text \<open>The state after a packet was served by the memory.\<close>

definition answered :: "tick \<Rightarrow> nat \<Rightarrow> packet \<Rightarrow> 'd mem_ctrl \<Rightarrow> 'd mem_ctrl \<Rightarrow> bool" where
  "answered t n pkt s s' \<longleftrightarrow> (\<exists>m1 m2 p l. s' = s\<lparr>dram_mem := m1, nvm_mem := m2, sysPackets := (sysPackets s)(n := p),
       responsesSent := responsesSent s @ l\<rparr> \<and>
     am_subset m1 = am_subset (dram_mem s) \<and> am_subset m2 = am_subset (nvm_mem s) \<and>
     map fst l = (if needsResponse pkt then [n] else []) \<and> (\<forall>x \<in> set l. t \<le> snd x))"

lemma accessAndRespond_ok:
  assumes m: "mem_serves c pkt s" and n: "sysPackets s n = pkt"
  obtains s' where "accessAndRespond c now n lat s = Inr s'" "answered (now + lat) n pkt s s'"
proof -
  have p: "plain_request pkt" using m by (simp add: mem_serves_def)
  define mem where "mem = (if in_dram c (pk_addr pkt) then dram_mem s else nvm_mem s)"
  have "am_subset mem (pk_addr pkt) (pk_size pkt)" using m by (simp add: mem_serves_def mem_def split: if_splits)
  then obtain p' m' where a: "access pkt mem = Inr (p', m')" "am_subset m' = am_subset mem" "needsResponse pkt \<longrightarrow> isResponse p'"
    by (rule access_plain[OF p])
  define s1 where "s1 = (if in_dram c (pk_addr pkt) then s\<lparr>dram_mem := m'\<rparr> else s\<lparr>nvm_mem := m'\<rparr>)"
  have s1: "s1 = s\<lparr>dram_mem := dram_mem s1, nvm_mem := nvm_mem s1\<rparr>" "am_subset (dram_mem s1) = am_subset (dram_mem s)"
    "am_subset (nvm_mem s1) = am_subset (nvm_mem s)" "sysPackets s1 = sysPackets s" "responsesSent s1 = responsesSent s"
    using a(2) by (simp_all add: s1_def mem_def)
  let ?t = "now + lat + headerDelay p' + payloadDelay p'"
  have acc: "(if in_dram c (pk_addr pkt) then rbind (access pkt (dram_mem s)) (\<lambda>(p, m). Inr (p, s\<lparr>dram_mem := m\<rparr>))
       else if in_nvm c (pk_addr pkt) then rbind (access pkt (nvm_mem s)) (\<lambda>(p, m). Inr (p, s\<lparr>nvm_mem := m\<rparr>))
       else Inl Panic) = Inr (p', s1)"
    using m a(1) by (simp add: mem_serves_def mem_def s1_def split: if_splits)
  let ?s' = "if needsResponse pkt
      then s1\<lparr>sysPackets := (sysPackets s1)(n := p'\<lparr>headerDelay := 0, payloadDelay := 0\<rparr>),
              responsesSent := responsesSent s1 @ [(n, ?t)]\<rparr>
      else s1\<lparr>sysPackets := (sysPackets s1)(n := p')\<rparr>"
  have "accessAndRespond c now n lat s = Inr ?s'"
    unfolding accessAndRespond_def n Let_def acc using a(3) by simp
  moreover have "answered (now + lat) n pkt s ?s'"
  proof (cases "needsResponse pkt")
    case True
    then show ?thesis using s1 unfolding answered_def
      by (intro exI[of _ "dram_mem s1"] exI[of _ "nvm_mem s1"] exI[of _ "p'\<lparr>headerDelay := 0, payloadDelay := 0\<rparr>"]
          exI[of _ "[(n, ?t)]"]) (simp; metis)
  next
    case False
    then show ?thesis using s1 unfolding answered_def
      by (intro exI[of _ "dram_mem s1"] exI[of _ "nvm_mem s1"] exI[of _ p'] exI[of _ "[]"]) (simp; metis)
  qed
  ultimately show thesis by (rule that)
qed

lemma answered_inv: "answered t n pkt s s' \<Longrightarrow> ctrl_inv c k s \<Longrightarrow> ctrl_inv c k s'"
  by (erule ctrl_inv_cong; auto simp: answered_def sched_ok_def split: option.splits elim!: qos_inv_cong)

lemma answeredD:
  assumes "answered t n pkt s s'"
  shows "readQueue s' = readQueue s" "writeQueue s' = writeQueue s" "isInWriteQueue s' = isInWriteQueue s"
    "respQueue s' = respQueue s" "helpers s' = helpers s" "nextHelper s' = nextHelper s" "nextReqEvent s' = nextReqEvent s"
    "totalReadQueueSize s' = totalReadQueueSize s" "totalWriteQueueSize s' = totalWriteQueueSize s"
    "am_subset (dram_mem s') = am_subset (dram_mem s)" "am_subset (nvm_mem s') = am_subset (nvm_mem s)"
    "map fst (responsesSent s') = map fst (responsesSent s) @ (if needsResponse pkt then [n] else [])"
    "x \<noteq> n \<Longrightarrow> sysPackets s' x = sysPackets s x" "respondEvent s' = respondEvent s"
    "ranks (dram_st s') = ranks (dram_st s)" "sched_kept s s'" "drainState s' = drainState s"
    "retryRdReq s' = retryRdReq s" "retryWrReq s' = retryWrReq s" "dram_st s' = dram_st s" "busStateNext s' = busStateNext s"
    "turnPolicy s' = turnPolicy s" "rh_defense s' = rh_defense s"
  using assms unfolding answered_def by (auto intro!: sched_kept_cong)

lemma kick_request_ok:
  obtains ev where "kick_request now s = Inr (s\<lparr>nextReqEvent := Some ev\<rparr>)"
proof (cases "nextReqEvent s")
  case None
  then show thesis using that[of now] by (simp add: kick_request_def schedule_def)
next
  case (Some t)
  then have "s = s\<lparr>nextReqEvent := Some t\<rparr>" by simp
  then show thesis using that[of t] Some by (simp add: kick_request_def)
qed

lemma ctrl_inv_event: "ctrl_inv c k s \<Longrightarrow> ctrl_inv c k (s\<lparr>nextReqEvent := ev\<rparr>)"
  "ctrl_inv c k s \<Longrightarrow> ctrl_inv c k (s\<lparr>helpers := h\<rparr>)"
  by (erule ctrl_inv_cong; auto intro: qos_inv_cong simp: sched_ok_def split: option.splits)+

definition bursts_of :: "nat \<Rightarrow> packet \<Rightarrow> (addr \<times> nat) list" where
  "bursts_of k pkt = split_bursts (2 ^ k) (pk_addr pkt + pk_size pkt) (pk_addr pkt)
     (burst_count (2 ^ k) (pk_addr pkt) (pk_size pkt))"

definition uncovered :: "nat \<Rightarrow> packet \<Rightarrow> 'd mem_ctrl \<Rightarrow> (addr \<times> nat) list" where
  "uncovered k pkt s = filter (\<lambda>x. \<not> covered (extents (writeQueue s)) x) (bursts_of k pkt)"

lemma split_bursts_length [simp]: "length (split_bursts b e a j) = j"
  by (induction j arbitrary: a) simp_all

lemma bursts_within:
  assumes "plain_request pkt" and "(y, l) \<in> set (bursts_of k pkt)"
  shows "0 < l" "pk_addr pkt \<le> y" "y + l \<le> pk_addr pkt + pk_size pkt" "y div 2 ^ k = (y + l - 1) div 2 ^ k"
proof -
  let ?a = "pk_addr pkt" and ?e = "pk_addr pkt + pk_size pkt"
  have ae: "?a < ?e" using assms(1) by (simp add: plain_request_def)
  have n: "burst_count (2 ^ k) ?a (pk_size pkt) = (?e - 1) div 2 ^ k - ?a div 2 ^ k + 1"
    using assms(1) by (intro burst_count_eq) (simp add: plain_request_def)
  note part = split_bursts_partition[OF ae n]
  show l: "0 < l" and "y div 2 ^ k = (y + l - 1) div 2 ^ k" using part assms(2) by (auto simp: bursts_of_def)
  have "set [y..<y + l] \<subseteq> set (concat (map (\<lambda>(x, l). [x..<x + l]) (bursts_of k pkt)))"
    using assms(2) by (force simp: set_concat)
  then have sub: "set [y..<y + l] \<subseteq> {?a..<?e}" using part by (simp add: bursts_of_def)
  have "y \<in> set [y..<y + l]" "y + l - 1 \<in> set [y..<y + l]" using l by auto
  then have "y \<in> {?a..<?e}" "y + l - 1 \<in> {?a..<?e}" using sub by blast+
  then show "?a \<le> y" "y + l \<le> ?e" by auto
qed

lemma bursts_in_burst:
  assumes "plain_request pkt" and "x \<in> set (bursts_of k pkt)"
  shows "in_burst k x"
proof -
  obtain y l where x: "x = (y, l)" by (cases x)
  note w = bursts_within[OF assms(1) assms(2)[unfolded x]]
  have "pk_addr pkt + pk_size pkt \<le> u64_size" using assms(1) by (simp add: plain_request_def)
  then have "y + l \<le> u64_size" using w(3) by (rule le_trans[rotated])
  then show ?thesis using w x by (simp add: in_burst_def)
qed

lemma bursts_in_dram:
  assumes m: "mem_serves c pkt s" and d: "is_dram \<longrightarrow> in_dram c (pk_addr pkt)" and x: "x \<in> set (bursts_of k pkt)"
  shows "is_dram \<longrightarrow> in_dram c (fst x)"
proof
  assume "is_dram"
  obtain y l where y: "x = (y, l)" by (cases x)
  have p: "plain_request pkt" using m by (simp add: mem_serves_def)
  note w = bursts_within[OF p x[unfolded y]]
  have "y = pk_addr pkt + (y - pk_addr pkt)" "y - pk_addr pkt < pk_size pkt" using w by simp_all
  then show "in_dram c (fst x)" using m d \<open>is_dram\<close> y unfolding mem_serves_def by (metis fst_conv)
qed

text \<open>What an arrival leaves alone.\<close>

definition untouched :: "'d mem_ctrl \<Rightarrow> 'd mem_ctrl \<Rightarrow> bool" where
  "untouched s s' \<longleftrightarrow> sched_kept s s' \<and> respQueue s' = respQueue s \<and> respondEvent s' = respondEvent s \<and>
     drainState s' = drainState s \<and> am_subset (dram_mem s') = am_subset (dram_mem s) \<and>
     am_subset (nvm_mem s') = am_subset (nvm_mem s) \<and> settled (dram_st s') = settled (dram_st s) \<and>
     busStateNext s' = busStateNext s \<and> turnPolicy s' = turnPolicy s \<and> (rh_defense s' = None \<longleftrightarrow> rh_defense s = None) \<and>
     (nextReqEvent s \<noteq> None \<longrightarrow> nextReqEvent s' \<noteq> None)"

lemma untouched_trans: "untouched s s' \<Longrightarrow> untouched s' s'' \<Longrightarrow> untouched s s''"
  by (auto simp: untouched_def intro: sched_kept_trans)

lemma untouched_length: "untouched s s' \<Longrightarrow> length (ranks (dram_st s')) = length (ranks (dram_st s))"
  unfolding untouched_def by (blast dest: settled_length)

lemma kept_untouched: "kept s s' \<Longrightarrow> untouched s s'"
  by (auto simp: untouched_def kept_def outside_def rest_def)

lemma answered_untouched: "answered t n pkt s s' \<Longrightarrow> untouched s s'"
  using answeredD[of t n pkt s s'] by (simp add: untouched_def)

text \<open>A read was taken: the bursts that no queued write covers are queued, or it was answered at once.\<close>

definition read_taken :: "ctrl_cfg \<Rightarrow> nat \<Rightarrow> nat \<Rightarrow> packet \<Rightarrow> 'd mem_ctrl \<Rightarrow> 'd mem_ctrl \<Rightarrow> bool" where
  "read_taken c k n pkt s s' \<longleftrightarrow>
     (let miss = uncovered k pkt s; cnt = length (bursts_of k pkt); split = 1 < cnt \<and> miss \<noteq> [] in
      ctrl_inv c k s' \<and> untouched s s' \<and> extents (writeQueue s') = extents (writeQueue s) \<and>
      contents (readQueue s') = contents (readQueue s) +
        mset (map (\<lambda>e. (n, if split then Some (nextHelper s) else None, e)) miss) \<and>
      map fst (responsesSent s') = map fst (responsesSent s) @ (if miss = [] then [n] else []) \<and>
      (miss \<noteq> [] \<longrightarrow> nextReqEvent s' \<noteq> None \<and> sysPackets s' n = pkt) \<and>
      (\<forall>x. x \<noteq> n \<longrightarrow> sysPackets s' x = sysPackets s x) \<and>
      helpers s' = (if split then (helpers s)(nextHelper s \<mapsto> (cnt, cnt - length miss)) else helpers s) \<and>
      nextHelper s' = (if split then nextHelper s + 1 else nextHelper s))"

lemma addToReadQueue_ok:
  assumes g: "ctrl_geom c k" and i: "has_iface c is_dram" "is_dram \<longrightarrow> in_dram c (pk_addr pkt)" and r: "ranks_there c (length (ranks (dram_st s)))"
    and inv: "ctrl_inv c k s" and n: "sysPackets s n = pkt" and m: "mem_serves c pkt s" and rd: "isRead pkt"
    and d: "serves c now (length (bursts_of k pkt)) (rh_defense s)" and q: "pk_qos pkt < numPriorities s"
    and room: "totalReadQueueSize s + length (respQueue s) + length (bursts_of k pkt) \<le> ctrlReadBufferSize c"
  obtains s' where "addToReadQueue c now n (length (bursts_of k pkt)) is_dram s = Inr s'" "read_taken c k n pkt s s'"
proof -
  define cnt where "cnt = length (bursts_of k pkt)"
  define miss where "miss = uncovered k pkt s"
  have p: "plain_request pkt" using m by (simp add: mem_serves_def)
  have cb: "burst_count (2 ^ k) (pk_addr pkt) (pk_size pkt) = cnt" by (simp add: cnt_def bursts_of_def)
  have pos: "0 < cnt" using p burst_count_eq[of "pk_size pkt" k "pk_addr pkt"] by (simp add: plain_request_def flip: cb)
  have bb: "burst_bytes c is_dram = Inr (2 ^ k)"
    using g i(1) by (auto simp: burst_bytes_def ctrl_geom_def has_iface_def split: if_splits)
  have le: "length miss \<le> cnt" by (simp add: miss_def uncovered_def cnt_def)
  obtain s1 where s1: "add_read_bursts c now is_dram n pkt (2 ^ k) cnt cnt (pk_addr pkt) (0, None, s) =
      Inr (cnt - length miss, if miss = [] then None else helper_of cnt None (nextHelper s), s1)"
    "read_added c k now 0 n cnt None miss s s1"
    using add_read_bursts_ok[OF g i(1) r inv, of now cnt 0 pkt "pk_addr pkt" n cnt 0 None] d q room bursts_in_burst[OF p, of _ k] bursts_in_dram[OF m i(2), of _ k]
    unfolding miss_def uncovered_def bursts_of_def cb by auto
  note a = s1(2)[unfolded read_added_def]
  have kp: "kept s s1" and inv1: "ctrl_inv c k s1" using a by blast+
  note kd = keptD[OF kp]
  have w: "helpers s1 = fst (with_helper cnt None (miss \<noteq> []) (helpers s, nextHelper s))"
    "nextHelper s1 = snd (with_helper cnt None (miss \<noteq> []) (helpers s, nextHelper s))"
    using a by (metis fst_conv, metis snd_conv)
  have run: "addToReadQueue c now n cnt is_dram s =
      (if cnt - length miss = cnt then accessAndRespond c now n (frontendLatency c) s1
       else kick_request now (case if miss = [] then None else helper_of cnt None (nextHelper s) of None \<Rightarrow> s1
            | Some h \<Rightarrow> s1\<lparr>helpers := (helpers s1)(h := map_option (\<lambda>(c, _). (c, cnt - length miss)) (helpers s1 h))\<rparr>))"
    using rd pos plain_request_kind(2)[OF p] by (simp add: addToReadQueue_def n bb Let_def s1(1))
  show thesis
  proof (cases "miss = []")
    case True
    have m1: "mem_serves c pkt s1" using m kd(6,7) by (simp add: mem_serves_def)
    have n1: "sysPackets s1 n = pkt" using n kd(5) by simp
    obtain s2 where s2: "accessAndRespond c now n (frontendLatency c) s1 = Inr s2" "answered (now + frontendLatency c) n pkt s1 s2"
      by (rule accessAndRespond_ok[OF m1 n1, of now "frontendLatency c"], rule that)
    note ad = answeredD[OF s2(2)]
    have u: "untouched s s2" by (rule untouched_trans[OF kept_untouched[OF kp] answered_untouched[OF s2(2)]])
    have "read_taken c k n pkt s s2"
      unfolding read_taken_def Let_def miss_def[symmetric] cnt_def[symmetric]
      using answered_inv[OF s2(2) inv1] u ad kd a w plain_request_kind(3)[OF p rd] True by (simp add: with_helper_def)
    then show thesis using that[of s2] run s2(1) True by (simp add: cnt_def)
  next
    case False
    define s2 where "s2 = (if 1 < cnt then s1\<lparr>helpers := (helpers s)(nextHelper s \<mapsto> (cnt, cnt - length miss))\<rparr> else s1)"
    have inv2: "ctrl_inv c k s2" using inv1 ctrl_inv_event(2)[OF inv1] by (simp add: s2_def)
    have h2: "(case if miss = [] then None else helper_of cnt None (nextHelper s) of None \<Rightarrow> s1
            | Some h \<Rightarrow> s1\<lparr>helpers := (helpers s1)(h := map_option (\<lambda>(c, _). (c, cnt - length miss)) (helpers s1 h))\<rparr>) = s2"
      using False w by (simp add: s2_def helper_of_def with_helper_def)
    obtain ev where ev: "kick_request now s2 = Inr (s2\<lparr>nextReqEvent := Some ev\<rparr>)" by (rule kick_request_ok)
    let ?s = "s2\<lparr>nextReqEvent := Some ev\<rparr>"
    have f2: "readQueue ?s = readQueue s1" "writeQueue ?s = writeQueue s1" "responsesSent ?s = responsesSent s1"
      "sysPackets ?s = sysPackets s1" "respQueue ?s = respQueue s1" "respondEvent ?s = respondEvent s1" "drainState ?s = drainState s1"
      "dram_mem ?s = dram_mem s1" "nvm_mem ?s = nvm_mem s1" "dram_st ?s = dram_st s1"
      "helpers ?s = (if 1 < cnt then (helpers s)(nextHelper s \<mapsto> (cnt, cnt - length miss)) else helpers s1)"
      "nextHelper ?s = nextHelper s1" "busStateNext ?s = busStateNext s1" "turnPolicy ?s = turnPolicy s1"
      "rh_defense ?s = rh_defense s1" by (simp_all add: s2_def)
    have "sched_kept s1 ?s" by (simp add: s2_def sched_kept_cong)
    then have "sched_kept s ?s" using kp sched_kept_trans unfolding kept_def by blast
    then have u: "untouched s ?s" using kd by (simp add: untouched_def f2)
    have "read_taken c k n pkt s ?s"
      unfolding read_taken_def Let_def miss_def[symmetric] cnt_def[symmetric]
      using ctrl_inv_event(1)[OF inv2] u a kd w False n
      by (auto simp add: f2 with_helper_def helper_of_def comp_def)
    moreover have "cnt - length miss \<noteq> cnt" using False le pos by (cases miss) auto
    ultimately show thesis using that[of ?s] run h2 ev by (simp add: cnt_def)
  qed
qed

text \<open>A write was taken: every burst is in the queue, as a new packet or merged with an older one.\<close>

definition write_taken :: "ctrl_cfg \<Rightarrow> nat \<Rightarrow> nat \<Rightarrow> packet \<Rightarrow> 'd mem_ctrl \<Rightarrow> 'd mem_ctrl \<Rightarrow> bool" where
  "write_taken c k n pkt s s' \<longleftrightarrow> ctrl_inv c k s' \<and> untouched s s' \<and> contents (readQueue s') = contents (readQueue s) \<and>
     isInWriteQueue s' = isInWriteQueue s \<union> (\<lambda>e. burstAlign (2 ^ k) (fst e)) ` set (bursts_of k pkt) \<and>
     extents (writeQueue s) \<subseteq># extents (writeQueue s') \<and>
     set_mset (extents (writeQueue s')) \<subseteq> set_mset (extents (writeQueue s)) \<union> set (bursts_of k pkt) \<and>
     map fst (responsesSent s') = map fst (responsesSent s) @ (if needsResponse pkt then [n] else []) \<and>
     nextReqEvent s' \<noteq> None \<and> (\<forall>x. x \<noteq> n \<longrightarrow> sysPackets s' x = sysPackets s x) \<and>
     helpers s' = helpers s \<and> nextHelper s' = nextHelper s"

lemma addToWriteQueue_ok:
  assumes g: "ctrl_geom c k" and i: "has_iface c is_dram" "is_dram \<longrightarrow> in_dram c (pk_addr pkt)" and r: "ranks_there c (length (ranks (dram_st s)))"
    and inv: "ctrl_inv c k s" and n: "sysPackets s n = pkt" and m: "mem_serves c pkt s" and wr: "isWrite pkt"
    and d: "serves c now (length (bursts_of k pkt)) (rh_defense s)" and q: "pk_qos pkt < numPriorities s"
    and room: "totalWriteQueueSize s + length (bursts_of k pkt) \<le> ctrlWriteBufferSize c"
  obtains s' where "addToWriteQueue c now n (length (bursts_of k pkt)) is_dram s = Inr s'" "write_taken c k n pkt s s'"
proof -
  define cnt where "cnt = length (bursts_of k pkt)"
  have p: "plain_request pkt" using m by (simp add: mem_serves_def)
  have cb: "burst_count (2 ^ k) (pk_addr pkt) (pk_size pkt) = cnt" by (simp add: cnt_def bursts_of_def)
  have bb: "burst_bytes c is_dram = Inr (2 ^ k)"
    using g i(1) by (auto simp: burst_bytes_def ctrl_geom_def has_iface_def split: if_splits)
  obtain s1 where s1: "add_write_bursts c now is_dram n pkt (2 ^ k) cnt (pk_addr pkt) s = Inr s1"
    "write_added c k now 0 (bursts_of k pkt) s s1"
    using add_write_bursts_ok[OF g i(1) r inv, of now cnt 0 pkt "pk_addr pkt" n] d q room bursts_in_burst[OF p, of _ k] bursts_in_dram[OF m i(2), of _ k]
    unfolding bursts_of_def cb by auto
  note a = s1(2)[unfolded write_added_def]
  have kp: "kept s s1" and inv1: "ctrl_inv c k s1" using a by blast+
  note kd = keptD[OF kp]
  have m1: "mem_serves c pkt s1" using m kd(6,7) by (simp add: mem_serves_def)
  have n1: "sysPackets s1 n = pkt" using n kd(5) by simp
  obtain s2 where s2: "accessAndRespond c now n (frontendLatency c) s1 = Inr s2" "answered (now + frontendLatency c) n pkt s1 s2"
    by (rule accessAndRespond_ok[OF m1 n1, of now "frontendLatency c"], rule that)
  note ad = answeredD[OF s2(2)]
  obtain ev where ev: "kick_request now s2 = Inr (s2\<lparr>nextReqEvent := Some ev\<rparr>)" by (rule kick_request_ok)
  let ?s = "s2\<lparr>nextReqEvent := Some ev\<rparr>"
  have "untouched s s2" by (rule untouched_trans[OF kept_untouched[OF kp] answered_untouched[OF s2(2)]])
  then have u: "untouched s ?s" by (auto simp: untouched_def sched_kept_def sched_ok_def split: option.splits)
  have run: "addToWriteQueue c now n cnt is_dram s = Inr ?s"
    using wr by (simp add: addToWriteQueue_def n bb Let_def s1(1) s2(1) ev)
  have "write_taken c k n pkt s ?s"
    unfolding write_taken_def using ctrl_inv_event(1)[OF answered_inv[OF s2(2) inv1]] u a kd ad by simp
  then show thesis using that run by (simp add: cnt_def)
qed

text \<open>The arrival up to the decision, and a refusal.\<close>

definition arrived :: "nat \<Rightarrow> 'd mem_ctrl \<Rightarrow> 'd mem_ctrl \<Rightarrow> bool" where
  "arrived n s s' \<longleftrightarrow> untouched s s' \<and> contents (readQueue s') = contents (readQueue s) \<and>
     extents (writeQueue s') = extents (writeQueue s) \<and> isInWriteQueue s' = isInWriteQueue s \<and>
     responsesSent s' = responsesSent s \<and> helpers s' = helpers s \<and> nextHelper s' = nextHelper s \<and>
     (\<forall>x. x \<noteq> n \<longrightarrow> sysPackets s' x = sysPackets s x)"

lemma arrived_taken:
  assumes "arrived n s s1"
  shows "read_taken c k n pkt s1 s' \<Longrightarrow> read_taken c k n pkt s s'" "write_taken c k n pkt s1 s' \<Longrightarrow> write_taken c k n pkt s s'"
  using assms untouched_trans[of s s1 s'] by (auto simp: arrived_def read_taken_def write_taken_def uncovered_def Let_def)

lemma note_arrival_inv: "ctrl_inv c k s \<Longrightarrow> ctrl_inv c k (note_arrival now s)"
  by (erule ctrl_inv_cong; auto simp: note_arrival_def sched_ok_def split: option.splits intro: qos_inv_cong)

lemma note_arrival_simps:
  "readQueue (note_arrival now s) = readQueue s" "writeQueue (note_arrival now s) = writeQueue s"
  "sched_ok (note_arrival now s) = sched_ok s" "policy (note_arrival now s) = policy s"
  "numPriorities (note_arrival now s) = numPriorities s" "rh_defense (note_arrival now s) = rh_defense s"
  "totalReadQueueSize (note_arrival now s) = totalReadQueueSize s" "totalWriteQueueSize (note_arrival now s) = totalWriteQueueSize s"
  by (simp_all add: note_arrival_def sched_ok_def split: option.splits)

lemma note_arrival_arrived: "arrived n s (note_arrival now s)"
  by (simp add: note_arrival_def arrived_def untouched_def sched_kept_cong)

text \<open>The state after the priority has been decided.\<close>

lemma schedule_arrival:
  assumes inv: "ctrl_inv c k s" and q: "policy s = None \<longrightarrow> pk_qos pkt < numPriorities s"
  obtains prio rq wq s1 s2 where
    "qosSchedule (2 ^ k) now (pk_requestor pkt) (pk_size pkt) (pk_qos pkt)
       (readQueue (note_arrival now s), writeQueue (note_arrival now s), note_arrival now s) = Inr (prio, rq, wq, s1)"
    "s2 = s1\<lparr>readQueue := rq, writeQueue := wq, sysPackets := (sysPackets s1)(n := pkt\<lparr>pk_qos := prio\<rparr>)\<rparr>"
    "prio < numPriorities s2" "ctrl_inv c k s2" "arrived n s s2" "rh_defense s2 = rh_defense s"
    "totalReadQueueSize s2 = totalReadQueueSize s" "totalWriteQueueSize s2 = totalWriteQueueSize s"
proof -
  let ?s0 = "note_arrival now s"
  note I = ctrl_invD[OF note_arrival_inv[OF inv, of now]]
  have q0: "policy ?s0 = None \<longrightarrow> pk_qos pkt < numPriorities ?s0" using q by (simp add: note_arrival_simps)
  obtain prio rq wq s1 where s1: "qosSchedule (2 ^ k) now (pk_requestor pkt) (pk_size pkt) (pk_qos pkt)
       (readQueue ?s0, writeQueue ?s0, ?s0) = Inr (prio, rq, wq, s1)" "prio < numPriorities ?s0"
    "qos_inv (2 ^ k) rq wq s1" "requeued (readQueue ?s0) rq" "requeued (writeQueue ?s0) wq" "qos_env ?s0 s1"
    by (rule qosSchedule_ok[OF I(1,2) q0, of now "pk_requestor pkt" "pk_size pkt"], rule that)
  note env = s1(6)[unfolded qos_env_def]
  have "qos.more s1 = qos.more ?s0" using env by blast
  note m = more_eqD[OF this]
  have "ctrl_view.truncate s1 = ctrl_view.truncate ?s0" using env by blast
  note v = view_eqD[OF this]
  define s2 where "s2 = s1\<lparr>readQueue := rq, writeQueue := wq, sysPackets := (sysPackets s1)(n := pkt\<lparr>pk_qos := prio\<rparr>)\<rparr>"
  have f: "readQueue s2 = rq" "writeQueue s2 = wq" "numPriorities s2 = numPriorities s1" "policy s2 = policy s1"
    "isInWriteQueue s2 = isInWriteQueue s1" "totalReadQueueSize s2 = totalReadQueueSize s1"
    "totalWriteQueueSize s2 = totalWriteQueueSize s1" "respQueue s2 = respQueue s1" "rh_defense s2 = rh_defense s1"
    by (simp_all add: s2_def)
  have q2: "qos_inv (2 ^ k) rq wq s2" by (rule qos_inv_cong[OF s1(3)]) (simp_all add: s2_def)
  have so: "sched_ok s2" using env I(2) by (auto simp: s2_def sched_ok_def)
  have x: "extents wq = extents (writeQueue ?s0)" "contents rq = contents (readQueue ?s0)"
    using requeued_extents[OF s1(5)] requeued_contents[OF s1(4)] by blast+
  have inv2: "ctrl_inv c k s2" using q2 so I env m x requeued_placed[OF s1(4) I(10)] requeued_placed[OF s1(5) I(11)] by (simp add: ctrl_inv_def f)
  have "sched_kept ?s0 s2" using env f by (auto simp: sched_kept_def sched_ok_def)
  moreover have "turnPolicy s1 = turnPolicy ?s0" using env by blast
  ultimately have "arrived n ?s0 s2" using m v x by (simp add: arrived_def untouched_def s2_def)
  then have ar: "arrived n s s2"
    using note_arrival_arrived[of n s now] untouched_trans[of s ?s0 s2] by (auto simp: arrived_def)
  show thesis
    using that[OF s1(1) s2_def] s1(2) inv2 ar env m(9) by (simp add: f note_arrival_simps)
qed

definition has_room :: "ctrl_cfg \<Rightarrow> nat \<Rightarrow> packet \<Rightarrow> 'd mem_ctrl \<Rightarrow> bool" where
  "has_room c k pkt s \<longleftrightarrow>
     (if isWrite pkt then totalWriteQueueSize s + length (bursts_of k pkt) \<le> ctrlWriteBufferSize c
      else totalReadQueueSize s + length (respQueue s) + length (bursts_of k pkt) \<le> ctrlReadBufferSize c)"

lemma accept_packet_ok:
  assumes g: "ctrl_geom c k" and i: "has_iface c is_dram" "is_dram \<longrightarrow> in_dram c (pk_addr pkt)" and r: "ranks_there c (length (ranks (dram_st s)))"
    and inv: "ctrl_inv c k s" and n: "sysPackets s n = pkt" and m: "mem_serves c pkt s"
    and d: "serves c now (length (bursts_of k pkt)) (rh_defense s)" and q: "pk_qos pkt < numPriorities s"
  obtains s' where "accept_packet c now n (length (bursts_of k pkt)) is_dram s = Inr (has_room c k pkt s, s')"
    "has_room c k pkt s \<Longrightarrow> (if isWrite pkt then write_taken c k n pkt s s' else read_taken c k n pkt s s')"
    "\<not> has_room c k pkt s \<Longrightarrow> ctrl_inv c k s' \<and> arrived n s s' \<and> (if isWrite pkt then retryWrReq s' else retryRdReq s')"
proof -
  have p: "plain_request pkt" using m by (simp add: mem_serves_def)
  have sz: "0 < pk_size pkt" using p by (simp add: plain_request_def)
  let ?cnt = "length (bursts_of k pkt)"
  show thesis
  proof (cases "isWrite pkt")
    case wr: True
    show thesis
    proof (cases "has_room c k pkt s")
      case True
      then have room: "totalWriteQueueSize s + ?cnt \<le> ctrlWriteBufferSize c" using wr by (simp add: has_room_def)
      obtain s1 where s1: "addToWriteQueue c now n ?cnt is_dram s = Inr s1" "write_taken c k n pkt s s1"
        by (rule addToWriteQueue_ok[OF g i r inv n m wr d q room])
      define s' where "s' = upd_ctrl_stats (\<lambda>st. st\<lparr>st_writeReqs := st_writeReqs st + 1,
             st_bytesWrittenSys := st_bytesWrittenSys st + pk_size pkt\<rparr>) s1"
      have "untouched s1 s'" by (rule kept_untouched) (simp add: s'_def)
      then have "write_taken c k n pkt s s'"
        using s1(2) untouched_trans[of s s1 s'] ctrl_inv_update(3)[of c k s1] by (simp add: write_taken_def s'_def)
      moreover have "accept_packet c now n ?cnt is_dram s = Inr (True, s')"
        using wr sz room s1(1) by (simp add: accept_packet_def n Let_def writeQueueFull_def s'_def)
      ultimately show thesis using that[of s'] True wr by simp
    next
      case False
      let ?s' = "upd_ctrl_stats (\<lambda>st. st\<lparr>st_numWrRetry := st_numWrRetry st + 1\<rparr>) (s\<lparr>retryWrReq := True\<rparr>)"
      have "arrived n s ?s'" by (simp add: arrived_def untouched_def sched_kept_cong)
      moreover have "ctrl_inv c k ?s'"
        using inv by (rule ctrl_inv_cong) (auto intro: qos_inv_cong simp: sched_ok_def split: option.splits)
      moreover have "accept_packet c now n ?cnt is_dram s = Inr (False, ?s')"
        using wr sz False by (simp add: accept_packet_def n Let_def writeQueueFull_def has_room_def)
      ultimately show thesis using that[of ?s'] False wr by simp
    qed
  next
    case rd: False
    have rd': "isRead pkt" using plain_request_kind(2)[OF p] rd by simp
    show thesis
    proof (cases "has_room c k pkt s")
      case True
      then have room: "totalReadQueueSize s + length (respQueue s) + ?cnt \<le> ctrlReadBufferSize c"
        using rd by (simp add: has_room_def)
      obtain s1 where s1: "addToReadQueue c now n ?cnt is_dram s = Inr s1" "read_taken c k n pkt s s1"
        by (rule addToReadQueue_ok[OF g i r inv n m rd' d q room])
      define s' where "s' = upd_ctrl_stats (\<lambda>st. st\<lparr>st_readReqs := st_readReqs st + 1,
             st_bytesReadSys := st_bytesReadSys st + pk_size pkt\<rparr>) s1"
      have "untouched s1 s'" by (rule kept_untouched) (simp add: s'_def)
      then have "read_taken c k n pkt s s'"
        using s1(2) untouched_trans[of s s1 s'] ctrl_inv_update(3)[of c k s1] by (simp add: read_taken_def s'_def Let_def)
      moreover have "accept_packet c now n ?cnt is_dram s = Inr (True, s')"
        using rd rd' sz room s1(1) by (simp add: accept_packet_def n Let_def readQueueFull_def s'_def)
      ultimately show thesis using that[of s'] True rd by simp
    next
      case False
      let ?s' = "upd_ctrl_stats (\<lambda>st. st\<lparr>st_numRdRetry := st_numRdRetry st + 1\<rparr>) (s\<lparr>retryRdReq := True\<rparr>)"
      have "arrived n s ?s'" by (simp add: arrived_def untouched_def sched_kept_cong)
      moreover have "ctrl_inv c k ?s'"
        using inv by (rule ctrl_inv_cong) (auto intro: qos_inv_cong simp: sched_ok_def split: option.splits)
      moreover have "accept_packet c now n ?cnt is_dram s = Inr (False, ?s')"
        using rd rd' sz False by (simp add: accept_packet_def n Let_def readQueueFull_def has_room_def)
      ultimately show thesis using that[of ?s'] False rd by simp
    qed
  qed
qed

lemma bursts_of_qos [simp]: "bursts_of k (pkt\<lparr>pk_qos := q\<rparr>) = bursts_of k pkt"
  by (simp add: bursts_of_def)

lemma recv_ok:
  assumes g: "ctrl_geom c k" and r: "ranks_there c (length (ranks (dram_st s)))" and inv: "ctrl_inv c k s"
    and m: "mem_serves c pkt s" and q: "policy s = None \<longrightarrow> pk_qos pkt < numPriorities s"
    and d: "serves c now (length (bursts_of k pkt)) (rh_defense s)"
  obtains prio s' where "recvTimingReq c now n pkt s = Inr (has_room c k pkt s, s')"
    "has_room c k pkt s \<Longrightarrow> (if isWrite pkt then write_taken c k n (pkt\<lparr>pk_qos := prio\<rparr>) s s'
       else read_taken c k n (pkt\<lparr>pk_qos := prio\<rparr>) s s')"
    "\<not> has_room c k pkt s \<Longrightarrow> ctrl_inv c k s' \<and> arrived n s s' \<and> (if isWrite pkt then retryWrReq s' else retryRdReq s')"
proof -
  obtain prio rq wq s1 s2 where s: "qosSchedule (2 ^ k) now (pk_requestor pkt) (pk_size pkt) (pk_qos pkt)
       (readQueue (note_arrival now s), writeQueue (note_arrival now s), note_arrival now s) = Inr (prio, rq, wq, s1)"
    "s2 = s1\<lparr>readQueue := rq, writeQueue := wq, sysPackets := (sysPackets s1)(n := pkt\<lparr>pk_qos := prio\<rparr>)\<rparr>"
    "prio < numPriorities s2" "ctrl_inv c k s2" "arrived n s s2" "rh_defense s2 = rh_defense s"
    "totalReadQueueSize s2 = totalReadQueueSize s" "totalWriteQueueSize s2 = totalWriteQueueSize s"
    by (rule schedule_arrival[OF inv q, of now n], rule that)
  let ?p = "pkt\<lparr>pk_qos := prio\<rparr>" and ?d = "in_dram c (pk_addr pkt)"
  have n2: "sysPackets s2 n = ?p" by (simp add: s(2))
  have pl: "plain_request ?p" using m by (simp add: mem_serves_def plain_request_def)
  have u: "untouched s s2" using s(5) by (simp add: arrived_def)
  have m2: "mem_serves c ?p s2" using m pl u by (simp add: mem_serves_def untouched_def)
  have i: "has_iface c ?d" using m by (auto simp: mem_serves_def has_iface_def in_dram_def in_nvm_def split: if_splits)
  have r2: "ranks_there c (length (ranks (dram_st s2)))" using r untouched_length[OF u] by simp
  have d2: "serves c now (length (bursts_of k ?p)) (rh_defense s2)" using d s(6) by simp
  have q2: "pk_qos ?p < numPriorities s2" using s(3) by simp
  have rm: "has_room c k ?p s2 = has_room c k pkt s" using s(7,8) u by (simp add: has_room_def untouched_def)
  have wr: "isWrite ?p = isWrite pkt" and dd: "?d \<longrightarrow> in_dram c (pk_addr ?p)" by simp_all
  obtain s' where s': "accept_packet c now n (length (bursts_of k pkt)) ?d s2 = Inr (has_room c k pkt s, s')"
    "has_room c k pkt s \<Longrightarrow> (if isWrite pkt then write_taken c k n ?p s2 s' else read_taken c k n ?p s2 s')"
    "\<not> has_room c k pkt s \<Longrightarrow> ctrl_inv c k s' \<and> arrived n s2 s' \<and> (if isWrite pkt then retryWrReq s' else retryRdReq s')"
    by (rule accept_packet_ok[OF g i dd r2 s(4) n2 m2 d2 q2, unfolded rm wr bursts_of_qos], rule that)
  have bb: "burst_bytes c ?d = Inr (2 ^ k)"
    using g i by (auto simp: burst_bytes_def ctrl_geom_def has_iface_def split: if_splits)
  have kind: "isRead pkt \<or> isWrite pkt" "\<not> cacheResponding pkt"
    using m plain_request_kind(1)[of pkt] by (simp_all add: mem_serves_def plain_request_def)
  have range: "in_dram c (pk_addr pkt) \<or> in_nvm c (pk_addr pkt)" using m by (auto simp: mem_serves_def split: if_splits)
  have cnt: "burst_count (2 ^ k) (pk_addr pkt) (pk_size pkt) = length (bursts_of k pkt)" by (simp add: bursts_of_def)
  have run: "recvTimingReq c now n pkt s = Inr (has_room c k pkt s, s')"
    using kind range by (auto simp add: recvTimingReq_def bb Let_def cnt s(1) s'(1) simp flip: s(2))
  have ar: "arrived n s s'" if "arrived n s2 s'"
    using that s(5) untouched_trans[of s s2 s'] by (auto simp: arrived_def)
  show thesis
    using that[OF run, of prio] s'(2,3) arrived_taken[OF s(5)] ar by (auto split: if_splits)
qed

end
