(* ===== verification/Mem_Ctrl_Defense.thy ===== *)
theory Mem_Ctrl_Defense
  imports Mem_Ctrl_Queue Row_Quar_Safe
begin

text \<open>
  The contract between the controller and its Rowhammer defense, and the three defenses as its providers.
  A provider says with \<open>ready n\<close> that it can answer the next \<open>n\<close> calls; the controller's arrival
  (\<open>Mem_Ctrl_Queue\<close>) only uses \<open>serves\<close>, which follows.
\<close>

section \<open>The contract\<close>

definition in_place :: "ctrl_cfg \<Rightarrow> mem_packet \<Rightarrow> bool" where
  "in_place c mp \<longleftrightarrow> in_dram c (mp_addr mp) \<and>
     (\<exists>d. cc_dram c = Some d \<and> mp_rank mp < ranksPerChannel d \<and> mp_bank mp < banksPerRank d \<and> mp_row mp < rowsPerBank d)"

locale answering_defense =
  fixes ready :: "ctrl_cfg \<Rightarrow> nat \<Rightarrow> defense \<Rightarrow> bool"
  assumes answers: "ready c (Suc n) x \<Longrightarrow> in_place c mp \<Longrightarrow>
    \<exists>dec x'. rh_decide (ctrl_mitigation c) now mp x = Inr (dec, x') \<and> ready c n x'"
begin

lemma serves:
  assumes "ready c n x"
  shows "serves c now n (Some x)"
  using assms
proof (induction n arbitrary: x)
  case (Suc n)
  show ?case unfolding serves.simps(2)
  proof (intro allI impI)
    fix d and mp :: mem_packet
    assume "cc_dram c = Some d \<and> mp_rank mp < ranksPerChannel d \<and> mp_bank mp < banksPerRank d \<and>
        mp_row mp < rowsPerBank d \<and> in_dram c (mp_addr mp)"
    then have "in_place c mp" by (auto simp: in_place_def)
    from answers[OF Suc.prems this, of now] obtain dec x' where
      "rh_decide (ctrl_mitigation c) now mp x = Inr (dec, x')" "ready c n x'" by blast
    then show "\<exists>mp' def'. defend (rh_defense_enable c) (ctrl_mitigation c) now (mp, Some x) = Inr (mp', def') \<and>
        serves c now n def'"
      using Suc.IH serves_disabled by (auto simp: defend_def)
  qed
qed simp

end

section \<open>BlockHammer\<close>

text \<open>BlockHammer answers as long as no row comes within one activation of the threshold.\<close>

lemma bh_access_below:
  assumes sz: "bh_sized s" and row: "row < numRows s" "bank < numBanks s"
    and below: "\<forall>r < numDRAMRows s. numAccessesToRow s r + 2 < rh_thr s"
  obtains d s' where "bh_access t row bank s = Inr (d, s')" "bh_geom s' = bh_geom s"
    "\<forall>r < numDRAMRows s. numAccessesToRow s' r \<le> numAccessesToRow s r + 1"
proof -
  define s1 where "s1 = bh_enter t s"
  note e = bh_enter_simps[of t s, folded s1_def]
  note geo = bh_geom_cong[OF e(1)]
  define r where "r = bh_index s1 row bank"
  have r: "r < numDRAMRows s" using bh_index_less(1)[OF sz row] geo by (simp add: r_def)
  have le: "numAccessesToRow s1 x \<le> numAccessesToRow s x" for x by (simp add: e(4) clear_row_counts_def)
  have lt: "numAccessesToRow s1 r + 2 < rh_thr s" using le[of r] below r by (meson add_le_mono1 le_less_trans)
  have u: "rh_thr s < u32_size" using sz by (simp add: bh_sized_def)
  define n where "n = numAccessesToRow s1 r + 1"
  have inc: "inc32 (numAccessesToRow s1 r) = n" using lt u by (simp add: inc32_noov n_def)
  have "acts_remaining (rh_thr s) n = rh_thr s - n - 1"
    by (rule acts_remaining_eq(1)) (use lt u in \<open>simp_all add: n_def\<close>)
  then have pos: "acts_remaining (rh_thr s) n \<noteq> 0" using lt by (simp add: n_def)
  define s2 where "s2 = s1\<lparr>numAccessesToRow := (numAccessesToRow s1)(r := n)\<rparr>"
  have g2: "bh_geom s2 = bh_geom s" "rh_thr s2 = rh_thr s" "numAccessesToRow s2 = (numAccessesToRow s1)(r := n)"
    using e(1) geo(4) by (simp_all add: s2_def bh_geom_def)
  obtain dd where th: "bh_throttle t n s2 = Inr (s2\<lparr>decision := dd\<rparr>)"
    using pos by (cases "BlackListThreshold s2 \<le> n") (auto simp: bh_throttle_def g2(2) intro: that[of "decision s2"])
  show thesis
  proof (rule that)
    let ?d = "dd\<lparr>d_SRAM_delay := d_SRAM_delay dd + SRAM_CBF_accDelay s2\<rparr>"
    show "bh_access t row bank s = Inr (?d, s2\<lparr>decision := ?d\<rparr>)"
      using r geo(2) th unfolding bh_access_def Let_def s1_def[symmetric] r_def[symmetric] inc s2_def[symmetric] by simp
    show "bh_geom (s2\<lparr>decision := ?d\<rparr>) = bh_geom s" using g2(1) by (simp add: bh_geom_def)
    show "\<forall>x < numDRAMRows s. numAccessesToRow (s2\<lparr>decision := ?d\<rparr>) x \<le> numAccessesToRow s x + 1"
      using le by (simp add: g2(3) n_def le_SucI)
  qed
qed

definition bh_answers :: "ctrl_cfg \<Rightarrow> nat \<Rightarrow> defense \<Rightarrow> bool" where
  "bh_answers c n x \<longleftrightarrow> ctrl_mitigation c = ''BH'' \<and> (\<exists>s d. x = BH s \<and> cc_dram c = Some d \<and> bh_sized s \<and>
     numRows s = rowsPerBank d \<and> numBanks s = banksPerRank d \<and>
     (\<forall>r < numDRAMRows s. numAccessesToRow s r + n + 1 < rh_thr s))"

interpretation bh_contract: answering_defense bh_answers
proof
  fix c n x now and mp :: mem_packet
  assume "bh_answers c (Suc n) x" and place: "in_place c mp"
  then obtain s d where s: "ctrl_mitigation c = ''BH''" "x = BH s" "cc_dram c = Some d" "bh_sized s"
    "numRows s = rowsPerBank d" "numBanks s = banksPerRank d"
    "\<forall>r < numDRAMRows s. numAccessesToRow s r + Suc n + 1 < rh_thr s" by (auto simp: bh_answers_def)
  have below: "\<forall>r < numDRAMRows s. numAccessesToRow s r + 2 < rh_thr s" using s(7) by fastforce
  have rb: "mp_row mp < numRows s" "mp_bank mp < numBanks s" using place s(3,5,6) by (auto simp: in_place_def)
  obtain dec s' where s': "bh_access now (mp_row mp) (mp_bank mp) s = Inr (dec, s')" "bh_geom s' = bh_geom s"
    "\<forall>r < numDRAMRows s. numAccessesToRow s' r \<le> numAccessesToRow s r + 1"
    by (rule bh_access_below[OF s(4) rb below, of now], rule that)
  note geo = bh_geom_cong[OF s'(2)]
  have "\<forall>r < numDRAMRows s'. numAccessesToRow s' r + n + 1 < rh_thr s'" using s'(3) s(7) geo by fastforce
  then have "bh_answers c n (BH s')" using s geo by (simp add: bh_answers_def)
  then show "\<exists>dec x'. rh_decide (ctrl_mitigation c) now mp x = Inr (dec, x') \<and> bh_answers c n x'"
    using s'(1) s(1,2) by (simp add: rh_decide_def rh_access_def)
qed

section \<open>Row quarantine\<close>

text \<open>AQUA is given byte addresses; it answers while the counters of its detector have room.\<close>

definition rq_answers :: "ctrl_cfg \<Rightarrow> nat \<Rightarrow> defense \<Rightarrow> bool" where
  "rq_answers c n x \<longleftrightarrow> ctrl_mitigation c = ''RQ'' \<and> (\<exists>s k. x = RQ s \<and> rq_ready mg_dims s \<and>
     mg_inv (detector s) k \<and> k + n < u32_size \<and> (\<forall>a. in_dram c a \<longrightarrow> a div 8192 < numRows s))"

interpretation rq_contract: answering_defense rq_answers
proof
  fix c n x now and mp :: mem_packet
  assume "rq_answers c (Suc n) x" and place: "in_place c mp"
  then obtain s k where s: "ctrl_mitigation c = ''RQ''" "x = RQ s" "rq_ready mg_dims s" "mg_inv (detector s) k"
    "k + Suc n < u32_size" "\<forall>a. in_dram c a \<longrightarrow> a div 8192 < numRows s" by (auto simp: rq_answers_def)
  have k: "k + 1 < u32_size" "mp_addr mp div 8192 < numRows s" using s(5,6) place by (simp_all add: in_place_def)
  obtain dec s' agg where s': "rq_access mg_ops now (mp_addr mp) s = Inr (dec, s')" "rq_ready mg_dims s'"
    "mg_inv (detector s') (if window_over now s then 1 else k + 1)" "numRows s' = numRows s"
    by (rule mg.rq_access_ok[OF s(3,4) k, where t = now], rule that)
  then have "rq_answers c n (RQ s')" using s by (auto simp: rq_answers_def split: if_splits)
  then show "\<exists>dec x'. rh_decide (ctrl_mitigation c) now mp x = Inr (dec, x') \<and> rq_answers c n x'"
    using s'(1) s(1,2) by (simp add: rh_decide_def rh_access_def)
qed

section \<open>Randomized row swap\<close>

text \<open>The swap answers while every bank has unlocked tuples for as many swaps.\<close>

definition rrs_answers :: "ctrl_cfg \<Rightarrow> nat \<Rightarrow> defense \<Rightarrow> bool" where
  "rrs_answers c n x \<longleftrightarrow> ctrl_mitigation c = ''RRS'' \<and> (\<exists>s k d. x = RRS s \<and> cc_dram c = Some d \<and>
     rrs_ok mg_dims mg_numEntries s \<and> rows_fit s \<and> mg_inv (detector s) k \<and> k + n < u32_size \<and>
     rrs_dims s = \<lparr>dim_rows = rowsPerBank d, dim_banks = banksPerRank d, dim_ranks = ranksPerChannel d, dim_channels = 1\<rparr> \<and>
     (\<forall>ch rank bank. rrs_in_range s bank rank ch \<longrightarrow> locked_tuples (tables s (ch, rank, bank)) + 2 * n \<le> maxValidTuples s))"

lemma rrs_enter_ok:
  fixes t :: tick
  assumes inv: "mg_inv (detector s) k" and ok: "rrs_ok mg_dims mg_numEntries s"
  defines "e \<equiv> rrs_enter mg_ops t s"
  shows "rrs_ok mg_dims mg_numEntries e" and "\<exists>k' \<le> k. mg_inv (detector e) k'" and "decision e = cleared_decision"
    and "rows_fit e = rows_fit s" and "rrs_dims e = rrs_dims s" and "maxValidTuples e = maxValidTuples s"
    and "\<And>ch rank bank. rrs_in_range s bank rank ch \<Longrightarrow>
      locked_tuples (tables e (ch, rank, bank)) \<le> locked_tuples (tables s (ch, rank, bank))"
proof -
  define s1 where "s1 = s\<lparr>rh_stats := (rh_stats s)\<lparr>s_num_accesses := s_num_accesses (rh_stats s) + 1\<rparr>, decision := cleared_decision\<rparr>"
  have ok1: "rrs_ok mg_dims mg_numEntries (s1\<lparr>last_reset := x\<rparr>)" "rrs_ok mg_dims mg_numEntries s1" for x
    using ok by (auto simp: s1_def rrs_ok_def rrs_dims_def table_ok_def rrs_in_range_def)
  have inv1: "mg_inv (detector (s1\<lparr>last_reset := t\<rparr>)) k" using inv by (simp add: s1_def)
  have e: "e = (if window_over t s1 then rrs_reset mg_ops (s1\<lparr>last_reset := t\<rparr>) else s1)"
    by (simp add: e_def rrs_enter_def s1_def)
  note rs = mg.rrs_reset_ok[OF inv1 ok1(1)]
  show "rrs_ok mg_dims mg_numEntries e" using rs(1) ok1(2) by (simp add: e)
  show "\<exists>k' \<le> k. mg_inv (detector e) k'" using rs(2) inv by (auto simp: e s1_def)
  show "decision e = cleared_decision" "rows_fit e = rows_fit s" "rrs_dims e = rrs_dims s" "maxValidTuples e = maxValidTuples s"
    by (simp_all add: e rrs_reset_simps) (simp_all add: s1_def rows_fit_def rrs_dims_def)
  show "locked_tuples (tables e (ch, rank, bank)) \<le> locked_tuples (tables s (ch, rank, bank))"
    if "rrs_in_range s bank rank ch" for ch rank bank
    using rs(3)[of bank rank ch] that by (auto simp: e s1_def rrs_in_range_def)
qed

interpretation rrs_contract: answering_defense rrs_answers
proof
  fix c n x now and mp :: mem_packet
  assume "rrs_answers c (Suc n) x" and place: "in_place c mp"
  then obtain s k d where s: "ctrl_mitigation c = ''RRS''" "x = RRS s" "cc_dram c = Some d"
    "rrs_ok mg_dims mg_numEntries s" "rows_fit s" "mg_inv (detector s) k" "k + Suc n < u32_size"
    "rrs_dims s = \<lparr>dim_rows = rowsPerBank d, dim_banks = banksPerRank d, dim_ranks = ranksPerChannel d, dim_channels = 1\<rparr>"
    "\<forall>ch rank bank. rrs_in_range s bank rank ch \<longrightarrow>
       locked_tuples (tables s (ch, rank, bank)) + 2 * Suc n \<le> maxValidTuples s"
    unfolding rrs_answers_def by blast
  let ?row = "mp_row mp" and ?bank = "mp_bank mp" and ?rank = "mp_rank mp"
  let ?e = "rrs_enter mg_ops now s"
  note e = rrs_enter_ok[OF s(6,4), where t = now]
  obtain k' where k': "k' \<le> k" "mg_inv (detector ?e) k'" using e(2) by blast
  have rr: "rrs_in_range ?e = rrs_in_range s" "numRows ?e = numRows s"
    using e(5) by (simp_all add: rrs_dims_def rrs_in_range_def fun_eq_iff)
  have rng: "rrs_in_range ?e ?bank ?rank 0" "?row < numRows ?e"
    using place s(3,8) by (auto simp: in_place_def rr rrs_in_range_def rrs_dims_def)
  have ind: "in_dims (mg_dims (detector ?e)) ?row ?bank ?rank 0"
    using rng e(1) by (auto simp: rrs_ok_def rrs_dims_def in_dims_def rrs_in_range_def)
  have ov: "k' + 1 < u32_size" using k'(1) s(7) by simp
  obtain agg m where acc: "d_access mg_ops (detector ?e) ?row ?bank ?rank 0 False = Inr (agg, m)"
    using mg.counted_access[OF k'(2) ov ind] by blast
  have l1: "locked_tuples (tables ?e (ch, rank, bank)) + 2 * Suc n \<le> maxValidTuples s"
    if "rrs_in_range s bank rank ch" for ch rank bank
    using e(7)[OF that] s(9) that by (meson add_le_mono1 le_trans)
  have lk: "agg \<longrightarrow> locked_tuples (tables ?e (0, ?rank, ?bank)) + 2 \<le> maxValidTuples ?e"
    using l1[of ?bank ?rank 0] rng(1) e(6) by (simp add: rr)
  have fit: "rows_fit ?e" using s(5) e(4) by simp
  from mg.rrs_serve_ok[OF k'(2) ov e(1) fit rng e(3) acc lk] obtain dec s' where
    s': "rrs_serve mg_ops ?row ?bank ?rank 0 ?e = Inr (dec, s')" "d_mitigate dec = agg" "detector s' = m"
    "rrs_ok mg_dims mg_numEntries s'" "rows_fit s'" "rrs_dims s' = rrs_dims ?e" "last_reset s' = last_reset ?e"
    "maxValidTuples s' = maxValidTuples ?e" "mg_inv m (k' + 1)"
    and oth: "\<forall>ix'. ix' \<noteq> (0, ?rank, ?bank) \<or> \<not> agg \<longrightarrow> tables s' ix' = tables ?e ix'"
    and own: "agg \<longrightarrow> locked_tuples (tables s' (0, ?rank, ?bank)) \<le> locked_tuples (tables ?e (0, ?rank, ?bank)) + 2"
    by - (elim exE conjE, rule that, assumption+, simp split: if_splits)
  have "locked_tuples (tables s' (ch, rank, bank)) + 2 * n \<le> maxValidTuples s'" if "rrs_in_range s' bank rank ch" for ch rank bank
  proof -
    have r: "rrs_in_range s bank rank ch" using that s'(6) e(5) by (simp add: rrs_dims_def rrs_in_range_def)
    have "locked_tuples (tables s' (ch, rank, bank)) \<le> locked_tuples (tables ?e (ch, rank, bank)) + 2"
      using oth own by (cases "(ch, rank, bank) = (0, ?rank, ?bank) \<and> agg") auto
    then show ?thesis using l1[OF r] s'(8) e(6) by simp
  qed
  then have "rrs_answers c n (RRS s')"
    using s s' e(5) k'(1) unfolding rrs_answers_def by (intro conjI exI[of _ s'] exI[of _ "k' + 1"] exI[of _ d]) simp_all
  then show "\<exists>dec x'. rh_decide (ctrl_mitigation c) now mp x = Inr (dec, x') \<and> rrs_answers c n x'"
    using s'(1) s(1,2) by (simp add: rh_decide_def rh_access_def rrs_access_def)
qed

end
