(* ===== verification/Mem_Ctrl_Accept.thy ===== *)
theory Mem_Ctrl_Accept
  imports Mem_Ctrl_Defense
begin

text \<open>
  The properties of the arrival of packets at the memory controller: the state its constructor returns, that no
  request stops it, and what it queues, forwards and merges.
\<close>

section \<open>Construction\<close>

lemma new_ctrl_cases:
  assumes "new_ctrl p j junk rh pkts m0 (dr, nv, dm, nm) = Inr (c, s)"
  obtains def d where "cc_dram m0 \<noteq> None" "cc_dram c = Some d" "cc_nvm c = None \<longleftrightarrow> cc_nvm m0 = None"
    "if rh_defense_param p then \<exists>x. def = Some x \<and> new_defense (rh_config p) j (Some d) = Inr x else def = None"
    "write_low_thresh_perc p < write_high_thresh_perc p"
    "s = qos.extend (new_qos (qos_policy_param p) (qos_turnaround_policy p) (qos_priority_escalation p)
           (qos_syncro_scheduler p) (qos_priorities p))
         (mem_ctrl.fields False False False (replicate (qos_priorities p) []) (replicate (qos_priorities p) [])
            {} [] {#} def dr nv dm nm 0 0 0 0 0 (\<lambda>_. None) 0 0 junk pkts [] 0 (zero_ctrl_stats rh))"
    "rh_defense_enable c = rh_defense_param p"
proof -
  obtain m where m: "set_both (command_window p) m0 = Inr m"
    and r1: "fatal_if (cc_dram m = None \<and> cc_nvm m = None)
      (fatal_if (write_high_thresh_perc p \<le> write_low_thresh_perc p)
      (rbind (if rh_defense_param p
              then rbind (new_defense (rh_config p) j (cc_dram m)) (\<lambda>d. Inr (Some d)) else Inr None) (\<lambda>def.
       deref (cc_dram m) (\<lambda>_.
       let wb = buffer_bytes writeBufferSize writeBufferSize m mod u32_size
       in Inr (media.extend m (ctrl_cfg.fields (buffer_bytes readBufferSize readBufferSize m mod u32_size) wb
                 (wb * write_high_thresh_perc p mod u32_size div 100) (wb * write_low_thresh_perc p mod u32_size div 100)
                 (min_writes_per_switch p) (mem_sched_policy p) (static_frontend_latency p) (static_backend_latency p)
                 (command_window p) (rh_defense_param p) (rh_mitigation (rh_config p))),
               qos.extend (new_qos (qos_policy_param p) (qos_turnaround_policy p) (qos_priority_escalation p)
                   (qos_syncro_scheduler p) (qos_priorities p))
                 (case (dr, nv, dm, nm) of (dr, nv, dm, nm) \<Rightarrow>
                    mem_ctrl.fields False False False (replicate (qos_priorities p) []) (replicate (qos_priorities p) [])
                      {} [] {#} def dr nv dm nm 0 0 0 0 0 (\<lambda>_. None) 0 0 junk pkts [] 0 (zero_ctrl_stats rh))))))) = Inr (c, s)"
    using assms unfolding new_ctrl_def by (rule rbind_InrE)
  have no: "\<not> (cc_dram m = None \<and> cc_nvm m = None)" "\<not> write_high_thresh_perc p \<le> write_low_thresh_perc p"
    using r1 by (auto split: if_splits)
  then have perc: "write_low_thresh_perc p < write_high_thresh_perc p" by simp
  note r2 = r1[unfolded if_not_P[OF no(1)] if_not_P[OF no(2)]]
  obtain def where def: "(if rh_defense_param p
      then rbind (new_defense (rh_config p) j (cc_dram m)) (\<lambda>d. Inr (Some d)) else Inr None) = Inr def"
    using r2 by (rule rbind_InrE)
  note r3 = r2[unfolded def rbind_simps]
  obtain d where d: "cc_dram m = Some d" using r3 by (cases "cc_dram m") simp_all
  have mm: "cc_dram m0 \<noteq> None" "cc_nvm m = None \<longleftrightarrow> cc_nvm m0 = None"
    using m d by (auto simp: set_both_def rbind_Inr_iff split: option.splits)
  have cs: "cc_dram c = Some d" "cc_nvm c = cc_nvm m"
    "s = qos.extend (new_qos (qos_policy_param p) (qos_turnaround_policy p) (qos_priority_escalation p)
           (qos_syncro_scheduler p) (qos_priorities p))
         (mem_ctrl.fields False False False (replicate (qos_priorities p) []) (replicate (qos_priorities p) [])
            {} [] {#} def dr nv dm nm 0 0 0 0 0 (\<lambda>_. None) 0 0 junk pkts [] 0 (zero_ctrl_stats rh))"
    "rh_defense_enable c = rh_defense_param p"
    using r3 d by (auto simp: Let_def media.defs ctrl_cfg.defs)
  show thesis
  proof (rule that[OF mm(1) cs(1) _ _ perc cs(3) cs(4)])
    show "if rh_defense_param p then \<exists>x. def = Some x \<and> new_defense (rh_config p) j (Some d) = Inr x else def = None"
      using def d by (auto simp: rbind_Inr_iff)
  qed (use mm cs in simp)
qed

lemma new_ctrl_state:
  assumes "s = qos.extend (new_qos pol turn e sy n)
      (mem_ctrl.fields False False False (replicate n []) (replicate n [])
        {} [] {#} def dr nv dm nm 0 0 0 0 0 (\<lambda>_. None) 0 0 junk pkts [] 0 st)"
  shows "readQueue s = replicate n []" "writeQueue s = replicate n []" "isInWriteQueue s = {}" "respQueue s = []"
    "totalReadQueueSize s = 0" "totalWriteQueueSize s = 0" "numPriorities s = n" "policy s = pol"
    "dram_st s = dr" "rh_defense s = def" "dram_mem s = dm" "nvm_mem s = nm" "responsesSent s = []" "nvm_st s = nv"
    "helpers s = (\<lambda>_. None)" "nextReqEvent s = None" "respondEvent s = None" "qos.truncate s = new_qos pol turn e sy n"
  by (simp_all add: assms qos.defs mem_ctrl.defs new_qos_def)

lemma extents_empty [simp]: "extents (replicate n []) = {#}" "contents (replicate n []) = {#}"
  by (simp_all add: extents_def contents_def)

lemma qos_inv_truncate: "qos_inv bs rq wq (qos.truncate s) \<Longrightarrow> qos_inv bs rq wq s"
  by (rule qos_inv_cong[of bs rq wq "qos.truncate s"]) (simp_all add: qos.defs)

lemma new_ctrl_inv:
  assumes "s = qos.extend (new_qos pol turn e sy n)
      (mem_ctrl.fields False False False (replicate n []) (replicate n [])
        {} [] {#} def dr nv dm nm 0 0 0 0 0 (\<lambda>_. None) 0 0 junk pkts [] 0 st)"
    and "0 < n" and "\<forall>q. pol = Some q \<longrightarrow> policy_fits n q"
  shows "ctrl_inv c k s"
proof -
  note f = new_ctrl_state[OF assms(1)]
  have "qos_inv (2 ^ k) (replicate n []) (replicate n []) s"
    by (rule qos_inv_truncate) (simp add: f(18) new_qos_inv)
  then show ?thesis using assms(2,3) by (simp add: ctrl_inv_def f writes_ok_def sched_ok_def all_placed_def split: option.splits)
qed

text \<open>The defense, if there is one, is one of the three and can answer the next \<open>n\<close> calls.\<close>

definition defended :: "ctrl_cfg \<Rightarrow> nat \<Rightarrow> 'd mem_ctrl \<Rightarrow> bool" where
  "defended c n s \<longleftrightarrow> (rh_defense_enable c \<longrightarrow>
     (\<exists>x. rh_defense s = Some x \<and> (bh_answers c n x \<or> rq_answers c n x \<or> rrs_answers c n x)))"

lemma defended_serves: "defended c n s \<Longrightarrow> serves c now n (rh_defense s)"
  using serves_disabled bh_contract.serves rq_contract.serves rrs_contract.serves by (auto simp: defended_def)

section \<open>Properties\<close>

text \<open>
  When the constructor returns, the controller has a DRAM interface (without one its last statement
  dereferences a null pointer), its queues are empty and consistent with what it counts, and there is a
  defense exactly when one was asked for.
\<close>

theorem controller_constructed:
  assumes "new_ctrl p j junk rh pkts m0 (dr, nv, dm, nm) = Inr (c, s)"
    and "0 < qos_priorities p" and "\<forall>q. qos_policy_param p = Some q \<longrightarrow> policy_fits (qos_priorities p) q"
  shows "cc_dram m0 \<noteq> None \<and> ctrl_inv c k s \<and> readQueue s = replicate (qos_priorities p) [] \<and>
    writeQueue s = replicate (qos_priorities p) [] \<and> (rh_defense s \<noteq> None \<longleftrightarrow> rh_defense_param p)"
proof -
  obtain def d where n: "cc_dram m0 \<noteq> None"
    "if rh_defense_param p then \<exists>x. def = Some x \<and> new_defense (rh_config p) j (Some d) = Inr x else def = None"
    "s = qos.extend (new_qos (qos_policy_param p) (qos_turnaround_policy p) (qos_priority_escalation p)
           (qos_syncro_scheduler p) (qos_priorities p))
         (mem_ctrl.fields False False False (replicate (qos_priorities p) []) (replicate (qos_priorities p) [])
            {} [] {#} def dr nv dm nm 0 0 0 0 0 (\<lambda>_. None) 0 0 junk pkts [] 0 (zero_ctrl_stats rh))"
    by (rule new_ctrl_cases[OF assms(1)])
  show ?thesis using n(1,2) new_ctrl_state[OF n(3)] new_ctrl_inv[OF n(3) assms(2,3)] by (auto split: if_splits)
qed

definition demo_params :: "bool \<Rightarrow> nat ctrl_params" where
  "demo_params en = \<lparr>write_high_thresh_perc = 85, write_low_thresh_perc = 50, min_writes_per_switch = 16,
     mem_sched_policy = Frfcfs, static_frontend_latency = 10000, static_backend_latency = 10000,
     command_window = 10000, rh_defense_param = en,
     rh_config = rh_default\<lparr>rh_mitigation := ''BH''\<rparr>, qos_policy_param = None,
     qos_turnaround_policy = False, qos_priorities = 1, qos_priority_escalation = False,
     qos_syncro_scheduler = False\<rparr>"

definition demo_media :: media where
  "demo_media = \<lparr>cc_dram = Some ddr4_2400, cc_nvm = None, dram_contains = (\<lambda>a. a < 2 ^ 33),
     nvm_contains = (\<lambda>_. False), dram_getOffset = (\<lambda>a. a), nvm_getOffset = (\<lambda>a. a)\<rparr>"

definition demo_bh :: "misra_gries bh \<Rightarrow> misra_gries bh" where
  "demo_bh b = (bh_new b 500 65536 250 16 2 1)\<lparr>SRAM_CBF_accDelay := 1250\<rparr>"

lemma demo_ctrl_at:
  obtains c s where "new_ctrl (demo_params en\<lparr>mem_sched_policy := sp\<rparr>) j junk rh pkts demo_media (ddr4_dram, nv, plain_mem (2 ^ 33), nm) = Inr (c, s)"
    "cc_dram c = Some (ddr4_2400\<lparr>maxCommandsPerWindow := 12\<rparr>)" "cc_nvm c = None" "dram_contains c = (\<lambda>a. a < 2 ^ 33)"
    "ctrlReadBufferSize c = 64" "ctrlWriteBufferSize c = 128" "ctrl_mitigation c = ''BH''"
    "dram_st s = ddr4_dram" "dram_mem s = plain_mem (2 ^ 33)" "rh_defense s = (if en then Some (BH (demo_bh (junk_bh j))) else None)" "rh_defense_enable c = en"
    "numPriorities s = 1" "policy s = None" "totalReadQueueSize s = 0" "totalWriteQueueSize s = 0" "respQueue s = []"
    "writeQueue s = [[]]" "responsesSent s = []" "memSchedPolicy c = sp" "commandWindow c = 10000"
proof -
  have w: "set_both (command_window (demo_params en\<lparr>mem_sched_policy := sp\<rparr>)) demo_media =
      Inr (demo_media\<lparr>cc_dram := Some (ddr4_2400\<lparr>maxCommandsPerWindow := 12\<rparr>)\<rparr>)"
    by (simp add: set_both_def demo_media_def demo_params_def setCtrl_def ddr4_2400_def)
  have d: "new_defense (rh_config (demo_params en\<lparr>mem_sched_policy := sp\<rparr>)) j (cc_dram (demo_media\<lparr>cc_dram := Some (ddr4_2400\<lparr>maxCommandsPerWindow := 12\<rparr>)\<rparr>)) =
      Inr (BH (demo_bh (junk_bh j)))"
    by (simp add: new_defense_def new_bh_def demo_params_def rh_default_def demo_bh_def ddr4_2400_def)
  have b: "buffer_bytes writeBufferSize writeBufferSize (demo_media\<lparr>cc_dram := Some (ddr4_2400\<lparr>maxCommandsPerWindow := 12\<rparr>)\<rparr>) = 128"
    "buffer_bytes readBufferSize readBufferSize (demo_media\<lparr>cc_dram := Some (ddr4_2400\<lparr>maxCommandsPerWindow := 12\<rparr>)\<rparr>) = 64"
    by (simp_all add: buffer_bytes_def demo_media_def ddr4_2400_def)
  define s where "s = qos.extend (new_qos (None :: nat qos_policy option) False False False 1)
      (mem_ctrl.fields False False False (replicate 1 []) (replicate 1 [])
        {} [] {#} (if en then Some (BH (demo_bh (junk_bh j))) else None) ddr4_dram nv (plain_mem (2 ^ 33)) nm 0 0 0 0 0 (\<lambda>_. None) 0 0 junk pkts [] 0
        (zero_ctrl_stats rh))"
  define c where "c = media.extend (demo_media\<lparr>cc_dram := Some (ddr4_2400\<lparr>maxCommandsPerWindow := 12\<rparr>)\<rparr>)
      (ctrl_cfg.fields 64 128 108 64 16 sp 10000 10000 10000 en ''BH'')"
  have run: "new_ctrl (demo_params en\<lparr>mem_sched_policy := sp\<rparr>) j junk rh pkts demo_media (ddr4_dram, nv, plain_mem (2 ^ 33), nm) = Inr (c, s)"
    unfolding new_ctrl_def w rbind_simps d b
    by (simp add: demo_params_def rh_default_def demo_media_def c_def s_def Let_def)
  note f = new_ctrl_state[OF s_def]
  show thesis
    by (rule that[OF run]) (simp_all add: f c_def demo_media_def media.defs ctrl_cfg.defs)
qed

lemma demo_ctrl:
  obtains c s where "new_ctrl (demo_params en) j junk rh pkts demo_media (ddr4_dram, nv, plain_mem (2 ^ 33), nm) = Inr (c, s)"
    "cc_dram c = Some (ddr4_2400\<lparr>maxCommandsPerWindow := 12\<rparr>)" "cc_nvm c = None" "dram_contains c = (\<lambda>a. a < 2 ^ 33)"
    "ctrlReadBufferSize c = 64" "ctrlWriteBufferSize c = 128" "ctrl_mitigation c = ''BH''"
    "dram_st s = ddr4_dram" "dram_mem s = plain_mem (2 ^ 33)" "rh_defense s = (if en then Some (BH (demo_bh (junk_bh j))) else None)" "rh_defense_enable c = en"
    "numPriorities s = 1" "policy s = None" "totalReadQueueSize s = 0" "totalWriteQueueSize s = 0" "respQueue s = []"
    "writeQueue s = [[]]" "responsesSent s = []"
proof -
  have p: "demo_params en\<lparr>mem_sched_policy := Frfcfs\<rparr> = demo_params en" by (simp add: demo_params_def)
  show thesis by (rule demo_ctrl_at[of Frfcfs en j junk rh pkts nv nm, unfolded p], rule that)
qed

theorem controller_constructed_witness:
  "\<forall>j junk rh pkts nv nm. \<exists>c s. new_ctrl (demo_params True) j junk rh pkts demo_media
     (ddr4_dram, nv, plain_mem (2 ^ 33), nm) = Inr (c, s) \<and> ctrl_inv c 6 s"
proof (intro allI)
  fix j junk rh pkts nv nm
  obtain c and s :: "nat mem_ctrl" where n: "new_ctrl (demo_params True) j junk rh pkts demo_media (ddr4_dram, nv, plain_mem (2 ^ 33), nm) = Inr (c, s)"
    by (rule demo_ctrl)
  have "0 < qos_priorities (demo_params True)"
    "\<forall>q. qos_policy_param (demo_params True) = Some q \<longrightarrow> policy_fits (qos_priorities (demo_params True)) q"
    by (simp_all add: demo_params_def)
  from controller_constructed[OF n this, of 6] n
  show "\<exists>c s. new_ctrl (demo_params True) j junk rh pkts demo_media (ddr4_dram, nv, plain_mem (2 ^ 33), nm) = Inr (c, s) \<and>
    ctrl_inv c 6 s" by blast
qed

lemma defended_le: "defended c n s \<Longrightarrow> m \<le> n \<Longrightarrow> defended c m s"
  unfolding defended_def by (fastforce simp: bh_answers_def rq_answers_def rrs_answers_def)

text \<open>The example controller is ready for requests; with BlockHammer it serves 400 bursts.\<close>

lemma demo_ready:
  obtains c s where "new_ctrl (demo_params en) j junk rh pkts demo_media (ddr4_dram, nv, plain_mem (2 ^ 33), nm) = Inr (c, s)"
    "ctrl_geom c 6" "ranks_there c (length (ranks (dram_st s)))" "ctrl_inv c 6 s" "policy s = None" "numPriorities s = 1"
    "ctrlReadBufferSize c = 64" "ctrlWriteBufferSize c = 128" "\<forall>a. in_dram c a \<longleftrightarrow> a < 2 ^ 33"
    "am_subset (dram_mem s) = (\<lambda>a sz. a + sz \<le> 2 ^ 33)" "defended c 400 s"
    "rh_defense_enable c = en" "totalReadQueueSize s = 0" "totalWriteQueueSize s = 0" "respQueue s = []"
    "writeQueue s = [[]]" "responsesSent s = []"
proof -
  obtain c and s :: "nat mem_ctrl" where n: "new_ctrl (demo_params en) j junk rh pkts demo_media (ddr4_dram, nv, plain_mem (2 ^ 33), nm) = Inr (c, s)"
    "cc_dram c = Some (ddr4_2400\<lparr>maxCommandsPerWindow := 12\<rparr>)" "cc_nvm c = None" "dram_contains c = (\<lambda>a. a < 2 ^ 33)"
    "ctrlReadBufferSize c = 64" "ctrlWriteBufferSize c = 128" "ctrl_mitigation c = ''BH''"
    "dram_st s = ddr4_dram" "dram_mem s = plain_mem (2 ^ 33)" "rh_defense s = (if en then Some (BH (demo_bh (junk_bh j))) else None)"
    "rh_defense_enable c = en" "numPriorities s = 1" "policy s = None" "totalReadQueueSize s = 0" "totalWriteQueueSize s = 0"
    "respQueue s = []" "writeQueue s = [[]]" "responsesSent s = []"
    by (rule demo_ctrl[of en j junk rh pkts nv nm], rule that)
  obtain def where "s = qos.extend (new_qos (qos_policy_param (demo_params en)) (qos_turnaround_policy (demo_params en))
        (qos_priority_escalation (demo_params en)) (qos_syncro_scheduler (demo_params en)) (qos_priorities (demo_params en)))
      (mem_ctrl.fields False False False (replicate (qos_priorities (demo_params en)) []) (replicate (qos_priorities (demo_params en)) [])
        {} [] {#} def ddr4_dram nv (plain_mem (2 ^ 33)) nm 0 0 0 0 0 (\<lambda>_. None) 0 0 junk pkts [] 0 (zero_ctrl_stats rh))"
    by (rule new_ctrl_cases[OF n(1)])
  from new_ctrl_inv[OF this] have inv: "ctrl_inv c 6 s" by (simp add: demo_params_def)
  have geo: "ctrl_geom c 6"
    by (simp add: ctrl_geom_def n(2,3) geometry_ok_def ddr4_2400_def geometry.defs NO_ROW_def)
  have rk: "ranks_there c (length (ranks (dram_st s)))"
    by (simp add: ranks_there_def n(2,8) ddr4_dram_def new_dram_def)
  have "bh_answers c 400 (BH (demo_bh (junk_bh j)))"
    unfolding bh_answers_def n(7)
    by (intro conjI refl exI[of _ "demo_bh (junk_bh j)"] exI[of _ "ddr4_2400\<lparr>maxCommandsPerWindow := 12\<rparr>"] n(2))
      (simp_all add: demo_bh_def bh_new_def bh_sized_def ddr4_2400_def)
  then have sv: "defended c 400 s" by (simp add: defended_def n(10,11))
  show thesis
    by (rule that[OF n(1) geo rk inv n(13,12,5,6)])
      (simp_all add: in_dram_def n plain_mem_def sv)
qed


definition demo_pkt :: "mem_cmd \<Rightarrow> addr \<Rightarrow> nat \<Rightarrow> packet" where
  "demo_pkt cmd a sz = plain_packet cmd 7 a (replicate sz 1)"

lemma demo_pkt_simps [simp]:
  "pk_cmd (demo_pkt cmd a sz) = cmd" "pk_addr (demo_pkt cmd a sz) = a" "pk_size (demo_pkt cmd a sz) = sz"
  "pk_qos (demo_pkt cmd a sz) = 0" "cacheResponding (demo_pkt cmd a sz) = False"
  by (simp_all add: demo_pkt_def plain_packet_def)

lemma demo_serves:
  assumes "\<forall>a. in_dram c a \<longleftrightarrow> a < 2 ^ 33" and "am_subset (dram_mem s) = (\<lambda>a sz. a + sz \<le> 2 ^ 33)"
    and "cmd \<in> {ReadReq, WriteReq}" and "0 < sz" and "a + sz \<le> 2 ^ 33"
  shows "mem_serves c (demo_pkt cmd a sz) s"
  using assms by (auto simp: mem_serves_def plain_request_def demo_pkt_def plain_packet_def)

lemma demo_align: "burstAlign 64 60 = 0" "burstAlign 64 64 = 64"
  using burstAlign_eq[of 60 6] burstAlign_eq[of 64 6] by simp_all

lemma demo_bursts:
  "bursts_of 6 (demo_pkt cmd 60 8) = [(60, 4), (64, 4)]" "bursts_of 6 (demo_pkt cmd 62 4) = [(62, 2), (64, 2)]"
  unfolding bursts_of_def demo_pkt_simps by code_simp+


text \<open>
  C15. A read that is taken is answered at once, without the memory device, when a queued write covers each of
  its bursts; otherwise exactly the bursts that no queued write covers are queued, and a request event is
  pending.
\<close>

theorem reads_forwarded:
  assumes "ctrl_geom c k" and "ranks_there c (length (ranks (dram_st s)))" and "ctrl_inv c k s"
    and "mem_serves c pkt s" and "policy s = None \<longrightarrow> pk_qos pkt < numPriorities s"
    and "defended c (length (bursts_of k pkt)) s"
    and "isRead pkt" and "has_room c k pkt s"
  defines "miss \<equiv> filter (\<lambda>x. \<not> covered (extents (writeQueue s)) x) (bursts_of k pkt)"
  shows "\<exists>s'. recvTimingReq c now n pkt s = Inr (True, s') \<and>
    image_mset (\<lambda>(m, _, x). (m, x)) (contents (readQueue s')) =
      image_mset (\<lambda>(m, _, x). (m, x)) (contents (readQueue s)) + mset (map (Pair n) miss) \<and>
    map fst (responsesSent s') = map fst (responsesSent s) @ (if miss = [] then [n] else []) \<and>
    (miss \<noteq> [] \<longrightarrow> nextReqEvent s' \<noteq> None)"
proof -
  have w: "\<not> isWrite pkt" using assms(4,7) plain_request_kind(2)[of pkt] by (simp add: mem_serves_def)
  obtain q s' where s': "recvTimingReq c now n pkt s = Inr (has_room c k pkt s, s')"
    "has_room c k pkt s \<Longrightarrow> (if isWrite pkt then write_taken c k n (pkt\<lparr>pk_qos := q\<rparr>) s s'
       else read_taken c k n (pkt\<lparr>pk_qos := q\<rparr>) s s')"
    by (rule recv_ok[OF assms(1-5) defended_serves[OF assms(6)], of now n], rule that)
  have "read_taken c k n (pkt\<lparr>pk_qos := q\<rparr>) s s'" using s'(2)[OF assms(8)] w by simp
  moreover have "uncovered k (pkt\<lparr>pk_qos := q\<rparr>) s = miss" by (simp add: uncovered_def miss_def)
  ultimately show ?thesis using s'(1) assms(8) by (simp add: read_taken_def Let_def multiset.map_comp comp_def)
qed

text \<open>Without a defense: a write of eight bytes over a burst boundary, then a read of bytes of both bursts.\<close>

theorem reads_forwarded_witness:
  "\<forall>j junk rh pkts nv nm. \<exists>c s s1 s'. new_ctrl (demo_params False) j junk rh pkts demo_media
     (ddr4_dram, nv, plain_mem (2 ^ 33), nm) = Inr (c, s) \<and>
     recvTimingReq c 1000 0 (demo_pkt WriteReq 60 8) s = Inr (True, s1) \<and>
     recvTimingReq c 2000 1 (demo_pkt ReadReq 62 4) s1 = Inr (True, s') \<and> map fst (responsesSent s') = [0, 1]"
proof (intro allI)
  fix j junk rh pkts nv nm
  obtain c and s :: "nat mem_ctrl" where d: "new_ctrl (demo_params False) j junk rh pkts demo_media (ddr4_dram, nv, plain_mem (2 ^ 33), nm) = Inr (c, s)"
    "ctrl_geom c 6" "ranks_there c (length (ranks (dram_st s)))" "ctrl_inv c 6 s" "policy s = None" "numPriorities s = 1"
    "ctrlReadBufferSize c = 64" "ctrlWriteBufferSize c = 128" "\<forall>a. in_dram c a \<longleftrightarrow> a < 2 ^ 33"
    "am_subset (dram_mem s) = (\<lambda>a sz. a + sz \<le> 2 ^ 33)" "rh_defense_enable c = False"
    "totalReadQueueSize s = 0" "totalWriteQueueSize s = 0" "respQueue s = []" "writeQueue s = [[]]" "responsesSent s = []"
    by (rule demo_ready[of False j junk rh pkts nv nm], rule that) simp_all
  have sv: "serves c t x def" and df: "defended c x u" for t x def and u :: "nat mem_ctrl"
    by (rule serves_disabled) (simp_all add: d(11) defended_def)
  let ?w = "demo_pkt WriteReq 60 8" and ?r = "demo_pkt ReadReq 62 4"
  have m: "mem_serves c ?w s" by (rule demo_serves[OF d(9,10)]) simp_all
  have q: "policy s = None \<longrightarrow> pk_qos ?w < numPriorities s" by (simp add: d(6))
  have r: "has_room c 6 ?w s" by (simp add: has_room_def demo_bursts d testCmdAttrib_def)
  obtain p s1 where s1: "recvTimingReq c 1000 0 ?w s = Inr (has_room c 6 ?w s, s1)"
    "has_room c 6 ?w s \<Longrightarrow> (if isWrite ?w then write_taken c 6 0 (?w\<lparr>pk_qos := p\<rparr>) s s1
       else read_taken c 6 0 (?w\<lparr>pk_qos := p\<rparr>) s s1)"
    by (rule recv_ok[OF d(2,3,4) m q sv[of 1000], of 0], rule that)
  have w: "write_taken c 6 0 (?w\<lparr>pk_qos := p\<rparr>) s s1" using s1(2)[OF r] by (simp add: testCmdAttrib_def)
  note w' = w[unfolded write_taken_def untouched_def sched_kept_def]
  have inv1: "ctrl_inv c 6 s1" using w' by blast
  note wo = ctrl_invD(3)[OF inv1]
  have B: "isInWriteQueue s1 = {0, 64}"
  proof -
    have "isInWriteQueue s = {}" using writes_okD(5)[OF ctrl_invD(3)[OF d(4)]] by (simp add: d(15) extents_def)
    then show ?thesis using w' by (auto simp: demo_bursts demo_align)
  qed
  have sub: "set_mset (extents (writeQueue s1)) \<subseteq> {(60, 4), (64, 4)}"
    using w' by (simp add: demo_bursts d(15) extents_def)
  have "(60, 4) \<in># extents (writeQueue s1)"
    using writes_okD(2)[OF wo, of 0] B sub demo_align by auto
  then have c1: "covered (extents (writeQueue s1)) (62, 2)" unfolding covered_def by (rule bexI[rotated]) simp
  have "(64, 4) \<in># extents (writeQueue s1)"
    using writes_okD(2)[OF wo, of 64] B sub demo_align by auto
  then have c2: "covered (extents (writeQueue s1)) (64, 2)" unfolding covered_def by (rule bexI[rotated]) simp
  have cov: "filter (\<lambda>x. \<not> covered (extents (writeQueue s1)) x) (bursts_of 6 ?r) = []"
    using c1 c2 by (simp add: demo_bursts)
  have rk1: "ranks_there c (length (ranks (dram_st s1)))" using w' d(3) settled_length[of "dram_st s1" "dram_st s"] by simp
  have am1: "am_subset (dram_mem s1) = (\<lambda>a sz. a + sz \<le> 2 ^ 33)" using w' d(10) by simp
  have m1: "mem_serves c ?r s1" by (rule demo_serves[OF d(9) am1]) simp_all
  have q1: "policy s1 = None \<longrightarrow> pk_qos ?r < numPriorities s1" using w' d(6) by simp
  have "totalReadQueueSize s1 = 0" using ctrl_invD(8)[OF inv1] ctrl_invD(8)[OF d(4)] w' d(12) by simp
  then have r1: "has_room c 6 ?r s1" and rd: "isRead ?r" using w' d(14) by (simp_all add: has_room_def demo_bursts d(7) testCmdAttrib_def)
  obtain s' where "recvTimingReq c 2000 1 ?r s1 = Inr (True, s')" "map fst (responsesSent s') = map fst (responsesSent s1) @ [1]"
    using reads_forwarded[OF d(2) rk1 inv1 m1 q1 df rd r1, of 2000 1] unfolding cov by auto
  moreover have "map fst (responsesSent s1) = [0]" using w' d(16) by (simp add: testCmdAttrib_def)
  ultimately show "\<exists>c s s1 s'. new_ctrl (demo_params False) j junk rh pkts demo_media (ddr4_dram, nv, plain_mem (2 ^ 33), nm) = Inr (c, s) \<and>
     recvTimingReq c 1000 0 ?w s = Inr (True, s1) \<and> recvTimingReq c 2000 1 ?r s1 = Inr (True, s') \<and>
     map fst (responsesSent s') = [0, 1]" using d(1) s1(1) r by auto
qed

text \<open>
  C16. A write that is taken leaves every one of its bursts in the write queue, as a new packet or merged with
  the packet of the same burst; no burst is queued twice, nothing else enters the queue, and the write is
  answered if it needs an answer.
\<close>

theorem writes_merged:
  assumes "ctrl_geom c k" and "ranks_there c (length (ranks (dram_st s)))" and "ctrl_inv c k s"
    and "mem_serves c pkt s" and "policy s = None \<longrightarrow> pk_qos pkt < numPriorities s"
    and "defended c (length (bursts_of k pkt)) s"
    and "isWrite pkt" and "has_room c k pkt s"
  shows "\<exists>s'. recvTimingReq c now n pkt s = Inr (True, s') \<and>
    isInWriteQueue s' = isInWriteQueue s \<union> (\<lambda>e. burstAlign (2 ^ k) (fst e)) ` set (bursts_of k pkt) \<and>
    size (extents (writeQueue s')) = card (isInWriteQueue s') \<and>
    extents (writeQueue s) \<subseteq># extents (writeQueue s') \<and>
    set_mset (extents (writeQueue s')) \<subseteq> set_mset (extents (writeQueue s)) \<union> set (bursts_of k pkt) \<and>
    map fst (responsesSent s') = map fst (responsesSent s) @ (if needsResponse pkt then [n] else [])"
proof -
  obtain q s' where s': "recvTimingReq c now n pkt s = Inr (has_room c k pkt s, s')"
    "has_room c k pkt s \<Longrightarrow> (if isWrite pkt then write_taken c k n (pkt\<lparr>pk_qos := q\<rparr>) s s'
       else read_taken c k n (pkt\<lparr>pk_qos := q\<rparr>) s s')"
    by (rule recv_ok[OF assms(1-5) defended_serves[OF assms(6)], of now n], rule that)
  have w: "write_taken c k n (pkt\<lparr>pk_qos := q\<rparr>) s s'" using s'(2)[OF assms(8)] assms(7) by simp
  then have "ctrl_inv c k s'" by (simp add: write_taken_def)
  then have "card (isInWriteQueue s') = size (extents (writeQueue s'))" by (rule writes_okD(3)[OF ctrl_invD(3)])
  then show ?thesis using w s'(1) assms(8) by (simp add: write_taken_def)
qed

theorem writes_merged_witness:
  "\<forall>j junk rh pkts nv nm. \<exists>c s s'. new_ctrl (demo_params True) j junk rh pkts demo_media
     (ddr4_dram, nv, plain_mem (2 ^ 33), nm) = Inr (c, s) \<and>
     recvTimingReq c 1000 0 (demo_pkt WriteReq 60 8) s = Inr (True, s') \<and> map fst (responsesSent s') = [0]"
proof (intro allI)
  fix j junk rh pkts nv nm
  obtain c and s :: "nat mem_ctrl" where d: "new_ctrl (demo_params True) j junk rh pkts demo_media (ddr4_dram, nv, plain_mem (2 ^ 33), nm) = Inr (c, s)"
    "ctrl_geom c 6" "ranks_there c (length (ranks (dram_st s)))" "ctrl_inv c 6 s" "policy s = None" "numPriorities s = 1"
    "ctrlWriteBufferSize c = 128" "\<forall>a. in_dram c a \<longleftrightarrow> a < 2 ^ 33"
    "am_subset (dram_mem s) = (\<lambda>a sz. a + sz \<le> 2 ^ 33)" "defended c 400 s"
    "totalWriteQueueSize s = 0" "responsesSent s = []"
    by (rule demo_ready[of True j junk rh pkts nv nm], rule that) simp_all
  let ?pkt = "demo_pkt WriteReq 60 8"
  have m: "mem_serves c ?pkt s" by (rule demo_serves[OF d(8,9)]) simp_all
  have q: "policy s = None \<longrightarrow> pk_qos ?pkt < numPriorities s" by (simp add: d(6))
  have sv: "defended c (length (bursts_of 6 ?pkt)) s" by (rule defended_le[OF d(10)]) (simp add: demo_bursts)
  have w: "isWrite ?pkt" and r: "has_room c 6 ?pkt s" by (simp_all add: has_room_def demo_bursts d testCmdAttrib_def)
  from writes_merged[OF d(2,3,4) m q sv w r, of 1000 0] d(1,12)
  show "\<exists>c s s'. new_ctrl (demo_params True) j junk rh pkts demo_media (ddr4_dram, nv, plain_mem (2 ^ 33), nm) = Inr (c, s) \<and>
     recvTimingReq c 1000 0 ?pkt s = Inr (True, s') \<and> map fst (responsesSent s') = [0]"
    by (auto simp: testCmdAttrib_def)
qed

end
