(* ===== verification/Mem_Ctrl_Serve.thy ===== *)
theory Mem_Ctrl_Serve
  imports Mem_Ctrl_Accept Rank_Power Dram_Select
begin

text \<open>
  What the request event of a controller with DRAM only does to its queues: \<open>dram_only\<close> says how the
  controller is configured (no power-down, at most 253 reads in flight), \<open>serving\<close> is the invariant of its
  state (the queues of \<open>ctrl_inv\<close>, ranks that can take a burst and count their outstanding reads, the answers
  due in the order of their ticks with the response event at the first), \<open>bus_ok\<close> that the bus never turns to
  writes when there are none. The lemmas follow the code from the access of a burst over the choice of the
  packet to the two halves of \<open>processNextReqEvent\<close>; \<open>request_event_ok\<close> sums them up.
\<close>

section \<open>Outstanding reads of the ranks\<close>

lemma precharge_inv:
  assumes "rank_inv r n" and "prechargeBank c w now bi t auto tr (r, bt) = Inr (r', bt')"
  shows "rank_inv r' n"
  using precharge_core'[OF assms(2)] assms(1)
  by (cases "prechargeEvent r = None") (simp_all add: rank_inv_def core_def pending_def)

lemma activate_inv:
  assumes "rank_inv r n" and "activateBank c w now bi t row (r, bt) = Inr (r', bt')"
  shows "rank_inv r' n"
  using activate_core[OF assms(2)] rank_inv_core[OF assms(1), of r'] by simp

lemma prepare_row_inv:
  assumes "rank_inv r n" and "prepare_row c w now bi row (r, bt) = Inr (r', bt', hit)"
  shows "rank_inv r' n"
proof (cases "openRow (banks r ! bi) = row")
  case True
  then show ?thesis using assms by (simp add: prepare_row_def)
next
  case False
  then obtain r1 bt1 where 1: "(if openRow (banks r ! bi) \<noteq> NO_ROW
      then prechargeBank c w now bi (max (preAllowedAt (banks r ! bi)) now) False True (r, bt) else Inr (r, bt)) = Inr (r1, bt1)"
    and 2: "activateBank c w now bi (max (actAllowedAt (banks r1 ! bi)) now) row (r1, bt1) = Inr (r', bt')"
    using assms(2) by (auto simp: prepare_row_def Let_def rbind_Inr_iff)
  have "rank_inv r1 n" using 1 precharge_inv[OF assms(1)] assms(1) by (auto split: if_splits)
  then show ?thesis using 2 by (rule activate_inv)
qed

lemma rank_inv_banks:
  "rank_inv r n \<Longrightarrow> rank_inv (map_banks f r) n" "rank_inv r n \<Longrightarrow> rank_inv (upd_bank i f r) n"
  "rank_inv r n \<Longrightarrow> rank_inv (r\<lparr>lastBurstTick := t\<rparr>) n" "rank_inv r n \<Longrightarrow> rank_inv (push_cmd y b t r) n"
  by (erule rank_inv_core; simp add: map_banks_def upd_bank_def core_def push_cmd_def)+

lemma burst_close_inv:
  assumes "rank_inv r n" and "burst_close c w now pkt cmd_at queue (r, bt) = Inr (r', bt')"
  shows "rank_inv r' n"
proof -
  let ?r1 = "upd_bank (mp_bank pkt) (used_bank c pkt cmd_at) r"
  let ?r2 = "push_cmd (if mp_read pkt then RD else WR) (mp_bank pkt) cmd_at ?r1"
  have r2: "rank_inv ?r2 n" by (intro rank_inv_banks assms(1))
  show ?thesis
  proof (cases "auto_precharge c pkt queue (banks ?r1 ! mp_bank pkt)")
    case True
    then have "prechargeBank c w now (mp_bank pkt) (max now (preAllowedAt (banks ?r2 ! mp_bank pkt))) True True (?r2, bt) = Inr (r', bt')"
      using assms(2) by (simp only: burst_close_def prod.case Let_def if_True)
    then show ?thesis by (rule precharge_inv[OF r2])
  next
    case False
    then have "?r2 = r'" using assms(2) by (simp only: burst_close_def prod.case Let_def if_False sum.inject prod.inject)
    then show ?thesis using r2 by simp
  qed
qed

lemma burst_issue_inv:
  assumes "burst_issue c w now pkt next_at d (r, bt) = Inr (cmd_at, gap, p1, d1, bt1)"
    and "rank_inv r (n (mp_rank pkt))" and "\<forall>j < length (ranks d). rank_inv (ranks d ! j) (n j)"
  shows "mp_read p1 = mp_read pkt" "length (ranks d1) = length (ranks d)" "\<forall>j < length (ranks d). rank_inv (ranks d1 ! j) (n j)"
proof -
  obtain f where "p1 = pkt\<lparr>readyTime := cmd_at + tCL c + tBURST c\<rparr>"
    "ranks d1 = burst_ranks c (mp_read pkt) cmd_at gap (mp_rank pkt) f ((ranks d)[mp_rank pkt := r\<lparr>lastBurstTick := cmd_at\<rparr>])"
    using assms(1) unfolding burst_issue_def prod.case Let_def rbind_Inr_iff
    by (elim exE conjE) (auto split: prod.splits)
  then show "mp_read p1 = mp_read pkt" "length (ranks d1) = length (ranks d)" "\<forall>j < length (ranks d). rank_inv (ranks d1 ! j) (n j)"
    using assms(2,3) by (auto simp: burst_ranks_def intro!: rank_inv_banks(1))
      (metis nth_list_update_eq nth_list_update_neq rank_inv_banks(3))
qed

text \<open>A burst leaves every rank counting its outstanding reads, one more on the rank of a read.\<close>

lemma burst_counts:
  assumes run: "doBurstAccess c w now pkt next_at queue (d, bt) = Inr (x, pkt', d', bt')"
    and inv: "\<forall>j < length (ranks d). rank_inv (ranks d ! j) (n j)"
  shows "length (ranks d') = length (ranks d)"
    "\<forall>j < length (ranks d'). rank_inv (ranks d' ! j) (n j + of_bool (mp_read pkt \<and> j = mp_rank pkt))"
proof -
  let ?j = "mp_rank pkt"
  obtain r1 r2 bt2 hit cmd_at gap p1 d1 bt3 r4 bt4 r5 where
    j: "?j < length (ranks d)" and w: "wake_for_burst c now (ranks d ! ?j) = Inr r1"
    and p: "prepare_row c w now (mp_bank pkt) (mp_row pkt) (r1, bt) = Inr (r2, bt2, hit)"
    and i: "burst_issue c w now pkt next_at d (r2, bt2) = Inr (cmd_at, gap, p1, d1, bt3)"
    and k: "burst_close c w now p1 cmd_at queue (ranks d1 ! ?j, bt3) = Inr (r4, bt4)"
    and e: "burst_events now p1 r4 = Inr r5"
    and d': "d' = burst_stats c p1 cmd_at hit (d1\<lparr>ranks := (ranks d1)[?j := r5]\<rparr>)"
    using run by (auto simp: doBurstAccess_def Let_def rbind_Inr_iff split: if_splits)
  have "r1 = ranks d ! ?j" using w inv j by (auto simp: wake_for_burst_def rank_inv_def split: if_splits)
  then have r2: "rank_inv r2 (n ?j)" using prepare_row_inv[OF _ p] inv j by simp
  note r1 = burst_issue_inv[OF i r2 inv]
  have p1: "mp_read p1 = mp_read pkt" and len: "length (ranks d1) = length (ranks d)" by (rule r1(1), rule r1(2))
  have "rank_inv r4 (n ?j)" using burst_close_inv[OF _ k] r1(3) j by simp
  from burst_events_inv[OF this e] have r5: "rank_inv r5 (n ?j + of_bool (mp_read pkt))" by (simp add: p1 split: if_splits)
  show "length (ranks d') = length (ranks d)" using len by (simp add: d')
  show "\<forall>j < length (ranks d'). rank_inv (ranks d' ! j) (n j + of_bool (mp_read pkt \<and> j = mp_rank pkt))"
    using r5 r1(3) len j by (auto simp: d' nth_list_update)
qed

section \<open>A controller with DRAM only\<close>

definition dram_only :: "ctrl_cfg \<Rightarrow> dram_cfg \<Rightarrow> nat \<Rightarrow> bool" where
  "dram_only c d k \<longleftrightarrow> ctrl_geom c k \<and> cc_dram c = Some d \<and> cc_nvm c = None \<and> burst_cfg d \<and> 0 < commandWindow c \<and>
     \<not> enableDRAMPowerdown d \<and> banksPerRank d \<le> 32 \<and> ranksPerChannel d * banksPerRank d \<le> 65536 \<and>
     ctrlReadBufferSize c \<le> 253 \<and> ctrlReadBufferSize c + ctrlWriteBufferSize c < u64_size"

lemma dram_onlyD:
  assumes "dram_only c d k"
  shows "ctrl_geom c k" "cc_dram c = Some d" "cc_nvm c = None" "burst_cfg d" "0 < commandWindow c" "\<not> enableDRAMPowerdown d"
    "banksPerRank d \<le> 32" "ranksPerChannel d * banksPerRank d \<le> 65536" "ctrlReadBufferSize c \<le> 253"
    "ctrlReadBufferSize c + ctrlWriteBufferSize c < u64_size" "burstSize d = 2 ^ k" "0 < ranksPerChannel d" "rowsPerBank d \<le> NO_ROW"
proof -
  show g: "ctrl_geom c k" "cc_dram c = Some d" using assms by (simp_all add: dram_only_def)
  then have "geometry_ok (geometry.truncate d)" by (simp add: ctrl_geom_def)
  then show "0 < ranksPerChannel d" "rowsPerBank d \<le> NO_ROW" by (simp_all add: geometry_ok_def geometry.defs)
  show "burstSize d = 2 ^ k" using g by (simp add: ctrl_geom_def)
qed (use assms in \<open>simp_all add: dram_only_def\<close>)

text \<open>The answers due are not after the earliest next burst of any bank, plus what a burst takes.\<close>

definition timely :: "dram_cfg \<Rightarrow> dram_rank list \<Rightarrow> mem_packet list \<Rightarrow> bool" where
  "timely d rs q \<longleftrightarrow> (\<exists>t. col_ready rs t \<and> (\<forall>p \<in> set q. readyTime p \<le> t + tCL d + tBURST d))"

definition reads_on :: "nat \<Rightarrow> mem_packet list \<Rightarrow> nat" where
  "reads_on j q = length (filter (\<lambda>p. mp_rank p = j) q)"

definition counted :: "dram_rank list \<Rightarrow> (nat \<Rightarrow> nat) \<Rightarrow> bool" where
  "counted rs n \<longleftrightarrow> (\<forall>j < length rs. rank_inv (rs ! j) (n j))"

lemma placed_dram:
  assumes "dram_only c d k" and "placed c p"
  shows "mp_dram p" "packet_ok d p" "mp_bankId p = mp_rank p * banksPerRank d + mp_bank p"
proof -
  note D = dram_onlyD[OF assms(1)]
  show m: "mp_dram p" using assms(2) D(3) by (simp add: placed_def split: if_splits)
  then have x: "mp_rank p < ranksPerChannel d" "mp_bank p < banksPerRank d" "mp_row p < rowsPerBank d"
    "mp_bankId p = (banksPerRank d * mp_rank p + mp_bank p) mod 65536"
    using assms(2) D(2) by (auto simp: placed_def)
  then show "packet_ok d p" using D(13) by (simp add: packet_ok_def)
  have "mp_rank p * banksPerRank d + mp_bank p < (mp_rank p + 1) * banksPerRank d" using x(2) by simp
  also have "\<dots> \<le> ranksPerChannel d * banksPerRank d" using x(1) by (intro mult_le_mono1) simp
  also have "\<dots> \<le> 65536" by (rule D(8))
  finally show "mp_bankId p = mp_rank p * banksPerRank d + mp_bank p" using x(4) by (simp add: mult.commute)
qed

lemma ctrl_burst_ok:
  assumes D: "dram_only c d k" and good: "dram_good d (ranks (dram_st s))" and n: "counted (ranks (dram_st s)) n"
    and pl: "placed c p" and en: "rh_defense_enable c \<longrightarrow> rh_defense s \<noteq> None" and t: "timely d (ranks (dram_st s)) q"
  obtains r dr bt nb nr rt wt st where
    "ctrl_burst c now p s = Inr (p\<lparr>readyTime := r\<rparr>, s\<lparr>burstTicks := bt, nextBurstAt := nb, dram_st := dr, nextReqTime := nr,
       readsThisTime := rt, writesThisTime := wt, stats := st\<rparr>)"
    "now + tCL d + tBURST d \<le> r" "\<forall>p' \<in> set q. readyTime p' \<le> r" "dram_good d (ranks dr)"
    "counted (ranks dr) (\<lambda>j. n j + of_bool (mp_read p \<and> j = mp_rank p))" "timely d (ranks dr) (q @ [p\<lparr>readyTime := r\<rparr>])"
    "mp_read p \<Longrightarrow> wt = writesThisTime s"
proof -
  note cfg = dram_onlyD[OF D] and P = placed_dram[OF D pl]
  define next_at where "next_at = nextBurstAt s + rh_bubble (rh_defense_enable c) p"
  define s0 where "s0 = s\<lparr>burstTicks := pruneBurstTick now (burstTicks s)\<rparr>"
  have "\<exists>f. (if rh_defense_enable c
            then deref (rh_defense s0) (\<lambda>def. Inr (if s_num_accesses (defense_stats def) mod 100 = 0
                   then upd_ctrl_stats (\<lambda>st. st\<lparr>st_rh := copy_rh_stats (ctrl_mitigation c) def (st_rh st)\<rparr>) s0 else s0))
            else Inr s0) = Inr (s0\<lparr>stats := f\<rparr>)"
  proof (cases "rh_defense_enable c")
    case True
    then obtain x where "rh_defense s0 = Some x" using en by (auto simp: s0_def)
    then show ?thesis by (cases "s_num_accesses (defense_stats x) mod 100 = 0") (auto intro: exI[of _ "stats s0"])
  qed (auto intro: exI[of _ "stats s0"])
  then obtain f where f: "(if rh_defense_enable c
            then deref (rh_defense s0) (\<lambda>def. Inr (if s_num_accesses (defense_stats def) mod 100 = 0
                   then upd_ctrl_stats (\<lambda>st. st\<lparr>st_rh := copy_rh_stats (ctrl_mitigation c) def (st_rh st)\<rparr>) s0 else s0))
            else Inr s0) = Inr (s0\<lparr>stats := f\<rparr>)" by blast
  let ?s1 = "s0\<lparr>stats := f\<rparr>"
  let ?q = "if mp_read p then readQueue ?s1 else writeQueue ?s1"
  obtain cmd_at gap p' dr bt where b: "doBurstAccess d (commandWindow c) now p next_at ?q (dram_st s, burstTicks s0) =
      Inr ((cmd_at, cmd_at + gap), p', dr, bt)" "dram_good d (ranks dr)" "now \<le> cmd_at"
    "p' = p\<lparr>readyTime := cmd_at + tCL d + tBURST d\<rparr>"
    "\<forall>t. col_ready (ranks (dram_st s)) t \<longrightarrow> t \<le> cmd_at" "col_ready (ranks dr) (cmd_at + tBURST_MIN d)"
    by (rule doBurstAccess_ok[OF cfg(4,5) good P(2), of now next_at ?q "burstTicks s0"], rule that)
  define r where "r = cmd_at + tCL d + tBURST d"
  define s2 where "s2 = ?s1\<lparr>nextBurstAt := cmd_at + gap, dram_st := dr, burstTicks := bt, nvm_st := nvm_st ?s1\<rparr>"
  define s3 where "s3 = s2\<lparr>nextReqTime := sub_tick (nextBurstAt s2) (commandOffset d)\<rparr>"
  have "burst_dram c now p s0 = Inr (p', s2)"
  proof -
    have x: "nextBurstAt s0 = nextBurstAt s" "dram_st ?s1 = dram_st s" "burstTicks ?s1 = burstTicks s0" by (simp_all add: s0_def)
    show ?thesis
      unfolding burst_dram_def cfg(2,3) option.case Let_def f rbind_simps x next_at_def[symmetric] b(1) prod.case s2_def
      by (rule refl)
  qed
  then have run: "ctrl_burst c now p s = Inr (p', count_burst p' s3)"
    using P(1) by (simp add: ctrl_burst_def Let_def cfg(2) s3_def s0_def[symmetric])
  have "\<exists>rt wt st. count_burst p' s3 = s\<lparr>burstTicks := bt, nextBurstAt := cmd_at + gap, dram_st := dr,
       nextReqTime := nextReqTime s3, readsThisTime := rt, writesThisTime := wt, stats := st\<rparr> \<and>
     (mp_read p \<longrightarrow> wt = writesThisTime s)"
  proof (cases "mp_read p")
    case True
    then have "count_burst p' s3 = s\<lparr>burstTicks := bt, nextBurstAt := cmd_at + gap, dram_st := dr,
       nextReqTime := nextReqTime s3, readsThisTime := inc32 (readsThisTime s), writesThisTime := writesThisTime s,
       stats := stats (count_burst p' s3)\<rparr>"
      by (cases s) (simp add: count_burst_def b(4) s3_def s2_def s0_def Let_def)
    then show ?thesis by metis
  next
    case False
    then have "count_burst p' s3 = s\<lparr>burstTicks := bt, nextBurstAt := cmd_at + gap, dram_st := dr,
       nextReqTime := nextReqTime s3, readsThisTime := readsThisTime s, writesThisTime := inc32 (writesThisTime s),
       stats := stats (count_burst p' s3)\<rparr>"
      by (cases s) (simp add: count_burst_def b(4) s3_def s2_def s0_def Let_def)
    then show ?thesis using False by metis
  qed
  then obtain rt wt st where st: "count_burst p' s3 = s\<lparr>burstTicks := bt, nextBurstAt := cmd_at + gap, dram_st := dr,
       nextReqTime := nextReqTime s3, readsThisTime := rt, writesThisTime := wt, stats := st\<rparr>"
    "mp_read p \<longrightarrow> wt = writesThisTime s" by blast
  obtain t0 where t0: "col_ready (ranks (dram_st s)) t0" "\<forall>p \<in> set q. readyTime p \<le> t0 + tCL d + tBURST d"
    using t by (auto simp: timely_def)
  have le: "t0 \<le> cmd_at" using b(5) t0(1) by blast
  have late: "\<forall>p' \<in> set q. readyTime p' \<le> r" using t0(2) le unfolding r_def by fastforce
  have "timely d (ranks dr) (q @ [p\<lparr>readyTime := r\<rparr>])"
    unfolding timely_def using b(6) late by (intro exI[of _ "cmd_at + tBURST_MIN d"]) (fastforce simp: r_def)
  moreover have "counted (ranks dr) (\<lambda>j. n j + of_bool (mp_read p \<and> j = mp_rank p))"
    using burst_counts[OF b(1)] n by (simp add: counted_def)
  moreover have "now + tCL d + tBURST d \<le> r" using b(3) by (simp add: r_def)
  moreover have "ctrl_burst c now p s = Inr (p\<lparr>readyTime := r\<rparr>, s\<lparr>burstTicks := bt, nextBurstAt := cmd_at + gap, dram_st := dr,
       nextReqTime := nextReqTime s3, readsThisTime := rt, writesThisTime := wt, stats := st\<rparr>)"
    using run st(1) b(4) by (simp add: r_def)
  ultimately show thesis using late b(2) st(2) that by blast
qed

section \<open>Choosing a burst\<close>

text \<open>The ticks of the banks fit in 64 bits, which the search of FR-FCFS relies on.\<close>

definition in_time :: "ctrl_cfg \<Rightarrow> dram_cfg \<Rightarrow> tick \<Rightarrow> dram_rank list \<Rightarrow> bool" where
  "in_time c d now rs \<longleftrightarrow> (memSchedPolicy c = Frfcfs \<longrightarrow> (\<forall>r \<in> set rs. \<forall>b \<in> set (banks r). prep_act_at d now b \<le> MaxTick))"

lemma packet_is_ready:
  assumes "dram_only c d k" and "dram_good d (ranks (dram_st s))" and "placed c p"
  shows "packetReady c now p s = Inr True" "ready_pkt (ranks (dram_st s)) p"
proof -
  note P = placed_dram[OF assms(1,3)]
  have j: "mp_rank p < length (ranks (dram_st s))" using P(2) assms(2) by (simp add: packet_ok_def dram_good_def)
  then have "refreshState (ranks (dram_st s) ! mp_rank p) = REF_IDLE"
    using assms(2) by (simp add: dram_good_def good_rank_def)
  then show "packetReady c now p s = Inr True" "ready_pkt (ranks (dram_st s)) p"
    using j P(1) dram_onlyD(2)[OF assms(1)] by (simp_all add: packetReady_def ready_pkt_def burstReady_def inRefIdleState_def)
qed

lemma chooseNext_ok:
  assumes D: "dram_only c d k" and good: "dram_good d (ranks (dram_st s))" and pl: "\<forall>p \<in> set q. placed c p"
    and tm: "in_time c d now (ranks (dram_st s))"
  obtains r where "chooseNext c now q delay s = Inr r" "r = None \<longleftrightarrow> q = []" "\<And>i. r = Some i \<Longrightarrow> i < length q"
proof -
  note cfg = dram_onlyD[OF D]
  have rdy: "packetReady c now p s = Inr True" "ready_pkt (ranks (dram_st s)) p" if "p \<in> set q" for p
    using packet_is_ready[OF D good] pl that by blast+
  consider "q = []" | p where "q = [p]" | p p' q' where "q = p # p' # q'" by (metis list.exhaust)
  then show thesis
  proof cases
    case 1
    then show thesis using that[of None] by (simp add: chooseNext_def)
  next
    case 2
    then show thesis using that[of "Some 0"] rdy(1)[of p] by (simp add: chooseNext_def)
  next
    case 3
    show thesis
    proof (cases "memSchedPolicy c")
      case Fcfs
      then show thesis using that[of "Some 0"] rdy(1)[of p] 3 by (simp add: chooseNext_def)
    next
      case Frfcfs
      let ?rs = "ranks (dram_st s)"
      have g: "length ?rs = ranksPerChannel d" "\<forall>r \<in> set ?rs. length (banks r) = banksPerRank d"
        using good by (simp_all add: dram_good_def good_rank_def rank_ok_def)
      have qo: "queue_ok d ?rs q"
        using g cfg(7,8) placed_dram[OF D] pl by (auto simp: queue_ok_def packet_ok_def)
      have mx: "\<forall>x \<in> waiting_banks ?rs q. prep_act_at d now (bank_at ?rs x) \<le> MaxTick"
      proof
        fix x assume "x \<in> waiting_banks ?rs q"
        then obtain p where p: "p \<in> set q" "x = (mp_rank p, mp_bank p)" by (auto simp: waiting_banks_def)
        then have "mp_rank p < length ?rs" "mp_bank p < banksPerRank d" using qo rdy(2)[of p] by (auto simp: queue_ok_def ready_pkt_def)
        then have "bank_at ?rs x \<in> set (banks (?rs ! mp_rank p))" "?rs ! mp_rank p \<in> set ?rs" using g p(2) by simp_all
        then show "prep_act_at d now (bank_at ?rs x) \<le> MaxTick" using tm Frfcfs by (auto simp: in_time_def)
      qed
      let ?m = "max (nextBurstAt s + delay) now"
      obtain r col where r: "chooseNextFRFCFS d now (inReadBusState (ctrl_view.truncate s) False) ?rs q ?m = Inr (r, col)"
        "r = None \<longleftrightarrow> (\<forall>p \<in> set q. \<not> ready_pkt ?rs p)" "\<forall>k. r = Some k \<longrightarrow> k < length q"
        using frfcfs_selects[OF qo mx, of "inReadBusState (ctrl_view.truncate s) False" ?m] by blast
      have "chooseNext c now q delay s = Inr r"
        using r(1) 3 Frfcfs by (simp add: chooseNext_def choose_frfcfs_def cfg(2,3) Let_def)
      moreover have "r \<noteq> None" using r(2) rdy(2)[of p] 3 by auto
      ultimately show thesis using that[of r] r(3) 3 by simp
    qed
  qed
qed

lemma choose_prio_ok:
  assumes D: "dram_only c d k" and good: "dram_good d (ranks (dram_st s))" and pl: "all_placed c qs"
    and tm: "in_time c d now (ranks (dram_st s))" and ps: "set ps \<subseteq> {..<length qs}"
  shows "\<exists>r. choose_prio c now qs delay s ps = Inr r \<and> (r = None \<longleftrightarrow> (\<forall>p \<in> set ps. qs ! p = [])) \<and>
    (\<forall>p i. r = Some (p, i) \<longrightarrow> p \<in> set ps \<and> i < length (qs ! p))"
  using ps
proof (induction ps)
  case (Cons p ps)
  have p: "\<forall>x \<in> set (qs ! p). placed c x" using pl Cons.prems nth_mem[of p qs] by (auto simp: all_placed_def)
  obtain r where r: "chooseNext c now (qs ! p) delay s = Inr r" "r = None \<longleftrightarrow> qs ! p = []" "\<And>i. r = Some i \<Longrightarrow> i < length (qs ! p)"
    by (rule chooseNext_ok[OF D good p tm, of delay], rule that)
  show ?case
  proof (cases r)
    case None
    then show ?thesis using r Cons by auto
  next
    case (Some i)
    then show ?thesis using r by auto
  qed
qed simp

lemma choose_any:
  assumes D: "dram_only c d k" and good: "dram_good d (ranks (dram_st s))" and pl: "all_placed c qs"
    and tm: "in_time c d now (ranks (dram_st s))"
  obtains "choose_prio c now qs delay s (prios_down qs) = Inr None" "sum_list (map length qs) = 0"
  | p i where "choose_prio c now qs delay s (prios_down qs) = Inr (Some (p, i))" "p < length qs" "i < length (qs ! p)"
proof -
  have "set (prios_down qs) \<subseteq> {..<length qs}" by auto
  from choose_prio_ok[OF D good pl tm this, of delay] obtain r where
    r: "choose_prio c now qs delay s (prios_down qs) = Inr r" "r = None \<longleftrightarrow> (\<forall>p \<in> set (prios_down qs). qs ! p = [])"
    "\<forall>p i. r = Some (p, i) \<longrightarrow> p \<in> set (prios_down qs) \<and> i < length (qs ! p)" by blast
  show thesis
  proof (cases r)
    case None
    then have "\<forall>q \<in> set qs. q = []" using r(2) by (auto simp: in_set_conv_nth)
    then have "sum_list (map length qs) = 0" by simp
    then show thesis using that(1) r(1) None by blast
  next
    case (Some x)
    then show thesis using that(2) r(1,3) by (cases x) auto
  qed
qed

section \<open>Serving a burst\<close>

lemma drop_mset:
  assumes "p < length qs" and "i < length (qs ! p)"
  shows "mset (concat qs) = add_mset (qs ! p ! i) (mset (concat (drop_pkt p i qs)))"
proof -
  have "mset (qs ! p) = add_mset (qs ! p ! i) (mset (drop_at i (qs ! p)))"
    using id_take_nth_drop[OF assms(2)] by (metis drop_at_def mset.simps(2) mset_append union_mset_add_mset_right)
  then show ?thesis using mset_concat_update[OF assms(1), of "drop_at i (qs ! p)"] by (simp add: drop_pkt_def)
qed

lemma drop_contents:
  assumes "p < length qs" and "i < length (qs ! p)"
  defines "x \<equiv> qs ! p ! i"
  shows "contents qs = add_mset (mp_pkt x, mp_helper x, extent x) (contents (drop_pkt p i qs))"
    "extents qs = add_mset (extent x) (extents (drop_pkt p i qs))"
    "all_placed c qs \<Longrightarrow> all_placed c (drop_pkt p i qs)" "all_placed c qs \<Longrightarrow> placed c x"
proof -
  note m = drop_mset[OF assms(1,2), folded x_def]
  show "contents qs = add_mset (mp_pkt x, mp_helper x, extent x) (contents (drop_pkt p i qs))"
    "extents qs = add_mset (extent x) (extents (drop_pkt p i qs))" unfolding contents_def extents_def m by simp_all
  have "set (concat qs) = insert x (set (concat (drop_pkt p i qs)))" using m by (metis set_mset_add_mset_insert set_mset_mset)
  then show "all_placed c qs \<Longrightarrow> all_placed c (drop_pkt p i qs)" "all_placed c qs \<Longrightarrow> placed c x"
    unfolding all_placed_def by blast+
qed

lemma writes_ok_remove:
  assumes "writes_ok k B (add_mset e W)"
  shows "writes_ok k (B - {burstAlign (2 ^ k) (fst e)}) W"
proof -
  let ?f = "\<lambda>e. burstAlign (2 ^ k) (fst e)"
  have w: "\<forall>e \<in># W. in_burst k e" "B = insert (?f e) (?f ` set_mset W)" "card B = Suc (size W)"
    using assms by (simp_all add: writes_ok_def, metis size_add_mset)
  have le: "card (?f ` set_mset W) \<le> size W"
    using card_image_le[of "set_mset W" ?f] mset_set_set_mset_msubset[of W] size_mset_mono[of "mset_set (set_mset W)" W] by simp
  have "?f e \<notin> ?f ` set_mset W" using le w(2,3) by (metis Suc_n_not_le_n insert_absorb)
  then have "B - {?f e} = ?f ` set_mset W" "card (?f ` set_mset W) = size W"
    using w(2,3) by (simp_all add: card_insert_if)
  then show ?thesis using w(1) by (simp add: writes_ok_def)
qed

text \<open>The answers due: the packets, their order, the event and the earliest next burst.\<close>

definition answers_due :: "ctrl_cfg \<Rightarrow> dram_cfg \<Rightarrow> 'd mem_ctrl \<Rightarrow> bool" where
  "answers_due c d s \<longleftrightarrow> (\<forall>p \<in> set (respQueue s). placed c p) \<and> sorted (map readyTime (respQueue s)) \<and>
     respondEvent s = (case respQueue s of [] \<Rightarrow> None | p # _ \<Rightarrow> Some (readyTime p)) \<and>
     timely d (ranks (dram_st s)) (respQueue s)"

definition serving :: "ctrl_cfg \<Rightarrow> dram_cfg \<Rightarrow> nat \<Rightarrow> 'd mem_ctrl \<Rightarrow> bool" where
  "serving c d k s \<longleftrightarrow> ctrl_inv c k s \<and> dram_good d (ranks (dram_st s)) \<and>
     counted (ranks (dram_st s)) (\<lambda>j. reads_on j (respQueue s)) \<and>
     (rh_defense_enable c \<longrightarrow> rh_defense s \<noteq> None) \<and> answers_due c d s"

text \<open>The bursts of reads on their way, and what serving leaves alone.\<close>

definition flight :: "'d mem_ctrl \<Rightarrow> (nat \<times> nat option \<times> addr \<times> nat) multiset" where
  "flight s = contents (readQueue s) + image_mset (\<lambda>p. (mp_pkt p, mp_helper p, extent p)) (mset (respQueue s))"

definition apart :: "'d mem_ctrl \<Rightarrow> 'd mem_ctrl \<Rightarrow> bool" where
  "apart s s' \<longleftrightarrow> outside s' = outside s \<and> flight s' = flight s \<and> helpers s' = helpers s \<and> nextHelper s' = nextHelper s \<and>
     numPriorities s' = numPriorities s \<and> (policy s' = None \<longleftrightarrow> policy s = None) \<and> turnPolicy s' = turnPolicy s \<and>
     rh_defense s' = rh_defense s \<and> length (ranks (dram_st s')) = length (ranks (dram_st s))"

lemma apart_refl [simp]: "apart s s"
  by (simp add: apart_def)

lemma apart_trans: "apart s s' \<Longrightarrow> apart s' s'' \<Longrightarrow> apart s s''"
  by (simp add: apart_def)

definition read_served :: "tick \<Rightarrow> 'd mem_ctrl \<Rightarrow> 'd mem_ctrl \<Rightarrow> bool" where
  "read_served t s s' \<longleftrightarrow> (\<exists>p. respQueue s' = respQueue s @ [p] \<and> t \<le> readyTime p \<and>
     contents (readQueue s) = add_mset (mp_pkt p, mp_helper p, extent p) (contents (readQueue s'))) \<and>
     extents (writeQueue s') = extents (writeQueue s)"

definition write_served :: "'d mem_ctrl \<Rightarrow> 'd mem_ctrl \<Rightarrow> bool" where
  "write_served s s' \<longleftrightarrow> (\<exists>e. extents (writeQueue s) = add_mset e (extents (writeQueue s'))) \<and>
     contents (readQueue s') = contents (readQueue s) \<and> respQueue s' = respQueue s"

lemma queue_response_ok:
  assumes due: "answers_due c d s" and r: "now \<le> readyTime p" "\<forall>p' \<in> set (respQueue s). readyTime p' \<le> readyTime p"
  shows "queue_response now p s = Inr (s\<lparr>respondEvent := Some (readyTime (hd (respQueue s @ [p]))), respQueue := respQueue s @ [p]\<rparr>)"
proof (cases "respQueue s")
  case Nil
  then show ?thesis using due r(1) by (simp add: queue_response_def schedule_def answers_due_def)
next
  case (Cons q qs)
  then have "respondEvent s = Some (readyTime q)" using due by (simp add: answers_due_def)
  moreover have "readyTime (last (respQueue s)) \<le> readyTime p" using r(2) Cons by simp
  ultimately show ?thesis using Cons by (simp add: queue_response_def)
qed

lemma serve_read_ok:
  assumes D: "dram_only c d k" and S: "serving c d k s" and p: "p < length (readQueue s)" "i < length (readQueue s ! p)"
  obtains b s' where "serve_read c now all_nvm p i s = Inr (b, s')" "serving c d k s'" "apart s s'"
    "read_served (now + tCL d + tBURST d) s s'" "nextReqEvent s' = nextReqEvent s" "busStateNext s' = busStateNext s"
    "b \<longrightarrow> 0 < totalWriteQueueSize s'" "drainState s' = drainState s"
proof -
  note cfg = dram_onlyD[OF D]
  have inv: "ctrl_inv c k s" and good: "dram_good d (ranks (dram_st s))" and cnt: "counted (ranks (dram_st s)) (\<lambda>j. reads_on j (respQueue s))"
    and en: "rh_defense_enable c \<longrightarrow> rh_defense s \<noteq> None" and due: "answers_due c d s"
    using S by (simp_all add: serving_def)
  note I = ctrl_invD[OF inv]
  let ?x = "readQueue s ! p ! i"
  note dr = drop_contents[OF p]
  have pl: "placed c ?x" by (rule dr(4)[OF I(10)])
  have "?x \<in> set (readQueue s ! p)" using p(2) by simp
  then have x: "mp_read ?x" "mp_qos ?x = p" "mp_size ?x \<le> 2 ^ k"
    using qos_invD(5)[OF I(1)] p(1) by (auto simp: pkts_ok_def)
  have t: "timely d (ranks (dram_st s)) (respQueue s)" using due by (simp add: answers_due_def)
  obtain r dm bt nb nr rt wt st where b: "ctrl_burst c now ?x s = Inr (?x\<lparr>readyTime := r\<rparr>, s\<lparr>burstTicks := bt, nextBurstAt := nb,
       dram_st := dm, nextReqTime := nr, readsThisTime := rt, writesThisTime := wt, stats := st\<rparr>)"
    "now + tCL d + tBURST d \<le> r" "\<forall>p' \<in> set (respQueue s). readyTime p' \<le> r" "dram_good d (ranks dm)"
    "counted (ranks dm) (\<lambda>j. reads_on j (respQueue s) + of_bool (mp_read ?x \<and> j = mp_rank ?x))"
    "timely d (ranks dm) (respQueue s @ [?x\<lparr>readyTime := r\<rparr>])"
    by (rule ctrl_burst_ok[OF D good cnt pl en t, of now], rule that)
  let ?p = "?x\<lparr>readyTime := r\<rparr>"
  define s1 where "s1 = s\<lparr>burstTicks := bt, nextBurstAt := nb, dram_st := dm, nextReqTime := nr, readsThisTime := rt,
    writesThisTime := wt, stats := st\<rparr>"
  have inv1: "qos_inv (2 ^ k) (readQueue s) (writeQueue s) s1" by (rule qos_inv_cong[OF I(1)]) (simp_all add: s1_def)
  have np: "p < numPriorities s1" using p(1) I(6) by (simp add: s1_def)
  have small: "totalReadQueueSize s1 + totalWriteQueueSize s1 < u64_size" using I(4,5) cfg(10) by (simp add: s1_def)
  obtain s2 where s2: "logResponse now READ (mp_requestor ?x) p (mp_addr ?x) 1 (sub_tick r (entryTime ?x)) s1 = Inr s2"
    "qos_inv (2 ^ k) (drop_pkt p i (readQueue s)) (writeQueue s) s2" "same_but_log s1 s2"
    using logResponse_ok[OF inv1 np, of i True ?x now "sub_tick r (entryTime ?x)"] p(2) small by auto
  have "qos.more s2 = qos.more s1" "ctrl_view.truncate s2 = ctrl_view.truncate s1" using s2(3) by (simp_all add: same_but_log_def)
  note m = more_eqD[OF this(1)] view_eqD[OF this(2)]
  have due2: "answers_due c d (s2\<lparr>dram_st := dram_st s\<rparr>)" using due m by (simp add: answers_due_def s1_def)
  have "queue_response now ?p s2 = Inr (s2\<lparr>respondEvent := Some (readyTime (hd (respQueue s2 @ [?p]))), respQueue := respQueue s2 @ [?p]\<rparr>)"
    (is "_ = Inr ?s3")
    using due2 b(2,3) queue_response_ok[of c d s2 now ?p]
  proof -
    have "answers_due c d s2" if "timely d (ranks dm) (respQueue s)"
      using due m that by (simp add: answers_due_def s1_def)
    moreover have "timely d (ranks dm) (respQueue s)" using b(6) by (auto simp: timely_def)
    ultimately show ?thesis using b(2,3) m by (intro queue_response_ok[of c d]) (simp_all add: s1_def)
  qed
  note q3 = this
  define s' where "s' = ?s3\<lparr>readQueue := drop_pkt p i (readQueue s)\<rparr>"
  define bb where "bb = (writeHighThreshold c < totalWriteQueueSize ?s3 \<and> \<not> (all_nvm \<and> nvm_writes_full c ?s3))"
  have sz: "size_ok c ?p = Inr True"
    using x(3) placed_dram(1)[OF D pl] cfg(2,11) by (simp add: size_ok_def burst_bytes_def)
  have run: "serve_read c now all_nvm p i s = Inr (bb, s')"
    unfolding serve_read_def b(1) rbind_simps prod.case s1_def[symmetric]
    using sz b(2) x(2) s2(1) q3 m by (simp add: s'_def bb_def s1_def)
  have f: "readQueue s' = drop_pkt p i (readQueue s)" "writeQueue s' = writeQueue s" "respQueue s' = respQueue s @ [?p]"
    "isInWriteQueue s' = isInWriteQueue s" "dram_st s' = dm" "rh_defense s' = rh_defense s" "nextReqEvent s' = nextReqEvent s"
    "respondEvent s' = Some (readyTime (hd (respQueue s @ [?p])))" "helpers s' = helpers s" "nextHelper s' = nextHelper s"
    "outside s' = outside s" "busStateNext s' = busStateNext s" "drainState s' = drainState s"
    by (simp_all add: s'_def m s1_def outside_def)
  have base: "numPriorities s' = numPriorities s" "policy s' = policy s" "turnPolicy s' = turnPolicy s"
    using s2(3) by (simp_all add: s'_def s1_def same_but_log_def)
  have q': "qos_inv (2 ^ k) (readQueue s') (writeQueue s') s'"
    unfolding f(1,2) by (rule qos_inv_cong[OF s2(2)]) (simp_all add: s'_def)
  have tr: "Suc (totalReadQueueSize s') = totalReadQueueSize s" "totalWriteQueueSize s' = totalWriteQueueSize s"
  proof -
    have "totalReadQueueSize s' = size (contents (readQueue s'))" using qos_invD(9)[OF q'] by (simp add: contents_def length_concat)
    then show "Suc (totalReadQueueSize s') = totalReadQueueSize s" using I(8) dr(1) by (simp add: f(1))
    show "totalWriteQueueSize s' = totalWriteQueueSize s" using qos_inv_total[OF q'] I(9) by (simp add: f(2))
  qed
  have so: "sched_ok s'" using I(2) base by (simp add: sched_ok_def split: option.splits)
  have inv': "ctrl_inv c k s'"
    using q' so I(3,4,5) dr(3)[OF I(10)] I(11) tr by (simp add: ctrl_inv_def f)
  have cnt': "counted (ranks dm) (\<lambda>j. reads_on j (respQueue s @ [?p]))"
    using b(5) x(1) by (auto simp: counted_def reads_on_def)
  have due': "answers_due c d s'"
  proof -
    have "sorted (map readyTime (respQueue s @ [?p]))"
      using due b(3) by (auto simp: answers_due_def sorted_append)
    moreover have "placed c ?p" using pl by (simp add: placed_def)
    moreover have "(case respQueue s @ [?p] of [] \<Rightarrow> None | p # _ \<Rightarrow> Some (readyTime p)) = Some (readyTime (hd (respQueue s @ [?p])))"
      by (cases "respQueue s") simp_all
    ultimately show ?thesis using due b(6) by (auto simp: answers_due_def f)
  qed
  have S': "serving c d k s'" using inv' b(4) cnt' en due' by (simp add: serving_def f)
  have e: "extent ?p = extent ?x" by (simp add: extent_def)
  have "flight s' = flight s" using dr(1) by (simp add: flight_def f e)
  moreover have "length (ranks dm) = length (ranks (dram_st s))" using b(4) good by (simp add: dram_good_def)
  ultimately have A: "apart s s'" using base by (simp add: apart_def f)
  have R: "read_served (now + tCL d + tBURST d) s s'"
    unfolding read_served_def using dr(1) b(2) by (auto simp: f e)
  have "bb \<longrightarrow> 0 < totalWriteQueueSize s'" by (auto simp: bb_def s'_def)
  then show thesis using that[OF run S' A R f(7,12) _ f(13)] by blast
qed

lemma serve_write_ok:
  assumes D: "dram_only c d k" and S: "serving c d k s" and p: "p < length (writeQueue s)" "i < length (writeQueue s ! p)"
  obtains s' where "serve_write c now p i s = Inr s'" "serving c d k s'" "apart s s'"
    "write_served s s'" "nextReqEvent s' = nextReqEvent s" "busStateNext s' = busStateNext s"
    "drainState s' = drainState s" "Suc (totalWriteQueueSize s') = totalWriteQueueSize s"
proof -
  note cfg = dram_onlyD[OF D]
  have inv: "ctrl_inv c k s" and good: "dram_good d (ranks (dram_st s))" and cnt: "counted (ranks (dram_st s)) (\<lambda>j. reads_on j (respQueue s))"
    and en: "rh_defense_enable c \<longrightarrow> rh_defense s \<noteq> None" and due: "answers_due c d s"
    using S by (simp_all add: serving_def)
  note I = ctrl_invD[OF inv]
  let ?x = "writeQueue s ! p ! i"
  note dr = drop_contents[OF p]
  have pl: "placed c ?x" by (rule dr(4)[OF I(11)])
  have "?x \<in> set (writeQueue s ! p)" using p(2) by simp
  then have x: "\<not> mp_read ?x" "mp_qos ?x = p" "mp_size ?x \<le> 2 ^ k"
    using qos_invD(6)[OF I(1)] p(1) by (auto simp: pkts_ok_def)
  have t: "timely d (ranks (dram_st s)) (respQueue s)" using due by (simp add: answers_due_def)
  obtain r dm bt nb nr rt wt st where b: "ctrl_burst c now ?x s = Inr (?x\<lparr>readyTime := r\<rparr>, s\<lparr>burstTicks := bt, nextBurstAt := nb,
       dram_st := dm, nextReqTime := nr, readsThisTime := rt, writesThisTime := wt, stats := st\<rparr>)"
    "dram_good d (ranks dm)"
    "counted (ranks dm) (\<lambda>j. reads_on j (respQueue s) + of_bool (mp_read ?x \<and> j = mp_rank ?x))"
    "timely d (ranks dm) (respQueue s @ [?x\<lparr>readyTime := r\<rparr>])"
    by (rule ctrl_burst_ok[OF D good cnt pl en t, of now], rule that)
  let ?p = "?x\<lparr>readyTime := r\<rparr>"
  let ?B = "isInWriteQueue s - {burstAlign (2 ^ k) (mp_addr ?x)}"
  define s1 where "s1 = s\<lparr>burstTicks := bt, nextBurstAt := nb, dram_st := dm, nextReqTime := nr, readsThisTime := rt,
    writesThisTime := wt, stats := st\<rparr>"
  define s1' where "s1' = s1\<lparr>isInWriteQueue := isInWriteQueue s1 - {burstAlign (2 ^ k) (mp_addr ?x)}\<rparr>"
  have inv1: "qos_inv (2 ^ k) (readQueue s) (writeQueue s) s1'" by (rule qos_inv_cong[OF I(1)]) (simp_all add: s1_def s1'_def)
  have np: "p < numPriorities s1'" using p(1) I(7) by (simp add: s1_def s1'_def)
  have small: "totalReadQueueSize s1' + totalWriteQueueSize s1' < u64_size" using I(4,5) cfg(10) by (simp add: s1_def s1'_def)
  obtain s2 where s2: "logResponse now WRITE (mp_requestor ?x) p (mp_addr ?x) 1 (sub_tick r (entryTime ?x)) s1' = Inr s2"
    "qos_inv (2 ^ k) (readQueue s) (drop_pkt p i (writeQueue s)) s2" "same_but_log s1' s2"
    using logResponse_ok[OF inv1 np, of i False ?x now "sub_tick r (entryTime ?x)"] p(2) small by auto
  have "qos.more s2 = qos.more s1'" "ctrl_view.truncate s2 = ctrl_view.truncate s1'" using s2(3) by (simp_all add: same_but_log_def)
  note m = more_eqD[OF this(1)] view_eqD[OF this(2)]
  define s' where "s' = s2\<lparr>writeQueue := drop_pkt p i (writeQueue s)\<rparr>"
  have sz: "size_ok c ?x = Inr True" and bb: "burst_bytes c (mp_dram ?p) = Inr (2 ^ k)"
    using x(3) placed_dram(1)[OF D pl] cfg(2,11) by (simp_all add: size_ok_def burst_bytes_def)
  have run: "serve_write c now p i s = Inr s'"
    unfolding serve_write_def sz rbind_simps b(1) prod.case bb s1_def[symmetric]
    using x(2) s2(1) m by (simp add: s'_def flip: s1'_def) (simp add: s1'_def s1_def)
  have f: "readQueue s' = readQueue s" "writeQueue s' = drop_pkt p i (writeQueue s)" "respQueue s' = respQueue s"
    "isInWriteQueue s' = ?B" "dram_st s' = dm" "rh_defense s' = rh_defense s" "nextReqEvent s' = nextReqEvent s"
    "respondEvent s' = respondEvent s" "helpers s' = helpers s" "nextHelper s' = nextHelper s"
    "outside s' = outside s" "busStateNext s' = busStateNext s" "drainState s' = drainState s"
    by (simp_all add: s'_def m s1_def s1'_def outside_def)
  have base: "numPriorities s' = numPriorities s" "policy s' = policy s" "turnPolicy s' = turnPolicy s"
    using s2(3) by (simp_all add: s'_def s1'_def s1_def same_but_log_def)
  have q': "qos_inv (2 ^ k) (readQueue s') (writeQueue s') s'"
    unfolding f(1,2) by (rule qos_inv_cong[OF s2(2)]) (simp_all add: s'_def)
  have tr: "totalReadQueueSize s' = totalReadQueueSize s" "Suc (totalWriteQueueSize s') = totalWriteQueueSize s"
  proof -
    show "totalReadQueueSize s' = totalReadQueueSize s" using qos_invD(9)[OF q'] qos_invD(9)[OF I(1)] by (simp add: f(1))
    show "Suc (totalWriteQueueSize s') = totalWriteQueueSize s" using qos_inv_total[OF q'] I(9) dr(2) by (simp add: f(2))
  qed
  have so: "sched_ok s'" using I(2) base by (simp add: sched_ok_def split: option.splits)
  have w: "writes_ok k ?B (extents (drop_pkt p i (writeQueue s)))"
    using writes_ok_remove[of k "isInWriteQueue s" "extent ?x"] I(3) dr(2) by (simp add: extent_def)
  have inv': "ctrl_inv c k s'"
    using q' so w I(4,5) dr(3)[OF I(11)] I(10) tr by (simp add: ctrl_inv_def f)
  have cnt': "counted (ranks dm) (\<lambda>j. reads_on j (respQueue s))"
    using b(3) x(1) by (auto simp: counted_def)
  have due': "answers_due c d s'"
    using due b(4) by (auto simp: answers_due_def f timely_def)
  have S': "serving c d k s'" using inv' b(2) cnt' en due' by (simp add: serving_def f)
  have "length (ranks dm) = length (ranks (dram_st s))" using b(2) good by (simp add: dram_good_def)
  then have A: "apart s s'" using base by (simp add: apart_def f flight_def)
  have W: "write_served s s'" unfolding write_served_def using dr(2) by (auto simp: f)
  show thesis by (rule that[OF run S' A W f(7,12,13) tr(2)])
qed

section \<open>The request event\<close>

lemma serving_upd [simp]:
  "serving c d k (s\<lparr>busStateNext := x\<rparr>) = serving c d k s" "serving c d k (s\<lparr>busState := x\<rparr>) = serving c d k s"
  "serving c d k (s\<lparr>nextReqEvent := ev\<rparr>) = serving c d k s" "serving c d k (s\<lparr>drainState := ds\<rparr>) = serving c d k s"
  "serving c d k (s\<lparr>numReadWriteTurnArounds := i\<rparr>) = serving c d k s" "serving c d k (s\<lparr>numWriteReadTurnArounds := i\<rparr>) = serving c d k s"
  "serving c d k (s\<lparr>numStayReadState := i\<rparr>) = serving c d k s" "serving c d k (s\<lparr>numStayWriteState := i\<rparr>) = serving c d k s"
  "serving c d k (s\<lparr>readsThisTime := i\<rparr>) = serving c d k s" "serving c d k (s\<lparr>writesThisTime := i\<rparr>) = serving c d k s"
  "serving c d k (s\<lparr>stats := st\<rparr>) = serving c d k s" "serving c d k (s\<lparr>retryWrReq := b\<rparr>) = serving c d k s"
  "serving c d k (s\<lparr>retryRdReq := b\<rparr>) = serving c d k s" "serving c d k (s\<lparr>retriesSent := i\<rparr>) = serving c d k s"
  by (simp_all add: serving_def ctrl_inv_def qos_inv_def qos_lens_def pkts_ok_def sched_ok_def answers_due_def cong: option.case_cong)

lemma apart_upd [simp]:
  "apart s (s'\<lparr>busStateNext := x\<rparr>) = apart s s'" "apart s (s'\<lparr>busState := x\<rparr>) = apart s s'"
  "apart s (s'\<lparr>nextReqEvent := ev\<rparr>) = apart s s'" "apart s (s'\<lparr>drainState := ds\<rparr>) = apart s s'"
  "apart s (s'\<lparr>numReadWriteTurnArounds := i\<rparr>) = apart s s'" "apart s (s'\<lparr>numWriteReadTurnArounds := i\<rparr>) = apart s s'"
  "apart s (s'\<lparr>numStayReadState := i\<rparr>) = apart s s'" "apart s (s'\<lparr>numStayWriteState := i\<rparr>) = apart s s'"
  "apart s (s'\<lparr>readsThisTime := i\<rparr>) = apart s s'" "apart s (s'\<lparr>writesThisTime := i\<rparr>) = apart s s'"
  "apart s (s'\<lparr>stats := st\<rparr>) = apart s s'" "apart s (s'\<lparr>retryWrReq := b\<rparr>) = apart s s'"
  "apart s (s'\<lparr>retriesSent := i\<rparr>) = apart s s'"
  by (simp_all add: apart_def outside_def flight_def)

text \<open>Where the bus turns to at the start of the event.\<close>

definition turned :: "'d mem_ctrl \<Rightarrow> bus_state" where
  "turned s = (if turnPolicy s then selectNextBusState s else busStateNext s)"

definition bus_ok :: "'d mem_ctrl \<Rightarrow> bool" where
  "bus_ok s \<longleftrightarrow> turnPolicy s \<or> busStateNext s = READ \<or> 0 < totalWriteQueueSize s"

lemma turnaround_work:
  assumes "\<forall>q \<in> set qs. q < length rq \<and> q < length wq" and "readQueueSizes s = map length rq" and "writeQueueSizes s = map length wq"
    and "turnaround_loop s qs = WRITE"
  shows "(\<exists>q \<in> set qs. wq ! q \<noteq> []) \<or> (\<forall>q \<in> set qs. rq ! q = [])"
  using assms by (induction qs) (auto split: if_splits)

lemma turned_work:
  assumes "ctrl_inv c k s" and "bus_ok s" and "turned s = WRITE" and "0 < totalReadQueueSize s \<or> 0 < totalWriteQueueSize s"
  shows "0 < totalWriteQueueSize s"
proof (cases "turnPolicy s")
  case True
  note I = ctrl_invD[OF assms(1)]
  note Q = qos_invD[OF I(1)]
  let ?qs = "map (\<lambda>i. numPriorities s - i - 1) [0..<numPriorities s]"
  have st: "set ?qs = {..<numPriorities s}"
  proof (intro equalityI subsetI)
    fix x assume "x \<in> {..<numPriorities s}"
    then show "x \<in> set ?qs" by (auto simp: image_iff intro!: bexI[of _ "numPriorities s - x - 1"])
  qed auto
  have "turnaround_loop s ?qs = WRITE" using assms(3) True by (simp add: turned_def selectNextBusState_def selectBusState_def)
  moreover have "\<forall>q \<in> set ?qs. q < length (readQueue s) \<and> q < length (writeQueue s)" unfolding st Q(1,2) by simp
  ultimately have "(\<exists>q \<in> set ?qs. writeQueue s ! q \<noteq> []) \<or> (\<forall>q \<in> set ?qs. readQueue s ! q = [])"
    by (intro turnaround_work[OF _ Q(7,8)])
  then have "(\<exists>q < numPriorities s. writeQueue s ! q \<noteq> []) \<or> (\<forall>q < numPriorities s. readQueue s ! q = [])"
    unfolding st by blast
  then show ?thesis
  proof
    assume "\<exists>q < numPriorities s. writeQueue s ! q \<noteq> []"
    then obtain q where "q < length (writeQueue s)" "writeQueue s ! q \<noteq> []" using Q(2) by auto
    then have "\<exists>y \<in> set (map length (writeQueue s)). y \<noteq> 0" by force
    then show ?thesis unfolding Q(10) by (metis gr0I sum_list_eq_0_iff)
  next
    assume "\<forall>q < numPriorities s. readQueue s ! q = []"
    then have "\<forall>q \<in> set (readQueue s). q = []" using Q(1) by (auto simp: in_set_conv_nth)
    then have "totalReadQueueSize s = 0" unfolding Q(9) by simp
    then show ?thesis using assms(4) by simp
  qed
qed (use assms in \<open>simp add: bus_ok_def turned_def\<close>)

lemma turn_bus_serving [simp]:
  "serving c d k (snd (turn_bus s)) = serving c d k s" "apart s (snd (turn_bus s))"
  by (simp_all add: turn_bus_def recordTurnaroundStats_def Let_def split: bus_state.split)

lemma turn_bus_simps [simp]:
  "busState (snd (turn_bus s)) = turned s" "busStateNext (snd (turn_bus s)) = turned s"
  "nextReqEvent (snd (turn_bus s)) = nextReqEvent s" "readQueue (snd (turn_bus s)) = readQueue s"
  "writeQueue (snd (turn_bus s)) = writeQueue s" "respQueue (snd (turn_bus s)) = respQueue s"
  "dram_st (snd (turn_bus s)) = dram_st s" "totalReadQueueSize (snd (turn_bus s)) = totalReadQueueSize s"
  "totalWriteQueueSize (snd (turn_bus s)) = totalWriteQueueSize s"
  by (simp_all add: turn_bus_def turned_def recordTurnaroundStats_def Let_def split: bus_state.split)

lemma ctrl_busy_ok:
  assumes D: "dram_only c d k" and good: "dram_good d (ranks (dram_st s))"
  shows "ctrl_busy c now s = Inr (False, s)"
proof -
  note cfg = dram_onlyD[OF D]
  have "busy_ranks d v now rs = Inr (0, rs)" if "\<forall>r \<in> set rs. good_rank d r" for rs v
    using that by (induction rs) (simp_all add: rank_busy_def good_rank_def inRefIdleState_def)
  then have b: "busy_ranks d v now (ranks (dram_st s)) = Inr (0, ranks (dram_st s))" for v
    using good by (simp add: dram_good_def)
  have "isBusy d (ctrl_view.truncate s) now (dram_st s) = Inr (False, dram_st s)"
    using cfg(12) by (simp add: isBusy_def b)
  then show ?thesis by (simp add: ctrl_busy_def cfg(2,3))
qed

lemma next_event_ok:
  obtains s' where "next_event c now s = Inr s'" "serving c d k s' = serving c d k s" "\<And>s0. apart s0 s' = apart s0 s"
    "nextReqEvent s' \<noteq> None" "busStateNext s' = busStateNext s" "readQueue s' = readQueue s" "writeQueue s' = writeQueue s"
    "respQueue s' = respQueue s" "totalWriteQueueSize s' = totalWriteQueueSize s" "turnPolicy s' = turnPolicy s"
proof -
  obtain ev where ev: "(if nextReqEvent s = None
            then rbind (schedule now (max (nextReqTime s) now) (nextReqEvent s)) (\<lambda>ev. Inr (s\<lparr>nextReqEvent := ev\<rparr>))
            else Inr s) = Inr (s\<lparr>nextReqEvent := Some ev\<rparr>)"
  proof (cases "nextReqEvent s")
    case None
    then show thesis using that by (simp add: schedule_def)
  next
    case (Some t)
    have "s\<lparr>nextReqEvent := nextReqEvent s\<rparr> = s" by simp
    then show thesis using that[of t] unfolding Some by simp
  qed
  let ?s = "s\<lparr>nextReqEvent := Some ev\<rparr>"
  let ?s' = "if retryWrReq ?s \<and> totalWriteQueueSize ?s < ctrlWriteBufferSize c
    then ?s\<lparr>retryWrReq := False, retriesSent := retriesSent ?s + 1\<rparr> else ?s"
  have "next_event c now s = Inr ?s'" unfolding next_event_def ev rbind_simps by (rule refl)
  then show thesis by (rule that) simp_all
qed

text \<open>What the event does, when it starts with the bus turned to \<open>dir\<close>.\<close>

definition idle :: "'d mem_ctrl \<Rightarrow> 'd mem_ctrl \<Rightarrow> bool" where
  "idle s s' \<longleftrightarrow> contents (readQueue s') = contents (readQueue s) \<and> extents (writeQueue s') = extents (writeQueue s) \<and>
     respQueue s' = respQueue s"

definition event_done :: "tick \<Rightarrow> bus_state \<Rightarrow> 'd mem_ctrl \<Rightarrow> 'd mem_ctrl \<Rightarrow> bool" where
  "event_done t dir s s' \<longleftrightarrow>
     (case dir of
        READ \<Rightarrow> if totalReadQueueSize s = 0 then idle s s' else read_served t s s' \<and> nextReqEvent s' \<noteq> None
      | WRITE \<Rightarrow> if totalWriteQueueSize s = 0 then idle s s' else write_served s s' \<and> nextReqEvent s' \<noteq> None)"

lemma read_branch_ok:
  assumes D: "dram_only c d k" and S: "serving c d k s" and tm: "in_time c d now (ranks (dram_st s))" and b: "busStateNext s = READ"
  obtains go s' where "read_branch c now sw all_nvm s = Inr (go, s')" "serving c d k s'" "apart s s'" "bus_ok s'"
    "if totalReadQueueSize s = 0 then idle s s' else go \<and> read_served (now + tCL d + tBURST d) s s'"
proof (cases "totalReadQueueSize s = 0")
  case True
  let ?s = "if drainState s = Draining \<and> respQueue s = [] \<and> allIntfDrained c s then signalDrainDone s else s"
  have x: "serving c d k ?s" "apart s ?s" "bus_ok ?s" "idle s ?s"
    using S b by (simp_all add: signalDrainDone_def bus_ok_def idle_def)
  show thesis
  proof (cases "totalWriteQueueSize s \<noteq> 0 \<and> (drainState s = Draining \<or> writeLowThreshold c < totalWriteQueueSize s)")
    case w: True
    show thesis
      by (rule that[of True "s\<lparr>busStateNext := WRITE\<rparr>"])
        (use S w True in \<open>simp_all add: read_branch_def bus_ok_def idle_def\<close>)
  next
    case False
    then have "read_branch c now sw all_nvm s = Inr (False, ?s)" using True by (simp add: read_branch_def)
    then show thesis using x True by (intro that[of False ?s]) simp_all
  qed
next
  case False
  have inv: "ctrl_inv c k s" and good: "dram_good d (ranks (dram_st s))" using S by (simp_all add: serving_def)
  note I = ctrl_invD[OF inv]
  let ?dl = "if sw then ctrl_gap minWriteToReadDataGap minWriteToReadDataGap c else 0"
  obtain p i where c: "choose_prio c now (readQueue s) ?dl s (prios_down (readQueue s)) = Inr (Some (p, i))"
    "p < length (readQueue s)" "i < length (readQueue s ! p)"
  proof (rule choose_any[OF D good I(10) tm, of ?dl])
    assume "sum_list (map length (readQueue s)) = 0"
    then show thesis using False qos_invD(9)[OF I(1)] by simp
  qed (rule that)
  obtain b' s1 where s1: "serve_read c now all_nvm p i s = Inr (b', s1)" "serving c d k s1" "apart s s1"
    "read_served (now + tCL d + tBURST d) s s1" "busStateNext s1 = busStateNext s" "b' \<longrightarrow> 0 < totalWriteQueueSize s1"
    by (rule serve_read_ok[OF D S c(2,3), of now all_nvm], rule that)
  let ?s' = "if b' then s1\<lparr>busStateNext := WRITE\<rparr> else s1"
  have "read_branch c now sw all_nvm s = Inr (True, ?s')"
    using False c(1) s1(1) by (simp add: read_branch_def)
  moreover have "serving c d k ?s'" "apart s ?s'" "bus_ok ?s'" "read_served (now + tCL d + tBURST d) s ?s'"
    using s1(2-6) b by (simp_all add: bus_ok_def read_served_def)
  ultimately show thesis using False by (intro that[of True ?s']) simp_all
qed

lemma write_branch_ok:
  assumes D: "dram_only c d k" and S: "serving c d k s" and tm: "in_time c d now (ranks (dram_st s))"
    and w: "busStateNext s = READ \<or> 0 < totalWriteQueueSize s \<or> turnPolicy s"
  obtains go s' where "write_branch c now sw all_nvm s = Inr (go, s')" "serving c d k s'" "apart s s'" "bus_ok s'"
    "if totalWriteQueueSize s = 0 then idle s s' else go \<and> write_served s s'"
proof -
  have inv: "ctrl_inv c k s" and good: "dram_good d (ranks (dram_st s))" using S by (simp_all add: serving_def)
  note I = ctrl_invD[OF inv]
  note tot = qos_invD(10)[OF I(1)]
  let ?dl = "if sw then ctrl_gap minReadToWriteDataGap minReadToWriteDataGap c else 0"
  show thesis
  proof (rule choose_any[OF D good I(11) tm, of ?dl])
    assume c: "choose_prio c now (writeQueue s) ?dl s (prios_down (writeQueue s)) = Inr None" "sum_list (map length (writeQueue s)) = 0"
    have z: "totalWriteQueueSize s = 0" using c(2) tot by simp
    show thesis
      by (rule that[of False s]) (use c(1) S w z in \<open>auto simp add: write_branch_def idle_def bus_ok_def\<close>)
  next
    fix p i assume c: "choose_prio c now (writeQueue s) ?dl s (prios_down (writeQueue s)) = Inr (Some (p, i))"
      "p < length (writeQueue s)" "i < length (writeQueue s ! p)"
    obtain s1 where s1: "serve_write c now p i s = Inr s1" "serving c d k s1" "apart s s1" "write_served s s1"
      "busStateNext s1 = busStateNext s" "Suc (totalWriteQueueSize s1) = totalWriteQueueSize s"
      by (rule serve_write_ok[OF D S c(2,3), of now], rule that)
    let ?C = "totalWriteQueueSize s1 = 0 \<or>
                   (totalWriteQueueSize s1 + minWritesPerSwitch c < writeLowThreshold c \<and> drainState s1 \<noteq> Draining) \<or>
                   (totalReadQueueSize s1 \<noteq> 0 \<and> minWritesPerSwitch c \<le> writesThisTime s1) \<or>
                   (totalReadQueueSize s1 \<noteq> 0 \<and> nvm_writes_full c s1 \<and> all_nvm)"
    let ?s' = "if ?C then s1\<lparr>busStateNext := READ\<rparr> else s1"
    have "write_branch c now sw all_nvm s = Inr (True, ?s')"
      using c(1) s1(1) by (simp add: write_branch_def Let_def)
    moreover have "serving c d k ?s'" "apart s ?s'" "bus_ok ?s'" "write_served s ?s'"
      using s1(2-4) by (auto simp add: bus_ok_def write_served_def)
    ultimately show thesis using s1(6) by (intro that[of True ?s']) simp_all
  qed
qed

lemma request_event_ok:
  assumes D: "dram_only c d k" and S: "serving c d k s" and B: "bus_ok s" and tm: "in_time c d now (ranks (dram_st s))"
  obtains s' where "processNextReqEvent c now s = Inr s'" "serving c d k s'" "apart s s'" "bus_ok s'"
    "event_done (now + tCL d + tBURST d) (turned s) s s'"
proof -
  note cfg = dram_onlyD[OF D]
  obtain sw s1 where t: "turn_bus s = (sw, s1)" by (cases "turn_bus s")
  note ts = turn_bus_serving(1)[of c d k s, unfolded t snd_conv] turn_bus_serving(2)[of s, unfolded t snd_conv]
    turn_bus_simps[of s, unfolded t snd_conv]
  have S1: "serving c d k s1" using S ts(1) by simp
  have good: "dram_good d (ranks (dram_st s1))" using S1 by (simp add: serving_def)
  have tm1: "in_time c d now (ranks (dram_st s1))" using tm ts(9) by simp
  let ?all = "all_writes_nvm c s1"
  let ?br = "if busState s1 = READ then read_branch c now sw ?all s1 else write_branch c now sw ?all s1"
  have run: "processNextReqEvent c now s = rbind ?br (\<lambda>(go_on, s4). if go_on then next_event c now s4 else Inr s4)"
    by (simp add: processNextReqEvent_def t cfg(3) ctrl_busy_ok[OF D good])
  have inv: "ctrl_inv c k s" using S by (simp add: serving_def)
  obtain go s2 where br: "?br = Inr (go, s2)" "serving c d k s2" "apart s1 s2" "bus_ok s2"
    "case turned s of READ \<Rightarrow> if totalReadQueueSize s1 = 0 then idle s1 s2 else go \<and> read_served (now + tCL d + tBURST d) s1 s2
       | WRITE \<Rightarrow> if totalWriteQueueSize s1 = 0 then idle s1 s2 else go \<and> write_served s1 s2"
  proof (cases "turned s")
    case READ
    show thesis
      by (rule read_branch_ok[OF D S1 tm1, of sw ?all]) (use READ ts in \<open>auto intro: that\<close>)
  next
    case WRITE
    have w: "busStateNext s1 = READ \<or> 0 < totalWriteQueueSize s1 \<or> turnPolicy s1"
      using B WRITE ts(2,4,11) by (auto simp: bus_ok_def turned_def apart_def split: if_splits)
    show thesis
      by (rule write_branch_ok[OF D S1 tm1 w, of sw ?all]) (use WRITE ts in \<open>auto intro: that\<close>)
  qed
  obtain s' where nx: "(if go then next_event c now s2 else Inr s2) = Inr s'" "serving c d k s'" "apart s1 s'" "bus_ok s'"
    "go \<longrightarrow> nextReqEvent s' \<noteq> None" "readQueue s' = readQueue s2" "writeQueue s' = writeQueue s2" "respQueue s' = respQueue s2"
  proof (cases go)
    case True
    show thesis
      by (rule next_event_ok[of c now s2 d k]) (use True br(2-4) in \<open>auto simp: bus_ok_def intro: that\<close>)
  next
    case False
    then show thesis using br(2-4) by (intro that[of s2]) simp_all
  qed
  have "processNextReqEvent c now s = Inr s'" unfolding run br(1) rbind_simps prod.case by (rule nx(1))
  moreover have "apart s s'" by (rule apart_trans[OF ts(2) nx(3)])
  moreover have "event_done (now + tCL d + tBURST d) (turned s) s s'"
    using br(5) nx(5-8) ts(6-8,10,11) by (auto simp: event_done_def idle_def read_served_def write_served_def split: bus_state.splits if_splits)
  ultimately show thesis using that nx(2,4) by blast
qed

end
