(* ===== verification/Mem_Ctrl_Reads.thy ===== *)
theory Mem_Ctrl_Reads
  imports Mem_Ctrl_Serve
begin

text \<open>
  The reads of a controller with DRAM only, from their arrival to their answer. \<open>flight\<close> (of
  \<open>Mem_Ctrl_Serve\<close>) is the bursts in the read queue and in the response queue; \<open>reads_ok\<close> says that the
  bursts of one read share a helper (\<open>BurstHelper\<close>) that no other read has, which has counted the bursts
  already served. \<open>read_taken_ok\<close> keeps it when a read is taken, \<open>respond_event_ok\<close> and \<open>popped_reads\<close>
  when \<open>processRespondEvent\<close> answers a burst. The last part is the events of the ranks between two refreshes.
\<close>

section \<open>Arrivals\<close>

lemma good_entries: "good_rank c (r\<lparr>readEntries := i, writeEntries := j\<rparr>) = good_rank c r"
  by (simp add: good_rank_def rank_ok_def act_hist_def acts_def open_banks_def)

lemma rank_inv_entries: "rank_inv (r\<lparr>readEntries := i, writeEntries := j\<rparr>) n = rank_inv r n"
  by (simp add: rank_inv_def pending_def)

lemma settled_same:
  assumes "settled x = settled y"
  shows "dram_good c (ranks x) = dram_good c (ranks y)" "counted (ranks x) n = counted (ranks y) n"
    "timely c (ranks x) q = timely c (ranks y) q"
proof -
  let ?f = "\<lambda>r. r\<lparr>readEntries := 0, writeEntries := 0\<rparr> :: dram_rank"
  note l = settled_length[OF assms]
  have m: "map ?f (ranks x) = map ?f (ranks y)" using assms by (simp add: settled_def)
  have st: "?f ` set (ranks x) = ?f ` set (ranks y)" using m by (metis set_map)
  have ith: "?f (ranks x ! j) = ?f (ranks y ! j)" if "j < length (ranks x)" for j using m l that by (metis nth_map)
  have g: "(\<forall>r \<in> set (ranks z). good_rank c r) \<longleftrightarrow> (\<forall>r \<in> ?f ` set (ranks z). good_rank c r)" for z
    by (simp add: good_entries)
  show "dram_good c (ranks x) = dram_good c (ranks y)" unfolding dram_good_def g st l by (rule refl)
  show "counted (ranks x) n = counted (ranks y) n"
    unfolding counted_def l by (intro all_cong1 imp_cong refl) (metis ith l rank_inv_entries)
  have c: "col_ready (ranks z) t \<longleftrightarrow> (\<forall>r \<in> ?f ` set (ranks z). \<forall>b \<in> set (banks r). t \<le> rdAllowedAt b \<and> t \<le> wrAllowedAt b)" for z t
    by (simp add: col_ready_def)
  show "timely c (ranks x) q = timely c (ranks y) q" unfolding timely_def c st by (rule refl)
qed

lemma untouched_serving:
  assumes "untouched s s'" and "serving c d k s" and "ctrl_inv c k s'"
  shows "serving c d k s'"
  using assms settled_same[of "dram_st s'" "dram_st s"] by (auto simp: untouched_def serving_def answers_due_def)

lemma untouched_bus:
  assumes "untouched s s'" and "bus_ok s" and "ctrl_inv c k s" and "ctrl_inv c k s'"
    and "size (extents (writeQueue s)) \<le> size (extents (writeQueue s'))"
  shows "bus_ok s'"
proof -
  have "totalWriteQueueSize s \<le> totalWriteQueueSize s'" using assms(5) by (simp only: ctrl_invD(9)[OF assms(3)] ctrl_invD(9)[OF assms(4)])
  then show ?thesis using assms(1,2) by (auto simp: untouched_def bus_ok_def)
qed

text \<open>The bursts of each read on their way share a helper of its own, or there is one without.\<close>

type_synonym due = "nat \<times> nat option \<times> addr \<times> nat"

definition bursts_due :: "'d mem_ctrl \<Rightarrow> nat \<Rightarrow> due multiset" where
  "bursts_due s n = filter_mset (\<lambda>x. fst x = n) (flight s)"

definition grouped :: "(nat \<Rightarrow> (nat \<times> nat) option) \<Rightarrow> nat \<Rightarrow> due multiset \<Rightarrow> bool" where
  "grouped hs n M \<longleftrightarrow> M = {#} \<or> (\<exists>e. M = {#(n, None, e)#}) \<or>
     (\<exists>h cnt sv. (\<forall>x \<in># M. fst (snd x) = Some h) \<and> hs h = Some (cnt, sv) \<and> sv + size M = cnt)"

definition own_helpers :: "nat \<Rightarrow> due multiset \<Rightarrow> bool" where
  "own_helpers i M \<longleftrightarrow> (\<forall>x \<in># M. \<forall>y \<in># M. \<forall>h. fst (snd x) = Some h \<and> fst (snd y) = Some h \<longrightarrow> fst x = fst y) \<and>
     (\<forall>x \<in># M. \<forall>h. fst (snd x) = Some h \<longrightarrow> h < i)"

definition servable :: "ctrl_cfg \<Rightarrow> 'd mem_ctrl \<Rightarrow> nat \<Rightarrow> bool" where
  "servable c s n \<longleftrightarrow> mem_serves c (sysPackets s n) s \<and> isRead (sysPackets s n)"

definition reads_ok :: "ctrl_cfg \<Rightarrow> 'd mem_ctrl \<Rightarrow> bool" where
  "reads_ok c s \<longleftrightarrow> (\<forall>x \<in># flight s. servable c s (fst x)) \<and> (\<forall>n. grouped (helpers s) n (bursts_due s n)) \<and>
     own_helpers (nextHelper s) (flight s)"

lemma bursts_due_empty: "bursts_due s n = {#} \<longleftrightarrow> (\<forall>x \<in># flight s. fst x \<noteq> n)"
  unfolding bursts_due_def by (auto simp: filter_mset_eq_conv)

lemma grouped_cong:
  assumes "grouped hs n M" and "\<And>x h. x \<in># M \<Longrightarrow> fst (snd x) = Some h \<Longrightarrow> hs' h = hs h"
  shows "grouped hs' n M"
proof (cases "M = {#}")
  case False
  then obtain x where x: "x \<in># M" by blast
  show ?thesis
  proof (cases "\<exists>e. M = {#(n, None, e)#}")
    case no: False
    then obtain h cnt sv where "\<forall>x \<in># M. fst (snd x) = Some h" "hs h = Some (cnt, sv)" "sv + size M = cnt"
      using assms(1) False unfolding grouped_def by blast
    then show ?thesis using assms(2)[OF x, of h] x unfolding grouped_def by auto
  qed (simp add: grouped_def)
qed (simp add: grouped_def)

lemma mem_serves_qos [simp]: "mem_serves c (pkt\<lparr>pk_qos := q\<rparr>) s = mem_serves c pkt s"
  by (simp add: mem_serves_def plain_request_def)

lemma mem_serves_same:
  "am_subset (dram_mem s') = am_subset (dram_mem s) \<Longrightarrow> am_subset (nvm_mem s') = am_subset (nvm_mem s) \<Longrightarrow>
   mem_serves c pkt s' = mem_serves c pkt s"
  by (simp add: mem_serves_def)

lemma servable_cong:
  "am_subset (dram_mem s') = am_subset (dram_mem s) \<Longrightarrow> am_subset (nvm_mem s') = am_subset (nvm_mem s) \<Longrightarrow>
   sysPackets s' n = sysPackets s n \<Longrightarrow> servable c s' n = servable c s n"
  using mem_serves_same[of s' s c "sysPackets s n"] unfolding servable_def by simp

lemma reads_ok_cong:
  assumes "reads_ok c s" and "flight s' = flight s" and "\<forall>x \<in># flight s. sysPackets s' (fst x) = sysPackets s (fst x)"
    and "am_subset (dram_mem s') = am_subset (dram_mem s)" and "am_subset (nvm_mem s') = am_subset (nvm_mem s)"
    and "helpers s' = helpers s" and "nextHelper s' = nextHelper s"
  shows "reads_ok c s'"
proof -
  have "\<forall>x \<in># flight s. servable c s' (fst x)"
    using assms(1,3) servable_cong[OF assms(4,5)] unfolding reads_ok_def by simp
  then show ?thesis using assms(1) unfolding reads_ok_def bursts_due_def assms(2,6,7) by simp
qed

text \<open>A read that was taken joins with a helper of its own.\<close>

lemma read_taken_ok:
  assumes T: "read_taken c k n pkt s s'" and R: "reads_ok c s" and new: "bursts_due s n = {#}"
    and m: "mem_serves c pkt s" and rd: "isRead pkt"
  shows "reads_ok c s'" "bursts_due s' n = {#} \<longleftrightarrow> uncovered k pkt s = []" "\<And>x. x \<noteq> n \<Longrightarrow> bursts_due s' x = bursts_due s x"
proof -
  let ?miss = "uncovered k pkt s" and ?cnt = "length (bursts_of k pkt)"
  define sp where "sp = (1 < ?cnt \<and> ?miss \<noteq> [])"
  let ?h = "if sp then Some (nextHelper s) else None"
  let ?N = "mset (map (\<lambda>e. (n, ?h, e)) ?miss)"
  note t = T[unfolded read_taken_def Let_def, folded sp_def]
  have u: "untouched s s'" and c1: "contents (readQueue s') = contents (readQueue s) + ?N"
    and hp: "helpers s' = (if sp then (helpers s)(nextHelper s \<mapsto> (?cnt, ?cnt - length ?miss)) else helpers s)"
    and nh: "nextHelper s' = (if sp then nextHelper s + 1 else nextHelper s)"
    and sy: "?miss \<noteq> [] \<longrightarrow> sysPackets s' n = pkt" "\<forall>x. x \<noteq> n \<longrightarrow> sysPackets s' x = sysPackets s x" using t by blast+
  have fl: "flight s' = flight s + ?N" using c1 u by (simp add: flight_def untouched_def)
  have nn: "\<forall>x \<in># flight s. fst x \<noteq> n" using new bursts_due_empty by blast
  have due: "bursts_due s' x = (if x = n then ?N else bursts_due s x)" for x
  proof -
    have "bursts_due s' x = bursts_due s x + filter_mset (\<lambda>y. fst y = x) ?N" by (simp add: bursts_due_def fl)
    moreover have "filter_mset (\<lambda>y. fst y = x) (mset (map (\<lambda>e. (n, ?h, e)) l)) =
        (if x = n then mset (map (\<lambda>e. (n, ?h, e)) l) else {#})" for l by (induction l) auto
    from this[of ?miss] have "filter_mset (\<lambda>y. fst y = x) ?N = (if x = n then ?N else {#})" .
    ultimately show ?thesis using new by (cases "x = n") simp_all
  qed
  show "bursts_due s' n = {#} \<longleftrightarrow> uncovered k pkt s = []" "\<And>x. x \<noteq> n \<Longrightarrow> bursts_due s' x = bursts_due s x"
    by (simp_all add: due)
  have le: "length ?miss \<le> ?cnt" by (simp add: uncovered_def)
  have r: "\<forall>x \<in># flight s. servable c s (fst x)" "\<And>n. grouped (helpers s) n (bursts_due s n)" "own_helpers (nextHelper s) (flight s)"
    using R unfolding reads_ok_def by blast+
  have sv: "servable c s' x = servable c s x" if "x \<noteq> n" for x
    using u sy(2) that by (intro servable_cong) (simp_all add: untouched_def)
  have svn: "servable c s' n" if "?miss \<noteq> []"
    using u sy(1) that m rd mem_serves_same[of s' s c pkt] by (simp add: untouched_def servable_def)
  have inN: "fst x = n \<and> fst (snd x) = ?h \<and> ?miss \<noteq> []" if "x \<in># ?N" for x using that by auto
  have old: "\<forall>h. fst (snd x) = Some h \<longrightarrow> h < nextHelper s" if "x \<in># flight s" for x
    using r(3) that unfolding own_helpers_def by blast
  show "reads_ok c s'"
    unfolding reads_ok_def
  proof (intro conjI ballI allI)
    fix x assume "x \<in># flight s'"
    then show "servable c s' (fst x)" using r(1) nn sv inN[of x] svn unfolding fl by auto
  next
    show "own_helpers (nextHelper s') (flight s')"
      unfolding own_helpers_def
    proof (intro conjI ballI allI impI)
      fix x y h assume x: "x \<in># flight s'" "y \<in># flight s'" "fst (snd x) = Some h \<and> fst (snd y) = Some h"
      have o: "h \<noteq> nextHelper s" if "x \<in># flight s \<or> y \<in># flight s" using old x(3) that by blast
      have n: "h = nextHelper s" if "x \<in># ?N \<or> y \<in># ?N" using inN x(3) that by (metis option.distinct(1) option.inject)
      show "fst x = fst y"
        using x o n inN r(3) unfolding fl own_helpers_def by (metis union_iff)
    next
      fix x h assume x: "x \<in># flight s'" "fst (snd x) = Some h"
      then show "h < nextHelper s'" using old[of x] inN[of x] unfolding fl nh by (auto split: if_splits intro: less_SucI)
    qed
  next
    fix x
    show "grouped (helpers s') x (bursts_due s' x)"
    proof (cases "x = n")
      case True
      show ?thesis
      proof (cases sp)
        case spT: True
        have "\<forall>y \<in># ?N. fst (snd y) = Some (nextHelper s)" using spT by auto
        moreover have "helpers s' (nextHelper s) = Some (?cnt, ?cnt - length ?miss)" using hp spT by simp
        moreover have "?cnt - length ?miss + size ?N = ?cnt" using le by simp
        ultimately show ?thesis unfolding due if_P[OF True] grouped_def by blast
      next
        case False
        then have l1: "length ?miss \<le> 1" using le unfolding sp_def by (metis (no_types) le_trans list.size(3) not_le_imp_less zero_le)
        have "?miss = [] \<or> (\<exists>e. ?miss = [e])" using l1 by (cases ?miss) auto
        then have "?N = {#} \<or> (\<exists>e. ?N = {#(n, None, e)#})" using False by auto
        then show ?thesis unfolding due True if_P[OF refl] grouped_def by blast
      qed
    next
      case False
      show ?thesis
        unfolding due if_not_P[OF False]
      proof (rule grouped_cong[OF r(2)])
        fix y h assume y: "y \<in># bursts_due s x" "fst (snd y) = Some h"
        then have "y \<in># flight s" by (simp add: bursts_due_def)
        then have "h < nextHelper s" using old y(2) by blast
        then show "helpers s' h = helpers s h" by (simp add: hp)
      qed
    qed
  qed
qed

section \<open>The response event\<close>

lemma rank_respond_ok:
  assumes g: "good_rank d r" and i: "rank_inv r (n + 1)" and pd: "\<not> enableDRAMPowerdown d" and n: "n \<le> 252"
  obtains r' where "rank_respond d v now r = Inr r'" "good_rank d r'" "rank_inv r' n" "banks r' = banks r"
proof -
  have st: "refreshState r = REF_IDLE" using g by (simp add: good_rank_def)
  then have "pending r (n + 1) < 256" "pending r (n + 1) \<noteq> 0" using n by (simp_all add: pending_def of_bool_def)
  then have "0 < outstandingEvents r" using i by (simp add: rank_inv_def)
  moreover have "pwrState r \<noteq> PWR_SREF \<and> pwrState r \<noteq> PWR_PRE_PDN \<and> pwrState r \<noteq> PWR_ACT_PDN"
    using i by (auto simp: rank_inv_def awake_state_def)
  ultimately have run: "rank_respond d v now r = Inr (r\<lparr>readEntries := dec32 (readEntries r), outstandingEvents := dec8 (outstandingEvents r)\<rparr>)"
    using pd by (simp add: rank_respond_def Let_def)
  have "good_rank d (r\<lparr>readEntries := a, outstandingEvents := b\<rparr>) = good_rank d r" for a b
    by (simp add: good_rank_def rank_ok_def act_hist_def acts_def open_banks_def)
  then show thesis using g that[OF run] respond_inv[OF i pd run] by simp
qed

lemma timely_banks:
  assumes "j < length rs" and "banks r' = banks (rs ! j)"
  shows "timely d (rs[j := r']) l = timely d rs l"
proof -
  have "map banks (rs[j := r']) = map banks rs" using assms by (simp add: map_update list_update_same_conv)
  then have b: "banks ` set (rs[j := r']) = banks ` set rs" by (metis set_map)
  have c: "col_ready rs t \<longleftrightarrow> (\<forall>bs \<in> banks ` set rs. \<forall>b \<in> set bs. t \<le> rdAllowedAt b \<and> t \<le> wrAllowedAt b)" for rs t
    by (simp add: col_ready_def)
  show ?thesis unfolding timely_def c using b by simp
qed

text \<open>The ranks after the interface was told of the answer.\<close>

lemma tell_rank_ok:
  assumes D: "dram_only c d k" and S: "serving c d k s" and q: "respQueue s = p # q"
  obtains dr where "respondEvent_dram d v now (mp_rank p) (dram_st s) = Inr dr" "dram_good d (ranks dr)"
    "counted (ranks dr) (\<lambda>j. reads_on j q)" "\<And>l. timely d (ranks dr) l = timely d (ranks (dram_st s)) l"
proof -
  note cfg = dram_onlyD[OF D]
  let ?rs = "ranks (dram_st s)" and ?j = "mp_rank p"
  have inv: "ctrl_inv c k s" and good: "dram_good d ?rs" and cnt: "counted ?rs (\<lambda>j. reads_on j (respQueue s))"
    and pl: "placed c p" using S q by (simp_all add: serving_def answers_due_def)
  have j: "?j < length ?rs" using placed_dram(2)[OF D pl] good by (simp add: packet_ok_def dram_good_def)
  have g: "good_rank d (?rs ! ?j)" using good j by (simp add: dram_good_def)
  have "rank_inv (?rs ! ?j) (reads_on ?j (p # q))" using cnt j q unfolding counted_def by metis
  then have i: "rank_inv (?rs ! ?j) (reads_on ?j q + 1)" by (simp add: reads_on_def)
  have "reads_on ?j q \<le> length q" by (simp add: reads_on_def)
  then have n: "reads_on ?j q \<le> 252" using ctrl_invD(4)[OF inv] cfg(9) q by simp
  obtain r' where r': "rank_respond d v now (?rs ! ?j) = Inr r'" "good_rank d r'" "rank_inv r' (reads_on ?j q)"
    "banks r' = banks (?rs ! ?j)" by (rule rank_respond_ok[OF g i cfg(6) n, of v now])
  let ?dr = "(dram_st s)\<lparr>ranks := ?rs[?j := r']\<rparr>"
  have "dram_good d (ranks ?dr)" using dram_good_update[OF good r'(2)] by simp
  moreover have "counted (ranks ?dr) (\<lambda>j. reads_on j q)"
    unfolding counted_def
  proof (intro allI impI)
    fix i assume "i < length (ranks ?dr)"
    then have l: "i < length ?rs" by simp
    then have "rank_inv (?rs ! i) (reads_on i (p # q))" using cnt q unfolding counted_def by metis
    then show "rank_inv (ranks ?dr ! i) (reads_on i q)"
      using r'(3) l by (cases "i = ?j") (simp_all add: nth_list_update reads_on_def)
  qed
  moreover have "timely d (ranks ?dr) l = timely d ?rs l" for l using timely_banks[OF j r'(4)] by simp
  moreover have "respondEvent_dram d v now ?j (dram_st s) = Inr ?dr"
    using j r'(1) by (simp add: respondEvent_dram_def on_rank_def)
  ultimately show thesis by (intro that)
qed

lemma after_response_ok:
  assumes D: "dram_only c d k" and good: "dram_good d (ranks (dram_st s))" and q: "\<forall>p' \<in> set (respQueue s). now \<le> readyTime p'"
    and ev: "respondEvent s = None" and pl: "placed c p"
  defines "X \<equiv> (case respQueue s of [] \<Rightarrow> None | p # _ \<Rightarrow> Some (readyTime p))"
  shows "after_response c now p s \<in> {Inr (s\<lparr>respondEvent := X\<rparr>), Inr (s\<lparr>respondEvent := X, drainState := Drained\<rparr>)}"
proof (cases "respQueue s")
  case Nil
  have j: "mp_rank p < length (ranks (dram_st s))" "mp_dram p"
    using placed_dram(1,2)[OF D pl] good by (simp_all add: packet_ok_def dram_good_def)
  then have "refreshState (ranks (dram_st s) ! mp_rank p) = REF_IDLE" using good by (simp add: dram_good_def good_rank_def)
  then have "checkRefreshState now (mp_rank p) (dram_st s) = Inr (dram_st s)"
    using j by (simp add: checkRefreshState_def on_rank_def rank_check_refresh_def)
  moreover have "s\<lparr>respondEvent := respondEvent s\<rparr> = s" by simp
  then have "s\<lparr>respondEvent := X\<rparr> = s" using Nil by (simp add: X_def ev)
  ultimately show ?thesis using Nil j(2) by (simp add: after_response_def signalDrainDone_def)
next
  case (Cons p' q')
  then show ?thesis using q ev by (simp add: after_response_def schedule_def X_def)
qed

text \<open>The packet of the burst is answered when it was the last of its bursts.\<close>

lemma respond_packet_ok:
  assumes R: "reads_ok c s" and q: "respQueue s = p # q" 
    and f1: "helpers s1 = helpers s" "responsesSent s1 = responsesSent s" "dram_mem s1 = dram_mem s" "nvm_mem s1 = nvm_mem s"
    "sysPackets s1 = sysPackets s"
  defines "n \<equiv> mp_pkt p" and "x \<equiv> (mp_pkt p, mp_helper p, extent p)"
  obtains s2 where "respond_packet c now p s1 = Inr s2"
    "\<exists>m1 m2 sp rs hs. s2 = s1\<lparr>dram_mem := m1, nvm_mem := m2, sysPackets := sp, responsesSent := rs, helpers := hs\<rparr>"
    "am_subset (dram_mem s2) = am_subset (dram_mem s)" "am_subset (nvm_mem s2) = am_subset (nvm_mem s)"
    "map fst (responsesSent s2) = map fst (responsesSent s) @ (if bursts_due s n = {#x#} then [n] else [])"
    "\<And>y. y \<noteq> n \<or> bursts_due s n \<noteq> {#x#} \<Longrightarrow> sysPackets s2 y = sysPackets s y"
    "\<And>h. mp_helper p \<noteq> Some h \<Longrightarrow> helpers s2 h = helpers s h" "grouped (helpers s2) n (bursts_due s n - {#x#})"
proof -
  have xf: "x \<in># flight s" using q by (simp add: flight_def x_def)
  have xn: "x \<in># bursts_due s n" using xf by (simp add: bursts_due_def x_def n_def)
  have r: "servable c s n" "grouped (helpers s) n (bursts_due s n)" using R xf unfolding reads_ok_def x_def n_def by force+
  have m1: "mem_serves c (sysPackets s n) s1" "sysPackets s1 n = sysPackets s n"
  proof -
    have "am_subset (dram_mem s1) = am_subset (dram_mem s)" "am_subset (nvm_mem s1) = am_subset (nvm_mem s)" by (simp_all only: f1)
    from mem_serves_same[OF this] show "mem_serves c (sysPackets s n) s1" using r(1) unfolding servable_def by blast
    show "sysPackets s1 n = sysPackets s n" by (simp only: f1)
  qed
  have pr: "plain_request (sysPackets s n)" "isRead (sysPackets s n)" using r(1) by (simp_all add: servable_def mem_serves_def)
  have nr: "needsResponse (sysPackets s n)" using plain_request_kind(3)[OF pr] .
  show thesis
  proof (cases "mp_helper p")
    case None
    then have "bursts_due s n = {#x#}"
      using r(2) xn unfolding grouped_def by (auto simp: x_def)
    note one = this
    let ?l = "respond_latency c p s1"
    obtain s2 where s2: "accessAndRespond c now n ?l s1 = Inr s2" "answered (now + ?l) n (sysPackets s n) s1 s2"
      by (rule accessAndRespond_ok[OF m1, of now ?l], rule that)
    note ad = answeredD[OF s2(2)]
    obtain a b e l where e: "s2 = s1\<lparr>dram_mem := a, nvm_mem := b, sysPackets := (sysPackets s1)(n := e), responsesSent := responsesSent s1 @ l\<rparr>"
      using s2(2) unfolding answered_def by (elim exE conjE) (rule that)
    have ex: "s2 = s1\<lparr>dram_mem := a, nvm_mem := b, sysPackets := (sysPackets s1)(n := e), responsesSent := responsesSent s1 @ l, helpers := helpers s1\<rparr>"
      by (simp add: e)
    have run: "respond_packet c now p s1 = Inr s2"
      using s2(1) None unfolding respond_packet_def n_def by simp
    show thesis
    proof (rule that[OF run])
      show "\<exists>m1 m2 sp rs hs. s2 = s1\<lparr>dram_mem := m1, nvm_mem := m2, sysPackets := sp, responsesSent := rs, helpers := hs\<rparr>"
        using ex by blast
    qed (use ad nr one f1 in \<open>simp_all add: grouped_def\<close>)
  next
    case (Some h)
    have nN: "\<not> (\<exists>e. bursts_due s n = {#(n, None, e)#})" using xn Some by (auto simp: x_def)
    obtain cnt sv where hh: "\<forall>y \<in># bursts_due s n. fst (snd y) = Some h" "helpers s h = Some (cnt, sv)" "sv + size (bursts_due s n) = cnt"
    proof -
      obtain h' cnt sv where "\<forall>y \<in># bursts_due s n. fst (snd y) = Some h'" "helpers s h' = Some (cnt, sv)" "sv + size (bursts_due s n) = cnt"
        using r(2) nN xn unfolding grouped_def by (metis empty_iff set_mset_empty)
      moreover have "h' = h" using calculation(1) xn Some by (auto simp: x_def)
      ultimately show thesis using that by blast
    qed
    have sz: "size (bursts_due s n) = Suc (size (bursts_due s n - {#x#}))" using xn by (metis insert_DiffM size_add_mset)
    define s1' where "s1' = s1\<lparr>helpers := (helpers s1)(h \<mapsto> (cnt, sv + 1))\<rparr>"
    have last: "sv + 1 = cnt \<longleftrightarrow> bursts_due s n = {#x#}"
    proof -
      have "sv + 1 = cnt \<longleftrightarrow> bursts_due s n - {#x#} = {#}" using hh(3) sz by auto
      then show ?thesis using xn by (metis add_mset_remove_trivial insert_DiffM)
    qed
    show thesis
    proof (cases "sv + 1 = cnt")
      case True
      let ?l = "respond_latency c p s1'"
      have m1': "mem_serves c (sysPackets s n) s1'" "sysPackets s1' n = sysPackets s n"
      proof -
        have "am_subset (dram_mem s1') = am_subset (dram_mem s1)" "am_subset (nvm_mem s1') = am_subset (nvm_mem s1)"
          by (simp_all add: s1'_def)
        from mem_serves_same[OF this] show "mem_serves c (sysPackets s n) s1'" using m1(1) by blast
        show "sysPackets s1' n = sysPackets s n" using m1(2) by (simp add: s1'_def)
      qed
      obtain s2 where s2: "accessAndRespond c now n ?l s1' = Inr s2" "answered (now + ?l) n (sysPackets s n) s1' s2"
        by (rule accessAndRespond_ok[OF m1', of now ?l], rule that)
      note ad = answeredD[OF s2(2)]
      obtain a b e l where e: "s2 = s1'\<lparr>dram_mem := a, nvm_mem := b, sysPackets := (sysPackets s1')(n := e), responsesSent := responsesSent s1' @ l\<rparr>"
        using s2(2) unfolding answered_def by (elim exE conjE) (rule that)
      let ?s2 = "s2\<lparr>helpers := (helpers s2)(h := None)\<rparr>"
      have ex: "?s2 = s1\<lparr>dram_mem := a, nvm_mem := b, sysPackets := (sysPackets s1')(n := e), responsesSent := responsesSent s1' @ l,
          helpers := (helpers s2)(h := None)\<rparr>"
        by (simp add: e s1'_def)
      have run: "respond_packet c now p s1 = Inr ?s2"
      proof -
        have h1: "helpers s1 h = Some (cnt, sv)" using hh(2) f1(1) by simp
        have ar: "accessAndRespond c now (mp_pkt p) ?l s1' = Inr s2" using s2(1) unfolding n_def .
        show ?thesis
          unfolding respond_packet_def Some h1 option.case prod.case Let_def s1'_def[symmetric] if_P[OF True] ar rbind_simps
          by (rule refl)
      qed
      have one: "bursts_due s n = {#x#}" using last True by blast
      have fs: "helpers s1' = (helpers s)(h \<mapsto> (cnt, sv + 1))" "responsesSent s1' = responsesSent s" "dram_mem s1' = dram_mem s"
        "nvm_mem s1' = nvm_mem s" "sysPackets s1' = sysPackets s" by (simp_all add: s1'_def f1)
      show thesis
      proof (rule that[OF run])
        show "\<exists>m1 m2 sp rs hs. ?s2 = s1\<lparr>dram_mem := m1, nvm_mem := m2, sysPackets := sp, responsesSent := rs, helpers := hs\<rparr>"
          using ex by blast
      qed (use ad nr one fs Some in \<open>simp_all add: grouped_def\<close>)
    next
      case False
      have run: "respond_packet c now p s1 = Inr s1'"
        using Some hh(2) f1(1) False by (simp add: respond_packet_def Let_def s1'_def)
      have ex: "s1' = s1\<lparr>dram_mem := dram_mem s1, nvm_mem := nvm_mem s1, sysPackets := sysPackets s1,
          responsesSent := responsesSent s1, helpers := (helpers s1)(h \<mapsto> (cnt, sv + 1))\<rparr>" by (simp add: s1'_def)
      have "\<forall>y \<in># bursts_due s n - {#x#}. fst (snd y) = Some h" using hh(1) by (meson in_diffD)
      then have gr: "grouped (helpers s1') n (bursts_due s n - {#x#})"
        unfolding grouped_def using hh(3) sz by (intro disjI2 exI[of _ h] exI[of _ cnt] exI[of _ "sv + 1"]) (simp add: s1'_def)
      show thesis
      proof (rule that[OF run _ _ _ _ _ _ gr])
        show "\<exists>m1 m2 sp rs hs. s1' = s1\<lparr>dram_mem := m1, nvm_mem := m2, sysPackets := sp, responsesSent := rs, helpers := hs\<rparr>"
          using ex by blast
      qed (use last False Some in \<open>auto simp: s1'_def f1\<close>)
    qed
  qed
qed

text \<open>What is left of the state when a read burst was answered.\<close>

definition popped :: "mem_packet \<Rightarrow> 'd mem_ctrl \<Rightarrow> 'd mem_ctrl \<Rightarrow> bool" where
  "popped p s s' \<longleftrightarrow> (\<exists>q dr m1 m2 sp rs hs ds b i. respQueue s = p # q \<and>
     s' = s\<lparr>dram_st := dr, dram_mem := m1, nvm_mem := m2, sysPackets := sp, responsesSent := rs, helpers := hs, respQueue := q,
       respondEvent := (case q of [] \<Rightarrow> None | p # _ \<Rightarrow> Some (readyTime p)), drainState := ds, retryRdReq := b, retriesSent := i\<rparr>)"

lemma poppedD:
  assumes "popped p s s'"
  shows "respQueue s = p # respQueue s'" "readQueue s' = readQueue s" "writeQueue s' = writeQueue s" "nextReqEvent s' = nextReqEvent s"
    "nextHelper s' = nextHelper s" "bus_ok s' = bus_ok s" "numPriorities s' = numPriorities s" "policy s' = policy s"
    "turnPolicy s' = turnPolicy s" "rh_defense s' = rh_defense s" "totalReadQueueSize s' = totalReadQueueSize s"
    "totalWriteQueueSize s' = totalWriteQueueSize s" "flight s = add_mset (mp_pkt p, mp_helper p, extent p) (flight s')"
    "respondEvent s' = (case respQueue s' of [] \<Rightarrow> None | p # _ \<Rightarrow> Some (readyTime p))"
proof -
  obtain q dr m1 m2 sp rs hs ds b i where q: "respQueue s = p # q" and s': "s' = s\<lparr>dram_st := dr, dram_mem := m1, nvm_mem := m2,
      sysPackets := sp, responsesSent := rs, helpers := hs, respQueue := q,
      respondEvent := (case q of [] \<Rightarrow> None | p # _ \<Rightarrow> Some (readyTime p)), drainState := ds, retryRdReq := b, retriesSent := i\<rparr>"
    using assms unfolding popped_def by (elim exE conjE) (rule that)
  show "respQueue s = p # respQueue s'" "readQueue s' = readQueue s" "writeQueue s' = writeQueue s" "nextReqEvent s' = nextReqEvent s"
    "nextHelper s' = nextHelper s" "numPriorities s' = numPriorities s" "policy s' = policy s"
    "turnPolicy s' = turnPolicy s" "rh_defense s' = rh_defense s" "totalReadQueueSize s' = totalReadQueueSize s"
    "totalWriteQueueSize s' = totalWriteQueueSize s" "bus_ok s' = bus_ok s"
    "respondEvent s' = (case respQueue s' of [] \<Rightarrow> None | p # _ \<Rightarrow> Some (readyTime p))"
    unfolding s' by (simp_all add: q bus_ok_def)
  show "flight s = add_mset (mp_pkt p, mp_helper p, extent p) (flight s')"
    unfolding s' flight_def q by simp
qed

lemma popped_inv: "popped p s s' \<Longrightarrow> ctrl_inv c k s \<Longrightarrow> ctrl_inv c k s'"
  by (auto simp: popped_def ctrl_inv_def qos_inv_def qos_lens_def pkts_ok_def sched_ok_def cong: option.case_cong)

lemma popped_serving:
  assumes P: "popped p s s'" and S: "serving c d k s" and g: "dram_good d (ranks (dram_st s'))"
    and n: "counted (ranks (dram_st s')) (\<lambda>j. reads_on j (respQueue s'))"
    and t: "\<And>l. timely d (ranks (dram_st s')) l = timely d (ranks (dram_st s)) l"
  shows "serving c d k s'"
proof -
  note pd = poppedD[OF P]
  have a: "timely d (ranks (dram_st s)) (respQueue s)" using S by (simp add: serving_def answers_due_def)
  then have "timely d (ranks (dram_st s)) (respQueue s')" unfolding timely_def pd(1) by auto
  moreover have "(\<forall>p \<in> set (respQueue s'). placed c p) \<and> sorted (map readyTime (respQueue s'))"
    using S pd(1) by (simp add: serving_def answers_due_def)
  ultimately have "answers_due c d s'" unfolding answers_due_def t using pd(14) by blast
  then show ?thesis using S popped_inv[OF P, of c k] g n pd(10) by (simp add: serving_def)
qed

lemma respond_event_ok:
  assumes D: "dram_only c d k" and S: "serving c d k s" and R: "reads_ok c s" and q: "respQueue s = p # q"
  defines "n \<equiv> mp_pkt p" and "x \<equiv> (mp_pkt p, mp_helper p, extent p)"
  obtains s' where "processRespondEvent c (readyTime p) (s\<lparr>respondEvent := None\<rparr>) = Inr s'" "serving c d k s'" "popped p s s'"
    "am_subset (dram_mem s') = am_subset (dram_mem s)" "am_subset (nvm_mem s') = am_subset (nvm_mem s)"
    "map fst (responsesSent s') = map fst (responsesSent s) @ (if bursts_due s n = {#x#} then [n] else [])"
    "\<And>y. y \<noteq> n \<or> bursts_due s n \<noteq> {#x#} \<Longrightarrow> sysPackets s' y = sysPackets s y"
    "\<And>h. mp_helper p \<noteq> Some h \<Longrightarrow> helpers s' h = helpers s h" "grouped (helpers s') n (bursts_due s n - {#x#})"
proof -
  let ?s0 = "s\<lparr>respondEvent := None\<rparr>" and ?t = "readyTime p"
  have pl: "placed c p" and srt: "\<forall>p' \<in> set q. ?t \<le> readyTime p'" using S q by (auto simp: serving_def answers_due_def)
  note pm = placed_dram(1)[OF D pl] and cfg = dram_onlyD[OF D]
  obtain dr where dr: "respondEvent_dram d (ctrl_view.truncate ?s0) ?t (mp_rank p) (dram_st s) = Inr dr" "dram_good d (ranks dr)"
    "counted (ranks dr) (\<lambda>j. reads_on j q)" "\<And>l. timely d (ranks dr) l = timely d (ranks (dram_st s)) l"
    by (rule tell_rank_ok[OF D S q, of "ctrl_view.truncate ?s0" ?t], rule that)
  let ?s1 = "?s0\<lparr>dram_st := dr\<rparr>"
  have f1: "helpers ?s1 = helpers s" "responsesSent ?s1 = responsesSent s" "dram_mem ?s1 = dram_mem s" "nvm_mem ?s1 = nvm_mem s"
    "sysPackets ?s1 = sysPackets s" by simp_all
  obtain s2 where s2: "respond_packet c ?t p ?s1 = Inr s2"
    "\<exists>m1 m2 sp rs hs. s2 = ?s1\<lparr>dram_mem := m1, nvm_mem := m2, sysPackets := sp, responsesSent := rs, helpers := hs\<rparr>"
    "am_subset (dram_mem s2) = am_subset (dram_mem s)" "am_subset (nvm_mem s2) = am_subset (nvm_mem s)"
    "map fst (responsesSent s2) = map fst (responsesSent s) @ (if bursts_due s n = {#x#} then [n] else [])"
    "\<And>y. y \<noteq> n \<or> bursts_due s n \<noteq> {#x#} \<Longrightarrow> sysPackets s2 y = sysPackets s y"
    "\<And>h. mp_helper p \<noteq> Some h \<Longrightarrow> helpers s2 h = helpers s h" "grouped (helpers s2) n (bursts_due s n - {#x#})"
    by (rule respond_packet_ok[OF R q f1, of ?t, folded x_def, folded n_def], rule that)
  let ?s2 = "s2\<lparr>respQueue := q\<rparr>" and ?X = "case q of [] \<Rightarrow> None | p # _ \<Rightarrow> Some (readyTime p)"
  obtain m1 m2 sp rs hs where e2: "s2 = ?s1\<lparr>dram_mem := m1, nvm_mem := m2, sysPackets := sp, responsesSent := rs, helpers := hs\<rparr>"
    using s2(2) by (elim exE) (rule that)
  have f2: "dram_st ?s2 = dr" "respQueue ?s2 = q" "respondEvent ?s2 = None" by (simp_all add: e2)
  have g2: "dram_good d (ranks (dram_st ?s2))" unfolding f2 by (rule dr(2))
  have srt2: "\<forall>p' \<in> set (respQueue ?s2). ?t \<le> readyTime p'" unfolding f2 by (rule srt)
  obtain ds where s3: "after_response c ?t p ?s2 = Inr (?s2\<lparr>respondEvent := ?X, drainState := ds\<rparr>)"
  proof -
    have u: "?s2\<lparr>respondEvent := ?X\<rparr> = ?s2\<lparr>respondEvent := ?X, drainState := drainState s2\<rparr>" by simp
    have "after_response c ?t p ?s2 \<in> {Inr (?s2\<lparr>respondEvent := ?X\<rparr>), Inr (?s2\<lparr>respondEvent := ?X, drainState := Drained\<rparr>)}"
      using after_response_ok[OF D g2 srt2 f2(3) pl] unfolding f2(2) .
    then consider "after_response c ?t p ?s2 = Inr (?s2\<lparr>respondEvent := ?X\<rparr>)"
      | "after_response c ?t p ?s2 = Inr (?s2\<lparr>respondEvent := ?X, drainState := Drained\<rparr>)" by blast
    then show thesis
    proof cases
      case 1
      show thesis by (rule that[of "drainState s2"]) (rule trans[OF 1 arg_cong[of _ _ Inr, OF u]])
    qed (rule that)
  qed
  let ?s3 = "?s2\<lparr>respondEvent := ?X, drainState := ds\<rparr>"
  define s4 where "s4 = (if retryRdReq ?s3 then ?s3\<lparr>retryRdReq := False, retriesSent := retriesSent ?s3 + 1\<rparr> else ?s3)"
  have q0: "respQueue ?s0 = p # q" and d0: "dram_st ?s0 = dram_st s" using q by simp_all
  have run: "processRespondEvent c ?t ?s0 = Inr s4"
    unfolding processRespondEvent_def q0 list.case if_P[OF pm] cfg(2) option.case d0 dr(1) rbind_simps s2(1) s3
    unfolding s4_def by (rule refl)
  obtain b i where e4: "s4 = ?s3\<lparr>retryRdReq := b, retriesSent := i\<rparr>"
  proof -
    have "?s3 = ?s3\<lparr>retryRdReq := retryRdReq ?s3, retriesSent := retriesSent ?s3\<rparr>" by simp
    then show thesis using that unfolding s4_def by metis
  qed
  have P: "popped p s s4" unfolding popped_def e4
    by (rule exI[of _ q], rule exI[of _ dr], rule exI[of _ m1], rule exI[of _ m2], rule exI[of _ sp], rule exI[of _ rs],
      rule exI[of _ hs], rule exI[of _ ds], rule exI[of _ b], rule exI[of _ i]) (simp add: q e2)
  have f4: "dram_st s4 = dr" "respQueue s4 = q" "dram_mem s4 = dram_mem s2" "nvm_mem s4 = nvm_mem s2" "sysPackets s4 = sysPackets s2"
    "responsesSent s4 = responsesSent s2" "helpers s4 = helpers s2" unfolding e4 using e2 by simp_all
  have "serving c d k s4" by (rule popped_serving[OF P S]) (simp_all add: f4 dr)
  then show thesis by (rule that[OF run _ P s2(3-8)[folded f4(3-7)]])
qed

text \<open>The reads on their way after an answer.\<close>

lemma own_helpers_mono: "set_mset M \<subseteq> set_mset N \<Longrightarrow> own_helpers i N \<Longrightarrow> own_helpers i M"
  unfolding own_helpers_def by blast

lemma popped_reads:
  assumes P: "popped p s s'" and R: "reads_ok c s"
    and am: "am_subset (dram_mem s') = am_subset (dram_mem s)" "am_subset (nvm_mem s') = am_subset (nvm_mem s)"
  defines "n \<equiv> mp_pkt p" and "x \<equiv> (mp_pkt p, mp_helper p, extent p)"
  assumes sys: "\<And>y. y \<noteq> n \<or> bursts_due s n \<noteq> {#x#} \<Longrightarrow> sysPackets s' y = sysPackets s y"
    and hp: "\<And>h. mp_helper p \<noteq> Some h \<Longrightarrow> helpers s' h = helpers s h" and gr: "grouped (helpers s') n (bursts_due s n - {#x#})"
  shows "reads_ok c s'" "bursts_due s n = add_mset x (bursts_due s' n)" "\<And>y. y \<noteq> n \<Longrightarrow> bursts_due s' y = bursts_due s y"
proof -
  have fl: "flight s = add_mset x (flight s')" and nh: "nextHelper s' = nextHelper s" using poppedD[OF P] by (simp_all add: x_def)
  have fx: "fst x = n" by (simp add: x_def n_def)
  show due: "bursts_due s n = add_mset x (bursts_due s' n)" "\<And>y. y \<noteq> n \<Longrightarrow> bursts_due s' y = bursts_due s y"
    by (simp_all add: bursts_due_def fl fx)
  have r: "\<forall>x \<in># flight s. servable c s (fst x)" "\<And>n. grouped (helpers s) n (bursts_due s n)" "own_helpers (nextHelper s) (flight s)"
    using R unfolding reads_ok_def by blast+
  have sv: "servable c s' (fst y)" if y: "y \<in># flight s'" for y
  proof -
    have "fst y \<noteq> n \<or> bursts_due s n \<noteq> {#x#}"
    proof (rule disjCI)
      assume "\<not> bursts_due s n \<noteq> {#x#}"
      then have "bursts_due s' n = {#}" using due(1) by simp
      then show "fst y \<noteq> n" using y bursts_due_empty by blast
    qed
    then have "sysPackets s' (fst y) = sysPackets s (fst y)" by (rule sys)
    note sv = servable_cong[OF am this, of c]
    have "y \<in># flight s" unfolding fl using y by simp
    then show ?thesis unfolding sv using r(1) by blast
  qed
  have own: "own_helpers (nextHelper s') (flight s')" using r(3) own_helpers_mono[of "flight s'" "flight s"] unfolding fl nh by auto
  have "grouped (helpers s') y (bursts_due s' y)" for y
  proof (cases "y = n")
    case True
    have "bursts_due s n - {#x#} = bursts_due s' n" using due(1) by simp
    then show ?thesis using gr True by simp
  next
    case False
    show ?thesis unfolding due(2)[OF False]
    proof (rule grouped_cong[OF r(2)])
      fix z h assume z: "z \<in># bursts_due s y" "fst (snd z) = Some h"
      then have "z \<in># flight s" "fst z = y" by (simp_all add: bursts_due_def)
      moreover have "x \<in># flight s" by (simp add: fl)
      ultimately have "fst (snd x) \<noteq> Some h" using r(3) z(2) fx False unfolding own_helpers_def by metis
      then show "helpers s' h = helpers s h" using hp by (simp add: x_def)
    qed
  qed
  then show "reads_ok c s'" using sv own unfolding reads_ok_def by blast
qed

section \<open>The events of the ranks between two refreshes\<close>

datatype rank_event = Activate_Event | Precharge_Event | Write_Done_Event | Power_Event

text \<open>The event queue calls the event of a rank at its tick.\<close>

definition fire_rank :: "dram_cfg \<Rightarrow> ctrl_view \<Rightarrow> rank_event \<Rightarrow> dram_rank \<Rightarrow> dram_rank res" where
  "fire_rank d v e r =
     (case e of
        Activate_Event \<Rightarrow> (case activateEvent r of None \<Rightarrow> Inl Assert_Fail
          | Some t \<Rightarrow> processActivateEvent t (r\<lparr>activateEvent := None\<rparr>))
      | Precharge_Event \<Rightarrow> (case prechargeEvent r of None \<Rightarrow> Inl Assert_Fail
          | Some t \<Rightarrow> processPrechargeEvent d v t (r\<lparr>prechargeEvent := None\<rparr>))
      | Write_Done_Event \<Rightarrow> (case writeDoneEvent r of None \<Rightarrow> Inl Assert_Fail
          | Some t \<Rightarrow> processWriteDoneEvent (r\<lparr>writeDoneEvent := None\<rparr>))
      | Power_Event \<Rightarrow> rbind (fire_power d (r, v)) (\<lambda>(r', v'). Inr r'))"

definition still :: "dram_rank \<Rightarrow> dram_rank \<Rightarrow> bool" where
  "still r r' \<longleftrightarrow> banks r' = banks r \<and> numBanksActive r' = numBanksActive r \<and> actTicks r' = actTicks r \<and>
     cmdList r' = cmdList r \<and> refreshState r' = refreshState r"

lemma rank_event_kept:
  assumes g: "good_rank d r" and i: "rank_inv r n" and pd: "\<not> enableDRAMPowerdown d" and run: "fire_rank d v e r = Inr r'"
  shows "good_rank d r'" "rank_inv r' n" "banks r' = banks r"
proof -
  have ref: "refreshState r = REF_IDLE" using g by (simp add: good_rank_def)
  have both: "rank_inv r' n \<and> still r r'"
  proof (cases e)
    case Activate_Event
    then show ?thesis using run activate_event_inv[OF i]
      by (auto simp: fire_rank_def processActivateEvent_def still_def schedulePowerEvent_def schedule_def split: option.splits if_splits)
  next
    case Precharge_Event
    then show ?thesis using run precharge_event_inv[OF i pd] pd
      by (auto simp: fire_rank_def processPrechargeEvent_def still_def schedulePowerEvent_def schedule_def Let_def split: option.splits if_splits)
  next
    case Write_Done_Event
    then show ?thesis using run write_event_inv[OF i]
      by (auto simp: fire_rank_def processWriteDoneEvent_def still_def split: option.splits if_splits)
  next
    case Power_Event
    then obtain t v' where t: "processPowerEvent d t (r\<lparr>powerEvent := None\<rparr>, v) = Inr (r', v')"
      using run by (auto simp: fire_rank_def fire_power_def rbind_Inr_iff split: option.splits)
    have i0: "rank_inv (r\<lparr>powerEvent := None\<rparr>) n" using i by (simp add: rank_inv_def pending_def)
    have "pwrState r \<noteq> PWR_REF" using i ref by (auto simp: rank_inv_def)
    then obtain r2 where r2: "power_reached d t (pwrState r) (power_enter t (r\<lparr>powerEvent := None\<rparr>)) = Inr r2"
        "power_refresh d v t r2 = Inr r'"
      using t by (auto simp: processPowerEvent_def power_refreshed_def rbind_Inr_iff split: if_splits)
    have "awake_state (pwrState r)" using i by (simp add: rank_inv_def)
    then have e2: "r2 = power_enter t (r\<lparr>powerEvent := None\<rparr>) \<or> r2 = power_enter t (r\<lparr>powerEvent := None\<rparr>)\<lparr>pwrState := PWR_REF\<rparr>"
      by (rule power_reached_awake[OF _ r2(1)])
    then have "refreshState r2 = REF_IDLE" using ref by auto
    then have "r' = r2" using power_refresh_awake[OF pd r2(2)] by auto
    then have "still r r'" using e2 by (auto simp: still_def power_enter_def Let_def)
    then show ?thesis using power_event_inv[OF i0 pd t] by blast
  qed
  show "rank_inv r' n" "banks r' = banks r" using both by (simp_all add: still_def)
  have "\<not> inLowPowerState r'" using both by (simp add: rank_inv_def)
  moreover have eqs: "numBanksActive r' = numBanksActive r" "actTicks r' = actTicks r" "acts r' = acts r" "banks r' = banks r"
      "refreshState r' = refreshState r"
    using both by (simp_all add: still_def acts_def)
  moreover have "act_hist d r'" using g act_hist_frame[of d r r'] eqs by (simp add: good_rank_def)
  moreover have "rank_ok d r'" using g eqs unfolding good_rank_def rank_ok_def open_banks_def eqs by blast
  ultimately show "good_rank d r'" using g by (simp add: good_rank_def)
qed

end
