(* ===== verification/Mem_Ctrl_Run.thy ===== *)
theory Mem_Ctrl_Run
  imports Mem_Ctrl_Reads
begin

text \<open>
  A controller with DRAM only as a state machine. It starts as its constructor returns it (\<open>new_ctrl\<close>) and
  goes on by arrivals (\<open>recvTimingReq\<close>) and by the events that the event queue calls at their ticks
  (\<open>fire\<close>): the request event and the response event of the controller and the activate, precharge, write
  completion and power event of each rank. \<open>running\<close> is the states that can be reached, with the requests
  taken so far; every arrival has a name of its own.

  What the machine leaves out: a refresh (no rank leaves \<open>REF_IDLE\<close>; a whole refresh is in \<open>Rank_Power\<close>),
  power-down (\<open>dram_only\<close> has it disabled) and drains asked for from outside. What an arrival and the search
  of FR-FCFS rely on are \<open>arrival_ok\<close> and \<open>on_time\<close>. \<open>run_inv\<close> is the invariant; one lemma for each kind of
  step keeps it.
\<close>

section \<open>Runs of the controller\<close>

datatype ctrl_event = Request_Event | Response_Event | Rank_Event nat rank_event

definition fire :: "ctrl_cfg \<Rightarrow> dram_cfg \<Rightarrow> ctrl_event \<Rightarrow> 'd mem_ctrl \<Rightarrow> 'd mem_ctrl res" where
  "fire c d e s =
     (case e of
        Request_Event \<Rightarrow> (case nextReqEvent s of None \<Rightarrow> Inl Assert_Fail
          | Some t \<Rightarrow> processNextReqEvent c t (s\<lparr>nextReqEvent := None\<rparr>))
      | Response_Event \<Rightarrow> (case respondEvent s of None \<Rightarrow> Inl Assert_Fail
          | Some t \<Rightarrow> processRespondEvent c t (s\<lparr>respondEvent := None\<rparr>))
      | Rank_Event j x \<Rightarrow> rbind (on_rank j (fire_rank d (ctrl_view.truncate s) x) (dram_st s)) (\<lambda>dr. Inr (s\<lparr>dram_st := dr\<rparr>)))"

definition arrival_ok :: "ctrl_cfg \<Rightarrow> nat \<Rightarrow> nat \<Rightarrow> packet \<Rightarrow> (nat \<Rightarrow> packet option) \<Rightarrow> 'd mem_ctrl \<Rightarrow> bool" where
  "arrival_ok c k n pkt reqs s \<longleftrightarrow> reqs n = None \<and> mem_serves c pkt s \<and>
     (policy s = None \<longrightarrow> pk_qos pkt < numPriorities s) \<and> defended c (length (bursts_of k pkt)) s"

definition on_time :: "ctrl_cfg \<Rightarrow> dram_cfg \<Rightarrow> ctrl_event \<Rightarrow> 'd mem_ctrl \<Rightarrow> bool" where
  "on_time c d e s \<longleftrightarrow> (case e of Request_Event \<Rightarrow> \<forall>t. nextReqEvent s = Some t \<longrightarrow> in_time c d t (ranks (dram_st s)) | _ \<Rightarrow> True)"

inductive running :: "ctrl_cfg \<Rightarrow> dram_cfg \<Rightarrow> nat \<Rightarrow> (nat \<Rightarrow> packet option) \<Rightarrow> 'd::linorder mem_ctrl \<Rightarrow> bool" for c d k where
  start: "new_ctrl p j junk rh pkts m0 (dr, nv, dm, nm) = Inr (c, s) \<Longrightarrow> dram_only c d k \<Longrightarrow>
    0 < qos_priorities p \<Longrightarrow> \<forall>q. qos_policy_param p = Some q \<longrightarrow> policy_fits (qos_priorities p) q \<Longrightarrow>
    dram_good d (ranks dr) \<Longrightarrow> counted (ranks dr) (\<lambda>_. 0) \<Longrightarrow> running c d k Map.empty s"
| arrive: "running c d k reqs s \<Longrightarrow> arrival_ok c k n pkt reqs s \<Longrightarrow> recvTimingReq c now n pkt s = Inr (taken, s') \<Longrightarrow>
    running c d k (if taken then reqs(n \<mapsto> pkt) else reqs) s'"
| event: "running c d k reqs s \<Longrightarrow> on_time c d e s \<Longrightarrow> fire c d e s = Inr s' \<Longrightarrow> running c d k reqs s'"

text \<open>How often each request is answered: a write when it is taken, a read when no burst of it is on its way.\<close>

definition answers_of :: "(nat \<Rightarrow> packet option) \<Rightarrow> 'd mem_ctrl \<Rightarrow> nat \<Rightarrow> nat" where
  "answers_of reqs s n = (case reqs n of None \<Rightarrow> 0
     | Some pkt \<Rightarrow> if isWrite pkt then of_bool (needsResponse pkt) else of_bool (bursts_due s n = {#}))"

definition run_inv :: "ctrl_cfg \<Rightarrow> dram_cfg \<Rightarrow> nat \<Rightarrow> (nat \<Rightarrow> packet option) \<Rightarrow> 'd mem_ctrl \<Rightarrow> bool" where
  "run_inv c d k reqs s \<longleftrightarrow> dram_only c d k \<and> serving c d k s \<and> bus_ok s \<and> reads_ok c s \<and>
     (0 < totalReadQueueSize s \<longrightarrow> nextReqEvent s \<noteq> None) \<and>
     (\<forall>x \<in># flight s. \<exists>pkt. reqs (fst x) = Some pkt \<and> \<not> isWrite pkt) \<and>
     (\<forall>n. count_list (map fst (responsesSent s)) n = answers_of reqs s n)"

lemma run_invD:
  assumes "run_inv c d k reqs s"
  shows "dram_only c d k" "serving c d k s" "bus_ok s" "reads_ok c s" "0 < totalReadQueueSize s \<Longrightarrow> nextReqEvent s \<noteq> None"
    "\<forall>x \<in># flight s. \<exists>pkt. reqs (fst x) = Some pkt \<and> \<not> isWrite pkt"
    "\<And>n. count_list (map fst (responsesSent s)) n = answers_of reqs s n" "ctrl_inv c k s"
    "dram_good d (ranks (dram_st s))"
  using assms by (simp_all add: run_inv_def serving_def)

lemma fresh_due: "run_inv c d k reqs s \<Longrightarrow> reqs n = None \<Longrightarrow> bursts_due s n = {#}"
  using run_invD(6) unfolding bursts_due_empty by (metis option.distinct(1))

lemma start_inv:
  assumes n: "new_ctrl p j junk rh pkts m0 (dr, nv, dm, nm) = Inr (c, s)" and D: "dram_only c d k"
    and q: "0 < qos_priorities p" "\<forall>q. qos_policy_param p = Some q \<longrightarrow> policy_fits (qos_priorities p) q"
    and r: "dram_good d (ranks dr)" "counted (ranks dr) (\<lambda>_. 0)"
  shows "run_inv c d k Map.empty s"
proof -
  obtain def d' where df: "if rh_defense_param p then \<exists>x. def = Some x \<and> new_defense (rh_config p) j (Some d') = Inr x else def = None"
    and s: "s = qos.extend (new_qos (qos_policy_param p) (qos_turnaround_policy p) (qos_priority_escalation p)
           (qos_syncro_scheduler p) (qos_priorities p))
         (mem_ctrl.fields False False False (replicate (qos_priorities p) []) (replicate (qos_priorities p) [])
            {} [] {#} def dr nv dm nm 0 0 0 0 0 (\<lambda>_. None) 0 0 junk pkts [] 0 (zero_ctrl_stats rh))"
    and en: "rh_defense_enable c = rh_defense_param p"
    by (rule new_ctrl_cases[OF n])
  note f = new_ctrl_state[OF s]
  have "\<forall>t. timely d t [] = True" by (auto simp: timely_def col_ready_def)
  then have "answers_due c d s" by (simp add: answers_due_def f)
  moreover have "rh_defense_enable c \<longrightarrow> rh_defense s \<noteq> None" using df en by (auto simp: f split: if_splits)
  ultimately have "serving c d k s" using new_ctrl_inv[OF s q] r by (simp add: serving_def f reads_on_def)
  moreover have "busStateNext s = READ" using s by (simp add: qos.defs mem_ctrl.defs new_qos_def)
  moreover have fl: "flight s = {#}" by (simp add: flight_def f)
  moreover have "reads_ok c s" by (simp add: reads_ok_def fl bursts_due_def grouped_def own_helpers_def)
  ultimately show ?thesis using D by (simp add: run_inv_def bus_ok_def f answers_of_def)
qed

text \<open>Arrivals.\<close>

lemma arrival_kept:
  assumes I: "run_inv c d k reqs s" and u: "untouched s s'" and inv: "ctrl_inv c k s'"
    and rq: "contents (readQueue s') = contents (readQueue s)" and wq: "extents (writeQueue s) \<subseteq># extents (writeQueue s')"
    and sy: "\<forall>x. x \<noteq> n \<longrightarrow> sysPackets s' x = sysPackets s x" and h: "helpers s' = helpers s" "nextHelper s' = nextHelper s"
    and n: "reqs n = None"
  shows "serving c d k s'" "bus_ok s'" "reads_ok c s'" "0 < totalReadQueueSize s' \<longrightarrow> nextReqEvent s' \<noteq> None" "flight s' = flight s"
proof -
  note R = run_invD[OF I]
  show "serving c d k s'" by (rule untouched_serving[OF u R(2) inv])
  show "bus_ok s'" by (rule untouched_bus[OF u R(3,8) inv size_mset_mono[OF wq]])
  show fl: "flight s' = flight s" using rq u by (simp add: flight_def untouched_def)
  have "\<forall>x \<in># flight s. sysPackets s' (fst x) = sysPackets s (fst x)" using fresh_due[OF I n] sy bursts_due_empty by metis
  then show "reads_ok c s'" using u by (intro reads_ok_cong[OF R(4) fl _ _ _ h]) (simp_all add: untouched_def)
  have "totalReadQueueSize s' = totalReadQueueSize s" unfolding ctrl_invD(8)[OF inv] ctrl_invD(8)[OF R(8)] rq ..
  then show "0 < totalReadQueueSize s' \<longrightarrow> nextReqEvent s' \<noteq> None" using R(5) u by (simp add: untouched_def)
qed

lemma answers_same: "flight s' = flight s \<Longrightarrow> answers_of reqs s' = answers_of reqs s"
proof -
  assume "flight s' = flight s"
  then have "bursts_due s' = bursts_due s" by (intro ext) (simp only: bursts_due_def)
  then show ?thesis by (intro ext) (simp only: answers_of_def)
qed

lemma answers_new:
  assumes "reqs n = None" and "\<And>x. x \<noteq> n \<Longrightarrow> bursts_due s' x = bursts_due s x"
  shows "answers_of (reqs(n \<mapsto> pkt)) s' x = answers_of reqs s x +
    (if x = n then if isWrite pkt then of_bool (needsResponse pkt) else of_bool (bursts_due s' n = {#}) else 0)"
proof (cases "x = n")
  case False
  then show ?thesis unfolding answers_of_def assms(2)[OF False] by simp
qed (simp add: answers_of_def assms(1))

lemma arrive_inv:
  assumes I: "run_inv c d k reqs s" and a: "arrival_ok c k n pkt reqs s"
  obtains s' where "recvTimingReq c now n pkt s = Inr (has_room c k pkt s, s')"
    "run_inv c d k (if has_room c k pkt s then reqs(n \<mapsto> pkt) else reqs) s'"
proof -
  note R = run_invD[OF I] and D = dram_onlyD[OF run_invD(1)[OF I]]
  have a': "reqs n = None" "mem_serves c pkt s" "policy s = None \<longrightarrow> pk_qos pkt < numPriorities s"
    "defended c (length (bursts_of k pkt)) s" using a by (simp_all add: arrival_ok_def)
  have rt: "ranks_there c (length (ranks (dram_st s)))" using R(9) D(2) by (simp add: ranks_there_def dram_good_def)
  obtain prio s' where s': "recvTimingReq c now n pkt s = Inr (has_room c k pkt s, s')"
    "has_room c k pkt s \<Longrightarrow> (if isWrite pkt then write_taken c k n (pkt\<lparr>pk_qos := prio\<rparr>) s s'
       else read_taken c k n (pkt\<lparr>pk_qos := prio\<rparr>) s s')"
    "\<not> has_room c k pkt s \<Longrightarrow> ctrl_inv c k s' \<and> arrived n s s' \<and> (if isWrite pkt then retryWrReq s' else retryRdReq s')"
    by (rule recv_ok[OF D(1) rt R(8) a'(2,3) defended_serves[OF a'(4)], of now n], rule that)
  let ?p = "pkt\<lparr>pk_qos := prio\<rparr>"
  have pl: "plain_request pkt" using a'(2) by (simp add: mem_serves_def)
  have cnt: "count_list (map fst (responsesSent s')) x = count_list (map fst (responsesSent s)) x + (if x = n then of_bool b else 0)"
    if "map fst (responsesSent s') = map fst (responsesSent s) @ (if b then [n] else [])" for b x
    unfolding that by simp
  show thesis
  proof (cases "has_room c k pkt s")
    case no: False
    note t = s'(3)[OF no, unfolded arrived_def]
    have k: "serving c d k s'" "bus_ok s'" "reads_ok c s'" "0 < totalReadQueueSize s' \<longrightarrow> nextReqEvent s' \<noteq> None" "flight s' = flight s"
      using t by (intro arrival_kept[OF I, of s' n] a'(1); simp)+
    have "run_inv c d k reqs s'" using k R(1,6,7) t answers_same[OF k(5)] by (simp add: run_inv_def)
    then show thesis using that[OF s'(1)] no by simp
  next
    case room: True
    show thesis
    proof (cases "isWrite pkt")
      case True
      have t: "write_taken c k n ?p s s'" using s'(2)[OF room] True by simp
      note t' = t[unfolded write_taken_def]
      have k: "serving c d k s'" "bus_ok s'" "reads_ok c s'" "0 < totalReadQueueSize s' \<longrightarrow> nextReqEvent s' \<noteq> None" "flight s' = flight s"
        using t' by (intro arrival_kept[OF I, of s' n] a'(1); simp)+
      have "count_list (map fst (responsesSent s')) x = answers_of (reqs(n \<mapsto> pkt)) s' x" for x
        using cnt[of "needsResponse pkt" x] t' R(7)[of x] answers_new[of reqs n s' s pkt x] True k(5) a'(1) by (simp add: bursts_due_def)
      moreover have "\<forall>x \<in># flight s'. \<exists>pkt'. (reqs(n \<mapsto> pkt)) (fst x) = Some pkt' \<and> \<not> isWrite pkt'"
        using R(6) a'(1) k(5) by (metis fun_upd_other option.distinct(1))
      ultimately have "run_inv c d k (reqs(n \<mapsto> pkt)) s'" using k R(1) unfolding run_inv_def by blast
      then show thesis using that[OF s'(1)] room by simp
    next
      case wr: False
      have t: "read_taken c k n ?p s s'" using s'(2)[OF room] wr by simp
      have rd: "isRead ?p" using plain_request_kind(1)[OF pl] wr by simp
      note t' = t[unfolded read_taken_def Let_def]
      have u: "untouched s s'" and inv: "ctrl_inv c k s'" using t' by blast+
      have mp: "mem_serves c ?p s" using a'(2) by simp
      note new = read_taken_ok[OF t R(4) fresh_due[OF I a'(1)] mp rd]
      have b: "bus_ok s'" using t' by (intro untouched_bus[OF u R(3,8) inv]) simp
      have aw: "0 < totalReadQueueSize s' \<longrightarrow> nextReqEvent s' \<noteq> None"
      proof (cases "uncovered k ?p s = []")
        case True
        then have "contents (readQueue s') = contents (readQueue s)" using t' by simp
        then have "totalReadQueueSize s' = totalReadQueueSize s" unfolding ctrl_invD(8)[OF inv] ctrl_invD(8)[OF R(8)] by simp
        then show ?thesis using R(5) u by (simp add: untouched_def)
      qed (use t' in blast)
      have m: "map fst (responsesSent s') = map fst (responsesSent s) @ (if uncovered k ?p s = [] then [n] else [])" using t' by blast
      have "count_list (map fst (responsesSent s')) x = answers_of (reqs(n \<mapsto> pkt)) s' x" for x
        using cnt[OF m, of x] R(7)[of x] answers_new[of reqs n s' s pkt x] a'(1) new(2,3) wr by simp
      moreover have "\<exists>pkt'. (reqs(n \<mapsto> pkt)) (fst x) = Some pkt' \<and> \<not> isWrite pkt'" if x: "x \<in># flight s'" for x
      proof (cases "fst x = n")
        case False
        have "x \<in># bursts_due s' (fst x)" using x by (simp add: bursts_due_def)
        then have "x \<in># flight s" unfolding new(3)[OF False] by (simp add: bursts_due_def)
        then show ?thesis using R(6) False by auto
      qed (use wr in simp)
      ultimately have "run_inv c d k (reqs(n \<mapsto> pkt)) s'"
        using untouched_serving[OF u R(2) inv] b new(1) aw R(1) unfolding run_inv_def by blast
      then show thesis using that[OF s'(1)] room by simp
    qed
  qed
qed

text \<open>The events.\<close>

lemma reads_apart:
  assumes "apart s s'" and "reads_ok c s"
  shows "reads_ok c s'" "answers_of reqs s' = answers_of reqs s" "responsesSent s' = responsesSent s"
proof -
  have a: "flight s' = flight s" "outside s' = outside s" "helpers s' = helpers s" "nextHelper s' = nextHelper s"
    using assms(1) by (simp_all add: apart_def)
  show "answers_of reqs s' = answers_of reqs s" by (rule answers_same[OF a(1)])
  show "responsesSent s' = responsesSent s" using a(2) by (simp add: outside_def)
  show "reads_ok c s'" using a by (intro reads_ok_cong[OF assms(2)]) (simp_all add: outside_def)
qed

lemma turnaround_cleared [simp]: "turnaround_loop (s\<lparr>nextReqEvent := None\<rparr>) qs = turnaround_loop s qs"
  by (induction qs) simp_all

lemma event_cleared: "serving c d k (s\<lparr>nextReqEvent := None\<rparr>) = serving c d k s" "bus_ok (s\<lparr>nextReqEvent := None\<rparr>) = bus_ok s"
    "apart (s\<lparr>nextReqEvent := None\<rparr>) s' = apart s s'" "turned (s\<lparr>nextReqEvent := None\<rparr>) = turned s"
    "event_done t dir (s\<lparr>nextReqEvent := None\<rparr>) s' = event_done t dir s s'"
  by (simp_all add: bus_ok_def apart_def outside_def flight_def turned_def event_done_def idle_def read_served_def write_served_def
      selectNextBusState_def selectBusState_def cong: bus_state.case_cong)

lemma request_inv:
  assumes I: "run_inv c d k reqs s" and t: "nextReqEvent s = Some t" and tm: "on_time c d Request_Event s"
  obtains s' where "fire c d Request_Event s = Inr s'" "run_inv c d k reqs s'" "event_done (t + tCL d + tBURST d) (turned s) s s'"
proof -
  note R = run_invD[OF I]
  let ?s = "s\<lparr>nextReqEvent := None\<rparr>"
  have S: "serving c d k ?s" "bus_ok ?s" "in_time c d t (ranks (dram_st ?s))"
    using R(2,3) tm t unfolding event_cleared on_time_def by simp_all
  obtain s' where s': "processNextReqEvent c t ?s = Inr s'" "serving c d k s'" "apart s s'" "bus_ok s'"
    "event_done (t + tCL d + tBURST d) (turned s) s s'"
    by (rule request_event_ok[OF R(1) S], unfold event_cleared, rule that)
  note ra = reads_apart[OF s'(3) R(4)]
  have fl: "flight s' = flight s" using s'(3) by (simp add: apart_def)
  have inv: "ctrl_inv c k s'" using s'(2) by (simp add: serving_def)
  have aw: "nextReqEvent s' \<noteq> None" if pos: "0 < totalReadQueueSize s'"
  proof (cases "turned s")
    case READ
    have "totalReadQueueSize s \<noteq> 0"
    proof
      assume z: "totalReadQueueSize s = 0"
      then have "contents (readQueue s') = contents (readQueue s)" using s'(5) READ by (simp add: event_done_def idle_def)
      then have "totalReadQueueSize s' = totalReadQueueSize s" unfolding ctrl_invD(8)[OF inv] ctrl_invD(8)[OF R(8)] by simp
      then show False using pos z by simp
    qed
    then show ?thesis using s'(5) READ by (simp add: event_done_def)
  next
    case WRITE
    have "contents (readQueue s') = contents (readQueue s)"
      using s'(5) WRITE by (auto simp: event_done_def idle_def write_served_def split: if_splits)
    then have "totalReadQueueSize s' = totalReadQueueSize s" unfolding ctrl_invD(8)[OF inv] ctrl_invD(8)[OF R(8)] by simp
    then have "0 < totalWriteQueueSize s" using turned_work[OF R(8,3) WRITE] pos by simp
    then show ?thesis using s'(5) WRITE by (simp add: event_done_def)
  qed
  have "run_inv c d k reqs s'" using R(1,6,7) s'(2,4) ra aw fl unfolding run_inv_def by simp
  then show thesis using that s'(1,5) t by (simp add: fire_def)
qed

lemma response_inv:
  assumes I: "run_inv c d k reqs s" and t: "respondEvent s = Some t"
  obtains s' p where "fire c d Response_Event s = Inr s'" "run_inv c d k reqs s'" "popped p s s'" "readyTime p = t"
proof -
  note R = run_invD[OF I]
  have due: "respondEvent s = (case respQueue s of [] \<Rightarrow> None | p # _ \<Rightarrow> Some (readyTime p))"
    using R(2) by (simp add: serving_def answers_due_def)
  then obtain p q where q: "respQueue s = p # q" "readyTime p = t" using t by (cases "respQueue s") simp_all
  let ?n = "mp_pkt p" and ?x = "(mp_pkt p, mp_helper p, extent p)"
  obtain s' where s': "processRespondEvent c (readyTime p) (s\<lparr>respondEvent := None\<rparr>) = Inr s'" "serving c d k s'" "popped p s s'"
    "am_subset (dram_mem s') = am_subset (dram_mem s)" "am_subset (nvm_mem s') = am_subset (nvm_mem s)"
    "map fst (responsesSent s') = map fst (responsesSent s) @ (if bursts_due s ?n = {#?x#} then [?n] else [])"
    "\<And>y. y \<noteq> ?n \<or> bursts_due s ?n \<noteq> {#?x#} \<Longrightarrow> sysPackets s' y = sysPackets s y"
    "\<And>h. mp_helper p \<noteq> Some h \<Longrightarrow> helpers s' h = helpers s h" "grouped (helpers s') ?n (bursts_due s ?n - {#?x#})"
    by (rule respond_event_ok[OF R(1,2,4) q(1)], rule that)
  note pd = poppedD[OF s'(3)]
  have rd: "reads_ok c s'" "bursts_due s ?n = add_mset ?x (bursts_due s' ?n)" "\<And>y. y \<noteq> ?n \<Longrightarrow> bursts_due s' y = bursts_due s y"
    by (rule popped_reads[OF s'(3) R(4) s'(4,5)]; (erule s'(7) | erule s'(8) | rule s'(9) | assumption))+
  have x: "?x \<in># flight s" by (simp add: pd(13))
  obtain pkt where pkt: "reqs ?n = Some pkt" "\<not> isWrite pkt" using R(6) x by force
  have "count_list (map fst (responsesSent s')) y = answers_of reqs s' y" for y
  proof (cases "y = ?n")
    case True
    have "count_list (map fst (responsesSent s')) y = count_list (map fst (responsesSent s)) y + of_bool (bursts_due s ?n = {#?x#})"
      unfolding s'(6) using True by simp
    moreover have "answers_of reqs s ?n = 0" using pkt rd(2) by (simp add: answers_of_def)
    ultimately show ?thesis using R(7)[of y] True pkt rd(2) by (simp add: answers_of_def)
  next
    case False
    have "answers_of reqs s' y = answers_of reqs s y" unfolding answers_of_def rd(3)[OF False] ..
    moreover have "count_list (map fst (responsesSent s')) y = count_list (map fst (responsesSent s)) y"
      unfolding s'(6) using False by simp
    ultimately show ?thesis using R(7)[of y] by simp
  qed
  moreover have "\<forall>x \<in># flight s'. \<exists>pkt. reqs (fst x) = Some pkt \<and> \<not> isWrite pkt" using R(6) unfolding pd(13) by simp
  moreover have "0 < totalReadQueueSize s' \<longrightarrow> nextReqEvent s' \<noteq> None" using R(5) unfolding pd(4,11) by blast
  moreover have "bus_ok s'" using R(3) pd(6) by simp
  ultimately have "run_inv c d k reqs s'" using R(1) s'(2) rd(1) unfolding run_inv_def by blast
  then show thesis using that s'(1,3) t q(2) by (simp add: fire_def)
qed


lemma rank_inv_event:
  assumes I: "run_inv c d k reqs s" and run: "fire c d (Rank_Event j e) s = Inr s'"
  shows "run_inv c d k reqs s'"
proof -
  note R = run_invD[OF I]
  let ?rs = "ranks (dram_st s)"
  obtain r' where j: "j < length ?rs" and r: "fire_rank d (ctrl_view.truncate s) e (?rs ! j) = Inr r'"
    and s': "s' = s\<lparr>dram_st := (dram_st s)\<lparr>ranks := ?rs[j := r']\<rparr>\<rparr>"
    using run by (auto simp: fire_def on_rank_def rbind_Inr_iff split: if_splits)
  have good: "good_rank d (?rs ! j)" using R(9) j by (simp add: dram_good_def)
  have cnt: "counted ?rs (\<lambda>j. reads_on j (respQueue s))" using R(2) by (simp add: serving_def)
  note kept = rank_event_kept[OF good _ dram_onlyD(6)[OF R(1)] r]
  have rj: "rank_inv (?rs ! j) (reads_on j (respQueue s))" using cnt j unfolding counted_def by blast
  have "counted (?rs[j := r']) (\<lambda>j. reads_on j (respQueue s))"
    unfolding counted_def
  proof (intro allI impI)
    fix i assume "i < length (?rs[j := r'])"
    then show "rank_inv (?rs[j := r'] ! i) (reads_on i (respQueue s))"
      using cnt kept(2)[OF rj] unfolding counted_def by (cases "i = j") simp_all
  qed
  moreover have "dram_good d (?rs[j := r'])" by (rule dram_good_update[OF R(9) kept(1)[OF rj]])
  moreover have "timely d (?rs[j := r']) (respQueue s)"
    using R(2) timely_banks[OF j kept(3)[OF rj]] by (simp add: serving_def answers_due_def)
  moreover have "ctrl_inv c k s'"
    using R(8) unfolding s' by (simp add: ctrl_inv_def qos_inv_def qos_lens_def pkts_ok_def sched_ok_def cong: option.case_cong)
  ultimately have S: "serving c d k s'" using R(2) by (simp add: serving_def answers_due_def s')
  have fl: "flight s' = flight s" by (simp add: flight_def s')
  have r': "reads_ok c s'" by (rule reads_ok_cong[OF R(4) fl]) (simp_all add: s')
  show ?thesis using R(1,3,5,6,7) S r' answers_same[OF fl] unfolding run_inv_def fl by (simp add: s' bus_ok_def)
qed

lemma run_kept: "running c d k reqs s \<Longrightarrow> run_inv c d k reqs s"
proof (induction rule: running.induct)
  case (start p j junk rh pkts m0 dr nv dm nm s)
  then show ?case by (intro start_inv)
next
  case (arrive reqs s n pkt now taken s')
  obtain s1 where "recvTimingReq c now n pkt s = Inr (has_room c k pkt s, s1)"
    "run_inv c d k (if has_room c k pkt s then reqs(n \<mapsto> pkt) else reqs) s1"
    by (rule arrive_inv[OF arrive.IH arrive.hyps(2), of now])
  then show ?case using arrive.hyps(3) by simp
next
  case (event reqs s e s')
  show ?case
  proof (cases e)
    case Request_Event
    then obtain t where t: "nextReqEvent s = Some t" using event.hyps(3) by (auto simp: fire_def split: option.splits)
    show ?thesis by (rule request_inv[OF event.IH t]) (use event.hyps Request_Event in simp_all)
  next
    case Response_Event
    then obtain t where t: "respondEvent s = Some t" using event.hyps(3) by (auto simp: fire_def split: option.splits)
    show ?thesis by (rule response_inv[OF event.IH t]) (use event.hyps Response_Event in simp_all)
  next
    case (Rank_Event j x)
    then show ?thesis using rank_inv_event[OF event.IH] event.hyps(3) by blast
  qed
qed

section \<open>Progress\<close>

text \<open>What is left to do for the reads: two events for each queued burst, one for each queued write and each answer due.\<close>

definition work :: "'d mem_ctrl \<Rightarrow> nat" where
  "work s = 2 * totalReadQueueSize s + totalWriteQueueSize s + length (respQueue s)"

lemma request_works:
  assumes I: "run_inv c d k reqs s" and I': "run_inv c d k reqs s'" and rd: "0 < totalReadQueueSize s"
    and ev: "event_done t (turned s) s s'"
  shows "work s' < work s"
proof -
  note R = run_invD[OF I] and R' = run_invD(8)[OF I']
  note sz = ctrl_invD(8)[OF R(8)] ctrl_invD(9)[OF R(8)] ctrl_invD(8)[OF R'] ctrl_invD(9)[OF R']
  show ?thesis
  proof (cases "turned s")
    case READ
    then have "read_served t s s'" using ev rd by (simp add: event_done_def)
    then show ?thesis by (auto simp: read_served_def work_def sz)
  next
    case WRITE
    have "0 < totalWriteQueueSize s" using turned_work[OF R(8,3) WRITE] rd by simp
    then have "write_served s s'" using ev WRITE by (simp add: event_done_def)
    then show ?thesis by (auto simp: write_served_def work_def sz)
  qed
qed

text \<open>
  The event queue calls the request event and the response event of the controller, one after the other, until
  no read is left; \<open>pick\<close> is its choice when both are pending.
\<close>

fun serve_events :: "ctrl_cfg \<Rightarrow> dram_cfg \<Rightarrow> ('d mem_ctrl \<Rightarrow> bool) \<Rightarrow> nat \<Rightarrow> 'd mem_ctrl \<Rightarrow> 'd mem_ctrl res" where
  "serve_events c d pick 0 s = Inr s"
| "serve_events c d pick (Suc i) s =
     (if totalReadQueueSize s = 0 \<and> respQueue s = [] then Inr s
      else rbind (fire c d (if respQueue s = [] \<or> 0 < totalReadQueueSize s \<and> pick s then Request_Event else Response_Event) s)
        (serve_events c d pick i))"

lemma flight_empty:
  assumes "ctrl_inv c k s"
  shows "flight s = {#} \<longleftrightarrow> totalReadQueueSize s = 0 \<and> respQueue s = []"
  unfolding ctrl_invD(8)[OF assms] flight_def by simp

lemma serve_events_ok:
  assumes "running c d k reqs s" and "memSchedPolicy c = Fcfs" and "work s \<le> i"
  shows "\<exists>s'. serve_events c d pick i s = Inr s' \<and> running c d k reqs s' \<and> flight s' = {#}"
  using assms(1,3)
proof (induction i arbitrary: s)
  case 0
  then have "totalReadQueueSize s = 0 \<and> respQueue s = []" by (simp add: work_def)
  then show ?case using 0(1) flight_empty[OF run_invD(8)[OF run_kept[OF 0(1)]]] by simp
next
  case (Suc i)
  note I = run_kept[OF Suc.prems(1)]
  note R = run_invD[OF I]
  show ?case
  proof (cases "totalReadQueueSize s = 0 \<and> respQueue s = []")
    case True
    then show ?thesis using Suc.prems(1) flight_empty[OF R(8)] by simp
  next
    case False
    let ?e = "if respQueue s = [] \<or> 0 < totalReadQueueSize s \<and> pick s then Request_Event else Response_Event"
    have tm: "on_time c d e s" for e using assms(2) by (simp add: on_time_def in_time_def split: ctrl_event.split)
    obtain s1 where s1: "fire c d ?e s = Inr s1" "work s1 < work s"
    proof (cases "respQueue s = [] \<or> 0 < totalReadQueueSize s \<and> pick s")
      case True
      then have rd: "0 < totalReadQueueSize s" using False by auto
      obtain t where t: "nextReqEvent s = Some t" using R(5)[OF rd] by blast
      obtain s1 where s1: "fire c d Request_Event s = Inr s1" "run_inv c d k reqs s1" "event_done (t + tCL d + tBURST d) (turned s) s s1"
        by (rule request_inv[OF I t tm])
      show thesis by (rule that[OF _ request_works[OF I s1(2) rd s1(3)]]) (simp only: if_P[OF True] s1(1))
    next
      case no: False
      obtain t where t: "respondEvent s = Some t"
        using R(2) no by (cases "respQueue s") (simp_all add: serving_def answers_due_def)
      obtain s1 p where s1: "fire c d Response_Event s = Inr s1" "popped p s s1" by (rule response_inv[OF I t])
      have "work s1 < work s" by (simp add: work_def poppedD(1,11,12)[OF s1(2)])
      then show thesis by (rule that[rotated]) (simp only: if_not_P[OF no] s1(1))
    qed
    have "running c d k reqs s1" by (rule running.event[OF Suc.prems(1) tm s1(1)])
    from Suc.IH[OF this] show ?thesis
      unfolding serve_events.simps if_not_P[OF False] s1(1) rbind_simps using s1(2) Suc.prems(2) by simp
  qed
qed

section \<open>Properties\<close>

lemma in_flight: "n \<in> mp_pkt ` set (concat (readQueue s) @ respQueue s) \<longleftrightarrow> bursts_due s n \<noteq> {#}"
  unfolding bursts_due_empty flight_def contents_def by force

text \<open>The example controller, first come first served, without a defense: it runs, and takes a read of two bursts.\<close>

lemma demo_running:
  obtains c d s s' where
    "new_ctrl (demo_params False\<lparr>mem_sched_policy := Fcfs\<rparr>) j junk rh pkts demo_media (ddr4_dram, nv, plain_mem (2 ^ 33), nm) = Inr (c, s)"
    "recvTimingReq c 1000 0 (demo_pkt ReadReq 60 8) s = Inr (True, s')" "memSchedPolicy c = Fcfs"
    "running c d 6 [0 \<mapsto> demo_pkt ReadReq 60 8] (s' :: nat mem_ctrl)" "nextReqEvent s' \<noteq> None"
    "responsesSent s' = []"
proof -
  let ?p = "demo_params False\<lparr>mem_sched_policy := Fcfs\<rparr>" and ?d = "ddr4_2400\<lparr>maxCommandsPerWindow := 12\<rparr>" and ?pkt = "demo_pkt ReadReq 60 8"
  obtain c and s :: "nat mem_ctrl" where n: "new_ctrl ?p j junk rh pkts demo_media (ddr4_dram, nv, plain_mem (2 ^ 33), nm) = Inr (c, s)"
    "cc_dram c = Some ?d" "cc_nvm c = None" "dram_contains c = (\<lambda>a. a < 2 ^ 33)"
    "ctrlReadBufferSize c = 64" "ctrlWriteBufferSize c = 128" "dram_mem s = plain_mem (2 ^ 33)" "rh_defense_enable c = False"
    "numPriorities s = 1" "policy s = None" "totalReadQueueSize s = 0" "respQueue s = []" "memSchedPolicy c = Fcfs"
    "commandWindow c = 10000" "writeQueue s = [[]]" "responsesSent s = []"
    by (rule demo_ctrl_at[of Fcfs False j junk rh pkts nv nm], rule that)
  have same: "?d = ddr4_2400" by (simp add: ddr4_2400_def)
  have D: "dram_only c ddr4_2400 6"
  proof -
    have "ctrl_geom c 6" using n(2) unfolding same
      by (simp add: ctrl_geom_def n(3) geometry_ok_def ddr4_2400_def geometry.defs NO_ROW_def)
    then show ?thesis using n(2) ddr4_burst unfolding same
      by (simp add: dram_only_def n(3,5,6,14)) (simp add: ddr4_2400_def)
  qed
  have cnt: "counted (ranks ddr4_dram) (\<lambda>_. 0)" by (simp add: counted_def ddr4_dram_def new_dram_def new_rank_inv)
  have run: "running c ddr4_2400 6 Map.empty s"
    by (rule running.start[OF n(1) D _ _ ddr4_dram_good cnt]) (simp_all add: demo_params_def)
  have m: "mem_serves c ?pkt s" by (rule demo_serves) (simp_all add: in_dram_def n(2,4,7) plain_mem_def)
  have a: "arrival_ok c 6 0 ?pkt Map.empty s" using m by (simp add: arrival_ok_def defended_def n(8-10))
  have r: "has_room c 6 ?pkt s" by (simp add: has_room_def demo_bursts n testCmdAttrib_def)
  have rt: "ranks_there c (length (ranks (dram_st s)))"
    using run_invD(9)[OF run_kept[OF run]] n(2) unfolding same by (simp add: ranks_there_def dram_good_def)
  obtain q s' where s': "recvTimingReq c 1000 0 ?pkt s = Inr (has_room c 6 ?pkt s, s')"
    "has_room c 6 ?pkt s \<Longrightarrow> (if isWrite ?pkt then write_taken c 6 0 (?pkt\<lparr>pk_qos := q\<rparr>) s s'
       else read_taken c 6 0 (?pkt\<lparr>pk_qos := q\<rparr>) s s')"
    by (rule recv_ok[OF dram_onlyD(1)[OF D] rt run_invD(8)[OF run_kept[OF run]] m, of 1000 0])
      (use a in \<open>auto simp: arrival_ok_def intro: defended_serves\<close>)
  have run': "recvTimingReq c 1000 0 ?pkt s = Inr (True, s')" using s'(1) r by simp
  have t: "read_taken c 6 0 (?pkt\<lparr>pk_qos := q\<rparr>) s s'" using s'(2)[OF r] by (simp add: testCmdAttrib_def)
  have u: "uncovered 6 (?pkt\<lparr>pk_qos := q\<rparr>) s = [(60, 4), (64, 4)]"
    by (simp add: uncovered_def bursts_of_qos demo_bursts n(15) extents_def covered_def)
  have ev: "nextReqEvent s' \<noteq> None" "responsesSent s' = []"
    using t u n(16) unfolding read_taken_def Let_def by simp_all
  have "running c ddr4_2400 6 [0 \<mapsto> ?pkt] s'" using running.arrive[OF run a run'] by simp
  then show thesis by (rule that[OF n(1) run' n(13) _ ev])
qed



text \<open>
  C10. At any time a request that was taken has been answered exactly as often as it should: a write once, when
  it wants an answer; a read once when none of its bursts waits in the read queue or for its answer, before
  that not at all. A request that was never taken is not answered.
\<close>

theorem reads_answered_once:
  assumes "running c d k reqs s"
  shows "count_list (map fst (responsesSent s)) n =
    (case reqs n of None \<Rightarrow> 0
     | Some pkt \<Rightarrow> if isWrite pkt then of_bool (needsResponse pkt)
         else of_bool (n \<notin> mp_pkt ` set (concat (readQueue s) @ respQueue s)))"
  unfolding in_flight run_invD(7)[OF run_kept[OF assms]] answers_of_def by simp

theorem reads_answered_once_witness:
  "\<forall>j junk rh pkts nv nm. \<exists>c s s'. new_ctrl (demo_params False\<lparr>mem_sched_policy := Fcfs\<rparr>) j junk rh pkts demo_media
       (ddr4_dram, nv, plain_mem (2 ^ 33), nm) = Inr (c, s :: nat mem_ctrl) \<and>
     recvTimingReq c 1000 0 (demo_pkt ReadReq 60 8) s = Inr (True, s') \<and>
     0 \<in> mp_pkt ` set (concat (readQueue s') @ respQueue s')"
proof (intro allI)
  fix j junk rh pkts nv nm
  obtain c d and s s' :: "nat mem_ctrl" where n: "new_ctrl (demo_params False\<lparr>mem_sched_policy := Fcfs\<rparr>) j junk rh pkts demo_media
      (ddr4_dram, nv, plain_mem (2 ^ 33), nm) = Inr (c, s)"
    "recvTimingReq c 1000 0 (demo_pkt ReadReq 60 8) s = Inr (True, s')" "memSchedPolicy c = Fcfs"
    "running c d 6 [0 \<mapsto> demo_pkt ReadReq 60 8] s'" "responsesSent s' = []"
    by (rule demo_running)
  have "0 \<in> mp_pkt ` set (concat (readQueue s') @ respQueue s')"
    using reads_answered_once[OF n(4), of 0] n(5) by (simp add: testCmdAttrib_def)
  then  show "\<exists>c s s'. new_ctrl (demo_params False\<lparr>mem_sched_policy := Fcfs\<rparr>) j junk rh pkts demo_media
       (ddr4_dram, nv, plain_mem (2 ^ 33), nm) = Inr (c, s :: nat mem_ctrl) \<and>
     recvTimingReq c 1000 0 (demo_pkt ReadReq 60 8) s = Inr (True, s') \<and>
     0 \<in> mp_pkt ` set (concat (readQueue s') @ respQueue s')" using n(1,2) by blast
qed

text \<open>
  C11. Every read is answered: with first-come first-served scheduling, once no more requests arrive, the events
  of the controller in any order drain the reads in a bounded number of steps.
\<close>

theorem all_reads_answered:
  assumes "running c d k reqs s" and "memSchedPolicy c = Fcfs"
  shows "\<exists>s'. serve_events c d pick (work s) s = Inr s' \<and>
    (\<forall>n pkt. reqs n = Some pkt \<and> \<not> isWrite pkt \<longrightarrow> count_list (map fst (responsesSent s')) n = 1)"
proof -
  obtain s' where s': "serve_events c d pick (work s) s = Inr s'" "running c d k reqs s'" "flight s' = {#}"
    using serve_events_ok[OF assms order_refl] by blast
  have "count_list (map fst (responsesSent s')) n = 1" if "reqs n = Some pkt \<and> \<not> isWrite pkt" for n pkt
    unfolding run_invD(7)[OF run_kept[OF s'(2)]] using that s'(3) by (simp add: answers_of_def bursts_due_def)
  then show ?thesis using s'(1) by blast
qed

theorem all_reads_answered_witness:
  "\<forall>j junk rh pkts nv nm. \<exists>c s s'. new_ctrl (demo_params False\<lparr>mem_sched_policy := Fcfs\<rparr>) j junk rh pkts demo_media
       (ddr4_dram, nv, plain_mem (2 ^ 33), nm) = Inr (c, s :: nat mem_ctrl) \<and>
     recvTimingReq c 1000 0 (demo_pkt ReadReq 60 8) s = Inr (True, s') \<and>
     (\<forall>pick. \<exists>d s''. serve_events c d pick (work s') s' = Inr s'' \<and> count_list (map fst (responsesSent s'')) 0 = 1)"
proof (intro allI)
  fix j junk rh pkts nv nm
  obtain c d and s s' :: "nat mem_ctrl" where n: "new_ctrl (demo_params False\<lparr>mem_sched_policy := Fcfs\<rparr>) j junk rh pkts demo_media
      (ddr4_dram, nv, plain_mem (2 ^ 33), nm) = Inr (c, s)"
    "recvTimingReq c 1000 0 (demo_pkt ReadReq 60 8) s = Inr (True, s')" "memSchedPolicy c = Fcfs"
    "running c d 6 [0 \<mapsto> demo_pkt ReadReq 60 8] s'" "responsesSent s' = []"
    by (rule demo_running)
  have "\<forall>pick. \<exists>d s''. serve_events c d pick (work s') s' = Inr s'' \<and> count_list (map fst (responsesSent s'')) 0 = 1"
  proof
    fix pick
    show "\<exists>d s''. serve_events c d pick (work s') s' = Inr s'' \<and> count_list (map fst (responsesSent s'')) 0 = 1"
      using all_reads_answered[OF n(4,3), of pick] by (force simp: testCmdAttrib_def)
  qed
  then  show "\<exists>c s s'. new_ctrl (demo_params False\<lparr>mem_sched_policy := Fcfs\<rparr>) j junk rh pkts demo_media
       (ddr4_dram, nv, plain_mem (2 ^ 33), nm) = Inr (c, s :: nat mem_ctrl) \<and>
     recvTimingReq c 1000 0 (demo_pkt ReadReq 60 8) s = Inr (True, s') \<and>
     (\<forall>pick. \<exists>d s''. serve_events c d pick (work s') s' = Inr s'' \<and> count_list (map fst (responsesSent s'')) 0 = 1)" using n(1,2) by blast
qed

text \<open>
  C12. The shape of every reachable state: one queue for each priority, the counters count what is queued, reads
  on their way and queued writes fit their buffers, the answers due are in the order of their ticks with the
  response event at the first one, a request event is pending while a read is queued, and each rank counts its
  outstanding events exactly.
\<close>

theorem reachable_shape:
  assumes "running c d k reqs s"
  shows "length (readQueue s) = numPriorities s \<and> length (writeQueue s) = numPriorities s \<and>
    totalReadQueueSize s = length (concat (readQueue s)) \<and> totalWriteQueueSize s = length (concat (writeQueue s)) \<and>
    totalReadQueueSize s + length (respQueue s) \<le> ctrlReadBufferSize c \<and> totalWriteQueueSize s \<le> ctrlWriteBufferSize c \<and>
    sorted (map readyTime (respQueue s)) \<and>
    respondEvent s = (case respQueue s of [] \<Rightarrow> None | p # _ \<Rightarrow> Some (readyTime p)) \<and>
    (0 < totalReadQueueSize s \<longrightarrow> nextReqEvent s \<noteq> None) \<and>
    (\<forall>j < length (ranks (dram_st s)). outstandingEvents (ranks (dram_st s) ! j) =
       of_bool (prechargeEvent (ranks (dram_st s) ! j) \<noteq> None) + of_bool (writeDoneEvent (ranks (dram_st s) ! j) \<noteq> None) +
       length (filter (\<lambda>p. mp_rank p = j) (respQueue s)))"
proof -
  note I = run_kept[OF assms]
  note R = run_invD[OF I]
  note C = ctrl_invD[OF R(8)]
  have S: "sorted (map readyTime (respQueue s))" "respondEvent s = (case respQueue s of [] \<Rightarrow> None | p # _ \<Rightarrow> Some (readyTime p))"
    "counted (ranks (dram_st s)) (\<lambda>j. reads_on j (respQueue s))"
    using R(2) by (simp_all add: serving_def answers_due_def)
  have "outstandingEvents (ranks (dram_st s) ! j) =
      of_bool (prechargeEvent (ranks (dram_st s) ! j) \<noteq> None) + of_bool (writeDoneEvent (ranks (dram_st s) ! j) \<noteq> None) +
      length (filter (\<lambda>p. mp_rank p = j) (respQueue s))" if j: "j < length (ranks (dram_st s))" for j
  proof -
    let ?r = "ranks (dram_st s) ! j"
    have "refreshState ?r = REF_IDLE" using R(9) j by (simp add: dram_good_def good_rank_def)
    moreover have "rank_inv ?r (reads_on j (respQueue s))" using S(3) j unfolding counted_def by blast
    moreover have "reads_on j (respQueue s) \<le> 253"
      unfolding reads_on_def using C(4) dram_onlyD(9)[OF R(1)] by (intro order_trans[OF length_filter_le]) simp
    ultimately show ?thesis by (simp add: rank_inv_def pending_def reads_on_def of_bool_def)
  qed
  then show ?thesis using C(4-9) S(1,2) R(5) by (simp add: contents_def extents_def)
qed

theorem reachable_shape_witness:
  "\<forall>j junk rh pkts nv nm. \<exists>c s s'. new_ctrl (demo_params False\<lparr>mem_sched_policy := Fcfs\<rparr>) j junk rh pkts demo_media
       (ddr4_dram, nv, plain_mem (2 ^ 33), nm) = Inr (c, s :: nat mem_ctrl) \<and>
     recvTimingReq c 1000 0 (demo_pkt ReadReq 60 8) s = Inr (True, s') \<and>
     totalReadQueueSize s' = length (concat (readQueue s')) \<and> respondEvent s' = (case respQueue s' of [] \<Rightarrow> None | p # _ \<Rightarrow> Some (readyTime p))"
proof (intro allI)
  fix j junk rh pkts nv nm
  obtain c d and s s' :: "nat mem_ctrl" where n: "new_ctrl (demo_params False\<lparr>mem_sched_policy := Fcfs\<rparr>) j junk rh pkts demo_media
      (ddr4_dram, nv, plain_mem (2 ^ 33), nm) = Inr (c, s)"
    "recvTimingReq c 1000 0 (demo_pkt ReadReq 60 8) s = Inr (True, s')" "memSchedPolicy c = Fcfs"
    "running c d 6 [0 \<mapsto> demo_pkt ReadReq 60 8] s'" "responsesSent s' = []"
    by (rule demo_running)
  have "totalReadQueueSize s' = length (concat (readQueue s')) \<and> respondEvent s' = (case respQueue s' of [] \<Rightarrow> None | p # _ \<Rightarrow> Some (readyTime p))"
    using reachable_shape[OF n(4)] by blast
  then  show "\<exists>c s s'. new_ctrl (demo_params False\<lparr>mem_sched_policy := Fcfs\<rparr>) j junk rh pkts demo_media
       (ddr4_dram, nv, plain_mem (2 ^ 33), nm) = Inr (c, s :: nat mem_ctrl) \<and>
     recvTimingReq c 1000 0 (demo_pkt ReadReq 60 8) s = Inr (True, s') \<and>
     totalReadQueueSize s' = length (concat (readQueue s')) \<and> respondEvent s' = (case respQueue s' of [] \<Rightarrow> None | p # _ \<Rightarrow> Some (readyTime p))" using n(1,2) by blast
qed

end
