(* ===== verification/Packet_Queue.thy ===== *)
theory Packet_Queue
  imports Abstract_Mem Dram_Select
begin

text \<open>
  The queue of deferred packets of a port: \<open>packet_queue.{hh,cc}\<close>, and the functions of \<open>packet.{hh,cc}\<close> it
  uses. The memory controller gives its answers to such a queue (\<open>schedTimingResp\<close> of \<open>qport.hh\<close>, with
  forced order), and the queue sends each at its tick or waits until the peer asks for it again.

  A packet is named by a number, as in \<open>Mem_Ctrl\<close>, and \<open>pkts\<close> is the store of packets. What the peer does
  with a packet (\<open>sendTiming\<close>) is an argument: whether it takes it, and the packets it gives to the same queue
  before it returns, which the code allows for. The label that is pushed on the packet for tracing, and the
  name of the queue, are left out.
\<close>

section \<open>Packets on a port\<close>

record port_packet = packet +
  pk_secure :: bool
  pk_expressSnoop :: bool
  pk_bytesValid :: "bool list"

definition getBlockAddr :: "nat \<Rightarrow> port_packet \<Rightarrow> addr" where
  "getBlockAddr blk p = burstAlign blk (pk_addr p)"

definition matchBlockAddr :: "nat \<Rightarrow> port_packet \<Rightarrow> port_packet \<Rightarrow> bool" where
  "matchBlockAddr blk p x \<longleftrightarrow> getBlockAddr blk p = getBlockAddr blk x \<and> pk_secure p = pk_secure x"

definition matchAddr :: "port_packet \<Rightarrow> port_packet \<Rightarrow> bool" where
  "matchAddr p x \<longleftrightarrow> pk_addr p = pk_addr x \<and> pk_secure p = pk_secure x"

text \<open>\<open>std::memcpy\<close> of bytes to a place in the payload.\<close>

definition copy_to :: "nat \<Rightarrow> 'a list \<Rightarrow> 'a list \<Rightarrow> 'a list" where
  "copy_to i new old = take i old @ new @ drop (i + length new) old"

text \<open>The last byte of an access, with the wrap-around of 64 bits for an empty one at address 0.\<close>

definition last_byte :: "port_packet \<Rightarrow> addr" where
  "last_byte p = sub_tick (pk_addr p + pk_size p) 1"

text \<open>
  \<open>Packet::trySatisfyFunctional\<close>: the packet \<open>p\<close> of a functional access reads from or writes to the data of
  the packet \<open>x\<close> that waits. The result says that all bytes of a read have been found.
\<close>

definition read_from :: "nat \<Rightarrow> nat list \<Rightarrow> port_packet \<Rightarrow> bool \<times> port_packet" where
  "read_from i new p =
     (let valid = (if pk_bytesValid p = [] then replicate (pk_size p) False else pk_bytesValid p);
          below = list_all (\<lambda>b. b) (take i valid);
          valid' = copy_to i (replicate (length new) True) valid
      in (below \<and> list_all (\<lambda>b. b) (drop (i + length new) valid'),
          p\<lparr>pk_data := copy_to i new (pk_data p), pk_bytesValid := valid'\<rparr>))"

definition satisfy_data :: "port_packet \<Rightarrow> port_packet \<Rightarrow> (bool \<times> port_packet \<times> port_packet) res" where
  "satisfy_data p x =
     (let func_start = pk_addr p; func_end = last_byte p; val_start = pk_addr x; val_end = last_byte x;
          val_offset = (if val_start < func_start then func_start - val_start else 0);
          func_offset = (if func_start < val_start then val_start - func_start else 0);
          overlap_size = min val_end func_end + 1 - max val_start func_start
      in if testCmdAttrib IsRead (pk_cmd p)
         then case read_from func_offset (take overlap_size (drop val_offset (pk_data x))) p of
                (found, p') \<Rightarrow> Inr (found, p', x)
         else if testCmdAttrib IsWrite (pk_cmd p)
         then Inr (False, p, x\<lparr>pk_data := copy_to val_offset (take overlap_size (drop func_offset (pk_data p))) (pk_data x)\<rparr>)
         else Inl Panic)"

definition trySatisfyFunctional :: "port_packet \<Rightarrow> port_packet \<Rightarrow> (bool \<times> port_packet \<times> port_packet) res" where
  "trySatisfyFunctional p x =
     (if isMaskedWrite (packet.truncate x) then Inr (False, p, x)
      else if pk_secure x \<noteq> pk_secure p \<or> last_byte x < pk_addr p \<or> last_byte p < pk_addr x then Inr (False, p, x)
      else if testCmdAttrib IsPrint (pk_cmd p)
      then rassert (\<not> testCmdAttrib HasData (pk_cmd x)) (Inr (False, p, x))
      else if \<not> testCmdAttrib HasData (pk_cmd x) then Inr (False, p, x)
      else satisfy_data p x)"

section \<open>The queue\<close>

record pqueue =
  transmitList :: "(tick \<times> nat) list"
  sendEvent :: "tick option"
  sanityCheckOff :: bool
  forceOrder :: bool
  waitingOnRetry :: bool
  pq_drainState :: drain_state

definition new_pqueue :: "bool \<Rightarrow> bool \<Rightarrow> pqueue" where
  "new_pqueue force_order disable_sanity_check =
     \<lparr>transmitList = [], sendEvent = None, sanityCheckOff = disable_sanity_check, forceOrder = force_order,
      waitingOnRetry = False, pq_drainState = Running\<rparr>"

definition checkConflict :: "(nat \<Rightarrow> port_packet) \<Rightarrow> port_packet \<Rightarrow> nat \<Rightarrow> pqueue \<Rightarrow> bool" where
  "checkConflict pkts p blk q = list_ex (\<lambda>x. matchBlockAddr blk (pkts (snd x)) p) (transmitList q)"

fun satisfy_loop ::
    "port_packet \<Rightarrow> (tick \<times> nat) list \<Rightarrow> (nat \<Rightarrow> port_packet) \<Rightarrow> (bool \<times> port_packet \<times> (nat \<Rightarrow> port_packet)) res" where
  "satisfy_loop p [] pkts = Inr (False, p, pkts)"
| "satisfy_loop p (x # xs) pkts =
     rbind (trySatisfyFunctional p (pkts (snd x))) (\<lambda>(found, p', x').
       let pkts' = pkts(snd x := x')
       in if found then Inr (True, p', pkts') else satisfy_loop p' xs pkts')"

definition pq_trySatisfyFunctional ::
    "port_packet \<Rightarrow> pqueue \<Rightarrow> (nat \<Rightarrow> port_packet) \<Rightarrow> (bool \<times> port_packet \<times> (nat \<Rightarrow> port_packet)) res" where
  "pq_trySatisfyFunctional p q pkts = satisfy_loop p (transmitList q) pkts"

definition deferredPacketReady :: "tick \<Rightarrow> pqueue \<Rightarrow> bool" where
  "deferredPacketReady now q = (case transmitList q of [] \<Rightarrow> False | x # _ \<Rightarrow> fst x \<le> now)"

definition deferredPacketReadyTime :: "pqueue \<Rightarrow> tick" where
  "deferredPacketReadyTime q = (case transmitList q of [] \<Rightarrow> MaxTick | x # _ \<Rightarrow> fst x)"

definition schedSendEvent :: "tick \<Rightarrow> tick \<Rightarrow> pqueue \<Rightarrow> pqueue res" where
  "schedSendEvent now t q =
     (if waitingOnRetry q then rassert (sendEvent q = None) (Inr q)
      else if t \<noteq> MaxTick
      then let w = max t (now + 1)
           in case sendEvent q of
                None \<Rightarrow> rbind (schedule now w (sendEvent q)) (\<lambda>ev. Inr (q\<lparr>sendEvent := ev\<rparr>))
              | Some w0 \<Rightarrow> if w < w0 then rbind (reschedule now w (sendEvent q)) (\<lambda>ev. Inr (q\<lparr>sendEvent := ev\<rparr>)) else Inr q
      else if pq_drainState q = Draining \<and> transmitList q = [] \<and> sendEvent q = None
      then Inr (q\<lparr>pq_drainState := Drained\<rparr>)
      else Inr q)"

text \<open>
  The search from the end of the list, here over the reversed list; the flag says that the packet became
  the first one.
\<close>

fun place :: "(nat \<Rightarrow> bool) \<Rightarrow> tick \<Rightarrow> nat \<Rightarrow> (tick \<times> nat) list \<Rightarrow> (tick \<times> nat) list \<times> bool" where
  "place stop t n [] = ([(t, n)], True)"
| "place stop t n (x # xs) =
     (if stop (snd x) \<or> fst x \<le> t then ((t, n) # x # xs, False)
      else case place stop t n xs of (ys, front) \<Rightarrow> (x # ys, front))"

definition schedSendTiming :: "tick \<Rightarrow> (nat \<Rightarrow> port_packet) \<Rightarrow> nat \<Rightarrow> tick \<Rightarrow> pqueue \<Rightarrow> pqueue res" where
  "schedSendTiming now pkts n t q =
     rassert (now \<le> t) (rassert (\<not> pk_expressSnoop (pkts n))
      (if \<not> sanityCheckOff q \<and> 128 < length (transmitList q) then Inl Panic
       else case place (\<lambda>m. forceOrder q \<and> matchAddr (pkts m) (pkts n)) t n (rev (transmitList q)) of
              (xs, front) \<Rightarrow>
                let q1 = q\<lparr>transmitList := rev xs\<rparr>
                in if front then schedSendEvent now t q1 else Inr q1))"

text \<open>What the peer does with a packet: whether it takes it, and what it gives to the queue meanwhile.\<close>

type_synonym reply = "bool \<times> (nat \<times> tick) list"

fun sched_all :: "tick \<Rightarrow> (nat \<Rightarrow> port_packet) \<Rightarrow> (nat \<times> tick) list \<Rightarrow> pqueue \<Rightarrow> pqueue res" where
  "sched_all now pkts [] q = Inr q"
| "sched_all now pkts (x # xs) q = rbind (schedSendTiming now pkts (fst x) (snd x) q) (sched_all now pkts xs)"

definition sendDeferredPacket :: "tick \<Rightarrow> (nat \<Rightarrow> port_packet) \<Rightarrow> reply \<Rightarrow> pqueue \<Rightarrow> pqueue res" where
  "sendDeferredPacket now pkts peer q =
     rassert (\<not> waitingOnRetry q) (rassert (deferredPacketReady now q)
      (let dp = hd (transmitList q); q1 = q\<lparr>transmitList := tl (transmitList q)\<rparr>
       in rbind (sched_all now pkts (snd peer) q1) (\<lambda>q2.
          let q3 = q2\<lparr>waitingOnRetry := \<not> fst peer\<rparr>
          in if fst peer then schedSendEvent now (deferredPacketReadyTime q3) q3
             else Inr (q3\<lparr>transmitList := dp # transmitList q3\<rparr>))))"

definition processSendEvent :: "tick \<Rightarrow> (nat \<Rightarrow> port_packet) \<Rightarrow> reply \<Rightarrow> pqueue \<Rightarrow> pqueue res" where
  "processSendEvent now pkts peer q = rassert (\<not> waitingOnRetry q) (sendDeferredPacket now pkts peer q)"

definition pq_retry :: "tick \<Rightarrow> (nat \<Rightarrow> port_packet) \<Rightarrow> reply \<Rightarrow> pqueue \<Rightarrow> pqueue res" where
  "pq_retry now pkts peer q =
     rassert (waitingOnRetry q) (sendDeferredPacket now pkts peer (q\<lparr>waitingOnRetry := False\<rparr>))"

definition pq_drain :: "pqueue \<Rightarrow> drain_state" where
  "pq_drain q = (if transmitList q = [] then Drained else Draining)"

end
