(* ===== verification/Packet_Queue_Safe.thy ===== *)
theory Packet_Queue_Safe
  imports Packet_Queue
begin

text \<open>
  The packet queue of a port as a state machine. \<open>pq_run\<close> is its runs: packets are given to it, its send event
  is called at its tick, and the peer asks for a packet again after it refused one; ticks never decrease and an
  event is never passed. A run carries the packets given so far with the ticks they are due at, and the packets
  taken by the peer with the ticks at which they were sent. A peer that refuses a packet gives none to the
  queue meanwhile: otherwise the send event may be pending while the queue waits, and the next call of it fails
  (\<open>refusing_peer_breaks\<close>).
\<close>

section \<open>Placing a packet\<close>

lemma place_split:
  assumes "place stop t n l = (l', front)"
  obtains xs ys where "l = xs @ ys" "l' = xs @ (t, n) # ys" "front \<longleftrightarrow> ys = []"
    "\<forall>x \<in> set xs. \<not> stop (snd x) \<and> t < fst x" "ys \<noteq> [] \<Longrightarrow> stop (snd (hd ys)) \<or> fst (hd ys) \<le> t"
proof -
  have "\<exists>xs ys. l = xs @ ys \<and> l' = xs @ (t, n) # ys \<and> (front \<longleftrightarrow> ys = []) \<and>
      (\<forall>x \<in> set xs. \<not> stop (snd x) \<and> t < fst x) \<and> (ys \<noteq> [] \<longrightarrow> stop (snd (hd ys)) \<or> fst (hd ys) \<le> t)"
    using assms
  proof (induction l arbitrary: l' front)
    case Nil
    then show ?case by (intro exI[of _ "[]"]) auto
  next
    case (Cons x l)
    show ?case
    proof (cases "stop (snd x) \<or> fst x \<le> t")
      case True
      then show ?thesis using Cons.prems by (intro exI[of _ "[]"] exI[of _ "x # l"]) auto
    next
      case False
      obtain l1 f1 where p: "place stop t n l = (l1, f1)" by (cases "place stop t n l")
      obtain xs ys where "l = xs @ ys \<and> l1 = xs @ (t, n) # ys \<and> (f1 \<longleftrightarrow> ys = []) \<and>
          (\<forall>x \<in> set xs. \<not> stop (snd x) \<and> t < fst x) \<and> (ys \<noteq> [] \<longrightarrow> stop (snd (hd ys)) \<or> fst (hd ys) \<le> t)"
        using Cons.IH[OF p] by blast
      then show ?thesis using False Cons.prems p by (intro exI[of _ "x # xs"] exI[of _ ys]) auto
    qed
  qed
  then show thesis using that by blast
qed

text \<open>A packet was put into the list.\<close>

definition put :: "(nat \<Rightarrow> bool) \<Rightarrow> tick \<Rightarrow> nat \<Rightarrow> (tick \<times> nat) list \<Rightarrow> (tick \<times> nat) list \<Rightarrow> bool" where
  "put stop t n l l' \<longleftrightarrow> (\<exists>A B. l = A @ B \<and> l' = A @ (t, n) # B \<and> (\<forall>x \<in> set B. \<not> stop (snd x) \<and> t < fst x) \<and>
     (A \<noteq> [] \<longrightarrow> stop (snd (last A)) \<or> fst (last A) \<le> t))"

section \<open>What holds between calls\<close>

definition event_ok :: "tick \<Rightarrow> pqueue \<Rightarrow> bool" where
  "event_ok now q \<longleftrightarrow> (waitingOnRetry q \<longrightarrow> sendEvent q = None \<and> transmitList q \<noteq> [] \<and> fst (hd (transmitList q)) \<le> now) \<and>
     (\<forall>w. sendEvent q = Some w \<longrightarrow> now \<le> w \<and> transmitList q \<noteq> [] \<and> fst (hd (transmitList q)) \<le> w)"

definition armed :: "pqueue \<Rightarrow> bool" where
  "armed q \<longleftrightarrow> (transmitList q \<noteq> [] \<and> \<not> waitingOnRetry q \<and> fst (hd (transmitList q)) \<noteq> MaxTick \<longrightarrow> sendEvent q \<noteq> None)"

definition framed :: "pqueue \<Rightarrow> pqueue \<Rightarrow> bool" where
  "framed q q' \<longleftrightarrow> forceOrder q' = forceOrder q \<and> sanityCheckOff q' = sanityCheckOff q \<and> waitingOnRetry q' = waitingOnRetry q"

definition givable :: "tick \<Rightarrow> (nat \<Rightarrow> port_packet) \<Rightarrow> pqueue \<Rightarrow> (nat \<times> tick) list \<Rightarrow> bool" where
  "givable now pkts q l \<longleftrightarrow> (\<forall>x \<in> set l. now \<le> snd x \<and> \<not> pk_expressSnoop (pkts (fst x))) \<and>
     (sanityCheckOff q \<or> length (transmitList q) + length l \<le> 129)"

lemma schedSendEvent_ok:
  assumes ev: "\<forall>w. sendEvent q = Some w \<longrightarrow> now \<le> w" and w: "\<not> waitingOnRetry q"
  obtains q' where "schedSendEvent now t q = Inr q'" "framed q q'" "transmitList q' = transmitList q"
    "\<forall>w. sendEvent q' = Some w \<longrightarrow> now \<le> w \<and> (t \<noteq> MaxTick \<longrightarrow> t \<le> w \<or> sendEvent q = Some w \<and> w \<le> max t (now + 1))"
    "t \<noteq> MaxTick \<longrightarrow> sendEvent q' \<noteq> None" "t = MaxTick \<longrightarrow> sendEvent q' = sendEvent q"
proof (cases "t = MaxTick")
  case True
  then show thesis using w ev that[of "if pq_drainState q = Draining \<and> transmitList q = [] \<and> sendEvent q = None
      then q\<lparr>pq_drainState := Drained\<rparr> else q"] by (auto simp: schedSendEvent_def framed_def)
next
  case False
  show thesis
  proof (cases "sendEvent q")
    case None
    then show thesis using False w that[of "q\<lparr>sendEvent := Some (max t (now + 1))\<rparr>"]
      by (simp add: schedSendEvent_def schedule_def framed_def Let_def)
  next
    case (Some w0)
    show thesis
    proof (cases "max t (now + 1) < w0")
      case True
      then show thesis using Some False w that[of "q\<lparr>sendEvent := Some (max t (now + 1))\<rparr>"]
        by (simp add: schedSendEvent_def reschedule_def framed_def Let_def)
    next
      case no: False
      then have "schedSendEvent now t q = Inr q" using Some False w by (auto simp: schedSendEvent_def Let_def)
      then show thesis using that[of q] Some False no ev by (simp only: not_less) (simp add: framed_def le_max_iff_disj)
    qed
  qed
qed

lemma schedSendTiming_ok:
  assumes E: "event_ok now q" and g: "givable now pkts q [(n, t)]"
  obtains q' where "schedSendTiming now pkts n t q = Inr q'" "framed q q'" "event_ok now q'" "armed q \<longrightarrow> armed q'"
    "put (\<lambda>m. forceOrder q \<and> matchAddr (pkts m) (pkts n)) t n (transmitList q) (transmitList q')"
proof -
  let ?stop = "\<lambda>m. forceOrder q \<and> matchAddr (pkts m) (pkts n)"
  have ok: "now \<le> t" "\<not> pk_expressSnoop (pkts n)" "\<not> (\<not> sanityCheckOff q \<and> 128 < length (transmitList q))"
    using g by (auto simp: givable_def)
  obtain l' front where p: "place ?stop t n (rev (transmitList q)) = (l', front)"
    by (cases "place ?stop t n (rev (transmitList q))")
  obtain xs ys where xy: "rev (transmitList q) = xs @ ys" "l' = xs @ (t, n) # ys" "front \<longleftrightarrow> ys = []"
    "\<forall>x \<in> set xs. \<not> ?stop (snd x) \<and> t < fst x" "ys \<noteq> [] \<Longrightarrow> ?stop (snd (hd ys)) \<or> fst (hd ys) \<le> t"
    by (rule place_split[OF p], rule that)
  let ?A = "rev ys" and ?B = "rev xs"
  let ?q = "q\<lparr>transmitList := rev l'\<rparr>"
  have l: "transmitList q = ?A @ ?B" using arg_cong[OF xy(1), of rev] by simp
  have l': "rev l' = ?A @ (t, n) # ?B" by (simp add: xy(2))
  have pt: "put ?stop t n (transmitList q) (rev l')"
    unfolding put_def using l l' xy(4,5) by (intro exI[of _ ?A] exI[of _ ?B]) (simp add: last_rev)
  have run: "schedSendTiming now pkts n t q = (if front then schedSendEvent now t ?q else Inr ?q)"
    using ok p by (auto simp: schedSendTiming_def Let_def)
  show thesis
  proof (cases front)
    case True
    then have A: "ys = []" using xy(3) by simp
    have w: "\<not> waitingOnRetry q"
    proof
      assume "waitingOnRetry q"
      then have "transmitList q \<noteq> []" "fst (hd (transmitList q)) \<le> now" using E by (simp_all add: event_ok_def)
      moreover have "t < fst (hd (transmitList q))" using xy(4) l A \<open>transmitList q \<noteq> []\<close> by (metis append_Nil hd_in_set rev.simps(1) set_rev)
      ultimately show False using ok(1) by simp
    qed
    have ev: "\<forall>w. sendEvent ?q = Some w \<longrightarrow> now \<le> w" using E by (simp add: event_ok_def)
    obtain q' where q': "schedSendEvent now t ?q = Inr q'" "framed ?q q'" "transmitList q' = transmitList ?q"
      "\<forall>w. sendEvent q' = Some w \<longrightarrow> now \<le> w \<and> (t \<noteq> MaxTick \<longrightarrow> t \<le> w \<or> sendEvent ?q = Some w \<and> w \<le> max t (now + 1))"
      "t \<noteq> MaxTick \<longrightarrow> sendEvent q' \<noteq> None" "t = MaxTick \<longrightarrow> sendEvent q' = sendEvent ?q"
      by (rule schedSendEvent_ok[OF ev, of t]) (use w in simp, rule that)
    have late: "t \<le> w0" if "sendEvent q = Some w0" for w0
    proof -
      have "transmitList q \<noteq> []" "fst (hd (transmitList q)) \<le> w0" using E that by (simp_all add: event_ok_def)
      moreover have "t < fst (hd (transmitList q))" using xy(4) l A \<open>transmitList q \<noteq> []\<close> by (metis append_Nil hd_in_set rev.simps(1) set_rev)
      ultimately show ?thesis by simp
    qed
    have hd: "transmitList q' = (t, n) # ?B" using q'(3) l' A by simp
    have "event_ok now q'" using q'(2,4,6) w late by (auto simp: event_ok_def hd framed_def)
    moreover have "armed q'" using q'(5) by (simp add: armed_def hd)
    ultimately show thesis using that q' run True pt by (simp add: framed_def)
  next
    case False
    then have A: "?A \<noteq> []" using xy(3) by simp
    then have hd: "transmitList q \<noteq> []" "rev l' \<noteq> []" "hd (rev l') = hd (transmitList q)" by (simp_all add: l l')
    have "event_ok now ?q" using E hd by (simp add: event_ok_def)
    moreover have "armed q \<longrightarrow> armed ?q" using hd by (simp add: armed_def)
    ultimately show thesis using that[of ?q] run False pt by (simp add: framed_def)
  qed
qed


lemma put_props:
  assumes "put stop t n l l'"
  shows "mset l' = add_mset (t, n) (mset l)" "length l' = length l + 1"
    "\<And>P. (\<And>m. P n \<Longrightarrow> P m \<Longrightarrow> stop m) \<Longrightarrow>
       filter P (map snd l') = filter P (map snd l) @ (if P n then [n] else [])"
    "(\<And>m. \<not> stop m) \<Longrightarrow> sorted (map fst l) \<Longrightarrow> sorted (map fst l')"
proof -
  obtain A B where p: "l = A @ B" "l' = A @ (t, n) # B" "\<forall>x \<in> set B. \<not> stop (snd x) \<and> t < fst x"
    "A \<noteq> [] \<longrightarrow> stop (snd (last A)) \<or> fst (last A) \<le> t" using assms unfolding put_def by blast
  show "mset l' = add_mset (t, n) (mset l)" "length l' = length l + 1" by (simp_all add: p(1,2))
  show "filter P (map snd l') = filter P (map snd l) @ (if P n then [n] else [])" if "\<And>m. P n \<Longrightarrow> P m \<Longrightarrow> stop m" for P
  proof (cases "P n")
    case True
    then have "\<forall>m \<in> set (map snd B). \<not> P m" using that p(3) by auto
    then have "filter P (map snd B) = []" by (simp add: filter_empty_conv)
    then show ?thesis using True by (simp add: p(1,2))
  qed (simp add: p(1,2))
  show "sorted (map fst l')" if no: "\<And>m. \<not> stop m" and srt: "sorted (map fst l)"
  proof -
    have "x \<le> t" if "x \<in> set (map fst A)" for x
    proof -
      have "A \<noteq> []" using that by auto
      then have "map fst A = map fst (butlast A) @ [fst (last A)]" by (metis append_butlast_last_id list.map(1,2) map_append)
      moreover have "sorted (map fst A)" using srt by (simp add: p(1) sorted_append)
      ultimately have "x \<le> fst (last A)" using that by (auto simp: sorted_append)
      then show ?thesis using p(4) no \<open>A \<noteq> []\<close> by auto
    qed
    then show ?thesis using srt p(3) by (force simp: p(1,2) sorted_append)
  qed
qed

section \<open>Several packets, and sending one\<close>

text \<open>The packets \<open>l\<close> were added to the queue.\<close>

definition same_addr :: "(nat \<Rightarrow> port_packet) \<Rightarrow> nat \<Rightarrow> nat \<Rightarrow> bool" where
  "same_addr pkts a m \<longleftrightarrow> matchAddr (pkts m) (pkts a)"

definition added :: "(nat \<Rightarrow> port_packet) \<Rightarrow> (nat \<times> tick) list \<Rightarrow> pqueue \<Rightarrow> (tick \<times> nat) list \<Rightarrow> (tick \<times> nat) list \<Rightarrow> bool" where
  "added pkts l q xs xs' \<longleftrightarrow> mset (map prod.swap xs') = mset (map prod.swap xs) + mset l \<and>
     (forceOrder q \<longrightarrow> (\<forall>a. filter (same_addr pkts a) (map snd xs') =
        filter (same_addr pkts a) (map snd xs) @ filter (same_addr pkts a) (map fst l))) \<and>
     (\<not> forceOrder q \<longrightarrow> sorted (map fst xs) \<longrightarrow> sorted (map fst xs'))"

lemma added_put:
  assumes "put (\<lambda>m. forceOrder q \<and> matchAddr (pkts m) (pkts n)) t n xs xs'"
  shows "added pkts [(n, t)] q xs xs'"
proof -
  note p = put_props[OF assms]
  have m: "mset (map prod.swap xs') = mset (map prod.swap xs) + mset [(n, t)]" by (simp add: p(1))
  have f: "filter (same_addr pkts a) (map snd xs') = filter (same_addr pkts a) (map snd xs) @ filter (same_addr pkts a) (map fst [(n, t)])"
    if "forceOrder q" for a
    using that by (subst p(3)) (auto simp: same_addr_def matchAddr_def)
  show ?thesis unfolding added_def using m f p(4) by blast
qed

lemma sched_all_ok:
  assumes "event_ok now q" and "givable now pkts q l"
  obtains q' where "sched_all now pkts l q = Inr q'" "framed q q'" "event_ok now q'" "armed q \<longrightarrow> armed q'"
    "added pkts l q (transmitList q) (transmitList q')"
proof -
  have "\<exists>q'. sched_all now pkts l q = Inr q' \<and> framed q q' \<and> event_ok now q' \<and> (armed q \<longrightarrow> armed q') \<and>
      added pkts l q (transmitList q) (transmitList q')"
    using assms
  proof (induction l arbitrary: q)
    case Nil
    then show ?case by (simp add: framed_def added_def)
  next
    case (Cons x l)
    obtain n t where x: "x = (n, t)" by (cases x)
    have g: "givable now pkts q [(n, t)]" using Cons.prems(2) by (auto simp: givable_def x)
    obtain q1 where q1: "schedSendTiming now pkts n t q = Inr q1" "framed q q1" "event_ok now q1" "armed q \<longrightarrow> armed q1"
      "put (\<lambda>m. forceOrder q \<and> matchAddr (pkts m) (pkts n)) t n (transmitList q) (transmitList q1)"
      by (rule schedSendTiming_ok[OF Cons.prems(1) g], rule that)
    have "givable now pkts q1 l" using Cons.prems(2) q1(2) put_props(2)[OF q1(5)] by (auto simp: givable_def framed_def)
    then obtain q' where q': "sched_all now pkts l q1 = Inr q'" "framed q1 q'" "event_ok now q'" "armed q1 \<longrightarrow> armed q'"
      "added pkts l q1 (transmitList q1) (transmitList q')" using Cons.IH[OF q1(3)] by blast
    have "added pkts (x # l) q (transmitList q) (transmitList q')"
      using added_put[OF q1(5)] q'(5) q1(2) by (auto simp: added_def framed_def x)
    then show ?case using q' q1 by (auto simp: framed_def x)
  qed
  then show thesis using that by blast
qed

text \<open>The first packet of a queue that is due is sent, or kept when the peer refuses it.\<close>

lemma send_ok:
  assumes w: "\<not> waitingOnRetry q" "sendEvent q = None" and l: "transmitList q = (t, n) # rest" "t \<le> now"
    and peer: "fst peer \<or> snd peer = []" and g: "givable now pkts (q\<lparr>transmitList := rest\<rparr>) (snd peer)"
  obtains q' where "sendDeferredPacket now pkts peer q = Inr q'" "event_ok now q'" "armed q'"
    "forceOrder q' = forceOrder q" "sanityCheckOff q' = sanityCheckOff q"
    "if fst peer then \<not> waitingOnRetry q' \<and> added pkts (snd peer) q rest (transmitList q')
     else waitingOnRetry q' \<and> transmitList q' = transmitList q"
proof -
  let ?q1 = "q\<lparr>transmitList := rest\<rparr>"
  have E: "event_ok now ?q1" using w by (simp add: event_ok_def)
  obtain q2 where q2: "sched_all now pkts (snd peer) ?q1 = Inr q2" "framed ?q1 q2" "event_ok now q2"
    "added pkts (snd peer) ?q1 rest (transmitList q2)"
    by (rule sched_all_ok[OF E g]) (simp add: that)
  have rdy: "deferredPacketReady now q" by (simp add: deferredPacketReady_def l)
  have w2: "\<not> waitingOnRetry q2" using q2(2) w by (simp add: framed_def)
  show thesis
  proof (cases "fst peer")
    case True
    have same: "q2\<lparr>waitingOnRetry := False\<rparr> = q2" using w2 by (cases q2) simp
    have run: "sendDeferredPacket now pkts peer q = schedSendEvent now (deferredPacketReadyTime q2) q2"
      using w(1) rdy q2(1) True by (simp add: sendDeferredPacket_def l Let_def same)
    have ev: "\<forall>w. sendEvent q2 = Some w \<longrightarrow> now \<le> w" using q2(3) by (simp add: event_ok_def)
    obtain q' where q': "schedSendEvent now (deferredPacketReadyTime q2) q2 = Inr q'" "framed q2 q'" "transmitList q' = transmitList q2"
      "\<forall>w. sendEvent q' = Some w \<longrightarrow> now \<le> w \<and> (deferredPacketReadyTime q2 \<noteq> MaxTick \<longrightarrow> deferredPacketReadyTime q2 \<le> w \<or>
         sendEvent q2 = Some w \<and> w \<le> max (deferredPacketReadyTime q2) (now + 1))"
      "deferredPacketReadyTime q2 \<noteq> MaxTick \<longrightarrow> sendEvent q' \<noteq> None" "deferredPacketReadyTime q2 = MaxTick \<longrightarrow> sendEvent q' = sendEvent q2"
      by (rule schedSendEvent_ok[OF ev w2], rule that)
    have rt: "transmitList q2 \<noteq> [] \<Longrightarrow> deferredPacketReadyTime q2 = fst (hd (transmitList q2))"
      "transmitList q2 = [] \<Longrightarrow> deferredPacketReadyTime q2 = MaxTick"
      by (cases "transmitList q2"; simp add: deferredPacketReadyTime_def)+
    have E2: "\<forall>w. sendEvent q2 = Some w \<longrightarrow> now \<le> w \<and> transmitList q2 \<noteq> [] \<and> fst (hd (transmitList q2)) \<le> w"
      using q2(3) by (simp add: event_ok_def)
    have "event_ok now q'"
    proof (cases "transmitList q2 = []")
      case True
      then have "sendEvent q2 = None" using E2 by (cases "sendEvent q2") auto
      then show ?thesis using q'(2,6) w2 rt(2)[OF True] by (simp add: event_ok_def framed_def)
    next
      case False
      have "fst (hd (transmitList q2)) \<le> w" if "sendEvent q' = Some w" for w
        using that q'(4,6) E2 rt(1)[OF False] by (cases "deferredPacketReadyTime q2 = MaxTick") auto
      then show ?thesis using q'(2,3,4) w2 False by (auto simp: event_ok_def framed_def)
    qed
    moreover have "armed q'" using q'(3,5) rt by (auto simp: armed_def)
    ultimately show thesis using that run q'(1,2,3) q2(2,4) w2 True by (simp add: framed_def added_def)
  next
    case False
    then have "snd peer = []" using peer by simp
    then have "q2 = ?q1" using q2(1) by simp
    then have "sendDeferredPacket now pkts peer q = Inr (q\<lparr>waitingOnRetry := True\<rparr>)"
      using w(1) rdy q2(1) False by (simp add: sendDeferredPacket_def l Let_def)
    then show thesis using that[of "q\<lparr>waitingOnRetry := True\<rparr>"] False w l by (simp add: event_ok_def armed_def)
  qed
qed


section \<open>Runs\<close>

text \<open>The packets the peer gives back are not late, no express snoops, and do not overfill the queue.\<close>

definition reply_ok :: "tick \<Rightarrow> (nat \<Rightarrow> port_packet) \<Rightarrow> pqueue \<Rightarrow> reply \<Rightarrow> bool" where
  "reply_ok now pkts q peer \<longleftrightarrow> (fst peer \<or> snd peer = []) \<and> givable now pkts (q\<lparr>transmitList := tl (transmitList q)\<rparr>) (snd peer)"

type_synonym sent = "nat \<times> tick \<times> tick"

definition note_sent :: "reply \<Rightarrow> pqueue \<Rightarrow> tick \<Rightarrow> sent list \<Rightarrow> sent list" where
  "note_sent peer q now log = (if fst peer then log @ [(snd (hd (transmitList q)), fst (hd (transmitList q)), now)] else log)"

inductive pq_run ::
    "bool \<Rightarrow> bool \<Rightarrow> (nat \<Rightarrow> port_packet) \<Rightarrow> (nat \<times> tick) list \<Rightarrow> sent list \<Rightarrow> tick \<Rightarrow> pqueue \<Rightarrow> bool" for fo off pkts where
  start: "pq_run fo off pkts [] [] 0 (new_pqueue fo off)"
| give: "pq_run fo off pkts given log now q \<Longrightarrow> now \<le> t \<Longrightarrow> \<forall>w. sendEvent q = Some w \<longrightarrow> t \<le> w \<Longrightarrow>
    givable t pkts q [(n, due)] \<Longrightarrow> schedSendTiming t pkts n due q = Inr q' \<Longrightarrow> pq_run fo off pkts (given @ [(n, due)]) log t q'"
| send: "pq_run fo off pkts given log now q \<Longrightarrow> sendEvent q = Some t \<Longrightarrow> reply_ok t pkts q peer \<Longrightarrow>
    processSendEvent t pkts peer (q\<lparr>sendEvent := None\<rparr>) = Inr q' \<Longrightarrow>
    pq_run fo off pkts (given @ snd peer) (note_sent peer q t log) t q'"
| again: "pq_run fo off pkts given log now q \<Longrightarrow> waitingOnRetry q \<Longrightarrow> now \<le> t \<Longrightarrow> reply_ok t pkts q peer \<Longrightarrow>
    pq_retry t pkts peer q = Inr q' \<Longrightarrow> pq_run fo off pkts (given @ snd peer) (note_sent peer q t log) t q'"

definition pq_inv :: "bool \<Rightarrow> bool \<Rightarrow> (nat \<Rightarrow> port_packet) \<Rightarrow> (nat \<times> tick) list \<Rightarrow> sent list \<Rightarrow> tick \<Rightarrow> pqueue \<Rightarrow> bool" where
  "pq_inv fo off pkts given log now q \<longleftrightarrow> event_ok now q \<and> armed q \<and> forceOrder q = fo \<and> sanityCheckOff q = off \<and>
     mset given = mset (map (\<lambda>(n, due, t). (n, due)) log) + mset (map prod.swap (transmitList q)) \<and>
     (\<forall>(n, due, t) \<in> set log. due \<le> t) \<and>
     (fo \<longrightarrow> (\<forall>a. filter (same_addr pkts a) (map fst given) =
        filter (same_addr pkts a) (map fst log @ map snd (transmitList q)))) \<and>
     (\<not> fo \<longrightarrow> sorted (map fst (transmitList q)))"

lemma event_later: "event_ok now q \<Longrightarrow> now \<le> t \<Longrightarrow> \<forall>w. sendEvent q = Some w \<longrightarrow> t \<le> w \<Longrightarrow> event_ok t q"
  by (auto simp: event_ok_def)

lemma added_inv:
  assumes I: "pq_inv fo off pkts given log now q" and a: "added pkts l q xs (transmitList q')"
    and lg: "map (\<lambda>(n, due, t). (n, due)) log' = map (\<lambda>(n, due, t). (n, due)) log @ map prod.swap pre"
    and q: "transmitList q = pre @ xs" and due: "\<forall>(n, due, t) \<in> set log'. due \<le> t"
    and q': "event_ok t q'" "armed q'" "forceOrder q' = forceOrder q" "sanityCheckOff q' = sanityCheckOff q"
  shows "pq_inv fo off pkts (given @ l) log' t q'"
proof -
  have fo: "forceOrder q = fo" using I by (simp add: pq_inv_def)
  have names: "map fst log' = map fst log @ map snd pre"
  proof -
    have e: "map fst L = map fst (map (\<lambda>(n, due, t). (n, due)) L)" for L :: "sent list" by (simp add: comp_def case_prod_beta)
    show ?thesis unfolding e[of log'] lg e[of log] by (simp add: comp_def)
  qed
  have "mset (given @ l) = mset (map (\<lambda>(n, due, t). (n, due)) log') + mset (map prod.swap (transmitList q'))"
    using I a unfolding pq_inv_def added_def lg by (simp add: q)
  moreover have "fo \<longrightarrow> (\<forall>a. filter (same_addr pkts a) (map fst (given @ l)) =
      filter (same_addr pkts a) (map fst log' @ map snd (transmitList q')))"
    using I a unfolding pq_inv_def added_def fo names q by simp
  moreover have "\<not> fo \<longrightarrow> sorted (map fst (transmitList q'))"
    using I a unfolding pq_inv_def added_def fo q by (simp add: sorted_append)
  ultimately show ?thesis using I q' due by (simp add: pq_inv_def)
qed

lemma give_inv:
  assumes I: "pq_inv fo off pkts given log now q" and t: "now \<le> t" "\<forall>w. sendEvent q = Some w \<longrightarrow> t \<le> w"
    and g: "givable t pkts q [(n, due)]"
  obtains q' where "schedSendTiming t pkts n due q = Inr q'" "pq_inv fo off pkts (given @ [(n, due)]) log t q'"
proof -
  have E: "event_ok t q" using event_later[of now q t] I t by (simp add: pq_inv_def)
  obtain q' where q': "schedSendTiming t pkts n due q = Inr q'" "framed q q'" "event_ok t q'" "armed q \<longrightarrow> armed q'"
    "put (\<lambda>m. forceOrder q \<and> matchAddr (pkts m) (pkts n)) due n (transmitList q) (transmitList q')"
    by (rule schedSendTiming_ok[OF E g], rule that)
  have "pq_inv fo off pkts (given @ [(n, due)]) log t q'"
    by (rule added_inv[OF I added_put[OF q'(5)], of log "[]"])
      (use I q'(2-4) in \<open>simp_all add: pq_inv_def framed_def\<close>)
  then show thesis using that q'(1) by blast
qed

text \<open>Sending, from the state the send event or a retry calls it in.\<close>

lemma deferred_inv:
  assumes I: "pq_inv fo off pkts given log now q" and q0: "q0 = q\<lparr>sendEvent := None, waitingOnRetry := False\<rparr>"
    and l: "transmitList q \<noteq> []" "fst (hd (transmitList q)) \<le> t" and r: "reply_ok t pkts q peer"
  obtains q' where "sendDeferredPacket t pkts peer q0 = Inr q'"
    "pq_inv fo off pkts (given @ snd peer) (note_sent peer q t log) t q'"
proof -
  obtain due n rest where x: "transmitList q = (due, n) # rest" using l(1) by (cases "transmitList q") auto
  have x0: "transmitList q0 = (due, n) # rest" "\<not> waitingOnRetry q0" "sendEvent q0 = None" by (simp_all add: q0 x)
  have d: "due \<le> t" using l(2) x by simp
  have p: "fst peer \<or> snd peer = []" and g: "givable t pkts (q0\<lparr>transmitList := rest\<rparr>) (snd peer)"
    using r by (simp_all add: reply_ok_def x q0 givable_def)
  obtain q' where q': "sendDeferredPacket t pkts peer q0 = Inr q'" "event_ok t q'" "armed q'"
    "forceOrder q' = forceOrder q0" "sanityCheckOff q' = sanityCheckOff q0"
    "if fst peer then \<not> waitingOnRetry q' \<and> added pkts (snd peer) q0 rest (transmitList q')
     else waitingOnRetry q' \<and> transmitList q' = transmitList q0"
    by (rule send_ok[OF x0(2,3,1) d p g], rule that)
  have due: "\<forall>(n, due, t) \<in> set log. due \<le> t" using I by (simp add: pq_inv_def)
  have "pq_inv fo off pkts (given @ snd peer) (note_sent peer q t log) t q'"
  proof (cases "fst peer")
    case True
    have "added pkts (snd peer) q rest (transmitList q')" using q'(6) True by (simp add: added_def q0)
    then show ?thesis
      by (rule added_inv[OF I, where pre = "[(due, n)]"]) (use True q' due d x in \<open>auto simp: note_sent_def q0\<close>)
  next
    case False
    then have "snd peer = []" using p by blast
    then show ?thesis using I q' False by (simp add: note_sent_def pq_inv_def q0)
  qed
  then show thesis using that q'(1) by blast
qed

lemma send_inv:
  assumes I: "pq_inv fo off pkts given log now q" and t: "sendEvent q = Some t" and r: "reply_ok t pkts q peer"
  obtains q' where "processSendEvent t pkts peer (q\<lparr>sendEvent := None\<rparr>) = Inr q'"
    "pq_inv fo off pkts (given @ snd peer) (note_sent peer q t log) t q'"
proof -
  have E: "event_ok now q" using I by (simp add: pq_inv_def)
  then have w: "\<not> waitingOnRetry q" using t by (auto simp: event_ok_def)
  then have e: "q\<lparr>sendEvent := None\<rparr> = q\<lparr>sendEvent := None, waitingOnRetry := False\<rparr>" by (cases q) simp
  have l: "transmitList q \<noteq> []" "fst (hd (transmitList q)) \<le> t" using E t by (simp_all add: event_ok_def)
  obtain q' where q': "sendDeferredPacket t pkts peer (q\<lparr>sendEvent := None\<rparr>) = Inr q'"
    "pq_inv fo off pkts (given @ snd peer) (note_sent peer q t log) t q'"
    by (rule deferred_inv[OF I e l r], rule that)
  show thesis by (rule that[OF _ q'(2)]) (use q'(1) w in \<open>simp add: processSendEvent_def\<close>)
qed

lemma again_inv:
  assumes I: "pq_inv fo off pkts given log now q" and w: "waitingOnRetry q" and t: "now \<le> t" and r: "reply_ok t pkts q peer"
  obtains q' where "pq_retry t pkts peer q = Inr q'" "pq_inv fo off pkts (given @ snd peer) (note_sent peer q t log) t q'"
proof -
  have E: "sendEvent q = None" "transmitList q \<noteq> []" "fst (hd (transmitList q)) \<le> now"
    using I w by (simp_all add: pq_inv_def event_ok_def)
  have e: "q\<lparr>waitingOnRetry := False\<rparr> = q\<lparr>sendEvent := None, waitingOnRetry := False\<rparr>" using E(1) by (cases q) simp
  have l: "fst (hd (transmitList q)) \<le> t" using E(3) t by simp
  obtain q' where q': "sendDeferredPacket t pkts peer (q\<lparr>waitingOnRetry := False\<rparr>) = Inr q'"
    "pq_inv fo off pkts (given @ snd peer) (note_sent peer q t log) t q'"
    by (rule deferred_inv[OF I e E(2) l r], rule that)
  show thesis by (rule that[OF _ q'(2)]) (use q'(1) w in \<open>simp add: pq_retry_def\<close>)
qed

lemma pq_run_inv: "pq_run fo off pkts given log now q \<Longrightarrow> pq_inv fo off pkts given log now q"
proof (induction rule: pq_run.induct)
  case start
  show ?case by (simp add: pq_inv_def new_pqueue_def event_ok_def armed_def)
next
  case (give given log now q t n due q')
  show ?case by (rule give_inv[OF give.IH give.hyps(2-4)]) (use give.hyps(5) in simp)
next
  case (send given log now q t peer q')
  show ?case by (rule send_inv[OF send.IH send.hyps(2,3)]) (use send.hyps(4) in simp)
next
  case (again given log now q t peer q')
  show ?case by (rule again_inv[OF again.IH again.hyps(2-4)]) (use again.hyps(5) in simp)
qed


section \<open>A read from a waiting packet\<close>

lemma copy_to_nth:
  assumes "i + length new \<le> length old"
  shows "length (copy_to i new old) = length old"
    "j < length old \<Longrightarrow> copy_to i new old ! j = (if i \<le> j \<and> j < i + length new then new ! (j - i) else old ! j)"
proof -
  show "length (copy_to i new old) = length old" using assms by (simp add: copy_to_def)
  show "copy_to i new old ! j = (if i \<le> j \<and> j < i + length new then new ! (j - i) else old ! j)" if "j < length old"
    using assms that by (auto simp: copy_to_def nth_append min_def)
qed

lemma all_valid:
  assumes "i + n \<le> length v" and "\<forall>j < length v. v' ! j = (if i \<le> j \<and> j < i + n then True else v ! j)" and "length v' = length v"
  shows "(list_all (\<lambda>b. b) (take i v) \<and> list_all (\<lambda>b. b) (drop (i + n) v')) = (\<forall>j < length v. v' ! j)"
proof -
  have t: "list_all (\<lambda>b. b) (take i v) = (\<forall>j < i. v ! j)" using assms(1) by (auto simp: list_all_length)
  have d: "list_all (\<lambda>b. b) (drop (i + n) v') = (\<forall>m < length v - (i + n). v' ! (i + n + m))"
    using assms(1,3) by (simp add: list_all_length)
  show ?thesis
    unfolding t d
  proof (intro iffI allI impI conjI)
    fix j assume h: "(\<forall>j < i. v ! j) \<and> (\<forall>m < length v - (i + n). v' ! (i + n + m))" and j: "j < length v"
    show "v' ! j"
    proof (cases "j < i + n")
      case True
      then show ?thesis using h j assms(2) by (cases "j < i") auto
    next
      case False
      then have "j = i + n + (j - (i + n))" by simp
      moreover have "j - (i + n) < length v - (i + n)" using j False by simp
      ultimately show ?thesis using h by metis
    qed
  next
    fix j assume h: "\<forall>j < length v. v' ! j" and j: "j < i"
    then have "j < length v" using assms(1) by simp
    then show "v ! j" using h j assms(2) by auto
  next
    fix m assume h: "\<forall>j < length v. v' ! j" and m: "m < length v - (i + n)"
    then show "v' ! (i + n + m)" by simp
  qed
qed

text \<open>A packet that is well formed: some bytes of data, no wrap-around, and as many valid flags once there are any.\<close>

definition sound_packet :: "port_packet \<Rightarrow> bool" where
  "sound_packet p \<longleftrightarrow> 0 < pk_size p \<and> pk_addr p + pk_size p \<le> u64_size \<and> length (pk_data p) = pk_size p \<and>
     (pk_bytesValid p = [] \<or> length (pk_bytesValid p) = pk_size p)"

definition holds :: "port_packet \<Rightarrow> addr \<Rightarrow> bool" where
  "holds p a \<longleftrightarrow> pk_addr p \<le> a \<and> a < pk_addr p + pk_size p"

definition byte_valid :: "port_packet \<Rightarrow> nat \<Rightarrow> bool" where
  "byte_valid p i = (pk_bytesValid p \<noteq> [] \<and> pk_bytesValid p ! i)"

lemma last_byte_eq: "sound_packet p \<Longrightarrow> last_byte p = pk_addr p + pk_size p - 1"
  by (simp add: sound_packet_def last_byte_def sub_tick_def)

section \<open>Properties\<close>


text \<open>
  C23. Every packet given to the queue is sent once or still waits, none is sent before it is due, and with
  forced order, which the port of the memory controller asks for, the packets of one address leave in the
  order they came; without it they leave in the order of their ticks.
\<close>

theorem packets_sent_in_order:
  assumes "pq_run fo off pkts given log now q"
  shows "mset given = mset (map (\<lambda>(n, due, t). (n, due)) log) + mset (map prod.swap (transmitList q)) \<and>
    (\<forall>(n, due, t) \<in> set log. due \<le> t) \<and>
    (fo \<longrightarrow> (\<forall>a. filter (same_addr pkts a) (map fst given) =
       filter (same_addr pkts a) (map fst log @ map snd (transmitList q)))) \<and>
    (\<not> fo \<longrightarrow> sorted (map fst (transmitList q)))"
  using pq_run_inv[OF assms] unfolding pq_inv_def by blast

text \<open>
  C40. A functional read takes from a waiting packet exactly the bytes the two share, marks them as valid and
  no others, leaves the waiting packet alone, and says it is done exactly when all its bytes are valid.
\<close>

theorem functional_read_exact:
  assumes p: "sound_packet p" "testCmdAttrib IsRead (pk_cmd p)" "\<not> testCmdAttrib IsPrint (pk_cmd p)"
    and x: "sound_packet x" "testCmdAttrib HasData (pk_cmd x)" "\<not> isMaskedWrite (packet.truncate x)"
    and both: "pk_secure x = pk_secure p" "holds p a" "holds x a"
  shows "\<exists>found p'. trySatisfyFunctional p x = Inr (found, p', x) \<and> found = (\<forall>i < pk_size p. byte_valid p' i) \<and>
    (\<forall>i < pk_size p. pk_data p' ! i =
       (if holds x (pk_addr p + i) then pk_data x ! (pk_addr p + i - pk_addr x) else pk_data p ! i) \<and>
       byte_valid p' i = (holds x (pk_addr p + i) \<or> byte_valid p i))"
proof -
  let ?a = "pk_addr p" and ?b = "pk_addr x" and ?n = "pk_size p" and ?m = "pk_size x"
  let ?vo = "if ?b < ?a then ?a - ?b else 0" and ?fo = "if ?a < ?b then ?b - ?a else 0"
  let ?ov = "min (last_byte x) (last_byte p) + 1 - max ?b ?a"
  let ?new = "take ?ov (drop ?vo (pk_data x))"
  let ?v = "if pk_bytesValid p = [] then replicate ?n False else pk_bytesValid p"
  let ?v' = "copy_to ?fo (replicate (length ?new) True) ?v"
  have sz: "0 < ?n" "0 < ?m" "length (pk_data p) = ?n" "length (pk_data x) = ?m" "length ?v = ?n"
    using p(1) x(1) by (auto simp: sound_packet_def)
  note lb = last_byte_eq[OF p(1)] last_byte_eq[OF x(1)]
  have h: "?a \<le> a" "a < ?a + ?n" "?b \<le> a" "a < ?b + ?m" using both(2,3) by (simp_all add: holds_def)
  have ln: "length ?new = ?ov" using sz h by (simp add: lb)
  have fit: "?fo + ?ov \<le> ?n" using sz(1,2) h by (simp add: lb min_def max_def) linarith
  have in_x: "(?fo \<le> i \<and> i < ?fo + ?ov) = holds x (?a + i)" if "i < ?n" for i
    using that sz h by (auto simp: lb holds_def min_def max_def split: if_splits)
  have at: "?new ! (i - ?fo) = pk_data x ! (?a + i - ?b)" if "i < ?n" "holds x (?a + i)" for i
  proof -
    have "?fo \<le> i" "i - ?fo < ?ov" using in_x[OF that(1)] that(2) by auto
    moreover have "?vo + (i - ?fo) = ?a + i - ?b" using \<open>?fo \<le> i\<close> by (simp split: if_splits)
    moreover have "?vo \<le> ?m" using h by auto
    ultimately show ?thesis using sz(4) by simp
  qed
  define fo where "fo = ?fo"
  define ov where "ov = ?ov"
  define new where "new = ?new"
  define v where "v = ?v"
  define v' where "v' = copy_to fo (replicate (length new) True) v"
  define p' where "p' = p\<lparr>pk_data := copy_to fo new (pk_data p), pk_bytesValid := v'\<rparr>"
  define found where "found = (list_all (\<lambda>b. b) (take fo v) \<and> list_all (\<lambda>b. b) (drop (fo + length new) v'))"
  note f = fo_def ov_def new_def
  note ln = ln[folded f] and fit = fit[folded f] and in_x = in_x[folded f] and at = at[folded f]
  have lv: "length v = ?n" unfolding v_def by (rule sz(5))
  have g: "\<not> (pk_secure x \<noteq> pk_secure p \<or> last_byte x < ?a \<or> last_byte p < ?b)" "\<not> \<not> testCmdAttrib HasData (pk_cmd x)"
    using both(1) h x(2) by (auto simp: lb)
  have run: "trySatisfyFunctional p x = Inr (found, p', x)"
    unfolding trySatisfyFunctional_def if_not_P[OF x(3)] if_not_P[OF g(1)] if_not_P[OF p(3)] if_not_P[OF g(2)] satisfy_data_def
      Let_def if_P[OF p(2)] read_from_def prod.case found_def p'_def v'_def v_def new_def fo_def by (rule refl)
  have c: "fo + length (replicate (length new) True) \<le> length v" "fo + length new \<le> length (pk_data p)"
    using fit ln lv sz(3) by simp_all
  note cv = copy_to_nth[OF c(1), folded v'_def]
  have v': "v' ! i = (if fo \<le> i \<and> i < fo + ov then True else v ! i)" if "i < ?n" for i
    using cv(2)[of i] that ln lv by auto
  have ne: "v' \<noteq> []" using cv(1) lv sz(1) by auto
  have bv: "byte_valid p' i = (holds x (?a + i) \<or> byte_valid p i)" if "i < ?n" for i
    using v'[OF that] in_x[OF that] that ne by (auto simp: byte_valid_def p'_def v_def split: if_splits)
  have dt: "pk_data p' ! i = (if holds x (?a + i) then pk_data x ! (?a + i - ?b) else pk_data p ! i)" if "i < ?n" for i
  proof -
    have "pk_data p' ! i = (if fo \<le> i \<and> i < fo + ov then new ! (i - fo) else pk_data p ! i)"
      using copy_to_nth(2)[OF c(2), of i] that sz(3) ln by (simp add: p'_def)
    then show ?thesis using in_x[OF that] at[OF that] by simp
  qed
  have "found = (\<forall>i < ?n. byte_valid p' i)"
  proof -
    have "\<forall>j < length v. v' ! j = (if fo \<le> j \<and> j < fo + ov then True else v ! j)" using v' lv by simp
    from all_valid[OF _ this cv(1)] have "found = (\<forall>j < length v. v' ! j)" using fit lv ln unfolding found_def by simp
    then show ?thesis using ne lv by (simp add: byte_valid_def p'_def)
  qed
  then show ?thesis using run bv dt by blast
qed


text \<open>Two answers for one address, the second due before the first: with forced order it waits for the first.\<close>

definition demo_port :: "nat \<Rightarrow> port_packet" where
  "demo_port n = \<lparr>pk_cmd = ReadResp, pk_requestor = 0, pk_qos = 0, pk_addr = 64, pk_size = 4, pk_data = [1, 2, 3, 4],
     cacheResponding = False, headerDelay = 0, payloadDelay = 0, rq_paddr = 64, rq_contextId = None, rq_extraData = None,
     rq_condSwap = False, rq_atomicOp = None, rq_instFetch = False, rq_byteEnable = [], pk_secure = False,
     pk_expressSnoop = False, pk_bytesValid = []\<rparr>"

definition demo_queue :: pqueue where
  "demo_queue = (new_pqueue True False)\<lparr>transmitList := [(20, 0), (10, 1)], sendEvent := Some 20\<rparr>"

lemma demo_pq_run: "pq_run True False demo_port [(0, 20), (1, 10)] [] 5 demo_queue"
proof -
  let ?q = "(new_pqueue True False)\<lparr>transmitList := [(20, 0)], sendEvent := Some 20\<rparr>"
  have 1: "pq_run True False demo_port ([] @ [(0, 20)]) [] 5 ?q"
    by (rule pq_run.give[OF pq_run.start])
      (simp_all add: new_pqueue_def givable_def demo_port_def schedSendTiming_def schedSendEvent_def schedule_def MaxTick_def)
  have "pq_run True False demo_port (([] @ [(0, 20)]) @ [(1, 10)]) [] 5 demo_queue"
    by (rule pq_run.give[OF 1])
      (simp_all add: new_pqueue_def givable_def demo_port_def schedSendTiming_def demo_queue_def matchAddr_def)
  then show ?thesis by simp
qed


theorem packets_sent_in_order_witness:
  "filter (same_addr demo_port 0) [0, 1] = filter (same_addr demo_port 0) (map snd (transmitList demo_queue))"
  using packets_sent_in_order[OF demo_pq_run] by simp

theorem functional_read_exact_witness:
  "\<exists>found p'. trySatisfyFunctional ((demo_port 0)\<lparr>pk_cmd := ReadReq, pk_addr := 66, pk_data := [0, 0, 0, 0]\<rparr>) (demo_port 1) =
     Inr (found, p', demo_port 1) \<and> pk_data p' ! 1 = 4 \<and> pk_data p' ! 2 = 0 \<and> \<not> found"
proof -
  let ?p = "(demo_port 0)\<lparr>pk_cmd := ReadReq, pk_addr := 66, pk_data := [0, 0, 0, 0]\<rparr>" and ?x = "demo_port 1"
  have "\<exists>found p'. trySatisfyFunctional ?p ?x = Inr (found, p', ?x) \<and> found = (\<forall>i < pk_size ?p. byte_valid p' i) \<and>
    (\<forall>i < pk_size ?p. pk_data p' ! i =
       (if holds ?x (pk_addr ?p + i) then pk_data ?x ! (pk_addr ?p + i - pk_addr ?x) else pk_data ?p ! i) \<and>
       byte_valid p' i = (holds ?x (pk_addr ?p + i) \<or> byte_valid ?p i))"
    by (rule functional_read_exact[where a = 66])
      (simp_all add: demo_port_def sound_packet_def holds_def testCmdAttrib_def isMaskedWrite_def packet.defs)
  then obtain found p' where r: "trySatisfyFunctional ?p ?x = Inr (found, p', ?x)" "found = (\<forall>i < pk_size ?p. byte_valid p' i)"
    "\<forall>i < pk_size ?p. pk_data p' ! i =
       (if holds ?x (pk_addr ?p + i) then pk_data ?x ! (pk_addr ?p + i - pk_addr ?x) else pk_data ?p ! i) \<and>
       byte_valid p' i = (holds ?x (pk_addr ?p + i) \<or> byte_valid ?p i)" by blast
  have "pk_data p' ! 1 = 4" "pk_data p' ! 2 = 0" "\<not> byte_valid p' 2"
    using r(3)[rule_format, of 1] r(3)[rule_format, of 2] by (simp_all add: demo_port_def holds_def byte_valid_def)
  moreover have "2 < pk_size ?p" by (simp add: demo_port_def)
  ultimately show ?thesis using r(1,2) by blast
qed

text \<open>
  A peer that refuses a packet after it has given another one to the queue leaves the send event pending
  although the queue waits; at its tick \<open>processSendEvent\<close> fails.
\<close>

lemma refusing_peer_breaks:
  "\<exists>q. processSendEvent 20 demo_port (False, [(1, 30)]) ((new_pqueue True False)\<lparr>transmitList := [(20, 0)]\<rparr>) = Inr q \<and>
     sendEvent q = Some 30 \<and> processSendEvent 30 demo_port (True, []) (q\<lparr>sendEvent := None\<rparr>) = Inl Assert_Fail"
  by (simp add: processSendEvent_def sendDeferredPacket_def deferredPacketReady_def new_pqueue_def schedSendTiming_def
      schedSendEvent_def schedule_def demo_port_def MaxTick_def Let_def)

end
