(* ===== verification/Spec2Isabelle.thy ===== *)
theory Spec2Isabelle
  imports Misra_Gries Row_Swap_Safe Row_Quar_Safe Block_Hammer Cmd_Bus Addr_Map Addr_Range_Safe Event_Queue_Safe
    Dram_Iface Qos_Safe Nvm_Iface RH_Config Abstract_Mem Mem_Ctrl_Run Packet_Queue_Safe
    "HOL-Library.Sublist"
begin

text \<open>
  Rowhammer mitigation in the memory system of gem5: the AQUA fork of the simulator, whose memory
  controller runs every DRAM request through a detector of aggressor rows and one of three defenses.
  All paths below are under \<open>src/gem5/src/mem/\<close> unless they name another directory.

  \<^bold>\<open>The program.\<close> A packet that reaches the controller (\<open>mem_ctrl.cc\<close>) is split into bursts, each burst
  is decoded to rank, bank and row, and the defense is asked for a decision: it may move the row and it
  returns delays. Later the controller chooses a burst from its queues, the DRAM interface
  (\<open>mem_interface.cc\<close>) opens the row and issues the burst under the timing rules of the device, and
  command slots on the bus are reserved. Each rank runs a state machine for refresh and power-down
  beside it.

  \<^bold>\<open>Theories and code.\<close>
  \<^item> \<open>RH_Prelude\<close>: ticks, addresses, 32-bit arithmetic with its wrap-around, and results. A run that
    ends in an assertion, a panic, a fatal error, a division by zero or an access out of an array is a
    value \<open>Inl error\<close>; a loop that may not end is a \<open>partial_function (option)\<close>.
  \<^item> \<open>Detector_Spec\<close>, \<open>Misra_Gries\<close>: \<open>rowhammer_detector.cc\<close>, a Misra-Gries tracker per bank. A locale states
    what a scheme relies on; the tracker is its interpretation.
  \<^item> \<open>RH_Mitigation\<close>: the state and the shared operations of \<open>rowhammer_mitigation.cc\<close>.
  \<^item> \<open>Row_Swap\<close>, \<open>Row_Swap_Safe\<close>: \<open>Randomized_Row_Swap\<close>, tables of swapped rows, and its safety in a window.
  \<^item> \<open>Murmur_Hash\<close>, \<open>Bloom_Filter\<close>, \<open>Func_Cache\<close>: the hash, the counting filter and the mapping cache used by the
    quarantine.
  \<^item> \<open>Row_Quar\<close>, \<open>Row_Quar_Inv\<close>, \<open>Row_Quar_Safe\<close>: \<open>Row_Quarantine\<close> (AQUA), its operations, the invariant of its
    tables and its safety.
  \<^item> \<open>Block_Hammer\<close>: \<open>BlockHammer\<close>, which throttles rows instead of moving them.
  \<^item> \<open>Cmd_Bus\<close>: the reservation of command slots in \<open>mem_ctrl.cc\<close>.
  \<^item> \<open>Addr_Map\<close>: splitting into bursts and decoding of addresses.
  \<^item> \<open>Dram_Rank\<close>, \<open>Dram_Bank\<close>, \<open>Dram_Burst\<close>: banks and ranks of the DRAM interface, activation, precharge and
    bursts with all timing constraints.
  \<^item> \<open>Dram_Select\<close>: the FR-FCFS choice of the next packet.
  \<^item> \<open>Rank_Power\<close>: the refresh and power state machine of a rank.
  \<^item> \<open>Dram_Iface\<close>: construction and the operations over all ranks, and \<open>base/intmath.hh\<close>.
  \<^item> \<open>Nvm_Iface\<close>: the NVM interface, its read events and pending writes.
  \<^item> \<open>Qos_Ctrl\<close>, \<open>Qos_Safe\<close>: \<open>qos/*.cc\<close>, the counts of packets by requestor and priority, the policies and the
    turnaround.
  \<^item> \<open>Abstract_Mem\<close>: commands and packets, load-locked reservations and functional access.
  \<^item> \<open>RH_Config\<close>: construction of the defenses from the parameters, and their call for each burst.
  \<^item> \<open>Mem_Ctrl\<close>: the controller of \<open>mem_ctrl.{hh,cc}\<close>, construction, arrival of packets, the request and response
    events, draining. \<open>Mem_Ctrl_Queue\<close> holds the invariant of its queues, \<open>Mem_Ctrl_Defense\<close> the contract
    \<open>answering_defense\<close> the controller relies on, interpreted on each of the three defenses, and
    \<open>Mem_Ctrl_Accept\<close> the properties of arrivals. \<open>Mem_Ctrl_Serve\<close> and \<open>Mem_Ctrl_Reads\<close> follow the bursts
    through the request and the response event of a controller with DRAM only, and \<open>Mem_Ctrl_Run\<close> puts
    construction, arrivals and events together as a state machine.
  \<^item> \<open>Packet_Queue\<close>, \<open>Packet_Queue_Safe\<close>: \<open>packet_queue.{hh,cc}\<close>, the queue through which the controller sends
    its answers, and functional access to the packets that wait in it.
  \<^item> \<open>Addr_Range\<close>, \<open>Addr_Range_Safe\<close>: \<open>base/addr_range.hh\<close>, by which memory is interleaved over controllers.
  \<^item> \<open>Event_Queue\<close>, \<open>Event_Queue_Safe\<close>: \<open>sim/eventq.{hh,cc}\<close>, the linked bins of events, refined to a list of bins.

  \<^bold>\<open>What the lemmas show.\<close> The detector flags every row each time its accesses pass a multiple of the
  threshold, within a window of bounded length. Under that contract row swap gives every aggressor a
  fresh place, quarantine moves exactly the flagged rows and keeps forward table, reverse table,
  filter and cache consistent, and BlockHammer keeps every row short of the threshold. The filter has
  no false negatives. A burst of the DRAM interface never violates an assertion, keeps \<open>tRRD\<close>, \<open>tXAW\<close>,
  \<open>tRP\<close> and the spacing of data bursts; the selection of FR-FCFS is the stated policy and never idles when
  a packet is ready; a rank counts its outstanding events exactly and returns from every refresh.
  The QoS controller keeps its counts equal to the queued packets through escalation, which ends; the NVM
  interface counts its pending reads; the list of reservations is a map from contexts to lines. The
  controller that the constructor returns is consistent, and the arrival of a packet runs without error
  for each of the defenses, keeps the queues, forwards reads from queued writes and merges writes. With
  DRAM only and between refreshes no handler of the controller fails in any reachable state, each read is
  answered exactly once, and it is answered in a bounded number of events (\<open>Mem_Ctrl_Run\<close>). The
  packet queue of its port never fails or stalls and keeps the order of the packets of each address; the two
  together deliver each read once (\<open>answers_delivered_once\<close>, at the end of this theory). The
  ranges of the channels partition memory with offsets that determine the address; the pointers of the
  event queue implement an ordered list of bins, events run in order, and its loops return.

  \<^bold>\<open>Numbers.\<close> 32-bit and 64-bit unsigned integers are naturals with the wrap-around written out where it
  can be reached (\<open>sub32\<close>, \<open>inc32\<close>, \<open>sub_tick\<close>); hash values and bank masks are words. Statistics are
  unbounded. \<open>rand()\<close> is an argument, the list of the numbers it returns. Fuel appears only where the
  code bounds its own loop, and in \<open>serve_events\<close>, where the fuel \<open>work s\<close> (two for each queued read, one for
  each queued write and each answer due) is proved to be enough.

  Addresses in \<open>Addr_Range\<close> are words, as the code works on their bits.

  \<^bold>\<open>Not modelled.\<close> Registration and output of statistics, the connections of ports (what the controller sends
  is recorded), the DRAMPower library, tracing, mutexes, serialization and checkpoints; and everything else
  of the simulator with the libraries it vendors, which does not take part in the mitigation. The handlers
  of the controller are functions of the current tick; \<open>Mem_Ctrl_Run\<close> leaves their order open. Its state
  machine has no NVM, no power-down, no refresh and no drain: those handlers are modelled and have their own
  properties, but a controller that refreshes while it serves is not covered by the theorems on runs.
\<close>

section \<open>From the controller to its peer\<close>

text \<open>
  C13. The controller and the packet queue of its port together: when the queue has been given exactly the
  answers the controller has sent, in their order, each read that the controller took has been delivered to
  the peer or waits in the queue, once in all, as soon as none of its bursts waits in the controller; before
  that it is in neither place. What the peer has got, it got in the order of the answers for each address.
\<close>

theorem answers_delivered_once:
  assumes "running c d k reqs s" and "pq_run True off pkts (responsesSent s) log now q"
    and "reqs n = Some pkt" and "\<not> isWrite pkt"
  shows "count_list (map fst log) n + count_list (map snd (transmitList q)) n =
      of_bool (n \<notin> mp_pkt ` set (concat (readQueue s) @ respQueue s)) \<and>
    (\<forall>a. prefix (filter (same_addr pkts a) (map fst log)) (filter (same_addr pkts a) (map fst (responsesSent s))))"
proof -
  have I: "pq_inv True off pkts (responsesSent s) log now q" by (rule pq_run_inv[OF assms(2)])
  have "mset (map fst (responsesSent s)) = mset (map fst log) + mset (map snd (transmitList q))"
  proof -
    have "mset (map fst (responsesSent s)) = image_mset fst (mset (responsesSent s))" by simp
    also have "\<dots> = mset (map fst log) + mset (map snd (transmitList q))"
      using I unfolding pq_inv_def by (simp add: multiset.map_comp comp_def case_prod_beta)
    finally show ?thesis .
  qed
  then have "count_list (map fst (responsesSent s)) n = count_list (map fst log) n + count_list (map snd (transmitList q)) n"
    by (metis count_mset count_union)
  moreover have "count_list (map fst (responsesSent s)) n = of_bool (bursts_due s n = {#})"
    unfolding run_invD(7)[OF run_kept[OF assms(1)]] using assms(3,4) by (simp add: answers_of_def)
  moreover have "\<forall>a. prefix (filter (same_addr pkts a) (map fst log)) (filter (same_addr pkts a) (map fst (responsesSent s)))"
    using I unfolding pq_inv_def by (simp add: prefix_def)
  ultimately show ?thesis using in_flight[of n s] by simp
qed

lemma single_answer:
  assumes "\<And>x. count_list (map fst l) x = (if x = n then 1 else 0)"
  obtains t where "l = [(n, t)]"
proof -
  have "mset (map fst l) = {#n#}" by (rule multiset_eqI) (simp add: count_mset assms del: mset_map)
  then have "map fst l = [n]" by (simp del: mset_map)
  then show thesis using that by (cases l) auto
qed


text \<open>The example controller answers its read, and the queue of its port has the answer.\<close>

theorem answers_delivered_once_witness:
  "\<forall>j junk rh pkts nv nm. \<exists>c s s' s'' d q. new_ctrl (demo_params False\<lparr>mem_sched_policy := Fcfs\<rparr>) j junk rh pkts demo_media
       (ddr4_dram, nv, plain_mem (2 ^ 33), nm) = Inr (c, s :: nat mem_ctrl) \<and>
     recvTimingReq c 1000 0 (demo_pkt ReadReq 60 8) s = Inr (True, s') \<and>
     serve_events c d (\<lambda>_. True) (work s') s' = Inr s'' \<and> pq_run True False demo_port (responsesSent s'') [] 0 q \<and>
     count_list (map snd (transmitList q)) 0 = 1"
proof (intro allI)
  fix j junk rh pkts nv nm
  obtain c d and s s' :: "nat mem_ctrl" where n: "new_ctrl (demo_params False\<lparr>mem_sched_policy := Fcfs\<rparr>) j junk rh pkts demo_media
      (ddr4_dram, nv, plain_mem (2 ^ 33), nm) = Inr (c, s)"
    "recvTimingReq c 1000 0 (demo_pkt ReadReq 60 8) s = Inr (True, s')" "memSchedPolicy c = Fcfs"
    "running c d 6 [0 \<mapsto> demo_pkt ReadReq 60 8] s'"
    by (rule demo_running)
  obtain s'' where e: "serve_events c d (\<lambda>_. True) (work s') s' = Inr s''" "running c d 6 [0 \<mapsto> demo_pkt ReadReq 60 8] s''"
    "flight s'' = {#}"
    using serve_events_ok[OF n(4,3) order_refl] by blast
  have "count_list (map fst (responsesSent s'')) x = (if x = 0 then 1 else 0)" for x
    unfolding run_invD(7)[OF run_kept[OF e(2)]] using e(3) by (simp add: answers_of_def bursts_due_def testCmdAttrib_def)
  then obtain t where t: "responsesSent s'' = [(0, t)]" by (rule single_answer)
  have g: "givable 0 demo_port (new_pqueue True False) [(0, t)]" by (simp add: givable_def new_pqueue_def demo_port_def)
  have st: "\<forall>w. sendEvent (new_pqueue True False) = Some w \<longrightarrow> 0 \<le> w" by simp
  obtain q where q: "schedSendTiming 0 demo_port 0 t (new_pqueue True False) = Inr q"
    by (rule give_inv[OF pq_run_inv[OF pq_run.start] _ st g]) simp_all
  have run: "pq_run True False demo_port (responsesSent s'') [] 0 q"
    using pq_run.give[OF pq_run.start _ st g q] by (simp add: t)
  have r: "[0 \<mapsto> demo_pkt ReadReq 60 8] 0 = Some (demo_pkt ReadReq 60 8)" "\<not> isWrite (demo_pkt ReadReq 60 8)"
    by (simp_all add: testCmdAttrib_def)
  have "0 \<notin> mp_pkt ` set (concat (readQueue s'') @ respQueue s'')"
    using e(3) in_flight[of 0 s''] by (simp add: bursts_due_def)
  then have "count_list (map snd (transmitList q)) 0 = 1"
    using answers_delivered_once[OF e(2) run r] by simp
  then show "\<exists>c s s' s'' d q. new_ctrl (demo_params False\<lparr>mem_sched_policy := Fcfs\<rparr>) j junk rh pkts demo_media
       (ddr4_dram, nv, plain_mem (2 ^ 33), nm) = Inr (c, s :: nat mem_ctrl) \<and>
     recvTimingReq c 1000 0 (demo_pkt ReadReq 60 8) s = Inr (True, s') \<and>
     serve_events c d (\<lambda>_. True) (work s') s' = Inr s'' \<and> pq_run True False demo_port (responsesSent s'') [] 0 q \<and>
     count_list (map snd (transmitList q)) 0 = 1"
    using n(1,2) e(1) run by blast
qed

end
